(* ===== verification/Prelude.thy ===== *)
theory Prelude
  imports Main "HOL-Library.Word" "HOL-Library.Sublist"
begin

text \<open>
  Generic material the components share: byte strings and Python slices, big-endian
  integers as \<open>int.from_bytes\<close>, \<open>int.to_bytes\<close> and the \<open>struct\<close> formats read and write
  them, and the fact collections the component proofs use. Nothing here is about one
  particular module of the program.
\<close>

unbundle bit_operations_syntax

named_theorems res_simps \<open>unfolding the result monad\<close>
named_theorems slice_simps \<open>lengths and elements of slices\<close>
named_theorems const_defs \<open>definitions of the program's numeric constants\<close>

subsection \<open>Bytes and slices\<close>

type_synonym byte = "8 word"
type_synonym bytes = "byte list"

text \<open>
  \<open>xs[a:b]\<close> for non-negative bounds: Python clamps both to the length and yields the
  empty list when \<open>b\<close> is at most \<open>a\<close>.
\<close>

definition pslice :: "nat \<Rightarrow> nat \<Rightarrow> 'a list \<Rightarrow> 'a list" where
  "pslice a b xs = take (b - a) (drop a xs)"

lemma length_pslice [simp, slice_simps]: "length (pslice a b xs) = min (b - a) (length xs - a)"
  by (simp add: pslice_def min.commute)

lemma pslice_empty [simp]: "b \<le> a \<Longrightarrow> pslice a b xs = []"
  by (simp add: pslice_def)

lemma pslice_0 [simp]: "pslice 0 b xs = take b xs"
  by (simp add: pslice_def)

lemma pslice_all: "length xs \<le> b \<Longrightarrow> pslice a b xs = drop a xs"
  by (simp add: pslice_def)

lemma nth_pslice [simp, slice_simps]: "a + i < b \<Longrightarrow> a + i < length xs \<Longrightarrow> pslice a b xs ! i = xs ! (a + i)"
  by (simp add: pslice_def)

lemma pslice_pslice: "pslice c d (pslice a b xs) = pslice (a + c) (min (a + d) b) xs"
proof -
  have "min (d - c) (b - a - c) = min (a + d) b - (a + c)" by (simp add: min_def)
  then show ?thesis by (simp add: pslice_def drop_take add.commute)
qed

lemma pslice_append_pslice:
  assumes "a \<le> b" and "b \<le> c"
  shows "pslice a b xs @ pslice b c xs = pslice a c xs"
proof -
  have "drop b xs = drop (b - a) (drop a xs)" and "c - a = (b - a) + (c - b)"
    using assms by simp_all
  then show ?thesis by (simp only: pslice_def take_add)
qed

lemma pslice_append_left: "b \<le> length xs \<Longrightarrow> pslice a b (xs @ ys) = pslice a b xs"
  by (simp add: pslice_def)

lemma pslice_append_right: "length xs \<le> a \<Longrightarrow> pslice a b (xs @ ys) = pslice (a - length xs) (b - length xs) ys"
  by (auto simp: pslice_def)

lemma set_pslice_subset: "set (pslice a b xs) \<subseteq> set xs"
  by (auto simp: pslice_def dest: in_set_takeD in_set_dropD)

lemma map_pslice: "map f (pslice a b xs) = pslice a b (map f xs)"
  by (simp add: pslice_def take_map drop_map)

lemma pslice_replicate: "pslice a b (replicate n x) = replicate (min (b - a) (n - a)) x"
  by (simp add: pslice_def min.commute)

lemma pslice_map_upt: "c \<le> b - a \<Longrightarrow> pslice d c (map f [a..<b]) = map f [a + d..<a + c]"
  by (rule nth_equalityI) (auto simp: add.assoc)

text \<open>\<open>range(a, b, step)\<close> for a positive step.\<close>

definition pyrange :: "nat \<Rightarrow> nat \<Rightarrow> nat \<Rightarrow> nat list" where
  "pyrange a b step = map (\<lambda>i. a + i * step) [0..<(b - a + step - 1) div step]"

lemma pyrange_index_less:
  assumes "0 < (step :: nat)"
  shows "i < (b - a + step - 1) div step \<longleftrightarrow> a + i * step < b"
proof -
  have "i < (b - a + step - 1) div step \<longleftrightarrow> Suc i * step \<le> b - a + step - 1"
    using assms by (simp only: Suc_le_eq [symmetric] less_eq_div_iff_mult_less_eq)
  also have "\<dots> \<longleftrightarrow> a + i * step < b" using assms by auto
  finally show ?thesis .
qed

lemma in_pyrange_iff:
  assumes "0 < step"
  shows "x \<in> set (pyrange a b step) \<longleftrightarrow> a \<le> x \<and> x < b \<and> step dvd x - a"
proof
  assume "x \<in> set (pyrange a b step)"
  then show "a \<le> x \<and> x < b \<and> step dvd x - a"
    using pyrange_index_less [OF assms] by (auto simp: pyrange_def)
next
  assume x: "a \<le> x \<and> x < b \<and> step dvd x - a"
  then obtain i where "x = a + i * step"
    by (metis dvd_div_mult_self le_add_diff_inverse)
  with x pyrange_index_less [OF assms, of i b a] show "x \<in> set (pyrange a b step)"
    by (auto simp: pyrange_def)
qed

lemma distinct_pyrange: "0 < step \<Longrightarrow> distinct (pyrange a b step)"
  by (auto simp: pyrange_def distinct_map inj_on_def)

text \<open>\<open>xs[a:b] = ys\<close> on a mutable sequence.\<close>

definition pslice_assign :: "nat \<Rightarrow> nat \<Rightarrow> 'a list \<Rightarrow> 'a list \<Rightarrow> 'a list" where
  "pslice_assign a b ys xs = take a xs @ ys @ drop (max a b) xs"

lemma length_pslice_assign [simp]:
  "a \<le> b \<Longrightarrow> b \<le> length xs \<Longrightarrow> length ys = b - a \<Longrightarrow> length (pslice_assign a b ys xs) = length xs"
  by (simp add: pslice_assign_def max_def)

lemma nth_pslice_assign:
  assumes "a \<le> b" and "b \<le> length xs" and "length ys = b - a" and "i < length xs"
  shows "pslice_assign a b ys xs ! i = (if a \<le> i \<and> i < b then ys ! (i - a) else xs ! i)"
  using assms by (auto simp: pslice_assign_def nth_append max_def)

subsection \<open>Big-endian integers\<close>

text \<open>\<open>int.from_bytes(data, "big")\<close>.\<close>

definition be_nat :: "bytes \<Rightarrow> nat" where
  "be_nat bs = foldl (\<lambda>acc b. acc * 256 + unat b) 0 bs"

text \<open>\<open>n.to_bytes(len, "big")\<close> for an \<open>n\<close> that fits.\<close>

fun be_bytes :: "nat \<Rightarrow> nat \<Rightarrow> bytes" where
  "be_bytes 0 n = []"
| "be_bytes (Suc len) n = be_bytes len (n div 256) @ [word_of_nat (n mod 256)]"

lemma be_nat_Nil [simp]: "be_nat [] = 0"
  by (simp add: be_nat_def)

lemma be_nat_snoc [simp]: "be_nat (bs @ [b]) = be_nat bs * 256 + unat b"
  by (simp add: be_nat_def)

lemma be_nat_append: "be_nat (as @ bs) = be_nat as * 256 ^ length bs + be_nat bs"
proof (induction bs rule: rev_induct)
  case Nil
  then show ?case by simp
next
  case (snoc b bs)
  then show ?case
    by (simp add: append_assoc [symmetric] algebra_simps del: append_assoc)
qed

lemma be_nat_Cons: "be_nat (b # bs) = unat b * 256 ^ length bs + be_nat bs"
  using be_nat_append [of "[b]" bs] by (simp add: be_nat_def)

lemma byte_less [simp]: "unat (b :: byte) < 256"
  using unsigned_less [of b, where 'a = nat] by simp

lemma be_nat_less: "be_nat bs < 256 ^ length bs"
proof (induction bs rule: rev_induct)
  case Nil
  then show ?case by simp
next
  case (snoc b bs)
  from snoc.IH have "be_nat bs + 1 \<le> 256 ^ length bs" by simp
  then have "(be_nat bs + 1) * 256 \<le> 256 ^ length bs * 256" by (rule mult_le_mono1)
  then have "be_nat bs * 256 + 256 \<le> 256 ^ length bs * 256" by simp
  with byte_less [of b] have "be_nat bs * 256 + unat b < 256 ^ length bs * 256" by linarith
  then show ?case by simp
qed

lemma length_be_bytes [simp]: "length (be_bytes len n) = len"
  by (induction len arbitrary: n) auto

lemma be_nat_be_bytes: "be_nat (be_bytes len n) = n mod 256 ^ len"
proof (induction len arbitrary: n)
  case 0
  then show ?case by simp
next
  case (Suc len)
  have "unat (word_of_nat (n mod 256) :: byte) = n mod 256"
    by (simp add: unat_of_nat)
  with Suc.IH have "be_nat (be_bytes (Suc len) n) = (n div 256 mod 256 ^ len) * 256 + n mod 256"
    by simp
  also have "\<dots> = n mod 256 ^ Suc len"
    by (simp add: mod_mult2_eq mult.commute)
  finally show ?case .
qed

lemma be_nat_be_bytes_id [simp]: "n < 256 ^ len \<Longrightarrow> be_nat (be_bytes len n) = n"
  by (simp add: be_nat_be_bytes)

lemma be_bytes_be_nat: "be_bytes (length bs) (be_nat bs) = bs"
proof (induction bs rule: rev_induct)
  case Nil
  then show ?case by simp
next
  case (snoc b bs)
  have "unat b < 256" by simp
  with snoc.IH show ?case by simp
qed

lemma be_nat_inject: "length as = length bs \<Longrightarrow> be_nat as = be_nat bs \<longleftrightarrow> as = bs"
  by (metis be_bytes_be_nat)

text \<open>An unsigned big-endian field of \<open>len\<close> bytes at \<open>off\<close>, as \<open>struct.unpack\<close> reads it.\<close>

definition be_field :: "nat \<Rightarrow> nat \<Rightarrow> bytes \<Rightarrow> nat" where
  "be_field off len bs = be_nat (pslice off (off + len) bs)"

lemma be_field_less: "be_field off len bs < 256 ^ len"
proof -
  have "be_field off len bs < 256 ^ length (pslice off (off + len) bs)"
    unfolding be_field_def by (rule be_nat_less)
  also have "\<dots> \<le> 256 ^ len" by (rule power_increasing) auto
  finally show ?thesis .
qed

lemma be_field_append_left: "off + len \<le> length xs \<Longrightarrow> be_field off len (xs @ ys) = be_field off len xs"
  by (simp add: be_field_def pslice_append_left)

lemma be_field_append_right:
  "length xs \<le> off \<Longrightarrow> be_field off len (xs @ ys) = be_field (off - length xs) len ys"
  by (simp add: be_field_def pslice_append_right)

lemma be_field_here: "length xs = len \<Longrightarrow> be_field 0 len (xs @ ys) = be_nat xs"
  by (simp add: be_field_def)

lemma be_field_exact: "length xs = len \<Longrightarrow> be_field 0 len xs = be_nat xs"
  by (simp add: be_field_def)

subsection \<open>Masks and packed fields on natural numbers\<close>

lemma and_mask_mod: "(x :: nat) AND (2 ^ n - 1) = x mod 2 ^ n"
  by (metis mask_eq_exp_minus_1 take_bit_eq_mask take_bit_eq_mod)

lemma push_bit_or_add:
  assumes "y < 2 ^ n"
  shows "push_bit n (x :: nat) OR y = x * 2 ^ n + y"
proof -
  have y: "y = take_bit n y" using assms by (simp add: take_bit_nat_eq_self)
  have "push_bit n x + take_bit n y = push_bit n x OR take_bit n y"
    by (rule disjunctive_add) (auto simp: bit_take_bit_iff bit_push_bit_iff_nat)
  with y show ?thesis by (simp add: push_bit_eq_mult)
qed

lemma or_mod_less: "(x :: nat) < 2 ^ n \<Longrightarrow> y < 2 ^ n \<Longrightarrow> x OR y < 2 ^ n"
  by (metis take_bit_nat_eq_self_iff take_bit_or)

subsection \<open>Lists\<close>

lemma concat_map_singleton_cond: "concat (map (\<lambda>x. if P x then [f x] else []) xs) = map f (filter P xs)"
  by (induction xs) auto

lemma nth_concat_equal:
  assumes "\<forall>x \<in> set xss. length x = n" and "i < n * length xss"
  shows "concat xss ! i = xss ! (i div n) ! (i mod n)"
  using assms
proof (induction xss arbitrary: i)
  case Nil
  then show ?case by simp
next
  case (Cons x xss)
  have n: "0 < n" using Cons.prems(2) by (cases n) auto
  show ?case
  proof (cases "i < n")
    case True
    with Cons.prems show ?thesis by (simp add: nth_append)
  next
    case False
    then have "i div n = Suc ((i - n) div n)" "i mod n = (i - n) mod n"
      using n by (simp_all add: le_div_geq le_mod_geq)
    with False Cons show ?thesis by (simp add: nth_append)
  qed
qed

lemma length_concat_equal: "\<forall>x \<in> set xss. length x = n \<Longrightarrow> length (concat xss) = n * length xss"
  by (induction xss) auto

text \<open>Cutting a list into consecutive slices of one size loses nothing.\<close>

lemma pyrange_Cons: "a < b \<Longrightarrow> 0 < step \<Longrightarrow> pyrange a b step = a # pyrange (a + step) b step"
proof -
  assume ab: "a < b" and s: "0 < step"
  have "(b - a + step - 1) div step = Suc ((b - (a + step) + step - 1) div step)"
  proof (cases "a + step \<le> b")
    case True
    then have "b - a + step - 1 = (b - (a + step) + step - 1) + step" using s by simp
    then show ?thesis using s by (simp only: div_add_self2)
  next
    case False
    then have "b - a + step - 1 = (b - a - 1) + step" "b - a - 1 < step" "step - 1 < step"
      using ab s by simp_all
    with False s show ?thesis by (simp only: div_add_self2) simp
  qed
  then have "pyrange a b step = map (\<lambda>i. a + i * step) [0..<Suc ((b - (a + step) + step - 1) div step)]"
    by (simp only: pyrange_def)
  also have "\<dots> = a # map (\<lambda>i. a + Suc i * step) [0..<(b - (a + step) + step - 1) div step]"
    by (subst map_upt_Suc) simp
  finally show ?thesis by (simp add: pyrange_def add.assoc)
qed

lemma pyrange_Nil [simp]: "b \<le> a \<Longrightarrow> 0 < step \<Longrightarrow> pyrange a b step = []"
  by (simp add: pyrange_def)

lemma concat_slices_from:
  assumes "0 < step"
  shows "concat (map (\<lambda>i. pslice i (i + step) xs) (pyrange a (length xs) step)) = drop a xs"
proof (induction "length xs - a" arbitrary: a rule: less_induct)
  case less
  show ?case
  proof (cases "a < length xs")
    case True
    with assms have "concat (map (\<lambda>i. pslice i (i + step) xs) (pyrange (a + step) (length xs) step)) = drop (a + step) xs"
      by (intro less) auto
    moreover have "take step (drop a xs) @ drop (a + step) xs = drop a xs"
      by (metis append_take_drop_id drop_drop add.commute)
    ultimately show ?thesis using True assms by (simp add: pyrange_Cons pslice_def)
  qed (use assms in simp)
qed

lemma concat_slices: "0 < step \<Longrightarrow> concat (map (\<lambda>i. pslice i (i + step) xs) (pyrange 0 (length xs) step)) = xs"
  using concat_slices_from [of step xs 0] by simp

text \<open>Writing a list of values at distinct positions.\<close>

lemma length_fold_updates [simp]: "length (fold (\<lambda>(i, x) r. r[i := x]) ps r) = length r"
  by (induction ps arbitrary: r) auto

lemma nth_fold_updates:
  assumes "distinct (map fst ps)" and "i < length r"
  shows "fold (\<lambda>(i, x) r. r[i := x]) ps r ! i = (case map_of ps i of None \<Rightarrow> r ! i | Some x \<Rightarrow> x)"
  using assms
proof (induction ps arbitrary: r)
  case (Cons p ps)
  obtain j x where p: "p = (j, x)" by force
  with Cons have "fold (\<lambda>(i, x) r. r[i := x]) ps (r[j := x]) ! i = (case map_of ps i of None \<Rightarrow> r[j := x] ! i | Some x \<Rightarrow> x)"
    by simp
  moreover have "map_of ps j = None" using Cons.prems p by (simp add: map_of_eq_None_iff image_iff)
  ultimately show ?case using p Cons.prems(2) by (cases "i = j") (auto split: option.splits)
qed simp

end
