(* ===== verification/Errors.thy ===== *)
theory Errors
  imports Prelude
begin

text \<open>
  The exception classes of \<open>sdk/errors.py\<close> (and the standard-library and codec-library
  exceptions that cross the modelled functions), the class hierarchy as Python's
  \<open>isinstance\<close> sees it, and the result type of every function that can raise: \<open>Inl e\<close>
  is the raised exception, \<open>Inr x\<close> the returned value. Messages, \<open>ref\<close> and \<open>spec\<close>
  texts are not modelled: no code under \<open>src/\<close> branches on them.
\<close>

subsection \<open>Exception classes\<close>

datatype err =
    ApmRepoError
  | FormatError
  | DataCorruptError
  | UnsupportedVersionError
  | ChunkCompactedError
  | KeyMaterialError
  | KeyRequiredError
  | KeyMismatchError
  | InvalidArgumentError
  | NotFoundError
  | ContentUnavailableError
  | NotRestorableError
  | PermissionDeniedError
  | StorageBackendError
  | UnsupportedDataFormatError
  | ResourceLimitExceededError
  | WorkerProcessError
  | PyException
  | PyValueError
  | PyTypeError
  | PyKeyError
  | PyIndexError
  | PyAssertionError
  | PyZeroDivisionError
  | PyRuntimeError
  | PyOSError
  | InvalidTag
  | PyStructError
  | PyOverflowError
  | PyUnicodeDecodeError
  | PyBinasciiError
  | ZstdLibraryError

text \<open>The direct base classes of each class.\<close>

fun bases :: "err \<Rightarrow> err list" where
  "bases ApmRepoError = [PyException]"
| "bases FormatError = [ApmRepoError]"
| "bases DataCorruptError = [FormatError]"
| "bases UnsupportedVersionError = [FormatError]"
| "bases ChunkCompactedError = [FormatError]"
| "bases KeyMaterialError = [ApmRepoError]"
| "bases KeyRequiredError = [KeyMaterialError]"
| "bases KeyMismatchError = [KeyMaterialError]"
| "bases InvalidArgumentError = [ApmRepoError, PyValueError]"
| "bases PyException = []"
| "bases PyValueError = [PyException]"
| "bases PyTypeError = [PyException]"
| "bases PyKeyError = [PyException]"
| "bases PyIndexError = [PyException]"
| "bases PyAssertionError = [PyException]"
| "bases PyZeroDivisionError = [PyException]"
| "bases PyRuntimeError = [PyException]"
| "bases PyOSError = [PyException]"
| "bases InvalidTag = [PyException]"
| "bases PyStructError = [PyException]"
| "bases PyOverflowError = [PyException]"
| "bases PyUnicodeDecodeError = [PyValueError]"
| "bases PyBinasciiError = [PyValueError]"
| "bases ZstdLibraryError = [PyException]"
| "bases _ = [ApmRepoError]"

text \<open>\<open>isinstance(e, c)\<close>: the hierarchy is at most three levels deep.\<close>

definition isinstance :: "err \<Rightarrow> err \<Rightarrow> bool" where
  "isinstance e c \<longleftrightarrow>
     c \<in> set (e # bases e @ concat (map bases (bases e)) @ concat (map bases (concat (map bases (bases e)))))"

lemma isinstance_refl [simp]: "isinstance e e"
  by (simp add: isinstance_def)

lemma isinstance_FormatError [simp]:
  "isinstance e FormatError \<longleftrightarrow> e \<in> {FormatError, DataCorruptError, UnsupportedVersionError, ChunkCompactedError}"
  by (cases e) (simp_all add: isinstance_def)

lemma isinstance_DataCorruptError [simp]: "isinstance e DataCorruptError \<longleftrightarrow> e = DataCorruptError"
  by (cases e) (simp_all add: isinstance_def)

lemma isinstance_NotFoundError [simp]: "isinstance e NotFoundError \<longleftrightarrow> e = NotFoundError"
  by (cases e) (simp_all add: isinstance_def)

lemma isinstance_StorageBackendError [simp]: "isinstance e StorageBackendError \<longleftrightarrow> e = StorageBackendError"
  by (cases e) (simp_all add: isinstance_def)

lemma isinstance_PyException [simp]: "isinstance e PyException"
  by (cases e) (simp_all add: isinstance_def)

subsection \<open>Results\<close>

type_synonym 'a res = "err + 'a"

definition bind_res :: "'a res \<Rightarrow> ('a \<Rightarrow> 'b res) \<Rightarrow> 'b res" where
  "bind_res m f = (case m of Inl e \<Rightarrow> Inl e | Inr x \<Rightarrow> f x)"

text \<open>\<open>if not cond: raise e\<close>.\<close>

definition require :: "bool \<Rightarrow> err \<Rightarrow> unit res" where
  "require c e = (if c then Inr () else Inl e)"

text \<open>Running a fallible function over a list in order, stopping at the first error.\<close>

fun map_res :: "('a \<Rightarrow> 'b res) \<Rightarrow> 'a list \<Rightarrow> 'b list res" where
  "map_res f [] = Inr []"
| "map_res f (x # xs) = bind_res (f x) (\<lambda>y. bind_res (map_res f xs) (\<lambda>ys. Inr (y # ys)))"

text \<open>A loop that threads a state through a fallible body.\<close>

fun fold_res :: "('a \<Rightarrow> 's \<Rightarrow> 's res) \<Rightarrow> 'a list \<Rightarrow> 's \<Rightarrow> 's res" where
  "fold_res f [] s = Inr s"
| "fold_res f (x # xs) s = bind_res (f x s) (fold_res f xs)"

lemma bind_res_simps [simp, res_simps]:
  "bind_res (Inl e) f = Inl e"
  "bind_res (Inr x) f = f x"
  by (simp_all add: bind_res_def)

lemma bind_res_assoc: "bind_res (bind_res m f) g = bind_res m (\<lambda>x. bind_res (f x) g)"
  by (cases m) simp_all

lemma bind_res_Inr_iff [res_simps]: "bind_res m f = Inr y \<longleftrightarrow> (\<exists>x. m = Inr x \<and> f x = Inr y)"
  by (cases m) auto

lemma bind_res_Inl_iff [res_simps]:
  "bind_res m f = Inl e \<longleftrightarrow> m = Inl e \<or> (\<exists>x. m = Inr x \<and> f x = Inl e)"
  by (cases m) auto

lemma bind_res_cong [fundef_cong]:
  "m = m' \<Longrightarrow> (\<And>x. m' = Inr x \<Longrightarrow> f x = f' x) \<Longrightarrow> bind_res m f = bind_res m' f'"
  by (cases m') auto

lemma require_simps [simp, res_simps]:
  "require True e = Inr ()" "require False e = Inl e"
  by (simp_all add: require_def)

lemma require_Inr_iff [simp, res_simps]: "require c e = Inr u \<longleftrightarrow> c"
  by (simp add: require_def)

lemma require_Inl_iff [simp, res_simps]: "require c e = Inl e' \<longleftrightarrow> \<not> c \<and> e' = e"
  by (auto simp: require_def)

lemma bind_require [simp]: "bind_res (require c e) f = (if c then f () else Inl e)"
  by (simp add: require_def)

lemma map_res_cong [fundef_cong]:
  "xs = ys \<Longrightarrow> (\<And>x. x \<in> set ys \<Longrightarrow> f x = g x) \<Longrightarrow> map_res f xs = map_res g ys"
  by (induction ys arbitrary: xs) auto

lemma map_res_Inr: "(\<And>x. x \<in> set xs \<Longrightarrow> f x = Inr (g x)) \<Longrightarrow> map_res f xs = Inr (map g xs)"
  by (induction xs) auto

lemma map_res_Inr_iff: "map_res f xs = Inr ys \<longleftrightarrow> list_all2 (\<lambda>x y. f x = Inr y) xs ys"
proof (induction xs arbitrary: ys)
  case Nil
  then show ?case by auto
next
  case (Cons x xs)
  then show ?case by (cases ys) (auto simp: res_simps)
qed

lemma map_res_Inl: "map_res f xs = Inl e \<Longrightarrow> \<exists>x \<in> set xs. f x = Inl e"
  by (induction xs) (auto simp: res_simps)

lemma fold_res_append: "fold_res f (xs @ ys) s = bind_res (fold_res f xs s) (fold_res f ys)"
  by (induction xs arbitrary: s) (auto simp: bind_res_assoc intro!: bind_res_cong)

lemma fold_res_Inr: "(\<And>x s. x \<in> set xs \<Longrightarrow> f x s = Inr (g x s)) \<Longrightarrow> fold_res f xs s = Inr (fold g xs s)"
  by (induction xs arbitrary: s) auto

text \<open>An invariant of the body is an invariant of the loop.\<close>

lemma fold_res_invariant:
  assumes "fold_res f xs s = Inr t" and "P s"
    and "\<And>x s s'. x \<in> set xs \<Longrightarrow> P s \<Longrightarrow> f x s = Inr s' \<Longrightarrow> P s'"
  shows "P t"
  using assms
proof (induction xs arbitrary: s)
  case Nil
  then show ?case by simp
next
  case (Cons x xs)
  from Cons.prems(1) obtain s' where s': "f x s = Inr s'" and rest: "fold_res f xs s' = Inr t"
    by (auto simp: res_simps)
  from Cons.prems s' have "P s'" by auto
  with rest Cons.prems(3) show ?case by (intro Cons.IH [OF rest]) auto
qed

subsection \<open>Generators\<close>

text \<open>
  A Python generator, async or not, as what it yields and how it ends: \<open>None\<close> when it
  is exhausted, \<open>Some e\<close> when it raises \<open>e\<close> after the last yielded item. A consumer
  sees the items one by one and the exception only if it asks for the item after them.
\<close>

type_synonym 'a gen = "'a list \<times> err option"

text \<open>\<open>for x in xs: yield f(x)\<close>.\<close>

fun gen_map :: "('a \<Rightarrow> 'b res) \<Rightarrow> 'a list \<Rightarrow> 'b gen" where
  "gen_map f [] = ([], None)"
| "gen_map f (x # xs) =
     (case f x of Inl e \<Rightarrow> ([], Some e) | Inr y \<Rightarrow> (let (ys, end) = gen_map f xs in (y # ys, end)))"

text \<open>\<open>for x in g: s = body(x, s)\<close>, run to the end of the generator.\<close>

definition gen_fold :: "('a \<Rightarrow> 's \<Rightarrow> 's res) \<Rightarrow> 'a gen \<Rightarrow> 's \<Rightarrow> 's res" where
  "gen_fold f g s =
     bind_res (fold_res f (fst g) s) (\<lambda>t. case snd g of None \<Rightarrow> Inr t | Some e \<Rightarrow> Inl e)"

text \<open>\<open>yield from\<close>: the second generator runs only if the first is exhausted.\<close>

definition gen_append :: "'a gen \<Rightarrow> 'a gen \<Rightarrow> 'a gen" where
  "gen_append g h = (case snd g of None \<Rightarrow> (fst g @ fst h, snd h) | Some e \<Rightarrow> g)"

text \<open>The generator ending at once with the error of a failed computation.\<close>

definition gen_bind :: "'a res \<Rightarrow> ('a \<Rightarrow> 'b gen) \<Rightarrow> 'b gen" where
  "gen_bind m f = (case m of Inl e \<Rightarrow> ([], Some e) | Inr x \<Rightarrow> f x)"

lemma gen_map_Inr: "(\<And>x. x \<in> set xs \<Longrightarrow> f x = Inr (g x)) \<Longrightarrow> gen_map f xs = (map g xs, None)"
  by (induction xs) auto

lemma gen_map_None_iff: "snd (gen_map f xs) = None \<longleftrightarrow> (\<forall>x \<in> set xs. \<exists>y. f x = Inr y)"
  by (induction xs) (auto split: sum.splits prod.splits)

lemma gen_map_length: "length (fst (gen_map f xs)) \<le> length xs"
  by (induction xs) (auto split: sum.splits prod.splits)

lemma gen_map_nth: "i < length (fst (gen_map f xs)) \<Longrightarrow> f (xs ! i) = Inr (fst (gen_map f xs) ! i)"
proof (induction xs arbitrary: i)
  case (Cons x xs)
  then show ?case by (cases i) (auto split: sum.splits prod.splits)
qed simp

lemma gen_fold_simps [simp]:
  "gen_fold f (xs, None) s = fold_res f xs s"
  "gen_fold f (xs, Some e) s = bind_res (fold_res f xs s) (\<lambda>_. Inl e)"
  by (cases "fold_res f xs s"; simp add: gen_fold_def)+

lemma gen_append_simps [simp]:
  "gen_append (xs, None) h = (xs @ fst h, snd h)"
  "gen_append (xs, Some e) h = (xs, Some e)"
  by (simp_all add: gen_append_def)

lemma gen_bind_simps [simp]: "gen_bind (Inr x) f = f x" "gen_bind (Inl e) f = ([], Some e)"
  by (simp_all add: gen_bind_def)

end
