(* ===== verification/Text.thy ===== *)
theory Text
  imports Errors
begin

text \<open>
  Python \<open>str\<close> as \<open>string\<close>: the path, digit and split operations the storage and
  addressing code uses. Only characters below 256 are representable; every name the
  modelled code takes apart is ASCII or compared as a whole.
\<close>

subsection \<open>Joining and splitting\<close>

text \<open>\<open>sep.join(parts)\<close> for a one-character separator.\<close>

fun str_join :: "char \<Rightarrow> string list \<Rightarrow> string" where
  "str_join c [] = []"
| "str_join c [p] = p"
| "str_join c (p # q # ps) = p @ c # str_join c (q # ps)"

text \<open>\<open>s.split(sep)\<close>: always at least one part.\<close>

fun str_split :: "char \<Rightarrow> string \<Rightarrow> string list" where
  "str_split c [] = [[]]"
| "str_split c (x # xs) =
     (if x = c then [] # str_split c xs
      else (case str_split c xs of [] \<Rightarrow> [[x]] | p # ps \<Rightarrow> (x # p) # ps))"

lemma str_split_ne [simp]: "str_split c s \<noteq> []"
  by (induction s) (auto split: list.splits)

lemma str_split_no_sep: "p \<in> set (str_split c s) \<Longrightarrow> c \<notin> set p"
  by (induction s arbitrary: p) (auto split: list.splits if_splits)

lemma str_join_split [simp]: "str_join c (str_split c s) = s"
proof (induction s)
  case Nil
  then show ?case by simp
next
  case (Cons x s)
  obtain p ps where ps: "str_split c s = p # ps"
    by (metis str_split_ne neq_Nil_conv)
  with Cons.IH show ?case by (cases ps) auto
qed

lemma str_split_append: "c \<notin> set p \<Longrightarrow> str_split c (p @ c # s) = p # str_split c s"
  by (induction p) auto

lemma str_split_plain: "c \<notin> set p \<Longrightarrow> str_split c p = [p]"
  by (induction p) auto

lemma str_split_join:
  assumes "ps \<noteq> []" and "\<forall>p \<in> set ps. c \<notin> set p"
  shows "str_split c (str_join c ps) = ps"
  using assms by (induction c ps rule: str_join.induct) (auto simp: str_split_append str_split_plain)

lemma str_join_inject:
  assumes "str_join c ps = str_join c qs" and "ps \<noteq> []" and "qs \<noteq> []"
    and "\<forall>p \<in> set ps. c \<notin> set p" and "\<forall>p \<in> set qs. c \<notin> set p"
  shows "ps = qs"
  using assms by (metis str_split_join)

lemma str_join_snoc: "ps \<noteq> [] \<Longrightarrow> str_join c (ps @ [q]) = str_join c ps @ c # q"
proof (induction c ps rule: str_join.induct)
  case (3 c p q' ps)
  then show ?case by simp
qed simp_all

text \<open>\<open>s.rpartition(sep)\<close> without its middle part: \<open>("", s)\<close> when \<open>sep\<close> is absent.\<close>

definition str_rpartition :: "char \<Rightarrow> string \<Rightarrow> string \<times> string" where
  "str_rpartition c s = (str_join c (butlast (str_split c s)), last (str_split c s))"

lemma str_rpartition_join:
  assumes "\<forall>p \<in> set ps. c \<notin> set p" and "c \<notin> set q"
  shows "str_rpartition c (str_join c (ps @ [q])) = (str_join c ps, q)"
  using assms by (subst str_rpartition_def) (simp add: str_split_join)

subsection \<open>Decimal numbers\<close>

definition digit_char :: "nat \<Rightarrow> char" where
  "digit_char d = char_of (48 + d)"

definition digit_val :: "char \<Rightarrow> nat" where
  "digit_val c = of_char c - 48"

text \<open>\<open>c.isdigit()\<close> for an ASCII character.\<close>

definition is_digit :: "char \<Rightarrow> bool" where
  "is_digit c \<longleftrightarrow> 48 \<le> (of_char c :: nat) \<and> (of_char c :: nat) \<le> 57"

text \<open>\<open>s.isascii() and s.isdigit()\<close>: non-empty and ASCII decimal digits only.\<close>

definition is_ascii_digits :: "string \<Rightarrow> bool" where
  "is_ascii_digits s \<longleftrightarrow> s \<noteq> [] \<and> list_all is_digit s"

text \<open>\<open>str(n)\<close> for a non-negative integer.\<close>

fun dec_str :: "nat \<Rightarrow> string" where
  "dec_str n = (if n < 10 then [digit_char n] else dec_str (n div 10) @ [digit_char (n mod 10)])"

declare dec_str.simps [simp del]

definition dec_val :: "string \<Rightarrow> nat" where
  "dec_val s = foldl (\<lambda>acc c. acc * 10 + digit_val c) 0 s"

text \<open>
  \<open>int(s)\<close> for a string of decimal digits: CPython raises \<open>ValueError\<close> past
  \<open>sys.get_int_max_str_digits()\<close> digits (4300 by default).
\<close>

definition max_str_digits :: nat where
  "max_str_digits = 4300"

definition py_int :: "string \<Rightarrow> nat res" where
  "py_int s = (if length s \<le> max_str_digits then Inr (dec_val s) else Inl PyValueError)"

lemma digit_val_char [simp]: "d < 10 \<Longrightarrow> digit_val (digit_char d) = d"
  by (simp add: digit_val_def digit_char_def)

lemma is_digit_char [simp]: "d < 10 \<Longrightarrow> is_digit (digit_char d)"
  by (simp add: is_digit_def digit_char_def)

lemma dec_str_ne [simp]: "dec_str n \<noteq> []"
  by (subst dec_str.simps) simp

lemma dec_str_digits: "list_all is_digit (dec_str n)"
proof (induction n rule: dec_str.induct)
  case (1 n)
  then show ?case by (subst dec_str.simps) auto
qed

lemma is_ascii_digits_dec_str [simp]: "is_ascii_digits (dec_str n)"
  by (simp add: is_ascii_digits_def dec_str_digits)

lemma dec_val_snoc: "dec_val (s @ [c]) = dec_val s * 10 + digit_val c"
  by (simp add: dec_val_def)

lemma dec_val_dec_str [simp]: "dec_val (dec_str n) = n"
proof (induction n rule: dec_str.induct)
  case (1 n)
  show ?case
  proof (cases "n < 10")
    case True
    then show ?thesis by (subst dec_str.simps) (simp add: dec_val_def)
  next
    case False
    with 1 have "dec_val (dec_str (n div 10)) = n div 10" by simp
    with False show ?thesis by (subst dec_str.simps) (simp add: dec_val_snoc)
  qed
qed

lemma dec_str_inject [simp]: "dec_str m = dec_str n \<longleftrightarrow> m = n"
  by (metis dec_val_dec_str)

lemma not_digit_in_dec_str: "\<not> is_digit c \<Longrightarrow> c \<notin> set (dec_str n)"
  using dec_str_digits [of n] by (auto simp: list_all_iff)

lemma slash_dec_str [simp]: "CHR ''/'' \<notin> set (dec_str n)"
  and dot_dec_str [simp]: "CHR ''.'' \<notin> set (dec_str n)"
  by (rule not_digit_in_dec_str, simp add: is_digit_def)+

text \<open>A suffix of digits is determined by what precedes it and a non-digit.\<close>

lemma dec_str_append_inject:
  assumes "p @ dec_str m = q @ dec_str n"
    and "p = [] \<or> \<not> is_digit (last p)" and "q = [] \<or> \<not> is_digit (last q)"
  shows "p = q \<and> m = n"
proof -
  have "takeWhile is_digit (rev (p @ dec_str k)) = rev (dec_str k)"
    if "p = [] \<or> \<not> is_digit (last p)" for p k
    using that dec_str_digits [of k]
    by (cases p rule: rev_cases) (auto simp: takeWhile_append list_all_iff)
  with assms have "rev (dec_str m) = rev (dec_str n)" by metis
  then have "m = n" by simp
  with assms(1) show ?thesis by simp
qed

end
