(* ===== verification/Addressing.thy ===== *)
theory Addressing
  imports Text
begin

text \<open>
  \<open>sdk/format/const.py\<close> and \<open>sdk/format/addressing.py\<close>: the packed chunk address, the
  10-bit directory layering of Pool buckets and Composition files, and the split of a
  composition offset into sub-file and position. Identifiers are natural numbers: the
  code reads all of them from unsigned on-disk fields.
\<close>

unbundle bit_operations_syntax

subsection \<open>Constants (\<open>const.py\<close>)\<close>

definition BUCKET_ID_BIT_NUM :: nat where [const_defs]: "BUCKET_ID_BIT_NUM = 40"
definition CHUNK_BIT_NUM :: nat where [const_defs]: "CHUNK_BIT_NUM = 16"
definition MAX_BUCKET_NUM :: nat where [const_defs]: "MAX_BUCKET_NUM = push_bit BUCKET_ID_BIT_NUM 1"
definition BUCKET_ID_LAYER_SHIFT :: nat where [const_defs]: "BUCKET_ID_LAYER_SHIFT = 10"
definition GROUP_BUCKET_NUM :: nat where [const_defs]: "GROUP_BUCKET_NUM = push_bit BUCKET_ID_LAYER_SHIFT 1"
definition BUCKET_CHUNK_BIT_NUM :: nat where [const_defs]: "BUCKET_CHUNK_BIT_NUM = 13"
definition BUCKET_MAX_CHUNK_NUM :: nat where [const_defs]: "BUCKET_MAX_CHUNK_NUM = push_bit BUCKET_CHUNK_BIT_NUM 1"
definition FIXED_CHUNK_BIT_NUM :: nat where [const_defs]: "FIXED_CHUNK_BIT_NUM = 12"
definition FIXED_CHUNK_LENGTH :: nat where [const_defs]: "FIXED_CHUNK_LENGTH = push_bit FIXED_CHUNK_BIT_NUM 1"
definition RESERVED_LENG :: nat where [const_defs]: "RESERVED_LENG = 4096"
definition COMPRESS_RESERVED_LENG :: nat where [const_defs]: "COMPRESS_RESERVED_LENG = 16384"
definition SIZE_STORE_REC_BIT_NUM :: nat where [const_defs]: "SIZE_STORE_REC_BIT_NUM = 15"
definition CHUNK_CRC_SIZE :: nat where [const_defs]: "CHUNK_CRC_SIZE = 4"
definition REDUNDANCY_COVERAGE_BUCKET :: nat where [const_defs]: "REDUNDANCY_COVERAGE_BUCKET = 256"
definition REDUNDANCY_COVERAGE_COMPOSITION :: nat where [const_defs]: "REDUNDANCY_COVERAGE_COMPOSITION = 8192"
definition SUB_FILE_SIZE_SHIFT :: nat where [const_defs]: "SUB_FILE_SIZE_SHIFT = 24"
definition SUB_FILE_SIZE :: nat where [const_defs]: "SUB_FILE_SIZE = push_bit SUB_FILE_SIZE_SHIFT 1"
definition RECORD_HEAD_LENGTH :: nat where [const_defs]: "RECORD_HEAD_LENGTH = 32"
definition CHUNK_MAP_RECORD_LENGTH :: nat where [const_defs]: "CHUNK_MAP_RECORD_LENGTH = 20"

lemma const_values:
  "MAX_BUCKET_NUM = 2 ^ 40" "GROUP_BUCKET_NUM = 1024" "BUCKET_MAX_CHUNK_NUM = 8192"
  "FIXED_CHUNK_LENGTH = 4096" "SUB_FILE_SIZE = 2 ^ 24"
  by (simp_all add: const_defs push_bit_eq_mult)

lemma const_pos [simp]:
  "0 < GROUP_BUCKET_NUM" "0 < BUCKET_MAX_CHUNK_NUM" "0 < FIXED_CHUNK_LENGTH" "0 < SUB_FILE_SIZE"
  "0 < CHUNK_MAP_RECORD_LENGTH" "0 < RECORD_HEAD_LENGTH"
  by (simp_all add: const_values) (simp_all add: const_defs)

subsection \<open>Chunk addresses\<close>

record chunk_address =
  stream_id :: nat
  bucket_id :: nat
  chunk_idx :: nat

abbreviation ChunkAddress :: "nat \<Rightarrow> nat \<Rightarrow> nat \<Rightarrow> chunk_address" where
  "ChunkAddress s b c \<equiv> \<lparr>stream_id = s, bucket_id = b, chunk_idx = c\<rparr>"

definition addr_from_int :: "nat \<Rightarrow> chunk_address" where
  "addr_from_int data =
     (let idx = data AND (push_bit CHUNK_BIT_NUM 1 - 1);
          addr_id = drop_bit CHUNK_BIT_NUM data;
          bucket = addr_id AND (MAX_BUCKET_NUM - 1);
          stream = drop_bit BUCKET_ID_BIT_NUM addr_id
      in ChunkAddress stream bucket idx)"

definition addr_to_int :: "chunk_address \<Rightarrow> nat" where
  "addr_to_int a =
     (let addr_id = push_bit BUCKET_ID_BIT_NUM (stream_id a) OR bucket_id a
      in push_bit CHUNK_BIT_NUM addr_id OR chunk_idx a)"

definition advance :: "chunk_address \<Rightarrow> int \<Rightarrow> chunk_address res" where
  "advance a k =
     (if k < 0 then Inl PyValueError
      else let total = int (chunk_idx a) + k;
               carry = total div int BUCKET_MAX_CHUNK_NUM;
               new_idx = total mod int BUCKET_MAX_CHUNK_NUM
           in Inr (ChunkAddress (stream_id a) (nat (int (bucket_id a) + carry)) (nat new_idx)))"

text \<open>The same step for a non-negative number of chunks, where \<open>advance\<close> cannot fail.\<close>

definition advance_by :: "chunk_address \<Rightarrow> nat \<Rightarrow> chunk_address" where
  "advance_by a k =
     ChunkAddress (stream_id a) (bucket_id a + (chunk_idx a + k) div BUCKET_MAX_CHUNK_NUM)
       ((chunk_idx a + k) mod BUCKET_MAX_CHUNK_NUM)"

text \<open>Field bounds of the 64-bit packed form, and of an address the code can read from.\<close>

definition addr_fits :: "chunk_address \<Rightarrow> bool" where
  "addr_fits a \<longleftrightarrow> stream_id a < 2 ^ 8 \<and> bucket_id a < 2 ^ 40 \<and> chunk_idx a < 2 ^ 16"

text \<open>The position of a chunk in its stream's bucket-major order.\<close>

definition chunk_pos :: "chunk_address \<Rightarrow> nat" where
  "chunk_pos a = bucket_id a * BUCKET_MAX_CHUNK_NUM + chunk_idx a"

lemma addr_from_int_eq:
  "addr_from_int d = ChunkAddress (d div 2 ^ 56) (d div 2 ^ 16 mod 2 ^ 40) (d mod 2 ^ 16)"
  using and_mask_mod [of d 16] and_mask_mod [of "d div 2 ^ 16" 40]
  by (simp add: addr_from_int_def Let_def const_defs push_bit_eq_mult drop_bit_eq_div div_mult2_eq [symmetric])

lemma addr_to_int_eq:
  assumes "bucket_id a < 2 ^ 40" and "chunk_idx a < 2 ^ 16"
  shows "addr_to_int a = stream_id a * 2 ^ 56 + bucket_id a * 2 ^ 16 + chunk_idx a"
proof -
  have "push_bit 40 (stream_id a) OR bucket_id a = stream_id a * 2 ^ 40 + bucket_id a"
    using assms(1) by (rule push_bit_or_add)
  then show ?thesis
    using push_bit_or_add [OF assms(2), of "stream_id a * 2 ^ 40 + bucket_id a"]
    by (simp add: addr_to_int_def Let_def const_defs algebra_simps)
qed

lemma addr_to_from_int: "addr_to_int (addr_from_int d) = d"
proof -
  have "d = d div 2 ^ 16 * 2 ^ 16 + d mod 2 ^ 16" by simp
  also have "d div 2 ^ 16 = d div 2 ^ 16 div 2 ^ 40 * 2 ^ 40 + d div 2 ^ 16 mod 2 ^ 40" by simp
  also have "d div 2 ^ 16 div 2 ^ 40 = d div 2 ^ 56" by (simp add: div_mult2_eq [symmetric])
  finally have "d = (d div 2 ^ 56 * 2 ^ 40 + d div 2 ^ 16 mod 2 ^ 40) * 2 ^ 16 + d mod 2 ^ 16" .
  moreover have "addr_to_int (addr_from_int d) = (d div 2 ^ 56 * 2 ^ 40 + d div 2 ^ 16 mod 2 ^ 40) * 2 ^ 16 + d mod 2 ^ 16"
    unfolding addr_from_int_eq by (subst addr_to_int_eq) (simp_all add: algebra_simps)
  ultimately show ?thesis by simp
qed

lemma addr_from_to_int:
  assumes "bucket_id a < 2 ^ 40" and "chunk_idx a < 2 ^ 16"
  shows "addr_from_int (addr_to_int a) = a"
proof -
  let ?d = "stream_id a * 2 ^ 56 + bucket_id a * 2 ^ 16 + chunk_idx a"
  have d: "?d = (stream_id a * 2 ^ 40 + bucket_id a) * 2 ^ 16 + chunk_idx a" by (simp add: algebra_simps)
  have lo: "?d mod 2 ^ 16 = chunk_idx a" and hi: "?d div 2 ^ 16 = stream_id a * 2 ^ 40 + bucket_id a"
    unfolding d by (simp_all only: mod_mult_self3 div_mult_self3 mod_less [OF assms(2)]) (use assms(2) in simp)
  have "?d div 2 ^ 56 = ?d div 2 ^ 16 div 2 ^ 40" by (simp add: div_mult2_eq [symmetric])
  with hi assms(1) have "?d div 2 ^ 56 = stream_id a" by simp
  with lo hi assms show ?thesis by (simp add: addr_from_int_eq addr_to_int_eq)
qed

lemma addr_to_int_less: "addr_fits a \<Longrightarrow> addr_to_int a < 2 ^ 64"
  by (simp add: addr_fits_def addr_to_int_eq)

lemma addr_from_int_fits: "d < 2 ^ 64 \<Longrightarrow> addr_fits (addr_from_int d)"
  by (simp add: addr_from_int_eq addr_fits_def less_mult_imp_div_less)

lemma addr_to_int_inject:
  assumes "addr_fits a" and "addr_fits b" and "addr_to_int a = addr_to_int b"
  shows "a = b"
  using assms by (metis addr_fits_def addr_from_to_int)

lemma advance_nat: "advance a (int k) = Inr (advance_by a k)"
  by (simp add: advance_def advance_by_def Let_def nat_add_distrib
      flip: of_nat_add zdiv_int zmod_int)

lemma advance_nonneg: "0 \<le> k \<Longrightarrow> advance a k = Inr (advance_by a (nat k))"
  using advance_nat [of a "nat k"] by simp

lemma advance_by_simps [simp]:
  "stream_id (advance_by a k) = stream_id a"
  "chunk_idx (advance_by a k) < BUCKET_MAX_CHUNK_NUM"
  by (simp_all add: advance_by_def)

lemma advance_by_idx: "chunk_idx (advance_by a k) = (chunk_idx a + k) mod BUCKET_MAX_CHUNK_NUM"
  and advance_by_bucket: "bucket_id (advance_by a k) = bucket_id a + (chunk_idx a + k) div BUCKET_MAX_CHUNK_NUM"
  by (simp_all add: advance_by_def)

lemma chunk_pos_advance_by: "chunk_pos (advance_by a k) = chunk_pos a + k"
  by (simp add: chunk_pos_def advance_by_def add_mult_distrib)

lemma advance_by_advance_by: "advance_by (advance_by a j) k = advance_by a (j + k)"
proof -
  let ?B = BUCKET_MAX_CHUNK_NUM and ?x = "chunk_idx a + j"
  have "?x + k = ?x div ?B * ?B + (?x mod ?B + k)" by simp
  then have "(?x + k) div ?B = ?x div ?B + (?x mod ?B + k) div ?B"
    by (metis div_mult_self3 const_pos(2) less_numeral_extra(3))
  then show ?thesis by (simp add: advance_by_def mod_add_left_eq add.assoc)
qed

text \<open>Within one bucket, advancing moves the chunk index only.\<close>

lemma advance_by_same_bucket:
  assumes "chunk_idx a + k < BUCKET_MAX_CHUNK_NUM"
  shows "advance_by a k = a\<lparr>chunk_idx := chunk_idx a + k\<rparr>"
  using assms by (simp add: advance_by_def)

subsection \<open>Directory layering\<close>

text \<open>The \<open>while shifted != 0\<close> loop of \<open>_id_layer_ancestors\<close>.\<close>

function id_layer_loop :: "nat \<Rightarrow> string list \<Rightarrow> string list" where
  "id_layer_loop shifted ancestors =
     (if shifted \<noteq> 0
      then id_layer_loop (drop_bit BUCKET_ID_LAYER_SHIFT shifted) (dec_str shifted # ancestors)
      else ancestors)"
  by pat_completeness auto
termination
  by (relation "measure fst") (auto simp: const_defs drop_bit_eq_div)

declare id_layer_loop.simps [simp del]

definition id_layer_ancestors :: "nat \<Rightarrow> string list" where
  "id_layer_ancestors n = id_layer_loop (drop_bit BUCKET_ID_LAYER_SHIFT n) []"

definition pool_layer_path :: "nat \<Rightarrow> nat \<Rightarrow> string" where
  "pool_layer_path sid bid = str_join (CHR ''/'') ([dec_str sid] @ id_layer_ancestors bid @ [dec_str bid])"

definition composition_session_dir :: "nat \<Rightarrow> nat \<Rightarrow> string" where
  "composition_session_dir sid session =
     str_join (CHR ''/'') ([dec_str sid] @ id_layer_ancestors session @ [dec_str session @ ''.com''])"

definition composition_path :: "nat \<Rightarrow> nat \<Rightarrow> nat \<Rightarrow> string" where
  "composition_path sid session sub_id =
     str_join (CHR ''/'')
       ([composition_session_dir sid session] @ id_layer_ancestors sub_id @ [CHR ''c'' # dec_str sub_id])"

definition split_layer_leaf :: "string \<Rightarrow> string \<times> string" where
  "split_layer_leaf layer_path = str_rpartition (CHR ''/'') layer_path"

definition split_composition_offset :: "nat \<Rightarrow> nat \<times> nat" where
  "split_composition_offset global_offset =
     (drop_bit SUB_FILE_SIZE_SHIFT global_offset, global_offset AND (SUB_FILE_SIZE - 1))"

definition group_start_bucket_id :: "nat \<Rightarrow> nat" where
  "group_start_bucket_id bid = nat (int bid AND NOT (int GROUP_BUCKET_NUM - 1))"

lemma id_layer_loop_digits:
  "list_all (\<lambda>p. list_all is_digit p) ancestors \<Longrightarrow>
   list_all (\<lambda>p. list_all is_digit p) (id_layer_loop shifted ancestors)"
proof (induction shifted ancestors rule: id_layer_loop.induct)
  case (1 shifted ancestors)
  then show ?case by (subst id_layer_loop.simps) (auto simp: dec_str_digits)
qed

lemma id_layer_loop_append: "id_layer_loop n (as @ bs) = id_layer_loop n as @ bs"
proof (induction n as rule: id_layer_loop.induct)
  case (1 n as)
  then show ?case by (subst (1 2) id_layer_loop.simps) auto
qed

lemma id_layer_ancestors_rec:
  "id_layer_ancestors n =
     (if n < 1024 then [] else id_layer_ancestors (n div 1024) @ [dec_str (n div 1024)])"
  using id_layer_loop_append [of "n div 1048576" "[]" "[dec_str (n div 1024)]"]
  by (simp add: id_layer_ancestors_def id_layer_loop.simps [of "drop_bit BUCKET_ID_LAYER_SHIFT n"])
     (auto simp: const_defs drop_bit_eq_div div_mult2_eq [symmetric] id_layer_loop.simps [of 0])

lemma id_layer_ancestors_digits: "p \<in> set (id_layer_ancestors n) \<Longrightarrow> list_all is_digit p"
  using id_layer_loop_digits [of "[]" "drop_bit BUCKET_ID_LAYER_SHIFT n"]
  by (auto simp: id_layer_ancestors_def list_all_iff)

lemma id_layer_ancestors_no_slash: "p \<in> set (id_layer_ancestors n) \<Longrightarrow> CHR ''/'' \<notin> set p"
  using id_layer_ancestors_digits by (fastforce simp: list_all_iff is_digit_def)

lemma id_layer_ancestors_small: "n < 1024 \<Longrightarrow> id_layer_ancestors n = []"
  by (subst id_layer_ancestors_rec) simp

lemma pool_layer_path_parts:
  "str_split (CHR ''/'') (pool_layer_path sid bid) = [dec_str sid] @ id_layer_ancestors bid @ [dec_str bid]"
  unfolding pool_layer_path_def
  by (rule str_split_join) (auto simp: id_layer_ancestors_no_slash)

lemma pool_layer_path_inject:
  assumes "pool_layer_path s b = pool_layer_path s' b'"
  shows "s = s' \<and> b = b'"
proof -
  from assms have eq: "[dec_str s] @ id_layer_ancestors b @ [dec_str b] = [dec_str s'] @ id_layer_ancestors b' @ [dec_str b']"
    by (metis pool_layer_path_parts)
  then have "last ([dec_str s] @ id_layer_ancestors b @ [dec_str b]) = last ([dec_str s'] @ id_layer_ancestors b' @ [dec_str b'])"
    by simp
  with eq show ?thesis by simp
qed

lemma composition_session_dir_parts:
  "str_split (CHR ''/'') (composition_session_dir sid session) =
     [dec_str sid] @ id_layer_ancestors session @ [dec_str session @ ''.com'']"
  unfolding composition_session_dir_def
  by (rule str_split_join) (auto simp: id_layer_ancestors_no_slash)

lemma str_split_append_join:
  assumes "str_split c p = ps" and "\<forall>q \<in> set qs. c \<notin> set q" and "qs \<noteq> []"
  shows "str_split c (p @ c # str_join c qs) = ps @ qs"
proof -
  have nosep: "\<forall>q \<in> set ps. c \<notin> set q" using assms(1) str_split_no_sep by blast
  have ne: "ps \<noteq> []" using assms(1) by auto
  have join: "str_join c (ps @ qs) = str_join c ps @ c # str_join c qs" if "ps \<noteq> []" for ps
    using that assms(3)
  proof (induction ps)
    case (Cons x ps)
    then show ?case by (cases ps; cases qs) auto
  qed simp
  have "p = str_join c ps" using assms(1) str_join_split by metis
  with join [OF ne] have "p @ c # str_join c qs = str_join c (ps @ qs)" by simp
  with ne nosep assms(2) show ?thesis
    by (auto intro!: str_split_join)
qed

lemma composition_path_parts:
  "str_split (CHR ''/'') (composition_path sid session sub) =
     [dec_str sid] @ id_layer_ancestors session @ [dec_str session @ ''.com''] @
     id_layer_ancestors sub @ [CHR ''c'' # dec_str sub]"
proof -
  let ?qs = "id_layer_ancestors sub @ [CHR ''c'' # dec_str sub]"
  have "composition_path sid session sub = composition_session_dir sid session @ CHR ''/'' # str_join (CHR ''/'') ?qs"
    by (cases ?qs) (auto simp: composition_path_def)
  then show ?thesis
    using str_split_append_join [OF composition_session_dir_parts [of sid session], of ?qs]
    by (auto simp: id_layer_ancestors_no_slash)
qed

lemma composition_path_inject:
  assumes "composition_path s n k = composition_path s' n' k'"
  shows "s = s' \<and> n = n' \<and> k = k'"
proof -
  from assms have eq: "[dec_str s] @ id_layer_ancestors n @ [dec_str n @ ''.com''] @ id_layer_ancestors k @ [CHR ''c'' # dec_str k] =
     [dec_str s'] @ id_layer_ancestors n' @ [dec_str n' @ ''.com''] @ id_layer_ancestors k' @ [CHR ''c'' # dec_str k']"
    by (metis composition_path_parts)
  then have "last ([dec_str s] @ id_layer_ancestors n @ [dec_str n @ ''.com''] @ id_layer_ancestors k @ [CHR ''c'' # dec_str k]) =
     last ([dec_str s'] @ id_layer_ancestors n' @ [dec_str n' @ ''.com''] @ id_layer_ancestors k' @ [CHR ''c'' # dec_str k'])"
    by simp
  then have k: "k = k'" by simp
  from eq have s: "s = s'" by simp
  from eq k have "(id_layer_ancestors n @ [dec_str n @ ''.com'']) @ id_layer_ancestors k @ [CHR ''c'' # dec_str k] =
     (id_layer_ancestors n' @ [dec_str n' @ ''.com'']) @ id_layer_ancestors k @ [CHR ''c'' # dec_str k]"
    by simp
  then have "id_layer_ancestors n @ [dec_str n @ ''.com''] = id_layer_ancestors n' @ [dec_str n' @ ''.com'']"
    by (simp only: append_same_eq)
  then have "n = n'" by simp
  with k s show ?thesis by simp
qed

lemma split_layer_leaf_pool:
  "split_layer_leaf (pool_layer_path sid bid) =
     (str_join (CHR ''/'') ([dec_str sid] @ id_layer_ancestors bid), dec_str bid)"
  using str_rpartition_join [of "[dec_str sid] @ id_layer_ancestors bid" "CHR ''/''" "dec_str bid"]
  by (auto simp: split_layer_leaf_def pool_layer_path_def id_layer_ancestors_no_slash)

lemma split_composition_offset_eq: "split_composition_offset off = (off div 2 ^ 24, off mod 2 ^ 24)"
  using and_mask_mod [of off 24]
  by (simp add: split_composition_offset_def const_defs push_bit_eq_mult drop_bit_eq_div)

lemma split_composition_offset_bounds:
  assumes "split_composition_offset off = (sub, pos)"
  shows "off = sub * SUB_FILE_SIZE + pos" and "pos < SUB_FILE_SIZE"
  using assms by (auto simp: split_composition_offset_eq const_values)

lemma group_start_eq: "group_start_bucket_id b = b div 1024 * 1024"
proof -
  have "(int b AND NOT (mask 10)) + (int b AND mask 10) = (int b AND NOT (mask 10)) OR (int b AND mask 10)"
    by (rule disjunctive_add) (auto simp: bit_and_iff bit_not_iff)
  also have "\<dots> = int b" by (auto simp: bit_eq_iff bit_or_iff bit_and_iff bit_not_iff)
  finally have "int b AND NOT (mask 10) = int b - int b mod 1024"
    by (simp add: take_bit_eq_mask [symmetric] take_bit_eq_mod)
  also have "\<dots> = int (b div 1024 * 1024)"
    by (simp add: minus_mod_eq_div_mult zdiv_int)
  finally show ?thesis
    by (simp add: group_start_bucket_id_def const_values mask_eq_exp_minus_1)
qed

lemma group_start_bounds:
  "group_start_bucket_id b \<le> b" "b < group_start_bucket_id b + GROUP_BUCKET_NUM"
  "GROUP_BUCKET_NUM dvd group_start_bucket_id b"
  by (simp_all add: group_start_eq const_values)

subsection \<open>Properties\<close>

text \<open>C40. Packing is lossless both ways: every 64-bit on-disk value is the packed form of
  the address read from it, and every address whose fields fit the layout is read back from
  its packed form, which fits 64 bits.\<close>

theorem chunk_address_roundtrip:
  assumes "addr_fits a" and "d < 2 ^ 64"
  shows "addr_from_int (addr_to_int a) = a \<and> addr_to_int a < 2 ^ 64 \<and>
    addr_to_int (addr_from_int d) = d \<and> addr_fits (addr_from_int d)"
  using assms addr_from_to_int [of a] addr_to_int_less [OF assms(1)] addr_from_int_fits [OF assms(2)]
  by (simp add: addr_to_from_int addr_fits_def)

lemma chunk_address_roundtrip_witness:
  "addr_from_int (addr_to_int (ChunkAddress 1 70000 8191)) = ChunkAddress 1 70000 8191 \<and>
   addr_to_int (addr_from_int 0x0102030405060708) = 0x0102030405060708"
  using chunk_address_roundtrip [of "ChunkAddress 1 70000 8191" "0x0102030405060708"]
  by (simp add: addr_fits_def)

text \<open>\<open>advance\<close> is addition in the stream's bucket-major chunk order: a non-negative
  step never fails, lands on a chunk index below 8192 of the same stream exactly \<open>k\<close>
  positions later, and two steps in a row are one step by the sum.\<close>

theorem advance_adds:
  assumes "0 \<le> j" and "0 \<le> k"
  shows "\<exists>b. advance a j = Inr b \<and> stream_id b = stream_id a \<and> chunk_idx b < BUCKET_MAX_CHUNK_NUM \<and>
    int (chunk_pos b) = int (chunk_pos a) + j \<and> advance b k = advance a (j + k)"
proof (intro exI conjI)
  show "advance a j = Inr (advance_by a (nat j))" using assms(1) by (rule advance_nonneg)
  show "advance (advance_by a (nat j)) k = advance a (j + k)"
    using assms by (simp add: advance_nonneg advance_by_advance_by nat_add_distrib)
qed (use assms in \<open>simp_all add: chunk_pos_advance_by\<close>)

lemma advance_adds_witness:
  "\<exists>b. advance (ChunkAddress 1 7 8190) 5 = Inr b \<and> stream_id b = 1 \<and> chunk_idx b < BUCKET_MAX_CHUNK_NUM \<and>
    int (chunk_pos b) = int (chunk_pos (ChunkAddress 1 7 8190)) + 5 \<and>
    advance b 8192 = advance (ChunkAddress 1 7 8190) (5 + 8192)"
  using advance_adds [of 5 8192 "ChunkAddress 1 7 8190"] by simp

text \<open>Distinct identifiers have distinct paths: the layered directory path of a bucket
  determines its stream and bucket, and that of a composition sub-file its stream, session
  and sub-file number, for ids of any size (with the layering's variable depth).\<close>

theorem layer_paths_injective:
  assumes "pool_layer_path s b = pool_layer_path s' b'"
    and "composition_path t n k = composition_path t' n' k'"
  shows "s = s' \<and> b = b' \<and> t = t' \<and> n = n' \<and> k = k'"
  using pool_layer_path_inject [OF assms(1)] composition_path_inject [OF assms(2)] by simp

lemma layer_paths_injective_witness:
  "\<exists>s b t n k. pool_layer_path s b = pool_layer_path 1 3000000 \<and> composition_path t n k = composition_path 1 2000 5 \<and>
    s = 1 \<and> b = 3000000 \<and> t = 1 \<and> n = 2000 \<and> k = 5"
  using layer_paths_injective [of 1 3000000 1 3000000 1 2000 5 1 2000 5] by auto

end
