(* ===== verification/Headers.thy ===== *)
theory Headers
  imports Addressing
begin

text \<open>
  \<open>sdk/format/headers.py\<close>: CRC-32 as \<open>zlib.crc32\<close> computes it, the check-or-raise
  \<open>verify_crc32\<close>, and the 64-byte header shell every binary format of the repository
  starts with. The lemmas show that the rolling form of the checksum is the checksum of
  the concatenation and that no single corrupted byte of a checked region goes unnoticed.
\<close>

unbundle bit_operations_syntax

subsection \<open>CRC-32\<close>

type_synonym u32 = "32 word"

definition crc_poly :: u32 where
  "crc_poly = 0xEDB88320"

definition crc_shift :: "u32 \<Rightarrow> u32" where
  "crc_shift c = (if odd c then drop_bit 1 c XOR crc_poly else drop_bit 1 c)"

definition crc_byte :: "byte \<Rightarrow> u32 \<Rightarrow> u32" where
  "crc_byte b c = (crc_shift ^^ 8) (c XOR ucast b)"

text \<open>\<open>zlib.crc32(data, crc)\<close>, the running form.\<close>

definition crc32 :: "bytes \<Rightarrow> u32 \<Rightarrow> u32" where
  "crc32 data crc = NOT (fold crc_byte data (NOT crc))"

text \<open>\<open>compute_crc32\<close>: the checksum of \<open>data\<close> alone, as an unsigned integer.\<close>

definition compute_crc32 :: "bytes \<Rightarrow> nat" where
  "compute_crc32 data = unat (crc32 data 0)"

definition verify_crc32 :: "bytes \<Rightarrow> nat \<Rightarrow> unit res" where
  "verify_crc32 data expected = require (compute_crc32 data = expected) DataCorruptError"

lemma crc32_append: "crc32 (as @ bs) c = crc32 bs (crc32 as c)"
  by (simp add: crc32_def)

lemma crc32_Nil [simp]: "crc32 [] c = c"
  by (simp add: crc32_def)

lemma compute_crc32_less: "compute_crc32 data < 2 ^ 32"
  using unsigned_less [of "crc32 data 0", where 'a = nat] by (simp add: compute_crc32_def)

text \<open>
  One shift is reversible: the polynomial has its top bit set, so the top bit of the
  result tells which branch was taken.
\<close>

lemma crc_shift_top: "bit (crc_shift c) 31 \<longleftrightarrow> odd c"
proof -
  have "\<not> bit c 32" using bit_imp_le_length [of c 32] by auto
  then have "\<not> bit (drop_bit 1 c) 31" by (simp add: bit_drop_bit_eq)
  moreover have "bit crc_poly 31" by (simp add: crc_poly_def)
  ultimately show ?thesis by (simp add: crc_shift_def bit_xor_iff)
qed

lemma crc_shift_inject: "crc_shift c = crc_shift d \<Longrightarrow> c = d"
proof -
  assume eq: "crc_shift c = crc_shift d"
  then have odd: "odd c \<longleftrightarrow> odd d" using crc_shift_top by metis
  have "drop_bit 1 c = drop_bit 1 d"
  proof (cases "odd c")
    case True
    with eq odd have "(drop_bit 1 c XOR crc_poly) XOR crc_poly = (drop_bit 1 d XOR crc_poly) XOR crc_poly"
      by (simp add: crc_shift_def)
    then show ?thesis by (simp add: xor.assoc)
  next
    case False
    with eq odd show ?thesis by (simp add: crc_shift_def)
  qed
  then have "bit c (Suc n) = bit d (Suc n)" for n
    by (metis bit_drop_bit_eq comp_apply plus_1_eq_Suc)
  then have "bit c n = bit d n" for n
    using odd by (cases n) (simp_all add: bit_0)
  then show "c = d" by (simp add: bit_eq_iff)
qed

lemma crc_shift_pow_inject: "(crc_shift ^^ n) c = (crc_shift ^^ n) d \<Longrightarrow> c = d"
proof (induction n arbitrary: c d)
  case (Suc n)
  then have "crc_shift ((crc_shift ^^ n) c) = crc_shift ((crc_shift ^^ n) d)" by simp
  then have "(crc_shift ^^ n) c = (crc_shift ^^ n) d" by (rule crc_shift_inject)
  then show ?case by (rule Suc.IH)
qed simp

lemma xor_right_inject: "(a :: 'a :: len word) XOR x = b XOR x \<longleftrightarrow> a = b"
  by (metis xor.assoc xor.right_neutral xor_self_eq)

lemma crc_byte_state_inject: "crc_byte b c = crc_byte b d \<Longrightarrow> c = d"
  using crc_shift_pow_inject by (fastforce simp: crc_byte_def xor_right_inject)

lemma crc_byte_data_inject: "crc_byte a c = crc_byte b c \<Longrightarrow> a = b"
proof -
  assume "crc_byte a c = crc_byte b c"
  then have "c XOR ucast a = c XOR ucast b"
    unfolding crc_byte_def by (rule crc_shift_pow_inject)
  then have "(ucast a :: u32) = ucast b"
    by (metis xor_right_inject xor.commute)
  then have "unat (ucast a :: u32) = unat (ucast b :: u32)" by simp
  then have "unat a = unat b"
    by (simp add: unsigned_ucast_eq take_bit_nat_eq_self order_less_trans [OF byte_less])
  then show "a = b" by (simp add: word_unat_eq_iff)
qed

lemma fold_crc_inject: "fold crc_byte bs c = fold crc_byte bs d \<Longrightarrow> c = d"
  by (induction bs arbitrary: c d) (auto dest: crc_byte_state_inject)

lemma crc32_state_inject: "crc32 bs c = crc32 bs d \<Longrightarrow> c = d"
  by (auto simp: crc32_def dest!: fold_crc_inject)

lemma crc32_one_byte_inject:
  assumes "crc32 (as @ x # bs) c = crc32 (as @ y # bs) c"
  shows "x = y"
proof -
  from assms have "fold crc_byte bs (crc_byte x (fold crc_byte as (NOT c))) =
      fold crc_byte bs (crc_byte y (fold crc_byte as (NOT c)))"
    by (simp add: crc32_def)
  then have "crc_byte x (fold crc_byte as (NOT c)) = crc_byte y (fold crc_byte as (NOT c))"
    by (rule fold_crc_inject)
  then show ?thesis by (rule crc_byte_data_inject)
qed

text \<open>Changing one byte always changes the checksum.\<close>

lemma compute_crc32_update:
  assumes "i < length data" and "b \<noteq> data ! i"
  shows "compute_crc32 (data[i := b]) \<noteq> compute_crc32 data"
proof
  assume "compute_crc32 (data[i := b]) = compute_crc32 data"
  then have "crc32 (data[i := b]) 0 = crc32 data 0" by (simp add: compute_crc32_def word_unat_eq_iff)
  moreover have "data[i := b] = take i data @ b # drop (Suc i) data"
    using assms(1) by (simp add: upd_conv_take_nth_drop)
  moreover have "data = take i data @ data ! i # drop (Suc i) data"
    using assms(1) by (simp add: id_take_nth_drop)
  ultimately have "b = data ! i" by (metis crc32_one_byte_inject)
  with assms(2) show False by simp
qed

lemma be_nat_update:
  assumes "i < length bs" and "b \<noteq> bs ! i"
  shows "be_nat (bs[i := b]) \<noteq> be_nat bs"
  using assms by (metis be_nat_inject length_list_update nth_list_update_eq)

lemma pslice_update:
  "pslice a e (xs[i := x]) = (if a \<le> i \<and> i < e then (pslice a e xs)[i - a := x] else pslice a e xs)"
  by (cases "a \<le> i") (auto simp: pslice_def drop_update_swap take_update_swap list_update_beyond not_le not_less)

subsection \<open>The 64-byte header shell\<close>

definition HEADER_LEN :: nat where [const_defs]: "HEADER_LEN = 64"

text \<open>Magics (\<open>MAGIC\<close> in \<open>headers.py\<close>), as the bytes of their ASCII text.\<close>

definition ascii :: "string \<Rightarrow> bytes" where
  "ascii s = map (\<lambda>c. word_of_nat (of_char c)) s"

definition MAGIC_repo_info :: bytes where "MAGIC_repo_info = ascii ''RpiF''"
definition MAGIC_repo_transaction :: bytes where "MAGIC_repo_transaction = ascii ''rPTs''"
definition MAGIC_bucket :: bytes where "MAGIC_bucket = ascii ''bFiL''"
definition MAGIC_bucket_meta :: bytes where "MAGIC_bucket_meta = ascii ''GMet''"
definition MAGIC_composition :: bytes where "MAGIC_composition = ascii ''cMpS''"
definition MAGIC_ahlt :: bytes where "MAGIC_ahlt = ascii ''aHlT''"

record index_header =
  ih_magic :: bytes
  ih_major :: nat
  ih_minor :: nat
  ih_raw :: bytes

definition parse_index_header :: "bytes \<Rightarrow> bytes \<Rightarrow> nat option \<Rightarrow> index_header res" where
  "parse_index_header data expect_magic max_major =
     (if length data < HEADER_LEN then Inl FormatError
      else let d = take HEADER_LEN data; magic = pslice 0 4 d in
        if magic \<noteq> expect_magic then Inl DataCorruptError
        else bind_res (verify_crc32 (take 60 d) (be_field 60 4 d)) (\<lambda>_.
          let major = be_field 4 2 d; minor = be_field 6 2 d in
          if (case max_major of None \<Rightarrow> False | Some m \<Rightarrow> m < major) then Inl UnsupportedVersionError
          else Inr \<lparr>ih_magic = magic, ih_major = major, ih_minor = minor, ih_raw = d\<rparr>))"

lemma parse_index_header_InrD:
  assumes "parse_index_header data m mm = Inr h"
  shows "64 \<le> length data" "take 4 data = m" "compute_crc32 (take 60 data) = be_field 60 4 data"
    "h = \<lparr>ih_magic = m, ih_major = be_field 4 2 data, ih_minor = be_field 6 2 data, ih_raw = take 64 data\<rparr>"
    "\<forall>k. mm = Some k \<longrightarrow> ih_major h \<le> k"
proof -
  have f: "be_field off len (take 64 data) = be_field off len data" if "off + len \<le> 64" for off len
    using that by (simp add: be_field_def pslice_def take_drop min_def)
  from assms show "64 \<le> length data" "take 4 data = m" "compute_crc32 (take 60 data) = be_field 60 4 data"
    "h = \<lparr>ih_magic = m, ih_major = be_field 4 2 data, ih_minor = be_field 6 2 data, ih_raw = take 64 data\<rparr>"
    "\<forall>k. mm = Some k \<longrightarrow> ih_major h \<le> k"
    by (auto simp: parse_index_header_def Let_def const_defs verify_crc32_def f min_def split: if_splits option.splits)
qed

text \<open>The errors, in the order the code checks them.\<close>

lemma parse_index_header_short: "length data < 64 \<Longrightarrow> parse_index_header data m mm = Inl FormatError"
  by (simp add: parse_index_header_def const_defs)

lemma parse_index_header_magic:
  "64 \<le> length data \<Longrightarrow> take 4 data \<noteq> m \<Longrightarrow> parse_index_header data m mm = Inl DataCorruptError"
  by (simp add: parse_index_header_def const_defs Let_def)

lemma parse_index_header_crc:
  "64 \<le> length data \<Longrightarrow> compute_crc32 (take 60 data) \<noteq> be_field 60 4 data \<Longrightarrow>
   parse_index_header data m mm = Inl DataCorruptError"
  by (auto simp: parse_index_header_def const_defs Let_def verify_crc32_def be_field_def pslice_def take_drop min_def)

lemma parse_index_header_errors:
  "parse_index_header data m mm = Inl e \<Longrightarrow> e \<in> {FormatError, DataCorruptError, UnsupportedVersionError}"
  by (auto simp: parse_index_header_def Let_def verify_crc32_def split: if_splits option.splits)

text \<open>A header with one corrupted byte is refused, whichever byte it is.\<close>

lemma corrupt_header_crc:
  assumes "64 \<le> length data" and "compute_crc32 (take 60 data) = be_field 60 4 data"
    and "i < 64" and "b \<noteq> data ! i"
  shows "compute_crc32 (take 60 (data[i := b])) \<noteq> be_field 60 4 (data[i := b])"
proof (cases "i < 60")
  case True
  with assms have "compute_crc32 (take 60 (data[i := b])) \<noteq> compute_crc32 (take 60 data)"
    using compute_crc32_update [of i "take 60 data" b] by (simp add: take_update_swap)
  with True assms(2) show ?thesis by (simp add: be_field_def pslice_update)
next
  case False
  with assms have "be_nat ((pslice 60 64 data)[i - 60 := b]) \<noteq> be_nat (pslice 60 64 data)"
    by (intro be_nat_update) auto
  with False assms show ?thesis
    by (simp add: be_field_def pslice_update)
qed

lemma parse_index_header_corrupt:
  assumes "parse_index_header data m mm = Inr h" and "i < 64" and "b \<noteq> data ! i"
  shows "parse_index_header (data[i := b]) m mm = Inl DataCorruptError"
  using corrupt_header_crc [OF parse_index_header_InrD(1,3) [OF assms(1)] assms(2,3)]
    parse_index_header_InrD(1) [OF assms(1)]
  by (intro parse_index_header_crc) auto

subsection \<open>Building a header\<close>

text \<open>
  The layout the parser documents, written from a 52-byte payload: what a writer of the
  format produces.
\<close>

definition build_header :: "bytes \<Rightarrow> nat \<Rightarrow> nat \<Rightarrow> bytes \<Rightarrow> bytes" where
  "build_header magic major minor payload =
     (let body = magic @ be_bytes 2 major @ be_bytes 2 minor @ payload
      in body @ be_bytes 4 (compute_crc32 body))"

lemma parse_build_header:
  assumes "length magic = 4" and "length payload = 52" and "major < 2 ^ 16" and "minor < 2 ^ 16"
    and "\<forall>k. mm = Some k \<longrightarrow> major \<le> k"
  shows "parse_index_header (build_header magic major minor payload @ rest) magic mm =
    Inr \<lparr>ih_magic = magic, ih_major = major, ih_minor = minor, ih_raw = build_header magic major minor payload\<rparr>"
proof -
  let ?body = "magic @ be_bytes 2 major @ be_bytes 2 minor @ payload"
  have len: "length ?body = 60" using assms by simp
  have len64: "length (build_header magic major minor payload) = 64"
    using len by (simp add: build_header_def Let_def)
  have crc: "compute_crc32 ?body < 256 ^ 4" using compute_crc32_less [of ?body] by simp
  have t60: "take 60 (build_header magic major minor payload) = ?body"
    using len by (simp add: build_header_def Let_def)
  have f60: "be_field 60 4 (build_header magic major minor payload) = compute_crc32 ?body"
  proof -
    have "be_field 60 4 (?body @ be_bytes 4 (compute_crc32 ?body)) = be_field 0 4 (be_bytes 4 (compute_crc32 ?body))"
      using len by (subst be_field_append_right) simp_all
    also have "\<dots> = compute_crc32 ?body" using crc by (simp add: be_field_exact)
    finally show ?thesis by (simp add: build_header_def Let_def)
  qed
  have f4: "be_field 4 2 (build_header magic major minor payload) = major"
    using assms by (simp add: build_header_def Let_def be_field_append_right be_field_append_left be_field_here be_field_exact)
  have f6: "be_field 6 2 (build_header magic major minor payload) = minor"
    using assms by (simp add: build_header_def Let_def be_field_append_right be_field_append_left be_field_here be_field_exact)
  have m: "take 4 (build_header magic major minor payload) = magic"
    using assms by (simp add: build_header_def Let_def)
  show ?thesis
    using assms(5) len64 t60 f60 f4 f6 m
    by (auto simp: parse_index_header_def const_defs Let_def verify_crc32_def split: option.splits)
qed

subsection \<open>Properties\<close>

text \<open>C38. No single corrupted byte of a header shell goes unnoticed: when a header parses,
  changing any one of its 64 bytes makes the parser raise \<open>DataCorruptError\<close>, whatever
  version check the caller asked for.\<close>

theorem header_corruption_detected:
  assumes "parse_index_header data magic max_major = Inr h" and "i < HEADER_LEN" and "b \<noteq> data ! i"
  shows "parse_index_header (data[i := b]) magic max_major = Inl DataCorruptError"
  using assms by (intro parse_index_header_corrupt) (auto simp: const_defs)

lemma header_corruption_detected_witness:
  "parse_index_header ((build_header MAGIC_bucket 3 0 (replicate 52 0))[20 := 1]) MAGIC_bucket (Some 3) = Inl DataCorruptError"
proof (rule header_corruption_detected)
  show "parse_index_header (build_header MAGIC_bucket 3 0 (replicate 52 0)) MAGIC_bucket (Some 3) =
    Inr \<lparr>ih_magic = MAGIC_bucket, ih_major = 3, ih_minor = 0,
         ih_raw = build_header MAGIC_bucket 3 0 (replicate 52 0)\<rparr>"
    using parse_build_header [of MAGIC_bucket "replicate 52 0" 3 0 "Some 3" "[]"]
    by (simp add: MAGIC_bucket_def ascii_def)
  show "20 < HEADER_LEN" by (simp add: const_defs)
  show "(1 :: byte) \<noteq> build_header MAGIC_bucket 3 0 (replicate 52 0) ! 20"
    by (simp add: build_header_def Let_def nth_append MAGIC_bucket_def ascii_def)
qed

text \<open>A header written in the documented layout is read back field by field, with any
  bytes after it ignored; the raw header kept by the parser is the 64 bytes written.\<close>

theorem header_roundtrip:
  assumes "length magic = 4" and "length payload = 52" and "major < 2 ^ 16" and "minor < 2 ^ 16"
    and "max_major = None \<or> (\<exists>k \<ge> major. max_major = Some k)"
  shows "parse_index_header (build_header magic major minor payload @ rest) magic max_major =
    Inr \<lparr>ih_magic = magic, ih_major = major, ih_minor = minor, ih_raw = build_header magic major minor payload\<rparr>"
  using assms by (intro parse_build_header) auto

lemma header_roundtrip_witness:
  "parse_index_header (build_header MAGIC_composition 1 2 (replicate 52 7) @ [1, 2]) MAGIC_composition None =
    Inr \<lparr>ih_magic = MAGIC_composition, ih_major = 1, ih_minor = 2,
         ih_raw = build_header MAGIC_composition 1 2 (replicate 52 7)\<rparr>"
  by (rule header_roundtrip) (simp_all add: MAGIC_composition_def ascii_def)

end
