(* ===== verification/ChunkMap.thy ===== *)
theory ChunkMap
  imports Headers
begin

text \<open>
  \<open>sdk/format/chunkmap.py\<close>: the 20-byte \<open>ChunkMapRecord\<close>, its decoded form, and the
  three ways the code reads one (a single record, the end offset alone for a binary
  search, a page of records). A record writer is given to state the round trip.
\<close>

unbundle bit_operations_syntax

datatype chunk_map_kind = MAPPING | ZERO

record chunk_map_entry =
  cm_kind :: chunk_map_kind
  cm_file_offset :: nat
  cm_is_inherit :: bool
  cm_addr :: "chunk_address option"
  cm_map_num :: nat
  cm_repeat :: nat

text \<open>\<open>ChunkMapEntry.length\<close> and \<open>ChunkMapEntry.end_offset\<close>.\<close>

definition entry_length :: "chunk_map_entry \<Rightarrow> nat" where
  "entry_length e =
     (if cm_kind e = ZERO then cm_map_num e * FIXED_CHUNK_LENGTH
      else cm_map_num e * (1 + cm_repeat e) * FIXED_CHUNK_LENGTH)"

definition entry_end :: "chunk_map_entry \<Rightarrow> nat" where
  "entry_end e = cm_file_offset e + entry_length e"

definition TYPE_FILTER :: nat where "TYPE_FILTER = 0x0F"
definition TYPE_INHERIT_BIT :: nat where "TYPE_INHERIT_BIT = 0x10"
definition TYPE_DATA_SHIFT :: nat where "TYPE_DATA_SHIFT = 56"
definition FILE_IDX_FILTER :: nat where "FILE_IDX_FILTER = push_bit TYPE_DATA_SHIFT 1 - 1"
definition MAPNUM_SHIFT :: nat where "MAPNUM_SHIFT = 16"
definition REPEAT_FILTER :: nat where "REPEAT_FILTER = push_bit MAPNUM_SHIFT 1 - 1"

lemmas chunkmap_const_defs =
  TYPE_FILTER_def TYPE_INHERIT_BIT_def TYPE_DATA_SHIFT_def FILE_IDX_FILTER_def MAPNUM_SHIFT_def REPEAT_FILTER_def

definition kind_of :: "nat \<Rightarrow> chunk_map_kind res" where
  "kind_of word0 =
     (let kind_value = drop_bit TYPE_DATA_SHIFT word0 AND TYPE_FILTER in
      if kind_value = 0 then Inr MAPPING
      else if kind_value = 1 then Inr ZERO
      else Inl DataCorruptError)"

text \<open>\<open>_RECORD.unpack_from(data, offset)\<close> with the format \<open>">QQI"\<close>.\<close>

definition unpack_record :: "bytes \<Rightarrow> nat \<Rightarrow> (nat \<times> nat \<times> nat) res" where
  "unpack_record data offset =
     (if length data < offset + CHUNK_MAP_RECORD_LENGTH then Inl PyStructError
      else Inr (be_field offset 8 data, be_field (offset + 8) 8 data, be_field (offset + 16) 4 data))"

definition parse_at :: "bytes \<Rightarrow> nat \<Rightarrow> chunk_map_entry res" where
  "parse_at data offset =
     bind_res (unpack_record data offset) (\<lambda>(word0, addr_raw, num).
     bind_res (kind_of word0) (\<lambda>kind.
       let file_offset = push_bit FIXED_CHUNK_BIT_NUM (word0 AND FILE_IDX_FILTER);
           is_inherit = (drop_bit TYPE_DATA_SHIFT word0 AND TYPE_INHERIT_BIT \<noteq> 0) in
       if kind = MAPPING then
         Inr \<lparr>cm_kind = kind, cm_file_offset = file_offset, cm_is_inherit = is_inherit,
              cm_addr = Some (addr_from_int addr_raw),
              cm_map_num = drop_bit MAPNUM_SHIFT num, cm_repeat = num AND REPEAT_FILTER\<rparr>
       else
         Inr \<lparr>cm_kind = kind, cm_file_offset = file_offset, cm_is_inherit = is_inherit,
              cm_addr = None, cm_map_num = num, cm_repeat = 0\<rparr>))"

definition parse_chunk_map_record :: "bytes \<Rightarrow> chunk_map_entry res" where
  "parse_chunk_map_record data =
     (if length data < CHUNK_MAP_RECORD_LENGTH then Inl FormatError else parse_at data 0)"

definition chunk_map_end_offset :: "bytes \<Rightarrow> nat \<Rightarrow> nat res" where
  "chunk_map_end_offset page_bytes index =
     (case unpack_record page_bytes (index * CHUNK_MAP_RECORD_LENGTH) of
        Inl e \<Rightarrow> Inl FormatError
      | Inr (word0, addr_raw, num) \<Rightarrow>
          let file_offset = push_bit FIXED_CHUNK_BIT_NUM (word0 AND FILE_IDX_FILTER) in
          bind_res (kind_of word0) (\<lambda>kind.
            if kind = ZERO then Inr (file_offset + num * FIXED_CHUNK_LENGTH)
            else Inr (file_offset +
                   drop_bit MAPNUM_SHIFT num * (1 + (num AND REPEAT_FILTER)) * FIXED_CHUNK_LENGTH)))"

definition iter_chunk_map_page :: "bytes \<Rightarrow> nat \<Rightarrow> chunk_map_entry gen" where
  "iter_chunk_map_page page_bytes count =
     (if length page_bytes < count * CHUNK_MAP_RECORD_LENGTH then ([], Some FormatError)
      else gen_map (\<lambda>i. parse_at page_bytes (i * CHUNK_MAP_RECORD_LENGTH)) [0..<count])"

subsection \<open>Shape of decoded entries\<close>

text \<open>What every decoded entry satisfies: the field widths of the format.\<close>

definition entry_fits :: "chunk_map_entry \<Rightarrow> bool" where
  "entry_fits e \<longleftrightarrow>
     FIXED_CHUNK_LENGTH dvd cm_file_offset e \<and> cm_file_offset e < 2 ^ 56 * FIXED_CHUNK_LENGTH \<and>
     (case cm_kind e of
        MAPPING \<Rightarrow> (\<exists>a. cm_addr e = Some a \<and> addr_fits a) \<and> cm_map_num e < 2 ^ 16 \<and> cm_repeat e < 2 ^ 16
      | ZERO \<Rightarrow> cm_addr e = None \<and> cm_map_num e < 2 ^ 32 \<and> cm_repeat e = 0)"

lemma push_bit_chunk [simp]: "push_bit FIXED_CHUNK_BIT_NUM n = n * FIXED_CHUNK_LENGTH"
  by (simp add: const_defs push_bit_eq_mult)

declare push_bit_and [simp del]

lemma file_idx_mod [simp]: "word0 AND FILE_IDX_FILTER = word0 mod 2 ^ 56"
  using and_mask_mod [of word0 56] by (simp add: chunkmap_const_defs push_bit_eq_mult)

lemma repeat_mod [simp]: "num AND REPEAT_FILTER = num mod 2 ^ 16"
  using and_mask_mod [of num 16] by (simp add: chunkmap_const_defs push_bit_eq_mult)

lemma map_num_div [simp]: "drop_bit MAPNUM_SHIFT num = num div 2 ^ 16"
  by (simp add: chunkmap_const_defs drop_bit_eq_div)

lemma kind_value_mod [simp]: "drop_bit TYPE_DATA_SHIFT word0 AND TYPE_FILTER = word0 div 2 ^ 56 mod 16"
  using and_mask_mod [of "word0 div 2 ^ 56" 4] by (simp add: chunkmap_const_defs drop_bit_eq_div)

lemma and_exp_zero: "(x :: nat) AND 2 ^ n = 0 \<longleftrightarrow> \<not> odd (x div 2 ^ n)"
proof -
  have "x AND 2 ^ n = of_bool (bit x n) * 2 ^ n"
    by (rule bit_eqI) (auto simp: bit_and_iff bit_exp_iff)
  then show ?thesis by (simp add: bit_iff_odd)
qed

lemma inherit_bit [simp]: "drop_bit TYPE_DATA_SHIFT word0 AND TYPE_INHERIT_BIT = 0 \<longleftrightarrow> \<not> odd (word0 div 2 ^ 60)"
  using and_exp_zero [of "word0 div 2 ^ 56" 4]
  by (simp add: chunkmap_const_defs drop_bit_eq_div div_mult2_eq [symmetric])

lemma unpack_record_InrD:
  assumes "unpack_record data off = Inr (w, a, n)"
  shows "w < 2 ^ 64" "a < 2 ^ 64" "n < 2 ^ 32" "off + 20 \<le> length data"
  using assms be_field_less [of off 8 data] be_field_less [of "off + 8" 8 data] be_field_less [of "off + 16" 4 data]
  by (auto simp: unpack_record_def const_defs split: if_splits)

lemma parse_at_fits: "parse_at data off = Inr e \<Longrightarrow> entry_fits e"
proof -
  assume p: "parse_at data off = Inr e"
  then obtain w a n k where u: "unpack_record data off = Inr (w, a, n)" and k: "kind_of w = Inr k"
    by (auto simp: parse_at_def res_simps)
  note b = unpack_record_InrD [OF u]
  have nd: "n div 65536 < 65536" using b(3) by (simp add: less_mult_imp_div_less)
  have wm: "w mod 2 ^ 56 < 2 ^ 56" by simp
  show ?thesis
    using p u k b nd wm addr_from_int_fits [OF b(2)]
    by (cases k) (auto simp: parse_at_def Let_def entry_fits_def)
qed

lemma parse_at_errors: "parse_at data off = Inl e \<Longrightarrow> e \<in> {PyStructError, DataCorruptError}"
  by (auto simp: parse_at_def unpack_record_def kind_of_def Let_def res_simps split: if_splits)

text \<open>Past its length check, the single-record parser never meets the \<open>struct\<close> error.\<close>

lemma parse_at_no_struct_error:
  "off + CHUNK_MAP_RECORD_LENGTH \<le> length data \<Longrightarrow> parse_at data off = Inl e \<Longrightarrow> e = DataCorruptError"
  by (auto simp: parse_at_def unpack_record_def kind_of_def Let_def res_simps split: if_splits)

text \<open>The binary-search probe agrees with decoding the whole record.\<close>

lemma chunk_map_end_offset_eq:
  "chunk_map_end_offset page i =
     (case parse_at page (i * CHUNK_MAP_RECORD_LENGTH) of
        Inl e \<Rightarrow> Inl (if e = PyStructError then FormatError else e)
      | Inr e \<Rightarrow> Inr (entry_end e))"
proof (cases "unpack_record page (i * CHUNK_MAP_RECORD_LENGTH)")
  case (Inl e)
  then have "e = PyStructError" by (auto simp: unpack_record_def split: if_splits)
  with Inl show ?thesis by (simp add: chunk_map_end_offset_def parse_at_def)
next
  case (Inr r)
  then obtain w a n where u: "unpack_record page (i * CHUNK_MAP_RECORD_LENGTH) = Inr (w, a, n)"
    by (cases r) auto
  show ?thesis
  proof (cases "kind_of w")
    case (Inl e)
    then have "e = DataCorruptError" by (auto simp: kind_of_def Let_def split: if_splits)
    with u Inl show ?thesis by (simp add: chunk_map_end_offset_def parse_at_def)
  next
    case (Inr k)
    with u show ?thesis
      by (cases k) (simp_all add: chunk_map_end_offset_def parse_at_def Let_def entry_end_def entry_length_def)
  qed
qed

lemma pslice_drop: "pslice a b (drop n xs) = pslice (n + a) (n + b) xs"
  by (simp add: pslice_def add.commute)

lemma be_field_drop: "be_field off len (drop n xs) = be_field (n + off) len xs"
  by (simp add: be_field_def pslice_drop add.assoc)

lemma unpack_record_drop: "n \<le> length data \<Longrightarrow> unpack_record (drop n data) k = unpack_record data (n + k)"
  by (auto simp: unpack_record_def be_field_drop add.assoc)

lemma parse_at_drop: "n \<le> length data \<Longrightarrow> parse_at (drop n data) k = parse_at data (n + k)"
  by (simp add: parse_at_def unpack_record_drop)

subsection \<open>Writing a record\<close>

text \<open>The record a writer produces for an entry, in the documented layout.\<close>

definition encode_entry :: "chunk_map_entry \<Rightarrow> bytes" where
  "encode_entry e =
     (let type_byte = (case cm_kind e of MAPPING \<Rightarrow> 0 | ZERO \<Rightarrow> 1) + (if cm_is_inherit e then 16 else 0);
          word0 = type_byte * 2 ^ 56 + cm_file_offset e div FIXED_CHUNK_LENGTH;
          addr_raw = (case cm_addr e of None \<Rightarrow> 0 | Some a \<Rightarrow> addr_to_int a);
          num = (case cm_kind e of MAPPING \<Rightarrow> cm_map_num e * 2 ^ 16 + cm_repeat e | ZERO \<Rightarrow> cm_map_num e)
      in be_bytes 8 word0 @ be_bytes 8 addr_raw @ be_bytes 4 num)"

lemma length_encode_entry [simp]: "length (encode_entry e) = CHUNK_MAP_RECORD_LENGTH"
  by (simp add: encode_entry_def Let_def const_defs)

lemma unpack_concat3:
  assumes "w < 2 ^ 64" and "a < 2 ^ 64" and "n < 2 ^ 32"
  shows "unpack_record (be_bytes 8 w @ be_bytes 8 a @ be_bytes 4 n @ rest) 0 = Inr (w, a, n)"
  using assms by (simp add: unpack_record_def const_defs be_field_append_right be_field_here)

lemma parse_encode_entry:
  assumes "entry_fits e"
  shows "parse_at (encode_entry e @ rest) 0 = Inr e"
proof -
  let ?C = FIXED_CHUNK_LENGTH
  obtain q where q: "cm_file_offset e = q * ?C" "q < 2 ^ 56"
    using assms by (auto simp: entry_fits_def elim!: dvdE simp: mult.commute)
  let ?t = "(case cm_kind e of MAPPING \<Rightarrow> 0 | ZERO \<Rightarrow> 1) + (if cm_is_inherit e then 16 else 0 :: nat)"
  let ?w = "?t * 2 ^ 56 + q"
  have t: "?t < 2 ^ 8" by (simp split: chunk_map_kind.splits)
  have w: "?w < 2 ^ 64"
  proof -
    have "?w < (?t + 1) * 2 ^ 56" using q(2) by simp
    also have "\<dots> \<le> 2 ^ 8 * 2 ^ 56" using t by (intro mult_le_mono1) simp
    finally show ?thesis by simp
  qed
  have wd: "?w div 2 ^ 56 = ?t" and wm: "?w mod 2 ^ 56 = q"
    using q(2) by (simp_all only: div_mult_self3 mod_mult_self3 mod_less) (simp add: q(2))
  have w60: "?w div 2 ^ 60 = ?t div 16"
    using wd by (simp add: div_mult2_eq [of _ "2 ^ 56" 16, simplified])
  have qd: "cm_file_offset e div ?C = q" using q(1) by simp
  show ?thesis
  proof (cases "cm_kind e")
    case MAPPING
    then obtain a where a: "cm_addr e = Some a" "addr_fits a" and m: "cm_map_num e < 2 ^ 16" "cm_repeat e < 2 ^ 16"
      using assms by (auto simp: entry_fits_def)
    let ?n = "cm_map_num e * 2 ^ 16 + cm_repeat e"
    have n: "?n < 2 ^ 32" using m by simp
    have nd: "?n div 2 ^ 16 = cm_map_num e" "?n mod 2 ^ 16 = cm_repeat e" using m(2) by simp_all
    have afi: "addr_from_int (addr_to_int a) = a" using a(2) by (intro addr_from_to_int) (auto simp: addr_fits_def)
    have u: "unpack_record (encode_entry e @ rest) 0 = Inr (?w, addr_to_int a, ?n)"
      using unpack_concat3 [OF w addr_to_int_less [OF a(2)] n] MAPPING a(1) qd
      by (simp add: encode_entry_def Let_def)
    show ?thesis
      using MAPPING u wd wm w60 nd afi a q(1)
      by (cases e) (auto simp: parse_at_def Let_def kind_of_def nd)
  next
    case ZERO
    then have z: "cm_addr e = None" "cm_map_num e < 2 ^ 32" "cm_repeat e = 0"
      using assms by (auto simp: entry_fits_def)
    have u: "unpack_record (encode_entry e @ rest) 0 = Inr (?w, 0, cm_map_num e)"
      using unpack_concat3 [OF w _ z(2), of 0] ZERO z(1) qd
      by (simp add: encode_entry_def Let_def)
    show ?thesis
      using ZERO u wd wm w60 z q(1)
      by (cases e) (auto simp: parse_at_def Let_def kind_of_def)
  qed
qed

text \<open>An array of records, as the composition file stores it.\<close>

definition encode_entries :: "chunk_map_entry list \<Rightarrow> bytes" where
  "encode_entries es = concat (map encode_entry es)"

lemma length_encode_entries [simp]: "length (encode_entries es) = length es * CHUNK_MAP_RECORD_LENGTH"
  by (induction es) (auto simp: encode_entries_def)

lemma encode_entries_append: "encode_entries (es @ fs) = encode_entries es @ encode_entries fs"
  by (simp add: encode_entries_def)

lemma drop_encode_entries: "drop (i * CHUNK_MAP_RECORD_LENGTH) (encode_entries es) = encode_entries (drop i es)"
proof (induction es arbitrary: i)
  case Nil
  then show ?case by (simp add: encode_entries_def)
next
  case (Cons e es)
  then show ?case by (cases i) (simp_all add: encode_entries_def)
qed

lemma take_encode_entries: "take (i * CHUNK_MAP_RECORD_LENGTH) (encode_entries es) = encode_entries (take i es)"
proof (induction es arbitrary: i)
  case Nil
  then show ?case by (simp add: encode_entries_def)
next
  case (Cons e es)
  then show ?case by (cases i) (simp_all add: encode_entries_def)
qed

lemma parse_at_encode_entries:
  assumes "i < length es" and "entry_fits (es ! i)"
  shows "parse_at (encode_entries es) (i * CHUNK_MAP_RECORD_LENGTH) = Inr (es ! i)"
proof -
  have "parse_at (encode_entries es) (i * CHUNK_MAP_RECORD_LENGTH) = parse_at (encode_entries (drop i es)) 0"
    using parse_at_drop [of "i * CHUNK_MAP_RECORD_LENGTH" "encode_entries es" 0] assms(1)
    by (simp add: drop_encode_entries)
  also have "encode_entries (drop i es) = encode_entry (es ! i) @ encode_entries (drop (Suc i) es)"
    using assms(1) by (simp add: Cons_nth_drop_Suc [symmetric] encode_entries_def)
  finally show ?thesis using parse_encode_entry [OF assms(2)] by simp
qed

lemma iter_encode_entries:
  assumes "\<forall>e \<in> set es. entry_fits e" and "count \<le> length es"
  shows "iter_chunk_map_page (encode_entries es) count = (take count es, None)"
proof -
  have "gen_map (\<lambda>i. parse_at (encode_entries es) (i * CHUNK_MAP_RECORD_LENGTH)) [0..<count] = (map ((!) es) [0..<count], None)"
    using assms by (intro gen_map_Inr parse_at_encode_entries) auto
  moreover have "map ((!) es) [0..<count] = take count es"
    using assms(2) by (intro nth_equalityI) auto
  ultimately show ?thesis using assms(2) by (simp add: iter_chunk_map_page_def)
qed

subsection \<open>Properties\<close>

text \<open>C35. Reading a page of chunk-map records inverts writing it: an array of entries whose
  fields fit the record layout decodes, record by record and through the page iterator, to
  the entries themselves; and each record is 20 bytes.\<close>

theorem chunk_map_roundtrip:
  assumes "\<forall>e \<in> set es. entry_fits e" and "i < length es"
  shows "parse_chunk_map_record (drop (i * CHUNK_MAP_RECORD_LENGTH) (encode_entries es)) = Inr (es ! i) \<and>
    iter_chunk_map_page (encode_entries es) (length es) = (es, None) \<and>
    length (encode_entries es) = length es * CHUNK_MAP_RECORD_LENGTH"
proof -
  have "parse_at (drop (i * CHUNK_MAP_RECORD_LENGTH) (encode_entries es)) 0 = Inr (es ! i)"
    using parse_at_drop [of "i * CHUNK_MAP_RECORD_LENGTH" "encode_entries es" 0]
      parse_at_encode_entries [OF assms(2)] assms by simp
  moreover have "CHUNK_MAP_RECORD_LENGTH \<le> length es * CHUNK_MAP_RECORD_LENGTH - i * CHUNK_MAP_RECORD_LENGTH"
    using assms(2) by (simp flip: diff_mult_distrib)
  ultimately show ?thesis
    using iter_encode_entries [OF assms(1), of "length es"]
    by (simp add: parse_chunk_map_record_def)
qed

lemma chunk_map_roundtrip_witness:
  "iter_chunk_map_page (encode_entries
     [\<lparr>cm_kind = MAPPING, cm_file_offset = 8192, cm_is_inherit = True, cm_addr = Some (ChunkAddress 1 5 9),
       cm_map_num = 3, cm_repeat = 1\<rparr>]) 1 =
   ([\<lparr>cm_kind = MAPPING, cm_file_offset = 8192, cm_is_inherit = True, cm_addr = Some (ChunkAddress 1 5 9),
       cm_map_num = 3, cm_repeat = 1\<rparr>], None)"
  using chunk_map_roundtrip [of "[\<lparr>cm_kind = MAPPING, cm_file_offset = 8192, cm_is_inherit = True,
      cm_addr = Some (ChunkAddress 1 5 9), cm_map_num = 3, cm_repeat = 1\<rparr>]" 0]
  by (simp add: entry_fits_def addr_fits_def const_values)

text \<open>C36. The binary search's probe is the decoder's end offset: for every page and index,
  \<open>chunk_map_end_offset\<close> returns the end offset of the entry \<open>_parse_at\<close> decodes there, and
  raises exactly when decoding does (a record past the page's end is a \<open>FormatError\<close>, an
  unknown kind a \<open>DataCorruptError\<close>).\<close>

theorem end_offset_probe_agrees:
  "chunk_map_end_offset page i =
     (case parse_at page (i * CHUNK_MAP_RECORD_LENGTH) of
        Inr e \<Rightarrow> Inr (cm_file_offset e + entry_length e)
      | Inl e \<Rightarrow> Inl (if length page < i * CHUNK_MAP_RECORD_LENGTH + CHUNK_MAP_RECORD_LENGTH
                     then FormatError else DataCorruptError))"
proof (cases "parse_at page (i * CHUNK_MAP_RECORD_LENGTH)")
  case (Inl e)
  show ?thesis
  proof (cases "length page < i * CHUNK_MAP_RECORD_LENGTH + CHUNK_MAP_RECORD_LENGTH")
    case True
    then have "parse_at page (i * CHUNK_MAP_RECORD_LENGTH) = Inl PyStructError"
      by (simp add: parse_at_def unpack_record_def)
    with True Inl show ?thesis by (simp add: chunk_map_end_offset_eq)
  next
    case False
    with parse_at_no_struct_error [OF _ Inl] have "e = DataCorruptError" by simp
    with False Inl show ?thesis by (simp add: chunk_map_end_offset_eq)
  qed
next
  case (Inr e)
  then show ?thesis by (simp add: chunk_map_end_offset_eq entry_end_def)
qed

end
