(* ===== verification/Redundancy.thy ===== *)
theory Redundancy
  imports ChunkMap
begin

text \<open>
  \<open>sdk/format/redundancy.py\<close>: the size of a Redundancy trailer, its parser, and the
  self-repair that rebuilds at most two consecutive windows from XOR parity. The trailer a
  writer produces (\<open>redundancy_trailer\<close>, the layout of the module's documentation) is
  given to state what the repair recovers.
\<close>

unbundle bit_operations_syntax

definition REDUNDANCY_MAGIC :: bytes where "REDUNDANCY_MAGIC = ascii ''RD''"
definition REDUNDANCY_HEAD_LENGTH :: nat where [const_defs]: "REDUNDANCY_HEAD_LENGTH = 16"
definition REDUNDANCY_VERSION :: nat where [const_defs]: "REDUNDANCY_VERSION = 0"

definition blob_component_lengths :: "nat \<Rightarrow> nat \<Rightarrow> nat \<times> nat" where
  "blob_component_lengths data_size coverage =
     (4 * ((data_size + coverage - 1) div coverage), min data_size (2 * coverage))"

definition redundancy_size :: "nat \<Rightarrow> nat \<Rightarrow> nat" where
  "redundancy_size data_size coverage =
     (let (step_crc_len, parity_len) = blob_component_lengths data_size coverage
      in REDUNDANCY_HEAD_LENGTH + step_crc_len + parity_len)"

record redundancy_blob =
  rb_coverage :: nat
  rb_data_size :: nat
  rb_step_crc :: "nat list"
  rb_parity :: bytes

text \<open>\<open>struct.unpack(">nI", raw)\<close>.\<close>

definition unpack_u32s :: "nat \<Rightarrow> bytes \<Rightarrow> nat list" where
  "unpack_u32s n raw = map (\<lambda>i. be_field (4 * i) 4 raw) [0..<n]"

definition parse_redundancy_blob :: "bytes \<Rightarrow> nat \<Rightarrow> nat \<Rightarrow> redundancy_blob res" where
  "parse_redundancy_blob data data_size coverage =
     (let expected_len = redundancy_size data_size coverage in
      if length data < expected_len then Inl FormatError
      else if pslice 0 2 data \<noteq> REDUNDANCY_MAGIC then Inl FormatError
      else if be_field 2 2 data \<noteq> REDUNDANCY_VERSION then Inl FormatError
      else if be_field 4 4 data \<noteq> coverage \<or> be_field 8 8 data \<noteq> data_size then Inl FormatError
      else
        let (step_crc_len, parity_len) = blob_component_lengths data_size coverage;
            step_crc_raw = pslice REDUNDANCY_HEAD_LENGTH (REDUNDANCY_HEAD_LENGTH + step_crc_len) data;
            parity = pslice (REDUNDANCY_HEAD_LENGTH + step_crc_len)
                       (REDUNDANCY_HEAD_LENGTH + step_crc_len + parity_len) data
        in Inr \<lparr>rb_coverage = coverage, rb_data_size = data_size,
                rb_step_crc = unpack_u32s (step_crc_len div 4) step_crc_raw, rb_parity = parity\<rparr>)"

definition window_span :: "nat \<Rightarrow> nat \<Rightarrow> nat \<Rightarrow> nat \<times> nat" where
  "window_span idx coverage data_size =
     (let start = idx * coverage in (start, min (start + coverage) data_size))"

definition blob_window :: "redundancy_blob \<Rightarrow> nat \<Rightarrow> bytes \<Rightarrow> bytes" where
  "blob_window blob idx data =
     (let (start, end) = window_span idx (rb_coverage blob) (rb_data_size blob) in pslice start end data)"

text \<open>The loop of \<open>_locate_first_bad_window\<close> over \<open>enumerate(blob.step_crc)\<close>.\<close>

fun locate_loop :: "redundancy_blob \<Rightarrow> bytes \<Rightarrow> nat \<Rightarrow> nat list \<Rightarrow> u32 \<Rightarrow> nat option" where
  "locate_loop blob data i [] crc = None"
| "locate_loop blob data i (expected # rest) crc =
     (let crc' = crc32 (blob_window blob i data) crc in
      if unat crc' \<noteq> expected then Some i else locate_loop blob data (Suc i) rest crc')"

definition locate_first_bad_window :: "redundancy_blob \<Rightarrow> bytes \<Rightarrow> nat option" where
  "locate_first_bad_window blob data = locate_loop blob data 0 (rb_step_crc blob) 0"

text \<open>\<open>acc << (8 * d)\<close> and \<open>acc >> (8 * d)\<close> raise on a negative \<open>d = a - b\<close>.\<close>

definition shift_bytes_left :: "nat \<Rightarrow> nat \<Rightarrow> nat \<Rightarrow> nat res" where
  "shift_bytes_left n a b = (if a < b then Inl PyValueError else Inr (push_bit (8 * (a - b)) n))"

definition shift_bytes_right :: "nat \<Rightarrow> nat \<Rightarrow> nat \<Rightarrow> nat res" where
  "shift_bytes_right n a b = (if a < b then Inl PyValueError else Inr (drop_bit (8 * (a - b)) n))"

text \<open>\<open>n.to_bytes(len, "big")\<close>.\<close>

definition int_to_bytes :: "nat \<Rightarrow> nat \<Rightarrow> bytes res" where
  "int_to_bytes n len = (if n < 256 ^ len then Inr (be_bytes len n) else Inl PyOverflowError)"

definition reconstruct_window :: "bytes \<Rightarrow> redundancy_blob \<Rightarrow> nat \<Rightarrow> nat \<Rightarrow> bytes res" where
  "reconstruct_window data blob idx num_windows =
     (let half = idx mod 2;
          half_bytes = pslice (half * rb_coverage blob) ((half + 1) * rb_coverage blob) (rb_parity blob);
          half_len = length half_bytes
      in bind_res
           (fold_res (\<lambda>j acc.
              if j = idx then Inr acc
              else let window = blob_window blob j data in
                bind_res (shift_bytes_left (be_nat window) half_len (length window)) (\<lambda>s. Inr (acc XOR s)))
            (pyrange half num_windows 2) (be_nat half_bytes))
         (\<lambda>acc.
           let (start, end) = window_span idx (rb_coverage blob) (rb_data_size blob);
               target_len = end - start
           in bind_res (shift_bytes_right acc half_len target_len) (\<lambda>n. int_to_bytes n target_len)))"

definition attempt_repair :: "bytes \<Rightarrow> bytes \<Rightarrow> nat \<Rightarrow> nat \<Rightarrow> bytes option res" where
  "attempt_repair data redundancy_raw coverage expected_crc =
     (case parse_redundancy_blob redundancy_raw (length data) coverage of
        Inl e \<Rightarrow> if isinstance e FormatError then Inr None else Inl e
      | Inr blob \<Rightarrow>
          if rb_step_crc blob = [] then Inr None
          else (case locate_first_bad_window blob data of
              None \<Rightarrow> Inr None
            | Some bad_idx \<Rightarrow>
                let num_windows = length (rb_step_crc blob);
                    candidate_windows = (if num_windows \<le> bad_idx + 1 then [bad_idx] else [bad_idx, bad_idx + 1])
                in bind_res
                     (fold_res (\<lambda>idx patched.
                        let (start, end) = window_span idx (rb_coverage blob) (rb_data_size blob) in
                        bind_res (reconstruct_window data blob idx num_windows) (\<lambda>w.
                          Inr (pslice_assign start end w patched)))
                      candidate_windows data)
                   (\<lambda>candidate.
                     if compute_crc32 candidate \<noteq> expected_crc then Inr None else Inr (Some candidate))))"

subsection \<open>Exclusive or of byte strings and of the integers they spell\<close>

definition xor_bytes :: "bytes \<Rightarrow> bytes \<Rightarrow> bytes" where
  "xor_bytes as bs = map2 (XOR) as bs"

definition padded :: "nat \<Rightarrow> bytes \<Rightarrow> bytes" where
  "padded len w = w @ replicate (len - length w) 0"

lemma length_xor_bytes [simp]: "length (xor_bytes as bs) = min (length as) (length bs)"
  by (simp add: xor_bytes_def)

lemma length_padded [simp]: "length w \<le> len \<Longrightarrow> length (padded len w) = len"
  by (simp add: padded_def)

lemma xor_less: "(x :: nat) < 2 ^ n \<Longrightarrow> y < 2 ^ n \<Longrightarrow> x XOR y < 2 ^ n"
  by (metis take_bit_nat_eq_self_iff take_bit_xor)

lemma xor_split_byte:
  assumes "a < 256" and "b < (256 :: nat)"
  shows "(x * 256 + a) XOR (y * 256 + b) = (x XOR y) * 256 + (a XOR b)"
proof -
  have ab: "a XOR b < 2 ^ 8" using assms by (intro xor_less) auto
  have "(push_bit 8 x OR a) XOR (push_bit 8 y OR b) = push_bit 8 (x XOR y) OR (a XOR b)"
  proof (rule bit_eqI)
    fix n
    have "bit a n \<Longrightarrow> n < 8" "bit b n \<Longrightarrow> n < 8"
      using assms take_bit_nat_eq_self [of a 8] take_bit_nat_eq_self [of b 8]
      by (auto simp: bit_take_bit_iff dest: sym) (metis bit_take_bit_iff)+
    then show "bit ((push_bit 8 x OR a) XOR (push_bit 8 y OR b)) n = bit (push_bit 8 (x XOR y) OR (a XOR b)) n"
      by (auto simp: bit_or_iff bit_xor_iff bit_push_bit_iff)
  qed
  also have "\<dots> = (x XOR y) * 2 ^ 8 + (a XOR b)" using ab by (rule push_bit_or_add)
  finally show ?thesis
    using assms by (simp add: push_bit_or_add)
qed

lemma be_nat_xor_bytes: "length as = length bs \<Longrightarrow> be_nat (xor_bytes as bs) = be_nat as XOR be_nat bs"
proof (induction as arbitrary: bs rule: rev_induct)
  case Nil
  then show ?case by (simp add: xor_bytes_def)
next
  case (snoc a as)
  from snoc.prems obtain cs b where bs: "bs = cs @ [b]" "length as = length cs"
    by (cases bs rule: rev_cases) auto
  have "xor_bytes (as @ [a]) bs = xor_bytes as cs @ [a XOR b]"
    using bs by (simp add: xor_bytes_def)
  then show ?case
    using bs snoc.IH by (simp add: xor_split_byte unsigned_xor_eq)
qed

lemma be_nat_zeros [simp]: "be_nat (replicate k 0) = 0"
  by (induction k) (simp_all add: be_nat_Cons)

lemma be_nat_padded: "be_nat (padded len w) = push_bit (8 * (len - length w)) (be_nat w)"
  by (simp add: padded_def be_nat_append push_bit_eq_mult power_mult)

lemma fold_xor_start: "fold (\<lambda>j a. a XOR f j) js s = s XOR fold (\<lambda>j a. a XOR f j) js (0 :: nat)"
proof (induction js arbitrary: s)
  case (Cons j js)
  have "fold (\<lambda>j a. a XOR f j) (j # js) s = (s XOR f j) XOR fold (\<lambda>j a. a XOR f j) js 0"
    using Cons.IH [of "s XOR f j"] by simp
  also have "\<dots> = s XOR (f j XOR fold (\<lambda>j a. a XOR f j) js 0)" by (simp add: xor.assoc)
  also have "f j XOR fold (\<lambda>j a. a XOR f j) js 0 = fold (\<lambda>j a. a XOR f j) (j # js) 0"
    using Cons.IH [of "f j"] by simp
  finally show ?case .
qed simp

lemma fold_xor_skip:
  "distinct js \<Longrightarrow> k \<in> set js \<Longrightarrow>
   fold (\<lambda>j a. a XOR f j) js (0 :: nat) = f k XOR fold (\<lambda>j a. if j = k then a else a XOR f j) js 0"
proof (induction js)
  case (Cons j js)
  have skip: "fold (\<lambda>j a. if j = k then a else a XOR f j) js s = s XOR fold (\<lambda>j a. if j = k then a else a XOR f j) js 0"
    for s :: nat
    using fold_xor_start [of "\<lambda>j. if j = k then 0 else f j" js s]
    by (simp add: if_distrib [of "\<lambda>x. _ XOR x"] cong: if_cong)
  show ?case
  proof (cases "j = k")
    case True
    with Cons.prems have "fold (\<lambda>j a. if j = k then a else a XOR f j) js 0 = fold (\<lambda>j a. a XOR f j) js 0"
      by (intro fold_cong) auto
    with True show ?thesis using fold_xor_start [of f js "f k"] by simp
  next
    case False
    with Cons have "fold (\<lambda>j a. a XOR f j) js 0 = f k XOR fold (\<lambda>j a. if j = k then a else a XOR f j) js 0" by simp
    with False show ?thesis
      using fold_xor_start [of f js "f j"] skip [of "f j"] by (simp add: xor.left_commute)
  qed
qed simp

lemma fold_xor_less:
  "s < 2 ^ n \<Longrightarrow> \<forall>j \<in> set js. f j < 2 ^ n \<Longrightarrow> fold (\<lambda>j a. if P j then a else a XOR f j) js (s :: nat) < 2 ^ n"
  by (induction js arbitrary: s) (auto intro: xor_less)

subsection \<open>Windows\<close>

text \<open>The number of windows, \<open>ceil(data_size / coverage)\<close>.\<close>

definition window_count :: "nat \<Rightarrow> nat \<Rightarrow> nat" where
  "window_count data_size coverage = (data_size + coverage - 1) div coverage"

lemma blob_component_lengths_eq:
  "blob_component_lengths d c = (4 * window_count d c, min d (2 * c))"
  by (simp add: blob_component_lengths_def window_count_def)

lemma window_count_iff: "0 < coverage \<Longrightarrow> j < window_count data_size coverage \<longleftrightarrow> j * coverage < data_size"
  using pyrange_index_less [of coverage j data_size 0] by (simp add: window_count_def)

definition window :: "nat \<Rightarrow> nat \<Rightarrow> bytes \<Rightarrow> bytes" where
  "window coverage j data = pslice (j * coverage) (j * coverage + coverage) data"

lemma length_window: "length (window coverage j data) = min coverage (length data - j * coverage)"
  by (simp add: window_def)

lemma blob_window_eq:
  "rb_data_size blob = length data \<Longrightarrow> blob_window blob j data = window (rb_coverage blob) j data"
  by (simp add: blob_window_def window_span_def Let_def window_def pslice_def min_diff)
     (simp add: min_def)

lemma crc32_next_window:
  "crc32 (window coverage j data) (crc32 (take (j * coverage) data) c) = crc32 (take (Suc j * coverage) data) c"
proof -
  have "take (Suc j * coverage) data = take (j * coverage) data @ window coverage j data"
    using take_add [of "j * coverage" coverage data] by (simp add: window_def pslice_def add.commute)
  then show ?thesis by (simp only: crc32_append)
qed

text \<open>The scan finds the first checkpoint the data's own rolling checksum departs from.\<close>

lemma locate_loop_Some:
  assumes "locate_loop blob data i cs crc = Some k"
  shows "i \<le> k \<and> k < i + length cs"
  using assms
proof (induction cs arbitrary: i crc)
  case (Cons c cs)
  show ?case
  proof (cases "unat (crc32 (blob_window blob i data) crc) \<noteq> c")
    case True
    with Cons.prems show ?thesis by (auto simp: Let_def)
  next
    case False
    with Cons.prems Cons.IH [of "Suc i"] show ?thesis by (fastforce simp: Let_def)
  qed
qed simp

lemma locate_loop_first:
  assumes "rb_data_size blob = length data" and "crc = crc32 (take (i * rb_coverage blob) data) 0"
    and "k < length cs" and "\<forall>j < k. compute_crc32 (take (Suc (i + j) * rb_coverage blob) data) = cs ! j"
    and "compute_crc32 (take (Suc (i + k) * rb_coverage blob) data) \<noteq> cs ! k"
  shows "locate_loop blob data i cs crc = Some (i + k)"
  using assms
proof (induction cs arbitrary: i crc k)
  case (Cons c cs)
  have crc': "crc32 (blob_window blob i data) crc = crc32 (take (Suc i * rb_coverage blob) data) 0"
    using Cons.prems(1,2) by (simp add: blob_window_eq crc32_next_window del: mult_Suc)
  show ?case
  proof (cases k)
    case 0
    with Cons.prems(5) crc' show ?thesis by (simp add: Let_def compute_crc32_def del: mult_Suc)
  next
    case (Suc m)
    then have "compute_crc32 (take (Suc i * rb_coverage blob) data) = c"
      using Cons.prems(4) by (auto dest: spec [of _ 0])
    moreover have "locate_loop blob data (Suc i) cs (crc32 (take (Suc i * rb_coverage blob) data) 0) = Some (Suc i + m)"
      using Cons.prems Suc by (intro Cons.IH) (auto simp del: mult_Suc)
    ultimately show ?thesis using crc' Suc by (simp add: Let_def compute_crc32_def del: mult_Suc)
  qed
qed simp

subsection \<open>Reconstruction\<close>

text \<open>Width of one half of the parity buffer.\<close>

definition half_length :: "nat \<Rightarrow> nat \<Rightarrow> nat \<Rightarrow> nat" where
  "half_length coverage data_size half = min coverage (data_size - half * coverage)"

text \<open>
  A blob as the parser returns it for \<open>data\<close>: the windows, one checkpoint each, and a parity
  buffer of the documented width.
\<close>

definition blob_for :: "redundancy_blob \<Rightarrow> bytes \<Rightarrow> bool" where
  "blob_for blob data \<longleftrightarrow>
     0 < rb_coverage blob \<and> rb_data_size blob = length data \<and>
     length (rb_step_crc blob) = window_count (length data) (rb_coverage blob) \<and>
     length (rb_parity blob) = min (length data) (2 * rb_coverage blob)"

lemma blob_window_length:
  assumes "blob_for blob data" and "j mod 2 = half" and "half < 2"
  shows "length (blob_window blob j data) \<le> half_length (rb_coverage blob) (length data) half"
proof -
  have "half * rb_coverage blob \<le> j * rb_coverage blob" using assms(2) by (intro mult_le_mono1) auto
  then have "length data - j * rb_coverage blob \<le> length data - half * rb_coverage blob" by (rule diff_le_mono2)
  then show ?thesis
    using assms(1) by (auto simp: blob_for_def blob_window_eq length_window half_length_def)
qed

lemma parity_half_length:
  assumes "blob_for blob data" and "half < 2"
  shows "length (pslice (half * rb_coverage blob) ((half + 1) * rb_coverage blob) (rb_parity blob)) =
    half_length (rb_coverage blob) (length data) half"
  using assms by (auto simp: blob_for_def half_length_def less_2_cases_iff)

abbreviation half_js :: "nat \<Rightarrow> nat \<Rightarrow> nat list" where
  "half_js half n \<equiv> pyrange half n 2"

lemma half_js_mod: "half < 2 \<Longrightarrow> j \<in> set (half_js half n) \<longleftrightarrow> j < n \<and> j mod 2 = half"
  by (auto simp: in_pyrange_iff less_2_cases_iff) presburger+

text \<open>The reconstruction never raises, and computes the exclusive or in the integers.\<close>

lemma reconstruct_window_eq:
  assumes b: "blob_for blob data" and idx: "idx < n"
  defines "half \<equiv> idx mod 2"
  defines "L \<equiv> half_length (rb_coverage blob) (length data) half"
  defines "P \<equiv> pslice (half * rb_coverage blob) ((half + 1) * rb_coverage blob) (rb_parity blob)"
  defines "acc \<equiv> fold (\<lambda>j a. if j = idx then a else a XOR be_nat (padded L (blob_window blob j data)))
    (half_js half n) (be_nat P)"
  defines "t \<equiv> length (blob_window blob idx data)"
  shows "reconstruct_window data blob idx n = Inr (be_bytes t (drop_bit (8 * (L - t)) acc))"
    and "acc < 2 ^ (8 * L)"
proof -
  have h: "half < 2" by (simp add: half_def)
  have lenP: "length P = L" unfolding P_def L_def by (rule parity_half_length [OF b h])
  have wl: "length (blob_window blob j data) \<le> L" if "j mod 2 = half" for j
    unfolding L_def using b that h by (rule blob_window_length)
  have tL: "t \<le> L" unfolding t_def by (rule wl) (simp add: half_def)
  have bound: "be_nat xs < 2 ^ (8 * length xs)" for xs :: bytes
    using be_nat_less [of xs] by (simp add: power_mult)
  show acc: "acc < 2 ^ (8 * L)"
    unfolding acc_def
  proof (rule fold_xor_less)
    show "be_nat P < 2 ^ (8 * L)" using bound [of P] lenP by simp
    show "\<forall>j \<in> set (half_js half n). be_nat (padded L (blob_window blob j data)) < 2 ^ (8 * L)"
      using bound [of "padded L _"] wl h by (auto simp: half_js_mod) (metis length_padded)
  qed
  have loop: "fold_res (\<lambda>j acc. if j = idx then Inr acc
              else let window = blob_window blob j data in
                bind_res (shift_bytes_left (be_nat window) (length P) (length window)) (\<lambda>s. Inr (acc XOR s)))
            (half_js half n) (be_nat P) = Inr acc"
    unfolding acc_def
    by (rule fold_res_Inr)
      (use wl h lenP in \<open>auto simp: half_js_mod shift_bytes_left_def Let_def be_nat_padded leD\<close>)
  have span: "snd (window_span idx (rb_coverage blob) (rb_data_size blob)) - fst (window_span idx (rb_coverage blob) (rb_data_size blob)) = t"
    using b by (auto simp: blob_for_def t_def blob_window_eq length_window window_span_def Let_def)
  have "drop_bit (8 * (L - t)) acc < 256 ^ t"
  proof -
    have "2 ^ (8 * L) = 2 ^ (8 * t) * (2 :: nat) ^ (8 * (L - t))"
      using tL by (simp flip: power_add add: diff_mult_distrib2)
    with acc have "acc < 2 ^ (8 * t) * 2 ^ (8 * (L - t))" by simp
    then have "acc div 2 ^ (8 * (L - t)) < 2 ^ (8 * t)" by (rule less_mult_imp_div_less)
    then show ?thesis by (simp add: drop_bit_eq_div power_mult)
  qed
  then show "reconstruct_window data blob idx n = Inr (be_bytes t (drop_bit (8 * (L - t)) acc))"
    using span lenP tL
    unfolding reconstruct_window_def Let_def half_def [symmetric] P_def [symmetric] loop [unfolded Let_def]
    by (simp add: split_def shift_bytes_right_def int_to_bytes_def)
qed

subsection \<open>The trailer a writer produces\<close>

text \<open>
  One half of the parity buffer: the exclusive or of the windows of that parity, each
  aligned to the buffer's start. The checkpoints are the checksums of the data's prefixes.
\<close>

definition parity_half :: "nat \<Rightarrow> bytes \<Rightarrow> nat \<Rightarrow> bytes" where
  "parity_half coverage data half =
     (let L = half_length coverage (length data) half
      in fold (\<lambda>j acc. xor_bytes acc (padded L (window coverage j data)))
           (half_js half (window_count (length data) coverage)) (replicate L 0))"

definition step_crcs :: "nat \<Rightarrow> bytes \<Rightarrow> nat list" where
  "step_crcs coverage data =
     map (\<lambda>j. compute_crc32 (take (Suc j * coverage) data)) [0..<window_count (length data) coverage]"

definition redundancy_trailer :: "nat \<Rightarrow> bytes \<Rightarrow> bytes" where
  "redundancy_trailer coverage data =
     REDUNDANCY_MAGIC @ be_bytes 2 REDUNDANCY_VERSION @ be_bytes 4 coverage @ be_bytes 8 (length data) @
     concat (map (be_bytes 4) (step_crcs coverage data)) @ parity_half coverage data 0 @ parity_half coverage data 1"

lemma window_length_half:
  assumes "0 < coverage" and "j mod 2 = half"
  shows "length (window coverage j data) \<le> half_length coverage (length data) half"
proof -
  have "half * coverage \<le> j * coverage" using assms(2) by (intro mult_le_mono1) auto
  then have "length data - j * coverage \<le> length data - half * coverage" by (rule diff_le_mono2)
  then show ?thesis by (auto simp: length_window half_length_def)
qed

lemma fold_xor_bytes:
  assumes "\<forall>j \<in> set js. length (f j) = L" and "length s = L"
  shows "length (fold (\<lambda>j acc. xor_bytes acc (f j)) js s) = L"
    and "be_nat (fold (\<lambda>j acc. xor_bytes acc (f j)) js s) = fold (\<lambda>j a. a XOR be_nat (f j)) js (be_nat s)"
  using assms by (induction js arbitrary: s) (simp_all add: be_nat_xor_bytes)

lemma parity_half_props:
  assumes "0 < coverage" and "half < 2"
  shows "length (parity_half coverage data half) = half_length coverage (length data) half"
    and "be_nat (parity_half coverage data half) =
      fold (\<lambda>j a. a XOR be_nat (padded (half_length coverage (length data) half) (window coverage j data)))
        (half_js half (window_count (length data) coverage)) 0"
proof -
  have "\<forall>j \<in> set (half_js half (window_count (length data) coverage)).
      length (padded (half_length coverage (length data) half) (window coverage j data)) =
      half_length coverage (length data) half"
    using window_length_half [OF assms(1)] assms(2) by (auto simp: half_js_mod)
  from fold_xor_bytes [OF this, of "replicate (half_length coverage (length data) half) 0"]
  show "length (parity_half coverage data half) = half_length coverage (length data) half"
    "be_nat (parity_half coverage data half) =
      fold (\<lambda>j a. a XOR be_nat (padded (half_length coverage (length data) half) (window coverage j data)))
        (half_js half (window_count (length data) coverage)) 0"
    by (simp_all add: parity_half_def Let_def)
qed

lemma parity_lengths:
  "0 < coverage \<Longrightarrow>
   length (parity_half coverage data 0 @ parity_half coverage data 1) = min (length data) (2 * coverage)"
  by (simp add: parity_half_props half_length_def)

lemma unpack_u32s_concat:
  assumes "\<forall>x \<in> set xs. x < 2 ^ 32"
  shows "unpack_u32s (length xs) (concat (map (be_bytes 4) xs)) = xs"
proof (rule nth_equalityI)
  fix i assume "i < length (unpack_u32s (length xs) (concat (map (be_bytes 4) xs)))"
  then have i: "i < length xs" by (simp add: unpack_u32s_def)
  have pre: "length (concat (map (be_bytes 4) (take i xs))) = 4 * i"
    using i length_concat_equal [of "map (be_bytes 4) (take i xs)" 4] by simp
  have "concat (map (be_bytes 4) xs) =
      concat (map (be_bytes 4) (take i xs)) @ be_bytes 4 (xs ! i) @ concat (map (be_bytes 4) (drop (Suc i) xs))"
    using i by (metis append_take_drop_id concat_append map_append Cons_nth_drop_Suc concat.simps(2) list.map(2))
  then have "be_field (4 * i) 4 (concat (map (be_bytes 4) xs)) = be_nat (be_bytes 4 (xs ! i))"
    using pre by (simp add: be_field_append_right be_field_here del: be_nat_be_bytes_id)
  then show "unpack_u32s (length xs) (concat (map (be_bytes 4) xs)) ! i = xs ! i"
    using i assms by (simp add: unpack_u32s_def)
qed (simp add: unpack_u32s_def)

lemma pslice_mid: "length xs = a \<Longrightarrow> length ys = k \<Longrightarrow> pslice a (a + k) (xs @ ys @ zs) = ys"
  by (auto simp: pslice_def)

text \<open>A trailer is read back as written, with the parser's checks passed.\<close>

lemma parse_redundancy_trailer:
  assumes c: "0 < coverage" "coverage < 2 ^ 32" and d: "length data < 2 ^ 64"
  shows "parse_redundancy_blob (redundancy_trailer coverage data @ rest) (length data) coverage =
    Inr \<lparr>rb_coverage = coverage, rb_data_size = length data, rb_step_crc = step_crcs coverage data,
         rb_parity = parity_half coverage data 0 @ parity_half coverage data 1\<rparr>"
proof -
  let ?n = "window_count (length data) coverage"
  let ?crcs = "concat (map (be_bytes 4) (step_crcs coverage data))"
  let ?par = "parity_half coverage data 0 @ parity_half coverage data 1"
  let ?head = "REDUNDANCY_MAGIC @ be_bytes 2 REDUNDANCY_VERSION @ be_bytes 4 coverage @ be_bytes 8 (length data)"
  have m: "length REDUNDANCY_MAGIC = 2" by (simp add: REDUNDANCY_MAGIC_def ascii_def)
  have lcrc: "length ?crcs = 4 * ?n"
    using length_concat_equal [of "map (be_bytes 4) (step_crcs coverage data)" 4] by (simp add: step_crcs_def)
  have lpar: "length ?par = min (length data) (2 * coverage)" using parity_lengths [OF c(1)] by simp
  have lh: "length ?head = 16" using m by simp
  let ?t = "?head @ ?crcs @ ?par @ rest"
  have t: "redundancy_trailer coverage data @ rest = ?t" by (simp add: redundancy_trailer_def)
  have p1: "pslice 16 (16 + 4 * ?n) ?t = ?crcs"
    using lh lcrc by (subst pslice_append_right) (simp_all add: pslice_append_left)
  have p2: "pslice (16 + 4 * ?n) (16 + 4 * ?n + min (length data) (2 * coverage)) ?t = ?par"
    using pslice_mid [of "?head @ ?crcs" "16 + 4 * ?n" ?par "min (length data) (2 * coverage)" rest] lh lcrc lpar
    by simp
  have f0: "pslice 0 2 ?t = REDUNDANCY_MAGIC" using m by simp
  have f2: "be_field 2 2 ?t = REDUNDANCY_VERSION"
    using m by (simp add: be_field_append_right be_field_here REDUNDANCY_VERSION_def)
  have f4: "be_field 4 4 ?t = coverage"
    using m c(2) by (simp add: be_field_append_right be_field_here)
  have f8: "be_field 8 8 ?t = length data"
    using m d by (simp add: be_field_append_right be_field_here)
  have u: "unpack_u32s ?n ?crcs = step_crcs coverage data"
    using unpack_u32s_concat [of "step_crcs coverage data"] compute_crc32_less by (simp add: step_crcs_def)
  have len: "redundancy_size (length data) coverage \<le> length ?t"
    using lh lcrc lpar by (simp add: redundancy_size_def blob_component_lengths_eq const_defs)
  show ?thesis
    unfolding t
    using p1 p2 f0 f2 f4 f8 u len
    by (simp add: parse_redundancy_blob_def Let_def blob_component_lengths_eq
        REDUNDANCY_HEAD_LENGTH_def del: append_assoc)
qed

lemma trailer_blob_for:
  assumes "0 < coverage" and "length data' = length data"
  shows "blob_for \<lparr>rb_coverage = coverage, rb_data_size = length data, rb_step_crc = step_crcs coverage data,
         rb_parity = parity_half coverage data 0 @ parity_half coverage data 1\<rparr> data'"
  using assms parity_lengths [OF assms(1), of data] by (simp add: blob_for_def step_crcs_def)

text \<open>A window is rebuilt exactly when the other windows of its half are undamaged.\<close>

lemma reconstruct_window_trailer:
  assumes c: "0 < coverage" and len: "length data' = length data"
    and idx: "idx < window_count (length data) coverage"
    and same: "\<And>j. j \<noteq> idx \<Longrightarrow> j mod 2 = idx mod 2 \<Longrightarrow> window coverage j data' = window coverage j data"
  shows "reconstruct_window data' \<lparr>rb_coverage = coverage, rb_data_size = length data,
      rb_step_crc = step_crcs coverage data,
      rb_parity = parity_half coverage data 0 @ parity_half coverage data 1\<rparr>
    idx (window_count (length data) coverage) = Inr (window coverage idx data)"
proof -
  let ?b = "\<lparr>rb_coverage = coverage, rb_data_size = length data, rb_step_crc = step_crcs coverage data,
         rb_parity = parity_half coverage data 0 @ parity_half coverage data 1\<rparr>"
  let ?n = "window_count (length data) coverage"
  let ?half = "idx mod 2"
  let ?L = "half_length coverage (length data) ?half"
  let ?f = "\<lambda>j. be_nat (padded ?L (window coverage j data))"
  have b: "blob_for ?b data'" using trailer_blob_for [OF c len] .
  have h: "?half < 2" by simp
  have bw: "blob_window ?b j data' = window coverage j data'" for j using len by (simp add: blob_window_eq)
  have P: "pslice (?half * coverage) ((?half + 1) * coverage) (parity_half coverage data 0 @ parity_half coverage data 1) =
      parity_half coverage data ?half"
  proof (cases "length data < coverage")
    case True
    then have "parity_half coverage data 1 = []" and "length (parity_half coverage data 0) = length data"
      using parity_half_props(1) [OF c, of 1 data] parity_half_props(1) [OF c, of 0 data]
      by (simp_all add: half_length_def)
    moreover have "?half = 0"
      using idx True c by (auto simp: window_count_iff) (metis less_imp_le_nat mult_less_cancel2 nat_mult_1 not_less not_mod2_eq_Suc_0_eq_0 le_trans mod_less_eq_dividend less_one linorder_not_le)
    ultimately show ?thesis using True by simp
  next
    case False
    then have "length (parity_half coverage data 0) = coverage" "length (parity_half coverage data 1) \<le> coverage"
      using parity_half_props(1) [OF c, of 1 data] parity_half_props(1) [OF c, of 0 data]
      by (simp_all add: half_length_def)
    then show ?thesis
      by (cases "?half = 0") (auto simp: pslice_append_right)
  qed
  have acc: "fold (\<lambda>j a. if j = idx then a else a XOR be_nat (padded ?L (window coverage j data')))
      (half_js ?half ?n) (be_nat (parity_half coverage data ?half)) = ?f idx"
  proof -
    have "fold (\<lambda>j a. if j = idx then a else a XOR be_nat (padded ?L (window coverage j data'))) (half_js ?half ?n) s =
        fold (\<lambda>j a. if j = idx then a else a XOR ?f j) (half_js ?half ?n) s" for s
      using same by (intro fold_cong) (auto simp: half_js_mod)
    moreover have "idx \<in> set (half_js ?half ?n)" using idx by (simp add: half_js_mod)
    ultimately show ?thesis
      using fold_xor_skip [of "half_js ?half ?n" idx ?f] distinct_pyrange [of 2 ?half ?n]
        fold_xor_start [of "\<lambda>j. if j = idx then 0 else ?f j" "half_js ?half ?n" "be_nat (parity_half coverage data ?half)"]
        parity_half_props(2) [OF c h, of data]
      by (simp add: if_distrib [of "\<lambda>x. _ XOR x"] xor.assoc cong: if_cong)
  qed
  have t: "length (window coverage idx data') = length (window coverage idx data)" using len by (simp add: length_window)
  have "reconstruct_window data' ?b idx ?n = Inr (be_bytes (length (window coverage idx data))
      (drop_bit (8 * (?L - length (window coverage idx data))) (?f idx)))"
    using reconstruct_window_eq(1) [OF b idx] by (simp only: redundancy_blob.select_convs len bw P acc t)
  also have "drop_bit (8 * (?L - length (window coverage idx data))) (?f idx) = be_nat (window coverage idx data)"
    by (simp add: be_nat_padded drop_bit_eq_div push_bit_eq_mult)
  finally show ?thesis by (simp add: be_bytes_be_nat)
qed

subsection \<open>Repair\<close>

text \<open>The two windows the repair replaces.\<close>

definition candidate_windows :: "nat \<Rightarrow> nat \<Rightarrow> nat list" where
  "candidate_windows bad num_windows = (if num_windows \<le> bad + 1 then [bad] else [bad, bad + 1])"

lemma window_span_bounds:
  assumes "blob_for blob data" and "idx < window_count (length data) (rb_coverage blob)"
    and "window_span idx (rb_coverage blob) (rb_data_size blob) = (a, b)"
  shows "a \<le> b" "b \<le> length data" "b - a = length (blob_window blob idx data)"
    "a = idx * rb_coverage blob" "b \<le> Suc idx * rb_coverage blob"
  using assms by (auto simp: blob_for_def window_count_iff window_span_def Let_def blob_window_eq length_window)

text \<open>The patching loop: it cannot raise, keeps the length, and touches the given windows only.\<close>

lemma patch_loop:
  assumes b: "blob_for blob data" and n: "n = window_count (length data) (rb_coverage blob)"
    and idxs: "\<forall>idx \<in> set idxs. idx < n" and p: "length patched = length data"
  shows "\<exists>r. fold_res (\<lambda>idx patched.
           let (start, end) = window_span idx (rb_coverage blob) (rb_data_size blob) in
           bind_res (reconstruct_window data blob idx n) (\<lambda>w. Inr (pslice_assign start end w patched)))
         idxs patched = Inr r \<and> length r = length data \<and>
         (\<forall>i < length data. i div rb_coverage blob \<notin> set idxs \<longrightarrow> r ! i = patched ! i)"
  using idxs p
proof (induction idxs arbitrary: patched)
  case (Cons idx idxs)
  obtain start endd where sp: "window_span idx (rb_coverage blob) (rb_data_size blob) = (start, endd)" by force
  have idx: "idx < window_count (length data) (rb_coverage blob)" using Cons.prems n by simp
  note sb = window_span_bounds [OF b idx sp]
  have c: "0 < rb_coverage blob" using b by (simp add: blob_for_def)
  obtain w where w: "reconstruct_window data blob idx n = Inr w" "length w = endd - start"
    using reconstruct_window_eq(1) [OF b, of idx n] idx n sb(3) by simp
  let ?p = "pslice_assign start endd w patched"
  have lp: "length ?p = length data" using sb w Cons.prems by simp
  have keep: "?p ! i = patched ! i" if "i < length data" "i div rb_coverage blob \<noteq> idx" for i
  proof -
    have "\<not> (start \<le> i \<and> i < endd)"
    proof
      assume "start \<le> i \<and> i < endd"
      with sb(4,5) have "i div rb_coverage blob = idx"
        by (intro div_nat_eqI) (auto simp: mult.commute)
      with that(2) show False by simp
    qed
    then show ?thesis using nth_pslice_assign [of start endd patched w i] sb w Cons.prems that by auto
  qed
  from Cons.IH [of ?p] Cons.prems lp obtain r where
    "fold_res (\<lambda>idx patched.
           let (start, end) = window_span idx (rb_coverage blob) (rb_data_size blob) in
           bind_res (reconstruct_window data blob idx n) (\<lambda>w. Inr (pslice_assign start end w patched)))
         idxs ?p = Inr r" "length r = length data"
    "\<forall>i < length data. i div rb_coverage blob \<notin> set idxs \<longrightarrow> r ! i = ?p ! i"
    by auto
  with keep w sp show ?case by auto
qed simp

lemma parse_redundancy_InrD:
  assumes "parse_redundancy_blob raw (length data) coverage = Inr blob" and "0 < coverage"
  shows "blob_for blob data" "rb_coverage blob = coverage"
  using assms by (auto simp: parse_redundancy_blob_def Let_def blob_component_lengths_def redundancy_size_def
      blob_for_def window_count_def unpack_u32s_def split: if_splits)

lemma attempt_repair_cases:
  assumes "0 < coverage"
  shows "\<exists>r. attempt_repair data raw coverage expected_crc = Inr r \<and>
    (\<forall>fixed. r = Some fixed \<longrightarrow>
       compute_crc32 fixed = expected_crc \<and> length fixed = length data \<and>
       (\<exists>bad. \<forall>i < length data. i div coverage \<notin> {bad, bad + 1} \<longrightarrow> fixed ! i = data ! i))"
proof (cases "parse_redundancy_blob raw (length data) coverage")
  case (Inl e)
  then have "e = FormatError" by (auto simp: parse_redundancy_blob_def Let_def split_def split: if_splits)
  with Inl show ?thesis by (simp add: attempt_repair_def)
next
  case (Inr blob)
  note b = parse_redundancy_InrD [OF Inr assms]
  let ?n = "length (rb_step_crc blob)"
  have n: "?n = window_count (length data) (rb_coverage blob)" using b(1) by (simp add: blob_for_def)
  show ?thesis
  proof (cases "rb_step_crc blob = [] \<or> locate_first_bad_window blob data = None")
    case True
    with Inr show ?thesis by (auto simp: attempt_repair_def)
  next
    case False
    then obtain bad where bad: "locate_first_bad_window blob data = Some bad" and ne: "rb_step_crc blob \<noteq> []" by auto
    then have "bad < ?n" using locate_loop_Some by (fastforce simp: locate_first_bad_window_def)
    then have cw: "\<forall>idx \<in> set (candidate_windows bad ?n). idx < ?n" by (auto simp: candidate_windows_def)
    from patch_loop [OF b(1) n cw refl] obtain r where
      r: "fold_res (\<lambda>idx patched.
           let (start, end) = window_span idx (rb_coverage blob) (rb_data_size blob) in
           bind_res (reconstruct_window data blob idx ?n) (\<lambda>w. Inr (pslice_assign start end w patched)))
         (candidate_windows bad ?n) data = Inr r" "length r = length data"
      "\<forall>i < length data. i div rb_coverage blob \<notin> set (candidate_windows bad ?n) \<longrightarrow> r ! i = data ! i"
      by blast
    have "\<forall>i < length data. i div coverage \<notin> {bad, bad + 1} \<longrightarrow> r ! i = data ! i"
      using r(3) b(2) by (auto simp: candidate_windows_def)
    moreover have "attempt_repair data raw coverage expected_crc =
        (if compute_crc32 r \<noteq> expected_crc then Inr None else Inr (Some r))"
      using Inr ne bad r(1) by (simp add: attempt_repair_def Let_def candidate_windows_def)
    ultimately show ?thesis using r(2) by auto
  qed
qed

text \<open>Data that agrees outside windows \<open>w\<close> and \<open>w + 1\<close> has the same other windows.\<close>

lemma window_agree:
  assumes "0 < coverage" and "length data' = length data"
    and "\<forall>i < length data. i div coverage \<notin> {w, w + 1} \<longrightarrow> data' ! i = data ! i" and "j \<notin> {w, w + 1}"
  shows "window coverage j data' = window coverage j data"
proof (rule nth_equalityI)
  show "length (window coverage j data') = length (window coverage j data)"
    using assms(2) by (simp add: length_window)
  fix i assume "i < length (window coverage j data')"
  then have i: "i < coverage" "j * coverage + i < length data" using assms(2) by (auto simp: length_window)
  then have "(j * coverage + i) div coverage = j" by simp
  with assms i show "window coverage j data' ! i = window coverage j data ! i"
    by (simp add: window_def)
qed

lemma take_agree:
  assumes "0 < coverage" and "length data' = length data"
    and "\<forall>i < length data. i div coverage \<notin> {w, w + 1} \<longrightarrow> data' ! i = data ! i" and "j < w"
  shows "take (Suc j * coverage) data' = take (Suc j * coverage) data"
proof (rule nth_equalityI)
  fix i assume "i < length (take (Suc j * coverage) data')"
  then have i: "i < Suc j * coverage" "i < length data" using assms(2) by auto
  then have "i div coverage < Suc j" using assms(1) by (simp add: less_mult_imp_div_less)
  with assms i show "take (Suc j * coverage) data' ! i = take (Suc j * coverage) data ! i" by simp
qed (use assms(2) in simp)

lemma div_eq_window: "0 < (c :: nat) \<Longrightarrow> i div c = k \<longleftrightarrow> k * c \<le> i \<and> i < k * c + c"
  using div_times_less_eq_dividend [of i c] dividend_less_div_times [of c i]
  by (auto simp: mult.commute add.commute intro!: div_nat_eqI)

lemma patched_window:
  assumes "0 < coverage" and "idx < window_count (length data) coverage" and "length p = length data"
    and "window_span idx coverage (length data) = (a, b)"
  shows "length (pslice_assign a b (window coverage idx data) p) = length data"
    and "i < length data \<Longrightarrow>
      pslice_assign a b (window coverage idx data) p ! i = (if i div coverage = idx then data ! i else p ! i)"
proof -
  have ab: "a = idx * coverage" "b = min (idx * coverage + coverage) (length data)" "a < length data"
    using assms by (auto simp: window_span_def Let_def window_count_iff)
  then have len: "length (window coverage idx data) = b - a" "a \<le> b" "b \<le> length data" by (auto simp: length_window)
  then show "length (pslice_assign a b (window coverage idx data) p) = length data" using assms(3) by simp
  assume i: "i < length data"
  have "i div coverage = idx \<longleftrightarrow> a \<le> i \<and> i < b"
    using ab(1,2) i assms(1) by (simp add: div_eq_window)
  with i len assms(3) show "pslice_assign a b (window coverage idx data) p ! i = (if i div coverage = idx then data ! i else p ! i)"
    using ab by (auto simp: nth_pslice_assign window_def)
qed

lemma attempt_repair_restores:
  assumes c: "0 < coverage" "coverage < 2 ^ 32" and small: "length data < 2 ^ 64" and len: "length data' = length data"
    and w: "w < window_count (length data) coverage"
    and agree: "\<forall>i < length data. i div coverage \<notin> {w, w + 1} \<longrightarrow> data' ! i = data ! i"
    and seen: "compute_crc32 (take (Suc w * coverage) data') \<noteq> compute_crc32 (take (Suc w * coverage) data)"
  shows "attempt_repair data' (redundancy_trailer coverage data @ rest) coverage (compute_crc32 data) = Inr (Some data)"
proof -
  let ?n = "window_count (length data) coverage"
  let ?b = "\<lparr>rb_coverage = coverage, rb_data_size = length data, rb_step_crc = step_crcs coverage data,
         rb_parity = parity_half coverage data 0 @ parity_half coverage data 1\<rparr>"
  have parse: "parse_redundancy_blob (redundancy_trailer coverage data @ rest) (length data') coverage = Inr ?b"
    using parse_redundancy_trailer [OF c small] len by simp
  have n: "length (step_crcs coverage data) = ?n" by (simp add: step_crcs_def)
  have ne: "step_crcs coverage data \<noteq> []" using n w by auto
  have loc: "locate_first_bad_window ?b data' = Some w"
  proof -
    have "locate_loop ?b data' 0 (step_crcs coverage data) 0 = Some (0 + w)"
      using take_agree [OF c(1) len agree] seen w n len
      by (intro locate_loop_first) (simp_all add: step_crcs_def)
    then show ?thesis by (simp add: locate_first_bad_window_def)
  qed
  have rec: "reconstruct_window data' ?b idx ?n = Inr (window coverage idx data)"
    if "idx \<in> {w, w + 1}" "idx < ?n" for idx
  proof (rule reconstruct_window_trailer [OF c(1) len that(2)])
    fix j assume "j \<noteq> idx" "j mod 2 = idx mod 2"
    with that(1) have "j \<notin> {w, w + 1}" by auto presburger+
    then show "window coverage j data' = window coverage j data" by (rule window_agree [OF c(1) len agree])
  qed
  have cw: "set (candidate_windows w ?n) \<subseteq> {w, w + 1}" "\<forall>idx \<in> set (candidate_windows w ?n). idx < ?n"
    "{w, w + 1} \<inter> {..<?n} \<subseteq> set (candidate_windows w ?n)"
    using w by (auto simp: candidate_windows_def)
  have loop: "\<exists>r. fold_res (\<lambda>idx patched.
           let (start, end) = window_span idx coverage (length data) in
           bind_res (reconstruct_window data' ?b idx ?n) (\<lambda>w. Inr (pslice_assign start end w patched)))
         idxs p = Inr r \<and> length r = length data \<and>
         (\<forall>i < length data. r ! i = (if i div coverage \<in> set idxs then data ! i else p ! i))"
    if "set idxs \<subseteq> {w, w + 1}" "\<forall>idx \<in> set idxs. idx < ?n" "length p = length data" for idxs p
    using that
  proof (induction idxs arbitrary: p)
    case (Cons idx idxs)
    obtain a b where ab: "window_span idx coverage (length data) = (a, b)" by force
    let ?p = "pslice_assign a b (window coverage idx data) p"
    have "idx < ?n" using Cons.prems(2) by simp
    note pw = patched_window [OF c(1) this Cons.prems(3) ab]
    from Cons.IH [of ?p] Cons.prems pw(1) obtain r where r: "fold_res (\<lambda>idx patched.
           let (start, end) = window_span idx coverage (length data) in
           bind_res (reconstruct_window data' ?b idx ?n) (\<lambda>w. Inr (pslice_assign start end w patched)))
         idxs ?p = Inr r" "length r = length data"
         "\<forall>i < length data. r ! i = (if i div coverage \<in> set idxs then data ! i else ?p ! i)"
      by auto
    have "\<forall>i < length data. r ! i = (if i div coverage \<in> set (idx # idxs) then data ! i else p ! i)"
      using r(3) pw(2) by auto
    with r(1,2) Cons.prems ab rec [of idx] show ?case by auto
  qed simp
  from loop [OF cw(1,2) len] obtain r where r: "fold_res (\<lambda>idx patched.
           let (start, end) = window_span idx coverage (length data) in
           bind_res (reconstruct_window data' ?b idx ?n) (\<lambda>w. Inr (pslice_assign start end w patched)))
         (candidate_windows w ?n) data' = Inr r" "length r = length data"
         "\<forall>i < length data. r ! i = (if i div coverage \<in> set (candidate_windows w ?n) then data ! i else data' ! i)"
    by blast
  have "r = data"
  proof (rule nth_equalityI)
    fix i assume i: "i < length r"
    then have "i div coverage < ?n"
      using r(2) c(1) le_less_trans [OF div_times_less_eq_dividend, of i "length data" coverage]
      by (simp add: window_count_iff)
    with i r agree cw(3) show "r ! i = data ! i" by (auto simp: r(2))
  qed (rule r(2))
  with parse ne loc n r(1) show ?thesis
    by (simp add: attempt_repair_def Let_def candidate_windows_def)
qed

subsection \<open>Properties\<close>

text \<open>C19. Whatever the data and the trailer bytes, the repair returns: it never raises. When
  it returns repaired bytes, they have the original length and the expected checksum, and
  they differ from the input in at most two consecutive coverage windows.\<close>

theorem repair_sound:
  assumes "0 < coverage"
  shows "\<exists>r. attempt_repair data raw coverage expected_crc = Inr r \<and>
    (\<forall>fixed. r = Some fixed \<longrightarrow>
       compute_crc32 fixed = expected_crc \<and> length fixed = length data \<and>
       (\<exists>bad. \<forall>i < length data. i div coverage \<notin> {bad, bad + 1} \<longrightarrow> fixed ! i = data ! i))"
  using assms by (rule attempt_repair_cases)

lemma repair_sound_witness:
  "\<exists>fixed. attempt_repair [9, 2, 3] (redundancy_trailer 4 [1, 2, 3]) 4 (compute_crc32 [1, 2, 3]) = Inr (Some fixed) \<and>
     compute_crc32 fixed = compute_crc32 [1, 2, 3] \<and> length fixed = 3"
proof -
  have "compute_crc32 ([1, 2, 3] [0 := 9]) \<noteq> compute_crc32 ([1, 2, 3] :: bytes)"
    by (rule compute_crc32_update) simp_all
  then have "attempt_repair [9, 2, 3] (redundancy_trailer 4 [1, 2, 3] @ []) 4 (compute_crc32 [1, 2, 3]) = Inr (Some [1, 2, 3])"
    by (intro attempt_repair_restores [where w = 0]) (auto simp: window_count_iff)
  then show ?thesis
    using repair_sound [of 4 "[9, 2, 3]" "redundancy_trailer 4 [1, 2, 3]" "compute_crc32 [1, 2, 3]"] by auto
qed

text \<open>C20. Damage confined to two consecutive windows is undone: if the damaged bytes agree
  with the written ones outside windows \<open>w\<close> and \<open>w + 1\<close>, and the rolling checkpoint after
  window \<open>w\<close> sees the damage, repairing with the trailer the written data carries returns
  exactly the written data.\<close>

theorem repair_restores:
  assumes "0 < coverage" and "coverage < 2 ^ 32" and "length data < 2 ^ 64" and "length damaged = length data"
    and "w * coverage < length data"
    and "\<forall>i < length data. i div coverage \<noteq> w \<and> i div coverage \<noteq> w + 1 \<longrightarrow> damaged ! i = data ! i"
    and "compute_crc32 (take (Suc w * coverage) damaged) \<noteq> compute_crc32 (take (Suc w * coverage) data)"
  shows "attempt_repair damaged (redundancy_trailer coverage data @ rest) coverage (compute_crc32 data) = Inr (Some data)"
  using assms by (intro attempt_repair_restores [where w = w]) (auto simp: window_count_iff)

lemma repair_restores_witness:
  "attempt_repair ((replicate 1000 7)[300 := 8, 600 := 9])
     (redundancy_trailer REDUNDANCY_COVERAGE_BUCKET (replicate 1000 7) @ [1]) REDUNDANCY_COVERAGE_BUCKET
     (compute_crc32 (replicate 1000 7)) = Inr (Some (replicate 1000 7))"
proof (rule repair_restores [where w = 1])
  let ?data = "replicate 1000 7 :: bytes"
  show "\<forall>i < length ?data. i div REDUNDANCY_COVERAGE_BUCKET \<noteq> 1 \<and> i div REDUNDANCY_COVERAGE_BUCKET \<noteq> 1 + 1 \<longrightarrow>
      ?data[300 := 8, 600 := 9] ! i = ?data ! i"
    by (auto simp: REDUNDANCY_COVERAGE_BUCKET_def nth_list_update)
  have "take 512 (?data[300 := 8, 600 := 9]) = (take 512 ?data)[300 := 8]"
    by (simp only: take_update_swap) (simp add: take_update_swap list_update_beyond)
  then show "compute_crc32 (take (Suc 1 * REDUNDANCY_COVERAGE_BUCKET) (?data[300 := 8, 600 := 9])) \<noteq>
      compute_crc32 (take (Suc 1 * REDUNDANCY_COVERAGE_BUCKET) ?data)"
    using compute_crc32_update [of 300 "take 512 ?data" 8] by (simp add: REDUNDANCY_COVERAGE_BUCKET_def)
qed (simp_all add: REDUNDANCY_COVERAGE_BUCKET_def)

text \<open>Any single damaged byte is always repaired, wherever it is: no checkpoint
  hypothesis is needed, because one changed byte always changes the running CRC-32.\<close>

theorem repair_single_byte:
  assumes "0 < coverage" and "coverage < 2 ^ 32" and "length data < 2 ^ 64"
    and "i < length data" and "b \<noteq> data ! i"
  shows "attempt_repair (data[i := b]) (redundancy_trailer coverage data) coverage (compute_crc32 data) = Inr (Some data)"
proof -
  have "i < Suc (i div coverage) * coverage"
    using assms(1) dividend_less_div_times [of coverage i] by simp
  then have "compute_crc32 (take (Suc (i div coverage) * coverage) (data[i := b])) \<noteq>
      compute_crc32 (take (Suc (i div coverage) * coverage) data)"
    using compute_crc32_update [of i "take (Suc (i div coverage) * coverage) data" b] assms(4,5)
    by (simp add: take_update_swap)
  moreover have "i div coverage < window_count (length data) coverage"
    using assms(1,4) le_less_trans [OF div_times_less_eq_dividend, of i "length data" coverage]
    by (simp add: window_count_iff)
  moreover have "\<forall>j < length data. j div coverage \<notin> {i div coverage, i div coverage + 1} \<longrightarrow> data[i := b] ! j = data ! j"
    by (metis insertI1 nth_list_update_neq)
  ultimately show ?thesis
    using attempt_repair_restores [of coverage data "data[i := b]" "i div coverage" "[]"] assms by simp
qed

lemma repair_single_byte_witness:
  "attempt_repair ((replicate 1000 7)[999 := 8]) (redundancy_trailer REDUNDANCY_COVERAGE_COMPOSITION (replicate 1000 7))
     REDUNDANCY_COVERAGE_COMPOSITION (compute_crc32 (replicate 1000 7)) = Inr (Some (replicate 1000 7))"
  by (rule repair_single_byte) (simp_all add: REDUNDANCY_COVERAGE_COMPOSITION_def)

end
