(* ===== verification/Composition.thy ===== *)
theory Composition
  imports Redundancy
begin

text \<open>
  \<open>sdk/format/composition.py\<close>: the composition header, the 32-byte \<open>RecordHead\<close> with its own
  magic and checksum, and the arithmetic of record lengths.
\<close>

unbundle bit_operations_syntax

definition COMPOSITION_MAJOR :: nat where [const_defs]: "COMPOSITION_MAJOR = 1"
definition OFF_SUB_FILE_SIZE :: nat where [const_defs]: "OFF_SUB_FILE_SIZE = 8"
definition RECORD_MAGIC :: bytes where "RECORD_MAGIC = ascii ''Mu''"
definition MODE_REDUNDANCY :: nat where [const_defs]: "MODE_REDUNDANCY = 0x0001"

record composition_header =
  ch_major :: nat
  ch_minor :: nat

definition parse_composition_header :: "bytes \<Rightarrow> composition_header res" where
  "parse_composition_header data =
     bind_res (parse_index_header data MAGIC_composition None) (\<lambda>header.
       if ih_major header \<noteq> COMPOSITION_MAJOR then Inl UnsupportedVersionError
       else let sub_file_size = be_field OFF_SUB_FILE_SIZE 4 data in
         if sub_file_size \<noteq> SUB_FILE_SIZE then Inl DataCorruptError
         else Inr \<lparr>ch_major = ih_major header, ch_minor = ih_minor header\<rparr>)"

datatype composition_status = COMPLETE | INTERRUPTED

text \<open>\<open>CompositionStatus(status_value)\<close>.\<close>

fun composition_status_of :: "nat \<Rightarrow> composition_status res" where
  "composition_status_of v =
     (if v = 0 then Inr COMPLETE else if v = 1 then Inr INTERRUPTED else Inl PyValueError)"

record record_head =
  rh_status :: composition_status
  rh_map_num :: nat
  rh_map_crc :: nat
  rh_mode :: nat
  rh_attr_leng :: nat
  rh_attr_crc :: nat

definition has_redundancy :: "record_head \<Rightarrow> bool" where
  "has_redundancy r \<longleftrightarrow> rh_mode r AND MODE_REDUNDANCY \<noteq> 0"

definition parse_record_head :: "bytes \<Rightarrow> record_head res" where
  "parse_record_head data =
     (if length data < RECORD_HEAD_LENGTH then Inl FormatError
      else if pslice 0 2 data \<noteq> RECORD_MAGIC then Inl DataCorruptError
      else bind_res (verify_crc32 (take 28 data) (be_field 28 4 data)) (\<lambda>_.
        case composition_status_of (be_field 2 2 data) of
          Inl _ \<Rightarrow> Inl DataCorruptError
        | Inr status \<Rightarrow>
            let r = \<lparr>rh_status = status, rh_map_num = be_field 6 8 data, rh_map_crc = be_field 14 4 data,
                     rh_mode = be_field 18 2 data, rh_attr_leng = be_field 20 4 data, rh_attr_crc = be_field 24 4 data\<rparr>
            in if \<not> has_redundancy r then Inl UnsupportedVersionError else Inr r))"

definition verify_chunk_map_crc :: "bytes \<Rightarrow> nat \<Rightarrow> unit res" where
  "verify_chunk_map_crc map_array_bytes expected_crc = verify_crc32 map_array_bytes expected_crc"

definition verify_attr_crc :: "bytes \<Rightarrow> nat \<Rightarrow> unit res" where
  "verify_attr_crc attr_bytes expected_crc = verify_crc32 attr_bytes expected_crc"

definition record_total_length :: "nat \<Rightarrow> nat \<Rightarrow> nat" where
  "record_total_length map_num attr_leng =
     (let map_array_len = map_num * CHUNK_MAP_RECORD_LENGTH;
          trailer = redundancy_size map_array_len REDUNDANCY_COVERAGE_COMPOSITION
      in RECORD_HEAD_LENGTH + map_array_len + attr_leng + trailer)"

definition chunk_map_array_offset :: "nat \<Rightarrow> nat" where
  "chunk_map_array_offset head_off = head_off + RECORD_HEAD_LENGTH"

lemma parse_record_head_InrD:
  assumes "parse_record_head data = Inr r"
  shows "32 \<le> length data" "take 2 data = RECORD_MAGIC" "compute_crc32 (take 28 data) = be_field 28 4 data"
    "has_redundancy r" "rh_map_num r = be_field 6 8 data" "rh_attr_leng r = be_field 20 4 data"
    "rh_map_crc r = be_field 14 4 data" "rh_attr_crc r = be_field 24 4 data" "rh_mode r = be_field 18 2 data"
  using assms
  by (auto simp: parse_record_head_def Let_def verify_crc32_def const_defs split: if_splits)

lemma parse_record_head_errors:
  "parse_record_head data = Inl e \<Longrightarrow> e \<in> {FormatError, DataCorruptError, UnsupportedVersionError}"
  by (auto simp: parse_record_head_def Let_def verify_crc32_def split: if_splits sum.splits)

lemma parse_record_head_take: "32 \<le> n \<Longrightarrow> n \<le> length data \<Longrightarrow> parse_record_head (take n data) = parse_record_head data"
proof -
  assume n: "32 \<le> n" "n \<le> length data"
  have "be_field off len (take n data) = be_field off len data" if "off + len \<le> 32" for off len
    using that n be_field_append_left [of off len "take n data" "drop n data"] by simp
  with n show ?thesis by (simp add: parse_record_head_def RECORD_HEAD_LENGTH_def min_def)
qed

lemma parse_composition_header_InrD:
  assumes "parse_composition_header data = Inr h"
  shows "64 \<le> length data" "ch_major h = 1" "be_field 8 4 data = 2 ^ 24"
  using assms parse_index_header_InrD(1) [of data MAGIC_composition None]
  by (auto simp: parse_composition_header_def Let_def res_simps const_values split: if_splits)
    (auto simp: const_defs)

text \<open>A record head of the documented layout, from its fields.\<close>

definition build_record_head :: "record_head \<Rightarrow> bytes" where
  "build_record_head r =
     (let body = RECORD_MAGIC @ be_bytes 2 (case rh_status r of COMPLETE \<Rightarrow> 0 | INTERRUPTED \<Rightarrow> 1) @ be_bytes 2 0 @
            be_bytes 8 (rh_map_num r) @ be_bytes 4 (rh_map_crc r) @ be_bytes 2 (rh_mode r) @
            be_bytes 4 (rh_attr_leng r) @ be_bytes 4 (rh_attr_crc r)
      in body @ be_bytes 4 (compute_crc32 body))"

definition record_head_fits :: "record_head \<Rightarrow> bool" where
  "record_head_fits r \<longleftrightarrow>
     rh_map_num r < 2 ^ 64 \<and> rh_map_crc r < 2 ^ 32 \<and> rh_mode r < 2 ^ 16 \<and>
     rh_attr_leng r < 2 ^ 32 \<and> rh_attr_crc r < 2 ^ 32"

lemma length_RECORD_MAGIC [simp]: "length RECORD_MAGIC = 2"
  by (simp add: RECORD_MAGIC_def ascii_def)

lemma length_build_record_head [simp]: "length (build_record_head r) = 32"
  by (simp add: build_record_head_def Let_def)

lemma be_field_skip: "length xs = n \<Longrightarrow> n \<le> off \<Longrightarrow> be_field off len (xs @ ys) = be_field (off - n) len ys"
  by (simp add: be_field_append_right)

lemma parse_build_record_head:
  assumes "record_head_fits r" and "has_redundancy r"
  shows "parse_record_head (build_record_head r @ rest) = Inr r"
proof -
  let ?st = "case rh_status r of COMPLETE \<Rightarrow> 0 | INTERRUPTED \<Rightarrow> 1"
  let ?body = "RECORD_MAGIC @ be_bytes 2 ?st @ be_bytes 2 0 @
            be_bytes 8 (rh_map_num r) @ be_bytes 4 (rh_map_crc r) @ be_bytes 2 (rh_mode r) @
            be_bytes 4 (rh_attr_leng r) @ be_bytes 4 (rh_attr_crc r)"
  let ?d = "?body @ be_bytes 4 (compute_crc32 ?body) @ rest"
  have d: "build_record_head r @ rest = ?d" by (simp add: build_record_head_def Let_def)
  have crc: "compute_crc32 ?body < 256 ^ 4" using compute_crc32_less [of ?body] by simp
  have lb: "length ?body = 28" by simp
  have t28: "take 28 ?d = ?body" using lb by (simp del: append_assoc)
  have f28: "be_field 28 4 ?d = compute_crc32 ?body"
    using lb crc by (subst be_field_skip [OF lb]) (simp_all add: be_field_here)
  have st: "composition_status_of (be_field 2 2 ?d) = Inr (rh_status r)"
    by (simp add: be_field_append_right be_field_here split: composition_status.splits)
  have f: "be_field 6 8 ?d = rh_map_num r" "be_field 14 4 ?d = rh_map_crc r" "be_field 18 2 ?d = rh_mode r"
    "be_field 20 4 ?d = rh_attr_leng r" "be_field 24 4 ?d = rh_attr_crc r"
    using assms(1) by (simp_all add: record_head_fits_def be_field_append_right be_field_here)
  have m: "pslice 0 2 ?d = RECORD_MAGIC" by simp
  have r: "\<lparr>rh_status = rh_status r, rh_map_num = rh_map_num r, rh_map_crc = rh_map_crc r, rh_mode = rh_mode r,
      rh_attr_leng = rh_attr_leng r, rh_attr_crc = rh_attr_crc r\<rparr> = r" by simp
  show ?thesis
    unfolding d parse_record_head_def t28 f28 st f m Let_def verify_crc32_def r
    using assms(2) by (cases r) (simp add: RECORD_HEAD_LENGTH_def)
qed

text \<open>One corrupted byte of a record head is refused.\<close>

lemma parse_record_head_corrupt:
  assumes ok: "parse_record_head data = Inr r" and i: "i < 32" and b: "b \<noteq> data ! i"
  shows "parse_record_head (data[i := b]) = Inl DataCorruptError"
proof -
  note d = parse_record_head_InrD(1,3) [OF ok]
  have "compute_crc32 (take 28 (data[i := b])) \<noteq> be_field 28 4 (data[i := b])"
  proof (cases "i < 28")
    case True
    with d b have "compute_crc32 (take 28 (data[i := b])) \<noteq> compute_crc32 (take 28 data)"
      using compute_crc32_update [of i "take 28 data" b] by (simp add: take_update_swap)
    with True d show ?thesis by (simp add: be_field_def pslice_update)
  next
    case False
    with d b i have "be_nat ((pslice 28 32 data)[i - 28 := b]) \<noteq> be_nat (pslice 28 32 data)"
      by (intro be_nat_update) auto
    with False d i show ?thesis by (simp add: be_field_def pslice_update)
  qed
  with d(1) show ?thesis by (auto simp: parse_record_head_def RECORD_HEAD_LENGTH_def verify_crc32_def)
qed

text \<open>The record length is the sum of its four parts, so records can be packed back to back.\<close>

lemma record_total_length_eq:
  "record_total_length map_num attr_leng =
     32 + 20 * map_num + attr_leng + (16 + 4 * window_count (20 * map_num) 8192 + min (20 * map_num) 16384)"
  by (simp add: record_total_length_def Let_def redundancy_size_def blob_component_lengths_eq const_defs mult.commute)

subsection \<open>Properties\<close>

text \<open>A record head is exactly what its 32 bytes say: written in the documented layout it
  is read back field by field; and once a head parses, corrupting any one of its 32 bytes
  makes the parser raise \<open>DataCorruptError\<close>, so no single-byte damage is ever taken for a
  different head.\<close>

theorem record_head_roundtrip_and_corruption:
  assumes "record_head_fits r" and "has_redundancy r"
  shows "parse_record_head (build_record_head r @ rest) = Inr r \<and>
    (\<forall>i < RECORD_HEAD_LENGTH. \<forall>b. b \<noteq> (build_record_head r @ rest) ! i \<longrightarrow>
       parse_record_head ((build_record_head r @ rest)[i := b]) = Inl DataCorruptError)"
  using parse_build_record_head [OF assms] parse_record_head_corrupt
  by (auto simp: RECORD_HEAD_LENGTH_def)

lemma record_head_roundtrip_and_corruption_witness:
  "parse_record_head (build_record_head \<lparr>rh_status = COMPLETE, rh_map_num = 3, rh_map_crc = 4, rh_mode = 1,
      rh_attr_leng = 10, rh_attr_crc = 77\<rparr> @ [9]) =
   Inr \<lparr>rh_status = COMPLETE, rh_map_num = 3, rh_map_crc = 4, rh_mode = 1, rh_attr_leng = 10, rh_attr_crc = 77\<rparr>"
  using record_head_roundtrip_and_corruption [of "\<lparr>rh_status = COMPLETE, rh_map_num = 3, rh_map_crc = 4, rh_mode = 1,
      rh_attr_leng = 10, rh_attr_crc = 77\<rparr>" "[9]"]
  by (simp add: record_head_fits_def has_redundancy_def MODE_REDUNDANCY_def)

end
