(* ===== verification/Compression.thy ===== *)
theory Compression
  imports Addressing
begin

text \<open>
  \<open>sdk/format/compression.py\<close>: the dispatch over a chunk's compression type, its batched
  form, and the bounded streaming decompression of whole frames. The lz4 and zstandard
  libraries are not under \<open>src/\<close>: their calls are the fields of \<open>codec\<close>, and what they document
  of complete frames is the hypothesis \<open>zstd_documented\<close>. Nothing is assumed of what a stream
  reader gives for bytes that begin with no complete frame.
\<close>

datatype compress_type = CT_NONE | CT_LZ4 | CT_ZSTD | CT_COMPACTED

fun compress_type_value :: "compress_type \<Rightarrow> nat" where
  "compress_type_value CT_NONE = 0"
| "compress_type_value CT_LZ4 = 1"
| "compress_type_value CT_ZSTD = 2"
| "compress_type_value CT_COMPACTED = 4"

text \<open>\<open>COMPRESS_TYPE_BY_VALUE\<close>, the dict of known raw values.\<close>

definition compress_type_by_value :: "nat \<Rightarrow> compress_type option" where
  "compress_type_by_value v =
     map_of [(0, CT_NONE), (1, CT_LZ4), (2, CT_ZSTD), (4, CT_COMPACTED)] v"

lemma compress_type_by_value_inverse [simp]: "compress_type_by_value (compress_type_value t) = Some t"
  by (cases t) (simp_all add: compress_type_by_value_def)

lemma compress_type_by_value_Some: "compress_type_by_value v = Some t \<longleftrightarrow> v = compress_type_value t"
  by (cases t) (auto simp: compress_type_by_value_def split: if_splits)

text \<open>
  The library calls: \<open>lz4.block.decompress(data, uncompressed_size)\<close>; the first \<open>n\<close> bytes a
  zstd stream reader over \<open>data\<close> gives; \<open>multi_decompress_to_buffer(frames, sizes, threads)\<close>;
  the content size a frame header declares; and the pieces a reader of the frame yields,
  with whether it then fails. \<open>None\<close> (or \<open>True\<close>) stands for the library's exception. The last
  field is no call but the frame format: the content of the complete frame the bytes begin
  with, \<open>None\<close> when they begin with none.
\<close>

record codec =
  lz4_block :: "bytes \<Rightarrow> nat \<Rightarrow> bytes option"
  zstd_read :: "bytes \<Rightarrow> nat \<Rightarrow> bytes option"
  zstd_multi :: "bytes list \<Rightarrow> nat list \<Rightarrow> nat \<Rightarrow> bytes list option"
  zstd_declared :: "bytes \<Rightarrow> nat option res"
  zstd_pieces :: "bytes \<Rightarrow> nat \<Rightarrow> bytes list \<times> bool"
  zstd_frame :: "bytes \<Rightarrow> bytes option"

definition lz4_decompress :: "codec \<Rightarrow> bytes \<Rightarrow> bytes res" where
  "lz4_decompress cd data =
     (case lz4_block cd data FIXED_CHUNK_LENGTH of None \<Rightarrow> Inl DataCorruptError | Some plain \<Rightarrow> Inr plain)"

definition decompress :: "codec \<Rightarrow> compress_type \<Rightarrow> bytes \<Rightarrow> bytes res" where
  "decompress cd ctype data =
     bind_res
       (case ctype of
          CT_COMPACTED \<Rightarrow> Inl ChunkCompactedError
        | CT_NONE \<Rightarrow> Inr data
        | CT_LZ4 \<Rightarrow> lz4_decompress cd data
        | CT_ZSTD \<Rightarrow> (case zstd_read cd data (FIXED_CHUNK_LENGTH + 1) of
              None \<Rightarrow> Inl DataCorruptError | Some plain \<Rightarrow> Inr plain))
       (\<lambda>plain. if length plain \<noteq> FIXED_CHUNK_LENGTH then Inl DataCorruptError else Inr plain)"

definition ZSTD_BATCH_THREADS :: nat where "ZSTD_BATCH_THREADS = 4"
definition ZSTD_BATCH_THREADS_MIN_ENTRIES :: nat where "ZSTD_BATCH_THREADS_MIN_ENTRIES = 500"
definition ZSTD_BATCH_MAX_ENTRIES :: nat where "ZSTD_BATCH_MAX_ENTRIES = 1024"

text \<open>\<open>-(-a // b)\<close>.\<close>

definition ceil_div :: "nat \<Rightarrow> nat \<Rightarrow> nat" where
  "ceil_div a b = nat (- ((- int a) div int b))"

text \<open>
  The first loop of \<open>decompress_many\<close>: ZSTD entries are put aside with their positions,
  every other entry is decompressed at once into its slot of the result.
\<close>

definition scan_item ::
    "codec \<Rightarrow> nat \<times> compress_type \<times> bytes \<Rightarrow> bytes list \<times> nat list \<times> bytes list \<Rightarrow>
     (bytes list \<times> nat list \<times> bytes list) res" where
  "scan_item cd item st =
     (let (i, ctype, data) = item; (result, zstd_positions, zstd_data) = st in
      if ctype = CT_ZSTD then Inr (result, zstd_positions @ [i], zstd_data @ [data])
      else bind_res
        (case ctype of
           CT_COMPACTED \<Rightarrow> Inl ChunkCompactedError
         | CT_NONE \<Rightarrow> Inr data
         | CT_LZ4 \<Rightarrow> lz4_decompress cd data
         | CT_ZSTD \<Rightarrow> Inl DataCorruptError)
        (\<lambda>plain. if length plain \<noteq> FIXED_CHUNK_LENGTH then Inl DataCorruptError
                 else Inr (result[i := plain], zstd_positions, zstd_data)))"

text \<open>One batch: \<open>result[i] = memoryview(decoded[pos])\<close> for the batch's positions.\<close>

definition decode_batch :: "codec \<Rightarrow> nat list \<Rightarrow> bytes list \<Rightarrow> nat \<Rightarrow> nat \<Rightarrow> bytes list \<Rightarrow> bytes list res" where
  "decode_batch cd zstd_positions zstd_data batch_size start result =
     (let batch = pslice start (start + batch_size) zstd_data;
          threads = (if ZSTD_BATCH_THREADS_MIN_ENTRIES \<le> length batch then ZSTD_BATCH_THREADS else 1)
      in case zstd_multi cd batch (replicate (length batch) FIXED_CHUNK_LENGTH) threads of
           None \<Rightarrow> Inl DataCorruptError
         | Some decoded \<Rightarrow>
             fold_res (\<lambda>(pos, i) r. if pos < length decoded then Inr (r[i := decoded ! pos]) else Inl PyIndexError)
               (enumerate 0 (pslice start (start + length batch) zstd_positions)) result)"

definition decompress_many :: "codec \<Rightarrow> (compress_type \<times> bytes) list \<Rightarrow> bytes list res" where
  "decompress_many cd items =
     bind_res (fold_res (scan_item cd) (enumerate 0 items) (replicate (length items) [], [], []))
       (\<lambda>(result, zstd_positions, zstd_data).
         let batch_count = ceil_div (length zstd_data) ZSTD_BATCH_MAX_ENTRIES;
             batch_size = (if batch_count \<noteq> 0 then ceil_div (length zstd_data) batch_count else 1)
         in fold_res (decode_batch cd zstd_positions zstd_data batch_size)
              (pyrange 0 (length zstd_data) batch_size) result)"

subsection \<open>Whole frames\<close>

definition ZSTD_FRAME_MAGIC :: bytes where "ZSTD_FRAME_MAGIC = [0x28, 0xb5, 0x2f, 0xfd]"
definition ZSTD_STREAM_READ_SIZE :: nat where "ZSTD_STREAM_READ_SIZE = push_bit 20 1"

definition is_zstd_frame :: "bytes \<Rightarrow> bool" where
  "is_zstd_frame head \<longleftrightarrow> pslice 0 4 head = ZSTD_FRAME_MAGIC"

definition zstd_content_size :: "codec \<Rightarrow> bytes \<Rightarrow> nat option res" where
  "zstd_content_size cd data = (if \<not> is_zstd_frame data then Inr None else zstd_declared cd data)"

text \<open>The reading loop over the reader's pieces: what it yields, and the total or the error.\<close>

fun zstd_read_loop :: "nat option \<Rightarrow> bytes list \<Rightarrow> bool \<Rightarrow> nat \<Rightarrow> bytes list \<times> nat res" where
  "zstd_read_loop effective_max [] fails tot = ([], if fails then Inl ZstdLibraryError else Inr tot)"
| "zstd_read_loop effective_max (piece # pieces) fails tot =
     (if piece = [] then ([], Inr tot)
      else let tot' = tot + length piece in
        if (case effective_max of None \<Rightarrow> False | Some m \<Rightarrow> m < tot') then ([], Inl ZstdLibraryError)
        else let (ys, r) = zstd_read_loop effective_max pieces fails tot' in (piece # ys, r))"

definition iter_decompressed_zstd :: "codec \<Rightarrow> bytes \<Rightarrow> nat option \<Rightarrow> bytes gen" where
  "iter_decompressed_zstd cd data max_output_size =
     gen_bind (zstd_declared cd data) (\<lambda>declared.
       let effective_max = (if declared \<noteq> None then declared else max_output_size);
           (pieces, fails) = zstd_pieces cd data ZSTD_STREAM_READ_SIZE;
           (ys, r) = zstd_read_loop effective_max pieces fails 0
       in (ys, case r of
                 Inl e \<Rightarrow> Some e
               | Inr tot \<Rightarrow> if declared \<noteq> None \<and> Some tot \<noteq> declared then Some DataCorruptError else None))"

definition decompress_zstd_stream :: "codec \<Rightarrow> bytes \<Rightarrow> nat option \<Rightarrow> bytes res" where
  "decompress_zstd_stream cd data max_output_size =
     (case iter_decompressed_zstd cd data max_output_size of
        (ys, None) \<Rightarrow> Inr (concat ys)
      | (ys, Some e) \<Rightarrow> Inl e)"

subsection \<open>The batched form is the single form\<close>

text \<open>
  What the code relies on, as the library documents it: a stream reader over a complete frame
  gives the first bytes of its content; the batch call, given a size for each of at least one
  frame, returns the contents when every frame is complete and exactly as long as its size
  says, and raises otherwise.
\<close>

definition zstd_documented :: "codec \<Rightarrow> bool" where
  "zstd_documented cd \<longleftrightarrow>
     (\<forall>f content n. zstd_frame cd f = Some content \<longrightarrow> zstd_read cd f n = Some (take n content)) \<and>
     (\<forall>frames sizes threads contents. frames \<noteq> [] \<and> length sizes = length frames \<longrightarrow>
        (zstd_multi cd frames sizes threads = Some contents \<longleftrightarrow>
           map (zstd_frame cd) frames = map Some contents \<and> map length contents = sizes))"

text \<open>A chunk decompressed with ZSTD data taken for complete frames only.\<close>

definition decompress_whole :: "codec \<Rightarrow> compress_type \<Rightarrow> bytes \<Rightarrow> bytes res" where
  "decompress_whole cd t d =
     (if t = CT_ZSTD then
        (case zstd_frame cd d of
           None \<Rightarrow> Inl DataCorruptError
         | Some p \<Rightarrow> if length p = FIXED_CHUNK_LENGTH then Inr p else Inl DataCorruptError)
      else decompress cd t d)"

lemma not_zstd_whole: "t \<noteq> CT_ZSTD \<Longrightarrow> decompress_whole cd t d = decompress cd t d"
  by (simp add: decompress_whole_def)

text \<open>The bytes are stored in another way, or as a complete frame.\<close>

definition whole_frame :: "codec \<Rightarrow> compress_type \<Rightarrow> bytes \<Rightarrow> bool" where
  "whole_frame cd t d \<longleftrightarrow> (t = CT_ZSTD \<longrightarrow> zstd_frame cd d \<noteq> None)"

lemma decompress_whole_eq:
  assumes "zstd_documented cd" and "whole_frame cd t d"
  shows "decompress_whole cd t d = decompress cd t d"
proof (cases "t = CT_ZSTD")
  case True
  then obtain p where p: "zstd_frame cd d = Some p" using assms(2) by (auto simp: whole_frame_def)
  then have "zstd_read cd d (FIXED_CHUNK_LENGTH + 1) = Some (take (FIXED_CHUNK_LENGTH + 1) p)"
    using assms(1) unfolding zstd_documented_def by blast
  then show ?thesis using True p by (auto simp: decompress_whole_def decompress_def)
qed (simp add: decompress_whole_def)

lemma decompress_torn: "\<not> whole_frame cd t d \<Longrightarrow> decompress_whole cd t d = Inl DataCorruptError"
  by (simp add: whole_frame_def decompress_whole_def)

lemma decompress_whole_Inr: "zstd_documented cd \<Longrightarrow> decompress_whole cd t d = Inr p \<Longrightarrow> decompress cd t d = Inr p"
  using decompress_whole_eq [of cd t d] decompress_torn [of cd t d] by (cases "whole_frame cd t d") auto

lemma decompress_length: "decompress cd t d = Inr p \<Longrightarrow> length p = FIXED_CHUNK_LENGTH"
  by (auto simp: decompress_def res_simps split: if_splits)

lemma decompress_errors: "decompress cd t d = Inl e \<Longrightarrow> e = DataCorruptError \<or> (e = ChunkCompactedError \<and> t = CT_COMPACTED)"
  by (auto simp: decompress_def lz4_decompress_def res_simps split: if_splits compress_type.splits option.splits)

lemma ceil_div_pos: "0 < a \<Longrightarrow> 0 < b \<Longrightarrow> 0 < ceil_div a b"
  by (simp add: ceil_div_def pos_imp_zdiv_neg_iff)

lemma scan_item_other:
  "t \<noteq> CT_ZSTD \<Longrightarrow> scan_item cd (i, t, d) (r, ps, zs) =
     bind_res (decompress cd t d) (\<lambda>plain. Inr (r[i := plain], ps, zs))"
  by (cases t) (simp_all add: scan_item_def decompress_def bind_res_assoc lz4_decompress_def split: option.splits)

lemma scan_item_zstd [simp]: "scan_item cd (i, CT_ZSTD, d) (r, ps, zs) = Inr (r, ps @ [i], zs @ [d])"
  by (simp add: scan_item_def)

text \<open>The slot a non-ZSTD entry leaves in the result, and the indices of the ZSTD entries.\<close>

definition scanned :: "codec \<Rightarrow> compress_type \<times> bytes \<Rightarrow> bytes" where
  "scanned cd x = (case x of (t, d) \<Rightarrow> if t = CT_ZSTD then [] else (case decompress cd t d of Inr p \<Rightarrow> p | Inl _ \<Rightarrow> []))"

definition zstd_indices :: "(compress_type \<times> bytes) list \<Rightarrow> nat list" where
  "zstd_indices items = filter (\<lambda>i. fst (items ! i) = CT_ZSTD) [0..<length items]"

lemma zstd_indices_snoc:
  "zstd_indices (items @ [x]) = zstd_indices items @ (if fst x = CT_ZSTD then [length items] else [])"
proof -
  have "filter (\<lambda>i. fst ((items @ [x]) ! i) = CT_ZSTD) [0..<length items] = filter (\<lambda>i. fst (items ! i) = CT_ZSTD) [0..<length items]"
    by (rule filter_cong) (auto simp: nth_append)
  then show ?thesis by (simp add: zstd_indices_def)
qed

lemma zstd_indices_props:
  "distinct (zstd_indices items)" "i \<in> set (zstd_indices items) \<longleftrightarrow> i < length items \<and> fst (items ! i) = CT_ZSTD"
  "map (\<lambda>i. snd (items ! i)) (zstd_indices items) = map snd (filter (\<lambda>x. fst x = CT_ZSTD) items)"
proof -
  show "distinct (zstd_indices items)" by (simp add: zstd_indices_def)
  show "i \<in> set (zstd_indices items) \<longleftrightarrow> i < length items \<and> fst (items ! i) = CT_ZSTD"
    by (auto simp: zstd_indices_def)
  show "map (\<lambda>i. snd (items ! i)) (zstd_indices items) = map snd (filter (\<lambda>x. fst x = CT_ZSTD) items)"
  proof (induction items rule: rev_induct)
    case (snoc x items)
    have "map (\<lambda>i. snd ((items @ [x]) ! i)) (zstd_indices items) = map (\<lambda>i. snd (items ! i)) (zstd_indices items)"
      by (rule map_cong) (auto simp: zstd_indices_def nth_append)
    with snoc show ?case by (simp add: zstd_indices_snoc)
  qed (simp add: zstd_indices_def)
qed

text \<open>A list with its tail still unset: what the first loop has built so far.\<close>

lemma scan_prefix:
  assumes "\<forall>(t, d) \<in> set items. t \<noteq> CT_ZSTD \<longrightarrow> (\<exists>p. decompress cd t d = Inr p)"
  shows "fold_res (scan_item cd) (enumerate 0 items) (replicate (length items + n) [], [], []) =
    Inr (map (scanned cd) items @ replicate n [], zstd_indices items, map snd (filter (\<lambda>x. fst x = CT_ZSTD) items))"
  using assms
proof (induction items arbitrary: n rule: rev_induct)
  case (snoc x items)
  obtain t d where x: "x = (t, d)" by force
  have IH: "fold_res (scan_item cd) (enumerate 0 items) (replicate (length items + Suc n) [], [], []) =
      Inr (map (scanned cd) items @ [] # replicate n [], zstd_indices items, map snd (filter (\<lambda>x. fst x = CT_ZSTD) items))"
    using snoc.IH [of "Suc n"] snoc.prems by simp
  show ?case
  proof (cases "t = CT_ZSTD")
    case True
    with IH x show ?thesis
      by (simp add: enumerate_append_eq fold_res_append scanned_def zstd_indices_snoc)
  next
    case False
    with snoc.prems x obtain p where "decompress cd t d = Inr p" by auto
    with IH x False show ?thesis
      by (simp add: enumerate_append_eq fold_res_append scan_item_other scanned_def zstd_indices_snoc list_update_append)
  qed
qed (simp add: zstd_indices_def)

lemma scan_fails:
  assumes "\<exists>(t, d) \<in> set items. t \<noteq> CT_ZSTD \<and> (\<exists>e. decompress cd t d = Inl e)"
  shows "\<exists>e. fold_res (scan_item cd) (enumerate k items) st = Inl e \<and> (\<exists>(t, d) \<in> set items. t \<noteq> CT_ZSTD \<and> decompress cd t d = Inl e)"
  using assms
proof (induction items arbitrary: k st)
  case (Cons x items)
  obtain t d where x: "x = (t, d)" by force
  obtain r ps zs where st: "st = (r, ps, zs)" by (cases st) auto
  show ?case
  proof (cases "t \<noteq> CT_ZSTD \<and> (\<exists>e. decompress cd t d = Inl e)")
    case True
    then show ?thesis using x st by (auto simp: scan_item_other)
  next
    case False
    then obtain st' where "scan_item cd (k, x) st = Inr st'"
      using x st by (cases "t = CT_ZSTD"; cases "decompress cd t d") (auto simp: scan_item_other)
    moreover from Cons.prems False x have "\<exists>(t, d) \<in> set items. t \<noteq> CT_ZSTD \<and> (\<exists>e. decompress cd t d = Inl e)" by auto
    ultimately show ?thesis using Cons.IH [of "Suc k" st'] by (simp; blast)
  qed
qed simp

text \<open>One frame as the batch call must decode it.\<close>

definition frame_ok :: "codec \<Rightarrow> bytes \<Rightarrow> bool" where
  "frame_ok cd f \<longleftrightarrow> (\<exists>p. decompress_whole cd CT_ZSTD f = Inr p)"

definition frame_plain :: "codec \<Rightarrow> bytes \<Rightarrow> bytes" where
  "frame_plain cd f = (case decompress_whole cd CT_ZSTD f of Inr p \<Rightarrow> p | Inl _ \<Rightarrow> [])"

lemma frame_okD: "frame_ok cd f \<Longrightarrow> zstd_frame cd f = Some (frame_plain cd f) \<and> length (frame_plain cd f) = FIXED_CHUNK_LENGTH"
  by (auto simp: frame_ok_def frame_plain_def decompress_whole_def split: option.splits if_splits)

lemma zstd_multi_eq:
  assumes "zstd_documented cd" and "frames \<noteq> []"
  shows "zstd_multi cd frames (replicate (length frames) FIXED_CHUNK_LENGTH) threads =
    (if \<forall>f \<in> set frames. frame_ok cd f then Some (map (frame_plain cd) frames) else None)"
proof -
  have multi: "zstd_multi cd frames (replicate (length frames) FIXED_CHUNK_LENGTH) threads = Some contents \<longleftrightarrow>
      map (zstd_frame cd) frames = map Some contents \<and> map length contents = replicate (length frames) FIXED_CHUNK_LENGTH" for contents
    using assms unfolding zstd_documented_def by simp
  show ?thesis
  proof (cases "\<forall>f \<in> set frames. frame_ok cd f")
    case True
    then have "map (zstd_frame cd) frames = map Some (map (frame_plain cd) frames)"
      "map length (map (frame_plain cd) frames) = replicate (length frames) FIXED_CHUNK_LENGTH"
      using frame_okD by (auto simp: map_replicate_const intro!: nth_equalityI)
    then show ?thesis using True multi by simp
  next
    case False
    have "zstd_multi cd frames (replicate (length frames) FIXED_CHUNK_LENGTH) threads \<noteq> Some contents" for contents
    proof
      assume "zstd_multi cd frames (replicate (length frames) FIXED_CHUNK_LENGTH) threads = Some contents"
      then have c: "map (zstd_frame cd) frames = map Some contents" "map length contents = replicate (length frames) FIXED_CHUNK_LENGTH"
        using multi by blast+
      have "frame_ok cd f" if f: "f \<in> set frames" for f
      proof -
        obtain i where i: "i < length frames" "f = frames ! i" using f by (auto simp: in_set_conv_nth)
        have "length frames = length contents" using c(1) by (metis length_map)
        moreover have "zstd_frame cd (frames ! i) = Some (contents ! i)" using i(1) calculation arg_cong [OF c(1), of "\<lambda>xs. xs ! i"] by simp
        moreover have "length (contents ! i) = FIXED_CHUNK_LENGTH" using i(1) calculation(1) arg_cong [OF c(2), of "\<lambda>xs. xs ! i"] by simp
        ultimately show ?thesis using i by (simp add: frame_ok_def decompress_whole_def)
      qed
      then show False using False by blast
    qed
    then show ?thesis using False by auto
  qed
qed

lemma place_decoded:
  assumes "length qs = length dec"
  shows "fold_res (\<lambda>(pos, i) r. if pos < length dec then Inr (r[i := dec ! pos]) else Inl PyIndexError)
      (enumerate 0 qs) r = Inr (fold (\<lambda>(i, x) r. r[i := x]) (zip qs dec) r)"
proof -
  have "fold_res (\<lambda>(pos, i) r. if pos < length dec then Inr (r[i := dec ! pos]) else Inl PyIndexError)
      (enumerate 0 qs) r = Inr (fold (\<lambda>(pos, i) r. r[i := dec ! pos]) (enumerate 0 qs) r)"
    by (rule fold_res_Inr) (use assms in \<open>auto simp: in_set_enumerate_eq\<close>)
  moreover have "zip qs dec = map (\<lambda>(pos, i). (i, dec ! pos)) (enumerate 0 qs)"
    using assms by (intro nth_equalityI) (auto simp: nth_enumerate_eq)
  ultimately show ?thesis by (simp add: fold_map comp_def split_def)
qed

lemma zip_pslice: "zip (pslice a b xs) (pslice a b ys) = pslice a b (zip xs ys)"
  by (simp add: pslice_def take_zip drop_zip)

lemma pslice_length: "pslice a (a + length (pslice a (a + n) xs)) ys = pslice a (a + n) ys" if "length xs = length ys"
  using that by (auto simp: pslice_def min_def)

lemma in_set_nonempty: "x \<in> set xs \<Longrightarrow> xs \<noteq> []"
  by auto

lemma batch_nonempty:
  assumes "start \<in> set (pyrange 0 (length zs) n)" and "0 < n"
  shows "pslice start (start + n) zs \<noteq> []"
proof -
  obtain x where x: "start = x * n" "x < (length zs + n - 1) div n" using assms by (auto simp: pyrange_def)
  then have "Suc x * n \<le> length zs + n - 1" using assms(2) by (metis Suc_leI less_eq_div_iff_mult_less_eq)
  then have "start < length zs" using x(1) assms(2) by simp
  then show ?thesis using assms(2) by (simp add: pslice_def)
qed

lemma decode_batch_ok:
  assumes "zstd_documented cd" and "length ps = length zs" and "\<forall>f \<in> set (pslice start (start + n) zs). frame_ok cd f"
    and "pslice start (start + n) zs \<noteq> []"
  shows "decode_batch cd ps zs n start r =
    Inr (fold (\<lambda>(i, x) r. r[i := x]) (pslice start (start + n) (zip ps (map (frame_plain cd) zs))) r)"
proof -
  let ?b = "pslice start (start + n) zs" and ?qs = "pslice start (start + n) ps"
  let ?dec = "map (frame_plain cd) ?b"
  have "decode_batch cd ps zs n start r =
      fold_res (\<lambda>(pos, i) r. if pos < length ?dec then Inr (r[i := ?dec ! pos]) else Inl PyIndexError)
        (enumerate 0 (pslice start (start + length ?b) ps)) r"
    using assms(1,3,4) by (simp add: decode_batch_def Let_def zstd_multi_eq del: length_pslice)
  also have "pslice start (start + length ?b) ps = ?qs" using assms(2) by (intro pslice_length) simp
  also have "fold_res (\<lambda>(pos, i) r. if pos < length ?dec then Inr (r[i := ?dec ! pos]) else Inl PyIndexError)
        (enumerate 0 ?qs) r = Inr (fold (\<lambda>(i, x) r. r[i := x]) (zip ?qs ?dec) r)"
    using assms(2) by (intro place_decoded) simp
  finally show ?thesis by (simp only: map_pslice zip_pslice)
qed

lemma decode_batch_bad:
  assumes "zstd_documented cd" and "\<exists>f \<in> set (pslice start (start + n) zs). \<not> frame_ok cd f"
  shows "decode_batch cd ps zs n start r = Inl DataCorruptError"
proof -
  have "pslice start (start + n) zs \<noteq> []" using assms(2) by (rule bexE) (rule in_set_nonempty)
  then show ?thesis using assms by (auto simp: decode_batch_def Let_def zstd_multi_eq simp del: length_pslice)
qed

lemma fold_concat_map: "fold (\<lambda>s r. fold f (g s) r) xs r = fold f (concat (map g xs)) r"
  by (induction xs arbitrary: r) auto

lemma decode_batches_ok:
  assumes "zstd_documented cd" and "length ps = length zs" and "\<forall>f \<in> set zs. frame_ok cd f" and "0 < n"
  shows "fold_res (decode_batch cd ps zs n) (pyrange 0 (length zs) n) r =
    Inr (fold (\<lambda>(i, x) r. r[i := x]) (zip ps (map (frame_plain cd) zs)) r)"
proof -
  let ?z = "zip ps (map (frame_plain cd) zs)"
  have "fold_res (decode_batch cd ps zs n) (pyrange 0 (length zs) n) r =
      Inr (fold (\<lambda>start. fold (\<lambda>(i, x) r. r[i := x]) (pslice start (start + n) ?z)) (pyrange 0 (length zs) n) r)"
    using assms by (intro fold_res_Inr decode_batch_ok batch_nonempty) (auto dest: subsetD [OF set_pslice_subset])
  also have "fold (\<lambda>start. fold (\<lambda>(i, x) r. r[i := x]) (pslice start (start + n) ?z)) (pyrange 0 (length zs) n) r =
      fold (\<lambda>(i, x) r. r[i := x]) (concat (map (\<lambda>start. pslice start (start + n) ?z) (pyrange 0 (length ?z) n))) r"
    using assms(2) by (simp add: fold_concat_map)
  finally show ?thesis using concat_slices [OF assms(4), of ?z] by simp
qed

lemma fold_res_some_fails:
  assumes "\<exists>x \<in> set xs. \<forall>s. f x s = Inl e" and "\<And>x s e'. f x s = Inl e' \<Longrightarrow> x \<in> set xs \<Longrightarrow> e' = e"
  shows "fold_res f xs s = Inl e"
  using assms
proof (induction xs arbitrary: s)
  case (Cons x xs)
  show ?case
  proof (cases "f x s")
    case (Inl e')
    with Cons.prems(2) have "e' = e" by auto
    with Inl show ?thesis by simp
  next
    case (Inr s')
    then have "\<exists>x \<in> set xs. \<forall>s. f x s = Inl e" using Cons.prems(1) by auto
    then show ?thesis using Inr Cons.IH Cons.prems(2) by auto
  qed
qed simp

lemma decode_batches_bad:
  assumes agree: "zstd_documented cd" and len: "length ps = length zs" and bad: "\<exists>f \<in> set zs. \<not> frame_ok cd f" and n: "0 < n"
  shows "fold_res (decode_batch cd ps zs n) (pyrange 0 (length zs) n) r = Inl DataCorruptError"
proof (rule fold_res_some_fails)
  have "set zs = set (concat (map (\<lambda>i. pslice i (i + n) zs) (pyrange 0 (length zs) n)))"
    using concat_slices [OF n, of zs] by simp
  then obtain start where "start \<in> set (pyrange 0 (length zs) n)" "\<exists>f \<in> set (pslice start (start + n) zs). \<not> frame_ok cd f"
    using bad by auto
  then show "\<exists>start \<in> set (pyrange 0 (length zs) n). \<forall>r. decode_batch cd ps zs n start r = Inl DataCorruptError"
    using decode_batch_bad [OF agree] by blast
  fix start r e assume "decode_batch cd ps zs n start r = Inl e" and "start \<in> set (pyrange 0 (length zs) n)"
  moreover note batch_nonempty [OF this(2) n]
  ultimately show "e = DataCorruptError"
    using decode_batch_ok [OF agree len] decode_batch_bad [OF agree]
    by (cases "\<forall>f \<in> set (pslice start (start + n) zs). frame_ok cd f") fastforce+
qed

lemma decompress_many_all:
  assumes agree: "zstd_documented cd" and ok: "\<forall>(t, d) \<in> set items. \<exists>p. decompress_whole cd t d = Inr p"
  shows "\<exists>ps. decompress_many cd items = Inr ps \<and> map_res (\<lambda>(t, d). decompress_whole cd t d) items = Inr ps"
proof -
  let ?zs = "map snd (filter (\<lambda>x. fst x = CT_ZSTD) items)" and ?ps = "zstd_indices items"
  let ?n = "if ceil_div (length ?zs) ZSTD_BATCH_MAX_ENTRIES \<noteq> 0
    then ceil_div (length ?zs) (ceil_div (length ?zs) ZSTD_BATCH_MAX_ENTRIES) else 1"
  have zs: "?zs = map (\<lambda>i. snd (items ! i)) ?ps" by (rule zstd_indices_props(3) [symmetric])
  then have len: "length ?ps = length ?zs" by (metis length_map)
  have n: "0 < ?n"
  proof (cases "?zs = []")
    case False
    then show ?thesis using ceil_div_pos [of "length ?zs"] by (auto simp: ZSTD_BATCH_MAX_ENTRIES_def)
  qed (simp add: ceil_div_def)
  have frames: "\<forall>f \<in> set ?zs. frame_ok cd f" using ok by (auto simp: frame_ok_def)
  let ?r = "fold (\<lambda>(i, x) r. r[i := x]) (zip ?ps (map (frame_plain cd) ?zs)) (map (scanned cd) items)"
  have ok': "\<forall>(t, d) \<in> set items. t \<noteq> CT_ZSTD \<longrightarrow> (\<exists>p. decompress cd t d = Inr p)"
    using ok by (fastforce simp: decompress_whole_def)
  have scan: "fold_res (scan_item cd) (enumerate 0 items) (replicate (length items) [], [], []) =
      Inr (map (scanned cd) items, ?ps, ?zs)"
    using scan_prefix [OF ok', of 0] by simp
  have many: "decompress_many cd items = Inr ?r"
    unfolding decompress_many_def scan bind_res_simps prod.case Let_def
    by (rule decode_batches_ok [OF agree len frames n])
  have "?r = map (\<lambda>(t, d). case decompress_whole cd t d of Inr p \<Rightarrow> p | Inl _ \<Rightarrow> []) items"
  proof (rule nth_equalityI)
    have dist: "distinct (map fst (zip ?ps (map (frame_plain cd) ?zs)))"
      using len by (subst map_fst_zip) (simp_all add: zstd_indices_props(1))
    fix i assume "i < length ?r"
    then have i: "i < length items" by simp
    have zip: "zip ?ps (map (frame_plain cd) ?zs) = map (\<lambda>i. (i, frame_plain cd (snd (items ! i)))) ?ps"
      unfolding zs by (simp add: zip_map2 zip_same_conv_map)
    have "map_of (zip ?ps (map (frame_plain cd) ?zs)) i =
        (if fst (items ! i) = CT_ZSTD then Some (frame_plain cd (snd (items ! i))) else None)"
      unfolding zip using i by (simp add: map_of_map_restrict restrict_map_def zstd_indices_props(2))
    then have "?r ! i = (if fst (items ! i) = CT_ZSTD then frame_plain cd (snd (items ! i)) else scanned cd (items ! i))"
      using i dist by (subst nth_fold_updates) simp_all
    then show "?r ! i = map (\<lambda>(t, d). case decompress_whole cd t d of Inr p \<Rightarrow> p | Inl _ \<Rightarrow> []) items ! i"
      using i by (auto simp: frame_plain_def scanned_def not_zstd_whole split: prod.splits)
  qed simp
  moreover have "map_res (\<lambda>(t, d). decompress_whole cd t d) items =
      Inr (map (\<lambda>(t, d). case decompress_whole cd t d of Inr p \<Rightarrow> p | Inl _ \<Rightarrow> []) items)"
    using ok by (intro map_res_Inr) auto
  ultimately show ?thesis using many by simp
qed

lemma decompress_many_fails:
  assumes agree: "zstd_documented cd" and bad: "(t, d) \<in> set items" "decompress_whole cd t d = Inl e"
  shows "\<exists>e. decompress_many cd items = Inl e \<and> (\<exists>(t, d) \<in> set items. decompress_whole cd t d = Inl e)"
proof (cases "\<exists>(t, d) \<in> set items. t \<noteq> CT_ZSTD \<and> (\<exists>e. decompress cd t d = Inl e)")
  case True
  from scan_fails [OF this, of 0 "(replicate (length items) [], [], [])"]
  obtain e where "fold_res (scan_item cd) (enumerate 0 items) (replicate (length items) [], [], []) = Inl e"
    "\<exists>(t, d) \<in> set items. t \<noteq> CT_ZSTD \<and> decompress cd t d = Inl e" by blast
  then show ?thesis unfolding decompress_many_def by (intro exI [of _ e]) (auto simp: decompress_whole_def)
next
  case False
  let ?zs = "map snd (filter (\<lambda>x. fst x = CT_ZSTD) items)" and ?ps = "zstd_indices items"
  have ok: "\<forall>(t, d) \<in> set items. t \<noteq> CT_ZSTD \<longrightarrow> (\<exists>p. decompress cd t d = Inr p)"
  proof clarify
    fix t d assume "(t, d) \<in> set items" "t \<noteq> CT_ZSTD"
    with False have "\<not> (\<exists>e. decompress cd t d = Inl e)" by blast
    then show "\<exists>p. decompress cd t d = Inr p" by (cases "decompress cd t d") auto
  qed
  have len: "length ?ps = length ?zs" using zstd_indices_props(3) [of items] by (metis length_map)
  have t: "t = CT_ZSTD" using False bad by (auto simp: decompress_whole_def split: if_splits)
  then have bz: "\<exists>f \<in> set ?zs. \<not> frame_ok cd f" using bad by (force simp: frame_ok_def)
  then obtain f where "f \<in> set ?zs" by (auto simp del: set_map)
  then have ne: "?zs \<noteq> []" by (rule in_set_nonempty)
  then have "0 < ceil_div (length ?zs) ZSTD_BATCH_MAX_ENTRIES"
    by (intro ceil_div_pos) (auto simp: ZSTD_BATCH_MAX_ENTRIES_def)
  then have n: "0 < ceil_div (length ?zs) (ceil_div (length ?zs) ZSTD_BATCH_MAX_ENTRIES)"
    using ne ceil_div_pos [of "length ?zs" "ceil_div (length ?zs) ZSTD_BATCH_MAX_ENTRIES"] by simp
  have scan: "fold_res (scan_item cd) (enumerate 0 items) (replicate (length items) [], [], []) =
      Inr (map (scanned cd) items, ?ps, ?zs)"
    using scan_prefix [OF ok, of 0] by simp
  have pos: "ceil_div (length ?zs) ZSTD_BATCH_MAX_ENTRIES \<noteq> 0"
    using ceil_div_pos [of "length ?zs" 1024] ne by (simp add: ZSTD_BATCH_MAX_ENTRIES_def)
  have "decompress_many cd items = Inl DataCorruptError"
    unfolding decompress_many_def scan bind_res_simps prod.case Let_def if_P [OF pos]
    by (rule decode_batches_bad [OF agree len bz n])
  moreover have "e = DataCorruptError" using bad t by (auto simp: decompress_whole_def split: option.splits if_splits)
  ultimately show ?thesis using bad by blast
qed

lemma zstd_read_loop_bound:
  assumes "zstd_read_loop mx pieces fails tot = (ys, r)"
  shows "(case mx of None \<Rightarrow> True | Some m \<Rightarrow> tot \<le> m \<longrightarrow> tot + length (concat ys) \<le> m)"
    and "(\<forall>n. r = Inr n \<longrightarrow> n = tot + length (concat ys))" and "\<forall>y \<in> set ys. y \<noteq> []"
    and "\<forall>e. r = Inl e \<longrightarrow> e = ZstdLibraryError"
  using assms
proof (induction pieces arbitrary: tot ys r)
  case Nil
  { case 1 from Nil show ?case using 1 by (auto split: option.splits)
  next case 2 from Nil show ?case using 2 by (auto split: if_splits)
  next case 3 from Nil show ?case using 3 by (auto split: if_splits)
  next case 4 from Nil show ?case using 4 by (auto split: if_splits) }
next
  case (Cons p ps)
  have step: "ys = [] \<and> (r = Inr tot \<or> r = Inl ZstdLibraryError) \<or>
      p \<noteq> [] \<and> (case mx of None \<Rightarrow> True | Some m \<Rightarrow> tot + length p \<le> m) \<and>
      (\<exists>zs. zstd_read_loop mx ps fails (tot + length p) = (zs, r) \<and> ys = p # zs)"
    if "zstd_read_loop mx (p # ps) fails tot = (ys, r)" for ys r tot
    using that by (cases "zstd_read_loop mx ps fails (tot + length p)") (auto simp: Let_def split: if_splits option.splits)
  { case 1 from step [OF 1] Cons.IH(1) show ?case by (fastforce split: option.splits)
  next case 2 from step [OF 2] Cons.IH(2) show ?case by fastforce
  next case 3 from step [OF 3] Cons.IH(3) show ?case by fastforce
  next case 4 from step [OF 4] Cons.IH(4) show ?case by fastforce }
qed

subsection \<open>Properties\<close>

text \<open>C21. The batched decompression against the single one. What \<open>decompress_many\<close> returns is what
  \<open>decompress\<close> returns for every entry, in order, each exactly 4096 bytes, however the ZSTD
  entries are spread over batches. When it raises, \<open>decompress\<close> of some entry raises the same
  error; the one exception is a ZSTD entry that does not begin with a complete frame, for which
  \<open>decompress_many\<close> raises \<open>DataCorruptError\<close> although a stream reader may still give 4096 bytes.
  So when every ZSTD entry is a complete frame, the batch succeeds exactly when every single
  call does.\<close>

theorem decompress_many_is_map:
  assumes "zstd_documented cd"
  shows "(case decompress_many cd items of
      Inr ps \<Rightarrow> map_res (\<lambda>(t, d). decompress cd t d) items = Inr ps \<and> length ps = length items \<and>
        (\<forall>p \<in> set ps. length p = FIXED_CHUNK_LENGTH)
    | Inl e \<Rightarrow> (\<exists>(t, d) \<in> set items. decompress cd t d = Inl e) \<or>
        e = DataCorruptError \<and> (\<exists>(t, d) \<in> set items. t = CT_ZSTD \<and> zstd_frame cd d = None))"
proof (cases "map_res (\<lambda>(t, d). decompress_whole cd t d) items")
  case (Inl e)
  from map_res_Inl [OF this] obtain t d where "(t, d) \<in> set items" "decompress_whole cd t d = Inl e" by auto
  from decompress_many_fails [OF assms this] obtain e t d where
    "decompress_many cd items = Inl e" "(t, d) \<in> set items" "decompress_whole cd t d = Inl e" by blast
  then show ?thesis
    using decompress_whole_eq [OF assms, of t d] decompress_torn [of cd t d] by (cases "whole_frame cd t d") (auto simp: whole_frame_def)
next
  case (Inr ps)
  then have whole: "list_all2 (\<lambda>x p. (case x of (t, d) \<Rightarrow> decompress_whole cd t d) = Inr p) items ps" by (simp add: map_res_Inr_iff)
  then have single: "list_all2 (\<lambda>x p. (case x of (t, d) \<Rightarrow> decompress cd t d) = Inr p) items ps"
    by (rule list_all2_mono) (auto intro: decompress_whole_Inr [OF assms])
  have "\<forall>(t, d) \<in> set items. \<exists>p. decompress_whole cd t d = Inr p"
    using whole by (auto simp: list_all2_conv_all_nth in_set_conv_nth) (metis case_prod_conv)
  from decompress_many_all [OF assms this] Inr have "decompress_many cd items = Inr ps" by auto
  moreover have "length p = FIXED_CHUNK_LENGTH" if p: "p \<in> set ps" for p
  proof -
    obtain i where "i < length ps" "p = ps ! i" using p by (auto simp: in_set_conv_nth)
    then have "(case items ! i of (t, d) \<Rightarrow> decompress cd t d) = Inr p" using single by (simp add: list_all2_conv_all_nth)
    then show ?thesis by (auto dest: decompress_length split: prod.splits)
  qed
  ultimately show ?thesis using single list_all2_lengthD [OF single] by (simp add: map_res_Inr_iff)
qed

text \<open>The two forms as the batched readers use them.\<close>

lemma decompress_many_whole:
  assumes "zstd_documented cd"
  shows "(case map_res (\<lambda>(t, d). decompress_whole cd t d) items of
      Inr ps \<Rightarrow> decompress_many cd items = Inr ps
    | Inl _ \<Rightarrow> \<exists>e. decompress_many cd items = Inl e \<and> (\<exists>(t, d) \<in> set items. decompress_whole cd t d = Inl e))"
proof (cases "map_res (\<lambda>(t, d). decompress_whole cd t d) items")
  case (Inl e)
  from map_res_Inl [OF this] obtain t d where "(t, d) \<in> set items" "decompress_whole cd t d = Inl e" by auto
  from decompress_many_fails [OF assms this] Inl show ?thesis by simp
next
  case (Inr ps)
  then have "list_all2 (\<lambda>x p. (case x of (t, d) \<Rightarrow> decompress_whole cd t d) = Inr p) items ps" by (simp add: map_res_Inr_iff)
  then have "\<forall>(t, d) \<in> set items. \<exists>p. decompress_whole cd t d = Inr p"
    by (auto simp: list_all2_conv_all_nth in_set_conv_nth) (metis case_prod_conv)
  from decompress_many_all [OF assms this] Inr show ?thesis by auto
qed

text \<open>A library whose frames are a magic number before the content.\<close>

definition magic_content :: "bytes \<Rightarrow> bytes option" where
  "magic_content f = (if take 4 f = ZSTD_FRAME_MAGIC then Some (drop 4 f) else None)"

definition copying_codec :: codec where
  "copying_codec =
     \<lparr>lz4_block = (\<lambda>d n. if length d = n then Some d else None), zstd_read = (\<lambda>d n. map_option (take n) (magic_content d)),
      zstd_multi = (\<lambda>frames sizes t. if list_all2 (\<lambda>f n. map_option length (magic_content f) = Some n) frames sizes
        then Some (map (\<lambda>f. the (magic_content f)) frames) else None),
      zstd_declared = (\<lambda>d. Inr (Some (length d))), zstd_pieces = (\<lambda>d n. ([d], False)), zstd_frame = magic_content\<rparr>"

lemma batch_contents:
  "list_all2 (\<lambda>f n. map_option length (c f) = Some n) frames sizes \<and> map (\<lambda>f. the (c f)) frames = ps \<longleftrightarrow>
    map c frames = map Some ps \<and> map length ps = sizes"
proof (induction frames arbitrary: sizes ps)
  case (Cons f frames)
  then show ?case by (cases sizes; cases ps) auto
qed auto

lemma copying_codec_documented: "zstd_documented copying_codec"
  unfolding zstd_documented_def
proof (intro conjI allI impI)
  fix f content n
  assume "zstd_frame copying_codec f = Some content"
  then show "zstd_read copying_codec f n = Some (take n content)" by (simp add: copying_codec_def)
next
  fix frames sizes threads contents
  show "zstd_multi copying_codec frames sizes threads = Some contents \<longleftrightarrow>
      map (zstd_frame copying_codec) frames = map Some contents \<and> map length contents = sizes"
    unfolding copying_codec_def codec.simps batch_contents [of magic_content frames sizes contents, symmetric] by simp
qed

lemma decompress_many_is_map_witness:
  "decompress_many copying_codec
     [(CT_ZSTD, ZSTD_FRAME_MAGIC @ replicate FIXED_CHUNK_LENGTH 1), (CT_NONE, replicate FIXED_CHUNK_LENGTH 2),
      (CT_ZSTD, ZSTD_FRAME_MAGIC @ replicate FIXED_CHUNK_LENGTH 3)] =
   Inr [replicate FIXED_CHUNK_LENGTH 1, replicate FIXED_CHUNK_LENGTH 2, replicate FIXED_CHUNK_LENGTH 3]"
    (is "decompress_many _ ?items = Inr ?plains")
proof -
  have whole: "decompress copying_codec t d = Inr p"
    if "(t, d, p) \<in> {(CT_ZSTD, ZSTD_FRAME_MAGIC @ replicate FIXED_CHUNK_LENGTH 1, replicate FIXED_CHUNK_LENGTH 1),
      (CT_NONE, replicate FIXED_CHUNK_LENGTH 2, replicate FIXED_CHUNK_LENGTH 2),
      (CT_ZSTD, ZSTD_FRAME_MAGIC @ replicate FIXED_CHUNK_LENGTH 3, replicate FIXED_CHUNK_LENGTH 3)}" for t d p
    using that by (auto simp: decompress_def copying_codec_def magic_content_def ZSTD_FRAME_MAGIC_def)
  have frame: "zstd_frame copying_codec (ZSTD_FRAME_MAGIC @ p) = Some p" for p
    by (simp add: copying_codec_def magic_content_def ZSTD_FRAME_MAGIC_def)
  have single: "map_res (\<lambda>(t, d). decompress copying_codec t d) ?items = Inr ?plains" using whole by simp
  show ?thesis
    using decompress_many_is_map [OF copying_codec_documented, of ?items] whole frame
    unfolding single by (auto split: sum.splits)
qed

text \<open>C39. The streaming decompression never exceeds its ceiling: whatever a frame decodes to,
  the bytes it yields stay within the size the frame declares, or within the caller's limit
  when it declares none; and when the stream ends without an error, a declared size is
  exactly the number of bytes yielded.\<close>

theorem zstd_stream_bounded:
  assumes "iter_decompressed_zstd cd data limit = (ys, ending)" and "zstd_declared cd data = Inr declared"
  shows "(\<forall>m. (if declared \<noteq> None then declared else limit) = Some m \<longrightarrow> length (concat ys) \<le> m) \<and>
    (\<forall>n. ending = None \<and> declared = Some n \<longrightarrow> length (concat ys) = n) \<and>
    ending \<in> {None, Some ZstdLibraryError, Some DataCorruptError}"
proof -
  obtain pieces fails where p: "zstd_pieces cd data ZSTD_STREAM_READ_SIZE = (pieces, fails)" by force
  obtain zs r where l: "zstd_read_loop (if declared \<noteq> None then declared else limit) pieces fails 0 = (zs, r)" by force
  from assms p l have "ys = zs" "ending = (case r of Inl e \<Rightarrow> Some e
      | Inr tot \<Rightarrow> if declared \<noteq> None \<and> Some tot \<noteq> declared then Some DataCorruptError else None)"
    by (auto simp: iter_decompressed_zstd_def Let_def)
  with zstd_read_loop_bound [OF l] show ?thesis
    by (auto split: sum.splits if_splits option.splits)
qed

lemma zstd_stream_bounded_witness:
  "length (concat (fst (iter_decompressed_zstd copying_codec [1, 2, 3] None))) = 3"
  using zstd_stream_bounded [of copying_codec "[1, 2, 3]" None "[[1, 2, 3]]" None "Some 3"]
  by (simp add: iter_decompressed_zstd_def copying_codec_def Let_def)

end
