(* ===== verification/Bucket.thy ===== *)
theory Bucket
  imports Composition Compression
begin

text \<open>
  \<open>sdk/format/bucket.py\<close>: the bucket header, the SizeStore decoder (columns, translate tables
  and big-integer lanes, exactly as the code computes them), the bucket index with its
  offsets, the size self-check and the ChunkCrcStore trailer. The decoder is shown to read
  the packed 15-bit records of the format.
\<close>

unbundle bit_operations_syntax

definition MODE_COMPRESS :: nat where [const_defs]: "MODE_COMPRESS = 0x01"
definition MODE_CHUNK_CRC :: nat where [const_defs]: "MODE_CHUNK_CRC = 0x02"
definition MODE_VAULT_ENCRYPT :: nat where [const_defs]: "MODE_VAULT_ENCRYPT = 0x80"
definition MAJOR_VAULT :: nat where [const_defs]: "MAJOR_VAULT = 3"
definition OFF_MODE :: nat where [const_defs]: "OFF_MODE = 8"
definition OFF_CRC_OF_CHUNK_CRC :: nat where [const_defs]: "OFF_CRC_OF_CHUNK_CRC = 29"

record bucket_file_header =
  bh_major :: nat
  bh_minor :: nat
  bh_mode :: nat
  bh_chunk_num :: nat
  bh_chunk_size_crc :: nat
  bh_crc_of_chunk_crc :: nat

definition is_compressed :: "bucket_file_header \<Rightarrow> bool" where
  "is_compressed h \<longleftrightarrow> bh_mode h AND MODE_COMPRESS \<noteq> 0"

definition is_vault_encrypted :: "bucket_file_header \<Rightarrow> bool" where
  "is_vault_encrypted h \<longleftrightarrow> bh_mode h AND MODE_VAULT_ENCRYPT \<noteq> 0"

definition parse_bucket_header :: "bytes \<Rightarrow> bucket_file_header res" where
  "parse_bucket_header data =
     bind_res (parse_index_header data MAGIC_bucket (Some MAJOR_VAULT)) (\<lambda>header.
       Inr \<lparr>bh_major = ih_major header, bh_minor = ih_minor header,
            bh_mode = be_field OFF_MODE 4 data, bh_chunk_num = be_field (OFF_MODE + 4) 4 data,
            bh_chunk_size_crc = be_field (OFF_MODE + 8) 4 data,
            bh_crc_of_chunk_crc = be_field OFF_CRC_OF_CHUNK_CRC 4 data\<rparr>)"

record size_store_entry =
  se_compress_type :: compress_type
  se_stored_len :: nat

definition effective_len :: "size_store_entry \<Rightarrow> nat" where
  "effective_len e =
     (if se_compress_type e = CT_NONE then FIXED_CHUNK_LENGTH
      else if se_compress_type e = CT_COMPACTED then 0 else se_stored_len e)"

definition chunk_size_store_tight_length :: "nat \<Rightarrow> nat" where
  "chunk_size_store_tight_length chunk_num = drop_bit 3 (chunk_num * SIZE_STORE_REC_BIT_NUM + 7)"

definition SIZE_STORE_GROUP_RECORDS :: nat where [const_defs]: "SIZE_STORE_GROUP_RECORDS = 8"
definition SIZE_STORE_GROUP_BYTES :: nat where [const_defs]: "SIZE_STORE_GROUP_BYTES = 15"

definition KNOWN_COMPRESS_TYPE_BYTES :: bytes where
  "KNOWN_COMPRESS_TYPE_BYTES = [0, 1, 2, 4]"

text \<open>The 256-entry tables, and \<open>bytes.translate\<close>.\<close>

definition byte_table :: "(nat \<Rightarrow> nat) \<Rightarrow> bytes" where
  "byte_table f = map (\<lambda>value. word_of_nat (f value)) [0..<256]"

definition translate :: "bytes \<Rightarrow> bytes \<Rightarrow> bytes" where
  "translate table bs = map (\<lambda>b. table ! unat b) bs"

definition KEEPS_STORED_LEN :: bytes where
  "KEEPS_STORED_LEN =
     byte_table (\<lambda>value. if value = compress_type_value CT_NONE \<or> value = compress_type_value CT_COMPACTED then 0 else 0xFF)"

definition FIXED_LEN_HIGH_BYTE :: bytes where
  "FIXED_LEN_HIGH_BYTE =
     byte_table (\<lambda>value. if value = compress_type_value CT_NONE then drop_bit 8 FIXED_CHUNK_LENGTH else 0)"

type_synonym field_plan = "(nat \<times> bytes) list"

definition mk_field_plan :: "nat \<Rightarrow> nat \<Rightarrow> field_plan" where
  "mk_field_plan start width =
     (let byte_pos = start div 8; bit_pos = start mod 8;
          mask = push_bit width 1 - 1; endd = bit_pos + width
      in if endd \<le> 8 then [(byte_pos, byte_table (\<lambda>value. drop_bit (8 - endd) value AND mask))]
         else [(byte_pos, byte_table (\<lambda>value. push_bit (endd - 8) value AND mask)),
               (byte_pos + 1, byte_table (\<lambda>value. drop_bit (16 - endd) value))])"

definition COMPRESS_TYPE_PLANS :: "field_plan list" where
  "COMPRESS_TYPE_PLANS = map (\<lambda>r. mk_field_plan (r * SIZE_STORE_REC_BIT_NUM) 3) [0..<SIZE_STORE_GROUP_RECORDS]"
definition STORED_LEN_HIGH_PLANS :: "field_plan list" where
  "STORED_LEN_HIGH_PLANS = map (\<lambda>r. mk_field_plan (r * SIZE_STORE_REC_BIT_NUM + 3) 4) [0..<SIZE_STORE_GROUP_RECORDS]"
definition STORED_LEN_LOW_PLANS :: "field_plan list" where
  "STORED_LEN_LOW_PLANS = map (\<lambda>r. mk_field_plan (r * SIZE_STORE_REC_BIT_NUM + 7) 8) [0..<SIZE_STORE_GROUP_RECORDS]"

text \<open>Extended slices: \<open>xs[k::step]\<close>, and the assignment to one.\<close>

definition stride :: "nat \<Rightarrow> nat \<Rightarrow> 'a list \<Rightarrow> 'a list" where
  "stride k step xs = map (\<lambda>i. xs ! i) (pyrange k (length xs) step)"

definition stride_assign :: "nat \<Rightarrow> nat \<Rightarrow> 'a list \<Rightarrow> 'a list \<Rightarrow> 'a list res" where
  "stride_assign k step vals xs =
     (let idxs = pyrange k (length xs) step in
      if length idxs = length vals then Inr (fold (\<lambda>(i, x) r. r[i := x]) (zip idxs vals) xs)
      else Inl PyValueError)"

text \<open>The \<open>little\<close> argument is \<open>sys.byteorder == "little"\<close>.\<close>

definition native_u16 :: "bool \<Rightarrow> bytes \<Rightarrow> bytes \<Rightarrow> bytes res" where
  "native_u16 little lows highs =
     (let native = replicate (2 * length lows) 0;
          (first, second) = (if little then (lows, highs) else (highs, lows))
      in bind_res (stride_assign 0 2 first native) (stride_assign 1 2 second))"

text \<open>\<open>array.array("H")\<close> read from, and written to, its machine bytes.\<close>

definition u16_frombytes :: "bool \<Rightarrow> bytes \<Rightarrow> nat list" where
  "u16_frombytes little bs =
     map (\<lambda>i. if little then unat (bs ! (2 * i)) + 256 * unat (bs ! (2 * i + 1))
              else 256 * unat (bs ! (2 * i)) + unat (bs ! (2 * i + 1))) [0..<length bs div 2]"

definition u16_tobytes :: "bool \<Rightarrow> nat list \<Rightarrow> bytes" where
  "u16_tobytes little xs =
     concat (map (\<lambda>x. if little then [word_of_nat (x mod 256), word_of_nat (x div 256)]
                      else [word_of_nat (x div 256), word_of_nat (x mod 256)]) xs)"

definition field_bytes :: "bytes list \<Rightarrow> field_plan \<Rightarrow> nat \<Rightarrow> bytes res" where
  "field_bytes columns plan group_count =
     (let parts = map (\<lambda>(byte_pos, table). translate table (columns ! byte_pos)) plan in
      if length parts = 1 then Inr (parts ! 0)
      else int_to_bytes (be_nat (parts ! 0) OR be_nat (parts ! 1)) group_count)"

text \<open>\<open>itertools.accumulate(xs, initial=a)\<close>.\<close>

fun accumulate :: "nat list \<Rightarrow> nat \<Rightarrow> nat list" where
  "accumulate [] a = [a]"
| "accumulate (x # xs) a = a # accumulate xs (a + x)"

record bucket_index =
  bi_compress_types :: "nat list"
  bi_stored_lens :: "nat list"
  bi_effective_lens :: "nat list"
  bi_offsets :: "nat list"

definition bucket_index_of :: "bool \<Rightarrow> nat list \<Rightarrow> nat list \<Rightarrow> nat \<Rightarrow> bucket_index res" where
  "bucket_index_of little compress_types stored_lens data_start =
     (let raw_types = map word_of_nat compress_types;
          keep = translate KEEPS_STORED_LEN raw_types;
          stored = u16_tobytes little stored_lens
      in bind_res (native_u16 little keep keep) (\<lambda>keep2.
         bind_res (native_u16 little (replicate (length raw_types) 0) (translate FIXED_LEN_HIGH_BYTE raw_types)) (\<lambda>high2.
           let effective = (be_nat stored AND be_nat keep2) OR be_nat high2 in
           bind_res (int_to_bytes effective (length stored)) (\<lambda>effective_bytes.
             let effective_lens = u16_frombytes little effective_bytes;
                 offsets = accumulate effective_lens data_start
             in if \<exists>off \<in> set offsets. 2 ^ 32 \<le> off then Inl PyOverflowError
                else Inr \<lparr>bi_compress_types = compress_types, bi_stored_lens = stored_lens,
                          bi_effective_lens = effective_lens, bi_offsets = butlast offsets\<rparr>))))"

definition bucket_index_uncompressed :: "bool \<Rightarrow> nat \<Rightarrow> bucket_index res" where
  "bucket_index_uncompressed little chunk_num =
     bucket_index_of little (replicate chunk_num 0) (replicate chunk_num 0) RESERVED_LENG"

definition size_store_loop ::
    "bytes list \<Rightarrow> nat \<Rightarrow> nat \<Rightarrow> bytes \<times> bytes \<times> bytes \<Rightarrow> (bytes \<times> bytes \<times> bytes) res" where
  "size_store_loop columns group_count r st =
     (case st of (types, highs, lows) \<Rightarrow>
        bind_res (field_bytes columns (COMPRESS_TYPE_PLANS ! r) group_count) (\<lambda>t.
        bind_res (stride_assign r SIZE_STORE_GROUP_RECORDS t types) (\<lambda>types'.
        bind_res (field_bytes columns (STORED_LEN_HIGH_PLANS ! r) group_count) (\<lambda>h.
        bind_res (stride_assign r SIZE_STORE_GROUP_RECORDS h highs) (\<lambda>highs'.
        bind_res (field_bytes columns (STORED_LEN_LOW_PLANS ! r) group_count) (\<lambda>l.
        bind_res (stride_assign r SIZE_STORE_GROUP_RECORDS l lows) (\<lambda>lows'.
          Inr (types', highs', lows'))))))))"

definition parse_size_store :: "bool \<Rightarrow> bytes \<Rightarrow> nat \<Rightarrow> nat option \<Rightarrow> bucket_index res" where
  "parse_size_store little data chunk_num verify_crc =
     (let tight_len = chunk_size_store_tight_length chunk_num in
      if length data < tight_len then Inl FormatError
      else let tight = take tight_len data in
        bind_res (case verify_crc of None \<Rightarrow> Inr () | Some crc \<Rightarrow> verify_crc32 tight crc) (\<lambda>_.
          let group_count = ceil_div chunk_num SIZE_STORE_GROUP_RECORDS;
              padded = tight @ replicate (group_count * SIZE_STORE_GROUP_BYTES - length tight) 0;
              columns = map (\<lambda>pos. stride pos SIZE_STORE_GROUP_BYTES padded) [0..<SIZE_STORE_GROUP_BYTES];
              record_count = group_count * SIZE_STORE_GROUP_RECORDS;
              zeros = replicate record_count 0
          in bind_res (fold_res (size_store_loop columns group_count) [0..<SIZE_STORE_GROUP_RECORDS] (zeros, zeros, zeros))
               (\<lambda>(types, highs, lows).
                 let types' = take chunk_num types in
                 if filter (\<lambda>v. v \<notin> set KNOWN_COMPRESS_TYPE_BYTES) types' \<noteq> [] then Inl DataCorruptError
                 else bind_res (native_u16 little lows highs) (\<lambda>native.
                   let stored_lens = take chunk_num (u16_frombytes little native)
                   in bucket_index_of little (map unat types') stored_lens COMPRESS_RESERVED_LENG))))"

definition index_len :: "bucket_index \<Rightarrow> nat" where
  "index_len ix = length (bi_compress_types ix)"

definition index_getitem :: "bucket_index \<Rightarrow> nat \<Rightarrow> size_store_entry res" where
  "index_getitem ix i =
     (if i < index_len ix then
        (case compress_type_by_value (bi_compress_types ix ! i) of
           None \<Rightarrow> Inl PyKeyError
         | Some t \<Rightarrow> Inr \<lparr>se_compress_type = t, se_stored_len = bi_stored_lens ix ! i\<rparr>)
      else Inl PyIndexError)"

definition locator :: "bucket_index \<Rightarrow> nat \<Rightarrow> (nat \<times> nat) res" where
  "locator ix idx =
     (if idx < length (bi_offsets ix) then Inr (bi_offsets ix ! idx, bi_effective_lens ix ! idx)
      else Inl PyIndexError)"

definition total_effective_len :: "bucket_index \<Rightarrow> nat" where
  "total_effective_len ix = sum_list (bi_effective_lens ix)"

definition non_empty_count :: "bucket_index \<Rightarrow> nat" where
  "non_empty_count ix = length (bi_effective_lens ix) - count_list (bi_effective_lens ix) 0"

definition crc_store_positions :: "bucket_index \<Rightarrow> nat list" where
  "crc_store_positions ix =
     (if non_empty_count ix = index_len ix then [0..<index_len ix]
      else butlast (accumulate (map (\<lambda>l. if 0 < l then 1 else 0) (bi_effective_lens ix)) 0))"

definition expected_bucket_size :: "bucket_file_header \<Rightarrow> bucket_index \<Rightarrow> nat res" where
  "expected_bucket_size header ix =
     (if \<not> is_compressed header then Inl PyValueError
      else let tight_len = chunk_size_store_tight_length (bh_chunk_num header);
               trailer = CHUNK_CRC_SIZE * non_empty_count ix + redundancy_size tight_len REDUNDANCY_COVERAGE_BUCKET
           in Inr (COMPRESS_RESERVED_LENG + total_effective_len ix + trailer))"

definition chunk_crc_store_region :: "bucket_file_header \<Rightarrow> bucket_index \<Rightarrow> (nat \<times> nat) res" where
  "chunk_crc_store_region header ix =
     (if \<not> is_compressed header then Inl PyValueError
      else Inr (COMPRESS_RESERVED_LENG + total_effective_len ix, CHUNK_CRC_SIZE * non_empty_count ix))"

definition parse_chunk_crc_store :: "bytes \<Rightarrow> nat \<Rightarrow> nat option \<Rightarrow> nat list res" where
  "parse_chunk_crc_store data non_empty verify_crc =
     (let len = CHUNK_CRC_SIZE * non_empty in
      if length data < len then Inl FormatError
      else let trailer = take len data in
        bind_res (case verify_crc of None \<Rightarrow> Inr () | Some crc \<Rightarrow> verify_crc32 trailer crc)
          (\<lambda>_. Inr (unpack_u32s non_empty trailer)))"

subsection \<open>Byte strings as bit strings\<close>

lemma bit_byte_bound: "bit (b :: byte) n \<Longrightarrow> n < 8"
  using bit_imp_le_length [of b n] by simp

lemma bit_be_nat: "bit (be_nat bs) n \<longleftrightarrow> n div 8 < length bs \<and> bit (bs ! (length bs - 1 - n div 8)) (n mod 8)"
proof (induction bs arbitrary: n rule: rev_induct)
  case Nil
  then show ?case by simp
next
  case (snoc b bs)
  have "be_nat (bs @ [b]) = push_bit 8 (be_nat bs) OR unat b"
    using push_bit_or_add [of "unat b" 8 "be_nat bs"] by simp
  then have split: "bit (be_nat (bs @ [b])) n \<longleftrightarrow> (8 \<le> n \<and> bit (be_nat bs) (n - 8)) \<or> bit b n"
    by (simp add: bit_or_iff bit_push_bit_iff bit_unsigned_iff)
  show ?case
  proof (cases "n < 8")
    case True
    then show ?thesis using split by (simp add: nth_append)
  next
    case False
    then obtain q where q: "n div 8 = Suc q" "(n - 8) div 8 = q" "(n - 8) mod 8 = n mod 8" "8 \<le> n"
      by (cases "n div 8") (simp_all add: le_mod_geq le_div_geq)
    have "\<not> bit b n" using False bit_byte_bound [of b n] by auto
    moreover have "q < length bs \<Longrightarrow> length bs - Suc q < length bs" by arith
    ultimately show ?thesis using split q snoc.IH [of "n - 8"]
      by (cases "q < length bs") (simp_all add: nth_append)
  qed
qed

lemma be_nat_map2:
  assumes "length as = length bs" and "\<And>a b n. n < 8 \<Longrightarrow> bit (f a b :: byte) n = g (bit (a :: byte) n) (bit (b :: byte) n)"
    and "\<And>n. bit r n = g (bit (be_nat as) n) (bit (be_nat bs) n)" and "\<not> g False False"
  shows "be_nat (map2 f as bs) = r"
proof (rule bit_eqI)
  fix n
  show "bit (be_nat (map2 f as bs)) n = bit r n"
    by (cases "n div 8 < length bs") (use assms in \<open>simp_all add: bit_be_nat\<close>)
qed

lemma be_nat_or_bytes: "length as = length bs \<Longrightarrow> be_nat as OR be_nat bs = be_nat (map2 (OR) as bs)"
  by (rule sym, rule be_nat_map2 [where g = "(\<or>)"]) (auto simp: bit_or_iff)

lemma be_nat_and_bytes: "length as = length bs \<Longrightarrow> be_nat as AND be_nat bs = be_nat (map2 (AND) as bs)"
  by (rule sym, rule be_nat_map2 [where g = "(\<and>)"]) (auto simp: bit_and_iff)

lemma int_to_bytes_be_nat: "length bs = n \<Longrightarrow> int_to_bytes (be_nat bs) n = Inr bs"
  using be_nat_less [of bs] by (auto simp: int_to_bytes_def be_bytes_be_nat)

text \<open>The \<open>w\<close> bits starting at bit \<open>s\<close> of a byte string, most significant first.\<close>

definition bits_at :: "bytes \<Rightarrow> nat \<Rightarrow> nat \<Rightarrow> nat" where
  "bits_at bs s w = be_nat bs div 2 ^ (8 * length bs - s - w) mod 2 ^ w"

definition stream_bit :: "bytes \<Rightarrow> nat \<Rightarrow> bool" where
  "stream_bit bs k \<longleftrightarrow> bit (bs ! (k div 8)) (7 - k mod 8)"

lemma bits_at_less: "bits_at bs s w < 2 ^ w"
  by (simp add: bits_at_def)

lemma stream_bit_be_nat:
  assumes "k < 8 * length bs"
  shows "bit (be_nat bs) (8 * length bs - 1 - k) \<longleftrightarrow> stream_bit bs k"
proof -
  have k: "k = 8 * (k div 8) + k mod 8" "k mod 8 < 8" "k div 8 < length bs" using assms by (simp_all add: less_mult_imp_div_less mult.commute)
  have e: "8 * length bs - 1 - k = 8 * (length bs - 1 - k div 8) + (7 - k mod 8)" using k by arith
  define m where "m = 7 - k mod 8"
  have "m < 8" by (simp add: m_def)
  then have "(8 * length bs - 1 - k) div 8 = length bs - 1 - k div 8" "(8 * length bs - 1 - k) mod 8 = m"
    unfolding e m_def [symmetric] by simp_all
  moreover have "length bs - Suc (k div 8) < length bs" "length bs - Suc (length bs - Suc (k div 8)) = k div 8"
    using k(3) by arith+
  ultimately show ?thesis by (simp add: bit_be_nat stream_bit_def m_def)
qed

lemma bit_bits_at:
  assumes "s + w \<le> 8 * length bs"
  shows "bit (bits_at bs s w) j \<longleftrightarrow> j < w \<and> stream_bit bs (s + w - 1 - j)"
proof -
  have "bits_at bs s w = take_bit w (drop_bit (8 * length bs - s - w) (be_nat bs))"
    by (simp add: bits_at_def take_bit_eq_mod drop_bit_eq_div)
  then have "bit (bits_at bs s w) j \<longleftrightarrow> j < w \<and> bit (be_nat bs) (8 * length bs - s - w + j)"
    by (simp add: bit_take_bit_iff bit_drop_bit_eq)
  moreover have "bit (be_nat bs) (8 * length bs - s - w + j) \<longleftrightarrow> stream_bit bs (s + w - 1 - j)" if "j < w"
  proof -
    have "8 * length bs - s - w + j = 8 * length bs - 1 - (s + w - 1 - j)" "s + w - 1 - j < 8 * length bs"
      using assms that by simp_all
    then show ?thesis using stream_bit_be_nat [of "s + w - 1 - j" bs] by simp
  qed
  ultimately show ?thesis by auto
qed

lemma bits_at_append:
  assumes "s + w \<le> 8 * length bs"
  shows "bits_at (bs @ cs) s w = bits_at bs s w"
proof (rule bit_eqI)
  fix j
  have "j < w \<Longrightarrow> (s + w - 1 - j) div 8 < length bs" using assms by (intro div_less_iff_less_mult [THEN iffD2]) auto
  then show "bit (bits_at (bs @ cs) s w) j = bit (bits_at bs s w) j"
    using assms by (subst (1 2) bit_bits_at) (auto simp: stream_bit_def nth_append)
qed

lemma bits_at_split:
  assumes "s + a + b \<le> 8 * length bs"
  shows "bits_at bs s (a + b) = bits_at bs s a * 2 ^ b + bits_at bs (s + a) b"
proof -
  have "bits_at bs s (a + b) = push_bit b (bits_at bs s a) OR bits_at bs (s + a) b"
  proof (rule bit_eqI)
    fix j
    show "bit (bits_at bs s (a + b)) j = bit (push_bit b (bits_at bs s a) OR bits_at bs (s + a) b) j"
    proof (cases "j < b")
      case True
      then show ?thesis using assms by (simp add: bit_or_iff bit_push_bit_iff bit_bits_at add.assoc)
    next
      case False
      then have "s + (a + b) - Suc j = s + a - Suc (j - b)" "j - b < a \<longleftrightarrow> j < a + b" by auto
      with False assms show ?thesis by (simp add: bit_or_iff bit_push_bit_iff bit_bits_at)
    qed
  qed
  then show ?thesis using push_bit_or_add [OF bits_at_less [of bs "s + a" b]] by simp
qed

subsection \<open>The columns hold the packed fields\<close>

lemma byte_table_nth: "unat b < 256 \<Longrightarrow> byte_table f ! unat (b :: byte) = word_of_nat (f (unat b))"
  by (simp add: byte_table_def)

lemma translate_nth: "i < length bs \<Longrightarrow> translate (byte_table f) bs ! i = word_of_nat (f (unat (bs ! i)))"
  by (simp add: translate_def byte_table_nth)

lemma length_translate [simp]: "length (translate t bs) = length bs"
  by (simp add: translate_def)

lemma length_stride: "0 < step \<Longrightarrow> length (stride k step xs) = (length xs - k + step - 1) div step"
  by (simp add: stride_def pyrange_def)

lemma stride_nth: "0 < step \<Longrightarrow> k + i * step < length xs \<Longrightarrow> stride k step xs ! i = xs ! (k + i * step)"
  using pyrange_index_less [of step i "length xs" k] by (simp add: stride_def pyrange_def)

lemma div_groups: "k < n \<Longrightarrow> (g * n - k + n - Suc 0) div n = (g :: nat)"
proof (cases g)
  case (Suc h)
  assume "k < n"
  define r where "r = n - Suc k"
  have "r < n" "g * n - k + n - Suc 0 = g * n + r" using Suc \<open>k < n\<close> by (simp_all add: r_def)
  then show ?thesis by simp
qed simp

lemma div_mod_8: "k = 8 * q + r \<Longrightarrow> r < 8 \<Longrightarrow> k div 8 = q \<and> k mod 8 = (r :: nat)"
  by simp

text \<open>Strided assignment of a whole residue class.\<close>

lemma stride_assign_ok:
  assumes "length xs = g * n" and "k < n" and "length vals = g"
  shows "\<exists>ys. stride_assign k n vals xs = Inr ys \<and> length ys = g * n \<and>
    (\<forall>i < g * n. ys ! i = (if i mod n = k then vals ! (i div n) else xs ! i))"
proof -
  let ?idxs = "pyrange k (length xs) n"
  have n: "0 < n" using assms(2) by simp
  have lidx: "length ?idxs = g" using assms by (simp add: pyrange_def div_groups)
  have idx: "?idxs = map (\<lambda>i. k + i * n) [0..<g]" using lidx by (simp add: pyrange_def)
  let ?ys = "fold (\<lambda>(i, x) r. r[i := x]) (zip ?idxs vals) xs"
  have z: "zip ?idxs vals = map (\<lambda>i. (k + i * n, vals ! i)) [0..<g]"
    using assms(3) by (intro nth_equalityI) (simp_all add: idx)
  have dist: "distinct (map fst (zip ?idxs vals))"
    using lidx assms(3) distinct_pyrange [OF n] by simp
  have nth: "?ys ! i = (if i mod n = k then vals ! (i div n) else xs ! i)" if i: "i < g * n" for i
  proof -
    have "map_of (zip ?idxs vals) i = (if i mod n = k then Some (vals ! (i div n)) else None)"
    proof (cases "i mod n = k")
      case True
      have "i div n < g" using i by (simp add: less_mult_imp_div_less)
      moreover have "i = k + i div n * n" using True mod_div_mult_eq [of i n] by simp
      ultimately have "(i, vals ! (i div n)) \<in> set (zip ?idxs vals)" unfolding z by auto
      with True dist show ?thesis by (simp add: map_of_eq_Some_iff)
    next
      case False
      then have "i \<notin> fst ` set (zip ?idxs vals)" unfolding z using assms(2) by auto
      with False show ?thesis by (simp add: map_of_eq_None_iff)
    qed
    then show ?thesis using nth_fold_updates [OF dist, of i xs] i assms(1) by simp
  qed
  show ?thesis
    using lidx assms nth by (intro exI [of _ ?ys]) (auto simp: stride_assign_def)
qed

lemma stream_bit_group:
  assumes "k < 8 * n"
  shows "stream_bit bs (8 * n * g + k) \<longleftrightarrow> bit (bs ! (n * g + k div 8)) (7 - k mod 8)"
proof -
  have "8 * n * g + k = 8 * (n * g) + k" by simp
  then have "(8 * n * g + k) div 8 = n * g + k div 8" "(8 * n * g + k) mod 8 = k mod 8"
    by (simp_all add: mult.assoc)
  then show ?thesis by (simp add: stream_bit_def)
qed

lemma bit_mask_and: "bit (x AND (push_bit w 1 - 1)) j \<longleftrightarrow> j < w \<and> bit (x :: nat) j"
  using and_mask_mod [of x w] by (simp add: push_bit_eq_mult) (metis bit_take_bit_iff take_bit_eq_mod)

lemma bit_word_of_nat8: "bit (word_of_nat x :: byte) j \<longleftrightarrow> j < 8 \<and> bit x j"
  by (simp add: bit_simps)

lemma bit_unat8: "bit (unat (b :: byte)) j \<longleftrightarrow> bit b j"
  by (simp add: bit_unsigned_iff)

text \<open>One field of every group, from the columns of a padded store.\<close>

lemma field_bytes_ok:
  assumes len: "length pd = 15 * gc" and w: "0 < w" "w \<le> 8" "start + w \<le> 120"
  defines "columns \<equiv> map (\<lambda>pos. stride pos SIZE_STORE_GROUP_BYTES pd) [0..<SIZE_STORE_GROUP_BYTES]"
  shows "\<exists>vs. field_bytes columns (mk_field_plan start w) gc = Inr vs \<and> length vs = gc \<and>
    (\<forall>g < gc. unat (vs ! g) = bits_at pd (120 * g + start) w)"
proof -
  let ?bp = "start div 8" and ?e = "start mod 8 + w"
  have sbp: "start = 8 * ?bp + start mod 8" by simp
  have bp: "?bp < 15" using w by simp
  have col: "length (columns ! p) = gc" "\<And>g. g < gc \<Longrightarrow> columns ! p ! g = pd ! (15 * g + p)" if "p < 15" for p
  proof -
    show "length (columns ! p) = gc"
      using that len by (simp add: columns_def length_stride const_defs div_groups mult.commute [of 15])
    fix g assume g: "g < gc"
    then have "p + g * 15 < length pd" using that len by simp
    then show "columns ! p ! g = pd ! (15 * g + p)"
      using that by (simp add: columns_def stride_nth const_defs add.commute mult.commute)
  qed
  have target: "unat (b :: byte) = bits_at pd (120 * g + start) w"
    if "g < gc" and "\<And>j. bit b j \<longleftrightarrow> j < w \<and> stream_bit pd (120 * g + (start + w - 1 - j))" for b g
  proof (rule bit_eqI)
    fix j
    have le: "120 * g + start + w \<le> 8 * length pd" using \<open>g < gc\<close> len w by linarith
    have "j < w \<Longrightarrow> 120 * g + start + w - 1 - j = 120 * g + (start + w - 1 - j)" by simp
    then show "bit (unat b) j = bit (bits_at pd (120 * g + start) w) j"
      using that(2) [of j] by (auto simp: bit_unat8 bit_bits_at [OF le])
  qed
  have sb: "stream_bit pd (120 * g + k) \<longleftrightarrow> bit (pd ! (15 * g + k div 8)) (7 - k mod 8)" if "k < 120" for g k
    using stream_bit_group [of k 15 pd g] that by simp
  show ?thesis
  proof (cases "?e \<le> 8")
    case True
    let ?f = "\<lambda>value. drop_bit (8 - ?e) value AND (push_bit w 1 - 1)"
    let ?vs = "translate (byte_table ?f) (columns ! ?bp)"
    have fb: "field_bytes columns (mk_field_plan start w) gc = Inr ?vs"
      using True by (simp add: field_bytes_def mk_field_plan_def Let_def)
    have "unat (?vs ! g) = bits_at pd (120 * g + start) w" if g: "g < gc" for g
    proof (rule target [OF g])
      fix j
      have v: "?vs ! g = word_of_nat (?f (unat (pd ! (15 * g + ?bp))))"
        using g col bp by (simp add: translate_nth)
      have bv: "bit (?vs ! g) j \<longleftrightarrow> j < 8 \<and> j < w \<and> bit (pd ! (15 * g + ?bp)) (8 - ?e + j)"
        by (simp only: v bit_word_of_nat8 bit_mask_and bit_drop_bit_eq comp_apply bit_unat8)
      have "j < w \<Longrightarrow> (start + w - 1 - j) div 8 = ?bp \<and> 7 - (start + w - 1 - j) mod 8 = 8 - ?e + j"
      proof -
        assume j: "j < w"
        then have "start + w - 1 - j = 8 * ?bp + (?e - 1 - j)" "?e - 1 - j < 8" using sbp True by linarith+
        from div_mod_8 [OF this] show ?thesis using j True by simp
      qed
      then show "bit (?vs ! g) j \<longleftrightarrow> j < w \<and> stream_bit pd (120 * g + (start + w - 1 - j))"
        using w sb [of "start + w - 1 - j" g] bv by auto
    qed
    with fb col bp show ?thesis by (intro exI [of _ ?vs]) simp
  next
    case False
    then have bp1: "?bp + 1 < 15" using w sbp by linarith
    let ?f1 = "\<lambda>value. push_bit (?e - 8) value AND (push_bit w 1 - 1)"
    let ?f2 = "\<lambda>value. drop_bit (16 - ?e) value"
    let ?p1 = "translate (byte_table ?f1) (columns ! ?bp)" and ?p2 = "translate (byte_table ?f2) (columns ! (?bp + 1))"
    let ?vs = "map2 (OR) ?p1 ?p2"
    have l: "length ?p1 = gc" "length ?p2 = gc" using col bp bp1 by simp_all
    have fb: "field_bytes columns (mk_field_plan start w) gc = Inr ?vs"
      using False l by (simp add: field_bytes_def mk_field_plan_def Let_def be_nat_or_bytes int_to_bytes_be_nat)
    have "unat (?vs ! g) = bits_at pd (120 * g + start) w" if g: "g < gc" for g
    proof (rule target [OF g])
      fix j
      have v: "?vs ! g = word_of_nat (?f1 (unat (pd ! (15 * g + ?bp)))) OR
          word_of_nat (?f2 (unat (pd ! (15 * g + (?bp + 1)))))"
        using g col bp bp1 by (simp add: translate_nth)
      let ?k = "start + w - 1 - j"
      have hi: "?k div 8 = ?bp \<and> 7 - ?k mod 8 = j - (?e - 8)" if "j < w" "?e - 8 \<le> j"
      proof -
        have "?k = 8 * ?bp + (?e - 1 - j)" "?e - 1 - j < 8" using sbp False that by linarith+
        from div_mod_8 [OF this] show ?thesis using that False by simp
      qed
      have lo: "?k div 8 = ?bp + 1 \<and> 7 - ?k mod 8 = 16 - ?e + j" if "j < ?e - 8"
      proof -
        define m where "m = start mod 8"
        have "m < 8" "start = 8 * ?bp + m" "\<not> m + w \<le> 8" "j < m + w - 8"
          using sbp False that by (simp_all add: m_def)
        define d where "d = m + w - 9 - j"
        have mw: "m + w = 9 + j + d" using \<open>j < m + w - 8\<close> by (simp add: d_def)
        then have "d < 8" using \<open>m < 8\<close> w(2) by simp
        have "?k = 8 * (?bp + 1) + d" using \<open>start = 8 * ?bp + m\<close> mw by simp
        then have "?k = 8 * (?bp + 1) + (?e - 9 - j)" "?e - 9 - j < 8"
          using \<open>d < 8\<close> by (simp_all add: d_def m_def)
        from div_mod_8 [OF this] show ?thesis using that False w by simp
      qed
      have b1: "bit (pd ! (15 * g + ?bp)) (j - (?e - 8)) \<Longrightarrow> j - (?e - 8) < 8" by (rule bit_byte_bound)
      have b2: "bit (pd ! (15 * g + (?bp + 1))) (16 - ?e + j) \<Longrightarrow> 16 - ?e + j < 8" by (rule bit_byte_bound)
      have ew: "?e - 8 \<le> w" "?e \<le> 15" using w by linarith+
      have bv: "bit (?vs ! g) j \<longleftrightarrow> j < 8 \<and> j < w \<and> ?e - 8 \<le> j \<and> bit (pd ! (15 * g + ?bp)) (j - (?e - 8)) \<or>
          j < 8 \<and> bit (pd ! (15 * g + (?bp + 1))) (16 - ?e + j)"
        by (simp only: v bit_or_iff bit_word_of_nat8 bit_mask_and bit_push_bit_iff_nat bit_drop_bit_eq comp_apply bit_unat8)
      show "bit (?vs ! g) j \<longleftrightarrow> j < w \<and> stream_bit pd (120 * g + ?k)"
      proof (cases "j < ?e - 8")
        case True
        then have "bit (?vs ! g) j \<longleftrightarrow> bit (pd ! (15 * g + (?bp + 1))) (16 - ?e + j)"
          using w ew bv by auto
        then show ?thesis using True lo w ew sb [of ?k g] by auto
      next
        case F: False
        have "\<not> bit (pd ! (15 * g + (?bp + 1))) (16 - ?e + j)" using F b2 ew by linarith
        then have "bit (?vs ! g) j \<longleftrightarrow> j < w \<and> bit (pd ! (15 * g + ?bp)) (j - (?e - 8))"
          using w F bv by auto
        then show ?thesis using F hi w sb [of ?k g] by auto
      qed
    qed
    with fb l show ?thesis by (intro exI [of _ ?vs]) simp
  qed
qed

text \<open>The loop over the eight records of a group fills every field of every record.\<close>

definition field_done :: "bytes \<Rightarrow> nat \<Rightarrow> nat \<Rightarrow> nat \<Rightarrow> nat \<Rightarrow> bytes \<Rightarrow> bool" where
  "field_done pd gc off w r ws \<longleftrightarrow>
     length ws = gc * 8 \<and> (\<forall>i < gc * 8. i mod 8 < r \<longrightarrow> unat (ws ! i) = bits_at pd (15 * i + off) w)"

lemma field_done_step:
  assumes "length pd = 15 * gc" and "0 < w" "w \<le> 8" "off + w \<le> 15" "r < 8" and "field_done pd gc off w r ws"
  shows "\<exists>vs ws'. field_bytes (map (\<lambda>pos. stride pos SIZE_STORE_GROUP_BYTES pd) [0..<SIZE_STORE_GROUP_BYTES])
      (mk_field_plan (r * SIZE_STORE_REC_BIT_NUM + off) w) gc = Inr vs \<and>
    stride_assign r SIZE_STORE_GROUP_RECORDS vs ws = Inr ws' \<and> field_done pd gc off w (Suc r) ws'"
proof -
  have "r * 15 + off + w \<le> 120" using assms by simp
  from field_bytes_ok [OF assms(1,2,3) this] obtain vs where
    vs: "field_bytes (map (\<lambda>pos. stride pos SIZE_STORE_GROUP_BYTES pd) [0..<SIZE_STORE_GROUP_BYTES])
      (mk_field_plan (r * 15 + off) w) gc = Inr vs" "length vs = gc"
      "\<forall>g < gc. unat (vs ! g) = bits_at pd (120 * g + (r * 15 + off)) w" by auto
  have ws: "length ws = gc * 8" using assms(6) by (simp add: field_done_def)
  from stride_assign_ok [OF ws assms(5) vs(2)] obtain ws' where
    ws': "stride_assign r 8 vs ws = Inr ws'" "length ws' = gc * 8"
      "\<forall>i < gc * 8. ws' ! i = (if i mod 8 = r then vs ! (i div 8) else ws ! i)" by blast
  have "unat (ws' ! i) = bits_at pd (15 * i + off) w" if i: "i < gc * 8" "i mod 8 < Suc r" for i
  proof (cases "i mod 8 = r")
    case True
    have "i div 8 < gc" using i(1) by (simp add: less_mult_imp_div_less)
    moreover have "120 * (i div 8) + (r * 15 + off) = 15 * i + off"
      using True mult_div_mod_eq [of 8 i] by simp
    moreover have "ws' ! i = vs ! (i div 8)" using True i ws'(3) by simp
    ultimately show ?thesis using vs(3) by metis
  next
    case False
    then show ?thesis using i ws'(3) assms(6) by (simp add: field_done_def)
  qed
  with vs(1) ws' show ?thesis by (auto simp: field_done_def const_defs)
qed

lemma size_store_loop_ok:
  assumes len: "length pd = 15 * gc"
  defines "columns \<equiv> map (\<lambda>pos. stride pos SIZE_STORE_GROUP_BYTES pd) [0..<SIZE_STORE_GROUP_BYTES]"
  assumes "R \<le> 8" and "st = (replicate (gc * 8) 0, replicate (gc * 8) 0, replicate (gc * 8) 0)"
  shows "\<exists>types highs lows. fold_res (size_store_loop columns gc) [0..<R] st = Inr (types, highs, lows) \<and>
    field_done pd gc 0 3 R types \<and> field_done pd gc 3 4 R highs \<and> field_done pd gc 7 8 R lows"
  using assms(3)
proof (induction R)
  case 0
  then show ?case using assms(4) by (simp add: field_done_def)
next
  case (Suc R)
  then obtain types highs lows where IH: "fold_res (size_store_loop columns gc) [0..<R] st = Inr (types, highs, lows)"
    "field_done pd gc 0 3 R types" "field_done pd gc 3 4 R highs" "field_done pd gc 7 8 R lows" by auto
  have R: "R < 8" using Suc.prems by simp
  have plans: "COMPRESS_TYPE_PLANS ! R = mk_field_plan (R * SIZE_STORE_REC_BIT_NUM + 0) 3"
    "STORED_LEN_HIGH_PLANS ! R = mk_field_plan (R * SIZE_STORE_REC_BIT_NUM + 3) 4"
    "STORED_LEN_LOW_PLANS ! R = mk_field_plan (R * SIZE_STORE_REC_BIT_NUM + 7) 8"
    using R by (simp_all add: COMPRESS_TYPE_PLANS_def STORED_LEN_HIGH_PLANS_def STORED_LEN_LOW_PLANS_def SIZE_STORE_GROUP_RECORDS_def)
  obtain vt types' where t: "field_bytes columns (COMPRESS_TYPE_PLANS ! R) gc = Inr vt"
      "stride_assign R SIZE_STORE_GROUP_RECORDS vt types = Inr types'" "field_done pd gc 0 3 (Suc R) types'"
    using field_done_step [OF len _ _ _ R IH(2)] unfolding plans columns_def by auto
  obtain vh highs' where h: "field_bytes columns (STORED_LEN_HIGH_PLANS ! R) gc = Inr vh"
      "stride_assign R SIZE_STORE_GROUP_RECORDS vh highs = Inr highs'" "field_done pd gc 3 4 (Suc R) highs'"
    using field_done_step [OF len _ _ _ R IH(3)] unfolding plans columns_def by auto
  obtain vl lows' where l: "field_bytes columns (STORED_LEN_LOW_PLANS ! R) gc = Inr vl"
      "stride_assign R SIZE_STORE_GROUP_RECORDS vl lows = Inr lows'" "field_done pd gc 7 8 (Suc R) lows'"
    using field_done_step [OF len _ _ _ R IH(4)] unfolding plans columns_def by auto
  have "fold_res (size_store_loop columns gc) [0..<Suc R] st = Inr (types', highs', lows')"
    using IH(1) t h l by (simp add: fold_res_append size_store_loop_def)
  with t h l show ?case by blast
qed

subsection \<open>Sixteen-bit lanes\<close>

lemma native_u16_ok:
  assumes "length lows = n" and "length highs = n"
  shows "\<exists>bs. native_u16 little lows highs = Inr bs \<and> length bs = 2 * n \<and>
    (\<forall>i < n. bs ! (2 * i) = (if little then lows ! i else highs ! i) \<and>
             bs ! (2 * i + 1) = (if little then highs ! i else lows ! i))"
proof -
  let ?a = "if little then lows else highs" and ?b = "if little then highs else lows"
  have l: "length ?a = n" "length ?b = n" using assms by auto
  have l0: "length (replicate (2 * length lows) (0 :: byte)) = n * 2" using assms by simp
  obtain xs where xs: "stride_assign 0 2 ?a (replicate (2 * length lows) 0) = Inr xs" "length xs = n * 2"
    "\<forall>i < n * 2. xs ! i = (if i mod 2 = 0 then ?a ! (i div 2) else replicate (2 * length lows) 0 ! i)"
    using stride_assign_ok [OF l0 _ l(1), of 0] by auto
  obtain ys where ys: "stride_assign 1 2 ?b xs = Inr ys" "length ys = n * 2"
    "\<forall>i < n * 2. ys ! i = (if i mod 2 = 1 then ?b ! (i div 2) else xs ! i)"
    using stride_assign_ok [OF xs(2) _ l(2), of 1] by auto
  have "native_u16 little lows highs = Inr ys"
    using xs(1) ys(1) by (cases little) (simp_all add: native_u16_def Let_def)
  moreover have "ys ! (2 * i) = ?a ! i" "ys ! (2 * i + 1) = ?b ! i" if "i < n" for i
    using that xs(3) ys(3) by simp_all
  ultimately show ?thesis using ys(2) by (intro exI [of _ ys]) (auto split: if_splits)
qed

lemma u16_frombytes_native:
  assumes "native_u16 little lows highs = Inr bs" and "length lows = n" and "length highs = n"
  shows "u16_frombytes little bs = map (\<lambda>i. 256 * unat (highs ! i) + unat (lows ! i)) [0..<n]"
proof -
  from native_u16_ok [OF assms(2,3), of little] assms(1) have "length bs = 2 * n"
    "\<forall>i < n. bs ! (2 * i) = (if little then lows ! i else highs ! i) \<and>
             bs ! (2 * i + 1) = (if little then highs ! i else lows ! i)" by auto
  then show ?thesis by (auto simp: u16_frombytes_def)
qed

lemma length_u16_tobytes [simp]: "length (u16_tobytes little xs) = 2 * length xs"
  by (induction xs) (auto simp: u16_tobytes_def)

lemma u16_tobytes_nth:
  "i < length xs \<Longrightarrow> u16_tobytes little xs ! (2 * i) = word_of_nat (if little then xs ! i mod 256 else xs ! i div 256)"
  "i < length xs \<Longrightarrow> u16_tobytes little xs ! (2 * i + 1) = word_of_nat (if little then xs ! i div 256 else xs ! i mod 256)"
  using nth_concat_equal [of "map (\<lambda>x. if little then [word_of_nat (x mod 256), word_of_nat (x div 256)]
                      else [word_of_nat (x div 256), word_of_nat (x mod 256)]) xs" 2 "2 * i"]
    nth_concat_equal [of "map (\<lambda>x. if little then [word_of_nat (x mod 256), word_of_nat (x div 256)]
                      else [word_of_nat (x div 256), word_of_nat (x mod 256)]) xs" 2 "2 * i + 1"]
  by (auto simp: u16_tobytes_def)

lemma length_accumulate [simp]: "length (accumulate xs a) = Suc (length xs)"
  by (induction xs arbitrary: a) auto

lemma accumulate_nth: "i \<le> length xs \<Longrightarrow> accumulate xs a ! i = a + sum_list (take i xs)"
proof (induction xs arbitrary: a i)
  case (Cons x xs)
  then show ?case by (cases i) auto
qed simp

lemma accumulate_le: "x \<in> set (accumulate xs a) \<Longrightarrow> x \<le> a + sum_list xs"
  by (induction xs arbitrary: a) fastforce+

lemma accumulate_last: "a + sum_list xs \<in> set (accumulate xs a)"
proof (induction xs arbitrary: a)
  case (Cons x xs)
  from Cons [of "a + x"] show ?case by (simp add: add.assoc)
qed simp

lemma accumulate_overflow: "(\<exists>off \<in> set (accumulate xs a). B \<le> off) \<longleftrightarrow> B \<le> a + sum_list xs"
  using accumulate_le [of _ xs a] accumulate_last [of a xs] by (meson le_trans)

lemma butlast_accumulate: "butlast (accumulate xs a) = map (\<lambda>i. a + sum_list (take i xs)) [0..<length xs]"
  by (rule nth_equalityI) (auto simp: nth_butlast accumulate_nth)

text \<open>A lane: masked by the type's keep byte, or replaced by the type's fixed length.\<close>

definition lane_effective :: "nat \<Rightarrow> nat \<Rightarrow> nat" where
  "lane_effective t l = (if t = 0 then FIXED_CHUNK_LENGTH else if t = 4 then 0 else l)"

lemma nth_map2: "i < length xs \<Longrightarrow> i < length ys \<Longrightarrow> map2 f xs ys ! i = f (xs ! i) (ys ! i)"
  by simp

lemma byte_and_ones: "(b :: byte) AND 0xFF = b"
proof -
  have "(0xFF :: byte) = - 1" by simp
  then show ?thesis by (simp only: and.right_neutral)
qed

lemma bucket_index_of_eq:
  assumes len: "length stored_lens = length types"
    and t: "\<forall>t \<in> set types. t < 256" and l: "\<forall>l \<in> set stored_lens. l < 65536"
  shows "bucket_index_of little types stored_lens start =
    (let eff = map2 lane_effective types stored_lens in
     if 2 ^ 32 \<le> start + sum_list eff then Inl PyOverflowError
     else Inr \<lparr>bi_compress_types = types, bi_stored_lens = stored_lens, bi_effective_lens = eff,
               bi_offsets = map (\<lambda>i. start + sum_list (take i eff)) [0..<length types]\<rparr>)"
proof -
  let ?n = "length types"
  let ?raw = "map word_of_nat types :: bytes"
  let ?keep = "translate KEEPS_STORED_LEN ?raw" and ?high = "translate FIXED_LEN_HIGH_BYTE ?raw"
  let ?stored = "u16_tobytes little stored_lens"
  obtain keep2 where k: "native_u16 little ?keep ?keep = Inr keep2" "length keep2 = 2 * ?n"
    "\<forall>i < ?n. keep2 ! (2 * i) = ?keep ! i \<and> keep2 ! (2 * i + 1) = ?keep ! i"
    using native_u16_ok [of ?keep ?n ?keep little] by auto
  obtain high2 where h: "native_u16 little (replicate ?n 0) ?high = Inr high2" "length high2 = 2 * ?n"
    "\<forall>i < ?n. high2 ! (2 * i) = (if little then replicate ?n 0 ! i else ?high ! i) \<and>
        high2 ! (2 * i + 1) = (if little then ?high ! i else replicate ?n 0 ! i)"
    using native_u16_ok [of "replicate ?n 0" ?n ?high little] by auto
  let ?eff = "map2 (OR) (map2 (AND) ?stored keep2) high2"
  have le: "length ?eff = 2 * ?n" using k(2) h(2) len by simp
  have bytes: "int_to_bytes ((be_nat ?stored AND be_nat keep2) OR be_nat high2) (length ?stored) = Inr ?eff"
    using k(2) h(2) len by (simp add: be_nat_and_bytes be_nat_or_bytes int_to_bytes_be_nat)
  have lane: "u16_frombytes little ?eff ! i = lane_effective (types ! i) (stored_lens ! i)" if i: "i < ?n" for i
  proof -
    have ti: "types ! i < 256" and li: "stored_lens ! i < 65536" using i t l len by auto
    have raw: "unat (?raw ! i) = types ! i" using i ti by (simp add: unat_of_nat)
    have kb: "?keep ! i = (if types ! i = 0 \<or> types ! i = 4 then 0 else 0xFF)"
      using i raw unfolding KEEPS_STORED_LEN_def by (subst translate_nth) auto
    have hb: "?high ! i = (if types ! i = 0 then 16 else 0)"
      using i raw unfolding FIXED_LEN_HIGH_BYTE_def
      by (subst translate_nth) (auto simp: const_defs drop_bit_eq_div)
    have lo: "unat (word_of_nat (stored_lens ! i mod 256) :: byte) = stored_lens ! i mod 256"
      and hi: "unat (word_of_nat (stored_lens ! i div 256) :: byte) = stored_lens ! i div 256"
      using li by (simp_all add: unat_of_nat)
    have e0: "?eff ! (2 * i) = ((?stored ! (2 * i) AND keep2 ! (2 * i)) OR high2 ! (2 * i))"
      and e1: "?eff ! (2 * i + 1) = ((?stored ! (2 * i + 1) AND keep2 ! (2 * i + 1)) OR high2 ! (2 * i + 1))"
      using i k(2) h(2) len by simp_all
    have "u16_frombytes little ?eff ! i =
        (if little then unat (?eff ! (2 * i)) + 256 * unat (?eff ! (2 * i + 1))
         else 256 * unat (?eff ! (2 * i)) + unat (?eff ! (2 * i + 1)))"
      unfolding u16_frombytes_def le using i by simp
    then show ?thesis
      unfolding e0 e1 using i k(3) h(3) len u16_tobytes_nth [of i stored_lens little] kb hb lo hi
      by (auto simp: lane_effective_def byte_and_ones const_values simp del: of_nat_mod)
  qed
  have effs: "u16_frombytes little ?eff = map2 lane_effective types stored_lens"
    by (rule nth_equalityI) (use lane le len in \<open>auto simp: u16_frombytes_def\<close>)
  have "bucket_index_of little types stored_lens start =
      (let eff = u16_frombytes little ?eff; offsets = accumulate eff start in
       if \<exists>off \<in> set offsets. 2 ^ 32 \<le> off then Inl PyOverflowError
       else Inr \<lparr>bi_compress_types = types, bi_stored_lens = stored_lens, bi_effective_lens = eff, bi_offsets = butlast offsets\<rparr>)"
    using k(1) h(1) bytes by (simp add: bucket_index_of_def Let_def)
  then show ?thesis
    unfolding effs Let_def accumulate_overflow butlast_accumulate using len by simp
qed

subsection \<open>The decoder reads the packed records\<close>

text \<open>
  The format, record by record: record \<open>i\<close> is the 15 bits from bit \<open>15 i\<close> of the store, three
  bits of type and twelve of stored length, most significant bit first.
\<close>

definition ref_type :: "bytes \<Rightarrow> nat \<Rightarrow> nat" where
  "ref_type data i = bits_at data (15 * i) 3"

definition ref_stored_len :: "bytes \<Rightarrow> nat \<Rightarrow> nat" where
  "ref_stored_len data i = bits_at data (15 * i + 3) 12"

definition ref_size_store :: "bytes \<Rightarrow> nat \<Rightarrow> bucket_index res" where
  "ref_size_store tight n =
     (let types = map (ref_type tight) [0..<n];
          lens = map (ref_stored_len tight) [0..<n];
          eff = map (\<lambda>i. lane_effective (ref_type tight i) (ref_stored_len tight i)) [0..<n]
      in if \<exists>t \<in> set types. compress_type_by_value t = None then Inl DataCorruptError
         else if 2 ^ 32 \<le> COMPRESS_RESERVED_LENG + sum_list eff then Inl PyOverflowError
         else Inr \<lparr>bi_compress_types = types, bi_stored_lens = lens, bi_effective_lens = eff,
                   bi_offsets = map (\<lambda>i. COMPRESS_RESERVED_LENG + sum_list (take i eff)) [0..<n]\<rparr>)"

lemma ceil_div_8: "ceil_div n 8 = (n + 7) div 8"
proof -
  have "- ((- int n) div 8) = (int n + 7) div 8" by presburger
  then show ?thesis unfolding ceil_div_def by (simp add: nat_div_distrib nat_add_distrib)
qed

lemma tight_length_eq: "chunk_size_store_tight_length n = (15 * n + 7) div 8"
  by (simp add: chunk_size_store_tight_length_def const_defs drop_bit_eq_div mult.commute)

lemma tight_length_bounds:
  "i < n \<Longrightarrow> 15 * i + 15 \<le> 8 * chunk_size_store_tight_length n"
  "chunk_size_store_tight_length n \<le> ceil_div n 8 * 15"
proof -
  assume "i < n"
  then have "15 * i + 15 \<le> 15 * n" by simp
  also have "m \<le> 8 * ((m + 7) div 8)" for m :: nat by presburger
  then have "15 * n \<le> 8 * ((15 * n + 7) div 8)" .
  finally show "15 * i + 15 \<le> 8 * chunk_size_store_tight_length n" by (simp add: tight_length_eq)
next
  define q where "q = (n + 7) div 8"
  have "n \<le> 8 * q" unfolding q_def by presburger
  then have "(15 * n + 7) div 8 \<le> (15 * (8 * q) + 7) div 8" by (intro div_le_mono) simp
  also have "(15 * (8 * q) + 7) div 8 = q * 15" by presburger
  finally show "chunk_size_store_tight_length n \<le> ceil_div n 8 * 15"
    by (simp add: tight_length_eq ceil_div_8 q_def)
qed

lemma ref_stored_len_split:
  assumes "15 * i + 15 \<le> 8 * length bs"
  shows "ref_stored_len bs i = 256 * bits_at bs (15 * i + 3) 4 + bits_at bs (15 * i + 7) 8"
  using bits_at_split [of "15 * i + 3" 4 8 bs] assms by (simp add: ref_stored_len_def add.assoc)

lemma unknown_type_iff: "compress_type_by_value (unat (v :: byte)) = None \<longleftrightarrow> v \<notin> set KNOWN_COMPRESS_TYPE_BYTES"
proof -
  have "v \<in> {0, 1, 2, 4} \<longleftrightarrow> unat v \<in> {0, 1, 2, 4}" by (simp add: word_unat_eq_iff)
  then show ?thesis by (auto simp: compress_type_by_value_def KNOWN_COMPRESS_TYPE_BYTES_def)
qed

lemma parse_size_store_eq:
  "parse_size_store little data n verify_crc =
     (if length data < chunk_size_store_tight_length n then Inl FormatError
      else bind_res (case verify_crc of None \<Rightarrow> Inr ()
                     | Some crc \<Rightarrow> verify_crc32 (take (chunk_size_store_tight_length n) data) crc)
        (\<lambda>_. ref_size_store (take (chunk_size_store_tight_length n) data) n))"
proof (cases "length data < chunk_size_store_tight_length n")
  case True
  then show ?thesis by (simp add: parse_size_store_def)
next
  case False
  let ?tight = "take (chunk_size_store_tight_length n) data"
  let ?gc = "ceil_div n 8"
  let ?pd = "?tight @ replicate (?gc * 15 - length ?tight) 0"
  have lt: "length ?tight = chunk_size_store_tight_length n" using False by simp
  have lpd: "length ?pd = 15 * ?gc" using lt tight_length_bounds(2) [of n] by simp
  let ?columns = "map (\<lambda>pos. stride pos SIZE_STORE_GROUP_BYTES ?pd) [0..<SIZE_STORE_GROUP_BYTES]"
  let ?zeros = "replicate (?gc * 8) 0 :: bytes"
  obtain types highs lows where loop:
      "fold_res (size_store_loop ?columns ?gc) [0..<8] (?zeros, ?zeros, ?zeros) = Inr (types, highs, lows)"
    and dn: "field_done ?pd ?gc 0 3 8 types" "field_done ?pd ?gc 3 4 8 highs" "field_done ?pd ?gc 7 8 8 lows"
    using size_store_loop_ok [OF lpd order_refl refl] by blast
  have n8: "n \<le> ?gc * 8" unfolding ceil_div_8 by presburger
  have field: "unat (ws ! i) = bits_at ?tight (15 * i + off) w"
    if "field_done ?pd ?gc off w 8 ws" "i < n" "off + w \<le> 15" for ws off w i
  proof -
    have "15 * i + off + w \<le> 8 * length ?tight" using tight_length_bounds(1) [OF that(2)] lt that(3) by simp
    then show ?thesis using that n8 by (simp add: field_done_def bits_at_append)
  qed
  have lens: "length types = ?gc * 8" "length highs = ?gc * 8" "length lows = ?gc * 8"
    using dn by (simp_all add: field_done_def)
  have types: "map unat (take n types) = map (ref_type ?tight) [0..<n]"
    by (rule nth_equalityI) (use field [OF dn(1)] lens n8 in \<open>auto simp: ref_type_def\<close>)
  obtain native where native: "native_u16 little lows highs = Inr native"
    using native_u16_ok [OF lens(3,2), of little] by auto
  have stored: "take n (u16_frombytes little native) = map (ref_stored_len ?tight) [0..<n]"
  proof (rule nth_equalityI)
    fix i assume "i < length (take n (u16_frombytes little native))"
    then have i: "i < n" by simp
    then have "15 * i + 15 \<le> 8 * length ?tight" using tight_length_bounds(1) [OF i] lt by simp
    then show "take n (u16_frombytes little native) ! i = map (ref_stored_len ?tight) [0..<n] ! i"
      using i n8 field [OF dn(2) i] field [OF dn(3) i]
      by (simp add: u16_frombytes_native [OF native lens(3,2)] ref_stored_len_split)
  qed (use n8 in \<open>simp add: u16_frombytes_native [OF native lens(3,2)]\<close>)
  have unknown: "filter (\<lambda>v. v \<notin> set KNOWN_COMPRESS_TYPE_BYTES) (take n types) \<noteq> [] \<longleftrightarrow>
      (\<exists>t \<in> set (map (ref_type ?tight) [0..<n]). compress_type_by_value t = None)"
    unfolding types [symmetric] by (auto simp: filter_empty_conv unknown_type_iff)
  have bounds: "\<forall>t \<in> set (map (ref_type ?tight) [0..<n]). t < 256"
    "\<forall>l \<in> set (map (ref_stored_len ?tight) [0..<n]). l < 65536"
    using less_le_trans [OF bits_at_less [of ?tight _ 3], of 256] less_le_trans [OF bits_at_less [of ?tight _ 12], of 65536]
    by (auto simp: ref_type_def ref_stored_len_def)
  have eff: "map2 lane_effective (map (ref_type ?tight) [0..<n]) (map (ref_stored_len ?tight) [0..<n]) =
      map (\<lambda>i. lane_effective (ref_type ?tight i) (ref_stored_len ?tight i)) [0..<n]"
    by (rule nth_equalityI) auto
  have "parse_size_store little data n verify_crc =
      bind_res (case verify_crc of None \<Rightarrow> Inr () | Some crc \<Rightarrow> verify_crc32 ?tight crc) (\<lambda>_.
        if \<exists>t \<in> set (map (ref_type ?tight) [0..<n]). compress_type_by_value t = None then Inl DataCorruptError
        else bucket_index_of little (map (ref_type ?tight) [0..<n]) (map (ref_stored_len ?tight) [0..<n]) COMPRESS_RESERVED_LENG)"
    using False loop
    unfolding parse_size_store_def Let_def SIZE_STORE_GROUP_RECORDS_def SIZE_STORE_GROUP_BYTES_def
    by (simp add: unknown types stored native del: map_map) force
  then show ?thesis
    using False by (simp add: ref_size_store_def bucket_index_of_eq [OF _ bounds] eff Let_def cong: if_cong)
qed

subsection \<open>Locators and the trailer\<close>

lemma parse_size_store_shape:
  assumes "parse_size_store little data n v = Inr ix"
  shows "length (bi_compress_types ix) = n" "length (bi_stored_lens ix) = n" "length (bi_effective_lens ix) = n"
    "bi_offsets ix = map (\<lambda>i. COMPRESS_RESERVED_LENG + sum_list (take i (bi_effective_lens ix))) [0..<n]"
    "\<forall>t \<in> set (bi_compress_types ix). compress_type_by_value t \<noteq> None"
    "\<And>i. i < n \<Longrightarrow> bi_effective_lens ix ! i = lane_effective (bi_compress_types ix ! i) (bi_stored_lens ix ! i)"
    "\<And>i. i < n \<Longrightarrow> bi_stored_lens ix ! i < 4096"
  using assms less_le_trans [OF bits_at_less [of "take (chunk_size_store_tight_length n) data" _ 12], of 4096]
  unfolding parse_size_store_eq
  by (auto simp: ref_size_store_def Let_def res_simps ref_stored_len_def split: if_splits option.splits)

lemma non_empty_count_eq: "non_empty_count ix = length (filter (\<lambda>l. 0 < l) (bi_effective_lens ix))"
proof -
  have "length xs - count_list xs 0 = length (filter (\<lambda>l. 0 < l) xs)" for xs :: "nat list"
    by (induction xs) (auto simp: Suc_diff_le count_le_length)
  then show ?thesis by (simp add: non_empty_count_def)
qed

lemma sum_list_indicator: "sum_list (map (\<lambda>l. if 0 < l then 1 else 0) xs) = length (filter (\<lambda>l. 0 < (l :: nat)) xs)"
  by (induction xs) auto

lemma crc_store_positions_nth:
  assumes "length (bi_effective_lens ix) = index_len ix" and "i < index_len ix"
  shows "crc_store_positions ix ! i = length (filter (\<lambda>l. 0 < l) (take i (bi_effective_lens ix)))"
proof (cases "non_empty_count ix = index_len ix")
  case True
  then have "length (filter (\<lambda>l. 0 < l) (bi_effective_lens ix)) = length (bi_effective_lens ix)"
    using assms(1) by (simp add: non_empty_count_eq)
  then have "\<forall>l \<in> set (bi_effective_lens ix). 0 < l" by (metis filter_id_conv length_filter_less neq_iff)
  then have "filter (\<lambda>l. 0 < l) (take i (bi_effective_lens ix)) = take i (bi_effective_lens ix)"
    by (subst filter_id_conv) (auto dest: in_set_takeD)
  with True assms show ?thesis by (simp add: crc_store_positions_def)
next
  case False
  with assms show ?thesis
    by (simp add: crc_store_positions_def butlast_accumulate take_map sum_list_indicator)
qed

subsection \<open>Properties\<close>

text \<open>C25. The optimised SizeStore decoder reads the packed records: computing whole columns
  through translate tables and big-integer lanes, on machines of either byte order, gives for
  every input exactly what reading the 15-bit records one at a time gives (type from the first
  three bits, stored length from the next twelve, offsets accumulated from 16384), with the
  same errors: too short, wrong checksum, an unknown type.\<close>

theorem size_store_decoder_equivalent:
  "parse_size_store little data chunk_num verify_crc =
     (let tight_len = (15 * chunk_num + 7) div 8 in
      if length data < tight_len then Inl FormatError
      else bind_res (case verify_crc of None \<Rightarrow> Inr () | Some crc \<Rightarrow> verify_crc32 (take tight_len data) crc)
        (\<lambda>_. ref_size_store (take tight_len data) chunk_num))"
  unfolding parse_size_store_eq tight_length_eq Let_def by simp

text \<open>C24. A parsed index tiles the data region: chunk \<open>i\<close>'s locator starts where chunk \<open>i - 1\<close>'s
  ends, the first at 16384, and the last ends where the ChunkCrcStore trailer begins; a chunk
  is 4096 bytes when stored plain, empty when compacted, and below 4096 bytes otherwise; and
  its checksum slot is the number of non-empty chunks before it.\<close>

theorem bucket_index_tiles:
  assumes "parse_size_store little data n v = Inr ix" and "i < n" and "is_compressed h"
  shows "\<exists>off len. locator ix i = Inr (off, len) \<and>
    off = COMPRESS_RESERVED_LENG + sum_list (take i (bi_effective_lens ix)) \<and>
    (Suc i < n \<longrightarrow> (\<exists>len'. locator ix (Suc i) = Inr (off + len, len'))) \<and>
    (Suc i = n \<longrightarrow> chunk_crc_store_region h ix = Inr (off + len, 4 * non_empty_count ix)) \<and>
    len = lane_effective (bi_compress_types ix ! i) (bi_stored_lens ix ! i) \<and> len \<le> FIXED_CHUNK_LENGTH \<and>
    crc_store_positions ix ! i = length (filter (\<lambda>l. 0 < l) (take i (bi_effective_lens ix)))"
proof -
  note s = parse_size_store_shape [OF assms(1)]
  have step: "sum_list (take (Suc i) (bi_effective_lens ix)) = sum_list (take i (bi_effective_lens ix)) + bi_effective_lens ix ! i"
    using assms(2) s(3) by (simp add: take_Suc_conv_app_nth)
  have "bi_effective_lens ix ! i \<le> FIXED_CHUNK_LENGTH"
    using s(6) [OF assms(2)] s(7) [OF assms(2)] by (simp add: lane_effective_def const_values)
  moreover have "crc_store_positions ix ! i = length (filter (\<lambda>l. 0 < l) (take i (bi_effective_lens ix)))"
    using s assms(2) by (intro crc_store_positions_nth) (simp_all add: index_len_def)
  moreover have "Suc i = n \<Longrightarrow> sum_list (bi_effective_lens ix) = sum_list (take i (bi_effective_lens ix)) + bi_effective_lens ix ! i"
    using step s(3) by simp
  ultimately show ?thesis
    using assms(2,3) s step by (auto simp: locator_def chunk_crc_store_region_def total_effective_len_def CHUNK_CRC_SIZE_def)
qed

lemma bucket_index_tiles_witness:
  "\<exists>ix. parse_size_store True [0, 0] 1 None = Inr ix \<and> locator ix 0 = Inr (16384, 4096)"
proof -
  have r: "ref_type [0, 0] 0 = 0" "ref_stored_len [0, 0] 0 = 0"
    by (simp_all add: ref_type_def ref_stored_len_def bits_at_def be_nat_def)
  have p: "parse_size_store True [0, 0] 1 None =
      Inr \<lparr>bi_compress_types = [0], bi_stored_lens = [0], bi_effective_lens = [4096], bi_offsets = [16384]\<rparr>"
    by (simp add: parse_size_store_eq tight_length_eq ref_size_store_def r lane_effective_def Let_def
        compress_type_by_value_def const_defs push_bit_eq_mult)
  show ?thesis
    using bucket_index_tiles [OF p, of 0 "\<lparr>bh_major = 3, bh_minor = 0, bh_mode = 3, bh_chunk_num = 1,
        bh_chunk_size_crc = 0, bh_crc_of_chunk_crc = 0\<rparr>"] p
    by (simp add: is_compressed_def MODE_COMPRESS_def locator_def)
qed

end
