(* ===== verification/Store.thy ===== *)
theory Store
  imports Text "HOL-Library.List_Lexorder" "HOL-Library.Char_ord"
begin

text \<open>
  \<open>sdk/storage/base.py\<close>, \<open>sdk/storage/local.py\<close> and \<open>sdk/positional_io.py\<close>: the
  \<open>ObjectStore\<close> interface (a locale), the path join every store path goes through, and the
  local file system store with its positional reads. The operating system is a parameter:
  a tree of nodes, and how many bytes each positional read happens to return.
\<close>

subsection \<open>The interface\<close>

record entry =
  e_name :: string
  e_size :: "nat option"

text \<open>
  The read operations of \<open>ObjectStore\<close>. A repository is read-only while it is open, so a
  store is a record of functions of the path.
\<close>

record store =
  st_read :: "string \<Rightarrow> nat \<Rightarrow> nat option \<Rightarrow> bytes res"
  st_size :: "string \<Rightarrow> nat res"
  st_exists :: "string \<Rightarrow> bool res"
  st_listdir :: "string \<Rightarrow> entry list res"

text \<open>
  The read contract of the protocol: \<open>read\<close> returns the requested part of the file, shorter
  only at its end, never padded; and for a path that names no file it yields no bytes.
\<close>

locale object_store =
  fixes rd :: "string \<Rightarrow> nat \<Rightarrow> nat option \<Rightarrow> bytes res"
    and content :: "string \<Rightarrow> bytes option"
  assumes read_content:
    "content p = Some bs \<Longrightarrow> rd p off len = Inr (case len of None \<Rightarrow> drop off bs | Some n \<Rightarrow> pslice off (off + n) bs)"
    and read_absent: "content p = None \<Longrightarrow> rd p off len = Inr bs \<Longrightarrow> bs = []"
begin

lemma read_exact:
  assumes "content p = Some bs" and "off + n \<le> length bs"
  shows "rd p off (Some n) = Inr (pslice off (off + n) bs)" "length (pslice off (off + n) bs) = n"
  using assms by (simp_all add: read_content)

lemma read_short: "rd p off (Some n) = Inr bs \<Longrightarrow> length bs \<le> n"
  by (cases "content p") (auto simp: read_content dest: read_absent)

lemma read_part:
  assumes "content p = Some bs" and "rd p off (Some n) = Inr xs" and "i < length xs"
  shows "xs ! i = bs ! (off + i)"
  using assms by (auto simp: read_content)

lemma read_full: "rd p off (Some n) = Inr xs \<Longrightarrow> n \<le> length xs \<Longrightarrow> 0 < n \<Longrightarrow>
  \<exists>bs. content p = Some bs \<and> off + n \<le> length bs \<and> xs = pslice off (off + n) bs"
  by (cases "content p") (auto simp: read_content dest: read_absent)

end

subsection \<open>Paths\<close>

text \<open>\<open>s.strip("/")\<close>.\<close>

definition strip_char :: "char \<Rightarrow> string \<Rightarrow> string" where
  "strip_char c s = rev (dropWhile (\<lambda>x. x = c) (rev (dropWhile (\<lambda>x. x = c) s)))"

definition bad_segment :: "string \<Rightarrow> bool" where
  "bad_segment seg \<longleftrightarrow> seg = ''..'' \<or> CHR 0x5C \<in> set seg"

definition join_path :: "string list \<Rightarrow> string res" where
  "join_path parts =
     (let joined = str_join (CHR ''/'') (map (strip_char (CHR ''/'')) (filter (\<lambda>p. p \<noteq> []) parts)) in
      if \<exists>seg \<in> set (str_split (CHR ''/'') joined). bad_segment seg then Inl NotFoundError
      else Inr joined)"

definition backend_key :: "string \<Rightarrow> string" where
  "backend_key path = strip_char (CHR ''/'') path"

definition list_names :: "store \<Rightarrow> string \<Rightarrow> string list res" where
  "list_names st path = bind_res (st_listdir st path) (\<lambda>es. Inr (map e_name es))"

subsection \<open>Positional reads\<close>

text \<open>
  One \<open>os.pread\<close>: at least one byte of the requested range unless there is none, and at
  most all of it. Which prefix comes back is up to \<open>cap\<close>, an arbitrary function.
\<close>

definition os_pread :: "(nat \<Rightarrow> nat \<Rightarrow> nat) \<Rightarrow> bytes \<Rightarrow> nat \<Rightarrow> nat \<Rightarrow> bytes" where
  "os_pread cap content len off = take (min len (Suc (cap len off))) (drop off content)"

function pread_loop :: "(nat \<Rightarrow> nat \<Rightarrow> bytes) \<Rightarrow> nat \<Rightarrow> nat \<Rightarrow> bytes \<Rightarrow> bytes" where
  "pread_loop once len off acc =
     (if length acc < len then
        (let more = once (len - length acc) (off + length acc) in
         if more = [] then acc else pread_loop once len off (acc @ more))
      else acc)"
  by pat_completeness auto
termination
  by (relation "measure (\<lambda>(once, len, off, acc). len - length acc)") (auto, metis diff_less_mono2 less_add_same_cancel1 length_greater_0_conv)

declare pread_loop.simps [simp del]

definition pread :: "(nat \<Rightarrow> nat \<Rightarrow> bytes) \<Rightarrow> nat \<Rightarrow> nat \<Rightarrow> bytes" where
  "pread once len off =
     (let data = once len off in
      if len \<le> length data \<or> data = [] then data else pread_loop once len off data)"

subsection \<open>The local file system store\<close>

text \<open>What the operating system finds at a path below the store root.\<close>

datatype fs_node =
    RegularFile bytes
  | Directory "entry list" nat
  | NoSuchPath
  | NotADirectory
  | AccessDenied
  | IoFailure

type_synonym file_system = "string list \<Rightarrow> fs_node"

text \<open>\<open>PurePosixPath(path).parts\<close> of a relative path, and \<open>LocalFsStore.local_path\<close>.\<close>

definition posix_parts :: "string \<Rightarrow> string list" where
  "posix_parts path = filter (\<lambda>s. s \<noteq> [] \<and> s \<noteq> ''.'') (str_split (CHR ''/'') path)"

definition is_absolute :: "string \<Rightarrow> bool" where
  "is_absolute path \<longleftrightarrow> (case path of [] \<Rightarrow> False | c # _ \<Rightarrow> c = CHR ''/'')"

definition local_path :: "string \<Rightarrow> string list res" where
  "local_path path =
     (if is_absolute path \<or> ''..'' \<in> set (posix_parts path) then Inl NotFoundError
      else Inr (posix_parts path))"

text \<open>The error \<open>_mapped_os_error\<close> maps each failed node to.\<close>

fun mapped_os_error :: "fs_node \<Rightarrow> err" where
  "mapped_os_error AccessDenied = PermissionDeniedError"
| "mapped_os_error IoFailure = StorageBackendError"
| "mapped_os_error _ = NotFoundError"

definition local_read :: "(nat \<Rightarrow> nat \<Rightarrow> nat) \<Rightarrow> file_system \<Rightarrow> string \<Rightarrow> nat \<Rightarrow> nat option \<Rightarrow> bytes res" where
  "local_read cap fs path offset len =
     bind_res (local_path path) (\<lambda>p.
       case fs p of
         RegularFile bs \<Rightarrow>
           let n = (case len of None \<Rightarrow> length bs - offset | Some n \<Rightarrow> n) in
           if n = 0 then Inr [] else Inr (pread (os_pread cap bs) n offset)
       | Directory es sz \<Rightarrow>
           let n = (case len of None \<Rightarrow> sz - offset | Some n \<Rightarrow> n) in
           if n = 0 then Inr [] else Inl (mapped_os_error (Directory es sz))
       | node \<Rightarrow> Inl (mapped_os_error node))"

definition local_size :: "file_system \<Rightarrow> string \<Rightarrow> nat res" where
  "local_size fs path =
     bind_res (local_path path) (\<lambda>p.
       case fs p of RegularFile bs \<Rightarrow> Inr (length bs) | node \<Rightarrow> Inl (mapped_os_error node))"

definition local_exists :: "file_system \<Rightarrow> string \<Rightarrow> bool res" where
  "local_exists fs path =
     (case local_path path of
        Inl e \<Rightarrow> Inr False
      | Inr p \<Rightarrow> (case fs p of
            RegularFile _ \<Rightarrow> Inr True | Directory _ _ \<Rightarrow> Inr True
          | NoSuchPath \<Rightarrow> Inr False | NotADirectory \<Rightarrow> Inr False | AccessDenied \<Rightarrow> Inr False
          | IoFailure \<Rightarrow> Inl StorageBackendError))"

definition local_listdir :: "file_system \<Rightarrow> string \<Rightarrow> entry list res" where
  "local_listdir fs path =
     bind_res (local_path path) (\<lambda>p.
       case fs p of
         Directory es _ \<Rightarrow> Inr (sort_key e_name es)
       | RegularFile _ \<Rightarrow> Inl NotFoundError
       | node \<Rightarrow> Inl (mapped_os_error node))"

definition local_store :: "(nat \<Rightarrow> nat \<Rightarrow> nat) \<Rightarrow> file_system \<Rightarrow> store" where
  "local_store cap fs =
     \<lparr>st_read = local_read cap fs, st_size = local_size fs, st_exists = local_exists fs, st_listdir = local_listdir fs\<rparr>"

text \<open>The file a path names, if it names one.\<close>

definition local_content :: "file_system \<Rightarrow> string \<Rightarrow> bytes option" where
  "local_content fs path =
     (case local_path path of
        Inl _ \<Rightarrow> None
      | Inr p \<Rightarrow> (case fs p of RegularFile bs \<Rightarrow> Some bs | _ \<Rightarrow> None))"

subsection \<open>Short reads are continued\<close>

lemma os_pread_prefix: "os_pread cap bs n off = take (length (os_pread cap bs n off)) (pslice off (off + n) bs)"
  by (simp add: os_pread_def pslice_def min_def)

lemma os_pread_empty: "os_pread cap bs n off = [] \<longleftrightarrow> n = 0 \<or> length bs \<le> off"
  by (auto simp: os_pread_def)

lemma os_pread_extend:
  assumes "acc = take (length acc) (pslice off (off + n) bs)" and "length acc \<le> n"
  shows "acc @ os_pread cap bs (n - length acc) (off + length acc) =
    take (length (acc @ os_pread cap bs (n - length acc) (off + length acc))) (pslice off (off + n) bs)"
proof -
  let ?m = "os_pread cap bs (n - length acc) (off + length acc)"
  have "take (length acc + length ?m) (pslice off (off + n) bs) =
      take (length acc) (pslice off (off + n) bs) @ take (length ?m) (drop (length acc) (pslice off (off + n) bs))"
    by (rule take_add)
  also have "drop (length acc) (pslice off (off + n) bs) = pslice (off + length acc) (off + length acc + (n - length acc)) bs"
    using assms(2) by (simp add: pslice_def drop_take add.commute)
  also have "take (length ?m) \<dots> = ?m" by (rule os_pread_prefix [symmetric])
  finally show ?thesis using assms(1) by simp
qed

lemma pread_loop_complete:
  assumes "acc = take (length acc) (pslice off (off + n) bs)" and "length acc \<le> n"
  shows "pread_loop (os_pread cap bs) n off acc = pslice off (off + n) bs"
  using assms
proof (induction "n - length acc" arbitrary: acc rule: less_induct)
  case less
  show ?case
  proof (cases "length acc < n")
    case True
    let ?m = "os_pread cap bs (n - length acc) (off + length acc)"
    show ?thesis
    proof (cases "?m = []")
      case empty: True
      with True have "length bs \<le> off + length acc" by (simp add: os_pread_empty)
      then have "length (pslice off (off + n) bs) \<le> length acc" by auto
      then have "acc = pslice off (off + n) bs" using less.prems(1) by simp
      then show ?thesis using True empty by (subst pread_loop.simps) (simp add: Let_def)
    next
      case False
      have "length ?m \<le> n - length acc" by (simp add: os_pread_def)
      then have "pread_loop (os_pread cap bs) n off (acc @ ?m) = pslice off (off + n) bs"
        using less.prems False True by (intro less.hyps os_pread_extend) (auto intro: diff_less_mono2)
      then show ?thesis using True False by (subst pread_loop.simps) (simp add: Let_def)
    qed
  next
    case False
    then have "length acc = n" using less.prems(2) by simp
    then have "acc = pslice off (off + n) bs" using less.prems(1) by (simp add: pslice_def)
    then show ?thesis using False by (subst pread_loop.simps) simp
  qed
qed

lemma pread_complete: "pread (os_pread cap bs) n off = pslice off (off + n) bs"
proof (cases "os_pread cap bs n off = []")
  case True
  then have "pslice off (off + n) bs = []" by (auto simp: os_pread_empty pslice_def)
  with True show ?thesis by (simp add: pread_def)
next
  case False
  have l: "length (os_pread cap bs n off) \<le> n" by (simp add: os_pread_def)
  show ?thesis
  proof (cases "n \<le> length (os_pread cap bs n off)")
    case True
    then have "length (os_pread cap bs n off) = n" using l by simp
    then have "os_pread cap bs n off = take n (pslice off (off + n) bs)" using os_pread_prefix by metis
    then have "os_pread cap bs n off = pslice off (off + n) bs" by (simp add: pslice_def)
    with True show ?thesis by (simp add: pread_def)
  next
    case F: False
    have "pread_loop (os_pread cap bs) n off (os_pread cap bs n off) = pslice off (off + n) bs"
      by (rule pread_loop_complete [OF os_pread_prefix l])
    with F False show ?thesis by (simp add: pread_def)
  qed
qed

interpretation local_fs: object_store "local_read cap fs" "local_content fs" for cap fs
proof
  fix p bs off len
  assume "local_content fs p = Some bs"
  then obtain segs where "local_path p = Inr segs" "fs segs = RegularFile bs"
    by (auto simp: local_content_def split: sum.splits fs_node.splits)
  then show "local_read cap fs p off len = Inr (case len of None \<Rightarrow> drop off bs | Some n \<Rightarrow> pslice off (off + n) bs)"
    by (auto simp: local_read_def pread_complete Let_def pslice_all split: option.splits)
next
  fix p off len bs
  assume "local_content fs p = None" and "local_read cap fs p off len = Inr bs"
  then show "bs = []"
    by (auto simp: local_content_def local_read_def res_simps Let_def split: sum.splits fs_node.splits if_splits)
qed

subsection \<open>Joined paths stay below the root\<close>

lemma strip_char_no_change: "c \<notin> set s \<Longrightarrow> strip_char c s = s"
proof -
  have d: "c \<notin> set t \<Longrightarrow> dropWhile (\<lambda>x. x = c) t = t" for t by (cases t) auto
  assume "c \<notin> set s"
  with d [of s] d [of "rev s"] show ?thesis by (simp add: strip_char_def)
qed

lemma str_split_snoc_sep: "str_split c (s @ [c]) = str_split c s @ [[]]"
  by (induction s) (auto split: list.splits)

lemma segments_lstrip: "set (str_split c (dropWhile (\<lambda>x. x = c) s)) \<subseteq> set (str_split c s) \<and>
    set (str_split c s) \<subseteq> insert [] (set (str_split c (dropWhile (\<lambda>x. x = c) s)))"
  by (induction s) auto

lemma segments_rstrip: "set (str_split c (rev (dropWhile (\<lambda>x. x = c) (rev s)))) \<subseteq> set (str_split c s) \<and>
    set (str_split c s) \<subseteq> insert [] (set (str_split c (rev (dropWhile (\<lambda>x. x = c) (rev s)))))"
  by (induction s rule: rev_induct) (auto simp: str_split_snoc_sep)

lemma segments_strip:
  "set (str_split c (strip_char c s)) \<subseteq> set (str_split c s)"
  "set (str_split c s) \<subseteq> insert [] (set (str_split c (strip_char c s)))"
  using segments_lstrip [of c s] segments_rstrip [of c "dropWhile (\<lambda>x. x = c) s"]
  by (auto simp: strip_char_def)

lemma str_split_append_gen: "str_split c (p @ c # s) = str_split c p @ str_split c s"
proof (induction p)
  case (Cons x p)
  then show ?case by (cases "str_split c p") (auto split: list.splits)
qed simp

lemma segments_join: "ps \<noteq> [] \<Longrightarrow> str_split c (str_join c ps) = concat (map (str_split c) ps)"
  by (induction c ps rule: str_join.induct) (auto simp: str_split_append_gen)

lemma good_empty: "\<not> bad_segment []"
  by (simp add: bad_segment_def)

lemma join_path_ok_iff:
  "(\<exists>p. join_path parts = Inr p) \<longleftrightarrow> (\<forall>part \<in> set parts. \<forall>seg \<in> set (str_split (CHR ''/'') part). \<not> bad_segment seg)"
proof -
  let ?s = "map (strip_char (CHR ''/'')) (filter (\<lambda>p. p \<noteq> []) parts)"
  have "(\<exists>seg \<in> set (str_split (CHR ''/'') (str_join (CHR ''/'') ?s)). bad_segment seg) \<longleftrightarrow>
      (\<exists>p \<in> set ?s. \<exists>seg \<in> set (str_split (CHR ''/'') p). bad_segment seg)"
    using good_empty by (cases "?s = []") (auto simp: segments_join)
  also have "\<dots> \<longleftrightarrow> (\<exists>part \<in> set parts. \<exists>seg \<in> set (str_split (CHR ''/'') part). bad_segment seg)"
  proof
    assume "\<exists>p \<in> set ?s. \<exists>seg \<in> set (str_split (CHR ''/'') p). bad_segment seg"
    then show "\<exists>part \<in> set parts. \<exists>seg \<in> set (str_split (CHR ''/'') part). bad_segment seg"
      using segments_strip(1) by fastforce
  next
    assume "\<exists>part \<in> set parts. \<exists>seg \<in> set (str_split (CHR ''/'') part). bad_segment seg"
    then obtain part seg where "part \<in> set parts" "seg \<in> set (str_split (CHR ''/'') part)" "bad_segment seg" by blast
    moreover from this have "part \<noteq> []" using good_empty by auto
    moreover have "seg \<in> set (str_split (CHR ''/'') (strip_char (CHR ''/'') part))"
      using calculation segments_strip(2) good_empty by blast
    ultimately show "\<exists>p \<in> set ?s. \<exists>seg \<in> set (str_split (CHR ''/'') p). bad_segment seg" by auto
  qed
  finally show ?thesis by (auto simp: join_path_def Let_def)
qed

lemma join_path_error: "join_path parts = Inl e \<Longrightarrow> e = NotFoundError"
  by (auto simp: join_path_def Let_def split: if_splits)

lemma join_path_segments: "join_path parts = Inr p \<Longrightarrow> seg \<in> set (str_split (CHR ''/'') p) \<Longrightarrow> \<not> bad_segment seg"
  by (auto simp: join_path_def Let_def split: if_splits)

lemma local_path_join:
  assumes "join_path parts = Inr p"
  shows "local_path p = (if is_absolute p then Inl NotFoundError else Inr (posix_parts p))"
  using join_path_segments [OF assms, of "''..''"]
  by (auto simp: local_path_def posix_parts_def bad_segment_def)

lemma local_path_parts:
  assumes "local_path p = Inr segs" and "seg \<in> set segs"
  shows "seg \<noteq> [] \<and> seg \<noteq> ''.'' \<and> seg \<noteq> ''..'' \<and> CHR ''/'' \<notin> set seg"
  using assms str_split_no_sep by (auto simp: local_path_def posix_parts_def split: if_splits)

text \<open>A part made of separators only is stripped to nothing but still joined.\<close>

lemma join_path_slash_part: "join_path [''/'', ''db''] = Inr ''/db''"
  by (simp add: join_path_def Let_def strip_char_def bad_segment_def)

subsection \<open>Properties\<close>

text \<open>C30. Paths cannot escape the store root. \<open>join_path\<close> accepts exactly the parts none of
  whose \<open>/\<close>-separated segments is \<open>..\<close> or holds a backslash, and raises \<open>NotFoundError\<close> for
  all others; and whatever path string the local store resolves is a sequence of plain
  names: no \<open>..\<close>, no \<open>.\<close>, no empty name, no separator inside a name.\<close>

theorem paths_confined:
  "((\<exists>p. join_path parts = Inr p) \<longleftrightarrow>
      (\<forall>part \<in> set parts. \<forall>seg \<in> set (str_split (CHR ''/'') part). seg \<noteq> ''..'' \<and> CHR 0x5C \<notin> set seg)) \<and>
   (\<forall>e. join_path parts = Inl e \<longrightarrow> e = NotFoundError) \<and>
   (\<forall>p segs. local_path p = Inr segs \<longrightarrow>
      (\<forall>seg \<in> set segs. seg \<noteq> [] \<and> seg \<noteq> ''.'' \<and> seg \<noteq> ''..'' \<and> CHR ''/'' \<notin> set seg))"
  using join_path_ok_iff [of parts] join_path_error local_path_parts
  by (auto simp: bad_segment_def)

lemma paths_confined_witness:
  "join_path [''repo'', ''db/file_map''] = Inr ''repo/db/file_map'' \<and>
   join_path [''repo'', ''../etc''] = Inl NotFoundError \<and> local_path ''repo/../etc'' = Inl NotFoundError"
proof -
  have "\<exists>p. join_path [''repo'', ''db/file_map''] = Inr p"
    using paths_confined [of "[''repo'', ''db/file_map'']"] by simp
  then show ?thesis
    by (simp add: join_path_def Let_def strip_char_def bad_segment_def local_path_def posix_parts_def is_absolute_def)
qed

text \<open>C29. The local store honours the read contract whatever the operating system returns: for
  every pattern of short positional reads, reading \<open>n\<close> bytes at an offset of a regular file
  yields exactly the file's bytes in that range (fewer only at its end), reading without a
  length yields the rest of the file, and a path that names no file never yields bytes.\<close>

theorem local_read_exact:
  "(\<forall>bs. local_content fs p = Some bs \<longrightarrow>
      local_read cap fs p off (Some n) = Inr (pslice off (off + n) bs) \<and>
      local_read cap fs p off None = Inr (drop off bs)) \<and>
   (\<forall>xs len. local_content fs p = None \<and> local_read cap fs p off len = Inr xs \<longrightarrow> xs = [])"
  using local_fs.read_content [of fs p _ cap off] local_fs.read_absent [of fs p cap off] by auto

lemma local_read_exact_witness:
  "local_read (\<lambda>n off. 0) (\<lambda>segs. if segs = [''a''] then RegularFile [1, 2, 3, 4] else NoSuchPath) ''a'' 1 (Some 2) = Inr [2, 3]"
  using local_read_exact [of "\<lambda>segs. if segs = [''a''] then RegularFile [1, 2, 3, 4] else NoSuchPath" "''a''" "\<lambda>n off. 0" 1 2]
  by (simp add: local_content_def local_path_def posix_parts_def is_absolute_def pslice_def)

end
