(* ===== verification/Listing.thy ===== *)
theory Listing
  imports Store "HOL-Library.Multiset"
begin

text \<open>
  \<open>sdk/storage/dircache.py\<close> and \<open>sdk/storage/seqid.py\<close>: sequence-id suffixes, the grouped
  directory listing, and the choice of the physical file with the largest sequence id. A
  repository does not change while it is open, so a cached listing is the listing: the
  cache's own behaviour (\<open>asynccache.py\<close>) is a separate theory.
\<close>

text \<open>
  The match of \<open>^(?P<base>.+)\.(?P<seq>[0-9]+)$\<close>: \<open>.\<close> matches no newline and \<open>$\<close> also matches
  before a final newline. The digits hold no dot, so the greedy base ends at the last dot.
\<close>

definition seq_suffix_match :: "string \<Rightarrow> (string \<times> string) option" where
  "seq_suffix_match name =
     (let s = (if name \<noteq> [] \<and> last name = CHR 0x0A then butlast name else name);
          (base, seq) = str_rpartition (CHR ''.'') s
      in if CHR ''.'' \<in> set s \<and> base \<noteq> [] \<and> CHR 0x0A \<notin> set base \<and> is_ascii_digits seq
         then Some (base, seq) else None)"

definition split_seq_suffix :: "string \<Rightarrow> (string \<times> nat option) res" where
  "split_seq_suffix name =
     (case seq_suffix_match name of
        None \<Rightarrow> Inr (name, None)
      | Some (base, seq) \<Rightarrow> bind_res (py_int seq) (\<lambda>n. Inr (base, Some n)))"

text \<open>A dict from names to lists, in insertion order, and \<open>d.setdefault(k, []).append(v)\<close>.\<close>

type_synonym dir_index = "(string \<times> string list) list"

fun index_append :: "string \<Rightarrow> string \<Rightarrow> dir_index \<Rightarrow> dir_index" where
  "index_append k v [] = [(k, [v])]"
| "index_append k v ((k', vs) # d) = (if k' = k then (k', vs @ [v]) # d else (k', vs) # index_append k v d)"

record listing =
  grouped :: dir_index
  sizes :: "(string \<times> nat) list"

definition listing_step :: "entry \<Rightarrow> listing \<Rightarrow> listing res" where
  "listing_step e l =
     bind_res (split_seq_suffix (e_name e)) (\<lambda>(base, _).
       Inr \<lparr>grouped = index_append base (e_name e) (grouped l),
            sizes = (case e_size e of None \<Rightarrow> sizes l | Some n \<Rightarrow> (e_name e, n) # sizes l)\<rparr>)"

text \<open>\<open>DirCache._build_listing\<close>; a later entry of the same name overwrites its size.\<close>

definition build_listing :: "store \<Rightarrow> string \<Rightarrow> listing res" where
  "build_listing st dir_path =
     bind_res (st_listdir st dir_path) (\<lambda>es. fold_res listing_step es \<lparr>grouped = [], sizes = []\<rparr>)"

definition dir_grouped :: "store \<Rightarrow> string \<Rightarrow> dir_index res" where
  "dir_grouped st dir_path = bind_res (build_listing st dir_path) (\<lambda>l. Inr (grouped l))"

definition dir_listdir :: "store \<Rightarrow> string \<Rightarrow> string list res" where
  "dir_listdir st dir_path = bind_res (dir_grouped st dir_path) (\<lambda>index. Inr (sort (concat (map snd index))))"

definition dir_entry_sizes :: "store \<Rightarrow> string \<Rightarrow> (string \<times> nat option) list res" where
  "dir_entry_sizes st dir_path =
     bind_res (build_listing st dir_path) (\<lambda>l.
       Inr (map (\<lambda>name. (name, map_of (sizes l) name)) (concat (map snd (grouped l)))))"

definition dir_size_of :: "store \<Rightarrow> string \<Rightarrow> string \<Rightarrow> nat option res" where
  "dir_size_of st dir_path name = bind_res (build_listing st dir_path) (\<lambda>l. Inr (map_of (sizes l) name))"

definition seq_key :: "string \<Rightarrow> int res" where
  "seq_key name =
     bind_res (split_seq_suffix name) (\<lambda>(_, seq). Inr (case seq of None \<Rightarrow> -1 | Some n \<Rightarrow> int n))"

text \<open>\<open>max(candidates, key=...)\<close>: the first of the largest.\<close>

fun max_keyed :: "('a \<times> int) \<Rightarrow> ('a \<times> int) list \<Rightarrow> 'a \<times> int" where
  "max_keyed best [] = best"
| "max_keyed best (x # xs) = max_keyed (if snd best < snd x then x else best) xs"

definition resolve_seq_file :: "dir_index \<Rightarrow> string \<Rightarrow> string res" where
  "resolve_seq_file index logical_name =
     (case map_of index logical_name of
        None \<Rightarrow> Inl NotFoundError
      | Some [] \<Rightarrow> Inl NotFoundError
      | Some (c # cs) \<Rightarrow>
          bind_res (map_res (\<lambda>n. bind_res (seq_key n) (\<lambda>k. Inr (n, k))) (c # cs))
            (\<lambda>keyed. Inr (fst (max_keyed (hd keyed) (tl keyed)))))"

definition resolve_seq_path :: "store \<Rightarrow> string \<Rightarrow> string \<Rightarrow> string res" where
  "resolve_seq_path st dir_path logical_name =
     bind_res (dir_grouped st dir_path) (\<lambda>index.
     bind_res (join_path [dir_path, logical_name]) (\<lambda>_.
     bind_res (resolve_seq_file index logical_name) (\<lambda>physical.
       join_path [dir_path, physical])))"

definition resolve_seq_size :: "store \<Rightarrow> string \<Rightarrow> string \<Rightarrow> nat option res" where
  "resolve_seq_size st dir_path logical_name =
     bind_res (dir_grouped st dir_path) (\<lambda>index.
     bind_res (join_path [dir_path, logical_name]) (\<lambda>_.
     bind_res (resolve_seq_file index logical_name) (\<lambda>physical.
       dir_size_of st dir_path physical)))"

subsection \<open>Suffixes\<close>

lemma seq_suffix_match_dec:
  assumes "base \<noteq> []" and "CHR 0x0A \<notin> set base"
  shows "seq_suffix_match (base @ ''.'' @ dec_str n) = Some (base, dec_str n)"
proof -
  let ?s = "base @ ''.'' @ dec_str n"
  have nl: "CHR 0x0A \<notin> set (dec_str n)" by (rule not_digit_in_dec_str) (simp add: is_digit_def)
  have "last ?s = last (dec_str n)" by simp
  then have l: "last ?s \<noteq> CHR 0x0A" using nl by (metis last_in_set dec_str_ne)
  have "str_split (CHR ''.'') ?s = str_split (CHR ''.'') base @ [dec_str n]"
    using str_split_append_gen [of "CHR ''.''" base "dec_str n"] by (simp add: str_split_plain)
  then have "str_rpartition (CHR ''.'') ?s = (base, dec_str n)"
    by (simp add: str_rpartition_def)
  with assms l show ?thesis by (simp add: seq_suffix_match_def Let_def)
qed

lemma split_seq_suffix_dec:
  assumes "base \<noteq> []" and "CHR 0x0A \<notin> set base" and "length (dec_str n) \<le> max_str_digits"
  shows "split_seq_suffix (base @ ''.'' @ dec_str n) = Inr (base, Some n)"
  using seq_suffix_match_dec [OF assms(1,2), of n] assms(3) by (simp add: split_seq_suffix_def py_int_def)

subsection \<open>The grouped index\<close>

lemma index_append_get:
  "map_of (index_append k v d) j =
     (if j = k then Some ((case map_of d k of None \<Rightarrow> [] | Some vs \<Rightarrow> vs) @ [v]) else map_of d j)"
  by (induction d) auto

lemma index_append_keys: "set (map fst (index_append k v d)) = insert k (set (map fst d))"
  by (induction k v d rule: index_append.induct) auto

lemma index_append_distinct: "distinct (map fst d) \<Longrightarrow> distinct (map fst (index_append k v d))"
proof (induction d)
  case (Cons p d)
  then show ?case using index_append_keys [of k v d] by (cases p) auto
qed simp

lemma index_append_mset: "mset (concat (map snd (index_append k v d))) = mset (concat (map snd d)) + {#v#}"
  by (induction d) auto

definition group_of :: "dir_index \<Rightarrow> string \<Rightarrow> string list" where
  "group_of d b = (case map_of d b of None \<Rightarrow> [] | Some vs \<Rightarrow> vs)"

text \<open>The logical name an entry is listed under.\<close>

definition logical_of :: "string \<Rightarrow> string" where
  "logical_of name = (case split_seq_suffix name of Inr (base, _) \<Rightarrow> base | Inl _ \<Rightarrow> [])"

lemma group_of_append: "group_of (index_append k v d) j = group_of d j @ (if j = k then [v] else [])"
  by (simp add: group_of_def index_append_get)

lemma listing_fold:
  assumes "fold_res listing_step es l = Inr l'"
  shows "group_of (grouped l') b = group_of (grouped l) b @ filter (\<lambda>n. logical_of n = b) (map e_name es)"
    and "mset (concat (map snd (grouped l'))) = mset (concat (map snd (grouped l))) + mset (map e_name es)"
    and "\<forall>e \<in> set es. \<exists>r. split_seq_suffix (e_name e) = Inr r"
  using assms
proof (induction es arbitrary: l)
  case Nil
  { case 1 then show ?case by simp
  next case 2 then show ?case by simp
  next case 3 then show ?case by simp }
next
  case (Cons e es)
  have step: "\<exists>base seq l1. split_seq_suffix (e_name e) = Inr (base, seq) \<and> fold_res listing_step es l1 = Inr l' \<and>
      grouped l1 = index_append base (e_name e) (grouped l)"
    if "fold_res listing_step (e # es) l = Inr l'" for l
    using that by (auto simp: listing_step_def res_simps) (metis listing.select_convs(1))
  { case 1
    from step [OF 1] Cons.IH(1) show ?case by (auto simp: group_of_append logical_of_def)
  next case 2
    from step [OF 2] Cons.IH(2) show ?case by (auto simp: index_append_mset simp del: mset_concat)
  next case 3
    from step [OF 3] Cons.IH(3) show ?case by auto }
qed

lemma dir_grouped_spec:
  assumes "dir_grouped st dir = Inr index"
  shows "\<exists>es. st_listdir st dir = Inr es \<and> (\<forall>b. group_of index b = filter (\<lambda>n. logical_of n = b) (map e_name es)) \<and>
    mset (concat (map snd index)) = mset (map e_name es) \<and>
    (\<forall>e \<in> set es. \<exists>r. split_seq_suffix (e_name e) = Inr r)"
proof -
  from assms obtain es l where l: "st_listdir st dir = Inr es" "index = grouped l"
    "fold_res listing_step es \<lparr>grouped = [], sizes = []\<rparr> = Inr l"
    by (auto simp: dir_grouped_def build_listing_def res_simps)
  from listing_fold [OF l(3)] l(1,2) show ?thesis by (auto simp: group_of_def)
qed

lemma dir_listdir_sorted:
  assumes "dir_listdir st dir = Inr names"
  shows "\<exists>es. st_listdir st dir = Inr es \<and> names = sort (map e_name es)"
proof -
  from assms obtain index where i: "dir_grouped st dir = Inr index" "names = sort (concat (map snd index))"
    by (auto simp: dir_listdir_def res_simps)
  from dir_grouped_spec [OF i(1)] obtain es where "st_listdir st dir = Inr es"
    "mset (concat (map snd index)) = mset (map e_name es)" by blast
  then show ?thesis unfolding i(2) by (metis sorted_list_of_multiset_mset)
qed

subsection \<open>The largest sequence id\<close>

lemma max_keyed_props:
  "max_keyed b xs \<in> insert b (set xs) \<and> snd b \<le> snd (max_keyed b xs) \<and> (\<forall>x \<in> set xs. snd x \<le> snd (max_keyed b xs))"
proof (induction xs arbitrary: b)
  case (Cons x xs)
  from Cons [of "if snd b < snd x then x else b"] show ?case by (auto split: if_splits)
qed simp

lemma map_res_InrD:
  assumes "map_res f xs = Inr ys"
  shows "\<forall>y \<in> set ys. \<exists>x \<in> set xs. f x = Inr y" and "\<forall>x \<in> set xs. \<exists>y \<in> set ys. f x = Inr y"
  using assms by (induction xs arbitrary: ys; fastforce simp: res_simps)+

lemma resolve_seq_file_max:
  assumes "resolve_seq_file index name = Inr physical"
  shows "physical \<in> set (group_of index name)"
    and "\<exists>k. seq_key physical = Inr k \<and> (\<forall>n \<in> set (group_of index name). \<exists>j. seq_key n = Inr j \<and> j \<le> k)"
proof -
  from assms obtain c cs keyed where cs: "map_of index name = Some (c # cs)"
    "map_res (\<lambda>n. bind_res (seq_key n) (\<lambda>k. Inr (n, k))) (c # cs) = Inr keyed"
    "physical = fst (max_keyed (hd keyed) (tl keyed))"
    by (auto simp: resolve_seq_file_def res_simps split: option.splits list.splits)
  have pair: "bind_res (seq_key x) (\<lambda>k. Inr (x, k)) = Inr y \<longleftrightarrow> seq_key x = Inr (snd y) \<and> fst y = x" for x y
    by (cases "seq_key x"; cases y) auto
  note kd = map_res_InrD [OF cs(2), unfolded pair]
  have mem: "\<forall>q \<in> set keyed. fst q \<in> set (c # cs) \<and> seq_key (fst q) = Inr (snd q)" using kd(1) by blast
  have all: "\<forall>n \<in> set (c # cs). \<exists>q \<in> set keyed. fst q = n" using kd(2) by blast
  obtain p ps where keyed: "keyed = p # ps" using all by (cases keyed) auto
  have g: "group_of index name = c # cs" using cs(1) by (simp add: group_of_def)
  let ?m = "max_keyed p ps"
  have m: "?m \<in> set keyed" "\<forall>q \<in> set keyed. snd q \<le> snd ?m"
    using max_keyed_props [of p ps] keyed by auto
  have ph: "physical = fst ?m" using cs(3) keyed by simp
  show "physical \<in> set (group_of index name)" unfolding g ph using mem m(1) by blast
  show "\<exists>k. seq_key physical = Inr k \<and> (\<forall>n \<in> set (group_of index name). \<exists>j. seq_key n = Inr j \<and> j \<le> k)"
    unfolding g ph using mem m all by metis
qed

lemma resolve_seq_file_none:
  "group_of index name = [] \<Longrightarrow> resolve_seq_file index name = Inl NotFoundError"
  by (auto simp: resolve_seq_file_def group_of_def split: option.splits list.splits)

subsection \<open>Properties\<close>

text \<open>C28. Sequence-id resolution picks the newest copy: the path returned is the directory
  joined with a listed name whose logical name is the one asked for, and no listed name of
  that logical name has a larger sequence id (a bare name counts as \<open>-1\<close>, so it is chosen only
  when there is no suffixed one). When the listing has no such name the call raises
  \<open>NotFoundError\<close>.\<close>

theorem seq_path_newest:
  assumes "st_listdir st dir = Inr es" and "\<forall>e \<in> set es. \<exists>r. split_seq_suffix (e_name e) = Inr r"
  shows "(\<forall>p. resolve_seq_path st dir leaf = Inr p \<longrightarrow>
      (\<exists>e \<in> set es. \<exists>k. join_path [dir, e_name e] = Inr p \<and> logical_of (e_name e) = leaf \<and> seq_key (e_name e) = Inr k \<and>
         (\<forall>e' \<in> set es. logical_of (e_name e') = leaf \<longrightarrow> (\<exists>j. seq_key (e_name e') = Inr j \<and> j \<le> k)))) \<and>
    ((\<forall>e \<in> set es. logical_of (e_name e) \<noteq> leaf) \<longrightarrow> resolve_seq_path st dir leaf = Inl NotFoundError)"
proof -
  have ok: "\<exists>l. fold_res listing_step es l0 = Inr l" for l0
    using assms(2)
  proof (induction es arbitrary: l0)
    case (Cons e es)
    then obtain base seq where "split_seq_suffix (e_name e) = Inr (base, seq)" by fastforce
    then show ?case using Cons by (simp add: listing_step_def)
  qed simp
  obtain l where "fold_res listing_step es \<lparr>grouped = [], sizes = []\<rparr> = Inr l" using ok by blast
  then have i: "dir_grouped st dir = Inr (grouped l)"
    using assms(1) by (simp add: dir_grouped_def build_listing_def)
  let ?index = "grouped l"
  from dir_grouped_spec [OF i] assms(1) have g: "\<And>b. group_of ?index b = filter (\<lambda>n. logical_of n = b) (map e_name es)" by auto
  have "\<exists>e \<in> set es. \<exists>k. join_path [dir, e_name e] = Inr p \<and> logical_of (e_name e) = leaf \<and> seq_key (e_name e) = Inr k \<and>
         (\<forall>e' \<in> set es. logical_of (e_name e') = leaf \<longrightarrow> (\<exists>j. seq_key (e_name e') = Inr j \<and> j \<le> k))"
    if p: "resolve_seq_path st dir leaf = Inr p" for p
  proof -
    obtain physical where ph: "resolve_seq_file ?index leaf = Inr physical" "join_path [dir, physical] = Inr p"
      using p i by (auto simp: resolve_seq_path_def res_simps)
    from resolve_seq_file_max [OF ph(1)] g ph(2) show ?thesis by auto
  qed
  moreover have "resolve_seq_path st dir leaf = Inl NotFoundError" if "\<forall>e \<in> set es. logical_of (e_name e) \<noteq> leaf"
  proof -
    have "group_of ?index leaf = []" using that g by (auto simp: filter_empty_conv)
    then have "resolve_seq_file ?index leaf = Inl NotFoundError" by (rule resolve_seq_file_none)
    then show ?thesis
      using i join_path_error [of "[dir, leaf]"] by (cases "join_path [dir, leaf]") (auto simp: resolve_seq_path_def)
  qed
  ultimately show ?thesis by blast
qed

lemma seq_path_newest_witness:
  "seq_key ''t.2'' = Inr 2 \<and>
   resolve_seq_path \<lparr>st_read = (\<lambda>p off n. Inr []), st_size = (\<lambda>p. Inr 0), st_exists = (\<lambda>p. Inr True),
     st_listdir = (\<lambda>p. Inr [\<lparr>e_name = ''t'', e_size = None\<rparr>, \<lparr>e_name = ''t.2'', e_size = None\<rparr>])\<rparr> ''d'' ''t'' = Inr ''d/t.2''"
proof -
  let ?es = "[\<lparr>e_name = ''t'', e_size = None\<rparr>, \<lparr>e_name = ''t.2'', e_size = None\<rparr>]"
  let ?st = "\<lparr>st_read = (\<lambda>p off n. Inr []), st_size = (\<lambda>p. Inr 0), st_exists = (\<lambda>p. Inr True), st_listdir = (\<lambda>p. Inr ?es)\<rparr>"
  have s: "split_seq_suffix ''t'' = Inr (''t'', None)" "split_seq_suffix ''t.2'' = Inr (''t'', Some 2)"
    by (simp_all add: split_seq_suffix_def seq_suffix_match_def str_rpartition_def Let_def is_ascii_digits_def py_int_def
        max_str_digits_def dec_val_def is_digit_def digit_val_def numeral_eq_Suc)
  have r: "resolve_seq_path ?st ''d'' ''t'' = Inr ''d/t.2''"
    by (simp add: resolve_seq_path_def dir_grouped_def build_listing_def listing_step_def s resolve_seq_file_def seq_key_def
        join_path_def Let_def strip_char_def bad_segment_def)
  have "\<exists>k. seq_key ''t.2'' = Inr k"
    using seq_path_newest [of ?st "''d''" ?es "''t''", THEN conjunct1] r s
    by (auto simp: join_path_def Let_def strip_char_def bad_segment_def split: if_splits)
  then show ?thesis using r s by (simp add: seq_key_def)
qed

end
