(* ===== verification/RepoFiles.thy ===== *)
theory RepoFiles
  imports Headers Listing
begin

text \<open>
  JSON values and \<open>sdk/_util/jsonparse.py\<close>, the JSON-payload header of \<open>format/headers.py\<close>,
  \<open>format/repo_info.py\<close>, \<open>format/repo_transaction.py\<close>, and the choice of a database
  generation in \<open>storage/generations.py\<close>. The decoder \<open>json.loads\<close> is the argument \<open>loads\<close>:
  \<open>None\<close> stands for the errors the code translates.
\<close>

subsection \<open>JSON\<close>

datatype json =
    JNull
  | JBool bool
  | JInt int
  | JFloat string
  | JStr string
  | JArr "json list"
  | JObj "(string \<times> json) list"

type_synonym json_decoder = "bytes \<Rightarrow> json option"

definition json_get :: "(string \<times> json) list \<Rightarrow> string \<Rightarrow> json" where
  "json_get d k = (case map_of d k of None \<Rightarrow> JNull | Some v \<Rightarrow> v)"

definition json_parse :: "json_decoder \<Rightarrow> bytes \<Rightarrow> json res" where
  "json_parse loads raw = (case loads raw of None \<Rightarrow> Inl DataCorruptError | Some v \<Rightarrow> Inr v)"

definition parse_json_object :: "json_decoder \<Rightarrow> bytes \<Rightarrow> (string \<times> json) list res" where
  "parse_json_object loads raw =
     bind_res (json_parse loads raw) (\<lambda>v. case v of JObj d \<Rightarrow> Inr d | _ \<Rightarrow> Inl DataCorruptError)"

definition parse_json_array :: "json_decoder \<Rightarrow> bytes \<Rightarrow> json list res" where
  "parse_json_array loads raw =
     bind_res (json_parse loads raw) (\<lambda>v. case v of JArr xs \<Rightarrow> Inr xs | _ \<Rightarrow> Inl DataCorruptError)"

definition json_int :: "json \<Rightarrow> int option" where
  "json_int v = (case v of JInt i \<Rightarrow> Some i | _ \<Rightarrow> None)"

definition json_object :: "json \<Rightarrow> (string \<times> json) list" where
  "json_object v = (case v of JObj d \<Rightarrow> d | _ \<Rightarrow> [])"

definition json_bool :: "json \<Rightarrow> bool option" where
  "json_bool v = (case v of JBool b \<Rightarrow> Some b | _ \<Rightarrow> None)"

definition try_parse_json_object :: "json_decoder \<Rightarrow> bytes \<Rightarrow> (string \<times> json) list option" where
  "try_parse_json_object loads raw =
     (if raw = [] then None else case loads raw of Some (JObj d) \<Rightarrow> Some d | _ \<Rightarrow> None)"

definition try_parse_json_array :: "json_decoder \<Rightarrow> bytes \<Rightarrow> json list option" where
  "try_parse_json_array loads raw =
     (if raw = [] then None else case loads raw of Some (JArr xs) \<Rightarrow> Some xs | _ \<Rightarrow> None)"

subsection \<open>The JSON-payload header\<close>

definition OFF_JSON_CRC :: nat where [const_defs]: "OFF_JSON_CRC = 8"
definition OFF_DATA_SIZE :: nat where [const_defs]: "OFF_DATA_SIZE = 12"

definition parse_json_payload_header ::
    "json_decoder \<Rightarrow> bytes \<Rightarrow> bytes \<Rightarrow> (index_header \<times> (string \<times> json) list) res" where
  "parse_json_payload_header loads data expect_magic =
     bind_res (parse_index_header data expect_magic None) (\<lambda>header.
       let json_crc = be_field OFF_JSON_CRC 4 data;
           data_size = be_field OFF_DATA_SIZE 8 data;
           payload = pslice HEADER_LEN (HEADER_LEN + data_size) data
       in if length payload \<noteq> data_size then Inl FormatError
          else bind_res (verify_crc32 payload json_crc) (\<lambda>_.
               bind_res (parse_json_object loads payload) (\<lambda>d. Inr (header, d))))"

subsection \<open>\<open>repo_info\<close>\<close>

definition OFF_REPO_UUID :: nat where [const_defs]: "OFF_REPO_UUID = 20"
definition REPO_UUID_LEN :: nat where [const_defs]: "REPO_UUID_LEN = 16"

text \<open>\<open>bytes.isascii\<close>, \<open>bytes.decode("ascii")\<close> and \<open>bytes.hex()\<close>.\<close>

definition bytes_isascii :: "bytes \<Rightarrow> bool" where
  "bytes_isascii bs \<longleftrightarrow> (\<forall>b \<in> set bs. unat b < 128)"

definition bytes_text :: "bytes \<Rightarrow> string" where
  "bytes_text bs = map (\<lambda>b. char_of (unat b)) bs"

definition hex_digit :: "nat \<Rightarrow> char" where
  "hex_digit d = (if d < 10 then char_of (48 + d) else char_of (87 + d))"

definition bytes_hex :: "bytes \<Rightarrow> string" where
  "bytes_hex bs = concat (map (\<lambda>b. [hex_digit (unat b div 16), hex_digit (unat b mod 16)]) bs)"

record repo_info =
  ri_uuid :: string
  ri_major :: nat
  ri_minor :: nat
  ri_repo_type :: "int option"
  ri_repo_flag :: "int option"
  ri_is_global_dedup_supported :: "bool option"
  ri_is_worm_supported :: "bool option"
  ri_compress_algorithm :: "int option"
  ri_encrypt_algorithm :: "int option"
  ri_raw :: "(string \<times> json) list"

definition parse_repo_info :: "json_decoder \<Rightarrow> bytes \<Rightarrow> repo_info res" where
  "parse_repo_info loads data =
     bind_res (parse_json_payload_header loads data MAGIC_repo_info) (\<lambda>(header, raw).
       let raw_uuid = pslice OFF_REPO_UUID (OFF_REPO_UUID + REPO_UUID_LEN) data;
           uuid = (if bytes_isascii raw_uuid then bytes_text raw_uuid else bytes_hex raw_uuid);
           storage_algorithm = (case json_get raw ''storage_algorithm'' of JObj d \<Rightarrow> d | _ \<Rightarrow> [])
       in Inr \<lparr>ri_uuid = uuid, ri_major = ih_major header, ri_minor = ih_minor header,
               ri_repo_type = json_int (json_get raw ''repo_type''),
               ri_repo_flag = json_int (json_get raw ''repo_flag''),
               ri_is_global_dedup_supported = json_bool (json_get raw ''is_global_dedup_supported''),
               ri_is_worm_supported = json_bool (json_get raw ''is_worm_supported''),
               ri_compress_algorithm = json_int (json_get storage_algorithm ''compress_algorithm''),
               ri_encrypt_algorithm = json_int (json_get storage_algorithm ''encrypt_algorithm''),
               ri_raw = raw\<rparr>)"

subsection \<open>\<open>repo_transaction\<close>\<close>

record repo_transaction =
  rt_transaction_id :: int
  rt_session_id :: "int option"
  rt_compact_id :: "int option"
  rt_raw :: "(string \<times> json) list"

definition id_field :: "json \<Rightarrow> int option" where
  "id_field value =
     (case value of
        JStr s \<Rightarrow> if is_ascii_digits s
                  then (case py_int s of Inr n \<Rightarrow> Some (int n) | Inl _ \<Rightarrow> None)
                  else json_int value
      | _ \<Rightarrow> json_int value)"

definition parse_repo_transaction :: "json_decoder \<Rightarrow> bytes \<Rightarrow> repo_transaction res" where
  "parse_repo_transaction loads data =
     bind_res (parse_json_payload_header loads data MAGIC_repo_transaction) (\<lambda>(_, raw).
       case id_field (json_get raw ''transaction_id'') of
         None \<Rightarrow> Inl DataCorruptError
       | Some transaction_id \<Rightarrow>
           Inr \<lparr>rt_transaction_id = transaction_id, rt_session_id = id_field (json_get raw ''session_id''),
                rt_compact_id = id_field (json_get raw ''compact_id''), rt_raw = raw\<rparr>)"

subsection \<open>Generations\<close>

definition SUPPLEMENTAL_TABLES :: "string list" where
  "SUPPLEMENTAL_TABLES =
     [''agent_connection'', ''connection_config'', ''copy_file'', ''copy_source_version'', ''copy_target_version'',
      ''copy_target_version_meta'', ''copy_target_file'', ''file_meta'', ''workload_config'']"

definition physical_name_alias :: "string \<Rightarrow> string" where
  "physical_name_alias name =
     (case map_of [(''copy_target_file'', ''copy_target_version'')] name of None \<Rightarrow> name | Some n \<Rightarrow> n)"

definition numeric_suffixes :: "string list \<Rightarrow> string \<Rightarrow> nat list res" where
  "numeric_suffixes names base =
     (let pre = base @ ''.'' in
      map_res (\<lambda>name. py_int (drop (length pre) name))
        (filter (\<lambda>name. take (length pre) name = pre \<and> is_ascii_digits (drop (length pre) name)) names))"

definition latest_transaction_id ::
    "json_decoder \<Rightarrow> store \<Rightarrow> string \<Rightarrow> (string \<Rightarrow> string list res) \<Rightarrow> int res" where
  "latest_transaction_id loads st transactions_dir listdir =
     bind_res (listdir transactions_dir) (\<lambda>names.
     bind_res (numeric_suffixes names ''repo_transaction'') (\<lambda>suffixes.
       if suffixes = [] then Inl NotFoundError
       else bind_res (join_path [transactions_dir, ''repo_transaction.'' @ dec_str (Max (set suffixes))]) (\<lambda>path.
            bind_res (st_read st path 0 None) (\<lambda>data.
            bind_res (parse_repo_transaction loads data) (\<lambda>txn. Inr (rt_transaction_id txn))))))"

definition resolve_generation ::
    "json_decoder \<Rightarrow> store \<Rightarrow> string \<Rightarrow> string \<Rightarrow> string \<Rightarrow> string \<Rightarrow> (string \<Rightarrow> string list res) \<Rightarrow> string res" where
  "resolve_generation loads st db_dir name transactions_dir suppl_dir listdir =
     bind_res (listdir db_dir) (\<lambda>entries.
     bind_res (numeric_suffixes entries name) (\<lambda>suffixes.
       if suffixes = [] then join_path [db_dir, name]
       else bind_res
         (if name \<in> set SUPPLEMENTAL_TABLES then
            bind_res (listdir suppl_dir) (\<lambda>markers.
            bind_res (map_res py_int (filter is_ascii_digits markers)) (\<lambda>suppl_ids.
              let valid = filter (\<lambda>s. s \<in> set suppl_ids) suffixes in
              if valid = [] then Inl NotFoundError else Inr (Max (set valid))))
          else
            bind_res (latest_transaction_id loads st transactions_dir listdir) (\<lambda>latest_txn.
              let valid = filter (\<lambda>s. int s < latest_txn) suffixes in
              if valid = [] then Inl NotFoundError else Inr (Max (set valid))))
         (\<lambda>chosen. join_path [db_dir, name @ ''.'' @ dec_str chosen])))"

subsection \<open>Lemmas\<close>

lemma length_bytes_hex [simp]: "length (bytes_hex bs) = 2 * length bs"
  by (induction bs) (auto simp: bytes_hex_def)

lemma char_of_eq_iff_mod: "(char_of (m :: nat) :: char) = char_of n \<longleftrightarrow> m mod 256 = n mod 256"
proof
  assume "(char_of m :: char) = char_of n"
  then have "(of_char (char_of m :: char) :: nat) = of_char (char_of n :: char)" by (rule arg_cong)
  then show "m mod 256 = n mod 256" by (simp only: of_char_of)
next
  assume "m mod 256 = n mod 256"
  then show "(char_of m :: char) = char_of n" by (metis char_of_mod_256)
qed

lemma byte_char_inject: "(char_of (unat a) :: char) = char_of (unat b) \<longleftrightarrow> a = b" for a b :: byte
proof -
  have "(char_of (unat a) :: char) = char_of (unat b) \<longleftrightarrow> unat a mod 256 = unat b mod 256"
    by (rule char_of_eq_iff_mod)
  also have "\<dots> \<longleftrightarrow> a = b"
    using byte_less [of a] byte_less [of b] by (simp add: word_unat_eq_iff)
  finally show ?thesis .
qed

lemma bytes_text_inject: "bytes_text as = bytes_text bs \<longleftrightarrow> as = bs"
  unfolding bytes_text_def by (rule inj_map_eq_map) (simp add: inj_on_def word_unat_eq_iff)

lemma hex_digit_inject: "d < 16 \<Longrightarrow> e < 16 \<Longrightarrow> hex_digit d = hex_digit e \<Longrightarrow> d = e"
proof -
  assume d: "d < 16" and e: "e < 16" and eq: "hex_digit d = hex_digit e"
  have v: "(of_char (hex_digit k) :: nat) = (if k < 10 then 48 + k else 87 + k)" if "k < 16" for k
    using that by (auto simp: hex_digit_def)
  have "(of_char (hex_digit d) :: nat) = of_char (hex_digit e)" using eq by simp
  then show "d = e" using v [OF d] v [OF e] d e by (auto split: if_splits)
qed

lemma bytes_hex_inject: "bytes_hex as = bytes_hex bs \<Longrightarrow> as = bs"
proof (induction as arbitrary: bs)
  case Nil
  then have "length (bytes_hex bs) = 0" by (simp add: bytes_hex_def)
  then show ?case by simp
next
  case (Cons a as)
  then have "length (bytes_hex bs) = 2 * Suc (length as)" by (metis length_bytes_hex length_Cons)
  then obtain b bs' where bs: "bs = b # bs'" by (cases bs) auto
  with Cons.prems have h: "hex_digit (unat a div 16) = hex_digit (unat b div 16)"
    "hex_digit (unat a mod 16) = hex_digit (unat b mod 16)" "bytes_hex as = bytes_hex bs'"
    by (auto simp: bytes_hex_def)
  have "unat a div 16 < 16" "unat b div 16 < 16"
    using byte_less [of a] byte_less [of b] by (simp_all add: less_mult_imp_div_less)
  then have "unat a div 16 = unat b div 16" "unat a mod 16 = unat b mod 16"
    using h(1,2) by (auto intro: hex_digit_inject)
  then have "unat a = unat b" by (metis div_mult_mod_eq)
  then have "a = b" by (simp add: word_unat_eq_iff)
  with Cons.IH [OF h(3)] bs show ?case by simp
qed

lemma parse_json_object_Inr: "parse_json_object loads raw = Inr d \<longleftrightarrow> loads raw = Some (JObj d)"
  by (cases "loads raw") (simp_all add: parse_json_object_def json_parse_def split: json.split)

lemma parse_json_object_Inl: "parse_json_object loads raw = Inl e \<Longrightarrow> e = DataCorruptError"
  by (cases "loads raw") (simp_all add: parse_json_object_def json_parse_def split: json.splits)

lemma parse_json_payload_InrD:
  assumes "parse_json_payload_header loads data m = Inr (h, d)"
  shows "parse_index_header data m None = Inr h" "64 + be_field 12 8 data \<le> length data"
    "compute_crc32 (pslice 64 (64 + be_field 12 8 data) data) = be_field 8 4 data"
    "loads (pslice 64 (64 + be_field 12 8 data) data) = Some (JObj d)"
proof -
  obtain hh where hh: "parse_index_header data m None = Inr hh"
    using assms by (cases "parse_index_header data m None") (simp_all add: parse_json_payload_header_def)
  let ?p = "pslice 64 (64 + be_field 12 8 data) data"
  have len: "length ?p = be_field 12 8 data"
    using assms hh by (auto simp: parse_json_payload_header_def Let_def const_defs split: if_splits)
  have crc: "verify_crc32 ?p (be_field 8 4 data) = Inr ()"
    using assms hh len
    by (cases "verify_crc32 ?p (be_field 8 4 data)") (simp_all add: parse_json_payload_header_def Let_def const_defs)
  have r: "bind_res (parse_json_object loads ?p) (\<lambda>d. Inr (hh, d)) = Inr (h, d)"
    using assms hh len crc by (simp add: parse_json_payload_header_def Let_def const_defs)
  then have "hh = h" "parse_json_object loads ?p = Inr d"
    by (cases "parse_json_object loads ?p"; simp)+
  with hh show "parse_index_header data m None = Inr h" "loads ?p = Some (JObj d)"
    by (simp_all add: parse_json_object_Inr)
  show "compute_crc32 ?p = be_field 8 4 data"
    using crc by (simp add: verify_crc32_def split: if_splits)
  show "64 + be_field 12 8 data \<le> length data"
    using len parse_index_header_InrD(1) [OF hh] by (simp add: pslice_def const_defs split: if_splits)
qed

lemma parse_json_payload_errors:
  assumes "parse_json_payload_header loads data m = Inl e"
  shows "e \<in> {FormatError, DataCorruptError, UnsupportedVersionError}"
proof (cases "parse_index_header data m None")
  case (Inl e')
  then show ?thesis
    using assms parse_index_header_errors [of data m None e'] by (simp add: parse_json_payload_header_def)
next
  case (Inr hh)
  let ?p = "pslice HEADER_LEN (HEADER_LEN + be_field OFF_DATA_SIZE 8 data) data"
  show ?thesis
  proof (cases "length ?p = be_field OFF_DATA_SIZE 8 data")
    case False
    then show ?thesis
      using assms Inr by (simp add: parse_json_payload_header_def Let_def del: length_pslice)
  next
    case True
    then show ?thesis
      using assms Inr parse_json_object_Inl [of loads ?p]
      by (cases "verify_crc32 ?p (be_field OFF_JSON_CRC 4 data)"; cases "parse_json_object loads ?p")
        (auto simp: parse_json_payload_header_def Let_def verify_crc32_def split: if_splits)
  qed
qed

text \<open>
  The repository id read from a header determines the 16 raw bytes: an ASCII id is the text
  itself, anything else is written in hexadecimal, and the two forms have different lengths.
\<close>

lemma parse_repo_info_uuid:
  assumes "parse_repo_info loads data = Inr ri"
  shows "ri_uuid ri = (if bytes_isascii (pslice 20 36 data) then bytes_text (pslice 20 36 data) else bytes_hex (pslice 20 36 data))"
    "length (pslice 20 36 data) = 16"
proof -
  obtain h d where hd: "parse_json_payload_header loads data MAGIC_repo_info = Inr (h, d)"
    using assms by (cases "parse_json_payload_header loads data MAGIC_repo_info") (auto simp: parse_repo_info_def)
  with assms show "ri_uuid ri = (if bytes_isascii (pslice 20 36 data) then bytes_text (pslice 20 36 data)
      else bytes_hex (pslice 20 36 data))"
    by (auto simp: parse_repo_info_def Let_def const_defs)
  show "length (pslice 20 36 data) = 16"
    using parse_index_header_InrD(1) [OF parse_json_payload_InrD(1) [OF hd]] by simp
qed

lemma repo_uuid_determines_bytes:
  assumes "parse_repo_info loads a = Inr ra" and "parse_repo_info loads' b = Inr rb" and "ri_uuid ra = ri_uuid rb"
  shows "pslice 20 36 a = pslice 20 36 b"
proof -
  have len: "length (bytes_text xs) = length xs" for xs by (simp add: bytes_text_def)
  note a = parse_repo_info_uuid [OF assms(1)] and b = parse_repo_info_uuid [OF assms(2)]
  have "length (ri_uuid ra) = length (ri_uuid rb)" using assms(3) by simp
  then have "bytes_isascii (pslice 20 36 a) = bytes_isascii (pslice 20 36 b)"
    using a b by (auto simp: len simp del: length_pslice split: if_splits)
  then show ?thesis
    using a(1) b(1) assms(3) by (auto simp: bytes_text_inject dest: bytes_hex_inject split: if_splits)
qed

lemma py_int_Max_join:
  assumes "valid \<noteq> []" shows "Max (set valid) \<in> set valid" "\<And>s. s \<in> set valid \<Longrightarrow> s \<le> Max (set valid)"
  using assms by (simp_all add: Max_in)

lemma latest_transaction_id_newest:
  assumes "latest_transaction_id loads st tdir listdir = Inr t"
  shows "\<exists>names suffixes path data txn. listdir tdir = Inr names \<and> numeric_suffixes names ''repo_transaction'' = Inr suffixes \<and>
    suffixes \<noteq> [] \<and> join_path [tdir, ''repo_transaction.'' @ dec_str (Max (set suffixes))] = Inr path \<and>
    st_read st path 0 None = Inr data \<and> parse_repo_transaction loads data = Inr txn \<and> rt_transaction_id txn = t"
  using assms by (auto simp: latest_transaction_id_def res_simps split: if_splits)

subsection \<open>Properties\<close>

text \<open>C27. The generation of a table that is opened is the newest published one: among the
  numbered copies listed, the largest below the latest committed transaction, so the copy of
  an unfinished transaction is never opened; for a supplemental table the largest with a
  marker; a table with no numbered copy is opened by its bare name. When copies exist and
  none qualifies the call raises \<open>NotFoundError\<close>.\<close>

theorem generation_choice:
  assumes "listdir db_dir = Inr entries" and "numeric_suffixes entries name = Inr ss"
    and "resolve_generation loads st db_dir name tdir sdir listdir = r"
  shows "(ss = [] \<longrightarrow> r = join_path [db_dir, name]) \<and>
    (ss \<noteq> [] \<and> name \<notin> set SUPPLEMENTAL_TABLES \<longrightarrow> (\<forall>t. latest_transaction_id loads st tdir listdir = Inr t \<longrightarrow>
       ((\<forall>s \<in> set ss. t \<le> int s) \<longrightarrow> r = Inl NotFoundError) \<and>
       (\<forall>g \<in> set ss. int g < t \<and> (\<forall>s \<in> set ss. int s < t \<longrightarrow> s \<le> g) \<longrightarrow> r = join_path [db_dir, name @ ''.'' @ dec_str g]))) \<and>
    (ss \<noteq> [] \<and> name \<in> set SUPPLEMENTAL_TABLES \<longrightarrow>
       (\<forall>ms ids. listdir sdir = Inr ms \<and> map_res py_int (filter is_ascii_digits ms) = Inr ids \<longrightarrow>
       ((\<forall>s \<in> set ss. s \<notin> set ids) \<longrightarrow> r = Inl NotFoundError) \<and>
       (\<forall>g \<in> set ss \<inter> set ids. (\<forall>s \<in> set ss \<inter> set ids. s \<le> g) \<longrightarrow> r = join_path [db_dir, name @ ''.'' @ dec_str g])))"
proof -
  have max: "Max (set (filter P ss)) = g" if "g \<in> set ss" "P g" "\<forall>s \<in> set ss. P s \<longrightarrow> s \<le> g" for P and g :: nat
    using that by (intro Max_eqI) auto
  have ne: "filter P ss \<noteq> []" if "g \<in> set ss" "P g" for P and g :: nat
    using that by (auto simp: filter_empty_conv)
  have a: "ss = [] \<longrightarrow> r = join_path [db_dir, name]"
    using assms by (auto simp: resolve_generation_def)
  have b: "r = Inl NotFoundError" if "ss \<noteq> []" "name \<notin> set SUPPLEMENTAL_TABLES"
      "latest_transaction_id loads st tdir listdir = Inr t" "\<forall>s \<in> set ss. t \<le> int s" for t
  proof -
    have "filter (\<lambda>s. int s < t) ss = []" using that by (auto simp: filter_empty_conv)
    with that assms show ?thesis by (auto simp: resolve_generation_def Let_def)
  qed
  have c: "r = join_path [db_dir, name @ ''.'' @ dec_str g]" if "ss \<noteq> []" "name \<notin> set SUPPLEMENTAL_TABLES"
      "latest_transaction_id loads st tdir listdir = Inr t" "g \<in> set ss" "int g < t" "\<forall>s \<in> set ss. int s < t \<longrightarrow> s \<le> g" for t g
    using that assms max [of g "\<lambda>s. int s < t"] ne [of g "\<lambda>s. int s < t"]
    by (simp add: resolve_generation_def Let_def)
  have d: "r = Inl NotFoundError" if "ss \<noteq> []" "name \<in> set SUPPLEMENTAL_TABLES" "listdir sdir = Inr ms"
      "map_res py_int (filter is_ascii_digits ms) = Inr ids" "\<forall>s \<in> set ss. s \<notin> set ids" for ms ids
  proof -
    have "filter (\<lambda>s. s \<in> set ids) ss = []" using that by (auto simp: filter_empty_conv)
    with that assms show ?thesis by (auto simp: resolve_generation_def Let_def)
  qed
  have e: "r = join_path [db_dir, name @ ''.'' @ dec_str g]" if "ss \<noteq> []" "name \<in> set SUPPLEMENTAL_TABLES"
      "listdir sdir = Inr ms" "map_res py_int (filter is_ascii_digits ms) = Inr ids"
      "g \<in> set ss \<inter> set ids" "\<forall>s \<in> set ss \<inter> set ids. s \<le> g" for ms ids g
    using that assms max [of g "\<lambda>s. s \<in> set ids"] ne [of g "\<lambda>s. s \<in> set ids"]
    by (simp add: resolve_generation_def Let_def)
  show ?thesis using a b c d e by blast
qed

lemma generation_choice_witness:
  "resolve_generation (\<lambda>b. None) \<lparr>st_read = (\<lambda>p off n. Inr []), st_size = (\<lambda>p. Inr 0), st_exists = (\<lambda>p. Inr True),
       st_listdir = (\<lambda>p. Inr [])\<rparr> ''db'' ''file_meta'' ''t'' ''s''
     (\<lambda>d. if d = ''db'' then Inr [''file_meta.3'', ''file_meta.9'', ''file_meta''] else Inr [''3'', ''12'']) = Inr ''db/file_meta.3''"
proof -
  let ?l = "\<lambda>d. if d = ''db'' then Inr [''file_meta.3'', ''file_meta.9'', ''file_meta''] else Inr [''3'', ''12'']"
  have n: "numeric_suffixes [''file_meta.3'', ''file_meta.9'', ''file_meta''] ''file_meta'' = Inr [3, 9]"
    by (simp add: numeric_suffixes_def Let_def is_ascii_digits_def is_digit_def py_int_def dec_val_def digit_val_def max_str_digits_def)
  have m: "map_res py_int (filter is_ascii_digits [''3'', ''12'']) = Inr [3, 12]"
    by (simp add: is_ascii_digits_def is_digit_def py_int_def dec_val_def digit_val_def max_str_digits_def)
  have j: "join_path [''db'', ''file_meta'' @ ''.'' @ dec_str 3] = Inr ''db/file_meta.3''"
    by code_simp
  show ?thesis
    using generation_choice [of ?l "''db''" "[''file_meta.3'', ''file_meta.9'', ''file_meta'']" "''file_meta''" "[3, 9]"
        "\<lambda>b. None" "\<lparr>st_read = (\<lambda>p off n. Inr []), st_size = (\<lambda>p. Inr 0), st_exists = (\<lambda>p. Inr True), st_listdir = (\<lambda>p. Inr [])\<rparr>" "''t''" "''s''"] n m j
    by (simp add: SUPPLEMENTAL_TABLES_def)
qed

end
