(* ===== verification/SubFiles.thy ===== *)
theory SubFiles
  imports Composition Listing
begin

text \<open>
  \<open>CompositionReader\<close> of \<open>sdk/dedup/composition_reader.py\<close>: a session's composition is one
  offset space cut into 16 MiB sub-files, found by the layer path of the sub-file's number
  and read across the cuts.
\<close>

definition subfile_path :: "store \<Rightarrow> string \<Rightarrow> nat \<Rightarrow> nat \<Rightarrow> nat \<Rightarrow> string res" where
  "subfile_path st comp_root sid session sub_id =
     (let (dir_part, leaf) = split_layer_leaf (composition_path sid session sub_id) in
      bind_res (join_path [comp_root, dir_part]) (\<lambda>full_dir. resolve_seq_path st full_dir leaf))"

function read_at_loop ::
    "(nat \<Rightarrow> string res) \<Rightarrow> (string \<Rightarrow> nat \<Rightarrow> nat option \<Rightarrow> bytes res) \<Rightarrow> nat \<Rightarrow> nat \<Rightarrow> bytes \<Rightarrow> bytes res" where
  "read_at_loop subfile rd offset remaining out =
     (if remaining = 0 then Inr out
      else let (sub_id, sub_off) = split_composition_offset offset in
        bind_res (subfile sub_id) (\<lambda>path.
          let want = min remaining (SUB_FILE_SIZE - sub_off) in
          bind_res (rd path sub_off (Some want)) (\<lambda>chunk.
            if length chunk < want then Inl FormatError
            else read_at_loop subfile rd (offset + length chunk) (remaining - length chunk) (out @ chunk))))"
  by pat_completeness auto
termination
proof (relation "measure (\<lambda>(_, _, _, remaining, _). remaining)")
  fix subfile rd offset remaining out sub_id sub_off path want chunk
  fix z :: "nat \<times> nat"
  assume a: "remaining \<noteq> 0" "z = split_composition_offset offset" "(sub_id, sub_off) = z"
    "want = min remaining (SUB_FILE_SIZE - sub_off)" "\<not> length (chunk :: bytes) < want"
  have "sub_off < SUB_FILE_SIZE" using split_composition_offset_bounds(2) [of offset sub_id sub_off] a(2,3) by simp
  then have "0 < want" using a(1,4) by simp
  then show "((subfile, rd, offset + length chunk, remaining - length chunk, out @ chunk), subfile, rd, offset, remaining, out)
      \<in> measure (\<lambda>(_, _, _, remaining, _). remaining)"
    using a(1,5) by simp
qed simp

declare read_at_loop.simps [simp del]

definition read_at :: "(nat \<Rightarrow> string res) \<Rightarrow> (string \<Rightarrow> nat \<Rightarrow> nat option \<Rightarrow> bytes res) \<Rightarrow> nat \<Rightarrow> nat \<Rightarrow> bytes res" where
  "read_at subfile rd global_offset n = (if n = 0 then Inr [] else read_at_loop subfile rd global_offset n [])"

definition verify_header :: "(nat \<Rightarrow> nat \<Rightarrow> bytes res) \<Rightarrow> composition_header res" where
  "verify_header rd_at = bind_res (rd_at 0 HEADER_LEN) parse_composition_header"

definition open_record_head :: "(nat \<Rightarrow> nat \<Rightarrow> bytes res) \<Rightarrow> nat \<Rightarrow> record_head option \<Rightarrow> record_head res" where
  "open_record_head rd_at head_off known =
     (case known of Some h \<Rightarrow> Inr h | None \<Rightarrow> bind_res (rd_at head_off RECORD_HEAD_LENGTH) parse_record_head)"

subsection \<open>The reader under the store contract\<close>

text \<open>The sub-files a writer produces from a session's bytes.\<close>

definition subfile_bytes :: "bytes \<Rightarrow> nat \<Rightarrow> bytes" where
  "subfile_bytes g i = pslice (i * SUB_FILE_SIZE) (Suc i * SUB_FILE_SIZE) g"

lemma subfile_size_pos: "0 < SUB_FILE_SIZE"
  by (simp add: const_values)

context object_store
begin

text \<open>Whatever \<open>read_at\<close> returns is made of bytes of the sub-files that hold those offsets.\<close>

definition byte_at :: "(nat \<Rightarrow> string res) \<Rightarrow> nat \<Rightarrow> byte \<Rightarrow> bool" where
  "byte_at subfile pos b \<longleftrightarrow> (\<exists>p bs. subfile (pos div SUB_FILE_SIZE) = Inr p \<and> content p = Some bs \<and>
     pos mod SUB_FILE_SIZE < length bs \<and> bs ! (pos mod SUB_FILE_SIZE) = b)"

lemma split_div_mod: "split_composition_offset pos = (pos div SUB_FILE_SIZE, pos mod SUB_FILE_SIZE)"
  by (simp add: split_composition_offset_eq const_values)

lemma split_plus:
  assumes "pos mod SUB_FILE_SIZE + i < SUB_FILE_SIZE"
  shows "(pos + i) div SUB_FILE_SIZE = pos div SUB_FILE_SIZE" "(pos + i) mod SUB_FILE_SIZE = pos mod SUB_FILE_SIZE + i"
proof -
  have e: "pos + i = pos div SUB_FILE_SIZE * SUB_FILE_SIZE + (pos mod SUB_FILE_SIZE + i)" by simp
  show "(pos + i) div SUB_FILE_SIZE = pos div SUB_FILE_SIZE"
    by (subst e, subst div_mult_self3) (use assms subfile_size_pos in simp_all)
  show "(pos + i) mod SUB_FILE_SIZE = pos mod SUB_FILE_SIZE + i"
    by (subst e, subst mod_mult_self3) (use assms in simp)
qed

lemma read_at_loop_sound:
  assumes "read_at_loop subfile rd off n out = Inr xs"
  shows "\<exists>ys. xs = out @ ys \<and> length ys = n \<and> (\<forall>i < n. byte_at subfile (off + i) (ys ! i))"
  using assms
proof (induction n arbitrary: off out rule: less_induct)
  case (less n)
  show ?case
  proof (cases "n = 0")
    case True
    then show ?thesis using less.prems by (simp add: read_at_loop.simps)
  next
    case False
    let ?s = "off div SUB_FILE_SIZE" and ?o = "off mod SUB_FILE_SIZE"
    let ?want = "min n (SUB_FILE_SIZE - ?o)"
    have o: "?o < SUB_FILE_SIZE" using subfile_size_pos by simp
    obtain path chunk where path: "subfile ?s = Inr path" and chunk: "rd path ?o (Some ?want) = Inr chunk"
      and len: "?want \<le> length chunk"
      and rest: "read_at_loop subfile rd (off + length chunk) (n - length chunk) (out @ chunk) = Inr xs"
      using less.prems False
      by (subst (asm) read_at_loop.simps) (auto simp: split_div_mod res_simps Let_def not_less split: if_splits)
    have pos: "0 < ?want" using False o by simp
    have eq: "length chunk = ?want" using len read_short [OF chunk] by simp
    obtain bs where bs: "content path = Some bs" "?o + ?want \<le> length bs" "chunk = pslice ?o (?o + ?want) bs"
      using read_full [OF chunk len pos] by auto
    obtain ys where ys: "xs = (out @ chunk) @ ys" "length ys = n - length chunk"
      "\<forall>i < n - length chunk. byte_at subfile (off + length chunk + i) (ys ! i)"
    proof -
      have "n - length chunk < n" using pos eq False by simp
      from less.IH [OF this rest] show thesis using that by blast
    qed
    have first: "byte_at subfile (off + i) (chunk ! i)" if "i < ?want" for i
    proof -
      have "?o + i < SUB_FILE_SIZE" using that o by linarith
      from split_plus [OF this] have d: "(off + i) div SUB_FILE_SIZE = ?s" "(off + i) mod SUB_FILE_SIZE = ?o + i" .
      have l: "?o + i < ?o + ?want" using that by simp
      then have lb: "?o + i < length bs" using bs(2) by (rule less_le_trans)
      have "chunk ! i = bs ! (?o + i)" by (subst bs(3)) (rule nth_pslice [OF l lb])
      then show ?thesis using path bs(1) lb by (auto simp: byte_at_def d)
    qed
    have "byte_at subfile (off + i) ((chunk @ ys) ! i)" if "i < n" for i
    proof (cases "i < length chunk")
      case True
      then show ?thesis using first [of i] eq by (simp add: nth_append)
    next
      case False
      have e: "off + length chunk + (i - length chunk) = off + i" using False by simp
      have "i - length chunk < n - length chunk" using False that by simp
      from ys(3) [rule_format, OF this] have "byte_at subfile (off + i) (ys ! (i - length chunk))" unfolding e .
      then show ?thesis using False by (simp add: nth_append)
    qed
    moreover have "length (chunk @ ys) = n" using ys(2) eq by simp
    ultimately show ?thesis using ys(1) by (intro exI [of _ "chunk @ ys"]) auto
  qed
qed

lemma read_at_sound:
  assumes "read_at subfile rd off n = Inr xs"
  shows "length xs = n" "i < n \<Longrightarrow> byte_at subfile (off + i) (xs ! i)"
  using assms read_at_loop_sound [of subfile off n "[]" xs] by (auto simp: read_at_def split: if_splits)

text \<open>When the sub-files are those of a session's bytes, the range comes back exactly.\<close>

lemma read_at_loop_total:
  assumes "\<And>i. i * SUB_FILE_SIZE < length g \<Longrightarrow> \<exists>p. subfile i = Inr p \<and> content p = Some (subfile_bytes g i)"
    and "off + n \<le> length g"
  shows "\<exists>xs. read_at_loop subfile rd off n out = Inr xs"
  using assms(2)
proof (induction n arbitrary: off out rule: less_induct)
  case (less n)
  show ?case
  proof (cases "n = 0")
    case True
    then show ?thesis by (simp add: read_at_loop.simps)
  next
    case False
    let ?s = "off div SUB_FILE_SIZE" and ?o = "off mod SUB_FILE_SIZE"
    let ?want = "min n (SUB_FILE_SIZE - ?o)"
    have o: "?o < SUB_FILE_SIZE" using subfile_size_pos by simp
    have so: "?s * SUB_FILE_SIZE + ?o = off" by simp
    then have "?s * SUB_FILE_SIZE < length g" using less.prems False by linarith
    then obtain p where p: "subfile ?s = Inr p" "content p = Some (subfile_bytes g ?s)" using assms(1) by blast
    have len: "length (subfile_bytes g ?s) = min SUB_FILE_SIZE (length g - ?s * SUB_FILE_SIZE)"
      by (simp add: subfile_bytes_def)
    have "?o + ?want \<le> length (subfile_bytes g ?s)"
      using less.prems so o unfolding len by linarith
    then have "rd p ?o (Some ?want) = Inr (pslice ?o (?o + ?want) (subfile_bytes g ?s))"
      "length (pslice ?o (?o + ?want) (subfile_bytes g ?s)) = ?want"
      using read_exact [OF p(2)] by blast+
    moreover have "\<exists>xs. read_at_loop subfile rd (off + ?want) (n - ?want) out' = Inr xs" for out'
      using less.IH [of "n - ?want" "off + ?want" out'] less.prems False o by auto
    ultimately show ?thesis
      using False p by (subst read_at_loop.simps) (simp add: split_div_mod Let_def)
  qed
qed

lemma read_at_exact:
  assumes files: "\<And>i. i * SUB_FILE_SIZE < length g \<Longrightarrow> \<exists>p. subfile i = Inr p \<and> content p = Some (subfile_bytes g i)"
    and "off + n \<le> length g"
  shows "read_at subfile rd off n = Inr (pslice off (off + n) g)"
proof -
  obtain xs where xs: "read_at subfile rd off n = Inr xs"
    using read_at_loop_total [OF files assms(2), of "[]"] by (cases "n = 0") (auto simp: read_at_def)
  have "xs = pslice off (off + n) g"
  proof (rule nth_equalityI)
    show l: "length xs = length (pslice off (off + n) g)" using read_at_sound(1) [OF xs] assms(2) by simp
    fix i assume "i < length xs"
    then have i: "i < n" using read_at_sound(1) [OF xs] by simp
    let ?pos = "off + i"
    have e: "?pos div SUB_FILE_SIZE * SUB_FILE_SIZE + ?pos mod SUB_FILE_SIZE = ?pos" by simp
    then have "?pos div SUB_FILE_SIZE * SUB_FILE_SIZE < length g" using i assms(2) by linarith
    from files [OF this] read_at_sound(2) [OF xs i] have
      "xs ! i = subfile_bytes g (?pos div SUB_FILE_SIZE) ! (?pos mod SUB_FILE_SIZE)"
      by (auto simp: byte_at_def)
    also have "\<dots> = g ! ?pos"
      unfolding subfile_bytes_def
    proof (subst nth_pslice)
      show "?pos div SUB_FILE_SIZE * SUB_FILE_SIZE + ?pos mod SUB_FILE_SIZE < Suc (?pos div SUB_FILE_SIZE) * SUB_FILE_SIZE"
        using mod_less_divisor [OF subfile_size_pos, of ?pos] unfolding mult_Suc by linarith
    qed (use i assms(2) in simp_all)
    finally show "xs ! i = pslice off (off + n) g ! i" using i assms(2) by simp
  qed
  with xs show ?thesis by simp
qed

end

subsection \<open>Properties\<close>

text \<open>C23. Reading a session's composition is independent of how it is cut into sub-files: on the
  local store, when the sub-files found for the session are the 16 MiB pieces of a byte
  string, any range inside it is returned exactly, also where it crosses pieces; and whatever
  the store holds, the bytes returned are those of the sub-files at these offsets and as many as
  were asked for.\<close>

theorem composition_read_at_exact:
  assumes "\<And>i. i * SUB_FILE_SIZE < length g \<Longrightarrow> \<exists>p. subfile i = Inr p \<and> local_content fs p = Some (subfile_bytes g i)"
    and "off + n \<le> length g"
  shows "read_at subfile (local_read cap fs) off n = Inr (pslice off (off + n) g) \<and>
    (\<forall>sf o' m xs i. read_at sf (local_read cap fs) o' m = Inr xs \<and> i < m \<longrightarrow> length xs = m \<and>
       (\<exists>p bs. sf ((o' + i) div SUB_FILE_SIZE) = Inr p \<and> local_content fs p = Some bs \<and>
          (o' + i) mod SUB_FILE_SIZE < length bs \<and> xs ! i = bs ! ((o' + i) mod SUB_FILE_SIZE)))"
  using local_fs.read_at_exact [where fs = fs and subfile = subfile, OF assms] local_fs.read_at_sound [where fs = fs]
  by (fastforce simp: local_fs.byte_at_def)

lemma composition_read_at_exact_witness:
  "read_at (\<lambda>i. Inr ''c'') (local_read (\<lambda>n off. 0) (\<lambda>segs. RegularFile [1, 2, 3, 4, 5])) 1 3 = Inr [2, 3, 4]"
proof -
  let ?fs = "\<lambda>segs. RegularFile [1, 2, 3, 4, 5]"
  have c: "local_content ?fs ''c'' = Some [1, 2, 3, 4, 5]"
    by (simp add: local_content_def local_path_def posix_parts_def is_absolute_def)
  have "\<exists>p. (Inr ''c'' :: string res) = Inr p \<and> local_content ?fs p = Some (subfile_bytes [1, 2, 3, 4, 5] i)"
    if "i * SUB_FILE_SIZE < length [1, 2, 3, 4, 5 :: byte]" for i
  proof -
    have "i = 0" using that by (cases i) (simp_all add: const_values)
    then show ?thesis using c by (simp add: subfile_bytes_def const_values)
  qed
  from composition_read_at_exact [where g = "[1, 2, 3, 4, 5]", OF this, of 1 3 "\<lambda>n off. 0"]
  show ?thesis by (simp add: pslice_def)
qed

end
