(* ===== verification/Cache.thy ===== *)
theory Cache
  imports Errors
begin

text \<open>
  \<open>sdk/asynccache.py\<close>: the keyed cache with joined in-flight fetches. The synchronous
  operations are functions of the cache's fields; \<open>resolve\<close>, \<open>_fetch_and_store\<close> and
  \<open>settle_all\<close> are cut at their \<open>await\<close>s into the atomic parts an event loop runs, and a
  step relation interleaves the parts of any number of tasks. What a fetch returns is
  restricted by a parameter \<open>ok\<close> (the values that are right for a key); when it returns,
  fails or is cancelled is left open.
\<close>

subsection \<open>The cache object\<close>

text \<open>An \<open>OrderedDict\<close> is an association list, least recently used first.\<close>

record ('k, 'v) cache =
  c_store :: "('k \<times> 'v) list"
  c_inflight :: "('k \<times> nat) list"
  c_stale :: "'k set"
  c_maxsize :: "nat option"
  c_hits :: nat
  c_misses :: nat
  c_evictions :: nat

text \<open>\<open>d[key] = value; d.move_to_end(key)\<close>, \<open>d.pop(key, None)\<close> and \<open>d.move_to_end(key)\<close>.\<close>

definition od_pop :: "'k \<Rightarrow> ('k \<times> 'v) list \<Rightarrow> ('k \<times> 'v) list" where
  "od_pop k d = filter (\<lambda>p. fst p \<noteq> k) d"

definition od_set_last :: "'k \<Rightarrow> 'v \<Rightarrow> ('k \<times> 'v) list \<Rightarrow> ('k \<times> 'v) list" where
  "od_set_last k v d = od_pop k d @ [(k, v)]"

definition od_move_to_end :: "'k \<Rightarrow> ('k \<times> 'v) list \<Rightarrow> ('k \<times> 'v) list" where
  "od_move_to_end k d = (case map_of d k of None \<Rightarrow> d | Some v \<Rightarrow> od_set_last k v d)"

record cache_stats =
  cs_size :: nat
  cs_maxsize :: "nat option"
  cs_hits :: nat
  cs_misses :: nat
  cs_evictions :: nat

definition cache_init :: "nat option \<Rightarrow> ('k, 'v) cache" where
  "cache_init maxsize = \<lparr>c_store = [], c_inflight = [], c_stale = {}, c_maxsize = maxsize,
     c_hits = 0, c_misses = 0, c_evictions = 0\<rparr>"

definition stats :: "('k, 'v) cache \<Rightarrow> cache_stats" where
  "stats c = \<lparr>cs_size = length (c_store c), cs_maxsize = c_maxsize c, cs_hits = c_hits c,
     cs_misses = c_misses c, cs_evictions = c_evictions c\<rparr>"

fun evict_loop :: "nat \<Rightarrow> ('k \<times> 'v) list \<Rightarrow> nat \<Rightarrow> ('k \<times> 'v) list \<times> nat" where
  "evict_loop m [] n = ([], n)"
| "evict_loop m (x # xs) n = (if m < length (x # xs) then evict_loop m xs (Suc n) else (x # xs, n))"

definition evict :: "('k, 'v) cache \<Rightarrow> ('k, 'v) cache" where
  "evict c = (case c_maxsize c of None \<Rightarrow> c
     | Some m \<Rightarrow> let (st, n) = evict_loop m (c_store c) (c_evictions c) in c\<lparr>c_store := st, c_evictions := n\<rparr>)"

definition store_and_evict :: "'k \<Rightarrow> 'v \<Rightarrow> ('k, 'v) cache \<Rightarrow> ('k, 'v) cache" where
  "store_and_evict k v c = evict (c\<lparr>c_store := od_set_last k v (c_store c)\<rparr>)"

definition put :: "'k \<Rightarrow> 'v \<Rightarrow> ('k, 'v) cache \<Rightarrow> ('k, 'v) cache" where
  "put k v c = store_and_evict k v c"

definition put_many :: "('k \<times> 'v) list \<Rightarrow> ('k, 'v) cache \<Rightarrow> ('k, 'v) cache" where
  "put_many items c = evict (c\<lparr>c_store := fold (\<lambda>(k, v). od_set_last k v) items (c_store c)\<rparr>)"

definition lookup :: "'k \<Rightarrow> 'v \<Rightarrow> ('k, 'v) cache \<Rightarrow> 'v \<times> ('k, 'v) cache" where
  "lookup k dflt c =
     (case map_of (c_store c) k of
        Some v \<Rightarrow> (v, c\<lparr>c_hits := Suc (c_hits c), c_store := od_move_to_end k (c_store c)\<rparr>)
      | None \<Rightarrow> (dflt, c\<lparr>c_misses := Suc (c_misses c)\<rparr>))"

definition invalidate :: "'k option \<Rightarrow> ('k, 'v) cache \<Rightarrow> ('k, 'v) cache" where
  "invalidate key c =
     (case key of
        None \<Rightarrow> c\<lparr>c_store := [], c_stale := c_stale c \<union> fst ` set (c_inflight c)\<rparr>
      | Some k \<Rightarrow> c\<lparr>c_store := od_pop k (c_store c),
                   c_stale := (if k \<in> fst ` set (c_inflight c) then insert k (c_stale c) else c_stale c)\<rparr>)"

subsection \<open>Futures and tasks\<close>

datatype 'v fut = FPending | FResult 'v | FException err | FCancelled

definition fut_done :: "'v fut \<Rightarrow> bool" where
  "fut_done f = (case f of FPending \<Rightarrow> False | _ \<Rightarrow> True)"

definition fut_failed :: "'v fut \<Rightarrow> bool" where
  "fut_failed f = (case f of FException _ \<Rightarrow> True | FCancelled \<Rightarrow> True | _ \<Rightarrow> False)"

text \<open>
  The local variables of \<open>settle_all\<close>: the snapshot at entry, what landed, the errors, the
  futures already awaited, the one being awaited, and the rest of the round's \<open>pending\<close> list.
\<close>

record ('k, 'v) settling =
  s_held :: "('k \<times> 'v) list"
  s_landed :: "'k \<rightharpoonup> 'v"
  s_errors :: "err list"
  s_awaited :: "nat set"
  s_current :: "('k \<times> nat) option"
  s_pending :: "('k \<times> nat) list"

text \<open>
  Where a task is: awaiting the fetch it runs, awaiting a fetch of another task, done in one
  of three ways, inside \<open>settle_all\<close>, or done with it.
\<close>

datatype ('k, 'v) task =
    Fetching 'k nat
  | Joined 'k nat
  | Returned 'k 'v
  | Raised 'k err
  | WasCancelled 'k
  | Settling "('k, 'v) settling"
  | Settled "'k \<rightharpoonup> 'v" "err list"

text \<open>
  The whole system: the cache, the futures created so far (numbered), the tasks, and three
  fields the code does not have, kept to state freshness: a clock, the time of each key's
  last invalidation, and the time at which the fetch (or \<open>put\<close>) behind each future and each
  stored entry began.
\<close>

record ('k, 'v) sys =
  the_cache :: "('k, 'v) cache"
  futs :: "nat \<Rightarrow> 'v fut option"
  next_fut :: nat
  tasks :: "nat \<Rightarrow> ('k, 'v) task option"
  clock :: nat
  invalidated_at :: "'k \<Rightarrow> nat"
  began :: "nat \<Rightarrow> nat"
  stored_from :: "'k \<Rightarrow> nat"

definition sys_init :: "nat option \<Rightarrow> ('k, 'v) sys" where
  "sys_init maxsize = \<lparr>the_cache = cache_init maxsize, futs = (\<lambda>_. None), next_fut = 0, tasks = (\<lambda>_. None),
     clock = 0, invalidated_at = (\<lambda>_. 0), began = (\<lambda>_. 0), stored_from = (\<lambda>_. 0)\<rparr>"

definition set_task :: "nat \<Rightarrow> ('k, 'v) task \<Rightarrow> ('k, 'v) sys \<Rightarrow> ('k, 'v) sys" where
  "set_task t x s = s\<lparr>tasks := (tasks s)(t \<mapsto> x)\<rparr>"

text \<open>
  One pass of \<open>resolve\<close>'s loop up to its \<open>await\<close>: a hit returns, an in-flight key is joined,
  otherwise \<open>_fetch_and_store\<close> registers a new future and starts the fetch (or raises
  \<open>TypeError\<close> when there is none).
\<close>

definition enter :: "bool \<Rightarrow> nat \<Rightarrow> 'k \<Rightarrow> ('k, 'v) sys \<Rightarrow> ('k, 'v) sys" where
  "enter has_fetch t k s =
     (let c = the_cache s in
      case map_of (c_store c) k of
        Some v \<Rightarrow> set_task t (Returned k v)
          (s\<lparr>the_cache := c\<lparr>c_hits := Suc (c_hits c), c_store := od_move_to_end k (c_store c)\<rparr>\<rparr>)
      | None \<Rightarrow>
          (case map_of (c_inflight c) k of
             Some f \<Rightarrow> set_task t (Joined k f) s
           | None \<Rightarrow>
               if \<not> has_fetch
               then set_task t (Raised k PyTypeError) (s\<lparr>the_cache := c\<lparr>c_misses := Suc (c_misses c)\<rparr>\<rparr>)
               else set_task t (Fetching k (next_fut s))
                 (s\<lparr>the_cache := c\<lparr>c_misses := Suc (c_misses c), c_inflight := c_inflight c @ [(k, next_fut s)]\<rparr>,
                    futs := (futs s)(next_fut s \<mapsto> FPending), next_fut := Suc (next_fut s),
                    began := (began s)(next_fut s := clock s)\<rparr>)))"

definition settle_fut :: "nat \<Rightarrow> 'v fut \<Rightarrow> ('k, 'v) sys \<Rightarrow> ('k, 'v) sys" where
  "settle_fut f r s = (if futs s f = Some FPending then s\<lparr>futs := (futs s)(f \<mapsto> r)\<rparr> else s)"

text \<open>The rest of \<open>_fetch_and_store\<close> once the fetch has returned \<open>v\<close>, or has raised.\<close>

definition finish_fetch :: "nat \<Rightarrow> 'k \<Rightarrow> nat \<Rightarrow> 'v \<Rightarrow> ('k, 'v) sys \<Rightarrow> ('k, 'v) sys" where
  "finish_fetch t k f v s =
     (let c = the_cache s;
          s1 = (if k \<in> c_stale c then s\<lparr>the_cache := c\<lparr>c_stale := c_stale c - {k}\<rparr>\<rparr>
                else s\<lparr>the_cache := store_and_evict k v c, stored_from := (stored_from s)(k := began s f)\<rparr>);
          s2 = s1\<lparr>the_cache := (the_cache s1)\<lparr>c_inflight := od_pop k (c_inflight (the_cache s1))\<rparr>\<rparr>
      in set_task t (Returned k v) (settle_fut f (FResult v) s2))"

definition abort_fetch :: "nat \<Rightarrow> 'k \<Rightarrow> nat \<Rightarrow> err option \<Rightarrow> ('k, 'v) sys \<Rightarrow> ('k, 'v) sys" where
  "abort_fetch t k f exc s =
     (let c = the_cache s;
          s1 = s\<lparr>the_cache := c\<lparr>c_inflight := od_pop k (c_inflight c), c_stale := c_stale c - {k}\<rparr>\<rparr>
      in set_task t (case exc of Some e \<Rightarrow> Raised k e | None \<Rightarrow> WasCancelled k)
           (settle_fut f (case exc of Some e \<Rightarrow> FException e | None \<Rightarrow> FCancelled) s1))"

text \<open>The parts of \<open>settle_all\<close>: its start, reaching the next pending future, and a new round.\<close>

definition settle_start :: "('k, 'v) sys \<Rightarrow> ('k, 'v) task" where
  "settle_start s = Settling \<lparr>s_held = c_store (the_cache s), s_landed = Map.empty, s_errors = [], s_awaited = {},
     s_current = None, s_pending = []\<rparr>"

definition settle_reach :: "('k, 'v) sys \<Rightarrow> ('k, 'v) settling \<Rightarrow> ('k, 'v) task" where
  "settle_reach s w =
     (case s_pending w of
        (k, f) # rest \<Rightarrow>
          let w' = w\<lparr>s_awaited := insert f (s_awaited w), s_pending := rest\<rparr> in
          Settling (case futs s f of
             Some r \<Rightarrow> if fut_failed r then w' else w'\<lparr>s_current := Some (k, f)\<rparr>
           | None \<Rightarrow> w')
      | [] \<Rightarrow>
          let pending = filter (\<lambda>(k, f). f \<notin> s_awaited w) (c_inflight (the_cache s)) in
          if pending = [] then Settled (map_of (s_held w) ++ map_of (c_store (the_cache s)) ++ s_landed w) (s_errors w)
          else Settling (w\<lparr>s_pending := pending\<rparr>))"

definition settle_got :: "'v fut \<Rightarrow> ('k, 'v) settling \<Rightarrow> ('k, 'v) settling" where
  "settle_got r w =
     (case s_current w of
        None \<Rightarrow> w
      | Some (k, f) \<Rightarrow>
          (case r of
             FResult v \<Rightarrow> w\<lparr>s_landed := (s_landed w)(k \<mapsto> v), s_current := None\<rparr>
           | FException e \<Rightarrow> w\<lparr>s_errors := s_errors w @ [e], s_current := None\<rparr>
           | FCancelled \<Rightarrow> w\<lparr>s_current := None\<rparr>
           | FPending \<Rightarrow> w))"

definition with_cache :: "(('k, 'v) cache \<Rightarrow> ('k, 'v) cache) \<Rightarrow> ('k, 'v) sys \<Rightarrow> ('k, 'v) sys" where
  "with_cache g s = s\<lparr>the_cache := g (the_cache s)\<rparr>"

definition mark_stored :: "'k list \<Rightarrow> ('k, 'v) sys \<Rightarrow> ('k, 'v) sys" where
  "mark_stored ks s = s\<lparr>stored_from := (\<lambda>k. if k \<in> set ks then clock s else stored_from s k)\<rparr>"

definition mark_invalid :: "'k option \<Rightarrow> ('k, 'v) sys \<Rightarrow> ('k, 'v) sys" where
  "mark_invalid key s = s\<lparr>clock := Suc (clock s),
     invalidated_at := (\<lambda>k. if key = None \<or> key = Some k then Suc (clock s) else invalidated_at s k)\<rparr>"

subsection \<open>The step relation\<close>

inductive cstep :: "('k \<Rightarrow> 'v \<Rightarrow> bool) \<Rightarrow> ('k, 'v) sys \<Rightarrow> ('k, 'v) sys \<Rightarrow> bool" for ok where
  call: "tasks s t = None \<Longrightarrow> cstep ok s (enter hf t k s)"
| fetched: "tasks s t = Some (Fetching k f) \<Longrightarrow> ok k v \<Longrightarrow> cstep ok s (finish_fetch t k f v s)"
| fetch_raised: "tasks s t = Some (Fetching k f) \<Longrightarrow> cstep ok s (abort_fetch t k f (Some e) s)"
| owner_cancelled: "tasks s t = Some (Fetching k f) \<Longrightarrow> cstep ok s (abort_fetch t k f None s)"
| joined_value: "tasks s t = Some (Joined k f) \<Longrightarrow> futs s f = Some (FResult v) \<Longrightarrow>
    cstep ok s (set_task t (Returned k v) s)"
| joined_error: "tasks s t = Some (Joined k f) \<Longrightarrow> futs s f = Some (FException e) \<Longrightarrow>
    cstep ok s (set_task t (Raised k e) s)"
| joined_retry: "tasks s t = Some (Joined k f) \<Longrightarrow> futs s f = Some FCancelled \<Longrightarrow> cstep ok s (enter hf t k s)"
| joiner_cancelled: "tasks s t = Some (Joined k f) \<Longrightarrow> cstep ok s (set_task t (WasCancelled k) s)"
| do_lookup: "cstep ok s (with_cache (\<lambda>c. snd (lookup k d c)) s)"
| do_put: "ok k v \<Longrightarrow> cstep ok s (mark_stored [k] (with_cache (put k v) s))"
| do_put_many: "\<forall>(k, v) \<in> set items. ok k v \<Longrightarrow>
    cstep ok s (mark_stored (map fst items) (with_cache (put_many items) s))"
| do_invalidate: "cstep ok s (mark_invalid key (with_cache (invalidate key) s))"
| set_maxsize: "cstep ok s (with_cache (\<lambda>c. c\<lparr>c_maxsize := m\<rparr>) s)"
| settle_call: "tasks s t = None \<Longrightarrow> cstep ok s (set_task t (settle_start s) s)"
| settle_next: "tasks s t = Some (Settling w) \<Longrightarrow> s_current w = None \<Longrightarrow> cstep ok s (set_task t (settle_reach s w) s)"
| settle_await: "tasks s t = Some (Settling w) \<Longrightarrow> s_current w = Some (k, f) \<Longrightarrow> futs s f = Some r \<Longrightarrow> fut_done r \<Longrightarrow>
    cstep ok s (set_task t (Settling (settle_got r w)) s)"

definition reachable :: "('k \<Rightarrow> 'v \<Rightarrow> bool) \<Rightarrow> nat option \<Rightarrow> ('k, 'v) sys \<Rightarrow> bool" where
  "reachable ok m s \<longleftrightarrow> (cstep ok)\<^sup>*\<^sup>* (sys_init m) s"

subsection \<open>Lemmas about the dictionary and the eviction loop\<close>

lemma evict_loop_drop:
  "evict_loop m xs n = (drop (length xs - m) xs, n + (length xs - m))"
  by (induction m xs n rule: evict_loop.induct) (auto simp: Suc_diff_le)

lemma set_od_pop [simp]: "set (od_pop k d) = {p \<in> set d. fst p \<noteq> k}"
  by (auto simp: od_pop_def)

lemma od_pop_absent: "k \<notin> fst ` set d \<Longrightarrow> od_pop k d = d"
  by (auto simp: od_pop_def filter_id_conv)

lemma distinct_od_pop [simp]: "distinct (map fst d) \<Longrightarrow> distinct (map fst (od_pop k d))"
  unfolding od_pop_def by (rule distinct_map_filter)

lemma distinct_snd_od_pop [simp]: "distinct (map snd d) \<Longrightarrow> distinct (map snd (od_pop k d))"
  unfolding od_pop_def by (rule distinct_map_filter)

lemma od_set_last_simps [simp]:
  "set (od_set_last k v d) = insert (k, v) {p \<in> set d. fst p \<noteq> k}"
  "distinct (map fst d) \<Longrightarrow> distinct (map fst (od_set_last k v d))"
  by (auto simp: od_set_last_def)

lemma set_od_move_to_end:
  assumes "distinct (map fst d)"
  shows "set (od_move_to_end k d) = set d"
proof (cases "map_of d k")
  case (Some v)
  have "p = (k, v)" if "p \<in> set d" "fst p = k" for p
    using map_of_is_SomeI [OF assms, of "fst p" "snd p"] that Some by (cases p) simp
  then have "insert (k, v) {p \<in> set d. fst p \<noteq> k} = set d" using map_of_SomeD [OF Some] by blast
  then show ?thesis by (simp add: od_move_to_end_def Some)
qed (simp add: od_move_to_end_def)

lemma od_move_to_end_simps [simp]:
  "distinct (map fst d) \<Longrightarrow> set (od_move_to_end k d) = set d"
  "distinct (map fst d) \<Longrightarrow> distinct (map fst (od_move_to_end k d))"
  by (rule set_od_move_to_end) (simp_all add: od_move_to_end_def split: option.split)

lemma put_many_store:
  "set (fold (\<lambda>(k, v). od_set_last k v) items d) \<subseteq> set items \<union> {p \<in> set d. fst p \<notin> fst ` set items}"
  "distinct (map fst d) \<Longrightarrow> distinct (map fst (fold (\<lambda>(k, v). od_set_last k v) items d))"
proof (induction items arbitrary: d)
  case (Cons x items)
  obtain k v where x: "x = (k, v)" by (cases x)
  { case 1 show ?case using Cons.IH(1) [of "od_set_last k v d"] by (force simp: x) }
  { case 2 then show ?case using Cons.IH(2) [of "od_set_last k v d"] by (simp add: x) }
qed auto

lemma evict_fields [simp]:
  "c_inflight (evict c) = c_inflight c" "c_stale (evict c) = c_stale c" "c_maxsize (evict c) = c_maxsize c"
  "c_hits (evict c) = c_hits c" "c_misses (evict c) = c_misses c"
  by (simp_all add: evict_def split: option.split prod.split)

lemma evict_store:
  "c_store (evict c) = (case c_maxsize c of None \<Rightarrow> c_store c | Some m \<Rightarrow> drop (length (c_store c) - m) (c_store c))"
  "c_evictions (evict c) = c_evictions c + (case c_maxsize c of None \<Rightarrow> 0 | Some m \<Rightarrow> length (c_store c) - m)"
  by (simp_all add: evict_def evict_loop_drop split: option.split)

lemma evict_store_subset: "set (c_store (evict c)) \<subseteq> set (c_store c)"
  by (auto simp: evict_store split: option.split dest: in_set_dropD)

lemma evict_distinct [simp]: "distinct (map fst (c_store c)) \<Longrightarrow> distinct (map fst (c_store (evict c)))"
  by (auto simp: evict_store drop_map [symmetric] split: option.split)

subsection \<open>The invariant\<close>

text \<open>
  The flight of a key: it is still registered, or its future is settled (with a value that is
  right for the key, when it has one).
\<close>

definition flight_ok :: "('k \<Rightarrow> 'v \<Rightarrow> bool) \<Rightarrow> ('k, 'v) sys \<Rightarrow> 'k \<Rightarrow> nat \<Rightarrow> bool" where
  "flight_ok ok s k f \<longleftrightarrow> (k, f) \<in> set (c_inflight (the_cache s)) \<or>
     (\<exists>r. futs s f = Some r \<and> fut_done r \<and> (\<forall>v. r = FResult v \<longrightarrow> ok k v))"

definition settled_fut :: "('k, 'v) sys \<Rightarrow> nat \<Rightarrow> bool" where
  "settled_fut s f \<longleftrightarrow> (\<exists>r. futs s f = Some r \<and> fut_done r)"

definition settling_ok :: "('k \<Rightarrow> 'v \<Rightarrow> bool) \<Rightarrow> ('k, 'v) sys \<Rightarrow> ('k, 'v) settling \<Rightarrow> bool" where
  "settling_ok ok s w \<longleftrightarrow>
     (\<forall>(k, v) \<in> set (s_held w). ok k v) \<and> (\<forall>k v. s_landed w k = Some v \<longrightarrow> ok k v) \<and>
     (\<forall>(k, f) \<in> set (s_pending w). flight_ok ok s k f) \<and>
     (\<forall>k f. s_current w = Some (k, f) \<longrightarrow> flight_ok ok s k f) \<and>
     (\<forall>f \<in> s_awaited w. settled_fut s f \<or> (\<exists>k. s_current w = Some (k, f)))"

fun task_ok :: "('k \<Rightarrow> 'v \<Rightarrow> bool) \<Rightarrow> ('k, 'v) sys \<Rightarrow> ('k, 'v) task \<Rightarrow> bool" where
  "task_ok ok s (Fetching k f) \<longleftrightarrow> (k, f) \<in> set (c_inflight (the_cache s))"
| "task_ok ok s (Joined k f) \<longleftrightarrow> flight_ok ok s k f"
| "task_ok ok s (Returned k v) \<longleftrightarrow> ok k v"
| "task_ok ok s (Settling w) \<longleftrightarrow> settling_ok ok s w"
| "task_ok ok s (Settled r es) \<longleftrightarrow> (\<forall>k v. r k = Some v \<longrightarrow> ok k v)"
| "task_ok ok s _ \<longleftrightarrow> True"

definition is_fetching :: "('k, 'v) task option \<Rightarrow> bool" where
  "is_fetching x \<longleftrightarrow> (\<exists>k f. x = Some (Fetching k f))"

definition cache_ok :: "('k \<Rightarrow> 'v \<Rightarrow> bool) \<Rightarrow> ('k, 'v) sys \<Rightarrow> bool" where
  "cache_ok ok s \<longleftrightarrow> (let c = the_cache s in
     distinct (map fst (c_store c)) \<and> distinct (map fst (c_inflight c)) \<and> distinct (map snd (c_inflight c)) \<and>
     c_stale c \<subseteq> fst ` set (c_inflight c) \<and>
     (\<forall>f. futs s f = Some FPending \<longleftrightarrow> f \<in> snd ` set (c_inflight c)) \<and> (\<forall>f. next_fut s \<le> f \<longrightarrow> futs s f = None) \<and>
     (\<forall>(k, v) \<in> set (c_store c). ok k v))"

definition owners_ok :: "('k, 'v) sys \<Rightarrow> bool" where
  "owners_ok s \<longleftrightarrow>
     (\<forall>(k, f) \<in> set (c_inflight (the_cache s)). \<exists>t. tasks s t = Some (Fetching k f)) \<and>
     (\<forall>t t' k f. tasks s t = Some (Fetching k f) \<and> tasks s t' = Some (Fetching k f) \<longrightarrow> t = t')"

definition fresh_ok :: "('k, 'v) sys \<Rightarrow> bool" where
  "fresh_ok s \<longleftrightarrow>
     (\<forall>k. invalidated_at s k \<le> clock s) \<and>
     (\<forall>(k, v) \<in> set (c_store (the_cache s)). invalidated_at s k \<le> stored_from s k) \<and>
     (\<forall>(k, f) \<in> set (c_inflight (the_cache s)). k \<notin> c_stale (the_cache s) \<longrightarrow> invalidated_at s k \<le> began s f)"

definition sys_ok :: "('k \<Rightarrow> 'v \<Rightarrow> bool) \<Rightarrow> ('k, 'v) sys \<Rightarrow> bool" where
  "sys_ok ok s \<longleftrightarrow> cache_ok ok s \<and> owners_ok s \<and> fresh_ok s \<and> (\<forall>t x. tasks s t = Some x \<longrightarrow> task_ok ok s x)"

lemma sys_okI:
  assumes "cache_ok ok s" and "owners_ok s" and "fresh_ok s" and "\<And>t x. tasks s t = Some x \<Longrightarrow> task_ok ok s x"
  shows "sys_ok ok s"
  using assms by (simp add: sys_ok_def)

lemma sys_okD:
  assumes "sys_ok ok s"
  shows "cache_ok ok s" "owners_ok s" "fresh_ok s" "tasks s t = Some x \<Longrightarrow> task_ok ok s x"
  using assms by (simp_all add: sys_ok_def)

lemma set_task_fields [simp]:
  "the_cache (set_task t x s) = the_cache s" "futs (set_task t x s) = futs s" "next_fut (set_task t x s) = next_fut s"
  "clock (set_task t x s) = clock s" "invalidated_at (set_task t x s) = invalidated_at s"
  "began (set_task t x s) = began s" "stored_from (set_task t x s) = stored_from s"
  "tasks (set_task t x s) = (tasks s)(t \<mapsto> x)"
  by (simp_all add: set_task_def)

lemma cache_okD:
  assumes "cache_ok ok s"
  shows "distinct (map fst (c_store (the_cache s)))" "distinct (map fst (c_inflight (the_cache s)))"
    "distinct (map snd (c_inflight (the_cache s)))" "c_stale (the_cache s) \<subseteq> fst ` set (c_inflight (the_cache s))"
    "futs s f = Some FPending \<longleftrightarrow> f \<in> snd ` set (c_inflight (the_cache s))"
    "next_fut s \<le> f \<Longrightarrow> futs s f = None" "(k, v) \<in> set (c_store (the_cache s)) \<Longrightarrow> ok k v"
  using assms unfolding cache_ok_def Let_def by auto

text \<open>A task's obligation survives any step that keeps the flights it knows of.\<close>

lemma task_ok_mono:
  assumes "task_ok ok s x" and "\<And>k f. flight_ok ok s k f \<Longrightarrow> flight_ok ok s' k f"
    and "\<And>f. settled_fut s f \<Longrightarrow> settled_fut s' f"
    and "\<And>k f. x = Fetching k f \<Longrightarrow> (k, f) \<in> set (c_inflight (the_cache s'))"
  shows "task_ok ok s' x"
proof (cases x)
  case (Settling w)
  have m: "\<forall>k f. flight_ok ok s k f \<longrightarrow> flight_ok ok s' k f" "\<forall>f. settled_fut s f \<longrightarrow> settled_fut s' f"
    using assms(2,3) by blast+
  have "settling_ok ok s w" using assms(1) Settling by simp
  then have "settling_ok ok s' w" using m unfolding settling_ok_def by (auto; blast)
  then show ?thesis by (simp add: Settling)
qed (use assms in auto)

lemma sys_ok_set_task:
  assumes "sys_ok ok s" and "\<not> is_fetching (tasks s t)" and "task_ok ok s x" and "\<not> is_fetching (Some x)"
  shows "sys_ok ok (set_task t x s)"
proof (rule sys_okI)
  show "cache_ok ok (set_task t x s)" "fresh_ok (set_task t x s)"
    using sys_okD [OF assms(1)] by (simp_all add: cache_ok_def fresh_ok_def)
  have same: "tasks (set_task t x s) t' = Some (Fetching k f) \<longleftrightarrow> tasks s t' = Some (Fetching k f)" for t' k f
    using assms(2,4) by (cases "t' = t") (auto simp: is_fetching_def)
  show "owners_ok (set_task t x s)"
    using sys_okD(2) [OF assms(1)] unfolding owners_ok_def same by simp
next
  fix t' y assume "tasks (set_task t x s) t' = Some y"
  then have y: "task_ok ok s y" using assms(3) sys_okD(4) [OF assms(1)] by (auto split: if_splits)
  then show "task_ok ok (set_task t x s) y"
    by (rule task_ok_mono) (use y in \<open>auto simp: flight_ok_def settled_fut_def\<close>)
qed

text \<open>Steps that only rearrange the stored entries, the counters and the stale marks.\<close>

lemma sys_ok_cache:
  assumes s: "sys_ok ok s"
    and same: "futs s' = futs s" "next_fut s' = next_fut s" "tasks s' = tasks s"
      "c_inflight (the_cache s') = c_inflight (the_cache s)"
    and "c_stale (the_cache s') \<subseteq> fst ` set (c_inflight (the_cache s))"
    and "distinct (map fst (c_store (the_cache s')))" and "\<forall>(k, v) \<in> set (c_store (the_cache s')). ok k v"
    and "fresh_ok s'"
  shows "sys_ok ok s'"
proof (rule sys_okI)
  show "cache_ok ok s'" "owners_ok s'"
    using sys_okD(1,2) [OF s] assms by (simp_all add: cache_ok_def owners_ok_def Let_def)
  show "fresh_ok s'" by (rule assms)
next
  fix t x assume "tasks s' t = Some x"
  then have "task_ok ok s x" using sys_okD(4) [OF s] same by simp
  then show "task_ok ok s' x"
    by (rule task_ok_mono) (use \<open>task_ok ok s x\<close> same in \<open>auto simp: flight_ok_def settled_fut_def\<close>)
qed

lemma lookup_fields:
  assumes "distinct (map fst (c_store c))"
  shows "set (c_store (snd (lookup k d c))) = set (c_store c)" "distinct (map fst (c_store (snd (lookup k d c))))"
    "c_inflight (snd (lookup k d c)) = c_inflight c" "c_stale (snd (lookup k d c)) = c_stale c"
  using assms by (auto simp: lookup_def split: option.splits)

lemma sys_ok_lookup: "sys_ok ok s \<Longrightarrow> sys_ok ok (with_cache (\<lambda>c. snd (lookup k d c)) s)"
proof -
  assume s: "sys_ok ok s"
  then have d: "distinct (map fst (c_store (the_cache s)))" by (simp add: sys_ok_def cache_ok_def Let_def)
  show ?thesis
    by (rule sys_ok_cache [OF s])
      (use sys_okD(1,3) [OF s] lookup_fields [OF d, of k "d"] in \<open>auto simp: with_cache_def cache_ok_def fresh_ok_def Let_def\<close>)
qed

lemma sys_ok_put_many:
  assumes s: "sys_ok ok s" and items: "\<forall>(k, v) \<in> set items. ok k v"
  shows "sys_ok ok (mark_stored (map fst items) (with_cache (put_many items) s))"
proof (rule sys_ok_cache [OF s])
  let ?c = "the_cache s"
  let ?s = "mark_stored (map fst items) (with_cache (put_many items) s)"
  have sub: "set (c_store (the_cache ?s)) \<subseteq> set items \<union> {p \<in> set (c_store ?c). fst p \<notin> fst ` set items}"
    using put_many_store(1) [of items "c_store ?c"] evict_store_subset [of "?c\<lparr>c_store := fold (\<lambda>(k, v). od_set_last k v) items (c_store ?c)\<rparr>"]
    by (auto simp: mark_stored_def with_cache_def put_many_def)
  show "futs ?s = futs s" "next_fut ?s = next_fut s" "tasks ?s = tasks s"
    "c_inflight (the_cache ?s) = c_inflight ?c"
    by (simp_all add: mark_stored_def with_cache_def put_many_def)
  show "c_stale (the_cache ?s) \<subseteq> fst ` set (c_inflight ?c)"
    using sys_okD(1) [OF s] by (simp add: mark_stored_def with_cache_def put_many_def cache_ok_def Let_def)
  show "distinct (map fst (c_store (the_cache ?s)))"
    using sys_okD(1) [OF s] put_many_store(2) [of "c_store ?c" items]
    by (simp add: mark_stored_def with_cache_def put_many_def cache_ok_def Let_def)
  show "\<forall>(k, v) \<in> set (c_store (the_cache ?s)). ok k v"
    using sub items sys_okD(1) [OF s] by (fastforce simp: cache_ok_def Let_def)
  have f: "\<forall>(k, v) \<in> set (c_store (the_cache ?s)). invalidated_at ?s k \<le> stored_from ?s k"
  proof clarify
    fix k v assume "(k, v) \<in> set (c_store (the_cache ?s))"
    then have "k \<in> fst ` set items \<or> (k, v) \<in> set (c_store ?c) \<and> k \<notin> fst ` set items" using sub by force
    then show "invalidated_at ?s k \<le> stored_from ?s k"
      using sys_okD(3) [OF s] by (auto simp: mark_stored_def with_cache_def fresh_ok_def)
  qed
  show "fresh_ok ?s"
    using f sys_okD(3) [OF s] by (auto simp: fresh_ok_def mark_stored_def with_cache_def put_many_def)
qed

lemma put_is_put_many: "put k v = put_many [(k, v)]"
  by (rule ext) (simp add: put_def put_many_def store_and_evict_def)

lemma sys_ok_invalidate: "sys_ok ok s \<Longrightarrow> sys_ok ok (mark_invalid key (with_cache (invalidate key) s))"
proof (rule sys_ok_cache [of ok s])
  assume s: "sys_ok ok s"
  let ?s = "mark_invalid key (with_cache (invalidate key) s)"
  have c: "the_cache ?s = invalidate key (the_cache s)" by (simp add: mark_invalid_def with_cache_def)
  show "sys_ok ok s" by (rule s)
  show "futs ?s = futs s" "next_fut ?s = next_fut s" "tasks ?s = tasks s" "c_inflight (the_cache ?s) = c_inflight (the_cache s)"
    by (simp_all add: mark_invalid_def with_cache_def invalidate_def split: option.split)
  show "c_stale (the_cache ?s) \<subseteq> fst ` set (c_inflight (the_cache s))"
    "distinct (map fst (c_store (the_cache ?s)))" "\<forall>(k, v) \<in> set (c_store (the_cache ?s)). ok k v"
    using sys_okD(1) [OF s] unfolding c
    by (auto simp: invalidate_def cache_ok_def Let_def split: option.splits)
  have ghost: "clock ?s = Suc (clock s)" "stored_from ?s = stored_from s" "began ?s = began s"
    "invalidated_at ?s = (\<lambda>k. if key = None \<or> key = Some k then Suc (clock s) else invalidated_at s k)"
    by (simp_all add: mark_invalid_def with_cache_def fun_eq_iff)
  note fr = sys_okD(3) [OF s, unfolded fresh_ok_def]
  have a: "invalidated_at ?s k \<le> clock ?s" for k
    using fr by (simp add: ghost le_SucI)
  have b: "invalidated_at ?s k \<le> stored_from ?s k" if "(k, v) \<in> set (c_store (the_cache ?s))" for k v
    using that fr unfolding c ghost by (cases key) (auto simp: invalidate_def)
  have d: "invalidated_at ?s k \<le> began ?s f"
    if "(k, f) \<in> set (c_inflight (the_cache ?s))" "k \<notin> c_stale (the_cache ?s)" for k f
    using that fr unfolding c ghost by (cases key) (force simp: invalidate_def split: if_splits)+
  show "fresh_ok ?s"
    unfolding fresh_ok_def using a b d by blast
qed

lemma sys_ok_enter:
  assumes s: "sys_ok ok s" and t: "\<not> is_fetching (tasks s t)"
  shows "sys_ok ok (enter hf t k s)"
proof (cases "map_of (c_store (the_cache s)) k")
  case (Some v)
  let ?c = "the_cache s"
  let ?s = "s\<lparr>the_cache := ?c\<lparr>c_hits := Suc (c_hits ?c), c_store := od_move_to_end k (c_store ?c)\<rparr>\<rparr>"
  have "sys_ok ok ?s"
    by (rule sys_ok_cache [OF s]) (use sys_okD(1,3) [OF s] in \<open>auto simp: cache_ok_def fresh_ok_def Let_def\<close>)
  moreover have "ok k v" using Some sys_okD(1) [OF s] by (auto simp: cache_ok_def Let_def dest!: map_of_SomeD)
  ultimately have "sys_ok ok (set_task t (Returned k v) ?s)"
    using t by (intro sys_ok_set_task) (auto simp: is_fetching_def)
  then show ?thesis using Some by (simp add: enter_def Let_def)
next
  case None
  show ?thesis
  proof (cases "map_of (c_inflight (the_cache s)) k")
    case (Some f)
    have "sys_ok ok (set_task t (Joined k f) s)"
      using s t map_of_SomeD [OF Some] by (intro sys_ok_set_task) (auto simp: is_fetching_def flight_ok_def)
    then show ?thesis using None Some by (simp add: enter_def Let_def)
  next
    case new: None
    let ?c = "the_cache s"
    show ?thesis
    proof (cases hf)
      case False
      let ?s = "s\<lparr>the_cache := ?c\<lparr>c_misses := Suc (c_misses ?c)\<rparr>\<rparr>"
      have "sys_ok ok ?s"
        by (rule sys_ok_cache [OF s]) (use sys_okD(1,3) [OF s] in \<open>auto simp: cache_ok_def fresh_ok_def Let_def\<close>)
      then have "sys_ok ok (set_task t (Raised k PyTypeError) ?s)"
        using t by (intro sys_ok_set_task) (auto simp: is_fetching_def)
      then show ?thesis using None new False by (simp add: enter_def Let_def)
    next
      case True
      let ?f = "next_fut s"
      let ?s = "enter hf t k s"
      have e: "?s = set_task t (Fetching k ?f)
          (s\<lparr>the_cache := ?c\<lparr>c_misses := Suc (c_misses ?c), c_inflight := c_inflight ?c @ [(k, ?f)]\<rparr>,
             futs := (futs s)(?f \<mapsto> FPending), next_fut := Suc ?f, began := (began s)(?f := clock s)\<rparr>)"
        using None new True by (simp add: enter_def Let_def)
      have nk: "k \<notin> fst ` set (c_inflight ?c)" using new by (simp add: map_of_eq_None_iff)
      have nf: "futs s ?f = None" "?f \<notin> snd ` set (c_inflight ?c)"
        using cache_okD(5,6) [OF sys_okD(1) [OF s], of ?f] by simp_all
      have fl: "(k', f') \<in> set (c_inflight ?c) \<Longrightarrow> f' \<noteq> ?f" for k' f' using nf(2) by force
      have same: "tasks ?s t' = Some (Fetching k' f') \<longleftrightarrow>
          t' = t \<and> k' = k \<and> f' = ?f \<or> tasks s t' = Some (Fetching k' f')" for t' k' f'
        using t by (cases "t' = t") (auto simp: is_fetching_def e)
      have fly: "tasks s t' = Some (Fetching k' f') \<Longrightarrow> (k', f') \<in> set (c_inflight ?c)" for t' k' f'
        using sys_okD(4) [OF s] by fastforce
      show ?thesis
      proof (rule sys_okI)
        show "cache_ok ok ?s"
          using sys_okD(1) [OF s] nk nf by (auto simp: e cache_ok_def Let_def)
        show "fresh_ok ?s"
          using sys_okD(3) [OF s] fl by (auto simp: e fresh_ok_def)
        show "owners_ok ?s"
          using sys_okD(2) [OF s] fly fl unfolding owners_ok_def same by (simp add: e) blast
      next
        fix t' x assume x: "tasks ?s t' = Some x"
        show "task_ok ok ?s x"
        proof (cases "t' = t")
          case True
          then show ?thesis using x by (auto simp: e)
        next
          case False
          then have y: "task_ok ok s x" using x sys_okD(4) [OF s] by (simp add: e)
          then show ?thesis
            by (rule task_ok_mono)
              (use y nf in \<open>auto simp: e flight_ok_def settled_fut_def\<close>)
        qed
      qed
    qed
  qed
qed

text \<open>What both ends of a fetch do to the rest of the system.\<close>

lemma sys_ok_end_fetch:
  assumes s: "sys_ok ok s" and t: "tasks s t = Some (Fetching k f)"
    and futs: "futs s' = (futs s)(f \<mapsto> r)" "fut_done r" "\<And>v. r = FResult v \<Longrightarrow> ok k v"
    and same: "next_fut s' = next_fut s" "clock s' = clock s" "invalidated_at s' = invalidated_at s" "began s' = began s"
    and tasks: "tasks s' = (tasks s)(t \<mapsto> x)" "task_ok ok s x" "\<not> is_fetching (Some x)"
    and infl: "c_inflight (the_cache s') = od_pop k (c_inflight (the_cache s))"
      "c_stale (the_cache s') = c_stale (the_cache s) - {k}"
    and st: "distinct (map fst (c_store (the_cache s')))" "\<forall>(k, v) \<in> set (c_store (the_cache s')). ok k v"
      "\<forall>(k, v) \<in> set (c_store (the_cache s')). invalidated_at s k \<le> stored_from s' k"
  shows "sys_ok ok s'"
proof -
  let ?I = "c_inflight (the_cache s)"
  have kf: "(k, f) \<in> set ?I" using sys_okD(4) [OF s t] by simp
  have dk: "(k', f') \<in> set ?I \<Longrightarrow> k' = k \<longleftrightarrow> f' = f" for k' f'
    using kf sys_okD(1) [OF s] unfolding cache_ok_def Let_def distinct_map inj_on_def
    by (metis fst_conv snd_conv)
  have pend: "futs s f = Some FPending"
    using kf cache_okD(5) [OF sys_okD(1) [OF s], of f] by force
  have tk: "tasks s' t' = Some (Fetching k' f') \<longleftrightarrow> t' \<noteq> t \<and> tasks s t' = Some (Fetching k' f')" for t' k' f'
    using tasks by (auto simp: is_fetching_def)
  have one: "tasks s t' = Some (Fetching k f) \<Longrightarrow> t' = t" for t'
    using sys_okD(2) [OF s] t by (auto simp: owners_ok_def)
  have fly: "tasks s t' = Some (Fetching k' f') \<Longrightarrow> (k', f') \<in> set ?I" for t' k' f'
    using sys_okD(4) [OF s] by fastforce
  show ?thesis
  proof (rule sys_okI)
    have "futs s' g = Some FPending \<longleftrightarrow> g \<in> snd ` set (c_inflight (the_cache s'))" for g
    proof -
      have "futs s g = Some FPending \<longleftrightarrow> g \<in> snd ` set ?I" using sys_okD(1) [OF s] by (simp add: cache_ok_def Let_def)
      moreover have "g \<in> snd ` set (c_inflight (the_cache s')) \<longleftrightarrow> g \<noteq> f \<and> g \<in> snd ` set ?I"
      proof
        assume "g \<in> snd ` set (c_inflight (the_cache s'))"
        then obtain k' where "(k', g) \<in> set ?I" "k' \<noteq> k" by (auto simp: infl(1))
        then show "g \<noteq> f \<and> g \<in> snd ` set ?I" using dk [of k' g] by force
      next
        assume "g \<noteq> f \<and> g \<in> snd ` set ?I"
        then obtain k' where "(k', g) \<in> set ?I" "g \<noteq> f" by auto
        then show "g \<in> snd ` set (c_inflight (the_cache s'))" using dk [of k' g] by (force simp: infl(1))
      qed
      ultimately show ?thesis using futs(1,2) by (auto simp: fut_done_def)
    qed
    moreover have "futs s' g = None" if "next_fut s' \<le> g" for g
    proof -
      have "futs s g = None" using that cache_okD(6) [OF sys_okD(1) [OF s]] by (simp add: same(1))
      moreover from this pend have "g \<noteq> f" by auto
      ultimately have "g \<noteq> f \<and> futs s g = None" by simp
      then show ?thesis by (simp add: futs(1))
    qed
    moreover have "c_stale (the_cache s') \<subseteq> fst ` set (c_inflight (the_cache s'))"
    proof
      fix x assume "x \<in> c_stale (the_cache s')"
      then have "x \<in> c_stale (the_cache s)" "x \<noteq> k" by (simp_all add: infl(2))
      then obtain g where "(x, g) \<in> set ?I" using sys_okD(1) [OF s] by (force simp: cache_ok_def Let_def)
      then show "x \<in> fst ` set (c_inflight (the_cache s'))" using \<open>x \<noteq> k\<close> by (force simp: infl(1))
    qed
    ultimately show "cache_ok ok s'"
      using sys_okD(1) [OF s] st infl by (simp add: cache_ok_def Let_def)
    show "fresh_ok s'"
      using sys_okD(3) [OF s] st(3) unfolding fresh_ok_def same infl by auto
    have "\<exists>t. tasks s' t = Some (Fetching k' f')" if "(k', f') \<in> set (c_inflight (the_cache s'))" for k' f'
    proof -
      from that have kf': "(k', f') \<in> set ?I" "k' \<noteq> k" by (auto simp: infl)
      then obtain t' where "tasks s t' = Some (Fetching k' f')" using sys_okD(2) [OF s] by (auto simp: owners_ok_def)
      moreover from this have "t' \<noteq> t" using t kf'(2) by auto
      ultimately show ?thesis using tk by blast
    qed
    then show "owners_ok s'" using sys_okD(2) [OF s] unfolding owners_ok_def tk by blast
  next
    fix t' y assume y: "tasks s' t' = Some y"
    have ok: "task_ok ok s y" using y tasks sys_okD(4) [OF s] by (auto split: if_splits)
    then show "task_ok ok s' y"
    proof (rule task_ok_mono)
      fix k' f' show "flight_ok ok s k' f' \<Longrightarrow> flight_ok ok s' k' f'"
        using futs dk [of k' f'] pend by (cases "f' = f") (auto simp: flight_ok_def infl fut_done_def)
    next
      fix f' show "settled_fut s f' \<Longrightarrow> settled_fut s' f'" using futs by (auto simp: settled_fut_def)
    next
      fix k' f' assume e: "y = Fetching k' f'"
      then have "t' \<noteq> t \<and> tasks s t' = Some (Fetching k' f')" using y tk by simp
      then show "(k', f') \<in> set (c_inflight (the_cache s'))"
        using fly [of t' k' f'] dk [of k' f'] one [of t'] by (auto simp: infl)
    qed
  qed
qed

lemma settle_fut_pending: "futs s f = Some FPending \<Longrightarrow> settle_fut f r s = s\<lparr>futs := (futs s)(f \<mapsto> r)\<rparr>"
  by (simp add: settle_fut_def)

lemma sys_ok_finish:
  assumes s: "sys_ok ok s" and t: "tasks s t = Some (Fetching k f)" and v: "ok k v"
  shows "sys_ok ok (finish_fetch t k f v s)"
proof -
  let ?c = "the_cache s"
  have kf: "(k, f) \<in> set (c_inflight ?c)" using sys_okD(4) [OF s t] by simp
  then have p: "futs s f = Some FPending" using cache_okD(5) [OF sys_okD(1) [OF s], of f] by force
  show ?thesis
  proof (cases "k \<in> c_stale ?c")
    case True
    show ?thesis
      by (rule sys_ok_end_fetch [OF s t, where r = "FResult v" and x = "Returned k v"])
        (use True p v cache_okD [OF sys_okD(1) [OF s]] sys_okD(3) [OF s] in
          \<open>auto simp: finish_fetch_def Let_def settle_fut_def fut_done_def is_fetching_def fresh_ok_def\<close>)
  next
    case False
    let ?st = "c_store (store_and_evict k v ?c)"
    have sub: "set ?st \<subseteq> insert (k, v) {p \<in> set (c_store ?c). fst p \<noteq> k}"
      using evict_store_subset [of "?c\<lparr>c_store := od_set_last k v (c_store ?c)\<rparr>"] by (simp add: store_and_evict_def)
    have d: "distinct (map fst ?st)"
      using cache_okD(1) [OF sys_okD(1) [OF s]] by (simp add: store_and_evict_def)
    have b: "invalidated_at s k \<le> began s f" using False kf sys_okD(3) [OF s] by (auto simp: fresh_ok_def)
    have st: "\<forall>(k', v') \<in> set ?st. ok k' v'"
      using sub v cache_okD(7) [OF sys_okD(1) [OF s]] by fastforce
    have fr: "\<forall>(k', v') \<in> set ?st. invalidated_at s k' \<le> ((stored_from s)(k := began s f)) k'"
      using sub b sys_okD(3) [OF s] by (fastforce simp: fresh_ok_def)
    show ?thesis
      by (rule sys_ok_end_fetch [OF s t, where r = "FResult v" and x = "Returned k v"])
        (use False p v d st fr in
          \<open>simp_all add: finish_fetch_def Let_def settle_fut_def fut_done_def is_fetching_def store_and_evict_def\<close>)
  qed
qed

lemma sys_ok_abort:
  assumes s: "sys_ok ok s" and t: "tasks s t = Some (Fetching k f)"
  shows "sys_ok ok (abort_fetch t k f exc s)"
proof -
  have "(k, f) \<in> set (c_inflight (the_cache s))" using sys_okD(4) [OF s t] by simp
  then have p: "futs s f = Some FPending" using cache_okD(5) [OF sys_okD(1) [OF s], of f] by force
  show ?thesis
    by (rule sys_ok_end_fetch [OF s t, where r = "case exc of Some e \<Rightarrow> FException e | None \<Rightarrow> FCancelled"
          and x = "case exc of Some e \<Rightarrow> Raised k e | None \<Rightarrow> WasCancelled k"])
      (use p cache_okD [OF sys_okD(1) [OF s]] sys_okD(3) [OF s] in
        \<open>auto simp: abort_fetch_def Let_def settle_fut_def fut_done_def is_fetching_def fresh_ok_def split: option.splits\<close>)
qed

lemma flight_ok_known:
  assumes s: "sys_ok ok s" and "flight_ok ok s k f"
  obtains r where "futs s f = Some r" "r \<noteq> FPending \<Longrightarrow> fut_done r" "\<And>v. r = FResult v \<Longrightarrow> ok k v"
  using assms(2) cache_okD(5) [OF sys_okD(1) [OF s], of f] unfolding flight_ok_def by force

lemma task_ok_settle_reach:
  assumes s: "sys_ok ok s" and w: "settling_ok ok s w" and "s_current w = None"
  shows "task_ok ok s (settle_reach s w)" "\<not> is_fetching (Some (settle_reach s w))"
proof -
  show "\<not> is_fetching (Some (settle_reach s w))"
    by (auto simp: settle_reach_def is_fetching_def Let_def split: list.splits if_splits option.splits prod.splits)
  show "task_ok ok s (settle_reach s w)"
  proof (cases "s_pending w")
    case Nil
    have st: "map_of (c_store (the_cache s)) k = Some v \<Longrightarrow> ok k v" for k v
      using cache_okD(7) [OF sys_okD(1) [OF s]] by (auto dest: map_of_SomeD)
    have held: "map_of (s_held w) k = Some v \<Longrightarrow> ok k v" for k v
      using w by (auto simp: settling_ok_def dest: map_of_SomeD)
    show ?thesis
      using Nil w st held assms(3)
      by (auto simp: settle_reach_def Let_def settling_ok_def flight_ok_def map_add_Some_iff)
  next
    case (Cons p rest)
    obtain k f where p: "p = (k, f)" by (cases p)
    have fl: "flight_ok ok s k f" using w Cons p by (auto simp: settling_ok_def)
    then obtain r where r: "futs s f = Some r" using flight_ok_known [OF s] by blast
    have "fut_failed r \<Longrightarrow> settled_fut s f"
      using r by (auto simp: fut_failed_def settled_fut_def fut_done_def split: fut.splits)
    then show ?thesis
      using Cons p w fl r assms(3) by (auto simp: settle_reach_def Let_def settling_ok_def)
  qed
qed

lemma task_ok_settle_got:
  assumes s: "sys_ok ok s" and w: "settling_ok ok s w" and c: "s_current w = Some (k, f)"
    and r: "futs s f = Some r" "fut_done r"
  shows "task_ok ok s (Settling (settle_got r w))"
proof -
  have fl: "flight_ok ok s k f" using w c by (simp add: settling_ok_def)
  have v: "r = FResult v \<Longrightarrow> ok k v" for v using flight_ok_known [OF s fl] r(1) by force
  have sf: "settled_fut s f" using r by (simp add: settled_fut_def)
  show ?thesis
    using w c v sf r(2) by (cases r) (auto simp: settle_got_def settling_ok_def fut_done_def)
qed

lemma sys_ok_step:
  assumes "cstep ok s s'" and s: "sys_ok ok s"
  shows "sys_ok ok s'"
  using assms(1)
proof cases
  case (joined_value t k f v)
  have "flight_ok ok s k f" using sys_okD(4) [OF s joined_value(2)] by simp
  then have "ok k v" using flight_ok_known [OF s] joined_value(3) by force
  with joined_value s show ?thesis by (simp add: sys_ok_set_task is_fetching_def)
next
  case (do_put k v)
  then show ?thesis using sys_ok_put_many [OF s, of "[(k, v)]"] by (simp add: put_is_put_many)
next
  case (set_maxsize m)
  then show ?thesis
    using s by (intro sys_ok_cache [OF s]) (use cache_okD [OF sys_okD(1) [OF s]] sys_okD(3) [OF s] in
      \<open>auto simp: with_cache_def fresh_ok_def\<close>)
next
  case (settle_call t)
  have "task_ok ok s (settle_start s)"
    using cache_okD(7) [OF sys_okD(1) [OF s]] by (auto simp: settle_start_def settling_ok_def)
  with settle_call s show ?thesis by (auto intro!: sys_ok_set_task simp: is_fetching_def settle_start_def)
next
  case (settle_next t w)
  have w: "settling_ok ok s w" using sys_okD(4) [OF s settle_next(2)] by simp
  show ?thesis
    unfolding settle_next(1)
    by (rule sys_ok_set_task [OF s _ task_ok_settle_reach [OF s w settle_next(3)]])
      (simp add: settle_next(2) is_fetching_def)
next
  case (settle_await t w k f r)
  have w: "settling_ok ok s w" using sys_okD(4) [OF s settle_await(2)] by simp
  show ?thesis
    unfolding settle_await(1)
    by (rule sys_ok_set_task [OF s _ task_ok_settle_got [OF s w settle_await(3-5)]])
      (simp_all add: settle_await(2) is_fetching_def)
qed (use s in \<open>simp_all add: sys_ok_enter sys_ok_finish sys_ok_abort sys_ok_set_task sys_ok_lookup sys_ok_put_many
      sys_ok_invalidate is_fetching_def\<close>)

lemma sys_ok_init: "sys_ok ok (sys_init m)"
  by (simp add: sys_init_def cache_init_def sys_ok_def cache_ok_def owners_ok_def fresh_ok_def)

lemma reachable_sys_ok: "reachable ok m s \<Longrightarrow> sys_ok ok s"
  unfolding reachable_def
proof (induction rule: rtranclp_induct)
  case base
  show ?case by (rule sys_ok_init)
qed (rule sys_ok_step)

subsection \<open>One caller at a time\<close>

text \<open>\<open>resolve\<close> as one caller sees it when no other task runs: what the sequential models of
  the readers use.\<close>

definition resolve_now :: "('k \<Rightarrow> 'v res) \<Rightarrow> 'k \<Rightarrow> ('k, 'v) cache \<Rightarrow> 'v res \<times> ('k, 'v) cache" where
  "resolve_now fetch k c =
     (case map_of (c_store c) k of
        Some v \<Rightarrow> (Inr v, c\<lparr>c_hits := Suc (c_hits c), c_store := od_move_to_end k (c_store c)\<rparr>)
      | None \<Rightarrow>
          let c' = c\<lparr>c_misses := Suc (c_misses c)\<rparr> in
          (case fetch k of Inl e \<Rightarrow> (Inl e, c') | Inr v \<Rightarrow> (Inr v, store_and_evict k v c')))"

text \<open>It is the step relation's run of a single task, from its call to its end.\<close>

lemma resolve_now_run:
  assumes "c_inflight (the_cache s) = []" and "c_stale (the_cache s) = {}"
  shows "map_of (c_store (the_cache s)) k = Some v \<Longrightarrow>
      the_cache (enter True t k s) = snd (resolve_now fetch k (the_cache s)) \<and>
      tasks (enter True t k s) t = Some (Returned k v) \<and> fst (resolve_now fetch k (the_cache s)) = Inr v"
    and "map_of (c_store (the_cache s)) k = None \<Longrightarrow> fetch k = Inr v \<Longrightarrow>
      the_cache (finish_fetch t k (next_fut s) v (enter True t k s)) = snd (resolve_now fetch k (the_cache s))"
    and "map_of (c_store (the_cache s)) k = None \<Longrightarrow> fetch k = Inl e \<Longrightarrow>
      the_cache (abort_fetch t k (next_fut s) (Some e) (enter True t k s)) = snd (resolve_now fetch k (the_cache s))"
  using assms
  by (simp_all add: enter_def resolve_now_def finish_fetch_def abort_fetch_def Let_def settle_fut_def set_task_def
      od_pop_def store_and_evict_def evict_def split: option.split prod.split)

lemma resolve_now_store:
  assumes "resolve_now fetch k c = (r, c')"
  shows "set (c_store c') \<subseteq> set (c_store c) \<union> {(k, v) | v. r = Inr v}"
    "\<And>v. r = Inr v \<Longrightarrow> map_of (c_store c) k = Some v \<or> fetch k = Inr v"
    "\<And>e. r = Inl e \<Longrightarrow> map_of (c_store c) k = None \<and> fetch k = Inl e"
    "c_maxsize c' = c_maxsize c" "c_inflight c' = c_inflight c" "c_stale c' = c_stale c"
proof -
  have sub: "set (c_store (store_and_evict k v c0)) \<subseteq> insert (k, v) (set (c_store c0))" for v c0
    using evict_store_subset [of "c0\<lparr>c_store := od_set_last k v (c_store c0)\<rparr>"] by (auto simp: store_and_evict_def)
  have mv: "set (od_move_to_end k (c_store c)) \<subseteq> set (c_store c)"
    by (auto simp: od_move_to_end_def split: option.splits dest: map_of_SomeD)
  show "set (c_store c') \<subseteq> set (c_store c) \<union> {(k, v) | v. r = Inr v}"
    using assms sub mv by (fastforce simp: resolve_now_def Let_def split: option.splits sum.splits)
  show "\<And>v. r = Inr v \<Longrightarrow> map_of (c_store c) k = Some v \<or> fetch k = Inr v"
    "\<And>e. r = Inl e \<Longrightarrow> map_of (c_store c) k = None \<and> fetch k = Inl e"
    "c_maxsize c' = c_maxsize c" "c_inflight c' = c_inflight c" "c_stale c' = c_stale c"
    using assms by (auto simp: resolve_now_def Let_def store_and_evict_def split: option.splits sum.splits)
qed

subsection \<open>A concrete run\<close>

text \<open>Two tasks ask for the same key; the first fetches, the second joins.\<close>

definition run_ok :: "nat \<Rightarrow> nat \<Rightarrow> bool" where
  "run_ok k v \<longleftrightarrow> v = k + 10"

definition run_joined :: "(nat, nat) sys" where
  "run_joined = enter True 1 5 (enter True 0 5 (sys_init (Some 1)))"

definition run_fetched :: "(nat, nat) sys" where
  "run_fetched = finish_fetch 0 5 0 15 run_joined"

lemmas run_defs = run_joined_def run_fetched_def enter_def finish_fetch_def sys_init_def cache_init_def Let_def
  set_task_def settle_fut_def store_and_evict_def od_set_last_def od_pop_def evict_def

lemma run_joined_tasks: "tasks run_joined 0 = Some (Fetching 5 0)" "tasks run_joined 1 = Some (Joined 5 0)"
  by (simp_all add: run_defs)

lemma reachable_run_joined: "reachable run_ok (Some 1) run_joined"
  unfolding reachable_def run_joined_def
  by (rule rtranclp.rtrancl_into_rtrancl, rule r_into_rtranclp, rule call)
    (simp add: sys_init_def, rule call, simp add: run_defs)

lemma reachable_run_fetched: "reachable run_ok (Some 1) run_fetched"
proof -
  have "cstep run_ok run_joined run_fetched"
    unfolding run_fetched_def by (rule fetched [OF run_joined_tasks(1)]) (simp add: run_ok_def)
  then show ?thesis using reachable_run_joined unfolding reachable_def by (rule rtranclp.rtrancl_into_rtrancl [rotated])
qed

subsection \<open>Properties\<close>

text \<open>C13. No interleaving of resolves, failures, cancellations, stores and invalidations makes the
  cache hand out a wrong value or keep an outdated one. Every value a task got back (from the
  store, its own fetch or a joined one), every stored value and every value \<open>settle_all\<close> hands
  out is one a fetch of that very key returned or a \<open>put\<close> stored. A stored value comes from a
  fetch that began, or a \<open>put\<close> made, after the key's last invalidation, and it is what a \<open>resolve\<close>
  of the key returns at once; a fetch that began before the last invalidation stores nothing
  when it ends. (Its own caller and those that joined it still get its value, also a caller that
  joined after the invalidation: the guarantee is on what is kept.)\<close>

theorem cache_values_valid_and_fresh:
  assumes "reachable ok m s"
  shows "(\<forall>t k v. tasks s t = Some (Returned k v) \<longrightarrow> ok k v) \<and>
    (\<forall>(k, v) \<in> set (c_store (the_cache s)). ok k v \<and> invalidated_at s k \<le> stored_from s k \<and>
       (\<forall>hf t. tasks (enter hf t k s) t = Some (Returned k v))) \<and>
    (\<forall>t k f v. tasks s t = Some (Fetching k f) \<and> began s f < invalidated_at s k \<longrightarrow>
       c_store (the_cache (finish_fetch t k f v s)) = c_store (the_cache s)) \<and>
    (\<forall>t r es k v. tasks s t = Some (Settled r es) \<and> r k = Some v \<longrightarrow> ok k v)"
proof -
  note s = reachable_sys_ok [OF assms]
  note c = cache_okD [OF sys_okD(1) [OF s]]
  have "k \<in> c_stale (the_cache s)" if "tasks s t = Some (Fetching k f)" "began s f < invalidated_at s k" for t k f
    using sys_okD(4) [OF s that(1)] sys_okD(3) [OF s] that(2) by (fastforce simp: fresh_ok_def)
  then have "c_store (the_cache (finish_fetch t k f v s)) = c_store (the_cache s)"
    if "tasks s t = Some (Fetching k f)" "began s f < invalidated_at s k" for t k f v
    using that by (auto simp: finish_fetch_def settle_fut_def Let_def)
  moreover have "tasks (enter hf t k s) t = Some (Returned k v)" if "(k, v) \<in> set (c_store (the_cache s))" for k v hf t
    using that c(1) by (simp add: enter_def Let_def map_of_is_SomeI)
  moreover have "invalidated_at s k \<le> stored_from s k" if "(k, v) \<in> set (c_store (the_cache s))" for k v
    using that sys_okD(3) [OF s] by (auto simp: fresh_ok_def)
  moreover have "ok k v" if "tasks s t = Some (Returned k v)" for t k v
    using sys_okD(4) [OF s that] by simp
  moreover have "ok k v" if "tasks s t = Some (Settled r es)" "r k = Some v" for t r es k v
    using sys_okD(4) [OF s that(1)] that(2) by simp
  ultimately show ?thesis using c(7) by auto
qed

lemma cache_values_valid_and_fresh_witness: "run_ok 5 15 \<and> tasks run_fetched 0 = Some (Returned 5 15)"
proof -
  have t: "tasks run_fetched 0 = Some (Returned 5 15)" by (simp add: run_defs)
  with cache_values_valid_and_fresh [OF reachable_run_fetched] show ?thesis by blast
qed

text \<open>C14. One fetch per key: at no time do two tasks run a fetch of the same key. And no caller
  waits for ever on a joined fetch: the future a task has joined is settled, so that the task
  can take its next step, or some task is still running that fetch.\<close>

theorem cache_single_flight:
  assumes "reachable ok m s"
  shows "(\<forall>t t' k f f'. tasks s t = Some (Fetching k f) \<and> tasks s t' = Some (Fetching k f') \<longrightarrow> t = t') \<and>
    (\<forall>t k f. tasks s t = Some (Joined k f) \<longrightarrow>
       (\<exists>r. futs s f = Some r \<and> fut_done r) \<or> (\<exists>t'. tasks s t' = Some (Fetching k f)))"
proof -
  note s = reachable_sys_ok [OF assms]
  have fly: "tasks s t = Some (Fetching k f) \<Longrightarrow> (k, f) \<in> set (c_inflight (the_cache s))" for t k f
    using sys_okD(4) [OF s] by fastforce
  have "f = f'" if "tasks s t = Some (Fetching k f)" "tasks s t' = Some (Fetching k f')" for t t' k f f'
    using fly [OF that(1)] fly [OF that(2)] cache_okD(2) [OF sys_okD(1) [OF s]] by (rule eq_key_imp_eq_value [rotated])
  moreover have "(\<exists>r. futs s f = Some r \<and> fut_done r) \<or> (\<exists>t'. tasks s t' = Some (Fetching k f))"
    if "tasks s t = Some (Joined k f)" for t k f
    using sys_okD(4) [OF s that] sys_okD(2) [OF s] by (auto simp: flight_ok_def owners_ok_def)
  ultimately show ?thesis using sys_okD(2) [OF s] unfolding owners_ok_def by blast
qed

lemma cache_single_flight_witness:
  "tasks run_joined 1 = Some (Joined 5 0) \<and> (\<exists>t'. tasks run_joined t' = Some (Fetching 5 0))"
proof -
  have "\<not> (\<exists>r. futs run_joined 0 = Some r \<and> fut_done r)" by (simp add: run_defs fut_done_def)
  then show ?thesis using cache_single_flight [OF reachable_run_joined] run_joined_tasks(2) by blast
qed

text \<open>C26. \<open>settle_all\<close> returns only when no fetch is in flight, including fetches started while it
  waited, and what it returns includes every value stored at that moment.\<close>

theorem settle_all_quiescent:
  assumes "reachable ok m s" and "tasks s t = Some (Settling w)" and "s_current w = None"
    and "settle_reach s w = Settled r es"
  shows "c_inflight (the_cache s) = [] \<and> (\<forall>k. k \<in> fst ` set (c_store (the_cache s)) \<longrightarrow> r k \<noteq> None)"
proof -
  note s = reachable_sys_ok [OF assms(1)]
  have w: "settling_ok ok s w" using sys_okD(4) [OF s assms(2)] by simp
  have nil: "s_pending w = []"
    using assms(4) by (auto simp: settle_reach_def Let_def split: list.splits)
  have fin: "filter (\<lambda>(k, f). f \<notin> s_awaited w) (c_inflight (the_cache s)) = []"
      "r = map_of (s_held w) ++ map_of (c_store (the_cache s)) ++ s_landed w"
    using assms(4) nil by (auto simp: settle_reach_def Let_def split: if_splits)
  have "p \<notin> set (c_inflight (the_cache s))" for p
  proof
    assume p: "p \<in> set (c_inflight (the_cache s))"
    then have "snd p \<in> s_awaited w" using fin(1) by (auto simp: filter_empty_conv)
    then have "settled_fut s (snd p)" using w assms(3) by (auto simp: settling_ok_def)
    moreover have "futs s (snd p) = Some FPending" using p cache_okD(5) [OF sys_okD(1) [OF s], of "snd p"] by force
    ultimately show False by (auto simp: settled_fut_def fut_done_def)
  qed
  then have "c_inflight (the_cache s) = []" by (cases "c_inflight (the_cache s)") auto
  moreover have "r k \<noteq> None" if "k \<in> fst ` set (c_store (the_cache s))" for k
    using that map_of_eq_None_iff [of "c_store (the_cache s)" k] by (auto simp: fin(2) map_add_def split: option.splits)
  ultimately show ?thesis by blast
qed

definition run_settling :: "(nat, nat) sys" where
  "run_settling = set_task 2 (settle_start run_fetched) run_fetched"

lemma reachable_run_settling: "reachable run_ok (Some 1) run_settling"
proof -
  have "cstep run_ok run_fetched run_settling"
    unfolding run_settling_def by (rule settle_call) (simp add: run_defs)
  then show ?thesis using reachable_run_fetched unfolding reachable_def by (rule rtranclp.rtrancl_into_rtrancl [rotated])
qed

lemma settle_all_quiescent_witness:
  "c_inflight (the_cache run_settling) = [] \<and> 5 \<in> fst ` set (c_store (the_cache run_settling))"
proof -
  obtain w where w: "settle_start run_fetched = Settling w" by (simp add: settle_start_def)
  then have c: "s_current w = None" by (auto simp: settle_start_def)
  have t: "tasks run_settling 2 = Some (Settling w)" by (simp add: run_settling_def w)
  have "\<exists>r es. settle_reach run_settling w = Settled r es"
    using w by (auto simp: settle_start_def settle_reach_def run_settling_def Let_def) (simp_all add: run_defs)
  then obtain r es where "settle_reach run_settling w = Settled r es" by blast
  from settle_all_quiescent [OF reachable_run_settling t c this]
  have "c_inflight (the_cache run_settling) = []" by simp
  moreover have "5 \<in> fst ` set (c_store (the_cache run_settling))" by (simp add: run_settling_def run_defs)
  ultimately show ?thesis by simp
qed

text \<open>C34. Storing a value evicts in least-recently-used order and no more than the cap requires:
  what remains is the tail of the recency list ending with the new entry, at most \<open>maxsize\<close>
  entries long, and the counter grows by exactly the number of entries dropped.\<close>

theorem store_evicts_lru:
  "(let c' = store_and_evict k v c; all = od_set_last k v (c_store c) in
     (case c_maxsize c of
        None \<Rightarrow> c_store c' = all \<and> c_evictions c' = c_evictions c
      | Some m \<Rightarrow> c_store c' = drop (length all - m) all \<and> length (c_store c') = min m (length all) \<and>
          c_evictions c' + length (c_store c') = c_evictions c + length all \<and>
          (if m = 0 then c_store c' = [] else last (c_store c') = (k, v))))"
proof -
  have "last (drop (length all - m) all) = (k, v)" if "m \<noteq> 0" "all = od_set_last k v (c_store c)" for m all
    using that by (subst last_drop) (auto simp: od_set_last_def)
  then show ?thesis
    by (auto simp: store_and_evict_def Let_def evict_store split: option.split)
qed

end
