(* ===== verification/StateRes.thy ===== *)
theory StateRes
  imports Errors
begin

text \<open>
  Operations of objects that keep state and can raise: a function from the state to the
  result and the state left behind, which an exception does not roll back.
\<close>

type_synonym ('s, 'a) op = "'s \<Rightarrow> 'a res \<times> 's"

definition op_return :: "'a \<Rightarrow> ('s, 'a) op" where
  "op_return x s = (Inr x, s)"

definition op_lift :: "'a res \<Rightarrow> ('s, 'a) op" where
  "op_lift r s = (r, s)"

definition op_bind :: "('s, 'a) op \<Rightarrow> ('a \<Rightarrow> ('s, 'b) op) \<Rightarrow> ('s, 'b) op" where
  "op_bind m f s = (case m s of (Inl e, s') \<Rightarrow> (Inl e, s') | (Inr x, s') \<Rightarrow> f x s')"

text \<open>\<open>for x in xs: body(x)\<close>, stopping at the first exception.\<close>

fun op_each :: "('a \<Rightarrow> ('s, unit) op) \<Rightarrow> 'a list \<Rightarrow> ('s, unit) op" where
  "op_each f [] = op_return ()"
| "op_each f (x # xs) = op_bind (f x) (\<lambda>_. op_each f xs)"

lemma op_simps [simp]:
  "op_return x s = (Inr x, s)"
  "op_lift r s = (r, s)"
  by (simp_all add: op_return_def op_lift_def)

lemma op_bind_Inr [simp]: "m s = (Inr x, s') \<Longrightarrow> op_bind m f s = f x s'"
  and op_bind_Inl [simp]: "m s = (Inl e, s') \<Longrightarrow> op_bind m f s = (Inl e, s')"
  by (simp_all add: op_bind_def)

lemma op_bind_cong [fundef_cong]:
  "m = m' \<Longrightarrow> (\<And>s x s'. m' s = (Inr x, s') \<Longrightarrow> f x s' = f' x s') \<Longrightarrow> op_bind m f = op_bind m' f'"
  by (rule ext) (auto simp: op_bind_def split: prod.splits sum.splits)

lemma op_each_invariant:
  assumes "P s" and "\<And>x s. x \<in> set xs \<Longrightarrow> P s \<Longrightarrow> P (snd (f x s))"
  shows "P (snd (op_each f xs s))"
  using assms
proof (induction xs arbitrary: s)
  case (Cons x xs)
  have "P (snd (f x s))" using Cons.prems by simp
  moreover have "\<And>t. P t \<Longrightarrow> P (snd (op_each f xs t))" using Cons.IH Cons.prems(2) by simp
  ultimately show ?case by (auto simp: op_bind_def split: prod.splits sum.splits)
qed simp

end
