(* ===== verification/CompRecord.thy ===== *)
theory CompRecord
  imports SubFiles Cache StateRes ChunkMap "HOL-Library.AList"
begin

text \<open>
  \<open>CompositionRecord\<close> of \<open>sdk/dedup/composition_reader.py\<close>: page-cached, binary-searched
  access to one backup version's chunk-map array. The state is what the object keeps (the
  page cache, the pages' end offsets, the length of the contiguous known prefix, the
  repaired array); \<open>rd_at\<close> is the reader's \<open>read_at\<close>. One task runs at a time, which is what
  the per-page locks enforce.
\<close>

definition PAGE_SIZE :: nat where [const_defs]: "PAGE_SIZE = 2048"

record crec =
  cr_head_off :: nat
  cr_head :: record_head
  cr_pages :: "(nat, bytes) cache"
  cr_page_end :: "(nat \<times> nat) list"
  cr_contig :: nat
  cr_repaired :: "bytes option"

definition crec_init :: "nat option \<Rightarrow> nat \<Rightarrow> record_head \<Rightarrow> crec" where
  "crec_init page_cache_maxsize head_off head =
     \<lparr>cr_head_off = head_off, cr_head = head, cr_pages = cache_init page_cache_maxsize, cr_page_end = [],
      cr_contig = 0, cr_repaired = None\<rparr>"

definition map_num :: "crec \<Rightarrow> nat" where
  "map_num s = rh_map_num (cr_head s)"

definition page_count_of :: "nat \<Rightarrow> nat" where
  "page_count_of n = (n + PAGE_SIZE - 1) div PAGE_SIZE"

definition page_count :: "crec \<Rightarrow> nat" where
  "page_count s = page_count_of (map_num s)"

definition page_bounds :: "nat \<Rightarrow> nat \<Rightarrow> nat \<times> nat" where
  "page_bounds n page_idx = (let start_entry = page_idx * PAGE_SIZE in (start_entry, min PAGE_SIZE (n - start_entry)))"

definition page_of_array :: "nat \<Rightarrow> bytes \<Rightarrow> nat \<Rightarrow> bytes" where
  "page_of_array n array_raw page_idx =
     (let (start_entry, count) = page_bounds n page_idx in
      pslice (start_entry * CHUNK_MAP_RECORD_LENGTH) ((start_entry + count) * CHUNK_MAP_RECORD_LENGTH) array_raw)"

type_synonym reader = "nat \<Rightarrow> nat \<Rightarrow> bytes res"

definition fetch_page :: "reader \<Rightarrow> crec \<Rightarrow> nat \<Rightarrow> bytes res" where
  "fetch_page rd_at s page_idx =
     (case cr_repaired s of
        Some arr \<Rightarrow> Inr (page_of_array (map_num s) arr page_idx)
      | None \<Rightarrow>
          let (start_entry, count) = page_bounds (map_num s) page_idx in
          rd_at (chunk_map_array_offset (cr_head_off s) + start_entry * CHUNK_MAP_RECORD_LENGTH)
                (count * CHUNK_MAP_RECORD_LENGTH))"

text \<open>\<open>page_bytes[-20:]\<close>.\<close>

definition last_record :: "bytes \<Rightarrow> bytes" where
  "last_record page = drop (length page - CHUNK_MAP_RECORD_LENGTH) page"

text \<open>The \<open>while\<close> loop of \<open>_note_page_end\<close>.\<close>

function absorb :: "(nat \<times> nat) list \<Rightarrow> nat \<Rightarrow> nat" where
  "absorb d c = (if map_of d c \<noteq> None then absorb d (Suc c) else c)"
  by pat_completeness auto
termination
proof (relation "measure (\<lambda>(d, c). length (filter (\<lambda>p. c \<le> fst p) d))")
  fix d :: "(nat \<times> nat) list" and c
  assume "map_of d c \<noteq> None"
  then obtain v where v: "(c, v) \<in> set d" by (auto dest: map_of_SomeD)
  have "length (filter (\<lambda>p. Suc c \<le> fst p) d) < length (filter (\<lambda>p. c \<le> fst p) d)"
    using v
  proof (induction d)
    case (Cons x d)
    have le: "length (filter (\<lambda>p. Suc c \<le> fst p) d) \<le> length (filter (\<lambda>p. c \<le> fst p) d)"
      by (induction d) auto
    show ?case
    proof (cases "x = (c, v)")
      case True
      then show ?thesis using le by simp
    next
      case False
      then show ?thesis using Cons by auto
    qed
  qed simp
  then show "((d, Suc c), d, c) \<in> measure (\<lambda>(d, c). length (filter (\<lambda>p. c \<le> fst p) d))" by simp
qed simp

declare absorb.simps [simp del]

definition note_page_end :: "nat \<Rightarrow> bytes \<Rightarrow> (crec, unit) op" where
  "note_page_end page_idx rec s =
     (case parse_chunk_map_record rec of
        Inl e \<Rightarrow> (Inl e, s)
      | Inr entry \<Rightarrow>
          let d = AList.update page_idx (entry_end entry) (cr_page_end s);
              c = (if page_idx = cr_contig s then absorb d (Suc (cr_contig s)) else cr_contig s)
          in (Inr (), s\<lparr>cr_page_end := d, cr_contig := c\<rparr>))"

definition resolve_page :: "nat \<Rightarrow> (nat \<Rightarrow> bytes res) \<Rightarrow> (crec, bytes) op" where
  "resolve_page page_idx fetch s =
     (case resolve_now fetch page_idx (cr_pages s) of
        (Inl e, c) \<Rightarrow> (Inl e, s\<lparr>cr_pages := c\<rparr>)
      | (Inr page, c) \<Rightarrow>
          op_bind (note_page_end page_idx (last_record page)) (\<lambda>_. op_return page) (s\<lparr>cr_pages := c\<rparr>))"

definition get_page :: "reader \<Rightarrow> nat \<Rightarrow> (crec, bytes) op" where
  "get_page rd_at page_idx s = resolve_page page_idx (fetch_page rd_at s) s"

text \<open>\<open>bisect.bisect_right(range(hi), x, key=key)\<close>, whose key may raise.\<close>

function bisect_right :: "(nat \<Rightarrow> nat res) \<Rightarrow> nat \<Rightarrow> nat \<Rightarrow> nat \<Rightarrow> nat res" where
  "bisect_right key x lo hi =
     (if lo < hi then
        let mid = (lo + hi) div 2 in
        bind_res (key mid) (\<lambda>k. if x < k then bisect_right key x lo mid else bisect_right key x (Suc mid) hi)
      else Inr lo)"
  by pat_completeness auto
termination by (relation "measure (\<lambda>(_, _, lo, hi). hi - lo)") auto

declare bisect_right.simps [simp del]

definition page_end_key :: "crec \<Rightarrow> nat \<Rightarrow> nat res" where
  "page_end_key s i = (case map_of (cr_page_end s) i of Some v \<Rightarrow> Inr v | None \<Rightarrow> Inl PyKeyError)"

text \<open>\<open>_locate\<close>'s \<open>while\<close> over the pages not yet known to end at or before \<open>start\<close>.\<close>

fun locate_from :: "reader \<Rightarrow> nat \<Rightarrow> nat list \<Rightarrow> (crec, (nat \<times> bytes) option) op" where
  "locate_from rd_at start [] = op_return None"
| "locate_from rd_at start (page_idx # rest) =
     op_bind (get_page rd_at page_idx) (\<lambda>page s.
       op_bind (op_lift (page_end_key s page_idx)) (\<lambda>v.
         if start < v then op_return (Some (page_idx, page)) else locate_from rd_at start rest) s)"

definition locate :: "reader \<Rightarrow> nat \<Rightarrow> (crec, nat \<times> nat) op" where
  "locate rd_at start s =
     (if start = 0 then (Inr (0, 0), s)
      else op_bind (op_lift (bisect_right (page_end_key s) start 0 (cr_contig s))) (\<lambda>page_idx.
           op_bind (locate_from rd_at start [page_idx..<page_count s]) (\<lambda>found.
             case found of
               None \<Rightarrow> op_return (page_count s, 0)
             | Some (page_idx, page) \<Rightarrow>
                 let (_, count) = page_bounds (map_num s) page_idx in
                 op_bind (op_lift (bisect_right (chunk_map_end_offset page) start 0 count)) (\<lambda>idx_in_page.
                   op_return (page_idx, idx_in_page)))) s)"

text \<open>
  The async generator \<open>entries\<close>: what is yielded, how it ends, and the state at the end. The
  entries of a page are consumed up to the first one at or past \<open>end\<close>.
\<close>

definition before_end :: "nat option \<Rightarrow> chunk_map_entry \<Rightarrow> bool" where
  "before_end stop e = (case stop of None \<Rightarrow> True | Some x \<Rightarrow> cm_file_offset e < x)"

fun entries_pages :: "reader \<Rightarrow> nat option \<Rightarrow> nat list \<Rightarrow> nat \<Rightarrow> crec \<Rightarrow> chunk_map_entry gen \<times> crec" where
  "entries_pages rd_at stop [] idx_in_page s = (([], None), s)"
| "entries_pages rd_at stop (page_idx # rest) idx_in_page s =
     (case get_page rd_at page_idx s of
        (Inl e, s') \<Rightarrow> (([], Some e), s')
      | (Inr page, s') \<Rightarrow>
          let (_, count) = page_bounds (map_num s) page_idx;
              g = iter_chunk_map_page (drop (idx_in_page * CHUNK_MAP_RECORD_LENGTH) page) (count - idx_in_page);
              ys = takeWhile (before_end stop) (fst g)
          in if length ys < length (fst g) then ((ys, None), s')
             else case snd g of
               Some e \<Rightarrow> ((ys, Some e), s')
             | None \<Rightarrow> let (g', s'') = entries_pages rd_at stop rest 0 s' in (gen_append (ys, None) g', s''))"

definition entries :: "reader \<Rightarrow> nat \<Rightarrow> nat option \<Rightarrow> crec \<Rightarrow> chunk_map_entry gen \<times> crec" where
  "entries rd_at start stop s =
     (if map_num s = 0 then (([], None), s)
      else case locate rd_at start s of
        (Inl e, s') \<Rightarrow> (([], Some e), s')
      | (Inr (page_idx, idx_in_page), s') \<Rightarrow> entries_pages rd_at stop [page_idx..<page_count s] idx_in_page s')"

definition check_array_length :: "crec \<Rightarrow> bytes \<Rightarrow> unit res" where
  "check_array_length s array_raw = require (length array_raw = map_num s * CHUNK_MAP_RECORD_LENGTH) PyValueError"

definition seed_pages_from_array :: "bytes \<Rightarrow> (crec, unit) op" where
  "seed_pages_from_array array_raw s =
     op_bind (op_lift (check_array_length s array_raw)) (\<lambda>_ s.
       op_each (\<lambda>page_idx s.
           op_bind (resolve_page page_idx (\<lambda>k. Inr (page_of_array (map_num s) array_raw k))) (\<lambda>_. op_return ())
             (s\<lparr>cr_pages := invalidate (Some page_idx) (cr_pages s)\<rparr>))
         [0..<page_count s] (s\<lparr>cr_repaired := Some array_raw\<rparr>)) s"

fun prime_loop :: "bytes \<Rightarrow> nat \<Rightarrow> nat \<Rightarrow> nat list \<Rightarrow> (crec, unit) op" where
  "prime_loop array_raw start stop [] s = (Inr (), s)"
| "prime_loop array_raw start stop (page_idx # rest) s =
     (let (start_entry, count) = page_bounds (map_num s) page_idx;
          first_off = start_entry * CHUNK_MAP_RECORD_LENGTH in
      case parse_chunk_map_record (pslice first_off (first_off + CHUNK_MAP_RECORD_LENGTH) array_raw) of
        Inl e \<Rightarrow> (Inl e, s)
      | Inr first \<Rightarrow>
          if stop \<le> cm_file_offset first then (Inr (), s)
          else
            let last_off = first_off + (count - 1) * CHUNK_MAP_RECORD_LENGTH in
            op_bind (if map_of (cr_page_end s) page_idx = None
                     then note_page_end page_idx (pslice last_off (last_off + CHUNK_MAP_RECORD_LENGTH) array_raw)
                     else op_return ()) (\<lambda>_ s.
            op_bind (op_lift (page_end_key s page_idx)) (\<lambda>v s.
              if v \<le> start then prime_loop array_raw start stop rest s
              else
                let c = cr_pages s;
                    room = (case c_maxsize c of None \<Rightarrow> True | Some m \<Rightarrow> length (c_store c) < m) in
                prime_loop array_raw start stop rest
                  (if cr_repaired s = None \<and> map_of (c_store c) page_idx = None \<and> room
                   then s\<lparr>cr_pages := put page_idx (page_of_array (map_num s) array_raw page_idx) c\<rparr> else s)) s) s)"

definition prime_pages :: "bytes \<Rightarrow> nat \<Rightarrow> nat \<Rightarrow> (crec, unit) op" where
  "prime_pages array_raw start stop s =
     op_bind (op_lift (check_array_length s array_raw)) (\<lambda>_. prime_loop array_raw start stop [0..<page_count s]) s"

definition extent :: "reader \<Rightarrow> (crec, nat \<times> nat) op" where
  "extent rd_at s =
     (if map_num s = 0 then (Inr (0, 0), s)
      else op_bind (get_page rd_at 0) (\<lambda>first_page.
           op_bind (get_page rd_at (page_count s - 1)) (\<lambda>_ s'.
             op_bind (op_lift (parse_chunk_map_record (take CHUNK_MAP_RECORD_LENGTH first_page))) (\<lambda>first_entry.
             op_bind (op_lift (page_end_key s' (page_count s - 1))) (\<lambda>v.
               op_return (cm_file_offset first_entry, v))) s')) s)"

subsection \<open>Decoded arrays and their pages\<close>

text \<open>An array whose records decode to the entries \<open>es\<close>.\<close>

definition decodes :: "bytes \<Rightarrow> chunk_map_entry list \<Rightarrow> bool" where
  "decodes arr es \<longleftrightarrow> length arr = length es * CHUNK_MAP_RECORD_LENGTH \<and>
     (\<forall>i < length es. parse_at arr (i * CHUNK_MAP_RECORD_LENGTH) = Inr (es ! i))"

lemma be_field_pslice: "off + len \<le> b - a \<Longrightarrow> b \<le> length xs \<Longrightarrow> be_field off len (pslice a b xs) = be_field (a + off) len xs"
  by (simp add: be_field_def pslice_pslice min_def add.assoc)

lemma parse_at_pslice:
  assumes "off + CHUNK_MAP_RECORD_LENGTH \<le> b - a" and "b \<le> length xs"
  shows "parse_at (pslice a b xs) off = parse_at xs (a + off)"
proof -
  have "unpack_record (pslice a b xs) off = unpack_record xs (a + off)"
    using assms by (simp add: unpack_record_def be_field_pslice add.assoc const_defs)
  then show ?thesis by (simp add: parse_at_def)
qed

lemma page_size_pos: "0 < PAGE_SIZE"
  by (simp add: const_defs)

lemma record_length_pos: "0 < CHUNK_MAP_RECORD_LENGTH"
  by (simp add: const_values)

lemma less_page_count: "k < page_count_of n \<longleftrightarrow> k * PAGE_SIZE < n"
proof -
  have "k < (n + PAGE_SIZE - 1) div PAGE_SIZE \<longleftrightarrow> Suc k * PAGE_SIZE \<le> n + PAGE_SIZE - 1"
    using page_size_pos by (simp add: less_eq_div_iff_mult_less_eq Suc_le_eq [symmetric])
  then show ?thesis using page_size_pos by (auto simp: page_count_of_def)
qed

definition page_len :: "nat \<Rightarrow> nat \<Rightarrow> nat" where
  "page_len n k = min PAGE_SIZE (n - k * PAGE_SIZE)"

definition page_last :: "nat \<Rightarrow> nat \<Rightarrow> nat" where
  "page_last n k = k * PAGE_SIZE + page_len n k - 1"

lemma page_bounds_eq: "page_bounds n k = (k * PAGE_SIZE, page_len n k)"
  by (simp add: page_bounds_def page_len_def Let_def)

lemma page_len_pos: "k < page_count_of n \<Longrightarrow> 0 < page_len n k"
  using page_size_pos by (simp add: page_len_def less_page_count)

lemma page_within: "k < page_count_of n \<Longrightarrow> k * PAGE_SIZE + page_len n k \<le> n"
  by (simp add: page_len_def less_page_count)

lemma page_last_less: "k < page_count_of n \<Longrightarrow> page_last n k < n"
  using page_within [of k n] page_len_pos [of k n] by (simp add: page_last_def)

lemma page_last_bound:
  assumes "j < n" and "j < Suc k * PAGE_SIZE"
  shows "j \<le> page_last n k"
proof -
  have "j < k * PAGE_SIZE + PAGE_SIZE" using assms(2) by simp
  with assms(1) have "j < k * PAGE_SIZE + page_len n k" unfolding page_len_def min_def by (cases "k * PAGE_SIZE \<le> n") auto
  then show ?thesis by (simp add: page_last_def)
qed

lemma page_next: "k < page_count_of n \<Longrightarrow> Suc k < page_count_of n \<Longrightarrow> page_len n k = PAGE_SIZE"
  by (simp add: page_len_def less_page_count)

lemma page_final: "\<not> Suc k < page_count_of n \<Longrightarrow> k < page_count_of n \<Longrightarrow> k * PAGE_SIZE + page_len n k = n"
  by (simp add: page_len_def less_page_count)

lemma length_page:
  assumes "decodes arr es" and "k < page_count_of (length es)"
  shows "length (page_of_array (length es) arr k) = page_len (length es) k * CHUNK_MAP_RECORD_LENGTH"
proof -
  have "k * PAGE_SIZE + page_len (length es) k \<le> length es" using page_within [OF assms(2)] .
  then have "(k * PAGE_SIZE + page_len (length es) k) * CHUNK_MAP_RECORD_LENGTH \<le> length arr"
    using assms(1) by (simp add: decodes_def)
  then have "k * PAGE_SIZE * CHUNK_MAP_RECORD_LENGTH + page_len (length es) k * CHUNK_MAP_RECORD_LENGTH \<le> length arr"
    by (simp add: add_mult_distrib)
  then show ?thesis by (simp add: page_of_array_def page_bounds_eq add_mult_distrib)
qed

lemma parse_page:
  assumes d: "decodes arr es" and k: "k < page_count_of (length es)" and i: "i < page_len (length es) k"
  shows "parse_at (page_of_array (length es) arr k) (i * CHUNK_MAP_RECORD_LENGTH) = Inr (es ! (k * PAGE_SIZE + i))"
proof -
  let ?n = "length es" and ?R = CHUNK_MAP_RECORD_LENGTH
  have w: "k * PAGE_SIZE + page_len ?n k \<le> ?n" using page_within [OF k] .
  have "i * ?R + ?R \<le> (k * PAGE_SIZE + page_len ?n k) * ?R - k * PAGE_SIZE * ?R"
  proof -
    have "Suc i * ?R \<le> page_len ?n k * ?R" using i by (intro mult_le_mono1) simp
    then show ?thesis by (simp add: add_mult_distrib)
  qed
  moreover have "(k * PAGE_SIZE + page_len ?n k) * ?R \<le> length arr" using w d by (simp add: decodes_def)
  ultimately have "parse_at (page_of_array ?n arr k) (i * ?R) = parse_at arr (k * PAGE_SIZE * ?R + i * ?R)"
    by (simp add: page_of_array_def page_bounds_eq parse_at_pslice)
  also have "k * PAGE_SIZE * ?R + i * ?R = (k * PAGE_SIZE + i) * ?R" by (simp add: add_mult_distrib)
  also have "parse_at arr \<dots> = Inr (es ! (k * PAGE_SIZE + i))"
    using d w i unfolding decodes_def by (metis add_less_cancel_left less_le_trans)
  finally show ?thesis .
qed

lemma parse_last_record:
  assumes d: "decodes arr es" and k: "k < page_count_of (length es)"
  shows "parse_chunk_map_record (last_record (page_of_array (length es) arr k)) = Inr (es ! page_last (length es) k)"
proof -
  let ?n = "length es" and ?R = CHUNK_MAP_RECORD_LENGTH
  let ?p = "page_of_array ?n arr k"
  have pos: "0 < page_len ?n k" using page_len_pos [OF k] .
  have l: "length ?p - ?R = (page_len ?n k - 1) * ?R"
    using length_page [OF d k] by (simp add: diff_mult_distrib)
  have "length (last_record ?p) = ?R"
    using length_page [OF d k] pos l by (cases "page_len ?n k") (simp_all add: last_record_def)
  moreover have "parse_at (last_record ?p) 0 = parse_at ?p ((page_len ?n k - 1) * ?R)"
    unfolding last_record_def l using parse_at_drop [of "(page_len ?n k - 1) * ?R" ?p 0] length_page [OF d k] by simp
  moreover have "k * PAGE_SIZE + (page_len ?n k - 1) = page_last ?n k" using pos by (simp add: page_last_def)
  ultimately show ?thesis
    using parse_page [OF d k, of "page_len ?n k - 1"] pos by (simp add: parse_chunk_map_record_def)
qed

lemma iter_page:
  assumes d: "decodes arr es" and k: "k < page_count_of (length es)" and i: "i \<le> page_len (length es) k"
  shows "iter_chunk_map_page (drop (i * CHUNK_MAP_RECORD_LENGTH) (page_of_array (length es) arr k)) (page_len (length es) k - i)
    = (pslice (k * PAGE_SIZE + i) (k * PAGE_SIZE + page_len (length es) k) es, None)"
proof -
  let ?n = "length es" and ?R = CHUNK_MAP_RECORD_LENGTH
  let ?p = "page_of_array ?n arr k"
  have le: "i * ?R \<le> length ?p" using length_page [OF d k] i by simp
  have g: "gen_map (\<lambda>j. parse_at (drop (i * ?R) ?p) (j * ?R)) [0..<page_len ?n k - i]
      = (map (\<lambda>j. es ! (k * PAGE_SIZE + i + j)) [0..<page_len ?n k - i], None)"
  proof (rule gen_map_Inr)
    fix j assume "j \<in> set [0..<page_len ?n k - i]"
    then have "i + j < page_len ?n k" by auto
    then show "parse_at (drop (i * ?R) ?p) (j * ?R) = Inr (es ! (k * PAGE_SIZE + i + j))"
      using parse_at_drop [OF le, of "j * ?R"] parse_page [OF d k, of "i + j"] by (simp add: add_mult_distrib add.assoc)
  qed
  have "map (\<lambda>j. es ! (k * PAGE_SIZE + i + j)) [0..<page_len ?n k - i] = pslice (k * PAGE_SIZE + i) (k * PAGE_SIZE + page_len ?n k) es"
    using page_within [OF k] by (intro nth_equalityI) auto
  moreover have "\<not> length (drop (i * ?R) ?p) < (page_len ?n k - i) * ?R"
    using length_page [OF d k] by (simp add: diff_mult_distrib)
  ultimately show ?thesis using g by (simp add: iter_chunk_map_page_def)
qed

subsection \<open>Loops of the page index\<close>

lemma absorb_spec: "c \<le> j \<Longrightarrow> j < absorb d c \<Longrightarrow> map_of d j \<noteq> None"
proof (induction d c rule: absorb.induct)
  case (1 d c)
  show ?case
  proof (cases "map_of d c = None")
    case True
    then show ?thesis using "1.prems" by (simp add: absorb.simps)
  next
    case False
    then show ?thesis
      using "1.IH" "1.prems" by (cases "j = c") (auto simp: absorb.simps [of d c])
  qed
qed

lemma bisect_right_spec:
  assumes "\<forall>i. lo \<le> i \<and> i < hi \<longrightarrow> key i = Inr (f i)" and "\<forall>i j. lo \<le> i \<and> i \<le> j \<and> j < hi \<longrightarrow> f i \<le> f j" and "lo \<le> hi"
  shows "\<exists>r. bisect_right key x lo hi = Inr r \<and> lo \<le> r \<and> r \<le> hi \<and>
    (\<forall>i. lo \<le> i \<and> i < r \<longrightarrow> f i \<le> x) \<and> (\<forall>i. r \<le> i \<and> i < hi \<longrightarrow> x < f i)"
  using assms
proof (induction key x lo hi rule: bisect_right.induct)
  case (1 key x lo hi)
  show ?case
  proof (cases "lo < hi")
    case False
    then have "lo = hi" using "1.prems"(3) by simp
    then show ?thesis by (auto simp: bisect_right.simps)
  next
    case True
    let ?mid = "(lo + hi) div 2"
    have mid: "lo \<le> ?mid" "?mid < hi" using True by auto
    have key: "key ?mid = Inr (f ?mid)" using "1.prems"(1) mid by blast
    note step = bisect_right.simps [of key x lo hi]
    show ?thesis
    proof (cases "x < f ?mid")
      case lt: True
      have "\<exists>r. bisect_right key x lo ?mid = Inr r \<and> lo \<le> r \<and> r \<le> ?mid \<and>
          (\<forall>i. lo \<le> i \<and> i < r \<longrightarrow> f i \<le> x) \<and> (\<forall>i. r \<le> i \<and> i < ?mid \<longrightarrow> x < f i)"
        using "1.IH"(1) [OF True refl key lt] "1.prems"(1,2) mid by auto
      then obtain r where r: "bisect_right key x lo ?mid = Inr r" "lo \<le> r" "r \<le> ?mid"
        "\<forall>i. lo \<le> i \<and> i < r \<longrightarrow> f i \<le> x" "\<forall>i. r \<le> i \<and> i < ?mid \<longrightarrow> x < f i" by blast
      have "x < f i" if "r \<le> i" "i < hi" for i
      proof (cases "i < ?mid")
        case False
        then have "f ?mid \<le> f i" using "1.prems"(2) mid that by auto
        with lt show ?thesis by simp
      qed (use r(5) that in blast)
      with r key lt True mid show ?thesis by (intro exI [of _ r]) (simp add: step Let_def)
    next
      case ge: False
      have "\<exists>r. bisect_right key x (Suc ?mid) hi = Inr r \<and> Suc ?mid \<le> r \<and> r \<le> hi \<and>
          (\<forall>i. Suc ?mid \<le> i \<and> i < r \<longrightarrow> f i \<le> x) \<and> (\<forall>i. r \<le> i \<and> i < hi \<longrightarrow> x < f i)"
        using "1.IH"(2) [OF True refl key ge] "1.prems"(1,2) mid by auto
      then obtain r where r: "bisect_right key x (Suc ?mid) hi = Inr r" "Suc ?mid \<le> r" "r \<le> hi"
        "\<forall>i. Suc ?mid \<le> i \<and> i < r \<longrightarrow> f i \<le> x" "\<forall>i. r \<le> i \<and> i < hi \<longrightarrow> x < f i" by blast
      have "f i \<le> x" if "lo \<le> i" "i < r" for i
      proof (cases "i \<le> ?mid")
        case True
        then have "f i \<le> f ?mid" using "1.prems"(2) mid that by auto
        with ge show ?thesis by simp
      qed (use r(4) that in auto)
      with r key ge True mid show ?thesis by (intro exI [of _ r]) (simp add: step Let_def)
    qed
  qed
qed

subsection \<open>The invariant of a record\<close>

text \<open>What the record has cached agrees with the array \<open>arr\<close> whose entries are \<open>es\<close>.\<close>

definition pages_ok :: "bytes \<Rightarrow> chunk_map_entry list \<Rightarrow> crec \<Rightarrow> bool" where
  "pages_ok arr es s \<longleftrightarrow>
     (\<forall>(k, page) \<in> set (c_store (cr_pages s)). k < page_count_of (length es) \<and> page = page_of_array (length es) arr k)"

definition ends_ok :: "chunk_map_entry list \<Rightarrow> crec \<Rightarrow> bool" where
  "ends_ok es s \<longleftrightarrow>
     (\<forall>k v. map_of (cr_page_end s) k = Some v \<longrightarrow> k < page_count_of (length es) \<and> v = entry_end (es ! page_last (length es) k)) \<and>
     (\<forall>k < cr_contig s. map_of (cr_page_end s) k \<noteq> None)"

text \<open>Where a page comes from on a miss: the repaired array, or the composition file.\<close>

definition source_ok :: "reader \<Rightarrow> bytes \<Rightarrow> nat \<Rightarrow> crec \<Rightarrow> bool" where
  "source_ok rd_at arr n s \<longleftrightarrow> (case cr_repaired s of
       Some a \<Rightarrow> a = arr
     | None \<Rightarrow> \<forall>k < page_count_of n.
         rd_at (chunk_map_array_offset (cr_head_off s) + k * PAGE_SIZE * CHUNK_MAP_RECORD_LENGTH)
               (page_len n k * CHUNK_MAP_RECORD_LENGTH) = Inr (page_of_array n arr k))"

definition crec_ok :: "reader \<Rightarrow> bytes \<Rightarrow> chunk_map_entry list \<Rightarrow> crec \<Rightarrow> bool" where
  "crec_ok rd_at arr es s \<longleftrightarrow> map_num s = length es \<and> decodes arr es \<and>
     pages_ok arr es s \<and> ends_ok es s \<and> source_ok rd_at arr (length es) s"

lemma crec_okD:
  assumes "crec_ok rd_at arr es s"
  shows "map_num s = length es" "decodes arr es" "pages_ok arr es s" "ends_ok es s"
    "source_ok rd_at arr (length es) s" "page_count s = page_count_of (length es)"
  using assms by (simp_all add: crec_ok_def page_count_def)

lemma fetch_page_ok:
  assumes "crec_ok rd_at arr es s" and "k < page_count_of (length es)"
  shows "fetch_page rd_at s k = Inr (page_of_array (length es) arr k)"
  using crec_okD [OF assms(1)] assms(2)
  by (auto simp: fetch_page_def source_ok_def page_bounds_eq split: option.splits)

lemma note_page_end_ok:
  assumes k: "k < page_count_of (length es)" and r: "parse_chunk_map_record r = Inr (es ! page_last (length es) k)"
    and e: "ends_ok es s"
  shows "\<exists>d c. note_page_end k r s = (Inr (), s\<lparr>cr_page_end := d, cr_contig := c\<rparr>) \<and>
    ends_ok es (s\<lparr>cr_page_end := d, cr_contig := c\<rparr>) \<and>
    map_of d k = Some (entry_end (es ! page_last (length es) k)) \<and>
    (\<forall>j. map_of (cr_page_end s) j \<noteq> None \<longrightarrow> map_of d j \<noteq> None)"
proof -
  let ?d = "AList.update k (entry_end (es ! page_last (length es) k)) (cr_page_end s)"
  let ?c = "if k = cr_contig s then absorb ?d (Suc (cr_contig s)) else cr_contig s"
  have m: "map_of ?d j = (if j = k then Some (entry_end (es ! page_last (length es) k)) else map_of (cr_page_end s) j)" for j
    by (simp add: update_conv')
  have known: "map_of ?d j \<noteq> None" if "j < ?c" for j
  proof (cases "j < cr_contig s")
    case True
    then show ?thesis using e by (simp add: m ends_ok_def)
  next
    case False
    with that have k: "k = cr_contig s" "j < absorb ?d (Suc k)" by (auto split: if_splits)
    show ?thesis
    proof (cases "j = k")
      case True
      then show ?thesis by (simp add: m)
    next
      case False
      with k \<open>\<not> j < cr_contig s\<close> have "Suc k \<le> j" by simp
      then show ?thesis using absorb_spec k(2) by blast
    qed
  qed
  have "note_page_end k r s = (Inr (), s\<lparr>cr_page_end := ?d, cr_contig := ?c\<rparr>)"
    using r by (simp add: note_page_end_def Let_def)
  moreover have "ends_ok es (s\<lparr>cr_page_end := ?d, cr_contig := ?c\<rparr>)"
    using e k known by (auto simp: ends_ok_def m)
  moreover have "map_of ?d k = Some (entry_end (es ! page_last (length es) k))" by (simp add: m)
  moreover have "\<forall>j. map_of (cr_page_end s) j \<noteq> None \<longrightarrow> map_of ?d j \<noteq> None" by (simp add: m)
  ultimately show ?thesis by blast
qed

text \<open>Reading a page that is cached right, or whose source is right.\<close>

lemma resolve_page_ok:
  assumes d: "decodes arr es" and n: "map_num s = length es" and k: "k < page_count_of (length es)"
    and p: "pages_ok arr es s" and e: "ends_ok es s" and f: "fetch k = Inr (page_of_array (length es) arr k)"
  shows "\<exists>s'. resolve_page k fetch s = (Inr (page_of_array (length es) arr k), s') \<and>
    cr_head s' = cr_head s \<and> cr_head_off s' = cr_head_off s \<and> cr_repaired s' = cr_repaired s \<and>
    pages_ok arr es s' \<and> ends_ok es s' \<and> map_of (cr_page_end s') k = Some (entry_end (es ! page_last (length es) k)) \<and>
    (\<forall>j. map_of (cr_page_end s) j \<noteq> None \<longrightarrow> map_of (cr_page_end s') j \<noteq> None)"
proof -
  let ?page = "page_of_array (length es) arr k"
  obtain r c where rc: "resolve_now fetch k (cr_pages s) = (r, c)" by fastforce
  note st = resolve_now_store [OF rc]
  have r: "r = Inr ?page"
  proof (cases r)
    case (Inl x)
    then show ?thesis using st(3) f by simp
  next
    case (Inr v)
    then have "map_of (c_store (cr_pages s)) k = Some v \<or> v = ?page" using st(2) f by auto
    then show ?thesis using p Inr by (auto simp: pages_ok_def dest: map_of_SomeD)
  qed
  have cok: "\<forall>(j, page) \<in> set (c_store c). j < page_count_of (length es) \<and> page = page_of_array (length es) arr j"
    using st(1) p k unfolding r pages_ok_def by blast
  let ?s = "s\<lparr>cr_pages := c\<rparr>"
  have "ends_ok es ?s" using e by (simp add: ends_ok_def)
  then obtain d' c' where np: "note_page_end k (last_record ?page) ?s = (Inr (), ?s\<lparr>cr_page_end := d', cr_contig := c'\<rparr>)"
    and rest: "ends_ok es (?s\<lparr>cr_page_end := d', cr_contig := c'\<rparr>)"
    "map_of d' k = Some (entry_end (es ! page_last (length es) k))"
    "\<forall>j. map_of (cr_page_end s) j \<noteq> None \<longrightarrow> map_of d' j \<noteq> None"
    using note_page_end_ok [OF k parse_last_record [OF d k], of ?s] by auto
  have "resolve_page k fetch s = (Inr ?page, ?s\<lparr>cr_page_end := d', cr_contig := c'\<rparr>)"
    using rc r np by (simp add: resolve_page_def)
  then show ?thesis using rest cok
    by (intro exI [of _ "?s\<lparr>cr_page_end := d', cr_contig := c'\<rparr>"]) (simp add: pages_ok_def)
qed

lemma get_page_ok:
  assumes s: "crec_ok rd_at arr es s" and k: "k < page_count_of (length es)"
  obtains s' where "get_page rd_at k s = (Inr (page_of_array (length es) arr k), s')" "crec_ok rd_at arr es s'"
    "map_of (cr_page_end s') k = Some (entry_end (es ! page_last (length es) k))"
proof -
  obtain s' where s': "resolve_page k (fetch_page rd_at s) s = (Inr (page_of_array (length es) arr k), s')"
    "cr_head s' = cr_head s" "cr_head_off s' = cr_head_off s" "cr_repaired s' = cr_repaired s"
    "pages_ok arr es s'" "ends_ok es s'" "map_of (cr_page_end s') k = Some (entry_end (es ! page_last (length es) k))"
    using resolve_page_ok [OF crec_okD(2) [OF s] crec_okD(1) [OF s] k crec_okD(3,4) [OF s], of "fetch_page rd_at s"]
      fetch_page_ok [OF s k] by blast
  have "source_ok rd_at arr (length es) s'"
    using crec_okD(5) [OF s] unfolding source_ok_def s'(3,4) .
  then have "crec_ok rd_at arr es s'"
    using crec_okD(1,2) [OF s] s' by (simp add: crec_ok_def map_num_def)
  then show thesis using that s' by (simp add: get_page_def)
qed

lemma page_end_key_ok:
  assumes "crec_ok rd_at arr es s" and "k < cr_contig s"
  shows "page_end_key s k = Inr (entry_end (es ! page_last (length es) k))" "k < page_count_of (length es)"
  using crec_okD(4) [OF assms(1)] assms(2) by (auto simp: page_end_key_def ends_ok_def split: option.splits)

subsection \<open>Finding and streaming entries\<close>

text \<open>Entries in file order: each ends no later than the next one does.\<close>

definition ends_sorted :: "chunk_map_entry list \<Rightarrow> bool" where
  "ends_sorted es \<longleftrightarrow> (\<forall>i j. i \<le> j \<and> j < length es \<longrightarrow> entry_end (es ! i) \<le> entry_end (es ! j))"

text \<open>How many entries end at or before \<open>start\<close>.\<close>

definition first_idx :: "nat \<Rightarrow> chunk_map_entry list \<Rightarrow> nat" where
  "first_idx start es = length (takeWhile (\<lambda>e. entry_end e \<le> start) es)"

lemma first_idx_unique:
  assumes "i \<le> length es" and "\<forall>j < i. entry_end (es ! j) \<le> start" and "i < length es \<longrightarrow> start < entry_end (es ! i)"
  shows "first_idx start es = i"
proof -
  have "takeWhile (\<lambda>e. entry_end e \<le> start) es = take i es"
    using assms by (intro takeWhile_eq_take_P_nth) auto
  then show ?thesis using assms(1) by (simp add: first_idx_def)
qed

text \<open>The pages from \<open>p\<close> on, when all pages before \<open>p\<close> end at or before \<open>start\<close>.\<close>

lemma locate_from_ok:
  assumes "crec_ok rd_at arr es s" and "ends_sorted es"
    and "\<forall>j < p * PAGE_SIZE. j < length es \<longrightarrow> entry_end (es ! j) \<le> start" and "p \<le> page_count_of (length es)"
  shows "\<exists>s' found. locate_from rd_at start [p..<page_count_of (length es)] s = (Inr found, s') \<and> crec_ok rd_at arr es s' \<and>
    (case found of
       None \<Rightarrow> first_idx start es = length es
     | Some (k, page) \<Rightarrow> k < page_count_of (length es) \<and> page = page_of_array (length es) arr k \<and>
         (\<forall>j < k * PAGE_SIZE. entry_end (es ! j) \<le> start) \<and> start < entry_end (es ! page_last (length es) k))"
  using assms(1,3,4)
proof (induction "page_count_of (length es) - p" arbitrary: p s)
  case 0
  then have p: "p = page_count_of (length es)" by simp
  have "\<not> p * PAGE_SIZE < length es" unfolding p less_page_count [symmetric] by simp
  then have "\<forall>j < length es. entry_end (es ! j) \<le> start" using 0(3) by auto
  then have "first_idx start es = length es" by (intro first_idx_unique) auto
  with 0 p show ?case by simp
next
  case (Suc n)
  let ?n = "length es"
  have p: "p < page_count_of ?n" using Suc.hyps(2) by simp
  obtain s1 where s1: "get_page rd_at p s = (Inr (page_of_array ?n arr p), s1)" "crec_ok rd_at arr es s1"
    "map_of (cr_page_end s1) p = Some (entry_end (es ! page_last ?n p))"
    using get_page_ok [OF Suc.prems(1) p] by blast
  have key: "page_end_key s1 p = Inr (entry_end (es ! page_last ?n p))" using s1(3) by (simp add: page_end_key_def)
  have upt: "[p..<page_count_of ?n] = p # [Suc p..<page_count_of ?n]" using p by (simp add: upt_conv_Cons)
  show ?case
  proof (cases "start < entry_end (es ! page_last ?n p)")
    case True
    have "\<forall>j < p * PAGE_SIZE. entry_end (es ! j) \<le> start"
      using Suc.prems(2) p by (auto simp: less_page_count)
    then show ?thesis using True s1 key p by (simp add: upt)
  next
    case False
    have "\<forall>j < Suc p * PAGE_SIZE. j < ?n \<longrightarrow> entry_end (es ! j) \<le> start"
    proof (intro allI impI)
      fix j assume j: "j < Suc p * PAGE_SIZE" "j < ?n"
      from page_last_bound [OF j(2,1)] have "entry_end (es ! j) \<le> entry_end (es ! page_last ?n p)"
        using assms(2) page_last_less [OF p] by (simp add: ends_sorted_def)
      with False show "entry_end (es ! j) \<le> start" by simp
    qed
    note before = this
    have n: "n = page_count_of ?n - Suc p" using Suc.hyps(2) by simp
    have p': "Suc p \<le> page_count_of ?n" using p by simp
    from Suc.hyps(1) [OF n s1(2) before p'] obtain s' found where
      "locate_from rd_at start [Suc p..<page_count_of ?n] s1 = (Inr found, s')" "crec_ok rd_at arr es s'"
      "case found of None \<Rightarrow> first_idx start es = length es
       | Some (k, page) \<Rightarrow> k < page_count_of (length es) \<and> page = page_of_array (length es) arr k \<and>
         (\<forall>j < k * PAGE_SIZE. entry_end (es ! j) \<le> start) \<and> start < entry_end (es ! page_last (length es) k)" by blast
    then show ?thesis using False s1(1) key by (simp add: upt)
  qed
qed

lemma locate_ok:
  assumes s: "crec_ok rd_at arr es s" and sorted: "ends_sorted es"
  shows "\<exists>s' p i. locate rd_at start s = (Inr (p, i), s') \<and> crec_ok rd_at arr es s' \<and>
    (start \<noteq> 0 \<longrightarrow> drop (p * PAGE_SIZE + i) es = drop (first_idx start es) es) \<and> (start = 0 \<longrightarrow> p = 0 \<and> i = 0) \<and>
    (p < page_count_of (length es) \<longrightarrow> i \<le> page_len (length es) p) \<and> (\<not> p < page_count_of (length es) \<longrightarrow> i = 0)"
proof (cases "start = 0")
  case True
  with s show ?thesis by (simp add: locate_def)
next
  case False
  let ?n = "length es" and ?f = "\<lambda>k. entry_end (es ! page_last (length es) k)"
  have mono: "?f i \<le> ?f j" if "i \<le> j" "j < page_count_of ?n" for i j
  proof -
    have "page_last ?n i \<le> page_last ?n j"
    proof (cases "i = j")
      case False
      then have "Suc i \<le> j" using that by simp
      then have "Suc i * PAGE_SIZE \<le> j * PAGE_SIZE" by (rule mult_le_mono1)
      then show ?thesis using page_len_pos [OF that(2)] by (simp add: page_last_def page_len_def)
    qed simp
    then show ?thesis using sorted page_last_less [OF that(2)] by (simp add: ends_sorted_def)
  qed
  have contig: "cr_contig s \<le> page_count_of ?n"
    using page_end_key_ok(2) [OF s, of "cr_contig s - 1"] by (cases "cr_contig s") auto
  obtain p0 where p0: "bisect_right (page_end_key s) start 0 (cr_contig s) = Inr p0" "p0 \<le> cr_contig s"
    "\<forall>i < p0. ?f i \<le> start"
    using bisect_right_spec [of 0 "cr_contig s" "page_end_key s" ?f start] page_end_key_ok [OF s] mono contig by auto
  have before: "\<forall>j < p0 * PAGE_SIZE. j < ?n \<longrightarrow> entry_end (es ! j) \<le> start"
  proof (intro allI impI)
    fix j assume j: "j < p0 * PAGE_SIZE" "j < ?n"
    let ?k = "j div PAGE_SIZE"
    have k: "?k < p0" using j(1) by (simp add: less_mult_imp_div_less)
    have split: "?k * PAGE_SIZE + j mod PAGE_SIZE = j" by simp
    have "j mod PAGE_SIZE < PAGE_SIZE" using page_size_pos by simp
    then have "j < Suc ?k * PAGE_SIZE" using split unfolding mult_Suc by linarith
    then have "j \<le> page_last ?n ?k" by (rule page_last_bound [OF j(2)])
    moreover have "page_last ?n ?k < ?n" using k p0(2) contig by (intro page_last_less) simp
    ultimately have "entry_end (es ! j) \<le> ?f ?k" using sorted by (simp add: ends_sorted_def)
    with p0(3) k show "entry_end (es ! j) \<le> start" using order_trans by blast
  qed
  obtain s' found where lf: "locate_from rd_at start [p0..<page_count_of ?n] s = (Inr found, s')" "crec_ok rd_at arr es s'"
    and found: "case found of None \<Rightarrow> first_idx start es = length es
       | Some (k, page) \<Rightarrow> k < page_count_of (length es) \<and> page = page_of_array (length es) arr k \<and>
         (\<forall>j < k * PAGE_SIZE. entry_end (es ! j) \<le> start) \<and> start < entry_end (es ! page_last (length es) k)"
    using locate_from_ok [OF s sorted before] p0(2) contig by auto
  have pc: "page_count s = page_count_of ?n" "map_num s = ?n" using crec_okD [OF s] by simp_all
  show ?thesis
  proof (cases found)
    case None
    have "?n \<le> page_count_of ?n * PAGE_SIZE" using less_page_count [of "page_count_of ?n" ?n] by simp
    then show ?thesis using None False p0(1) lf found by (simp add: locate_def pc)
  next
    case (Some kp)
    then obtain k where kp: "found = Some (k, page_of_array ?n arr k)" and k: "k < page_count_of ?n"
      and bef: "\<forall>j < k * PAGE_SIZE. entry_end (es ! j) \<le> start" and last: "start < ?f k"
      using found by auto
    let ?e = "\<lambda>i. entry_end (es ! (k * PAGE_SIZE + i))"
    have inr: "k * PAGE_SIZE + i < ?n" if "i < page_len ?n k" for i using that page_within [OF k] by simp
    have "\<forall>i. 0 \<le> i \<and> i < page_len ?n k \<longrightarrow> chunk_map_end_offset (page_of_array ?n arr k) i = Inr (?e i)"
      using parse_page [OF crec_okD(2) [OF s] k] by (simp add: chunk_map_end_offset_eq)
    moreover have "\<forall>i j. 0 \<le> i \<and> i \<le> j \<and> j < page_len ?n k \<longrightarrow> ?e i \<le> ?e j"
      using sorted inr by (simp add: ends_sorted_def)
    ultimately obtain r where r: "bisect_right (chunk_map_end_offset (page_of_array ?n arr k)) start 0 (page_len ?n k) = Inr r"
      "r \<le> page_len ?n k" "\<forall>i < r. ?e i \<le> start" "\<forall>i. r \<le> i \<and> i < page_len ?n k \<longrightarrow> start < ?e i"
      using bisect_right_spec [of 0 "page_len ?n k" "chunk_map_end_offset (page_of_array ?n arr k)" ?e start] by auto
    have "r \<noteq> page_len ?n k"
      using r(3) [rule_format, of "page_len ?n k - 1"] last page_len_pos [OF k] by (auto simp: page_last_def)
    then have rl: "r < page_len ?n k" using r(2) by simp
    have "first_idx start es = k * PAGE_SIZE + r"
    proof (rule first_idx_unique)
      show "\<forall>j < k * PAGE_SIZE + r. entry_end (es ! j) \<le> start"
      proof (intro allI impI)
        fix j assume "j < k * PAGE_SIZE + r"
        then show "entry_end (es ! j) \<le> start"
          using bef r(3) [rule_format, of "j - k * PAGE_SIZE"] by (cases "j < k * PAGE_SIZE") auto
      qed
    qed (use inr [OF rl] r(4) rl in auto)
    then show ?thesis
      using kp False p0(1) lf k r(1,2) by (simp add: locate_def pc page_bounds_eq)
  qed
qed

lemma takeWhile_append_all: "takeWhile P xs = xs \<Longrightarrow> takeWhile P (xs @ ys) = xs @ takeWhile P ys"
  by (metis takeWhile_append2 takeWhile_eq_all_conv)

lemma takeWhile_full: "length xs \<le> length (takeWhile P xs) \<Longrightarrow> takeWhile P xs = xs"
  by (metis takeWhile_eq_take take_all)

lemma pslice_drop_split: "a \<le> b \<Longrightarrow> drop a xs = pslice a b xs @ drop b xs"
  by (metis append_take_drop_id drop_drop le_add_diff_inverse2 pslice_def)

lemma takeWhile_append_some: "length (takeWhile P xs) < length xs \<Longrightarrow> takeWhile P (xs @ ys) = takeWhile P xs"
proof (induction xs)
  case (Cons x xs)
  then show ?case by (cases "P x") auto
qed simp

lemma entries_pages_ok:
  assumes "crec_ok rd_at arr es s" and "p \<le> page_count_of (length es)"
    and "p < page_count_of (length es) \<longrightarrow> i \<le> page_len (length es) p"
  shows "\<exists>s'. entries_pages rd_at stop [p..<page_count_of (length es)] i s =
      ((takeWhile (before_end stop) (if p < page_count_of (length es) then drop (p * PAGE_SIZE + i) es else []), None), s') \<and>
      crec_ok rd_at arr es s'"
  using assms
proof (induction "page_count_of (length es) - p" arbitrary: p i s)
  case 0
  then show ?case by simp
next
  case (Suc m)
  let ?n = "length es"
  have p: "p < page_count_of ?n" using Suc.hyps(2) by simp
  have i: "i \<le> page_len ?n p" using Suc.prems(3) p by blast
  obtain s1 where s1: "get_page rd_at p s = (Inr (page_of_array ?n arr p), s1)" "crec_ok rd_at arr es s1"
    using get_page_ok [OF Suc.prems(1) p] by blast
  have mn: "map_num s = ?n" using crec_okD(1) [OF Suc.prems(1)] .
  have mn1: "map_num s1 = ?n" using crec_okD(1) [OF s1(2)] .
  let ?ys = "pslice (p * PAGE_SIZE + i) (p * PAGE_SIZE + page_len ?n p) es"
  have m: "m = page_count_of ?n - Suc p" using Suc.hyps(2) by simp
  have p': "Suc p \<le> page_count_of ?n" using p by simp
  obtain s2 where s2: "entries_pages rd_at stop [Suc p..<page_count_of ?n] 0 s1 =
      ((takeWhile (before_end stop) (if Suc p < page_count_of ?n then drop (Suc p * PAGE_SIZE) es else []), None), s2)"
    "crec_ok rd_at arr es s2"
    using Suc.hyps(1) [OF m s1(2) p', of 0] by auto
  have split: "drop (p * PAGE_SIZE + i) es = ?ys @ (if Suc p < page_count_of ?n then drop (Suc p * PAGE_SIZE) es else [])"
  proof -
    have "drop (p * PAGE_SIZE + i) es = ?ys @ drop (p * PAGE_SIZE + page_len ?n p) es"
      using i by (intro pslice_drop_split) simp
    moreover have "drop (p * PAGE_SIZE + page_len ?n p) es = (if Suc p < page_count_of ?n then drop (Suc p * PAGE_SIZE) es else [])"
      using page_next [OF p] page_final [OF _ p] by (auto simp: add.commute)
    ultimately show ?thesis by simp
  qed
  have upt: "[p..<page_count_of ?n] = p # [Suc p..<page_count_of ?n]" using p by (simp add: upt_conv_Cons)
  show ?case
  proof (cases "length (takeWhile (before_end stop) ?ys) < length ?ys")
    case True
    then show ?thesis
      using s1 p takeWhile_append_some [OF True] split
      by (simp add: upt page_bounds_eq mn mn1 iter_page [OF crec_okD(2) [OF Suc.prems(1)] p i] Let_def del: length_pslice)
  next
    case False
    then have "takeWhile (before_end stop) ?ys = ?ys" by (intro takeWhile_full) (simp only: not_less)
    then show ?thesis
      using s1 s2 p False split takeWhile_append_all [of "before_end stop" ?ys]
      by (simp add: upt page_bounds_eq mn mn1 iter_page [OF crec_okD(2) [OF Suc.prems(1)] p i] Let_def del: length_pslice)
  qed
qed

text \<open>The stream, whatever pages happen to be cached.\<close>

lemma entries_ok:
  assumes s: "crec_ok rd_at arr es s" and sorted: "ends_sorted es"
  shows "\<exists>s'. entries rd_at start stop s =
      ((takeWhile (before_end stop) (if start = 0 then es else drop (first_idx start es) es), None), s') \<and>
    crec_ok rd_at arr es s'"
proof (cases "map_num s = 0")
  case True
  then show ?thesis using s crec_okD(1) [OF s] by (auto simp: entries_def)
next
  case False
  let ?n = "length es"
  obtain s1 p i where l: "locate rd_at start s = (Inr (p, i), s1)" "crec_ok rd_at arr es s1"
    "start \<noteq> 0 \<longrightarrow> drop (p * PAGE_SIZE + i) es = drop (first_idx start es) es" "start = 0 \<longrightarrow> p = 0 \<and> i = 0"
    "p < page_count_of ?n \<longrightarrow> i \<le> page_len ?n p" "\<not> p < page_count_of ?n \<longrightarrow> i = 0"
    using locate_ok [OF s sorted, of start] by blast
  have n: "0 < ?n" using False crec_okD(1) [OF s] by simp
  have pc: "page_count s1 = page_count_of ?n" "page_count s = page_count_of ?n" using crec_okD(6) [OF l(2)] crec_okD(6) [OF s] by simp_all
  show ?thesis
  proof (cases "p < page_count_of ?n")
    case True
    then obtain s2 where "entries_pages rd_at stop [p..<page_count_of ?n] i s1 =
        ((takeWhile (before_end stop) (drop (p * PAGE_SIZE + i) es), None), s2)" "crec_ok rd_at arr es s2"
      using entries_pages_ok [OF l(2), of p i stop] l(5) by auto
    then show ?thesis using l False pc by (cases "start = 0") (auto simp: entries_def)
  next
    case gt: False
    then have "drop (p * PAGE_SIZE + i) es = []" using less_page_count [of p ?n] by simp
    moreover have "start \<noteq> 0" using gt l(4) n less_page_count [of 0 ?n] by auto
    ultimately have "drop (first_idx start es) es = []" using l(3) by simp
    then show ?thesis using l gt False pc \<open>start \<noteq> 0\<close> by (simp add: entries_def)
  qed
qed

subsection \<open>Repaired and primed pages\<close>

text \<open>
  The seeding loop: page by page, the cache and the end offsets come to agree with the
  repaired array, whatever they held before (the pages of a corrupted copy, say).
\<close>

definition seeded :: "bytes \<Rightarrow> chunk_map_entry list \<Rightarrow> nat \<Rightarrow> crec \<Rightarrow> bool" where
  "seeded arr es m s \<longleftrightarrow> map_num s = length es \<and> decodes arr es \<and> cr_repaired s = Some arr \<and>
     (\<forall>(k, page) \<in> set (c_store (cr_pages s)). k < page_count_of (length es) \<and> (k < m \<longrightarrow> page = page_of_array (length es) arr k)) \<and>
     (\<forall>k v. map_of (cr_page_end s) k = Some v \<longrightarrow>
        k < page_count_of (length es) \<and> (k < m \<longrightarrow> v = entry_end (es ! page_last (length es) k))) \<and>
     (\<forall>k < cr_contig s. map_of (cr_page_end s) k \<noteq> None)"

lemma note_page_end_any:
  assumes "parse_chunk_map_record r = Inr e"
  shows "\<exists>d c. note_page_end k r s = (Inr (), s\<lparr>cr_page_end := d, cr_contig := c\<rparr>) \<and>
    map_of d = (map_of (cr_page_end s))(k \<mapsto> entry_end e) \<and>
    ((\<forall>j < cr_contig s. map_of (cr_page_end s) j \<noteq> None) \<longrightarrow> (\<forall>j < c. map_of d j \<noteq> None))"
proof -
  let ?d = "AList.update k (entry_end e) (cr_page_end s)"
  let ?c = "if k = cr_contig s then absorb ?d (Suc (cr_contig s)) else cr_contig s"
  have m: "map_of ?d = (map_of (cr_page_end s))(k \<mapsto> entry_end e)" by (rule ext) (simp add: update_conv')
  have "map_of ?d j \<noteq> None" if "\<forall>j < cr_contig s. map_of (cr_page_end s) j \<noteq> None" "j < ?c" for j
  proof (cases "j < cr_contig s")
    case False
    with that(2) have k: "k = cr_contig s" "j < absorb ?d (Suc k)" by (auto split: if_splits)
    show ?thesis
    proof (cases "j = k")
      case False
      with k \<open>\<not> j < cr_contig s\<close> have "Suc k \<le> j" by simp
      then show ?thesis using absorb_spec k(2) by blast
    qed (simp add: m)
  qed (use that(1) in \<open>simp add: m\<close>)
  with m show ?thesis using assms
    by (intro exI [of _ ?d] exI [of _ ?c]) (simp add: note_page_end_def Let_def)
qed

lemma seed_step:
  assumes s: "seeded arr es m s" and m: "m < page_count_of (length es)"
  shows "\<exists>s'. op_bind (resolve_page m (\<lambda>k. Inr (page_of_array (map_num s) arr k))) (\<lambda>_. op_return ())
      (s\<lparr>cr_pages := invalidate (Some m) (cr_pages s)\<rparr>) = (Inr (), s') \<and> seeded arr es (Suc m) s' \<and>
    cr_head s' = cr_head s \<and> cr_head_off s' = cr_head_off s"
proof -
  let ?n = "length es" and ?c0 = "invalidate (Some m) (cr_pages s)"
  let ?page = "page_of_array ?n arr m"
  have n: "map_num s = ?n" and d: "decodes arr es" using s by (simp_all add: seeded_def)
  have c0: "c_store ?c0 = od_pop m (c_store (cr_pages s))" by (simp add: invalidate_def)
  obtain r c where rc: "resolve_now (\<lambda>k. Inr (page_of_array ?n arr k)) m ?c0 = (r, c)" by fastforce
  note st = resolve_now_store [OF rc]
  have "map_of (c_store ?c0) m = None" by (auto simp: c0 map_of_eq_None_iff)
  then have r: "r = Inr ?page" using st(2,3) by (cases r) auto
  have sub: "set (c_store c) \<subseteq> {p \<in> set (c_store (cr_pages s)). fst p \<noteq> m} \<union> {(m, ?page)}"
    using st(1) by (simp add: c0 r)
  let ?sc = "s\<lparr>cr_pages := c\<rparr>"
  obtain d' c' where np: "note_page_end m (last_record ?page) ?sc = (Inr (), ?sc\<lparr>cr_page_end := d', cr_contig := c'\<rparr>)"
    and dm': "map_of d' = (map_of (cr_page_end ?sc))(m \<mapsto> entry_end (es ! page_last ?n m))"
    and known': "(\<forall>j < cr_contig ?sc. map_of (cr_page_end ?sc) j \<noteq> None) \<longrightarrow> (\<forall>j < c'. map_of d' j \<noteq> None)"
    using note_page_end_any [OF parse_last_record [OF d m], of m ?sc] by blast
  have dm: "map_of d' = (map_of (cr_page_end s))(m \<mapsto> entry_end (es ! page_last ?n m))" using dm' by simp
  have known: "(\<forall>j < cr_contig s. map_of (cr_page_end s) j \<noteq> None) \<longrightarrow> (\<forall>j < c'. map_of d' j \<noteq> None)" using known' by simp
  let ?s' = "s\<lparr>cr_pages := c, cr_page_end := d', cr_contig := c'\<rparr>"
  have "op_bind (resolve_page m (\<lambda>k. Inr (page_of_array (map_num s) arr k))) (\<lambda>_. op_return ())
      (s\<lparr>cr_pages := ?c0\<rparr>) = (Inr (), ?s')"
    using rc r np by (simp add: resolve_page_def n op_bind_def)
  moreover have "seeded arr es (Suc m) ?s'"
    unfolding seeded_def
  proof (intro conjI)
    show "\<forall>(k, page) \<in> set (c_store (cr_pages ?s')). k < page_count_of ?n \<and> (k < Suc m \<longrightarrow> page = page_of_array ?n arr k)"
      using s sub m by (fastforce simp: seeded_def less_Suc_eq)
    show "\<forall>k v. map_of (cr_page_end ?s') k = Some v \<longrightarrow>
        k < page_count_of ?n \<and> (k < Suc m \<longrightarrow> v = entry_end (es ! page_last ?n k))"
      using s m by (auto simp: seeded_def dm less_Suc_eq split: if_splits)
    show "\<forall>k < cr_contig ?s'. map_of (cr_page_end ?s') k \<noteq> None" using s known by (simp add: seeded_def)
  qed (use s in \<open>simp_all add: seeded_def map_num_def\<close>)
  ultimately show ?thesis by (intro exI [of _ ?s']) simp
qed

lemma seed_loop:
  assumes "seeded arr es m s" and "m \<le> page_count_of (length es)"
  shows "\<exists>s'. op_each (\<lambda>page_idx s.
       op_bind (resolve_page page_idx (\<lambda>k. Inr (page_of_array (map_num s) arr k))) (\<lambda>_. op_return ())
         (s\<lparr>cr_pages := invalidate (Some page_idx) (cr_pages s)\<rparr>)) [m..<page_count_of (length es)] s = (Inr (), s') \<and>
    seeded arr es (page_count_of (length es)) s'"
  using assms
proof (induction "page_count_of (length es) - m" arbitrary: m s)
  case 0
  then show ?case by (auto simp: le_antisym)
next
  case (Suc n)
  then have m: "m < page_count_of (length es)" by simp
  obtain s1 where s1: "op_bind (resolve_page m (\<lambda>k. Inr (page_of_array (map_num s) arr k))) (\<lambda>_. op_return ())
      (s\<lparr>cr_pages := invalidate (Some m) (cr_pages s)\<rparr>) = (Inr (), s1)" "seeded arr es (Suc m) s1"
    using seed_step [OF Suc.prems(1) m] by blast
  have n: "n = page_count_of (length es) - Suc m" and m': "Suc m \<le> page_count_of (length es)" using Suc.hyps(2) m by simp_all
  show ?case using Suc.hyps(1) [OF n s1(2) m'] s1(1) m by (simp add: upt_conv_Cons op_bind_def)
qed

text \<open>What a record holds in any state: some page numbers and end offsets, none out of range.\<close>

definition crec_shape :: "chunk_map_entry list \<Rightarrow> crec \<Rightarrow> bool" where
  "crec_shape es s \<longleftrightarrow> map_num s = length es \<and>
     (\<forall>k \<in> fst ` set (c_store (cr_pages s)). k < page_count_of (length es)) \<and>
     (\<forall>k v. map_of (cr_page_end s) k = Some v \<longrightarrow> k < page_count_of (length es)) \<and>
     (\<forall>k < cr_contig s. map_of (cr_page_end s) k \<noteq> None)"

lemma crec_ok_shape: "crec_ok rd_at arr es s \<Longrightarrow> crec_shape es s"
  by (auto simp: crec_ok_def crec_shape_def pages_ok_def ends_ok_def)

lemma seed_pages_ok:
  assumes "crec_shape es s" and "decodes arr es"
  shows "\<exists>s'. seed_pages_from_array arr s = (Inr (), s') \<and> crec_ok rd_at arr es s'"
proof -
  have n: "map_num s = length es" "page_count s = page_count_of (length es)"
    using assms(1) by (simp_all add: crec_shape_def page_count_def)
  have "seeded arr es 0 (s\<lparr>cr_repaired := Some arr\<rparr>)"
    using assms by (auto simp: seeded_def crec_shape_def map_num_def)
  from seed_loop [OF this] obtain s' where s': "op_each (\<lambda>page_idx s.
       op_bind (resolve_page page_idx (\<lambda>k. Inr (page_of_array (map_num s) arr k))) (\<lambda>_. op_return ())
         (s\<lparr>cr_pages := invalidate (Some page_idx) (cr_pages s)\<rparr>)) [0..<page_count_of (length es)] (s\<lparr>cr_repaired := Some arr\<rparr>)
      = (Inr (), s')" "seeded arr es (page_count_of (length es)) s'" by auto
  have "crec_ok rd_at arr es s'"
    using s'(2) by (fastforce simp: seeded_def crec_ok_def pages_ok_def ends_ok_def source_ok_def)
  then show ?thesis
    using s'(1) n assms(2) by (auto simp: seed_pages_from_array_def check_array_length_def decodes_def op_bind_def require_def)
qed

lemma parse_record_of_array:
  assumes d: "decodes arr es" and i: "i < length es"
  shows "parse_chunk_map_record (pslice (i * CHUNK_MAP_RECORD_LENGTH) (i * CHUNK_MAP_RECORD_LENGTH + CHUNK_MAP_RECORD_LENGTH) arr)
    = Inr (es ! i)"
proof -
  let ?R = CHUNK_MAP_RECORD_LENGTH
  have le: "i * ?R + ?R \<le> length arr"
  proof -
    have "Suc i * ?R \<le> length es * ?R" using i by (intro mult_le_mono1) simp
    then show ?thesis using d by (simp add: decodes_def)
  qed
  have "parse_at (pslice (i * ?R) (i * ?R + ?R) arr) 0 = parse_at arr (i * ?R)"
    using parse_at_pslice [of 0 "i * ?R + ?R" "i * ?R" arr] le by simp
  then show ?thesis using d i le by (simp add: parse_chunk_map_record_def decodes_def min_def)
qed

lemma put_store_subset: "set (c_store (put k v c)) \<subseteq> insert (k, v) (set (c_store c))"
  using evict_store_subset [of "c\<lparr>c_store := od_set_last k v (c_store c)\<rparr>"]
  by (auto simp: put_def store_and_evict_def)

lemma prime_loop_ok:
  assumes "crec_ok rd_at arr es s" and "\<forall>k \<in> set ks. k < page_count_of (length es)"
  shows "\<exists>s'. prime_loop arr start stop ks s = (Inr (), s') \<and> crec_ok rd_at arr es s'"
  using assms
proof (induction ks arbitrary: s)
  case (Cons k ks)
  let ?n = "length es" and ?R = CHUNK_MAP_RECORD_LENGTH
  note ok = crec_okD [OF Cons.prems(1)]
  have k: "k < page_count_of ?n" using Cons.prems(2) by simp
  have rest: "\<And>s. crec_ok rd_at arr es s \<Longrightarrow> \<exists>s'. prime_loop arr start stop ks s = (Inr (), s') \<and> crec_ok rd_at arr es s'"
    using Cons.IH Cons.prems(2) by simp
  have first: "parse_chunk_map_record (pslice (k * PAGE_SIZE * ?R) (k * PAGE_SIZE * ?R + ?R) arr) = Inr (es ! (k * PAGE_SIZE))"
    using parse_record_of_array [OF ok(2)] k by (simp add: less_page_count)
  have lastoff: "k * PAGE_SIZE * ?R + (page_len ?n k - 1) * ?R = page_last ?n k * ?R"
    using page_len_pos [OF k] by (simp add: page_last_def add_mult_distrib [symmetric])
  have last: "parse_chunk_map_record (pslice (page_last ?n k * ?R) (page_last ?n k * ?R + ?R) arr) = Inr (es ! page_last ?n k)"
    using parse_record_of_array [OF ok(2) page_last_less [OF k]] .
  obtain s1 where s1: "(if map_of (cr_page_end s) k = None
      then note_page_end k (pslice (page_last ?n k * ?R) (page_last ?n k * ?R + ?R) arr) else op_return ()) s = (Inr (), s1)"
    "crec_ok rd_at arr es s1" "page_end_key s1 k = Inr (entry_end (es ! page_last ?n k))"
  proof (cases "map_of (cr_page_end s) k = None")
    case True
    obtain d c where dc: "note_page_end k (pslice (page_last ?n k * ?R) (page_last ?n k * ?R + ?R) arr) s
        = (Inr (), s\<lparr>cr_page_end := d, cr_contig := c\<rparr>)" "ends_ok es (s\<lparr>cr_page_end := d, cr_contig := c\<rparr>)"
      "map_of d k = Some (entry_end (es ! page_last ?n k))"
      using note_page_end_ok [OF k last ok(4)] by blast
    have "crec_ok rd_at arr es (s\<lparr>cr_page_end := d, cr_contig := c\<rparr>)"
      using ok dc(2) by (auto simp: crec_ok_def map_num_def pages_ok_def source_ok_def split: option.splits)
    with dc True that show thesis by (simp add: page_end_key_def)
  next
    case False
    then show thesis using Cons.prems(1) ok(4) that by (auto simp: page_end_key_def ends_ok_def)
  qed
  show ?case
  proof (cases "stop \<le> cm_file_offset (es ! (k * PAGE_SIZE))")
    case True
    then show ?thesis using first Cons.prems(1) by (simp add: page_bounds_eq ok(1))
  next
    case False
    let ?put = "s1\<lparr>cr_pages := put k (page_of_array ?n arr k) (cr_pages s1)\<rparr>"
    have "crec_ok rd_at arr es ?put"
      using s1(2) k put_store_subset [of k "page_of_array ?n arr k" "cr_pages s1"]
      by (fastforce simp: crec_ok_def map_num_def pages_ok_def ends_ok_def source_ok_def split: option.splits)
    then show ?thesis
      using False first s1 rest crec_okD(1) [OF s1(2)]
      by (cases "map_of (cr_page_end s) k")
        (simp_all add: page_bounds_eq ok(1) Let_def lastoff [unfolded One_nat_def] op_bind_def)
  qed
qed simp

lemma prime_pages_ok:
  assumes "crec_ok rd_at arr es s"
  shows "\<exists>s'. prime_pages arr start stop s = (Inr (), s') \<and> crec_ok rd_at arr es s'"
  using prime_loop_ok [OF assms, of "[0..<page_count s]" start stop] crec_okD [OF assms]
  by (simp add: prime_pages_def check_array_length_def decodes_def op_bind_def)

lemma extent_ok:
  assumes "crec_ok rd_at arr es s" and "es \<noteq> []"
  shows "\<exists>s'. extent rd_at s = (Inr (cm_file_offset (hd es), entry_end (last es)), s') \<and> crec_ok rd_at arr es s'"
proof -
  let ?n = "length es" and ?R = CHUNK_MAP_RECORD_LENGTH
  let ?last = "page_count_of ?n - 1"
  note ok = crec_okD [OF assms(1)]
  have p0: "0 < page_count_of ?n" using assms(2) by (simp add: less_page_count)
  then have pl: "?last < page_count_of ?n" by simp
  obtain s1 where s1: "get_page rd_at 0 s = (Inr (page_of_array ?n arr 0), s1)" "crec_ok rd_at arr es s1"
    using get_page_ok [OF assms(1) p0] by blast
  obtain s2 pg where s2: "get_page rd_at ?last s1 = (Inr pg, s2)" "crec_ok rd_at arr es s2"
    "map_of (cr_page_end s2) ?last = Some (entry_end (es ! page_last ?n ?last))"
    using get_page_ok [OF s1(2) pl] by blast
  have "?last * PAGE_SIZE + page_len ?n ?last = ?n" using p0 by (intro page_final) simp_all
  then have lst: "page_last ?n ?last = ?n - 1" by (simp add: page_last_def)
  have "parse_at (take ?R (page_of_array ?n arr 0)) 0 = parse_at (page_of_array ?n arr 0) (0 * ?R)"
    and len: "?R \<le> length (page_of_array ?n arr 0)"
    using parse_at_pslice [of 0 ?R 0 "page_of_array ?n arr 0"] length_page [OF ok(2) p0] page_len_pos [OF p0] by simp_all
  then have "parse_chunk_map_record (take ?R (page_of_array ?n arr 0)) = Inr (es ! 0)"
    using parse_page [OF ok(2) p0 page_len_pos [OF p0]] by (simp add: parse_chunk_map_record_def min_def)
  moreover have "page_end_key s2 ?last = Inr (entry_end (last es))"
    using s2(3) lst assms(2) by (simp add: page_end_key_def last_conv_nth)
  ultimately show ?thesis
    using s1 s2 assms(2) ok(1) crec_okD(6) [OF s1(2)] crec_okD(6) [OF assms(1)] crec_okD(6) [OF s2(2)]
    by (simp add: extent_def op_bind_def hd_conv_nth)
qed

text \<open>A record just opened over a reader that serves its array.\<close>

lemma crec_init_ok:
  assumes "decodes arr es" and "rh_map_num h = length es"
    and "\<And>off n. off + n \<le> length arr \<Longrightarrow> rd_at (chunk_map_array_offset head_off + off) n = Inr (pslice off (off + n) arr)"
  shows "crec_ok rd_at arr es (crec_init m head_off h)"
proof -
  have "rd_at (chunk_map_array_offset head_off + k * PAGE_SIZE * CHUNK_MAP_RECORD_LENGTH)
      (page_len (length es) k * CHUNK_MAP_RECORD_LENGTH) = Inr (page_of_array (length es) arr k)"
    if "k < page_count_of (length es)" for k
  proof -
    have "(k * PAGE_SIZE + page_len (length es) k) * CHUNK_MAP_RECORD_LENGTH \<le> length arr"
      using page_within [OF that] assms(1) by (simp add: decodes_def)
    then show ?thesis
      using assms(3) [of "k * PAGE_SIZE * CHUNK_MAP_RECORD_LENGTH" "page_len (length es) k * CHUNK_MAP_RECORD_LENGTH"]
      by (simp add: page_of_array_def page_bounds_eq add_mult_distrib)
  qed
  then show ?thesis
    using assms(1,2)
    by (simp add: crec_ok_def crec_init_def map_num_def pages_ok_def ends_ok_def source_ok_def cache_init_def)
qed

lemma decodes_encode: "\<forall>e \<in> set es. entry_fits e \<Longrightarrow> decodes (encode_entries es) es"
  by (simp add: decodes_def parse_at_encode_entries)

lemma drop_first_idx: "drop (first_idx start es) es = dropWhile (\<lambda>e. entry_end e \<le> start) es"
  by (simp add: first_idx_def dropWhile_eq_drop)

subsection \<open>Properties\<close>

text \<open>C6. The paged, cached, binary-searched record refines the plain array. In every state in which
  what is cached agrees with the array (\<open>crec_ok\<close>), with any subset of the pages cached or
  evicted, \<open>entries\<close> yields exactly the entries that end after \<open>start\<close>, up to the first that
  begins at or past \<open>stop\<close> (all from the first one when \<open>start\<close> is 0), raises nothing, and
  leaves such a state; \<open>extent\<close> and \<open>prime_pages\<close> do so too, and \<open>extent\<close> is the first entry's
  offset and the last entry's end.\<close>

theorem record_refines_array:
  assumes "crec_ok rd_at arr es s" and "ends_sorted es"
  shows "fst (entries rd_at start stop s) =
      (takeWhile (before_end stop) (if start = 0 then es else dropWhile (\<lambda>e. entry_end e \<le> start) es), None) \<and>
    crec_ok rd_at arr es (snd (entries rd_at start stop s)) \<and>
    (es \<noteq> [] \<longrightarrow> fst (extent rd_at s) = Inr (cm_file_offset (hd es), entry_end (last es))) \<and>
    (es \<noteq> [] \<longrightarrow> crec_ok rd_at arr es (snd (extent rd_at s))) \<and>
    (\<forall>a b. fst (prime_pages arr a b s) = Inr () \<and> crec_ok rd_at arr es (snd (prime_pages arr a b s)))"
proof -
  obtain s1 where e: "entries rd_at start stop s =
      ((takeWhile (before_end stop) (if start = 0 then es else drop (first_idx start es) es), None), s1)" "crec_ok rd_at arr es s1"
    using entries_ok [OF assms] by blast
  have p: "fst (prime_pages arr a b s) = Inr () \<and> crec_ok rd_at arr es (snd (prime_pages arr a b s))" for a b
    using prime_pages_ok [OF assms(1), of a b] by auto
  have x: "fst (extent rd_at s) = Inr (cm_file_offset (hd es), entry_end (last es)) \<and> crec_ok rd_at arr es (snd (extent rd_at s))"
    if "es \<noteq> []" using extent_ok [OF assms(1) that] by auto
  show ?thesis using e x p by (auto simp: drop_first_idx)
qed

definition sample_entries :: "chunk_map_entry list" where
  "sample_entries =
     [\<lparr>cm_kind = MAPPING, cm_file_offset = 8192, cm_is_inherit = False, cm_addr = Some (ChunkAddress 1 5 9), cm_map_num = 2, cm_repeat = 0\<rparr>,
      \<lparr>cm_kind = ZERO, cm_file_offset = 16384, cm_is_inherit = False, cm_addr = None, cm_map_num = 1, cm_repeat = 0\<rparr>]"

definition sample_head :: record_head where
  "sample_head = \<lparr>rh_status = COMPLETE, rh_map_num = 2, rh_map_crc = 0, rh_mode = 1, rh_attr_leng = 0, rh_attr_crc = 0\<rparr>"

definition sample_reader :: reader where
  "sample_reader off n = Inr (pslice (off - 32) (off - 32 + n) (encode_entries sample_entries))"

lemma sample_decodes: "decodes (encode_entries sample_entries) sample_entries"
  by (rule decodes_encode) (simp add: sample_entries_def entry_fits_def addr_fits_def const_values)

lemma sample_sorted: "ends_sorted sample_entries"
  by (simp add: ends_sorted_def sample_entries_def entry_end_def entry_length_def const_values nth_Cons split: nat.splits)

lemma sample_ok: "crec_ok sample_reader (encode_entries sample_entries) sample_entries (crec_init (Some 1) 0 sample_head)"
  by (rule crec_init_ok [OF sample_decodes])
    (simp_all add: sample_head_def sample_entries_def sample_reader_def chunk_map_array_offset_def const_defs)

lemma record_refines_array_witness:
  "fst (entries sample_reader 16384 (Some 20480) (crec_init (Some 1) 0 sample_head)) = ([sample_entries ! 1], None)"
proof -
  have "dropWhile (\<lambda>e. entry_end e \<le> 16384) sample_entries = [sample_entries ! 1]"
    by (simp add: sample_entries_def entry_end_def entry_length_def const_values)
  moreover have "before_end (Some 20480) (sample_entries ! 1)" by (simp add: before_end_def sample_entries_def)
  ultimately show ?thesis
    using record_refines_array [OF sample_ok sample_sorted, of 16384 "Some 20480"] by simp
qed

text \<open>C22. A repaired array replaces everything that was cached: after \<open>seed_pages_from_array\<close>
  every later read of the record is served from the repaired bytes, whatever pages and end
  offsets of the corrupted copy had been cached before, and without touching the composition
  file again, so also when reading that file fails.\<close>

theorem seeded_record_ignores_disk:
  assumes "crec_shape es s" and "decodes arr es" and "ends_sorted es"
  shows "fst (seed_pages_from_array arr s) = Inr () \<and>
    (\<forall>rd_at start stop. fst (entries rd_at start stop (snd (seed_pages_from_array arr s))) =
      (takeWhile (before_end stop) (if start = 0 then es else dropWhile (\<lambda>e. entry_end e \<le> start) es), None))"
proof -
  obtain s' where s': "seed_pages_from_array arr s = (Inr (), s')" using seed_pages_ok [OF assms(1,2)] by blast
  then have ok: "crec_ok rd_at arr es s'" for rd_at using seed_pages_ok [OF assms(1,2), of rd_at] by simp
  have "fst (entries rd_at start stop s') =
      (takeWhile (before_end stop) (if start = 0 then es else dropWhile (\<lambda>e. entry_end e \<le> start) es), None)" for rd_at start stop
    using entries_ok [OF ok [of rd_at] assms(3), of start stop] by (auto simp: drop_first_idx)
  then show ?thesis by (simp add: s')
qed

lemma seeded_record_ignores_disk_witness:
  "fst (entries (\<lambda>off n. Inl NotFoundError) 0 None
     (snd (seed_pages_from_array (encode_entries sample_entries) (crec_init (Some 1) 0 sample_head)))) = (sample_entries, None)"
  using seeded_record_ignores_disk [OF crec_ok_shape [OF sample_ok] sample_decodes sample_sorted]
  by (simp add: before_end_def takeWhile_eq_all_conv [THEN iffD2])

text \<open>C5. Opening a version from the composition on disk: when a session's sub-files are the 16 MiB
  pieces of a byte string that holds, at \<open>off\<close>, a valid record head followed by its chunk-map
  array, opening the record at \<open>off\<close> on the local store yields that head, and the new record
  streams the array's entries, across sub-file boundaries and for any page cache size.\<close>

theorem open_composition_record_exact:
  assumes "\<And>i. i * SUB_FILE_SIZE < length g \<Longrightarrow> \<exists>p. subfile i = Inr p \<and> local_content fs p = Some (subfile_bytes g i)"
    and "parse_record_head (pslice off (off + RECORD_HEAD_LENGTH) g) = Inr h"
    and "pslice (off + RECORD_HEAD_LENGTH) (off + RECORD_HEAD_LENGTH + length arr) g = arr"
    and "off + RECORD_HEAD_LENGTH + length arr \<le> length g"
    and "decodes arr es" and "rh_map_num h = length es" and "ends_sorted es"
  shows "open_record_head (read_at subfile (local_read cap fs)) off None = Inr h \<and>
    fst (entries (read_at subfile (local_read cap fs)) start stop (crec_init m off h)) =
      (takeWhile (before_end stop) (if start = 0 then es else dropWhile (\<lambda>e. entry_end e \<le> start) es), None)"
proof -
  let ?rd = "read_at subfile (local_read cap fs)"
  have rd: "?rd o' n = Inr (pslice o' (o' + n) g)" if "o' + n \<le> length g" for o' n
    using local_fs.read_at_exact [where fs = fs and subfile = subfile, OF assms(1) that] .
  have "crec_ok ?rd arr es (crec_init m off h)"
  proof (rule crec_init_ok [OF assms(5,6)])
    fix o' n assume "o' + n \<le> length arr"
    then have le: "o' + n \<le> length arr" "off + RECORD_HEAD_LENGTH + o' + n \<le> length g" using assms(4) by simp_all
    have "pslice o' (o' + n) arr = pslice o' (o' + n) (pslice (off + RECORD_HEAD_LENGTH) (off + RECORD_HEAD_LENGTH + length arr) g)"
      by (simp only: assms(3))
    also have "\<dots> = pslice (off + RECORD_HEAD_LENGTH + o') (off + RECORD_HEAD_LENGTH + o' + n) g"
      using le(1) by (simp add: pslice_pslice min_def add.assoc)
    finally show "?rd (chunk_map_array_offset off + o') n = Inr (pslice o' (o' + n) arr)"
      using rd [OF le(2)] by (simp add: chunk_map_array_offset_def)
  qed
  from entries_ok [OF this assms(7), of start stop] show ?thesis
    using rd [of off RECORD_HEAD_LENGTH] assms(2,4) by (auto simp: open_record_head_def drop_first_idx)
qed

lemma open_composition_record_exact_witness:
  "fst (entries (read_at (\<lambda>i. Inr ''c0'') (local_read (\<lambda>n off. 0)
       (\<lambda>segs. RegularFile (build_record_head sample_head @ encode_entries sample_entries)))) 0 None
     (crec_init (Some 1) 0 sample_head)) = (sample_entries, None)"
proof -
  let ?arr = "encode_entries sample_entries"
  let ?g = "build_record_head sample_head @ ?arr"
  let ?fs = "\<lambda>segs. RegularFile ?g"
  have fits: "record_head_fits sample_head" "has_redundancy sample_head"
    by (simp_all add: sample_head_def record_head_fits_def has_redundancy_def MODE_REDUNDANCY_def)
  have hd: "parse_record_head (build_record_head sample_head) = Inr sample_head"
    using parse_build_record_head [OF fits, of "[]"] by simp
  have len: "length (build_record_head sample_head) = RECORD_HEAD_LENGTH"
    by (simp add: build_record_head_def Let_def RECORD_MAGIC_def ascii_def const_defs)
  have lena: "length ?arr = 40" by (simp add: sample_entries_def const_defs)
  have lc: "local_content ?fs ''c0'' = Some ?g"
    by (simp add: local_content_def local_path_def posix_parts_def is_absolute_def)
  have files: "\<exists>p. (Inr ''c0'' :: string res) = Inr p \<and> local_content ?fs p = Some (subfile_bytes ?g i)"
    if "i * SUB_FILE_SIZE < length ?g" for i
  proof -
    have lg: "length ?g = RECORD_HEAD_LENGTH + 40" by (simp only: length_append len lena)
    have "i = 0" using that unfolding lg by (cases i) (simp_all add: const_values RECORD_HEAD_LENGTH_def)
    moreover have "take SUB_FILE_SIZE ?g = ?g" by (rule take_all) (unfold lg, simp add: const_values RECORD_HEAD_LENGTH_def)
    ultimately have "subfile_bytes ?g i = ?g" by (simp add: subfile_bytes_def)
    then show ?thesis using lc by simp
  qed
  have a2: "parse_record_head (pslice 0 (0 + RECORD_HEAD_LENGTH) ?g) = Inr sample_head" using hd by (simp add: RECORD_HEAD_LENGTH_def)
  have a3: "pslice (0 + RECORD_HEAD_LENGTH) (0 + RECORD_HEAD_LENGTH + length ?arr) ?g = ?arr"
    by (simp add: pslice_append_right RECORD_HEAD_LENGTH_def)
  have a4: "0 + RECORD_HEAD_LENGTH + length ?arr \<le> length ?g" by (simp add: RECORD_HEAD_LENGTH_def)
  have a6: "rh_map_num sample_head = length sample_entries" by (simp add: sample_head_def sample_entries_def)
  have "fst (entries (read_at (\<lambda>i. Inr ''c0'') (local_read (\<lambda>n off. 0) ?fs)) 0 None (crec_init (Some 1) 0 sample_head)) =
      (takeWhile (before_end None) sample_entries, None)"
    using open_composition_record_exact [OF files a2 a3 a4 sample_decodes a6 sample_sorted] by simp
  then show ?thesis by (simp add: before_end_def takeWhile_eq_all_conv [THEN iffD2])
qed

end
