(* ===== verification/Extents.thy ===== *)
theory Extents
  imports ChunkMap
begin

text \<open>
  \<open>sdk/dedup/extent.py\<close>, \<open>DedupFile._extents\<close> of \<open>sdk/dedup/dedup_file.py\<close> and the
  walk of \<open>sdk/dedup/chunk_walk.py\<close>: from chunk-map entries to extents with their gaps made
  explicit, and from a data extent to runs of physically consecutive chunks.
\<close>

subsection \<open>Extents\<close>

datatype extent_kind = DATA_EXT | ZERO_EXT | HOLE_EXT

datatype extent =
    DataExtent (ext_offset: nat) (ext_length: nat) (ext_addr: chunk_address) (ext_map_num: nat) (ext_repeat: nat)
  | GapExtent (ext_offset: nat) (ext_length: nat) (gap_kind: extent_kind)

definition ext_end :: "extent \<Rightarrow> nat" where
  "ext_end x = ext_offset x + ext_length x"

fun ext_kind :: "extent \<Rightarrow> extent_kind" where
  "ext_kind (DataExtent _ _ _ _ _) = DATA_EXT"
| "ext_kind (GapExtent _ _ k) = k"

text \<open>The loop body of \<open>_extents\<close>, and the loop over the entries with its \<open>cursor\<close>.\<close>

definition entry_extents :: "chunk_map_entry \<Rightarrow> nat \<Rightarrow> extent gen" where
  "entry_extents e cursor =
     (let gap = (if cursor < cm_file_offset e then [GapExtent cursor (cm_file_offset e - cursor) HOLE_EXT] else []) in
      if cm_kind e = ZERO then (gap @ [GapExtent (cm_file_offset e) (entry_length e) ZERO_EXT], None)
      else (case cm_addr e of
              None \<Rightarrow> (gap, Some PyAssertionError)
            | Some addr \<Rightarrow>
                (gap @ [DataExtent (cm_file_offset e) (entry_length e) addr (cm_map_num e) (cm_repeat e)], None)))"

fun extents_loop :: "chunk_map_entry list \<Rightarrow> nat \<Rightarrow> extent gen \<times> nat" where
  "extents_loop [] cursor = (([], None), cursor)"
| "extents_loop (e # es) cursor =
     (if entry_length e = 0 then extents_loop es cursor
      else case entry_extents e cursor of
        (xs, Some x) \<Rightarrow> ((xs, Some x), cursor)
      | (xs, None) \<Rightarrow>
          let (g, c) = extents_loop es (max cursor (entry_end e)) in (gen_append (xs, None) g, c))"

text \<open>
  \<open>_extents(start, end)\<close> over the stream the record yields for the same window; \<open>stop\<close> is
  \<open>end\<close>, or the file's size when there is none.
\<close>

definition extents :: "nat option \<Rightarrow> chunk_map_entry gen \<Rightarrow> nat \<Rightarrow> nat option \<Rightarrow> extent gen" where
  "extents fsize es start end_opt =
     (let (g, cursor) = extents_loop (fst es) start in
      case snd g of
        Some x \<Rightarrow> g
      | None \<Rightarrow>
          (case snd es of
             Some x \<Rightarrow> (fst g, Some x)
           | None \<Rightarrow>
               (case (case end_opt of Some e \<Rightarrow> Some e | None \<Rightarrow> fsize) of
                  Some stop \<Rightarrow> (fst g @ (if cursor < stop then [GapExtent cursor (stop - cursor) HOLE_EXT] else []), None)
                | None \<Rightarrow> g)))"

subsection \<open>Runs of chunks\<close>

text \<open>
  \<open>iter_chunk_runs(addr, map_num, first_k, last_k)\<close>: the loop over \<open>k\<close>. \<open>k % map_num\<close> with
  an empty template divides by zero.
\<close>

function iter_chunk_runs :: "chunk_address \<Rightarrow> nat \<Rightarrow> nat \<Rightarrow> int \<Rightarrow> (chunk_address \<times> nat \<times> nat) gen" where
  "iter_chunk_runs addr map_num k last_k =
     (if last_k < int k then ([], None)
      else if map_num = 0 then ([], Some PyZeroDivisionError)
      else
        let cycle_offset = k mod map_num in
        (case advance addr (int cycle_offset) of
           Inl e \<Rightarrow> ([], Some e)
         | Inr start_addr \<Rightarrow>
             let room_in_cycle = map_num - cycle_offset;
                 room_in_bucket = BUCKET_MAX_CHUNK_NUM - chunk_idx start_addr;
                 run_len = min (min room_in_cycle room_in_bucket) (nat (last_k - int k + 1)) in
             if run_len = 0 then ([], Some PyAssertionError)
             else let (ys, e) = iter_chunk_runs addr map_num (k + run_len) last_k in ((start_addr, run_len, k) # ys, e)))"
  by pat_completeness auto
termination by (relation "measure (\<lambda>(_, _, k, last_k). nat (last_k + 1 - int k))") (auto simp: min_def split: if_splits)

declare iter_chunk_runs.simps [simp del]

definition data_extent_k_bounds :: "extent \<Rightarrow> nat \<Rightarrow> nat \<Rightarrow> nat \<times> int" where
  "data_extent_k_bounds x start stop =
     (let seg_start = max (ext_offset x) start;
          seg_end = min (ext_end x) stop
      in ((seg_start - ext_offset x) div FIXED_CHUNK_LENGTH,
          (int seg_end - 1 - int (ext_offset x)) div int FIXED_CHUNK_LENGTH))"

text \<open>\<open>_handle_gap_extent\<close>: the counts, and the zero-fill call it makes when it has a writer.\<close>

definition handle_gap_extent :: "extent \<Rightarrow> nat \<Rightarrow> nat \<Rightarrow> nat \<Rightarrow> nat \<times> nat \<times> (nat \<times> nat) list" where
  "handle_gap_extent x start stop window_start =
     (let seg_start = max (ext_offset x) start;
          seg_end = min (ext_end x) stop in
      if seg_end \<le> seg_start then (0, 0, [])
      else let len = seg_end - seg_start in
        (if gap_kind x = HOLE_EXT then len else 0, if gap_kind x = ZERO_EXT then len else 0,
         [(seg_start - window_start, len)]))"

subsection \<open>The physical place of a chunk\<close>

text \<open>The address of the \<open>k\<close>th chunk of a template repeated: the format's definition.\<close>

definition chunk_at :: "chunk_address \<Rightarrow> nat \<Rightarrow> nat \<Rightarrow> chunk_address" where
  "chunk_at addr map_num k = advance_by addr (k mod map_num)"

definition run_chunks :: "chunk_address \<times> nat \<times> nat \<Rightarrow> (chunk_address \<times> nat) list" where
  "run_chunks r = (case r of (a, n, k) \<Rightarrow> map (\<lambda>j. (a\<lparr>chunk_idx := chunk_idx a + j\<rparr>, k + j)) [0..<n])"

lemma advance_zero_run:
  assumes "chunk_idx a + j < BUCKET_MAX_CHUNK_NUM"
  shows "advance_by a j = a\<lparr>chunk_idx := chunk_idx a + j\<rparr>"
  using assms by (rule advance_by_same_bucket)

text \<open>
  The runs between two chunk numbers list the chunks of the repeated template in order, each
  at its address, and no run leaves its bucket.
\<close>

lemma iter_chunk_runs_spec:
  assumes "0 < map_num"
  shows "\<exists>rs. iter_chunk_runs addr map_num k last_k = (rs, None) \<and>
    concat (map run_chunks rs) = map (\<lambda>i. (chunk_at addr map_num i, i)) [k..<nat (last_k + 1)] \<and>
    (\<forall>(a, n, i) \<in> set rs. 0 < n \<and> chunk_idx a + n \<le> BUCKET_MAX_CHUNK_NUM \<and> n \<le> map_num \<and> stream_id a = stream_id addr \<and>
       k \<le> i \<and> int (i + n) \<le> last_k + 1)"
  using assms
proof (induction addr map_num k last_k rule: iter_chunk_runs.induct)
  case (1 addr map_num k last_k)
  show ?case
  proof (cases "last_k < int k")
    case True
    then show ?thesis by (simp add: iter_chunk_runs.simps)
  next
    case False
    let ?c = "k mod map_num"
    let ?a = "advance_by addr ?c"
    have c: "?c < map_num" using "1.prems" by simp
    have idx: "chunk_idx ?a < BUCKET_MAX_CHUNK_NUM" by simp
    have adv: "advance addr (int ?c) = Inr ?a" by (rule advance_nat)
    define n where "n = min (min (map_num - ?c) (BUCKET_MAX_CHUNK_NUM - chunk_idx ?a)) (nat (last_k - int k + 1))"
    have m: "n \<le> map_num - ?c" "n \<le> BUCKET_MAX_CHUNK_NUM - chunk_idx ?a" "n \<le> nat (last_k - int k + 1)" "0 < n"
      using False c idx by (auto simp: n_def)
    then have n: "chunk_idx ?a + n \<le> BUCKET_MAX_CHUNK_NUM" "int (k + n) \<le> last_k + 1" "n \<le> map_num"
      using False idx by linarith+
    have ih: "0 < map_num \<Longrightarrow> \<exists>rs. iter_chunk_runs addr map_num (k + n) last_k = (rs, None) \<and>
      concat (map run_chunks rs) = map (\<lambda>i. (chunk_at addr map_num i, i)) [k + n..<nat (last_k + 1)] \<and>
      (\<forall>(a, n', i) \<in> set rs. 0 < n' \<and> chunk_idx a + n' \<le> BUCKET_MAX_CHUNK_NUM \<and> n' \<le> map_num \<and> stream_id a = stream_id addr \<and>
         k + n \<le> i \<and> int (i + n') \<le> last_k + 1)"
      unfolding n_def using False "1.prems" m(4) [unfolded n_def]
      by (intro "1.IH" [OF _ _ refl adv refl refl refl]) simp_all
    obtain rs where rs: "iter_chunk_runs addr map_num (k + n) last_k = (rs, None)"
      "concat (map run_chunks rs) = map (\<lambda>i. (chunk_at addr map_num i, i)) [k + n..<nat (last_k + 1)]"
      "\<forall>(a, n', i) \<in> set rs. 0 < n' \<and> chunk_idx a + n' \<le> BUCKET_MAX_CHUNK_NUM \<and> n' \<le> map_num \<and> stream_id a = stream_id addr \<and>
         k + n \<le> i \<and> int (i + n') \<le> last_k + 1"
      using ih [OF "1.prems"] by blast
    have eq: "iter_chunk_runs addr map_num k last_k = ((?a, n, k) # rs, None)"
      using False "1.prems" m(4) rs(1) by (subst iter_chunk_runs.simps) (simp add: adv Let_def flip: n_def)
    have first: "run_chunks (?a, n, k) = map (\<lambda>i. (chunk_at addr map_num i, i)) [k..<k + n]"
    proof (rule nth_equalityI)
      fix j assume "j < length (run_chunks (?a, n, k))"
      then have j: "j < n" by (simp add: run_chunks_def)
      have "?c + j < map_num" using j m(1) by linarith
      then have md: "(k + j) mod map_num = ?c + j" by (metis mod_add_left_eq mod_less)
      have "chunk_at addr map_num (k + j) = advance_by ?a j"
        by (simp add: chunk_at_def md advance_by_advance_by)
      also have "\<dots> = ?a\<lparr>chunk_idx := chunk_idx ?a + j\<rparr>"
        using j n(1) by (intro advance_zero_run) linarith
      finally show "run_chunks (?a, n, k) ! j = map (\<lambda>i. (chunk_at addr map_num i, i)) [k..<k + n] ! j"
        using j by (simp add: run_chunks_def)
    qed (simp add: run_chunks_def)
    have split: "[k..<nat (last_k + 1)] = [k..<k + n] @ [k + n..<nat (last_k + 1)]"
    proof -
      have "nat (last_k + 1) = (k + n) + (nat (last_k + 1) - (k + n))" using n(2) by linarith
      then show ?thesis using upt_add_eq_append [of k "k + n" "nat (last_k + 1) - (k + n)"] by (metis le_add1)
    qed
    have "\<forall>(a, n', i) \<in> set rs. 0 < n' \<and> chunk_idx a + n' \<le> BUCKET_MAX_CHUNK_NUM \<and> n' \<le> map_num \<and> stream_id a = stream_id addr \<and>
         k \<le> i \<and> int (i + n') \<le> last_k + 1"
      using rs(3) by fastforce
    then show ?thesis
      unfolding eq split map_append using first rs(2) m(4) n
      by (intro exI [of _ "(?a, n, k) # rs"]) simp
  qed
qed

subsection \<open>The bytes of a file\<close>

text \<open>
  The content a chunk map denotes, given the plaintext of every chunk: a byte of a mapped
  entry is that of its chunk (zero past the end of a short chunk), every other byte is zero.
\<close>

type_synonym plaintext = "chunk_address \<Rightarrow> bytes"

definition chunk_byte :: "plaintext \<Rightarrow> chunk_address \<Rightarrow> nat \<Rightarrow> nat \<Rightarrow> byte" where
  "chunk_byte pl addr map_num rel =
     (let chunk = pl (chunk_at addr map_num (rel div FIXED_CHUNK_LENGTH)); r = rel mod FIXED_CHUNK_LENGTH in
      if r < length chunk then chunk ! r else 0)"

fun ext_byte :: "plaintext \<Rightarrow> extent \<Rightarrow> nat \<Rightarrow> byte" where
  "ext_byte pl (DataExtent off _ addr map_num _) pos = chunk_byte pl addr map_num (pos - off)"
| "ext_byte pl (GapExtent _ _ _) pos = 0"

definition entry_byte :: "plaintext \<Rightarrow> chunk_map_entry \<Rightarrow> nat \<Rightarrow> byte" where
  "entry_byte pl e pos =
     (case cm_addr e of
        Some addr \<Rightarrow> if cm_kind e = MAPPING then chunk_byte pl addr (cm_map_num e) (pos - cm_file_offset e) else 0
      | None \<Rightarrow> 0)"

definition entry_covers :: "nat \<Rightarrow> chunk_map_entry \<Rightarrow> bool" where
  "entry_covers pos e \<longleftrightarrow> cm_file_offset e \<le> pos \<and> pos < entry_end e"

definition ext_covers :: "nat \<Rightarrow> extent \<Rightarrow> bool" where
  "ext_covers pos x \<longleftrightarrow> ext_offset x \<le> pos \<and> pos < ext_end x"

definition content :: "plaintext \<Rightarrow> chunk_map_entry list \<Rightarrow> nat \<Rightarrow> byte" where
  "content pl es pos = (case find (entry_covers pos) es of None \<Rightarrow> 0 | Some e \<Rightarrow> entry_byte pl e pos)"

text \<open>Entries in file order, none overlapping the next, each with an address when it is mapped.\<close>

definition entries_ordered :: "chunk_map_entry list \<Rightarrow> bool" where
  "entries_ordered es \<longleftrightarrow> sorted_wrt (\<lambda>e f. entry_end e \<le> cm_file_offset f) es \<and>
     (\<forall>e \<in> set es. cm_kind e = MAPPING \<longrightarrow> cm_addr e \<noteq> None)"

definition ext_ordered :: "extent list \<Rightarrow> bool" where
  "ext_ordered xs \<longleftrightarrow> sorted_wrt (\<lambda>x y. ext_end x \<le> ext_offset y) xs"

text \<open>A data extent is a template repeated a whole number of times.\<close>

fun ext_wf :: "extent \<Rightarrow> bool" where
  "ext_wf (DataExtent off len addr map_num repeat) \<longleftrightarrow> 0 < map_num \<and> len = map_num * (1 + repeat) * FIXED_CHUNK_LENGTH"
| "ext_wf (GapExtent off len kind) \<longleftrightarrow> 0 < len \<and> kind \<noteq> DATA_EXT"

lemma content_Nil [simp]: "content pl [] pos = 0"
  by (simp add: content_def)

lemma content_Cons: "content pl (e # es) pos = (if entry_covers pos e then entry_byte pl e pos else content pl es pos)"
  by (simp add: content_def)

lemma content_none: "\<forall>e \<in> set es. \<not> entry_covers pos e \<Longrightarrow> content pl es pos = 0"
  by (induction es) (simp_all add: content_Cons)

lemma not_covered_empty: "entry_length e = 0 \<Longrightarrow> \<not> entry_covers pos e"
  by (simp add: entry_covers_def entry_end_def)

lemma extents_loop_spec:
  assumes "entries_ordered es" and "\<forall>e \<in> set es. entry_length e \<noteq> 0 \<longrightarrow> c < entry_end e"
  shows "\<exists>xs c'. extents_loop es c = ((xs, None), c') \<and> c \<le> c' \<and> ext_ordered xs \<and>
    (\<forall>x \<in> set xs. ext_wf x \<and> ext_end x \<le> c' \<and> c < ext_end x) \<and>
    (\<forall>e \<in> set es. entry_length e \<noteq> 0 \<longrightarrow> entry_end e \<le> c') \<and>
    (\<forall>x \<in> set xs. c \<le> ext_offset x \<or> (\<exists>e \<in> set es. entry_length e \<noteq> 0 \<and> ext_offset x = cm_file_offset e)) \<and>
    (\<forall>pos. c \<le> pos \<and> pos < c' \<longrightarrow> (\<exists>x \<in> set xs. ext_covers pos x \<and> ext_byte pl x pos = content pl es pos))"
  using assms
proof (induction es arbitrary: c)
  case Nil
  then show ?case by (simp add: ext_ordered_def)
next
  case (Cons e es)
  have ord: "entries_ordered es" and next_off: "\<forall>f \<in> set es. entry_end e \<le> cm_file_offset f"
    and addr: "cm_kind e = MAPPING \<longrightarrow> cm_addr e \<noteq> None"
    using Cons.prems(1) by (auto simp: entries_ordered_def)
  show ?case
  proof (cases "entry_length e = 0")
    case True
    have "\<not> entry_covers pos e" for pos using not_covered_empty [OF True] .
    then show ?thesis using Cons.IH [OF ord, of c] Cons.prems(2) True by (simp add: content_Cons)
  next
    case False
    have ce: "c < entry_end e" using Cons.prems(2) False by simp
    define x where "x = (if cm_kind e = ZERO then GapExtent (cm_file_offset e) (entry_length e) ZERO_EXT
        else DataExtent (cm_file_offset e) (entry_length e) (the (cm_addr e)) (cm_map_num e) (cm_repeat e))"
    define gap where "gap = (if c < cm_file_offset e then [GapExtent c (cm_file_offset e - c) HOLE_EXT] else [])"
    have kind: "cm_kind e \<noteq> ZERO \<Longrightarrow> cm_kind e = MAPPING" by (cases "cm_kind e") simp_all
    have ee: "entry_extents e c = (gap @ [x], None)"
      using addr kind by (auto simp: entry_extents_def x_def gap_def Let_def)
    have x: "ext_offset x = cm_file_offset e" "ext_end x = entry_end e" "ext_wf x"
      using False kind by (auto simp: x_def ext_end_def entry_end_def entry_length_def split: if_splits)
    have xb: "ext_byte pl x pos = entry_byte pl e pos" for pos
      using addr kind by (auto simp: x_def entry_byte_def split: option.split)
    have mx: "max c (entry_end e) = entry_end e" using ce by simp
    have "\<forall>f \<in> set es. entry_length f \<noteq> 0 \<longrightarrow> entry_end e < entry_end f"
      using next_off by (fastforce simp: entry_end_def)
    from Cons.IH [OF ord this] obtain xs c' where xs: "extents_loop es (entry_end e) = ((xs, None), c')" "entry_end e \<le> c'"
      "ext_ordered xs" "\<forall>x \<in> set xs. ext_wf x \<and> ext_end x \<le> c' \<and> entry_end e < ext_end x"
      "\<forall>f \<in> set es. entry_length f \<noteq> 0 \<longrightarrow> entry_end f \<le> c'"
      "\<forall>x \<in> set xs. entry_end e \<le> ext_offset x \<or> (\<exists>f \<in> set es. entry_length f \<noteq> 0 \<and> ext_offset x = cm_file_offset f)"
      "\<forall>pos. entry_end e \<le> pos \<and> pos < c' \<longrightarrow> (\<exists>x \<in> set xs. ext_covers pos x \<and> ext_byte pl x pos = content pl es pos)"
      by blast
    have after: "\<forall>y \<in> set xs. entry_end e \<le> ext_offset y" using xs(6) next_off by auto
    have loop: "extents_loop (e # es) c = ((gap @ x # xs, None), c')" using False ee mx xs(1) by simp
    have g: "\<forall>y \<in> set gap. ext_offset y = c \<and> ext_end y = cm_file_offset e \<and> ext_wf y"
      by (auto simp: gap_def ext_end_def)
    have off: "cm_file_offset e < entry_end e" using False by (simp add: entry_end_def)
    have ordered: "ext_ordered (gap @ x # xs)"
      using xs(3) after g x off by (auto simp: ext_ordered_def sorted_wrt_append gap_def ext_end_def split: if_splits)
    have lim: "\<forall>y \<in> set (gap @ x # xs). ext_wf y \<and> ext_end y \<le> c' \<and> c < ext_end y"
      using xs(2,4) g x ce off by (force simp: gap_def split: if_splits)
    have cover: "\<exists>y \<in> set (gap @ x # xs). ext_covers pos y \<and> ext_byte pl y pos = content pl (e # es) pos"
      if pos: "c \<le> pos" "pos < c'" for pos
    proof -
      consider "pos < cm_file_offset e" | "cm_file_offset e \<le> pos" "pos < entry_end e" | "entry_end e \<le> pos" by linarith
      then show ?thesis
      proof cases
        case 1
        have "\<forall>f \<in> set (e # es). \<not> entry_covers pos f"
          using 1 next_off off by (auto simp: entry_covers_def)
        then have "content pl (e # es) pos = 0" by (rule content_none)
        then show ?thesis using 1 pos by (auto simp: gap_def ext_covers_def ext_end_def)
      next
        case 2
        then show ?thesis using x xb by (auto simp: ext_covers_def content_Cons entry_covers_def)
      next
        case 3
        then have "content pl (e # es) pos = content pl es pos" by (simp add: content_Cons entry_covers_def)
        then show ?thesis using xs(7) 3 pos(2) by auto
      qed
    qed
    have low: "\<forall>y \<in> set (gap @ x # xs). c \<le> ext_offset y \<or> (\<exists>f \<in> set (e # es). entry_length f \<noteq> 0 \<and> ext_offset y = cm_file_offset f)"
      using g x(1) False after ce xs(6) by (auto dest: bspec)
    show ?thesis
      unfolding loop using xs(2,5) ce ordered lim cover low by (intro exI [of _ "gap @ x # xs"] exI [of _ c']) auto
  qed
qed

lemma extents_spec:
  assumes "entries_ordered es" and "\<forall>e \<in> set es. entry_length e \<noteq> 0 \<longrightarrow> start < entry_end e"
    and "(case end_opt of Some e \<Rightarrow> Some e | None \<Rightarrow> fsize) = Some stop"
  shows "\<exists>xs. extents fsize (es, None) start end_opt = (xs, None) \<and> ext_ordered xs \<and> (\<forall>x \<in> set xs. ext_wf x \<and> start < ext_end x) \<and>
    (\<forall>pos. start \<le> pos \<and> pos < stop \<longrightarrow> (\<exists>x \<in> set xs. ext_covers pos x \<and> ext_byte pl x pos = content pl es pos)) \<and>
    (\<forall>x \<in> set xs. start \<le> ext_offset x \<or> (\<exists>e \<in> set es. entry_length e \<noteq> 0 \<and> ext_offset x = cm_file_offset e))"
proof -
  obtain xs c where xs: "extents_loop es start = ((xs, None), c)" "start \<le> c" "ext_ordered xs"
    "\<forall>x \<in> set xs. ext_wf x \<and> ext_end x \<le> c \<and> start < ext_end x" "\<forall>e \<in> set es. entry_length e \<noteq> 0 \<longrightarrow> entry_end e \<le> c"
    "\<forall>x \<in> set xs. start \<le> ext_offset x \<or> (\<exists>e \<in> set es. entry_length e \<noteq> 0 \<and> ext_offset x = cm_file_offset e)"
    "\<forall>pos. start \<le> pos \<and> pos < c \<longrightarrow> (\<exists>x \<in> set xs. ext_covers pos x \<and> ext_byte pl x pos = content pl es pos)"
    using extents_loop_spec [OF assms(1,2)] by blast
  define tail where "tail = (if c < stop then [GapExtent c (stop - c) HOLE_EXT] else [])"
  have eq: "extents fsize (es, None) start end_opt = (xs @ tail, None)"
    using xs(1) assms(3) by (simp add: extents_def tail_def)
  have tail: "\<forall>x \<in> set tail. ext_offset x = c \<and> ext_end x = stop \<and> ext_wf x \<and> c < stop \<and> (\<forall>pos. ext_byte pl x pos = 0)"
    by (auto simp: tail_def ext_end_def)
  have late: "content pl es pos = 0" if "c \<le> pos" for pos
  proof (rule content_none, rule ballI)
    fix e assume "e \<in> set es"
    then show "\<not> entry_covers pos e"
      using xs(5) that not_covered_empty [of e pos] by (cases "entry_length e = 0") (auto simp: entry_covers_def)
  qed
  have ordered: "ext_ordered (xs @ tail)"
  proof -
    have "ext_end x \<le> ext_offset y" if "x \<in> set xs" "y \<in> set tail" for x y
      using xs(4) [rule_format, OF that(1)] tail [rule_format, OF that(2)] by simp
    moreover have "ext_ordered tail" by (simp add: tail_def ext_ordered_def)
    ultimately show ?thesis using xs(3) by (simp add: ext_ordered_def sorted_wrt_append)
  qed
  have wf: "\<forall>x \<in> set (xs @ tail). ext_wf x \<and> start < ext_end x"
  proof
    fix x assume "x \<in> set (xs @ tail)"
    then consider "x \<in> set xs" | "x \<in> set tail" by auto
    then show "ext_wf x \<and> start < ext_end x"
      using xs(2,4) tail by cases auto
  qed
  have cover: "\<exists>x \<in> set (xs @ tail). ext_covers pos x \<and> ext_byte pl x pos = content pl es pos" if "start \<le> pos" "pos < stop" for pos
  proof (cases "pos < c")
    case True
    then show ?thesis using xs(7) that(1) by auto
  next
    case False
    then show ?thesis using that(2) late [of pos] by (auto simp: tail_def ext_covers_def ext_end_def)
  qed
  have low: "\<forall>x \<in> set (xs @ tail). start \<le> ext_offset x \<or> (\<exists>e \<in> set es. entry_length e \<noteq> 0 \<and> ext_offset x = cm_file_offset e)"
    using xs(2,6) tail by auto
  show ?thesis unfolding eq using ordered wf cover low by blast
qed

subsection \<open>Windows of the chunk map\<close>

text \<open>The entries a record streams for \<open>[start, stop)\<close>, and why they are enough.\<close>

definition window_entries :: "nat \<Rightarrow> nat option \<Rightarrow> chunk_map_entry list \<Rightarrow> chunk_map_entry list" where
  "window_entries start stop es =
     takeWhile (\<lambda>e. case stop of None \<Rightarrow> True | Some x \<Rightarrow> cm_file_offset e < x)
       (if start = 0 then es else dropWhile (\<lambda>e. entry_end e \<le> start) es)"

lemma entries_ordered_parts: "entries_ordered (xs @ ys) \<Longrightarrow> entries_ordered xs \<and> entries_ordered ys"
  by (auto simp: entries_ordered_def sorted_wrt_append)

lemma entries_ordered_takeWhile: "entries_ordered xs \<Longrightarrow> entries_ordered (takeWhile P xs)"
  and entries_ordered_dropWhile: "entries_ordered xs \<Longrightarrow> entries_ordered (dropWhile P xs)"
  using entries_ordered_parts [of "takeWhile P xs" "dropWhile P xs"] by simp_all

lemma window_ordered: "entries_ordered es \<Longrightarrow> entries_ordered (window_entries start stop es)"
  unfolding window_entries_def by (auto intro: entries_ordered_takeWhile entries_ordered_dropWhile)

lemma dropWhile_ends:
  assumes "entries_ordered es" and "e \<in> set (dropWhile (\<lambda>e. entry_end e \<le> s) es)"
  shows "s < entry_end e"
proof -
  obtain f fs where d: "dropWhile (\<lambda>e. entry_end e \<le> s) es = f # fs" using assms(2) by (cases "dropWhile (\<lambda>e. entry_end e \<le> s) es") auto
  then have f: "s < entry_end f" by (simp add: dropWhile_eq_Cons_conv)
  have "entries_ordered (f # fs)" using entries_ordered_dropWhile [OF assms(1), of "\<lambda>e. entry_end e \<le> s"] d by simp
  then have "\<forall>g \<in> set fs. entry_end f \<le> cm_file_offset g" by (simp add: entries_ordered_def)
  then show ?thesis using f assms(2) d by (fastforce simp: entry_end_def)
qed

lemma window_ends: "entries_ordered es \<Longrightarrow> e \<in> set (window_entries start stop es) \<Longrightarrow> entry_length e \<noteq> 0 \<Longrightarrow> start < entry_end e"
  using dropWhile_ends [of es e start]
  by (auto simp: window_entries_def entry_end_def dest: set_takeWhileD split: if_splits)

lemma content_append:
  "content pl (xs @ ys) pos = (if \<exists>e \<in> set xs. entry_covers pos e then content pl xs pos else content pl ys pos)"
  by (induction xs) (simp_all add: content_Cons)

lemma content_window:
  assumes ord: "entries_ordered es" and "start \<le> pos" and "\<And>x. stop = Some x \<Longrightarrow> pos < x"
  shows "content pl (window_entries start stop es) pos = content pl es pos"
proof -
  let ?P = "\<lambda>e. entry_end e \<le> start"
  let ?Q = "\<lambda>e. case stop of None \<Rightarrow> True | Some x \<Rightarrow> cm_file_offset e < x"
  let ?ds = "if start = 0 then es else dropWhile ?P es"
  have "content pl es pos = content pl (takeWhile ?P es @ dropWhile ?P es) pos" by simp
  also have "\<dots> = content pl (dropWhile ?P es) pos"
    unfolding content_append using assms(2) by (auto simp: entry_covers_def dest: set_takeWhileD)
  finally have ds: "content pl es pos = content pl ?ds pos" by simp
  have ord': "entries_ordered ?ds" using ord entries_ordered_dropWhile by auto
  have after: "\<not> entry_covers pos e" if e: "e \<in> set (dropWhile ?Q ?ds)" for e
  proof -
    obtain f fs where d: "dropWhile ?Q ?ds = f # fs" using e by (cases "dropWhile ?Q ?ds") auto
    then have "\<not> ?Q f" by (simp add: dropWhile_eq_Cons_conv)
    then obtain x where x: "stop = Some x" "x \<le> cm_file_offset f" by (cases stop) (auto simp: not_less)
    have "entries_ordered (f # fs)" using entries_ordered_dropWhile [OF ord', of ?Q] d by simp
    then have "\<forall>g \<in> set fs. entry_end f \<le> cm_file_offset g" by (simp add: entries_ordered_def)
    then have "x \<le> cm_file_offset e" using e d x(2) by (fastforce simp: entry_end_def)
    then show ?thesis using assms(3) [OF x(1)] by (simp add: entry_covers_def)
  qed
  have "content pl ?ds pos = content pl (takeWhile ?Q ?ds @ dropWhile ?Q ?ds) pos" by simp
  also have "\<dots> = content pl (takeWhile ?Q ?ds) pos"
    unfolding content_append using content_none [of "dropWhile ?Q ?ds" pos pl] content_none [of "takeWhile ?Q ?ds" pos pl] after by auto
  finally show ?thesis using ds by (simp add: window_entries_def)
qed

subsection \<open>Chunks of an extent\<close>

lemma data_extent_k_bounds_spec:
  assumes x: "x = DataExtent off len addr map_num rep" and "off \<le> seg_start" and "seg_start < seg_end" and "seg_end \<le> off + len"
  shows "data_extent_k_bounds x seg_start seg_end =
    ((seg_start - off) div FIXED_CHUNK_LENGTH, int ((seg_end - 1 - off) div FIXED_CHUNK_LENGTH))"
  using assms(2-4)
  by (simp add: x data_extent_k_bounds_def ext_end_def Let_def zdiv_int of_nat_diff algebra_simps)

end
