(* ===== verification/Plan.thy ===== *)
theory Plan
  imports Extents "HOL-Library.Multiset" "HOL-Library.AList"
begin

text \<open>
  Pass 1 of the export in \<open>sdk/dedup/chunk_walk.py\<close>: \<open>_walk_extents\<close>,
  \<open>plan_chunks_windowed\<close>, \<open>iter_bucket_keys\<close> and \<open>count_planned_bytes\<close>. An async generator is
  the list it yields and how it ends; the zero-fill callback is the list of its calls.
\<close>

record chunk_run =
  run_idx :: nat
  run_count :: nat
  run_dest :: int

type_synonym bucket_key = "nat \<times> nat"

text \<open>The dict \<open>groups\<close>, and \<open>groups.setdefault(key, []).append(run)\<close>.\<close>

type_synonym groups = "(bucket_key \<times> chunk_run list) list"

definition groups_append :: "'k \<Rightarrow> 'r \<Rightarrow> ('k \<times> 'r list) list \<Rightarrow> ('k \<times> 'r list) list" where
  "groups_append key r g = (case map_of g key of None \<Rightarrow> g @ [(key, [r])] | Some rs \<Rightarrow> AList.update key (rs @ [r]) g)"

record chunk_plan =
  pl_groups :: groups
  pl_holes :: nat
  pl_zeros :: nat

datatype walk_event =
    GapDelta nat nat "(nat \<times> nat) list"
  | DataRun bucket_key chunk_run

definition validate_window_start :: "nat \<Rightarrow> nat \<Rightarrow> unit res" where
  "validate_window_start window_start start =
     (if window_start mod FIXED_CHUNK_LENGTH \<noteq> 0 then Inl PyValueError
      else if start < window_start then Inl PyValueError else Inr ())"

definition run_event :: "int \<Rightarrow> chunk_address \<times> nat \<times> nat \<Rightarrow> walk_event" where
  "run_event local_off r = (case r of (start_addr, run_len, k_start) \<Rightarrow>
     DataRun (stream_id start_addr, bucket_id start_addr)
       \<lparr>run_idx = chunk_idx start_addr, run_count = run_len, run_dest = local_off + int k_start * int FIXED_CHUNK_LENGTH\<rparr>)"

definition extent_events :: "nat \<Rightarrow> nat \<Rightarrow> nat \<Rightarrow> extent \<Rightarrow> walk_event gen" where
  "extent_events start stop window_start x =
     (case x of
        GapExtent _ _ _ \<Rightarrow> (let (h, z, fills) = handle_gap_extent x start stop window_start in ([GapDelta h z fills], None))
      | DataExtent off _ addr map_num _ \<Rightarrow>
          if map_num = 0 then ([], Some PyAssertionError)
          else let (first_k, last_k) = data_extent_k_bounds x start stop;
                   g = iter_chunk_runs addr map_num first_k last_k
               in (map (run_event (int off - int window_start)) (fst g), snd g))"

fun gen_concat :: "('a \<Rightarrow> 'b gen) \<Rightarrow> 'a list \<Rightarrow> 'b gen" where
  "gen_concat f [] = ([], None)"
| "gen_concat f (x # xs) = gen_append (f x) (gen_concat f xs)"

definition walk_extents :: "extent gen \<Rightarrow> nat \<Rightarrow> nat \<Rightarrow> nat \<Rightarrow> walk_event gen" where
  "walk_extents xs start stop window_start =
     gen_append (gen_concat (extent_events start stop window_start) (fst xs)) ([], snd xs)"

text \<open>The local variables of \<open>plan_chunks_windowed\<close>.\<close>

record planning =
  pg_groups :: groups
  pg_holes :: nat
  pg_zeros :: nat
  pg_entries :: nat

definition planning_init :: planning where
  "planning_init = \<lparr>pg_groups = [], pg_holes = 0, pg_zeros = 0, pg_entries = 0\<rparr>"

definition plan_of :: "planning \<Rightarrow> chunk_plan" where
  "plan_of s = \<lparr>pl_groups = pg_groups s, pl_holes = pg_holes s, pl_zeros = pg_zeros s\<rparr>"

text \<open>
  The \<open>while remaining_len > 0\<close> loop for one run: the plans it yields and the state after it.
  With \<open>max_entries\<close> 0 the loop yields empty plans for ever: \<open>None\<close>.
\<close>

function plan_run :: "nat \<Rightarrow> bucket_key \<Rightarrow> chunk_address \<Rightarrow> nat \<Rightarrow> int \<Rightarrow> planning \<Rightarrow> (chunk_plan list \<times> planning) option" where
  "plan_run max_entries key addr remaining dest s =
     (if remaining = 0 then Some ([], s)
      else if max_entries = 0 then None
      else if max_entries \<le> pg_entries s then
        (case plan_run max_entries key addr remaining dest planning_init of
           None \<Rightarrow> None
         | Some (ps, s') \<Rightarrow> Some (plan_of s # ps, s'))
      else
        let want = min (max_entries - pg_entries s) remaining;
            r = \<lparr>run_idx = chunk_idx addr, run_count = want, run_dest = dest\<rparr> in
        plan_run max_entries key (if 0 < remaining - want then advance_by addr want else addr) (remaining - want)
          (dest + int want * int FIXED_CHUNK_LENGTH)
          (s\<lparr>pg_groups := groups_append key r (pg_groups s), pg_entries := pg_entries s + want\<rparr>))"
  by pat_completeness auto
termination
  by (relation "measures [\<lambda>(m, k, a, r, d, s). r, \<lambda>(m, k, a, r, d, s). pg_entries s]")
    (auto simp: planning_init_def)

declare plan_run.simps [simp del]

fun plan_event :: "nat \<Rightarrow> walk_event \<Rightarrow> planning \<Rightarrow> (chunk_plan list \<times> planning) option" where
  "plan_event max_entries (GapDelta h z fills) s = Some ([], s\<lparr>pg_holes := pg_holes s + h, pg_zeros := pg_zeros s + z\<rparr>)"
| "plan_event max_entries (DataRun key r) s =
     plan_run max_entries key (ChunkAddress (fst key) (snd key) (run_idx r)) (run_count r) (run_dest r) s"

fun plan_events :: "nat \<Rightarrow> walk_event list \<Rightarrow> planning \<Rightarrow> (chunk_plan list \<times> planning) option" where
  "plan_events max_entries [] s = Some ([], s)"
| "plan_events max_entries (e # es) s =
     (case plan_event max_entries e s of
        None \<Rightarrow> None
      | Some (ps, s') \<Rightarrow>
          (case plan_events max_entries es s' of None \<Rightarrow> None | Some (qs, t) \<Rightarrow> Some (ps @ qs, t)))"

definition plan_chunks_windowed :: "nat \<Rightarrow> extent gen \<Rightarrow> nat \<Rightarrow> nat \<Rightarrow> nat \<Rightarrow> chunk_plan gen option" where
  "plan_chunks_windowed max_entries xs start stop window_start =
     (case validate_window_start window_start start of
        Inl e \<Rightarrow> Some ([], Some e)
      | Inr _ \<Rightarrow>
          let events = walk_extents xs start stop window_start in
          (case plan_events max_entries (fst events) planning_init of
             None \<Rightarrow> None
           | Some (ps, s) \<Rightarrow>
               (case snd events of
                  Some e \<Rightarrow> Some (ps, Some e)
                | None \<Rightarrow>
                    Some (if ps = [] \<or> pg_groups s \<noteq> [] \<or> pg_holes s \<noteq> 0 \<or> pg_zeros s \<noteq> 0
                          then ps @ [plan_of s] else ps, None))))"

text \<open>\<open>iter_bucket_keys\<close> for one extent: the template is walked once when it is covered whole.\<close>

fun drop_repeats :: "'a option \<Rightarrow> 'a list \<Rightarrow> 'a list" where
  "drop_repeats prev [] = []"
| "drop_repeats prev (x # xs) = (if prev = Some x then drop_repeats prev xs else x # drop_repeats (Some x) xs)"

definition extent_keys :: "nat \<Rightarrow> nat \<Rightarrow> extent \<Rightarrow> bucket_key gen" where
  "extent_keys start stop x =
     (case x of
        GapExtent _ _ _ \<Rightarrow> ([], None)
      | DataExtent _ _ addr map_num _ \<Rightarrow>
          let (first_k, last_k) = data_extent_k_bounds x start stop;
              (f, l) = (if int map_num \<le> last_k - int first_k + 1 then (0, int map_num - 1) else (first_k, last_k));
              g = iter_chunk_runs addr map_num f l
          in (drop_repeats None (map (\<lambda>(a, _, _). (stream_id a, bucket_id a)) (fst g)), snd g))"

definition iter_bucket_keys :: "extent gen \<Rightarrow> nat \<Rightarrow> nat \<Rightarrow> bucket_key gen" where
  "iter_bucket_keys xs start stop = gen_append (gen_concat (extent_keys start stop) (fst xs)) ([], snd xs)"

definition count_chunks :: "nat \<Rightarrow> nat \<Rightarrow> extent \<Rightarrow> int res" where
  "count_chunks start stop x =
     (case x of
        GapExtent _ _ _ \<Rightarrow> Inr 0
      | DataExtent _ _ addr map_num _ \<Rightarrow>
          if map_num = 0 then Inl PyAssertionError
          else let (first_k, last_k) = data_extent_k_bounds x start stop in Inr (last_k - int first_k + 1))"

definition count_planned_bytes :: "extent gen \<Rightarrow> nat \<Rightarrow> nat \<Rightarrow> int res" where
  "count_planned_bytes xs start stop =
     bind_res (gen_fold (\<lambda>x total. bind_res (count_chunks start stop x) (\<lambda>n. Inr (total + n))) xs 0)
       (\<lambda>total. Inr (total * int FIXED_CHUNK_LENGTH))"

subsection \<open>What is planned\<close>

text \<open>A placement: a chunk of a bucket and where its plaintext goes.\<close>

type_synonym placement = "chunk_address \<times> int"

definition run_placements :: "bucket_key \<Rightarrow> chunk_run \<Rightarrow> placement list" where
  "run_placements key r =
     map (\<lambda>j. (ChunkAddress (fst key) (snd key) (run_idx r + j), run_dest r + int j * int FIXED_CHUNK_LENGTH)) [0..<run_count r]"

definition groups_placements :: "groups \<Rightarrow> placement list" where
  "groups_placements g = concat (map (\<lambda>(key, rs). concat (map (run_placements key) rs)) g)"

definition groups_chunks :: "groups \<Rightarrow> nat" where
  "groups_chunks g = sum_list (map (\<lambda>(key, rs). sum_list (map run_count rs)) g)"

fun event_placements :: "walk_event \<Rightarrow> placement list" where
  "event_placements (GapDelta _ _ _) = []"
| "event_placements (DataRun key r) = run_placements key r"

fun event_holes :: "walk_event \<Rightarrow> nat" where
  "event_holes (GapDelta h _ _) = h" | "event_holes (DataRun _ _) = 0"

fun event_zeros :: "walk_event \<Rightarrow> nat" where
  "event_zeros (GapDelta _ z _) = z" | "event_zeros (DataRun _ _) = 0"

text \<open>A run that stays inside its bucket.\<close>

definition run_in_bucket :: "chunk_run \<Rightarrow> bool" where
  "run_in_bucket r \<longleftrightarrow> 0 < run_count r \<and> run_idx r + run_count r \<le> BUCKET_MAX_CHUNK_NUM"

lemma groups_append_keys: "distinct (map fst g) \<Longrightarrow> distinct (map fst (groups_append key r g))"
  by (auto simp: groups_append_def map_of_eq_None_iff distinct_update split: option.split)

lemma groups_append_split:
  assumes "map_of g key = Some rs"
  shows "\<exists>g1 g2. g = g1 @ (key, rs) # g2 \<and> groups_append key r g = g1 @ (key, rs @ [r]) # g2"
proof -
  have "\<exists>g1 g2. g = g1 @ (key, rs) # g2 \<and> AList.update key v g = g1 @ (key, v) # g2" for v
    using assms
  proof (induction g)
    case (Cons p g)
    show ?case
    proof (cases "fst p = key")
      case True
      then show ?thesis using Cons.prems by (cases p) (auto intro: exI [of _ "[]"])
    next
      case False
      then obtain g1 g2 where "g = g1 @ (key, rs) # g2" "AList.update key v g = g1 @ (key, v) # g2"
        using Cons by (cases p) auto
      then show ?thesis using False by (cases p) (intro exI [of _ "p # g1"] exI [of _ g2], simp)
    qed
  qed simp
  then show ?thesis using assms by (simp add: groups_append_def)
qed

lemma groups_append_measures:
  "mset (groups_placements (groups_append key r g)) = mset (groups_placements g) + mset (run_placements key r)"
  "groups_chunks (groups_append key r g) = groups_chunks g + run_count r"
  "(\<Union>(k, rs) \<in> set (groups_append key r g). set rs) = insert r (\<Union>(k, rs) \<in> set g. set rs)"
proof -
  have "mset (groups_placements (groups_append key r g)) = mset (groups_placements g) + mset (run_placements key r) \<and>
    groups_chunks (groups_append key r g) = groups_chunks g + run_count r \<and>
    (\<Union>(k, rs) \<in> set (groups_append key r g). set rs) = insert r (\<Union>(k, rs) \<in> set g. set rs)"
  proof (cases "map_of g key")
    case None
    then show ?thesis by (simp add: groups_append_def groups_placements_def groups_chunks_def)
  next
    case (Some rs)
    from groups_append_split [OF this, of r] obtain g1 g2 where
      "g = g1 @ (key, rs) # g2" "groups_append key r g = g1 @ (key, rs @ [r]) # g2" by blast
    then show ?thesis by (simp add: groups_placements_def groups_chunks_def)
  qed
  then show "mset (groups_placements (groups_append key r g)) = mset (groups_placements g) + mset (run_placements key r)"
    "groups_chunks (groups_append key r g) = groups_chunks g + run_count r"
    "(\<Union>(k, rs) \<in> set (groups_append key r g). set rs) = insert r (\<Union>(k, rs) \<in> set g. set rs)" by blast+
qed

subsection \<open>The planning loop\<close>

definition plan_placements :: "chunk_plan \<Rightarrow> placement list" where
  "plan_placements p = groups_placements (pl_groups p)"

definition plan_chunks :: "chunk_plan \<Rightarrow> nat" where
  "plan_chunks p = groups_chunks (pl_groups p)"

definition groups_ok :: "groups \<Rightarrow> bool" where
  "groups_ok g \<longleftrightarrow> distinct (map fst g) \<and> (\<forall>r \<in> (\<Union>(k, rs) \<in> set g. set rs). run_in_bucket r)"

definition planning_ok :: "nat \<Rightarrow> planning \<Rightarrow> bool" where
  "planning_ok m s \<longleftrightarrow> pg_entries s = groups_chunks (pg_groups s) \<and> pg_entries s \<le> m \<and> groups_ok (pg_groups s)"

lemma groups_ok_append: "groups_ok g \<Longrightarrow> run_in_bucket r \<Longrightarrow> groups_ok (groups_append key r g)"
  by (simp add: groups_ok_def groups_append_keys groups_append_measures(3))

lemma planning_ok_init: "planning_ok m planning_init"
  by (simp add: planning_ok_def planning_init_def groups_chunks_def groups_ok_def)

lemma run_placements_split:
  assumes "a \<le> n"
  shows "run_placements key \<lparr>run_idx = i, run_count = n, run_dest = d\<rparr> =
    run_placements key \<lparr>run_idx = i, run_count = a, run_dest = d\<rparr> @
    run_placements key \<lparr>run_idx = i + a, run_count = n - a, run_dest = d + int a * int FIXED_CHUNK_LENGTH\<rparr>"
proof -
  have u: "[0..<n] = [0..<a] @ map (\<lambda>j. a + j) [0..<n - a]"
    using assms by (intro nth_equalityI) (auto simp: nth_append)
  show ?thesis by (simp add: run_placements_def u algebra_simps)
qed

text \<open>What one step of planning does to the sums: nothing is lost or added.\<close>

definition planned_sum :: "chunk_plan list \<Rightarrow> planning \<Rightarrow> placement multiset \<times> nat \<times> nat" where
  "planned_sum ps s =
     (mset (concat (map plan_placements ps)) + mset (groups_placements (pg_groups s)),
      sum_list (map pl_holes ps) + pg_holes s, sum_list (map pl_zeros ps) + pg_zeros s)"

lemma planned_sum_init [simp]: "planned_sum [] planning_init = ({#}, 0, 0)"
  by (simp add: planned_sum_def planning_init_def groups_placements_def)

lemma planned_sum_flush: "planned_sum (plan_of s # ps) t =
  (let (a, h, z) = planned_sum ps t in (mset (groups_placements (pg_groups s)) + a, pg_holes s + h, pg_zeros s + z))"
  by (simp add: planned_sum_def plan_of_def plan_placements_def)

lemma plan_run_spec:
  assumes "0 < m" and "planning_ok m s" and "chunk_idx addr + n \<le> BUCKET_MAX_CHUNK_NUM" and "key = (stream_id addr, bucket_id addr)"
  shows "\<exists>ps s'. plan_run m key addr n dest s = Some (ps, s') \<and> planning_ok m s' \<and>
    (\<forall>p \<in> set ps. groups_ok (pl_groups p) \<and> plan_chunks p = m) \<and>
    planned_sum ps s' = (mset (groups_placements (pg_groups s)) +
        mset (run_placements key \<lparr>run_idx = chunk_idx addr, run_count = n, run_dest = dest\<rparr>), pg_holes s, pg_zeros s)"
  using assms
proof (induction m key addr n dest s rule: plan_run.induct)
  case (1 m key addr n dest s)
  show ?case
  proof (cases "n = 0")
    case True
    then show ?thesis using "1.prems" by (simp add: plan_run.simps [of m] planned_sum_def run_placements_def)
  next
    case n: False
    have m: "m \<noteq> 0" using "1.prems" by simp
    show ?thesis
    proof (cases "m \<le> pg_entries s")
      case True
      obtain ps s' where ps: "plan_run m key addr n dest planning_init = Some (ps, s')" "planning_ok m s'"
        "\<forall>p \<in> set ps. groups_ok (pl_groups p) \<and> plan_chunks p = m"
        "planned_sum ps s' = (mset (groups_placements (pg_groups planning_init)) +
          mset (run_placements key \<lparr>run_idx = chunk_idx addr, run_count = n, run_dest = dest\<rparr>),
          pg_holes planning_init, pg_zeros planning_init)"
        using "1.IH"(1) [OF n m True] "1.prems" planning_ok_init by blast
      have full: "groups_ok (pl_groups (plan_of s)) \<and> plan_chunks (plan_of s) = m"
        using "1.prems"(2) True by (simp add: planning_ok_def plan_of_def plan_chunks_def)
      have "planned_sum (plan_of s # ps) s' = (mset (groups_placements (pg_groups s)) +
          mset (run_placements key \<lparr>run_idx = chunk_idx addr, run_count = n, run_dest = dest\<rparr>), pg_holes s, pg_zeros s)"
        by (simp add: planned_sum_flush ps(4)) (simp add: planning_init_def groups_placements_def)
      moreover have "plan_run m key addr n dest s = Some (plan_of s # ps, s')"
        using n m True ps(1) by (simp add: plan_run.simps [of m key addr n dest s])
      ultimately show ?thesis using ps(2,3) full by simp
    next
      case False
      define a where "a = min (m - pg_entries s) n"
      define r where "r = \<lparr>run_idx = chunk_idx addr, run_count = a, run_dest = dest\<rparr>"
      define addr' where "addr' = (if 0 < n - a then advance_by addr a else addr)"
      define s1 where "s1 = s\<lparr>pg_groups := groups_append key r (pg_groups s), pg_entries := pg_entries s + a\<rparr>"
      let ?dest = "dest + int a * int FIXED_CHUNK_LENGTH"
      have a: "0 < a" "a \<le> n" "pg_entries s + a \<le> m" using n False by (auto simp: a_def)
      have rb: "run_in_bucket r" using a "1.prems"(3) by (simp add: run_in_bucket_def r_def)
      have ok1: "planning_ok m s1"
        using "1.prems"(2) a rb by (simp add: planning_ok_def s1_def groups_append_measures(2) groups_ok_append r_def)
      have adv: "chunk_idx addr' = chunk_idx addr + a \<and> stream_id addr' = stream_id addr \<and> bucket_id addr' = bucket_id addr"
        if "0 < n - a"
        using that advance_zero_run [of addr a] "1.prems"(3) by (simp add: addr'_def)
      have fits: "chunk_idx addr' + (n - a) \<le> BUCKET_MAX_CHUNK_NUM" and key': "key = (stream_id addr', bucket_id addr')"
        using adv "1.prems"(3,4) a by (cases "0 < n - a"; simp add: addr'_def)+
      obtain ps s' where ps: "plan_run m key addr' (n - a) ?dest s1 = Some (ps, s')" "planning_ok m s'"
        "\<forall>p \<in> set ps. groups_ok (pl_groups p) \<and> plan_chunks p = m"
        "planned_sum ps s' = (mset (groups_placements (pg_groups s1)) +
          mset (run_placements key \<lparr>run_idx = chunk_idx addr', run_count = n - a, run_dest = ?dest\<rparr>), pg_holes s1, pg_zeros s1)"
        using "1.IH"(2) [OF n m False, folded a_def, OF refl, folded r_def, OF refl, folded addr'_def s1_def,
            OF "1.prems"(1) ok1 fits key'] by blast
      have rest: "run_placements key \<lparr>run_idx = chunk_idx addr', run_count = n - a, run_dest = ?dest\<rparr> =
          run_placements key \<lparr>run_idx = chunk_idx addr + a, run_count = n - a, run_dest = ?dest\<rparr>"
        using adv by (cases "0 < n - a") (simp_all add: run_placements_def)
      have step: "plan_run m key addr n dest s = plan_run m key addr' (n - a) ?dest s1"
        unfolding plan_run.simps [of m key addr n dest s] Let_def a_def r_def addr'_def s1_def using n m False by (simp only: if_False)
      have g: "mset (groups_placements (pg_groups s1)) = mset (groups_placements (pg_groups s)) + mset (run_placements key r)"
        and hz: "pg_holes s1 = pg_holes s" "pg_zeros s1 = pg_zeros s"
        by (simp_all add: s1_def groups_append_measures(1))
      have "planned_sum ps s' = (mset (groups_placements (pg_groups s)) +
          mset (run_placements key \<lparr>run_idx = chunk_idx addr, run_count = n, run_dest = dest\<rparr>), pg_holes s, pg_zeros s)"
        unfolding ps(4) g hz rest run_placements_split [OF a(2), of key "chunk_idx addr" dest] mset_append r_def
        by (simp add: add.assoc)
      then show ?thesis unfolding step using ps(1-3) by blast
    qed
  qed
qed

subsection \<open>The walk\<close>

text \<open>Where the chunks of an extent go, by the format's definition of the repeated template.\<close>

definition extent_placements :: "nat \<Rightarrow> nat \<Rightarrow> nat \<Rightarrow> extent \<Rightarrow> placement list" where
  "extent_placements start stop window_start x =
     (case x of
        GapExtent _ _ _ \<Rightarrow> []
      | DataExtent off _ addr map_num _ \<Rightarrow>
          let (first_k, last_k) = data_extent_k_bounds x start stop in
          map (\<lambda>i. (chunk_at addr map_num i, int off - int window_start + int i * int FIXED_CHUNK_LENGTH)) [first_k..<nat (last_k + 1)])"

definition gap_bytes :: "extent_kind \<Rightarrow> nat \<Rightarrow> nat \<Rightarrow> extent \<Rightarrow> nat" where
  "gap_bytes kind start stop x =
     (case x of
        DataExtent _ _ _ _ _ \<Rightarrow> 0
      | GapExtent off len k \<Rightarrow> if k = kind then min (off + len) stop - max off start else 0)"

fun event_ok :: "walk_event \<Rightarrow> bool" where
  "event_ok (GapDelta _ _ _) = True"
| "event_ok (DataRun key r) = run_in_bucket r"

lemma run_event_placements:
  "event_placements (run_event lo r) = map (\<lambda>(c, i). (c, lo + int i * int FIXED_CHUNK_LENGTH)) (run_chunks r)"
  by (cases r; cases "fst r") (auto simp: run_event_def run_chunks_def run_placements_def algebra_simps)

lemma extent_events_spec:
  assumes "ext_wf x"
  shows "\<exists>es. extent_events start stop ws x = (es, None) \<and> (\<forall>e \<in> set es. event_ok e) \<and>
    concat (map event_placements es) = extent_placements start stop ws x \<and>
    sum_list (map event_holes es) = gap_bytes HOLE_EXT start stop x \<and>
    sum_list (map event_zeros es) = gap_bytes ZERO_EXT start stop x"
proof (cases x)
  case (GapExtent off len kind)
  then show ?thesis
    by (auto simp: extent_events_def extent_placements_def gap_bytes_def handle_gap_extent_def Let_def ext_end_def)
next
  case (DataExtent off len addr map_num rep)
  obtain fk lk where b: "data_extent_k_bounds x start stop = (fk, lk)" by (cases "data_extent_k_bounds x start stop")
  have pos: "0 < map_num" using assms DataExtent by simp
  let ?lo = "int off - int ws"
  from iter_chunk_runs_spec [OF pos] obtain rs where rs: "iter_chunk_runs addr map_num fk lk = (rs, None)"
    "concat (map run_chunks rs) = map (\<lambda>i. (chunk_at addr map_num i, i)) [fk..<nat (lk + 1)]"
    "\<forall>(a, n, i) \<in> set rs. 0 < n \<and> chunk_idx a + n \<le> BUCKET_MAX_CHUNK_NUM \<and> n \<le> map_num \<and> stream_id a = stream_id addr \<and>
       fk \<le> i \<and> int (i + n) \<le> lk + 1"
    by blast
  let ?es = "map (run_event ?lo) rs"
  have eq: "extent_events start stop ws x = (?es, None)"
    using DataExtent pos b rs(1) by (simp add: extent_events_def)
  have ok: "\<forall>e \<in> set ?es. event_ok e"
    using rs(3) by (auto simp: run_event_def run_in_bucket_def)
  have "concat (map event_placements ?es) = map (\<lambda>(c, i). (c, ?lo + int i * int FIXED_CHUNK_LENGTH)) (concat (map run_chunks rs))"
    by (simp add: map_concat o_def run_event_placements)
  then have pl: "concat (map event_placements ?es) = extent_placements start stop ws x"
    unfolding rs(2) using DataExtent b by (simp add: extent_placements_def o_def)
  have z: "event_holes (run_event ?lo r) = 0 \<and> event_zeros (run_event ?lo r) = 0" for r
    by (cases r) (simp add: run_event_def)
  have sums: "sum_list (map event_holes ?es) = 0" "sum_list (map event_zeros ?es) = 0"
    by (induction rs) (simp_all add: z)
  show ?thesis using eq ok pl sums DataExtent by (simp add: gap_bytes_def)
qed

lemma gen_concat_events:
  assumes "\<forall>x \<in> set xs. ext_wf x"
  shows "\<exists>es. gen_concat (extent_events start stop ws) xs = (es, None) \<and> (\<forall>e \<in> set es. event_ok e) \<and>
    concat (map event_placements es) = concat (map (extent_placements start stop ws) xs) \<and>
    sum_list (map event_holes es) = sum_list (map (gap_bytes HOLE_EXT start stop) xs) \<and>
    sum_list (map event_zeros es) = sum_list (map (gap_bytes ZERO_EXT start stop) xs)"
  using assms
proof (induction xs)
  case (Cons x xs)
  obtain es where es: "extent_events start stop ws x = (es, None)" "\<forall>e \<in> set es. event_ok e"
    "concat (map event_placements es) = extent_placements start stop ws x"
    "sum_list (map event_holes es) = gap_bytes HOLE_EXT start stop x"
    "sum_list (map event_zeros es) = gap_bytes ZERO_EXT start stop x"
    using extent_events_spec [of x start stop ws] Cons.prems by auto
  obtain fs where fs: "gen_concat (extent_events start stop ws) xs = (fs, None)" "\<forall>e \<in> set fs. event_ok e"
    "concat (map event_placements fs) = concat (map (extent_placements start stop ws) xs)"
    "sum_list (map event_holes fs) = sum_list (map (gap_bytes HOLE_EXT start stop) xs)"
    "sum_list (map event_zeros fs) = sum_list (map (gap_bytes ZERO_EXT start stop) xs)"
    using Cons by auto
  show ?case using es fs by (intro exI [of _ "es @ fs"]) auto
qed simp

subsection \<open>The plans\<close>

lemma plan_event_spec:
  assumes "0 < m" and "planning_ok m s" and "event_ok e"
  shows "\<exists>ps s'. plan_event m e s = Some (ps, s') \<and> planning_ok m s' \<and>
    (\<forall>p \<in> set ps. groups_ok (pl_groups p) \<and> plan_chunks p = m) \<and>
    planned_sum ps s' = (mset (groups_placements (pg_groups s)) + mset (event_placements e),
      pg_holes s + event_holes e, pg_zeros s + event_zeros e)"
proof (cases e)
  case (GapDelta h z fills)
  then show ?thesis using assms(2) by (simp add: planning_ok_def planned_sum_def)
next
  case (DataRun key r)
  have k: "key = (stream_id (ChunkAddress (fst key) (snd key) (run_idx r)), bucket_id (ChunkAddress (fst key) (snd key) (run_idx r)))"
    by simp
  have fits: "chunk_idx (ChunkAddress (fst key) (snd key) (run_idx r)) + run_count r \<le> BUCKET_MAX_CHUNK_NUM"
    using assms(3) DataRun by (simp add: run_in_bucket_def)
  have rr: "\<lparr>run_idx = chunk_idx (ChunkAddress (fst key) (snd key) (run_idx r)), run_count = run_count r, run_dest = run_dest r\<rparr> = r"
    by simp
  show ?thesis using plan_run_spec [OF assms(1,2) fits k, of "run_dest r"] unfolding rr by (simp add: DataRun)
qed

lemma planned_sum_append: "planned_sum (ps @ qs) t =
  (let (a, h, z) = planned_sum qs t in
   (mset (concat (map plan_placements ps)) + a, sum_list (map pl_holes ps) + h, sum_list (map pl_zeros ps) + z))"
  by (simp add: planned_sum_def)

lemma plan_events_spec:
  assumes "0 < m" and "planning_ok m s" and "\<forall>e \<in> set es. event_ok e"
  shows "\<exists>ps s'. plan_events m es s = Some (ps, s') \<and> planning_ok m s' \<and>
    (\<forall>p \<in> set ps. groups_ok (pl_groups p) \<and> plan_chunks p = m) \<and>
    planned_sum ps s' = (mset (groups_placements (pg_groups s)) + mset (concat (map event_placements es)),
      pg_holes s + sum_list (map event_holes es), pg_zeros s + sum_list (map event_zeros es))"
  using assms(2,3)
proof (induction es arbitrary: s)
  case Nil
  then show ?case by (simp add: planned_sum_def)
next
  case (Cons e es)
  obtain ps s1 where 1: "plan_event m e s = Some (ps, s1)" "planning_ok m s1"
    "\<forall>p \<in> set ps. groups_ok (pl_groups p) \<and> plan_chunks p = m"
    "planned_sum ps s1 = (mset (groups_placements (pg_groups s)) + mset (event_placements e),
      pg_holes s + event_holes e, pg_zeros s + event_zeros e)"
    using plan_event_spec [OF assms(1) Cons.prems(1), of e] Cons.prems(2) by auto
  obtain qs s2 where 2: "plan_events m es s1 = Some (qs, s2)" "planning_ok m s2"
    "\<forall>p \<in> set qs. groups_ok (pl_groups p) \<and> plan_chunks p = m"
    "planned_sum qs s2 = (mset (groups_placements (pg_groups s1)) + mset (concat (map event_placements es)),
      pg_holes s1 + sum_list (map event_holes es), pg_zeros s1 + sum_list (map event_zeros es))"
    using Cons.IH [OF 1(2)] Cons.prems(2) by auto
  have "planned_sum (ps @ qs) s2 = (mset (groups_placements (pg_groups s)) + mset (concat (map event_placements (e # es))),
      pg_holes s + sum_list (map event_holes (e # es)), pg_zeros s + sum_list (map event_zeros (e # es)))"
    using 1(4) by (simp add: planned_sum_append 2(4)) (simp add: planned_sum_def add.assoc flip: add.assoc)
  then show ?case using 1(1-3) 2(1-3) by auto
qed

lemma last_plan_sum:
  assumes "ps = [] \<or> pg_groups s \<noteq> [] \<or> pg_holes s \<noteq> 0 \<or> pg_zeros s \<noteq> 0 \<longrightarrow> qs = ps @ [plan_of s]"
    and "\<not> (ps = [] \<or> pg_groups s \<noteq> [] \<or> pg_holes s \<noteq> 0 \<or> pg_zeros s \<noteq> 0) \<longrightarrow> qs = ps"
  shows "planned_sum ps s = (mset (concat (map plan_placements qs)), sum_list (map pl_holes qs), sum_list (map pl_zeros qs))"
  using assms by (cases "ps = [] \<or> pg_groups s \<noteq> [] \<or> pg_holes s \<noteq> 0 \<or> pg_zeros s \<noteq> 0")
    (auto simp: planned_sum_def plan_of_def plan_placements_def groups_placements_def)

definition plans_exact :: "nat \<Rightarrow> extent list \<Rightarrow> nat \<Rightarrow> nat \<Rightarrow> nat \<Rightarrow> chunk_plan list \<Rightarrow> bool" where
  "plans_exact m xs start stop window_start ps \<longleftrightarrow> ps \<noteq> [] \<and>
    (\<forall>p \<in> set (butlast ps). plan_chunks p = m) \<and> (\<forall>p \<in> set ps. groups_ok (pl_groups p) \<and> plan_chunks p \<le> m) \<and>
    mset (concat (map plan_placements ps)) = mset (concat (map (extent_placements start stop window_start) xs)) \<and>
    sum_list (map pl_holes ps) = sum_list (map (gap_bytes HOLE_EXT start stop) xs) \<and>
    sum_list (map pl_zeros ps) = sum_list (map (gap_bytes ZERO_EXT start stop) xs)"

lemma plan_windows:
  assumes m: "0 < m" and wf: "\<forall>x \<in> set xs. ext_wf x"
    and al: "window_start mod FIXED_CHUNK_LENGTH = 0" and ws: "window_start \<le> start"
  shows "\<exists>ps. plan_chunks_windowed m (xs, None) start stop window_start = Some (ps, None) \<and>
    plans_exact m xs start stop window_start ps"
proof -
  obtain es where es: "gen_concat (extent_events start stop window_start) xs = (es, None)" "\<forall>e \<in> set es. event_ok e"
    "concat (map event_placements es) = concat (map (extent_placements start stop window_start) xs)"
    "sum_list (map event_holes es) = sum_list (map (gap_bytes HOLE_EXT start stop) xs)"
    "sum_list (map event_zeros es) = sum_list (map (gap_bytes ZERO_EXT start stop) xs)"
    using gen_concat_events [OF wf] by blast
  obtain ps s where ps: "plan_events m es planning_init = Some (ps, s)" "planning_ok m s"
    "\<forall>p \<in> set ps. groups_ok (pl_groups p) \<and> plan_chunks p = m"
    "planned_sum ps s = (mset (concat (map event_placements es)), sum_list (map event_holes es), sum_list (map event_zeros es))"
    using plan_events_spec [OF m planning_ok_init es(2)] by (auto simp: planning_init_def groups_placements_def)
  define qs where "qs = (if ps = [] \<or> pg_groups s \<noteq> [] \<or> pg_holes s \<noteq> 0 \<or> pg_zeros s \<noteq> 0 then ps @ [plan_of s] else ps)"
  have eq: "plan_chunks_windowed m (xs, None) start stop window_start = Some (qs, None)"
    using al ws es(1) ps(1) by (simp add: plan_chunks_windowed_def validate_window_start_def walk_extents_def qs_def)
  have last: "groups_ok (pl_groups (plan_of s)) \<and> plan_chunks (plan_of s) \<le> m"
    using ps(2) by (simp add: planning_ok_def plan_of_def plan_chunks_def)
  have "\<forall>p \<in> set (butlast qs). plan_chunks p = m"
    using ps(3) by (auto simp: qs_def dest: in_set_butlastD)
  moreover have "\<forall>p \<in> set qs. groups_ok (pl_groups p) \<and> plan_chunks p \<le> m"
    using ps(3) last by (auto simp: qs_def)
  moreover have "planned_sum ps s = (mset (concat (map plan_placements qs)), sum_list (map pl_holes qs), sum_list (map pl_zeros qs))"
    by (rule last_plan_sum) (simp_all add: qs_def)
  moreover have "qs \<noteq> []" by (simp add: qs_def)
  ultimately show ?thesis using eq ps(4) es(3-5) by (auto simp: plans_exact_def)
qed

text \<open>C17.
  Pass 1 loses nothing and adds nothing: whatever the window size, over well-formed extents
  \<open>plan_chunks_windowed\<close> ends, yields at least one plan, each within the window size and all
  but the last exactly at it, with every run inside its bucket and each bucket listed once;
  the chunk placements of all the plans together are, as a multiset, the chunks of the
  clipped extents at their destinations, and the hole and zero totals are those of the
  clipped gaps.
\<close>

theorem plan_chunks_windowed_exact:
  assumes "0 < m" and "\<forall>x \<in> set xs. ext_wf x" and "window_start mod FIXED_CHUNK_LENGTH = 0" and "window_start \<le> start"
  shows "\<exists>ps. plan_chunks_windowed m (xs, None) start stop window_start = Some (ps, None) \<and>
    plans_exact m xs start stop window_start ps"
  using assms by (rule plan_windows)

definition plan_demo :: "extent list" where
  "plan_demo =
     [GapExtent 0 8192 HOLE_EXT, DataExtent 8192 24576 (ChunkAddress 1 7 524286) 3 1, GapExtent 32768 100 ZERO_EXT]"

theorem plan_chunks_windowed_exact_witness:
  "\<exists>ps. plan_chunks_windowed 4 (plan_demo, None) 4096 32800 4096 = Some (ps, None) \<and>
    plans_exact 4 plan_demo 4096 32800 4096 ps"
  by (rule plan_chunks_windowed_exact) (simp_all add: plan_demo_def FIXED_CHUNK_LENGTH_def FIXED_CHUNK_BIT_NUM_def)

subsection \<open>Counting and listing without a plan\<close>

definition ext_overlaps :: "nat \<Rightarrow> nat \<Rightarrow> extent \<Rightarrow> bool" where
  "ext_overlaps start stop x \<longleftrightarrow> max (ext_offset x) start < min (ext_end x) stop"

lemma overlap_bounds:
  assumes "ext_overlaps start stop x" and "data_extent_k_bounds x start stop = (fk, lk)"
  shows "int fk \<le> lk"
proof -
  let ?a = "max (ext_offset x) start" and ?b = "min (ext_end x) stop"
  have "int fk = (int ?a - int (ext_offset x)) div int FIXED_CHUNK_LENGTH" and "lk = (int ?b - 1 - int (ext_offset x)) div int FIXED_CHUNK_LENGTH"
    using assms(2) by (auto simp: data_extent_k_bounds_def zdiv_int of_nat_diff)
  moreover have "int ?a \<le> int ?b - 1" using assms(1) by (simp add: ext_overlaps_def)
  ultimately show ?thesis by (simp add: zdiv_mono1 FIXED_CHUNK_LENGTH_def)
qed

lemma count_chunks_spec:
  assumes "ext_wf x" and "ext_overlaps start stop x"
  shows "count_chunks start stop x = Inr (int (length (extent_placements start stop ws x)))"
  using assms overlap_bounds [OF assms(2)]
  by (cases x; cases "data_extent_k_bounds x start stop") (auto simp: count_chunks_def extent_placements_def)

lemma count_fold:
  assumes "\<forall>x \<in> set xs. ext_wf x \<and> ext_overlaps start stop x"
  shows "gen_fold (\<lambda>x total. bind_res (count_chunks start stop x) (\<lambda>n. Inr (total + n))) (xs, None) t =
    Inr (t + int (length (concat (map (extent_placements start stop ws) xs))))"
  using assms
proof (induction xs arbitrary: t)
  case (Cons x xs)
  have "count_chunks start stop x = Inr (int (length (extent_placements start stop ws x)))"
    using Cons.prems by (intro count_chunks_spec) simp_all
  then show ?case using Cons by simp
qed simp

text \<open>C33.
  The progress denominator is exact: \<open>count_planned_bytes\<close> is the chunk size times the
  number of placements that \<open>plan_chunks_windowed\<close> hands out in all its plans over the same
  extents, whatever its window size.
\<close>

theorem count_planned_bytes_exact:
  assumes "0 < m" and "\<forall>x \<in> set xs. ext_wf x \<and> ext_overlaps start stop x"
    and "window_start mod FIXED_CHUNK_LENGTH = 0" and "window_start \<le> start"
    and "plan_chunks_windowed m (xs, None) start stop window_start = Some (ps, None)"
  shows "count_planned_bytes (xs, None) start stop = Inr (int (FIXED_CHUNK_LENGTH * length (concat (map plan_placements ps))))"
proof -
  have "\<forall>x \<in> set xs. ext_wf x" using assms(2) by blast
  from plan_windows [OF assms(1) this assms(3,4), of stop] assms(5)
  have "mset (concat (map plan_placements ps)) = mset (concat (map (extent_placements start stop window_start) xs))"
    by (auto simp: plans_exact_def)
  then have "length (concat (map plan_placements ps)) = length (concat (map (extent_placements start stop window_start) xs))"
    by (rule mset_eq_length)
  then show ?thesis using count_fold [OF assms(2), of 0 window_start] by (simp add: count_planned_bytes_def)
qed

definition count_demo :: "extent list" where
  "count_demo = [GapExtent 0 8192 HOLE_EXT, DataExtent 8192 12288 (ChunkAddress 1 7 524287) 3 0]"

theorem count_planned_bytes_exact_witness:
  "\<exists>ps. plan_chunks_windowed 2 (count_demo, None) 0 20480 0 = Some (ps, None) \<and>
    count_planned_bytes (count_demo, None) 0 20480 = Inr (int (FIXED_CHUNK_LENGTH * length (concat (map plan_placements ps))))"
proof -
  have wf: "\<forall>x \<in> set count_demo. ext_wf x \<and> ext_overlaps 0 20480 x"
    by (simp add: count_demo_def FIXED_CHUNK_LENGTH_def FIXED_CHUNK_BIT_NUM_def ext_overlaps_def ext_end_def)
  then obtain ps where "plan_chunks_windowed 2 (count_demo, None) 0 20480 0 = Some (ps, None)"
    using plan_windows [of 2 count_demo 0 0 20480] by auto
  then show ?thesis using count_planned_bytes_exact [OF _ wf, of 2 0] by auto
qed

text \<open>
  \<open>iter_bucket_keys\<close> lists the buckets of the placements: covering a whole repeat cycle is as
  good as covering every repetition.
\<close>

lemma set_drop_repeats: "set (drop_repeats prev xs) \<union> set_option prev = set xs \<union> set_option prev"
  by (induction prev xs rule: drop_repeats.induct) auto

lemma template_keys:
  assumes "0 < map_num" and "map_num \<le> lk + 1 - fk"
  shows "chunk_at addr map_num ` {fk..<lk + 1} = chunk_at addr map_num ` {0..<map_num}"
proof -
  have "chunk_at addr map_num i \<in> chunk_at addr map_num ` {0..<map_num}" for i
    using assms(1) by (intro image_eqI [of _ _ "i mod map_num"]) (simp_all add: chunk_at_def)
  moreover have "chunk_at addr map_num i \<in> chunk_at addr map_num ` {fk..<lk + 1}" if "i < map_num" for i
  proof -
    define d where "d = fk mod map_num"
    define j where "j = (if d \<le> i then fk + (i - d) else fk + (map_num + i - d))"
    have d: "d < map_num" using assms(1) by (simp add: d_def)
    define p where "p = map_num * (fk div map_num)"
    have fk: "fk = p + d" by (simp add: d_def p_def)
    have "j = p + i \<or> j = (p + map_num) + i"
      using fk d that unfolding j_def by (cases "d \<le> i") simp_all
    then have "j = map_num * (fk div map_num) + i \<or> j = map_num * (fk div map_num + 1) + i" by (auto simp: p_def)
    then have "j mod map_num = i mod map_num" by (metis mod_mult_self4)
    moreover have "fk \<le> j \<and> j < lk + 1" using assms(2) d that by (auto simp: j_def)
    ultimately show ?thesis by (intro image_eqI [of _ _ j]) (simp_all add: chunk_at_def)
  qed
  ultimately show ?thesis by auto
qed

definition addr_key :: "chunk_address \<Rightarrow> bucket_key" where
  "addr_key a = (stream_id a, bucket_id a)"

lemma run_keys: "\<forall>(a, n, i) \<in> set rs. 0 < n \<Longrightarrow>
  (\<lambda>(a, _, _). addr_key a) ` set rs = addr_key ` fst ` set (concat (map run_chunks rs))"
proof (induction rs)
  case (Cons r rs)
  obtain a n i where r: "r = (a, n, i)" by (cases r)
  have "addr_key ` fst ` set (run_chunks r) = {addr_key a}"
    using Cons.prems by (auto simp: r run_chunks_def addr_key_def image_image)
  then show ?case using Cons by (simp add: r image_Un)
qed simp

lemma extent_keys_spec:
  assumes "ext_wf x"
  shows "\<exists>ks. extent_keys start stop x = (ks, None) \<and>
    set ks = addr_key ` fst ` set (extent_placements start stop window_start x)"
proof (cases x)
  case (GapExtent off len kind)
  then show ?thesis by (simp add: extent_keys_def extent_placements_def)
next
  case (DataExtent off len addr map_num rep)
  obtain fk lk where b: "data_extent_k_bounds x start stop = (fk, lk)" by (cases "data_extent_k_bounds x start stop")
  define f where "f = (if int map_num \<le> lk - int fk + 1 then 0 else fk)"
  define l where "l = (if int map_num \<le> lk - int fk + 1 then int map_num - 1 else lk)"
  have pos: "0 < map_num" using assms DataExtent by simp
  from iter_chunk_runs_spec [OF pos] obtain rs where rs: "iter_chunk_runs addr map_num f l = (rs, None)"
    "concat (map run_chunks rs) = map (\<lambda>i. (chunk_at addr map_num i, i)) [f..<nat (l + 1)]"
    "\<forall>(a, n, i) \<in> set rs. 0 < n \<and> chunk_idx a + n \<le> BUCKET_MAX_CHUNK_NUM \<and> n \<le> map_num \<and> stream_id a = stream_id addr \<and>
       f \<le> i \<and> int (i + n) \<le> l + 1"
    by blast
  let ?ks = "drop_repeats None (map (\<lambda>(a, _, _). (stream_id a, bucket_id a)) rs)"
  have eq: "extent_keys start stop x = (?ks, None)"
    using b rs(1) by (auto simp: DataExtent extent_keys_def f_def l_def)
  have "set ?ks = (\<lambda>(a, _, _). addr_key a) ` set rs"
    using set_drop_repeats [of None "map (\<lambda>(a, _, _). (stream_id a, bucket_id a)) rs"] by (simp add: addr_key_def)
  also have "\<dots> = addr_key ` fst ` set (concat (map run_chunks rs))"
    using rs(3) by (intro run_keys) fastforce
  also have "\<dots> = addr_key ` chunk_at addr map_num ` {f..<nat (l + 1)}"
    unfolding rs(2) by (simp add: image_image)
  also have "chunk_at addr map_num ` {f..<nat (l + 1)} = chunk_at addr map_num ` {fk..<nat (lk + 1)}"
  proof (cases "int map_num \<le> lk - int fk + 1")
    case True
    then have "nat (lk + 1) = nat lk + 1" "map_num \<le> nat lk + 1 - fk" using pos by linarith+
    then show ?thesis using template_keys [OF pos, of "nat lk" fk addr] True by (simp add: f_def l_def)
  qed (simp add: f_def l_def)
  also have "addr_key ` \<dots> = addr_key ` fst ` set (extent_placements start stop window_start x)"
    using b by (simp add: DataExtent extent_placements_def image_image)
  finally show ?thesis using eq by blast
qed

lemma iter_bucket_keys_spec:
  assumes "\<forall>x \<in> set xs. ext_wf x"
  shows "\<exists>ks. iter_bucket_keys (xs, None) start stop = (ks, None) \<and>
    set ks = addr_key ` fst ` set (concat (map (extent_placements start stop window_start) xs))"
proof -
  have "\<exists>ks. gen_concat (extent_keys start stop) xs = (ks, None) \<and>
    set ks = addr_key ` fst ` set (concat (map (extent_placements start stop window_start) xs))"
    using assms
  proof (induction xs)
    case (Cons x xs)
    then obtain js where js: "gen_concat (extent_keys start stop) xs = (js, None)"
      "set js = addr_key ` fst ` set (concat (map (extent_placements start stop window_start) xs))"
      by auto
    obtain ks where ks: "extent_keys start stop x = (ks, None)"
      "set ks = addr_key ` fst ` set (extent_placements start stop window_start x)"
      using extent_keys_spec [of x start stop window_start] Cons.prems by auto
    show ?case using js ks by (auto simp: image_Un)
  qed simp
  then show ?thesis by (auto simp: iter_bucket_keys_def)
qed

end
