(* ===== verification/Ranges.thy ===== *)
theory Ranges
  imports Prelude "HOL-Library.Product_Lexorder"
begin

text \<open>
  The chunk-index ranges of \<open>sdk/dedup/chunk_walk.py\<close>: \<open>merge_overlapping_ranges\<close> and
  \<open>ascending_runs\<close>. A range is \<open>(start, length)\<close>; what a list of ranges asks for is the
  concatenation of its indices.
\<close>

definition merge_step :: "nat \<times> nat \<Rightarrow> (nat \<times> nat) list \<Rightarrow> (nat \<times> nat) list" where
  "merge_step r merged =
     (let (start, len) = r; stop = start + len in
      if merged \<noteq> [] \<and> start \<le> fst (last merged) + snd (last merged) then
        let (prev_start, prev_length) = last merged in
        butlast merged @ [(prev_start, max prev_length (stop - prev_start))]
      else merged @ [(start, len)])"

definition merge_overlapping_ranges :: "(nat \<times> nat) list \<Rightarrow> (nat \<times> nat) list" where
  "merge_overlapping_ranges ranges = fold merge_step (sort ranges) []"

definition asc_step :: "nat \<Rightarrow> (nat \<times> nat) list \<times> int \<times> int \<Rightarrow> (nat \<times> nat) list \<times> int \<times> int" where
  "asc_step idx s =
     (let (runs, start, prev) = s in
      if int idx \<noteq> prev + 1
      then (if 0 \<le> start then runs @ [(nat start, nat (prev - start + 1))] else runs, int idx, int idx)
      else (runs, start, int idx))"

definition ascending_runs :: "nat list \<Rightarrow> (nat \<times> nat) list" where
  "ascending_runs chunk_indices =
     (let (runs, start, prev) = fold asc_step chunk_indices ([], - 2, - 2) in
      if 0 \<le> start then runs @ [(nat start, nat (prev - start + 1))] else runs)"

subsection \<open>What ranges ask for\<close>

definition range_indices :: "nat \<times> nat \<Rightarrow> nat list" where
  "range_indices r = [fst r..<fst r + snd r]"

definition all_indices :: "(nat \<times> nat) list \<Rightarrow> nat list" where
  "all_indices rs = concat (map range_indices rs)"

definition covered :: "(nat \<times> nat) list \<Rightarrow> nat set" where
  "covered rs = (\<Union>r \<in> set rs. {fst r..<fst r + snd r})"

text \<open>Ascending, with a gap between any two: the request shape the bucket reader requires.\<close>

definition separated :: "(nat \<times> nat) list \<Rightarrow> bool" where
  "separated rs \<longleftrightarrow> sorted_wrt (\<lambda>r r'. fst r + snd r < fst r') rs"

lemma set_all_indices: "set (all_indices rs) = covered rs"
  by (auto simp: all_indices_def covered_def range_indices_def)

lemma covered_simps [simp]:
  "covered [] = {}" "covered (r # rs) = {fst r..<fst r + snd r} \<union> covered rs" "covered (rs @ ss) = covered rs \<union> covered ss"
  by (auto simp: covered_def)

lemma all_indices_simps [simp]:
  "all_indices [] = []" "all_indices (r # rs) = range_indices r @ all_indices rs"
  "all_indices (rs @ ss) = all_indices rs @ all_indices ss"
  by (simp_all add: all_indices_def)

lemma separated_simps [simp]:
  "separated []" "separated (r # rs) \<longleftrightarrow> (\<forall>r' \<in> set rs. fst r + snd r < fst r') \<and> separated rs"
  "separated (rs @ [r]) \<longleftrightarrow> separated rs \<and> (\<forall>r' \<in> set rs. fst r' + snd r' < fst r)"
  by (auto simp: separated_def sorted_wrt_append)

text \<open>A separated request lists each index once, in ascending order.\<close>

lemma separated_indices: "separated rs \<Longrightarrow> sorted_wrt (<) (all_indices rs)"
proof (induction rs)
  case (Cons r rs)
  have "\<forall>x \<in> set (range_indices r). \<forall>y \<in> set (all_indices rs). x < y"
    using Cons.prems by (fastforce simp: range_indices_def set_all_indices covered_def)
  then show ?case using Cons by (simp add: sorted_wrt_append range_indices_def sorted_wrt_upt)
qed simp

lemma separated_all_indices: "separated rs \<Longrightarrow> all_indices rs = sorted_list_of_set (covered rs)"
proof -
  assume "separated rs"
  from separated_indices [OF this] have "sorted (all_indices rs)" "distinct (all_indices rs)"
    by (simp_all add: strict_sorted_iff)
  then show ?thesis by (metis set_all_indices sorted_list_of_set.idem_if_sorted_distinct)
qed

subsection \<open>Merging\<close>

lemma merge_step_inv:
  assumes "separated m" and "m \<noteq> [] \<longrightarrow> fst (last m) \<le> fst r"
  shows "separated (merge_step r m)" "covered (merge_step r m) = covered m \<union> {fst r..<fst r + snd r}"
    "merge_step r m \<noteq> []" "fst (last (merge_step r m)) \<le> fst r"
    "\<forall>x \<in> set m. 0 < snd x \<Longrightarrow> 0 < snd r \<Longrightarrow> \<forall>x \<in> set (merge_step r m). 0 < snd x"
proof -
  obtain s l where r: "r = (s, l)" by (cases r)
  consider (empty) "m = []" | (join) ms p n where "m = ms @ [(p, n)]" "s \<le> p + n"
    | (gap) ms p n where "m = ms @ [(p, n)]" "p + n < s"
  proof (cases m rule: rev_cases)
    case (snoc ms x)
    then show ?thesis using join gap by (cases x; cases "s \<le> fst x + snd x") (simp_all add: not_le)
  qed (use empty in simp)
  then have "separated (merge_step r m) \<and> covered (merge_step r m) = covered m \<union> {fst r..<fst r + snd r} \<and>
    merge_step r m \<noteq> [] \<and> fst (last (merge_step r m)) \<le> fst r \<and>
    ((\<forall>x \<in> set m. 0 < snd x) \<and> 0 < snd r \<longrightarrow> (\<forall>x \<in> set (merge_step r m). 0 < snd x))"
  proof cases
    case empty
    then show ?thesis by (simp add: merge_step_def r)
  next
    case join
    then have ps: "p \<le> s" using assms(2) r by simp
    have ms: "merge_step r m = ms @ [(p, max n (s + l - p))]" using join by (simp add: merge_step_def r)
    have "{p..<p + max n (s + l - p)} = {p..<p + n} \<union> {s..<s + l}" using ps join(2) by auto
    moreover have "separated ms \<and> (\<forall>r' \<in> set ms. fst r' + snd r' < p)" using assms(1) join(1) by simp
    ultimately show ?thesis unfolding ms using ps by (simp add: join(1) r Un_assoc max_def)
  next
    case gap
    then have ms: "merge_step r m = m @ [(s, l)]" by (simp add: merge_step_def r)
    have "\<forall>x \<in> set m. fst x + snd x < s" using assms(1) gap by (fastforce simp: gap(1))
    then show ?thesis unfolding ms using assms(1) by (simp add: r)
  qed
  then show "separated (merge_step r m)" "covered (merge_step r m) = covered m \<union> {fst r..<fst r + snd r}"
    "merge_step r m \<noteq> []" "fst (last (merge_step r m)) \<le> fst r"
    "\<forall>x \<in> set m. 0 < snd x \<Longrightarrow> 0 < snd r \<Longrightarrow> \<forall>x \<in> set (merge_step r m). 0 < snd x" by blast+
qed

lemma merge_fold:
  assumes "sorted rs" and "separated m" and "m \<noteq> [] \<and> rs \<noteq> [] \<longrightarrow> fst (last m) \<le> fst (hd rs)"
  shows "separated (fold merge_step rs m) \<and> covered (fold merge_step rs m) = covered m \<union> covered rs \<and>
    ((\<forall>x \<in> set m. 0 < snd x) \<and> (\<forall>x \<in> set rs. 0 < snd x) \<longrightarrow> (\<forall>x \<in> set (fold merge_step rs m). 0 < snd x))"
  using assms
proof (induction rs arbitrary: m)
  case (Cons r rs)
  have le: "m \<noteq> [] \<longrightarrow> fst (last m) \<le> fst r" using Cons.prems(3) by simp
  note inv = merge_step_inv [OF Cons.prems(2) le]
  have next_start: "fst (last (merge_step r m)) \<le> fst (hd rs)" if "rs \<noteq> []"
  proof -
    have "r \<le> hd rs" using Cons.prems(1) hd_in_set [OF that] by (simp only: sorted_simps)
    then have "fst r \<le> fst (hd rs)" unfolding less_eq_prod_def by linarith
    with inv(4) show ?thesis by (rule order_trans)
  qed
  have "separated (fold merge_step rs (merge_step r m)) \<and>
      covered (fold merge_step rs (merge_step r m)) = covered (merge_step r m) \<union> covered rs \<and>
      ((\<forall>x \<in> set (merge_step r m). 0 < snd x) \<and> (\<forall>x \<in> set rs. 0 < snd x) \<longrightarrow>
        (\<forall>x \<in> set (fold merge_step rs (merge_step r m)). 0 < snd x))"
  proof (rule Cons.IH)
    show "sorted rs" using Cons.prems(1) by (simp only: sorted_simps)
    show "separated (merge_step r m)" by (rule inv(1))
    show "merge_step r m \<noteq> [] \<and> rs \<noteq> [] \<longrightarrow> fst (last (merge_step r m)) \<le> fst (hd rs)" using next_start by blast
  qed
  note ih1 = this [THEN conjunct1] and ih2 = this [THEN conjunct2, THEN conjunct1]
    and ih3 = this [THEN conjunct2, THEN conjunct2, rule_format]
  have "0 < snd y" if a: "\<forall>x \<in> set m. 0 < snd x" "\<forall>x \<in> set (r # rs). 0 < snd x"
    and y: "y \<in> set (fold merge_step rs (merge_step r m))" for y
    using y
  proof (rule ih3 [rotated])
    show "(\<forall>x \<in> set (merge_step r m). 0 < snd x) \<and> (\<forall>x \<in> set rs. 0 < snd x)" using inv(5) a by simp
  qed
  moreover have "covered (fold merge_step rs (merge_step r m)) = covered m \<union> covered (r # rs)"
    by (simp only: ih2 inv(2) covered_simps Un_assoc)
  ultimately show ?case using ih1 unfolding fold_Cons o_apply by blast
qed simp

lemma merge_ranges:
  "separated (merge_overlapping_ranges rs)" "covered (merge_overlapping_ranges rs) = covered rs"
  "\<forall>r \<in> set rs. 0 < snd r \<Longrightarrow> \<forall>r \<in> set (merge_overlapping_ranges rs). 0 < snd r"
proof -
  have "covered (sort rs) = covered rs" by (simp add: covered_def)
  then show "separated (merge_overlapping_ranges rs)" "covered (merge_overlapping_ranges rs) = covered rs"
    "\<forall>r \<in> set rs. 0 < snd r \<Longrightarrow> \<forall>r \<in> set (merge_overlapping_ranges rs). 0 < snd r"
    using merge_fold [of "sort rs" "[]"] by (auto simp: merge_overlapping_ranges_def)
qed

subsection \<open>Runs of indices\<close>

lemma asc_step_cases:
  "int x = prev + 1 \<Longrightarrow> asc_step x (runs, start, prev) = (runs, start, int x)"
  "int x \<noteq> prev + 1 \<Longrightarrow> 0 \<le> start \<Longrightarrow>
     asc_step x (runs, start, prev) = (runs @ [(nat start, nat (prev - start + 1))], int x, int x)"
  by (simp_all add: asc_step_def)

lemma asc_fold:
  assumes "sorted_wrt (<) xs" and "0 \<le> start" and "start \<le> prev" and "\<forall>x \<in> set xs. prev < int x"
    and "separated (runs @ [(nat start, nat (prev - start + 1))])"
  shows "\<exists>runs' start' prev'. fold asc_step xs (runs, start, prev) = (runs', start', prev') \<and> 0 \<le> start' \<and> start' \<le> prev' \<and>
    all_indices (runs' @ [(nat start', nat (prev' - start' + 1))]) =
      all_indices (runs @ [(nat start, nat (prev - start + 1))]) @ xs \<and>
    separated (runs' @ [(nat start', nat (prev' - start' + 1))])"
  using assms
proof (induction xs arbitrary: runs start prev)
  case (Cons x xs)
  have x: "prev < int x" "\<forall>y \<in> set xs. x < y" "sorted_wrt (<) xs" using Cons.prems by auto
  show ?case
  proof (cases "int x = prev + 1")
    case True
    have grow: "range_indices (nat start, nat (int x - start + 1)) = range_indices (nat start, nat (prev - start + 1)) @ [x]"
    proof -
      have e: "nat start + nat (int x - start + 1) = Suc x" "nat start + nat (prev - start + 1) = x"
        using True Cons.prems(2,3) by simp_all
      show ?thesis unfolding range_indices_def fst_conv snd_conv e using True Cons.prems(2,3) by simp
    qed
    have "\<exists>runs' start' prev'. fold asc_step xs (runs, start, int x) = (runs', start', prev') \<and> 0 \<le> start' \<and> start' \<le> prev' \<and>
      all_indices (runs' @ [(nat start', nat (prev' - start' + 1))]) =
        all_indices (runs @ [(nat start, nat (int x - start + 1))]) @ xs \<and>
      separated (runs' @ [(nat start', nat (prev' - start' + 1))])"
      by (rule Cons.IH) (use Cons.prems x in auto)
    then show ?thesis unfolding fold_Cons o_apply asc_step_cases(1) [OF True] by (simp add: grow)
  next
    case False
    let ?runs = "runs @ [(nat start, nat (prev - start + 1))]"
    have "\<exists>runs' start' prev'. fold asc_step xs (?runs, int x, int x) = (runs', start', prev') \<and> 0 \<le> start' \<and> start' \<le> prev' \<and>
      all_indices (runs' @ [(nat start', nat (prev' - start' + 1))]) =
        all_indices (?runs @ [(nat (int x), nat (int x - int x + 1))]) @ xs \<and>
      separated (runs' @ [(nat start', nat (prev' - start' + 1))])"
    proof (rule Cons.IH)
      have "\<forall>r \<in> set ?runs. fst r + snd r < x"
        using Cons.prems(2,3,5) x(1) False by (fastforce simp: separated_def sorted_wrt_append)
      then show "separated (?runs @ [(nat (int x), nat (int x - int x + 1))])"
        using Cons.prems(5) separated_simps(3) [of ?runs "(x, 1)"] by simp
    qed (use x in auto)
    moreover have "range_indices (x, Suc 0) = [x]" by (simp add: range_indices_def)
    ultimately show ?thesis
      unfolding fold_Cons o_apply asc_step_cases(2) [OF False Cons.prems(2)] by simp
  qed
qed auto

lemma ascending_runs_spec:
  assumes "sorted_wrt (<) xs"
  shows "all_indices (ascending_runs xs) = xs" "separated (ascending_runs xs)"
proof -
  have "all_indices (ascending_runs xs) = xs \<and> separated (ascending_runs xs)"
  proof (cases xs)
    case Nil
    then show ?thesis by (simp add: ascending_runs_def)
  next
    case (Cons x ys)
    have step: "asc_step x ([], - 2, - 2) = ([], int x, int x)" by (simp add: asc_step_def)
    have "\<exists>runs' start' prev'. fold asc_step ys ([], int x, int x) = (runs', start', prev') \<and> 0 \<le> start' \<and> start' \<le> prev' \<and>
      all_indices (runs' @ [(nat start', nat (prev' - start' + 1))]) =
        all_indices ([] @ [(nat (int x), nat (int x - int x + 1))]) @ ys \<and>
      separated (runs' @ [(nat start', nat (prev' - start' + 1))])"
      by (rule asc_fold) (use assms Cons in auto)
    then show ?thesis by (auto simp: ascending_runs_def Cons step range_indices_def)
  qed
  then show "all_indices (ascending_runs xs) = xs" "separated (ascending_runs xs)" by simp_all
qed

subsection \<open>Properties\<close>

text \<open>The read request of a bucket asks for every chunk once: \<open>merge_overlapping_ranges\<close>
  returns ranges in ascending order with a gap between any two, whose indices are exactly
  those of the input ranges, however they overlap; \<open>ascending_runs\<close> does so for a sorted
  list of distinct indices.\<close>

theorem bucket_request_exact:
  "separated (merge_overlapping_ranges rs) \<and>
   all_indices (merge_overlapping_ranges rs) = sorted_list_of_set (\<Union>(s, n) \<in> set rs. {s..<s + n}) \<and>
   separated (ascending_runs (sorted_list_of_set (set xs))) \<and>
   all_indices (ascending_runs (sorted_list_of_set (set xs))) = sorted_list_of_set (set xs)"
proof -
  have "covered rs = (\<Union>(s, n) \<in> set rs. {s..<s + n})" by (auto simp: covered_def)
  moreover have "sorted_wrt (<) (sorted_list_of_set (set xs))" by (simp add: strict_sorted_list_of_set)
  ultimately show ?thesis
    using merge_ranges(1,2) [of rs] separated_all_indices [OF merge_ranges(1) [of rs]] ascending_runs_spec by auto
qed

end
