(* ===== verification/DedupFile.thy ===== *)
theory DedupFile
  imports Plan Ranges CompRecord
begin

text \<open>
  \<open>sdk/dedup/dedup_file.py\<close>: reading a byte range of a dedup file. The chunk-map record is
  the model of \<open>CompRecord\<close>; the pool the chunks come from is a parameter here, stated as the
  interface \<open>chunk_source\<close>. Buckets are filled one after the other: the order in which the
  code reports a failure.
\<close>

subsection \<open>Arguments\<close>

definition MAX_SINGLE_READ_SIZE :: nat where [const_defs]: "MAX_SINGLE_READ_SIZE = 2 ^ 30"
definition READ_BATCH_CHUNKS :: nat where [const_defs]: "READ_BATCH_CHUNKS = 4096"
definition DEFAULT_STREAM_BLOCK :: nat where [const_defs]: "DEFAULT_STREAM_BLOCK = 8 * 2 ^ 20"

definition validate_read_args :: "int \<Rightarrow> int option \<Rightarrow> unit res" where
  "validate_read_args offset len =
     require (\<not> (offset < 0 \<or> (case len of None \<Rightarrow> False | Some n \<Rightarrow> n < 0))) PyValueError"

definition clamp_read_length :: "int \<Rightarrow> int option \<Rightarrow> nat \<Rightarrow> int" where
  "clamp_read_length offset len fsize =
     (let available = int fsize - offset;
          wanted = (case len of None \<Rightarrow> available | Some n \<Rightarrow> n)
      in max 0 (min wanted available))"

definition validate_export_range :: "int \<Rightarrow> int \<Rightarrow> nat \<Rightarrow> unit res" where
  "validate_export_range start stop fsize = require (0 \<le> start \<and> start \<le> stop \<and> stop \<le> int fsize) PyValueError"

definition require_chunk_aligned :: "int \<Rightarrow> unit res" where
  "require_chunk_aligned offset = require (offset mod int FIXED_CHUNK_LENGTH = 0) PyValueError"

subsection \<open>Bucket groups\<close>

record bucket_group =
  bg_key :: bucket_key
  bg_runs :: "(nat \<times> nat \<times> nat) list"
  bg_ranges :: "(nat \<times> nat) list"
  bg_offset :: nat
  bg_start :: nat
  bg_end :: nat
  bg_single :: bool

definition bg_chunks :: "bucket_group \<Rightarrow> nat" where
  "bg_chunks g = sum_list (map (\<lambda>(_, n, _). n) (bg_runs g))"

definition run_ranges :: "(nat \<times> nat \<times> nat) list \<Rightarrow> (nat \<times> nat) list" where
  "run_ranges rs = merge_overlapping_ranges (map (\<lambda>(start, n, _). (start, n)) rs)"

definition runs_by_bucket :: "(chunk_address \<times> nat \<times> nat) list \<Rightarrow> (bucket_key \<times> (nat \<times> nat \<times> nat) list) list" where
  "runs_by_bucket rs =
     fold (\<lambda>(a, n, k). groups_append (stream_id a, bucket_id a) (chunk_idx a, n, k)) rs []"

definition group_of :: "nat \<Rightarrow> nat \<Rightarrow> nat \<Rightarrow> nat \<Rightarrow> bucket_key \<times> (nat \<times> nat \<times> nat) list \<Rightarrow> bucket_group" where
  "group_of buckets off seg_start seg_end p =
     (let merged = run_ranges (snd p) in
      \<lparr>bg_key = fst p, bg_runs = snd p, bg_ranges = merged, bg_offset = off, bg_start = seg_start, bg_end = seg_end,
       bg_single = (buckets = 1 \<and> length merged = 1 \<and> snd (hd merged) = 1)\<rparr>)"

text \<open>\<open>_bucket_groups\<close> of a data extent; a gap has no template.\<close>

definition bucket_groups :: "extent \<Rightarrow> nat \<Rightarrow> nat \<Rightarrow> bucket_group list res" where
  "bucket_groups x seg_start seg_end =
     (case x of
        GapExtent _ _ _ \<Rightarrow> Inl PyException
      | DataExtent off _ addr mnum _ \<Rightarrow>
          if mnum = 0 then Inl PyAssertionError
          else let (first_k, last_k) = data_extent_k_bounds x seg_start seg_end in
            (case iter_chunk_runs addr mnum first_k last_k of
               (_, Some e) \<Rightarrow> Inl e
             | (rs, None) \<Rightarrow>
                 let by_bucket = runs_by_bucket rs in
                 Inr (map (group_of (length by_bucket) off seg_start seg_end) by_bucket)))"

subsection \<open>Copying\<close>

text \<open>
  \<open>out[a:b] = data\<close> on a memoryview: negative bounds count from the end, bounds past the end
  are cut, and a different length is refused.
\<close>

definition slice_bound :: "nat \<Rightarrow> int \<Rightarrow> nat" where
  "slice_bound n i = (if i < 0 then nat (int n + i) else min n (nat i))"

definition view_assign :: "int \<Rightarrow> int \<Rightarrow> bytes \<Rightarrow> bytes \<Rightarrow> bytes res" where
  "view_assign a b data out =
     (let lo = slice_bound (length out) a; hi = slice_bound (length out) b in
      if hi - lo = length data then Inr (take lo out @ data @ drop (lo + length data) out) else Inl PyValueError)"

definition copy_chunk :: "nat \<Rightarrow> nat \<Rightarrow> nat \<Rightarrow> nat \<Rightarrow> bytes \<Rightarrow> bytes \<Rightarrow> bytes res" where
  "copy_chunk seg_start seg_end out_base chunk_start chunk out =
     (if seg_start \<le> chunk_start \<and> chunk_start + length chunk \<le> seg_end then
        let dest = int chunk_start - int out_base in view_assign dest (dest + int (length chunk)) chunk out
      else
        let lo = max (int seg_start - int chunk_start) 0;
            hi = min (int seg_end - int chunk_start) (int (length chunk)) in
        if lo < hi then
          let dest = int chunk_start + lo - int out_base in
          view_assign dest (dest + hi - lo) (pslice (nat lo) (nat hi) chunk) out
        else Inr out)"

type_synonym plain = "nat \<rightharpoonup> bytes"

definition copy_run :: "bucket_group \<Rightarrow> plain \<Rightarrow> nat \<Rightarrow> nat \<times> nat \<times> nat \<Rightarrow> bytes \<Rightarrow> bytes res" where
  "copy_run g plain out_base r out =
     (case r of (idx, n, k_start) \<Rightarrow>
        fold_res (\<lambda>j out.
            case plain (idx + j) of
              None \<Rightarrow> Inl PyKeyError
            | Some chunk \<Rightarrow>
                copy_chunk (bg_start g) (bg_end g) out_base (bg_offset g + (k_start + j) * FIXED_CHUNK_LENGTH) chunk out)
          [0..<n] out)"

definition copy_group :: "bucket_group \<Rightarrow> plain \<Rightarrow> nat \<Rightarrow> bytes \<Rightarrow> bytes res" where
  "copy_group g plain out_base out = fold_res (copy_run g plain out_base) (bg_runs g) out"

text \<open>
  \<open>_fill_groups\<close>: bucket by bucket in first-use order, each group fetched and copied at once.
\<close>

type_synonym 's fetch = "bucket_group \<Rightarrow> ('s, plain) op"

fun fill_bucket :: "'s fetch \<Rightarrow> nat \<Rightarrow> bucket_group list \<Rightarrow> bytes \<Rightarrow> ('s, bytes) op" where
  "fill_bucket fetch out_base [] out = op_return out"
| "fill_bucket fetch out_base (g # gs) out =
     op_bind (fetch g) (\<lambda>m. op_bind (op_lift (copy_group g m out_base out)) (fill_bucket fetch out_base gs))"

fun fill_buckets :: "'s fetch \<Rightarrow> nat \<Rightarrow> (bucket_key \<times> bucket_group list) list \<Rightarrow> bytes \<Rightarrow> ('s, bytes) op" where
  "fill_buckets fetch out_base [] out = op_return out"
| "fill_buckets fetch out_base ((_, gs) # rest) out =
     op_bind (fill_bucket fetch out_base gs out) (fill_buckets fetch out_base rest)"

definition by_bucket :: "bucket_group list \<Rightarrow> (bucket_key \<times> bucket_group list) list" where
  "by_bucket groups = fold (\<lambda>g. groups_append (bg_key g) g) groups []"

definition fill_groups :: "'s fetch \<Rightarrow> bucket_group list \<Rightarrow> nat \<Rightarrow> bytes \<Rightarrow> ('s, bytes) op" where
  "fill_groups fetch groups out_base = fill_buckets fetch out_base (by_bucket groups)"

subsection \<open>read\<close>

text \<open>The \<open>async for\<close> of \<open>read\<close>: the groups waiting to be fetched, and the output so far.\<close>

fun read_extents :: "'s fetch \<Rightarrow> nat \<Rightarrow> nat \<Rightarrow> extent list \<Rightarrow> bucket_group list \<Rightarrow> nat \<Rightarrow> bytes \<Rightarrow>
    ('s, bucket_group list \<times> bytes) op" where
  "read_extents fetch offset stop [] groups planned out = op_return (groups, out)"
| "read_extents fetch offset stop (x # xs) groups planned out =
     (let seg_start = max (ext_offset x) offset; seg_end = min (ext_end x) stop in
      if seg_end \<le> seg_start then read_extents fetch offset stop xs groups planned out
      else if ext_kind x = DATA_EXT then
        op_bind (op_lift (bucket_groups x seg_start seg_end)) (\<lambda>new.
          let groups' = groups @ new; planned' = planned + sum_list (map bg_chunks new) in
          if READ_BATCH_CHUNKS \<le> planned'
          then op_bind (fill_groups fetch groups' offset out) (\<lambda>out. read_extents fetch offset stop xs [] 0 out)
          else read_extents fetch offset stop xs groups' planned' out)
      else read_extents fetch offset stop xs groups planned out)"

definition read_range :: "'s fetch \<Rightarrow> extent gen \<Rightarrow> nat \<Rightarrow> nat \<Rightarrow> ('s, bytes) op" where
  "read_range fetch xs offset len =
     op_bind (read_extents fetch offset (offset + len) (fst xs) [] 0 (replicate len 0)) (\<lambda>(groups, out).
       case snd xs of Some e \<Rightarrow> op_lift (Inl e) | None \<Rightarrow> fill_groups fetch groups offset out)"

text \<open>The argument checks of \<open>read\<close>: the length it resolves to, 0 for an empty read.\<close>

definition resolve_read :: "nat option \<Rightarrow> int \<Rightarrow> int option \<Rightarrow> nat res" where
  "resolve_read fsize offset len =
     bind_res (require (\<not> offset < 0) PyValueError) (\<lambda>_.
     bind_res (require (case len of None \<Rightarrow> True | Some n \<Rightarrow> \<not> n < 0) PyValueError) (\<lambda>_.
     bind_res (require (\<not> (len = None \<and> fsize = None)) PyValueError) (\<lambda>_.
       let n = (case fsize of Some z \<Rightarrow> clamp_read_length offset len z | None \<Rightarrow> (case len of Some k \<Rightarrow> k | None \<Rightarrow> 0)) in
       if n \<le> 0 then Inr 0
       else if int MAX_SINGLE_READ_SIZE < n then Inl ResourceLimitExceededError
       else Inr (nat n))))"

text \<open>
  A file: its size if known, its record once opened, and the state of the pool behind it.
\<close>

record 's dedup_file =
  df_size :: "nat option"
  df_record :: "crec option"
  df_pool :: 's

definition cached_record :: "crec res \<Rightarrow> ('s dedup_file, crec) op" where
  "cached_record open_record f =
     (case df_record f of
        Some r \<Rightarrow> (Inr r, f)
      | None \<Rightarrow> (case open_record of Inl e \<Rightarrow> (Inl e, f) | Inr r \<Rightarrow> (Inr r, f\<lparr>df_record := Some r\<rparr>)))"

text \<open>\<open>_extents\<close> of a file, with the record's caches as the walk leaves them.\<close>

definition file_extents :: "reader \<Rightarrow> crec res \<Rightarrow> nat \<Rightarrow> nat option \<Rightarrow> 's dedup_file \<Rightarrow> extent gen \<times> 's dedup_file" where
  "file_extents rd_at open_record start end_opt f =
     (case cached_record open_record f of
        (Inl e, f') \<Rightarrow> (([], Some e), f')
      | (Inr r, f') \<Rightarrow>
          let (es, r') = entries rd_at start end_opt r in
          (extents (df_size f') es start end_opt, f'\<lparr>df_record := Some r'\<rparr>))"

definition dedup_read :: "reader \<Rightarrow> crec res \<Rightarrow> 's fetch \<Rightarrow> int \<Rightarrow> int option \<Rightarrow> ('s dedup_file, bytes) op" where
  "dedup_read rd_at open_record fetch offset len f =
     (case resolve_read (df_size f) offset len of
        Inl e \<Rightarrow> (Inl e, f)
      | Inr n \<Rightarrow>
          if n = 0 then (Inr [], f)
          else
            let (xs, f') = file_extents rd_at open_record (nat offset) (Some (nat offset + n)) f;
                (r, pool) = read_range fetch xs (nat offset) n (df_pool f')
            in (r, f'\<lparr>df_pool := pool\<rparr>))"

subsection \<open>Views and blocks\<close>

text \<open>\<open>ByteRangeView.read\<close>: a window of \<open>vlen\<close> bytes at \<open>voff\<close>.\<close>

definition view_read :: "reader \<Rightarrow> crec res \<Rightarrow> 's fetch \<Rightarrow> nat \<Rightarrow> nat \<Rightarrow> int \<Rightarrow> int option \<Rightarrow> ('s dedup_file, bytes) op" where
  "view_read rd_at open_record fetch voff vlen offset len =
     op_bind (op_lift (validate_read_args offset len)) (\<lambda>_.
       dedup_read rd_at open_record fetch (int voff + offset) (Some (clamp_read_length offset len vlen)))"

text \<open>
  \<open>read_blocks\<close>, over any source's \<open>read\<close>: the blocks before the first failure. With a block
  size of 0 it yields empty blocks for ever: \<open>None\<close>.
\<close>

function read_blocks :: "(int \<Rightarrow> int option \<Rightarrow> ('s, bytes) op) \<Rightarrow> nat \<Rightarrow> nat \<Rightarrow> nat \<Rightarrow> nat \<Rightarrow> 's \<Rightarrow>
    ((nat \<times> bytes) gen \<times> 's) option" where
  "read_blocks rd start stop block offset s =
     (if stop \<le> start + offset then Some (([], None), s)
      else if block = 0 then None
      else let n = min block (stop - start - offset) in
        (case rd (int (start + offset)) (Some (int n)) s of
           (Inl e, s') \<Rightarrow> Some (([], Some e), s')
         | (Inr data, s') \<Rightarrow>
             (case read_blocks rd start stop block (offset + n) s' of
                None \<Rightarrow> None
              | Some ((bs, e), t) \<Rightarrow> Some (((offset, data) # bs, e), t))))"
  by pat_completeness auto
termination by (relation "measure (\<lambda>(_, start, stop, _, offset, _). stop - start - offset)") (auto simp: min_def)

declare read_blocks.simps [simp del]

definition stream_via_read :: "(int \<Rightarrow> int option \<Rightarrow> ('s, bytes) op) \<Rightarrow> nat option \<Rightarrow> nat \<Rightarrow> 's \<Rightarrow>
    ((nat \<times> bytes) gen \<times> 's) option" where
  "stream_via_read rd fsize block s =
     (case fsize of None \<Rightarrow> Some (([], Some PyValueError), s) | Some z \<Rightarrow> read_blocks rd 0 z block 0 s)"

subsection \<open>What a copy writes\<close>

text \<open>The byte \<open>r\<close> of the slot of a chunk: zero past the end of a short chunk.\<close>

definition slot_byte :: "bytes \<Rightarrow> nat \<Rightarrow> byte" where
  "slot_byte chunk r = (if r < length chunk then chunk ! r else 0)"

lemma chunk_byte_slot: "chunk_byte pl addr mnum rel = slot_byte (pl (chunk_at addr mnum (rel div FIXED_CHUNK_LENGTH))) (rel mod FIXED_CHUNK_LENGTH)"
  by (simp add: chunk_byte_def slot_byte_def Let_def)

text \<open>
  The output buffer while it is being filled: the positions in \<open>D\<close> hold their final byte,
  every other one is still zero. Filling is then the growth of \<open>D\<close>, in whatever order.
\<close>

definition filled :: "(nat \<Rightarrow> byte) \<Rightarrow> nat \<Rightarrow> nat \<Rightarrow> nat set \<Rightarrow> bytes \<Rightarrow> bool" where
  "filled tgt base n D out \<longleftrightarrow> length out = n \<and> (\<forall>i < n. out ! i = (if base + i \<in> D then tgt (base + i) else 0))"

lemma view_assign_ok:
  assumes "lo \<le> hi" and "hi \<le> length out" and "length data = hi - lo"
  shows "view_assign (int lo) (int hi) data out = Inr (pslice_assign lo hi data out)"
  using assms by (simp add: view_assign_def slice_bound_def pslice_assign_def max_def)

definition slot_positions :: "nat \<Rightarrow> nat \<Rightarrow> nat \<Rightarrow> nat \<Rightarrow> nat set" where
  "slot_positions seg_start seg_end pos n = {p. seg_start \<le> p \<and> p < seg_end \<and> pos \<le> p \<and> p < pos + n * FIXED_CHUNK_LENGTH}"

lemma slot_positions_0 [simp]: "slot_positions s t pos 0 = {}"
  by (auto simp: slot_positions_def)

lemma slot_positions_Suc:
  "slot_positions s t pos (Suc n) = slot_positions s t pos n \<union> slot_positions s t (pos + n * FIXED_CHUNK_LENGTH) 1"
  by (auto simp: slot_positions_def)

lemma filled_assign:
  assumes "filled tgt base n D out" and "lo \<le> hi" and "hi \<le> n" and "length data = hi - lo"
    and "\<And>i. lo \<le> i \<Longrightarrow> i < hi \<Longrightarrow> data ! (i - lo) = tgt (base + i)"
    and "\<And>p. p \<in> E \<Longrightarrow> base \<le> p \<Longrightarrow> p < base + lo \<or> base + hi \<le> p \<Longrightarrow> tgt p = 0"
    and "\<And>i. lo \<le> i \<Longrightarrow> i < hi \<Longrightarrow> base + i \<in> E"
  shows "filled tgt base n (D \<union> E) (pslice_assign lo hi data out)"
proof -
  have len: "length out = n" using assms(1) by (simp add: filled_def)
  have "pslice_assign lo hi data out ! i = (if base + i \<in> D \<union> E then tgt (base + i) else 0)" if "i < n" for i
  proof (cases "lo \<le> i \<and> i < hi")
    case True
    then show ?thesis using assms(2-5,7) that by (simp add: nth_pslice_assign len)
  next
    case False
    then show ?thesis
      using assms(1-4) that assms(6) [of "base + i"] by (auto simp: nth_pslice_assign len filled_def)
  qed
  then show ?thesis using assms(2-4) by (simp add: filled_def len)
qed

lemma copy_chunk_filled:
  assumes f: "filled tgt base n D out" and b: "base \<le> s" "t \<le> base + n"
    and len: "length chunk \<le> FIXED_CHUNK_LENGTH"
    and tgt: "\<And>r. r < FIXED_CHUNK_LENGTH \<Longrightarrow> s \<le> cs + r \<Longrightarrow> cs + r < t \<Longrightarrow> tgt (cs + r) = slot_byte chunk r"
  shows "\<exists>out'. copy_chunk s t base cs chunk out = Inr out' \<and> filled tgt base n (D \<union> slot_positions s t cs 1) out'"
proof -
  have n: "length out = n" using f by (simp add: filled_def)
  define lo where "lo = (if s \<le> cs then 0 else s - cs)"
  define hi where "hi = (if cs \<le> t then min (t - cs) (length chunk) else 0)"
  have pos: "p = cs + (p - cs)" if "p \<in> slot_positions s t cs 1" for p using that by (simp add: slot_positions_def)
  have zero: "tgt p = 0" if "p \<in> slot_positions s t cs 1" "cs + hi \<le> p" for p
    using tgt [of "p - cs"] that by (auto simp: slot_positions_def slot_byte_def hi_def split: if_splits)
  show ?thesis
  proof (cases "lo < hi")
    case True
    have in_seg: "s \<le> cs + lo" "cs + hi \<le> t" "hi \<le> length chunk" using True by (auto simp: lo_def hi_def split: if_splits)
    define a where "a = cs + lo - base"
    have a: "base + a = cs + lo" "a + (hi - lo) \<le> n" using in_seg b True by (auto simp: a_def)
    have w: "copy_chunk s t base cs chunk out = Inr (pslice_assign a (a + (hi - lo)) (pslice lo hi chunk) out)"
    proof (cases "s \<le> cs \<and> cs + length chunk \<le> t")
      case whole: True
      then have l: "lo = 0" "hi = length chunk" by (auto simp: lo_def hi_def)
      have d: "int cs - int base = int a" using a(1) l by simp
      have "view_assign (int a) (int (a + length chunk)) chunk out = Inr (pslice_assign a (a + length chunk) chunk out)"
        using a(2) n l by (intro view_assign_ok) simp_all
      then show ?thesis using whole d by (simp add: copy_chunk_def Let_def pslice_def l)
    next
      case False
      have l: "max (int s - int cs) 0 = int lo" by (simp add: lo_def)
      have h: "min (int t - int cs) (int (length chunk)) = int hi" using True by (auto simp: hi_def split: if_splits)
      have d: "int cs + int lo - int base = int a" "int a + int hi - int lo = int (a + (hi - lo))" using a(1) True by simp_all
      have "view_assign (int a) (int (a + (hi - lo))) (pslice lo hi chunk) out = Inr (pslice_assign a (a + (hi - lo)) (pslice lo hi chunk) out)"
        using a(2) in_seg n by (intro view_assign_ok) (simp_all add: pslice_def)
      moreover have "copy_chunk s t base cs chunk out =
          view_assign (int cs + int lo - int base) (int cs + int lo - int base + int hi - int lo) (pslice lo hi chunk) out"
        unfolding copy_chunk_def Let_def l h nat_int using False True by (simp only: if_False if_True of_nat_less_iff)
      ultimately show ?thesis by (simp only: d)
    qed
    have "filled tgt base n (D \<union> slot_positions s t cs 1) (pslice_assign a (a + (hi - lo)) (pslice lo hi chunk) out)"
    proof (rule filled_assign [OF f])
      fix i assume i: "a \<le> i" "i < a + (hi - lo)"
      have p: "base + i = cs + (lo + (i - a))" using i a(1) by simp
      have r: "lo + (i - a) < hi" using i by simp
      show "pslice lo hi chunk ! (i - a) = tgt (base + i)"
        unfolding p using tgt [of "lo + (i - a)"] r in_seg len i by (simp add: pslice_def slot_byte_def)
      show "base + i \<in> slot_positions s t cs 1"
        unfolding p using r in_seg len by (simp add: slot_positions_def)
    next
      fix p assume "p \<in> slot_positions s t cs 1" "base \<le> p" "p < base + a \<or> base + (a + (hi - lo)) \<le> p"
      then show "tgt p = 0" using a(1) True zero [of p] by (auto simp: slot_positions_def lo_def split: if_splits)
    qed (use a in_seg in \<open>simp_all add: pslice_def\<close>)
    then show ?thesis using w by blast
  next
    case False
    have "filled tgt base n (D \<union> slot_positions s t cs 1) out"
    proof -
      have "tgt p = 0" if p: "p \<in> slot_positions s t cs 1" for p
      proof (rule zero [OF p])
        show "cs + hi \<le> p" using p False by (auto simp: slot_positions_def lo_def split: if_splits)
      qed
      then show ?thesis using f by (auto simp: filled_def)
    qed
    moreover have "copy_chunk s t base cs chunk out = Inr out"
    proof (cases "s \<le> cs \<and> cs + length chunk \<le> t")
      case True
      then have "cs < t \<or> chunk = []" by (cases chunk) simp_all
      then have c: "chunk = []" using True False unfolding lo_def hi_def by (auto split: if_splits)
      show ?thesis using True by (simp add: copy_chunk_def Let_def c view_assign_def)
    next
      case b: False
      then show ?thesis using False by (auto simp: copy_chunk_def Let_def lo_def hi_def split: if_splits)
    qed
    ultimately show ?thesis by blast
  qed
qed

subsection \<open>What a group writes\<close>

definition run_positions :: "bucket_group \<Rightarrow> nat \<times> nat \<times> nat \<Rightarrow> nat set" where
  "run_positions g r = (case r of (_, n, k) \<Rightarrow> slot_positions (bg_start g) (bg_end g) (bg_offset g + k * FIXED_CHUNK_LENGTH) n)"

definition group_positions :: "bucket_group \<Rightarrow> nat set" where
  "group_positions g = (\<Union>r \<in> set (bg_runs g). run_positions g r)"

definition group_addr :: "bucket_group \<Rightarrow> nat \<Rightarrow> chunk_address" where
  "group_addr g i = ChunkAddress (fst (bg_key g)) (snd (bg_key g)) i"

text \<open>Every slot of the group holds, within the segment, the bytes wanted there.\<close>

definition group_good :: "plaintext \<Rightarrow> (nat \<Rightarrow> byte) \<Rightarrow> bucket_group \<Rightarrow> bool" where
  "group_good pl tgt g \<longleftrightarrow> (\<forall>(idx, n, k) \<in> set (bg_runs g). \<forall>j < n. \<forall>r < FIXED_CHUNK_LENGTH.
     let p = bg_offset g + (k + j) * FIXED_CHUNK_LENGTH + r in
     bg_start g \<le> p \<and> p < bg_end g \<longrightarrow> tgt p = slot_byte (pl (group_addr g (idx + j))) r)"

definition run_indices :: "bucket_group \<Rightarrow> nat set" where
  "run_indices g = (\<Union>(idx, n, k) \<in> set (bg_runs g). {idx..<idx + n})"

lemma fold_res_upt_Suc: "fold_res f [0..<Suc j] s = bind_res (fold_res f [0..<j] s) (f j)"
proof -
  have "fold_res f [j] = f j" by (rule ext) (simp add: bind_res_def split: sum.split)
  then show ?thesis by (simp add: fold_res_append)
qed

lemma copy_run_filled:
  assumes f: "filled tgt base n D out" and b: "base \<le> bg_start g" "bg_end g \<le> base + n"
    and good: "group_good pl tgt g" and r: "r \<in> set (bg_runs g)"
    and m: "\<forall>i \<in> run_indices g. m i = Some (pl (group_addr g i)) \<and> length (pl (group_addr g i)) \<le> FIXED_CHUNK_LENGTH"
  shows "\<exists>out'. copy_run g m base r out = Inr out' \<and> filled tgt base n (D \<union> run_positions g r) out'"
proof -
  obtain idx c k where rr: "r = (idx, c, k)" by (cases r)
  let ?f = "\<lambda>j out. case m (idx + j) of None \<Rightarrow> Inl PyKeyError
    | Some chunk \<Rightarrow> copy_chunk (bg_start g) (bg_end g) base (bg_offset g + (k + j) * FIXED_CHUNK_LENGTH) chunk out"
  let ?P = "\<lambda>j. slot_positions (bg_start g) (bg_end g) (bg_offset g + k * FIXED_CHUNK_LENGTH) j"
  have "\<exists>out'. fold_res ?f [0..<j] out = Inr out' \<and> filled tgt base n (D \<union> ?P j) out'" if "j \<le> c" for j
    using that
  proof (induction j)
    case 0
    then show ?case using f by simp
  next
    case (Suc j)
    then obtain o1 where o1: "fold_res ?f [0..<j] out = Inr o1" "filled tgt base n (D \<union> ?P j) o1" by auto
    have "idx + j \<in> run_indices g" 
      unfolding run_indices_def using r rr Suc.prems by (intro UN_I [of r]) simp_all
    then have mj: "m (idx + j) = Some (pl (group_addr g (idx + j)))" "length (pl (group_addr g (idx + j))) \<le> FIXED_CHUNK_LENGTH"
      using m by blast+
    have tgt: "tgt (bg_offset g + (k + j) * FIXED_CHUNK_LENGTH + q) = slot_byte (pl (group_addr g (idx + j))) q"
      if "q < FIXED_CHUNK_LENGTH" "bg_start g \<le> bg_offset g + (k + j) * FIXED_CHUNK_LENGTH + q"
        "bg_offset g + (k + j) * FIXED_CHUNK_LENGTH + q < bg_end g" for q
      using bspec [OF good [unfolded group_good_def] r] Suc.prems that by (simp add: rr Let_def)
    obtain o2 where "?f j o1 = Inr o2"
      "filled tgt base n (D \<union> ?P j \<union> slot_positions (bg_start g) (bg_end g) (bg_offset g + (k + j) * FIXED_CHUNK_LENGTH) 1) o2"
      using copy_chunk_filled [OF o1(2) b mj(2) tgt] by (auto simp: mj(1))
    moreover have "D \<union> ?P j \<union> slot_positions (bg_start g) (bg_end g) (bg_offset g + (k + j) * FIXED_CHUNK_LENGTH) 1 = D \<union> ?P (Suc j)"
      unfolding slot_positions_Suc by (simp only: Un_assoc add.assoc add_mult_distrib)
    moreover have "fold_res ?f [0..<Suc j] out = bind_res (fold_res ?f [0..<j] out) (?f j)"
      by (simp only: fold_res_upt_Suc)
    ultimately show ?case using o1(1) by (auto simp del: upt_Suc)
  qed
  from this [of c] show ?thesis by (simp add: copy_run_def rr run_positions_def)
qed

lemma copy_group_filled:
  assumes f: "filled tgt base n D out" and b: "base \<le> bg_start g" "bg_end g \<le> base + n"
    and good: "group_good pl tgt g"
    and m: "\<forall>i \<in> run_indices g. m i = Some (pl (group_addr g i)) \<and> length (pl (group_addr g i)) \<le> FIXED_CHUNK_LENGTH"
  shows "\<exists>out'. copy_group g m base out = Inr out' \<and> filled tgt base n (D \<union> group_positions g) out'"
proof -
  have "\<exists>out'. fold_res (copy_run g m base) rs out = Inr out' \<and> filled tgt base n (D \<union> (\<Union>r \<in> set rs. run_positions g r)) out'"
    if "set rs \<subseteq> set (bg_runs g)" "filled tgt base n D out" for rs D out
    using that
  proof (induction rs arbitrary: D out)
    case (Cons r rs)
    obtain o1 where o1: "copy_run g m base r out = Inr o1" "filled tgt base n (D \<union> run_positions g r) o1"
      using copy_run_filled [OF Cons.prems(2) b good _ m, of r] Cons.prems(1) by auto
    show ?case using Cons.IH [OF _ o1(2)] Cons.prems(1) o1(1) by (simp add: Un_assoc)
  qed simp
  from this [OF order.refl f] show ?thesis by (simp add: copy_group_def group_positions_def)
qed

subsection \<open>The groups of an extent\<close>

definition dict_pairs :: "('k \<times> 'r list) list \<Rightarrow> ('k \<times> 'r) set" where
  "dict_pairs d = (\<Union>(k, rs) \<in> set d. {k} \<times> set rs)"

lemma dict_pairs_append: "dict_pairs (groups_append key r d) = insert (key, r) (dict_pairs d)"
proof (cases "map_of d key")
  case None
  then show ?thesis by (simp add: groups_append_def dict_pairs_def)
next
  case (Some rs)
  from groups_append_split [OF this, of r] obtain d1 d2 where
    "d = d1 @ (key, rs) # d2" "groups_append key r d = d1 @ (key, rs @ [r]) # d2" by blast
  then show ?thesis by (auto simp: dict_pairs_def)
qed

definition no_empty :: "('k \<times> 'r list) list \<Rightarrow> bool" where
  "no_empty d \<longleftrightarrow> (\<forall>(k, rs) \<in> set d. rs \<noteq> [])"

lemma no_empty_Nil [simp]: "no_empty []"
  by (simp add: no_empty_def)

lemma no_empty_append: "no_empty d \<Longrightarrow> no_empty (groups_append key r d)"
proof (cases "map_of d key")
  case None
  then show "no_empty d \<Longrightarrow> ?thesis" by (auto simp: groups_append_def no_empty_def)
next
  case (Some rs)
  from groups_append_split [OF this, of r] obtain d1 d2 where
    "d = d1 @ (key, rs) # d2" "groups_append key r d = d1 @ (key, rs @ [r]) # d2" by blast
  then show "no_empty d \<Longrightarrow> ?thesis" by (auto simp: no_empty_def)
qed

lemma dict_pairs_fold:
  "dict_pairs (fold (\<lambda>x. groups_append (f x) (h x)) xs d) = dict_pairs d \<union> (\<lambda>x. (f x, h x)) ` set xs"
  "no_empty d \<Longrightarrow> no_empty (fold (\<lambda>x. groups_append (f x) (h x)) xs d)"
  by (induction xs arbitrary: d) (auto simp: dict_pairs_append no_empty_append)

lemma runs_by_bucket_fold: "runs_by_bucket rs =
    fold (\<lambda>r. groups_append (addr_key (fst r)) (chunk_idx (fst r), snd r)) rs []"
proof -
  have "(\<lambda>(a, n :: nat, k :: nat). groups_append (stream_id a, bucket_id a) (chunk_idx a, n, k)) =
      (\<lambda>r. groups_append (addr_key (fst r)) (chunk_idx (fst r), snd r))"
    by (intro ext) (auto simp: addr_key_def)
  then show ?thesis by (simp only: runs_by_bucket_def)
qed

text \<open>What every group holds, whoever fetches it.\<close>

definition group_wf :: "bucket_group \<Rightarrow> bool" where
  "group_wf g \<longleftrightarrow> bg_runs g \<noteq> [] \<and> bg_ranges g = run_ranges (bg_runs g) \<and>
     (\<forall>(idx, n, k) \<in> set (bg_runs g). 0 < n \<and> idx + n \<le> BUCKET_MAX_CHUNK_NUM) \<and>
     (bg_single g \<longrightarrow> (\<exists>i. bg_ranges g = [(i, 1)]))"

lemma run_ranges_covered: "covered (run_ranges rs) = (\<Union>(idx, n, k) \<in> set rs. {idx..<idx + n})"
  unfolding run_ranges_def merge_ranges(2) by (simp add: covered_def case_prod_unfold)

lemma group_wf_indices: "group_wf g \<Longrightarrow> covered (bg_ranges g) = run_indices g"
  by (simp add: group_wf_def run_indices_def run_ranges_covered)

lemma chunk_position:
  assumes "(s - off) div FIXED_CHUNK_LENGTH \<le> k" and "k \<le> (t - 1 - off) div FIXED_CHUNK_LENGTH" and "off \<le> s" and "s < t"
  shows "max s (off + k * FIXED_CHUNK_LENGTH) \<in> {s..<t} \<and>
    (max s (off + k * FIXED_CHUNK_LENGTH) - off) div FIXED_CHUNK_LENGTH = k"
proof -
  let ?F = FIXED_CHUNK_LENGTH
  have F: "0 < ?F" by (simp add: FIXED_CHUNK_LENGTH_def)
  have "k * ?F \<le> t - 1 - off" using assms(2) F by (simp add: less_eq_div_iff_mult_less_eq)
  then have "off + k * ?F < t" using assms(3,4) by linarith
  moreover have "(max s (off + k * ?F) - off) div ?F = k"
  proof (cases "s \<le> off + k * ?F")
    case True
    then show ?thesis using F by (simp add: max_def)
  next
    case False
    then have "k \<le> (s - off) div ?F" using F by (simp add: less_eq_div_iff_mult_less_eq)
    then show ?thesis using False assms(1) by (simp add: max_def)
  qed
  ultimately show ?thesis using assms(4) by simp
qed

lemma bucket_groups_spec:
  assumes x: "x = DataExtent off len addr mnum rep" and wf: "ext_wf x" and seg: "off \<le> s" "s < t" "t \<le> off + len"
  shows "\<exists>gs. bucket_groups x s t = Inr gs \<and>
    (\<forall>g \<in> set gs. group_wf g \<and> bg_start g = s \<and> bg_end g = t \<and> group_good pl (ext_byte pl x) g \<and>
      group_addr g ` run_indices g \<subseteq> (\<lambda>p. chunk_at addr mnum ((p - off) div FIXED_CHUNK_LENGTH)) ` {s..<t}) \<and>
    (\<Union>g \<in> set gs. group_positions g) = {s..<t}"
proof -
  let ?F = FIXED_CHUNK_LENGTH
  have F: "0 < ?F" by (simp add: FIXED_CHUNK_LENGTH_def)
  have pos: "0 < mnum" using wf x by simp
  define fk where "fk = (s - off) div ?F"
  define lk where "lk = (t - 1 - off) div ?F"
  have bounds: "data_extent_k_bounds x s t = (fk, int lk)"
    using data_extent_k_bounds_spec [OF x seg] by (simp add: fk_def lk_def)
  from iter_chunk_runs_spec [OF pos, of addr fk "int lk"] obtain rs where rs: "iter_chunk_runs addr mnum fk (int lk) = (rs, None)"
    "concat (map run_chunks rs) = map (\<lambda>i. (chunk_at addr mnum i, i)) [fk..<nat (int lk + 1)]"
    "\<forall>(a, n, i) \<in> set rs. 0 < n \<and> chunk_idx a + n \<le> BUCKET_MAX_CHUNK_NUM \<and> n \<le> mnum \<and> stream_id a = stream_id addr \<and>
       fk \<le> i \<and> int (i + n) \<le> int lk + 1"
    by blast
  define d where "d = runs_by_bucket rs"
  define gs where "gs = map (group_of (length d) off s t) d"
  have eq: "bucket_groups x s t = Inr gs"
    using pos bounds [unfolded x] rs(1) by (simp add: bucket_groups_def x gs_def d_def Let_def)
  have pairs: "dict_pairs d = (\<lambda>r. (addr_key (fst r), chunk_idx (fst r), snd r)) ` set rs"
    by (simp add: d_def runs_by_bucket_fold dict_pairs_fold) (simp add: dict_pairs_def)
  have ne: "no_empty d" by (simp add: d_def runs_by_bucket_fold dict_pairs_fold(2))
  have run: "\<exists>a. (a, n, k) \<in> set rs \<and> key = addr_key a \<and> idx = chunk_idx a" if "(key, l) \<in> set d" "(idx, n, k) \<in> set l" for key l idx n k
  proof -
    have "(key, idx, n, k) \<in> dict_pairs d" using that by (auto simp: dict_pairs_def)
    then show ?thesis unfolding pairs by auto
  qed
  have chunk: "ChunkAddress (fst key) (snd key) (idx + j) = chunk_at addr mnum (k + j)" "k + j \<le> lk" "fk \<le> k + j"
    if kl: "(key, l) \<in> set d" "(idx, n, k) \<in> set l" and j: "j < n" for key l idx n k j
  proof -
    obtain a where a: "(a, n, k) \<in> set rs" "key = addr_key a" "idx = chunk_idx a" using run [OF kl] by blast
    have "(a\<lparr>chunk_idx := chunk_idx a + j\<rparr>, k + j) \<in> set (run_chunks (a, n, k))" using j by (simp add: run_chunks_def)
    then have "(a\<lparr>chunk_idx := chunk_idx a + j\<rparr>, k + j) \<in> set (concat (map run_chunks rs))" using a(1) by force
    then have "a\<lparr>chunk_idx := chunk_idx a + j\<rparr> = chunk_at addr mnum (k + j) \<and> fk \<le> k + j \<and> k + j < nat (int lk + 1)"
      unfolding rs(2) by auto
    moreover have "a\<lparr>chunk_idx := chunk_idx a + j\<rparr> = ChunkAddress (fst key) (snd key) (idx + j)"
      by (simp add: a(2,3) addr_key_def)
    ultimately show "ChunkAddress (fst key) (snd key) (idx + j) = chunk_at addr mnum (k + j)" "k + j \<le> lk" "fk \<le> k + j" by auto
  qed
  have each: "group_wf g \<and> bg_start g = s \<and> bg_end g = t \<and> group_good pl (ext_byte pl x) g \<and>
      group_addr g ` run_indices g \<subseteq> (\<lambda>p. chunk_at addr mnum ((p - off) div ?F)) ` {s..<t}" if g: "g \<in> set gs" for g
  proof -
    obtain key l where kl: "(key, l) \<in> set d" "g = group_of (length d) off s t (key, l)" using g by (auto simp: gs_def)
    have fields: "bg_key g = key" "bg_runs g = l" "bg_ranges g = run_ranges l" "bg_offset g = off" "bg_start g = s" "bg_end g = t"
      "bg_single g \<longleftrightarrow> length d = 1 \<and> length (run_ranges l) = 1 \<and> snd (hd (run_ranges l)) = 1"
      by (simp_all add: kl(2) group_of_def Let_def)
    have "l \<noteq> []" using ne kl(1) by (auto simp: no_empty_def)
    moreover have "\<forall>(idx, n, k) \<in> set l. 0 < n \<and> idx + n \<le> BUCKET_MAX_CHUNK_NUM"
      using run [OF kl(1)] rs(3) by fastforce
    moreover have "\<exists>i. run_ranges l = [(i, 1)]" if "length (run_ranges l) = 1" "snd (hd (run_ranges l)) = 1"
      using that by (cases "run_ranges l"; cases "hd (run_ranges l)") auto
    ultimately have "group_wf g" by (auto simp: group_wf_def fields)
    moreover have "group_good pl (ext_byte pl x) g"
      using chunk(1) [OF kl(1)] by (auto simp: group_good_def fields x chunk_byte_slot group_addr_def Let_def F)
    moreover have "group_addr g i \<in> (\<lambda>p. chunk_at addr mnum ((p - off) div ?F)) ` {s..<t}" if i: "i \<in> run_indices g" for i
    proof -
      obtain idx n k where r: "(idx, n, k) \<in> set l" "idx \<le> i" "i < idx + n" using i by (auto simp: run_indices_def fields)
      define j where "j = i - idx"
      have j: "j < n" "i = idx + j" using r by (auto simp: j_def)
      have c: "group_addr g i = chunk_at addr mnum (k + j)" "k + j \<le> lk" "fk \<le> k + j"
        using chunk [OF kl(1) r(1) j(1)] by (simp_all add: group_addr_def fields j(2))
      define p where "p = max s (off + (k + j) * ?F)"
      have "p \<in> {s..<t} \<and> (p - off) div ?F = k + j"
        using c(2,3) seg F unfolding p_def by (intro chunk_position) (simp_all add: fk_def lk_def)
      then show ?thesis using c(1) by (intro image_eqI [of _ _ p]) simp_all
    qed
    ultimately show ?thesis using fields(5,6) by blast
  qed
  have "p \<in> (\<Union>g \<in> set gs. group_positions g)" if p: "s \<le> p" "p < t" for p
  proof -
    define i where "i = (p - off) div ?F"
    have i: "fk \<le> i" "i \<le> lk" using p seg by (auto simp: i_def fk_def lk_def intro: div_le_mono)
    have pi: "off + i * ?F \<le> p" "p < off + i * ?F + ?F"
      using p seg dividend_less_div_times [OF F, of "p - off"] div_times_less_eq_dividend [of "p - off" ?F]
      unfolding i_def by linarith+
    have "(chunk_at addr mnum i, i) \<in> set (concat (map run_chunks rs))" unfolding rs(2) using i by auto
    then obtain a n k j where a: "(a, n, k) \<in> set rs" "j < n" "i = k + j" by (auto simp: run_chunks_def)
    then have "(addr_key a, chunk_idx a, n, k) \<in> dict_pairs d" unfolding pairs by force
    then obtain l where l: "(addr_key a, l) \<in> set d" "(chunk_idx a, n, k) \<in> set l" by (auto simp: dict_pairs_def)
    have q: "off + k * ?F \<le> p" "p < off + k * ?F + n * ?F"
    proof -
      have "Suc j * ?F \<le> n * ?F" using a(2) by (intro mult_right_mono) simp_all
      moreover have "i * ?F = k * ?F + j * ?F" unfolding a(3) by (rule add_mult_distrib)
      ultimately show "off + k * ?F \<le> p" "p < off + k * ?F + n * ?F" using pi by simp_all
    qed
    then have "p \<in> group_positions (group_of (length d) off s t (addr_key a, l))"
      unfolding group_positions_def using l(2) q p
      by (intro UN_I [of "(chunk_idx a, n, k)"]) (simp_all add: run_positions_def slot_positions_def group_of_def Let_def)
    then show ?thesis using l(1) by (auto simp: gs_def)
  qed
  moreover have "group_positions g \<subseteq> {s..<t}" if "g \<in> set gs" for g
    using each [OF that] by (auto simp: group_positions_def run_positions_def slot_positions_def)
  ultimately have cover: "(\<Union>g \<in> set gs. group_positions g) = {s..<t}" by fastforce
  show ?thesis using eq each cover by blast
qed

subsection \<open>The extents of a file\<close>

lemma entries_ordered_ends_sorted: "entries_ordered es \<Longrightarrow> ends_sorted es"
proof -
  assume o: "entries_ordered es"
  have "entry_end (es ! i) \<le> entry_end (es ! j)" if "i \<le> j" "j < length es" for i j
  proof (cases "i = j")
    case False
    then have "entry_end (es ! i) \<le> cm_file_offset (es ! j)"
      using o that by (simp add: entries_ordered_def sorted_wrt_iff_nth_less)
    then show ?thesis by (simp add: entry_end_def)
  qed simp
  then show ?thesis by (simp add: ends_sorted_def)
qed

lemma window_entries_stream:
  "takeWhile (before_end stop) (if start = 0 then es else dropWhile (\<lambda>e. entry_end e \<le> start) es) = window_entries start stop es"
proof -
  have "before_end stop = (\<lambda>e. case stop of None \<Rightarrow> True | Some x \<Rightarrow> cm_file_offset e < x)"
    by (rule ext) (auto simp: before_end_def split: option.split)
  then show ?thesis by (simp add: window_entries_def)
qed

lemma window_subset: "set (window_entries start stop es) \<subseteq> set es"
  by (auto simp: window_entries_def dest: set_takeWhileD set_dropWhileD split: if_splits)

lemma covers_unique:
  assumes "ext_ordered xs" and "x \<in> set xs" and "y \<in> set xs" and "ext_covers p x" and "ext_covers p y"
  shows "x = y"
proof -
  obtain i j where ij: "i < length xs" "xs ! i = x" "j < length xs" "xs ! j = y" using assms(2,3) by (auto simp: in_set_conv_nth)
  consider "i < j" | "j < i" | "i = j" by linarith
  then show ?thesis
  proof cases
    case 1
    then have "ext_end x \<le> ext_offset y" using assms(1) ij by (auto simp: ext_ordered_def sorted_wrt_iff_nth_less)
    then show ?thesis using assms(4,5) by (simp add: ext_covers_def)
  next
    case 2
    then have "ext_end y \<le> ext_offset x" using assms(1) ij by (auto simp: ext_ordered_def sorted_wrt_iff_nth_less)
    then show ?thesis using assms(4,5) by (simp add: ext_covers_def)
  qed (use ij in simp)
qed

text \<open>Every data extent is a mapped entry.\<close>

definition from_entry :: "chunk_map_entry list \<Rightarrow> extent \<Rightarrow> bool" where
  "from_entry es x \<longleftrightarrow> (\<forall>off len addr mnum rep. x = DataExtent off len addr mnum rep \<longrightarrow>
     (\<exists>e \<in> set es. cm_kind e = MAPPING \<and> cm_addr e = Some addr \<and> cm_file_offset e = off \<and> entry_length e = len \<and> cm_map_num e = mnum))"

lemma extents_loop_from: "\<forall>x \<in> set (fst (fst (extents_loop es c))). from_entry es x"
proof (induction es arbitrary: c)
  case (Cons e es)
  have mono: "from_entry es x \<Longrightarrow> from_entry (e # es) x" for x by (fastforce simp: from_entry_def)
  have kind: "cm_kind e \<noteq> ZERO \<Longrightarrow> cm_kind e = MAPPING" by (cases "cm_kind e") simp_all
  have "\<forall>x \<in> set (fst (entry_extents e c)). from_entry (e # es) x"
    using kind by (auto simp: entry_extents_def from_entry_def Let_def split: option.split if_splits)
  moreover have "\<forall>x \<in> set (fst (fst (extents_loop es c'))). from_entry (e # es) x" for c'
    using Cons.IH mono by blast
  ultimately show ?case
    by (auto simp: case_prod_unfold Let_def gen_append_def split: prod.split option.split)
qed simp

lemma extents_from: "\<forall>x \<in> set (fst (extents fsize (es, None) start stop)). from_entry es x"
  using extents_loop_from [of es start]
  by (auto simp: extents_def case_prod_unfold Let_def from_entry_def split: option.split if_splits)

subsection \<open>The pool as an interface\<close>

text \<open>
  What a read needs of the pool: in a good state, a well-formed group of available chunks is
  fetched with every chunk's plaintext, and the state stays good.
\<close>

locale chunk_source =
  fixes fetch :: "'s fetch" and inv :: "'s \<Rightarrow> bool" and pl :: plaintext and avail :: "chunk_address \<Rightarrow> bool"
  assumes fetch_ok: "\<lbrakk>inv s; group_wf g; \<forall>i \<in> run_indices g. avail (group_addr g i)\<rbrakk> \<Longrightarrow>
      \<exists>m s'. fetch g s = (Inr m, s') \<and> inv s' \<and> (\<forall>i \<in> run_indices g. m i = Some (pl (group_addr g i)))"
    and short: "avail a \<Longrightarrow> length (pl a) \<le> FIXED_CHUNK_LENGTH"
begin

definition group_ok :: "(nat \<Rightarrow> byte) \<Rightarrow> nat \<Rightarrow> nat \<Rightarrow> bucket_group \<Rightarrow> bool" where
  "group_ok tgt base n g \<longleftrightarrow> group_wf g \<and> base \<le> bg_start g \<and> bg_end g \<le> base + n \<and> group_good pl tgt g \<and>
     (\<forall>i \<in> run_indices g. avail (group_addr g i))"

lemma fill_bucket_ok:
  assumes "inv s" and "filled tgt base n D out" and "\<forall>g \<in> set gs. group_ok tgt base n g"
  shows "\<exists>out' s'. fill_bucket fetch base gs out s = (Inr out', s') \<and> inv s' \<and>
    filled tgt base n (D \<union> (\<Union>g \<in> set gs. group_positions g)) out'"
  using assms
proof (induction gs arbitrary: s D out)
  case (Cons g gs)
  have g: "group_wf g" "base \<le> bg_start g" "bg_end g \<le> base + n" "group_good pl tgt g" "\<forall>i \<in> run_indices g. avail (group_addr g i)"
    using Cons.prems(3) by (simp_all add: group_ok_def)
  obtain m s1 where m: "fetch g s = (Inr m, s1)" "inv s1" "\<forall>i \<in> run_indices g. m i = Some (pl (group_addr g i))"
    using fetch_ok [OF Cons.prems(1) g(1,5)] by blast
  have "\<forall>i \<in> run_indices g. m i = Some (pl (group_addr g i)) \<and> length (pl (group_addr g i)) \<le> FIXED_CHUNK_LENGTH"
    using m(3) g(5) short by blast
  from copy_group_filled [OF Cons.prems(2) g(2,3,4) this] obtain o1 where
    o1: "copy_group g m base out = Inr o1" "filled tgt base n (D \<union> group_positions g) o1" by blast
  from Cons.IH [OF m(2) o1(2)] Cons.prems(3) show ?case
    by (simp add: m(1) o1(1) op_bind_def Un_assoc)
qed simp

lemma fill_buckets_ok:
  assumes "inv s" and "filled tgt base n D out" and "\<forall>(k, gs) \<in> set d. \<forall>g \<in> set gs. group_ok tgt base n g"
  shows "\<exists>out' s'. fill_buckets fetch base d out s = (Inr out', s') \<and> inv s' \<and>
    filled tgt base n (D \<union> (\<Union>(k, gs) \<in> set d. \<Union>g \<in> set gs. group_positions g)) out'"
  using assms
proof (induction d arbitrary: s D out)
  case (Cons p d)
  obtain k gs where p: "p = (k, gs)" by (cases p)
  obtain o1 s1 where o1: "fill_bucket fetch base gs out s = (Inr o1, s1)" "inv s1"
    "filled tgt base n (D \<union> (\<Union>g \<in> set gs. group_positions g)) o1"
    using fill_bucket_ok [OF Cons.prems(1,2), of gs] Cons.prems(3) p by auto
  from Cons.IH [OF o1(2,3)] Cons.prems(3) show ?case
    by (simp add: p o1(1) op_bind_def Un_assoc)
qed simp

lemma fill_groups_ok:
  assumes "inv s" and "filled tgt base n D out" and "\<forall>g \<in> set gs. group_ok tgt base n g"
  shows "\<exists>out' s'. fill_groups fetch gs base out s = (Inr out', s') \<and> inv s' \<and>
    filled tgt base n (D \<union> (\<Union>g \<in> set gs. group_positions g)) out'"
proof -
  have pairs: "dict_pairs (by_bucket gs) = (\<lambda>g. (bg_key g, g)) ` set gs"
    by (simp add: by_bucket_def dict_pairs_fold) (simp add: dict_pairs_def)
  have "\<forall>(k, hs) \<in> set (by_bucket gs). \<forall>g \<in> set hs. group_ok tgt base n g"
  proof (intro ballI, clarify)
    fix k hs g assume "(k, hs) \<in> set (by_bucket gs)" "g \<in> set hs"
    then have "(k, g) \<in> dict_pairs (by_bucket gs)" by (auto simp: dict_pairs_def)
    then show "group_ok tgt base n g" using assms(3) unfolding pairs by auto
  qed
  from fill_buckets_ok [OF assms(1,2) this]
  have "\<exists>out' s'. fill_groups fetch gs base out s = (Inr out', s') \<and> inv s' \<and>
    filled tgt base n (D \<union> (\<Union>(k, gs) \<in> set (by_bucket gs). \<Union>g \<in> set gs. group_positions g)) out'"
    by (simp add: fill_groups_def)
  moreover have "(\<Union>(k, gs) \<in> set (by_bucket gs). \<Union>g \<in> set gs. group_positions g) = (\<Union>p \<in> dict_pairs (by_bucket gs). group_positions (snd p))"
    unfolding dict_pairs_def case_prod_unfold by fastforce
  ultimately show ?thesis unfolding pairs by simp
qed

text \<open>The chunks an extent needs inside a window are there.\<close>

definition ext_avail :: "nat \<Rightarrow> nat \<Rightarrow> extent \<Rightarrow> bool" where
  "ext_avail offset stop x \<longleftrightarrow> (\<forall>off len addr mnum rep p. x = DataExtent off len addr mnum rep \<and>
     offset \<le> p \<and> p < stop \<and> ext_covers p x \<longrightarrow> avail (chunk_at addr mnum ((p - off) div FIXED_CHUNK_LENGTH)))"

definition ext_good :: "(nat \<Rightarrow> byte) \<Rightarrow> nat \<Rightarrow> nat \<Rightarrow> extent \<Rightarrow> bool" where
  "ext_good tgt offset stop x \<longleftrightarrow> ext_wf x \<and> ext_avail offset stop x \<and>
     (\<forall>p. offset \<le> p \<and> p < stop \<and> ext_covers p x \<longrightarrow> tgt p = ext_byte pl x p)"

definition data_positions :: "nat \<Rightarrow> nat \<Rightarrow> extent \<Rightarrow> nat set" where
  "data_positions offset stop x = (if ext_kind x = DATA_EXT then {max (ext_offset x) offset..<min (ext_end x) stop} else {})"

lemma new_groups:
  assumes good: "ext_good tgt offset (offset + n) x" and kind: "ext_kind x = DATA_EXT"
    and seg: "max (ext_offset x) offset < min (ext_end x) (offset + n)"
  shows "\<exists>gs. bucket_groups x (max (ext_offset x) offset) (min (ext_end x) (offset + n)) = Inr gs \<and>
    (\<forall>g \<in> set gs. group_ok tgt offset n g) \<and> (\<Union>g \<in> set gs. group_positions g) = data_positions offset (offset + n) x"
proof -
  let ?s = "max (ext_offset x) offset" and ?t = "min (ext_end x) (offset + n)"
  obtain off len addr mnum rep where x: "x = DataExtent off len addr mnum rep"
    using good kind by (cases x) (auto simp: ext_good_def)
  have wf: "ext_wf x" using good by (simp add: ext_good_def)
  have b: "off \<le> ?s" "?t \<le> off + len" by (simp_all add: x ext_end_def)
  from bucket_groups_spec [OF x wf b(1) seg b(2)] obtain gs where gs: "bucket_groups x ?s ?t = Inr gs"
    "\<forall>g \<in> set gs. group_wf g \<and> bg_start g = ?s \<and> bg_end g = ?t \<and> group_good pl (ext_byte pl x) g \<and>
      group_addr g ` run_indices g \<subseteq> (\<lambda>p. chunk_at addr mnum ((p - off) div FIXED_CHUNK_LENGTH)) ` {?s..<?t}"
    "(\<Union>g \<in> set gs. group_positions g) = {?s..<?t}"
    by blast
  have cov: "ext_covers p x \<and> offset \<le> p \<and> p < offset + n" if "?s \<le> p" "p < ?t" for p
    using that by (simp add: ext_covers_def)
  have "group_ok tgt offset n g" if g: "g \<in> set gs" for g
  proof -
    have f: "group_wf g" "bg_start g = ?s" "bg_end g = ?t" "group_good pl (ext_byte pl x) g"
      "group_addr g ` run_indices g \<subseteq> (\<lambda>p. chunk_at addr mnum ((p - off) div FIXED_CHUNK_LENGTH)) ` {?s..<?t}"
      using gs(2) g by blast+
    have "tgt p = ext_byte pl x p" if "bg_start g \<le> p" "p < bg_end g" for p
      using good cov [of p] that f(2,3) by (simp add: ext_good_def)
    then have "group_good pl tgt g" using f(4) by (auto simp: group_good_def Let_def dest!: bspec)
    moreover have "avail (group_addr g i)" if "i \<in> run_indices g" for i
    proof -
      obtain p where p: "group_addr g i = chunk_at addr mnum ((p - off) div FIXED_CHUNK_LENGTH)" "?s \<le> p" "p < ?t"
        using f(5) \<open>i \<in> run_indices g\<close> by auto
      then show ?thesis using good cov [OF p(2,3)] x unfolding ext_good_def ext_avail_def p(1) by blast
    qed
    ultimately show ?thesis using f(1-3) by (simp add: group_ok_def)
  qed
  then show ?thesis using gs(1,3) kind by (simp add: data_positions_def)
qed

lemma read_extents_ok:
  assumes "inv s" and "filled tgt offset n D out" and "\<forall>g \<in> set groups. group_ok tgt offset n g"
    and "\<forall>x \<in> set xs. ext_good tgt offset (offset + n) x"
  shows "\<exists>gs out' s' D'. read_extents fetch offset (offset + n) xs groups planned out s = (Inr (gs, out'), s') \<and> inv s' \<and>
    filled tgt offset n D' out' \<and> (\<forall>g \<in> set gs. group_ok tgt offset n g) \<and>
    D' \<union> (\<Union>g \<in> set gs. group_positions g) =
      D \<union> (\<Union>g \<in> set groups. group_positions g) \<union> (\<Union>x \<in> set xs. data_positions offset (offset + n) x)"
  using assms
proof (induction xs arbitrary: s D out groups planned)
  case Nil
  then show ?case by (auto intro!: exI [of _ D])
next
  case (Cons x xs)
  let ?s = "max (ext_offset x) offset" and ?t = "min (ext_end x) (offset + n)"
  have xs: "\<forall>x \<in> set xs. ext_good tgt offset (offset + n) x" and x: "ext_good tgt offset (offset + n) x"
    using Cons.prems(4) by simp_all
  show ?case
  proof (cases "?s < ?t \<and> ext_kind x = DATA_EXT")
    case False
    then have "data_positions offset (offset + n) x = {}" by (auto simp: data_positions_def)
    then show ?thesis using Cons.IH [OF Cons.prems(1-3) xs, of planned] False by (auto simp: Let_def not_less)
  next
    case True
    then obtain new where new: "bucket_groups x ?s ?t = Inr new" "\<forall>g \<in> set new. group_ok tgt offset n g"
      "(\<Union>g \<in> set new. group_positions g) = data_positions offset (offset + n) x"
      using new_groups [OF x] by blast
    have gs: "\<forall>g \<in> set (groups @ new). group_ok tgt offset n g" using Cons.prems(3) new(2) by auto
    have un: "(\<Union>g \<in> set (groups @ new). group_positions g) =
        (\<Union>g \<in> set groups. group_positions g) \<union> data_positions offset (offset + n) x" using new(3) by auto
    have lt: "(?t \<le> ?s) = False" and kind: "ext_kind x = DATA_EXT"
      using True unfolding not_le [symmetric] by blast+
    let ?p = "planned + sum_list (map bg_chunks new)"
    show ?thesis
    proof (cases "READ_BATCH_CHUNKS \<le> ?p")
      case False
      then have "read_extents fetch offset (offset + n) (x # xs) groups planned out s =
          read_extents fetch offset (offset + n) xs (groups @ new) ?p out s"
        using kind new(1) by (simp add: Let_def op_bind_def lt)
      then show ?thesis using Cons.IH [OF Cons.prems(1,2) gs xs, of ?p] unfolding un by (simp add: Un_assoc)
    next
      case full: True
      obtain o1 s1 where o1: "fill_groups fetch (groups @ new) offset out s = (Inr o1, s1)" "inv s1"
        "filled tgt offset n (D \<union> (\<Union>g \<in> set (groups @ new). group_positions g)) o1"
        using fill_groups_ok [OF Cons.prems(1,2) gs] by blast
      have "read_extents fetch offset (offset + n) (x # xs) groups planned out s =
          read_extents fetch offset (offset + n) xs [] 0 o1 s1"
        using kind full new(1) o1(1) by (simp add: Let_def op_bind_def lt)
      then show ?thesis using Cons.IH [OF o1(2,3) _ xs, of "[]" 0] unfolding un by (simp add: Un_assoc)
    qed
  qed
qed

lemma read_range_ok:
  assumes "inv s" and good: "\<forall>x \<in> set xs. ext_good tgt offset (offset + n) x"
    and cover: "\<forall>p. offset \<le> p \<and> p < offset + n \<longrightarrow> (\<exists>x \<in> set xs. ext_covers p x)"
  shows "\<exists>s'. read_range fetch (xs, None) offset n s = (Inr (map tgt [offset..<offset + n]), s') \<and> inv s'"
proof -
  have start: "filled tgt offset n {} (replicate n 0)" by (simp add: filled_def)
  obtain gs o1 s1 D where 1: "read_extents fetch offset (offset + n) xs [] 0 (replicate n 0) s = (Inr (gs, o1), s1)" "inv s1"
    "filled tgt offset n D o1" "\<forall>g \<in> set gs. group_ok tgt offset n g"
    "D \<union> (\<Union>g \<in> set gs. group_positions g) = (\<Union>x \<in> set xs. data_positions offset (offset + n) x)"
    using read_extents_ok [OF assms(1) start, of "[]" xs 0] good by auto
  obtain o2 s2 where 2: "fill_groups fetch gs offset o1 s1 = (Inr o2, s2)" "inv s2"
    "filled tgt offset n (\<Union>x \<in> set xs. data_positions offset (offset + n) x) o2"
    using fill_groups_ok [OF 1(2-4)] unfolding 1(5) by blast
  have "o2 = map tgt [offset..<offset + n]"
  proof (rule nth_equalityI)
    show "length o2 = length (map tgt [offset..<offset + n])" using 2(3) by (simp add: filled_def)
    fix i assume "i < length o2"
    then have i: "i < n" using 2(3) by (simp add: filled_def)
    let ?p = "offset + i"
    obtain x where x: "x \<in> set xs" "ext_covers ?p x" using cover [rule_format, of ?p] i by auto
    have xg: "ext_wf x" "tgt ?p = ext_byte pl x ?p" using good x i by (auto simp: ext_good_def)
    have "tgt ?p = 0" if "?p \<notin> (\<Union>x \<in> set xs. data_positions offset (offset + n) x)"
    proof -
      have "?p \<notin> data_positions offset (offset + n) x" using that x(1) by blast
      then have "ext_kind x \<noteq> DATA_EXT" using x(2) i by (auto simp: data_positions_def ext_covers_def)
      then show ?thesis using xg(2) by (cases x) simp_all
    qed
    then show "o2 ! i = map tgt [offset..<offset + n] ! i" using 2(3) i by (auto simp: filled_def)
  qed
  then show ?thesis using 1(1) 2(1,2) by (simp add: read_range_def op_bind_def)
qed

text \<open>The chunks a window of the file needs.\<close>

definition window_avail :: "chunk_map_entry list \<Rightarrow> nat \<Rightarrow> nat \<Rightarrow> bool" where
  "window_avail es start stop \<longleftrightarrow> (\<forall>e \<in> set es. \<forall>p. start \<le> p \<and> p < stop \<and> entry_covers p e \<and> cm_kind e = MAPPING \<longrightarrow>
     avail (chunk_at (the (cm_addr e)) (cm_map_num e) ((p - cm_file_offset e) div FIXED_CHUNK_LENGTH)))"

lemma extents_good:
  assumes ord: "entries_ordered es" and av: "window_avail es start stop" and "start < stop"
  shows "\<exists>xs. extents fsize (window_entries start (Some stop) es, None) start (Some stop) = (xs, None) \<and>
    (\<forall>x \<in> set xs. ext_good (content pl es) start stop x) \<and>
    (\<forall>p. start \<le> p \<and> p < stop \<longrightarrow> (\<exists>x \<in> set xs. ext_covers p x))"
proof -
  let ?ws = "window_entries start (Some stop) es"
  have ends: "\<forall>e \<in> set ?ws. entry_length e \<noteq> 0 \<longrightarrow> start < entry_end e" using window_ends [OF ord] by blast
  obtain xs where xs: "extents fsize (?ws, None) start (Some stop) = (xs, None)" "ext_ordered xs"
    "\<forall>x \<in> set xs. ext_wf x \<and> start < ext_end x"
    "\<forall>pos. start \<le> pos \<and> pos < stop \<longrightarrow> (\<exists>x \<in> set xs. ext_covers pos x \<and> ext_byte pl x pos = content pl ?ws pos)"
    using extents_spec [OF window_ordered [OF ord] ends, where end_opt = "Some stop" and fsize = fsize and stop = stop and pl = pl] by auto
  have "ext_good (content pl es) start stop x" if x: "x \<in> set xs" for x
  proof -
    have "content pl es p = ext_byte pl x p" if p: "start \<le> p" "p < stop" "ext_covers p x" for p
    proof -
      obtain y where y: "y \<in> set xs" "ext_covers p y" "ext_byte pl y p = content pl ?ws p" using xs(4) p by blast
      have "y = x" by (rule covers_unique [OF xs(2) y(1) x y(2) p(3)])
      then show ?thesis using y(3) content_window [OF ord p(1), of "Some stop" pl] p(2) by simp
    qed
    moreover have "ext_avail start stop x"
      unfolding ext_avail_def
    proof (intro allI impI)
      fix off len addr mnum rep p
      assume a: "x = DataExtent off len addr mnum rep \<and> start \<le> p \<and> p < stop \<and> ext_covers p x"
      have "from_entry ?ws x" using extents_from [of fsize ?ws start "Some stop"] x xs(1) by simp
      then obtain e where e: "e \<in> set ?ws" "cm_kind e = MAPPING" "cm_addr e = Some addr" "cm_file_offset e = off"
        "entry_length e = len" "cm_map_num e = mnum"
        using a unfolding from_entry_def by blast
      have "e \<in> set es" using e(1) window_subset by blast
      moreover have "entry_covers p e" using a e by (auto simp: ext_covers_def ext_end_def entry_covers_def entry_end_def)
      ultimately show "avail (chunk_at addr mnum ((p - off) div FIXED_CHUNK_LENGTH))"
        using av a e unfolding window_avail_def by fastforce
    qed
    ultimately show ?thesis using xs(3) x by (simp add: ext_good_def)
  qed
  then show ?thesis using xs(1,4) by blast
qed

definition file_ok :: "reader \<Rightarrow> crec res \<Rightarrow> bytes \<Rightarrow> chunk_map_entry list \<Rightarrow> 's dedup_file \<Rightarrow> bool" where
  "file_ok rd_at open_record arr es f \<longleftrightarrow> inv (df_pool f) \<and>
     (case df_record f of
        Some r \<Rightarrow> crec_ok rd_at arr es r
      | None \<Rightarrow> (\<exists>r. open_record = Inr r \<and> crec_ok rd_at arr es r))"

lemma file_extents_ok:
  assumes ok: "file_ok rd_at open_record arr es f" and ord: "entries_ordered es"
  shows "\<exists>r. file_extents rd_at open_record start stop f =
      (extents (df_size f) (window_entries start stop es, None) start stop, f\<lparr>df_record := Some r\<rparr>) \<and> crec_ok rd_at arr es r"
proof -
  obtain r where r: "cached_record open_record f = (Inr r, f\<lparr>df_record := Some r\<rparr>)" "crec_ok rd_at arr es r"
    using ok by (cases "df_record f") (auto simp: file_ok_def cached_record_def)
  obtain r' where r': "entries rd_at start stop r = ((window_entries start stop es, None), r')" "crec_ok rd_at arr es r'"
    using entries_ok [OF r(2) entries_ordered_ends_sorted [OF ord], of start stop]
    unfolding drop_first_idx window_entries_stream by blast
  then show ?thesis using r(1) by (auto simp: file_extents_def)
qed

lemma dedup_read_ok:
  assumes ok: "file_ok rd_at open_record arr es f" and ord: "entries_ordered es"
    and n: "resolve_read (df_size f) offset len = Inr n"
    and av: "window_avail es (nat offset) (nat offset + n)"
  shows "\<exists>f'. dedup_read rd_at open_record fetch offset len f = (Inr (map (content pl es) [nat offset..<nat offset + n]), f') \<and>
    file_ok rd_at open_record arr es f' \<and> df_size f' = df_size f"
proof (cases "n = 0")
  case True
  then show ?thesis using n ok by (simp add: dedup_read_def)
next
  case False
  let ?a = "nat offset"
  obtain r where r: "file_extents rd_at open_record ?a (Some (?a + n)) f =
      (extents (df_size f) (window_entries ?a (Some (?a + n)) es, None) ?a (Some (?a + n)), f\<lparr>df_record := Some r\<rparr>)"
    "crec_ok rd_at arr es r"
    using file_extents_ok [OF ok ord] by blast
  obtain xs where xs: "extents (df_size f) (window_entries ?a (Some (?a + n)) es, None) ?a (Some (?a + n)) = (xs, None)"
    "\<forall>x \<in> set xs. ext_good (content pl es) ?a (?a + n) x" "\<forall>p. ?a \<le> p \<and> p < ?a + n \<longrightarrow> (\<exists>x \<in> set xs. ext_covers p x)"
    using extents_good [OF ord av, of "df_size f"] False by auto
  have "inv (df_pool f)" using ok by (simp add: file_ok_def)
  then obtain s where s: "read_range fetch (xs, None) ?a n (df_pool f) = (Inr (map (content pl es) [?a..<?a + n]), s)" "inv s"
    using read_range_ok xs(2,3) by blast
  show ?thesis using n False r s xs(1) by (simp add: dedup_read_def file_ok_def)
qed

lemma view_read_ok:
  assumes ok: "file_ok rd_at open_record arr es f" and ord: "entries_ordered es"
    and args: "0 \<le> offset" "case len of None \<Rightarrow> True | Some k \<Rightarrow> 0 \<le> k"
    and n: "n = nat (clamp_read_length offset len vlen)" "n \<le> MAX_SINGLE_READ_SIZE"
    and inside: "case df_size f of None \<Rightarrow> True | Some z \<Rightarrow> voff + vlen \<le> z"
    and av: "window_avail es (voff + nat offset) (voff + nat offset + n)"
  shows "\<exists>f'. view_read rd_at open_record fetch voff vlen offset len f =
      (Inr (map (content pl es) [voff + nat offset..<voff + nat offset + n]), f') \<and>
    file_ok rd_at open_record arr es f' \<and> df_size f' = df_size f"
proof -
  let ?c = "clamp_read_length offset len vlen"
  have c: "0 \<le> ?c" "?c = int n" "0 < ?c \<Longrightarrow> offset + ?c \<le> int vlen"
    using n(1) by (auto simp: clamp_read_length_def Let_def split: option.splits)
  have off: "nat (int voff + offset) = voff + nat offset" using args(1) by simp
  have "resolve_read (df_size f) (int voff + offset) (Some ?c) = Inr n"
    using args(1) c n(2) inside
    by (cases "n = 0"; cases "df_size f")
      (auto simp: resolve_read_def clamp_read_length_def [of "int voff + offset"] Let_def min_def)
  from dedup_read_ok [OF ok ord this] av
  have "\<exists>f'. dedup_read rd_at open_record fetch (int voff + offset) (Some ?c) f =
      (Inr (map (content pl es) [voff + nat offset..<voff + nat offset + n]), f') \<and>
    file_ok rd_at open_record arr es f' \<and> df_size f' = df_size f"
    unfolding off by blast
  moreover have "validate_read_args offset len = Inr ()"
    using args by (auto simp: validate_read_args_def require_def split: option.splits)
  ultimately show ?thesis by (simp add: view_read_def op_bind_def)
qed

end

text \<open>
  \<open>read_blocks\<close> over a source that reads its content exactly: it ends, and its blocks are the
  range in order.
\<close>

lemma read_blocks_ok:
  assumes rd: "\<And>s a n. ok s \<Longrightarrow> 0 < n \<Longrightarrow> n \<le> block \<Longrightarrow> a + n \<le> stop \<Longrightarrow>
      \<exists>s'. rd (int a) (Some (int n)) s = (Inr (map c [a..<a + n]), s') \<and> ok s'"
    and "0 < block" and "ok s"
  shows "\<exists>bs s'. read_blocks rd start stop block offset s = Some ((bs, None), s') \<and> ok s' \<and>
    concat (map snd bs) = map c [start + offset..<stop] \<and> (\<forall>b \<in> set bs. snd b \<noteq> [] \<and> length (snd b) \<le> block \<and>
      snd b = map c [start + fst b..<start + fst b + length (snd b)])"
  using assms(3)
proof (induction "stop - start - offset" arbitrary: offset s rule: less_induct)
  case less
  show ?case
  proof (cases "stop \<le> start + offset")
    case True
    then show ?thesis using less.prems by (simp add: read_blocks.simps)
  next
    case False
    define n where "n = min block (stop - start - offset)"
    have n: "0 < n" "n \<le> block" "start + offset + n \<le> stop" using False assms(2) by (auto simp: n_def)
    have nn: "min block (stop - (start + offset)) = n" by (simp add: n_def)
    obtain s1 where s1: "rd (int (start + offset)) (Some (int n)) s = (Inr (map c [start + offset..<start + offset + n]), s1)" "ok s1"
      using rd [OF less.prems n] by blast
    have "stop - start - (offset + n) < stop - start - offset" using n by linarith
    from less.hyps [OF this s1(2)] obtain bs s2 where 2: "read_blocks rd start stop block (offset + n) s1 = Some ((bs, None), s2)"
      "ok s2" "concat (map snd bs) = map c [start + (offset + n)..<stop]"
      "\<forall>b \<in> set bs. snd b \<noteq> [] \<and> length (snd b) \<le> block \<and> snd b = map c [start + fst b..<start + fst b + length (snd b)]"
      by blast
    have "read_blocks rd start stop block offset s =
        Some (((offset, map c [start + offset..<start + offset + n]) # bs, None), s2)"
      using False assms(2) s1(1) 2(1) nn
      by (subst read_blocks.simps) (simp add: Let_def)
    moreover have "[start + offset..<stop] = [start + offset..<start + offset + n] @ [start + (offset + n)..<stop]"
      using n(3) upt_add_eq_append [of "start + offset" "start + offset + n" "stop - (start + offset + n)"] by (simp add: add.assoc)
    ultimately show ?thesis using 2(2-4) n by auto
  qed
qed

end
