(* ===== verification/Crypto.thy ===== *)
theory Crypto
  imports Addressing Headers Text
begin

text \<open>
  \<open>sdk/format/crypto.py\<close>: chunk decryption, the key string, the wrapped vault key, the
  \<open>aHlT\<close> envelope and the version column. The ciphers and MD5 are the libraries'; they are
  the fields of \<open>crypto\<close>.
\<close>

definition AES_KEY_SIZE :: nat where [const_defs]: "AES_KEY_SIZE = 32"
definition AES_GCM_NONCE_SIZE :: nat where [const_defs]: "AES_GCM_NONCE_SIZE = 12"
definition AES_GCM_TAG_SIZE :: nat where [const_defs]: "AES_GCM_TAG_SIZE = 16"
definition USER_KEY_ID_LENGTH :: nat where [const_defs]: "USER_KEY_ID_LENGTH = 12"
definition NO_ENCRYPTION_USER_KEY_ID :: string where "NO_ENCRYPTION_USER_KEY_ID = ''NoEncryption''"
definition OFF_AHLT_IV :: nat where [const_defs]: "OFF_AHLT_IV = 8"
definition AHLT_IV_LEN :: nat where [const_defs]: "AHLT_IV_LEN = 16"

text \<open>
  AES-256-CTR of a key, an initial counter block and the data (the same function encrypts and
  decrypts); AES-256-GCM opening, \<open>None\<close> when the tag does not match; MD5 and SHA-256.
\<close>

record crypto =
  aes_ctr :: "bytes \<Rightarrow> bytes \<Rightarrow> bytes \<Rightarrow> bytes"
  gcm_open :: "bytes \<Rightarrow> bytes \<Rightarrow> bytes \<Rightarrow> bytes option"
  md5 :: "bytes \<Rightarrow> bytes"
  sha256 :: "bytes \<Rightarrow> bytes"

text \<open>The documented behaviour of counter mode: it keeps the length and undoes itself.\<close>

definition ctr_stream :: "crypto \<Rightarrow> bool" where
  "ctr_stream c \<longleftrightarrow> (\<forall>k iv x. length (aes_ctr c k iv x) = length x \<and> aes_ctr c k iv (aes_ctr c k iv x) = x)"

subsection \<open>Chunks\<close>

definition pack_iv :: "nat \<Rightarrow> bytes res" where
  "pack_iv address = (if address < 2 ^ 64 then Inr (be_bytes 8 address @ be_bytes 8 address) else Inl PyStructError)"

definition chunk_iv :: "chunk_address \<Rightarrow> bytes res" where
  "chunk_iv addr = pack_iv (addr_to_int addr)"

text \<open>A key schedule is the key it was built from.\<close>

definition build_aes_algorithm :: "bytes \<Rightarrow> bytes res" where
  "build_aes_algorithm vault_key = bind_res (require (length vault_key = AES_KEY_SIZE) KeyMaterialError) (\<lambda>_. Inr vault_key)"

definition aes_ctr_decrypt :: "crypto \<Rightarrow> bytes \<Rightarrow> bytes \<Rightarrow> bytes \<Rightarrow> bytes option \<Rightarrow> bytes" where
  "aes_ctr_decrypt c vault_key iv ciphertext algorithm =
     aes_ctr c (case algorithm of None \<Rightarrow> vault_key | Some k \<Rightarrow> k) iv ciphertext"

definition decrypt_chunk :: "crypto \<Rightarrow> bytes \<Rightarrow> chunk_address \<Rightarrow> bytes \<Rightarrow> bytes option \<Rightarrow> bytes res" where
  "decrypt_chunk c vault_key addr ciphertext algorithm =
     bind_res (chunk_iv addr) (\<lambda>iv.
     bind_res (require (\<not> (algorithm = None \<and> length vault_key \<noteq> AES_KEY_SIZE)) KeyMaterialError) (\<lambda>_.
       Inr (aes_ctr_decrypt c vault_key iv ciphertext algorithm)))"

text \<open>\<open>ChunkDecryptor\<close>: its context is the key; every call sets the counter block anew.\<close>

definition chunk_decryptor :: "bytes \<Rightarrow> bytes option \<Rightarrow> bytes res" where
  "chunk_decryptor vault_key algorithm = (case algorithm of Some k \<Rightarrow> Inr k | None \<Rightarrow> build_aes_algorithm vault_key)"

definition decryptor_decrypt :: "crypto \<Rightarrow> bytes \<Rightarrow> nat \<Rightarrow> bytes \<Rightarrow> bytes res" where
  "decryptor_decrypt c ctx address ciphertext = bind_res (pack_iv address) (\<lambda>iv. Inr (aes_ctr c ctx iv ciphertext))"

subsection \<open>Base64\<close>

text \<open>
  \<open>base64.b64decode(s, validate=True)\<close>: groups of four characters of the alphabet, the last
  one padded with \<open>=\<close>; anything else is a \<open>binascii.Error\<close> (a non-ASCII string a
  \<open>ValueError\<close>).
\<close>

definition B64_ALPHABET :: string where
  "B64_ALPHABET = ''ABCDEFGHIJKLMNOPQRSTUVWXYZabcdefghijklmnopqrstuvwxyz0123456789+/''"

definition b64_val :: "char \<Rightarrow> nat option" where
  "b64_val ch = map_of (zip B64_ALPHABET [0..<64]) ch"

definition b64_byte :: "nat \<Rightarrow> byte" where
  "b64_byte n = word_of_nat (n mod 256)"

fun b64_groups :: "string \<Rightarrow> bytes option" where
  "b64_groups [] = Some []"
| "b64_groups (p # q # r # s # rest) =
     (case (b64_val p, b64_val q) of
        (Some a, Some b) \<Rightarrow>
          if r = CHR ''='' then (if s = CHR ''='' \<and> rest = [] then Some [b64_byte (a * 4 + b div 16)] else None)
          else (case b64_val r of
              None \<Rightarrow> None
            | Some c \<Rightarrow>
                if s = CHR ''='' then
                  (if rest = [] then Some [b64_byte (a * 4 + b div 16), b64_byte (b mod 16 * 16 + c div 4)] else None)
                else (case (b64_val s, b64_groups rest) of
                    (Some d, Some ys) \<Rightarrow>
                      Some ([b64_byte (a * 4 + b div 16), b64_byte (b mod 16 * 16 + c div 4), b64_byte (c mod 4 * 64 + d)] @ ys)
                  | _ \<Rightarrow> None))
      | _ \<Rightarrow> None)"
| "b64_groups _ = None"

definition is_ascii :: "string \<Rightarrow> bool" where
  "is_ascii s \<longleftrightarrow> (\<forall>ch \<in> set s. of_char ch < (128 :: nat))"

definition b64decode :: "string \<Rightarrow> bytes res" where
  "b64decode s =
     (if \<not> is_ascii s then Inl PyValueError
      else case b64_groups s of None \<Rightarrow> Inl PyBinasciiError | Some bs \<Rightarrow> Inr bs)"

subsection \<open>Keys\<close>

text \<open>\<open>parse_key_string\<close>; the split is at the last \<open>@\<close>.\<close>

definition parse_key_string :: "string \<Rightarrow> (string \<times> bytes) res" where
  "parse_key_string key_string =
     bind_res (require (CHR ''@'' \<in> set key_string) KeyMaterialError) (\<lambda>_.
     let (user_key_id, b64_user_key) = str_rpartition (CHR ''@'') key_string in
     bind_res (require (length user_key_id = USER_KEY_ID_LENGTH) KeyMaterialError) (\<lambda>_.
     bind_res (require (is_ascii user_key_id) KeyMaterialError) (\<lambda>_.
     bind_res (require (CHR ''/'' \<notin> set user_key_id \<and> CHR 0x5C \<notin> set user_key_id) KeyMaterialError) (\<lambda>_.
       case b64decode b64_user_key of
         Inl e \<Rightarrow> if isinstance e PyValueError \<or> isinstance e PyBinasciiError then Inl KeyMaterialError else Inl e
       | Inr user_key \<Rightarrow>
           bind_res (require (length user_key = AES_KEY_SIZE) KeyMaterialError) (\<lambda>_. Inr (user_key_id, user_key))))))"

definition unwrap_vault_key :: "crypto \<Rightarrow> string \<Rightarrow> bytes \<Rightarrow> bytes \<Rightarrow> bytes res" where
  "unwrap_vault_key c user_key_id user_key wrapped =
     bind_res (require (length user_key = AES_KEY_SIZE) KeyMaterialError) (\<lambda>_.
     bind_res (require (length user_key_id = USER_KEY_ID_LENGTH) KeyMaterialError) (\<lambda>_.
     bind_res (require (is_ascii user_key_id) KeyMaterialError) (\<lambda>_.
     bind_res (require (length wrapped = AES_KEY_SIZE + AES_GCM_TAG_SIZE) KeyMaterialError) (\<lambda>_.
       case gcm_open c user_key (take AES_GCM_NONCE_SIZE (ascii user_key_id)) wrapped of
         None \<Rightarrow> Inl KeyMismatchError
       | Some vault_key \<Rightarrow> Inr vault_key))))"

subsection \<open>Envelopes\<close>

definition is_ahlt :: "bytes \<Rightarrow> bool" where
  "is_ahlt head \<longleftrightarrow> take 4 head = MAGIC_ahlt"

definition ahlt_decrypt :: "crypto \<Rightarrow> bytes \<Rightarrow> bytes \<Rightarrow> bytes res" where
  "ahlt_decrypt c data vault_key =
     bind_res (parse_index_header data MAGIC_ahlt None) (\<lambda>_.
       let iv = pslice OFF_AHLT_IV (OFF_AHLT_IV + AHLT_IV_LEN) data in
       Inr (aes_ctr_decrypt c vault_key iv (drop HEADER_LEN data) None))"

text \<open>\<open>hexdigest()\<close>: two lower-case digits per byte.\<close>

definition hex_char :: "nat \<Rightarrow> char" where
  "hex_char n = ''0123456789abcdef'' ! n"

definition hexdigest :: "bytes \<Rightarrow> string" where
  "hexdigest bs = concat (map (\<lambda>b. [hex_char (unat b div 16), hex_char (unat b mod 16)]) bs)"

text \<open>The version id as its UTF-8 bytes.\<close>

definition version_spec_iv :: "crypto \<Rightarrow> bytes \<Rightarrow> bytes" where
  "version_spec_iv c version_uid = ascii (take 16 (hexdigest (md5 c version_uid)))"

definition decrypt_version_spec :: "crypto \<Rightarrow> (bytes \<Rightarrow> string res) \<Rightarrow> string \<Rightarrow> bytes \<Rightarrow> bytes \<Rightarrow> string res" where
  "decrypt_version_spec c decode_utf8 ciphertext_b64 version_uid vault_key =
     bind_res (require (length vault_key = AES_KEY_SIZE) KeyMaterialError) (\<lambda>_.
     bind_res (b64decode ciphertext_b64) (\<lambda>ciphertext.
       decode_utf8 (aes_ctr_decrypt c vault_key (version_spec_iv c version_uid) ciphertext None)))"

subsection \<open>Chunk keystreams\<close>

lemma be_bytes_inject: "a < 256 ^ len \<Longrightarrow> b < 256 ^ len \<Longrightarrow> be_bytes len a = be_bytes len b \<longleftrightarrow> a = b"
  by (metis be_nat_be_bytes_id)

text \<open>A decryptor used for many chunks decrypts each as \<open>decrypt_chunk\<close> would.\<close>

lemma decryptor_is_decrypt_chunk:
  assumes "chunk_decryptor vault_key algorithm = Inr ctx"
  shows "decryptor_decrypt c ctx (addr_to_int addr) raw = decrypt_chunk c vault_key addr raw algorithm"
  using assms
  by (cases algorithm; cases "pack_iv (addr_to_int addr)")
    (auto simp: chunk_decryptor_def decryptor_decrypt_def decrypt_chunk_def chunk_iv_def build_aes_algorithm_def
      aes_ctr_decrypt_def split: if_splits)

text \<open>The batch's address arithmetic: chunk 0's packed address with the index ORed in.\<close>

lemma bucket_address_or:
  "addr_to_int (ChunkAddress (stream_id a) (bucket_id a) 0) OR chunk_idx a = addr_to_int a"
  by (simp add: addr_to_int_def)

text \<open>C31.
  No two chunks share a keystream: chunk addresses within their field widths have a 16-byte
  initial counter block each, and two of them have the same one only when they are the same
  address; and the batch decryptor, given a chunk's packed address, computes exactly what the
  single-chunk call computes with that chunk's own block.
\<close>

theorem chunk_ivs_distinct:
  assumes "addr_fits a" and "addr_fits b"
  shows "\<exists>iv. chunk_iv a = Inr iv \<and> length iv = 16 \<and> (chunk_iv b = Inr iv \<longleftrightarrow> a = b) \<and>
    (chunk_decryptor vault_key algorithm = Inr ctx \<longrightarrow>
       decryptor_decrypt c ctx (addr_to_int (ChunkAddress (stream_id a) (bucket_id a) 0) OR chunk_idx a) raw =
         decrypt_chunk c vault_key a raw algorithm)"
proof -
  have l: "addr_to_int a < 2 ^ 64" "addr_to_int b < 2 ^ 64" using assms addr_to_int_less by blast+
  have "be_bytes 8 (addr_to_int b) = be_bytes 8 (addr_to_int a) \<longleftrightarrow> addr_to_int b = addr_to_int a"
    using l by (intro be_bytes_inject) simp_all
  moreover have iv: "chunk_iv a = Inr (be_bytes 8 (addr_to_int a) @ be_bytes 8 (addr_to_int a))"
      "chunk_iv b = Inr (be_bytes 8 (addr_to_int b) @ be_bytes 8 (addr_to_int b))"
    unfolding chunk_iv_def pack_iv_def using l by (simp_all only: if_True)
  ultimately have same: "chunk_iv b = chunk_iv a \<longleftrightarrow> a = b"
    using addr_to_int_inject [OF assms] by (metis append_eq_append_conv length_be_bytes sum.inject(2))
  have batch: "chunk_decryptor vault_key algorithm = Inr ctx \<Longrightarrow>
      decryptor_decrypt c ctx (addr_to_int (ChunkAddress (stream_id a) (bucket_id a) 0) OR chunk_idx a) raw =
        decrypt_chunk c vault_key a raw algorithm"
    using decryptor_is_decrypt_chunk [of vault_key algorithm ctx c a raw] by (simp add: bucket_address_or)
  show ?thesis
    using same batch unfolding iv by (intro exI [of _ "be_bytes 8 (addr_to_int a) @ be_bytes 8 (addr_to_int a)"]) simp
qed

text \<open>A stream whose keystream is zero, and tags that always match.\<close>

definition null_crypto :: crypto where
  "null_crypto = \<lparr>aes_ctr = (\<lambda>k iv x. x), gcm_open = (\<lambda>k n w. Some (take 32 w)), md5 = (\<lambda>x. replicate 16 0),
     sha256 = (\<lambda>x. replicate 32 0)\<rparr>"

theorem chunk_ivs_distinct_witness:
  "(\<exists>iv. chunk_iv (ChunkAddress 1 5 9) = Inr iv \<and> length iv = 16 \<and>
      (chunk_iv (ChunkAddress 1 5 10) = Inr iv \<longleftrightarrow> ChunkAddress 1 5 9 = ChunkAddress 1 5 10)) \<and>
    decryptor_decrypt null_crypto (replicate 32 0) (addr_to_int (ChunkAddress 1 5 0) OR 9) [1, 2] =
      decrypt_chunk null_crypto (replicate 32 0) (ChunkAddress 1 5 9) [1, 2] None"
proof -
  have "chunk_decryptor (replicate 32 0) None = Inr (replicate 32 0)"
    by (simp add: chunk_decryptor_def build_aes_algorithm_def AES_KEY_SIZE_def)
  then show ?thesis
    using chunk_ivs_distinct [of "ChunkAddress 1 5 9" "ChunkAddress 1 5 10" "replicate 32 0" None "replicate 32 0" null_crypto "[1, 2]"]
    by (auto simp: addr_fits_def)
qed

subsection \<open>Key strings\<close>

text \<open>The standard encoder, for stating what the decoder gives back.\<close>

definition b64_char :: "nat \<Rightarrow> char" where
  "b64_char n = B64_ALPHABET ! n"

fun b64encode :: "bytes \<Rightarrow> string" where
  "b64encode [] = []"
| "b64encode [x] = [b64_char (unat x div 4), b64_char (unat x mod 4 * 16), CHR ''='', CHR ''='']"
| "b64encode [x, y] =
     [b64_char (unat x div 4), b64_char (unat x mod 4 * 16 + unat y div 16), b64_char (unat y mod 16 * 4), CHR ''='']"
| "b64encode (x # y # z # rest) =
     [b64_char (unat x div 4), b64_char (unat x mod 4 * 16 + unat y div 16), b64_char (unat y mod 16 * 4 + unat z div 64),
      b64_char (unat z mod 64)] @ b64encode rest"

lemma b64_val_char: "n < 64 \<Longrightarrow> b64_val (b64_char n) = Some n"
proof -
  assume n: "n < 64"
  have "map_of (zip B64_ALPHABET [0..<64]) (B64_ALPHABET ! n) = Some ([0..<64] ! n)"
    using n by (intro map_of_zip_nth) (simp_all add: B64_ALPHABET_def)
  then show ?thesis using n by (simp add: b64_val_def b64_char_def)
qed

lemma b64_char_set: "n < 64 \<Longrightarrow> b64_char n \<in> set B64_ALPHABET"
  unfolding b64_char_def by (rule nth_mem) (simp add: B64_ALPHABET_def)

lemma b64_char_not:
  assumes "n < 64"
  shows "b64_char n \<noteq> CHR ''=''" "b64_char n \<noteq> CHR ''@''" "of_char (b64_char n) < (128 :: nat)"
proof -
  have "\<forall>ch \<in> set B64_ALPHABET. ch \<noteq> CHR ''='' \<and> ch \<noteq> CHR ''@'' \<and> of_char ch < (128 :: nat)"
    by (simp add: B64_ALPHABET_def)
  then show "b64_char n \<noteq> CHR ''=''" "b64_char n \<noteq> CHR ''@''" "of_char (b64_char n) < (128 :: nat)"
    using b64_char_set [OF assms] by blast+
qed

lemma b64_byte_id: "n = unat x \<Longrightarrow> b64_byte n = x"
  by (simp add: b64_byte_def)

lemma b64_parts:
  fixes x y z :: byte
  shows "unat x div 4 < 64" "unat x mod 4 * 16 < 64" "unat x mod 4 * 16 + unat y div 16 < 64" "unat y mod 16 * 4 < 64"
    "unat y mod 16 * 4 + unat z div 64 < 64" "unat z mod 64 < 64"
proof -
  have "unat x mod 4 < 4" "unat y mod 16 < 16" "unat y div 16 < 16" "unat z div 64 < 4"
    using byte_less [of y] byte_less [of z] by (simp_all add: div_less_iff_less_mult)
  then show "unat x mod 4 * 16 < 64" "unat x mod 4 * 16 + unat y div 16 < 64" "unat y mod 16 * 4 < 64"
    "unat y mod 16 * 4 + unat z div 64 < 64" by linarith+
qed (use byte_less [of x] in \<open>simp_all add: div_less_iff_less_mult\<close>)

lemma b64_groups_encode: "b64_groups (b64encode bs) = Some bs"
proof (induction bs rule: b64encode.induct)
  case (2 x)
  have "unat x = unat x div 4 * 4 + (unat x mod 4 * 16) div 16" by simp
  then show ?case by (simp add: b64_val_char b64_parts b64_char_not b64_byte_id)
next
  case (3 x y)
  have "unat x = unat x div 4 * 4 + (unat x mod 4 * 16 + unat y div 16) div 16"
    "unat y = (unat x mod 4 * 16 + unat y div 16) mod 16 * 16 + (unat y mod 16 * 4) div 4"
    using byte_less [of y] by (simp_all add: div_less_iff_less_mult)
  then show ?case by (simp add: b64_val_char b64_parts b64_char_not b64_byte_id)
next
  case (4 x y z rest)
  have "unat x = unat x div 4 * 4 + (unat x mod 4 * 16 + unat y div 16) div 16"
    "unat y = (unat x mod 4 * 16 + unat y div 16) mod 16 * 16 + (unat y mod 16 * 4 + unat z div 64) div 4"
    "unat z = (unat y mod 16 * 4 + unat z div 64) mod 4 * 64 + unat z mod 64"
    using byte_less [of y] byte_less [of z] by (simp_all add: div_less_iff_less_mult)
  then show ?case using 4 by (simp add: b64_val_char b64_parts b64_char_not b64_byte_id)
qed simp

lemma b64encode_chars: "ch \<in> set (b64encode bs) \<Longrightarrow> ch \<noteq> CHR ''@'' \<and> of_char ch < (128 :: nat)"
  by (induction bs rule: b64encode.induct) (auto simp: b64_parts b64_char_not)

lemma b64decode_encode [simp]: "b64decode (b64encode bs) = Inr bs"
  using b64encode_chars [of _ bs] by (auto simp: b64decode_def is_ascii_def b64_groups_encode)

definition key_id_ok :: "string \<Rightarrow> bool" where
  "key_id_ok kid \<longleftrightarrow> length kid = USER_KEY_ID_LENGTH \<and> is_ascii kid \<and> CHR ''/'' \<notin> set kid \<and> CHR 0x5C \<notin> set kid"

lemma str_rpartition_last:
  assumes "c \<notin> set q"
  shows "str_rpartition c (p @ [c] @ q) = (p, q)"
proof -
  have "p @ [c] @ q = str_join c (str_split c p @ [q])" by (simp add: str_join_snoc)
  then show ?thesis using str_rpartition_join [of "str_split c p" c q] str_split_no_sep assms by simp
qed

text \<open>C32.
  Key strings: the string an administrator is given, a 12-character id (which may itself hold
  \<open>@\<close>), \<open>@\<close> and the base64 of a 32-byte key, parses to exactly that id and key; whatever
  string is given, the parser returns an id that is safe in a path and a key of 32 bytes, or
  raises \<open>KeyMaterialError\<close> and nothing else.
\<close>

theorem key_string_roundtrip:
  assumes "key_id_ok kid" and "length key = AES_KEY_SIZE"
  shows "parse_key_string (kid @ ''@'' @ b64encode key) = Inr (kid, key) \<and>
    (case parse_key_string s of Inl e \<Rightarrow> e = KeyMaterialError | Inr (i, k) \<Rightarrow> key_id_ok i \<and> length k = AES_KEY_SIZE)"
proof
  have "CHR ''@'' \<notin> set (b64encode key)" using b64encode_chars by blast
  then have "str_rpartition (CHR ''@'') (kid @ ''@'' @ b64encode key) = (kid, b64encode key)"
    by (intro str_rpartition_last)
  then show "parse_key_string (kid @ ''@'' @ b64encode key) = Inr (kid, key)"
    using assms by (simp add: parse_key_string_def key_id_ok_def)
  have "\<forall>e. b64decode t = Inl e \<longrightarrow> isinstance e PyValueError \<or> isinstance e PyBinasciiError" for t
    by (auto simp: b64decode_def isinstance_def split: option.splits if_splits)
  then show "case parse_key_string s of Inl e \<Rightarrow> e = KeyMaterialError | Inr (i, k) \<Rightarrow> key_id_ok i \<and> length k = AES_KEY_SIZE"
    by (auto simp: parse_key_string_def key_id_ok_def Let_def split: sum.splits prod.splits if_splits)
qed

theorem key_string_roundtrip_witness:
  "parse_key_string (''abc@efghijkl'' @ ''@'' @ b64encode (replicate 32 7)) = Inr (''abc@efghijkl'', replicate 32 7)"
  using key_string_roundtrip [of "''abc@efghijkl''" "replicate 32 7"]
  by (simp add: key_id_ok_def USER_KEY_ID_LENGTH_def AES_KEY_SIZE_def is_ascii_def)

end
