(* ===== verification/BucketReader.thy ===== *)
theory BucketReader
  imports Store Bucket Redundancy Compression Crypto StateRes Ranges "HOL-Library.AList"
begin

text \<open>
  \<open>sdk/dedup/pool/_bucket_reader.py\<close> and \<open>sdk/dedup/redundancy_repair.py\<close>: opening a bucket
  file, the lazily read checksum trailer, single reads and merged batch reads. Worker threads
  run one after the other: the model is the serial path (no semaphore).
\<close>

definition GAP_TOLERANCE :: nat where [const_defs]: "GAP_TOLERANCE = 2 ^ 20"
definition DECODE_BLOCK_CHUNKS :: nat where [const_defs]: "DECODE_BLOCK_CHUNKS = 1024"
definition COMPRESS_TYPE_COMPACTED_VALUE :: nat where [const_defs]: "COMPRESS_TYPE_COMPACTED_VALUE = 4"

text \<open>The machine's byte order and the libraries the readers call.\<close>

record machine =
  m_little :: bool
  m_codec :: codec
  m_crypto :: crypto

definition list_get :: "'a list \<Rightarrow> nat \<Rightarrow> 'a res" where
  "list_get xs i = (if i < length xs then Inr (xs ! i) else Inl PyIndexError)"

record bucket_reader =
  br_path :: string
  br_header :: bucket_file_header
  br_index :: bucket_index
  br_vault_key :: "bytes option"
  br_algorithm :: "bytes option"
  br_verify :: bool
  br_repaired :: bool
  br_known_size :: "nat option"
  br_crc :: "(nat list \<times> nat list) option"

subsection \<open>Opening\<close>

text \<open>\<open>repair_via_trailer\<close>; \<open>fetched\<close> is what its \<open>fetch_trailer\<close> gives.\<close>

definition missing_or_malformed :: "err \<Rightarrow> bool" where
  "missing_or_malformed e \<longleftrightarrow> isinstance e NotFoundError \<or> isinstance e FormatError"

definition repair_via_trailer :: "bytes \<Rightarrow> nat \<Rightarrow> nat \<Rightarrow> bytes res \<Rightarrow> bytes option res" where
  "repair_via_trailer data coverage expected_crc fetched =
     (case fetched of
        Inl e \<Rightarrow> if missing_or_malformed e then Inr None else Inl e
      | Inr redundancy_raw \<Rightarrow> attempt_repair data redundancy_raw coverage expected_crc)"

definition attempt_size_store_repair :: "store \<Rightarrow> string \<Rightarrow> bucket_file_header \<Rightarrow> bytes \<Rightarrow> (bytes \<times> nat) option res" where
  "attempt_size_store_repair st path header sizestore_region =
     (let tight_len = chunk_size_store_tight_length (bh_chunk_num header);
          tight = take tight_len sizestore_region;
          trailer_len = redundancy_size tight_len REDUNDANCY_COVERAGE_BUCKET in
      case st_size st path of
        Inl e \<Rightarrow> if missing_or_malformed e then Inr None else Inl e
      | Inr file_size \<Rightarrow>
          if file_size < trailer_len then Inr None
          else bind_res (repair_via_trailer tight REDUNDANCY_COVERAGE_BUCKET (bh_chunk_size_crc header)
                 (st_read st path (file_size - trailer_len) (Some trailer_len)))
                 (\<lambda>r. Inr (case r of None \<Rightarrow> None | Some repaired \<Rightarrow> Some (repaired, file_size))))"

definition open_bucket :: "machine \<Rightarrow> store \<Rightarrow> string \<Rightarrow> bytes option \<Rightarrow> bytes option \<Rightarrow> bool \<Rightarrow> bucket_reader res" where
  "open_bucket m st path vault_key algorithm verify_ciphertext_crc =
     bind_res (st_read st path 0 (Some COMPRESS_RESERVED_LENG)) (\<lambda>head.
     bind_res (parse_bucket_header head) (\<lambda>header.
       let n = bh_chunk_num header;
           mk = (\<lambda>index repaired known.
             \<lparr>br_path = path, br_header = header, br_index = index, br_vault_key = vault_key, br_algorithm = algorithm,
              br_verify = verify_ciphertext_crc, br_repaired = repaired, br_known_size = known, br_crc = None\<rparr>) in
       if is_compressed header then
         let region = pslice HEADER_LEN COMPRESS_RESERVED_LENG head in
         (case parse_size_store (m_little m) region n (Some (bh_chunk_size_crc header)) of
            Inr index \<Rightarrow> Inr (mk index False None)
          | Inl e \<Rightarrow>
              if isinstance e DataCorruptError then
                bind_res (attempt_size_store_repair st path header region) (\<lambda>r.
                  case r of
                    None \<Rightarrow> Inl e
                  | Some (repaired, file_size) \<Rightarrow>
                      bind_res (parse_size_store (m_little m) repaired n None) (\<lambda>index.
                        Inr (mk index True (Some file_size))))
              else Inl e)
       else bind_res (bucket_index_uncompressed (m_little m) n) (\<lambda>index. Inr (mk index False None))))"

subsection \<open>The checksum trailer\<close>

definition load_crc_store :: "store \<Rightarrow> bucket_reader \<Rightarrow> nat list res" where
  "load_crc_store st r =
     bind_res (chunk_crc_store_region (br_header r) (br_index r)) (\<lambda>(offset, len).
       if len = 0 then Inr []
       else bind_res (st_read st (br_path r) offset (Some len)) (\<lambda>trailer_raw.
         parse_chunk_crc_store trailer_raw (len div CHUNK_CRC_SIZE) (Some (bh_crc_of_chunk_crc (br_header r)))))"

definition ensure_chunk_crc_store :: "store \<Rightarrow> (bucket_reader, nat list) op" where
  "ensure_chunk_crc_store st r =
     (case br_crc r of
        Some (values, _) \<Rightarrow> (Inr values, r)
      | None \<Rightarrow>
          (case load_crc_store st r of
             Inl e \<Rightarrow> (Inl e, r)
           | Inr values \<Rightarrow> (Inr values, r\<lparr>br_crc := Some (values, crc_store_positions (br_index r))\<rparr>)))"

definition check_ciphertext_crc :: "bucket_reader \<Rightarrow> nat \<Rightarrow> bytes \<Rightarrow> unit res" where
  "check_ciphertext_crc r idx raw =
     (case br_crc r of
        None \<Rightarrow> Inl PyAssertionError
      | Some (values, positions) \<Rightarrow>
          bind_res (list_get positions idx) (\<lambda>p. bind_res (list_get values p) (\<lambda>expected. verify_crc32 raw expected)))"

subsection \<open>Single chunks\<close>

definition reader_decryptor :: "bucket_reader \<Rightarrow> bytes res" where
  "reader_decryptor r = (case br_vault_key r of None \<Rightarrow> Inl KeyRequiredError | Some k \<Rightarrow> chunk_decryptor k (br_algorithm r))"

definition reader_decrypt :: "machine \<Rightarrow> bucket_reader \<Rightarrow> chunk_address option \<Rightarrow> bytes \<Rightarrow> bytes res" where
  "reader_decrypt m r addr raw =
     (if \<not> is_vault_encrypted (br_header r) then Inr raw
      else case br_vault_key r of
        None \<Rightarrow> Inl KeyRequiredError
      | Some k \<Rightarrow> (case addr of None \<Rightarrow> Inl PyAssertionError | Some a \<Rightarrow> decrypt_chunk (m_crypto m) k a raw (br_algorithm r)))"

definition resolve_compress_type :: "bucket_reader \<Rightarrow> nat \<Rightarrow> compress_type res" where
  "resolve_compress_type r idx =
     (let types = bi_compress_types (br_index r) in
      if \<not> idx < length types then Inl DataCorruptError
      else if types ! idx = COMPRESS_TYPE_COMPACTED_VALUE then Inl ChunkCompactedError
      else case compress_type_by_value (types ! idx) of None \<Rightarrow> Inl PyKeyError | Some t \<Rightarrow> Inr t)"

definition read_raw_chunk :: "store \<Rightarrow> bucket_reader \<Rightarrow> nat \<Rightarrow> bytes res" where
  "read_raw_chunk st r idx =
     bind_res (resolve_compress_type r idx) (\<lambda>_.
     bind_res (list_get (bi_offsets (br_index r)) idx) (\<lambda>offset.
     bind_res (list_get (bi_effective_lens (br_index r)) idx) (\<lambda>len.
       st_read st (br_path r) offset (Some len))))"

definition decode_raw_chunk :: "machine \<Rightarrow> store \<Rightarrow> nat \<Rightarrow> chunk_address \<Rightarrow> bytes \<Rightarrow> (bucket_reader, bytes) op" where
  "decode_raw_chunk m st idx addr raw r =
     (case resolve_compress_type r idx of
        Inl e \<Rightarrow> (Inl e, r)
      | Inr t \<Rightarrow>
          op_bind (if br_verify r
                   then op_bind (ensure_chunk_crc_store st) (\<lambda>_ r'. (check_ciphertext_crc r' idx raw, r'))
                   else op_return ())
            (\<lambda>_ r'. (bind_res (reader_decrypt m r' (Some addr) raw) (decompress (m_codec m) t), r')) r)"

text \<open>\<open>read_chunk\<close>: its three lookups are those of \<open>read_raw_chunk\<close>.\<close>

definition read_chunk :: "machine \<Rightarrow> store \<Rightarrow> nat \<Rightarrow> chunk_address \<Rightarrow> (bucket_reader, bytes) op" where
  "read_chunk m st idx addr r =
     (case read_raw_chunk st r idx of
        Inl e \<Rightarrow> (Inl e, r)
      | Inr raw \<Rightarrow> decode_raw_chunk m st idx addr raw r)"

definition verify_raw_chunk_ciphertext_crc :: "store \<Rightarrow> nat \<Rightarrow> bytes \<Rightarrow> (bucket_reader, unit) op" where
  "verify_raw_chunk_ciphertext_crc st idx raw =
     op_bind (ensure_chunk_crc_store st) (\<lambda>_ r. (check_ciphertext_crc r idx raw, r))"

definition verify_chunk_ciphertext_crc :: "store \<Rightarrow> nat \<Rightarrow> (bucket_reader, unit) op" where
  "verify_chunk_ciphertext_crc st idx r =
     (case read_raw_chunk st r idx of
        Inl e \<Rightarrow> (Inl e, r)
      | Inr raw \<Rightarrow> verify_raw_chunk_ciphertext_crc st idx raw r)"

text \<open>The maximal runs of a regular expression's matches: types other than \<open>COMPACTED\<close>.\<close>

fun non_compacted_runs :: "nat \<Rightarrow> nat option \<Rightarrow> nat list \<Rightarrow> (nat \<times> nat) list" where
  "non_compacted_runs i None [] = []"
| "non_compacted_runs i (Some s) [] = [(s, i - s)]"
| "non_compacted_runs i None (t # ts) =
     (if t = COMPRESS_TYPE_COMPACTED_VALUE then non_compacted_runs (Suc i) None ts else non_compacted_runs (Suc i) (Some i) ts)"
| "non_compacted_runs i (Some s) (t # ts) =
     (if t = COMPRESS_TYPE_COMPACTED_VALUE then (s, i - s) # non_compacted_runs (Suc i) None ts
      else non_compacted_runs (Suc i) (Some s) ts)"

definition non_compacted_chunk_ranges :: "bucket_reader \<Rightarrow> (nat \<times> nat) list" where
  "non_compacted_chunk_ranges r = non_compacted_runs 0 None (bi_compress_types (br_index r))"

subsection \<open>Planning merged reads\<close>

record index_run =
  ir_start :: nat
  ir_end :: nat
  ir_chunks :: "(nat \<times> nat) list"

text \<open>The local variables of \<open>_plan_index_runs\<close>.\<close>

record run_plan =
  rp_runs :: "index_run list"
  rp_current :: "(nat \<times> nat) list option"
  rp_start :: nat
  rp_end :: nat
  rp_sub :: nat

definition close_run :: "run_plan \<Rightarrow> (nat \<times> nat) list \<Rightarrow> index_run" where
  "close_run s chunks = \<lparr>ir_start = rp_start s, ir_end = rp_end s, ir_chunks = chunks\<rparr>"

definition plan_chunk :: "bucket_index \<Rightarrow> nat \<Rightarrow> run_plan \<Rightarrow> run_plan res" where
  "plan_chunk ix idx s =
     bind_res (list_get (bi_offsets ix) idx) (\<lambda>offset.
     bind_res (list_get (bi_effective_lens ix) idx) (\<lambda>len.
       case rp_current s of
         Some cur \<Rightarrow>
           if rp_end s \<le> offset \<and> offset - rp_end s \<le> GAP_TOLERANCE then Inr (s\<lparr>rp_end := offset + len\<rparr>)
           else Inr \<lparr>rp_runs = rp_runs s @ [close_run s (if rp_sub s < idx then cur @ [(rp_sub s, idx)] else cur)],
                     rp_current = Some [], rp_start = offset, rp_end = offset + len, rp_sub = idx\<rparr>
       | None \<Rightarrow> Inr \<lparr>rp_runs = rp_runs s, rp_current = Some [], rp_start = offset, rp_end = offset + len, rp_sub = idx\<rparr>))"

definition plan_range :: "bucket_index \<Rightarrow> nat \<times> nat \<Rightarrow> run_plan \<Rightarrow> run_plan res" where
  "plan_range ix rng s =
     (case rng of (start, len) \<Rightarrow>
       bind_res (fold_res (plan_chunk ix) [start..<start + len] (s\<lparr>rp_sub := start\<rparr>)) (\<lambda>s.
         case rp_current s of
           None \<Rightarrow> Inl PyAssertionError
         | Some cur \<Rightarrow> Inr (s\<lparr>rp_current := Some (cur @ [(rp_sub s, start + len)])\<rparr>)))"

definition run_plan_init :: run_plan where
  "run_plan_init = \<lparr>rp_runs = [], rp_current = None, rp_start = 0, rp_end = 0, rp_sub = 0\<rparr>"

definition plan_index_runs :: "bucket_index \<Rightarrow> (nat \<times> nat) list \<Rightarrow> index_run list res" where
  "plan_index_runs ix ranges =
     bind_res (fold_res (plan_range ix) ranges run_plan_init) (\<lambda>s.
       Inr (case rp_current s of None \<Rightarrow> rp_runs s | Some cur \<Rightarrow> rp_runs s @ [close_run s cur]))"

subsection \<open>Decoding a merged read\<close>

text \<open>One iteration of \<open>_decode_chunks\<close>: the lazily built decryptor and the items so far.\<close>

type_synonym decode_state = "bytes option \<times> (nat \<times> compress_type \<times> bytes) list"

definition decode_item ::
    "machine \<Rightarrow> bucket_reader \<Rightarrow> nat \<times> nat \<Rightarrow> nat \<Rightarrow> bytes \<Rightarrow> nat \<Rightarrow> decode_state \<Rightarrow> decode_state res" where
  "decode_item m r address base merged idx s =
     (let (decryptor, items) = s; ix = br_index r in
      bind_res (list_get (bi_offsets ix) idx) (\<lambda>offset.
      bind_res (list_get (bi_effective_lens ix) idx) (\<lambda>len.
        let raw = pslice (offset - base) (offset - base + len) merged in
        bind_res (if br_verify r then check_ciphertext_crc r idx raw else Inr ()) (\<lambda>_.
        bind_res
          (if is_vault_encrypted (br_header r) then
             bind_res (case decryptor of Some ctx \<Rightarrow> Inr ctx | None \<Rightarrow> reader_decryptor r) (\<lambda>ctx.
             bind_res (decryptor_decrypt (m_crypto m) ctx (addr_to_int (ChunkAddress (fst address) (snd address) 0) OR idx) raw)
               (\<lambda>x. Inr (Some ctx, x)))
           else Inr (decryptor, raw)) (\<lambda>(decryptor, data).
        bind_res (list_get (bi_compress_types ix) idx) (\<lambda>v.
          case compress_type_by_value v of
            None \<Rightarrow> Inl PyKeyError
          | Some t \<Rightarrow> Inr (decryptor, items @ [(idx, t, data)])))))))"

definition range_span :: "nat \<times> nat \<Rightarrow> nat list" where
  "range_span p = [fst p..<snd p]"

definition decode_chunks ::
    "machine \<Rightarrow> bucket_reader \<Rightarrow> nat \<times> nat \<Rightarrow> nat \<Rightarrow> bytes \<Rightarrow> (nat \<times> nat) list \<Rightarrow> (nat \<times> bytes) list res" where
  "decode_chunks m r address base merged chunk_ranges =
     bind_res (fold_res (decode_item m r address base merged) (concat (map range_span chunk_ranges)) (None, [])) (\<lambda>(_, items).
     bind_res (decompress_many (m_codec m) (map snd items)) (\<lambda>plains. Inr (zip (map fst items) plains)))"

text \<open>\<open>dict.update\<close> in insertion order.\<close>

definition dict_update :: "('k \<times> 'v) list \<Rightarrow> ('k \<times> 'v) list \<Rightarrow> ('k \<times> 'v) list" where
  "dict_update new d = fold (\<lambda>(k, v). AList.update k v) new d"

subsection \<open>Batch reads\<close>

text \<open>The checks and the plan of \<open>_each_run\<close>.\<close>

definition check_range :: "bucket_reader \<Rightarrow> nat \<times> nat \<Rightarrow> unit res" where
  "check_range r rng =
     (case rng of (start, len) \<Rightarrow>
        let types = bi_compress_types (br_index r) in
        if length types < start + len then Inl DataCorruptError
        else (case find (\<lambda>i. types ! i = COMPRESS_TYPE_COMPACTED_VALUE) [start..<start + len] of
                None \<Rightarrow> Inr ()
              | Some i \<Rightarrow> bind_res (resolve_compress_type r i) (\<lambda>_. Inr ())))"

definition planned_runs :: "store \<Rightarrow> (nat \<times> nat) list \<Rightarrow> (bucket_reader, index_run list) op" where
  "planned_runs st ranges r =
     (if ranges = [] then (Inr [], r)
      else op_bind (if br_verify r then op_bind (ensure_chunk_crc_store st) (\<lambda>_. op_return ()) else op_return ())
        (\<lambda>_ r. (bind_res (fold_res (\<lambda>x _. check_range r x) ranges ()) (\<lambda>_. plan_index_runs (br_index r) ranges), r)) r)"

definition read_run :: "machine \<Rightarrow> store \<Rightarrow> bucket_reader \<Rightarrow> nat \<times> nat \<Rightarrow> index_run \<Rightarrow> (nat \<times> bytes) list res" where
  "read_run m st r address run =
     bind_res (st_read st (br_path r) (ir_start run) (Some (ir_end run - ir_start run))) (\<lambda>merged.
       decode_chunks m r address (ir_start run) merged (ir_chunks run))"

definition read_chunks :: "machine \<Rightarrow> store \<Rightarrow> nat \<Rightarrow> nat \<Rightarrow> (nat \<times> nat) list \<Rightarrow> (bucket_reader, (nat \<times> bytes) list) op" where
  "read_chunks m st sid bid ranges =
     op_bind (planned_runs st ranges) (\<lambda>runs r.
       (fold_res (\<lambda>run d. bind_res (read_run m st r (sid, bid) run) (\<lambda>new. Inr (dict_update new d))) runs [], r))"

definition read_raw_chunks :: "store \<Rightarrow> bucket_reader \<Rightarrow> nat list \<Rightarrow> (nat \<times> bytes) list res" where
  "read_raw_chunks st r chunk_indices =
     bind_res (fold_res (\<lambda>idx _. bind_res (resolve_compress_type r idx) (\<lambda>_. Inr ())) chunk_indices ()) (\<lambda>_.
     bind_res (plan_index_runs (br_index r) (map (\<lambda>i. (i, 1)) chunk_indices)) (\<lambda>runs.
       fold_res (\<lambda>run d.
         bind_res (st_read st (br_path r) (ir_start run) (Some (ir_end run - ir_start run))) (\<lambda>merged.
           fold_res (\<lambda>idx d.
             bind_res (list_get (bi_offsets (br_index r)) idx) (\<lambda>offset.
             bind_res (list_get (bi_effective_lens (br_index r)) idx) (\<lambda>len.
               Inr (AList.update idx (pslice (offset - ir_start run) (offset - ir_start run + len) merged) d))))
             (concat (map range_span (ir_chunks run))) d)) runs []))"

subsection \<open>Blocks\<close>

text \<open>\<open>_split_into_blocks\<close>: the blocks so far and the number of the last one.\<close>

function split_range :: "nat \<Rightarrow> nat \<Rightarrow> (nat \<times> nat) list list \<times> nat option \<Rightarrow> (nat \<times> nat) list list \<times> nat option" where
  "split_range start stop s =
     (if stop \<le> start then s
      else let block = start div DECODE_BLOCK_CHUNKS;
               upto = min stop ((block + 1) * DECODE_BLOCK_CHUNKS);
               blocks = (if Some block \<noteq> snd s then fst s @ [[(start, upto)]]
                         else butlast (fst s) @ [last (fst s) @ [(start, upto)]])
           in split_range upto stop (blocks, Some block))"
  by pat_completeness auto
termination
proof (relation "measure (\<lambda>(start, stop, _). stop - start)")
  fix start stop :: nat and s :: "(nat \<times> nat) list list \<times> nat option" and block upto blocks
  assume a: "\<not> stop \<le> start" "block = start div DECODE_BLOCK_CHUNKS" "upto = min stop ((block + 1) * DECODE_BLOCK_CHUNKS)"
  have "start < (start div DECODE_BLOCK_CHUNKS + 1) * DECODE_BLOCK_CHUNKS"
    using dividend_less_div_times [of DECODE_BLOCK_CHUNKS start] by (simp add: DECODE_BLOCK_CHUNKS_def)
  then show "((upto, stop, blocks, Some block), start, stop, s) \<in> measure (\<lambda>(start, stop, _). stop - start)"
    using a by auto
qed simp

declare split_range.simps [simp del]

definition split_into_blocks :: "(nat \<times> nat) list \<Rightarrow> (nat \<times> nat) list list" where
  "split_into_blocks chunks = fst (fold (\<lambda>(start, stop). split_range start stop) chunks ([], None))"

text \<open>
  \<open>read_chunk_blocks\<close>: the blocks handed to \<open>on_block\<close> and how the sweep ends; a block is
  decoded when the callback has returned for the one before.
\<close>

type_synonym block = "(nat \<times> nat) list \<times> (nat \<times> bytes) list"

definition read_run_by_block :: "machine \<Rightarrow> store \<Rightarrow> bucket_reader \<Rightarrow> nat \<times> nat \<Rightarrow> index_run \<Rightarrow> block gen" where
  "read_run_by_block m st r address run =
     gen_bind (st_read st (br_path r) (ir_start run) (Some (ir_end run - ir_start run))) (\<lambda>merged.
       gen_map (\<lambda>blk. bind_res (decode_chunks m r address (ir_start run) merged blk) (\<lambda>d. Inr (blk, dict_update d [])))
         (split_into_blocks (ir_chunks run)))"

fun runs_by_block :: "machine \<Rightarrow> store \<Rightarrow> bucket_reader \<Rightarrow> nat \<times> nat \<Rightarrow> index_run list \<Rightarrow> block gen" where
  "runs_by_block m st r address [] = ([], None)"
| "runs_by_block m st r address (run # runs) = gen_append (read_run_by_block m st r address run) (runs_by_block m st r address runs)"

definition read_chunk_blocks :: "machine \<Rightarrow> store \<Rightarrow> nat \<Rightarrow> nat \<Rightarrow> (nat \<times> nat) list \<Rightarrow> bucket_reader \<Rightarrow> block gen \<times> bucket_reader" where
  "read_chunk_blocks m st sid bid ranges r =
     (case planned_runs st ranges r of
        (Inl e, r') \<Rightarrow> (([], Some e), r')
      | (Inr runs, r') \<Rightarrow> (runs_by_block m st r' (sid, bid) runs, r'))"

subsection \<open>The plan covers every chunk\<close>

definition spans :: "(nat \<times> nat) list \<Rightarrow> nat list" where
  "spans ps = concat (map range_span ps)"

lemma spans_simps [simp]: "spans [] = []" "spans (ps @ qs) = spans ps @ spans qs" "spans (p # ps) = range_span p @ spans ps"
  by (simp_all add: spans_def)

definition run_idxs :: "index_run \<Rightarrow> nat list" where
  "run_idxs run = spans (ir_chunks run)"

definition chunk_within :: "bucket_index \<Rightarrow> nat \<Rightarrow> nat \<Rightarrow> nat \<Rightarrow> bool" where
  "chunk_within ix a b i \<longleftrightarrow> a \<le> bi_offsets ix ! i \<and> bi_offsets ix ! i + bi_effective_lens ix ! i \<le> b"

definition run_good :: "bucket_index \<Rightarrow> index_run \<Rightarrow> bool" where
  "run_good ix run \<longleftrightarrow> (\<forall>i \<in> set (run_idxs run). chunk_within ix (ir_start run) (ir_end run) i)"

text \<open>
  The planner in the middle of a range: the chunks \<open>ys\<close> are placed, those of the open run
  from \<open>rp_sub\<close> to \<open>i\<close> included, and every one lies inside the bytes of its run.
\<close>

definition open_idxs :: "run_plan \<Rightarrow> nat \<Rightarrow> nat list" where
  "open_idxs s i = (case rp_current s of None \<Rightarrow> [] | Some cur \<Rightarrow> spans cur @ [rp_sub s..<i])"

definition plan_inv :: "bucket_index \<Rightarrow> nat list \<Rightarrow> nat \<Rightarrow> run_plan \<Rightarrow> bool" where
  "plan_inv ix ys i s \<longleftrightarrow> ys = concat (map run_idxs (rp_runs s)) @ open_idxs s i \<and> rp_sub s \<le> i \<and> rp_start s \<le> rp_end s \<and>
     (\<forall>run \<in> set (rp_runs s). run_good ix run) \<and> (\<forall>j \<in> set (open_idxs s i). chunk_within ix (rp_start s) (rp_end s) j)"

definition index_ok :: "bucket_index \<Rightarrow> nat \<Rightarrow> bool" where
  "index_ok ix n \<longleftrightarrow> length (bi_compress_types ix) = n \<and> length (bi_offsets ix) = n \<and> length (bi_effective_lens ix) = n \<and>
     (\<forall>t \<in> set (bi_compress_types ix). compress_type_by_value t \<noteq> None)"

lemma plan_chunk_ok:
  assumes inv: "plan_inv ix ys i s" and ix: "index_ok ix n" "i < n"
  shows "\<exists>s'. plan_chunk ix i s = Inr s' \<and> plan_inv ix (ys @ [i]) (Suc i) s' \<and> rp_current s' \<noteq> None"
proof -
  let ?o = "bi_offsets ix ! i" and ?l = "bi_effective_lens ix ! i"
  have get: "list_get (bi_offsets ix) i = Inr ?o" "list_get (bi_effective_lens ix) i = Inr ?l"
    using ix by (simp_all add: index_ok_def list_get_def)
  show ?thesis
  proof (cases "rp_current s")
    case None
    then show ?thesis
      using inv by (simp add: plan_chunk_def get plan_inv_def open_idxs_def chunk_within_def)
  next
    case (Some cur)
    have sub: "rp_sub s \<le> i" and ys: "ys = concat (map run_idxs (rp_runs s)) @ spans cur @ [rp_sub s..<i]"
      and good: "\<forall>run \<in> set (rp_runs s). run_good ix run"
      and within: "\<forall>j \<in> set (spans cur @ [rp_sub s..<i]). chunk_within ix (rp_start s) (rp_end s) j" and le: "rp_start s \<le> rp_end s"
      using inv Some by (simp_all add: plan_inv_def open_idxs_def)
    show ?thesis
    proof (cases "rp_end s \<le> ?o \<and> ?o - rp_end s \<le> GAP_TOLERANCE")
      case True
      have "chunk_within ix (rp_start s) (?o + ?l) j" if "j \<in> set (spans cur @ [rp_sub s..<i] @ [i])" for j
        using that within True le by (fastforce simp: chunk_within_def)
      then have "plan_inv ix (ys @ [i]) (Suc i) (s\<lparr>rp_end := ?o + ?l\<rparr>)"
        using sub ys good True le Some by (simp add: plan_inv_def open_idxs_def)
      then show ?thesis using True Some by (simp add: plan_chunk_def get)
    next
      case False
      let ?run = "close_run s (if rp_sub s < i then cur @ [(rp_sub s, i)] else cur)"
      have idxs: "run_idxs ?run = spans cur @ [rp_sub s..<i]"
        using sub by (simp add: run_idxs_def close_run_def range_span_def)
      then have "run_good ix ?run" using within by (simp add: run_good_def close_run_def)
      then have "plan_inv ix (ys @ [i]) (Suc i)
          \<lparr>rp_runs = rp_runs s @ [?run], rp_current = Some [], rp_start = ?o, rp_end = ?o + ?l, rp_sub = i\<rparr>"
        using ys good idxs by (auto simp: plan_inv_def open_idxs_def chunk_within_def)
      then show ?thesis using False Some by (auto simp add: plan_chunk_def get)
    qed
  qed
qed

lemma plan_chunks_ok:
  assumes "plan_inv ix ys start s" and "index_ok ix n" and "start + k \<le> n"
  shows "\<exists>s'. fold_res (plan_chunk ix) [start..<start + k] s = Inr s' \<and> plan_inv ix (ys @ [start..<start + k]) (start + k) s' \<and>
    (0 < k \<longrightarrow> rp_current s' \<noteq> None)"
  using assms(3)
proof (induction k)
  case 0
  then show ?case using assms(1) by simp
next
  case (Suc k)
  then obtain s1 where s1: "fold_res (plan_chunk ix) [start..<start + k] s = Inr s1"
    "plan_inv ix (ys @ [start..<start + k]) (start + k) s1" by auto
  obtain s2 where s2: "plan_chunk ix (start + k) s1 = Inr s2" "plan_inv ix ((ys @ [start..<start + k]) @ [start + k]) (Suc (start + k)) s2"
    "rp_current s2 \<noteq> None"
    using plan_chunk_ok [OF s1(2) assms(2)] Suc.prems by auto
  have "fold_res (plan_chunk ix) [start..<start + Suc k] s = Inr s2" by (simp add: fold_res_append s1(1) s2(1))
  then show ?case using s2(2,3) by simp
qed

definition between :: "run_plan \<Rightarrow> nat list" where
  "between s = concat (map run_idxs (rp_runs s)) @ (case rp_current s of None \<Rightarrow> [] | Some cur \<Rightarrow> spans cur)"

definition plan_between :: "bucket_index \<Rightarrow> run_plan \<Rightarrow> bool" where
  "plan_between ix s \<longleftrightarrow> rp_start s \<le> rp_end s \<and> (\<forall>run \<in> set (rp_runs s). run_good ix run) \<and>
     (\<forall>cur. rp_current s = Some cur \<longrightarrow> (\<forall>j \<in> set (spans cur). chunk_within ix (rp_start s) (rp_end s) j))"

lemma plan_range_ok:
  assumes "plan_between ix s" and "index_ok ix n" and "0 < len" and "start + len \<le> n"
  shows "\<exists>s'. plan_range ix (start, len) s = Inr s' \<and> plan_between ix s' \<and> between s' = between s @ [start..<start + len]"
proof -
  have "plan_inv ix (between s) start (s\<lparr>rp_sub := start\<rparr>)"
    using assms(1) by (auto simp: plan_inv_def between_def plan_between_def open_idxs_def split: option.split)
  then obtain s1 where s1: "fold_res (plan_chunk ix) [start..<start + len] (s\<lparr>rp_sub := start\<rparr>) = Inr s1"
    "plan_inv ix (between s @ [start..<start + len]) (start + len) s1" "rp_current s1 \<noteq> None"
    using plan_chunks_ok [OF _ assms(2,4)] assms(3) by blast
  obtain cur where cur: "rp_current s1 = Some cur" using s1(3) by auto
  let ?t = "s1\<lparr>rp_current := Some (cur @ [(rp_sub s1, start + len)])\<rparr>"
  have "plan_between ix ?t" "between ?t = between s @ [start..<start + len]"
    using s1(2) cur by (auto simp: plan_inv_def plan_between_def between_def open_idxs_def range_span_def)
  then show ?thesis using s1(1) cur by (simp add: plan_range_def)
qed

lemma plan_ranges_ok:
  assumes "plan_between ix s" and "index_ok ix n" and "\<forall>(start, len) \<in> set ranges. 0 < len \<and> start + len \<le> n"
  shows "\<exists>s'. fold_res (plan_range ix) ranges s = Inr s' \<and> plan_between ix s' \<and> between s' = between s @ all_indices ranges"
  using assms(1,3)
proof (induction ranges arbitrary: s)
  case (Cons r ranges)
  obtain start len where r: "r = (start, len)" by (cases r)
  obtain s1 where s1: "plan_range ix (start, len) s = Inr s1" "plan_between ix s1" "between s1 = between s @ [start..<start + len]"
    using plan_range_ok [OF Cons.prems(1) assms(2), of len start] Cons.prems(2) r by auto
  show ?case using Cons.IH [OF s1(2)] Cons.prems(2) s1 r by (auto simp: range_indices_def)
qed simp

lemma plan_index_runs_spec:
  assumes "index_ok ix n" and "\<forall>(start, len) \<in> set ranges. 0 < len \<and> start + len \<le> n"
  shows "\<exists>runs. plan_index_runs ix ranges = Inr runs \<and> concat (map run_idxs runs) = all_indices ranges \<and> (\<forall>run \<in> set runs. run_good ix run)"
proof -
  have "plan_between ix run_plan_init" "between run_plan_init = []"
    by (simp_all add: plan_between_def run_plan_init_def between_def)
  then obtain s where s: "fold_res (plan_range ix) ranges run_plan_init = Inr s" "plan_between ix s" "between s = all_indices ranges"
    using plan_ranges_ok [OF _ assms] by fastforce
  show ?thesis
  proof (cases "rp_current s")
    case None
    then show ?thesis using s by (simp add: plan_index_runs_def plan_between_def between_def)
  next
    case (Some cur)
    have "run_good ix (close_run s cur)"
      using s(2) Some by (simp add: plan_between_def run_good_def close_run_def run_idxs_def)
    then show ?thesis
      using s Some by (auto simp: plan_index_runs_def plan_between_def between_def run_idxs_def close_run_def)
  qed
qed

subsection \<open>Decoding\<close>

text \<open>
  The file behind a reader, and a chunk read on its own from it: the stored bytes, checked,
  decrypted with its own address and decompressed.
\<close>

definition stored_raw :: "bucket_reader \<Rightarrow> bytes \<Rightarrow> nat \<Rightarrow> bytes" where
  "stored_raw r bs i =
     pslice (bi_offsets (br_index r) ! i) (bi_offsets (br_index r) ! i + bi_effective_lens (br_index r) ! i) bs"

definition raw_item :: "machine \<Rightarrow> bucket_reader \<Rightarrow> nat \<times> nat \<Rightarrow> bytes \<Rightarrow> nat \<Rightarrow> (nat \<times> compress_type \<times> bytes) res" where
  "raw_item m r address bs i =
     bind_res (if br_verify r then check_ciphertext_crc r i (stored_raw r bs i) else Inr ()) (\<lambda>_.
     bind_res (reader_decrypt m r (Some (ChunkAddress (fst address) (snd address) i)) (stored_raw r bs i)) (\<lambda>data.
       Inr (i, the (compress_type_by_value (bi_compress_types (br_index r) ! i)), data)))"

definition chunk_plain :: "machine \<Rightarrow> bucket_reader \<Rightarrow> nat \<times> nat \<Rightarrow> bytes \<Rightarrow> nat \<Rightarrow> bytes res" where
  "chunk_plain m r address bs i = bind_res (raw_item m r address bs i) (\<lambda>(_, t, data). decompress (m_codec m) t data)"

text \<open>The same with a ZSTD chunk taken for a complete frame, and when that makes no difference.\<close>

definition chunk_whole :: "machine \<Rightarrow> bucket_reader \<Rightarrow> nat \<times> nat \<Rightarrow> bytes \<Rightarrow> nat \<Rightarrow> bytes res" where
  "chunk_whole m r address bs i = bind_res (raw_item m r address bs i) (\<lambda>(_, t, data). decompress_whole (m_codec m) t data)"

definition stored_whole :: "machine \<Rightarrow> bucket_reader \<Rightarrow> nat \<times> nat \<Rightarrow> bytes \<Rightarrow> nat \<Rightarrow> bool" where
  "stored_whole m r address bs i \<longleftrightarrow> (\<forall>j t data. raw_item m r address bs i = Inr (j, t, data) \<longrightarrow> whole_frame (m_codec m) t data)"

lemma chunk_whole_eq:
  assumes "zstd_documented (m_codec m)" and "stored_whole m r address bs i"
  shows "chunk_whole m r address bs i = chunk_plain m r address bs i"
  using assms decompress_whole_eq [OF assms(1)]
  by (cases "raw_item m r address bs i") (auto simp: chunk_whole_def chunk_plain_def stored_whole_def)

lemma chunk_torn: "\<not> stored_whole m r address bs i \<Longrightarrow> chunk_whole m r address bs i = Inl DataCorruptError"
  by (auto simp: chunk_whole_def stored_whole_def decompress_torn)

lemma chunk_whole_Inr: "zstd_documented (m_codec m) \<Longrightarrow> chunk_whole m r address bs i = Inr p \<Longrightarrow> chunk_plain m r address bs i = Inr p"
  using chunk_whole_eq [of m r address bs i] chunk_torn [of m r address bs i] by (cases "stored_whole m r address bs i") auto

definition decryptor_ok :: "bucket_reader \<Rightarrow> bytes option \<Rightarrow> bool" where
  "decryptor_ok r d \<longleftrightarrow> (\<forall>ctx. d = Some ctx \<longrightarrow> reader_decryptor r = Inr ctx)"

definition address_ok :: "nat \<times> nat \<Rightarrow> nat \<Rightarrow> bool" where
  "address_ok address n \<longleftrightarrow> fst address < 2 ^ 8 \<and> snd address < 2 ^ 40 \<and> n \<le> 2 ^ 16"

lemma pack_iv_addr:
  assumes "address_ok address n" and "i < n"
  shows "\<exists>iv. pack_iv (addr_to_int (ChunkAddress (fst address) (snd address) i)) = Inr iv"
proof -
  have "addr_fits (ChunkAddress (fst address) (snd address) i)" using assms by (simp add: address_ok_def addr_fits_def)
  then show ?thesis using addr_to_int_less unfolding pack_iv_def by metis
qed

text \<open>The lazily built decryptor decrypts as the single read does, failures included.\<close>

lemma lazy_decrypt:
  assumes "address_ok address n" and "i < n" and enc: "is_vault_encrypted (br_header r)" and "decryptor_ok r d"
  shows "\<exists>d'. decryptor_ok r d' \<and>
    bind_res (case d of Some ctx \<Rightarrow> Inr ctx | None \<Rightarrow> reader_decryptor r) (\<lambda>ctx.
      bind_res (decryptor_decrypt (m_crypto m) ctx (addr_to_int (ChunkAddress (fst address) (snd address) 0) OR i) raw)
        (\<lambda>x. Inr (Some ctx, x))) =
    bind_res (reader_decrypt m r (Some (ChunkAddress (fst address) (snd address) i)) raw) (\<lambda>x. Inr (d', x))"
proof (cases "br_vault_key r")
  case None
  then have "reader_decryptor r = Inl KeyRequiredError" by (simp add: reader_decryptor_def)
  moreover from this have "d = None" using assms(4) by (cases d) (auto simp: decryptor_ok_def)
  ultimately show ?thesis using enc None by (intro exI [of _ None]) (simp add: reader_decrypt_def decryptor_ok_def)
next
  case (Some k)
  have a: "addr_to_int (ChunkAddress (fst address) (snd address) 0) OR i = addr_to_int (ChunkAddress (fst address) (snd address) i)"
    using bucket_address_or [of "ChunkAddress (fst address) (snd address) i"] by simp
  obtain iv where iv: "pack_iv (addr_to_int (ChunkAddress (fst address) (snd address) i)) = Inr iv"
    using pack_iv_addr [OF assms(1,2)] by blast
  have pick: "(case d of Some ctx \<Rightarrow> Inr ctx | None \<Rightarrow> reader_decryptor r) = chunk_decryptor k (br_algorithm r)"
    using assms(4) Some by (cases d) (auto simp: decryptor_ok_def reader_decryptor_def)
  show ?thesis
  proof (cases "chunk_decryptor k (br_algorithm r)")
    case (Inl e)
    then have "decrypt_chunk (m_crypto m) k (ChunkAddress (fst address) (snd address) i) raw (br_algorithm r) = Inl e"
      using iv by (cases "br_algorithm r") (auto simp: chunk_decryptor_def build_aes_algorithm_def decrypt_chunk_def chunk_iv_def split: if_splits)
    then show ?thesis using enc Some Inl unfolding pick
      by (intro exI [of _ None]) (simp add: reader_decrypt_def decryptor_ok_def)
  next
    case (Inr ctx)
    then show ?thesis using enc Some decryptor_is_decrypt_chunk [OF Inr] unfolding pick a
      by (intro exI [of _ "Some ctx"]) (simp add: reader_decrypt_def decryptor_ok_def reader_decryptor_def)
  qed
qed

lemma decode_item_eq:
  assumes ix: "index_ok (br_index r) n" "i < n" and ad: "address_ok address n" and d: "decryptor_ok r d"
    and w: "chunk_within (br_index r) a b i" and merged: "merged = pslice a b bs"
  shows "\<exists>d'. decryptor_ok r d' \<and>
    decode_item m r address a merged i (d, items) =
      bind_res (raw_item m r address bs i) (\<lambda>x. Inr (d', items @ [x]))"
proof -
  let ?o = "bi_offsets (br_index r) ! i" and ?l = "bi_effective_lens (br_index r) ! i"
  have get: "list_get (bi_offsets (br_index r)) i = Inr ?o" "list_get (bi_effective_lens (br_index r)) i = Inr ?l"
    "list_get (bi_compress_types (br_index r)) i = Inr (bi_compress_types (br_index r) ! i)"
    using ix by (simp_all add: index_ok_def list_get_def)
  have raw: "pslice (?o - a) (?o - a + ?l) merged = stored_raw r bs i"
    using w by (simp add: merged stored_raw_def chunk_within_def pslice_pslice min_def)
  obtain t where t: "compress_type_by_value (bi_compress_types (br_index r) ! i) = Some t"
    using ix by (fastforce simp: index_ok_def)
  show ?thesis
  proof (cases "is_vault_encrypted (br_header r)")
    case False
    then show ?thesis using d by (intro exI [of _ d]) (simp add: decode_item_def get raw t raw_item_def reader_decrypt_def bind_res_assoc Let_def)
  next
    case True
    obtain d' where d': "decryptor_ok r d'" "bind_res (case d of Some ctx \<Rightarrow> Inr ctx | None \<Rightarrow> reader_decryptor r) (\<lambda>ctx.
        bind_res (decryptor_decrypt (m_crypto m) ctx (addr_to_int (ChunkAddress (fst address) (snd address) 0) OR i) (stored_raw r bs i))
          (\<lambda>x. Inr (Some ctx, x))) =
      bind_res (reader_decrypt m r (Some (ChunkAddress (fst address) (snd address) i)) (stored_raw r bs i)) (\<lambda>x. Inr (d', x))"
      using lazy_decrypt [OF ad ix(2) True d] by blast
    show ?thesis
      using True d'(1) by (intro exI [of _ d']) (simp add: decode_item_def get raw t raw_item_def d'(2) Let_def, simp add: bind_res_assoc)
  qed
qed

lemma decode_items_eq:
  assumes "index_ok (br_index r) n" and "\<forall>i \<in> set idxs. i < n \<and> chunk_within (br_index r) a b i" and "address_ok address n"
    and "decryptor_ok r d"
  shows "\<exists>d'. fold_res (decode_item m r address a (pslice a b bs)) idxs (d, items) =
    bind_res (map_res (raw_item m r address bs) idxs) (\<lambda>xs. Inr (d', items @ xs))"
  using assms(2,4)
proof (induction idxs arbitrary: d items)
  case (Cons i idxs)
  obtain d' where d': "decryptor_ok r d'" "decode_item m r address a (pslice a b bs) i (d, items) =
      bind_res (raw_item m r address bs i) (\<lambda>x. Inr (d', items @ [x]))"
    using decode_item_eq [OF assms(1) _ assms(3) Cons.prems(2) _ refl] Cons.prems(1) by fastforce
  show ?case
  proof (cases "raw_item m r address bs i")
    case (Inl e)
    then show ?thesis using d'(2) by simp
  next
    case (Inr x)
    obtain d'' where "fold_res (decode_item m r address a (pslice a b bs)) idxs (d', items @ [x]) =
        bind_res (map_res (raw_item m r address bs) idxs) (\<lambda>xs. Inr (d'', (items @ [x]) @ xs))"
      using Cons.IH [OF _ d'(1)] Cons.prems(1) by fastforce
    then show ?thesis using Inr d'(2) by (intro exI [of _ d'']) (simp add: bind_res_assoc)
  qed
qed simp

lemma map_res_bind: "map_res (\<lambda>x. bind_res (f x) g) xs = Inr ys \<longleftrightarrow> (\<exists>zs. map_res f xs = Inr zs \<and> map_res g zs = Inr ys)"
  by (induction xs arbitrary: ys) (auto simp: res_simps)

text \<open>
  A computation over a list that gives all the values of \<open>f\<close>, or raises an error some value of
  \<open>f\<close> is.
\<close>

definition all_or_error :: "('i \<Rightarrow> 'v res) \<Rightarrow> 'i list \<Rightarrow> ('v list \<Rightarrow> 'w) \<Rightarrow> 'w res \<Rightarrow> bool" where
  "all_or_error f xs g x \<longleftrightarrow>
     (case map_res f xs of Inr ps \<Rightarrow> x = Inr (g ps) | Inl _ \<Rightarrow> \<exists>e. x = Inl e \<and> (\<exists>i \<in> set xs. f i = Inl e))"

lemma all_or_error_simps:
  "map_res f xs = Inr ps \<Longrightarrow> all_or_error f xs g x \<longleftrightarrow> x = Inr (g ps)"
  "map_res f xs = Inl e \<Longrightarrow> all_or_error f xs g x \<longleftrightarrow> (\<exists>e. x = Inl e \<and> (\<exists>i \<in> set xs. f i = Inl e))"
  by (simp_all add: all_or_error_def)

lemma some_fails: "i \<in> set xs \<Longrightarrow> f i = Inl e \<Longrightarrow> \<exists>e. map_res f xs = Inl e"
  by (induction xs) (auto simp: bind_res_def split: sum.splits)

lemma all_or_errorI: "i \<in> set xs \<Longrightarrow> f i = Inl e \<Longrightarrow> x = Inl e \<Longrightarrow> all_or_error f xs g x"
  using some_fails [of i xs f e] by (auto simp: all_or_error_def)

lemma all_or_errorD:
  assumes "all_or_error f xs g x"
  shows "x = Inr y \<Longrightarrow> \<exists>ps. map_res f xs = Inr ps \<and> y = g ps" and "x = Inl e \<Longrightarrow> \<exists>i \<in> set xs. f i = Inl e"
  using assms by (auto simp: all_or_error_def split: sum.splits)

lemma decode_chunks_spec:
  assumes "zstd_documented (m_codec m)" and "index_ok (br_index r) n" and "address_ok address n"
    and "\<forall>i \<in> set (spans ranges). i < n \<and> chunk_within (br_index r) a b i"
  shows "all_or_error (chunk_whole m r address bs) (spans ranges) (zip (spans ranges)) (decode_chunks m r address a (pslice a b bs) ranges)"
proof -
  obtain d where d: "fold_res (decode_item m r address a (pslice a b bs)) (spans ranges) (None, []) =
      bind_res (map_res (raw_item m r address bs) (spans ranges)) (\<lambda>xs. Inr (d, [] @ xs))"
    using decode_items_eq [OF assms(2,4,3), of None m bs "[]"] by (auto simp: decryptor_ok_def)
  show ?thesis
  proof (cases "map_res (raw_item m r address bs) (spans ranges)")
    case (Inl e)
    then obtain i where i: "i \<in> set (spans ranges)" "raw_item m r address bs i = Inl e" using map_res_Inl by blast
    then show ?thesis
      using d Inl by (intro all_or_errorI [OF i(1)]) (simp_all add: decode_chunks_def spans_def chunk_whole_def)
  next
    case (Inr xs)
    have raw: "list_all2 (\<lambda>i x. raw_item m r address bs i = Inr x) (spans ranges) xs" using Inr by (simp add: map_res_Inr_iff)
    then have "list_all2 (\<lambda>i x. fst x = i) (spans ranges) xs"
      by (rule list_all2_mono) (auto simp: raw_item_def res_simps)
    then have fst_xs: "map fst xs = spans ranges" by (auto simp: list_all2_conv_all_nth intro!: nth_equalityI)
    have dec: "decode_chunks m r address a (pslice a b bs) ranges =
        bind_res (decompress_many (m_codec m) (map snd xs)) (\<lambda>plains. Inr (zip (spans ranges) plains))"
      using d Inr fst_xs by (simp add: decode_chunks_def spans_def)
    have both: "map_res (chunk_whole m r address bs) (spans ranges) = Inr ps \<longleftrightarrow>
        map_res (\<lambda>(t, d). decompress_whole (m_codec m) t d) (map snd xs) = Inr ps" for ps
      unfolding chunk_whole_def map_res_bind Inr by (simp add: map_res_Inr_iff list_all2_map1 case_prod_unfold)
    note many = decompress_many_whole [OF assms(1), of "map snd xs"]
    show ?thesis
    proof (cases "map_res (\<lambda>(t, d). decompress_whole (m_codec m) t d) (map snd xs)")
      case (Inr ps)
      then show ?thesis using many dec both [of ps] by (simp add: all_or_error_simps(1))
    next
      case (Inl e)
      then obtain e' x where e': "decompress_many (m_codec m) (map snd xs) = Inl e'" "x \<in> set xs"
        "decompress_whole (m_codec m) (fst (snd x)) (snd (snd x)) = Inl e'"
        using many by auto
      then obtain k where k: "k < length xs" "x = xs ! k" by (auto simp: in_set_conv_nth)
      then have "raw_item m r address bs (spans ranges ! k) = Inr x" "k < length (spans ranges)"
        using raw by (auto simp: list_all2_conv_all_nth)
      then show ?thesis
        using dec e' by (intro all_or_errorI [of "spans ranges ! k"]) (simp_all add: chunk_whole_def case_prod_unfold)
    qed
  qed
qed

subsection \<open>Batch reads are single reads\<close>

text \<open>
  The store's read contract for the reader's file; and a reader as its first checked read
  leaves it.
\<close>

definition file_behind :: "store \<Rightarrow> bucket_reader \<Rightarrow> bytes \<Rightarrow> bool" where
  "file_behind st r bs \<longleftrightarrow> (\<forall>a n. st_read st (br_path r) a (Some n) = Inr (pslice a (a + n) bs))"

definition readied :: "store \<Rightarrow> bucket_reader \<Rightarrow> bucket_reader \<Rightarrow> bool" where
  "readied st r r' \<longleftrightarrow> (if br_verify r then \<exists>v. ensure_chunk_crc_store st r = (Inr v, r') else r' = r)"

lemma readied_fields:
  assumes "readied st r r'"
  shows "br_path r' = br_path r" "br_header r' = br_header r" "br_index r' = br_index r" "br_vault_key r' = br_vault_key r"
    "br_algorithm r' = br_algorithm r" "br_verify r' = br_verify r"
  using assms by (auto simp: readied_def ensure_chunk_crc_store_def split: if_splits option.splits sum.splits prod.splits)

lemma resolve_type_cases:
  assumes "index_ok (br_index r) n"
  shows "resolve_compress_type r i =
    (if \<not> i < n then Inl DataCorruptError
     else if bi_compress_types (br_index r) ! i = COMPRESS_TYPE_COMPACTED_VALUE then Inl ChunkCompactedError
     else Inr (the (compress_type_by_value (bi_compress_types (br_index r) ! i))))"
proof (cases "i < n")
  case True
  then have "compress_type_by_value (bi_compress_types (br_index r) ! i) \<noteq> None" using assms by (simp add: index_ok_def)
  then obtain t where "compress_type_by_value (bi_compress_types (br_index r) ! i) = Some t" by blast
  then show ?thesis using True assms by (simp add: resolve_compress_type_def index_ok_def)
next
  case False
  then show ?thesis using assms by (simp add: resolve_compress_type_def index_ok_def)
qed

lemma read_chunk_eq:
  assumes ready: "readied st r r'" and behind: "file_behind st r bs" and ix: "index_ok (br_index r) n"
  shows "fst (read_chunk m st i (ChunkAddress (fst address) (snd address) i) r) =
    bind_res (resolve_compress_type r i) (\<lambda>_. chunk_plain m r' address bs i)"
proof (cases "resolve_compress_type r i")
  case (Inl e)
  then show ?thesis by (simp add: read_chunk_def read_raw_chunk_def)
next
  case (Inr t)
  note f = readied_fields [OF ready]
  have i: "i < n" and t: "t = the (compress_type_by_value (bi_compress_types (br_index r) ! i))"
    using Inr by (auto simp: resolve_type_cases [OF ix] split: if_splits)
  have raw: "read_raw_chunk st r i = Inr (stored_raw r bs i)"
    using ix i behind by (simp add: read_raw_chunk_def Inr list_get_def index_ok_def file_behind_def stored_raw_def)
  have s: "stored_raw r' bs i = stored_raw r bs i" by (simp add: stored_raw_def f)
  show ?thesis
  proof (cases "br_verify r")
    case False
    then have "r' = r" using ready by (simp add: readied_def)
    then show ?thesis using False Inr raw t
      by (simp add: read_chunk_def decode_raw_chunk_def chunk_plain_def raw_item_def bind_res_assoc)
  next
    case True
    then obtain v where v: "ensure_chunk_crc_store st r = (Inr v, r')" using ready by (auto simp: readied_def)
    have "op_bind (ensure_chunk_crc_store st) (\<lambda>_ q. (check_ciphertext_crc q i (stored_raw r bs i), q)) r =
        (check_ciphertext_crc r' i (stored_raw r bs i), r')"
      using v by simp
    then show ?thesis using True Inr raw t f s
      by (cases "check_ciphertext_crc r' i (stored_raw r bs i)")
        (simp_all add: read_chunk_def decode_raw_chunk_def chunk_plain_def raw_item_def bind_res_assoc)
  qed
qed

definition ranges_ok :: "(nat \<times> nat) list \<Rightarrow> bool" where
  "ranges_ok ranges \<longleftrightarrow> separated ranges \<and> (\<forall>x \<in> set ranges. 0 < snd x)"

lemma check_ranges_ok:
  assumes "index_ok (br_index r) n"
  shows "(\<forall>i \<in> set (all_indices ranges). \<exists>t. resolve_compress_type r i = Inr t) \<and> (\<forall>x \<in> set ranges. 0 < snd x) \<Longrightarrow>
      fold_res (\<lambda>x _. check_range r x) ranges () = Inr () \<and> (\<forall>(start, len) \<in> set ranges. 0 < len \<and> start + len \<le> n)"
    and "fold_res (\<lambda>x _. check_range r x) ranges () = Inr () \<Longrightarrow> i \<in> set (all_indices ranges) \<Longrightarrow>
      \<exists>t. resolve_compress_type r i = Inr t"
proof -
  have one: "check_range r (start, len) = Inr () \<and> start + len \<le> n"
    if "\<forall>i \<in> {start..<start + len}. \<exists>t. resolve_compress_type r i = Inr t" "0 < len" for start len
  proof -
    have "\<exists>t. resolve_compress_type r (start + len - 1) = Inr t" using that by simp
    then have n: "start + len \<le> n" using that(2) by (auto simp: resolve_type_cases [OF assms] split: if_splits)
    have "find (\<lambda>i. bi_compress_types (br_index r) ! i = COMPRESS_TYPE_COMPACTED_VALUE) [start..<start + len] = None"
      using that(1) by (force simp: find_None_iff resolve_type_cases [OF assms] split: if_splits)
    then show ?thesis using n assms by (simp add: check_range_def index_ok_def)
  qed
  show "(\<forall>i \<in> set (all_indices ranges). \<exists>t. resolve_compress_type r i = Inr t) \<and> (\<forall>x \<in> set ranges. 0 < snd x) \<Longrightarrow>
      fold_res (\<lambda>x _. check_range r x) ranges () = Inr () \<and> (\<forall>(start, len) \<in> set ranges. 0 < len \<and> start + len \<le> n)"
  proof (induction ranges)
    case (Cons x ranges)
    obtain start len where x: "x = (start, len)" by (cases x)
    have "check_range r (start, len) = Inr () \<and> start + len \<le> n"
      using Cons.prems x by (intro one) (auto simp: range_indices_def)
    then show ?case using Cons x by auto
  qed simp
  have other: "\<exists>t. resolve_compress_type r i = Inr t" if "check_range r (start, len) = Inr ()" "start \<le> i" "i < start + len" for start len
  proof -
    have l: "start + len \<le> n" using that(1) assms by (auto simp: check_range_def index_ok_def Let_def split: if_splits)
    have "find (\<lambda>i. bi_compress_types (br_index r) ! i = COMPRESS_TYPE_COMPACTED_VALUE) [start..<start + len] = None"
    proof (rule ccontr)
      assume "\<not> ?thesis"
      then obtain j where j: "find (\<lambda>i. bi_compress_types (br_index r) ! i = COMPRESS_TYPE_COMPACTED_VALUE) [start..<start + len] = Some j" by auto
      then have "bi_compress_types (br_index r) ! j = COMPRESS_TYPE_COMPACTED_VALUE" "j < n"
        using l by (auto simp: find_Some_iff)
      then show False using that(1) j l assms by (simp add: check_range_def resolve_type_cases [OF assms] index_ok_def)
    qed
    then show ?thesis using that(2,3) l by (auto simp: resolve_type_cases [OF assms] find_None_iff)
  qed
  show "fold_res (\<lambda>x _. check_range r x) ranges () = Inr () \<Longrightarrow> i \<in> set (all_indices ranges) \<Longrightarrow>
      \<exists>t. resolve_compress_type r i = Inr t"
  proof (induction ranges)
    case (Cons x ranges)
    obtain start len where x: "x = (start, len)" by (cases x)
    show ?case using Cons x other by (auto simp: res_simps range_indices_def)
  qed simp
qed

lemma dict_update_append: "dict_update (xs @ ys) d = dict_update ys (dict_update xs d)"
  by (simp add: dict_update_def)

lemma update_fresh: "k \<notin> fst ` set d \<Longrightarrow> AList.update k v d = d @ [(k, v)]"
  by (induction d) auto

lemma dict_update_fresh: "distinct (map fst (d @ kvs)) \<Longrightarrow> dict_update kvs d = d @ kvs"
proof (induction kvs arbitrary: d)
  case (Cons p kvs)
  obtain k v where p: "p = (k, v)" by (cases p)
  have "AList.update k v d = d @ [(k, v)]" using Cons.prems p by (intro update_fresh) auto
  then show ?case using Cons.IH [of "d @ [(k, v)]"] Cons.prems p by (simp add: dict_update_def)
qed (simp add: dict_update_def)

lemma read_run_spec:
  assumes "zstd_documented (m_codec m)" and ix: "index_ok (br_index r) n" and "address_ok address n"
    and behind: "file_behind st r bs" and good: "run_good (br_index r) run" and "\<forall>i \<in> set (run_idxs run). i < n"
  shows "all_or_error (chunk_whole m r address bs) (run_idxs run) (zip (run_idxs run)) (read_run m st r address run)"
proof -
  let ?b = "ir_start run + (ir_end run - ir_start run)"
  have "\<forall>i \<in> set (spans (ir_chunks run)). i < n \<and> chunk_within (br_index r) (ir_start run) ?b i"
    using good assms(6) by (auto simp: run_good_def run_idxs_def chunk_within_def)
  note dec = decode_chunks_spec [OF assms(1) ix assms(3) this, of bs]
  have eq: "read_run m st r address run = decode_chunks m r address (ir_start run) (pslice (ir_start run) ?b bs) (ir_chunks run)"
    using behind by (simp add: read_run_def file_behind_def)
  show ?thesis unfolding eq run_idxs_def by (rule dec)
qed

lemma map_res_append: "map_res f (xs @ ys) = bind_res (map_res f xs) (\<lambda>us. bind_res (map_res f ys) (\<lambda>vs. Inr (us @ vs)))"
  by (induction xs) (simp_all add: bind_res_assoc bind_res_def split: sum.splits)

lemma map_res_length: "map_res f xs = Inr ys \<Longrightarrow> length ys = length xs"
  by (simp add: map_res_Inr_iff list_all2_lengthD)

lemma read_runs_spec:
  assumes "zstd_documented (m_codec m)" and "index_ok (br_index r) n" and "address_ok address n"
    and "file_behind st r bs" and "\<forall>run \<in> set runs. run_good (br_index r) run \<and> (\<forall>i \<in> set (run_idxs run). i < n)"
  shows "all_or_error (chunk_whole m r address bs) (concat (map run_idxs runs)) (\<lambda>ps. dict_update (zip (concat (map run_idxs runs)) ps) d)
    (fold_res (\<lambda>run d. bind_res (read_run m st r address run) (\<lambda>new. Inr (dict_update new d))) runs d)"
  using assms(5)
proof (induction runs arbitrary: d)
  case Nil
  then show ?case by (simp add: dict_update_def all_or_error_def)
next
  case (Cons run runs)
  let ?f = "chunk_whole m r address bs"
  have run: "all_or_error ?f (run_idxs run) (zip (run_idxs run)) (read_run m st r address run)"
    using read_run_spec [OF assms(1-4)] Cons.prems by simp
  show ?case
  proof (cases "read_run m st r address run")
    case (Inl e)
    then obtain i where "i \<in> set (run_idxs run)" "?f i = Inl e" using all_or_errorD(2) [OF run] by blast
    then show ?thesis using Inl by (intro all_or_errorI [of i]) simp_all
  next
    case (Inr new)
    then obtain ps where ps: "map_res ?f (run_idxs run) = Inr ps" "new = zip (run_idxs run) ps" using all_or_errorD(1) [OF run] by blast
    have l: "length ps = length (run_idxs run)" using ps(1) by (rule map_res_length)
    note ih = Cons.IH [of "dict_update new d"]
    show ?thesis
    proof (cases "map_res ?f (concat (map run_idxs runs))")
      case (Inl e)
      then show ?thesis using ih Cons.prems Inr ps by (auto simp: all_or_error_def map_res_append)
    next
      case all: (Inr qs)
      then show ?thesis using ih Cons.prems Inr ps l by (auto simp: all_or_error_def map_res_append dict_update_append zip_append)
    qed
  qed
qed

lemma fold_res_Inl: "fold_res f xs s = Inl e \<Longrightarrow> \<exists>x \<in> set xs. \<exists>s. f x s = Inl e"
  by (induction xs arbitrary: s) (auto simp: res_simps)

text \<open>A range that is refused holds a chunk whose own lookup raises the same.\<close>

lemma check_range_error:
  assumes "index_ok (br_index r) n" and "check_range r x = Inl e" and "0 < snd x"
  shows "\<exists>i \<in> set (range_indices x). resolve_compress_type r i = Inl e"
proof -
  obtain start len where x: "x = (start, len)" by (cases x)
  show ?thesis
  proof (cases "n < start + len")
    case True
    then have "resolve_compress_type r (start + len - 1) = Inl e"
      using assms x by (simp add: resolve_type_cases [OF assms(1)] check_range_def index_ok_def)
    then show ?thesis using assms(3) x by (intro bexI [of _ "start + len - 1"]) (auto simp: range_indices_def)
  next
    case False
    let ?find = "find (\<lambda>i. bi_compress_types (br_index r) ! i = COMPRESS_TYPE_COMPACTED_VALUE) [start..<start + len]"
    obtain i where i: "?find = Some i" "resolve_compress_type r i = Inl e"
      using assms(1,2) x False by (auto simp: check_range_def index_ok_def res_simps split: option.splits)
    then have "i \<in> set [start..<start + len]" by (auto simp: find_Some_iff)
    then show ?thesis using i x by (auto simp: range_indices_def)
  qed
qed

text \<open>
  The chunks of a request, read one by one.
\<close>

definition single_reads :: "machine \<Rightarrow> store \<Rightarrow> nat \<times> nat \<Rightarrow> bucket_reader \<Rightarrow> nat list \<Rightarrow> bytes list res" where
  "single_reads m st address r = map_res (\<lambda>i. fst (read_chunk m st i (ChunkAddress (fst address) (snd address) i) r))"

lemma read_chunks_spec:
  assumes zstd: "zstd_documented (m_codec m)" and ix: "index_ok (br_index r) n" and ad: "address_ok address n"
    and behind: "file_behind st r bs" and ready: "readied st r r'" and req: "ranges_ok ranges" and ne: "ranges \<noteq> []"
  shows "all_or_error (\<lambda>i. bind_res (resolve_compress_type r i) (\<lambda>_. chunk_whole m r' address bs i)) (all_indices ranges)
      (zip (all_indices ranges)) (fst (read_chunks m st (fst address) (snd address) ranges r))"
    and "snd (read_chunks m st (fst address) (snd address) ranges r) = r'"
proof -
  note f = readied_fields [OF ready]
  let ?single = "\<lambda>i. bind_res (resolve_compress_type r i) (\<lambda>_. chunk_whole m r' address bs i)"
  have pr: "planned_runs st ranges r =
      (bind_res (fold_res (\<lambda>x _. check_range r' x) ranges ()) (\<lambda>_. plan_index_runs (br_index r) ranges), r')"
    using ready ne f by (auto simp: planned_runs_def readied_def op_bind_def split: if_splits)
  have rt: "resolve_compress_type r' = resolve_compress_type r" by (rule ext) (simp add: resolve_compress_type_def f)
  have cr: "check_range r' = check_range r" by (rule ext) (simp only: check_range_def rt f)
  show "snd (read_chunks m st (fst address) (snd address) ranges r) = r'"
    using pr by (simp add: read_chunks_def op_bind_def split: sum.split)
  have dist: "distinct (all_indices ranges)"
    using req separated_indices strict_sorted_iff by (auto simp: ranges_ok_def)
  show "all_or_error ?single (all_indices ranges) (zip (all_indices ranges)) (fst (read_chunks m st (fst address) (snd address) ranges r))"
  proof (cases "fold_res (\<lambda>x _. check_range r x) ranges ()")
    case (Inl e)
    then obtain x where x: "x \<in> set ranges" "check_range r x = Inl e"
      using fold_res_Inl [of "\<lambda>x _. check_range r x" ranges "()" e] by auto
    have "0 < snd x" using req x(1) by (simp add: ranges_ok_def)
    then have "\<exists>i \<in> set (range_indices x). resolve_compress_type r i = Inl e" by (rule check_range_error [OF ix x(2)])
    then obtain i where i: "i \<in> set (range_indices x)" "resolve_compress_type r i = Inl e" by (elim bexE)
    then show ?thesis
      using x(1) Inl pr cr by (intro all_or_errorI [of i]) (auto simp: read_chunks_def op_bind_def all_indices_def)
  next
    case (Inr u)
    then have True: "fold_res (\<lambda>x _. check_range r x) ranges () = Inr ()" by simp
    have types: "\<forall>i \<in> set (all_indices ranges). \<exists>t. resolve_compress_type r i = Inr t"
      using check_ranges_ok(2) [OF ix True] by blast
    have bounds: "\<forall>(start, len) \<in> set ranges. 0 < len \<and> start + len \<le> n"
      using check_ranges_ok(1) [OF ix, of ranges] types req by (auto simp: ranges_ok_def)
    have lt: "i < n" if "i \<in> set (all_indices ranges)" for i
      using types that by (auto simp: resolve_type_cases [OF ix] split: if_splits)
    obtain runs where runs: "plan_index_runs (br_index r) ranges = Inr runs" "concat (map run_idxs runs) = all_indices ranges"
      "\<forall>run \<in> set runs. run_good (br_index r) run"
      using plan_index_runs_spec [OF ix bounds] by blast
    have single: "\<forall>i \<in> set (all_indices ranges). ?single i = chunk_whole m r' address bs i" using types by auto
    then have all: "map_res ?single (all_indices ranges) = map_res (chunk_whole m r' address bs) (all_indices ranges)"
      by (intro map_res_cong refl) auto
    have inr: "\<forall>run \<in> set runs. run_good (br_index r') run \<and> (\<forall>i \<in> set (run_idxs run). i < n)"
    proof (intro ballI conjI)
      fix run assume run: "run \<in> set runs"
      then show "run_good (br_index r') run" using runs(3) f by simp
      fix i assume "i \<in> set (run_idxs run)"
      then have "i \<in> set (concat (map run_idxs runs))" using run by auto
      then show "i < n" unfolding runs(2) by (rule lt)
    qed
    have ix': "index_ok (br_index r') n" and behind': "file_behind st r' bs" using ix behind f by (simp_all add: file_behind_def)
    note rr = read_runs_spec [OF zstd ix' ad behind' inr, of "[]", unfolded runs(2)]
    have rc: "fst (read_chunks m st (fst address) (snd address) ranges r) =
        fold_res (\<lambda>run d. bind_res (read_run m st r' address run) (\<lambda>new. Inr (dict_update new d))) runs []"
      using True pr cr runs(1) by (simp add: read_chunks_def op_bind_def)
    show ?thesis
    proof (cases "map_res (chunk_whole m r' address bs) (all_indices ranges)")
      case (Inl e)
      then show ?thesis using rr rc single all by (auto simp: all_or_error_simps(2))
    next
      case (Inr ps)
      have "length ps = length (all_indices ranges)" using Inr by (rule map_res_length)
      then have "dict_update (zip (all_indices ranges) ps) [] = zip (all_indices ranges) ps"
        using dist by (simp add: dict_update_fresh)
      then show ?thesis using rr rc Inr all by (simp add: all_or_error_simps(1))
    qed
  qed
qed

text \<open>A single read is the whole read of the chunk, unless the chunk is a torn frame.\<close>

lemma whole_single:
  fixes address :: "nat \<times> nat"
  assumes "zstd_documented (m_codec m)" and "readied st r r'" and "file_behind st r bs" and "index_ok (br_index r) n"
  defines "single \<equiv> \<lambda>i. fst (read_chunk m st i (ChunkAddress (fst address) (snd address) i) r)"
    and "whole \<equiv> \<lambda>i. bind_res (resolve_compress_type r i) (\<lambda>_. chunk_whole m r' address bs i)"
  shows "stored_whole m r' address bs i \<Longrightarrow> whole i = single i" and "whole i = Inr p \<Longrightarrow> single i = Inr p"
    and "whole i = Inl e \<Longrightarrow> single i = Inl e \<or> e = DataCorruptError \<and> \<not> stored_whole m r' address bs i"
proof -
  have eq: "single i = bind_res (resolve_compress_type r i) (\<lambda>_. chunk_plain m r' address bs i)"
    unfolding single_def by (rule read_chunk_eq [OF assms(2-4)])
  then show "stored_whole m r' address bs i \<Longrightarrow> whole i = single i"
    by (simp add: whole_def chunk_whole_eq [OF assms(1)])
  show "whole i = Inr p \<Longrightarrow> single i = Inr p"
    using chunk_whole_Inr [OF assms(1)] by (auto simp: whole_def eq res_simps)
  show "whole i = Inl e \<Longrightarrow> single i = Inl e \<or> e = DataCorruptError \<and> \<not> stored_whole m r' address bs i"
    using chunk_torn [of m r' address bs i] chunk_whole_eq [OF assms(1), of r' address bs i]
    by (cases "stored_whole m r' address bs i"; cases "resolve_compress_type r i") (auto simp: whole_def eq)
qed

text \<open>C18.
  Batched reads are single reads: for a request of separated ranges, what \<open>read_chunks\<close> returns,
  with its merged store reads, gap tolerance, lazily built decryptor and batched decompression,
  is what \<open>read_chunk\<close> returns for every index, in ascending order. When it raises, \<open>read_chunk\<close>
  of some requested index raises the same error; the one exception is a chunk stored as ZSTD
  whose data does not begin with a complete frame, for which it raises \<open>DataCorruptError\<close>. The
  bucket's file can be read and its checksum trailer loaded; nothing about the shape of the
  offsets is assumed.
\<close>

theorem batch_reads_are_single_reads:
  assumes "zstd_documented (m_codec m)" and "index_ok (br_index r) n" and "address_ok (sid, bid) n"
    and "file_behind st r bs" and "readied st r r'" and "ranges_ok ranges" and "ranges \<noteq> []"
  shows "snd (read_chunks m st sid bid ranges r) = r' \<and>
    (case fst (read_chunks m st sid bid ranges r) of
      Inr d \<Rightarrow> \<exists>ps. single_reads m st (sid, bid) r (all_indices ranges) = Inr ps \<and> d = zip (all_indices ranges) ps
    | Inl e \<Rightarrow> \<exists>i \<in> set (all_indices ranges). fst (read_chunk m st i (ChunkAddress sid bid i) r) = Inl e \<or>
        e = DataCorruptError \<and> \<not> stored_whole m r' (sid, bid) bs i)"
proof -
  note spec = read_chunks_spec [OF assms, unfolded fst_conv snd_conv]
  note whole = whole_single [OF assms(1,5,4,2), where address = "(sid, bid)", unfolded fst_conv snd_conv]
  show ?thesis
  proof (cases "fst (read_chunks m st sid bid ranges r)")
    case (Inl e)
    then show ?thesis using all_or_errorD(2) [OF spec(1) Inl] whole(3) [of _ e] spec(2) by auto
  next
    case (Inr d)
    then obtain ps where ps: "map_res (\<lambda>i. bind_res (resolve_compress_type r i) (\<lambda>_. chunk_whole m r' (sid, bid) bs i)) (all_indices ranges) = Inr ps"
      "d = zip (all_indices ranges) ps"
      using all_or_errorD(1) [OF spec(1)] by blast
    have "single_reads m st (sid, bid) r (all_indices ranges) = Inr ps"
      using ps(1) unfolding single_reads_def map_res_Inr_iff by (rule list_all2_mono) (simp add: whole(2))
    then show ?thesis using Inr ps(2) spec(2) by simp
  qed
qed

text \<open>A bucket of two chunks stored plain, behind a store that holds only this file.\<close>

definition sample_machine :: machine where
  "sample_machine = \<lparr>m_little = True, m_codec = copying_codec, m_crypto = null_crypto\<rparr>"

definition sample_bucket_bytes :: bytes where
  "sample_bucket_bytes = replicate 24576 7"

definition sample_bucket_store :: store where
  "sample_bucket_store =
     \<lparr>st_read = (\<lambda>p off len. Inr (case len of None \<Rightarrow> drop off sample_bucket_bytes
          | Some n \<Rightarrow> pslice off (off + n) sample_bucket_bytes)),
      st_size = (\<lambda>p. Inr 24576), st_exists = (\<lambda>p. Inr True), st_listdir = (\<lambda>p. Inr [])\<rparr>"

definition sample_bucket :: bucket_reader where
  "sample_bucket =
     \<lparr>br_path = ''9.buk'',
      br_header = \<lparr>bh_major = 1, bh_minor = 0, bh_mode = 0, bh_chunk_num = 2, bh_chunk_size_crc = 0, bh_crc_of_chunk_crc = 0\<rparr>,
      br_index = \<lparr>bi_compress_types = [0, 0], bi_stored_lens = [0, 0], bi_effective_lens = [4096, 4096], bi_offsets = [16384, 20480]\<rparr>,
      br_vault_key = None, br_algorithm = None, br_verify = False, br_repaired = False, br_known_size = None, br_crc = None\<rparr>"

lemma pslice_fill: "pslice a b (replicate n x) = replicate (min n b - a) x"
  by (simp add: pslice_def)

theorem batch_reads_are_single_reads_witness:
  "read_chunks sample_machine sample_bucket_store 1 9 [(0, 2)] sample_bucket =
    (Inr [(0, replicate 4096 7), (1, replicate 4096 7)], sample_bucket)"
proof -
  have one: "fst (read_chunk sample_machine sample_bucket_store i (ChunkAddress (fst (1, 9)) (snd (1, 9)) i) sample_bucket) = Inr (replicate 4096 7)"
    if "i < 2" for i
    using that
    by (auto simp: less_2_cases_iff read_chunk_def read_raw_chunk_def resolve_compress_type_def list_get_def sample_bucket_def
        sample_bucket_store_def sample_machine_def sample_bucket_bytes_def pslice_fill decode_raw_chunk_def reader_decrypt_def
        is_vault_encrypted_def compress_type_by_value_def decompress_def const_defs)
  then have singles: "single_reads sample_machine sample_bucket_store (1, 9) sample_bucket (all_indices [(0, 2)]) =
      Inr [replicate 4096 7, replicate 4096 7]"
    by (simp add: single_reads_def range_indices_def upt_rec [of 0] upt_rec [of 1])
  have plain: "raw_item sample_machine sample_bucket (1, 9) sample_bucket_bytes i = Inr (j, t, d) \<Longrightarrow> i < 2 \<Longrightarrow> t = CT_NONE" for i j t d
    by (auto simp: raw_item_def sample_bucket_def compress_type_by_value_def less_2_cases_iff res_simps)
  have whole: "stored_whole sample_machine sample_bucket (1, 9) sample_bucket_bytes i" if "i < 2" for i
    using plain [of i] that by (fastforce simp: stored_whole_def whole_frame_def)
  have idx: "all_indices [(0, 2)] = [0, 1]" by (simp add: range_indices_def upt_rec [of 0] upt_rec [of 1])
  have "snd (read_chunks sample_machine sample_bucket_store 1 9 [(0, 2)] sample_bucket) = sample_bucket \<and>
    (case fst (read_chunks sample_machine sample_bucket_store 1 9 [(0, 2)] sample_bucket) of
      Inr d \<Rightarrow> \<exists>ps. single_reads sample_machine sample_bucket_store (1, 9) sample_bucket (all_indices [(0, 2)]) = Inr ps \<and>
        d = zip (all_indices [(0, 2)]) ps
    | Inl e \<Rightarrow> \<exists>i \<in> set (all_indices [(0, 2)]).
        fst (read_chunk sample_machine sample_bucket_store i (ChunkAddress 1 9 i) sample_bucket) = Inl e \<or>
        e = DataCorruptError \<and> \<not> stored_whole sample_machine sample_bucket (1, 9) sample_bucket_bytes i)"
    by (rule batch_reads_are_single_reads [where n = 2])
      (simp_all add: copying_codec_documented sample_machine_def index_ok_def sample_bucket_def compress_type_by_value_def address_ok_def
        file_behind_def sample_bucket_store_def readied_def ranges_ok_def separated_def)
  then show ?thesis
    using one [of 0] one [of 1] whole [of 0] whole [of 1] singles [unfolded idx] unfolding idx
    by (cases "read_chunks sample_machine sample_bucket_store 1 9 [(0, 2)] sample_bucket") (auto split: sum.splits)
qed

end
