(* ===== verification/Fingerprint.thy ===== *)
theory Fingerprint
  imports Listing Cache StateRes Headers BucketReader
begin

text \<open>
  \<open>sdk/dedup/fingerprint.py\<close>: where the stored digest of a chunk is, through the allocation
  table of its group of buckets, and the batched reads of the digests.
\<close>

definition ALLOC_TABLE_OFFSET :: nat where [const_defs]: "ALLOC_TABLE_OFFSET = 12288"
definition ALLOC_ENTRY_LENGTH :: nat where [const_defs]: "ALLOC_ENTRY_LENGTH = 8"
definition ALLOC_TABLE_LENGTH :: nat where [const_defs]: "ALLOC_TABLE_LENGTH = GROUP_BUCKET_NUM * ALLOC_ENTRY_LENGTH"
definition OFFSET4K_SHIFT :: nat where [const_defs]: "OFFSET4K_SHIFT = 15"
definition OFFSET4K_UNIT :: nat where [const_defs]: "OFFSET4K_UNIT = 4096"
definition RECNUM_MASK :: nat where [const_defs]: "RECNUM_MASK = push_bit 15 1 - 1"
definition FGP_RECORD_LENGTH :: nat where [const_defs]: "FGP_RECORD_LENGTH = 32"
definition FGP_SEGMENT_SIZE :: nat where [const_defs]: "FGP_SEGMENT_SIZE = 4 * 2 ^ 20"

definition group_dir_and_prefix :: "string \<Rightarrow> nat \<Rightarrow> nat \<Rightarrow> (string \<times> string) res" where
  "group_dir_and_prefix pool_root sid bid =
     (let (dir_part, leaf) = split_layer_leaf (pool_layer_path sid (group_start_bucket_id bid)) in
      bind_res (join_path [pool_root, dir_part]) (\<lambda>d. Inr (d, leaf)))"

record group_table =
  gt_full_dir :: string
  gt_prefix :: string
  gt_inf_path :: string
  gt_table :: bytes

record bucket_allocation =
  ba_group :: group_table
  ba_byte_off :: nat
  ba_rec_num :: nat

subsection \<open>Runs of records\<close>

text \<open>One iteration of \<open>_group_contiguous_runs\<close>: the runs so far, \<open>start\<close>, \<open>prev\<close> and \<open>segment_end\<close>.\<close>

definition fgp_segment :: "nat \<Rightarrow> nat \<Rightarrow> nat" where
  "fgp_segment byte_off idx = (byte_off + idx * FGP_RECORD_LENGTH) div FGP_SEGMENT_SIZE"

definition fgp_segment_end :: "nat \<Rightarrow> nat \<Rightarrow> int" where
  "fgp_segment_end byte_off idx =
     - ((- (int ((fgp_segment byte_off idx + 1) * FGP_SEGMENT_SIZE) - int byte_off)) div int FGP_RECORD_LENGTH)"

type_synonym run_state = "(nat \<times> nat) list \<times> int \<times> int \<times> int"

definition contiguous_step :: "nat \<Rightarrow> nat \<Rightarrow> run_state \<Rightarrow> run_state" where
  "contiguous_step byte_off idx s =
     (let (runs, start, prev, segment_end) = s in
      if int idx = prev + 1 \<and> int idx < segment_end then (runs, start, int idx, segment_end)
      else (if 0 \<le> start then runs @ [(nat start, nat (prev - start + 1))] else runs,
            int idx, int idx, fgp_segment_end byte_off idx))"

definition group_contiguous_runs :: "nat list \<Rightarrow> nat \<Rightarrow> (nat \<times> nat) list" where
  "group_contiguous_runs chunk_indices byte_off =
     (let (runs, start, prev, _) = fold (contiguous_step byte_off) (sorted_list_of_set (set chunk_indices)) ([], -1, -1, -1) in
      if 0 \<le> start then runs @ [(nat start, nat (prev - start + 1))] else runs)"

subsection \<open>Lookups\<close>

type_synonym table_cache = "(nat \<times> nat, group_table) cache"

definition load_group_table :: "store \<Rightarrow> string \<Rightarrow> nat \<Rightarrow> nat \<Rightarrow> group_table res" where
  "load_group_table st pool_root sid bid =
     bind_res (group_dir_and_prefix pool_root sid bid) (\<lambda>(full_dir, prefix).
     bind_res (resolve_seq_path st full_dir (prefix @ ''.inf'')) (\<lambda>inf_path.
     bind_res (st_read st inf_path 0 (Some HEADER_LEN)) (\<lambda>header_bytes.
     bind_res (parse_index_header header_bytes MAGIC_bucket_meta None) (\<lambda>_.
     bind_res (st_read st inf_path ALLOC_TABLE_OFFSET (Some ALLOC_TABLE_LENGTH)) (\<lambda>table.
       Inr \<lparr>gt_full_dir = full_dir, gt_prefix = prefix, gt_inf_path = inf_path, gt_table = table\<rparr>)))))"

definition allocation_of :: "nat \<Rightarrow> group_table \<Rightarrow> bucket_allocation res" where
  "allocation_of bid g =
     (let entry_off = (bid AND (GROUP_BUCKET_NUM - 1)) * ALLOC_ENTRY_LENGTH;
          entry = pslice entry_off (entry_off + ALLOC_ENTRY_LENGTH) (gt_table g) in
      if length entry < 4 then Inl FormatError
      else let raw_pos = be_nat (take 4 entry) in
        Inr \<lparr>ba_group = g, ba_byte_off = drop_bit OFFSET4K_SHIFT raw_pos * OFFSET4K_UNIT, ba_rec_num = raw_pos AND RECNUM_MASK\<rparr>)"

definition allocation :: "store \<Rightarrow> string \<Rightarrow> nat \<Rightarrow> nat \<Rightarrow> (table_cache, bucket_allocation) op" where
  "allocation st pool_root sid bid =
     op_bind (resolve_now (\<lambda>_. load_group_table st pool_root sid bid) (sid, group_start_bucket_id bid))
       (\<lambda>g. op_lift (allocation_of bid g))"

definition fgp_read_run :: "store \<Rightarrow> bucket_allocation \<Rightarrow> nat \<times> nat \<Rightarrow> (nat \<times> bytes) list res" where
  "fgp_read_run st al run =
     (let (run_start, run_length) = run; g = ba_group al in
      if int (ba_rec_num al) \<le> int run_start + int run_length - 1 then Inl DataCorruptError
      else
        let fp_start = ba_byte_off al + run_start * FGP_RECORD_LENGTH;
            seg_idx = fp_start div FGP_SEGMENT_SIZE;
            sub_offset = fp_start mod FGP_SEGMENT_SIZE;
            len = run_length * FGP_RECORD_LENGTH in
        bind_res (resolve_seq_path st (gt_full_dir g) (gt_prefix g @ ''_'' @ dec_str seg_idx @ ''.fgp'')) (\<lambda>fgp_path.
        bind_res (st_read st fgp_path sub_offset (Some len)) (\<lambda>blob.
          if length blob \<noteq> len then Inl FormatError
          else Inr (map (\<lambda>i. (run_start + i, pslice (i * FGP_RECORD_LENGTH) (i * FGP_RECORD_LENGTH + FGP_RECORD_LENGTH) blob))
                     [0..<run_length]))))"

definition digests_from :: "store \<Rightarrow> bucket_allocation \<Rightarrow> nat list \<Rightarrow> (nat \<times> bytes) list res" where
  "digests_from st al chunk_indices =
     fold_res (\<lambda>run d. bind_res (fgp_read_run st al run) (\<lambda>new. Inr (dict_update new d)))
       (group_contiguous_runs chunk_indices (ba_byte_off al)) []"

definition digests :: "store \<Rightarrow> string \<Rightarrow> nat \<Rightarrow> nat \<Rightarrow> nat list \<Rightarrow> (table_cache, (nat \<times> bytes) list) op" where
  "digests st pool_root sid bid chunk_indices =
     op_bind (allocation st pool_root sid bid) (\<lambda>al. op_lift (digests_from st al chunk_indices))"

subsection \<open>The runs cover the indices, one segment each\<close>

definition one_segment :: "nat \<Rightarrow> nat \<times> nat \<Rightarrow> bool" where
  "one_segment byte_off r \<longleftrightarrow> (\<forall>i \<in> set (range_indices r). fgp_segment byte_off i = fgp_segment byte_off (fst r))"

lemma below_segment_end:
  assumes "int j < fgp_segment_end byte_off i" and "i \<le> j"
  shows "fgp_segment byte_off j = fgp_segment byte_off i"
proof -
  let ?R = "FGP_RECORD_LENGTH" and ?S = "FGP_SEGMENT_SIZE" and ?k = "fgp_segment byte_off i"
  have R: "0 < int ?R" and S: "0 < ?S" by (simp_all add: FGP_RECORD_LENGTH_def FGP_SEGMENT_SIZE_def)
  have "(- (int ((?k + 1) * ?S) - int byte_off)) div int ?R < - int j" using assms(1) by (simp add: fgp_segment_end_def)
  moreover have "- int j \<le> (- (int ((?k + 1) * ?S) - int byte_off)) div int ?R"
    if "- int j * int ?R \<le> - (int ((?k + 1) * ?S) - int byte_off)"
    using zdiv_mono1 [OF that R] nonzero_mult_div_cancel_right [of "int ?R" "- int j"] R by linarith
  ultimately have "- (int ((?k + 1) * ?S) - int byte_off) < - int j * int ?R" by (meson not_le)
  then have "int byte_off + int j * int ?R < int ((?k + 1) * ?S)" by linarith
  then have "byte_off + j * ?R < (?k + 1) * ?S" by (simp only: of_nat_less_iff flip: of_nat_mult of_nat_add)
  moreover have "i * ?R \<le> j * ?R" using assms(2) by (rule mult_le_mono1)
  moreover have "?k * ?S \<le> byte_off + i * ?R" unfolding fgp_segment_def by (rule div_times_less_eq_dividend)
  ultimately have "byte_off + j * ?R < (?k + 1) * ?S" "?k * ?S \<le> byte_off + j * ?R" by linarith+
  then have "(byte_off + j * ?R) div ?S = ?k" using S by (intro div_nat_eqI) (simp_all add: mult.commute)
  then show ?thesis by (simp add: fgp_segment_def)
qed

definition run_state_ok :: "nat \<Rightarrow> nat list \<Rightarrow> run_state \<Rightarrow> bool" where
  "run_state_ok byte_off xs s \<longleftrightarrow>
     (case s of (runs, start, prev, segment_end) \<Rightarrow>
        (\<forall>r \<in> set runs. one_segment byte_off r \<and> 0 < snd r) \<and>
        (if start < 0 then runs = [] \<and> xs = [] \<and> start = -1 \<and> prev = -1 \<and> segment_end = -1
         else start \<le> prev \<and> all_indices runs @ [nat start..<nat prev + 1] = xs \<and>
           one_segment byte_off (nat start, nat (prev - start + 1)) \<and> segment_end = fgp_segment_end byte_off (nat start)))"

lemma nat_run_len: "a \<le> p \<Longrightarrow> nat (int p - int a + 1) = Suc p - a"
  by simp

lemma contiguous_step_ok:
  assumes "run_state_ok byte_off xs s"
  shows "run_state_ok byte_off (xs @ [i]) (contiguous_step byte_off i s)"
proof -
  obtain runs start prev se where s: "s = (runs, start, prev, se)" by (cases s)
  have fresh: "one_segment byte_off (i, 1)" by (simp add: one_segment_def range_indices_def)
  show ?thesis
  proof (cases "start < 0")
    case True
    then show ?thesis using assms fresh by (auto simp: s run_state_ok_def contiguous_step_def)
  next
    case False
    have ok: "\<forall>r \<in> set runs. one_segment byte_off r \<and> 0 < snd r" "start \<le> prev" "all_indices runs @ [nat start..<nat prev + 1] = xs"
      "one_segment byte_off (nat start, nat (prev - start + 1))" "se = fgp_segment_end byte_off (nat start)"
      using assms False by (simp_all add: s run_state_ok_def)
    obtain a where a: "start = int a" using False zero_le_imp_eq_int [of start] by auto
    obtain p where p: "prev = int p" using False ok(2) zero_le_imp_eq_int [of prev] by auto
    have ap: "a \<le> p" using ok(2) a p by simp
    show ?thesis
    proof (cases "int i = prev + 1 \<and> int i < se")
      case True
      have ip: "i = Suc p" using True p by simp
      then have "a \<le> i" using ap by simp
      have "fgp_segment byte_off i = fgp_segment byte_off a"
        using True ok(5) ip ap a by (intro below_segment_end) simp_all
      moreover have "one_segment byte_off (a, Suc p - a)" using ok(4) by (simp add: a p nat_run_len [OF ap])
      moreover have "set (range_indices (a, Suc i - a)) = insert i (set (range_indices (a, Suc p - a)))"
      proof -
        have "{a..<Suc i} = insert i {a..<Suc p}" using ap by (auto simp: ip)
        then show ?thesis using ap by (simp add: range_indices_def ip insert_commute)
      qed
      ultimately have "one_segment byte_off (a, Suc i - a)"
        unfolding one_segment_def fst_conv by simp
      moreover have step: "contiguous_step byte_off i s = (runs, int a, int i, se)"
        using True by (simp add: s contiguous_step_def a)
      moreover have "all_indices runs @ [a..<Suc i] = xs @ [i]"
        using ok(3) ap by (simp add: a p ip)
      moreover have "nat (int i - int a + 1) = Suc i - a" using ap ip by (intro nat_run_len) simp
      ultimately show ?thesis
        using ok(1,5) \<open>a \<le> i\<close> unfolding step by (simp add: run_state_ok_def a del: upt_Suc)
    next
      case nf: False
      have "range_indices (a, Suc p - a) = [a..<Suc p]" using ap by (simp add: range_indices_def)
      moreover have step: "contiguous_step byte_off i s = (runs @ [(a, Suc p - a)], int i, int i, fgp_segment_end byte_off i)"
        using nf unfolding s contiguous_step_def Let_def a p nat_run_len [OF ap] by auto
      moreover have "all_indices runs @ [a..<Suc p] = xs" "one_segment byte_off (a, Suc p - a)"
        using ok(3,4) by (simp_all add: a p nat_run_len [OF ap] del: upt_Suc)
      moreover have "[i..<Suc i] = [i]" by simp
      ultimately show ?thesis
        using ok(1) fresh ap unfolding step by (simp add: run_state_ok_def del: upt_Suc)
    qed
  qed
qed

lemma contiguous_fold: "run_state_ok byte_off xs s \<Longrightarrow> run_state_ok byte_off (xs @ ys) (fold (contiguous_step byte_off) ys s)"
proof (induction ys arbitrary: xs s)
  case (Cons y ys)
  show ?case using Cons.IH [OF contiguous_step_ok [OF Cons.prems, of y]] by simp
qed simp

lemma contiguous_runs_spec:
  "all_indices (group_contiguous_runs xs byte_off) = sorted_list_of_set (set xs) \<and>
   (\<forall>r \<in> set (group_contiguous_runs xs byte_off). one_segment byte_off r \<and> 0 < snd r)"
proof -
  let ?ys = "sorted_list_of_set (set xs)"
  obtain runs start prev se where f: "fold (contiguous_step byte_off) ?ys ([], -1, -1, -1) = (runs, start, prev, se)"
    by (cases "fold (contiguous_step byte_off) ?ys ([], -1, -1, -1)")
  have "run_state_ok byte_off [] ([], -1, -1, -1)" by (simp add: run_state_ok_def)
  from contiguous_fold [OF this, of ?ys] have ok: "run_state_ok byte_off ?ys (runs, start, prev, se)" by (simp add: f)
  show ?thesis
  proof (cases "start < 0")
    case True
    then show ?thesis using ok by (auto simp: group_contiguous_runs_def f run_state_ok_def)
  next
    case False
    have le: "start \<le> prev" using ok False by (simp add: run_state_ok_def)
    obtain a where a: "start = int a" using False zero_le_imp_eq_int [of start] by auto
    obtain p where p: "prev = int p" using False le zero_le_imp_eq_int [of prev] by auto
    have ap: "a \<le> p" using le a p by simp
    have "range_indices (a, Suc p - a) = [a..<Suc p]" using ap by (simp add: range_indices_def)
    then show ?thesis
      using ok ap by (auto simp: group_contiguous_runs_def f run_state_ok_def a p nat_run_len [OF ap] simp del: upt_Suc)
  qed
qed

subsection \<open>Batched digests\<close>

text \<open>The stored digest of a record: its segment file is there and holds it whole.\<close>

definition fgp_path :: "store \<Rightarrow> bucket_allocation \<Rightarrow> nat \<Rightarrow> string res" where
  "fgp_path st al seg =
     resolve_seq_path st (gt_full_dir (ba_group al)) (gt_prefix (ba_group al) @ ''_'' @ dec_str seg @ ''.fgp'')"

definition fgp_sub :: "nat \<Rightarrow> nat \<Rightarrow> nat" where
  "fgp_sub byte_off i = (byte_off + i * FGP_RECORD_LENGTH) mod FGP_SEGMENT_SIZE"

definition stored_digest :: "store \<Rightarrow> bucket_allocation \<Rightarrow> nat \<Rightarrow> bytes \<Rightarrow> bool" where
  "stored_digest st al i d \<longleftrightarrow> i < ba_rec_num al \<and> length d = FGP_RECORD_LENGTH \<and>
     (\<exists>path blob. fgp_path st al (fgp_segment (ba_byte_off al) i) = Inr path \<and>
        (\<forall>a n. st_read st path a (Some n) = Inr (pslice a (a + n) blob)) \<and>
        pslice (fgp_sub (ba_byte_off al) i) (fgp_sub (ba_byte_off al) i + FGP_RECORD_LENGTH) blob = d)"

lemma same_div_mod:
  assumes "b div n = a div n" and "b = a + c"
  shows "b mod n = a mod n + (c :: nat)"
proof -
  have "a div n * n + b mod n = b" using assms(1) div_mult_mod_eq [of b n] by simp
  also have "\<dots> = a div n * n + (a mod n + c)" using assms(2) div_mult_mod_eq [of a n] by (simp only: add.assoc [symmetric])
  finally show ?thesis by (rule add_left_imp_eq)
qed

lemma fgp_sub_in_segment:
  assumes "fgp_segment byte_off (s + j) = fgp_segment byte_off s"
  shows "fgp_sub byte_off (s + j) = fgp_sub byte_off s + j * FGP_RECORD_LENGTH"
  unfolding fgp_sub_def
proof (rule same_div_mod)
  show "(byte_off + (s + j) * FGP_RECORD_LENGTH) div FGP_SEGMENT_SIZE = (byte_off + s * FGP_RECORD_LENGTH) div FGP_SEGMENT_SIZE"
    using assms by (simp add: fgp_segment_def)
  show "byte_off + (s + j) * FGP_RECORD_LENGTH = byte_off + s * FGP_RECORD_LENGTH + j * FGP_RECORD_LENGTH"
    by (simp only: add_mult_distrib add.assoc)
qed

lemma fgp_read_run_ok:
  assumes d: "\<forall>i \<in> set (range_indices (s, n)). stored_digest st al i (d i)" and one: "one_segment (ba_byte_off al) (s, n)" and "0 < n"
  shows "fgp_read_run st al (s, n) = Inr (map (\<lambda>i. (i, d i)) (range_indices (s, n)))"
proof -
  let ?R = FGP_RECORD_LENGTH and ?off = "ba_byte_off al"
  let ?sub = "fgp_sub ?off s"
  have R: "0 < ?R" by (simp add: FGP_RECORD_LENGTH_def)
  have mem: "s + j \<in> set (range_indices (s, n))" if "j < n" for j using that by (simp add: range_indices_def)
  have seg: "fgp_segment ?off (s + j) = fgp_segment ?off s" if "j < n" for j
    using one mem [OF that] unfolding one_segment_def fst_conv by blast
  obtain path blob where p: "fgp_path st al (fgp_segment ?off s) = Inr path" "\<forall>a n. st_read st path a (Some n) = Inr (pslice a (a + n) blob)"
  proof -
    have "stored_digest st al s (d s)" using d mem [OF assms(3)] by simp
    then show thesis using that unfolding stored_digest_def by blast
  qed
  have rec_: "pslice (?sub + j * ?R) (?sub + j * ?R + ?R) blob = d (s + j)" "length (d (s + j)) = ?R" "s + j < ba_rec_num al" if j: "j < n" for j
  proof -
    from d mem [OF j] obtain path' blob' where q: "s + j < ba_rec_num al" "length (d (s + j)) = ?R"
      "fgp_path st al (fgp_segment ?off (s + j)) = Inr path'" "\<forall>a n. st_read st path' a (Some n) = Inr (pslice a (a + n) blob')"
      "pslice (fgp_sub ?off (s + j)) (fgp_sub ?off (s + j) + ?R) blob' = d (s + j)"
      unfolding stored_digest_def by blast
    have "path' = path" using p(1) q(3) seg [OF j] by simp
    then have "pslice a (a + n) blob' = pslice a (a + n) blob" for a n using p(2) q(4) by (metis sum.inject(2))
    then show "pslice (?sub + j * ?R) (?sub + j * ?R + ?R) blob = d (s + j)" "length (d (s + j)) = ?R" "s + j < ba_rec_num al"
      using q(1,2,5) fgp_sub_in_segment [OF seg [OF j]] by simp_all
  qed
  have last: "n - 1 < n" "(n - 1) * ?R + ?R = n * ?R" using assms(3) by (simp_all add: algebra_simps flip: mult_Suc)
  have "length (pslice (?sub + (n - 1) * ?R) (?sub + (n - 1) * ?R + ?R) blob) = ?R" using rec_(1,2) [OF last(1)] by simp
  then have len: "?sub + n * ?R \<le> length blob" using last(2) R by (simp add: pslice_def min_def split: if_splits)
  have blob: "pslice (j * ?R) (j * ?R + ?R) (pslice ?sub (?sub + n * ?R) blob) = d (s + j)" if j: "j < n" for j
  proof -
    have "Suc j * ?R \<le> n * ?R" using j by (intro mult_le_mono1) simp
    then have "j * ?R + ?R \<le> n * ?R" by simp
    then show ?thesis using rec_(1) [OF j] by (simp add: pslice_pslice min_def add.assoc)
  qed
  have "s + (n - 1) < ba_rec_num al" using rec_(3) [OF last(1)] .
  then have c: "\<not> int (ba_rec_num al) \<le> int s + int n - 1" using assms(3) by linarith
  have "map (\<lambda>i. (s + i, pslice (i * ?R) (i * ?R + ?R) (pslice ?sub (?sub + n * ?R) blob))) [0..<n] = map (\<lambda>i. (i, d i)) [s..<s + n]"
    using blob by (intro nth_equalityI) simp_all
  then show ?thesis
    using c p len unfolding fgp_read_run_def fgp_path_def fgp_segment_def fgp_sub_def
    by (simp add: range_indices_def Let_def)
qed

lemma digests_from_ok:
  assumes "\<forall>i \<in> set idxs. stored_digest st al i (d i)"
  shows "digests_from st al idxs = Inr (map (\<lambda>i. (i, d i)) (sorted_list_of_set (set idxs)))"
proof -
  let ?runs = "group_contiguous_runs idxs (ba_byte_off al)"
  have ai: "all_indices ?runs = sorted_list_of_set (set idxs)" and one: "\<forall>r \<in> set ?runs. one_segment (ba_byte_off al) r \<and> 0 < snd r"
    using contiguous_runs_spec by blast+
  have "fold_res (\<lambda>run m. bind_res (fgp_read_run st al run) (\<lambda>new. Inr (dict_update new m))) rs m =
      Inr (dict_update (map (\<lambda>i. (i, d i)) (all_indices rs)) m)"
    if "set rs \<subseteq> set ?runs" for rs m
    using that
  proof (induction rs arbitrary: m)
    case Nil
    then show ?case by (simp add: dict_update_def)
  next
    case (Cons r rs)
    obtain s n where r: "r = (s, n)" by (cases r)
    have "set (range_indices r) \<subseteq> set (all_indices ?runs)" using Cons.prems by (auto simp: all_indices_def)
    then have "\<forall>i \<in> set (range_indices (s, n)). stored_digest st al i (d i)" unfolding ai r using assms by auto
    then have "fgp_read_run st al r = Inr (map (\<lambda>i. (i, d i)) (range_indices r))"
      unfolding r using one Cons.prems r by (intro fgp_read_run_ok) auto
    then show ?case using Cons by (simp add: dict_update_append)
  qed
  from this [of ?runs "[]"] have "digests_from st al idxs = Inr (dict_update (map (\<lambda>i. (i, d i)) (sorted_list_of_set (set idxs))) [])"
    by (simp add: digests_from_def ai)
  moreover have "dict_update (map (\<lambda>i. (i, d i)) (sorted_list_of_set (set idxs))) [] = map (\<lambda>i. (i, d i)) (sorted_list_of_set (set idxs))"
    by (simp add: dict_update_fresh o_def)
  ultimately show ?thesis by simp
qed

end
