(* ===== verification/Pool.thy ===== *)
theory Pool
  imports BucketReader Fingerprint DedupFile
begin

text \<open>
  \<open>sdk/dedup/pool/__init__.py\<close>: the repository-wide pool, which resolves a chunk address to
  plaintext through two caches, and the group fetches of \<open>sdk/dedup/dedup_file.py\<close> and
  \<open>decode_bucket_chunks\<close> of \<open>sdk/dedup/chunk_walk.py\<close> that read through it. Calls run one at
  a time, so a cache's \<open>resolve\<close> is the run of \<open>Cache.resolve_now\<close> with a fetch that
  itself changes the pool, and the batch lock is always free.
\<close>

subsection \<open>State\<close>

record verify_policy =
  vp_ciphertext_crc :: bool
  vp_fingerprint :: bool

definition NO_VERIFY :: verify_policy where
  "NO_VERIFY = \<lparr>vp_ciphertext_crc = False, vp_fingerprint = False\<rparr>"

definition FULL_VERIFY :: verify_policy where
  "FULL_VERIFY = \<lparr>vp_ciphertext_crc = True, vp_fingerprint = True\<rparr>"

record cache_limits =
  cl_bucket_readers :: nat
  cl_chunks :: nat
  cl_allocation_tables :: nat

text \<open>What a pool is built from; \<open>pc_sha256\<close> is \<open>hashlib.sha256(\<dots>).digest()\<close>.\<close>

record pool_config =
  pc_machine :: machine
  pc_sha256 :: "bytes \<Rightarrow> bytes"
  pc_store :: store
  pc_root :: string
  pc_vault_key :: "bytes option"
  pc_limits :: cache_limits
  pc_verify :: verify_policy

type_synonym chunk_key = "nat \<times> nat \<times> nat"

text \<open>An \<open>AES\<close> algorithm object is its key, as in \<open>Crypto\<close>.\<close>

record pool =
  po_buckets :: "(bucket_key, bucket_reader) cache"
  po_chunks :: "(chunk_key, bytes) cache"
  po_tables :: table_cache
  po_epoch :: nat
  po_algorithm :: "bytes option"

definition pool_init :: "pool_config \<Rightarrow> pool" where
  "pool_init cf =
     \<lparr>po_buckets = cache_init (Some (cl_bucket_readers (pc_limits cf))), po_chunks = cache_init (Some (cl_chunks (pc_limits cf))),
      po_tables = cache_init (Some (cl_allocation_tables (pc_limits cf))), po_epoch = 0, po_algorithm = None\<rparr>"

definition release_caches :: "pool \<Rightarrow> pool" where
  "release_caches po =
     po\<lparr>po_buckets := invalidate None (po_buckets po), po_chunks := invalidate None (po_chunks po),
        po_tables := invalidate None (po_tables po), po_epoch := po_epoch po + 1\<rparr>"

definition pool_cache_stats :: "pool \<Rightarrow> (string \<times> cache_stats) list" where
  "pool_cache_stats po =
     [(''pool.buckets'', stats (po_buckets po)), (''pool.chunks'', stats (po_chunks po)),
      (''pool.allocation_tables'', stats (po_tables po))]"

subsection \<open>Resolving through a cache\<close>

text \<open>\<open>resolve\<close> on a cache that is a field of the state its fetch runs in.\<close>

definition resolve_op ::
    "('s \<Rightarrow> ('k, 'v) cache) \<Rightarrow> ((('k, 'v) cache \<Rightarrow> ('k, 'v) cache) \<Rightarrow> 's \<Rightarrow> 's) \<Rightarrow> ('k \<Rightarrow> ('s, 'v) op) \<Rightarrow> 'k \<Rightarrow> ('s, 'v) op" where
  "resolve_op get upd fetch k s =
     (case map_of (c_store (get s)) k of
        Some v \<Rightarrow> (Inr v, upd (\<lambda>c. c\<lparr>c_hits := Suc (c_hits c), c_store := od_move_to_end k (c_store c)\<rparr>) s)
      | None \<Rightarrow>
          op_bind (fetch k) (\<lambda>v s. (Inr v, upd (store_and_evict k v) s)) (upd (\<lambda>c. c\<lparr>c_misses := Suc (c_misses c)\<rparr>) s))"

text \<open>An object in a cache, changed in place by its holder.\<close>

definition replace_cached :: "'k \<Rightarrow> 'v \<Rightarrow> ('k, 'v) cache \<Rightarrow> ('k, 'v) cache" where
  "replace_cached k v c = c\<lparr>c_store := map (\<lambda>(j, w). if j = k then (j, v) else (j, w)) (c_store c)\<rparr>"

definition on_tables :: "(table_cache, 'a) op \<Rightarrow> (pool, 'a) op" where
  "on_tables f po = (let (r, t) = f (po_tables po) in (r, po\<lparr>po_tables := t\<rparr>))"

subsection \<open>Buckets\<close>

definition bucket_location :: "pool_config \<Rightarrow> nat \<Rightarrow> nat \<Rightarrow> (string \<times> string) res" where
  "bucket_location cf sid bid =
     (let (dir_part, leaf) = split_layer_leaf (pool_layer_path sid bid) in
      bind_res (join_path [pc_root cf, dir_part]) (\<lambda>d. Inr (d, leaf @ ''.buk'')))"

definition bucket_path :: "pool_config \<Rightarrow> nat \<Rightarrow> nat \<Rightarrow> string res" where
  "bucket_path cf sid bid = bind_res (bucket_location cf sid bid) (\<lambda>(d, leaf). resolve_seq_path (pc_store cf) d leaf)"

definition bucket_size :: "pool_config \<Rightarrow> nat \<Rightarrow> nat \<Rightarrow> nat option res" where
  "bucket_size cf sid bid = bind_res (bucket_location cf sid bid) (\<lambda>(d, leaf). resolve_seq_size (pc_store cf) d leaf)"

definition cached_aes_algorithm :: "pool_config \<Rightarrow> (pool, bytes option) op" where
  "cached_aes_algorithm cf po =
     (case pc_vault_key cf of
        None \<Rightarrow> (Inr None, po)
      | Some k \<Rightarrow>
          (case po_algorithm po of
             Some a \<Rightarrow> (Inr (Some a), po)
           | None \<Rightarrow> (case build_aes_algorithm k of
                        Inl e \<Rightarrow> (Inl e, po)
                      | Inr a \<Rightarrow> (Inr (Some a), po\<lparr>po_algorithm := Some a\<rparr>))))"

definition open_bucket_uncached :: "pool_config \<Rightarrow> bucket_key \<Rightarrow> (pool, bucket_reader) op" where
  "open_bucket_uncached cf key =
     op_bind (op_lift (bucket_path cf (fst key) (snd key))) (\<lambda>path.
     op_bind (cached_aes_algorithm cf) (\<lambda>algorithm.
       op_lift (open_bucket (pc_machine cf) (pc_store cf) path (pc_vault_key cf) algorithm (vp_ciphertext_crc (pc_verify cf)))))"

definition pool_bucket :: "pool_config \<Rightarrow> bucket_key \<Rightarrow> (pool, bucket_reader) op" where
  "pool_bucket cf = resolve_op po_buckets (\<lambda>g po. po\<lparr>po_buckets := g (po_buckets po)\<rparr>) (open_bucket_uncached cf)"

text \<open>Calling a method of a reader the cache may hold.\<close>

definition on_reader :: "bucket_key \<Rightarrow> (bucket_reader, 'a) op \<Rightarrow> bucket_reader \<Rightarrow> (pool, 'a) op" where
  "on_reader key f r po = (let (x, r') = f r in (x, po\<lparr>po_buckets := replace_cached key r' (po_buckets po)\<rparr>))"

subsection \<open>Fingerprints\<close>

definition expected_fingerprints :: "pool_config \<Rightarrow> nat \<Rightarrow> nat \<Rightarrow> nat list \<Rightarrow> (pool, (nat \<times> bytes) list option) op" where
  "expected_fingerprints cf sid bid chunk_indices =
     (if \<not> vp_fingerprint (pc_verify cf) then op_return None
      else op_bind (on_tables (digests (pc_store cf) (pc_root cf) sid bid chunk_indices)) (\<lambda>d. op_return (Some d)))"

definition check_fingerprints :: "pool_config \<Rightarrow> (nat \<times> bytes) list \<Rightarrow> (nat \<times> bytes) list \<Rightarrow> unit res" where
  "check_fingerprints cf chunks expected =
     fold_res (\<lambda>(idx, plain) _.
        case map_of expected idx of
          None \<Rightarrow> Inl PyKeyError
        | Some d \<Rightarrow> if pc_sha256 cf plain \<noteq> d then Inl DataCorruptError else Inr ()) chunks ()"

definition verify_fingerprints :: "pool_config \<Rightarrow> nat \<Rightarrow> nat \<Rightarrow> (nat \<times> bytes) list \<Rightarrow> (pool, unit) op" where
  "verify_fingerprints cf sid bid chunks =
     op_bind (expected_fingerprints cf sid bid (map fst chunks)) (\<lambda>expected.
       op_lift (case expected of None \<Rightarrow> Inr () | Some d \<Rightarrow> check_fingerprints cf chunks d))"

subsection \<open>Chunks\<close>

definition fetch_chunk :: "pool_config \<Rightarrow> chunk_key \<Rightarrow> (pool, bytes) op" where
  "fetch_chunk cf key =
     (case key of (sid, bid, idx) \<Rightarrow>
        op_bind (pool_bucket cf (sid, bid))
          (on_reader (sid, bid) (read_chunk (pc_machine cf) (pc_store cf) idx (ChunkAddress sid bid idx))))"

definition pool_read_chunk :: "pool_config \<Rightarrow> chunk_address \<Rightarrow> (pool, bytes) op" where
  "pool_read_chunk cf addr =
     op_bind (resolve_op po_chunks (\<lambda>g po. po\<lparr>po_chunks := g (po_chunks po)\<rparr>) (fetch_chunk cf)
                (stream_id addr, bucket_id addr, chunk_idx addr)) (\<lambda>plain.
     op_bind (verify_fingerprints cf (stream_id addr) (bucket_id addr) [(chunk_idx addr, plain)]) (\<lambda>_. op_return plain))"

text \<open>\<open>cached_chunks\<close>: the hits by index, the misses, and the cache after the lookups.\<close>

definition cached_chunk :: "nat \<Rightarrow> nat \<Rightarrow> nat \<Rightarrow> (nat \<times> bytes) list \<times> nat list \<times> (chunk_key, bytes) cache \<Rightarrow>
    (nat \<times> bytes) list \<times> nat list \<times> (chunk_key, bytes) cache" where
  "cached_chunk sid bid idx s =
     (let (hits, misses, c) = s; c' = snd (lookup (sid, bid, idx) [] c) in
      case map_of (c_store c) (sid, bid, idx) of
        None \<Rightarrow> (hits, misses @ [idx], c')
      | Some plain \<Rightarrow> (AList.update idx plain hits, misses, c'))"

definition cached_chunks :: "nat \<Rightarrow> nat \<Rightarrow> nat list \<Rightarrow> (chunk_key, bytes) cache \<Rightarrow>
    (nat \<times> bytes) list \<times> nat list \<times> (chunk_key, bytes) cache" where
  "cached_chunks sid bid chunk_indices c = fold (cached_chunk sid bid) chunk_indices ([], [], c)"

definition backfill_chunks :: "nat \<Rightarrow> nat \<Rightarrow> (nat \<times> bytes) list \<Rightarrow> pool \<Rightarrow> pool" where
  "backfill_chunks sid bid plaintexts po =
     po\<lparr>po_chunks := put_many (map (\<lambda>(idx, plain). ((sid, bid, idx), plain)) plaintexts) (po_chunks po)\<rparr>"

definition decode_bucket_chunks ::
    "pool_config \<Rightarrow> bucket_key \<Rightarrow> (nat \<times> nat) list \<Rightarrow> bucket_reader \<Rightarrow> (pool, (nat \<times> bytes) list) op" where
  "decode_bucket_chunks cf key ranges r =
     op_bind (on_reader key (read_chunks (pc_machine cf) (pc_store cf) (fst key) (snd key) (merge_overlapping_ranges ranges)) r) (\<lambda>decoded.
     op_bind (verify_fingerprints cf (fst key) (snd key) decoded) (\<lambda>_. op_return decoded))"

subsection \<open>Group fetches\<close>

definition resolve_bucket_group :: "pool_config \<Rightarrow> bucket_key \<Rightarrow> nat list \<Rightarrow> (pool, (nat \<times> bytes) list) op" where
  "resolve_bucket_group cf key chunk_indices po =
     (let (already_cached, still_needed, c) = cached_chunks (fst key) (snd key) chunk_indices (po_chunks po);
          release_epoch = po_epoch po in
      op_bind
        (if still_needed = [] then op_return []
         else op_bind (pool_bucket cf key) (\<lambda>r.
              op_bind (decode_bucket_chunks cf key (ascending_runs still_needed) r) (\<lambda>decoded po.
                (Inr decoded, if po_epoch po = release_epoch then backfill_chunks (fst key) (snd key) decoded po else po))))
        (\<lambda>decoded.
           op_bind (if already_cached = [] then op_return () else verify_fingerprints cf (fst key) (snd key) already_cached)
             (\<lambda>_. op_return (dict_update decoded already_cached)))
        (po\<lparr>po_chunks := c\<rparr>))"

definition fetch_group :: "pool_config \<Rightarrow> pool fetch" where
  "fetch_group cf g =
     (if bg_single g then
        let idx = fst (hd (bg_ranges g)) in
        op_bind (pool_read_chunk cf (ChunkAddress (fst (bg_key g)) (snd (bg_key g)) idx)) (\<lambda>plain. op_return [idx \<mapsto> plain])
      else op_bind (resolve_bucket_group cf (bg_key g) (all_indices (bg_ranges g))) (\<lambda>d. op_return (map_of d)))"

subsection \<open>What the caches may hold\<close>

text \<open>
  The reference: a chunk read with no cache at all, from a bucket opened for this one read.
\<close>

definition open_fresh :: "pool_config \<Rightarrow> bucket_key \<Rightarrow> bucket_reader res" where
  "open_fresh cf key =
     bind_res (bucket_path cf (fst key) (snd key)) (\<lambda>path.
     bind_res (case pc_vault_key cf of None \<Rightarrow> Inr None | Some k \<Rightarrow> bind_res (build_aes_algorithm k) (\<lambda>a. Inr (Some a))) (\<lambda>algorithm.
       open_bucket (pc_machine cf) (pc_store cf) path (pc_vault_key cf) algorithm (vp_ciphertext_crc (pc_verify cf))))"

definition chunk_content :: "pool_config \<Rightarrow> chunk_address \<Rightarrow> bytes res" where
  "chunk_content cf a =
     bind_res (open_fresh cf (stream_id a, bucket_id a)) (\<lambda>r. fst (read_chunk (pc_machine cf) (pc_store cf) (chunk_idx a) a r))"

definition reader_of :: "pool_config \<Rightarrow> bucket_key \<Rightarrow> bucket_reader \<Rightarrow> bool" where
  "reader_of cf key r \<longleftrightarrow> (\<exists>r0. open_fresh cf key = Inr r0 \<and> (r = r0 \<or> readied (pc_store cf) r0 r))"

definition algorithm_ok :: "pool_config \<Rightarrow> pool \<Rightarrow> bool" where
  "algorithm_ok cf po \<longleftrightarrow> (\<forall>a. po_algorithm po = Some a \<longrightarrow> (\<exists>k. pc_vault_key cf = Some k \<and> build_aes_algorithm k = Inr a))"

definition readers_ok :: "pool_config \<Rightarrow> (bucket_key, bucket_reader) cache \<Rightarrow> bool" where
  "readers_ok cf c \<longleftrightarrow> (\<forall>(k, r) \<in> set (c_store c). reader_of cf k r)"

definition chunks_ok :: "pool_config \<Rightarrow> (chunk_key, bytes) cache \<Rightarrow> bool" where
  "chunks_ok cf c \<longleftrightarrow> (\<forall>((s, b, i), p) \<in> set (c_store c). chunk_content cf (ChunkAddress s b i) = Inr p)"

definition tables_ok :: "pool_config \<Rightarrow> table_cache \<Rightarrow> bool" where
  "tables_ok cf c \<longleftrightarrow> (\<forall>((s, g), t) \<in> set (c_store c). load_group_table (pc_store cf) (pc_root cf) s g = Inr t)"

definition pool_ok :: "pool_config \<Rightarrow> pool \<Rightarrow> bool" where
  "pool_ok cf po \<longleftrightarrow> algorithm_ok cf po \<and> readers_ok cf (po_buckets po) \<and> chunks_ok cf (po_chunks po) \<and> tables_ok cf (po_tables po)"

subsection \<open>What a cache can gain\<close>

lemma store_and_evict_subset: "set (c_store (store_and_evict k v c)) \<subseteq> insert (k, v) (set (c_store c))"
  using evict_store_subset [of "c\<lparr>c_store := od_set_last k v (c_store c)\<rparr>"] by (auto simp: store_and_evict_def od_set_last_def)

lemma od_move_subset: "set (od_move_to_end k d) \<subseteq> set d"
  by (auto simp: od_move_to_end_def od_set_last_def split: option.splits dest: map_of_SomeD)

lemma lookup_subset: "set (c_store (snd (lookup k d c))) \<subseteq> set (c_store c)"
  by (auto simp: lookup_def split: option.splits dest: subsetD [OF od_move_subset])

lemma put_many_subset: "set (c_store (put_many items c)) \<subseteq> set items \<union> set (c_store c)"
proof -
  have "set (fold (\<lambda>(k, v). od_set_last k v) items d) \<subseteq> set items \<union> set d" for d :: "('a \<times> 'b) list"
  proof (induction items arbitrary: d)
    case (Cons p items)
    obtain k v where p: "p = (k, v)" by (cases p)
    show ?case using Cons [of "od_set_last k v d"] by (auto simp: p od_set_last_def)
  qed simp
  then show ?thesis unfolding put_many_def by (intro order_trans [OF evict_store_subset]) simp
qed

lemma replace_cached_subset: "set (c_store (replace_cached k v c)) \<subseteq> insert (k, v) (set (c_store c))"
  by (auto simp: replace_cached_def split: if_splits)

lemma replace_cached_keys: "map_of (c_store (replace_cached k v c)) j =
    (if j = k \<and> map_of (c_store c) k \<noteq> None then Some v else map_of (c_store c) j)"
proof -
  have "map_of (map (\<lambda>(j, w). if j = k then (j, v) else (j, w)) d) j = (if j = k \<and> map_of d k \<noteq> None then Some v else map_of d j)" for d
    by (induction d) auto
  then show ?thesis by (simp add: replace_cached_def)
qed

lemma pool_init_ok: "pool_ok cf (pool_init cf)"
  by (simp add: pool_ok_def pool_init_def cache_init_def algorithm_ok_def readers_ok_def chunks_ok_def tables_ok_def)

lemma release_ok: "pool_ok cf po \<Longrightarrow> pool_ok cf (release_caches po)"
  by (simp add: pool_ok_def release_caches_def invalidate_def algorithm_ok_def readers_ok_def chunks_ok_def tables_ok_def)

subsection \<open>Readers\<close>

lemma build_aes_same: "build_aes_algorithm k = Inr a \<Longrightarrow> a = k"
  by (simp add: build_aes_algorithm_def split: if_splits)

lemma open_uncached:
  assumes "algorithm_ok cf po"
  shows "\<exists>a. open_bucket_uncached cf key po = (open_fresh cf key, po\<lparr>po_algorithm := a\<rparr>) \<and> algorithm_ok cf (po\<lparr>po_algorithm := a\<rparr>)"
proof -
  have same: "\<exists>a. po = po\<lparr>po_algorithm := a\<rparr> \<and> algorithm_ok cf (po\<lparr>po_algorithm := a\<rparr>)"
    using assms by (intro exI [of _ "po_algorithm po"]) simp
  show ?thesis
  proof (cases "bucket_path cf (fst key) (snd key)")
    case (Inl e)
    then show ?thesis using same by (simp add: open_bucket_uncached_def open_fresh_def)
  next
    case (Inr path)
    show ?thesis
    proof (cases "pc_vault_key cf")
      case None
      then show ?thesis using same Inr by (simp add: open_bucket_uncached_def open_fresh_def cached_aes_algorithm_def)
    next
      case (Some k)
      show ?thesis
      proof (cases "po_algorithm po")
        case (Some a)
        then have "build_aes_algorithm k = Inr a" using assms \<open>pc_vault_key cf = Some k\<close> by (auto simp: algorithm_ok_def)
        then show ?thesis using same Inr Some \<open>pc_vault_key cf = Some k\<close>
          by (simp add: open_bucket_uncached_def open_fresh_def cached_aes_algorithm_def)
      next
        case None
        show ?thesis
        proof (cases "build_aes_algorithm k")
          case (Inl e)
          then show ?thesis using same Inr None Some
            by (simp add: open_bucket_uncached_def open_fresh_def cached_aes_algorithm_def)
        next
          case (Inr a)
          then show ?thesis using \<open>bucket_path cf (fst key) (snd key) = Inr path\<close> None Some
            by (intro exI [of _ "Some a"]) (simp add: open_bucket_uncached_def open_fresh_def cached_aes_algorithm_def algorithm_ok_def)
        qed
      qed
    qed
  qed
qed

text \<open>What a pool operation on readers leaves alone.\<close>

definition same_chunks :: "pool \<Rightarrow> pool \<Rightarrow> bool" where
  "same_chunks po po' \<longleftrightarrow> po_chunks po' = po_chunks po \<and> po_epoch po' = po_epoch po"

lemma same_chunks_trans: "same_chunks a b \<Longrightarrow> same_chunks b c \<Longrightarrow> same_chunks a c"
  by (simp add: same_chunks_def)

lemma pool_bucket_ok:
  assumes ok: "pool_ok cf po" and run: "pool_bucket cf key po = (r, po')"
  shows "pool_ok cf po' \<and> same_chunks po po' \<and>
    (case r of Inr x \<Rightarrow> reader_of cf key x | Inl e \<Rightarrow> open_fresh cf key = Inl e)"
proof (cases "map_of (c_store (po_buckets po)) key")
  case (Some x)
  let ?c = "(po_buckets po)\<lparr>c_hits := Suc (c_hits (po_buckets po)), c_store := od_move_to_end key (c_store (po_buckets po))\<rparr>"
  have "r = Inr x" "po' = po\<lparr>po_buckets := ?c\<rparr>" using run Some by (simp_all add: pool_bucket_def resolve_op_def)
  moreover have "readers_ok cf ?c" using ok by (auto simp: pool_ok_def readers_ok_def dest: subsetD [OF od_move_subset])
  moreover have "reader_of cf key x" using map_of_SomeD [OF Some] ok by (auto simp: pool_ok_def readers_ok_def)
  ultimately show ?thesis using ok by (simp add: pool_ok_def algorithm_ok_def same_chunks_def)
next
  case None
  let ?p = "po\<lparr>po_buckets := (po_buckets po)\<lparr>c_misses := Suc (c_misses (po_buckets po))\<rparr>\<rparr>"
  have ok': "pool_ok cf ?p" "same_chunks po ?p" using ok by (simp_all add: pool_ok_def algorithm_ok_def readers_ok_def same_chunks_def)
  obtain a where a: "open_bucket_uncached cf key ?p = (open_fresh cf key, ?p\<lparr>po_algorithm := a\<rparr>)" "algorithm_ok cf (?p\<lparr>po_algorithm := a\<rparr>)"
    using open_uncached [of cf ?p key] ok' by (auto simp: pool_ok_def)
  have ok2: "pool_ok cf (?p\<lparr>po_algorithm := a\<rparr>)" "same_chunks po (?p\<lparr>po_algorithm := a\<rparr>)"
    using ok' a(2) by (simp_all add: pool_ok_def same_chunks_def)
  have eq: "pool_bucket cf key po = (case open_fresh cf key of Inl e \<Rightarrow> (Inl e, ?p\<lparr>po_algorithm := a\<rparr>)
      | Inr v \<Rightarrow> (Inr v, ?p\<lparr>po_algorithm := a, po_buckets := store_and_evict key v (po_buckets ?p)\<rparr>))"
    using None a(1) by (simp add: pool_bucket_def resolve_op_def op_bind_def split: sum.split)
  show ?thesis
  proof (cases "open_fresh cf key")
    case (Inl e)
    then have "r = Inl e" "po' = ?p\<lparr>po_algorithm := a\<rparr>" using run unfolding eq by simp_all
    then show ?thesis using ok2 Inl by simp
  next
    case (Inr v)
    have "reader_of cf key v" using Inr by (simp add: reader_of_def)
    then have "readers_ok cf (store_and_evict key v (po_buckets ?p))"
      using ok' by (auto simp: pool_ok_def readers_ok_def dest!: subsetD [OF store_and_evict_subset])
    moreover have "r = Inr v" "po' = ?p\<lparr>po_algorithm := a, po_buckets := store_and_evict key v (po_buckets ?p)\<rparr>"
      using run unfolding eq Inr by simp_all
    ultimately show ?thesis using ok2 \<open>reader_of cf key v\<close> by (simp add: pool_ok_def algorithm_ok_def same_chunks_def)
  qed
qed

text \<open>A reader's operation that keeps \<open>reader_of\<close> keeps the pool's invariant.\<close>

lemma on_reader_ok:
  assumes "pool_ok cf po" and "on_reader key f r po = (x, po')" and "reader_of cf key (snd (f r))"
  shows "pool_ok cf po' \<and> same_chunks po po' \<and> x = fst (f r)"
proof -
  have "x = fst (f r)" "po' = po\<lparr>po_buckets := replace_cached key (snd (f r)) (po_buckets po)\<rparr>"
    using assms(2) by (auto simp: on_reader_def split: prod.splits)
  moreover have "readers_ok cf (replace_cached key (snd (f r)) (po_buckets po))"
    using assms(1,3) by (auto simp: pool_ok_def readers_ok_def dest!: subsetD [OF replace_cached_subset])
  ultimately show ?thesis using assms(1) by (simp add: pool_ok_def algorithm_ok_def same_chunks_def)
qed

lemma readied_again: "readied st r0 r \<Longrightarrow> readied st r r"
  by (auto simp: readied_def ensure_chunk_crc_store_def split: if_splits option.splits sum.splits prod.splits)

lemma readied_ensure:
  assumes "readied st r0 r"
  shows "br_verify r0 \<Longrightarrow> \<exists>v. ensure_chunk_crc_store st r0 = (Inr v, r) \<and> ensure_chunk_crc_store st r = (Inr v, r)"
  using assms by (auto simp: readied_def ensure_chunk_crc_store_def split: option.splits sum.splits prod.splits)

text \<open>A single read answers the same through a fresh reader and one that has loaded its checksums.\<close>

lemma read_chunk_readied:
  assumes "readied st r0 r"
  shows "read_chunk m st i a r = (fst (read_chunk m st i a r0), r)"
proof -
  note f = readied_fields [OF assms]
  have raw: "read_raw_chunk st r i = read_raw_chunk st r0 i"
    by (simp add: read_raw_chunk_def resolve_compress_type_def f)
  have t: "resolve_compress_type r i = resolve_compress_type r0 i" by (simp add: resolve_compress_type_def f)
  have d: "reader_decrypt m r = reader_decrypt m r0" by (intro ext) (simp only: reader_decrypt_def f)
  show ?thesis
  proof (cases "br_verify r0")
    case False
    then have "r = r0" using assms by (simp add: readied_def)
    then show ?thesis using False by (auto simp: read_chunk_def decode_raw_chunk_def split: sum.split)
  next
    case True
    obtain v where v: "ensure_chunk_crc_store st r0 = (Inr v, r)" "ensure_chunk_crc_store st r = (Inr v, r)"
      using readied_ensure [OF assms True] by blast
    show ?thesis unfolding read_chunk_def raw decode_raw_chunk_def t d f
      by (auto simp: True v op_bind_def split: sum.split)
  qed
qed

lemma read_chunk_state:
  "snd (read_chunk m st i a r) = r \<or> (br_verify r \<and> readied st r (snd (read_chunk m st i a r)))"
proof (cases "br_verify r")
  case False
  then show ?thesis by (auto simp: read_chunk_def decode_raw_chunk_def split: sum.split)
next
  case True
  obtain x r' where e: "ensure_chunk_crc_store st r = (x, r')" by fastforce
  have "x = Inl y \<Longrightarrow> r' = r" for y using e by (auto simp: ensure_chunk_crc_store_def split: option.splits sum.splits prod.splits)
  then show ?thesis using True e
    by (cases x) (auto simp: read_chunk_def decode_raw_chunk_def op_bind_def readied_def split: sum.split)
qed

lemma reader_read_chunk:
  assumes "reader_of cf key r" and "open_fresh cf key = Inr r0"
  shows "fst (read_chunk m (pc_store cf) i a r) = fst (read_chunk m (pc_store cf) i a r0) \<and>
    reader_of cf key (snd (read_chunk m (pc_store cf) i a r))"
proof -
  consider "r = r0" | "readied (pc_store cf) r0 r" using assms by (auto simp: reader_of_def)
  then show ?thesis
  proof cases
    case 1
    then show ?thesis using assms read_chunk_state [of m "pc_store cf" i a r0] by (auto simp: reader_of_def)
  next
    case 2
    then show ?thesis using assms read_chunk_readied [OF 2] by simp
  qed
qed

lemma fetch_chunk_ok:
  assumes ok: "pool_ok cf po" and run: "fetch_chunk cf (s, b, i) po = (r, po')"
  shows "pool_ok cf po' \<and> same_chunks po po' \<and> r = chunk_content cf (ChunkAddress s b i)"
proof -
  obtain x p1 where x: "pool_bucket cf (s, b) po = (x, p1)" by fastforce
  note pb = pool_bucket_ok [OF ok x]
  show ?thesis
  proof (cases x)
    case (Inl e)
    then show ?thesis using pb x run by (simp add: fetch_chunk_def chunk_content_def)
  next
    case (Inr rd)
    let ?f = "read_chunk (pc_machine cf) (pc_store cf) i (ChunkAddress s b i)"
    have rd: "reader_of cf (s, b) rd" "pool_ok cf p1" "same_chunks po p1" using pb Inr by simp_all
    obtain r0 where r0: "open_fresh cf (s, b) = Inr r0" using rd(1) by (auto simp: reader_of_def)
    note rr = reader_read_chunk [OF rd(1) r0, of "pc_machine cf" i "ChunkAddress s b i"]
    have "on_reader (s, b) ?f rd p1 = (r, po')" using run x Inr by (simp add: fetch_chunk_def)
    from on_reader_ok [OF rd(2) this] rr rd(3) same_chunks_trans show ?thesis
      by (auto simp: chunk_content_def r0)
  qed
qed

subsection \<open>Fingerprint checks\<close>

definition digest_ok :: "pool_config \<Rightarrow> bucket_key \<Rightarrow> nat \<Rightarrow> bytes \<Rightarrow> bool" where
  "digest_ok cf key i p \<longleftrightarrow> vp_fingerprint (pc_verify cf) \<longrightarrow>
     (\<exists>t al. load_group_table (pc_store cf) (pc_root cf) (fst key) (snd key) = Inr t \<and> allocation_of (snd key) t = Inr al \<and>
        stored_digest (pc_store cf) al i (pc_sha256 cf p))"

lemma group_start_twice [simp]: "group_start_bucket_id (group_start_bucket_id b) = group_start_bucket_id b"
  by (simp add: group_start_bucket_id_def)

lemma load_group_table_start: "load_group_table st root s (group_start_bucket_id b) = load_group_table st root s b"
  by (simp add: load_group_table_def group_dir_and_prefix_def)

lemma allocation_ok:
  assumes "tables_ok cf c" and run: "allocation (pc_store cf) (pc_root cf) s b c = (r, c')"
  shows "tables_ok cf c' \<and> r = bind_res (load_group_table (pc_store cf) (pc_root cf) s b) (allocation_of b)"
proof -
  let ?k = "(s, group_start_bucket_id b)" and ?f = "\<lambda>_. load_group_table (pc_store cf) (pc_root cf) s b"
  obtain x c1 where x: "resolve_now ?f ?k c = (x, c1)" by fastforce
  note st = resolve_now_store [OF x]
  have xe: "x = load_group_table (pc_store cf) (pc_root cf) s b"
  proof (cases x)
    case (Inl e)
    then show ?thesis using st(3) by simp
  next
    case (Inr t)
    show ?thesis
    proof (cases "map_of (c_store c) ?k = Some t")
      case True
      from map_of_SomeD [OF this] assms(1) show ?thesis by (auto simp: Inr tables_ok_def load_group_table_start)
    next
      case False
      then show ?thesis using st(2) [OF Inr] Inr by simp
    qed
  qed
  have "tables_ok cf c1"
    unfolding tables_ok_def
  proof (intro ballI, clarify)
    fix s' g t assume m: "((s', g), t) \<in> set (c_store c1)"
    show "load_group_table (pc_store cf) (pc_root cf) s' g = Inr t"
    proof (cases "((s', g), t) \<in> set (c_store c)")
      case True
      then show ?thesis using assms(1) by (auto simp: tables_ok_def)
    next
      case False
      then have "s' = s" "g = group_start_bucket_id b" "x = Inr t" using st(1) m by auto
      then show ?thesis using xe by (simp add: load_group_table_start)
    qed
  qed
  moreover have "(r, c') = (bind_res x (allocation_of b), c1)"
    using run x by (cases x) (simp_all add: allocation_def)
  ultimately show ?thesis using xe by simp
qed

lemma verify_fingerprints_state:
  assumes ok: "pool_ok cf po" and run: "verify_fingerprints cf s b chunks po = (r, po')"
  shows "pool_ok cf po' \<and> same_chunks po po'"
proof (cases "vp_fingerprint (pc_verify cf)")
  case False
  then show ?thesis using run ok by (simp add: verify_fingerprints_def expected_fingerprints_def same_chunks_def)
next
  case True
  obtain x c' where a: "allocation (pc_store cf) (pc_root cf) s b (po_tables po) = (x, c')" by fastforce
  have "tables_ok cf c'" using allocation_ok [OF _ a] ok by (simp add: pool_ok_def)
  then have "pool_ok cf (po\<lparr>po_tables := c'\<rparr>)" "same_chunks po (po\<lparr>po_tables := c'\<rparr>)"
    using ok by (simp_all add: pool_ok_def algorithm_ok_def same_chunks_def)
  moreover have "po' = po\<lparr>po_tables := c'\<rparr>"
    using run True a
    by (auto simp: verify_fingerprints_def expected_fingerprints_def on_tables_def digests_def op_bind_def split: sum.splits)
  ultimately show ?thesis by simp
qed

lemma verify_fingerprints_passes:
  assumes ok: "pool_ok cf po" and ne: "chunks \<noteq> []" and d: "\<forall>(i, p) \<in> set chunks. p = f i \<and> digest_ok cf (s, b) i (f i)"
  shows "fst (verify_fingerprints cf s b chunks po) = Inr ()"
proof (cases "vp_fingerprint (pc_verify cf)")
  case False
  then show ?thesis by (simp add: verify_fingerprints_def expected_fingerprints_def)
next
  case True
  have dig: "\<exists>t al. load_group_table (pc_store cf) (pc_root cf) s b = Inr t \<and> allocation_of b t = Inr al \<and>
      stored_digest (pc_store cf) al i (pc_sha256 cf (f i))" if i: "i \<in> set (map fst chunks)" for i
  proof -
    obtain p where "(i, p) \<in> set chunks" using i by auto
    then have "digest_ok cf (s, b) i (f i)" using d by blast
    then show ?thesis using True by (simp add: digest_ok_def)
  qed
  have "fst (hd chunks) \<in> set (map fst chunks)" using ne by simp
  from dig [OF this] obtain t al where t: "load_group_table (pc_store cf) (pc_root cf) s b = Inr t" "allocation_of b t = Inr al"
    by blast
  have sd: "\<forall>i \<in> set (map fst chunks). stored_digest (pc_store cf) al i (pc_sha256 cf (f i))"
  proof
    fix i assume "i \<in> set (map fst chunks)"
    from dig [OF this] t show "stored_digest (pc_store cf) al i (pc_sha256 cf (f i))" by simp
  qed
  obtain x c' where a: "allocation (pc_store cf) (pc_root cf) s b (po_tables po) = (x, c')" by fastforce
  have x: "x = Inr al" using allocation_ok [OF _ a] ok t by (simp add: pool_ok_def)
  define e where "e = map (\<lambda>i. (i, pc_sha256 cf (f i))) (sorted_list_of_set (set (map fst chunks)))"
  have get: "map_of e i = Some (pc_sha256 cf (f i))" if "i \<in> set (map fst chunks)" for i
    using that unfolding e_def by (simp add: map_of_map_restrict restrict_map_def)
  have "check_fingerprints cf cs e = Inr ()" if "set cs \<subseteq> set chunks" for cs
    using that
  proof (induction cs)
    case (Cons q cs)
    obtain i p where q: "q = (i, p)" by (cases q)
    have "(i, p) \<in> set chunks" using Cons.prems q by simp
    then have "p = f i" using d by blast
    moreover have "i \<in> set (map fst chunks)" using \<open>(i, p) \<in> set chunks\<close> by (metis fst_conv image_eqI set_map)
    ultimately have "map_of e i = Some (pc_sha256 cf p)" using get by simp
    then show ?case using Cons by (simp add: check_fingerprints_def q)
  qed (simp add: check_fingerprints_def)
  then have check: "check_fingerprints cf chunks e = Inr ()" by simp
  have "digests (pc_store cf) (pc_root cf) s b (map fst chunks) (po_tables po) = (Inr e, c')"
    using a digests_from_ok [OF sd] unfolding digests_def e_def x op_bind_def by simp
  then have "expected_fingerprints cf s b (map fst chunks) po = (Inr (Some e), po\<lparr>po_tables := c'\<rparr>)"
    using True by (simp add: expected_fingerprints_def on_tables_def op_bind_def)
  then show ?thesis by (simp add: verify_fingerprints_def check)
qed

subsection \<open>Single chunks through the pool\<close>

lemma read_chunk_cached:
  assumes ok: "pool_ok cf po" and
    run: "resolve_op po_chunks (\<lambda>g po. po\<lparr>po_chunks := g (po_chunks po)\<rparr>) (fetch_chunk cf) (s, b, i) po = (r, po')"
  shows "pool_ok cf po' \<and> r = chunk_content cf (ChunkAddress s b i)"
proof (cases "map_of (c_store (po_chunks po)) (s, b, i)")
  case (Some v)
  let ?c = "(po_chunks po)\<lparr>c_hits := Suc (c_hits (po_chunks po)), c_store := od_move_to_end (s, b, i) (c_store (po_chunks po))\<rparr>"
  have "r = Inr v" "po' = po\<lparr>po_chunks := ?c\<rparr>" using run Some by (simp_all add: resolve_op_def)
  moreover have "chunks_ok cf ?c" using ok by (auto simp: pool_ok_def chunks_ok_def dest: subsetD [OF od_move_subset])
  moreover have "chunk_content cf (ChunkAddress s b i) = Inr v" using map_of_SomeD [OF Some] ok by (auto simp: pool_ok_def chunks_ok_def)
  ultimately show ?thesis using ok by (simp add: pool_ok_def algorithm_ok_def)
next
  case None
  let ?p = "po\<lparr>po_chunks := (po_chunks po)\<lparr>c_misses := Suc (c_misses (po_chunks po))\<rparr>\<rparr>"
  have ok': "pool_ok cf ?p" using ok by (simp add: pool_ok_def algorithm_ok_def chunks_ok_def)
  obtain x p1 where x: "fetch_chunk cf (s, b, i) ?p = (x, p1)" by fastforce
  note fc = fetch_chunk_ok [OF ok' x]
  show ?thesis
  proof (cases x)
    case (Inl e)
    then show ?thesis using fc run None x by (simp add: resolve_op_def)
  next
    case (Inr v)
    let ?q = "p1\<lparr>po_chunks := store_and_evict (s, b, i) v (po_chunks p1)\<rparr>"
    have "chunks_ok cf (store_and_evict (s, b, i) v (po_chunks p1))"
      using fc Inr by (auto simp: pool_ok_def chunks_ok_def dest!: subsetD [OF store_and_evict_subset])
    then have "pool_ok cf ?q" using fc by (simp add: pool_ok_def algorithm_ok_def)
    moreover have "r = Inr v" "po' = ?q" using run None x Inr by (simp_all add: resolve_op_def)
    ultimately show ?thesis using fc Inr by simp
  qed
qed

lemma pool_read_chunk_ok:
  assumes ok: "pool_ok cf po" and run: "pool_read_chunk cf a po = (r, po')"
  shows "pool_ok cf po' \<and> (\<forall>p. r = Inr p \<longrightarrow> chunk_content cf a = Inr p) \<and>
    (\<forall>p. chunk_content cf a = Inr p \<and> digest_ok cf (stream_id a, bucket_id a) (chunk_idx a) p \<longrightarrow> r = Inr p)"
proof -
  let ?k = "(stream_id a, bucket_id a, chunk_idx a)"
  obtain x p1 where x: "resolve_op po_chunks (\<lambda>g po. po\<lparr>po_chunks := g (po_chunks po)\<rparr>) (fetch_chunk cf) ?k po = (x, p1)"
    by fastforce
  have a: "ChunkAddress (stream_id a) (bucket_id a) (chunk_idx a) = a" by simp
  note rc = read_chunk_cached [OF ok x, unfolded a]
  show ?thesis
  proof (cases x)
    case (Inl e)
    then show ?thesis using rc run x by (simp add: pool_read_chunk_def)
  next
    case (Inr p)
    obtain y p2 where y: "verify_fingerprints cf (stream_id a) (bucket_id a) [(chunk_idx a, p)] p1 = (y, p2)" by fastforce
    note vs = verify_fingerprints_state [OF conjunct1 [OF rc] y]
    have pass: "y = Inr ()" if "digest_ok cf (stream_id a, bucket_id a) (chunk_idx a) p"
      using verify_fingerprints_passes [OF conjunct1 [OF rc], of "[(chunk_idx a, p)]" "\<lambda>_. p" "stream_id a" "bucket_id a"] that y by simp
    have "po' = p2" "r = bind_res y (\<lambda>_. Inr p)"
      using run x y Inr by (simp_all add: pool_read_chunk_def op_bind_def split: sum.splits)
    then show ?thesis using vs rc pass Inr by (auto simp: res_simps)
  qed
qed

subsection \<open>Buckets the readers can rely on\<close>

text \<open>
  An opened bucket has a consistent index whatever its bytes are; that its bytes are a file's,
  its address fits the packed form and its chunk count is one the format allows is asked of
  the bucket.
\<close>

lemma bucket_index_ok:
  assumes "bucket_index_of little types lens start = Inr ix" and "length lens = length types"
    and "\<forall>t \<in> set types. compress_type_by_value t \<noteq> None" and "\<forall>l \<in> set lens. l < 65536"
  shows "index_ok ix (length types)"
proof -
  have "\<forall>t \<in> set types. t < 256" using assms(3) by (fastforce simp: compress_type_by_value_def split: if_splits)
  from assms(1) [unfolded bucket_index_of_eq [OF assms(2) this assms(4)]] show ?thesis
    using assms(2,3) by (auto simp: index_ok_def Let_def split: if_splits)
qed

lemma open_bucket_reader:
  assumes "open_bucket m st path k a v = Inr r"
  shows "index_ok (br_index r) (bh_chunk_num (br_header r)) \<and> br_path r = path \<and>
    (\<exists>head. st_read st path 0 (Some COMPRESS_RESERVED_LENG) = Inr head \<and> parse_bucket_header head = Inr (br_header r))"
proof -
  obtain head header where h: "st_read st path 0 (Some COMPRESS_RESERVED_LENG) = Inr head" "parse_bucket_header head = Inr header"
    using assms by (auto simp: open_bucket_def res_simps)
  let ?n = "bh_chunk_num header"
  have shape: "index_ok ix ?n" if "parse_size_store (m_little m) data ?n c = Inr ix" for data c ix
    using parse_size_store_shape [OF that] by (simp add: index_ok_def)
  have un: "index_ok ix ?n" if "bucket_index_uncompressed (m_little m) ?n = Inr ix" for ix
    using bucket_index_ok [OF that [unfolded bucket_index_uncompressed_def]] by (simp add: compress_type_by_value_def)
  have "index_ok (br_index r) ?n \<and> br_path r = path \<and> br_header r = header"
    using assms h un shape
    by (auto simp: open_bucket_def Let_def res_simps split: if_splits sum.splits option.splits)
  then show ?thesis using h by simp
qed

definition key_fits :: "bucket_key \<Rightarrow> bool" where
  "key_fits key \<longleftrightarrow> fst key < 2 ^ 8 \<and> snd key < 2 ^ 40"

definition bucket_sound :: "pool_config \<Rightarrow> bucket_key \<Rightarrow> bool" where
  "bucket_sound cf key \<longleftrightarrow> zstd_documented (m_codec (pc_machine cf)) \<and> key_fits key \<and>
     (\<forall>r0. open_fresh cf key = Inr r0 \<longrightarrow>
        bh_chunk_num (br_header r0) \<le> BUCKET_MAX_CHUNK_NUM \<and> (\<exists>bs. file_behind (pc_store cf) r0 bs))"

lemma open_fresh_index:
  assumes "open_fresh cf key = Inr r0"
  shows "index_ok (br_index r0) (bh_chunk_num (br_header r0))"
  using assms open_bucket_reader unfolding open_fresh_def by (fastforce simp: res_simps)

subsection \<open>Requests\<close>

lemma asc_fold_positive:
  assumes "\<forall>r \<in> set runs. 0 < snd r" and "start < 0 \<or> start \<le> prev"
  shows "case fold asc_step xs (runs, start, prev) of (runs', start', prev') \<Rightarrow>
    (\<forall>r \<in> set runs'. 0 < snd r) \<and> (start' < 0 \<or> start' \<le> prev')"
  using assms
proof (induction xs arbitrary: runs start prev)
  case (Cons x xs)
  show ?case
  proof (cases "int x \<noteq> prev + 1")
    case True
    have "\<forall>r \<in> set (if 0 \<le> start then runs @ [(nat start, nat (prev - start + 1))] else runs). 0 < snd r"
      using Cons.prems by auto
    then show ?thesis using Cons.IH [of _ "int x" "int x"] True by (simp add: asc_step_def)
  next
    case False
    then have "asc_step x (runs, start, prev) = (runs, start, int x)" "start < 0 \<or> start \<le> int x"
      using Cons.prems(2) by (auto simp: asc_step_cases)
    then show ?thesis using Cons.IH [OF Cons.prems(1)] by (simp only: fold_Cons o_apply)
  qed
qed simp

lemma ascending_runs_positive: "\<forall>r \<in> set (ascending_runs xs). 0 < snd r"
  using asc_fold_positive [of "[]" "-2" "-2" xs] by (auto simp: ascending_runs_def split: prod.splits)

lemma request_ok:
  assumes "sorted_wrt (<) xs"
  shows "ranges_ok (merge_overlapping_ranges (ascending_runs xs))" "all_indices (merge_overlapping_ranges (ascending_runs xs)) = xs"
proof -
  let ?R = "merge_overlapping_ranges (ascending_runs xs)"
  have "set xs = covered (ascending_runs xs)"
    using ascending_runs_spec(1) [OF assms] set_all_indices by metis
  moreover have "sorted xs" "distinct xs" using assms by (simp_all add: strict_sorted_iff)
  ultimately show "all_indices ?R = xs"
    using separated_all_indices [OF merge_ranges(1)] merge_ranges(2) by (metis sorted_list_of_set.idem_if_sorted_distinct)
  show "ranges_ok ?R"
    using merge_ranges(1) merge_ranges(3) [OF ascending_runs_positive] by (simp add: ranges_ok_def)
qed

subsection \<open>Batches through the pool\<close>

definition contents :: "pool_config \<Rightarrow> bucket_key \<Rightarrow> nat list \<Rightarrow> bytes list res" where
  "contents cf key = map_res (\<lambda>i. chunk_content cf (ChunkAddress (fst key) (snd key) i))"

lemma contents_fresh:
  "open_fresh cf key = Inr r0 \<Longrightarrow> contents cf key = single_reads (pc_machine cf) (pc_store cf) key r0"
  by (simp add: contents_def single_reads_def chunk_content_def fun_eq_iff)

lemma ensure_failed:
  assumes "br_verify r" and "ensure_chunk_crc_store st r = (Inl e, r')"
  shows "r' = r" "\<exists>e. fst (read_chunk m st i a r) = Inl e"
    "rs \<noteq> [] \<Longrightarrow> read_chunks m st s b rs r = (Inl e, r)"
proof -
  show r: "r' = r" using assms(2) by (auto simp: ensure_chunk_crc_store_def split: option.splits sum.splits prod.splits)
  show "\<exists>e. fst (read_chunk m st i a r) = Inl e"
    using assms by (auto simp: read_chunk_def decode_raw_chunk_def op_bind_def split: sum.split)
  show "rs \<noteq> [] \<Longrightarrow> read_chunks m st s b rs r = (Inl e, r)"
    using assms r by (simp add: read_chunks_def planned_runs_def op_bind_def)
qed

lemma single_reads_readied:
  "readied st r0 r \<Longrightarrow> single_reads m st key r = single_reads m st key r0"
  by (simp add: single_reads_def read_chunk_readied fun_eq_iff)

text \<open>A chunk stored as ZSTD is a complete frame, as the opened bucket's readers see it.\<close>

definition chunk_untorn :: "pool_config \<Rightarrow> bucket_key \<Rightarrow> nat \<Rightarrow> bool" where
  "chunk_untorn cf key i \<longleftrightarrow>
     (\<forall>r0 r1 bs. open_fresh cf key = Inr r0 \<and> readied (pc_store cf) r0 r1 \<and> file_behind (pc_store cf) r0 bs \<longrightarrow>
        stored_whole (pc_machine cf) r1 key bs i)"

lemma reader_batch:
  assumes sound: "bucket_sound cf key" and rd: "reader_of cf key r" and req: "ranges_ok R" "R \<noteq> []"
    and run: "read_chunks (pc_machine cf) (pc_store cf) (fst key) (snd key) R r = (x, r')"
  shows "reader_of cf key r' \<and>
      (\<forall>d. x = Inr d \<longrightarrow> (\<exists>ps. contents cf key (all_indices R) = Inr ps \<and> d = zip (all_indices R) ps)) \<and>
      ((\<exists>ps. contents cf key (all_indices R) = Inr ps) \<and> (\<forall>i \<in> set (all_indices R). chunk_untorn cf key i) \<longrightarrow> (\<exists>d. x = Inr d))"
proof -
  let ?m = "pc_machine cf" and ?st = "pc_store cf"
  obtain r0 where r0: "open_fresh cf key = Inr r0" "r = r0 \<or> readied ?st r0 r" using rd by (auto simp: reader_of_def)
  note cont = contents_fresh [OF r0(1)]
  let ?n = "bh_chunk_num (br_header r0)"
  obtain bs where bs: "file_behind ?st r0 bs" "?n \<le> BUCKET_MAX_CHUNK_NUM" using sound r0 by (auto simp: bucket_sound_def)
  have zstd: "zstd_documented (m_codec ?m)" and ad: "address_ok key ?n"
    using sound bs by (auto simp: bucket_sound_def key_fits_def address_ok_def const_values)
  have batch: "readied ?st r0 r1 \<Longrightarrow> r = r0 \<or> r = r1 \<Longrightarrow> ?thesis" for r1
  proof -
    assume r1: "readied ?st r0 r1" and r: "r = r0 \<or> r = r1"
    have ready: "readied ?st r r1" using r r1 readied_again by blast
    have same: "br_index r = br_index r0" "br_path r = br_path r0" using r readied_fields [OF r1] by auto
    have ix: "index_ok (br_index r) ?n" using open_fresh_index [OF r0(1)] same by simp
    have fb: "file_behind ?st r bs" using bs same by (simp add: file_behind_def)
    have sr: "single_reads ?m ?st key r = single_reads ?m ?st key r0" using r single_reads_readied [OF r1, of ?m key] by auto
    have "reader_of cf key r1" using r0(1) r1 by (auto simp: reader_of_def)
    moreover note batch = read_chunks_spec [OF zstd ix ad fb ready req, unfolded run fst_conv snd_conv]
    note whole = whole_single [OF zstd ready fb ix, where address = key]
    have single: "contents cf key idxs = map_res (\<lambda>i. fst (read_chunk ?m ?st i (ChunkAddress (fst key) (snd key) i) r)) idxs" for idxs
      using sr [THEN fun_cong, of idxs] by (simp add: cont single_reads_def)
    have "\<exists>ps. contents cf key (all_indices R) = Inr ps \<and> d = zip (all_indices R) ps" if "x = Inr d" for d
    proof -
      obtain ps where ps: "map_res (\<lambda>i. bind_res (resolve_compress_type r i) (\<lambda>_. chunk_whole ?m r1 key bs i)) (all_indices R) = Inr ps"
        "d = zip (all_indices R) ps"
        using all_or_errorD(1) [OF batch(1) \<open>x = Inr d\<close>] by blast
      have "contents cf key (all_indices R) = Inr ps"
        using ps(1) unfolding single map_res_Inr_iff by (rule list_all2_mono) (simp add: whole(2))
      then show ?thesis using ps(2) by blast
    qed
    moreover have "\<exists>d. x = Inr d"
      if ps: "contents cf key (all_indices R) = Inr ps" and untorn: "\<forall>i \<in> set (all_indices R). chunk_untorn cf key i" for ps
    proof (cases x)
      case (Inl e)
      obtain i where i: "i \<in> set (all_indices R)" "bind_res (resolve_compress_type r i) (\<lambda>_. chunk_whole ?m r1 key bs i) = Inl e"
        using all_or_errorD(2) [OF batch(1) Inl] by blast
      have "stored_whole ?m r1 key bs i" using untorn i(1) r0(1) r1 bs(1) unfolding chunk_untorn_def by blast
      then have "fst (read_chunk ?m ?st i (ChunkAddress (fst key) (snd key) i) r) = Inl e" using whole(3) [OF i(2)] by blast
      then show ?thesis using some_fails [OF i(1)] ps unfolding single by fastforce
    qed simp
    ultimately show ?thesis using batch(2) by blast
  qed
  show ?thesis
  proof (cases "br_verify r0")
    case False
    then have "readied ?st r0 r0" by (simp add: readied_def)
    moreover have "r = r0" using r0(2) False by (auto simp: readied_def)
    ultimately show ?thesis using batch by blast
  next
    case True
    show ?thesis
    proof (cases "ensure_chunk_crc_store ?st r0")
      case (Pair v r1)
      show ?thesis
      proof (cases v)
        case (Inr w)
        then have r1: "readied ?st r0 r1" using Pair True by (auto simp: readied_def)
        moreover have "r = r0 \<or> r = r1" using r0(2) True Pair by (auto simp: readied_def)
        ultimately show ?thesis using batch by blast
      next
        case (Inl e)
        note f = ensure_failed [OF True Pair [unfolded Inl]]
        have r: "r = r0" using r0(2) True Pair Inl by (auto simp: readied_def)
        have "all_indices R \<noteq> []" using req by (cases R) (auto simp: ranges_ok_def range_indices_def)
        then obtain i js where "all_indices R = i # js" by (cases "all_indices R") auto
        moreover obtain e' where "chunk_content cf (ChunkAddress (fst key) (snd key) i) = Inl e'"
          using f(2) [of ?m i "ChunkAddress (fst key) (snd key) i"] r0(1) by (auto simp: chunk_content_def)
        ultimately have "contents cf key (all_indices R) = Inl e'" by (simp add: contents_def)
        moreover have "x = Inl e" "r' = r0" using run f(3) [OF req(2)] r by simp_all
        ultimately show ?thesis using rd r by simp
      qed
    qed
  qed
qed

definition chunk_good :: "pool_config \<Rightarrow> bucket_key \<Rightarrow> nat \<Rightarrow> bool" where
  "chunk_good cf key i \<longleftrightarrow> (\<exists>p. chunk_content cf (ChunkAddress (fst key) (snd key) i) = Inr p \<and> digest_ok cf key i p) \<and>
     chunk_untorn cf key i"

definition chunk_bytes :: "pool_config \<Rightarrow> chunk_address \<Rightarrow> bytes" where
  "chunk_bytes cf a = (case chunk_content cf a of Inr p \<Rightarrow> p | Inl _ \<Rightarrow> [])"

lemma contents_Inr:
  "contents cf key js = Inr ps \<longleftrightarrow> list_all2 (\<lambda>i p. chunk_content cf (ChunkAddress (fst key) (snd key) i) = Inr p) js ps"
  by (simp add: contents_def map_res_Inr_iff)

lemma contents_good:
  assumes "\<forall>i \<in> set js. chunk_good cf key i"
  shows "contents cf key js = Inr (map (\<lambda>i. chunk_bytes cf (ChunkAddress (fst key) (snd key) i)) js)"
  using assms unfolding contents_def by (intro map_res_Inr) (auto simp: chunk_good_def chunk_bytes_def)

lemma decode_bucket_chunks_ok:
  assumes ok: "pool_ok cf po" and sound: "bucket_sound cf key" and rd: "reader_of cf key r" and xs: "sorted_wrt (<) xs" "xs \<noteq> []"
    and run: "decode_bucket_chunks cf key (ascending_runs xs) r po = (x, po')"
  shows "pool_ok cf po' \<and> same_chunks po po' \<and>
    (\<forall>d. x = Inr d \<longrightarrow> (\<exists>ps. contents cf key xs = Inr ps \<and> d = zip xs ps)) \<and>
    ((\<forall>i \<in> set xs. chunk_good cf key i) \<longrightarrow> (\<exists>d. x = Inr d))"
proof -
  let ?R = "merge_overlapping_ranges (ascending_runs xs)"
  let ?f = "read_chunks (pc_machine cf) (pc_store cf) (fst key) (snd key) ?R"
  note req = request_ok [OF xs(1)]
  have ne: "?R \<noteq> []" using req(2) xs(2) by auto
  obtain y r' where y: "?f r = (y, r')" by fastforce
  note rb = reader_batch [OF sound rd req(1) ne y, unfolded req(2)]
  obtain y' p1 where p1: "on_reader key ?f r po = (y', p1)" by fastforce
  have o: "pool_ok cf p1" "same_chunks po p1" "y' = y" using on_reader_ok [OF ok p1] rb y by simp_all
  show ?thesis
  proof (cases y)
    case (Inl e)
    have "\<not> (\<forall>i \<in> set xs. chunk_good cf key i)"
    proof
      assume good: "\<forall>i \<in> set xs. chunk_good cf key i"
      then have "\<forall>i \<in> set xs. chunk_untorn cf key i" by (simp add: chunk_good_def)
      then show False using rb contents_good [OF good] Inl by auto
    qed
    moreover have "x = Inl e" "po' = p1" using run p1 o(3) Inl by (simp_all add: decode_bucket_chunks_def)
    ultimately show ?thesis using o by simp
  next
    case (Inr d)
    obtain ps where ps: "contents cf key xs = Inr ps" "d = zip xs ps" using rb Inr by blast
    have len: "length ps = length xs" using ps(1) by (simp add: contents_def map_res_length)
    obtain u p2 where u: "verify_fingerprints cf (fst key) (snd key) d p1 = (u, p2)" by fastforce
    note vs = verify_fingerprints_state [OF o(1) u]
    have pass: "u = Inr ()" if g: "\<forall>i \<in> set xs. chunk_good cf key i"
    proof -
      let ?c = "\<lambda>i. chunk_bytes cf (ChunkAddress (fst key) (snd key) i)"
      have "ps = map ?c xs" using ps(1) contents_good [OF g] by simp
      then have d: "d = map (\<lambda>i. (i, ?c i)) xs" using ps(2) by (simp add: zip_map2 zip_same_conv_map)
      have "\<forall>(i, p) \<in> set d. p = ?c i \<and> digest_ok cf (fst key, snd key) i (?c i)"
        using g unfolding d by (auto simp: chunk_good_def chunk_bytes_def)
      from verify_fingerprints_passes [OF o(1) _ this] u d xs(2) show ?thesis by simp
    qed
    have "po' = p2" "x = bind_res u (\<lambda>_. Inr d)"
      using run p1 o(3) Inr u by (simp_all add: decode_bucket_chunks_def op_bind_def split: sum.splits)
    then show ?thesis using vs o(2) same_chunks_trans ps pass by (auto simp: res_simps)
  qed
qed

subsection \<open>Groups\<close>

text \<open>The lookups of a batch: hits hold what the cache may hold, misses stay in order.\<close>

lemma cached_chunks_ok:
  assumes "chunks_ok cf c" and "fold (cached_chunk s b) idxs (hits, misses, c) = (hits', misses', c')"
    and "\<forall>(i, p) \<in> set hits. chunk_content cf (ChunkAddress s b i) = Inr p" and "distinct (map fst hits)"
  shows "chunks_ok cf c' \<and> (\<forall>(i, p) \<in> set hits'. chunk_content cf (ChunkAddress s b i) = Inr p) \<and> distinct (map fst hits') \<and>
    fst ` set hits' \<union> set misses' = fst ` set hits \<union> set misses \<union> set idxs \<and> (\<exists>ms. misses' = misses @ ms \<and> subseq ms idxs)"
  using assms
proof (induction idxs arbitrary: hits misses c)
  case Nil
  then show ?case by auto
next
  case (Cons i idxs)
  let ?c1 = "snd (lookup (s, b, i) [] c)"
  have c1: "chunks_ok cf ?c1" using Cons.prems(1) by (auto simp: chunks_ok_def dest: subsetD [OF lookup_subset])
  show ?case
  proof (cases "map_of (c_store c) (s, b, i)")
    case None
    then have "cached_chunk s b i (hits, misses, c) = (hits, misses @ [i], ?c1)" by (simp add: cached_chunk_def)
    then have "fold (cached_chunk s b) idxs (hits, misses @ [i], ?c1) = (hits', misses', c')"
      using Cons.prems(2) by simp
    from Cons.IH [OF c1 this Cons.prems(3,4)] show ?thesis by auto
  next
    case (Some p)
    have p: "chunk_content cf (ChunkAddress s b i) = Inr p" using map_of_SomeD [OF Some] Cons.prems(1) by (auto simp: chunks_ok_def)
    have "cached_chunk s b i (hits, misses, c) = (AList.update i p hits, misses, ?c1)" using Some by (simp add: cached_chunk_def)
    then have f: "fold (cached_chunk s b) idxs (AList.update i p hits, misses, ?c1) = (hits', misses', c')"
      using Cons.prems(2) by simp
    have h: "\<forall>(j, q) \<in> set (AList.update i p hits). chunk_content cf (ChunkAddress s b j) = Inr q"
    proof (intro ballI, clarify)
      fix j q assume "(j, q) \<in> set (AList.update i p hits)"
      then have "map_of (AList.update i p hits) j = Some q" using Cons.prems(4) by (simp add: distinct_update)
      then have "j = i \<and> q = p \<or> map_of hits j = Some q" by (simp add: update_conv split: if_splits)
      then show "chunk_content cf (ChunkAddress s b j) = Inr q" using p Cons.prems(3) map_of_SomeD by fastforce
    qed
    have d: "distinct (map fst (AList.update i p hits))" using Cons.prems(4) by (rule distinct_update)
    have k: "fst ` set (AList.update i p hits) = insert i (fst ` set hits)" using dom_update [of i p hits] by simp
    from Cons.IH [OF c1 f h d] show ?thesis unfolding k by auto
  qed
qed

lemma subseq_ascending: "subseq ys xs \<Longrightarrow> sorted_wrt (<) xs \<Longrightarrow> sorted_wrt (<) (ys :: nat list)"
proof (induction rule: list_emb.induct)
  case (list_emb_Cons2 x y xs ys)
  then have "set xs \<subseteq> set ys" by (auto dest: list_emb_set)
  with list_emb_Cons2 show ?case by auto
qed simp_all

lemma backfill_ok:
  assumes "pool_ok cf po" and "\<forall>(i, p) \<in> set d. chunk_content cf (ChunkAddress s b i) = Inr p"
  shows "pool_ok cf (backfill_chunks s b d po)"
proof -
  have "chunks_ok cf (put_many (map (\<lambda>(i, p). ((s, b, i), p)) d) (po_chunks po))"
    using assms by (auto simp: pool_ok_def chunks_ok_def dest!: subsetD [OF put_many_subset])
  then show ?thesis using assms(1) by (simp add: pool_ok_def backfill_chunks_def algorithm_ok_def)
qed

lemma dict_update_get: "map_of (dict_update new d) i = (case map_of (rev new) i of None \<Rightarrow> map_of d i | Some v \<Rightarrow> Some v)"
proof (induction new arbitrary: d)
  case (Cons p new)
  obtain k v where p: "p = (k, v)" by (cases p)
  have "dict_update (p # new) d = dict_update new (AList.update k v d)" by (simp add: dict_update_def p)
  then show ?case using Cons by (auto simp: p update_conv map_add_def split: option.split)
qed (simp add: dict_update_def)

lemma batch_part_ok:
  assumes ok: "pool_ok cf po" and sound: "bucket_sound cf key" and xs: "sorted_wrt (<) xs"
    and run: "(if xs = [] then op_return []
         else op_bind (pool_bucket cf key) (\<lambda>r.
              op_bind (decode_bucket_chunks cf key (ascending_runs xs) r) (\<lambda>decoded po.
                (Inr decoded, if po_epoch po = release_epoch then backfill_chunks (fst key) (snd key) decoded po else po)))) po = (x, po')"
  shows "pool_ok cf po' \<and> (\<forall>d. x = Inr d \<longrightarrow> (\<exists>ps. contents cf key xs = Inr ps \<and> d = zip xs ps)) \<and>
    ((\<forall>i \<in> set xs. chunk_good cf key i) \<longrightarrow> (\<exists>d. x = Inr d))"
proof (cases "xs = []")
  case True
  then show ?thesis using run ok by (auto simp: contents_def)
next
  case False
  obtain y p1 where y: "pool_bucket cf key po = (y, p1)" by fastforce
  note pb = pool_bucket_ok [OF ok y]
  show ?thesis
  proof (cases y)
    case (Inl e)
    obtain i where i: "i \<in> set xs" using False by (cases xs) auto
    have "open_fresh cf key = Inl e" using pb Inl by simp
    then have "\<not> chunk_good cf key i" by (simp add: chunk_good_def chunk_content_def)
    then have "\<not> (\<forall>i \<in> set xs. chunk_good cf key i)" using i by blast
    moreover have "x = Inl e" "po' = p1" using run y Inl False by simp_all
    ultimately show ?thesis using pb by simp
  next
    case (Inr r)
    obtain z p2 where z: "decode_bucket_chunks cf key (ascending_runs xs) r p1 = (z, p2)" by fastforce
    have rd: "reader_of cf key r" "pool_ok cf p1" using pb Inr by simp_all
    note dc = decode_bucket_chunks_ok [OF rd(2) sound rd(1) xs False z]
    show ?thesis
    proof (cases z)
      case (Inl e)
      then show ?thesis using run y z Inr dc False by simp
    next
      case z': (Inr d)
      obtain ps where ps: "contents cf key xs = Inr ps" "d = zip xs ps" using dc z' by blast
      have "\<forall>(i, p) \<in> set d. chunk_content cf (ChunkAddress (fst key) (snd key) i) = Inr p"
        using ps by (auto simp: contents_Inr list_all2_iff)
      then have "pool_ok cf (if po_epoch p2 = release_epoch then backfill_chunks (fst key) (snd key) d p2 else p2)"
        using dc backfill_ok by simp
      moreover have "x = Inr d" "po' = (if po_epoch p2 = release_epoch then backfill_chunks (fst key) (snd key) d p2 else p2)"
        using run y z Inr z' False by simp_all
      ultimately show ?thesis using ps by auto
    qed
  qed
qed

lemma zip_get:
  assumes "list_all2 P xs ps" and "i \<in> set xs"
  shows "\<exists>p. map_of (rev (zip xs ps)) i = Some p \<and> P i p"
proof -
  have "i \<in> fst ` set (zip xs ps)" using assms list_all2_lengthD [OF assms(1)] by (metis map_fst_zip set_map)
  then obtain p where p: "map_of (rev (zip xs ps)) i = Some p" by (metis map_of_eq_None_iff not_None_eq set_rev)
  then have "(i, p) \<in> set (zip xs ps)" using map_of_SomeD by fastforce
  then show ?thesis using assms(1) p by (auto simp: list_all2_iff)
qed

lemma resolve_bucket_group_ok:
  assumes ok: "pool_ok cf po" and sound: "bucket_sound cf key" and idxs: "sorted_wrt (<) idxs"
    and run: "resolve_bucket_group cf key idxs po = (x, po')"
  shows "pool_ok cf po' \<and>
    (\<forall>d. x = Inr d \<longrightarrow> (\<forall>i \<in> set idxs. \<exists>p. map_of d i = Some p \<and> chunk_content cf (ChunkAddress (fst key) (snd key) i) = Inr p)) \<and>
    ((\<forall>i \<in> set idxs. chunk_good cf key i) \<longrightarrow> (\<exists>d. x = Inr d))"
proof -
  let ?a = "\<lambda>i. ChunkAddress (fst key) (snd key) i"
  obtain hits misses c where h: "fold (cached_chunk (fst key) (snd key)) idxs ([], [], po_chunks po) = (hits, misses, c)"
    by (metis prod_cases3)
  have cc: "chunks_ok cf c" "\<forall>(i, p) \<in> set hits. chunk_content cf (?a i) = Inr p" "distinct (map fst hits)"
    "fst ` set hits \<union> set misses = set idxs" "subseq misses idxs"
    using cached_chunks_ok [OF _ h] ok by (auto simp: pool_ok_def)
  have asc: "sorted_wrt (<) misses" using subseq_ascending [OF cc(5) idxs] .
  let ?po = "po\<lparr>po_chunks := c\<rparr>"
  have ok1: "pool_ok cf ?po" using ok cc(1) by (simp add: pool_ok_def algorithm_ok_def)
  define part where "part = (if misses = [] then op_return []
         else op_bind (pool_bucket cf key) (\<lambda>r.
              op_bind (decode_bucket_chunks cf key (ascending_runs misses) r) (\<lambda>decoded po'.
                (Inr decoded, if po_epoch po' = po_epoch po then backfill_chunks (fst key) (snd key) decoded po' else po'))))"
  obtain y p1 where y: "part ?po = (y, p1)" by fastforce
  note bp = batch_part_ok [OF ok1 sound asc y [unfolded part_def]]
  have eq: "resolve_bucket_group cf key idxs po = op_bind part (\<lambda>decoded.
      op_bind (if hits = [] then op_return () else verify_fingerprints cf (fst key) (snd key) hits)
        (\<lambda>_. op_return (dict_update decoded hits))) ?po"
    by (simp add: resolve_bucket_group_def cached_chunks_def h Let_def part_def)
  show ?thesis
  proof (cases y)
    case (Inl e)
    then have "x = Inl e" "po' = p1" using run [unfolded eq] y by simp_all
    moreover have "\<not> (\<forall>i \<in> set idxs. chunk_good cf key i)" using bp Inl cc(4) by auto
    ultimately show ?thesis using bp by simp
  next
    case (Inr d)
    obtain ps where ps: "contents cf key misses = Inr ps" "d = zip misses ps" using bp Inr by blast
    have ok2: "pool_ok cf p1" using bp by simp
    obtain u p2 where u: "(if hits = [] then op_return () else verify_fingerprints cf (fst key) (snd key) hits) p1 = (u, p2)" by fastforce
    have ok3: "pool_ok cf p2"
      using u ok2 verify_fingerprints_state [OF ok2, of "fst key" "snd key" hits u p2] by (cases "hits = []") simp_all
    have res: "po' = p2" "x = bind_res u (\<lambda>_. Inr (dict_update d hits))"
      using run [unfolded eq] y Inr u by (simp_all add: op_bind_def split: sum.splits)
    have get: "\<exists>p. map_of (dict_update d hits) i = Some p \<and> chunk_content cf (?a i) = Inr p" if i: "i \<in> set idxs" for i
    proof (cases "i \<in> set misses")
      case True
      from zip_get [OF ps(1) [unfolded contents_Inr] this] show ?thesis by (auto simp: dict_update_get ps(2))
    next
      case False
      have "map_of (rev d) i = None" using False ps by (auto simp: map_of_eq_None_iff dest: set_zip_leftD)
      moreover have "i \<in> fst ` set hits" using False i cc(4) by blast
      then obtain p where "map_of hits i = Some p" by (metis map_of_eq_None_iff not_None_eq)
      moreover from map_of_SomeD [OF this] have "chunk_content cf (?a i) = Inr p" using cc(2) by blast
      ultimately show ?thesis by (auto simp: dict_update_get)
    qed
    have "u = Inr ()" if g: "\<forall>i \<in> set idxs. chunk_good cf key i"
    proof (cases "hits = []")
      case True
      then show ?thesis using u by simp
    next
      case False
      have "p = chunk_bytes cf (?a i) \<and> digest_ok cf (fst key, snd key) i (chunk_bytes cf (?a i))" if m: "(i, p) \<in> set hits" for i p
      proof -
        have "i \<in> set idxs" using m cc(4) by force
        then have "chunk_good cf key i" using g by blast
        then show ?thesis using m cc(2) by (fastforce simp: chunk_good_def chunk_bytes_def)
      qed
      then have "fst (verify_fingerprints cf (fst key) (snd key) hits p1) = Inr ()"
        using verify_fingerprints_passes [OF ok2 False, of "\<lambda>i. chunk_bytes cf (?a i)" "fst key" "snd key"] by blast
      then show ?thesis using u False by simp
    qed
    then show ?thesis using res ok3 get by (auto simp: res_simps)
  qed
qed

subsection \<open>The pool is a chunk source\<close>

definition chunk_avail :: "pool_config \<Rightarrow> chunk_address \<Rightarrow> bool" where
  "chunk_avail cf a \<longleftrightarrow> bucket_sound cf (stream_id a, bucket_id a) \<and> chunk_good cf (stream_id a, bucket_id a) (chunk_idx a) \<and>
     length (chunk_bytes cf a) \<le> FIXED_CHUNK_LENGTH"

lemma fetch_group_ok:
  assumes ok: "pool_ok cf po" and wf: "group_wf g" and av: "\<forall>i \<in> run_indices g. chunk_avail cf (group_addr g i)"
  shows "\<exists>m po'. fetch_group cf g po = (Inr m, po') \<and> pool_ok cf po' \<and> (\<forall>i \<in> run_indices g. m i = Some (chunk_bytes cf (group_addr g i)))"
proof -
  let ?k = "bg_key g" and ?idxs = "all_indices (bg_ranges g)"
  have sep: "separated (bg_ranges g)" using wf merge_ranges(1) by (simp add: group_wf_def run_ranges_def)
  have idxs: "set ?idxs = run_indices g" using group_wf_indices [OF wf] by (simp add: set_all_indices)
  have addr: "group_addr g i = ChunkAddress (fst ?k) (snd ?k) i" for i by (simp add: group_addr_def)
  have good: "chunk_good cf ?k i" if "i \<in> run_indices g" for i using av that by (auto simp: chunk_avail_def addr)
  have bytes: "chunk_content cf (group_addr g i) = Inr p \<Longrightarrow> chunk_bytes cf (group_addr g i) = p" for i p
    by (simp add: chunk_bytes_def)
  obtain r po' where run: "fetch_group cf g po = (r, po')" by fastforce
  show ?thesis
  proof (cases "bg_single g")
    case True
    then obtain i where i: "bg_ranges g = [(i, 1)]" using wf unfolding group_wf_def by blast
    then have ri: "run_indices g = {i}" using idxs by (simp add: range_indices_def)
    obtain x p1 where x: "pool_read_chunk cf (group_addr g i) po = (x, p1)" by fastforce
    note rc = pool_read_chunk_ok [OF ok x]
    obtain p where p: "chunk_content cf (group_addr g i) = Inr p" "digest_ok cf ?k i p"
      using good [of i] unfolding ri chunk_good_def addr by blast
    have "(stream_id (group_addr g i), bucket_id (group_addr g i)) = ?k" "chunk_idx (group_addr g i) = i" by (simp_all add: addr)
    then have xp: "x = Inr p" using rc p by (metis (no_types))
    have "fetch_group cf g po = (Inr [i \<mapsto> p], p1)"
      using True i x xp unfolding fetch_group_def addr by simp
    then show ?thesis using conjunct1 [OF rc] bytes [OF p(1)] by (simp add: ri)
  next
    case False
    obtain i where i: "i \<in> run_indices g"
      using wf by (cases "bg_runs g") (fastforce simp: group_wf_def run_indices_def)+
    have sound: "bucket_sound cf ?k" using av i by (auto simp: chunk_avail_def addr)
    obtain x p1 where x: "resolve_bucket_group cf ?k ?idxs po = (x, p1)" by fastforce
    note rb = resolve_bucket_group_ok [OF ok sound separated_indices [OF sep] x]
    obtain d where d: "x = Inr d" using rb good idxs by auto
    have "fetch_group cf g po = (Inr (map_of d), p1)" using False x d by (simp add: fetch_group_def)
    moreover have "map_of d i = Some (chunk_bytes cf (group_addr g i))" if "i \<in> run_indices g" for i
      using rb d that idxs bytes by (fastforce simp: addr)
    ultimately show ?thesis using rb by blast
  qed
qed

interpretation pool_source: chunk_source "fetch_group cf" "pool_ok cf" "chunk_bytes cf" "chunk_avail cf" for cf
proof
  fix s g assume "pool_ok cf s" "group_wf g" "\<forall>i \<in> run_indices g. chunk_avail cf (group_addr g i)"
  then show "\<exists>m s'. fetch_group cf g s = (Inr m, s') \<and> pool_ok cf s' \<and> (\<forall>i \<in> run_indices g. m i = Some (chunk_bytes cf (group_addr g i)))"
    by (rule fetch_group_ok)
next
  fix a assume "chunk_avail cf a"
  then show "length (chunk_bytes cf a) \<le> FIXED_CHUNK_LENGTH" by (simp add: chunk_avail_def)
qed

end
