(* ===== verification/PoolRead.thy ===== *)
theory PoolRead
  imports Pool
begin

text \<open>
  A dedup file read through a live pool: the interface \<open>chunk_source\<close> of \<open>DedupFile\<close> is
  discharged by \<open>Pool\<close>, and what remains is asked of the store and of the stored data only.
\<close>

subsection \<open>Stores with files\<close>

text \<open>Over a store that keeps the read contract, an opened bucket has a file behind it.\<close>

lemma opened_file:
  assumes st: "object_store (st_read st) files" and op: "open_bucket m st path k a v = Inr r"
  shows "\<exists>bs. files path = Some bs \<and> file_behind st r bs"
proof -
  obtain head where h: "st_read st path 0 (Some COMPRESS_RESERVED_LENG) = Inr head" "parse_bucket_header head = Inr (br_header r)"
    "br_path r = path"
    using open_bucket_reader [OF op] by blast
  have "head \<noteq> []"
  proof
    assume "head = []"
    then show False using h(2) parse_index_header_short [of "[]"] by (auto simp: parse_bucket_header_def HEADER_LEN_def)
  qed
  then obtain bs where "files path = Some bs"
    using object_store.read_absent [OF st _ h(1)] by (cases "files path") auto
  then show ?thesis
    using object_store.read_content [OF st] h(3) by (auto simp: file_behind_def)
qed

lemma stored_bucket_sound:
  assumes "object_store (st_read (pc_store cf)) files" and "zstd_documented (m_codec (pc_machine cf))" and "key_fits key"
    and "\<And>r. open_fresh cf key = Inr r \<Longrightarrow> bh_chunk_num (br_header r) \<le> BUCKET_MAX_CHUNK_NUM"
  shows "bucket_sound cf key"
proof -
  have "\<exists>bs. file_behind (pc_store cf) r bs" if fresh: "open_fresh cf key = Inr r" for r
  proof -
    obtain path a where "open_bucket (pc_machine cf) (pc_store cf) path (pc_vault_key cf) a (vp_ciphertext_crc (pc_verify cf)) = Inr r"
      using fresh unfolding open_fresh_def bind_res_Inr_iff by blast
    from opened_file [OF assms(1) this] show ?thesis by blast
  qed
  then show ?thesis using assms by (simp add: bucket_sound_def)
qed

subsection \<open>Files\<close>

text \<open>
  A file whose record and pool are as opening and any earlier reads leave them, and the chunks
  of a window being there: readable one by one, complete frames where they are stored as ZSTD,
  and matching their stored fingerprints when the pool checks them.
\<close>

definition served_file :: "pool_config \<Rightarrow> reader \<Rightarrow> crec res \<Rightarrow> bytes \<Rightarrow> chunk_map_entry list \<Rightarrow> pool dedup_file \<Rightarrow> bool" where
  "served_file cf rd_at open_record arr es f \<longleftrightarrow> pool_ok cf (df_pool f) \<and>
     (case df_record f of
        Some r \<Rightarrow> crec_ok rd_at arr es r
      | None \<Rightarrow> (\<exists>r. open_record = Inr r \<and> crec_ok rd_at arr es r))"

definition chunks_there :: "pool_config \<Rightarrow> chunk_map_entry list \<Rightarrow> nat \<Rightarrow> nat \<Rightarrow> bool" where
  "chunks_there cf es start stop \<longleftrightarrow> (\<forall>e \<in> set es. \<forall>p. start \<le> p \<and> p < stop \<and> entry_covers p e \<and> cm_kind e = MAPPING \<longrightarrow>
     chunk_avail cf (chunk_at (the (cm_addr e)) (cm_map_num e) ((p - cm_file_offset e) div FIXED_CHUNK_LENGTH)))"

lemma served_file_ok: "served_file cf rd_at open_record arr es f = chunk_source.file_ok (pool_ok cf) rd_at open_record arr es f"
  by (simp add: served_file_def pool_source.file_ok_def)

lemma chunks_there_avail: "chunks_there cf es start stop = chunk_source.window_avail (chunk_avail cf) es start stop"
  by (simp add: chunks_there_def pool_source.window_avail_def)

subsection \<open>Properties\<close>

text \<open>C4.
  A read through the pool is the file: whatever the bucket, chunk and allocation-table caches
  hold after earlier operations, and whatever their bounds, \<open>read\<close> over \<open>Pool\<close> returns exactly
  the bytes the chunk map and the chunks' fresh decodings define for the requested (clamped)
  range, and leaves the file and the pool in a state for which the same holds again.
\<close>

theorem read_through_pool_exact:
  assumes "served_file cf rd_at open_record arr es f" and "entries_ordered es"
    and "resolve_read (df_size f) offset len = Inr n" and "chunks_there cf es (nat offset) (nat offset + n)"
  shows "\<exists>f'. dedup_read rd_at open_record (fetch_group cf) offset len f =
      (Inr (map (content (chunk_bytes cf) es) [nat offset..<nat offset + n]), f') \<and>
    served_file cf rd_at open_record arr es f' \<and> df_size f' = df_size f"
  using assms unfolding served_file_ok chunks_there_avail by (rule pool_source.dedup_read_ok)

text \<open>A pool with one bucket of sixteen plain chunks, named by a store that lists only it.\<close>

definition plain_bucket_header :: bytes where
  "plain_bucket_header = build_header MAGIC_bucket 1 0 (be_bytes 4 0 @ be_bytes 4 16 @ replicate 44 0)"

definition plain_bucket :: bytes where
  "plain_bucket = plain_bucket_header @ replicate 69568 7"

definition plain_store :: store where
  "plain_store =
     \<lparr>st_read = (\<lambda>p off len. Inr (case len of None \<Rightarrow> drop off plain_bucket | Some n \<Rightarrow> pslice off (off + n) plain_bucket)),
      st_size = (\<lambda>p. Inr 69632), st_exists = (\<lambda>p. Inr True), st_listdir = (\<lambda>p. Inr [\<lparr>e_name = ''5.buk'', e_size = None\<rparr>])\<rparr>"

definition plain_pool :: pool_config where
  "plain_pool =
     \<lparr>pc_machine = sample_machine, pc_sha256 = (\<lambda>x. x), pc_store = plain_store, pc_root = ''Pool'', pc_vault_key = None,
      pc_limits = \<lparr>cl_bucket_readers = 1, cl_chunks = 1, cl_allocation_tables = 1\<rparr>, pc_verify = NO_VERIFY\<rparr>"

definition plain_reader :: bucket_reader where
  "plain_reader =
     \<lparr>br_path = ''Pool/1/5.buk'',
      br_header = \<lparr>bh_major = 1, bh_minor = 0, bh_mode = 0, bh_chunk_num = 16, bh_chunk_size_crc = 0, bh_crc_of_chunk_crc = 0\<rparr>,
      br_index = \<lparr>bi_compress_types = replicate 16 0, bi_stored_lens = replicate 16 0, bi_effective_lens = replicate 16 4096,
                  bi_offsets = map (\<lambda>i. 4096 + 4096 * i) [0..<16]\<rparr>,
      br_vault_key = None, br_algorithm = None, br_verify = False, br_repaired = False, br_known_size = None, br_crc = None\<rparr>"

lemma length_plain_header: "length plain_bucket_header = 64"
  by (simp add: plain_bucket_header_def build_header_def Let_def MAGIC_bucket_def ascii_def)

lemma plain_header: "parse_bucket_header (take 16384 plain_bucket) = Inr (br_header plain_reader)"
proof -
  let ?p = "be_bytes 4 0 @ be_bytes 4 16 @ replicate 44 0"
  have t: "take 16384 plain_bucket = plain_bucket_header @ replicate 16320 7"
    by (simp add: plain_bucket_def length_plain_header)
  have parse: "parse_index_header (take 16384 plain_bucket) MAGIC_bucket (Some MAJOR_VAULT) =
      Inr \<lparr>ih_magic = MAGIC_bucket, ih_major = 1, ih_minor = 0, ih_raw = plain_bucket_header\<rparr>"
    unfolding t plain_bucket_header_def by (rule parse_build_header) (simp_all add: MAGIC_bucket_def ascii_def MAJOR_VAULT_def)
  have f: "be_field k n (take 16384 plain_bucket) = be_field (k - 8) n ?p" if "8 \<le> k" "k + n \<le> 60" for k n
  proof -
    have split: "take 16384 plain_bucket = (MAGIC_bucket @ be_bytes 2 1 @ be_bytes 2 0) @ ?p @ (drop 60 plain_bucket_header @ replicate 16320 7)"
      unfolding t by (simp add: plain_bucket_header_def build_header_def Let_def MAGIC_bucket_def ascii_def)
    have eight: "length (MAGIC_bucket @ be_bytes 2 1 @ be_bytes 2 0) = 8" and "length ?p = 52"
      by (simp_all add: MAGIC_bucket_def ascii_def)
    then show ?thesis
      using that unfolding split by (subst be_field_append_right) (simp_all only: eight be_field_append_left)
  qed
  show ?thesis
    by (simp add: parse_bucket_header_def parse f OFF_MODE_def OFF_CRC_OF_CHUNK_CRC_def plain_reader_def be_field_append_right
        be_field_append_left be_field_exact be_field_def [of _ _ "replicate _ _"] pslice_replicate be_nat_zeros)
qed

lemma plain_index: "bucket_index_uncompressed True 16 = Inr (br_index plain_reader)"
proof -
  have e: "lane_effective 0 0 = 4096" by (simp add: lane_effective_def const_values)
  have "bucket_index_uncompressed True 16 = (if 2 ^ 32 \<le> RESERVED_LENG + sum_list (replicate 16 4096) then Inl PyOverflowError
     else Inr \<lparr>bi_compress_types = replicate 16 0, bi_stored_lens = replicate 16 0, bi_effective_lens = replicate 16 4096,
               bi_offsets = map (\<lambda>i. RESERVED_LENG + sum_list (take i (replicate 16 4096))) [0..<16]\<rparr>)"
    unfolding bucket_index_uncompressed_def by (subst bucket_index_of_eq) (simp_all add: e Let_def)
  then show ?thesis by (simp add: plain_reader_def RESERVED_LENG_def sum_list_replicate min_def mult.commute)
qed

lemma plain_open: "open_fresh plain_pool (1, 5) = Inr plain_reader"
proof -
  have s: "split_seq_suffix ''5.buk'' = Inr (''5.buk'', None)"
    by (simp add: split_seq_suffix_def seq_suffix_match_def str_rpartition_def Let_def is_ascii_digits_def is_digit_def)
  have d: "dec_str (Suc 0) = ''1''" "dec_str 5 = ''5''"
    by code_simp+
  have loc: "bucket_location plain_pool 1 5 = Inr (''Pool/1'', ''5.buk'')"
    by (simp add: bucket_location_def plain_pool_def split_layer_leaf_def pool_layer_path_def id_layer_ancestors_small d
        str_rpartition_def join_path_def Let_def strip_char_def bad_segment_def)
  have path: "bucket_path plain_pool 1 5 = Inr ''Pool/1/5.buk''"
    unfolding bucket_path_def loc by (simp add: plain_pool_def plain_store_def resolve_seq_path_def dir_grouped_def build_listing_def
        listing_step_def s resolve_seq_file_def seq_key_def join_path_def Let_def strip_char_def bad_segment_def)
  show ?thesis
    using plain_header plain_index
    unfolding open_fresh_def fst_conv snd_conv path
    by (simp add: plain_pool_def NO_VERIFY_def open_bucket_def plain_store_def
        COMPRESS_RESERVED_LENG_def sample_machine_def, simp add: plain_reader_def is_compressed_def MODE_COMPRESS_def)
qed

lemma plain_chunk:
  assumes "i < 16"
  shows "chunk_content plain_pool (ChunkAddress 1 5 i) = Inr (replicate 4096 7)"
proof -
  have off: "bi_offsets (br_index plain_reader) ! i = 4096 + 4096 * i" "length (bi_offsets (br_index plain_reader)) = 16"
    "bi_effective_lens (br_index plain_reader) ! i = 4096" "length (bi_effective_lens (br_index plain_reader)) = 16"
    "bi_compress_types (br_index plain_reader) ! i = 0" "length (bi_compress_types (br_index plain_reader)) = 16"
    "br_verify plain_reader = False" "bh_mode (br_header plain_reader) = 0"
    using assms by (simp_all add: plain_reader_def del: upt_Suc)
  have "pslice (4096 + 4096 * i) (4096 + 4096 * i + 4096) plain_bucket = replicate 4096 7"
    using assms length_plain_header by (simp add: plain_bucket_def pslice_append_right pslice_replicate)
  then have raw: "read_raw_chunk (pc_store plain_pool) plain_reader i = Inr (replicate 4096 7)"
    using assms by (simp add: read_raw_chunk_def resolve_compress_type_def off list_get_def compress_type_by_value_def
        COMPRESS_TYPE_COMPACTED_VALUE_def, simp add: plain_pool_def plain_store_def)
  have t: "resolve_compress_type plain_reader i = Inr CT_NONE"
    using assms by (simp add: resolve_compress_type_def off compress_type_by_value_def COMPRESS_TYPE_COMPACTED_VALUE_def)
  have o: "open_fresh plain_pool (stream_id (ChunkAddress 1 5 i), bucket_id (ChunkAddress 1 5 i)) = Inr plain_reader"
    using plain_open by simp
  show ?thesis
    unfolding chunk_content_def o bind_res_simps
    by (simp add: read_chunk_def raw decode_raw_chunk_def t off reader_decrypt_def is_vault_encrypted_def decompress_def const_values)
qed

lemma plain_avail: "i < 16 \<Longrightarrow> chunk_avail plain_pool (ChunkAddress 1 5 i)"
proof -
  assume i: "i < 16"
  have st: "object_store (st_read (pc_store plain_pool)) (\<lambda>p. Some plain_bucket)"
    by unfold_locales (auto simp: plain_pool_def plain_store_def split: option.split)
  have "bucket_sound plain_pool (1, 5)"
    using copying_codec_documented plain_open
    by (intro stored_bucket_sound [OF st])
      (auto simp: plain_pool_def sample_machine_def key_fits_def plain_reader_def const_values)
  moreover have "digest_ok plain_pool (1, 5) i p" for p by (simp add: digest_ok_def plain_pool_def NO_VERIFY_def)
  moreover have "chunk_untorn plain_pool (1, 5) i"
  proof -
    have "whole_frame cd t d"
      if r1: "readied (pc_store plain_pool) plain_reader r1" and raw: "raw_item (pc_machine plain_pool) r1 (1, 5) bs i = Inr (j, t, d)"
      for r1 bs j t d cd
    proof -
      have "bi_compress_types (br_index r1) = replicate 16 0" using readied_fields(3) [OF r1] by (simp add: plain_reader_def)
      then have "t = CT_NONE" using raw i by (auto simp: raw_item_def compress_type_by_value_def res_simps)
      then show ?thesis by (simp add: whole_frame_def)
    qed
    then show ?thesis using plain_open by (auto simp: chunk_untorn_def stored_whole_def)
  qed
  ultimately show ?thesis
    using plain_chunk [OF i] by (simp add: chunk_avail_def chunk_good_def chunk_bytes_def const_values)
qed

lemma read_through_pool_exact_witness:
  "\<exists>f'. dedup_read sample_reader (Inr (crec_init (Some 1) 0 sample_head)) (fetch_group plain_pool) 8190 (Some 4)
      \<lparr>df_size = Some 20480, df_record = None, df_pool = pool_init plain_pool\<rparr> = (Inr [0, 0, 7, 7], f')"
proof -
  let ?f = "\<lparr>df_size = Some 20480, df_record = None, df_pool = pool_init plain_pool\<rparr>"
  let ?c = "content (chunk_bytes plain_pool) sample_entries"
  have f: "served_file plain_pool sample_reader (Inr (crec_init (Some 1) 0 sample_head)) (encode_entries sample_entries) sample_entries ?f"
    using pool_init_ok sample_ok by (simp add: served_file_def)
  have ord: "entries_ordered sample_entries"
    by (simp add: entries_ordered_def sample_entries_def entry_end_def entry_length_def const_values)
  have n: "resolve_read (df_size ?f) 8190 (Some 4) = Inr 4"
    by (simp add: resolve_read_def clamp_read_length_def MAX_SINGLE_READ_SIZE_def)
  have one: "chunk_at (ChunkAddress 1 5 9) 2 ((p - 8192) div 4096) = ChunkAddress 1 5 9" if "p < 8194" for p
    using that by (simp add: chunk_at_def advance_by_def const_values)
  have there: "chunks_there plain_pool sample_entries (nat 8190) (nat 8190 + 4)"
    using plain_avail [of 9] one by (auto simp: chunks_there_def sample_entries_def const_values)
  have b: "chunk_bytes plain_pool (ChunkAddress 1 5 9) = replicate 4096 7" using plain_chunk [of 9] by (simp add: chunk_bytes_def)
  have "?c p = (if p < 8192 then 0 else 7)" if "8190 \<le> p" "p < 8194" for p
    using that one [of p] b
    by (auto simp: content_def sample_entries_def entry_covers_def entry_end_def entry_length_def const_values chunk_byte_def Let_def
        entry_byte_def)
  then have "map ?c [nat 8190..<nat 8190 + 4] = [0, 0, 7, 7]" by (simp add: upt_rec)
  then show ?thesis using read_through_pool_exact [OF f ord n there] by auto
qed

end
