(* ===== verification/OpSpec.thy ===== *)
theory OpSpec
  imports StateRes
begin

text \<open>
  Reasoning about operations: \<open>attains m s F Q\<close> says that running \<open>m\<close> in \<open>s\<close> ends either with
  an exception in a state that satisfies \<open>F\<close>, or with a value and a state that satisfy \<open>Q\<close>.
\<close>

definition attains :: "('s, 'a) op \<Rightarrow> 's \<Rightarrow> ('s \<Rightarrow> bool) \<Rightarrow> ('a \<Rightarrow> 's \<Rightarrow> bool) \<Rightarrow> bool" where
  "attains m s F Q \<longleftrightarrow> (case m s of (Inl e, s') \<Rightarrow> F s' | (Inr x, s') \<Rightarrow> Q x s')"

lemma attains_Inl [simp]: "m s = (Inl e, s') \<Longrightarrow> attains m s F Q \<longleftrightarrow> F s'"
  and attains_Inr [simp]: "m s = (Inr x, s') \<Longrightarrow> attains m s F Q \<longleftrightarrow> Q x s'"
  by (simp_all add: attains_def)

lemma attains_return [simp]: "attains (op_return x) s F Q \<longleftrightarrow> Q x s"
  by (simp add: attains_def)

lemma attains_lift [simp]: "attains (op_lift r) s F Q \<longleftrightarrow> (case r of Inl e \<Rightarrow> F s | Inr x \<Rightarrow> Q x s)"
  by (simp add: attains_def)

lemma attains_weaken: "attains m s F P \<Longrightarrow> (\<And>x t. P x t \<Longrightarrow> Q x t) \<Longrightarrow> attains m s F Q"
  by (auto simp: attains_def split: prod.splits sum.splits)

lemma attains_bind_run:
  assumes "attains m s F P" and "\<And>x t. m s = (Inr x, t) \<Longrightarrow> P x t \<Longrightarrow> attains (f x) t F Q"
  shows "attains (op_bind m f) s F Q"
proof -
  obtain r t where m: "m s = (r, t)" by (cases "m s")
  show ?thesis
  proof (cases r)
    case (Inl e)
    then show ?thesis using m assms(1) by (simp add: attains_def op_bind_def)
  next
    case (Inr x)
    then have "attains (f x) t F Q" using m assms(1) by (intro assms(2)) simp_all
    then show ?thesis using m Inr by (simp add: attains_def op_bind_def)
  qed
qed

lemma attains_bind: "attains m s F P \<Longrightarrow> (\<And>x t. P x t \<Longrightarrow> attains (f x) t F Q) \<Longrightarrow> attains (op_bind m f) s F Q"
  by (rule attains_bind_run)

text \<open>A loop, by an invariant over the items done so far.\<close>

lemma attains_each:
  assumes "P [] s" and "\<And>ys y zs t. xs = ys @ y # zs \<Longrightarrow> P ys t \<Longrightarrow> attains (f y) t F (\<lambda>_. P (ys @ [y]))"
  shows "attains (op_each f xs) s F (\<lambda>_. P xs)"
proof -
  have "attains (op_each f zs) t F (\<lambda>_. P xs)" if "xs = ys @ zs" "P ys t" for ys zs t
    using that
  proof (induction zs arbitrary: ys t)
    case (Cons y zs)
    have "attains (f y) t F (\<lambda>_. P (ys @ [y]))" using Cons.prems by (rule assms(2))
    then show ?case using Cons.IH [of "ys @ [y]"] Cons.prems(1) by (auto intro: attains_bind)
  qed simp
  from this [of "[]" xs s] show ?thesis using assms(1) by simp
qed

lemma op_each_append: "op_each f (xs @ ys) = op_bind (op_each f xs) (\<lambda>_. op_each f ys)"
  by (induction xs) (auto simp: op_bind_def fun_eq_iff split: prod.split sum.split)

lemma op_each_map: "op_each f (map g xs) = op_each (\<lambda>x. f (g x)) xs"
  by (induction xs) simp_all

text \<open>An operation on one part of a state.\<close>

definition op_zoom :: "('s \<Rightarrow> 't) \<Rightarrow> ('t \<Rightarrow> 's \<Rightarrow> 's) \<Rightarrow> ('t, 'a) op \<Rightarrow> ('s, 'a) op" where
  "op_zoom get put m s = (let (r, t) = m (get s) in (r, put t s))"

lemma attains_zoom: "attains (op_zoom get put m) s F Q \<longleftrightarrow> attains m (get s) (\<lambda>t. F (put t s)) (\<lambda>x t. Q x (put t s))"
  by (simp add: attains_def op_zoom_def split: prod.split sum.split)

end
