(* ===== verification/Sink.thy ===== *)
theory Sink
  imports OpSpec
begin

text \<open>
  Where exported bytes go: the writer interface and lifecycle of \<open>sdk/dedup/export_sink.py\<close>,
  \<open>OffsetWriter\<close>, and the close sweeps of \<open>sdk/_util/closing.py\<close> a failing export runs.
\<close>

subsection \<open>Writers\<close>

text \<open>
  An \<open>ExportWriter\<close>: its operations on the destination's state, \<open>caps.supports_sparse\<close> and
  \<open>preallocated\<close>. Offsets are Python integers.
\<close>

record 'w writer =
  wr_write_at :: "int \<Rightarrow> bytes \<Rightarrow> ('w, unit) op"
  wr_write_zero :: "int \<Rightarrow> nat \<Rightarrow> ('w, unit) op"
  wr_sparse :: bool
  wr_preallocated :: "'w \<Rightarrow> bool"

record abort_outcome =
  ao_kept :: bool
  ao_ever_written :: bool

definition needs_zero_fill :: "'w writer \<Rightarrow> bool \<Rightarrow> 'w \<Rightarrow> bool" where
  "needs_zero_fill W sparse w \<longleftrightarrow> (\<not> sparse \<or> \<not> wr_sparse W) \<and> \<not> wr_preallocated W w"

definition offset_writer :: "'w writer \<Rightarrow> int \<Rightarrow> 'w writer res" where
  "offset_writer W base =
     (if base < 0 then Inl PyValueError
      else Inr \<lparr>wr_write_at = (\<lambda>off data. wr_write_at W (base + off) data), wr_write_zero = (\<lambda>off n. wr_write_zero W (base + off) n),
                wr_sparse = wr_sparse W, wr_preallocated = wr_preallocated W\<rparr>)"

subsection \<open>Close sweeps and the lifecycle\<close>

text \<open>\<open>close_each\<close> with no time limit: every closer runs, the failures are returned.\<close>

fun close_each :: "('s, unit) op list \<Rightarrow> 's \<Rightarrow> err list \<times> 's" where
  "close_each [] s = ([], s)"
| "close_each (c # cs) s =
     (case c s of
        (r, s') \<Rightarrow> (let (errors, t) = close_each cs s' in ((case r of Inl e \<Rightarrow> e # errors | Inr _ \<Rightarrow> errors), t)))"

text \<open>\<open>close_all\<close> raises an \<open>ExceptionGroup\<close>, which is an \<open>Exception\<close>.\<close>

definition close_all :: "('s, unit) op list \<Rightarrow> ('s, unit) op" where
  "close_all cs s = (let (errors, t) = close_each cs s in (if errors = [] then Inr () else Inl PyException, t))"

text \<open>\<open>close_preserving\<close> adds notes to the error under way and raises nothing itself.\<close>

definition close_preserving :: "('s, unit) op list \<Rightarrow> 's \<Rightarrow> 's" where
  "close_preserving cs s = snd (close_each cs s)"

definition run_sink_export :: "('s, unit) op \<Rightarrow> ('s, 'a) op \<Rightarrow> ('s, unit) op \<Rightarrow> ('s, unit) op \<Rightarrow> ('s, 'a) op" where
  "run_sink_export open_sink body commit abort s =
     (case op_bind open_sink (\<lambda>_. op_bind body (\<lambda>result. op_bind commit (\<lambda>_. op_return result))) s of
        (Inr result, t) \<Rightarrow> (Inr result, t)
      | (Inl e, t) \<Rightarrow> (Inl e, close_preserving [abort] t))"

lemma close_each_runs_all: "snd (close_each cs s) = fold (\<lambda>c t. snd (c t)) cs s"
  by (induction cs arbitrary: s) (simp_all add: case_prod_beta Let_def)

lemma close_preserving_one [simp]: "close_preserving [c] s = snd (c s)"
  by (simp add: close_preserving_def close_each_runs_all del: close_each.simps)

subsection \<open>What a writer promises\<close>

text \<open>
  \<open>held w\<close> is the destination's content once every write handed over has been carried out, or
  \<open>None\<close> when the destination is broken: not open, or one of those writes fails. A write is
  carried out in full or leaves the destination broken for good, and one inside the destination
  is refused only when the destination is broken. \<open>ready\<close> destinations do not break. \<open>keeps\<close> is
  what the writer needs to be used at all, and whatever else a write never changes.
\<close>

definition lands :: "nat \<Rightarrow> bytes \<Rightarrow> bytes option \<Rightarrow> unit res \<Rightarrow> bytes option \<Rightarrow> bool" where
  "lands off data before r after \<longleftrightarrow>
     (before = None \<longrightarrow> after = None) \<and> (\<forall>e f. r = Inl e \<and> before = Some f \<and> off + length data \<le> length f \<longrightarrow> after = None) \<and>
     (\<forall>f g. before = Some f \<and> after = Some g \<and> off + length data \<le> length f \<longrightarrow> g = pslice_assign off (off + length data) data f)"

locale byte_target =
  fixes put :: "int \<Rightarrow> bytes \<Rightarrow> ('w, unit) op" and held :: "'w \<Rightarrow> bytes option" and ready :: "'w \<Rightarrow> bool"
    and written :: "'w \<Rightarrow> nat" and keeps :: "'w \<Rightarrow> bool"
  assumes put_lands: "keeps w \<Longrightarrow> put (int off) data w = (r, w') \<Longrightarrow> lands off data (held w) r (held w')"
    and put_ready: "keeps w \<Longrightarrow> ready w \<Longrightarrow> held w = Some f \<Longrightarrow> off + length data \<le> length f \<Longrightarrow> ready (snd (put (int off) data w))"
    and put_written: "put i data w = (Inr (), w') \<Longrightarrow> written w' = written w + length data"
    and ready_held: "ready w \<Longrightarrow> held w \<noteq> None"
    and put_keeps: "keeps w \<Longrightarrow> keeps (snd (put i data w))"

locale export_writer =
  fixes W :: "'w writer" and held :: "'w \<Rightarrow> bytes option" and ready :: "'w \<Rightarrow> bool" and keeps :: "'w \<Rightarrow> bool"
  assumes write_at_lands: "keeps w \<Longrightarrow> wr_write_at W (int off) data w = (r, w') \<Longrightarrow> lands off data (held w) r (held w')"
    and write_zero_lands: "keeps w \<Longrightarrow> wr_write_zero W (int off) n w = (r, w') \<Longrightarrow> lands off (replicate n 0) (held w) r (held w')"
    and write_at_ready: "keeps w \<Longrightarrow> ready w \<Longrightarrow> held w = Some f \<Longrightarrow> off + length data \<le> length f \<Longrightarrow> ready (snd (wr_write_at W (int off) data w))"
    and write_zero_ready: "keeps w \<Longrightarrow> ready w \<Longrightarrow> held w = Some f \<Longrightarrow> off + n \<le> length f \<Longrightarrow> ready (snd (wr_write_zero W (int off) n w))"
    and ready_held: "ready w \<Longrightarrow> held w \<noteq> None"
    and write_at_keeps: "keeps w \<Longrightarrow> keeps (snd (wr_write_at W i data w))"
    and write_zero_keeps: "keeps w \<Longrightarrow> keeps (snd (wr_write_zero W i n w))"

text \<open>
  Painting: the positions in \<open>D\<close> hold their final byte, every other one its first. In this
  form the order of the writes does not matter.
\<close>

definition painted :: "(nat \<Rightarrow> byte) \<Rightarrow> bytes \<Rightarrow> nat set \<Rightarrow> bytes \<Rightarrow> bool" where
  "painted tgt f0 D f \<longleftrightarrow> length f = length f0 \<and> (\<forall>p < length f. f ! p = (if p \<in> D then tgt p else f0 ! p))"

lemma painted_start: "painted tgt f0 {} f0"
  by (simp add: painted_def)

lemma painted_assign:
  assumes "painted tgt f0 D f" and "off + length data \<le> length f" and "\<And>j. j < length data \<Longrightarrow> data ! j = tgt (off + j)"
  shows "painted tgt f0 (D \<union> {off..<off + length data}) (pslice_assign off (off + length data) data f)"
proof -
  have l: "length (pslice_assign off (off + length data) data f) = length f" using assms(2) by simp
  have "pslice_assign off (off + length data) data f ! p = (if p \<in> D \<union> {off..<off + length data} then tgt p else f0 ! p)"
    if p: "p < length f" for p
  proof (cases "off \<le> p \<and> p < off + length data")
    case True
    then have "p - off < length data" by auto
    then show ?thesis using True assms(2) assms(3) [of "p - off"] p by (simp add: nth_pslice_assign)
  next
    case False
    then show ?thesis using assms(1,2) p by (auto simp: nth_pslice_assign painted_def)
  qed
  then show ?thesis using assms(1) l by (simp add: painted_def)
qed

lemma painted_same: "painted tgt f0 D f \<Longrightarrow> D \<inter> {..<length f0} = E \<inter> {..<length f0} \<Longrightarrow> painted tgt f0 E f"
  by (fastforce simp: painted_def)

lemma painted_all:
  assumes "painted tgt f0 D f" and "{..<length f0} \<subseteq> D"
  shows "f = map tgt [0..<length f0]"
  using assms by (intro nth_equalityI) (auto simp: painted_def)

end
