(* ===== verification/MergeWrites.thy ===== *)
theory MergeWrites
  imports Sink DedupFile BucketReader
begin

text \<open>
  The destination side of pass 2 in \<open>sdk/dedup/chunk_walk.py\<close>: \<open>_flush_run\<close>,
  \<open>_merge_and_flush_writes\<close> and \<open>_BlockPlacements\<close>. The callback \<open>on_run\<close> is a parameter; the
  lemmas need only what \<open>byte_target\<close> says of it.
\<close>

definition MAX_MERGED_RUN :: nat where [const_defs]: "MAX_MERGED_RUN = 8 * 2 ^ 20"

type_synonym 's on_run = "int \<Rightarrow> bytes \<Rightarrow> ('s, unit) op"

subsection \<open>Merging writes\<close>

definition flush_run :: "'s on_run \<Rightarrow> int \<Rightarrow> bytes \<Rightarrow> nat \<Rightarrow> ('s, unit) op" where
  "flush_run on_run run_start run_buf dest_size =
     (let write_len = min (int (length run_buf)) (int dest_size - run_start) in
      if 0 < write_len then on_run run_start (take (nat write_len) run_buf) else op_return ())"

text \<open>The variables \<open>run_start\<close>, \<open>parts\<close> and \<open>run_len\<close>.\<close>

record merging =
  mg_start :: int
  mg_parts :: "bytes list"
  mg_len :: nat

definition flush_merging :: "'s on_run \<Rightarrow> nat \<Rightarrow> merging \<Rightarrow> ('s, unit) op" where
  "flush_merging on_run dest_size mg = flush_run on_run (mg_start mg) (concat (mg_parts mg)) dest_size"

definition extend_or_start_run_at :: "'s on_run \<Rightarrow> nat \<Rightarrow> int \<Rightarrow> merging \<Rightarrow> ('s, merging) op" where
  "extend_or_start_run_at on_run dest_size dest mg =
     (if mg_parts mg \<noteq> [] \<and> dest = mg_start mg + int (mg_len mg) \<and> mg_len mg < MAX_MERGED_RUN then op_return mg
      else op_bind (if mg_parts mg \<noteq> [] then flush_merging on_run dest_size mg else op_return ()) (\<lambda>_.
        op_return \<lparr>mg_start = dest, mg_parts = [], mg_len = 0\<rparr>))"

text \<open>The loop \<open>for chunk in taken\<close>, and the \<open>while remaining > 0\<close> loop of one run.\<close>

fun place_singly :: "'s on_run \<Rightarrow> nat \<Rightarrow> int \<Rightarrow> bytes list \<Rightarrow> merging \<Rightarrow> ('s, merging) op" where
  "place_singly on_run dest_size dest [] mg = op_return mg"
| "place_singly on_run dest_size dest (chunk # chunks) mg =
     op_bind (extend_or_start_run_at on_run dest_size dest mg) (\<lambda>mg.
       place_singly on_run dest_size (dest + int FIXED_CHUNK_LENGTH) chunks
         (mg\<lparr>mg_parts := mg_parts mg @ [chunk], mg_len := mg_len mg + length chunk\<rparr>))"

definition dict_get :: "('k \<times> 'v) list \<Rightarrow> 'k \<Rightarrow> 'v res" where
  "dict_get d k = (case map_of d k of None \<Rightarrow> Inl PyKeyError | Some v \<Rightarrow> Inr v)"

definition place_taken :: "'s on_run \<Rightarrow> nat \<Rightarrow> int \<Rightarrow> bytes list \<Rightarrow> merging \<Rightarrow> ('s, merging) op" where
  "place_taken on_run dest_size dest taken mg =
     (if set (map length taken) = {FIXED_CHUNK_LENGTH}
      then op_return (mg\<lparr>mg_parts := mg_parts mg @ taken, mg_len := mg_len mg + length taken * FIXED_CHUNK_LENGTH\<rparr>)
      else place_singly on_run dest_size dest taken mg)"

definition take_now :: "merging \<Rightarrow> nat \<Rightarrow> nat" where
  "take_now mg remaining = max 1 (min ((MAX_MERGED_RUN - mg_len mg) div FIXED_CHUNK_LENGTH) remaining)"

function place_run :: "'s on_run \<Rightarrow> nat \<Rightarrow> (nat \<times> bytes) list \<Rightarrow> nat \<Rightarrow> int \<Rightarrow> nat \<Rightarrow> merging \<Rightarrow> ('s, merging) op" where
  "place_run on_run dest_size chunks index dest remaining mg =
     (if remaining = 0 then op_return mg
      else op_bind (extend_or_start_run_at on_run dest_size dest mg) (\<lambda>mg.
        let n = take_now mg remaining in
        op_bind (op_lift (map_res (dict_get chunks) [index..<index + n])) (\<lambda>taken.
        op_bind (place_taken on_run dest_size dest taken mg) (\<lambda>mg.
          place_run on_run dest_size chunks (index + n) (dest + int n * int FIXED_CHUNK_LENGTH) (remaining - n) mg))))"
  by pat_completeness auto
termination by (relation "measure (\<lambda>(_, _, _, _, _, remaining, _). remaining)") (auto simp: take_now_def)

declare place_run.simps [simp del]

fun place_runs :: "'s on_run \<Rightarrow> nat \<Rightarrow> (nat \<times> bytes) list \<Rightarrow> chunk_run list \<Rightarrow> merging \<Rightarrow> ('s, merging) op" where
  "place_runs on_run dest_size chunks [] mg = op_return mg"
| "place_runs on_run dest_size chunks (r # rs) mg =
     op_bind (place_run on_run dest_size chunks (run_idx r) (run_dest r) (run_count r) mg)
       (place_runs on_run dest_size chunks rs)"

definition merging_init :: merging where
  "merging_init = \<lparr>mg_start = - 1, mg_parts = [], mg_len = 0\<rparr>"

definition merge_and_flush_writes :: "'s on_run \<Rightarrow> nat \<Rightarrow> chunk_run list \<Rightarrow> (nat \<times> bytes) list \<Rightarrow> ('s, unit) op" where
  "merge_and_flush_writes on_run dest_size runs chunks =
     op_bind (place_runs on_run dest_size chunks (sort_key run_dest runs) merging_init) (\<lambda>mg.
       if mg_parts mg \<noteq> [] then flush_merging on_run dest_size mg else op_return ())"

subsection \<open>Placements by block\<close>

type_synonym piece = "nat \<times> nat \<times> int"

function run_pieces :: "nat \<Rightarrow> int \<Rightarrow> nat \<Rightarrow> (nat \<times> piece) list" where
  "run_pieces index dest remaining =
     (if remaining = 0 then []
      else let block = index div DECODE_BLOCK_CHUNKS;
               n = min remaining ((block + 1) * DECODE_BLOCK_CHUNKS - index)
           in (block, index, index + n, dest) # run_pieces (index + n) (dest + int n * int FIXED_CHUNK_LENGTH) (remaining - n))"
  by pat_completeness auto
termination
proof (relation "measure (\<lambda>(_, _, remaining). remaining)")
  fix index remaining block n :: nat and dest :: int
  assume a: "remaining \<noteq> 0" "block = index div DECODE_BLOCK_CHUNKS" "n = min remaining ((block + 1) * DECODE_BLOCK_CHUNKS - index)"
  have "index < (index div DECODE_BLOCK_CHUNKS + 1) * DECODE_BLOCK_CHUNKS"
    using dividend_less_div_times [of DECODE_BLOCK_CHUNKS index] by (simp add: DECODE_BLOCK_CHUNKS_def)
  then show "((index + n, dest + int n * int FIXED_CHUNK_LENGTH, remaining - n), index, dest, remaining) \<in> measure (\<lambda>(_, _, remaining). remaining)"
    using a by auto
qed simp

declare run_pieces.simps [simp del]

text \<open>
  The dict \<open>_pieces\<close> of \<open>_BlockPlacements\<close>, each block's list sorted.
\<close>

definition block_placements :: "chunk_run list \<Rightarrow> (nat \<times> piece list) list" where
  "block_placements runs =
     map (\<lambda>(b, ps). (b, sort ps))
       (fold (\<lambda>(b, p). groups_append b p) (concat (map (\<lambda>r. run_pieces (run_idx r) (run_dest r) (run_count r)) runs)) [])"

text \<open>The \<open>while\<close> loop of \<open>runs_for\<close> for one piece, over the ranges from \<open>i\<close> on.\<close>

fun piece_runs :: "piece \<Rightarrow> (nat \<times> nat) list \<Rightarrow> chunk_run list" where
  "piece_runs p [] = []"
| "piece_runs (piece_start, piece_end, dest) ((a, b) # ranges) =
     (if a < piece_end then
        let low = max a piece_start; high = min b piece_end; rest = piece_runs (piece_start, piece_end, dest) ranges in
        if low < high then \<lparr>run_idx = low, run_count = high - low, run_dest = dest + int (low - piece_start) * int FIXED_CHUNK_LENGTH\<rparr> # rest
        else rest
      else [])"

definition runs_for_piece :: "(nat \<times> nat) list \<Rightarrow> piece \<Rightarrow> chunk_run list res" where
  "runs_for_piece ranges p =
     bind_res (bisect_right (\<lambda>i. Inr (fst (ranges ! i))) (fst p) 0 (length ranges)) (\<lambda>i.
       Inr (piece_runs p (drop (i - 1) ranges)))"

definition runs_for :: "(nat \<times> piece list) list \<Rightarrow> (nat \<times> nat) list \<Rightarrow> chunk_run list res" where
  "runs_for pieces ranges =
     bind_res (list_get ranges 0) (\<lambda>first.
     bind_res (map_res (runs_for_piece ranges) (case map_of pieces (fst first div DECODE_BLOCK_CHUNKS) of None \<Rightarrow> [] | Some ps \<Rightarrow> ps))
       (\<lambda>rs. Inr (concat rs)))"

subsection \<open>Merged writes paint every placement\<close>

text \<open>The part of \<open>k\<close> bytes at \<open>d\<close> inside the first \<open>n\<close> bytes.\<close>

definition clip :: "nat \<Rightarrow> nat \<Rightarrow> nat \<Rightarrow> nat" where
  "clip n d k = min (d + k) n - min d n"

lemma clip_0 [simp]: "clip n d 0 = 0"
  by (simp add: clip_def)

lemma clip_min:
  "0 < min (int k) (int n - int d) \<longleftrightarrow> 0 < clip n d k"
  "0 < clip n d k \<Longrightarrow> min (int k) (int n - int d) = int (clip n d k)"
  unfolding clip_def by (cases "d \<le> n"; cases "d + k \<le> n"; simp add: min_def)+

lemma clip_add: "clip n d (k + m) = clip n d k + clip n (d + k) m"
  by (auto simp: clip_def min_def)

definition pl_positions :: "placement list \<Rightarrow> nat set" where
  "pl_positions P = (\<Union>(a, d) \<in> set P. {nat d..<nat d + FIXED_CHUNK_LENGTH})"

definition pl_bytes :: "nat \<Rightarrow> placement list \<Rightarrow> nat" where
  "pl_bytes n P = sum_list (map (\<lambda>(a, d). clip n (nat d) FIXED_CHUNK_LENGTH) P)"

lemma pl_simps [simp]:
  "pl_positions [] = {}" "pl_bytes n [] = 0"
  "pl_positions (P @ Q) = pl_positions P \<union> pl_positions Q" "pl_bytes n (P @ Q) = pl_bytes n P + pl_bytes n Q"
  "pl_positions ((a, d) # P) = {nat d..<nat d + FIXED_CHUNK_LENGTH} \<union> pl_positions P"
  "pl_bytes n ((a, d) # P) = clip n (nat d) FIXED_CHUNK_LENGTH + pl_bytes n P"
  by (auto simp: pl_positions_def pl_bytes_def)

lemma pl_mset: "mset P = mset Q \<Longrightarrow> pl_positions P = pl_positions Q \<and> pl_bytes n P = pl_bytes n Q"
proof -
  assume eq: "mset P = mset Q"
  have "set P = set Q" using mset_eq_setD [OF eq] .
  moreover have "mset (map f P) = mset (map f Q)" for f :: "placement \<Rightarrow> nat" using eq by simp
  then have "sum_list (map f P) = sum_list (map f Q)" for f :: "placement \<Rightarrow> nat" using sum_mset_sum_list by metis
  ultimately show ?thesis by (simp add: pl_positions_def pl_bytes_def)
qed

text \<open>A chunk at its place: it agrees with the target as far as the destination goes.\<close>

definition chunk_fits :: "(nat \<Rightarrow> byte) \<Rightarrow> nat \<Rightarrow> int \<Rightarrow> bytes \<Rightarrow> bool" where
  "chunk_fits tgt n dest c \<longleftrightarrow> 0 \<le> dest \<and> length c = FIXED_CHUNK_LENGTH \<and> (\<forall>j < length c. nat dest + j < n \<longrightarrow> c ! j = tgt (nat dest + j))"

definition placeable :: "(nat \<Rightarrow> byte) \<Rightarrow> nat \<Rightarrow> (nat \<times> bytes) list \<Rightarrow> placement \<Rightarrow> bool" where
  "placeable tgt n chunks p \<longleftrightarrow> (\<exists>c. map_of chunks (chunk_idx (fst p)) = Some c \<and> chunk_fits tgt n (snd p) c)"

text \<open>What the open run holds.\<close>

definition merging_ok :: "(nat \<Rightarrow> byte) \<Rightarrow> nat \<Rightarrow> merging \<Rightarrow> bool" where
  "merging_ok tgt n mg \<longleftrightarrow> mg_len mg = length (concat (mg_parts mg)) \<and> (mg_parts mg \<noteq> [] \<longrightarrow> 0 \<le> mg_start mg) \<and>
     (\<forall>j < mg_len mg. nat (mg_start mg) + j < n \<longrightarrow> concat (mg_parts mg) ! j = tgt (nat (mg_start mg) + j))"

definition merging_positions :: "merging \<Rightarrow> nat set" where
  "merging_positions mg = {nat (mg_start mg)..<nat (mg_start mg) + mg_len mg}"

context byte_target
begin

definition painting :: "(nat \<Rightarrow> byte) \<Rightarrow> bytes \<Rightarrow> bool \<Rightarrow> nat set \<Rightarrow> nat \<Rightarrow> 'w \<Rightarrow> bool" where
  "painting tgt f0 R D k w \<longleftrightarrow> keeps w \<and> (R \<longrightarrow> ready w) \<and> written w = k \<and> (\<forall>f. held w = Some f \<longrightarrow> painted tgt f0 D f)"

definition broken :: "bool \<Rightarrow> 'w \<Rightarrow> bool" where
  "broken R w \<longleftrightarrow> keeps w \<and> \<not> R \<and> held w = None"

lemma painting_same: "painting tgt f0 R D k w \<Longrightarrow> D \<inter> {..<length f0} = E \<inter> {..<length f0} \<Longrightarrow> painting tgt f0 R E k w"
  by (auto simp: painting_def intro: painted_same)

text \<open>One write, whatever makes it.\<close>

lemma write_paints:
  assumes w: "painting tgt f0 R D k w" and m: "m w = (r, w')"
    and l: "lands off data (held w) r (held w')" and keep: "keeps w'"
    and rdy: "\<And>f. ready w \<Longrightarrow> held w = Some f \<Longrightarrow> off + length data \<le> length f \<Longrightarrow> ready w'"
    and wr: "r = Inr () \<Longrightarrow> written w' = written w + c"
    and bound: "off + length data \<le> length f0" and data: "\<And>j. j < length data \<Longrightarrow> data ! j = tgt (off + j)"
  shows "attains m w (broken R) (\<lambda>_. painting tgt f0 R (D \<union> {off..<off + length data}) (k + c))"
proof (cases "held w")
  case None
  then have n: "held w' = None" using l by (simp add: lands_def)
  have "\<not> R" using w None ready_held [of w] by (auto simp: painting_def)
  then show ?thesis using m n keep w wr by (cases r) (simp_all add: attains_def broken_def painting_def)
next
  case (Some f)
  then have f: "painted tgt f0 D f" "written w = k" using w by (simp_all add: painting_def)
  have in_f: "off + length data \<le> length f" using f(1) bound by (simp add: painted_def)
  have rdy': "R \<longrightarrow> ready w'" using rdy [OF _ Some in_f] w by (auto simp: painting_def)
  show ?thesis
  proof (cases r)
    case (Inl e)
    then have "held w' = None" using l Some in_f by (simp add: lands_def)
    moreover have "\<not> R" using rdy' ready_held [of w'] calculation by auto
    ultimately show ?thesis using m Inl keep by (simp add: attains_def broken_def)
  next
    case (Inr u)
    have "painted tgt f0 (D \<union> {off..<off + length data}) g" if "held w' = Some g" for g
      using l that Some in_f painted_assign [OF f(1) in_f data] by (simp add: lands_def)
    then show ?thesis using m Inr rdy' keep wr f(2) by (simp add: attains_def painting_def)
  qed
qed

lemma put_paints:
  assumes "painting tgt f0 R D k w" and "off + length data \<le> length f0" and "\<And>j. j < length data \<Longrightarrow> data ! j = tgt (off + j)"
  shows "attains (put (int off) data) w (broken R) (\<lambda>_. painting tgt f0 R (D \<union> {off..<off + length data}) (k + length data))"
proof -
  obtain r w' where p: "put (int off) data w = (r, w')" by (cases "put (int off) data w")
  have keep: "keeps w" using assms(1) by (simp add: painting_def)
  show ?thesis
    using assms(1) p put_lands [OF keep p]
  proof (rule write_paints)
    show "keeps w'" using put_keeps [OF keep, of "int off" data] p by simp
    show "ready w'" if "ready w" "held w = Some f" "off + length data \<le> length f" for f using put_ready [OF keep that] p by simp
    show "written w' = written w + length data" if "r = Inr ()" using put_written p that by simp
  qed (use assms(2,3) in auto)
qed

text \<open>The invariant of the merge: what is written, and the open run on top of it.\<close>

definition merge_inv :: "(nat \<Rightarrow> byte) \<Rightarrow> bytes \<Rightarrow> bool \<Rightarrow> nat set \<Rightarrow> nat \<Rightarrow> merging \<Rightarrow> 'w \<Rightarrow> bool" where
  "merge_inv tgt f0 R D k mg w \<longleftrightarrow> merging_ok tgt (length f0) mg \<and>
     (\<exists>D0 k0. painting tgt f0 R D0 k0 w \<and> D = D0 \<union> merging_positions mg \<and>
        k = k0 + clip (length f0) (nat (mg_start mg)) (mg_len mg))"

lemma flush_paints:
  assumes "merge_inv tgt f0 R D k mg w"
  shows "attains (if mg_parts mg \<noteq> [] then flush_merging put (length f0) mg else op_return ()) w (broken R) (\<lambda>_. painting tgt f0 R D k)"
proof -
  define n where "n = length f0"
  define buf where "buf = concat (mg_parts mg)"
  define a where "a = nat (mg_start mg)"
  obtain D0 k0 where ok: "merging_ok tgt n mg" and w: "painting tgt f0 R D0 k0 w" "D = D0 \<union> {a..<a + mg_len mg}"
    "k = k0 + clip n a (mg_len mg)"
    using assms by (auto simp: merge_inv_def n_def a_def merging_positions_def)
  have len: "mg_len mg = length buf" and buf: "\<And>j. j < length buf \<Longrightarrow> a + j < n \<Longrightarrow> buf ! j = tgt (a + j)"
    using ok by (auto simp: merging_ok_def buf_def a_def)
  show ?thesis
  proof (cases "mg_parts mg = []")
    case True
    then show ?thesis using w len by (simp add: buf_def)
  next
    case False
    then have start: "mg_start mg = int a" using ok by (simp add: merging_ok_def a_def)
    define m where "m = clip n a (length buf)"
    have m: "0 < min (int (length buf)) (int n - int a) \<longleftrightarrow> 0 < m" "0 < m \<Longrightarrow> min (int (length buf)) (int n - int a) = int m"
      unfolding m_def by (rule clip_min)+
    have fm: "flush_merging put n mg = (if 0 < m then put (int a) (take m buf) else op_return ())"
      unfolding flush_merging_def flush_run_def Let_def start buf_def [symmetric] m(1) using m(2) by (cases "0 < m") simp_all
    have same: "(D0 \<union> {a..<a + m}) \<inter> {..<n} = D \<inter> {..<n}"
      by (auto simp: w(2) len m_def clip_def min_def)
    have fits: "a + m \<le> n" if "0 < m" using that by (cases "a \<le> n") (auto simp: m_def clip_def min_def split: if_splits)
    have l: "length (take m buf) = m" by (auto simp: m_def clip_def min_def)
    have k: "k = k0 + m" by (simp add: w(3) len m_def)
    show ?thesis
    proof (cases "0 < m")
      case True
      have "a + length (take m buf) \<le> length f0" using fits [OF True] l by (simp add: n_def)
      moreover have "take m buf ! j = tgt (a + j)" if "j < length (take m buf)" for j
        using that fits [OF True] by (simp add: buf)
      ultimately have "attains (put (int a) (take m buf)) w (broken R) (\<lambda>_. painting tgt f0 R (D0 \<union> {a..<a + m}) (k0 + m))"
        using put_paints [OF w(1), of a "take m buf"] l by simp
      then have "attains (put (int a) (take m buf)) w (broken R) (\<lambda>_. painting tgt f0 R D k)"
        unfolding k using same n_def by (auto intro: attains_weaken painting_same)
      then show ?thesis using False True by (simp add: fm n_def [symmetric])
    next
      case neg: False
      then have "painting tgt f0 R D k w" using w(1) k same n_def by (auto intro: painting_same)
      then show ?thesis using False neg by (simp add: fm n_def [symmetric])
    qed
  qed
qed

lemma merge_inv_start: "painting tgt f0 R D k w \<Longrightarrow> merge_inv tgt f0 R D k \<lparr>mg_start = dest, mg_parts = [], mg_len = 0\<rparr> w"
  by (auto simp: merge_inv_def merging_ok_def merging_positions_def)

lemma extend_paints:
  assumes "merge_inv tgt f0 R D k mg w"
  shows "attains (extend_or_start_run_at put (length f0) dest mg) w (broken R)
    (\<lambda>mg w. merge_inv tgt f0 R D k mg w \<and> mg_start mg + int (mg_len mg) = dest \<and> mg_len mg < MAX_MERGED_RUN)"
proof (cases "mg_parts mg \<noteq> [] \<and> dest = mg_start mg + int (mg_len mg) \<and> mg_len mg < MAX_MERGED_RUN")
  case True
  then show ?thesis using assms by (simp add: extend_or_start_run_at_def)
next
  case False
  have "attains (op_bind (if mg_parts mg \<noteq> [] then flush_merging put (length f0) mg else op_return ()) (\<lambda>_.
        op_return \<lparr>mg_start = dest, mg_parts = [], mg_len = 0\<rparr>)) w (broken R)
    (\<lambda>mg w. merge_inv tgt f0 R D k mg w \<and> mg_start mg + int (mg_len mg) = dest \<and> mg_len mg < MAX_MERGED_RUN)"
    by (rule attains_bind [OF flush_paints [OF assms]]) (simp add: merge_inv_start MAX_MERGED_RUN_def)
  then show ?thesis using False by (simp only: extend_or_start_run_at_def if_False)
qed

text \<open>Appending a chunk that continues the open run.\<close>

lemma append_paints:
  assumes "merge_inv tgt f0 R D k mg w" and "mg_start mg + int (mg_len mg) = dest" and c: "chunk_fits tgt (length f0) dest c"
  shows "merge_inv tgt f0 R (D \<union> {nat dest..<nat dest + FIXED_CHUNK_LENGTH}) (k + clip (length f0) (nat dest) FIXED_CHUNK_LENGTH)
    (mg\<lparr>mg_parts := mg_parts mg @ [c], mg_len := mg_len mg + length c\<rparr>) w"
proof -
  define n where "n = length f0"
  define a where "a = nat (mg_start mg)"
  define buf where "buf = concat (mg_parts mg)"
  obtain D0 k0 where ok: "merging_ok tgt n mg" and w: "painting tgt f0 R D0 k0 w" "D = D0 \<union> {a..<a + mg_len mg}"
    "k = k0 + clip n a (mg_len mg)"
    using assms(1) by (auto simp: merge_inv_def n_def a_def merging_positions_def)
  have len: "mg_len mg = length buf" and buf: "\<And>j. j < length buf \<Longrightarrow> a + j < n \<Longrightarrow> buf ! j = tgt (a + j)"
    using ok by (auto simp: merging_ok_def buf_def a_def)
  have lc: "length c = FIXED_CHUNK_LENGTH" and d0: "0 \<le> dest"
    and fits: "\<And>j. j < length c \<Longrightarrow> nat dest + j < n \<Longrightarrow> c ! j = tgt (nat dest + j)"
    using c by (auto simp: chunk_fits_def n_def)
  have start: "0 \<le> mg_start mg"
  proof (cases "mg_parts mg = []")
    case True
    then have "mg_len mg = 0" using len by (simp add: buf_def)
    then show ?thesis using assms(2) d0 by simp
  next
    case False
    then show ?thesis using ok by (simp add: merging_ok_def)
  qed
  have dest: "nat dest = a + length buf" using assms(2) start len by (simp add: a_def)
  have both: "(buf @ c) ! j = tgt (a + j)" if "j < length buf + length c" "a + j < n" for j
    using that buf fits [of "j - length buf"] dest by (cases "j < length buf") (simp_all add: nth_append)
  let ?mg = "mg\<lparr>mg_parts := mg_parts mg @ [c], mg_len := mg_len mg + length c\<rparr>"
  have "merging_ok tgt n ?mg" using start both len by (simp add: merging_ok_def buf_def a_def)
  moreover have "D \<union> {nat dest..<nat dest + FIXED_CHUNK_LENGTH} = D0 \<union> merging_positions ?mg"
    unfolding w(2) dest merging_positions_def by (auto simp: len lc a_def)
  moreover have "k + clip n (nat dest) FIXED_CHUNK_LENGTH = k0 + clip n (nat (mg_start ?mg)) (mg_len ?mg)"
    unfolding w(3) dest by (simp add: clip_add len lc a_def)
  ultimately show ?thesis using w(1) by (auto simp: merge_inv_def n_def)
qed

text \<open>A slice of a run, gathered whole.\<close>

definition slice_placements :: "int \<Rightarrow> nat \<Rightarrow> placement list" where
  "slice_placements dest n = run_placements (0, 0) \<lparr>run_idx = 0, run_count = n, run_dest = dest\<rparr>"

lemma place_taken_paints:
  assumes "merge_inv tgt f0 R D k mg w" and "mg_start mg + int (mg_len mg) = dest"
    and "\<And>j. j < length taken \<Longrightarrow> chunk_fits tgt (length f0) (dest + int j * int FIXED_CHUNK_LENGTH) (taken ! j)"
  shows "merge_inv tgt f0 R (D \<union> pl_positions (slice_placements dest (length taken))) (k + pl_bytes (length f0) (slice_placements dest (length taken)))
      (mg\<lparr>mg_parts := mg_parts mg @ taken, mg_len := mg_len mg + length taken * FIXED_CHUNK_LENGTH\<rparr>) w"
  using assms(3)
proof (induction taken rule: rev_induct)
  case Nil
  then show ?case using assms(1) by (simp add: slice_placements_def run_placements_def)
next
  case (snoc c taken)
  let ?mg = "mg\<lparr>mg_parts := mg_parts mg @ taken, mg_len := mg_len mg + length taken * FIXED_CHUNK_LENGTH\<rparr>"
  have ih: "merge_inv tgt f0 R (D \<union> pl_positions (slice_placements dest (length taken)))
      (k + pl_bytes (length f0) (slice_placements dest (length taken))) ?mg w"
  proof (rule snoc.IH)
    fix j assume "j < length taken"
    then show "chunk_fits tgt (length f0) (dest + int j * int FIXED_CHUNK_LENGTH) (taken ! j)"
      using snoc.prems [of j] by (simp add: nth_append)
  qed
  let ?d = "dest + int (length taken) * int FIXED_CHUNK_LENGTH"
  have c: "chunk_fits tgt (length f0) ?d c" using snoc.prems [of "length taken"] by simp
  then have lc: "length c = FIXED_CHUNK_LENGTH" by (simp add: chunk_fits_def)
  have "mg_start ?mg + int (mg_len ?mg) = ?d" using assms(2) by simp
  from append_paints [OF ih this c] show ?case
    by (simp add: slice_placements_def run_placements_def lc Un_assoc add.assoc add.commute add.left_commute)
qed

lemma map_res_chunks:
  assumes "\<And>i. a \<le> i \<Longrightarrow> i < b \<Longrightarrow> map_of chunks i = Some (f i)"
  shows "map_res (dict_get chunks) [a..<b] = Inr (map f [a..<b])"
  using assms by (simp add: map_res_Inr_iff list_all2_conv_all_nth dict_get_def)

lemma pl_run_key: "pl_positions (run_placements key r) = pl_positions (run_placements key' r)"
  "pl_bytes n (run_placements key r) = pl_bytes n (run_placements key' r)"
  by (auto simp: pl_positions_def pl_bytes_def run_placements_def o_def)

lemma slice_is_run: "pl_positions (slice_placements dest n) = pl_positions (run_placements key \<lparr>run_idx = i, run_count = n, run_dest = dest\<rparr>)"
  "pl_bytes m (slice_placements dest n) = pl_bytes m (run_placements key \<lparr>run_idx = i, run_count = n, run_dest = dest\<rparr>)"
  by (auto simp: slice_placements_def pl_positions_def pl_bytes_def run_placements_def o_def)

lemma place_run_paints:
  assumes "merge_inv tgt f0 R D k mg w"
    and "\<forall>p \<in> set (run_placements key \<lparr>run_idx = index, run_count = remaining, run_dest = dest\<rparr>). placeable tgt (length f0) chunks p"
  shows "attains (place_run put (length f0) chunks index dest remaining mg) w (broken R)
    (merge_inv tgt f0 R (D \<union> pl_positions (run_placements key \<lparr>run_idx = index, run_count = remaining, run_dest = dest\<rparr>))
       (k + pl_bytes (length f0) (run_placements key \<lparr>run_idx = index, run_count = remaining, run_dest = dest\<rparr>)))"
  using assms
proof (induction remaining arbitrary: index dest D k mg w rule: less_induct)
  case (less remaining)
  let ?run = "\<lambda>i m d. run_placements key \<lparr>run_idx = i, run_count = m, run_dest = d\<rparr>"
  show ?case
  proof (cases "remaining = 0")
    case True
    then show ?thesis using less.prems by (simp add: place_run.simps run_placements_def)
  next
    case False
    show ?thesis unfolding place_run.simps [of put "length f0" chunks index dest remaining mg] Let_def if_not_P [OF False]
    proof (rule attains_bind [OF extend_paints [OF less.prems(1)]])
      fix mg1 w1
      assume m1: "merge_inv tgt f0 R D k mg1 w1 \<and> mg_start mg1 + int (mg_len mg1) = dest \<and> mg_len mg1 < MAX_MERGED_RUN"
      define n where "n = take_now mg1 remaining"
      have n: "0 < n" "n \<le> remaining" using False by (auto simp: n_def take_now_def)
      define f where "f i = the (map_of chunks i)" for i
      have get: "map_of chunks (index + j) = Some (f (index + j)) \<and> chunk_fits tgt (length f0) (dest + int j * int FIXED_CHUNK_LENGTH) (f (index + j))"
        if "j < remaining" for j
      proof -
        have "(ChunkAddress (fst key) (snd key) (index + j), dest + int j * int FIXED_CHUNK_LENGTH) \<in> set (?run index remaining dest)"
          using that by (auto simp: run_placements_def)
        then show ?thesis using less.prems(2) by (fastforce simp: placeable_def f_def)
      qed
      define taken where "taken = map f [index..<index + n]"
      have got: "map_res (dict_get chunks) [index..<index + n] = Inr taken"
        unfolding taken_def
      proof (rule map_res_chunks)
        fix i assume "index \<le> i" "i < index + n"
        then show "map_of chunks i = Some (f i)" using get [of "i - index"] n by simp
      qed
      have lt: "length taken = n" by (simp add: taken_def)
      have fits: "chunk_fits tgt (length f0) (dest + int j * int FIXED_CHUNK_LENGTH) (taken ! j)" if "j < length taken" for j
        using that get [of j] n by (simp add: taken_def)
      have "length c = FIXED_CHUNK_LENGTH" if "c \<in> set taken" for c
        using that fits by (auto simp: in_set_conv_nth chunk_fits_def)
      then have "set (map length taken) = {FIXED_CHUNK_LENGTH}" using n(1) lt by (cases taken) auto
      then have pt: "place_taken put (length f0) dest taken mg1 =
          op_return (mg1\<lparr>mg_parts := mg_parts mg1 @ taken, mg_len := mg_len mg1 + length taken * FIXED_CHUNK_LENGTH\<rparr>)"
        by (simp add: place_taken_def fun_eq_iff)
      let ?mg2 = "mg1\<lparr>mg_parts := mg_parts mg1 @ taken, mg_len := mg_len mg1 + length taken * FIXED_CHUNK_LENGTH\<rparr>"
      have m2: "merge_inv tgt f0 R (D \<union> pl_positions (?run index n dest)) (k + pl_bytes (length f0) (?run index n dest)) ?mg2 w1"
        using place_taken_paints [of tgt f0 R D k mg1 w1 dest taken] m1 fits lt slice_is_run [where dest = dest and n = n and key = key and i = index] by simp
      have split: "?run index remaining dest = ?run index n dest @ ?run (index + n) (remaining - n) (dest + int n * int FIXED_CHUNK_LENGTH)"
        using n(2) by (rule run_placements_split)
      have "attains (place_run put (length f0) chunks (index + n) (dest + int n * int FIXED_CHUNK_LENGTH) (remaining - n) ?mg2) w1 (broken R)
          (merge_inv tgt f0 R (D \<union> pl_positions (?run index n dest) \<union> pl_positions (?run (index + n) (remaining - n) (dest + int n * int FIXED_CHUNK_LENGTH)))
            (k + pl_bytes (length f0) (?run index n dest) + pl_bytes (length f0) (?run (index + n) (remaining - n) (dest + int n * int FIXED_CHUNK_LENGTH))))"
        by (rule less.IH [OF _ m2]) (use n less.prems(2) split in auto)
      then have rest: "attains (place_run put (length f0) chunks (index + n) (dest + int n * int FIXED_CHUNK_LENGTH) (remaining - n) ?mg2) w1 (broken R)
          (merge_inv tgt f0 R (D \<union> pl_positions (?run index remaining dest)) (k + pl_bytes (length f0) (?run index remaining dest)))"
        unfolding split by (simp add: Un_assoc add.assoc)
      show "attains (op_bind (op_lift (map_res (dict_get chunks) [index..<index + take_now mg1 remaining])) (\<lambda>taken.
            op_bind (place_taken put (length f0) dest taken mg1) (\<lambda>mg.
              place_run put (length f0) chunks (index + take_now mg1 remaining) (dest + int (take_now mg1 remaining) * int FIXED_CHUNK_LENGTH)
                (remaining - take_now mg1 remaining) mg))) w1 (broken R)
          (merge_inv tgt f0 R (D \<union> pl_positions (?run index remaining dest)) (k + pl_bytes (length f0) (?run index remaining dest)))"
        unfolding n_def [symmetric] by (rule attains_bind [where P = "\<lambda>x t. x = taken \<and> t = w1"])
          (use rest in \<open>auto simp: got pt attains_def op_bind_def\<close>)
    qed
  qed
qed

lemma place_runs_paints:
  assumes "merge_inv tgt f0 R D k mg w" and "\<forall>p \<in> set (concat (map (run_placements key) runs)). placeable tgt (length f0) chunks p"
  shows "attains (place_runs put (length f0) chunks runs mg) w (broken R)
    (merge_inv tgt f0 R (D \<union> pl_positions (concat (map (run_placements key) runs))) (k + pl_bytes (length f0) (concat (map (run_placements key) runs))))"
  using assms
proof (induction runs arbitrary: D k mg w)
  case (Cons r runs)
  have r: "r = \<lparr>run_idx = run_idx r, run_count = run_count r, run_dest = run_dest r\<rparr>" by simp
  have "attains (place_run put (length f0) chunks (run_idx r) (run_dest r) (run_count r) mg) w (broken R)
    (merge_inv tgt f0 R (D \<union> pl_positions (run_placements key r)) (k + pl_bytes (length f0) (run_placements key r)))"
    using place_run_paints [OF Cons.prems(1), of key "run_idx r" "run_count r" "run_dest r" chunks] Cons.prems(2) r by simp
  then show ?case unfolding place_runs.simps
  proof (rule attains_bind)
    fix mg1 w1
    assume "merge_inv tgt f0 R (D \<union> pl_positions (run_placements key r)) (k + pl_bytes (length f0) (run_placements key r)) mg1 w1"
    from Cons.IH [OF this] show "attains (place_runs put (length f0) chunks runs mg1) w1 (broken R)
        (merge_inv tgt f0 R (D \<union> pl_positions (concat (map (run_placements key) (r # runs))))
          (k + pl_bytes (length f0) (concat (map (run_placements key) (r # runs)))))"
      using Cons.prems(2) by (simp add: Un_assoc add.assoc)
  qed
qed simp

text \<open>Whatever the order of the runs, every placement is painted.\<close>

lemma merge_and_flush_paints:
  assumes "painting tgt f0 R D k w" and "\<forall>p \<in> set (concat (map (run_placements key) runs)). placeable tgt (length f0) chunks p"
  shows "attains (merge_and_flush_writes put (length f0) runs chunks) w (broken R)
    (\<lambda>_. painting tgt f0 R (D \<union> pl_positions (concat (map (run_placements key) runs)))
       (k + pl_bytes (length f0) (concat (map (run_placements key) runs))))"
proof -
  let ?sorted = "sort_key run_dest runs"
  have m: "mset (concat (map (run_placements key) ?sorted)) = mset (concat (map (run_placements key) runs))"
    unfolding mset_concat sum_mset_sum_list [symmetric] mset_map mset_sort ..
  have "set (concat (map (run_placements key) ?sorted)) = set (concat (map (run_placements key) runs))" by simp
  then have s: "\<forall>p \<in> set (concat (map (run_placements key) ?sorted)). placeable tgt (length f0) chunks p" using assms(2) by simp
  have i: "merge_inv tgt f0 R D k merging_init w" unfolding merging_init_def using assms(1) by (rule merge_inv_start)
  show ?thesis unfolding merge_and_flush_writes_def
  proof (rule attains_bind [OF place_runs_paints [OF i s]])
    fix mg t
    assume "merge_inv tgt f0 R (D \<union> pl_positions (concat (map (run_placements key) ?sorted)))
        (k + pl_bytes (length f0) (concat (map (run_placements key) ?sorted))) mg t"
    from flush_paints [OF this] show "attains (if mg_parts mg \<noteq> [] then flush_merging put (length f0) mg else op_return ()) t (broken R)
        (\<lambda>_. painting tgt f0 R (D \<union> pl_positions (concat (map (run_placements key) runs)))
          (k + pl_bytes (length f0) (concat (map (run_placements key) runs))))"
      using pl_mset [OF m, of "length f0"] by simp
  qed
qed

end
subsection \<open>Placements by block lose nothing\<close>

definition piece_placements :: "bucket_key \<Rightarrow> piece \<Rightarrow> placement list" where
  "piece_placements key p = (case p of (a, b, d) \<Rightarrow> run_placements key \<lparr>run_idx = a, run_count = b - a, run_dest = d\<rparr>)"

definition in_block :: "nat \<Rightarrow> nat \<Rightarrow> nat \<Rightarrow> bool" where
  "in_block blk a b \<longleftrightarrow> a < b \<and> blk * DECODE_BLOCK_CHUNKS \<le> a \<and> b \<le> (blk + 1) * DECODE_BLOCK_CHUNKS"

lemma block_pos: "0 < DECODE_BLOCK_CHUNKS"
  by (simp add: DECODE_BLOCK_CHUNKS_def)

lemma in_block_upto:
  assumes "a < b"
  shows "in_block (a div DECODE_BLOCK_CHUNKS) a (min b ((a div DECODE_BLOCK_CHUNKS + 1) * DECODE_BLOCK_CHUNKS))"
proof -
  have "a < (a div DECODE_BLOCK_CHUNKS + 1) * DECODE_BLOCK_CHUNKS"
    using dividend_less_div_times [OF block_pos, of a] by simp
  then show ?thesis using assms by (simp add: in_block_def)
qed

lemma in_block_div: "in_block blk a b \<Longrightarrow> a \<le> i \<Longrightarrow> i < b \<Longrightarrow> i div DECODE_BLOCK_CHUNKS = blk"
  by (intro div_nat_eqI) (auto simp: in_block_def mult.commute)

lemma run_pieces_spec:
  "concat (map (\<lambda>x. piece_placements key (snd x)) (run_pieces i d n)) = run_placements key \<lparr>run_idx = i, run_count = n, run_dest = d\<rparr> \<and>
   (\<forall>(blk, a, b, e) \<in> set (run_pieces i d n). in_block blk a b)"
proof (induction i d n rule: run_pieces.induct)
  case (1 i d n)
  show ?case
  proof (cases "n = 0")
    case True
    then show ?thesis by (simp add: run_pieces.simps run_placements_def)
  next
    case False
    define blk where "blk = i div DECODE_BLOCK_CHUNKS"
    define k where "k = min n ((blk + 1) * DECODE_BLOCK_CHUNKS - i)"
    have up: "in_block blk i (min (i + n) ((blk + 1) * DECODE_BLOCK_CHUNKS))" using in_block_upto [of i "i + n"] False by (simp add: blk_def)
    then have k: "i + k = min (i + n) ((blk + 1) * DECODE_BLOCK_CHUNKS)" "0 < k" "k \<le> n" by (auto simp: k_def in_block_def)
    have eq: "run_pieces i d n = (blk, i, i + k, d) # run_pieces (i + k) (d + int k * int FIXED_CHUNK_LENGTH) (n - k)"
      unfolding run_pieces.simps [of i d n] Let_def blk_def [symmetric] k_def [symmetric] using False by (simp only: if_False)
    have ih: "concat (map (\<lambda>x. piece_placements key (snd x)) (run_pieces (i + k) (d + int k * int FIXED_CHUNK_LENGTH) (n - k))) =
        run_placements key \<lparr>run_idx = i + k, run_count = n - k, run_dest = d + int k * int FIXED_CHUNK_LENGTH\<rparr> \<and>
        (\<forall>(blk, a, b, e) \<in> set (run_pieces (i + k) (d + int k * int FIXED_CHUNK_LENGTH) (n - k)). in_block blk a b)"
      using "1.IH" [OF False blk_def, folded k_def, OF refl] .
    have b: "in_block blk i (i + k)" using up unfolding k(1) .
    show ?thesis unfolding eq using ih b run_placements_split [OF k(3), of key i d] by (simp add: piece_placements_def)
  qed
qed

lemma groups_append_get: "map_of (groups_append k r g) j =
    (if j = k then Some ((case map_of g k of None \<Rightarrow> [] | Some rs \<Rightarrow> rs) @ [r]) else map_of g j)"
  by (auto simp: groups_append_def map_add_def update_conv' split: option.split)

lemma groups_append_fold:
  "map_of (fold (\<lambda>(b, p). groups_append b p) xs g) j =
    (let l = map snd (filter (\<lambda>x. fst x = j) xs) in
     if l = [] then map_of g j else Some ((case map_of g j of None \<Rightarrow> [] | Some rs \<Rightarrow> rs) @ l))"
  by (induction xs arbitrary: g) (auto simp: groups_append_get Let_def split: option.split)

lemma block_pieces: "mset (case map_of (block_placements runs) blk of None \<Rightarrow> [] | Some ps \<Rightarrow> ps) =
    mset (map snd (filter (\<lambda>x. fst x = blk) (concat (map (\<lambda>r. run_pieces (run_idx r) (run_dest r) (run_count r)) runs))))"
proof -
  have "map_of (map (\<lambda>(b, ps). (b, sort ps)) d) blk = map_option sort (map_of d blk)" for d :: "(nat \<times> piece list) list"
    by (induction d) auto
  then have get: "map_of (block_placements runs) blk = map_option sort (map_of (fold (\<lambda>(b, p). groups_append b p)
      (concat (map (\<lambda>r. run_pieces (run_idx r) (run_dest r) (run_count r)) runs)) []) blk)" by (simp add: block_placements_def)
  show ?thesis unfolding get groups_append_fold Let_def
    by (cases "map snd (filter (\<lambda>x. fst x = blk) (concat (map (\<lambda>r. run_pieces (run_idx r) (run_dest r) (run_count r)) runs))) = []")
      (simp_all only: if_True if_False, simp_all)
qed

text \<open>The part of \<open>[a, b)\<close> inside ascending ranges, range by range.\<close>

definition ascending :: "(nat \<times> nat) list \<Rightarrow> bool" where
  "ascending rs \<longleftrightarrow> sorted_wrt (\<lambda>r r'. snd r \<le> fst r') rs \<and> (\<forall>(a, b) \<in> set rs. a < b)"

lemma ascending_Cons: "ascending ((x, y) # rs) \<longleftrightarrow> x < y \<and> (\<forall>r \<in> set rs. y \<le> fst r) \<and> ascending rs"
  by (auto simp: ascending_def)

lemma filter_upt_range: "filter (\<lambda>i. x \<le> i \<and> i < y) [a..<b] = [max x a..<min y b]"
proof (induction b)
  case (Suc b)
  show ?case
  proof (cases "a \<le> b \<and> x \<le> b \<and> b < y")
    case True
    then have "min y (Suc b) = Suc b" "min y b = b" "max x a \<le> b" by auto
    then show ?thesis using Suc True by simp
  next
    case False
    then have "[max x a..<min y (Suc b)] = [max x a..<min y b]" by (auto simp: min_def max_def)
    then show ?thesis using Suc False by auto
  qed
qed simp

lemma filter_upt_spans:
  assumes "ascending rs"
  shows "filter (\<lambda>i. i \<in> set (spans rs)) [a..<b] = concat (map (\<lambda>(x, y). [max x a..<min y b]) rs)"
  using assms
proof (induction rs)
  case (Cons r rs)
  obtain x y where r: "r = (x, y)" by (cases r)
  have low: "y \<le> i" if "i \<in> set (spans rs)" for i
    using that Cons.prems r by (fastforce simp: spans_def range_span_def ascending_Cons)
  have "filter (\<lambda>i. i \<in> set (spans (r # rs))) [a..<b] =
      filter (\<lambda>i. x \<le> i \<and> i < y) [a..<b] @ filter (\<lambda>i. i \<in> set (spans rs)) [a..<b]"
  proof (induction b)
    case (Suc b)
    show ?case
    proof (cases "a \<le> b \<and> x \<le> b \<and> b < y")
      case True
      then have "filter (\<lambda>i. i \<in> set (spans rs)) [a..<b] = []" "b \<notin> set (spans rs)" using low by (force simp: filter_empty_conv)+
      then show ?thesis using Suc True r by (simp add: range_span_def)
    next
      case False
      then show ?thesis using Suc r by (auto simp: range_span_def)
    qed
  qed simp
  moreover have "filter (\<lambda>i. i \<in> set (spans rs)) [a..<b] = concat (map (\<lambda>(x, y). [max x a..<min y b]) rs)"
    using Cons r by (simp add: ascending_Cons)
  ultimately show ?case unfolding r by (simp only: filter_upt_range list.map prod.case concat.simps)
qed simp

lemma piece_runs_placements:
  assumes "ascending rs"
  shows "concat (map (run_placements key) (piece_runs (a, b, d) rs)) =
    filter (\<lambda>p. chunk_idx (fst p) \<in> set (spans rs)) (piece_placements key (a, b, d))"
proof -
  define at where "at i = (ChunkAddress (fst key) (snd key) i, d + int (i - a) * int FIXED_CHUNK_LENGTH)" for i
  have pl: "run_placements key \<lparr>run_idx = low, run_count = high - low, run_dest = d + int (low - a) * int FIXED_CHUNK_LENGTH\<rparr> = map at [low..<high]"
    if "a \<le> low" for low high
    by (rule nth_equalityI) (use that in \<open>auto simp: run_placements_def at_def algebra_simps of_nat_diff\<close>)
  have runs: "concat (map (run_placements key) (piece_runs (a, b, d) rs)) = map at (concat (map (\<lambda>(x, y). [max x a..<min y b]) rs))"
    using assms
  proof (induction rs)
    case (Cons r rs)
    obtain x y where r: "r = (x, y)" by (cases r)
    show ?case
    proof (cases "x < b")
      case True
      have ih: "concat (map (run_placements key) (piece_runs (a, b, d) rs)) = map at (concat (map (\<lambda>(x, y). [max x a..<min y b]) rs))"
        using Cons r by (simp add: ascending_Cons)
      show ?thesis
      proof (cases "max x a < min y b")
        case lt: True
        then show ?thesis using ih r True pl [of "max x a" "min y b"] by (simp add: Let_def)
      next
        case ge: False
        then have e: "[max x a..<min y b] = []" by (metis upt_conv_Nil not_less)
        have "piece_runs (a, b, d) (r # rs) = piece_runs (a, b, d) rs"
          unfolding r piece_runs.simps Let_def using True ge by (simp only: if_True if_False)
        moreover have "concat (map (\<lambda>(x, y). [max x a..<min y b]) (r # rs)) = concat (map (\<lambda>(x, y). [max x a..<min y b]) rs)"
          using e by (simp only: r list.map prod.case concat.simps append_Nil)
        ultimately show ?thesis using ih by (simp only:)
      qed
    next
      case False
      have "[max x' a..<min y' b] = []" if "(x', y') \<in> set rs" for x' y'
        using that Cons.prems r False by (fastforce simp: ascending_Cons)
      then have "concat (map (\<lambda>(x, y). [max x a..<min y b]) rs) = []" by auto
      then show ?thesis using r False by simp
    qed
  qed simp
  have "piece_placements key (a, b, d) = map at [a..<b]"
    using pl [of a b] by (simp add: piece_placements_def at_def)
  then show ?thesis unfolding runs filter_upt_spans [OF assms, symmetric] by (simp add: filter_map o_def at_def)
qed

text \<open>Skipping the ranges that end before the piece starts.\<close>

lemma runs_for_piece_spec:
  assumes "ascending rs" and "a < b"
  shows "\<exists>out. runs_for_piece rs (a, b, d) = Inr out \<and>
    concat (map (run_placements key) out) = filter (\<lambda>p. chunk_idx (fst p) \<in> set (spans rs)) (piece_placements key (a, b, d))"
proof -
  have mono: "fst (rs ! i) \<le> fst (rs ! j)" if "i \<le> j" "j < length rs" for i j
  proof (cases "i = j")
    case False
    then have "snd (rs ! i) \<le> fst (rs ! j)" using assms(1) that by (auto simp: ascending_def sorted_wrt_iff_nth_less)
    moreover have "fst (rs ! i) < snd (rs ! i)" using assms(1) that nth_mem [of i rs] by (fastforce simp: ascending_def)
    ultimately show ?thesis by simp
  qed simp
  obtain r where r: "bisect_right (\<lambda>i. Inr (fst (rs ! i))) a 0 (length rs) = Inr r" "r \<le> length rs" "\<forall>i < r. fst (rs ! i) \<le> a"
    using bisect_right_spec [of 0 "length rs" "\<lambda>i. Inr (fst (rs ! i))" "\<lambda>i. fst (rs ! i)" a] mono by auto
  define k where "k = r - 1"
  have ad: "ascending (drop k rs)"
    using assms(1) by (auto simp: ascending_def sorted_wrt_drop dest: in_set_dropD)
  have skipped: "i < a" if i: "i \<in> set (spans (take k rs))" for i
  proof -
    obtain q where q: "q \<in> set (take k rs)" "fst q \<le> i" "i < snd q"
      using i by (auto simp: spans_def range_span_def)
    obtain j where "j < length (take k rs)" "take k rs ! j = q" using q(1) by (auto simp: in_set_conv_nth)
    then have j: "j < k" "j < length rs" "fst (rs ! j) \<le> i" "i < snd (rs ! j)" using q(2,3) by auto
    have "Suc j < r" "Suc j < length rs" using j r(2) by (auto simp: k_def)
    then have "snd (rs ! j) \<le> fst (rs ! Suc j)" "fst (rs ! Suc j) \<le> a"
      using assms(1) r(3) by (auto simp: ascending_def sorted_wrt_iff_nth_less)
    then show ?thesis using j(4) by simp
  qed
  have "set (spans rs) = set (spans (take k rs)) \<union> set (spans (drop k rs))"
    by (metis append_take_drop_id set_append spans_simps(2))
  then have "filter (\<lambda>p. chunk_idx (fst p) \<in> set (spans rs)) (piece_placements key (a, b, d)) =
      filter (\<lambda>p. chunk_idx (fst p) \<in> set (spans (drop k rs))) (piece_placements key (a, b, d))"
    using skipped by (intro filter_cong) (fastforce simp: piece_placements_def run_placements_def)+
  then show ?thesis
    using r(1) piece_runs_placements [OF ad, of key a b d] by (simp add: runs_for_piece_def k_def)
qed

lemma runs_for_spec:
  assumes asc: "ascending ranges" and ne: "ranges \<noteq> []" and blk: "\<forall>(a, b) \<in> set ranges. in_block blk a b"
  shows "\<exists>out. runs_for (block_placements runs) ranges = Inr out \<and>
    mset (concat (map (run_placements key) out)) =
      filter_mset (\<lambda>p. chunk_idx (fst p) \<in> set (spans ranges)) (mset (concat (map (run_placements key) runs)))"
proof -
  define all where "all = concat (map (\<lambda>r. run_pieces (run_idx r) (run_dest r) (run_count r)) runs)"
  define mine where "mine = (case map_of (block_placements runs) blk of None \<Rightarrow> [] | Some ps \<Rightarrow> ps)"
  let ?in = "\<lambda>p :: placement. chunk_idx (fst p) \<in> set (spans ranges)"
  have pieces: "mset mine = mset (map snd (filter (\<lambda>x. fst x = blk) all))" unfolding mine_def all_def by (rule block_pieces)
  have wf: "\<forall>(c, a, b, e) \<in> set all. in_block c a b" using run_pieces_spec by (fastforce simp: all_def)
  have all_pl: "concat (map (\<lambda>x. piece_placements key (snd x)) all) = concat (map (run_placements key) runs)"
  proof -
    have "concat (map (\<lambda>x. piece_placements key (snd x)) (run_pieces (run_idx r) (run_dest r) (run_count r))) = run_placements key r" for r
      by (cases r) (simp add: conjunct1 [OF run_pieces_spec])
    then show ?thesis unfolding all_def by (induction runs) simp_all
  qed
  have mine_wf: "a < b" if "(a, b, d) \<in> set mine" for a b d
  proof -
    have "(a, b, d) \<in> set (map snd (filter (\<lambda>x. fst x = blk) all))" using that pieces by (metis mset_eq_setD)
    then show ?thesis using wf by (auto simp: in_block_def)
  qed
  have "\<exists>outs. map_res (runs_for_piece ranges) ps = Inr outs \<and>
      concat (map (run_placements key) (concat outs)) = concat (map (\<lambda>p. filter ?in (piece_placements key p)) ps)"
    if "\<And>a b d. (a, b, d) \<in> set ps \<Longrightarrow> a < b" for ps
    using that
  proof (induction ps)
    case (Cons p ps)
    obtain a b d where p: "p = (a, b, d)" by (cases p)
    obtain out where "runs_for_piece ranges (a, b, d) = Inr out"
      "concat (map (run_placements key) out) = filter ?in (piece_placements key (a, b, d))"
      using runs_for_piece_spec [OF asc, of a b d key] Cons.prems p by auto
    moreover obtain outs where "map_res (runs_for_piece ranges) ps = Inr outs"
      "concat (map (run_placements key) (concat outs)) = concat (map (\<lambda>p. filter ?in (piece_placements key p)) ps)"
      using Cons by auto
    ultimately show ?case using p by auto
  qed simp
  from this [of mine] obtain outs where outs: "map_res (runs_for_piece ranges) mine = Inr outs"
    "concat (map (run_placements key) (concat outs)) = concat (map (\<lambda>p. filter ?in (piece_placements key p)) mine)"
    using mine_wf by auto
  obtain a0 b0 rest where hd: "ranges = (a0, b0) # rest" using ne by (cases ranges) auto
  have "a0 div DECODE_BLOCK_CHUNKS = blk" using blk hd in_block_div [of blk a0 b0 a0] by (auto simp: in_block_def)
  then have rf: "runs_for (block_placements runs) ranges = Inr (concat outs)"
    using outs(1) hd by (simp add: runs_for_def list_get_def mine_def)
  have other: "filter ?in (piece_placements key (snd x)) = []" if "x \<in> set all" "fst x \<noteq> blk" for x
  proof (rule filter_False, rule ballI)
    fix p assume p: "p \<in> set (piece_placements key (snd x))"
    obtain c a b d where x: "x = (c, a, b, d)" by (cases x)
    have "in_block c a b" using wf that(1) x by auto
    moreover have "a \<le> chunk_idx (fst p)" "chunk_idx (fst p) < b" using p x by (auto simp: piece_placements_def run_placements_def)
    ultimately have c: "chunk_idx (fst p) div DECODE_BLOCK_CHUNKS = c" by (rule in_block_div)
    show "\<not> ?in p"
    proof
      assume "?in p"
      then obtain a' b' where "(a', b') \<in> set ranges" "a' \<le> chunk_idx (fst p)" "chunk_idx (fst p) < b'"
        by (auto simp: spans_def range_span_def)
      then have "chunk_idx (fst p) div DECODE_BLOCK_CHUNKS = blk" using blk in_block_div by fastforce
      then show False using c that(2) x by simp
    qed
  qed
  have "mset (concat (map (run_placements key) (concat outs))) = (\<Sum>p\<in>#mset mine. mset (filter ?in (piece_placements key p)))"
    unfolding outs(2) by (induction mine) simp_all
  also have "\<dots> = (\<Sum>p\<in>#mset (map snd (filter (\<lambda>x. fst x = blk) all)). mset (filter ?in (piece_placements key p)))" by (simp only: pieces)
  also have "\<dots> = mset (concat (map (\<lambda>x. filter ?in (piece_placements key (snd x))) all))"
    using other
  proof (induction all)
    case (Cons x xs)
    then show ?case by (cases "fst x = blk") simp_all
  qed simp
  also have "\<dots> = filter_mset ?in (mset (concat (map (\<lambda>x. piece_placements key (snd x)) all)))"
    by (induction all) simp_all
  finally show ?thesis using rf all_pl by simp
qed

end
