(* ===== verification/BlockReads.thy ===== *)
theory BlockReads
  imports MergeWrites Pool
begin

text \<open>
  What \<open>BucketReader.read_chunk_blocks\<close> hands to its callback: the chunks of \<open>read_chunks\<close>, cut
  into blocks of at most \<open>DECODE_BLOCK_CHUNKS\<close> chunks that lie in one aligned block each.
\<close>

subsection \<open>Splitting\<close>

definition blocks_ok :: "(nat \<times> nat) list list \<Rightarrow> bool" where
  "blocks_ok bs \<longleftrightarrow> (\<forall>blk \<in> set bs. blk \<noteq> [] \<and> (\<exists>c. \<forall>(a, b) \<in> set blk. in_block c a b))"

definition split_inv :: "nat list \<Rightarrow> (nat \<times> nat) list list \<times> nat option \<Rightarrow> bool" where
  "split_inv done s \<longleftrightarrow> blocks_ok (fst s) \<and> concat (map spans (fst s)) = done \<and>
     (\<forall>c. snd s = Some c \<longrightarrow> fst s \<noteq> [] \<and> (\<forall>(a, b) \<in> set (last (fst s)). in_block c a b))"

lemma split_range_inv: "split_inv done s \<Longrightarrow> split_inv (done @ [start..<stop]) (split_range start stop s)"
proof (induction start stop s arbitrary: "done" rule: split_range.induct)
  case (1 start stop s)
  show ?case
  proof (cases "stop \<le> start")
    case True
    then show ?thesis using "1.prems" by (simp add: split_range.simps [of start])
  next
    case False
    define c where "c = start div DECODE_BLOCK_CHUNKS"
    define up where "up = min stop ((c + 1) * DECODE_BLOCK_CHUNKS)"
    define bs where "bs = (if Some c \<noteq> snd s then fst s @ [[(start, up)]] else butlast (fst s) @ [last (fst s) @ [(start, up)]])"
    have blk: "in_block c start up" using False in_block_upto [of start stop] by (simp add: c_def up_def)
    have eq: "split_range start stop s = split_range up stop (bs, Some c)"
      unfolding split_range.simps [of start stop s] Let_def c_def [symmetric] up_def [symmetric] bs_def [symmetric]
      using False by (simp only: if_False)
    have "split_inv (done @ [start..<up]) (bs, Some c)"
    proof (cases "Some c = snd s")
      case False
      then show ?thesis using "1.prems" blk by (auto simp: split_inv_def bs_def blocks_ok_def range_span_def)
    next
      case True
      then have ne: "fst s \<noteq> []" and l: "\<forall>(a, b) \<in> set (last (fst s)). in_block c a b"
        using "1.prems" by (metis split_inv_def)+
      obtain ps p where s: "fst s = ps @ [p]" using ne by (cases "fst s" rule: rev_cases) auto
      have both: "\<exists>c. in_block c start up \<and> (\<forall>(a, b) \<in> set p. in_block c a b)" using blk l s by auto
      have bs: "bs = ps @ [p @ [(start, up)]]" using True s by (simp add: bs_def)
      have "blocks_ok bs" using "1.prems" both s unfolding bs by (simp add: split_inv_def blocks_ok_def)
      then show ?thesis using "1.prems" blk l s by (simp add: split_inv_def bs range_span_def)
    qed
    then have "split_inv ((done @ [start..<up]) @ [up..<stop]) (split_range up stop (bs, Some c))"
      by (rule "1.IH" [OF False c_def up_def [unfolded c_def [symmetric]] bs_def])
    moreover have "[start..<up] @ [up..<stop] = [start..<stop]"
      using blk False upt_add_eq_append [of start up "stop - up"] by (simp add: in_block_def up_def)
    ultimately show ?thesis unfolding eq by simp
  qed
qed

lemma split_into_blocks_spec: "blocks_ok (split_into_blocks chunks) \<and> concat (map spans (split_into_blocks chunks)) = spans chunks"
proof -
  have "split_inv (done @ spans chunks) (fold (\<lambda>(start, stop). split_range start stop) chunks s)" if "split_inv done s" for "done" s
    using that
  proof (induction chunks arbitrary: "done" s)
    case (Cons r chunks)
    obtain a b where r: "r = (a, b)" by (cases r)
    show ?case using Cons.IH [OF split_range_inv [OF Cons.prems, of a b]] r by (simp add: range_span_def)
  qed simp
  from this [of "[]" "([], None)"] show ?thesis
    by (simp add: split_into_blocks_def split_inv_def blocks_ok_def)
qed

lemma ascending_spans:
  assumes "sorted_wrt (<) (spans rs)" and "\<forall>(a, b) \<in> set rs. a < b"
  shows "ascending rs"
  using assms
proof (induction rs)
  case (Cons r rs)
  obtain x y where r: "r = (x, y)" by (cases r)
  have xy: "x < y" using Cons.prems(2) r by simp
  have "y \<le> fst q" if "q \<in> set rs" for q
  proof -
    obtain a b where q: "q = (a, b)" by (cases q)
    have "a < b" using that Cons.prems(2) q by auto
    then have "a \<in> set (range_span q)" by (simp add: q range_span_def)
    then have "a \<in> set (spans rs)" using that unfolding spans_def set_concat set_map by blast
    moreover have "y - 1 \<in> set (range_span r)" using xy r by (simp add: range_span_def)
    ultimately have "y - 1 < a" using Cons.prems(1) by (auto simp: sorted_wrt_append)
    then show ?thesis using q by simp
  qed
  then show ?case using Cons r xy by (simp add: ascending_Cons sorted_wrt_append)
qed (simp add: ascending_def)

lemma block_ascending:
  assumes "blocks_ok bs" and "sorted_wrt (<) (concat (map spans bs))" and "blk \<in> set bs"
  obtains c where "ascending blk" "blk \<noteq> []" "\<forall>(a, b) \<in> set blk. in_block c a b"
proof -
  obtain xs ys where bs: "bs = xs @ blk # ys" using assms(3) by (meson split_list)
  have "sorted_wrt (<) (spans blk)" using assms(2) bs by (simp add: sorted_wrt_append)
  moreover obtain c where c: "blk \<noteq> []" "\<forall>(a, b) \<in> set blk. in_block c a b" using assms(1,3) by (auto simp: blocks_ok_def)
  ultimately show thesis using that [of c] ascending_spans [of blk] by (fastforce simp: in_block_def)
qed

subsection \<open>Blocks of a bucket\<close>

text \<open>A block as the callback receives it, every chunk \<open>i\<close> of it being \<open>f i\<close>.\<close>

definition block_of :: "(nat \<Rightarrow> bytes) \<Rightarrow> (nat \<times> nat) list \<Rightarrow> block" where
  "block_of f blk = (blk, map (\<lambda>i. (i, f i)) (spans blk))"

lemma read_run_by_block_spec:
  assumes "zstd_documented (m_codec m)" and "index_ok (br_index r) n" and "address_ok address n"
    and behind: "file_behind st r bs" and good: "run_good (br_index r) run" and "\<forall>i \<in> set (run_idxs run). i < n"
    and plain: "\<forall>i \<in> set (run_idxs run). chunk_whole m r address bs i = Inr (f i)" and dist: "distinct (run_idxs run)"
  shows "read_run_by_block m st r address run = (map (block_of f) (split_into_blocks (ir_chunks run)), None)"
proof -
  let ?b = "ir_start run + (ir_end run - ir_start run)"
  note sp = split_into_blocks_spec [of "ir_chunks run"]
  have one: "bind_res (decode_chunks m r address (ir_start run) (pslice (ir_start run) ?b bs) blk) (\<lambda>d. Inr (blk, dict_update d [])) =
      Inr (block_of f blk)" if blk: "blk \<in> set (split_into_blocks (ir_chunks run))" for blk
  proof -
    have sub: "set (spans blk) \<subseteq> set (run_idxs run)"
      unfolding run_idxs_def conjunct2 [OF sp, symmetric] using blk by auto
    have "distinct (concat (map spans (split_into_blocks (ir_chunks run))))"
      using dist conjunct2 [OF sp] by (simp add: run_idxs_def)
    then have d: "distinct (spans blk)" using blk by (auto simp: distinct_concat_iff dest: split_list)
    have within: "\<forall>i \<in> set (spans blk). i < n \<and> chunk_within (br_index r) (ir_start run) ?b i"
      using sub assms(6) good by (fastforce simp: run_good_def chunk_within_def)
    have "map_res (chunk_whole m r address bs) (spans blk) = Inr (map f (spans blk))"
      using sub plain by (intro map_res_Inr) auto
    then have "decode_chunks m r address (ir_start run) (pslice (ir_start run) ?b bs) blk = Inr (zip (spans blk) (map f (spans blk)))"
      using decode_chunks_spec [OF assms(1-3) within, of bs] by (simp add: all_or_error_simps(1))
    moreover have "zip (spans blk) (map f (spans blk)) = map (\<lambda>i. (i, f i)) (spans blk)" by (simp add: zip_map2 zip_same_conv_map)
    moreover have "dict_update (map (\<lambda>i. (i, f i)) (spans blk)) [] = map (\<lambda>i. (i, f i)) (spans blk)"
      using dict_update_fresh [of "[]" "map (\<lambda>i. (i, f i)) (spans blk)"] d by (simp add: o_def)
    ultimately show ?thesis by (simp add: block_of_def)
  qed
  have "read_run_by_block m st r address run =
      gen_map (\<lambda>blk. bind_res (decode_chunks m r address (ir_start run) (pslice (ir_start run) ?b bs) blk) (\<lambda>d. Inr (blk, dict_update d [])))
        (split_into_blocks (ir_chunks run))"
    using behind by (simp add: read_run_by_block_def file_behind_def)
  also have "\<dots> = (map (block_of f) (split_into_blocks (ir_chunks run)), None)" using one by (rule gen_map_Inr)
  finally show ?thesis .
qed

lemma runs_by_block_spec:
  assumes "zstd_documented (m_codec m)" and "index_ok (br_index r) n" and "address_ok address n" and "file_behind st r bs"
    and "\<forall>run \<in> set runs. run_good (br_index r) run \<and> (\<forall>i \<in> set (run_idxs run). i < n)"
    and "\<forall>i \<in> set (concat (map run_idxs runs)). chunk_whole m r address bs i = Inr (f i)" and "distinct (concat (map run_idxs runs))"
  shows "\<exists>blks. runs_by_block m st r address runs = (map (block_of f) blks, None) \<and> blocks_ok blks \<and>
    concat (map spans blks) = concat (map run_idxs runs)"
  using assms(5-7)
proof (induction runs)
  case Nil
  then show ?case by (simp add: blocks_ok_def)
next
  case (Cons run runs)
  obtain blks where ih: "runs_by_block m st r address runs = (map (block_of f) blks, None)" "blocks_ok blks"
    "concat (map spans blks) = concat (map run_idxs runs)"
    using Cons by auto
  have one: "read_run_by_block m st r address run = (map (block_of f) (split_into_blocks (ir_chunks run)), None)"
    using Cons.prems by (intro read_run_by_block_spec [OF assms(1-4)]) auto
  note sp = split_into_blocks_spec [of "ir_chunks run"]
  have "runs_by_block m st r address (run # runs) = (map (block_of f) (split_into_blocks (ir_chunks run) @ blks), None)"
    by (simp add: one ih(1))
  moreover have "blocks_ok (split_into_blocks (ir_chunks run) @ blks)" using sp ih(2) by (auto simp: blocks_ok_def)
  moreover have "concat (map spans (split_into_blocks (ir_chunks run) @ blks)) = concat (map run_idxs (run # runs))"
    using sp ih(3) by (simp add: run_idxs_def)
  ultimately show ?case by blast
qed

lemma read_chunk_blocks_spec:
  assumes zstd: "zstd_documented (m_codec m)" and ix: "index_ok (br_index r) n" and ad: "address_ok address n"
    and behind: "file_behind st r bs" and ready: "readied st r r'" and req: "ranges_ok ranges" and ne: "ranges \<noteq> []"
    and ok: "\<forall>i \<in> set (all_indices ranges). fst (read_chunk m st i (ChunkAddress (fst address) (snd address) i) r) = Inr (f i)"
    and untorn: "\<forall>i \<in> set (all_indices ranges). stored_whole m r' address bs i"
  shows "\<exists>blks. read_chunk_blocks m st (fst address) (snd address) ranges r = ((map (block_of f) blks, None), r') \<and>
    blocks_ok blks \<and> concat (map spans blks) = all_indices ranges"
proof -
  note g = readied_fields [OF ready]
  have each: "\<exists>t. resolve_compress_type r i = Inr t \<and> chunk_whole m r' address bs i = Inr (f i)" if "i \<in> set (all_indices ranges)" for i
    using ok untorn that chunk_whole_eq [OF zstd] by (auto simp: read_chunk_eq [OF ready behind ix] res_simps)
  have types: "\<forall>i \<in> set (all_indices ranges). \<exists>t. resolve_compress_type r i = Inr t" using each by blast
  have chk: "fold_res (\<lambda>x _. check_range r x) ranges () = Inr () \<and> (\<forall>(start, len) \<in> set ranges. 0 < len \<and> start + len \<le> n)"
    using check_ranges_ok(1) [OF ix, of ranges] types req by (auto simp: ranges_ok_def)
  have lt: "i < n" if "i \<in> set (all_indices ranges)" for i
    using types that by (auto simp: resolve_type_cases [OF ix] split: if_splits)
  obtain runs where runs: "plan_index_runs (br_index r) ranges = Inr runs" "concat (map run_idxs runs) = all_indices ranges"
    "\<forall>run \<in> set runs. run_good (br_index r) run"
    using plan_index_runs_spec [OF ix conjunct2 [OF chk]] by blast
  have rt: "resolve_compress_type r' = resolve_compress_type r" by (rule ext) (simp add: resolve_compress_type_def g)
  have cr: "check_range r' = check_range r" by (rule ext) (simp only: check_range_def rt g)
  have pr: "planned_runs st ranges r = (Inr runs, r')"
    using ready ne g cr chk runs(1) by (auto simp: planned_runs_def readied_def op_bind_def split: if_splits)
  have inr: "\<forall>run \<in> set runs. run_good (br_index r') run \<and> (\<forall>i \<in> set (run_idxs run). i < n)"
  proof (intro ballI conjI)
    fix run assume run: "run \<in> set runs"
    then show "run_good (br_index r') run" using runs(3) g by simp
    fix i assume "i \<in> set (run_idxs run)"
    then have "i \<in> set (concat (map run_idxs runs))" using run by auto
    then show "i < n" unfolding runs(2) by (rule lt)
  qed
  have dist: "distinct (concat (map run_idxs runs))"
    unfolding runs(2) using req separated_indices strict_sorted_iff by (auto simp: ranges_ok_def)
  have ix': "index_ok (br_index r') n" and behind': "file_behind st r' bs" using ix behind g by (simp_all add: file_behind_def)
  have pl: "\<forall>i \<in> set (concat (map run_idxs runs)). chunk_whole m r' address bs i = Inr (f i)" using each unfolding runs(2) by blast
  from runs_by_block_spec [OF zstd ix' ad behind' inr pl dist] show ?thesis
    using pr runs(2) by (simp add: read_chunk_blocks_def)
qed

text \<open>The same for a reader out of a cache, over the pool's reference contents.\<close>

lemma reader_blocks:
  assumes sound: "bucket_sound cf key" and rd: "reader_of cf key r" and req: "ranges_ok R" "R \<noteq> []"
    and good: "\<forall>i \<in> set (all_indices R). chunk_good cf key i"
  shows "\<exists>blks r'. read_chunk_blocks (pc_machine cf) (pc_store cf) (fst key) (snd key) R r =
      ((map (block_of (\<lambda>i. chunk_bytes cf (ChunkAddress (fst key) (snd key) i))) blks, None), r') \<and>
    reader_of cf key r' \<and> blocks_ok blks \<and> concat (map spans blks) = all_indices R"
proof -
  let ?m = "pc_machine cf" and ?st = "pc_store cf" and ?f = "\<lambda>i. chunk_bytes cf (ChunkAddress (fst key) (snd key) i)"
  obtain r0 where r0: "open_fresh cf key = Inr r0" "r = r0 \<or> readied ?st r0 r" using rd by (auto simp: reader_of_def)
  let ?n = "bh_chunk_num (br_header r0)"
  obtain bs where bs: "file_behind ?st r0 bs" "?n \<le> BUCKET_MAX_CHUNK_NUM" using sound r0 by (auto simp: bucket_sound_def)
  have zstd: "zstd_documented (m_codec ?m)" and ad: "address_ok key ?n"
    using sound bs by (auto simp: bucket_sound_def key_fits_def address_ok_def const_values)
  have fresh: "fst (read_chunk ?m ?st i (ChunkAddress (fst key) (snd key) i) r0) = Inr (?f i)" if "i \<in> set (all_indices R)" for i
    using good that r0(1) by (auto simp: chunk_good_def chunk_bytes_def chunk_content_def)
  obtain r1 where r1: "readied ?st r0 r1" "r = r0 \<or> r = r1"
  proof (cases "br_verify r0")
    case False
    then show thesis using that [of r0] r0(2) by (auto simp: readied_def)
  next
    case True
    obtain v r1 where e: "ensure_chunk_crc_store ?st r0 = (v, r1)" by fastforce
    have "all_indices R \<noteq> []" using req by (cases R) (auto simp: ranges_ok_def range_indices_def)
    then obtain i where i: "i \<in> set (all_indices R)" by (meson list.set_sel(1))
    have "v \<noteq> Inl x" for x
      using ensure_failed(2) [OF True, of ?st x r1 ?m i "ChunkAddress (fst key) (snd key) i"] e fresh [OF i] by auto
    then obtain w where "v = Inr w" by (cases v) auto
    then show thesis using that [of r1] True e r0(2) by (auto simp: readied_def)
  qed
  have ready: "readied ?st r r1" using r1 readied_again by blast
  have same: "br_index r = br_index r0" "br_path r = br_path r0" using r1(2) readied_fields [OF r1(1)] by auto
  have ix: "index_ok (br_index r) ?n" using open_fresh_index [OF r0(1)] same by simp
  have fb: "file_behind ?st r bs" using bs same by (simp add: file_behind_def)
  have reads: "\<forall>i \<in> set (all_indices R). fst (read_chunk ?m ?st i (ChunkAddress (fst key) (snd key) i) r) = Inr (?f i)"
    using fresh r1(2) read_chunk_readied [OF r1(1)] by auto
  have "reader_of cf key r1" using r0(1) r1(1) by (auto simp: reader_of_def)
  moreover have "\<forall>i \<in> set (all_indices R). stored_whole ?m r1 key bs i"
    using good r0(1) r1(1) bs(1) unfolding chunk_good_def chunk_untorn_def by blast
  ultimately show ?thesis using read_chunk_blocks_spec [OF zstd ix ad fb ready req reads] by blast
qed

end
