(* ===== verification/Export.thy ===== *)
theory Export
  imports BlockReads
begin

text \<open>
  Pass 2 of the export in \<open>sdk/dedup/chunk_walk.py\<close> (\<open>read_verified_blocks\<close>,
  \<open>exec_one_bucket_group\<close>, \<open>exec_chunks\<close>) and \<open>sdk/dedup/export_scheduler.py\<close>. Bucket groups
  run one after the other in this process: no worker processes, one read at a time.
\<close>

subsection \<open>State\<close>

text \<open>The pool, the export's own \<open>BucketReaderCache\<close> and the destination.\<close>

record 'o exporting =
  ex_pool :: pool
  ex_readers :: "(bucket_key, bucket_reader) cache"
  ex_out :: 'o

definition on_pool :: "(pool, 'a) op \<Rightarrow> ('o exporting, 'a) op" where
  "on_pool = op_zoom ex_pool (\<lambda>p s. s\<lparr>ex_pool := p\<rparr>)"

definition on_out :: "('o, 'a) op \<Rightarrow> ('o exporting, 'a) op" where
  "on_out = op_zoom ex_out (\<lambda>w s. s\<lparr>ex_out := w\<rparr>)"

text \<open>\<open>Pool.bucket\<close> with \<open>cache=export_cache\<close>.\<close>

definition export_bucket :: "pool_config \<Rightarrow> bucket_key \<Rightarrow> ('o exporting, bucket_reader) op" where
  "export_bucket cf = resolve_op ex_readers (\<lambda>g s. s\<lparr>ex_readers := g (ex_readers s)\<rparr>) (\<lambda>key. on_pool (open_bucket_uncached cf key))"

subsection \<open>Pass 2\<close>

definition check_block :: "pool_config \<Rightarrow> (nat \<times> bytes) list option \<Rightarrow> (nat \<times> bytes) list \<Rightarrow> unit res" where
  "check_block cf expected chunks = (case expected of None \<Rightarrow> Inr () | Some d \<Rightarrow> check_fingerprints cf chunks d)"

definition read_verified_blocks ::
    "pool_config \<Rightarrow> bucket_key \<Rightarrow> (nat \<times> nat) list \<Rightarrow> ((nat \<times> nat) list \<Rightarrow> (nat \<times> bytes) list \<Rightarrow> ('o exporting, unit) op) \<Rightarrow>
      bucket_reader \<Rightarrow> ('o exporting, unit) op" where
  "read_verified_blocks cf key ranges on_block r s =
     (let ((blocks, ending), r') = read_chunk_blocks (pc_machine cf) (pc_store cf) (fst key) (snd key) ranges r in
      op_bind
        (if blocks = [] then op_return ()
         else op_bind (on_pool (expected_fingerprints cf (fst key) (snd key) (all_indices ranges))) (\<lambda>expected.
           op_each (\<lambda>(block_ranges, chunks).
             op_bind (op_lift (check_block cf expected chunks)) (\<lambda>_. on_block block_ranges chunks)) blocks))
        (\<lambda>_. op_lift (case ending of None \<Rightarrow> Inr () | Some e \<Rightarrow> Inl e))
        (s\<lparr>ex_readers := replace_cached key r' (ex_readers s)\<rparr>))"

definition write_block :: "'o on_run \<Rightarrow> nat \<Rightarrow> (nat \<times> piece list) list \<Rightarrow> (nat \<times> nat) list \<Rightarrow> (nat \<times> bytes) list \<Rightarrow> ('o exporting, unit) op" where
  "write_block on_run dest_size placements ranges chunks =
     op_bind (op_lift (runs_for placements ranges)) (\<lambda>placed. on_out (merge_and_flush_writes on_run dest_size placed chunks))"

definition group_request :: "chunk_run list \<Rightarrow> (nat \<times> nat) list" where
  "group_request runs = merge_overlapping_ranges (map (\<lambda>r. (run_idx r, run_count r)) runs)"

definition exec_one_bucket_group :: "pool_config \<Rightarrow> 'o on_run \<Rightarrow> nat \<Rightarrow> bucket_key \<Rightarrow> chunk_run list \<Rightarrow> ('o exporting, unit) op" where
  "exec_one_bucket_group cf on_run dest_size key runs =
     op_bind (export_bucket cf key) (\<lambda>r.
       read_verified_blocks cf key (group_request runs) (write_block on_run dest_size (block_placements runs)) r)"

text \<open>\<open>_prefetch_bucket_opens\<close>, here run to its end first: a failed open is dropped.\<close>

definition prefetch_bucket_opens :: "pool_config \<Rightarrow> bucket_key list \<Rightarrow> ('o exporting, unit) op" where
  "prefetch_bucket_opens cf keys = op_each (\<lambda>key s. (Inr (), snd (export_bucket cf key s))) keys"

definition exec_chunks :: "pool_config \<Rightarrow> 'o on_run \<Rightarrow> nat \<Rightarrow> nat \<Rightarrow> chunk_plan \<Rightarrow> ('o exporting, unit) op" where
  "exec_chunks cf on_run dest_size max_concurrent_opens plan =
     (let groups = sort_key fst (pl_groups plan) in
      op_bind (if 1 < max_concurrent_opens \<and> 1 < length groups then prefetch_bucket_opens cf (map fst groups) else op_return ()) (\<lambda>_.
        op_each (\<lambda>(key, runs). exec_one_bucket_group cf on_run dest_size key runs) groups))"

subsection \<open>Accounting\<close>

text \<open>
  \<open>_ExportAccounting\<close>: the writer's state, \<open>bytes_written\<close> and, when a progress callback was
  given, the counts it has received.
\<close>

record 'w accounting =
  ac_writer :: 'w
  ac_bytes :: nat
  ac_reports :: "nat list"

definition on_writer :: "('w, 'a) op \<Rightarrow> ('w accounting, 'a) op" where
  "on_writer = op_zoom ac_writer (\<lambda>w a. a\<lparr>ac_writer := w\<rparr>)"

definition record_external_bytes :: "bool \<Rightarrow> nat \<Rightarrow> ('w accounting, unit) op" where
  "record_external_bytes progress nbytes a =
     (Inr (), a\<lparr>ac_bytes := ac_bytes a + nbytes, ac_reports := (if progress then ac_reports a @ [nbytes] else ac_reports a)\<rparr>)"

definition write_data :: "'w writer \<Rightarrow> bool \<Rightarrow> 'w accounting on_run" where
  "write_data W progress dest_offset payload =
     op_bind (on_writer (wr_write_at W dest_offset payload)) (\<lambda>_. record_external_bytes progress (length payload))"

definition write_gap :: "'w writer \<Rightarrow> bool \<Rightarrow> int \<Rightarrow> nat \<Rightarrow> ('w accounting, unit) op" where
  "write_gap W write_zeros dest_offset len =
     (if write_zeros then on_writer (wr_write_zero W dest_offset len) else op_return ())"

subsection \<open>The walk\<close>

text \<open>
  \<open>_walk_bucket_major\<close>: planning yields plans event by event, with the gap callback run as an
  event is reached. The plans of each event, then the run over them; planning never returns when
  \<open>max_entries\<close> is 0.
\<close>

fun plan_steps :: "nat \<Rightarrow> walk_event list \<Rightarrow> planning \<Rightarrow> ((walk_event \<times> chunk_plan list) list \<times> planning) option" where
  "plan_steps max_entries [] s = Some ([], s)"
| "plan_steps max_entries (e # es) s =
     (case plan_event max_entries e s of
        None \<Rightarrow> None
      | Some (ps, s') \<Rightarrow>
          (case plan_steps max_entries es s' of None \<Rightarrow> None | Some (steps, t) \<Rightarrow> Some ((e, ps) # steps, t)))"

fun event_fills :: "walk_event \<Rightarrow> (nat \<times> nat) list" where
  "event_fills (GapDelta _ _ fills) = fills"
| "event_fills (DataRun _ _) = []"

definition walk_step :: "((nat \<times> nat) \<Rightarrow> ('s, unit) op) \<Rightarrow> (chunk_plan \<Rightarrow> ('s, unit) op) \<Rightarrow> walk_event \<times> chunk_plan list \<Rightarrow> ('s, unit) op" where
  "walk_step fill exec step = op_bind (op_each fill (event_fills (fst step))) (\<lambda>_. op_each exec (snd step))"

definition last_plan :: "chunk_plan list \<Rightarrow> planning \<Rightarrow> chunk_plan list" where
  "last_plan ps s = (if ps = [] \<or> pg_groups s \<noteq> [] \<or> pg_holes s \<noteq> 0 \<or> pg_zeros s \<noteq> 0 then [plan_of s] else [])"

definition walk_windows ::
    "nat \<Rightarrow> extent gen \<Rightarrow> nat \<Rightarrow> nat \<Rightarrow> nat \<Rightarrow> ((nat \<times> nat) \<Rightarrow> ('s, unit) op) \<Rightarrow> (chunk_plan \<Rightarrow> ('s, unit) op) \<Rightarrow>
      ('s, nat \<times> nat) op option" where
  "walk_windows max_entries xs start stop window_start fill exec =
     (case validate_window_start window_start start of
        Inl e \<Rightarrow> Some (op_lift (Inl e))
      | Inr _ \<Rightarrow>
          let events = walk_extents xs start stop window_start in
          (case plan_steps max_entries (fst events) planning_init of
             None \<Rightarrow> None
           | Some (steps, s) \<Rightarrow>
               let ps = concat (map snd steps); final = last_plan ps s in
               Some (op_bind (op_each (walk_step fill exec) steps) (\<lambda>_.
                 case snd events of
                   Some e \<Rightarrow> op_lift (Inl e)
                 | None \<Rightarrow> op_bind (op_each exec final) (\<lambda>_.
                     op_return (sum_list (map pl_holes (ps @ final)), sum_list (map pl_zeros (ps @ final))))))))"

definition DEFAULT_WINDOW_ENTRIES :: nat where [const_defs]: "DEFAULT_WINDOW_ENTRIES = 2 ^ 20"
definition MAX_EXPORT_WORKERS :: int where [const_defs]: "MAX_EXPORT_WORKERS = 61"

text \<open>
  \<open>SharedExportTuning\<close>; its \<open>export_cache\<close> is the cache in the export's state, its \<open>executor\<close>
  is always \<open>None\<close> here. A tuning is made by \<open>ExportTuning.__post_init__\<close> and \<open>of\<close>.
\<close>

record export_tuning =
  et_workers :: int
  et_max_concurrent_reads :: int
  et_window_entries :: nat
  et_max_concurrent_opens :: "nat option"

definition make_tuning :: "int \<Rightarrow> int \<Rightarrow> export_tuning res" where
  "make_tuning workers max_concurrent_reads =
     (if \<not> (0 \<le> workers \<and> workers \<le> MAX_EXPORT_WORKERS) then Inl PyValueError
      else if max_concurrent_reads < 1 then Inl PyValueError
      else Inr \<lparr>et_workers = workers, et_max_concurrent_reads = max_concurrent_reads, et_window_entries = DEFAULT_WINDOW_ENTRIES,
                et_max_concurrent_opens = None\<rparr>)"

definition max_opens :: "export_tuning \<Rightarrow> nat" where
  "max_opens tuning =
     (case et_max_concurrent_opens tuning of
        None \<Rightarrow> if 1 < et_max_concurrent_reads tuning then 1 else 2
      | Some n \<Rightarrow> n)"

record export_result =
  er_bytes_written :: nat
  er_logical_size :: nat
  er_holes :: nat
  er_zeros :: nat

definition walk_bucket_major ::
    "pool_config \<Rightarrow> 'w writer \<Rightarrow> bool \<Rightarrow> bool \<Rightarrow> export_tuning \<Rightarrow> extent gen \<Rightarrow> nat \<Rightarrow> nat \<Rightarrow> ('w accounting exporting, nat \<times> nat) op option" where
  "walk_bucket_major cf W write_zeros progress tuning xs window_start window_end =
     walk_windows (et_window_entries tuning) xs window_start window_end window_start
       (\<lambda>(off, len). on_out (write_gap W write_zeros (int off) len))
       (exec_chunks cf (write_data W progress) (window_end - window_start) (max_opens tuning))"


subsection \<open>A group is painted\<close>

definition exporting_ok :: "pool_config \<Rightarrow> 'o exporting \<Rightarrow> bool" where
  "exporting_ok cf s \<longleftrightarrow> pool_ok cf (ex_pool s) \<and> readers_ok cf (ex_readers s)"

lemma on_pool_simp: "on_pool f s = (let (r, p) = f (ex_pool s) in (r, s\<lparr>ex_pool := p\<rparr>))"
  by (simp add: on_pool_def op_zoom_def)

lemma export_bucket_ok:
  assumes ok: "exporting_ok cf s" and run: "export_bucket cf key s = (r, s')"
  shows "exporting_ok cf s' \<and> ex_out s' = ex_out s \<and>
    (case r of Inr x \<Rightarrow> reader_of cf key x | Inl e \<Rightarrow> open_fresh cf key = Inl e)"
proof (cases "map_of (c_store (ex_readers s)) key")
  case (Some x)
  let ?c = "(ex_readers s)\<lparr>c_hits := Suc (c_hits (ex_readers s)), c_store := od_move_to_end key (c_store (ex_readers s))\<rparr>"
  have "r = Inr x" "s' = s\<lparr>ex_readers := ?c\<rparr>" using run Some by (simp_all add: export_bucket_def resolve_op_def)
  moreover have "readers_ok cf ?c" using ok by (auto simp: exporting_ok_def readers_ok_def dest: subsetD [OF od_move_subset])
  moreover have "reader_of cf key x" using map_of_SomeD [OF Some] ok by (auto simp: exporting_ok_def readers_ok_def)
  ultimately show ?thesis using ok by (simp add: exporting_ok_def)
next
  case None
  let ?s = "s\<lparr>ex_readers := (ex_readers s)\<lparr>c_misses := Suc (c_misses (ex_readers s))\<rparr>\<rparr>"
  obtain a where a: "open_bucket_uncached cf key (ex_pool s) = (open_fresh cf key, (ex_pool s)\<lparr>po_algorithm := a\<rparr>)"
    "algorithm_ok cf ((ex_pool s)\<lparr>po_algorithm := a\<rparr>)"
    using open_uncached [of cf "ex_pool s" key] ok by (auto simp: exporting_ok_def pool_ok_def)
  have p: "pool_ok cf ((ex_pool s)\<lparr>po_algorithm := a\<rparr>)" using ok a(2) by (simp add: exporting_ok_def pool_ok_def)
  have ok2: "exporting_ok cf (?s\<lparr>ex_pool := (ex_pool s)\<lparr>po_algorithm := a\<rparr>\<rparr>)"
    using ok p by (simp add: exporting_ok_def readers_ok_def)
  have eq: "export_bucket cf key s = (case open_fresh cf key of Inl e \<Rightarrow> (Inl e, ?s\<lparr>ex_pool := (ex_pool s)\<lparr>po_algorithm := a\<rparr>\<rparr>)
      | Inr v \<Rightarrow> (Inr v, ?s\<lparr>ex_pool := (ex_pool s)\<lparr>po_algorithm := a\<rparr>, ex_readers := store_and_evict key v (ex_readers ?s)\<rparr>))"
    using None a(1) by (simp add: export_bucket_def resolve_op_def op_bind_def on_pool_simp split: sum.split)
  show ?thesis
  proof (cases "open_fresh cf key")
    case (Inl e)
    then show ?thesis using run ok2 unfolding eq Inl by auto
  next
    case (Inr v)
    have rv: "reader_of cf key v" using Inr by (simp add: reader_of_def)
    then have "readers_ok cf (store_and_evict key v (ex_readers ?s))"
      using ok by (auto simp: exporting_ok_def readers_ok_def dest!: subsetD [OF store_and_evict_subset])
    then show ?thesis using run p rv unfolding eq Inr by (auto simp: exporting_ok_def)
  qed
qed

lemma prefetch_ok:
  assumes "exporting_ok cf s"
  shows "\<exists>s'. prefetch_bucket_opens cf keys s = (Inr (), s') \<and> exporting_ok cf s' \<and> ex_out s' = ex_out s"
  using assms
proof (induction keys arbitrary: s)
  case (Cons key keys)
  obtain r s1 where s1: "export_bucket cf key s = (r, s1)" by fastforce
  note k = export_bucket_ok [OF Cons.prems s1]
  obtain s2 where "prefetch_bucket_opens cf keys s1 = (Inr (), s2)" "exporting_ok cf s2" "ex_out s2 = ex_out s1"
    using Cons.IH k by blast
  then show ?case using s1 k by (simp add: prefetch_bucket_opens_def op_bind_def)
qed (simp add: prefetch_bucket_opens_def)

text \<open>The digests loaded for a request make every block of it pass.\<close>

lemma expected_fingerprints_ok:
  assumes ok: "pool_ok cf po" and ne: "js \<noteq> []" and good: "\<forall>i \<in> set js. chunk_good cf key i"
  shows "\<exists>expected po'. expected_fingerprints cf (fst key) (snd key) js po = (Inr expected, po') \<and> pool_ok cf po' \<and>
    (\<forall>ks. set ks \<subseteq> set js \<longrightarrow> check_block cf expected (map (\<lambda>i. (i, chunk_bytes cf (ChunkAddress (fst key) (snd key) i))) ks) = Inr ())"
proof (cases "vp_fingerprint (pc_verify cf)")
  case False
  then show ?thesis using ok by (simp add: expected_fingerprints_def check_block_def)
next
  case True
  let ?f = "\<lambda>i. chunk_bytes cf (ChunkAddress (fst key) (snd key) i)"
  have dig: "\<exists>t al. load_group_table (pc_store cf) (pc_root cf) (fst key) (snd key) = Inr t \<and> allocation_of (snd key) t = Inr al \<and>
      stored_digest (pc_store cf) al i (pc_sha256 cf (?f i))" if "i \<in> set js" for i
    using good that True by (auto simp: chunk_good_def digest_ok_def chunk_bytes_def)
  have "hd js \<in> set js" using ne by simp
  from dig [OF this] obtain t al where t: "load_group_table (pc_store cf) (pc_root cf) (fst key) (snd key) = Inr t" "allocation_of (snd key) t = Inr al"
    by blast
  have sd: "\<forall>i \<in> set js. stored_digest (pc_store cf) al i (pc_sha256 cf (?f i))" using dig t by fastforce
  obtain x c' where a: "allocation (pc_store cf) (pc_root cf) (fst key) (snd key) (po_tables po) = (x, c')" by fastforce
  have x: "x = Inr al" and c': "tables_ok cf c'" using allocation_ok [OF _ a] ok t by (simp_all add: pool_ok_def)
  define e where "e = map (\<lambda>i. (i, pc_sha256 cf (?f i))) (sorted_list_of_set (set js))"
  have get: "map_of e i = Some (pc_sha256 cf (?f i))" if "i \<in> set js" for i
    using that unfolding e_def by (simp add: map_of_map_restrict restrict_map_def)
  have "digests (pc_store cf) (pc_root cf) (fst key) (snd key) js (po_tables po) = (Inr e, c')"
    using a digests_from_ok [OF sd] unfolding digests_def e_def x op_bind_def by simp
  then have "expected_fingerprints cf (fst key) (snd key) js po = (Inr (Some e), po\<lparr>po_tables := c'\<rparr>)"
    using True by (simp add: expected_fingerprints_def on_tables_def op_bind_def)
  moreover have "pool_ok cf (po\<lparr>po_tables := c'\<rparr>)" using ok c' by (simp add: pool_ok_def algorithm_ok_def)
  moreover have "check_fingerprints cf (map (\<lambda>i. (i, ?f i)) ks) e = Inr ()" if "set ks \<subseteq> set js" for ks
    using that by (induction ks) (simp_all add: check_fingerprints_def get)
  ultimately show ?thesis by (auto simp: check_block_def)
qed

text \<open>A placement that can be exported: its chunk is there and agrees with the target.\<close>

definition exportable :: "pool_config \<Rightarrow> (nat \<Rightarrow> byte) \<Rightarrow> nat \<Rightarrow> placement \<Rightarrow> bool" where
  "exportable cf tgt n p \<longleftrightarrow> chunk_avail cf (fst p) \<and> chunk_fits tgt n (snd p) (chunk_bytes cf (fst p))"

lemma group_request_ok:
  assumes "\<forall>r \<in> set runs. 0 < run_count r"
  shows "ranges_ok (group_request runs)" and "set (all_indices (group_request runs)) = (\<Union>r \<in> set runs. {run_idx r..<run_idx r + run_count r})"
proof -
  show "ranges_ok (group_request runs)"
    using assms merge_ranges(1,3) [of "map (\<lambda>r. (run_idx r, run_count r)) runs"] by (simp add: ranges_ok_def group_request_def)
  show "set (all_indices (group_request runs)) = (\<Union>r \<in> set runs. {run_idx r..<run_idx r + run_count r})"
    using merge_ranges(2) [of "map (\<lambda>r. (run_idx r, run_count r)) runs"]
    by (simp add: group_request_def set_all_indices covered_def)
qed

lemma run_placements_idx: "(\<lambda>p. chunk_idx (fst p)) ` set (run_placements key r) = {run_idx r..<run_idx r + run_count r}"
proof -
  have "(\<lambda>p. chunk_idx (fst p)) ` set (run_placements key r) = (\<lambda>j. run_idx r + j) ` {0..<run_count r}"
    by (auto simp: run_placements_def image_image)
  then show ?thesis by (simp add: add.commute)
qed

context byte_target
begin

definition out_ok :: "pool_config \<Rightarrow> (nat \<Rightarrow> byte) \<Rightarrow> bytes \<Rightarrow> bool \<Rightarrow> nat set \<Rightarrow> nat \<Rightarrow> 'w exporting \<Rightarrow> bool" where
  "out_ok cf tgt f0 R D k s \<longleftrightarrow> exporting_ok cf s \<and> painting tgt f0 R D k (ex_out s)"

definition out_broken :: "pool_config \<Rightarrow> bool \<Rightarrow> 'w exporting \<Rightarrow> bool" where
  "out_broken cf R s \<longleftrightarrow> exporting_ok cf s \<and> broken R (ex_out s)"

lemma write_block_paints:
  assumes s: "out_ok cf tgt f0 R D k s" and blk: "ascending blk" "blk \<noteq> []" "\<forall>(a, b) \<in> set blk. in_block c a b"
    and P: "mset P = filter_mset (\<lambda>p. chunk_idx (fst p) \<in> set (spans blk)) (mset (concat (map (run_placements key) runs)))"
    and fits: "\<forall>p \<in> set P. placeable tgt (length f0) chunks p"
  shows "attains (write_block put (length f0) (block_placements runs) blk chunks) s (out_broken cf R)
    (\<lambda>_. out_ok cf tgt f0 R (D \<union> pl_positions P) (k + pl_bytes (length f0) P))"
proof -
  obtain out where out: "runs_for (block_placements runs) blk = Inr out"
    "mset (concat (map (run_placements key) out)) = mset P"
    using runs_for_spec [OF blk, of runs key] P by auto
  let ?Q = "concat (map (run_placements key) out)"
  have "set ?Q = set P" using out(2) by (rule mset_eq_setD)
  then have q: "\<forall>p \<in> set ?Q. placeable tgt (length f0) chunks p" using fits by simp
  have w: "painting tgt f0 R D k (ex_out s)" using s by (simp add: out_ok_def)
  have "attains (on_out (merge_and_flush_writes put (length f0) out chunks)) s (out_broken cf R)
    (\<lambda>_. out_ok cf tgt f0 R (D \<union> pl_positions ?Q) (k + pl_bytes (length f0) ?Q))"
  proof -
    obtain r v where rv: "merge_and_flush_writes put (length f0) out chunks (ex_out s) = (r, v)" by fastforce
    have "on_out (merge_and_flush_writes put (length f0) out chunks) s = (r, s\<lparr>ex_out := v\<rparr>)" by (simp add: on_out_def op_zoom_def rv)
    then show ?thesis using merge_and_flush_paints [OF w q] s rv
      by (cases r) (simp_all add: attains_def out_ok_def out_broken_def exporting_ok_def)
  qed
  then show ?thesis using out(1) pl_mset [OF out(2), of "length f0"] by (simp add: write_block_def attains_def op_bind_def)
qed

lemma exec_group_paints:
  assumes s: "out_ok cf tgt f0 R D k s" and ne: "runs \<noteq> []" and pos: "\<forall>r \<in> set runs. 0 < run_count r"
    and ex: "\<forall>p \<in> set (concat (map (run_placements key) runs)). exportable cf tgt (length f0) p"
  shows "attains (exec_one_bucket_group cf put (length f0) key runs) s (out_broken cf R)
    (\<lambda>_. out_ok cf tgt f0 R (D \<union> pl_positions (concat (map (run_placements key) runs)))
      (k + pl_bytes (length f0) (concat (map (run_placements key) runs))))"
proof -
  define P where "P = concat (map (run_placements key) runs)"
  define req where "req = group_request runs"
  let ?f = "\<lambda>i. chunk_bytes cf (ChunkAddress (fst key) (snd key) i)"
  note rq = group_request_ok [OF pos, folded req_def]
  have idx: "set (all_indices req) = (\<lambda>p. chunk_idx (fst p)) ` set P"
    unfolding rq(2) P_def set_concat set_map image_UN image_image by (simp add: run_placements_idx)
  have key: "fst p = ChunkAddress (fst key) (snd key) (chunk_idx (fst p))" if "p \<in> set P" for p
    using that by (auto simp: P_def run_placements_def)
  have avail: "chunk_avail cf (ChunkAddress (fst key) (snd key) i)" if i: "i \<in> set (all_indices req)" for i
  proof -
    obtain p where p: "p \<in> set P" "i = chunk_idx (fst p)" using i idx by auto
    have "chunk_avail cf (fst p)" using ex p(1) by (auto simp: P_def exportable_def)
    then show ?thesis unfolding p(2) key [OF p(1), symmetric] .
  qed
  obtain r0 where "r0 \<in> set runs" using ne by (meson list.set_sel(1))
  then have "run_idx r0 \<in> set (all_indices req)" using rq(2) pos by auto
  then have nonempty: "all_indices req \<noteq> []" and sound: "bucket_sound cf key" using avail by (fastforce simp: chunk_avail_def)+
  have good: "\<forall>i \<in> set (all_indices req). chunk_good cf key i" using avail by (simp add: chunk_avail_def)
  have rne: "req \<noteq> []" using nonempty by auto
  obtain r s1 where b: "export_bucket cf key s = (r, s1)" by fastforce
  have sok: "exporting_ok cf s" and out: "painting tgt f0 R D k (ex_out s)" using s by (simp_all add: out_ok_def)
  note bk = export_bucket_ok [OF sok b]
  obtain i0 where "i0 \<in> set (all_indices req)" using nonempty by (meson list.set_sel(1))
  then obtain p0 where "chunk_content cf (ChunkAddress (fst key) (snd key) i0) = Inr p0" using good by (auto simp: chunk_good_def)
  then have "\<exists>x. open_fresh cf key = Inr x" by (cases key) (auto simp: chunk_content_def res_simps)
  then obtain x where x: "r = Inr x" "reader_of cf key x" using bk by (cases r) auto
  obtain blks x' where blks: "read_chunk_blocks (pc_machine cf) (pc_store cf) (fst key) (snd key) req x = ((map (block_of ?f) blks, None), x')"
    "reader_of cf key x'" "blocks_ok blks" "concat (map spans blks) = all_indices req"
    using reader_blocks [OF sound x(2) rq(1) rne good] by blast
  define s2 where "s2 = s1\<lparr>ex_readers := replace_cached key x' (ex_readers s1)\<rparr>"
  have s2: "exporting_ok cf s2" "ex_out s2 = ex_out s"
    using bk blks(2) by (auto simp: s2_def exporting_ok_def readers_ok_def dest!: subsetD [OF replace_cached_subset])
  obtain expected po where exp: "expected_fingerprints cf (fst key) (snd key) (all_indices req) (ex_pool s2) = (Inr expected, po)"
    "pool_ok cf po" "\<forall>ks. set ks \<subseteq> set (all_indices req) \<longrightarrow> check_block cf expected (map (\<lambda>i. (i, ?f i)) ks) = Inr ()"
    using expected_fingerprints_ok [OF _ nonempty good, of "ex_pool s2"] s2(1) by (auto simp: exporting_ok_def)
  let ?body = "\<lambda>(block_ranges, chunks). op_bind (op_lift (check_block cf expected chunks))
      (\<lambda>_. write_block put (length f0) (block_placements runs) block_ranges chunks)"
  let ?s3 = "s2\<lparr>ex_pool := po\<rparr>"
  have s3: "out_ok cf tgt f0 R D k ?s3" using s2 exp(2) out by (simp add: out_ok_def exporting_ok_def)
  have asc: "sorted_wrt (<) (concat (map spans blks))"
    unfolding blks(4) using rq(1) separated_indices by (simp add: ranges_ok_def)
  define part where "part ys = filter (\<lambda>p. chunk_idx (fst p) \<in> set (concat (map spans ys))) P" for ys
  have loop: "attains (op_each (\<lambda>blk. ?body (block_of ?f blk)) blks) ?s3 (out_broken cf R)
      (\<lambda>_. out_ok cf tgt f0 R (D \<union> pl_positions (part blks)) (k + pl_bytes (length f0) (part blks)))"
  proof (rule attains_each [where P = "\<lambda>ys. out_ok cf tgt f0 R (D \<union> pl_positions (part ys)) (k + pl_bytes (length f0) (part ys))"])
    show "out_ok cf tgt f0 R (D \<union> pl_positions (part [])) (k + pl_bytes (length f0) (part [])) ?s3" using s3 by (simp add: part_def)
  next
    fix ys y zs t
    assume split: "blks = ys @ y # zs" and t: "out_ok cf tgt f0 R (D \<union> pl_positions (part ys)) (k + pl_bytes (length f0) (part ys)) t"
    have y: "y \<in> set blks" using split by simp
    obtain c where blk: "ascending y" "y \<noteq> []" "\<forall>(a, b) \<in> set y. in_block c a b" by (rule block_ascending [OF blks(3) asc y])
    define Q where "Q = filter (\<lambda>p. chunk_idx (fst p) \<in> set (spans y)) P"
    have sub: "set (spans y) \<subseteq> set (all_indices req)" unfolding blks(4) [symmetric] using y by auto
    have fits: "\<forall>p \<in> set Q. placeable tgt (length f0) (map (\<lambda>i. (i, ?f i)) (spans y)) p"
    proof
      fix p assume "p \<in> set Q"
      then have p: "p \<in> set P" "chunk_idx (fst p) \<in> set (spans y)" by (simp_all add: Q_def)
      have "chunk_fits tgt (length f0) (snd p) (chunk_bytes cf (fst p))" using ex p(1) by (auto simp: P_def exportable_def)
      moreover have "map_of (map (\<lambda>i. (i, ?f i)) (spans y)) (chunk_idx (fst p)) = Some (chunk_bytes cf (fst p))"
        using p(2) key [OF p(1), symmetric] by (simp add: map_of_map_restrict restrict_map_def)
      ultimately show "placeable tgt (length f0) (map (\<lambda>i. (i, ?f i)) (spans y)) p" by (simp add: placeable_def)
    qed
    have "distinct (concat (map spans blks))" using asc by (simp add: strict_sorted_iff)
    then have disj: "set (concat (map spans ys)) \<inter> set (spans y) = {}" unfolding split by auto
    have m: "mset (part (ys @ [y])) = mset (part ys @ Q)"
      unfolding part_def Q_def mset_append mset_filter using disj by (intro multiset_eqI) (auto simp: count_filter_mset)
    have ck: "check_block cf expected (map (\<lambda>i. (i, ?f i)) (spans y)) = Inr ()" using exp(3) sub by blast
    have "mset Q = filter_mset (\<lambda>p. chunk_idx (fst p) \<in> set (spans y)) (mset (concat (map (run_placements key) runs)))"
      by (simp add: Q_def P_def)
    from write_block_paints [OF t blk this fits]
    have "attains (write_block put (length f0) (block_placements runs) y (map (\<lambda>i. (i, ?f i)) (spans y))) t (out_broken cf R)
        (\<lambda>_. out_ok cf tgt f0 R (D \<union> pl_positions (part (ys @ [y]))) (k + pl_bytes (length f0) (part (ys @ [y]))))"
      using pl_mset [OF m, of "length f0"] by (simp add: Un_assoc add.assoc)
    then show "attains (?body (block_of ?f y)) t (out_broken cf R)
        (\<lambda>_. out_ok cf tgt f0 R (D \<union> pl_positions (part (ys @ [y]))) (k + pl_bytes (length f0) (part (ys @ [y]))))"
      by (simp add: block_of_def ck attains_def op_bind_def)
  qed
  have all: "part blks = P" unfolding part_def blks(4) idx by (intro filter_True) auto
  have each: "op_each ?body (map (block_of ?f) blks) = op_each (\<lambda>blk. ?body (block_of ?f blk)) blks"
    by (induction blks) simp_all
  have bne: "map (block_of ?f) blks \<noteq> []" using blks(4) nonempty by auto
  have ps: "ex_pool s1 = ex_pool s2" by (simp add: s2_def)
  let ?fin = "\<lambda>_. op_lift (case None of None \<Rightarrow> Inr () | Some e \<Rightarrow> Inl e)"
  have "exec_one_bucket_group cf put (length f0) key runs s = op_bind (op_each ?body (map (block_of ?f) blks)) ?fin ?s3"
    using b x(1) blks(1) bne exp(1) ps
    by (simp add: exec_one_bucket_group_def read_verified_blocks_def req_def [symmetric] s2_def [symmetric] on_pool_simp op_bind_def op_return_def
        split: prod.split sum.split)
  moreover have "attains (op_bind (op_each ?body (map (block_of ?f) blks)) ?fin) ?s3 (out_broken cf R)
      (\<lambda>_. out_ok cf tgt f0 R (D \<union> pl_positions P) (k + pl_bytes (length f0) P))"
    using loop unfolding each all by (rule attains_bind) simp
  ultimately show ?thesis unfolding P_def [symmetric] by (simp only: attains_def)
qed

end

end
