(* ===== verification/ExportWalk.thy ===== *)
theory ExportWalk
  imports Export PoolRead
begin

text \<open>
  The whole walk of an export: the plans of the extents of a range, the gap fills between them
  and the bucket groups of each plan paint exactly the content of the range, and the totals add up.
\<close>

subsection \<open>Loops that paint\<close>

lemma attains_growing:
  assumes "I D k s" and "\<And>y t D k. y \<in> set xs \<Longrightarrow> I D k t \<Longrightarrow> attains (f y) t F (\<lambda>_. I (D \<union> pos y) (k + cnt y))"
  shows "attains (op_each f xs) s F (\<lambda>_. I (D \<union> (\<Union>y \<in> set xs. pos y)) (k + sum_list (map cnt xs)))"
proof (rule attains_each [where P = "\<lambda>ys. I (D \<union> (\<Union>y \<in> set ys. pos y)) (k + sum_list (map cnt ys))"])
  fix ys y zs t
  assume "xs = ys @ y # zs" and t: "I (D \<union> (\<Union>y \<in> set ys. pos y)) (k + sum_list (map cnt ys)) t"
  then have "y \<in> set xs" by simp
  from assms(2) [OF this t]
  show "attains (f y) t F (\<lambda>_. I (D \<union> (\<Union>y \<in> set (ys @ [y]). pos y)) (k + sum_list (map cnt (ys @ [y]))))"
    by (simp add: Un_ac add.assoc)
qed (use assms(1) in simp)

subsection \<open>Plans and steps\<close>

lemma plan_run_no_empty:
  assumes "plan_run m key addr n dest s = Some (ps, s')" and "no_empty (pg_groups s)"
  shows "(\<forall>p \<in> set ps. no_empty (pl_groups p)) \<and> no_empty (pg_groups s')"
  using assms
proof (induction m key addr n dest s arbitrary: ps s' rule: plan_run.induct)
  case (1 m key addr n dest s)
  show ?case
  proof (cases "n = 0 \<or> m = 0")
    case True
    then show ?thesis using "1.prems" by (auto simp: plan_run.simps [of m] split: if_splits)
  next
    case False
    then have n: "n \<noteq> 0" "m \<noteq> 0" by simp_all
    show ?thesis
    proof (cases "m \<le> pg_entries s")
      case True
      then obtain qs where q: "plan_run m key addr n dest planning_init = Some (qs, s')" "ps = plan_of s # qs"
        using "1.prems"(1) n by (auto simp: plan_run.simps [of m key addr n dest s] split: option.splits)
      show ?thesis
        using "1.IH"(1) [OF n True q(1)] q(2) "1.prems"(2) by (simp add: planning_init_def plan_of_def)
    next
      case False
      show ?thesis
        using "1.IH"(2) [OF n False refl refl, of ps s'] "1.prems" n False
        by (simp add: plan_run.simps [of m key addr n dest s] Let_def no_empty_append)
    qed
  qed
qed

lemma plan_event_no_empty:
  "plan_event m e s = Some (ps, s') \<Longrightarrow> no_empty (pg_groups s) \<Longrightarrow> (\<forall>p \<in> set ps. no_empty (pl_groups p)) \<and> no_empty (pg_groups s')"
  by (cases e) (auto dest: plan_run_no_empty)

lemma plan_events_steps:
  "plan_events m es s = map_option (\<lambda>(steps, t). (concat (map snd steps), t)) (plan_steps m es s)"
  by (induction es arbitrary: s) (auto split: option.split)

lemma plan_steps_events: "plan_steps m es s = Some (steps, t) \<Longrightarrow> map fst steps = es"
  by (induction es arbitrary: s steps) (auto split: option.splits)

lemma plan_steps_no_empty:
  "plan_steps m es s = Some (steps, t) \<Longrightarrow> no_empty (pg_groups s) \<Longrightarrow>
    (\<forall>p \<in> set (concat (map snd steps)). no_empty (pl_groups p)) \<and> no_empty (pg_groups t)"
  by (induction es arbitrary: s steps) (auto split: option.splits dest!: plan_event_no_empty)

text \<open>The gap fills of an extent.\<close>

definition extent_fills :: "nat \<Rightarrow> nat \<Rightarrow> nat \<Rightarrow> extent \<Rightarrow> (nat \<times> nat) list" where
  "extent_fills start stop window_start x =
     (case x of DataExtent _ _ _ _ _ \<Rightarrow> [] | GapExtent _ _ _ \<Rightarrow> snd (snd (handle_gap_extent x start stop window_start)))"

lemma run_event_fills: "event_fills (run_event lo r) = []"
  by (cases r) (simp add: run_event_def)

lemma extent_events_fills:
  "concat (map event_fills (fst (extent_events start stop ws x))) = extent_fills start stop ws x"
  by (cases x) (auto simp: extent_events_def extent_fills_def Let_def run_event_fills split: prod.split)

lemma gen_concat_fills:
  assumes "gen_concat (extent_events start stop ws) xs = (es, None)"
  shows "concat (map event_fills es) = concat (map (extent_fills start stop ws) xs)"
  using assms
proof (induction xs arbitrary: es)
  case (Cons x xs)
  obtain a e where a: "extent_events start stop ws x = (a, e)" by (cases "extent_events start stop ws x")
  obtain b g where b: "gen_concat (extent_events start stop ws) xs = (b, g)" by (cases "gen_concat (extent_events start stop ws) xs")
  have "e = None" "g = None" "es = a @ b" using Cons.prems a b by (auto simp: gen_append_def split: option.splits)
  then show ?case using Cons.IH b extent_events_fills [of start stop ws x] a by simp
qed simp

text \<open>The walk as one loop over its fills and plans.\<close>

definition step_items :: "walk_event \<times> chunk_plan list \<Rightarrow> ((nat \<times> nat) + chunk_plan) list" where
  "step_items st = map Inl (event_fills (fst st)) @ map Inr (snd st)"

lemma walk_steps_items:
  "op_each (walk_step fill exec) steps = op_each (case_sum fill exec) (concat (map step_items steps))"
proof (induction steps)
  case (Cons st steps)
  have "walk_step fill exec st = op_each (case_sum fill exec) (step_items st)"
    by (simp add: walk_step_def step_items_def op_each_append op_each_map)
  then show ?case using Cons by (simp add: op_each_append)
qed simp
lemma walk_plan_spec:
  assumes m: "0 < m" and wf: "\<forall>x \<in> set xs. ext_wf x" and al: "window_start mod FIXED_CHUNK_LENGTH = 0" and ws: "window_start \<le> start"
  shows "\<exists>es steps s. walk_extents (xs, None) start stop window_start = (es, None) \<and> plan_steps m es planning_init = Some (steps, s) \<and>
    plans_exact m xs start stop window_start (concat (map snd steps) @ last_plan (concat (map snd steps)) s) \<and>
    (\<forall>p \<in> set (concat (map snd steps) @ last_plan (concat (map snd steps)) s). no_empty (pl_groups p)) \<and>
    concat (map (\<lambda>st. event_fills (fst st)) steps) = concat (map (extent_fills start stop window_start) xs)"
proof -
  obtain ps where ps: "plan_chunks_windowed m (xs, None) start stop window_start = Some (ps, None)" "plans_exact m xs start stop window_start ps"
    using plan_windows [OF m wf al ws] by blast
  obtain es where es: "gen_concat (extent_events start stop window_start) xs = (es, None)"
    using gen_concat_events [OF wf] by blast
  have walk: "walk_extents (xs, None) start stop window_start = (es, None)" by (simp add: walk_extents_def es)
  obtain steps s where st: "plan_steps m es planning_init = Some (steps, s)"
    using ps(1) al ws walk
    by (cases "plan_steps m es planning_init") (auto simp: plan_chunks_windowed_def validate_window_start_def plan_events_steps)
  have eq: "ps = concat (map snd steps) @ last_plan (concat (map snd steps)) s"
    using ps(1) al ws walk st
    by (auto simp: plan_chunks_windowed_def validate_window_start_def plan_events_steps last_plan_def split: if_splits)
  have init: "no_empty (pg_groups planning_init)" by (simp add: planning_init_def)
  have "\<forall>p \<in> set ps. no_empty (pl_groups p)"
    using plan_steps_no_empty [OF st init] unfolding eq by (auto simp: last_plan_def plan_of_def)
  moreover have "map (\<lambda>st. event_fills (fst st)) steps = map event_fills es" using plan_steps_events [OF st] by auto
  ultimately show ?thesis using walk st ps(2) gen_concat_fills [OF es] unfolding eq by auto
qed

subsection \<open>A plan is painted\<close>

context byte_target
begin

lemma exec_chunks_paints:
  assumes s: "out_ok cf tgt f0 R D k s" and ok: "groups_ok (pl_groups plan)" and ne: "no_empty (pl_groups plan)"
    and ex: "\<forall>p \<in> set (plan_placements plan). exportable cf tgt (length f0) p"
  shows "attains (exec_chunks cf put (length f0) opens plan) s (out_broken cf R)
    (\<lambda>_. out_ok cf tgt f0 R (D \<union> pl_positions (plan_placements plan)) (k + pl_bytes (length f0) (plan_placements plan)))"
proof -
  let ?gs = "sort_key fst (pl_groups plan)"
  let ?P = "\<lambda>(key, rs). concat (map (run_placements key) rs)"
  have "\<exists>s1. (if 1 < opens \<and> 1 < length ?gs then prefetch_bucket_opens cf (map fst ?gs) else op_return ()) s = (Inr (), s1) \<and>
      out_ok cf tgt f0 R D k s1"
    using s prefetch_ok [of cf s "map fst ?gs"] by (cases "1 < opens \<and> 1 < length ?gs") (auto simp: out_ok_def)
  then obtain s1 where s1: "(if 1 < opens \<and> 1 < length ?gs then prefetch_bucket_opens cf (map fst ?gs) else op_return ()) s = (Inr (), s1)"
    "out_ok cf tgt f0 R D k s1"
    by blast
  have loop: "attains (op_each (\<lambda>(key, runs). exec_one_bucket_group cf put (length f0) key runs) ?gs) s1 (out_broken cf R)
    (\<lambda>_. out_ok cf tgt f0 R (D \<union> (\<Union>g \<in> set ?gs. pl_positions (?P g))) (k + sum_list (map (\<lambda>g. pl_bytes (length f0) (?P g)) ?gs)))"
  proof (rule attains_growing [where I = "\<lambda>D k. out_ok cf tgt f0 R D k"], rule s1(2))
    fix g t D k
    assume "g \<in> set ?gs" and t: "out_ok cf tgt f0 R D k t"
    then have "g \<in> set (pl_groups plan)" by simp
    then obtain key rs where g: "g = (key, rs)" "(key, rs) \<in> set (pl_groups plan)" by (metis surj_pair)
    have "rs \<noteq> []" using ne g(2) by (auto simp: no_empty_def)
    moreover have "\<forall>r \<in> set rs. 0 < run_count r" using ok g(2) by (fastforce simp: groups_ok_def run_in_bucket_def)
    moreover have "set (?P (key, rs)) \<subseteq> set (plan_placements plan)"
      unfolding plan_placements_def groups_placements_def set_concat set_map using g(2) by (intro UN_upper imageI)
    then have "\<forall>p \<in> set (concat (map (run_placements key) rs)). exportable cf tgt (length f0) p"
      using ex by (simp add: subset_eq)
    ultimately show "attains (case g of (key, runs) \<Rightarrow> exec_one_bucket_group cf put (length f0) key runs) t (out_broken cf R)
        (\<lambda>_. out_ok cf tgt f0 R (D \<union> pl_positions (?P g)) (k + pl_bytes (length f0) (?P g)))"
      using exec_group_paints [OF t] unfolding g by simp
  qed
  have pos: "(\<Union>g \<in> set ?gs. pl_positions (?P g)) = pl_positions (plan_placements plan)"
    by (auto simp: plan_placements_def groups_placements_def pl_positions_def)
  have bytes: "sum_list (map (\<lambda>g. pl_bytes (length f0) (?P g)) ?gs) = pl_bytes (length f0) (plan_placements plan)"
  proof -
    have "sum_list (map h ?gs) = sum_list (map h (pl_groups plan))" for h :: "_ \<Rightarrow> nat"
      using sum_mset_sum_list [of "map h ?gs"] sum_mset_sum_list [of "map h (pl_groups plan)"] by simp
    moreover have "pl_bytes n (concat (map h gs)) = sum_list (map (\<lambda>g. pl_bytes n (h g)) gs)" for n h and gs :: groups
      by (induction gs) simp_all
    ultimately show ?thesis by (simp add: plan_placements_def groups_placements_def)
  qed
  have run: "exec_chunks cf put (length f0) opens plan s =
      op_each (\<lambda>(key, runs). exec_one_bucket_group cf put (length f0) key runs) ?gs s1"
    unfolding exec_chunks_def Let_def by (rule op_bind_Inr) (rule s1(1))
  show ?thesis using loop unfolding pos bytes attains_def run .
qed

end

subsection \<open>The accounting of a writer\<close>

context export_writer
begin

lemma accounting_target:
  "byte_target (write_data W progress) (\<lambda>a. held (ac_writer a)) (\<lambda>a. ready (ac_writer a)) ac_bytes (\<lambda>a. keeps (ac_writer a))"
proof
  fix off w r w' and data :: bytes and f i
  show "lands off data (held (ac_writer w)) r (held (ac_writer w'))" if "keeps (ac_writer w)" "write_data W progress (int off) data w = (r, w')"
    using that write_at_lands [of "ac_writer w" off data]
    by (auto simp: write_data_def op_bind_def on_writer_def op_zoom_def record_external_bytes_def split: prod.splits sum.splits)
  show "ready (ac_writer (snd (write_data W progress (int off) data w)))"
    if "keeps (ac_writer w)" "ready (ac_writer w)" "held (ac_writer w) = Some f" "off + length data \<le> length f"
    using write_at_ready [OF that]
    by (auto simp: write_data_def op_bind_def on_writer_def op_zoom_def record_external_bytes_def split: prod.splits sum.splits)
  show "ac_bytes w' = ac_bytes w + length data" if "write_data W progress i data w = (Inr (), w')"
    using that
    by (auto simp: write_data_def op_bind_def on_writer_def op_zoom_def record_external_bytes_def split: prod.splits sum.splits)
  show "held (ac_writer w) \<noteq> None" if "ready (ac_writer w)" using ready_held [OF that] .
  show "keeps (ac_writer (snd (write_data W progress i data w)))" if "keeps (ac_writer w)"
    using write_at_keeps [OF that, of i data]
    by (auto simp: write_data_def op_bind_def on_writer_def op_zoom_def record_external_bytes_def split: prod.splits sum.splits)
qed

end

sublocale export_writer \<subseteq> acc: byte_target "write_data W progress" "\<lambda>a. held (ac_writer a)" "\<lambda>a. ready (ac_writer a)" ac_bytes
    "\<lambda>a. keeps (ac_writer a)" for progress
  by (rule accounting_target)

context export_writer
begin

lemma write_gap_paints:
  assumes a: "acc.painting tgt f0 R D k a" and "off + len \<le> length f0" and "\<And>p. off \<le> p \<Longrightarrow> p < off + len \<Longrightarrow> tgt p = 0"
  shows "attains (write_gap W wz (int off) len) a (acc.broken R)
    (\<lambda>_. acc.painting tgt f0 R (D \<union> (if wz then {off..<off + len} else {})) k)"
proof (cases wz)
  case False
  then show ?thesis using a by (simp add: write_gap_def)
next
  case True
  have keep: "keeps (ac_writer a)" using a by (simp add: acc.painting_def)
  obtain r v where v: "wr_write_zero W (int off) len (ac_writer a) = (r, v)" by fastforce
  have m: "write_gap W wz (int off) len a = (r, a\<lparr>ac_writer := v\<rparr>)" using v True by (simp add: write_gap_def on_writer_def op_zoom_def)
  have "attains (write_gap W wz (int off) len) a (acc.broken R)
      (\<lambda>_. acc.painting tgt f0 R (D \<union> {off..<off + length (replicate len (0 :: byte))}) (k + 0))"
    using a m
  proof (rule acc.write_paints)
    show "lands off (replicate len 0) (held (ac_writer a)) r (held (ac_writer (a\<lparr>ac_writer := v\<rparr>)))"
      using write_zero_lands [OF keep v] by simp
    show "keeps (ac_writer (a\<lparr>ac_writer := v\<rparr>))"
      using write_zero_keeps [OF keep, of "int off" len] v by simp
    show "ready (ac_writer (a\<lparr>ac_writer := v\<rparr>))"
      if "ready (ac_writer a)" "held (ac_writer a) = Some f" "off + length (replicate len (0 :: byte)) \<le> length f" for f
      using write_zero_ready [OF keep that(1,2), of off len] that(3) v by simp
  qed (use assms(2,3) in simp_all)
  then show ?thesis using True by simp
qed

end
subsection \<open>The chunks of an extent at their places\<close>

definition seg_len :: "nat \<Rightarrow> nat \<Rightarrow> extent \<Rightarrow> nat" where
  "seg_len start stop x = min (ext_end x) stop - max (ext_offset x) start"

text \<open>With aligned offsets the chunks planned for a data extent tile its part of the range.\<close>

lemma extent_placements_shape:
  assumes x: "x = DataExtent off len addr mnum rep" and wf: "ext_wf x"
    and al: "off mod FIXED_CHUNK_LENGTH = 0" "start mod FIXED_CHUNK_LENGTH = 0"
  shows "\<exists>fk c. extent_placements start stop start x =
      map (\<lambda>j. (chunk_at addr mnum (fk + j), int (max off start - start + j * FIXED_CHUNK_LENGTH))) [0..<c] \<and>
    (seg_len start stop x = 0 \<longrightarrow> c = 0) \<and>
    (0 < seg_len start stop x \<longrightarrow> off + fk * FIXED_CHUNK_LENGTH = max off start \<and> seg_len start stop x \<le> c * FIXED_CHUNK_LENGTH \<and>
       (c - 1) * FIXED_CHUNK_LENGTH < seg_len start stop x \<and> 0 < c \<and> max off start + c * FIXED_CHUNK_LENGTH \<le> off + len)"
proof -
  let ?F = "FIXED_CHUNK_LENGTH"
  have F: "0 < ?F" by (simp add: const_values)
  define a where "a = max off start - off"
  define b where "b = int (min (off + len) stop) - 1 - int off"
  have am: "a mod ?F = 0" using al unfolding a_def by (cases "off \<le> start") (simp_all add: max_def mod_diff_eq [symmetric] mod_eq_0_iff_dvd)
  define fk where "fk = a div ?F"
  have afk: "a = fk * ?F" using am by (simp add: fk_def mod_0_imp_dvd)
  define m where "m = nat (b div int ?F + 1)"
  define c where "c = m - fk"
  have bounds: "data_extent_k_bounds x start stop = (fk, b div int ?F)"
    by (simp add: data_extent_k_bounds_def x Let_def ext_end_def fk_def a_def b_def)
  have dest: "int off + (int fk + int j) * int ?F = int (max off start) + int j * int ?F" for j
  proof -
    have "off + fk * ?F = max off start" using afk unfolding a_def by simp
    then have "int off + int fk * int ?F = int (max off start)" by (metis of_nat_add of_nat_mult)
    then show ?thesis by (simp add: distrib_right)
  qed
  have up: "map h [fk..<m] = map (\<lambda>j. h (fk + j)) [0..<c]" for h :: "nat \<Rightarrow> placement"
    by (cases "fk \<le> m") (auto simp: c_def intro: nth_equalityI)
  have pl: "extent_placements start stop start x = map (\<lambda>j. (chunk_at addr mnum (fk + j), int (max off start - start + j * ?F))) [0..<c]"
    unfolding extent_placements_def x by (simp add: bounds [unfolded x] up dest flip: m_def)
  have end_x: "ext_end x = off + len" "ext_offset x = off" by (simp_all add: x ext_end_def)
  have none: "c = 0" if "seg_len start stop x = 0"
  proof -
    have "min (off + len) stop \<le> off + a" using that unfolding seg_len_def end_x a_def by simp
    then have "int (min (off + len) stop) \<le> int (off + fk * ?F)" unfolding afk by (simp only: of_nat_le_iff)
    then have "b < int (fk * ?F)" unfolding b_def of_nat_add by linarith
    moreover have "b div int ?F * int ?F \<le> b" using F by (simp add: minus_mod_eq_div_mult [symmetric])
    ultimately have "b div int ?F * int ?F < int fk * int ?F" unfolding of_nat_mult by linarith
    then have "b div int ?F < int fk" by (rule mult_right_less_imp_less) simp
    then show ?thesis by (simp add: c_def m_def)
  qed
  have some: "off + fk * ?F = max off start \<and> seg_len start stop x \<le> c * ?F \<and> (c - 1) * ?F < seg_len start stop x \<and> 0 < c \<and>
      max off start + c * ?F \<le> off + len"
    if pos: "0 < seg_len start stop x"
  proof -
    define s where "s = seg_len start stop x"
    have off: "off + fk * ?F = max off start" using afk unfolding a_def by simp
    have e: "min (off + len) stop = off + fk * ?F + s"
      using pos unfolding off s_def seg_len_def end_x by simp
    have "b = int (fk * ?F + (s - 1))" using pos unfolding b_def e s_def by simp
    then have "b div int ?F = int ((fk * ?F + (s - 1)) div ?F)" by (simp only: zdiv_int)
    then have "m = fk + (s - 1) div ?F + 1" using F by (simp add: m_def nat_add_distrib)
    then have c: "c = (s - 1) div ?F + 1" by (simp add: c_def)
    have "s - 1 < c * ?F" "(c - 1) * ?F \<le> s - 1" unfolding c using dividend_less_div_times [of ?F "s - 1"] F by simp_all
    then have two: "s \<le> c * ?F" "(c - 1) * ?F < s" using pos s_def by linarith+
    obtain q where q: "len = q * ?F" using wf by (auto simp: x)
    have "off + fk * ?F + s \<le> off + q * ?F" using e q by linarith
    then have "fk * ?F + (c - 1) * ?F < q * ?F" using two(2) by linarith
    then have "(fk + (c - 1)) * ?F < q * ?F" by (simp add: add_mult_distrib)
    then have "fk + c \<le> q" using c by simp
    then have "(fk + c) * ?F \<le> q * ?F" by (rule mult_right_mono) simp
    then have "max off start + c * ?F \<le> off + len" unfolding off [symmetric] q by (simp add: add_mult_distrib)
    then show ?thesis using off two c by (simp add: s_def)
  qed
  show ?thesis using pl none some by (intro exI [of _ fk] exI [of _ c] conjI impI) blast+
qed
lemma read_chunk_length:
  assumes "fst (read_chunk m st i a r) = Inr p"
  shows "length p = FIXED_CHUNK_LENGTH"
  using assms
  by (auto simp: read_chunk_def decode_raw_chunk_def op_bind_def op_return_def bind_res_Inr_iff
      split: sum.splits prod.splits if_splits dest: decompress_length)

lemma avail_length: "chunk_avail cf a \<Longrightarrow> length (chunk_bytes cf a) = FIXED_CHUNK_LENGTH"
  by (cases a) (auto simp: chunk_avail_def chunk_good_def chunk_bytes_def chunk_content_def bind_res_Inr_iff dest: read_chunk_length)

lemma clip_chunks: "sum_list (map (\<lambda>j. clip n (d + j * FIXED_CHUNK_LENGTH) FIXED_CHUNK_LENGTH) [0..<c]) = clip n d (c * FIXED_CHUNK_LENGTH)"
proof (induction c)
  case (Suc c)
  have "clip n d (Suc c * FIXED_CHUNK_LENGTH) = clip n d (c * FIXED_CHUNK_LENGTH + FIXED_CHUNK_LENGTH)" by (simp add: add.commute)
  then show ?case using Suc by (simp add: clip_add)
qed simp

lemma clip_segment:
  assumes "start \<le> a" and s: "s = min e stop - a" and "s \<le> k" and "a + k \<le> e" and "0 < s"
  shows "clip (stop - start) (a - start) k = s"
proof (cases "e \<le> stop")
  case True
  then have "k = s" "a + k \<le> stop" using assms by (simp_all add: min_def)
  then have "min (a - start + k) (stop - start) = a - start + k" "min (a - start) (stop - start) = a - start"
    using assms(1) by linarith+
  then show ?thesis using \<open>k = s\<close> by (simp add: clip_def)
next
  case False
  then have "s = stop - a" "a < stop" using assms by (simp_all add: min_def)
  then have "min (a - start + k) (stop - start) = stop - start" "min (a - start) (stop - start) = a - start"
    using assms(1,3) by linarith+
  then show ?thesis using assms(1) \<open>s = stop - a\<close> by (simp add: clip_def)
qed

lemma chunk_interval:
  "(\<Union>j \<in> {0..<c}. {d + j * FIXED_CHUNK_LENGTH..<d + j * FIXED_CHUNK_LENGTH + FIXED_CHUNK_LENGTH}) = {d..<d + c * FIXED_CHUNK_LENGTH}"
proof (induction c)
  case (Suc c)
  have "{0..<Suc c} = insert c {0..<c}" by auto
  then show ?case using Suc by auto
qed simp

text \<open>What the export paints of an extent: positions, bytes and content.\<close>

definition extent_filled :: "nat \<Rightarrow> nat \<Rightarrow> extent \<Rightarrow> nat set" where
  "extent_filled start stop x = {max (ext_offset x) start - start..<max (ext_offset x) start - start + seg_len start stop x}"

lemma data_extent_painted:
  assumes x: "x = DataExtent off len addr mnum rep"
    and good: "chunk_source.ext_good (chunk_bytes cf) (chunk_avail cf) tgt start stop x"
    and al: "off mod FIXED_CHUNK_LENGTH = 0" "start mod FIXED_CHUNK_LENGTH = 0"
  shows "\<forall>p \<in> set (extent_placements start stop start x). exportable cf (\<lambda>j. tgt (start + j)) (stop - start) p"
    and "extent_filled start stop x \<subseteq> pl_positions (extent_placements start stop start x)"
    and "pl_bytes (stop - start) (extent_placements start stop start x) = seg_len start stop x"
proof -
  let ?F = "FIXED_CHUNK_LENGTH" and ?n = "stop - start"
  define d where "d = max off start - start"
  have wf: "ext_wf x" and av: "chunk_source.ext_avail (chunk_avail cf) start stop x"
    and tgt: "\<And>p. start \<le> p \<Longrightarrow> p < stop \<Longrightarrow> ext_covers p x \<Longrightarrow> tgt p = ext_byte (chunk_bytes cf) x p"
    using good by (simp_all add: pool_source.ext_good_def)
  obtain fk c where s: "extent_placements start stop start x = map (\<lambda>j. (chunk_at addr mnum (fk + j), int (d + j * ?F))) [0..<c]"
    "seg_len start stop x = 0 \<longrightarrow> c = 0"
    "0 < seg_len start stop x \<longrightarrow> off + fk * ?F = max off start \<and> seg_len start stop x \<le> c * ?F \<and>
       (c - 1) * ?F < seg_len start stop x \<and> 0 < c \<and> max off start + c * ?F \<le> off + len"
    using extent_placements_shape [OF x wf al] unfolding d_def by blast
  have off_x: "ext_offset x = off" "ext_end x = off + len" by (simp_all add: x ext_end_def)
  have "pl_positions (extent_placements start stop start x) = (\<Union>j \<in> {0..<c}. {d + j * ?F..<d + j * ?F + ?F})"
    by (simp add: s(1) pl_positions_def del: of_nat_add)
  then have pos: "pl_positions (extent_placements start stop start x) = {d..<d + c * ?F}" unfolding chunk_interval .
  have bytes: "pl_bytes ?n (extent_placements start stop start x) = clip ?n d (c * ?F)"
    by (simp add: s(1) pl_bytes_def o_def clip_chunks del: of_nat_add)
  show "\<forall>p \<in> set (extent_placements start stop start x). exportable cf (\<lambda>j. tgt (start + j)) ?n p"
  proof
    fix p assume "p \<in> set (extent_placements start stop start x)"
    then obtain j where j: "j < c" "p = (chunk_at addr mnum (fk + j), int (d + j * ?F))" by (auto simp: s(1))
    then have sl: "0 < seg_len start stop x" using s(2) by (cases "seg_len start stop x") auto
    note t = s(3) [rule_format, OF sl]
    define q where "q = max off start + j * ?F"
    have qj: "q = off + (fk + j) * ?F" using t by (simp add: q_def add_mult_distrib)
    have "j * ?F \<le> (c - 1) * ?F" using j(1) by (intro mult_right_mono) auto
    then have q: "start \<le> q" "q < stop" "q < off + len" using t sl unfolding q_def seg_len_def off_x by linarith+
    have "ext_covers q x" using q qj by (simp add: ext_covers_def off_x)
    then have "chunk_avail cf (chunk_at addr mnum ((q - off) div ?F))"
      using av x q(1,2) unfolding pool_source.ext_avail_def by blast
    moreover have "(q - off) div ?F = fk + j" by (simp add: qj const_values)
    ultimately have chunk: "chunk_avail cf (fst p)" by (simp add: j(2))
    have "(j + 1) * ?F \<le> c * ?F" using j(1) by (intro mult_right_mono) auto
    then have whole: "q + ?F \<le> off + len" using t unfolding q_def by (simp add: add_mult_distrib)
    have sd: "start + d = max off start" by (simp add: d_def)
    have "chunk_bytes cf (fst p) ! i = tgt (start + (nat (snd p) + i))"
      if i: "i < length (chunk_bytes cf (fst p))" "nat (snd p) + i < ?n" for i
    proof -
      have iF: "i < ?F" using i(1) avail_length [OF chunk] by simp
      have e: "start + (nat (snd p) + i) = q + i" using sd by (simp add: j(2) q_def del: of_nat_add)
      have "q + i < stop" using i(2) e by linarith
      moreover have "ext_covers (q + i) x" using qj whole iF by (simp add: ext_covers_def off_x)
      ultimately have "tgt (q + i) = chunk_byte (chunk_bytes cf) addr mnum (q + i - off)" using tgt [of "q + i"] q(1) by (simp add: x)
      moreover have "q + i - off = (fk + j) * ?F + i" by (simp add: qj)
      moreover have "((fk + j) * ?F + i) div ?F = fk + j" "((fk + j) * ?F + i) mod ?F = i" using iF by simp_all
      ultimately show ?thesis using i(1) unfolding e by (simp add: chunk_byte_def j(2))
    qed
    then show "exportable cf (\<lambda>j. tgt (start + j)) ?n p"
      using chunk avail_length [OF chunk] by (simp add: exportable_def chunk_fits_def j(2) del: of_nat_add)
  qed
  show "extent_filled start stop x \<subseteq> pl_positions (extent_placements start stop start x)"
    using s(3) unfolding pos extent_filled_def off_x d_def by (cases "seg_len start stop x") auto
  show "pl_bytes ?n (extent_placements start stop start x) = seg_len start stop x"
  proof (cases "seg_len start stop x = 0")
    case True
    then show ?thesis using s(2) unfolding bytes by simp
  next
    case False
    then have t: "seg_len start stop x \<le> c * ?F" "max off start + c * ?F \<le> off + len" using s(3) by simp_all
    have "seg_len start stop x = min (off + len) stop - max off start" by (simp add: seg_len_def off_x)
    moreover have "start \<le> max off start" by simp
    ultimately show ?thesis unfolding bytes d_def using t False by (intro clip_segment [where e = "off + len"]) (simp_all only: gr0I)
  qed
qed

lemma gap_extent_painted:
  assumes "x = GapExtent off len kind" and "kind \<noteq> DATA_EXT"
  shows "extent_fills start stop start x = (if seg_len start stop x = 0 then [] else [(max off start - start, seg_len start stop x)])"
    and "gap_bytes HOLE_EXT start stop x + gap_bytes ZERO_EXT start stop x = seg_len start stop x"
  using assms by (cases kind; auto simp: extent_fills_def handle_gap_extent_def Let_def seg_len_def ext_end_def gap_bytes_def)+
subsection \<open>A range adds up\<close>

lemma ordered_total:
  assumes "ext_ordered xs" and cover: "\<forall>p. start \<le> p \<and> p < stop \<longrightarrow> (\<exists>x \<in> set xs. ext_covers p x)"
  shows "sum_list (map (seg_len start stop) xs) = stop - start"
proof -
  let ?seg = "\<lambda>x. {max (ext_offset x) start..<min (ext_end x) stop}"
  have "card (\<Union>x \<in> set xs. ?seg x) = sum_list (map (seg_len start stop) xs)"
    using assms(1)
  proof (induction xs)
    case (Cons x xs)
    have "ext_end x \<le> ext_offset y" if "y \<in> set xs" for y using Cons.prems that by (simp add: ext_ordered_def)
    then have "?seg x \<inter> (\<Union>y \<in> set xs. ?seg y) = {}" by fastforce
    then have "card (?seg x \<union> (\<Union>y \<in> set xs. ?seg y)) = card (?seg x) + card (\<Union>y \<in> set xs. ?seg y)"
      by (intro card_Un_disjoint) simp_all
    then show ?case using Cons by (simp add: seg_len_def ext_ordered_def)
  qed simp
  moreover have "(\<Union>x \<in> set xs. ?seg x) = {start..<stop}" using cover by (fastforce simp: ext_covers_def)
  ultimately show ?thesis by simp
qed

lemma pl_concat:
  "pl_positions (concat Ps) = (\<Union>P \<in> set Ps. pl_positions P)" "pl_bytes n (concat Ps) = sum_list (map (pl_bytes n) Ps)"
  by (induction Ps) simp_all

text \<open>What the chunk map and the chunks of a range have to be for it to be exported.\<close>

definition exportable_range :: "pool_config \<Rightarrow> (nat \<Rightarrow> byte) \<Rightarrow> nat \<Rightarrow> nat \<Rightarrow> extent list \<Rightarrow> bool" where
  "exportable_range cf tgt start stop xs \<longleftrightarrow> ext_ordered xs \<and>
     (\<forall>x \<in> set xs. chunk_source.ext_good (chunk_bytes cf) (chunk_avail cf) tgt start stop x \<and>
       (\<forall>off len addr mnum rep. x = DataExtent off len addr mnum rep \<longrightarrow> off mod FIXED_CHUNK_LENGTH = 0)) \<and>
     (\<forall>p. start \<le> p \<and> p < stop \<longrightarrow> (\<exists>x \<in> set xs. ext_covers p x))"

lemma exportable_range_ext:
  assumes "exportable_range cf tgt start stop xs" and "x \<in> set xs"
  shows "chunk_source.ext_good (chunk_bytes cf) (chunk_avail cf) tgt start stop x"
    and "x = DataExtent off len addr mnum rep \<Longrightarrow> off mod FIXED_CHUNK_LENGTH = 0" and "ext_wf x"
  using assms unfolding exportable_range_def pool_source.ext_good_def by blast+

lemma exportable_placements:
  assumes r: "exportable_range cf tgt start stop xs" and al: "start mod FIXED_CHUNK_LENGTH = 0"
    and m: "mset P = mset (concat (map (extent_placements start stop start) xs))"
  shows "\<forall>p \<in> set P. exportable cf (\<lambda>j. tgt (start + j)) (stop - start) p"
    and "pl_bytes (stop - start) P + sum_list (map (gap_bytes HOLE_EXT start stop) xs) +
      sum_list (map (gap_bytes ZERO_EXT start stop) xs) = stop - start"
proof -
  have each: "(\<forall>p \<in> set (extent_placements start stop start x). exportable cf (\<lambda>j. tgt (start + j)) (stop - start) p) \<and>
      pl_bytes (stop - start) (extent_placements start stop start x) + gap_bytes HOLE_EXT start stop x + gap_bytes ZERO_EXT start stop x =
        seg_len start stop x" if x: "x \<in> set xs" for x
  proof (cases x)
    case (DataExtent off len addr mnum rep)
    from data_extent_painted [OF DataExtent exportable_range_ext(1) [OF r x] exportable_range_ext(2) [OF r x DataExtent] al] show ?thesis using DataExtent by (simp add: gap_bytes_def)
  next
    case (GapExtent off len kind)
    have "kind \<noteq> DATA_EXT" using exportable_range_ext(3) [OF r x] GapExtent by simp
    from gap_extent_painted(2) [OF GapExtent this, of start stop] show ?thesis using GapExtent by (simp add: extent_placements_def)
  qed
  have "set P = set (concat (map (extent_placements start stop start) xs))" using m by (rule mset_eq_setD)
  then show "\<forall>p \<in> set P. exportable cf (\<lambda>j. tgt (start + j)) (stop - start) p" using each by simp
  have "sum_list (map (\<lambda>x. pl_bytes (stop - start) (extent_placements start stop start x) + gap_bytes HOLE_EXT start stop x +
      gap_bytes ZERO_EXT start stop x) xs) = sum_list (map (seg_len start stop) xs)"
    using each by (intro arg_cong [where f = sum_list] map_cong) auto
  also have "\<dots> = stop - start" using r by (intro ordered_total) (simp_all add: exportable_range_def)
  finally show "pl_bytes (stop - start) P + sum_list (map (gap_bytes HOLE_EXT start stop) xs) +
      sum_list (map (gap_bytes ZERO_EXT start stop) xs) = stop - start"
    using pl_mset [OF m, of "stop - start"] by (simp add: pl_concat(2) o_def sum_list_addf)
qed

definition fill_positions :: "(nat \<times> nat) list \<Rightarrow> nat set" where
  "fill_positions fills = (\<Union>(off, len) \<in> set fills. {off..<off + len})"

lemma exportable_cover:
  assumes r: "exportable_range cf tgt start stop xs" and al: "start mod FIXED_CHUNK_LENGTH = 0"
  shows "{..<stop - start} \<subseteq> pl_positions (concat (map (extent_placements start stop start) xs)) \<union>
      fill_positions (concat (map (extent_fills start stop start) xs))"
    and "\<forall>(off, len) \<in> set (concat (map (extent_fills start stop start) xs)). off + len \<le> stop - start \<and>
      (\<forall>p. off \<le> p \<and> p < off + len \<longrightarrow> tgt (start + p) = 0)"
proof -
  have gap: "extent_fills start stop start x = (if seg_len start stop x = 0 then [] else [(max off start - start, seg_len start stop x)])"
    if "x \<in> set xs" "x = GapExtent off len kind" for x off len kind
    using gap_extent_painted(1) [OF that(2)] exportable_range_ext(3) [OF r that(1)] that(2) by simp
  show "{..<stop - start} \<subseteq> pl_positions (concat (map (extent_placements start stop start) xs)) \<union>
      fill_positions (concat (map (extent_fills start stop start) xs))"
  proof
    fix q assume "q \<in> {..<stop - start}"
    then have q: "start + q < stop" by auto
    then obtain x where x: "x \<in> set xs" "ext_covers (start + q) x" using r le_add1 unfolding exportable_range_def by blast
    have filled: "q \<in> extent_filled start stop x" using x(2) q by (auto simp: extent_filled_def seg_len_def ext_covers_def)
    show "q \<in> pl_positions (concat (map (extent_placements start stop start) xs)) \<union>
        fill_positions (concat (map (extent_fills start stop start) xs))"
    proof (cases x)
      case (DataExtent off len addr mnum rep)
      from data_extent_painted(2) [OF DataExtent exportable_range_ext(1) [OF r x(1)] exportable_range_ext(2) [OF r x(1) DataExtent] al]
      have "q \<in> pl_positions (extent_placements start stop start x)" using filled by blast
      then show ?thesis using x(1) by (auto simp: pl_concat(1))
    next
      case (GapExtent off len kind)
      have "q \<in> fill_positions (extent_fills start stop start x)"
        using filled gap [OF x(1) GapExtent] by (auto simp: extent_filled_def fill_positions_def GapExtent)
      then show ?thesis using x(1) by (auto simp: fill_positions_def)
    qed
  qed
  show "\<forall>(off, len) \<in> set (concat (map (extent_fills start stop start) xs)). off + len \<le> stop - start \<and>
      (\<forall>p. off \<le> p \<and> p < off + len \<longrightarrow> tgt (start + p) = 0)"
  proof (intro ballI, clarify)
    fix a n assume "(a, n) \<in> set (concat (map (extent_fills start stop start) xs))"
    then obtain x where x: "x \<in> set xs" "(a, n) \<in> set (extent_fills start stop start x)" by auto
    then obtain off len kind where g: "x = GapExtent off len kind" by (cases x) (auto simp: extent_fills_def)
    then have an: "a = max off start - start" "n = seg_len start stop x" "0 < n"
      using x(2) gap [OF x(1) g] by (auto split: if_splits)
    have "ext_offset x = off" by (simp add: g)
    then have bound: "a + n \<le> stop - start" and at: "start + a = max off start" "max off start + n = min (ext_end x) stop"
      using an by (simp_all add: seg_len_def)
    have "tgt (start + p) = 0" if p: "a \<le> p" "p < a + n" for p
    proof -
      have "start + p < stop" "ext_covers (start + p) x" using p at by (auto simp: ext_covers_def g)
      moreover have "start \<le> start + p" by simp
      ultimately have "tgt (start + p) = ext_byte (chunk_bytes cf) x (start + p)"
        using exportable_range_ext(1) [OF r x(1)] unfolding pool_source.ext_good_def by blast
      then show ?thesis by (simp add: g)
    qed
    then show "a + n \<le> stop - start \<and> (\<forall>p. a \<le> p \<and> p < a + n \<longrightarrow> tgt (start + p) = 0)" using bound by blast
  qed
qed
subsection \<open>The walk paints the range\<close>

fun item_positions :: "bool \<Rightarrow> (nat \<times> nat) + chunk_plan \<Rightarrow> nat set" where
  "item_positions wz (Inl (off, len)) = (if wz then {off..<off + len} else {})"
| "item_positions wz (Inr p) = pl_positions (plan_placements p)"

fun item_bytes :: "nat \<Rightarrow> (nat \<times> nat) + chunk_plan \<Rightarrow> nat" where
  "item_bytes n (Inl f) = 0"
| "item_bytes n (Inr p) = pl_bytes n (plan_placements p)"

lemma items_positions:
  "(\<Union>i \<in> set (concat (map step_items steps) @ map Inr final). item_positions wz i) =
    pl_positions (concat (map plan_placements (concat (map snd steps) @ final))) \<union>
    (if wz then fill_positions (concat (map (\<lambda>st. event_fills (fst st)) steps)) else {})"
proof -
  have fin: "(\<Union>i \<in> set (map Inr final). item_positions wz i) = pl_positions (concat (map plan_placements final))"
    by (simp add: pl_concat(1))
  have "(\<Union>i \<in> set (concat (map step_items steps)). item_positions wz i) =
      pl_positions (concat (map plan_placements (concat (map snd steps)))) \<union>
      (if wz then fill_positions (concat (map (\<lambda>st. event_fills (fst st)) steps)) else {})"
    by (induction steps) (auto simp: step_items_def pl_concat(1) fill_positions_def split: if_splits)
  then show ?thesis using fin by (simp add: Un_ac)
qed

lemma items_bytes:
  "sum_list (map (item_bytes n) (concat (map step_items steps) @ map Inr final)) =
    pl_bytes n (concat (map plan_placements (concat (map snd steps) @ final)))"
proof -
  have "sum_list (map (item_bytes n) (concat (map step_items steps))) = pl_bytes n (concat (map plan_placements (concat (map snd steps))))"
    by (induction steps) (simp_all add: step_items_def pl_concat(2) o_def)
  then show ?thesis by (simp add: pl_concat(2) o_def)
qed

context export_writer
begin

lemma item_paints:
  assumes s: "acc.out_ok cf tgt f0 R D k s"
    and item: "case i of Inl (off, len) \<Rightarrow> off + len \<le> length f0 \<and> (\<forall>p. off \<le> p \<and> p < off + len \<longrightarrow> tgt p = 0)
      | Inr p \<Rightarrow> groups_ok (pl_groups p) \<and> no_empty (pl_groups p) \<and> (\<forall>q \<in> set (plan_placements p). exportable cf tgt (length f0) q)"
  shows "attains (case_sum (\<lambda>(off, len). on_out (write_gap W wz (int off) len)) (exec_chunks cf (write_data W progress) (length f0) opens) i) s
    (acc.out_broken cf R) (\<lambda>_. acc.out_ok cf tgt f0 R (D \<union> item_positions wz i) (k + item_bytes (length f0) i))"
proof (cases i)
  case (Inl f)
  obtain off len where f: "f = (off, len)" by fastforce
  have b: "off + len \<le> length f0" "\<And>p. off \<le> p \<Longrightarrow> p < off + len \<Longrightarrow> tgt p = 0" using item by (auto simp: Inl f)
  have ok: "exporting_ok cf s" and p: "acc.painting tgt f0 R D k (ex_out s)" using s by (simp_all add: acc.out_ok_def)
  obtain r a where ra: "write_gap W wz (int off) len (ex_out s) = (r, a)" by fastforce
  have "on_out (write_gap W wz (int off) len) s = (r, s\<lparr>ex_out := a\<rparr>)" by (simp add: on_out_def op_zoom_def ra)
  then show ?thesis
    using write_gap_paints [OF p b, of wz] ok ra
    by (cases r) (simp_all add: Inl f attains_def acc.out_ok_def acc.out_broken_def exporting_ok_def)
next
  case (Inr p)
  then show ?thesis using item acc.exec_chunks_paints [OF s, of p progress opens] by simp
qed

lemma walk_paints:
  assumes r: "exportable_range cf tgt start stop xs" and al: "start mod FIXED_CHUNK_LENGTH = 0" and m: "0 < et_window_entries tuning"
    and f0: "length f0 = stop - start" and s: "acc.out_ok cf (\<lambda>j. tgt (start + j)) f0 R {} k s"
  shows "\<exists>walk. walk_bucket_major cf W wz progress tuning (xs, None) start stop = Some walk \<and>
    attains walk s (acc.out_broken cf R)
      (\<lambda>(holes, zeros) t. \<exists>D bytes. acc.out_ok cf (\<lambda>j. tgt (start + j)) f0 R D (k + bytes) t \<and> bytes + holes + zeros = stop - start \<and>
         (\<forall>p < stop - start. p \<in> D \<or> \<not> wz \<and> tgt (start + p) = 0))"
proof -
  let ?t = "\<lambda>j. tgt (start + j)" and ?n = "stop - start"
  have wf: "\<forall>x \<in> set xs. ext_wf x" using exportable_range_ext(3) [OF r] by blast
  obtain es steps st where walk: "walk_extents (xs, None) start stop start = (es, None)"
    "plan_steps (et_window_entries tuning) es planning_init = Some (steps, st)"
    "plans_exact (et_window_entries tuning) xs start stop start (concat (map snd steps) @ last_plan (concat (map snd steps)) st)"
    "\<forall>p \<in> set (concat (map snd steps) @ last_plan (concat (map snd steps)) st). no_empty (pl_groups p)"
    "concat (map (\<lambda>st. event_fills (fst st)) steps) = concat (map (extent_fills start stop start) xs)"
    using walk_plan_spec [OF m wf al le_refl] by blast
  define final where "final = last_plan (concat (map snd steps)) st"
  define ps where "ps = concat (map snd steps) @ final"
  define P where "P = concat (map plan_placements ps)"
  let ?holes = "sum_list (map pl_holes ps)" and ?zeros = "sum_list (map pl_zeros ps)"
  have ps: "\<forall>p \<in> set ps. groups_ok (pl_groups p)" "mset P = mset (concat (map (extent_placements start stop start) xs))"
    "?holes = sum_list (map (gap_bytes HOLE_EXT start stop) xs)" "?zeros = sum_list (map (gap_bytes ZERO_EXT start stop) xs)"
    using walk(3) unfolding plans_exact_def ps_def final_def P_def by blast+
  note pl = exportable_placements [OF r al ps(2)]
  note cover = exportable_cover [OF r al]
  define opens where "opens = max_opens tuning"
  let ?fill = "\<lambda>(off, len). on_out (write_gap W wz (int off) len)" and ?exec = "exec_chunks cf (write_data W progress) (length f0) opens"
  let ?items = "concat (map step_items steps) @ map Inr final"
  have "attains (op_each (case_sum ?fill ?exec) ?items) s (acc.out_broken cf R)
      (\<lambda>_. acc.out_ok cf ?t f0 R ({} \<union> (\<Union>i \<in> set ?items. item_positions wz i)) (k + sum_list (map (item_bytes (length f0)) ?items)))"
  proof (rule attains_growing [where I = "\<lambda>D k. acc.out_ok cf ?t f0 R D k"], rule s)
    fix i u D k
    assume i: "i \<in> set ?items" and u: "acc.out_ok cf ?t f0 R D k u"
    show "attains (case_sum ?fill ?exec i) u (acc.out_broken cf R)
        (\<lambda>_. acc.out_ok cf ?t f0 R (D \<union> item_positions wz i) (k + item_bytes (length f0) i))"
      using u
    proof (rule item_paints)
      have fills: "f \<in> set (concat (map (extent_fills start stop start) xs))" if "i = Inl f" for f
        using i that unfolding walk(5) [symmetric] by (auto simp: step_items_def)
      have plans: "p \<in> set ps" if "i = Inr p" for p
        using i that by (auto simp: ps_def step_items_def)
      show "case i of Inl (off, len) \<Rightarrow> off + len \<le> length f0 \<and> (\<forall>p. off \<le> p \<and> p < off + len \<longrightarrow> tgt (start + p) = 0)
        | Inr p \<Rightarrow> groups_ok (pl_groups p) \<and> no_empty (pl_groups p) \<and> (\<forall>q \<in> set (plan_placements p). exportable cf ?t (length f0) q)"
      proof (cases i)
        case (Inl f)
        then show ?thesis using bspec [OF cover(2) fills [OF Inl]] f0 by (cases f) simp
      next
        case (Inr p)
        have p: "p \<in> set ps" by (rule plans [OF Inr])
        have "set (plan_placements p) \<subseteq> set P" using p by (auto simp: P_def)
        then show ?thesis using Inr ps(1) walk(4) p pl(1) f0 unfolding ps_def final_def by auto
      qed
    qed
  qed
  then have items: "attains (op_each (case_sum ?fill ?exec) ?items) s (acc.out_broken cf R)
      (\<lambda>_. acc.out_ok cf ?t f0 R (pl_positions P \<union> (if wz then fill_positions (concat (map (extent_fills start stop start) xs)) else {}))
        (k + pl_bytes ?n P))"
    unfolding items_positions items_bytes ps_def [symmetric] P_def [symmetric] walk(5) f0 by simp
  let ?op = "op_bind (op_each (walk_step ?fill ?exec) steps) (\<lambda>_. op_bind (op_each ?exec final) (\<lambda>_. op_return (?holes, ?zeros)))"
  have eq: "walk_bucket_major cf W wz progress tuning (xs, None) start stop = Some ?op"
    using al walk(1,2) unfolding walk_bucket_major_def walk_windows_def validate_window_start_def opens_def [symmetric] f0 [symmetric]
    by (simp add: Let_def final_def ps_def)
  have "op_each (case_sum ?fill ?exec) ?items = op_bind (op_each (walk_step ?fill ?exec) steps) (\<lambda>_. op_each ?exec final)"
    by (simp add: op_each_append walk_steps_items op_each_map)
  then have run: "?op = op_bind (op_each (case_sum ?fill ?exec) ?items) (\<lambda>_. op_return (?holes, ?zeros))"
    by (auto simp: op_bind_def fun_eq_iff split: prod.split sum.split)
  have covered: "p \<in> pl_positions P \<union> (if wz then fill_positions (concat (map (extent_fills start stop start) xs)) else {}) \<or>
      \<not> wz \<and> tgt (start + p) = 0" if "p < ?n" for p
  proof -
    have "p \<in> pl_positions P \<union> fill_positions (concat (map (extent_fills start stop start) xs))"
      using cover(1) that pl_mset [OF ps(2), of ?n] by auto
    then show ?thesis using cover(2) by (fastforce simp: fill_positions_def)
  qed
  have "pl_bytes ?n P + ?holes + ?zeros = ?n" using pl(2) unfolding ps(3,4) .
  then have "attains ?op s (acc.out_broken cf R)
      (\<lambda>(holes, zeros) t. \<exists>D bytes. acc.out_ok cf ?t f0 R D (k + bytes) t \<and> bytes + holes + zeros = ?n \<and>
         (\<forall>p < ?n. p \<in> D \<or> \<not> wz \<and> tgt (start + p) = 0))"
    unfolding run using covered by (intro attains_bind [OF items]) (auto simp del: ex_simps)
  then show ?thesis using eq by blast
qed

end

end
