(* ===== verification/LocalSink.thy ===== *)
theory LocalSink
  imports Sink
begin

text \<open>
  The local-file destination: \<open>pwrite\<close> of \<open>sdk/positional_io.py\<close>, \<open>sdk/dedup/local_file_io.py\<close>
  (the POSIX branches) and \<open>LocalFileSink\<close> with its writer thread. What the operating system
  does is a parameter: how much each write call writes or how it fails, whether the file can be
  created, sized, reserved and renamed, and how far the thread gets between two calls.
\<close>

subsection \<open>The operating system\<close>

text \<open>
  \<open>os_write k\<close> is the outcome of the \<open>k\<close>th write call: an error or the bytes it is willing to
  take. \<open>os_fallocate\<close> is \<open>None\<close> where there is no \<open>posix_fallocate\<close>; a failure says whether
  its \<open>errno\<close> is in \<open>_PREALLOCATE_UNSUPPORTED\<close>. \<open>os_sched k\<close> is the number of jobs the thread
  takes before the \<open>k\<close>th \<open>submit\<close>.
\<close>

record os =
  os_write :: "nat \<Rightarrow> nat res"
  os_mkdir :: "unit res"
  os_create :: "unit res"
  os_truncate :: "unit res"
  os_open :: "unit res"
  os_fallocate :: "(bool + unit) option"
  os_rename :: "unit res"
  os_sched :: "nat \<Rightarrow> nat"

text \<open>A file being written: its content and the write calls made so far.\<close>

type_synonym wfile = "bytes \<times> nat"

definition file_put :: "nat \<Rightarrow> bytes \<Rightarrow> bytes \<Rightarrow> bytes" where
  "file_put off data f = pslice_assign off (off + length data) data (f @ replicate (off - length f) 0)"

definition write_once :: "os \<Rightarrow> int \<Rightarrow> bytes \<Rightarrow> (wfile, nat) op" where
  "write_once os off view s =
     (let (f, k) = s in
      if off < 0 then (Inl PyOSError, s)
      else case os_write os k of
        Inl e \<Rightarrow> (Inl e, (f, Suc k))
      | Inr n \<Rightarrow> (Inr (min n (length view)), (file_put (nat off) (take n view) f, Suc k)))"

function pwrite :: "os \<Rightarrow> bytes \<Rightarrow> int \<Rightarrow> (wfile, unit) op" where
  "pwrite os view off =
     (if view = [] then op_return ()
      else op_bind (write_once os off view) (\<lambda>n.
        if n = 0 then op_lift (Inl PyOSError) else pwrite os (drop n view) (off + int n)))"
  by pat_completeness auto
termination by (relation "measure (\<lambda>(_, view, _). length view)") auto

declare pwrite.simps [simp del]

definition ZERO_FILL_BLOCK :: nat where [const_defs]: "ZERO_FILL_BLOCK = 2 ^ 20"

function write_zeros_at :: "os \<Rightarrow> int \<Rightarrow> nat \<Rightarrow> (wfile, unit) op" where
  "write_zeros_at os pos remaining =
     (if remaining = 0 then op_return ()
      else let n = min remaining ZERO_FILL_BLOCK in
        op_bind (pwrite os (replicate n 0) pos) (\<lambda>_. write_zeros_at os (pos + int n) (remaining - n)))"
  by pat_completeness auto
termination by (relation "measure (\<lambda>(_, _, remaining). remaining)") (auto simp: ZERO_FILL_BLOCK_def)

declare write_zeros_at.simps [simp del]

definition preallocate :: "os \<Rightarrow> nat \<Rightarrow> bool res" where
  "preallocate os logical_size =
     (if logical_size = 0 then Inr True
      else case os_fallocate os of
        None \<Rightarrow> Inr False
      | Some (Inr _) \<Rightarrow> Inr True
      | Some (Inl unsupported) \<Rightarrow> if unsupported then Inr False else Inl PyOSError)"

subsection \<open>The sink\<close>

definition WRITER_QUEUE_SIZE :: nat where [const_defs]: "WRITER_QUEUE_SIZE = 8"

datatype write_job = DataJob int bytes | GapJob int nat

record writer_thread =
  wt_queue :: "write_job list"
  wt_error :: "err option"
  wt_closing :: bool

text \<open>\<open>LocalFileSink\<close>, with the file system around it, the write calls and the \<open>submit\<close>s so far.\<close>

record local_sink =
  ls_dst :: string
  ls_staged :: bool
  ls_keep_partial :: bool
  ls_thread :: "writer_thread option"
  ls_opening :: bool
  ls_created :: bool
  ls_ever_written :: bool
  ls_committed :: bool
  ls_preallocated :: bool
  ls_files :: "string \<Rightarrow> bytes option"
  ls_calls :: nat
  ls_ticks :: nat

definition part_path_for :: "string \<Rightarrow> string" where
  "part_path_for dst = dst @ ''.part''"

definition ls_path :: "local_sink \<Rightarrow> string" where
  "ls_path s = (if ls_staged s then part_path_for (ls_dst s) else ls_dst s)"

definition local_sink_init :: "string \<Rightarrow> bool \<Rightarrow> bool \<Rightarrow> (string \<Rightarrow> bytes option) \<Rightarrow> local_sink" where
  "local_sink_init dst staged keep_partial files =
     \<lparr>ls_dst = dst, ls_staged = staged, ls_keep_partial = keep_partial, ls_thread = None, ls_opening = False, ls_created = False,
      ls_ever_written = False, ls_committed = False, ls_preallocated = False, ls_files = files, ls_calls = 0, ls_ticks = 0\<rparr>"

fun run_job :: "os \<Rightarrow> write_job \<Rightarrow> (wfile, unit) op" where
  "run_job os (DataJob off payload) = pwrite os payload off"
| "run_job os (GapJob off n) = write_zeros_at os off n"

text \<open>
  One turn of the thread's \<open>_consume\<close> loop: a job is taken and, after a failure, discarded. A
  file no longer at its path is still written to, out of sight.
\<close>

definition thread_step :: "os \<Rightarrow> local_sink \<Rightarrow> local_sink" where
  "thread_step os s =
     (case ls_thread s of
        None \<Rightarrow> s
      | Some t \<Rightarrow>
          (case wt_queue t of
             [] \<Rightarrow> s
           | job # rest \<Rightarrow>
               if wt_error t \<noteq> None then s\<lparr>ls_thread := Some (t\<lparr>wt_queue := rest\<rparr>)\<rparr>
               else (case run_job os job (case ls_files s (ls_path s) of None \<Rightarrow> [] | Some f \<Rightarrow> f, ls_calls s) of
                       (r, (f, k)) \<Rightarrow>
                         s\<lparr>ls_thread := Some (t\<lparr>wt_queue := rest, wt_error := (case r of Inl e \<Rightarrow> Some e | Inr _ \<Rightarrow> None)\<rparr>),
                           ls_files := (ls_files s)(ls_path s := map_option (\<lambda>_. f) (ls_files s (ls_path s))), ls_calls := k\<rparr>)))"

definition thread_steps :: "os \<Rightarrow> nat \<Rightarrow> local_sink \<Rightarrow> local_sink" where
  "thread_steps os n = (thread_step os ^^ n)"

definition submit :: "os \<Rightarrow> write_job \<Rightarrow> (local_sink, unit) op" where
  "submit os job s =
     (let s = thread_steps os (os_sched os (ls_ticks s)) (s\<lparr>ls_ticks := Suc (ls_ticks s)\<rparr>) in
      case ls_thread s of
        None \<Rightarrow> (Inl PyRuntimeError, s)
      | Some t \<Rightarrow>
          if wt_closing t then (Inl PyRuntimeError, s)
          else (case wt_error t of
             Some e \<Rightarrow> (Inl e, s)
           | None \<Rightarrow>
               let s = (if length (wt_queue t) < WRITER_QUEUE_SIZE then s else thread_step os s) in
               (Inr (), s\<lparr>ls_thread := map_option (\<lambda>t. t\<lparr>wt_queue := wt_queue t @ [job]\<rparr>) (ls_thread s)\<rparr>)))"

definition accepting :: "local_sink \<Rightarrow> bool" where
  "accepting s \<longleftrightarrow> (case ls_thread s of None \<Rightarrow> False | Some t \<Rightarrow> \<not> wt_closing t)"

definition sink_write :: "os \<Rightarrow> write_job \<Rightarrow> (local_sink, unit) op" where
  "sink_write os job s = (if accepting s then submit os job (s\<lparr>ls_ever_written := True\<rparr>) else (Inl PyRuntimeError, s))"

definition local_write_at :: "os \<Rightarrow> int \<Rightarrow> bytes \<Rightarrow> (local_sink, unit) op" where
  "local_write_at os off data = sink_write os (DataJob off data)"

definition local_write_zero :: "os \<Rightarrow> int \<Rightarrow> nat \<Rightarrow> (local_sink, unit) op" where
  "local_write_zero os off n = sink_write os (GapJob off n)"

definition local_writer :: "os \<Rightarrow> local_sink writer" where
  "local_writer os =
     \<lparr>wr_write_at = local_write_at os, wr_write_zero = local_write_zero os, wr_sparse = True, wr_preallocated = ls_preallocated\<rparr>"

text \<open>\<open>open\<close>, \<open>_create\<close> and \<open>create_presized\<close>.\<close>

definition create_presized :: "os \<Rightarrow> nat \<Rightarrow> (local_sink, unit) op" where
  "create_presized os logical_size s =
     (case os_create os of
        Inl e \<Rightarrow> (Inl e, s)
      | Inr _ \<Rightarrow>
          let s = s\<lparr>ls_created := True, ls_files := (ls_files s)(ls_path s \<mapsto> [])\<rparr> in
          (case os_truncate os of
             Inl e \<Rightarrow> (Inl e, s)
           | Inr _ \<Rightarrow> (Inr (), s\<lparr>ls_files := (ls_files s)(ls_path s \<mapsto> replicate logical_size 0)\<rparr>)))"

definition create_sink :: "os \<Rightarrow> nat \<Rightarrow> bool \<Rightarrow> (local_sink, unit) op" where
  "create_sink os logical_size sparse =
     op_bind (op_lift (os_mkdir os)) (\<lambda>_.
     op_bind (create_presized os logical_size) (\<lambda>_.
     op_bind (op_lift (os_open os)) (\<lambda>_.
       if sparse then op_return ()
       else op_bind (op_lift (preallocate os logical_size)) (\<lambda>p s. (Inr (), s\<lparr>ls_preallocated := p\<rparr>)))))"

definition sink_open :: "os \<Rightarrow> nat \<Rightarrow> bool \<Rightarrow> (local_sink, unit) op" where
  "sink_open os logical_size sparse s =
     op_bind (create_sink os logical_size sparse) (\<lambda>_ s.
       (Inr (), s\<lparr>ls_thread := Some \<lparr>wt_queue = [], wt_error = None, wt_closing = False\<rparr>\<rparr>)) (s\<lparr>ls_opening := True\<rparr>)"

text \<open>\<open>_close_writer\<close>: the thread drains its queue and ends; the result is its failure.\<close>

definition close_writer :: "os \<Rightarrow> local_sink \<Rightarrow> err option \<times> local_sink" where
  "close_writer os s =
     (case ls_thread s of
        None \<Rightarrow> (None, s)
      | Some t \<Rightarrow>
          let s = thread_steps os (length (wt_queue t)) (s\<lparr>ls_thread := Some (t\<lparr>wt_closing := True\<rparr>)\<rparr>) in
          (case ls_thread s of None \<Rightarrow> None | Some t \<Rightarrow> wt_error t, s))"

definition sink_commit :: "os \<Rightarrow> (local_sink, unit) op" where
  "sink_commit os s =
     (case close_writer os s of
        (Some e, s) \<Rightarrow> (Inl e, s)
      | (None, s) \<Rightarrow>
          if ls_staged s then
            (case (ls_files s (ls_path s), os_rename os) of
               (None, _) \<Rightarrow> (Inl PyOSError, s)
             | (_, Inl e) \<Rightarrow> (Inl e, s)
             | (Some f, Inr _) \<Rightarrow>
                 (Inr (), s\<lparr>ls_files := (ls_files s)(ls_path s := None, ls_dst s \<mapsto> f), ls_committed := True\<rparr>))
          else (Inr (), s\<lparr>ls_committed := True\<rparr>))"

definition discard_unless_kept :: "local_sink \<Rightarrow> abort_outcome \<times> local_sink" where
  "discard_unless_kept s =
     (if \<not> ls_created s then (\<lparr>ao_kept = False, ao_ever_written = False\<rparr>, s)
      else let keep = ls_committed s \<or> (ls_ever_written s \<and> (ls_keep_partial s \<or> \<not> ls_staged s)) in
        (\<lparr>ao_kept = keep, ao_ever_written = ls_ever_written s\<rparr>,
         if keep then s else s\<lparr>ls_files := (ls_files s)(ls_path s := None)\<rparr>))"

definition sink_abort :: "os \<Rightarrow> local_sink \<Rightarrow> abort_outcome \<times> local_sink" where
  "sink_abort os s =
     (if \<not> ls_opening s then (\<lparr>ao_kept = False, ao_ever_written = False\<rparr>, s)
      else discard_unless_kept (snd (close_writer os s)))"

text \<open>\<open>note_worker_write\<close>: worker processes are about to write to the path themselves.\<close>

definition note_worker_write :: "local_sink \<Rightarrow> local_sink" where
  "note_worker_write s = s\<lparr>ls_ever_written := True\<rparr>"

subsection \<open>Writes that go through\<close>

text \<open>An operating system on which no write call fails and each makes progress.\<close>

definition steady :: "os \<Rightarrow> bool" where
  "steady os \<longleftrightarrow> (\<forall>k. \<exists>n. os_write os k = Inr (Suc n))"

lemma file_put_inside: "off + length data \<le> length f \<Longrightarrow> file_put off data f = pslice_assign off (off + length data) data f"
  by (simp add: file_put_def)

lemma pslice_assign_two:
  assumes "n \<le> length data" and "off + length data \<le> length f"
  shows "pslice_assign (off + n) (off + length data) (drop n data) (pslice_assign off (off + n) (take n data) f) =
    pslice_assign off (off + length data) data f"
proof -
  have l: "length (pslice_assign off (off + n) (take n data) f) = length f" using assms by simp
  show ?thesis
  proof (rule nth_equalityI)
    fix i assume i: "i < length (pslice_assign (off + n) (off + length data) (drop n data) (pslice_assign off (off + n) (take n data) f))"
    then have "i < length f" using assms l by simp
    then show "pslice_assign (off + n) (off + length data) (drop n data) (pslice_assign off (off + n) (take n data) f) ! i =
        pslice_assign off (off + length data) data f ! i"
      using assms by (auto simp: nth_pslice_assign l)
  qed (use assms l in simp)
qed

lemma pwrite_spec:
  assumes "off = int a" and "a + length view \<le> length f"
  shows "attains (pwrite os view off) (f, k) (\<lambda>_. \<not> steady os) (\<lambda>_ s. fst s = pslice_assign a (a + length view) view f)"
  using assms
proof (induction os view off arbitrary: a f k rule: pwrite.induct)
  case (1 os view off)
  show ?case
  proof (cases "view = []")
    case True
    then show ?thesis by (simp add: pwrite.simps [of os "[]"] pslice_assign_def)
  next
    case False
    have pos: "\<not> off < 0" "nat off = a" using "1.prems"(1) by simp_all
    show ?thesis
    proof (cases "os_write os k")
      case (Inl e)
      then have "\<not> steady os" by (metis steady_def sum.distinct(1))
      then show ?thesis using Inl False pos by (simp add: pwrite.simps [of os view] attains_def op_bind_def write_once_def)
    next
      case (Inr n)
      have once: "write_once os off view (f, k) = (Inr (min n (length view)), (file_put a (take n view) f, Suc k))"
        using Inr pos by (simp add: write_once_def)
      show ?thesis
      proof (cases "n = 0")
        case True
        then have "\<not> steady os" using Inr by (metis steady_def sum.inject(2) nat.distinct(1))
        then show ?thesis using True False once by (simp add: pwrite.simps [of os view] attains_def op_bind_def)
      next
        case n: False
        let ?w = "min n (length view)"
        have w: "?w \<noteq> 0" using n False by simp
        let ?f = "file_put a (take n view) f"
        have fp: "?f = pslice_assign a (a + ?w) (take ?w view) f"
          using "1.prems"(2) by (cases "n \<le> length view") (simp_all add: file_put_inside)
        have lf: "length ?f = length f" unfolding fp using "1.prems"(2) by simp
        have "attains (pwrite os (drop ?w view) (off + int ?w)) (?f, Suc k) (\<lambda>_. \<not> steady os)
            (\<lambda>_ s. fst s = pslice_assign (a + ?w) (a + ?w + length (drop ?w view)) (drop ?w view) ?f)"
          by (rule "1.IH" [OF False once w]) (use "1.prems" lf in simp_all)
        moreover have "a + ?w + length (drop ?w view) = a + length view" by simp
        moreover have "pslice_assign (a + ?w) (a + length view) (drop ?w view) ?f = pslice_assign a (a + length view) view f"
          unfolding fp by (rule pslice_assign_two) (use "1.prems"(2) in simp_all)
        ultimately have "attains (pwrite os (drop ?w view) (off + int ?w)) (?f, Suc k) (\<lambda>_. \<not> steady os)
            (\<lambda>_ s. fst s = pslice_assign a (a + length view) view f)"
          by simp
        moreover have "pwrite os view off (f, k) = pwrite os (drop ?w view) (off + int ?w) (?f, Suc k)"
          unfolding pwrite.simps [of os view off] using False once w by (simp only: op_bind_Inr if_False)
        ultimately show ?thesis by (simp only: attains_def)
      qed
    qed
  qed
qed

lemma write_zeros_spec:
  assumes "pos = int a" and "a + n \<le> length f"
  shows "attains (write_zeros_at os pos n) (f, k) (\<lambda>_. \<not> steady os) (\<lambda>_ s. fst s = pslice_assign a (a + n) (replicate n 0) f)"
  using assms
proof (induction os pos n arbitrary: a f k rule: write_zeros_at.induct)
  case (1 os pos n)
  show ?case
  proof (cases "n = 0")
    case True
    then show ?thesis by (simp add: write_zeros_at.simps [of os pos] pslice_assign_def)
  next
    case False
    let ?m = "min n ZERO_FILL_BLOCK"
    have eq: "write_zeros_at os pos n = op_bind (pwrite os (replicate ?m 0) pos) (\<lambda>_. write_zeros_at os (pos + int ?m) (n - ?m))"
      using False by (simp add: write_zeros_at.simps [of os pos n] Let_def)
    have first: "attains (pwrite os (replicate ?m 0) pos) (f, k) (\<lambda>_. \<not> steady os)
        (\<lambda>_ s. fst s = pslice_assign a (a + ?m) (replicate ?m 0) f)"
      using pwrite_spec [OF "1.prems"(1), of "replicate ?m 0" f os k] "1.prems"(2) by simp
    show ?thesis unfolding eq
    proof (rule attains_bind_run [OF first])
      fix u :: unit and t :: wfile
      assume run: "pwrite os (replicate ?m 0) pos (f, k) = (Inr u, t)"
      assume t: "fst t = pslice_assign a (a + ?m) (replicate ?m 0) f"
      obtain g j where tj: "t = (g, j)" by (cases t)
      have g: "g = pslice_assign a (a + ?m) (take ?m (replicate n 0)) f" using t tj by (simp add: min.absorb2 min.commute)
      have len: "length g = length f" unfolding g using "1.prems"(2) by simp
      have "attains (write_zeros_at os (pos + int ?m) (n - ?m)) (g, j) (\<lambda>_. \<not> steady os)
          (\<lambda>_ s. fst s = pslice_assign (a + ?m) (a + ?m + (n - ?m)) (replicate (n - ?m) 0) g)"
        by (rule "1.IH" [OF False refl run]) (use "1.prems" len in simp_all)
      moreover have "pslice_assign (a + ?m) (a + ?m + (n - ?m)) (replicate (n - ?m) 0) g = pslice_assign a (a + n) (replicate n 0) f"
        using pslice_assign_two [of ?m "replicate n 0" a f] "1.prems"(2) unfolding g by simp
      ultimately show "attains (write_zeros_at os (pos + int ?m) (n - ?m)) t (\<lambda>_. \<not> steady os)
          (\<lambda>_ s. fst s = pslice_assign a (a + n) (replicate n 0) f)"
        by (simp add: tj)
    qed
  qed
qed

subsection \<open>The sink keeps the writer's promises\<close>

text \<open>
  The file and the call counter once the thread has carried out every job in its queue; what a
  turn of the thread does not change.
\<close>

definition sink_ahead :: "os \<Rightarrow> local_sink \<Rightarrow> wfile option" where
  "sink_ahead os s =
     (case (ls_thread s, ls_files s (ls_path s)) of
        (Some t, Some f) \<Rightarrow>
          if wt_error t \<noteq> None then None
          else (case op_each (run_job os) (wt_queue t) (f, ls_calls s) of (Inr _, w) \<Rightarrow> Some w | (Inl _, _) \<Rightarrow> None)
      | _ \<Rightarrow> None)"

definition sink_held :: "os \<Rightarrow> local_sink \<Rightarrow> bytes option" where
  "sink_held os s = (if accepting s then map_option fst (sink_ahead os s) else None)"

definition sink_ready :: "os \<Rightarrow> local_sink \<Rightarrow> bool" where
  "sink_ready os s \<longleftrightarrow> steady os \<and> sink_held os s \<noteq> None"

lemma ls_path_frame [simp]:
  "ls_path (s\<lparr>ls_ticks := n\<rparr>) = ls_path s" "ls_path (s\<lparr>ls_ever_written := b\<rparr>) = ls_path s" "ls_path (s\<lparr>ls_thread := u\<rparr>) = ls_path s"
  "ls_path (s\<lparr>ls_files := g\<rparr>) = ls_path s" "ls_path (s\<lparr>ls_calls := n\<rparr>) = ls_path s" "ls_path (s\<lparr>ls_committed := b\<rparr>) = ls_path s"
  by (simp_all add: ls_path_def)

lemma sink_ahead_frame [simp]:
  "sink_ahead os (s\<lparr>ls_ticks := n\<rparr>) = sink_ahead os s" "sink_ahead os (s\<lparr>ls_ever_written := b\<rparr>) = sink_ahead os s"
  by (cases "ls_thread s"; cases "ls_files s (ls_path s)"; simp add: sink_ahead_def)+

text \<open>What the thread and a \<open>submit\<close> leave alone.\<close>

definition same_sink :: "local_sink \<Rightarrow> local_sink \<Rightarrow> bool" where
  "same_sink s s' \<longleftrightarrow> ls_dst s' = ls_dst s \<and> ls_staged s' = ls_staged s \<and> ls_keep_partial s' = ls_keep_partial s \<and>
     ls_opening s' = ls_opening s \<and> ls_created s' = ls_created s \<and> ls_committed s' = ls_committed s \<and>
     (\<forall>p. p \<noteq> ls_path s \<longrightarrow> ls_files s' p = ls_files s p) \<and> (ls_files s' (ls_path s) = None \<longleftrightarrow> ls_files s (ls_path s) = None)"

lemma same_sink_refl [simp]: "same_sink s s"
  by (simp add: same_sink_def)

lemma same_sink_path: "same_sink s s' \<Longrightarrow> ls_path s' = ls_path s"
  by (simp add: same_sink_def ls_path_def)

lemma same_sink_trans: "same_sink a b \<Longrightarrow> same_sink b c \<Longrightarrow> same_sink a c"
  using same_sink_path [of a b] by (simp add: same_sink_def)

lemma thread_step_same: "same_sink s (thread_step os s) \<and> accepting (thread_step os s) = accepting s \<and>
    ls_ever_written (thread_step os s) = ls_ever_written s"
  by (auto simp: thread_step_def same_sink_def accepting_def ls_path_def split: option.split list.split prod.split)

lemma thread_step_ahead: "sink_ahead os (thread_step os s) = sink_ahead os s"
proof (cases "ls_thread s")
  case (Some t)
  show ?thesis
  proof (cases "wt_queue t")
    case (Cons job rest)
    show ?thesis
    proof (cases "wt_error t = None")
      case False
      then show ?thesis using Some Cons by (auto simp: thread_step_def sink_ahead_def split: option.split)
    next
      case True
      obtain r f k where run: "run_job os job (case ls_files s (ls_path s) of None \<Rightarrow> [] | Some f \<Rightarrow> f, ls_calls s) = (r, f, k)"
        by (metis prod_cases3)
      have step: "thread_step os s = s\<lparr>ls_thread := Some (t\<lparr>wt_queue := rest, wt_error := (case r of Inl e \<Rightarrow> Some e | Inr _ \<Rightarrow> None)\<rparr>),
          ls_files := (ls_files s)(ls_path s := map_option (\<lambda>_. f) (ls_files s (ls_path s))), ls_calls := k\<rparr>"
        using Some Cons True run by (simp add: thread_step_def)
      show ?thesis unfolding step
        using Some Cons True run by (cases r; cases "ls_files s (ls_path s)") (simp_all add: sink_ahead_def op_bind_def)
    qed
  qed (simp add: thread_step_def Some)
qed (simp add: thread_step_def)

lemma thread_steps_ahead: "sink_ahead os (thread_steps os n s) = sink_ahead os s"
  and thread_steps_same: "same_sink s (thread_steps os n s) \<and> accepting (thread_steps os n s) = accepting s \<and>
    ls_ever_written (thread_steps os n s) = ls_ever_written s"
proof -
  show "sink_ahead os (thread_steps os n s) = sink_ahead os s"
    by (induction n) (simp_all add: thread_steps_def thread_step_ahead)
  show "same_sink s (thread_steps os n s) \<and> accepting (thread_steps os n s) = accepting s \<and>
    ls_ever_written (thread_steps os n s) = ls_ever_written s"
    by (induction n) (use thread_step_same same_sink_trans in \<open>auto simp: thread_steps_def\<close>)
qed

text \<open>Draining: as many turns as there are jobs leave the file the queue leads to.\<close>

lemma thread_steps_drain:
  assumes "ls_thread s = Some t"
  shows "\<exists>u. ls_thread (thread_steps os (length (wt_queue t)) s) = Some u \<and> wt_queue u = []"
proof -
  have "\<exists>u. ls_thread (thread_steps os n s) = Some u \<and> length (wt_queue u) = length (wt_queue t) - n" if "n \<le> length (wt_queue t)" for n
    using that
  proof (induction n)
    case 0
    then show ?case using assms by (simp add: thread_steps_def)
  next
    case (Suc n)
    then obtain u where u: "ls_thread (thread_steps os n s) = Some u" "length (wt_queue u) = length (wt_queue t) - n" by auto
    then obtain job rest where q: "wt_queue u = job # rest" using Suc.prems by (cases "wt_queue u") auto
    have "thread_steps os (Suc n) s = thread_step os (thread_steps os n s)" by (simp add: thread_steps_def)
    then show ?case using u q Suc.prems by (auto simp: thread_step_def split: prod.split)
  qed
  from this [of "length (wt_queue t)"] show ?thesis by simp
qed

text \<open>A job does to the file what it says, and fails only where the operating system does.\<close>

definition job_puts :: "nat \<Rightarrow> bytes \<Rightarrow> write_job \<Rightarrow> bool" where
  "job_puts off data job \<longleftrightarrow> job = DataJob (int off) data \<or> (\<exists>n. job = GapJob (int off) n \<and> data = replicate n 0)"

lemma run_job_spec:
  assumes "job_puts off data job" and "off + length data \<le> length f"
  shows "attains (run_job os job) (f, k) (\<lambda>_. \<not> steady os) (\<lambda>_ s. fst s = pslice_assign off (off + length data) data f)"
  using assms pwrite_spec [OF refl, of off data f] write_zeros_spec [OF refl, of off _ f] by (auto simp: job_puts_def)

lemma submit_spec:
  assumes "submit os job s = (r, s')" and "accepting s"
  shows "same_sink s s' \<and> accepting s' \<and> (job_puts off data job \<longrightarrow>
    lands off data (map_option fst (sink_ahead os s)) r (map_option fst (sink_ahead os s')) \<and>
    (steady os \<and> sink_ahead os s \<noteq> None \<and> off + length data \<le> length (fst (the (sink_ahead os s))) \<longrightarrow> sink_ahead os s' \<noteq> None))"
proof -
  define s0 where "s0 = thread_steps os (os_sched os (ls_ticks s)) (s\<lparr>ls_ticks := Suc (ls_ticks s)\<rparr>)"
  have tick: "same_sink s (s\<lparr>ls_ticks := Suc (ls_ticks s)\<rparr>)" "sink_ahead os (s\<lparr>ls_ticks := Suc (ls_ticks s)\<rparr>) = sink_ahead os s"
    "accepting (s\<lparr>ls_ticks := Suc (ls_ticks s)\<rparr>) = accepting s"
    by (simp_all add: same_sink_def accepting_def)
  have s0: "same_sink s s0" "sink_ahead os s0 = sink_ahead os s" "accepting s0" "ls_ever_written s0 = ls_ever_written s"
    using thread_steps_same [of "s\<lparr>ls_ticks := Suc (ls_ticks s)\<rparr>" os] thread_steps_ahead tick assms(2) same_sink_trans [OF tick(1)]
    unfolding s0_def by auto
  obtain t where t: "ls_thread s0 = Some t" "\<not> wt_closing t" using s0(3) by (auto simp: accepting_def split: option.splits)
  have sub: "submit os job s = (case wt_error t of Some e \<Rightarrow> (Inl e, s0)
      | None \<Rightarrow> let s = (if length (wt_queue t) < WRITER_QUEUE_SIZE then s0 else thread_step os s0) in
               (Inr (), s\<lparr>ls_thread := map_option (\<lambda>t. t\<lparr>wt_queue := wt_queue t @ [job]\<rparr>) (ls_thread s)\<rparr>))"
    using t by (simp add: submit_def s0_def [symmetric])
  show ?thesis
  proof (cases "wt_error t")
    case (Some e)
    then have "sink_ahead os s0 = None" using t by (auto simp: sink_ahead_def split: option.split)
    moreover have "r = Inl e" "s' = s0" using sub Some assms(1) by simp_all
    ultimately show ?thesis using s0 by (simp add: lands_def)
  next
    case None
    define s1 where "s1 = (if length (wt_queue t) < WRITER_QUEUE_SIZE then s0 else thread_step os s0)"
    have s1: "same_sink s s1" "sink_ahead os s1 = sink_ahead os s" "accepting s1" "ls_ever_written s1 = ls_ever_written s"
      using s0 thread_step_same [of s0 os] thread_step_ahead [of os s0] same_sink_trans [OF s0(1)] by (auto simp: s1_def)
    obtain u where u: "ls_thread s1 = Some u" "\<not> wt_closing u" using s1(3) by (auto simp: accepting_def split: option.splits)
    have r: "r = Inr ()" and s': "s' = s1\<lparr>ls_thread := Some (u\<lparr>wt_queue := wt_queue u @ [job]\<rparr>)\<rparr>"
      using sub None assms(1) u by (simp_all add: s1_def [symmetric] Let_def)
    have same: "same_sink s s'" "accepting s'"
      using s1 u same_sink_trans [OF s1(1), of s'] by (simp_all add: s' same_sink_def accepting_def)
    have push: "sink_ahead os s' = (case sink_ahead os s of None \<Rightarrow> None
        | Some w \<Rightarrow> (case run_job os job w of (Inr _, v) \<Rightarrow> Some v | (Inl _, _) \<Rightarrow> None))"
      unfolding s1(2) [symmetric] using u
      by (auto simp: s' sink_ahead_def op_each_append op_bind_def split: option.split prod.split sum.split)
    show ?thesis
    proof (cases "sink_ahead os s")
      case None
      then show ?thesis using same push r by (simp add: lands_def)
    next
      case (Some w)
      obtain f k where w: "w = (f, k)" by (cases w)
      show ?thesis
      proof (cases "off + length data \<le> length f")
        case False
        then show ?thesis using same r Some w by (simp add: lands_def)
      next
        case True
        have "attains (run_job os job) (f, k) (\<lambda>_. \<not> steady os) (\<lambda>_ s. fst s = pslice_assign off (off + length data) data f)"
          if "job_puts off data job" using that True by (rule run_job_spec)
        then show ?thesis
          using same push r Some w by (auto simp: lands_def attains_def split: prod.splits sum.splits)
      qed
    qed
  qed
qed

lemma sink_write_spec:
  assumes "sink_write os job s = (r, s')" and "job_puts off data job"
  shows "lands off data (sink_held os s) r (sink_held os s')"
    and "sink_ready os s \<Longrightarrow> sink_held os s = Some f \<Longrightarrow> off + length data \<le> length f \<Longrightarrow> sink_ready os s'"
proof -
  let ?w = "s\<lparr>ls_ever_written := True\<rparr>"
  have w: "sink_ahead os ?w = sink_ahead os s" "accepting ?w = accepting s"
    by (simp_all add: accepting_def)
  have "lands off data (sink_held os s) r (sink_held os s') \<and>
    (sink_ready os s \<and> sink_held os s = Some f \<and> off + length data \<le> length f \<longrightarrow> sink_ready os s')"
  proof (cases "accepting s")
    case False
    then have "r = Inl PyRuntimeError \<and> s' = s" using assms(1) by (simp add: sink_write_def)
    then show ?thesis using False by (auto simp: lands_def sink_held_def)
  next
    case True
    then have "submit os job ?w = (r, s')" using assms(1) by (simp add: sink_write_def)
    from submit_spec [OF this, of off data] show ?thesis using True w assms(2)
      by (auto simp: sink_held_def sink_ready_def)
  qed
  then show "lands off data (sink_held os s) r (sink_held os s')"
    and "sink_ready os s \<Longrightarrow> sink_held os s = Some f \<Longrightarrow> off + length data \<le> length f \<Longrightarrow> sink_ready os s'" by blast+
qed

text \<open>A sink that is open, with its file in place.\<close>

definition sink_live :: "local_sink \<Rightarrow> bool" where
  "sink_live s \<longleftrightarrow> accepting s \<and> ls_files s (ls_path s) \<noteq> None"

lemma sink_write_same:
  assumes "sink_write os job s = (r, s')"
  shows "same_sink s s' \<and> accepting s' = accepting s"
proof (cases "accepting s")
  case True
  let ?w = "s\<lparr>ls_ever_written := True\<rparr>"
  have same: "same_sink s ?w" "accepting ?w" using True by (simp_all add: same_sink_def accepting_def)
  have "submit os job ?w = (r, s')" using assms True by (simp add: sink_write_def)
  from submit_spec [OF this same(2)] show ?thesis using True same_sink_trans [OF same(1)] by blast
qed (use assms in \<open>simp add: sink_write_def\<close>)

text \<open>What a write to an open sink never changes.\<close>

definition sink_keeps :: "local_sink \<Rightarrow> local_sink \<Rightarrow> bool" where
  "sink_keeps s t \<longleftrightarrow> same_sink s t \<and> sink_live t"

lemma sink_write_keeps:
  assumes "sink_keeps s t"
  shows "sink_keeps s (snd (sink_write os job t))"
proof -
  obtain r u where w: "sink_write os job t = (r, u)" by (cases "sink_write os job t")
  have t: "same_sink s t" "sink_live t" using assms by (simp_all add: sink_keeps_def)
  note same = sink_write_same [OF w]
  have "sink_live u" using same t(2) same_sink_path [OF conjunct1 [OF same]] by (auto simp: sink_live_def same_sink_def)
  then show ?thesis using same_sink_trans [OF t(1)] same w by (simp add: sink_keeps_def)
qed

interpretation local_file: export_writer "local_writer os" "sink_held os" "sink_ready os" "sink_keeps s" for os s
proof
  fix off w r w' and data :: bytes
  assume "wr_write_at (local_writer os) (int off) data w = (r, w')"
  then show "lands off data (sink_held os w) r (sink_held os w')"
    by (intro sink_write_spec(1) [of os "DataJob (int off) data"]) (simp_all add: local_writer_def local_write_at_def job_puts_def)
next
  fix off n w r w'
  assume "wr_write_zero (local_writer os) (int off) n w = (r, w')"
  then show "lands off (replicate n 0) (sink_held os w) r (sink_held os w')"
    by (intro sink_write_spec(1) [of os "GapJob (int off) n"]) (simp_all add: local_writer_def local_write_zero_def job_puts_def)
next
  fix w f off and data :: bytes
  assume "sink_ready os w" "sink_held os w = Some f" "off + length data \<le> length f"
  then show "sink_ready os (snd (wr_write_at (local_writer os) (int off) data w))"
    using sink_write_spec(2) [of os "DataJob (int off) data" w _ _ off data f]
    by (simp add: local_writer_def local_write_at_def job_puts_def prod_eq_iff)
next
  fix w f off n
  assume "sink_ready os w" "sink_held os w = Some f" "off + n \<le> length f"
  then show "sink_ready os (snd (wr_write_zero (local_writer os) (int off) n w))"
    using sink_write_spec(2) [of os "GapJob (int off) n" w _ _ off "replicate n 0" f]
    by (simp add: local_writer_def local_write_zero_def job_puts_def prod_eq_iff)
next
  fix w
  assume "sink_ready os w"
  then show "sink_held os w \<noteq> None" by (simp add: sink_ready_def)
next
  fix w i and data :: bytes
  assume "sink_keeps s w"
  then show "sink_keeps s (snd (wr_write_at (local_writer os) i data w))"
    by (simp add: local_writer_def local_write_at_def sink_write_keeps)
next
  fix w i n
  assume "sink_keeps s w"
  then show "sink_keeps s (snd (wr_write_zero (local_writer os) i n w))"
    by (simp add: local_writer_def local_write_zero_def sink_write_keeps)
qed

subsection \<open>Opening, committing and aborting\<close>

lemma sink_open_ok:
  assumes "sink_open os n sparse s = (Inr (), s')"
  shows "sink_held os s' = Some (replicate n 0)" and "sink_live s'" and "ls_dst s' = ls_dst s" and "ls_staged s' = ls_staged s"
    and "\<forall>p. p \<noteq> ls_path s \<longrightarrow> ls_files s' p = ls_files s p" and "ls_committed s' = ls_committed s" and "ls_keep_partial s' = ls_keep_partial s"
proof -
  obtain s1 where s1: "create_sink os n sparse (s\<lparr>ls_opening := True\<rparr>) = (Inr (), s1)"
    "s' = s1\<lparr>ls_thread := Some \<lparr>wt_queue = [], wt_error = None, wt_closing = False\<rparr>\<rparr>"
    using assms by (auto simp: sink_open_def op_bind_def split: prod.splits sum.splits)
  have c: "ls_files s1 = (ls_files s)(ls_path s \<mapsto> replicate n 0)" "ls_dst s1 = ls_dst s" "ls_staged s1 = ls_staged s"
    "ls_committed s1 = ls_committed s" "ls_keep_partial s1 = ls_keep_partial s"
    using s1(1) by (auto simp: create_sink_def create_presized_def op_bind_def ls_path_def Let_def split: prod.splits sum.splits if_splits)
  have p: "ls_path s' = ls_path s" using c s1(2) by (simp add: ls_path_def)
  show "sink_held os s' = Some (replicate n 0)" "sink_live s'"
    using c(1) p s1(2) by (simp_all add: sink_held_def sink_ahead_def accepting_def sink_live_def)
  show "ls_dst s' = ls_dst s" "ls_staged s' = ls_staged s" "\<forall>p. p \<noteq> ls_path s \<longrightarrow> ls_files s' p = ls_files s p"
    "ls_committed s' = ls_committed s" "ls_keep_partial s' = ls_keep_partial s"
    using c s1(2) by simp_all
qed

lemma sink_open_failed:
  assumes "sink_open os n sparse s = (Inl e, s')"
  shows "ls_dst s' = ls_dst s" and "ls_staged s' = ls_staged s" and "\<forall>p. p \<noteq> ls_path s \<longrightarrow> ls_files s' p = ls_files s p"
    and "ls_committed s' = ls_committed s"
  using assms
  by (auto simp: sink_open_def create_sink_def create_presized_def op_bind_def ls_path_def Let_def split: prod.splits sum.splits if_splits)

lemma close_writer_spec:
  assumes "close_writer os s = (e, s')"
  shows "same_sink s s'" and "sink_live s \<Longrightarrow>
    (case e of Some _ \<Rightarrow> sink_held os s = None | None \<Rightarrow> sink_held os s = ls_files s' (ls_path s))"
    and "ls_ever_written s' = ls_ever_written s"
proof -
  have "same_sink s s' \<and> (sink_live s \<longrightarrow>
    (case e of Some _ \<Rightarrow> sink_held os s = None | None \<Rightarrow> sink_held os s = ls_files s' (ls_path s))) \<and> ls_ever_written s' = ls_ever_written s"
  proof (cases "ls_thread s")
    case None
    then show ?thesis using assms by (simp add: close_writer_def sink_live_def accepting_def)
  next
    case (Some t)
    let ?c = "s\<lparr>ls_thread := Some (t\<lparr>wt_closing := True\<rparr>)\<rparr>"
    define d where "d = thread_steps os (length (wt_queue t)) ?c"
    have c: "same_sink s ?c" "sink_ahead os ?c = sink_ahead os s"
      using Some by (cases "ls_files s (ls_path s)"; simp add: same_sink_def sink_ahead_def)+
    have d: "same_sink s d" "sink_ahead os d = sink_ahead os s" "ls_ever_written d = ls_ever_written s"
      using thread_steps_same [of ?c os] thread_steps_ahead [of os _ ?c] c same_sink_trans [OF c(1)] unfolding d_def by auto
    obtain u where u: "ls_thread d = Some u" "wt_queue u = []"
      using thread_steps_drain [of ?c "t\<lparr>wt_closing := True\<rparr>" os] unfolding d_def by auto
    have r: "e = wt_error u" "s' = d" using assms Some u by (simp_all add: close_writer_def d_def [symmetric])
    have "sink_ahead os d = (case ls_files d (ls_path d) of None \<Rightarrow> None | Some f \<Rightarrow> if wt_error u \<noteq> None then None else Some (f, ls_calls d))"
      using u by (simp add: sink_ahead_def split: option.split)
    then show ?thesis using d r same_sink_path [OF d(1)]
      by (auto simp: sink_live_def sink_held_def same_sink_def split: option.splits)
  qed
  then show "same_sink s s'" and "sink_live s \<Longrightarrow>
    (case e of Some _ \<Rightarrow> sink_held os s = None | None \<Rightarrow> sink_held os s = ls_files s' (ls_path s))"
    and "ls_ever_written s' = ls_ever_written s" by blast+
qed

lemma sink_commit_ok:
  assumes "sink_commit os s = (Inr (), s')" and "sink_live s"
  shows "sink_held os s \<noteq> None" and "ls_files s' (ls_dst s) = sink_held os s"
    and "\<forall>p. p \<noteq> ls_path s \<and> p \<noteq> ls_dst s \<longrightarrow> ls_files s' p = ls_files s p"
proof -
  obtain e d where d: "close_writer os s = (e, d)" by (cases "close_writer os s")
  note c = close_writer_spec [OF d]
  have e: "e = None" using assms(1) d by (cases e) (auto simp: sink_commit_def)
  have h: "sink_held os s = ls_files d (ls_path s)" using c(2) [OF assms(2)] e by simp
  have some: "ls_files d (ls_path s) \<noteq> None" using c(1) assms(2) by (simp add: same_sink_def sink_live_def)
  have p: "ls_path d = ls_path s" "ls_staged d = ls_staged s" "ls_dst d = ls_dst s"
    using c(1) same_sink_path [OF c(1)] by (simp_all add: same_sink_def)
  have "ls_files s' (ls_dst s) = sink_held os s \<and> (\<forall>p. p \<noteq> ls_path s \<and> p \<noteq> ls_dst s \<longrightarrow> ls_files s' p = ls_files s p)"
    using assms(1) d e h some p c(1)
    by (auto simp: sink_commit_def same_sink_def ls_path_def split: if_splits option.splits sum.splits)
  then show "sink_held os s \<noteq> None" and "ls_files s' (ls_dst s) = sink_held os s"
    and "\<forall>p. p \<noteq> ls_path s \<and> p \<noteq> ls_dst s \<longrightarrow> ls_files s' p = ls_files s p"
    using h some by simp_all
qed

text \<open>Nothing but a commit that goes through changes the destination of a staged export.\<close>

lemma part_path_differs: "ls_staged s \<Longrightarrow> ls_path s \<noteq> ls_dst s"
  by (simp add: ls_path_def part_path_for_def)

lemma sink_commit_failed:
  assumes "sink_commit os s = (Inl e, s')" and "ls_staged s"
  shows "same_sink s s'"
  using assms close_writer_spec(1) [of os s] by (auto simp: sink_commit_def split: prod.splits option.splits if_splits sum.splits)

lemma discard_files:
  "ls_files (snd (discard_unless_kept s)) =
    (if ls_created s \<and> \<not> ao_kept (fst (discard_unless_kept s)) then (ls_files s)(ls_path s := None) else ls_files s)"
  "ls_created s \<Longrightarrow> ao_kept (fst (discard_unless_kept s)) =
    (ls_committed s \<or> ls_ever_written s \<and> (ls_keep_partial s \<or> \<not> ls_staged s))"
  by (auto simp: discard_unless_kept_def Let_def)

lemma sink_abort_staged:
  assumes "ls_staged s"
  shows "ls_files (snd (sink_abort os s)) (ls_dst s) = ls_files s (ls_dst s)"
proof -
  obtain e d where d: "close_writer os s = (e, d)" by (cases "close_writer os s")
  note c = close_writer_spec(1) [OF d]
  have "ls_dst s \<noteq> ls_path s" using part_path_differs [OF assms] by simp
  then show ?thesis using d c same_sink_path [OF c] by (simp add: sink_abort_def discard_files same_sink_def)
qed

lemma sink_abort_kept:
  assumes "ls_opening s" and "ls_created s" and "\<not> ls_committed s"
  shows "ao_kept (fst (sink_abort os s)) \<longleftrightarrow> ls_ever_written s \<and> (ls_keep_partial s \<or> \<not> ls_staged s)"
    and "\<not> ao_kept (fst (sink_abort os s)) \<Longrightarrow> ls_files (snd (sink_abort os s)) (ls_path s) = None"
proof -
  obtain e d where d: "close_writer os s = (e, d)" by (cases "close_writer os s")
  note c = close_writer_spec(1,3) [OF d]
  show "ao_kept (fst (sink_abort os s)) \<longleftrightarrow> ls_ever_written s \<and> (ls_keep_partial s \<or> \<not> ls_staged s)"
    "\<not> ao_kept (fst (sink_abort os s)) \<Longrightarrow> ls_files (snd (sink_abort os s)) (ls_path s) = None"
    using assms d c same_sink_path [OF c(1)] by (simp_all add: sink_abort_def discard_files same_sink_def)
qed

subsection \<open>Properties\<close>

text \<open>What a job does to a file it fits in.\<close>

fun job_put :: "write_job \<Rightarrow> bytes \<Rightarrow> bytes" where
  "job_put (DataJob off data) f = pslice_assign (nat off) (nat off + length data) data f"
| "job_put (GapJob off n) f = pslice_assign (nat off) (nat off + n) (replicate n 0) f"

fun job_fits :: "nat \<Rightarrow> write_job \<Rightarrow> bool" where
  "job_fits n (DataJob off data) = (0 \<le> off \<and> nat off + length data \<le> n)"
| "job_fits n (GapJob off k) = (0 \<le> off \<and> nat off + k \<le> n)"

lemma job_fits_puts:
  assumes "job_fits n job"
  obtains off data where "job_puts off data job" "off + length data \<le> n"
    "\<And>f. job_put job f = pslice_assign off (off + length data) data f"
proof (cases job)
  case (DataJob off data)
  then show thesis using assms that [of "nat off" data] by (simp add: job_puts_def)
next
  case (GapJob off k)
  then show thesis using assms that [of "nat off" "replicate k 0"] by (simp add: job_puts_def)
qed

text \<open>Writing a list of jobs: the sink stays live, and holds either what they make of the file or nothing.\<close>

definition sink_wrote :: "os \<Rightarrow> local_sink \<Rightarrow> bytes \<Rightarrow> local_sink \<Rightarrow> bool" where
  "sink_wrote os s f t \<longleftrightarrow> same_sink s t \<and> sink_live t \<and> (sink_held os t = None \<and> \<not> steady os \<or> sink_held os t = Some f)"

lemma sink_writes_ok:
  assumes "sink_live s" and "sink_held os s = Some f0" and "length f0 = n" and fits: "\<forall>job \<in> set jobs. job_fits n job"
  shows "attains (op_each (sink_write os) jobs) s (\<lambda>t. same_sink s t \<and> sink_live t \<and> \<not> steady os)
    (\<lambda>_. sink_wrote os s (fold job_put jobs f0))"
proof (rule attains_each)
  show "sink_wrote os s (fold job_put [] f0) s" using assms by (simp add: sink_wrote_def)
next
  fix ys y zs t
  assume jobs: "jobs = ys @ y # zs" and t: "sink_wrote os s (fold job_put ys f0) t"
  obtain off data where j: "job_puts off data y" "off + length data \<le> n" "\<And>f. job_put y f = pslice_assign off (off + length data) data f"
    using job_fits_puts fits jobs by (metis in_set_conv_decomp)
  have len: "length (fold job_put ys f0) = n"
  proof -
    have "\<forall>job \<in> set ys. job_fits n job" using fits jobs by simp
    then show ?thesis using assms(3)
    proof (induction ys arbitrary: f0)
      case (Cons y ys)
      obtain off data where "off + length data \<le> n" "\<And>f. job_put y f = pslice_assign off (off + length data) data f"
        using job_fits_puts Cons.prems(1) by (metis list.set_intros(1))
      then show ?case using Cons by simp
    qed simp
  qed
  obtain r u where w: "sink_write os y t = (r, u)" by (cases "sink_write os y t")
  note same = sink_write_same [OF w]
  note lands = sink_write_spec [OF w j(1)]
  have live: "sink_live u" using same t by (auto simp: sink_wrote_def sink_live_def same_sink_def ls_path_def split: if_splits)
  have s: "same_sink s u" using t same same_sink_trans by (auto simp: sink_wrote_def)
  have ready: "sink_held os u \<noteq> None" if "steady os"
    using lands(2) [of "fold job_put ys f0"] t that j(2) len by (auto simp: sink_wrote_def sink_ready_def)
  have held: "sink_held os u = None \<or> sink_held os u = Some (fold job_put (ys @ [y]) f0)"
    using lands(1) t j(2,3) len by (auto simp: sink_wrote_def lands_def)
  show "attains (sink_write os y) t (\<lambda>t. same_sink s t \<and> sink_live t \<and> \<not> steady os) (\<lambda>_. sink_wrote os s (fold job_put (ys @ [y]) f0))"
  proof (cases r)
    case (Inl e)
    then have "sink_held os u = None"
      using lands(1) t j(2) len by (cases "sink_held os t") (auto simp: sink_wrote_def lands_def)
    then show ?thesis using w Inl s live ready by (auto simp: attains_def)
  next
    case (Inr x)
    then show ?thesis using w s live held ready by (auto simp: attains_def sink_wrote_def)
  qed
qed

text \<open>An operating system whose calls all succeed.\<close>

definition obliging :: "os \<Rightarrow> bool" where
  "obliging os \<longleftrightarrow> steady os \<and> os_mkdir os = Inr () \<and> os_create os = Inr () \<and> os_truncate os = Inr () \<and> os_open os = Inr () \<and>
     os_rename os = Inr () \<and> os_fallocate os \<noteq> Some (Inl False)"

lemma sink_open_obliging:
  assumes "obliging os"
  shows "\<exists>s'. sink_open os n sparse s = (Inr (), s')"
  using assms by (cases "os_fallocate os"; cases "the (os_fallocate os)")
    (auto simp: obliging_def sink_open_def create_sink_def create_presized_def preallocate_def op_bind_def split: if_splits)

lemma sink_commit_obliging:
  assumes "obliging os" and "sink_live s" and "sink_held os s \<noteq> None"
  shows "\<exists>s'. sink_commit os s = (Inr (), s')"
proof -
  obtain e d where d: "close_writer os s = (e, d)" by (cases "close_writer os s")
  note c = close_writer_spec(1,2) [OF d]
  have "e = None" "ls_files d (ls_path d) \<noteq> None"
    using c(2) [OF assms(2)] assms(3) same_sink_path [OF c(1)] by (auto split: option.splits)
  then show ?thesis using d assms(1) by (auto simp: sink_commit_def obliging_def split: option.split)
qed

text \<open>\<open>abort\<close> as a closer, its outcome dropped.\<close>

definition abort_closer :: "os \<Rightarrow> (local_sink, unit) op" where
  "abort_closer os s = (Inr (), snd (sink_abort os s))"

lemma local_export_lifecycle:
  assumes live: "\<And>t. sink_live t \<Longrightarrow> sink_held os t = Some (replicate n 0) \<Longrightarrow> ls_staged t = ls_staged s \<Longrightarrow> ls_dst t = ls_dst s \<Longrightarrow>
      attains body t (\<lambda>u. same_sink t u \<and> sink_live u \<and> (fine \<longrightarrow> \<not> steady os)) (\<lambda>x. sink_wrote os t (out x))"
  shows "case run_sink_export (sink_open os n sparse) body (sink_commit os) (abort_closer os) s of
      (Inr x, s') \<Rightarrow> ls_files s' (ls_dst s) = Some (out x) \<and> (\<forall>p. p \<noteq> ls_path s \<and> p \<noteq> ls_dst s \<longrightarrow> ls_files s' p = ls_files s p)
    | (Inl e, s') \<Rightarrow> \<not> (fine \<and> obliging os) \<and> (ls_staged s \<longrightarrow> ls_files s' (ls_dst s) = ls_files s (ls_dst s))"
proof -
  have failed: "ls_staged s \<longrightarrow> ls_files (close_preserving [abort_closer os] t) (ls_dst s) = ls_files s (ls_dst s)"
    if "ls_dst t = ls_dst s" "ls_staged t = ls_staged s" "ls_staged s \<longrightarrow> ls_files t (ls_dst s) = ls_files s (ls_dst s)" for t
    using that sink_abort_staged [of t os] by (simp add: abort_closer_def)
  obtain r1 s1 where o: "sink_open os n sparse s = (r1, s1)" by (cases "sink_open os n sparse s")
  show ?thesis
  proof (cases r1)
    case (Inl e)
    note f = sink_open_failed [OF o [unfolded Inl]]
    have "ls_staged s \<longrightarrow> ls_files (close_preserving [abort_closer os] s1) (ls_dst s) = ls_files s (ls_dst s)"
      using f part_path_differs [of s] by (intro failed) auto
    then show ?thesis using o Inl sink_open_obliging [of os n sparse s] by (auto simp: run_sink_export_def op_bind_def)
  next
    case (Inr u1)
    note k = sink_open_ok [OF o [unfolded Inr, simplified]]
    have dst: "ls_staged s \<longrightarrow> ls_files s1 (ls_dst s) = ls_files s (ls_dst s)" using k(5) part_path_differs [of s] by auto
    have path: "ls_path s1 = ls_path s" using k(3,4) by (simp add: ls_path_def)
    obtain r2 s2 where b: "body s1 = (r2, s2)" by (cases "body s1")
    have body: "attains body s1 (\<lambda>u. same_sink s1 u \<and> sink_live u \<and> (fine \<longrightarrow> \<not> steady os)) (\<lambda>x. sink_wrote os s1 (out x))"
      using k by (intro live) simp_all
    then have same: "same_sink s1 s2" "sink_live s2" using b by (auto simp: attains_def sink_wrote_def split: sum.splits)
    have two: "ls_dst s2 = ls_dst s" "ls_staged s2 = ls_staged s" "ls_staged s \<longrightarrow> ls_files s2 (ls_dst s) = ls_files s (ls_dst s)"
      "ls_path s2 = ls_path s"
      using same(1) k dst part_path_differs [of s] path same_sink_path [OF same(1)] by (auto simp: same_sink_def)
    show ?thesis
    proof (cases r2)
      case (Inl e)
      then have "\<not> (fine \<and> obliging os)" using body b by (auto simp: attains_def obliging_def)
      then show ?thesis using o \<open>r1 = Inr u1\<close> b Inl failed [OF two(1-3)] by (simp add: run_sink_export_def op_bind_def)
    next
      case (Inr x)
      then have wrote: "sink_wrote os s1 (out x) s2" using body b by (simp add: attains_def)
      obtain r3 s3 where c: "sink_commit os s2 = (r3, s3)" by (cases "sink_commit os s2")
      show ?thesis
      proof (cases r3)
        case (Inl e)
        have "\<not> obliging os"
          using sink_commit_obliging [of os s2] wrote c Inl by (auto simp: sink_wrote_def obliging_def)
        moreover have "same_sink s2 s3" if "ls_staged s" using sink_commit_failed [OF c [unfolded Inl]] two(2) that by simp
        then have "ls_staged s \<longrightarrow> ls_files (close_preserving [abort_closer os] s3) (ls_dst s) = ls_files s (ls_dst s)"
          using two part_path_differs [of s] failed [of s3] by (auto simp: same_sink_def)
        ultimately show ?thesis using o \<open>r1 = Inr u1\<close> b \<open>r2 = Inr x\<close> c Inl by (simp add: run_sink_export_def op_bind_def)
      next
        case (Inr u3)
        note cm = sink_commit_ok [OF c [unfolded Inr, simplified] same(2)]
        have "ls_files s3 (ls_dst s) = Some (out x)" using cm(1,2) wrote two(1) by (auto simp: sink_wrote_def)
        moreover have "ls_files s3 p = ls_files s p" if "p \<noteq> ls_path s" "p \<noteq> ls_dst s" for p
          using that cm(3) two same(1) k(5) path by (simp add: same_sink_def)
        ultimately show ?thesis using o \<open>r1 = Inr u1\<close> b \<open>r2 = Inr x\<close> c Inr by (simp add: run_sink_export_def op_bind_def)
      qed
    qed
  qed
qed

text \<open>C15.
  A local-file export is all or nothing. Whatever the writer thread's progress between calls,
  however short the operating system's writes and wherever one fails: if \<open>open\<close>, the writes and
  \<open>commit\<close> return, the destination holds exactly the zero-filled file with every write handed
  over applied in order, and no other path but the staging file changed; if any of them raises,
  \<open>abort\<close> leaves a staged export's destination as it was. When no system call fails the export
  returns.
\<close>

theorem local_export_all_or_nothing:
  assumes "\<forall>job \<in> set jobs. job_fits n job"
  shows "case run_sink_export (sink_open os n sparse) (op_each (sink_write os) jobs) (sink_commit os) (abort_closer os) s of
      (Inr _, s') \<Rightarrow> ls_files s' (ls_dst s) = Some (fold job_put jobs (replicate n 0)) \<and>
        (\<forall>p. p \<noteq> ls_path s \<and> p \<noteq> ls_dst s \<longrightarrow> ls_files s' p = ls_files s p)
    | (Inl e, s') \<Rightarrow> \<not> obliging os \<and> (ls_staged s \<longrightarrow> ls_files s' (ls_dst s) = ls_files s (ls_dst s))"
  by (rule local_export_lifecycle [where fine = True, unfolded simp_thms]) (use assms in \<open>auto intro!: sink_writes_ok\<close>)

text \<open>
  A destination that takes three bytes at a time, a thread that lags one job behind, and two
  writes out of order; and the same with a disk that is full at the second call.
\<close>

definition slow_os :: "nat res \<Rightarrow> os" where
  "slow_os second =
     \<lparr>os_write = (\<lambda>k. if k = 1 then second else Inr 3), os_mkdir = Inr (), os_create = Inr (), os_truncate = Inr (), os_open = Inr (),
      os_fallocate = None, os_rename = Inr (), os_sched = (\<lambda>k. k)\<rparr>"

definition slow_export :: "nat res \<Rightarrow> unit res \<times> local_sink" where
  "slow_export second =
     run_sink_export (sink_open (slow_os second) 10 True) (op_each (sink_write (slow_os second)) [DataJob 6 [1, 2, 3, 4], DataJob 0 [5, 6, 7, 8]])
       (sink_commit (slow_os second)) (abort_closer (slow_os second)) (local_sink_init ''disk'' True False [''disk'' \<mapsto> [9]])"

lemma slow_export_runs:
  "fst (slow_export (Inr 3)) = Inr ()" "fst (slow_export (Inl PyOSError)) = Inl PyOSError"
  by code_simp+

lemma local_export_all_or_nothing_witness:
  "ls_files (snd (slow_export (Inr 3))) ''disk'' = Some [5, 6, 7, 8, 0, 0, 1, 2, 3, 4] \<and>
   ls_files (snd (slow_export (Inl PyOSError))) ''disk'' = Some [9]"
proof -
  let ?jobs = "[DataJob 6 [1, 2, 3, 4], DataJob 0 [5, 6, 7, 8]]" and ?s = "local_sink_init ''disk'' True False [''disk'' \<mapsto> [9]]"
  have fits: "\<forall>job \<in> set ?jobs. job_fits 10 job" by simp
  have s: "ls_dst ?s = ''disk''" "ls_staged ?s" "ls_files ?s ''disk'' = Some [9]" by (simp_all add: local_sink_init_def)
  have out: "fold job_put ?jobs (replicate 10 0) = [5, 6, 7, 8, 0, 0, 1, 2, 3, 4]" by code_simp
  obtain t where t: "slow_export (Inr 3) = (Inr (), t)" using slow_export_runs(1) by (cases "slow_export (Inr 3)") auto
  obtain u where u: "slow_export (Inl PyOSError) = (Inl PyOSError, u)"
    using slow_export_runs(2) by (cases "slow_export (Inl PyOSError)") auto
  have "ls_files t ''disk'' = Some [5, 6, 7, 8, 0, 0, 1, 2, 3, 4]"
    using local_export_all_or_nothing [OF fits, where os = "slow_os (Inr 3)" and sparse = True and s = ?s]
    unfolding t [unfolded slow_export_def] s(1) out by simp
  moreover have "ls_files u ''disk'' = Some [9]"
    using local_export_all_or_nothing [OF fits, where os = "slow_os (Inl PyOSError)" and sparse = True and s = ?s] s
    unfolding u [unfolded slow_export_def] by simp
  ultimately show ?thesis using t u by simp
qed

end
