(* ===== verification/Exporting.thy ===== *)
theory Exporting
  imports ExportWalk LocalSink
begin

text \<open>
  The export entry points: \<open>export_to_writer\<close> of \<open>sdk/dedup/export_scheduler.py\<close>,
  \<open>DedupContent.export_range\<close> of \<open>sdk/dedup/dedup_file.py\<close> and \<open>run_export\<close> of
  \<open>sdk/api/export.py\<close> into a local file. What reaches the destination is the content of the range.
\<close>

subsection \<open>Content and its window\<close>

text \<open>A \<open>DedupFile\<close>, or a \<open>ByteRangeView\<close> of its base file.\<close>

datatype dedup_content = WholeFile | RangeView nat nat

definition content_window :: "dedup_content \<Rightarrow> nat" where
  "content_window c = (case c of WholeFile \<Rightarrow> 0 | RangeView offset _ \<Rightarrow> offset)"

definition content_size :: "dedup_content \<Rightarrow> 's dedup_file \<Rightarrow> nat option" where
  "content_size c f = (case c of WholeFile \<Rightarrow> df_size f | RangeView _ len \<Rightarrow> Some len)"

definition export_window :: "dedup_content \<Rightarrow> 's dedup_file \<Rightarrow> (nat \<times> nat) res" where
  "export_window c f = (case content_size c f of None \<Rightarrow> Inl PyValueError | Some n \<Rightarrow> Inr (content_window c, n))"

definition validate_export_range :: "int \<Rightarrow> int \<Rightarrow> int \<Rightarrow> unit res" where
  "validate_export_range start stop size' = require (0 \<le> start \<and> start \<le> stop \<and> stop \<le> size') PyValueError"

definition require_chunk_aligned :: "int \<Rightarrow> unit res" where
  "require_chunk_aligned offset = require (offset mod int FIXED_CHUNK_LENGTH = 0) PyValueError"

definition planned_bytes :: "reader \<Rightarrow> crec res \<Rightarrow> dedup_content \<Rightarrow> nat \<Rightarrow> nat \<Rightarrow> ('s dedup_file, int) op" where
  "planned_bytes rd_at open_record c start stop f =
     (let ws = content_window c; (xs, f') = file_extents rd_at open_record (ws + start) (Some (ws + stop)) f in
      (count_planned_bytes xs (ws + start) (ws + stop), f'))"

subsection \<open>Exporting to a writer\<close>

text \<open>
  The base file with its pool, the export's reader cache, the destination and the counts the
  progress callback has received.
\<close>

record 'w export_state =
  xs_file :: "pool dedup_file"
  xs_readers :: "(bucket_key, bucket_reader) cache"
  xs_writer :: 'w
  xs_reports :: "nat list"

definition export_start :: "pool dedup_file \<Rightarrow> 'w export_state \<Rightarrow> 'w accounting exporting" where
  "export_start f s = \<lparr>ex_pool = df_pool f, ex_readers = xs_readers s,
     ex_out = \<lparr>ac_writer = xs_writer s, ac_bytes = 0, ac_reports = xs_reports s\<rparr>\<rparr>"

definition export_finish :: "pool dedup_file \<Rightarrow> 'w accounting exporting \<Rightarrow> 'w export_state" where
  "export_finish f e = \<lparr>xs_file = f\<lparr>df_pool := ex_pool e\<rparr>, xs_readers = ex_readers e,
     xs_writer = ac_writer (ex_out e), xs_reports = ac_reports (ex_out e)\<rparr>"

text \<open>\<open>None\<close> when planning does not end (a window size of 0).\<close>

definition export_to_writer ::
    "pool_config \<Rightarrow> reader \<Rightarrow> crec res \<Rightarrow> 'w writer \<Rightarrow> bool \<Rightarrow> bool \<Rightarrow> export_tuning \<Rightarrow> dedup_content \<Rightarrow> 'w export_state \<Rightarrow>
      (export_result res \<times> 'w export_state) option" where
  "export_to_writer cf rd_at open_record W sparse progress tuning c s =
     (case export_window c (xs_file s) of
        Inl e \<Rightarrow> Some (Inl e, s)
      | Inr (window_start, n) \<Rightarrow>
          (let (xs, f) =
             (case validate_window_start window_start window_start of
                Inl e \<Rightarrow> (([], None), xs_file s)
              | Inr _ \<Rightarrow> file_extents rd_at open_record window_start (Some (window_start + n)) (xs_file s)) in
           case walk_bucket_major cf W (needs_zero_fill W sparse (xs_writer s)) progress tuning xs window_start (window_start + n) of
             None \<Rightarrow> None
           | Some walk \<Rightarrow>
               let (r, e) = walk (export_start f s) in
               Some (bind_res r (\<lambda>(holes, zeros).
                  Inr \<lparr>er_bytes_written = ac_bytes (ex_out e), er_logical_size = n, er_holes = holes, er_zeros = zeros\<rparr>),
                 export_finish f e)))"

definition export_range ::
    "pool_config \<Rightarrow> reader \<Rightarrow> crec res \<Rightarrow> 'w writer \<Rightarrow> bool \<Rightarrow> bool \<Rightarrow> export_tuning \<Rightarrow> dedup_content \<Rightarrow> int \<Rightarrow> int \<Rightarrow>
      'w export_state \<Rightarrow> (export_result res \<times> 'w export_state) option" where
  "export_range cf rd_at open_record W sparse progress tuning c start stop s =
     (case bind_res (export_window c (xs_file s)) (\<lambda>(window_start, n).
        bind_res (validate_export_range start stop (int n)) (\<lambda>_.
        bind_res (require_chunk_aligned (int window_start + start)) (\<lambda>_.
          Inr (if start = 0 \<and> stop = int n then c else RangeView (nat (int window_start + start)) (nat (stop - start)))))) of
        Inl e \<Rightarrow> Some (Inl e, s)
      | Inr target \<Rightarrow> export_to_writer cf rd_at open_record W sparse progress tuning target s)"

subsection \<open>The range is exportable\<close>

lemma decodes_aligned:
  assumes "decodes arr es" and "e \<in> set es"
  shows "cm_file_offset e mod FIXED_CHUNK_LENGTH = 0"
proof -
  obtain i where "i < length es" "e = es ! i" using assms(2) by (auto simp: in_set_conv_nth)
  then have "parse_at arr (i * CHUNK_MAP_RECORD_LENGTH) = Inr e" using assms(1) by (simp add: decodes_def)
  then show ?thesis
    by (auto simp: parse_at_def bind_res_Inr_iff Let_def push_bit_eq_mult const_values FIXED_CHUNK_BIT_NUM_def split: if_splits)
qed

lemma window_exportable:
  assumes ord: "entries_ordered es" and al: "\<forall>e \<in> set es. cm_file_offset e mod FIXED_CHUNK_LENGTH = 0"
    and there: "chunks_there cf es start stop" and le: "start \<le> stop"
  shows "\<exists>xs. extents fsize (window_entries start (Some stop) es, None) start (Some stop) = (xs, None) \<and>
    exportable_range cf (content (chunk_bytes cf) es) start stop xs"
proof -
  let ?ws = "window_entries start (Some stop) es"
  have ends: "\<forall>e \<in> set ?ws. entry_length e \<noteq> 0 \<longrightarrow> start < entry_end e" using window_ends [OF ord] by blast
  obtain xs where xs: "extents fsize (?ws, None) start (Some stop) = (xs, None)" "ext_ordered xs" "\<forall>x \<in> set xs. ext_wf x"
    "\<forall>p. start \<le> p \<and> p < stop \<longrightarrow> (\<exists>x \<in> set xs. ext_covers p x \<and> ext_byte (chunk_bytes cf) x p = content (chunk_bytes cf) ?ws p)"
    using extents_spec [OF window_ordered [OF ord] ends, where end_opt = "Some stop" and fsize = fsize and stop = stop and pl = "chunk_bytes cf"]
    by auto
  have good: "\<forall>x \<in> set xs. chunk_source.ext_good (chunk_bytes cf) (chunk_avail cf) (content (chunk_bytes cf) es) start stop x"
  proof (cases "start < stop")
    case True
    from pool_source.extents_good [OF ord there [unfolded chunks_there_avail] True, of fsize] xs(1) show ?thesis by auto
  next
    case False
    then show ?thesis using xs(3) le by (auto simp: pool_source.ext_good_def pool_source.ext_avail_def)
  qed
  have "off mod FIXED_CHUNK_LENGTH = 0" if i: "x \<in> set xs" "x = DataExtent off len addr mnum rep" for x off len addr mnum rep
  proof -
    have "from_entry ?ws x" using extents_from [of fsize ?ws start "Some stop"] i(1) xs(1) by simp
    then obtain e where "e \<in> set ?ws" "cm_file_offset e = off" using i(2) unfolding from_entry_def by blast
    then show ?thesis using al window_subset [of start "Some stop" es] by auto
  qed
  then show ?thesis using xs good unfolding exportable_range_def by blast
qed
lemma export_start_simps [simp]:
  "ex_pool (export_start f s) = df_pool f" "ex_readers (export_start f s) = xs_readers s"
  "ex_out (export_start f s) = \<lparr>ac_writer = xs_writer s, ac_bytes = 0, ac_reports = xs_reports s\<rparr>"
  by (simp_all add: export_start_def)

text \<open>The state an export works in: a served file, and a reader cache that holds what was opened.\<close>

definition export_ok :: "pool_config \<Rightarrow> reader \<Rightarrow> crec res \<Rightarrow> bytes \<Rightarrow> chunk_map_entry list \<Rightarrow> 'w export_state \<Rightarrow> bool" where
  "export_ok cf rd_at open_record arr es s \<longleftrightarrow> served_file cf rd_at open_record arr es (xs_file s) \<and> readers_ok cf (xs_readers s)"

lemma served_file_entries:
  assumes "served_file cf rd_at open_record arr es f"
  shows "\<forall>e \<in> set es. cm_file_offset e mod FIXED_CHUNK_LENGTH = 0"
proof -
  have "\<exists>r. crec_ok rd_at arr es r" using assms by (auto simp: served_file_def split: option.splits)
  then show ?thesis using crec_okD(2) decodes_aligned by blast
qed

text \<open>What an export of \<open>len\<close> bytes reports and leaves behind.\<close>

definition totals_ok :: "nat \<Rightarrow> export_result \<Rightarrow> bool" where
  "totals_ok len x \<longleftrightarrow> er_logical_size x = len \<and> er_bytes_written x + er_holes x + er_zeros x = len"

context export_writer
begin

definition exported :: "bytes \<Rightarrow> 'w \<Rightarrow> export_result res \<Rightarrow> 'w \<Rightarrow> bool" where
  "exported out w r w' \<longleftrightarrow> keeps w' \<and>
     (case r of
        Inl e \<Rightarrow> \<not> ready w \<and> held w' = None
      | Inr x \<Rightarrow> (ready w \<longrightarrow> ready w') \<and> totals_ok (length out) x \<and> (\<forall>f. held w' = Some f \<longrightarrow> f = out))"

lemma export_to_writer_paints:
  assumes ok: "export_ok cf rd_at open_record arr es s" and ord: "entries_ordered es"
    and size: "content_size c (xs_file s) = Some n" and ws: "content_window c mod FIXED_CHUNK_LENGTH = 0"
    and there: "chunks_there cf es (content_window c) (content_window c + n)" and m: "0 < et_window_entries tuning"
    and held: "held (xs_writer s) = Some f0" "length f0 = n" and keep: "keeps (xs_writer s)"
    and zeros: "needs_zero_fill W sparse (xs_writer s) \<or> f0 = replicate n 0"
  shows "\<exists>r s'. export_to_writer cf rd_at open_record W sparse progress tuning c s = Some (r, s') \<and>
    export_ok cf rd_at open_record arr es s' \<and> df_size (xs_file s') = df_size (xs_file s) \<and>
    exported (map (content (chunk_bytes cf) es) [content_window c..<content_window c + n]) (xs_writer s) r (xs_writer s')"
proof -
  define a where "a = content_window c"
  let ?tgt = "content (chunk_bytes cf) es" and ?R = "ready (xs_writer s)"
  define wz where "wz = needs_zero_fill W sparse (xs_writer s)"
  have served: "served_file cf rd_at open_record arr es (xs_file s)" and readers: "readers_ok cf (xs_readers s)"
    using ok by (simp_all add: export_ok_def)
  obtain rec where rec: "file_extents rd_at open_record a (Some (a + n)) (xs_file s) =
      (extents (df_size (xs_file s)) (window_entries a (Some (a + n)) es, None) a (Some (a + n)), xs_file s\<lparr>df_record := Some rec\<rparr>)"
    "crec_ok rd_at arr es rec"
    using pool_source.file_extents_ok [OF served [unfolded served_file_ok] ord] by blast
  obtain xs where xs: "extents (df_size (xs_file s)) (window_entries a (Some (a + n)) es, None) a (Some (a + n)) = (xs, None)"
    "exportable_range cf ?tgt a (a + n) xs"
    using window_exportable [OF ord served_file_entries [OF served] there [folded a_def]] by auto
  let ?f = "xs_file s\<lparr>df_record := Some rec\<rparr>"
  let ?e = "export_start ?f s"
  have start: "acc.out_ok cf (\<lambda>j. ?tgt (a + j)) f0 ?R {} 0 ?e"
    using served readers held keep
    by (simp add: acc.out_ok_def exporting_ok_def acc.painting_def painted_start served_file_def)
  have len: "length f0 = a + n - a" using held(2) by simp
  obtain walk where walk: "walk_bucket_major cf W wz progress tuning (xs, None) a (a + n) = Some walk"
    "attains walk ?e (acc.out_broken cf ?R) (\<lambda>(holes, zeros) t. \<exists>D bytes. acc.out_ok cf (\<lambda>j. ?tgt (a + j)) f0 ?R D (0 + bytes) t \<and>
       bytes + holes + zeros = a + n - a \<and> (\<forall>p < a + n - a. p \<in> D \<or> \<not> wz \<and> ?tgt (a + p) = 0))"
    using walk_paints [OF xs(2) ws [folded a_def] m len start, of wz progress] by blast
  obtain r e where re: "walk ?e = (r, e)" by fastforce
  let ?r = "bind_res r (\<lambda>(holes, zeros). Inr \<lparr>er_bytes_written = ac_bytes (ex_out e), er_logical_size = n, er_holes = holes, er_zeros = zeros\<rparr>)"
  have run: "export_to_writer cf rd_at open_record W sparse progress tuning c s = Some (?r, export_finish ?f e)"
    using size ws walk(1) re rec(1) xs(1)
    by (simp add: export_to_writer_def export_window_def validate_window_start_def a_def [symmetric] wz_def [symmetric])
  have out: "map ?tgt [a..<a + n] = map (\<lambda>j. ?tgt (a + j)) [0..<n]" by (intro nth_equalityI) simp_all
  have good: "exporting_ok cf e \<and> exported (map ?tgt [a..<a + n]) (xs_writer s) ?r (ac_writer (ex_out e))"
  proof (cases r)
    case (Inl x)
    then have "acc.out_broken cf ?R e" using walk(2) re by simp
    then show ?thesis by (simp add: Inl exported_def acc.out_broken_def acc.broken_def)
  next
    case (Inr hz)
    obtain h z where hz: "hz = (h, z)" by fastforce
    obtain D bytes where D: "acc.out_ok cf (\<lambda>j. ?tgt (a + j)) f0 ?R D bytes e" "bytes + h + z = n"
      "\<forall>p < n. p \<in> D \<or> \<not> wz \<and> ?tgt (a + p) = 0"
      using walk(2) re by (auto simp: Inr hz)
    have "f = map ?tgt [a..<a + n]" if "held (ac_writer (ex_out e)) = Some f" for f
    proof -
      have p: "painted (\<lambda>j. ?tgt (a + j)) f0 D f"
        using D(1) that by (simp add: acc.out_ok_def acc.painting_def)
      have z: "f0 ! p = 0" if "\<not> wz" "p < n" for p
      proof -
        have "f0 = replicate n 0" using zeros that(1) by (simp add: wz_def)
        then show ?thesis using nth_replicate [OF that(2), of 0] by simp
      qed
      have "f ! p = ?tgt (a + p)" if "p < n" for p
        using p D(3) that z held(2) by (cases "p \<in> D") (auto simp: painted_def)
      then have "f = map (\<lambda>j. ?tgt (a + j)) [0..<n]"
        using p held(2) by (intro nth_equalityI) (simp_all add: painted_def)
      then show ?thesis using out by simp
    qed
    then show ?thesis using D(1,2) by (auto simp: Inr hz exported_def totals_ok_def acc.out_ok_def acc.painting_def)
  qed
  have "export_ok cf rd_at open_record arr es (export_finish ?f e)"
    using good rec(2) by (simp add: export_ok_def export_finish_def served_file_def exporting_ok_def)
  then show ?thesis using run good by (simp add: export_finish_def a_def)
qed

end
subsection \<open>Ranges\<close>

context export_writer
begin

lemma export_range_paints:
  assumes ok: "export_ok cf rd_at open_record arr es s" and ord: "entries_ordered es"
    and size: "content_size c (xs_file s) = Some n" and ab: "a \<le> b" "b \<le> n"
    and al: "(content_window c + a) mod FIXED_CHUNK_LENGTH = 0"
    and there: "chunks_there cf es (content_window c + a) (content_window c + b)" and m: "0 < et_window_entries tuning"
    and held: "held (xs_writer s) = Some f0" "length f0 = b - a" and keep: "keeps (xs_writer s)"
    and zeros: "needs_zero_fill W sparse (xs_writer s) \<or> f0 = replicate (b - a) 0"
  shows "\<exists>r s'. export_range cf rd_at open_record W sparse progress tuning c (int a) (int b) s = Some (r, s') \<and>
    export_ok cf rd_at open_record arr es s' \<and> df_size (xs_file s') = df_size (xs_file s) \<and>
    exported (map (content (chunk_bytes cf) es) [content_window c + a..<content_window c + b]) (xs_writer s) r (xs_writer s')"
proof -
  define w where "w = content_window c"
  define t where "t = (if a = 0 \<and> b = n then c else RangeView (w + a) (b - a))"
  have t: "content_size t (xs_file s) = Some (b - a)" "content_window t = w + a"
    using size by (simp_all add: t_def w_def content_size_def content_window_def)
  have top: "content_window t + (b - a) = w + b" using ab by (simp add: t(2))
  have n: "nat (int w + int a) = w + a" "nat (int b - int a) = b - a" by simp_all
  have "int ((w + a) mod FIXED_CHUNK_LENGTH) = 0" using al by (simp only: w_def of_nat_0)
  then have "(int w + int a) mod int FIXED_CHUNK_LENGTH = 0" by (simp only: zmod_int of_nat_add)
  then have aligned: "require_chunk_aligned (int w + int a) = Inr ()" unfolding require_chunk_aligned_def require_def by simp
  have inside: "validate_export_range (int a) (int b) (int n) = Inr ()" using ab by (simp add: validate_export_range_def require_def)
  have window: "export_window c (xs_file s) = Inr (w, n)" using size by (simp add: export_window_def w_def)
  have "export_range cf rd_at open_record W sparse progress tuning c (int a) (int b) s =
      export_to_writer cf rd_at open_record W sparse progress tuning t s"
    unfolding export_range_def window bind_res_simps prod.case inside aligned sum.case n t_def by simp
  then show ?thesis
    using export_to_writer_paints [OF ok ord t(1) _ _ m held keep zeros, of progress] al there top unfolding t(2) w_def by simp
qed

end

text \<open>C3.
  An export delivers the content: over any destination that keeps the writer contract, whatever
  the caches of the file, of the pool and of the export hold, \<open>export_range\<close> of an aligned range
  whose chunks are there ends. If it returns, the totals it reports (written, holes, zeros) add
  up to the length of the range, and once every write handed over is carried out the
  destination holds exactly the bytes the chunk map and the chunks define for the range; it
  raises only when the destination is broken, never on one that is ready. The file and the
  pool stay in a state for which the same holds again.
\<close>

theorem export_range_exact:
  assumes "export_writer W held ready keeps"
    and "export_ok cf rd_at open_record arr es s" and "entries_ordered es"
    and "content_size c (xs_file s) = Some n" and "a \<le> b" and "b \<le> n"
    and "(content_window c + a) mod FIXED_CHUNK_LENGTH = 0"
    and "chunks_there cf es (content_window c + a) (content_window c + b)" and "0 < et_window_entries tuning"
    and "held (xs_writer s) = Some f0" and "length f0 = b - a" and "keeps (xs_writer s)"
    and "needs_zero_fill W sparse (xs_writer s) \<or> f0 = replicate (b - a) 0"
  shows "\<exists>r s'. export_range cf rd_at open_record W sparse progress tuning c (int a) (int b) s = Some (r, s') \<and>
    export_ok cf rd_at open_record arr es s' \<and>
    (case r of
       Inl e \<Rightarrow> \<not> ready (xs_writer s) \<and> held (xs_writer s') = None
     | Inr x \<Rightarrow> totals_ok (b - a) x \<and> (held (xs_writer s') = None \<and> \<not> ready (xs_writer s) \<or>
         held (xs_writer s') = Some (map (content (chunk_bytes cf) es) [content_window c + a..<content_window c + b])))"
proof -
  obtain r s' where "export_range cf rd_at open_record W sparse progress tuning c (int a) (int b) s = Some (r, s')"
    "export_ok cf rd_at open_record arr es s'"
    "export_writer.exported held ready keeps (map (content (chunk_bytes cf) es) [content_window c + a..<content_window c + b])
      (xs_writer s) r (xs_writer s')"
    using export_writer.export_range_paints [OF assms(1-13), of progress] by blast
  then show ?thesis
    using export_writer.exported_def [OF assms(1)] export_writer.ready_held [OF assms(1), of "xs_writer s'"] assms(5)
    by (cases "held (xs_writer s')") (auto split: sum.splits)
qed
subsection \<open>Exporting to a local file\<close>

text \<open>\<open>run_sink_export\<close> with a body that may not end.\<close>

definition run_sink_export_partial ::
    "('s, unit) op \<Rightarrow> ('s \<Rightarrow> ('a res \<times> 's) option) \<Rightarrow> ('s, unit) op \<Rightarrow> ('s, unit) op \<Rightarrow> 's \<Rightarrow> ('a res \<times> 's) option" where
  "run_sink_export_partial open_sink body commit abort s =
     (case open_sink s of
        (Inl e, t) \<Rightarrow> Some (Inl e, close_preserving [abort] t)
      | (Inr _, t) \<Rightarrow>
          (case body t of None \<Rightarrow> None | Some x \<Rightarrow> Some (run_sink_export (\<lambda>_. (Inr (), t)) (\<lambda>_. x) commit abort t)))"

definition on_sink :: "('w, 'a) op \<Rightarrow> ('w export_state, 'a) op" where
  "on_sink = op_zoom xs_writer (\<lambda>w s. s\<lparr>xs_writer := w\<rparr>)"

text \<open>
  \<open>run_export\<close> of dedup content into a \<open>LocalFileSink\<close>, whose one segment is the whole export
  and whose writer is the sink itself. Reading an unsized file at length 0 leaves its size
  unknown. The progress total is counted before the sink is opened.
\<close>

definition run_export ::
    "os \<Rightarrow> pool_config \<Rightarrow> reader \<Rightarrow> crec res \<Rightarrow> bool \<Rightarrow> bool \<Rightarrow> export_tuning \<Rightarrow> dedup_content \<Rightarrow> local_sink export_state \<Rightarrow>
      (export_result res \<times> local_sink export_state) option" where
  "run_export os cf rd_at open_record sparse progress tuning c s =
     (case content_size c (xs_file s) of
        None \<Rightarrow> Some (Inl PyValueError, s)
      | Some n \<Rightarrow>
          (case (if progress then planned_bytes rd_at open_record c 0 n (xs_file s) else (Inr 0, xs_file s)) of
             (Inl e, f) \<Rightarrow> Some (Inl e, s\<lparr>xs_file := f\<rparr>)
           | (Inr planned, f) \<Rightarrow>
               run_sink_export_partial (on_sink (sink_open os n sparse))
                 (export_range cf rd_at open_record (local_writer os) sparse progress tuning c 0 (int n))
                 (on_sink (sink_commit os)) (on_sink (abort_closer os)) (s\<lparr>xs_file := f\<rparr>)))"

text \<open>The calls \<open>_counting_progress\<close> makes for the counts an export reports.\<close>

fun progress_calls :: "int \<Rightarrow> nat \<Rightarrow> nat list \<Rightarrow> (nat \<times> int) list" where
  "progress_calls planned already [] = []"
| "progress_calls planned already (n # ns) = (already + n, planned) # progress_calls planned (already + n) ns"

text \<open>The lifecycle on a part of the state, seen from the part.\<close>

lemma run_sink_export_zoom:
  assumes body: "\<And>w. opn (xs_writer s) = (Inr (), w) \<Longrightarrow> body (s\<lparr>xs_writer := w\<rparr>) = Some (r w, t w)"
    and run: "run_sink_export opn (\<lambda>w. (r w, xs_writer (t w))) commit abort (xs_writer s) = (x, u)"
  shows "\<exists>s'. run_sink_export_partial (on_sink opn) body (on_sink commit) (on_sink abort) s = Some (x, s') \<and> xs_writer s' = u"
proof -
  note defs = run_sink_export_partial_def run_sink_export_def op_bind_def op_return_def on_sink_def op_zoom_def
  obtain r1 w1 where o: "opn (xs_writer s) = (r1, w1)" by fastforce
  show ?thesis
  proof (cases r1)
    case (Inl e)
    then show ?thesis using run o by (auto simp: defs split: prod.splits)
  next
    case opened: (Inr v)
    then have b: "body (s\<lparr>xs_writer := w1\<rparr>) = Some (r w1, t w1)" using body o by simp
    obtain r3 w3 where c: "commit (xs_writer (t w1)) = (r3, w3)" by fastforce
    show ?thesis
    proof (cases "r w1")
      case (Inl e)
      show ?thesis using run by (auto simp: defs Inl b o opened split: prod.splits)
    next
      case (Inr y)
      show ?thesis using run by (cases r3) (auto simp: defs Inr b o opened c split: prod.splits)
    qed
  qed
qed

lemma run_sink_export_Inr:
  assumes "run_sink_export opn body commit abort s = (Inr x, u)"
  shows "\<exists>w v. opn s = (Inr (), w) \<and> body w = (Inr x, v)"
  using assms by (auto simp: run_sink_export_def op_bind_def op_return_def split: prod.splits sum.splits)

lemma planned_bytes_ok:
  assumes served: "served_file cf rd_at open_record arr es f" and ord: "entries_ordered es"
    and size: "content_size c f = Some n"
    and there: "chunks_there cf es (content_window c) (content_window c + n)"
  shows "\<exists>planned f'. planned_bytes rd_at open_record c 0 n f = (Inr planned, f') \<and> served_file cf rd_at open_record arr es f' \<and>
    df_size f' = df_size f"
proof -
  let ?a = "content_window c"
  obtain r where r: "file_extents rd_at open_record ?a (Some (?a + n)) f =
      (extents (df_size f) (window_entries ?a (Some (?a + n)) es, None) ?a (Some (?a + n)), f\<lparr>df_record := Some r\<rparr>)"
    "crec_ok rd_at arr es r"
    using pool_source.file_extents_ok [OF served [unfolded served_file_ok] ord] by blast
  obtain xs where xs: "extents (df_size f) (window_entries ?a (Some (?a + n)) es, None) ?a (Some (?a + n)) = (xs, None)"
    "exportable_range cf (content (chunk_bytes cf) es) ?a (?a + n) xs"
    using window_exportable [OF ord served_file_entries [OF served] there] by auto
  have count: "\<exists>planned. fold_res (\<lambda>x planned. bind_res (count_chunks ?a (?a + n) x) (\<lambda>k. Inr (planned + k))) ys t = Inr planned"
    if "set ys \<subseteq> set xs" for ys t
    using that
  proof (induction ys arbitrary: t)
    case (Cons y ys)
    have "ext_wf y" using exportable_range_ext(3) [OF xs(2)] Cons.prems by simp
    then have "\<exists>k. count_chunks ?a (?a + n) y = Inr k" by (cases y) (auto simp: count_chunks_def Let_def split: prod.splits)
    then show ?case using Cons by auto
  qed simp
  obtain k where "fold_res (\<lambda>x planned. bind_res (count_chunks ?a (?a + n) x) (\<lambda>k. Inr (planned + k))) xs 0 = Inr k"
    using count [of xs 0] by blast
  then have "count_planned_bytes (xs, None) ?a (?a + n) = Inr (k * int FIXED_CHUNK_LENGTH)" by (simp add: count_planned_bytes_def)
  then show ?thesis using r xs(1) served by (simp add: planned_bytes_def served_file_def)
qed
lemma local_export_body:
  assumes ok: "export_ok cf rd_at open_record arr es s" and ord: "entries_ordered es"
    and size: "content_size c (xs_file s) = Some n" and al: "content_window c mod FIXED_CHUNK_LENGTH = 0"
    and there: "chunks_there cf es (content_window c) (content_window c + n)" and m: "0 < et_window_entries tuning"
    and live: "sink_live (xs_writer s)" and held: "sink_held os (xs_writer s) = Some (replicate n 0)"
  shows "\<exists>r s'. export_range cf rd_at open_record (local_writer os) sparse progress tuning c 0 (int n) s = Some (r, s') \<and>
    (case r of
       Inl e \<Rightarrow> sink_keeps (xs_writer s) (xs_writer s') \<and> \<not> steady os
     | Inr x \<Rightarrow> totals_ok n x \<and>
         sink_wrote os (xs_writer s) (map (content (chunk_bytes cf) es) [content_window c..<content_window c + n]) (xs_writer s'))"
proof -
  let ?w = "xs_writer s" and ?out = "map (content (chunk_bytes cf) es) [content_window c..<content_window c + n]"
  have keep: "sink_keeps ?w ?w" using live by (simp add: sink_keeps_def)
  have z: "needs_zero_fill (local_writer os) sparse ?w \<or> replicate n 0 = replicate (n - 0) (0 :: byte)" by simp
  have al0: "(content_window c + 0) mod FIXED_CHUNK_LENGTH = 0" and there0: "chunks_there cf es (content_window c + 0) (content_window c + n)"
    and l: "length (replicate n (0 :: byte)) = n - 0"
    using al there by simp_all
  obtain r s' where r: "export_range cf rd_at open_record (local_writer os) sparse progress tuning c (int 0) (int n) s = Some (r, s')"
    "export_writer.exported (sink_held os) (sink_ready os) (sink_keeps ?w) ?out ?w r (xs_writer s')"
    using local_file.export_range_paints [OF ok ord size le0 order.refl al0 there0 m held l keep z, of progress] by auto
  have "case r of Inl e \<Rightarrow> sink_keeps ?w (xs_writer s') \<and> \<not> steady os | Inr x \<Rightarrow> totals_ok n x \<and> sink_wrote os ?w ?out (xs_writer s')"
  proof (cases r)
    case (Inl e)
    then show ?thesis using r(2) held by (simp add: local_file.exported_def sink_ready_def)
  next
    case (Inr x)
    then show ?thesis using r(2) held
      by (cases "sink_held os (xs_writer s')") (auto simp: local_file.exported_def sink_ready_def sink_wrote_def sink_keeps_def)
  qed
  then show ?thesis using r(1) by auto
qed

lemma run_export_local:
  assumes ok: "export_ok cf rd_at open_record arr es s" and ord: "entries_ordered es"
    and size: "content_size c (xs_file s) = Some n" and al: "content_window c mod FIXED_CHUNK_LENGTH = 0"
    and there: "chunks_there cf es (content_window c) (content_window c + n)" and m: "0 < et_window_entries tuning"
  shows "\<exists>r s'. run_export os cf rd_at open_record sparse progress tuning c s = Some (r, s') \<and>
    (case r of
       Inr x \<Rightarrow> totals_ok n x \<and>
         ls_files (xs_writer s') (ls_dst (xs_writer s)) = Some (map (content (chunk_bytes cf) es) [content_window c..<content_window c + n]) \<and>
         (\<forall>p. p \<noteq> ls_path (xs_writer s) \<and> p \<noteq> ls_dst (xs_writer s) \<longrightarrow> ls_files (xs_writer s') p = ls_files (xs_writer s) p)
     | Inl e \<Rightarrow> \<not> obliging os \<and>
         (ls_staged (xs_writer s) \<longrightarrow> ls_files (xs_writer s') (ls_dst (xs_writer s)) = ls_files (xs_writer s) (ls_dst (xs_writer s))))"
proof -
  let ?out = "map (content (chunk_bytes cf) es) [content_window c..<content_window c + n]"
  let ?pb = "if progress then planned_bytes rd_at open_record c 0 n (xs_file s) else (Inr 0, xs_file s)"
  have served: "served_file cf rd_at open_record arr es (xs_file s)" using ok by (simp add: export_ok_def)
  obtain planned f where pb: "?pb = (Inr planned, f)" "served_file cf rd_at open_record arr es f" "df_size f = df_size (xs_file s)"
    using planned_bytes_ok [OF served ord size there] served by (cases progress) auto
  define s1 where "s1 = s\<lparr>xs_file := f\<rparr>"
  have ok1: "export_ok cf rd_at open_record arr es (s1\<lparr>xs_writer := w\<rparr>)" for w
    using ok pb(2) by (simp add: s1_def export_ok_def)
  have size1: "content_size c (xs_file (s1\<lparr>xs_writer := w\<rparr>)) = Some n" for w
    using size pb(3) by (cases c) (simp_all add: s1_def content_size_def)
  let ?body = "export_range cf rd_at open_record (local_writer os) sparse progress tuning c 0 (int n)"
  have run: "run_export os cf rd_at open_record sparse progress tuning c s =
      run_sink_export_partial (on_sink (sink_open os n sparse)) ?body (on_sink (sink_commit os)) (on_sink (abort_closer os)) s1"
    using size pb(1) by (simp add: run_export_def s1_def del: if_split)
  define r where "r w = fst (the (?body (s1\<lparr>xs_writer := w\<rparr>)))" for w
  define t where "t w = snd (the (?body (s1\<lparr>xs_writer := w\<rparr>)))" for w
  have body: "?body (s1\<lparr>xs_writer := w\<rparr>) = Some (r w, t w) \<and>
      (case r w of Inl e \<Rightarrow> sink_keeps w (xs_writer (t w)) \<and> \<not> steady os
       | Inr x \<Rightarrow> totals_ok n x \<and> sink_wrote os w ?out (xs_writer (t w)))"
    if w: "sink_live w" "sink_held os w = Some (replicate n 0)" for w
  proof -
    have xw: "xs_writer (s1\<lparr>xs_writer := w\<rparr>) = w" by simp
    obtain ra sa where b: "?body (s1\<lparr>xs_writer := w\<rparr>) = Some (ra, sa)"
      and q: "case ra of Inl e \<Rightarrow> sink_keeps w (xs_writer sa) \<and> \<not> steady os | Inr x \<Rightarrow> totals_ok n x \<and> sink_wrote os w ?out (xs_writer sa)"
      using local_export_body [OF ok1 ord size1 al there m, of w os sparse progress, unfolded xw, OF w] by blast
    have rt: "r w = ra" "t w = sa" using b by (simp_all add: r_def t_def)
    show ?thesis unfolding rt using b q by blast
  qed
  let ?sink = "run_sink_export (sink_open os n sparse) (\<lambda>w. (r w, xs_writer (t w))) (sink_commit os) (abort_closer os) (xs_writer s)"
  have cycle: "case ?sink of
      (Inr x, s') \<Rightarrow> ls_files s' (ls_dst (xs_writer s)) = Some ?out \<and>
        (\<forall>p. p \<noteq> ls_path (xs_writer s) \<and> p \<noteq> ls_dst (xs_writer s) \<longrightarrow> ls_files s' p = ls_files (xs_writer s) p)
    | (Inl e, s') \<Rightarrow> \<not> (True \<and> obliging os) \<and>
        (ls_staged (xs_writer s) \<longrightarrow> ls_files s' (ls_dst (xs_writer s)) = ls_files (xs_writer s) (ls_dst (xs_writer s)))"
  proof (rule local_export_lifecycle)
    fix w assume "sink_live w" "sink_held os w = Some (replicate n 0)"
    from body [OF this]
    show "attains (\<lambda>w. (r w, xs_writer (t w))) w (\<lambda>u. same_sink w u \<and> sink_live u \<and> (True \<longrightarrow> \<not> steady os)) (\<lambda>x. sink_wrote os w ?out)"
      by (cases "r w") (simp_all add: attains_def sink_keeps_def)
  qed
  obtain x u where xu: "?sink = (x, u)" by fastforce
  have writer: "xs_writer s1 = xs_writer s" by (simp add: s1_def)
  have "?body (s1\<lparr>xs_writer := w\<rparr>) = Some (r w, t w)" if "sink_open os n sparse (xs_writer s1) = (Inr (), w)" for w
    using body sink_open_ok(1,2) [OF that] by blast
  from run_sink_export_zoom [OF this xu [folded writer]]
  obtain s' where s': "run_export os cf rd_at open_record sparse progress tuning c s = Some (x, s')" "xs_writer s' = u"
    unfolding run by blast
  have "totals_ok n y" if x: "x = Inr y" for y
  proof -
    obtain w v where w: "sink_open os n sparse (xs_writer s) = (Inr (), w)" "r w = Inr y"
      using run_sink_export_Inr [OF xu [unfolded x]] by auto
    show ?thesis using body [OF sink_open_ok(2,1) [OF w(1)]] w(2) by simp
  qed
  then show ?thesis using s' cycle unfolding xu by (cases x) auto
qed
text \<open>C2.
  An export to a local file is exact end to end: for a dedup file or view whose chunks are
  there, \<open>run_export\<close> ends, and if it returns, the file at the destination is the content, byte
  for byte, its totals add up to the size, and no other path but the staging file changed; if it
  raises, a staged destination is as it was before, and some system call failed. This holds
  however the writer thread lags behind, however short the writes of the operating system are,
  for sparse and dense exports, preallocated or not, and for every state of the caches.
\<close>

theorem run_export_local_exact:
  assumes "export_ok cf rd_at open_record arr es s" and "entries_ordered es"
    and "content_size c (xs_file s) = Some n" and "content_window c mod FIXED_CHUNK_LENGTH = 0"
    and "chunks_there cf es (content_window c) (content_window c + n)" and "0 < et_window_entries tuning"
  shows "\<exists>r s'. run_export os cf rd_at open_record sparse progress tuning c s = Some (r, s') \<and>
    (case r of
       Inr x \<Rightarrow> totals_ok n x \<and>
         ls_files (xs_writer s') (ls_dst (xs_writer s)) = Some (map (content (chunk_bytes cf) es) [content_window c..<content_window c + n]) \<and>
         (\<forall>p. p \<noteq> ls_path (xs_writer s) \<and> p \<noteq> ls_dst (xs_writer s) \<longrightarrow> ls_files (xs_writer s') p = ls_files (xs_writer s) p)
     | Inl e \<Rightarrow> \<not> obliging os \<and>
         (ls_staged (xs_writer s) \<longrightarrow> ls_files (xs_writer s') (ls_dst (xs_writer s)) = ls_files (xs_writer s) (ls_dst (xs_writer s))))"
  using assms by (rule run_export_local)

subsection \<open>A concrete export\<close>

text \<open>
  The file of the record model's sample over the sample pool, exported by an operating system
  that takes three bytes at a time while the writer thread lags: a hole of one chunk's length,
  then the first two bytes of a chunk.
\<close>

definition plain_tuning :: export_tuning where
  "plain_tuning = \<lparr>et_workers = 0, et_max_concurrent_reads = 1, et_window_entries = DEFAULT_WINDOW_ENTRIES, et_max_concurrent_opens = None\<rparr>"

definition plain_file :: "'w \<Rightarrow> 'w export_state" where
  "plain_file w =
     \<lparr>xs_file = \<lparr>df_size = Some 20480, df_record = None, df_pool = pool_init plain_pool\<rparr>, xs_readers = cache_init (Some 16),
      xs_writer = w, xs_reports = []\<rparr>"

definition sample_record :: "crec res" where
  "sample_record = Inr (crec_init (Some 1) 0 sample_head)"

lemma plain_file_ok: "export_ok plain_pool sample_reader sample_record (encode_entries sample_entries) sample_entries (plain_file w)"
  using pool_init_ok sample_ok by (simp add: export_ok_def plain_file_def served_file_def readers_ok_def cache_init_def sample_record_def)

lemma sample_ordered: "entries_ordered sample_entries"
  by (simp add: entries_ordered_def sample_entries_def entry_end_def entry_length_def const_values)

lemma sample_chunk: "chunk_at (ChunkAddress 1 5 9) 2 0 = ChunkAddress 1 5 9"
  by (simp add: chunk_at_def advance_by_def const_values)

lemma sample_there: "b \<le> 8194 \<Longrightarrow> chunks_there plain_pool sample_entries a b"
  using plain_avail [of 9] sample_chunk by (auto simp: chunks_there_def sample_entries_def const_values)

lemma sample_content:
  assumes "p < 8194"
  shows "content (chunk_bytes plain_pool) sample_entries p = (if p < 8192 then 0 else 7)"
proof -
  have b: "chunk_bytes plain_pool (ChunkAddress 1 5 9) = replicate 4096 7" using plain_chunk [of 9] by (simp add: chunk_bytes_def)
  show ?thesis
    using assms sample_chunk b
    by (auto simp: content_def sample_entries_def entry_covers_def entry_end_def entry_length_def const_values chunk_byte_def Let_def
        entry_byte_def)
qed

lemma sample_range: "map (content (chunk_bytes plain_pool) sample_entries) [4096..<8194] = replicate 4096 0 @ [7, 7]"
proof -
  define a b :: nat where "a = 4096" and "b = 8194"
  have "map (content (chunk_bytes plain_pool) sample_entries) [a..<b] = replicate a 0 @ [7, 7]"
  proof (rule nth_equalityI)
    show "length (map (content (chunk_bytes plain_pool) sample_entries) [a..<b]) = length (replicate a (0 :: byte) @ [7, 7])"
      by (simp add: a_def b_def del: upt_rec_numeral)
    fix i assume "i < length (map (content (chunk_bytes plain_pool) sample_entries) [a..<b])"
    then have i: "i < b - a" by simp
    then have "i < a \<or> i - a = 0 \<or> i - a = 1" by (auto simp: a_def b_def)
    then show "map (content (chunk_bytes plain_pool) sample_entries) [a..<b] ! i = (replicate a 0 @ [7, 7]) ! i"
      using i sample_content [of "a + i"] by (auto simp: nth_append a_def [symmetric]) (auto simp: a_def b_def)
  qed
  then show ?thesis by (simp only: a_def b_def)
qed

lemma run_export_local_exact_witness:
  "\<exists>x s'. run_export (slow_os (Inr 3)) plain_pool sample_reader sample_record True True plain_tuning (RangeView 4096 4098)
      (plain_file (local_sink_init ''disk'' True False [''disk'' \<mapsto> [9]])) = Some (Inr x, s') \<and>
    er_bytes_written x + er_holes x + er_zeros x = 4098 \<and> ls_files (xs_writer s') ''disk'' = Some (replicate 4096 0 @ [7, 7])"
proof -
  let ?s = "plain_file (local_sink_init ''disk'' True False [''disk'' \<mapsto> [9]])"
  have c: "content_size (RangeView 4096 4098) (xs_file ?s) = Some 4098" "content_window (RangeView 4096 4098) mod FIXED_CHUNK_LENGTH = 0"
    "chunks_there plain_pool sample_entries (content_window (RangeView 4096 4098)) (content_window (RangeView 4096 4098) + 4098)"
    "0 < et_window_entries plain_tuning"
    using sample_there [of 8194 4096] by (simp_all add: content_size_def content_window_def const_values plain_tuning_def DEFAULT_WINDOW_ENTRIES_def)
  have w: "content_window (RangeView 4096 4098) = 4096" "ls_dst (xs_writer ?s) = ''disk''"
    by (simp_all add: content_window_def plain_file_def local_sink_init_def)
  have sum_8194: "4096 + 4098 = (8194 :: nat)" by simp
  have os: "obliging (slow_os (Inr 3))" by (simp add: obliging_def steady_def slow_os_def)
  note run = run_export_local_exact [OF plain_file_ok sample_ordered c, of "slow_os (Inr 3)" True True, unfolded w sum_8194 sample_range]
  then obtain r s' where "run_export (slow_os (Inr 3)) plain_pool sample_reader sample_record True True plain_tuning
      (RangeView 4096 4098) ?s = Some (r, s')"
    by blast
  then show ?thesis using run os by (cases r) (auto simp: totals_ok_def)
qed

definition open_sink :: local_sink where
  "open_sink = snd (sink_open (slow_os (Inr 3)) 4098 True (local_sink_init ''disk'' True False Map.empty))"

lemma export_range_exact_witness:
  "\<exists>x s'. export_range plain_pool sample_reader sample_record (local_writer (slow_os (Inr 3))) True False plain_tuning
      (RangeView 0 10000) 4096 8194 (plain_file open_sink) = Some (Inr x, s') \<and>
    er_bytes_written x + er_holes x + er_zeros x = 4098 \<and>
    sink_held (slow_os (Inr 3)) (xs_writer s') = Some (replicate 4096 0 @ [7, 7])"
proof -
  let ?os = "slow_os (Inr 3)"
  let ?init = "local_sink_init ''disk'' True False Map.empty"
  have os: "obliging ?os" by (simp add: obliging_def steady_def slow_os_def)
  have o: "sink_open ?os 4098 True ?init = (Inr (), open_sink)"
    using sink_open_obliging [OF os, of 4098 True ?init] by (auto simp: open_sink_def)
  note opened = sink_open_ok(1,2) [OF o]
  have st: "content_size (RangeView 0 10000) (xs_file (plain_file open_sink)) = Some 10000" "(4096 :: nat) \<le> 8194" "8194 \<le> (10000 :: nat)"
    "(content_window (RangeView 0 10000) + 4096) mod FIXED_CHUNK_LENGTH = 0"
    "chunks_there plain_pool sample_entries (content_window (RangeView 0 10000) + 4096) (content_window (RangeView 0 10000) + 8194)"
    "0 < et_window_entries plain_tuning"
    "sink_held ?os (xs_writer (plain_file open_sink)) = Some (replicate 4098 0)" "length (replicate 4098 (0 :: byte)) = 8194 - 4096"
    "sink_keeps open_sink (xs_writer (plain_file open_sink))"
    "needs_zero_fill (local_writer ?os) True (xs_writer (plain_file open_sink)) \<or> replicate 4098 (0 :: byte) = replicate (8194 - 4096) 0"
    using sample_there [of 8194 4096] opened
    by (simp_all add: content_size_def content_window_def const_values plain_tuning_def DEFAULT_WINDOW_ENTRIES_def plain_file_def sink_keeps_def)
  have ready: "sink_ready ?os (xs_writer (plain_file open_sink))"
    using opened os by (simp add: sink_ready_def obliging_def plain_file_def)
  have w: "content_window (RangeView 0 10000) + 4096 = 4096" "content_window (RangeView 0 10000) + 8194 = 8194"
    by (simp_all add: content_window_def)
  obtain r s' where "export_range plain_pool sample_reader sample_record (local_writer ?os) True False plain_tuning
      (RangeView 0 10000) (int 4096) (int 8194) (plain_file open_sink) = Some (r, s')"
    "case r of
       Inl e \<Rightarrow> \<not> sink_ready ?os (xs_writer (plain_file open_sink)) \<and> sink_held ?os (xs_writer s') = None
     | Inr x \<Rightarrow> totals_ok (8194 - 4096) x \<and> (sink_held ?os (xs_writer s') = None \<and> \<not> sink_ready ?os (xs_writer (plain_file open_sink)) \<or>
         sink_held ?os (xs_writer s') = Some (replicate 4096 0 @ [7, 7]))"
    using export_range_exact [OF local_file.export_writer_axioms plain_file_ok sample_ordered st, of False] unfolding w sample_range by blast
  then show ?thesis using ready by (cases r) (auto simp: totals_ok_def)
qed
text \<open>The progress total counts whole chunks, also where the range ends inside one.\<close>

lemma planned_bytes_rounds_up:
  "count_planned_bytes ([DataExtent 0 4096 (ChunkAddress 1 5 9) 1 0], None) 0 100 = Inr 4096"
  by code_simp

end
