(* ===== verification/SegmentBuffers.thy ===== *)
theory SegmentBuffers
  imports Sink
begin

text \<open>
  The slots of \<open>sdk/dedup/segment_buffers.py\<close> in one block of shared memory (\<open>SharedPool\<close>):
  slot \<open>k\<close> of a pool of \<open>N\<close> slots is the bytes \<open>[k * z, (k + 1) * z)\<close> of the block. A write
  through a slot stays inside it, and a released slot is zero again.
\<close>

subsection \<open>Pools and slots\<close>

text \<open>
  \<open>sp_touched\<close> holds the slots whose \<open>Slot\<close> object has \<open>_touched\<close> set; \<open>sp_buf\<close> is \<open>None\<close>
  before \<open>_create\<close> and after \<open>_close\<close>, where \<open>buf\<close> fails its assertion.
\<close>

record slot_pool =
  sp_segment_size :: nat
  sp_slots :: nat
  sp_free :: "nat list"
  sp_buf :: "bytes option"
  sp_touched :: "nat set"

definition slot_pool_init :: "nat \<Rightarrow> slot_pool" where
  "slot_pool_init segment_size =
     \<lparr>sp_segment_size = segment_size, sp_slots = 0, sp_free = [], sp_buf = None, sp_touched = {}\<rparr>"

text \<open>\<open>alloc\<close> is what \<open>SharedMemory(create=True, ...)\<close> does: a fresh block reads as zero.\<close>

definition slots_create :: "unit res \<Rightarrow> nat \<Rightarrow> (slot_pool, unit) op" where
  "slots_create alloc slots p =
     (let p = p\<lparr>sp_slots := slots, sp_free := [0..<slots]\<rparr> in
      case alloc of
        Inl e \<Rightarrow> (Inl e, p)
      | Inr _ \<Rightarrow> (Inr (), p\<lparr>sp_buf := Some (replicate (slots * sp_segment_size p) 0)\<rparr>))"

definition slots_take :: "(slot_pool, nat) op" where
  "slots_take p =
     (case sp_free p of
        [] \<Rightarrow> (Inl PyIndexError, p)
      | j # js \<Rightarrow> (Inr j, p\<lparr>sp_free := js, sp_touched := sp_touched p - {j}\<rparr>))"

definition slots_close :: "slot_pool \<Rightarrow> slot_pool" where
  "slots_close p = p\<lparr>sp_buf := None\<rparr>"

text \<open>Assigning to a slice of a memoryview needs as many bytes as the slice holds.\<close>

definition slots_write_at :: "nat \<Rightarrow> bytes \<Rightarrow> (slot_pool, unit) op" where
  "slots_write_at off data p =
     (case sp_buf p of
        None \<Rightarrow> (Inl PyAssertionError, p)
      | Some b \<Rightarrow>
          if length (pslice off (off + length data) b) = length data
          then (Inr (), p\<lparr>sp_buf := Some (pslice_assign off (off + length data) data b)\<rparr>)
          else (Inl PyValueError, p))"

definition ZERO_BLOCK :: nat where [const_defs]: "ZERO_BLOCK = 2 ^ 20"

definition slots_write_zero :: "nat \<Rightarrow> nat \<Rightarrow> (slot_pool, unit) op" where
  "slots_write_zero off n p =
     (if sp_buf p = None then (Inl PyAssertionError, p)
      else op_each (\<lambda>i. slots_write_at i (replicate (min (i + ZERO_BLOCK) (off + n) - i) 0)) (pyrange off (off + n) ZERO_BLOCK) p)"

definition slots_read :: "nat \<Rightarrow> nat \<Rightarrow> slot_pool \<Rightarrow> bytes res" where
  "slots_read off n p = (case sp_buf p of None \<Rightarrow> Inl PyAssertionError | Some b \<Rightarrow> Inr (pslice off (off + n) b))"

definition slot_base :: "nat \<Rightarrow> slot_pool \<Rightarrow> nat" where
  "slot_base j p = j * sp_segment_size p"

definition slot_note_write :: "nat \<Rightarrow> slot_pool \<Rightarrow> slot_pool" where
  "slot_note_write j p = p\<lparr>sp_touched := insert j (sp_touched p)\<rparr>"

definition slot_write_at :: "nat \<Rightarrow> nat \<Rightarrow> bytes \<Rightarrow> (slot_pool, unit) op" where
  "slot_write_at j off data p = slots_write_at (slot_base j p + off) data (slot_note_write j p)"

definition slot_write_zero :: "nat \<Rightarrow> nat \<Rightarrow> nat \<Rightarrow> (slot_pool, unit) op" where
  "slot_write_zero j off n p = slots_write_zero (slot_base j p + off) n (slot_note_write j p)"

definition slot_read :: "nat \<Rightarrow> nat \<Rightarrow> nat \<Rightarrow> slot_pool \<Rightarrow> bytes res" where
  "slot_read j off n p = slots_read (slot_base j p + off) n p"

definition slot_discard :: "nat \<Rightarrow> slot_pool \<Rightarrow> slot_pool" where
  "slot_discard j p = p\<lparr>sp_free := sp_free p @ [j]\<rparr>"

definition slot_release :: "nat \<Rightarrow> (slot_pool, unit) op" where
  "slot_release j p =
     op_bind (if j \<in> sp_touched p then slots_write_zero (slot_base j p) (sp_segment_size p) else op_return ())
       (\<lambda>_ p. (Inr (), slot_discard j p)) p"

subsection \<open>What the operations do inside the block\<close>

lemma pslice_assign_append:
  assumes "a + length xs + length ys \<le> length b"
  shows "pslice_assign (a + length xs) (a + length xs + length ys) ys (pslice_assign a (a + length xs) xs b) =
    pslice_assign a (a + length xs + length ys) (xs @ ys) b"
proof -
  have l: "length (pslice_assign a (a + length xs) xs b) = length b" using assms by simp
  show ?thesis
    using assms l by (intro nth_equalityI) (auto simp: nth_pslice_assign nth_append)
qed

lemma slots_write_at_in:
  assumes "sp_buf p = Some b" and "off + length data \<le> length b"
  shows "slots_write_at off data p = (Inr (), p\<lparr>sp_buf := Some (pslice_assign off (off + length data) data b)\<rparr>)"
  using assms by (simp add: slots_write_at_def)

lemma slots_zero_blocks:
  assumes "0 < z" and "sp_buf p = Some b" and "a \<le> c" and "c \<le> length b"
  shows "op_each (\<lambda>i. slots_write_at i (replicate (min (i + z) c - i) 0)) (pyrange a c z) p =
    (Inr (), p\<lparr>sp_buf := Some (pslice_assign a c (replicate (c - a) 0) b)\<rparr>)"
  using assms(2-4)
proof (induction "c - a" arbitrary: a p b rule: less_induct)
  case less
  show ?case
  proof (cases "a < c")
    case False
    then show ?thesis using less.prems assms(1) by (simp add: pslice_assign_def)
  next
    case True
    define m where "m = min (a + z) c - a"
    have m: "a + m \<le> c" "0 < m" using True assms(1) by (auto simp: m_def)
    let ?p = "p\<lparr>sp_buf := Some (pslice_assign a (a + m) (replicate m 0) b)\<rparr>"
    have first: "slots_write_at a (replicate m 0) p = (Inr (), ?p)"
      using slots_write_at_in [OF less.prems(1), of a "replicate m 0"] m less.prems(3) by simp
    have rest: "op_each (\<lambda>i. slots_write_at i (replicate (min (i + z) c - i) 0)) (pyrange (a + z) c z) ?p =
        (Inr (), ?p\<lparr>sp_buf := Some (pslice_assign (a + m) c (replicate (c - (a + m)) 0) (pslice_assign a (a + m) (replicate m 0) b))\<rparr>)"
    proof (cases "a + z \<le> c")
      case True
      then have "m = z" by (simp add: m_def)
      then show ?thesis using less.hyps [of "a + z" ?p] True \<open>a < c\<close> assms(1) less.prems(3) m by simp
    next
      case False
      then have "m = c - a" using \<open>a < c\<close> by (simp add: m_def)
      then show ?thesis using False assms(1) m less.prems(3) by (simp add: pslice_assign_def)
    qed
    have "pslice_assign (a + m) c (replicate (c - (a + m)) 0) (pslice_assign a (a + m) (replicate m 0) b) =
        pslice_assign a c (replicate (c - a) (0 :: byte)) b"
      using pslice_assign_append [of a "replicate m 0" "replicate (c - (a + m)) 0" b] m less.prems(3)
      by (simp add: replicate_add [symmetric])
    moreover have "pyrange a c z = a # pyrange (a + z) c z" using True assms(1) by (rule pyrange_Cons)
    ultimately show ?thesis using first rest by (simp add: m_def [symmetric])
  qed
qed

lemma slots_write_zero_in:
  assumes "sp_buf p = Some b" and "off + n \<le> length b"
  shows "slots_write_zero off n p = (Inr (), p\<lparr>sp_buf := Some (pslice_assign off (off + n) (replicate n 0) b)\<rparr>)"
proof -
  have "0 < ZERO_BLOCK" by (simp add: ZERO_BLOCK_def)
  from slots_zero_blocks [OF this assms(1), of off "off + n"] show ?thesis
    using assms by (simp add: slots_write_zero_def)
qed

subsection \<open>Slots of a block\<close>

text \<open>A pool with its block in place, and what a slot of it holds.\<close>

definition slots_ok :: "nat \<Rightarrow> nat \<Rightarrow> slot_pool \<Rightarrow> bool" where
  "slots_ok z N p \<longleftrightarrow> sp_segment_size p = z \<and> sp_slots p = N \<and> (\<exists>b. sp_buf p = Some b \<and> length b = N * z)"

definition slot_bytes :: "nat \<Rightarrow> slot_pool \<Rightarrow> bytes" where
  "slot_bytes j p = pslice (slot_base j p) (slot_base j p + sp_segment_size p) (the (sp_buf p))"

lemma slot_inside: "j < N \<Longrightarrow> j * z + z \<le> N * (z :: nat)"
  using mult_le_mono1 [of "Suc j" N z] by simp

lemma length_slot_bytes: "slots_ok z N p \<Longrightarrow> j < N \<Longrightarrow> length (slot_bytes j p) = z"
  using slot_inside [of j N z] by (auto simp: slots_ok_def slot_bytes_def slot_base_def)

lemma slot_bytes_assign:
  assumes "length b = N * z" and "i < N" and "j < N" and "off + length data \<le> z"
  shows "pslice (i * z) (i * z + z) (pslice_assign (j * z + off) (j * z + off + length data) data b) =
    (if i = j then pslice_assign off (off + length data) data (pslice (j * z) (j * z + z) b) else pslice (i * z) (i * z + z) b)"
proof -
  have ji: "j * z + z \<le> N * z" "i * z + z \<le> N * z" using slot_inside assms(2,3) by blast+
  have far: "i * z + z \<le> j * z \<or> j * z + z \<le> i * z" if "i \<noteq> j"
    using that slot_inside [of i j z] slot_inside [of j i z] by linarith
  show ?thesis
  proof (cases "i = j")
    case True
    then show ?thesis using assms(1,4) ji by (intro nth_equalityI) (simp_all add: nth_pslice_assign)
  next
    case False
    then show ?thesis using assms(1,4) ji far [OF False] by (intro nth_equalityI) (auto simp: nth_pslice_assign)
  qed
qed

lemma slot_write_at_spec:
  assumes "slots_ok z N p" and "j < N" and "off + length data \<le> z"
  obtains p' where "slot_write_at j off data p = (Inr (), p')" and "slots_ok z N p'"
    and "sp_free p' = sp_free p" and "sp_touched p' = insert j (sp_touched p)"
    and "slot_bytes j p' = pslice_assign off (off + length data) data (slot_bytes j p)"
    and "\<And>i. i < N \<Longrightarrow> i \<noteq> j \<Longrightarrow> slot_bytes i p' = slot_bytes i p"
proof -
  obtain b where b: "sp_buf p = Some b" "length b = N * z" and z: "sp_segment_size p = z" "sp_slots p = N"
    using assms(1) by (auto simp: slots_ok_def)
  have "j * z + off + length data \<le> length b" using slot_inside [OF assms(2), of z] assms(3) b(2) by linarith
  then have "slot_write_at j off data p = (Inr (), p\<lparr>sp_touched := insert j (sp_touched p),
      sp_buf := Some (pslice_assign (j * z + off) (j * z + off + length data) data b)\<rparr>)" (is "_ = (_, ?p)")
    using b z by (simp add: slot_write_at_def slots_write_at_in slot_base_def slot_note_write_def)
  moreover have "slots_ok z N ?p"
    using b z slot_inside [OF assms(2), of z] assms(3) by (simp add: slots_ok_def)
  moreover have "slot_bytes i ?p = (if i = j then pslice_assign off (off + length data) data (slot_bytes j p) else slot_bytes i p)" if "i < N" for i
    using slot_bytes_assign [OF b(2) that assms(2,3)] b(1) z by (simp add: slot_bytes_def slot_base_def)
  ultimately show thesis using assms(2) by (intro that [of ?p]) simp_all
qed

text \<open>Zeroing part of a slot writes that many zero bytes.\<close>

lemma slot_write_zero_is:
  assumes "slots_ok z N p" and "j < N" and "off + n \<le> z"
  shows "slot_write_zero j off n p = slot_write_at j off (replicate n 0) p"
proof -
  obtain b where b: "sp_buf p = Some b" "length b = N * z" and z: "sp_segment_size p = z"
    using assms(1) by (auto simp: slots_ok_def)
  have "j * z + off + n \<le> length b" using slot_inside [OF assms(2), of z] assms(3) b(2) by linarith
  then show ?thesis
    using b z by (simp add: slot_write_zero_def slot_write_at_def slots_write_zero_in slots_write_at_in slot_base_def slot_note_write_def)
qed

lemma slot_read_spec:
  assumes "slots_ok z N p" and "n \<le> z"
  shows "slot_read j 0 n p = Inr (take n (slot_bytes j p))"
  using assms by (auto simp: slots_ok_def slot_read_def slots_read_def slot_bytes_def slot_base_def pslice_def min_def)

lemma slot_release_spec:
  assumes "slots_ok z N p" and "j < N" and "j \<notin> sp_touched p \<Longrightarrow> slot_bytes j p = replicate z 0"
  obtains p' where "slot_release j p = (Inr (), p')" and "slots_ok z N p'"
    and "sp_free p' = sp_free p @ [j]" and "sp_touched p' = sp_touched p" and "slot_bytes j p' = replicate z 0"
    and "\<And>i. i < N \<Longrightarrow> i \<noteq> j \<Longrightarrow> slot_bytes i p' = slot_bytes i p"
proof (cases "j \<in> sp_touched p")
  case False
  then have "slot_release j p = (Inr (), slot_discard j p)" by (simp add: slot_release_def)
  moreover have "slots_ok z N (slot_discard j p)" "slot_bytes i (slot_discard j p) = slot_bytes i p" for i
    using assms(1) by (simp_all add: slots_ok_def slot_discard_def slot_bytes_def slot_base_def)
  ultimately show thesis using assms(3) [OF False] by (intro that [of "slot_discard j p"]) (simp_all add: slot_discard_def)
next
  case True
  have p: "slot_note_write j p = p" "sp_segment_size p = z" using True assms(1) by (auto simp: slot_note_write_def insert_absorb slots_ok_def)
  then have zero: "slots_write_zero (slot_base j p) z p = slot_write_zero j 0 z p" by (simp add: slot_write_zero_def)
  have fits: "0 + length (replicate z (0 :: byte)) \<le> z" by simp
  obtain q where q: "slot_write_at j 0 (replicate z 0) p = (Inr (), q)" "slots_ok z N q"
    "sp_free q = sp_free p" "sp_touched q = insert j (sp_touched p)"
    "slot_bytes j q = pslice_assign 0 (0 + length (replicate z (0 :: byte))) (replicate z 0) (slot_bytes j p)"
    "\<And>i. i < N \<Longrightarrow> i \<noteq> j \<Longrightarrow> slot_bytes i q = slot_bytes i p"
    using slot_write_at_spec [OF assms(1,2) fits] by blast
  have "slot_release j p = (Inr (), slot_discard j q)"
    using True q(1) p(2) zero slot_write_zero_is [OF assms(1,2), of 0 z] by (simp add: slot_release_def)
  moreover have "slots_ok z N (slot_discard j q)" "slot_bytes i (slot_discard j q) = slot_bytes i q" for i
    using q(2) by (simp_all add: slots_ok_def slot_discard_def slot_bytes_def slot_base_def)
  moreover have "slot_bytes j q = replicate z 0"
    using q(5) length_slot_bytes [OF assms(1,2)] by (simp add: pslice_assign_def)
  ultimately show thesis using q True by (intro that [of "slot_discard j q"]) (simp_all add: slot_discard_def insert_absorb)
qed

end
