(* ===== verification/BufferedSink.thy ===== *)
theory BufferedSink
  imports SegmentBuffers
begin

text \<open>
  \<open>sdk/dedup/buffered_export_sink.py\<close>: the sink over a destination that takes bytes in order
  only. The exporter fills the slot of one segment in any order; a completed segment is queued
  for the flusher, which hands the segments to \<open>flush_segment\<close> in order and gives their slots
  back. The hooks of the subclass are parameters.

  The flusher is a task of its own. Between two steps of the exporter it gets through as many
  segments as a schedule \<open>bh_sched\<close> says, an arbitrary function of the step's number: a flush
  under way when the exporter goes on counts as done before or after that step, as the slot it
  reads is not the one the exporter writes.
\<close>

subsection \<open>State\<close>

record flushable =
  fs_index :: nat
  fs_start :: nat
  fs_bytes :: bytes

text \<open>\<open>FlushableSegment.blocks\<close> and \<open>read_all\<close>.\<close>

definition FLUSH_BLOCK :: nat where [const_defs]: "FLUSH_BLOCK = 8 * 2 ^ 20"

definition flushable_blocks :: "nat \<Rightarrow> flushable \<Rightarrow> bytes list" where
  "flushable_blocks block x = map (\<lambda>off. pslice off (off + block) (fs_bytes x)) (pyrange 0 (length (fs_bytes x)) block)"

record 'd hooks =
  bh_alloc :: "unit res"
  bh_create :: "nat \<Rightarrow> bool \<Rightarrow> ('d, unit) op"
  bh_flush :: "flushable \<Rightarrow> ('d, unit) op"
  bh_finalize :: "('d, unit) op"
  bh_discard :: "('d, bool) op"
  bh_sched :: "nat \<Rightarrow> nat"

record segment =
  sg_index :: nat
  sg_start :: nat
  sg_length :: nat
  sg_slot :: nat

datatype sink_state = SinkNew | SinkOpen | SinkCommitted | SinkAborted

datatype flusher = NoFlusher | Flushing | Stopped

text \<open>
  A queue item \<open>None\<close> is the sentinel that stops the flusher. \<open>bs_writer\<close> is the last writer
  handed out, with its \<open>completed\<close>; every earlier one is complete.
\<close>

record 'd buffered =
  bs_segment_size :: nat
  bs_max_buffered :: nat
  bs_logical_size :: nat
  bs_pool :: slot_pool
  bs_state :: sink_state
  bs_failure :: "err option"
  bs_ever_written :: bool
  bs_queue :: "segment option list"
  bs_creating :: bool
  bs_aborting :: bool
  bs_flusher :: flusher
  bs_next_index :: nat
  bs_writer :: "(segment \<times> bool) option"
  bs_abort_outcome :: "abort_outcome option"
  bs_dest :: 'd
  bs_ticks :: nat

definition SINK_SEGMENT_ALIGN :: nat where [const_defs]: "SINK_SEGMENT_ALIGN = 4096"

definition buffered_sink :: "int \<Rightarrow> int \<Rightarrow> 'd \<Rightarrow> 'd buffered res" where
  "buffered_sink segment_size max_buffered d =
     (if segment_size \<le> 0 \<or> segment_size mod int SINK_SEGMENT_ALIGN \<noteq> 0 then Inl PyValueError
      else if max_buffered < 1 then Inl PyValueError
      else Inr \<lparr>bs_segment_size = nat segment_size, bs_max_buffered = nat max_buffered, bs_logical_size = 0,
        bs_pool = slot_pool_init (nat segment_size), bs_state = SinkNew, bs_failure = None, bs_ever_written = False,
        bs_queue = [], bs_creating = False, bs_aborting = False, bs_flusher = NoFlusher, bs_next_index = 0,
        bs_writer = None, bs_abort_outcome = None, bs_dest = d, bs_ticks = 0\<rparr>)"

definition require_open :: "('d buffered, unit) op" where
  "require_open s = (if bs_state s = SinkOpen then Inr () else Inl PyRuntimeError, s)"

definition raise_failure :: "('d buffered, unit) op" where
  "raise_failure s = (case bs_failure s of None \<Rightarrow> Inr () | Some e \<Rightarrow> Inl e, s)"

subsection \<open>The flusher\<close>

definition flush_queued :: "'d hooks \<Rightarrow> segment \<Rightarrow> 'd buffered \<Rightarrow> 'd buffered" where
  "flush_queued h seg s =
     (if bs_failure s = None \<and> \<not> bs_aborting s then
        (case slot_read (sg_slot seg) 0 (sg_length seg) (bs_pool s) of
           Inl e \<Rightarrow> s\<lparr>bs_failure := Some e\<rparr>
         | Inr bytes \<Rightarrow>
             (case bh_flush h \<lparr>fs_index = sg_index seg, fs_start = sg_start seg, fs_bytes = bytes\<rparr> (bs_dest s) of
                (Inl e, d) \<Rightarrow> s\<lparr>bs_dest := d, bs_failure := Some e\<rparr>
              | (Inr _, d) \<Rightarrow> s\<lparr>bs_dest := d\<rparr>))
      else s)"

definition free_segment :: "segment \<Rightarrow> 'd buffered \<Rightarrow> 'd buffered" where
  "free_segment seg s =
     (if bs_failure s = None \<and> \<not> bs_aborting s then
        (case slot_release (sg_slot seg) (bs_pool s) of
           (Inl e, p) \<Rightarrow> s\<lparr>bs_pool := p, bs_failure := Some e\<rparr>
         | (Inr _, p) \<Rightarrow> s\<lparr>bs_pool := p\<rparr>)
      else s\<lparr>bs_pool := slot_discard (sg_slot seg) (bs_pool s)\<rparr>)"

text \<open>One turn of \<open>_flush_loop\<close>; with nothing queued it waits.\<close>

definition flush_step :: "'d hooks \<Rightarrow> 'd buffered \<Rightarrow> 'd buffered" where
  "flush_step h s =
     (if bs_flusher s \<noteq> Flushing then s
      else case bs_queue s of
        [] \<Rightarrow> s
      | None # q \<Rightarrow> s\<lparr>bs_queue := q, bs_flusher := Stopped\<rparr>
      | Some seg # q \<Rightarrow> free_segment seg (flush_queued h seg (s\<lparr>bs_queue := q\<rparr>)))"

fun flush_steps :: "'d hooks \<Rightarrow> nat \<Rightarrow> 'd buffered \<Rightarrow> 'd buffered" where
  "flush_steps h 0 s = s"
| "flush_steps h (Suc n) s = flush_steps h n (flush_step h s)"

text \<open>What the flusher gets done before a step of the exporter.\<close>

definition tick :: "'d hooks \<Rightarrow> 'd buffered \<Rightarrow> 'd buffered" where
  "tick h s = flush_steps h (bh_sched h (bs_ticks s)) (s\<lparr>bs_ticks := Suc (bs_ticks s)\<rparr>)"

lemma flush_step_queue:
  "bs_queue (flush_step h s) = (if bs_flusher s = Flushing then tl (bs_queue s) else bs_queue s)"
  by (auto simp: flush_step_def free_segment_def flush_queued_def split: list.split option.split sum.split prod.split)

text \<open>Waiting for the flusher to end, once the sentinel is queued.\<close>

function await_flusher :: "'d hooks \<Rightarrow> 'd buffered \<Rightarrow> 'd buffered" where
  "await_flusher h s = (if bs_flusher s = Flushing \<and> bs_queue s \<noteq> [] then await_flusher h (flush_step h s) else s)"
  by pat_completeness auto
termination by (relation "measure (\<lambda>(h, s). length (bs_queue s))") (auto simp: flush_step_queue)

text \<open>
  \<open>begin_segment\<close>'s wait for a slot. It ends when a slot is free, a flush has failed or an abort
  runs; otherwise only the flusher can end it, and with nothing for it to flush the wait never
  ends: \<open>None\<close>.
\<close>

function await_slot :: "'d hooks \<Rightarrow> 'd buffered \<Rightarrow> 'd buffered option" where
  "await_slot h s =
     (if bs_failure s \<noteq> None \<or> bs_aborting s \<or> sp_free (bs_pool s) \<noteq> [] then Some s
      else if bs_flusher s = Flushing \<and> bs_queue s \<noteq> [] then await_slot h (flush_step h s)
      else None)"
  by pat_completeness auto
termination by (relation "measure (\<lambda>(h, s). length (bs_queue s))") (auto simp: flush_step_queue)

declare await_flusher.simps [simp del] await_slot.simps [simp del]

subsection \<open>The operations of the sink\<close>

text \<open>\<open>-(-n // z)\<close>: how many segments of \<open>z\<close> bytes \<open>n\<close> bytes take.\<close>

definition segment_count :: "nat \<Rightarrow> nat \<Rightarrow> nat" where
  "segment_count z n = nat (- ((- int n) div int z))"

definition buffered_open :: "'d hooks \<Rightarrow> nat \<Rightarrow> bool \<Rightarrow> ('d buffered, unit) op" where
  "buffered_open h logical_size sparse s =
     (if bs_state s \<noteq> SinkNew then (Inl PyRuntimeError, s)
      else
        let s = s\<lparr>bs_logical_size := logical_size\<rparr>;
            slots = max 1 (min (bs_max_buffered s) (segment_count (bs_segment_size s) logical_size))
        in case slots_create (bh_alloc h) slots (bs_pool s) of
             (Inl e, p) \<Rightarrow> (Inl e, s\<lparr>bs_state := SinkAborted, bs_pool := slots_close p\<rparr>)
           | (Inr _, p) \<Rightarrow>
               let s = s\<lparr>bs_pool := p, bs_creating := True\<rparr> in
               case bh_create h logical_size sparse (bs_dest s) of
                 (Inl e, d) \<Rightarrow> (Inl e, s\<lparr>bs_dest := d\<rparr>)
               | (Inr _, d) \<Rightarrow> (Inr (), s\<lparr>bs_dest := d, bs_state := SinkOpen, bs_flusher := Flushing\<rparr>))"

text \<open>The checks of \<open>begin_segment\<close> before it waits, then the wait, then the slot.\<close>

definition writer_incomplete :: "'d buffered \<Rightarrow> bool" where
  "writer_incomplete s \<longleftrightarrow> (case bs_writer s of None \<Rightarrow> False | Some (seg, completed) \<Rightarrow> \<not> completed)"

definition check_begin :: "nat \<Rightarrow> nat \<Rightarrow> nat \<Rightarrow> ('d buffered, unit) op" where
  "check_begin index start len = op_bind require_open (\<lambda>_ s.
     (let expected = min (int (bs_segment_size s)) (int (bs_logical_size s) - int index * int (bs_segment_size s)) in
      if writer_incomplete s then Inl PyRuntimeError
      else if index \<noteq> bs_next_index s then Inl PyValueError
      else if (start, int len) \<noteq> (index * bs_segment_size s, expected) \<or> len = 0 then Inl PyValueError
      else Inr (), s))"

definition take_segment :: "nat \<Rightarrow> nat \<Rightarrow> nat \<Rightarrow> ('d buffered, segment) op" where
  "take_segment index start len = op_bind require_open (\<lambda>_. op_bind raise_failure (\<lambda>_ s.
     (case slots_take (bs_pool s) of
        (Inl e, p) \<Rightarrow> (Inl e, s\<lparr>bs_pool := p\<rparr>)
      | (Inr slot, p) \<Rightarrow>
          (let seg = \<lparr>sg_index = index, sg_start = start, sg_length = len, sg_slot = slot\<rparr> in
           (Inr seg, s\<lparr>bs_pool := p, bs_next_index := Suc (bs_next_index s), bs_writer := Some (seg, False)\<rparr>)))))"

definition begin_segment :: "'d hooks \<Rightarrow> nat \<Rightarrow> nat \<Rightarrow> nat \<Rightarrow> 'd buffered \<Rightarrow> (segment res \<times> 'd buffered) option" where
  "begin_segment h index start len s =
     (case check_begin index start len (tick h s) of
        (Inl e, s) \<Rightarrow> Some (Inl e, s)
      | (Inr _, s) \<Rightarrow> map_option (take_segment index start len) (await_slot h s))"

text \<open>The segment writer.\<close>

definition segment_checked :: "segment \<Rightarrow> int \<Rightarrow> nat \<Rightarrow> ('d buffered, unit) op" where
  "segment_checked seg off len = op_bind require_open (\<lambda>_. op_bind raise_failure (\<lambda>_ s.
     (if bs_writer s \<noteq> Some (seg, False) then Inl PyRuntimeError
      else if off < 0 \<or> int (sg_length seg) < off + int len then Inl PyValueError
      else Inr (), s)))"

definition on_slots :: "(slot_pool, 'a) op \<Rightarrow> ('d buffered, 'a) op" where
  "on_slots = op_zoom bs_pool (\<lambda>p s. s\<lparr>bs_pool := p\<rparr>)"

definition segment_write_at :: "'d hooks \<Rightarrow> segment \<Rightarrow> int \<Rightarrow> bytes \<Rightarrow> ('d buffered, unit) op" where
  "segment_write_at h seg off data s =
     op_bind (segment_checked seg off (length data)) (\<lambda>_ s.
       on_slots (slot_write_at (sg_slot seg) (nat off) data) (s\<lparr>bs_ever_written := True\<rparr>)) (tick h s)"

definition segment_write_zero :: "'d hooks \<Rightarrow> segment \<Rightarrow> int \<Rightarrow> nat \<Rightarrow> ('d buffered, unit) op" where
  "segment_write_zero h seg off len s =
     op_bind (segment_checked seg off len) (\<lambda>_ s.
       on_slots (slot_write_zero (sg_slot seg) (nat off) len) (s\<lparr>bs_ever_written := True\<rparr>)) (tick h s)"

definition segment_writer :: "'d hooks \<Rightarrow> segment \<Rightarrow> 'd buffered writer" where
  "segment_writer h seg = \<lparr>wr_write_at = segment_write_at h seg, wr_write_zero = segment_write_zero h seg,
     wr_sparse = True, wr_preallocated = (\<lambda>_. True)\<rparr>"

definition note_worker_write :: "segment \<Rightarrow> 'd buffered \<Rightarrow> 'd buffered" where
  "note_worker_write seg s = s\<lparr>bs_ever_written := True, bs_pool := slot_note_write (sg_slot seg) (bs_pool s)\<rparr>"

definition complete_segment :: "'d hooks \<Rightarrow> segment \<Rightarrow> ('d buffered, unit) op" where
  "complete_segment h seg s =
     op_bind (segment_checked seg 0 0) (\<lambda>_ s. (Inr (), s\<lparr>bs_writer := Some (seg, True), bs_queue := bs_queue s @ [Some seg]\<rparr>)) (tick h s)"

definition push_sentinel :: "'d buffered \<Rightarrow> 'd buffered" where
  "push_sentinel s = s\<lparr>bs_queue := bs_queue s @ [None]\<rparr>"

definition finalize :: "'d hooks \<Rightarrow> ('d buffered, unit) op" where
  "finalize h s =
     (case bh_finalize h (bs_dest s) of
        (Inl e, d) \<Rightarrow> (Inl e, s\<lparr>bs_dest := d\<rparr>)
      | (Inr _, d) \<Rightarrow> (Inr (), s\<lparr>bs_dest := d, bs_state := SinkCommitted\<rparr>))"

definition buffered_commit :: "'d hooks \<Rightarrow> ('d buffered, unit) op" where
  "buffered_commit h s =
     op_bind require_open (\<lambda>_.
     op_bind (\<lambda>s. (if writer_incomplete s then Inl PyRuntimeError else Inr (), s)) (\<lambda>_.
     op_bind raise_failure (\<lambda>_.
     op_bind (\<lambda>s. (Inr (), await_flusher h (push_sentinel s))) (\<lambda>_.
     op_bind require_open (\<lambda>_.
     op_bind raise_failure (\<lambda>_.
     op_bind (finalize h) (\<lambda>_ s.
       (Inr (), s\<lparr>bs_pool := slots_close (bs_pool s)\<rparr>)))))))) (tick h s)"

definition buffered_abort :: "'d hooks \<Rightarrow> ('d buffered, abort_outcome) op" where
  "buffered_abort h s =
     (case bs_abort_outcome s of
        Some out \<Rightarrow> (Inr out, s)
      | None \<Rightarrow>
          let s = tick h s;
              was = bs_state s;
              s = s\<lparr>bs_aborting := True, bs_state := (if was \<noteq> SinkCommitted then SinkAborted else was)\<rparr>;
              s = (if bs_flusher s \<noteq> NoFlusher then await_flusher h (push_sentinel s) else s);
              s = s\<lparr>bs_pool := slots_close (bs_pool s)\<rparr>
          in if was = SinkCommitted then
               (let out = \<lparr>ao_kept = True, ao_ever_written = bs_ever_written s\<rparr> in (Inr out, s\<lparr>bs_abort_outcome := Some out\<rparr>))
             else if \<not> bs_creating s then
               (let out = \<lparr>ao_kept = False, ao_ever_written = False\<rparr> in (Inr out, s\<lparr>bs_abort_outcome := Some out\<rparr>))
             else
               case bh_discard h (bs_dest s) of
                 (Inl e, d) \<Rightarrow>
                   (Inl e, s\<lparr>bs_dest := d, bs_abort_outcome := Some \<lparr>ao_kept = True, ao_ever_written = bs_ever_written s\<rparr>\<rparr>)
               | (Inr kept, d) \<Rightarrow>
                   (let out = \<lparr>ao_kept = kept, ao_ever_written = bs_ever_written s\<rparr> in
                    (Inr out, s\<lparr>bs_dest := d, bs_abort_outcome := Some out\<rparr>)))"

end
