(* ===== verification/BufferedPipe.thy ===== *)
theory BufferedPipe
  imports BufferedSink
begin

text \<open>
  Why a buffered sink delivers the export in order: the invariant of its pipeline, kept by
  every step of the exporter and of the flusher, and what each operation does under it.
\<close>

subsection \<open>The segments of an export\<close>

definition seg_part :: "nat \<Rightarrow> bytes \<Rightarrow> nat \<Rightarrow> bytes" where
  "seg_part z out i = take z (drop (i * z) out)"

definition flushable_of :: "nat \<Rightarrow> bytes \<Rightarrow> nat \<Rightarrow> flushable" where
  "flushable_of z out i = \<lparr>fs_index = i, fs_start = i * z, fs_bytes = seg_part z out i\<rparr>"

definition flush_first :: "'d hooks \<Rightarrow> nat \<Rightarrow> bytes \<Rightarrow> nat \<Rightarrow> ('d, unit) op" where
  "flush_first h z out k = op_each (\<lambda>i. bh_flush h (flushable_of z out i)) [0..<k]"

definition segment_ok :: "nat \<Rightarrow> nat \<Rightarrow> segment \<Rightarrow> bool" where
  "segment_ok z n seg \<longleftrightarrow> sg_start seg = sg_index seg * z \<and> sg_length seg = min z (n - sg_index seg * z) \<and> 0 < sg_length seg"

lemma flush_first_Suc: "flush_first h z out (Suc k) = op_bind (flush_first h z out k) (\<lambda>_. bh_flush h (flushable_of z out k))"
  by (auto simp: flush_first_def op_each_append op_bind_def fun_eq_iff split: prod.split sum.split)

lemma length_part: "segment_ok z (length out) seg \<Longrightarrow> length (seg_part z out (sg_index seg)) = sg_length seg"
  by (simp add: segment_ok_def seg_part_def)

subsection \<open>The invariant\<close>

text \<open>
  The slots in the queue, of the open writer and on the free list are all the slots, once
  each. While nothing has failed, the first \<open>k\<close> segments have been flushed, the queue holds the
  next ones in order, each in a slot with its bytes, and the open writer's comes after them;
  slots that are free, and slots nobody wrote, are zero. After a failure the destination is as
  the failed flush left it.
\<close>

definition slot_list :: "segment option \<Rightarrow> segment list \<Rightarrow> slot_pool \<Rightarrow> nat list" where
  "slot_list w segs p = map sg_slot segs @ (case w of None \<Rightarrow> [] | Some seg \<Rightarrow> [sg_slot seg]) @ sp_free p"

definition pipe_frame :: "nat \<Rightarrow> bytes \<Rightarrow> nat \<Rightarrow> nat \<Rightarrow> segment option \<Rightarrow> 'd buffered \<Rightarrow> bool" where
  "pipe_frame z out N m w s \<longleftrightarrow>
     0 < z \<and> 0 < N \<and> bs_segment_size s = z \<and> bs_logical_size s = length out \<and> bs_state s = SinkOpen \<and> bs_flusher s = Flushing \<and>
     bs_creating s \<and> \<not> bs_aborting s \<and> bs_abort_outcome s = None \<and> bs_next_index s = m \<and>
     (case w of None \<Rightarrow> \<not> writer_incomplete s
      | Some seg \<Rightarrow> bs_writer s = Some (seg, False) \<and> segment_ok z (length out) seg \<and> Suc (sg_index seg) = m)"

definition flowing :: "'d hooks \<Rightarrow> nat \<Rightarrow> bytes \<Rightarrow> 'd \<Rightarrow> nat \<Rightarrow> nat \<Rightarrow> segment option \<Rightarrow> segment list \<Rightarrow> 'd buffered \<Rightarrow> bool" where
  "flowing h z out d0 N m w segs s \<longleftrightarrow>
     (\<exists>k. map sg_index segs = [k..<k + length segs] \<and> m = k + length segs + (if w = None then 0 else 1) \<and>
        flush_first h z out k d0 = (Inr (), bs_dest s)) \<and>
     (\<forall>x \<in> set segs. take (sg_length x) (slot_bytes (sg_slot x) (bs_pool s)) = seg_part z out (sg_index x)) \<and>
     (\<forall>j \<in> set (sp_free (bs_pool s)). slot_bytes j (bs_pool s) = replicate z 0) \<and>
     (\<forall>j < N. j \<notin> sp_touched (bs_pool s) \<longrightarrow> slot_bytes j (bs_pool s) = replicate z 0)"

text \<open>The flush of a completed segment failed.\<close>

definition completed :: "nat \<Rightarrow> segment option \<Rightarrow> nat" where
  "completed m w = (if w = None then m else m - 1)"

definition stuck :: "'d hooks \<Rightarrow> nat \<Rightarrow> bytes \<Rightarrow> 'd \<Rightarrow> nat \<Rightarrow> err \<Rightarrow> 'd \<Rightarrow> bool" where
  "stuck h z out d0 b e d \<longleftrightarrow> (\<exists>i < b. i * z < length out \<and> flush_first h z out (Suc i) d0 = (Inl e, d))"

definition pipe_at :: "'d hooks \<Rightarrow> nat \<Rightarrow> bytes \<Rightarrow> 'd \<Rightarrow> nat \<Rightarrow> nat \<Rightarrow> segment option \<Rightarrow> segment list \<Rightarrow> 'd buffered \<Rightarrow> bool" where
  "pipe_at h z out d0 N m w segs s \<longleftrightarrow>
     pipe_frame z out N m w s \<and> slots_ok z N (bs_pool s) \<and> bs_queue s = map Some segs \<and>
     (\<forall>x \<in> set segs. segment_ok z (length out) x) \<and>
     distinct (slot_list w segs (bs_pool s)) \<and> set (slot_list w segs (bs_pool s)) = {..<N} \<and>
     (case bs_failure s of None \<Rightarrow> flowing h z out d0 N m w segs s | Some e \<Rightarrow> stuck h z out d0 (completed m w) e (bs_dest s))"

definition pipe :: "'d hooks \<Rightarrow> nat \<Rightarrow> bytes \<Rightarrow> 'd \<Rightarrow> nat \<Rightarrow> nat \<Rightarrow> segment option \<Rightarrow> 'd buffered \<Rightarrow> bool" where
  "pipe h z out d0 N m w s \<longleftrightarrow> (\<exists>segs. pipe_at h z out d0 N m w segs s)"

subsection \<open>The flusher keeps it\<close>

lemma flush_step_frame:
  assumes "bs_flusher s = Flushing" and "bs_queue s = Some seg # q"
  shows "bs_segment_size (flush_step h s) = bs_segment_size s \<and> bs_logical_size (flush_step h s) = bs_logical_size s \<and>
    bs_state (flush_step h s) = bs_state s \<and> bs_flusher (flush_step h s) = Flushing \<and> bs_creating (flush_step h s) = bs_creating s \<and>
    bs_aborting (flush_step h s) = bs_aborting s \<and> bs_abort_outcome (flush_step h s) = bs_abort_outcome s \<and>
    bs_next_index (flush_step h s) = bs_next_index s \<and> bs_writer (flush_step h s) = bs_writer s"
  using assms by (auto simp: flush_step_def free_segment_def flush_queued_def split: sum.split prod.split)

lemma pipe_frame_step:
  assumes "pipe_frame z out N m w s" and "bs_queue s = Some seg # q"
  shows "pipe_frame z out N m w (flush_step h s)"
proof -
  have "bs_flusher s = Flushing" using assms(1) by (simp add: pipe_frame_def)
  from flush_step_frame [OF this assms(2), of h] show ?thesis
    using assms(1) by (cases w) (simp_all add: pipe_frame_def writer_incomplete_def)
qed

lemma flush_step_failed:
  assumes "bs_flusher s = Flushing" and "bs_queue s = Some seg # q" and "bs_failure s \<noteq> None \<or> bs_aborting s"
  shows "flush_step h s = s\<lparr>bs_queue := q, bs_pool := slot_discard (sg_slot seg) (bs_pool s)\<rparr>"
  using assms by (auto simp: flush_step_def free_segment_def flush_queued_def)

lemma slot_discard_simps [simp]:
  "slots_ok z N (slot_discard j p) = slots_ok z N p" "slot_bytes i (slot_discard j p) = slot_bytes i p"
  "sp_free (slot_discard j p) = sp_free p @ [j]" "sp_touched (slot_discard j p) = sp_touched p"
  by (simp_all add: slots_ok_def slot_discard_def slot_bytes_def slot_base_def)

lemma pipe_at_slots:
  assumes "pipe_at h z out d0 N m w (x # xs) s"
  shows "sg_slot x < N" and "sg_slot x \<notin> sg_slot ` set xs" and "sg_slot x \<notin> set (sp_free (bs_pool s))"
    and "w = Some seg \<Longrightarrow> sg_slot seg \<noteq> sg_slot x"
  using assms by (auto simp: pipe_at_def slot_list_def split: option.splits)

text \<open>A slot goes from the head of the queue to the end of the free list.\<close>

lemma slot_list_freed:
  assumes "sp_free p' = sp_free p @ [sg_slot x]"
  shows "distinct (slot_list w xs p') = distinct (slot_list w (x # xs) p)" and "set (slot_list w xs p') = set (slot_list w (x # xs) p)"
  using assms by (auto simp: slot_list_def)

lemma slot_released:
  assumes "slots_ok z N p" and "j < N" and "j \<notin> sp_touched p \<Longrightarrow> slot_bytes j p = replicate z 0"
    and "slot_release j p = (Inr (), q)"
  shows "slots_ok z N q \<and> sp_free q = sp_free p @ [j] \<and> sp_touched q = sp_touched p \<and> slot_bytes j q = replicate z 0 \<and>
    (\<forall>i. i < N \<longrightarrow> i \<noteq> j \<longrightarrow> slot_bytes i q = slot_bytes i p)"
  using assms(1-3) by (rule slot_release_spec) (use assms(4) in auto)

lemma flush_step_flowing:
  assumes p: "pipe_at h z out d0 N m w (x # xs) s" and ok: "bs_failure s = None"
  obtains d p' where "bh_flush h (flushable_of z out (sg_index x)) (bs_dest s) = (Inr (), d)"
      and "flush_step h s = s\<lparr>bs_queue := map Some xs, bs_dest := d, bs_pool := p'\<rparr>"
      and "slot_release (sg_slot x) (bs_pool s) = (Inr (), p')"
    | e d where "bh_flush h (flushable_of z out (sg_index x)) (bs_dest s) = (Inl e, d)"
      and "flush_step h s = s\<lparr>bs_queue := map Some xs, bs_dest := d, bs_failure := Some e,
        bs_pool := slot_discard (sg_slot x) (bs_pool s)\<rparr>"
proof -
  have f: "flowing h z out d0 N m w (x # xs) s" and q: "bs_queue s = Some x # map Some xs" and slots: "slots_ok z N (bs_pool s)"
    and seg: "segment_ok z (length out) x" and fr: "bs_flusher s = Flushing" "\<not> bs_aborting s"
    using p ok by (simp_all add: pipe_at_def pipe_frame_def)
  have "sg_length x \<le> z" using seg by (simp add: segment_ok_def)
  then have rd: "slot_read (sg_slot x) 0 (sg_length x) (bs_pool s) = Inr (seg_part z out (sg_index x))"
    using slot_read_spec [OF slots] f by (simp add: flowing_def)
  have arg: "\<lparr>fs_index = sg_index x, fs_start = sg_start x, fs_bytes = seg_part z out (sg_index x)\<rparr> = flushable_of z out (sg_index x)"
    using seg by (simp add: flushable_of_def segment_ok_def)
  obtain r d where fl: "bh_flush h (flushable_of z out (sg_index x)) (bs_dest s) = (r, d)" by fastforce
  show thesis
  proof (cases r)
    case (Inl e)
    have "flush_step h s = s\<lparr>bs_queue := map Some xs, bs_dest := d, bs_failure := Some e,
        bs_pool := slot_discard (sg_slot x) (bs_pool s)\<rparr>"
      using fl rd arg fr q ok by (simp add: flush_step_def flush_queued_def free_segment_def Inl)
    then show thesis using fl by (intro that(2)) (simp_all add: Inl)
  next
    case (Inr u)
    have un: "slot_bytes (sg_slot x) (bs_pool s) = replicate z 0" if "sg_slot x \<notin> sp_touched (bs_pool s)"
      using that f pipe_at_slots(1) [OF p] by (simp add: flowing_def)
    obtain p' where rel: "slot_release (sg_slot x) (bs_pool s) = (Inr (), p')"
      using slots pipe_at_slots(1) [OF p] un by (rule slot_release_spec) blast
    have "flush_step h s = s\<lparr>bs_queue := map Some xs, bs_dest := d, bs_pool := p'\<rparr>"
      using fl rd arg fr q ok rel by (simp add: flush_step_def flush_queued_def free_segment_def Inr)
    then show thesis using fl rel by (intro that(1)) (simp_all add: Inr)
  qed
qed

lemma pipe_at_step:
  assumes p: "pipe_at h z out d0 N m w (x # xs) s"
  shows "pipe_at h z out d0 N m w xs (flush_step h s)"
    and "w = Some seg \<Longrightarrow> slot_bytes (sg_slot seg) (bs_pool (flush_step h s)) = slot_bytes (sg_slot seg) (bs_pool s)"
    and "bs_failure s \<noteq> None \<Longrightarrow> bs_failure (flush_step h s) = bs_failure s \<and> bs_dest (flush_step h s) = bs_dest s"
    and "bs_failure s = None \<Longrightarrow> \<forall>y d. fst (bh_flush h y d) = Inr () \<Longrightarrow> bs_failure (flush_step h s) = None"
proof -
  have q: "bs_queue s = Some x # map Some xs" and slots: "slots_ok z N (bs_pool s)" and fr: "pipe_frame z out N m w s"
    using p by (simp_all add: pipe_at_def)
  have flusher: "bs_flusher s = Flushing" using fr by (simp add: pipe_frame_def)
  note frame = pipe_frame_step [OF fr q, of h]
  note sl = pipe_at_slots [OF p]
  have "pipe_at h z out d0 N m w xs (flush_step h s) \<and>
    (\<forall>seg. w = Some seg \<longrightarrow> slot_bytes (sg_slot seg) (bs_pool (flush_step h s)) = slot_bytes (sg_slot seg) (bs_pool s)) \<and>
    (bs_failure s \<noteq> None \<longrightarrow> bs_failure (flush_step h s) = bs_failure s \<and> bs_dest (flush_step h s) = bs_dest s) \<and>
    (bs_failure s = None \<longrightarrow> (\<forall>y d. fst (bh_flush h y d) = Inr ()) \<longrightarrow> bs_failure (flush_step h s) = None)"
  proof (cases "bs_failure s")
    case (Some e)
    then have st: "flush_step h s = s\<lparr>bs_queue := map Some xs, bs_pool := slot_discard (sg_slot x) (bs_pool s)\<rparr>"
      by (intro flush_step_failed [OF flusher q]) simp
    then show ?thesis
      using p frame Some slot_list_freed [of "slot_discard (sg_slot x) (bs_pool s)" "bs_pool s" x w xs]
      by (auto simp: pipe_at_def)
  next
    case None
    have f: "flowing h z out d0 N m w (x # xs) s" using p None by (simp add: pipe_at_def)
    then obtain k where ks: "map sg_index (x # xs) = [k..<k + length (x # xs)]"
      "m = k + length (x # xs) + (if w = None then 0 else 1)" "flush_first h z out k d0 = (Inr (), bs_dest s)"
      by (auto simp only: flowing_def)
    have "[k..<k + length (x # xs)] = k # [Suc k..<Suc k + length xs]" by (simp add: upt_conv_Cons del: upt_Suc)
    then have k: "sg_index x = k" "map sg_index xs = [Suc k..<Suc k + length xs]"
      "m = Suc k + length xs + (if w = None then 0 else 1)" "flush_first h z out k d0 = (Inr (), bs_dest s)"
      using ks by (simp_all del: upt_Suc)
    show ?thesis
    proof (rule flush_step_flowing [OF p None])
      fix d p'
      assume fl: "bh_flush h (flushable_of z out (sg_index x)) (bs_dest s) = (Inr (), d)"
        and st: "flush_step h s = s\<lparr>bs_queue := map Some xs, bs_dest := d, bs_pool := p'\<rparr>"
        and rel: "slot_release (sg_slot x) (bs_pool s) = (Inr (), p')"
      have un: "slot_bytes (sg_slot x) (bs_pool s) = replicate z 0" if "sg_slot x \<notin> sp_touched (bs_pool s)"
        using that f sl(1) by (simp add: flowing_def)
      have p': "slots_ok z N p'" "sp_free p' = sp_free (bs_pool s) @ [sg_slot x]" "sp_touched p' = sp_touched (bs_pool s)"
        "slot_bytes (sg_slot x) p' = replicate z 0" "\<And>i. i < N \<Longrightarrow> i \<noteq> sg_slot x \<Longrightarrow> slot_bytes i p' = slot_bytes i (bs_pool s)"
        using slot_released [OF slots sl(1) un rel] by blast+
      have lt: "j < N" if "j \<in> set (slot_list w (x # xs) (bs_pool s))" for j using that p by (auto simp: pipe_at_def)
      have other: "slot_bytes j p' = slot_bytes j (bs_pool s)" if "j \<in> set (slot_list w xs (bs_pool s))" for j
      proof (rule p'(5))
        have "distinct (slot_list w (x # xs) (bs_pool s))" using p by (simp add: pipe_at_def)
        then show "j \<noteq> sg_slot x" using that by (auto simp: slot_list_def)
      qed (use that lt in \<open>auto simp: slot_list_def\<close>)
      have "flush_first h z out (Suc k) d0 = (Inr (), d)" using k(1,4) fl by (simp add: flush_first_Suc)
      moreover have "\<forall>y \<in> set xs. take (sg_length y) (slot_bytes (sg_slot y) p') = seg_part z out (sg_index y)"
        using f other by (auto simp: flowing_def slot_list_def)
      moreover have "\<forall>j \<in> set (sp_free p'). slot_bytes j p' = replicate z 0"
        using f p'(2,4) other by (auto simp: flowing_def slot_list_def)
      moreover have "\<forall>j < N. j \<notin> sp_touched p' \<longrightarrow> slot_bytes j p' = replicate z 0"
        using f p'(3-5) by (metis flowing_def)
      ultimately have "flowing h z out d0 N m w xs (flush_step h s)"
        using k by (auto simp: flowing_def st)
      moreover have "slot_bytes (sg_slot seg) p' = slot_bytes (sg_slot seg) (bs_pool s)" if "w = Some seg" for seg
        using that by (intro other) (simp add: slot_list_def)
      ultimately show ?thesis
        using p frame None p'(1,2) st slot_list_freed [of p' "bs_pool s" x w xs] by (auto simp: pipe_at_def)
    next
      fix e d
      assume fl: "bh_flush h (flushable_of z out (sg_index x)) (bs_dest s) = (Inl e, d)"
        and st: "flush_step h s = s\<lparr>bs_queue := map Some xs, bs_dest := d, bs_failure := Some e,
          bs_pool := slot_discard (sg_slot x) (bs_pool s)\<rparr>"
      have "flush_first h z out (Suc k) d0 = (Inl e, d)" using k(1,4) fl by (simp add: flush_first_Suc)
      moreover have "k * z < length out" using p k(1) by (auto simp: pipe_at_def segment_ok_def)
      moreover have "k < completed m w" using k(3) by (simp add: completed_def)
      ultimately have "stuck h z out d0 (completed m w) e d" by (auto simp: stuck_def)
      moreover have "\<not> (\<forall>y d. fst (bh_flush h y d) = Inr ())" using fl by (metis Inl_Inr_False fst_conv)
      ultimately show ?thesis
        using p frame None st slot_list_freed [of "slot_discard (sg_slot x) (bs_pool s)" "bs_pool s" x w xs]
        by (auto simp: pipe_at_def)
    qed
  qed
  then show "pipe_at h z out d0 N m w xs (flush_step h s)"
    and "w = Some seg \<Longrightarrow> slot_bytes (sg_slot seg) (bs_pool (flush_step h s)) = slot_bytes (sg_slot seg) (bs_pool s)"
    and "bs_failure s \<noteq> None \<Longrightarrow> bs_failure (flush_step h s) = bs_failure s \<and> bs_dest (flush_step h s) = bs_dest s"
    and "bs_failure s = None \<Longrightarrow> \<forall>y d. fst (bh_flush h y d) = Inr () \<Longrightarrow> bs_failure (flush_step h s) = None"
    by blast+
qed

text \<open>What the flusher leaves alone, and when it does not fail.\<close>

definition unfailing :: "'d hooks \<Rightarrow> bool" where
  "unfailing h \<longleftrightarrow> (\<forall>y d. fst (bh_flush h y d) = Inr ())"

definition calm :: "'d hooks \<Rightarrow> segment option \<Rightarrow> 'd buffered \<Rightarrow> 'd buffered \<Rightarrow> bool" where
  "calm h w s t \<longleftrightarrow>
     (\<forall>seg. w = Some seg \<longrightarrow> slot_bytes (sg_slot seg) (bs_pool t) = slot_bytes (sg_slot seg) (bs_pool s)) \<and>
     (bs_failure s \<noteq> None \<longrightarrow> bs_failure t = bs_failure s \<and> bs_dest t = bs_dest s) \<and>
     (bs_failure s = None \<longrightarrow> unfailing h \<longrightarrow> bs_failure t = None)"

lemma calm_refl [simp]: "calm h w s s" by (simp add: calm_def)

lemma calm_trans: "calm h w s t \<Longrightarrow> calm h w t u \<Longrightarrow> calm h w s u"
  by (auto simp: calm_def)

lemma pipe_at_calm: "pipe_at h z out d0 N m w (x # xs) s \<Longrightarrow> calm h w s (flush_step h s)"
  using pipe_at_step(2-4) [of h z out d0 N m w x xs s] by (auto simp: calm_def unfailing_def)

lemma pipe_at_Nil: "pipe_at h z out d0 N m w [] s \<Longrightarrow> flush_step h s = s"
  by (simp add: pipe_at_def flush_step_def)

lemma pipe_steps: "pipe h z out d0 N m w s \<Longrightarrow> pipe h z out d0 N m w (flush_steps h n s) \<and> calm h w s (flush_steps h n s)"
proof (induction n arbitrary: s)
  case (Suc n)
  obtain segs where p: "pipe_at h z out d0 N m w segs s" using Suc.prems by (auto simp: pipe_def)
  have "pipe h z out d0 N m w (flush_step h s) \<and> calm h w s (flush_step h s)"
  proof (cases segs)
    case Nil
    then show ?thesis using p pipe_at_Nil [of h z out d0 N m w s] by (auto simp: pipe_def)
  next
    case (Cons x xs)
    have q: "pipe_at h z out d0 N m w (x # xs) s" using p by (simp only: Cons)
    show ?thesis using pipe_at_step(1) [OF q] pipe_at_calm [OF q] unfolding pipe_def by blast
  qed
  then have step: "pipe h z out d0 N m w (flush_step h s)" "calm h w s (flush_step h s)" by blast+
  show ?case using Suc.IH [OF step(1)] calm_trans [OF step(2)] by simp
qed simp

lemma pipe_ticks [simp]: "pipe h z out d0 N m w (s\<lparr>bs_ticks := t\<rparr>) = pipe h z out d0 N m w s"
  "calm h w (s\<lparr>bs_ticks := t\<rparr>) u = calm h w s u"
proof -
  have "pipe_frame z out N m w (s\<lparr>bs_ticks := t\<rparr>) = pipe_frame z out N m w s"
    by (cases w) (simp_all add: pipe_frame_def writer_incomplete_def)
  moreover have "flowing h z out d0 N m w segs (s\<lparr>bs_ticks := t\<rparr>) = flowing h z out d0 N m w segs s" for segs
    by (simp add: flowing_def)
  ultimately show "pipe h z out d0 N m w (s\<lparr>bs_ticks := t\<rparr>) = pipe h z out d0 N m w s"
    by (cases "bs_failure s") (simp_all add: pipe_def pipe_at_def)
qed (simp add: calm_def)

lemma pipe_tick: "pipe h z out d0 N m w s \<Longrightarrow> pipe h z out d0 N m w (tick h s) \<and> calm h w s (tick h s)"
  using pipe_steps [of h z out d0 N m w "s\<lparr>bs_ticks := Suc (bs_ticks s)\<rparr>"] by (simp add: tick_def)

lemma pipe_open:
  assumes "pipe h z out d0 N m w s"
  shows "require_open s = (Inr (), s)"
    and "raise_failure s = (case bs_failure s of None \<Rightarrow> Inr () | Some e \<Rightarrow> Inl e, s)"
  using assms by (simp_all add: pipe_def pipe_at_def pipe_frame_def require_open_def raise_failure_def)

subsection \<open>The writer of a segment\<close>

definition segment_held :: "segment \<Rightarrow> 'd buffered \<Rightarrow> bytes option" where
  "segment_held seg s =
     (if bs_failure s = None then Some (take (sg_length seg) (slot_bytes (sg_slot seg) (bs_pool s))) else None)"

definition segment_ready :: "'d hooks \<Rightarrow> segment \<Rightarrow> 'd buffered \<Rightarrow> bool" where
  "segment_ready h seg s \<longleftrightarrow> bs_failure s = None \<and> unfailing h"

lemma pipe_segment:
  assumes "pipe h z out d0 N m (Some seg) s"
  shows "sg_slot seg < N" and "slots_ok z N (bs_pool s)" and "sg_length seg \<le> z" and "bs_writer s = Some (seg, False)"
  using assms by (auto simp: pipe_def pipe_at_def pipe_frame_def segment_ok_def slot_list_def)

lemma calm_held:
  assumes "calm h (Some seg) s t"
  shows "segment_held seg t = (if bs_failure t = None then segment_held seg s else None)"
proof (cases "bs_failure t")
  case None
  then have "bs_failure s = None" using assms by (cases "bs_failure s") (auto simp: calm_def)
  then show ?thesis using assms None by (simp add: calm_def segment_held_def)
qed (simp add: segment_held_def)

lemma segment_checked_pipe:
  assumes "pipe h z out d0 N m (Some seg) s"
  shows "segment_checked seg off len s =
    (case bs_failure s of Some e \<Rightarrow> Inl e
     | None \<Rightarrow> (if off < 0 \<or> int (sg_length seg) < off + int len then Inl PyValueError else Inr ()), s)"
  using pipe_open [OF assms] pipe_segment(4) [OF assms] by (simp add: segment_checked_def op_bind_def split: option.split)

text \<open>A write into the open slot.\<close>

lemma pipe_write:
  assumes p: "pipe h z out d0 N m (Some seg) s" and ok: "bs_failure s = None" and fits: "off + length data \<le> sg_length seg"
  obtains q where "slot_write_at (sg_slot seg) off data (bs_pool s) = (Inr (), q)"
    and "pipe h z out d0 N m (Some seg) (s\<lparr>bs_ever_written := True, bs_pool := q\<rparr>)"
    and "slot_bytes (sg_slot seg) q = pslice_assign off (off + length data) data (slot_bytes (sg_slot seg) (bs_pool s))"
proof -
  obtain segs where pa: "pipe_at h z out d0 N m (Some seg) segs s" using p by (auto simp: pipe_def)
  note seg = pipe_segment [OF p]
  have "off + length data \<le> z" using fits seg(3) by simp
  with seg(2,1) show thesis
  proof (rule slot_write_at_spec)
    fix q
    assume q: "slot_write_at (sg_slot seg) off data (bs_pool s) = (Inr (), q)" "slots_ok z N q" "sp_free q = sp_free (bs_pool s)"
      "sp_touched q = insert (sg_slot seg) (sp_touched (bs_pool s))"
      "slot_bytes (sg_slot seg) q = pslice_assign off (off + length data) data (slot_bytes (sg_slot seg) (bs_pool s))"
      "\<And>i. i < N \<Longrightarrow> i \<noteq> sg_slot seg \<Longrightarrow> slot_bytes i q = slot_bytes i (bs_pool s)"
    let ?s = "s\<lparr>bs_ever_written := True, bs_pool := q\<rparr>"
    have d: "distinct (slot_list (Some seg) segs (bs_pool s))" "set (slot_list (Some seg) segs (bs_pool s)) = {..<N}"
      using pa by (simp_all add: pipe_at_def)
    have other: "slot_bytes j q = slot_bytes j (bs_pool s)" if "j \<in> sg_slot ` set segs \<union> set (sp_free (bs_pool s))" for j
      by (rule q(6)) (use that d in \<open>auto simp: slot_list_def\<close>)
    have f: "flowing h z out d0 N m (Some seg) segs s" using pa ok by (simp add: pipe_at_def)
    have "flowing h z out d0 N m (Some seg) segs ?s"
      using f other q(3,4,6) by (simp add: flowing_def)
    then have "pipe_at h z out d0 N m (Some seg) segs ?s"
      using pa ok q(2,3) by (simp add: pipe_at_def pipe_frame_def slot_list_def)
    then show thesis using q(1,5) by (intro that) (auto simp: pipe_def)
  qed
qed

lemma take_pslice_assign:
  "off + length data \<le> n \<Longrightarrow> n \<le> length f \<Longrightarrow>
    take n (pslice_assign off (off + length data) data f) = pslice_assign off (off + length data) data (take n f)"
  by (intro nth_equalityI) (simp_all add: nth_pslice_assign)

text \<open>What any write through the segment writer does.\<close>

lemma segment_write_at_pipe:
  assumes p: "pipe h z out d0 N m (Some seg) s"
  shows "(\<exists>e. segment_write_at h seg off data s = (Inl e, tick h s) \<and>
      (bs_failure (tick h s) = Some e \<or> off < 0 \<or> int (sg_length seg) < off + int (length data))) \<or>
    (\<exists>u. segment_write_at h seg off data s = (Inr (), u) \<and> pipe h z out d0 N m (Some seg) u \<and>
       0 \<le> off \<and> nat off + length data \<le> sg_length seg \<and> bs_failure (tick h s) = None \<and>
       segment_held seg u = map_option (pslice_assign (nat off) (nat off + length data) data) (segment_held seg s) \<and>
       bs_failure u = None)"
proof -
  define t where "t = tick h s"
  have t: "pipe h z out d0 N m (Some seg) t" "calm h (Some seg) s t" using pipe_tick [OF p] by (simp_all add: t_def)
  note chk = segment_checked_pipe [OF t(1), of off "length data"]
  show ?thesis
  proof (cases "bs_failure t = None \<and> 0 \<le> off \<and> off + int (length data) \<le> int (sg_length seg)")
    case False
    then show ?thesis
      using chk by (auto simp: segment_write_at_def t_def [symmetric] op_bind_def split: option.split)
  next
    case True
    then have fits: "nat off + length data \<le> sg_length seg" by auto
    obtain q where q: "slot_write_at (sg_slot seg) (nat off) data (bs_pool t) = (Inr (), q)"
      "pipe h z out d0 N m (Some seg) (t\<lparr>bs_ever_written := True, bs_pool := q\<rparr>)"
      "slot_bytes (sg_slot seg) q = pslice_assign (nat off) (nat off + length data) data (slot_bytes (sg_slot seg) (bs_pool t))"
      using pipe_write [OF t(1) _ fits] True by blast
    let ?u = "t\<lparr>bs_ever_written := True, bs_pool := q\<rparr>"
    have "segment_write_at h seg off data s = (Inr (), ?u)"
      using chk True q(1) by (simp add: segment_write_at_def t_def [symmetric] on_slots_def op_zoom_def)
    moreover have "segment_held seg ?u = map_option (pslice_assign (nat off) (nat off + length data) data) (segment_held seg t)"
      using True q(3) take_pslice_assign [OF fits, of "slot_bytes (sg_slot seg) (bs_pool t)"]
        pipe_segment(1-3) [OF t(1)] length_slot_bytes [of z N "bs_pool t" "sg_slot seg"]
      by (simp add: segment_held_def)
    moreover have "segment_held seg t = segment_held seg s" using calm_held [OF t(2)] True by simp
    ultimately show ?thesis using q(2) True fits by (auto simp: t_def)
  qed
qed

lemma segment_write_zero_is:
  assumes p: "pipe h z out d0 N m (Some seg) s"
  shows "segment_write_zero h seg off n s = segment_write_at h seg off (replicate n 0) s"
proof -
  define t where "t = tick h s"
  have t: "pipe h z out d0 N m (Some seg) t" using pipe_tick [OF p] by (simp add: t_def)
  note seg = pipe_segment [OF t]
  show ?thesis
  proof (cases "bs_failure t = None \<and> 0 \<le> off \<and> off + int n \<le> int (sg_length seg)")
    case False
    then show ?thesis using segment_checked_pipe [OF t, of off n]
      by (auto simp: segment_write_at_def segment_write_zero_def t_def [symmetric] op_bind_def split: option.split)
  next
    case True
    then have "nat off + n \<le> z" using seg(3) by auto
    from slot_write_zero_is [OF seg(2,1) this] show ?thesis
      using segment_checked_pipe [OF t, of off n] True
      by (simp add: segment_write_at_def segment_write_zero_def t_def [symmetric] on_slots_def op_zoom_def)
  qed
qed

text \<open>The segment writer keeps the contract of a writer.\<close>

lemma segment_write_lands:
  assumes "pipe h z out d0 N m (Some seg) s" and "segment_write_at h seg (int off) data s = (r, s')"
  shows "lands off data (segment_held seg s) r (segment_held seg s')"
    and "segment_ready h seg s \<Longrightarrow> segment_held seg s = Some f \<Longrightarrow> off + length data \<le> length f \<Longrightarrow> segment_ready h seg s'"
proof -
  let ?t = "tick h s"
  have t: "pipe h z out d0 N m (Some seg) ?t" "calm h (Some seg) s ?t" using pipe_tick [OF assms(1)] by simp_all
  have len: "length f = sg_length seg" if "segment_held seg s = Some f" for f
    using that pipe_segment(1-3) [OF assms(1)] length_slot_bytes [of z N "bs_pool s" "sg_slot seg"]
    by (auto simp: segment_held_def split: if_splits)
  have failed: "bs_failure ?t = None" if "segment_ready h seg s" using that t(2) by (simp add: segment_ready_def calm_def)
  have "lands off data (segment_held seg s) r (segment_held seg s') \<and>
    (segment_ready h seg s \<longrightarrow> segment_held seg s = Some f \<longrightarrow> off + length data \<le> length f \<longrightarrow> segment_ready h seg s')" for f
  proof -
    consider (refused) e where "segment_write_at h seg (int off) data s = (Inl e, ?t)"
        "bs_failure ?t = Some e \<or> int off < 0 \<or> int (sg_length seg) < int off + int (length data)"
      | (written) u where "segment_write_at h seg (int off) data s = (Inr (), u)" "bs_failure u = None"
        "segment_held seg u = map_option (pslice_assign (nat (int off)) (nat (int off) + length data) data) (segment_held seg s)"
      using segment_write_at_pipe [OF assms(1), of "int off" data] by blast
    then show ?thesis
    proof cases
    case refused
    note w = refused(1) and why = refused(2)
    have held: "segment_held seg ?t = (if bs_failure ?t = None then segment_held seg s else None)" using t(2) by (rule calm_held)
    show ?thesis
    proof (cases "off + length data \<le> sg_length seg")
      case True
      then have "bs_failure ?t = Some e" using why by auto
      then show ?thesis using held w assms(2) failed by (auto simp: lands_def)
    next
      case False
      then show ?thesis using held w assms(2) len by (auto simp: lands_def)
    qed
    next
      case written
      then show ?thesis using assms(2) by (auto simp: lands_def segment_ready_def)
    qed
  qed
  then show "lands off data (segment_held seg s) r (segment_held seg s')"
    and "segment_ready h seg s \<Longrightarrow> segment_held seg s = Some f \<Longrightarrow> off + length data \<le> length f \<Longrightarrow> segment_ready h seg s'"
    by blast+
qed

lemma segment_write_keeps:
  assumes "pipe h z out d0 N m (Some seg) s"
  shows "pipe h z out d0 N m (Some seg) (snd (segment_write_at h seg i data s))"
  using segment_write_at_pipe [OF assms, of i data] pipe_tick [OF assms] by auto

interpretation buffered_segment: export_writer "segment_writer h seg" "segment_held seg" "segment_ready h seg"
    "pipe h z out d0 N m (Some seg)" for h seg z out d0 N m
proof
  fix w off data r w'
  assume "pipe h z out d0 N m (Some seg) w" "wr_write_at (segment_writer h seg) (int off) data w = (r, w')"
  then show "lands off data (segment_held seg w) r (segment_held seg w')"
    using segment_write_lands(1) by (simp add: segment_writer_def)
next
  fix w off n r w'
  assume p: "pipe h z out d0 N m (Some seg) w" "wr_write_zero (segment_writer h seg) (int off) n w = (r, w')"
  then have "segment_write_at h seg (int off) (replicate n 0) w = (r, w')"
    using segment_write_zero_is [OF p(1)] by (simp add: segment_writer_def)
  then show "lands off (replicate n 0) (segment_held seg w) r (segment_held seg w')" by (rule segment_write_lands(1) [OF p(1)])
next
  fix w f off and data :: bytes
  assume p: "pipe h z out d0 N m (Some seg) w"
    and "segment_ready h seg w" "segment_held seg w = Some f" "off + length data \<le> length f"
  then show "segment_ready h seg (snd (wr_write_at (segment_writer h seg) (int off) data w))"
    using segment_write_lands(2) [OF p, of off data _ _ f] by (simp add: segment_writer_def prod_eq_iff)
next
  fix w f off n
  assume p: "pipe h z out d0 N m (Some seg) w"
    and "segment_ready h seg w" "segment_held seg w = Some f" "off + n \<le> length f"
  then show "segment_ready h seg (snd (wr_write_zero (segment_writer h seg) (int off) n w))"
    using segment_write_lands(2) [OF p, of off "replicate n 0" _ _ f] segment_write_zero_is [OF p, of "int off" n]
    by (simp add: segment_writer_def prod_eq_iff)
next
  fix w
  assume "segment_ready h seg w"
  then show "segment_held seg w \<noteq> None" by (simp add: segment_ready_def segment_held_def)
next
  fix w i and data :: bytes
  assume "pipe h z out d0 N m (Some seg) w"
  then show "pipe h z out d0 N m (Some seg) (snd (wr_write_at (segment_writer h seg) i data w))"
    by (simp add: segment_writer_def segment_write_keeps)
next
  fix w i n
  assume p: "pipe h z out d0 N m (Some seg) w"
  then show "pipe h z out d0 N m (Some seg) (snd (wr_write_zero (segment_writer h seg) i n w))"
    using segment_write_keeps [OF p] segment_write_zero_is [OF p] by (simp add: segment_writer_def)
qed

subsection \<open>Beginning a segment\<close>

text \<open>The wait for a slot ends: some slot is queued when none is free and no writer is open.\<close>

lemma await_slot_pipe:
  assumes "pipe h z out d0 N m None s"
  shows "\<exists>t. await_slot h s = Some t \<and> pipe h z out d0 N m None t \<and> calm h None s t \<and>
    (bs_failure t \<noteq> None \<or> sp_free (bs_pool t) \<noteq> [])"
  using assms
proof (induction "length (bs_queue s)" arbitrary: s rule: less_induct)
  case less
  obtain segs where p: "pipe_at h z out d0 N m None segs s" using less.prems by (auto simp: pipe_def)
  have fr: "\<not> bs_aborting s" "bs_flusher s = Flushing" "0 < N" "bs_queue s = map Some segs"
    "set (slot_list None segs (bs_pool s)) = {..<N}"
    using p by (simp_all add: pipe_at_def pipe_frame_def)
  show ?case
  proof (cases "bs_failure s \<noteq> None \<or> sp_free (bs_pool s) \<noteq> []")
    case True
    then have "await_slot h s = Some s" by (subst await_slot.simps) auto
    then show ?thesis using less.prems True by auto
  next
    case False
    then have "segs \<noteq> []" using fr(3,5) by (auto simp: slot_list_def)
    then obtain x xs where x: "segs = x # xs" by (cases segs) simp_all
    have px: "pipe_at h z out d0 N m None (x # xs) s" using p by (simp only: x)
    have step: "pipe h z out d0 N m None (flush_step h s)" "calm h None s (flush_step h s)"
      using pipe_at_step(1) [OF px] pipe_at_calm [OF px] by (auto simp: pipe_def)
    have "length (bs_queue (flush_step h s)) < length (bs_queue s)" using fr(2,4) x by (simp add: flush_step_queue)
    from less.hyps [OF this step(1)] show ?thesis
      using False fr(1,2,4) x calm_trans [OF step(2)] by (auto simp: await_slot.simps [of h s])
  qed
qed

lemma pipe_take:
  assumes p: "pipe h z out d0 N m None s" and free: "bs_failure s = None" "sp_free (bs_pool s) \<noteq> []" and in_range: "m * z < length out"
  obtains seg t where "take_segment m (m * z) (min z (length out - m * z)) s = (Inr seg, t)"
    and "pipe h z out d0 N (Suc m) (Some seg) t" and "sg_length seg = min z (length out - m * z)"
    and "segment_held seg t = Some (replicate (sg_length seg) 0)" and "bs_failure t = None"
proof -
  obtain segs where pa: "pipe_at h z out d0 N m None segs s" using p by (auto simp: pipe_def)
  obtain j js where j: "sp_free (bs_pool s) = j # js" using free(2) by (cases "sp_free (bs_pool s)") simp_all
  let ?p = "bs_pool s\<lparr>sp_free := js, sp_touched := sp_touched (bs_pool s) - {j}\<rparr>"
  let ?seg = "\<lparr>sg_index = m, sg_start = m * z, sg_length = min z (length out - m * z), sg_slot = j\<rparr>"
  let ?t = "s\<lparr>bs_pool := ?p, bs_next_index := Suc m, bs_writer := Some (?seg, False)\<rparr>"
  have m: "bs_next_index s = m" and f: "flowing h z out d0 N m None segs s" and fr: "pipe_frame z out N m None s"
    using pa free(1) by (simp_all add: pipe_at_def pipe_frame_def)
  have run: "take_segment m (m * z) (min z (length out - m * z)) s = (Inr ?seg, ?t)"
    using pipe_open [OF p] free(1) j m by (simp add: take_segment_def slots_take_def op_bind_def Let_def)
  have same: "slot_bytes i ?p = slot_bytes i (bs_pool s)" for i by (simp add: slot_bytes_def slot_base_def)
  have zero: "slot_bytes j (bs_pool s) = replicate z 0" using f j by (simp add: flowing_def)
  have seg: "segment_ok z (length out) ?seg" using in_range fr by (simp add: segment_ok_def pipe_frame_def)
  have "flowing h z out d0 N (Suc m) (Some ?seg) segs ?t"
    using f j zero by (auto simp: flowing_def same)
  moreover have "pipe_frame z out N (Suc m) (Some ?seg) ?t" using fr seg by (simp add: pipe_frame_def)
  ultimately have "pipe_at h z out d0 N (Suc m) (Some ?seg) segs ?t"
    using pa free(1) j by (auto simp: pipe_at_def slots_ok_def slot_list_def)
  moreover have "segment_held ?seg ?t = Some (replicate (sg_length ?seg) 0)"
    using free(1) zero by (simp add: segment_held_def same)
  ultimately show thesis using run free(1) by (intro that [of ?seg ?t]) (auto simp: pipe_def)
qed

lemma check_begin_pipe:
  assumes "pipe h z out d0 N m None s" and "m * z < length out"
  shows "check_begin m (m * z) (min z (length out - m * z)) s = (Inr (), s)"
proof -
  have "\<not> writer_incomplete s" "bs_next_index s = m" "bs_segment_size s = z" "bs_logical_size s = length out" "0 < z"
    using assms(1) by (auto simp: pipe_def pipe_at_def pipe_frame_def)
  moreover have "int (length out - m * z) = int (length out) - int m * int z" using assms(2) by (simp add: of_nat_diff)
  then have "int (min z (length out - m * z)) = min (int z) (int (length out) - int m * int z)" by (simp only: of_nat_min)
  ultimately show ?thesis
    using pipe_open(1) [OF assms(1)] assms(2) by (simp add: check_begin_def op_bind_def Let_def)
qed

lemma begin_segment_pipe:
  assumes p: "pipe h z out d0 N m None s" and in_range: "m * z < length out"
  shows "(\<exists>e t. begin_segment h m (m * z) (min z (length out - m * z)) s = Some (Inl e, t) \<and>
      pipe h z out d0 N m None t \<and> bs_failure t = Some e) \<or>
    (\<exists>seg t. begin_segment h m (m * z) (min z (length out - m * z)) s = Some (Inr seg, t) \<and>
      pipe h z out d0 N (Suc m) (Some seg) t \<and> sg_length seg = min z (length out - m * z) \<and>
      segment_held seg t = Some (replicate (sg_length seg) 0))"
    and "unfailing h \<Longrightarrow> bs_failure s = None \<Longrightarrow>
      \<exists>seg t. begin_segment h m (m * z) (min z (length out - m * z)) s = Some (Inr seg, t)"
proof -
  let ?n = "min z (length out - m * z)"
  have tk: "pipe h z out d0 N m None (tick h s)" "calm h None s (tick h s)" using pipe_tick [OF p] by simp_all
  obtain t where t: "await_slot h (tick h s) = Some t" "pipe h z out d0 N m None t" "calm h None (tick h s) t"
    "bs_failure t \<noteq> None \<or> sp_free (bs_pool t) \<noteq> []"
    using await_slot_pipe [OF tk(1)] by blast
  have run: "begin_segment h m (m * z) ?n s = Some (take_segment m (m * z) ?n t)"
    using check_begin_pipe [OF tk(1) in_range] t(1) by (simp add: begin_segment_def)
  have calm: "calm h None s t" using calm_trans [OF tk(2) t(3)] .
  show one: "(\<exists>e t. begin_segment h m (m * z) ?n s = Some (Inl e, t) \<and> pipe h z out d0 N m None t \<and> bs_failure t = Some e) \<or>
    (\<exists>seg t. begin_segment h m (m * z) ?n s = Some (Inr seg, t) \<and>
      pipe h z out d0 N (Suc m) (Some seg) t \<and> sg_length seg = ?n \<and> segment_held seg t = Some (replicate (sg_length seg) 0))"
  proof (cases "bs_failure t")
    case (Some e)
    then have "take_segment m (m * z) ?n t = (Inl e, t)" using pipe_open [OF t(2)] by (simp add: take_segment_def op_bind_def)
    then show ?thesis using run t(2) Some by simp
  next
    case None
    then show ?thesis using pipe_take [OF t(2) None _ in_range] t(4) run by metis
  qed
  show "\<exists>seg t. begin_segment h m (m * z) ?n s = Some (Inr seg, t)" if "unfailing h" "bs_failure s = None"
  proof -
    have "bs_failure t = None" using calm that by (simp add: calm_def)
    then show ?thesis using pipe_take [OF t(2) _ _ in_range] t(4) run by metis
  qed
qed

subsection \<open>Completing a segment\<close>

lemma complete_segment_pipe:
  assumes p: "pipe h z out d0 N m (Some seg) s"
    and full: "\<And>f. segment_held seg s = Some f \<Longrightarrow> f = seg_part z out (sg_index seg)"
  shows "(\<exists>e t. complete_segment h seg s = (Inl e, t) \<and> pipe h z out d0 N m (Some seg) t \<and> bs_failure t = Some e) \<or>
    (\<exists>t. complete_segment h seg s = (Inr (), t) \<and> pipe h z out d0 N m None t \<and> bs_failure t = None)"
proof -
  define t where "t = tick h s"
  have t: "pipe h z out d0 N m (Some seg) t" "calm h (Some seg) s t" using pipe_tick [OF p] by (simp_all add: t_def)
  note chk = segment_checked_pipe [OF t(1), of 0 0]
  show ?thesis
  proof (cases "bs_failure t")
    case (Some e)
    then have "complete_segment h seg s = (Inl e, t)"
      using chk by (simp add: complete_segment_def t_def [symmetric] op_bind_def)
    then show ?thesis using t(1) Some by blast
  next
    case None
    let ?u = "t\<lparr>bs_writer := Some (seg, True), bs_queue := bs_queue t @ [Some seg]\<rparr>"
    have run: "complete_segment h seg s = (Inr (), ?u)"
      using chk None by (simp add: complete_segment_def t_def [symmetric] op_bind_def)
    obtain segs where pa: "pipe_at h z out d0 N m (Some seg) segs t" using t(1) by (auto simp: pipe_def)
    have f: "flowing h z out d0 N m (Some seg) segs t" and fr: "pipe_frame z out N m (Some seg) t"
      using pa None by (simp_all add: pipe_at_def)
    then have seg: "segment_ok z (length out) seg" "Suc (sg_index seg) = m" by (simp_all add: pipe_frame_def)
    obtain k where k: "map sg_index segs = [k..<k + length segs]" "m = k + length segs + 1"
      "flush_first h z out k d0 = (Inr (), bs_dest t)"
      using f by (auto simp: flowing_def)
    have "segment_held seg t = segment_held seg s" using calm_held [OF t(2)] None by simp
    then have "take (sg_length seg) (slot_bytes (sg_slot seg) (bs_pool t)) = seg_part z out (sg_index seg)"
      using full None by (simp add: segment_held_def)
    moreover have "map sg_index (segs @ [seg]) = [k..<k + length (segs @ [seg])]" using k seg(2) by simp
    ultimately have "flowing h z out d0 N m None (segs @ [seg]) ?u"
      using f k by (auto simp: flowing_def simp del: map_append)
    moreover have "pipe_frame z out N m None ?u" using fr by (simp add: pipe_frame_def writer_incomplete_def)
    moreover have "slot_list None (segs @ [seg]) (bs_pool ?u) = slot_list (Some seg) segs (bs_pool t)" by (simp add: slot_list_def)
    ultimately have "pipe_at h z out d0 N m None (segs @ [seg]) ?u"
      using pa None seg(1) by (auto simp: pipe_at_def)
    then show ?thesis using run None by (auto simp: pipe_def)
  qed
qed

end
