(* ===== verification/BufferedRun.thy ===== *)
theory BufferedRun
  imports BufferedPipe
begin

text \<open>
  Opening, committing and aborting a buffered sink, and the sequential program it refines:
  create the destination, flush every segment of the content in order, finalize.
\<close>

definition deliver :: "'d hooks \<Rightarrow> nat \<Rightarrow> bool \<Rightarrow> bytes \<Rightarrow> ('d, unit) op" where
  "deliver h z sparse out =
     op_bind (bh_create h (length out) sparse) (\<lambda>_.
     op_bind (flush_first h z out (segment_count z (length out))) (\<lambda>_. bh_finalize h))"

lemma segment_count_covers: "0 < z \<Longrightarrow> i * z < n \<longleftrightarrow> i < segment_count z n"
proof -
  assume z: "0 < z"
  let ?q = "(- int n) div int z" and ?r = "(- int n) mod int z"
  have qr: "?q * int z + ?r = - int n" "0 \<le> ?r" "?r < int z" using z by simp_all
  have "?q < - int i \<longleftrightarrow> - int n < - int i * int z"
  proof
    assume "?q < - int i"
    then have "(?q + 1) * int z \<le> - int i * int z" by (intro mult_right_mono) simp_all
    moreover have "- int n < (?q + 1) * int z"
      unfolding distrib_right using qr(1,3) by linarith
    ultimately show "- int n < - int i * int z" by simp
  next
    assume lt: "- int n < - int i * int z"
    show "?q < - int i"
    proof (rule ccontr)
      assume "\<not> ?q < - int i"
      then have "- int i * int z \<le> ?q * int z" by (intro mult_right_mono) simp_all
      also have "\<dots> \<le> - int n" using qr(1,2) by linarith
      finally show False using lt by simp
    qed
  qed
  moreover have "- int n < - int i * int z \<longleftrightarrow> i * z < n" by (simp add: of_nat_mult [symmetric] del: of_nat_mult)
  ultimately show ?thesis by (auto simp: segment_count_def)
qed

lemma segment_count_eq: "0 < z \<Longrightarrow> segment_count z n = (n + z - 1) div z"
proof -
  assume z: "0 < z"
  have "i < (n + z - 1) div z \<longleftrightarrow> i * z < n" for i
  proof -
    have "i < (n + z - 1) div z \<longleftrightarrow> Suc i * z \<le> n + z - 1"
      using less_eq_div_iff_mult_less_eq [OF z, of "Suc i" "n + z - 1"] by (simp only: Suc_le_eq)
    then show ?thesis using z by auto
  qed
  then show ?thesis using segment_count_covers [OF z] by (metis less_irrefl linorder_neqE_nat)
qed

lemma flush_first_stays:
  assumes "flush_first h z out k d0 = (Inl e, d)" and "k \<le> S"
  shows "flush_first h z out S d0 = (Inl e, d)"
  using assms(2,1) by (induction S rule: dec_induct) (simp_all add: flush_first_Suc)

subsection \<open>Opening\<close>

definition fresh_sink :: "nat \<Rightarrow> 'd buffered \<Rightarrow> bool" where
  "fresh_sink z s \<longleftrightarrow> 0 < z \<and> z mod SINK_SEGMENT_ALIGN = 0 \<and> bs_segment_size s = z \<and> 0 < bs_max_buffered s \<and> bs_pool s = slot_pool_init z \<and>
     bs_state s = SinkNew \<and> bs_failure s = None \<and> bs_queue s = [] \<and> \<not> bs_creating s \<and> \<not> bs_aborting s \<and>
     bs_flusher s = NoFlusher \<and> bs_next_index s = 0 \<and> bs_writer s = None \<and> bs_abort_outcome s = None"

lemma buffered_sink_fresh: "buffered_sink z m d = Inr s \<Longrightarrow> fresh_sink (nat z) s \<and> bs_dest s = d"
proof -
  assume s: "buffered_sink z m d = Inr s"
  then have z: "0 < z" "z mod int SINK_SEGMENT_ALIGN = 0" "\<not> m < 1"
    by (auto simp: buffered_sink_def split: if_splits)
  then have "int (nat z mod SINK_SEGMENT_ALIGN) = 0" by (simp add: zmod_int)
  then show ?thesis using s z by (auto simp: buffered_sink_def fresh_sink_def)
qed

lemma buffered_open_spec:
  assumes "fresh_sink z s"
  shows "case bh_alloc h of
      Inl e \<Rightarrow> \<exists>t. buffered_open h (length out) sparse s = (Inl e, t) \<and> bs_dest t = bs_dest s \<and>
        \<not> bs_creating t \<and> bs_flusher t = NoFlusher \<and> bs_state t = SinkAborted \<and> bs_abort_outcome t = None
    | Inr _ \<Rightarrow>
        (case bh_create h (length out) sparse (bs_dest s) of
           (Inl e, d) \<Rightarrow> \<exists>t. buffered_open h (length out) sparse s = (Inl e, t) \<and> bs_dest t = d \<and>
             bs_creating t \<and> bs_flusher t = NoFlusher \<and> bs_state t = SinkNew \<and> bs_abort_outcome t = None
         | (Inr _, d) \<Rightarrow> \<exists>t N. buffered_open h (length out) sparse s = (Inr (), t) \<and> pipe h z out d N 0 None t \<and> bs_dest t = d \<and>
             bs_failure t = None)"
proof (cases "bh_alloc h")
  case (Inl e)
  then show ?thesis using assms by (simp add: fresh_sink_def buffered_open_def slots_create_def slots_close_def Let_def)
next
  case (Inr u)
  define N where "N = max (Suc 0) (min (bs_max_buffered s) (segment_count z (length out)))"
  obtain r d where c: "bh_create h (length out) sparse (bs_dest s) = (r, d)" by fastforce
  let ?p = "\<lparr>sp_segment_size = z, sp_slots = N, sp_free = [0..<N], sp_buf = Some (replicate (N * z) 0), sp_touched = {}\<rparr>"
  let ?t = "s\<lparr>bs_logical_size := length out, bs_pool := ?p, bs_creating := True, bs_dest := d\<rparr>"
  have run: "buffered_open h (length out) sparse s =
      (case r of Inl e \<Rightarrow> (Inl e, ?t) | Inr _ \<Rightarrow> (Inr (), ?t\<lparr>bs_state := SinkOpen, bs_flusher := Flushing\<rparr>))"
    using assms Inr c by (simp add: fresh_sink_def buffered_open_def slots_create_def slot_pool_init_def Let_def N_def [symmetric] split: sum.split)
  show ?thesis
  proof (cases r)
    case (Inl e)
    then show ?thesis using run c assms \<open>bh_alloc h = Inr u\<close> by (simp add: fresh_sink_def)
  next
    case opened: (Inr v)
    let ?u = "?t\<lparr>bs_state := SinkOpen, bs_flusher := Flushing\<rparr>"
    have zero: "slot_bytes j ?p = replicate z 0" if "j < N" for j
    proof -
      have "j * z + z \<le> N * z" using that by (rule slot_inside)
      then show ?thesis by (simp add: slot_bytes_def slot_base_def pslice_replicate min_def)
    qed
    have "pipe_at h z out d N 0 None [] ?u"
      using assms zero
      by (simp add: fresh_sink_def pipe_at_def pipe_frame_def writer_incomplete_def slots_ok_def slot_list_def flowing_def
          flush_first_def atLeast0LessThan N_def)
    then have "pipe h z out d N 0 None ?u" unfolding pipe_def by blast
    moreover have "bs_failure ?u = None" using assms by (simp add: fresh_sink_def)
    moreover have "buffered_open h (length out) sparse s = (Inr (), ?u)" using run opened by simp
    moreover have "bs_dest ?u = d" by simp
    ultimately have "\<exists>t N. buffered_open h (length out) sparse s = (Inr (), t) \<and> pipe h z out d N 0 None t \<and> bs_dest t = d \<and>
        bs_failure t = None" by blast
    then show ?thesis using c opened \<open>bh_alloc h = Inr u\<close> by simp
  qed
qed

subsection \<open>Stopping the flusher\<close>

lemma flush_queued_queue: "flush_queued h x (s\<lparr>bs_queue := q\<rparr>) = (flush_queued h x s)\<lparr>bs_queue := q\<rparr>"
  by (simp add: flush_queued_def split: sum.split prod.split)

lemma free_segment_queue: "free_segment x (s\<lparr>bs_queue := q\<rparr>) = (free_segment x s)\<lparr>bs_queue := q\<rparr>"
  by (simp add: free_segment_def split: sum.split prod.split)

lemma flush_step_sentinel:
  assumes "bs_queue s = Some x # q"
  shows "flush_step h (push_sentinel s) = push_sentinel (flush_step h s)"
  using assms
  by (simp add: flush_step_def push_sentinel_def free_segment_queue flush_queued_queue)

lemma await_flusher_pipe:
  assumes "pipe_at h z out d0 N m w segs s"
  shows "\<exists>t. await_flusher h (push_sentinel s) = t\<lparr>bs_queue := [], bs_flusher := Stopped\<rparr> \<and> pipe_at h z out d0 N m w [] t \<and> calm h w s t"
  using assms
proof (induction segs arbitrary: s)
  case Nil
  then have "bs_queue s = []" "bs_flusher s = Flushing" by (simp_all add: pipe_at_def pipe_frame_def)
  then have "await_flusher h (push_sentinel s) = s\<lparr>bs_queue := [], bs_flusher := Stopped\<rparr>"
    by (subst await_flusher.simps, subst await_flusher.simps) (simp add: push_sentinel_def flush_step_def)
  then show ?case using Nil.prems calm_refl by blast
next
  case (Cons x xs)
  have q: "bs_queue s = Some x # map Some xs" "bs_flusher s = Flushing" using Cons.prems by (simp_all add: pipe_at_def pipe_frame_def)
  have "await_flusher h (push_sentinel s) = await_flusher h (push_sentinel (flush_step h s))"
    using q flush_step_sentinel [OF q(1)]
    by (subst await_flusher.simps) (simp add: push_sentinel_def)
  then show ?case
    using Cons.IH [OF pipe_at_step(1) [OF Cons.prems]] calm_trans [OF pipe_at_calm [OF Cons.prems]] by fastforce
qed

text \<open>Once something failed, or the flusher is gone, the destination is not touched any more.\<close>

definition idle :: "'d \<Rightarrow> bool \<Rightarrow> 'd buffered \<Rightarrow> bool" where
  "idle d created s \<longleftrightarrow> (bs_failure s \<noteq> None \<or> bs_aborting s \<or> bs_flusher s \<noteq> Flushing) \<and> bs_dest s = d \<and>
     bs_creating s = created \<and> bs_abort_outcome s = None \<and> bs_state s \<noteq> SinkCommitted"

lemma flush_step_idle: "idle d created s \<Longrightarrow> idle d created (flush_step h s)"
  by (auto simp: idle_def flush_step_def free_segment_def flush_queued_def split: list.split option.split sum.split prod.split)

lemma flush_steps_idle: "idle d created s \<Longrightarrow> idle d created (flush_steps h n s)"
  by (induction n arbitrary: s) (simp_all add: flush_step_idle)

lemma await_flusher_idle: "idle d created s \<Longrightarrow> idle d created (await_flusher h s)"
proof (induction "length (bs_queue s)" arbitrary: s rule: less_induct)
  case less
  show ?case
  proof (cases "bs_flusher s = Flushing \<and> bs_queue s \<noteq> []")
    case True
    then have "length (bs_queue (flush_step h s)) < length (bs_queue s)" by (simp add: flush_step_queue)
    from less.hyps [OF this flush_step_idle [OF less.prems]] show ?thesis using True by (subst await_flusher.simps) simp
  qed (use less.prems in \<open>subst await_flusher.simps, auto\<close>)
qed

lemma tick_idle: "idle d created s \<Longrightarrow> idle d created (tick h s)"
proof -
  assume "idle d created s"
  then have "idle d created (s\<lparr>bs_ticks := Suc (bs_ticks s)\<rparr>)" by (simp add: idle_def)
  then show ?thesis unfolding tick_def by (rule flush_steps_idle)
qed

text \<open>An abort then discards the destination as it is, if one was begun.\<close>

lemma buffered_abort_idle:
  assumes "idle d created s"
  shows "bs_dest (snd (buffered_abort h s)) = (if created then snd (bh_discard h d) else d)"
proof -
  define t where "t = (let s = (tick h s)\<lparr>bs_aborting := True, bs_state := SinkAborted\<rparr> in
    if bs_flusher s \<noteq> NoFlusher then await_flusher h (push_sentinel s) else s)"
  have i: "idle d created (tick h s)" using assms by (rule tick_idle)
  then have "idle d created t"
    by (auto simp: t_def Let_def intro!: await_flusher_idle) (auto simp: idle_def push_sentinel_def)
  moreover have "bs_abort_outcome s = None" using assms by (simp add: idle_def)
  moreover have "bs_state (tick h s) \<noteq> SinkCommitted" using i by (simp add: idle_def)
  ultimately show ?thesis
    by (auto simp: buffered_abort_def Let_def t_def idle_def split: prod.split sum.split)
qed

subsection \<open>Committing\<close>

lemma pipe_stuck:
  assumes "pipe h z out d0 N m w s" and "bs_failure s = Some e"
  shows "flush_first h z out (segment_count z (length out)) d0 = (Inl e, bs_dest s)" and "idle (bs_dest s) True s"
proof -
  obtain i where i: "i * z < length out" "flush_first h z out (Suc i) d0 = (Inl e, bs_dest s)" and z: "0 < z"
    using assms by (auto simp: pipe_def pipe_at_def pipe_frame_def stuck_def)
  then have "Suc i \<le> segment_count z (length out)" using segment_count_covers [OF z] by (simp add: Suc_le_eq)
  then show "flush_first h z out (segment_count z (length out)) d0 = (Inl e, bs_dest s)" by (rule flush_first_stays [OF i(2)])
  show "idle (bs_dest s) True s" using assms by (auto simp: idle_def pipe_def pipe_at_def pipe_frame_def)
qed

lemma buffered_commit_pipe:
  assumes p: "pipe h z out d0 N m None s" and all: "m = segment_count z (length out)"
  shows "case op_bind (flush_first h z out m) (\<lambda>_. bh_finalize h) d0 of
      (Inl e, d) \<Rightarrow> \<exists>t. buffered_commit h s = (Inl e, t) \<and> idle d True t
    | (Inr _, d) \<Rightarrow> \<exists>t. buffered_commit h s = (Inr (), t) \<and> bs_dest t = d \<and> bs_state t = SinkCommitted"
proof -
  define t where "t = tick h s"
  have t: "pipe h z out d0 N m None t" using pipe_tick [OF p] by (simp add: t_def)
  then have inc: "\<not> writer_incomplete t" by (auto simp: pipe_def pipe_at_def pipe_frame_def)
  note ot = pipe_open [OF t]
  show ?thesis
  proof (cases "bs_failure t")
    case (Some e)
    have "buffered_commit h s = (Inl e, t)" using ot Some inc by (simp add: buffered_commit_def t_def [symmetric] op_bind_def)
    moreover have "op_bind (flush_first h z out m) (\<lambda>_. bh_finalize h) d0 = (Inl e, bs_dest t)"
      using pipe_stuck(1) [OF t Some] all by (simp add: op_bind_def)
    ultimately show ?thesis using pipe_stuck(2) [OF t Some] by simp
  next
    case None
    obtain segs where "pipe_at h z out d0 N m None segs t" using t by (auto simp: pipe_def)
    from await_flusher_pipe [OF this] obtain u where
      u: "await_flusher h (push_sentinel t) = u\<lparr>bs_queue := [], bs_flusher := Stopped\<rparr>" "pipe_at h z out d0 N m None [] u"
      by blast
    let ?u = "u\<lparr>bs_queue := [], bs_flusher := Stopped\<rparr>"
    have st: "require_open ?u = (Inr (), ?u)" using u(2) by (simp add: pipe_at_def pipe_frame_def require_open_def)
    have run: "buffered_commit h s = op_bind raise_failure (\<lambda>_. op_bind (finalize h) (\<lambda>_ s.
        (Inr (), s\<lparr>bs_pool := slots_close (bs_pool s)\<rparr>))) ?u"
      using ot None inc u(1) st by (simp add: buffered_commit_def t_def [symmetric])
    have pu: "pipe h z out d0 N m None u" using u(2) by (auto simp: pipe_def)
    show ?thesis
    proof (cases "bs_failure u")
      case (Some e)
      then have "buffered_commit h s = (Inl e, ?u)" using run by (simp add: raise_failure_def op_bind_def)
      moreover have "op_bind (flush_first h z out m) (\<lambda>_. bh_finalize h) d0 = (Inl e, bs_dest u)"
        using pipe_stuck(1) [OF pu Some] all by (simp add: op_bind_def)
      moreover have "idle (bs_dest u) True ?u" using pipe_stuck(2) [OF pu Some] by (simp add: idle_def)
      ultimately show ?thesis by simp
    next
      case ok: None
      have "flush_first h z out m d0 = (Inr (), bs_dest u)" using u(2) ok by (auto simp: pipe_at_def flowing_def)
      then have spec: "op_bind (flush_first h z out m) (\<lambda>_. bh_finalize h) d0 = bh_finalize h (bs_dest u)" by simp
      obtain r d where f: "bh_finalize h (bs_dest u) = (r, d)" by fastforce
      have rest: "buffered_commit h s = op_bind (finalize h) (\<lambda>_ s. (Inr (), s\<lparr>bs_pool := slots_close (bs_pool s)\<rparr>)) ?u"
        using run ok by (simp add: raise_failure_def op_bind_def)
      have fr: "bs_creating u" "bs_abort_outcome u = None" "bs_state u = SinkOpen" using u(2) by (simp_all add: pipe_at_def pipe_frame_def)
      show ?thesis
        using spec f fr by (cases r) (simp_all add: rest finalize_def idle_def op_bind_def)
    qed
  qed
qed

text \<open>The segments, and the blocks of one, make up the content.\<close>

lemma concat_seg_parts:
  assumes "0 < z" and "k \<le> segment_count z (length out)"
  shows "concat (map (seg_part z out) [0..<k]) = take (k * z) out"
  using assms(2)
proof (induction k)
  case (Suc k)
  have "take (z + k * z) out = take (k * z) out @ take z (drop (k * z) out)" using take_add [of "k * z" z out] by (simp add: add.commute)
  then show ?case using Suc by (simp add: seg_part_def)
qed simp

lemma all_seg_parts: "0 < z \<Longrightarrow> concat (map (seg_part z out) [0..<segment_count z (length out)]) = out"
  using concat_seg_parts [of z "segment_count z (length out)" out] segment_count_covers [of z "segment_count z (length out)" "length out"]
  by simp

lemma flushable_blocks_concat: "0 < block \<Longrightarrow> concat (flushable_blocks block x) = fs_bytes x"
  by (simp add: flushable_blocks_def concat_slices)

end
