(* ===== verification/SinkStates.thy ===== *)
theory SinkStates
  imports BufferedRun
begin

text \<open>
  The states a buffered sink can be in while an export feeds it, as a step relation: calls of
  its operations in any order, with any arguments, valid or refused, and the turns of its
  flusher in between. In every one of them no two segments share a slot, what is free is zero,
  and \<open>begin_segment\<close> comes back.
\<close>

inductive feeding :: "'d hooks \<Rightarrow> 'd buffered \<Rightarrow> bool" for h where
  opened: "fresh_sink z s \<Longrightarrow> buffered_open h n sparse s = (Inr (), t) \<Longrightarrow> feeding h t"
| flushed: "feeding h s \<Longrightarrow> feeding h (flush_step h s)"
| begun: "feeding h s \<Longrightarrow> begin_segment h index start len s = Some (r, t) \<Longrightarrow> feeding h t"
| written: "feeding h s \<Longrightarrow> segment_write_at h seg off data s = (r, t) \<Longrightarrow> feeding h t"
| zeroed: "feeding h s \<Longrightarrow> segment_write_zero h seg off count s = (r, t) \<Longrightarrow> feeding h t"
| completed: "feeding h s \<Longrightarrow> complete_segment h seg s = (r, t) \<Longrightarrow> feeding h t"

inductive_cases feeding_startE: "feeding h s"

text \<open>The segment a writer has open, and the slots in use.\<close>

definition open_segment :: "'d buffered \<Rightarrow> segment option" where
  "open_segment s = (case bs_writer s of None \<Rightarrow> None | Some (seg, complete) \<Rightarrow> (if complete then None else Some seg))"

definition used_slots :: "'d buffered \<Rightarrow> nat list" where
  "used_slots s = map sg_slot (concat (map (case_option [] (\<lambda>x. [x])) (bs_queue s))) @
     (case open_segment s of None \<Rightarrow> [] | Some seg \<Rightarrow> [sg_slot seg])"

lemma pipe_open_segment: "pipe h z out d0 N m w s \<Longrightarrow> w = open_segment s"
  by (auto simp: pipe_def pipe_at_def pipe_frame_def open_segment_def writer_incomplete_def split: option.splits)

subsection \<open>The pipeline's invariant, whatever is written\<close>

text \<open>The parts of segments not completed yet are free to choose.\<close>

lemma flush_first_cong:
  assumes "\<And>i. i < k \<Longrightarrow> seg_part z out' i = seg_part z out i"
  shows "flush_first h z out' k = flush_first h z out k"
  using assms
proof (induction k)
  case (Suc k)
  then show ?case by (simp add: flush_first_Suc flushable_of_def)
qed (simp add: flush_first_def)

lemma pipe_retarget:
  assumes p: "pipe h z out d0 N m w s" and len: "length out' = length out"
    and same: "\<And>i. i < completed m w \<Longrightarrow> seg_part z out' i = seg_part z out i"
  shows "pipe h z out' d0 N m w s"
proof -
  obtain segs where pa: "pipe_at h z out d0 N m w segs s" using p by (auto simp: pipe_def)
  have "pipe_at h z out' d0 N m w segs s"
  proof (cases "bs_failure s")
    case (Some e)
    have "flush_first h z out' (Suc i) = flush_first h z out (Suc i)" if "i < completed m w" for i
      using that by (intro flush_first_cong same) simp
    then have "stuck h z out' d0 (completed m w) e (bs_dest s)"
      using pa Some len by (auto simp: pipe_at_def stuck_def)
    then show ?thesis using pa Some len by (cases w) (simp_all add: pipe_at_def pipe_frame_def)
  next
    case None
    then have f: "flowing h z out d0 N m w segs s" using pa by (simp add: pipe_at_def)
    then obtain k where k: "map sg_index segs = [k..<k + length segs]" "m = k + length segs + (if w = None then 0 else 1)"
      "flush_first h z out k d0 = (Inr (), bs_dest s)"
      by (auto simp: flowing_def)
    have cm: "completed m w = k + length segs" using k(2) by (simp add: completed_def)
    have "sg_index x \<in> {k..<k + length segs}" if "x \<in> set segs" for x
      using that k(1) by (metis image_eqI list.set_map set_upt)
    then have parts: "seg_part z out' (sg_index x) = seg_part z out (sg_index x)" if "x \<in> set segs" for x
      using that same by (simp add: cm)
    have "flush_first h z out' k = flush_first h z out k" by (rule flush_first_cong) (simp add: same cm)
    then have "flowing h z out' d0 N m w segs s" using f k parts by (auto simp: flowing_def)
    then show ?thesis using pa None len by (cases w) (simp_all add: pipe_at_def pipe_frame_def)
  qed
  then show ?thesis by (auto simp: pipe_def)
qed

definition piped :: "'d hooks \<Rightarrow> 'd buffered \<Rightarrow> bool" where
  "piped h s \<longleftrightarrow> (\<exists>z out d0 N m w. pipe h z out d0 N m w s)"

lemma pipedI: "pipe h z out d0 N m w s \<Longrightarrow> piped h s"
  unfolding piped_def by blast

lemma piped_retarget:
  assumes p: "pipe h z out d0 N m (Some seg) s" and f: "segment_held seg s = Some f"
  shows "\<exists>out'. pipe h z out' d0 N m (Some seg) s \<and> f = seg_part z out' (sg_index seg)"
proof -
  obtain segs where "pipe_at h z out d0 N m (Some seg) segs s" using p by (auto simp: pipe_def)
  then have seg: "segment_ok z (length out) seg" "Suc (sg_index seg) = m" by (simp_all add: pipe_at_def pipe_frame_def)
  define a where "a = sg_index seg * z"
  have lf: "length f = sg_length seg"
    using f pipe_segment(1-3) [OF p] length_slot_bytes [of z N "bs_pool s" "sg_slot seg"]
    by (auto simp: segment_held_def split: if_splits)
  have fits: "a + length f \<le> length out" "length f = min z (length out - a)" using seg(1) lf by (auto simp: segment_ok_def a_def)
  let ?out = "pslice_assign a (a + length f) f out"
  have l: "length ?out = length out" using fits by simp
  have "seg_part z ?out i = seg_part z out i" if "i < sg_index seg" for i
  proof -
    have "i * z + z \<le> a" using that slot_inside [of i "sg_index seg" z] by (simp add: a_def)
    then show ?thesis using fits l by (intro nth_equalityI) (auto simp: seg_part_def nth_pslice_assign)
  qed
  then have "pipe h z ?out d0 N m (Some seg) s"
    using pipe_retarget [OF p l] seg(2) by (auto simp: completed_def)
  moreover have "f = seg_part z ?out (sg_index seg)"
    using fits l by (intro nth_equalityI) (auto simp: seg_part_def nth_pslice_assign a_def [symmetric])
  ultimately show ?thesis by blast
qed

lemma piped_opened:
  assumes "fresh_sink z s" and "buffered_open h n sparse s = (Inr (), t)"
  shows "piped h t"
proof -
  note o = buffered_open_spec [OF assms(1), of h "replicate n 0" sparse]
  have "bh_alloc h = Inr ()"
    using o assms(2) by (cases "bh_alloc h") auto
  moreover obtain d where "bh_create h n sparse (bs_dest s) = (Inr (), d)"
    using o assms(2) calculation by (cases "bh_create h n sparse (bs_dest s)"; cases "fst (bh_create h n sparse (bs_dest s))") auto
  ultimately show ?thesis using o assms(2) pipedI by fastforce
qed

lemma check_begin_valid:
  assumes p: "pipe h z out d0 N m w s" and ok: "check_begin index start len s = (Inr (), t)"
  shows "t = s \<and> w = None \<and> index = m \<and> start = m * z \<and> m * z < length out \<and> len = min z (length out - m * z)"
proof -
  have fr: "bs_next_index s = m" "bs_segment_size s = z" "bs_logical_size s = length out" "w = None \<longleftrightarrow> \<not> writer_incomplete s"
    using p by (auto simp: pipe_def pipe_at_def pipe_frame_def writer_incomplete_def split: option.splits)
  have "\<not> writer_incomplete s" "index = m" "start = m * z" "len \<noteq> 0" "t = s"
    and l: "int len = min (int z) (int (length out) - int m * int z)"
    using ok pipe_open(1) [OF p] fr(1-3) by (auto simp: check_begin_def op_bind_def Let_def split: if_splits)
  moreover have "int m * int z < int (length out)" using l \<open>len \<noteq> 0\<close> by linarith
  then have lt: "m * z < length out" by (simp add: of_nat_mult [symmetric] del: of_nat_mult)
  moreover have "int (length out - m * z) = int (length out) - int m * int z" using lt by (simp add: of_nat_diff)
  then have "int len = int (min z (length out - m * z))" using l by (simp only: of_nat_min)
  ultimately show ?thesis using fr(4) by simp
qed

lemma begin_segment_piped:
  assumes "piped h s"
  shows "\<exists>r t. begin_segment h index start len s = Some (r, t) \<and> piped h t \<and>
    (\<forall>seg. r = Inr seg \<longrightarrow> open_segment t = Some seg \<and> segment_held seg t = Some (replicate (sg_length seg) 0))"
proof -
  obtain z out d0 N m w where p: "pipe h z out d0 N m w s" using assms by (auto simp: piped_def)
  have t: "pipe h z out d0 N m w (tick h s)" using pipe_tick [OF p] by blast
  obtain r u where c: "check_begin index start len (tick h s) = (r, u)" by fastforce
  show ?thesis
  proof (cases r)
    case (Inl e)
    have "u = tick h s" using c pipe_open(1) [OF t] by (auto simp: check_begin_def op_bind_def Let_def)
    then show ?thesis using c Inl pipedI [OF t] by (simp add: begin_segment_def)
  next
    case (Inr v)
    have "check_begin index start len (tick h s) = (Inr (), u)" using c Inr by simp
    from check_begin_valid [OF t this]
    have v: "w = None" "index = m" "start = m * z" "m * z < length out" "len = min z (length out - m * z)" by auto
    from begin_segment_pipe(1) [OF p [unfolded v(1)] v(4)] show ?thesis
    proof (elim disjE exE conjE)
      fix e t
      assume "begin_segment h m (m * z) (min z (length out - m * z)) s = Some (Inl e, t)" "pipe h z out d0 N m None t"
      then show ?thesis unfolding v(2,3,5) by (auto dest: pipedI)
    next
      fix seg t
      assume "begin_segment h m (m * z) (min z (length out - m * z)) s = Some (Inr seg, t)"
        and t: "pipe h z out d0 N (Suc m) (Some seg) t" and "segment_held seg t = Some (replicate (sg_length seg) 0)"
      then show ?thesis unfolding v(2,3,5) using pipedI [OF t] pipe_open_segment [OF t] by simp
    qed
  qed
qed

lemma segment_op_refused:
  assumes "piped h s" and "open_segment (tick h s) \<noteq> Some seg"
  shows "\<exists>e. segment_checked seg off n (tick h s) = (Inl e, tick h s)" and "piped h (tick h s)"
proof -
  obtain z out d0 N m w where p: "pipe h z out d0 N m w s" using assms by (auto simp: piped_def)
  have t: "pipe h z out d0 N m w (tick h s)" using pipe_tick [OF p] by blast
  have "bs_writer (tick h s) \<noteq> Some (seg, False)" using assms(2) by (auto simp: open_segment_def)
  then show "\<exists>e. segment_checked seg off n (tick h s) = (Inl e, tick h s)"
    using pipe_open [OF t] by (simp add: segment_checked_def op_bind_def split: option.split)
  show "piped h (tick h s)" using t by (rule pipedI)
qed

lemma piped_open:
  assumes "piped h s" and "open_segment (tick h s) = Some seg"
  obtains z out d0 N m where "pipe h z out d0 N m (Some seg) s"
proof -
  obtain z out d0 N m w where p: "pipe h z out d0 N m w s" using assms by (auto simp: piped_def)
  have "pipe h z out d0 N m w (tick h s)" using pipe_tick [OF p] by blast
  then have "w = Some seg" using assms(2) pipe_open_segment by fastforce
  then show thesis using p that by blast
qed

lemma feeding_piped: "feeding h s \<Longrightarrow> piped h s"
proof (induction rule: feeding.induct)
  case (opened z s n sparse t)
  then show ?case by (rule piped_opened)
next
  case (flushed s)
  then obtain z out d0 N m w where "pipe h z out d0 N m w s" by (auto simp: piped_def)
  from pipe_steps [OF this, of 1] show ?case using pipedI by auto
next
  case (begun s index start len r t)
  then show ?case using begin_segment_piped [of h s index start len] by auto
next
  case (written s seg off data r t)
  show ?case
  proof (cases "open_segment (tick h s) = Some seg")
    case True
    then obtain z out d0 N m where "pipe h z out d0 N m (Some seg) s" using written.IH piped_open by blast
    from segment_write_keeps [OF this, of off data] show ?thesis using written.hyps(2) by (auto dest: pipedI)
  next
    case False
    then show ?thesis
      using segment_op_refused(1) [OF written.IH, of seg off "length data"] segment_op_refused(2) [OF written.IH] written.hyps(2) by (auto simp: segment_write_at_def)
  qed
next
  case (zeroed s seg off count r t)
  show ?case
  proof (cases "open_segment (tick h s) = Some seg")
    case True
    then obtain z out d0 N m where p: "pipe h z out d0 N m (Some seg) s" using zeroed.IH piped_open by blast
    show ?thesis using segment_write_keeps [OF p, of off "replicate count 0"] segment_write_zero_is [OF p] zeroed.hyps(2)
      by (auto dest: pipedI)
  next
    case False
    then show ?thesis
      using segment_op_refused(1) [OF zeroed.IH, of seg off count] segment_op_refused(2) [OF zeroed.IH] zeroed.hyps(2) by (auto simp: segment_write_zero_def)
  qed
next
  case (completed s seg r t)
  show ?case
  proof (cases "open_segment (tick h s) = Some seg")
    case True
    then obtain z out d0 N m where p: "pipe h z out d0 N m (Some seg) s" using completed.IH piped_open by blast
    obtain out' where o: "pipe h z out' d0 N m (Some seg) s"
      "\<And>f. segment_held seg s = Some f \<Longrightarrow> f = seg_part z out' (sg_index seg)"
      using piped_retarget [OF p] p by (cases "segment_held seg s") auto
    show ?thesis using complete_segment_pipe [OF o] completed.hyps(2) by (auto dest: pipedI)
  next
    case False
    then show ?thesis
      using segment_op_refused(1) [OF completed.IH, of seg 0 0] segment_op_refused(2) [OF completed.IH] completed.hyps(2) by (auto simp: complete_segment_def)
  qed
qed

lemma piped_slots:
  assumes "piped h s"
  shows "distinct (used_slots s @ sp_free (bs_pool s))" and "set (used_slots s @ sp_free (bs_pool s)) = {..<sp_slots (bs_pool s)}"
    and "bs_failure s = None \<Longrightarrow> j \<in> set (sp_free (bs_pool s)) \<Longrightarrow> slot_bytes j (bs_pool s) = replicate (bs_segment_size s) 0"
proof -
  obtain z out d0 N m w where pw: "pipe h z out d0 N m w s" using assms by (auto simp: piped_def)
  obtain segs where p: "pipe_at h z out d0 N m w segs s" using pw by (auto simp: pipe_def)
  have w: "w = open_segment s" by (rule pipe_open_segment [OF pw])
  have "used_slots s @ sp_free (bs_pool s) = slot_list w segs (bs_pool s)"
    using p w by (simp add: used_slots_def slot_list_def pipe_at_def comp_def split: option.split)
  then show "distinct (used_slots s @ sp_free (bs_pool s))" "set (used_slots s @ sp_free (bs_pool s)) = {..<sp_slots (bs_pool s)}"
    using p by (auto simp: pipe_at_def slots_ok_def)
  show "bs_failure s = None \<Longrightarrow> j \<in> set (sp_free (bs_pool s)) \<Longrightarrow> slot_bytes j (bs_pool s) = replicate (bs_segment_size s) 0"
    using p by (auto simp: pipe_at_def flowing_def pipe_frame_def)
qed

text \<open>C16.
  A buffered sink never lets its exporter wait for ever and never mixes segments up: in every
  state reached by calls of the sink and its writers in any order and with any arguments, with
  the flusher running at any speed in between, the slots of the queued segments, of the open
  writer and on the free list are all the slots of the pool, each once; a free slot is zero
  while nothing has failed; and \<open>begin_segment\<close> ends, handing out a segment that reads as zero
  or raising. With a destination whose flushes do not fail, it hands one out whenever its
  arguments are the next segment's.
\<close>

theorem buffered_sink_live:
  assumes "feeding h s"
  shows "distinct (used_slots s @ sp_free (bs_pool s)) \<and> set (used_slots s @ sp_free (bs_pool s)) = {..<sp_slots (bs_pool s)} \<and>
    (if bs_failure s = None
     then list_all (\<lambda>j. slot_bytes j (bs_pool s) = replicate (bs_segment_size s) 0) (sp_free (bs_pool s)) else True) \<and>
    (case begin_segment h index start len s of
       None \<Rightarrow> False
     | Some (Inr seg, t) \<Rightarrow> open_segment t = Some seg \<and> segment_held seg t = Some (replicate (sg_length seg) 0)
     | Some (Inl e, t) \<Rightarrow> \<not> (unfailing h \<and> bs_failure s = None \<and> fst (check_begin index start len s) = Inr ()))"
proof -
  have p: "piped h s" using assms by (rule feeding_piped)
  obtain r t where b: "begin_segment h index start len s = Some (r, t)"
    "\<And>seg. r = Inr seg \<Longrightarrow> open_segment t = Some seg \<and> segment_held seg t = Some (replicate (sg_length seg) 0)"
    using begin_segment_piped [OF p, of index start len] by blast
  have "\<exists>seg. r = Inr seg" if u: "unfailing h" "bs_failure s = None" and c: "fst (check_begin index start len s) = Inr ()"
  proof -
    obtain z out d0 N m w where pw: "pipe h z out d0 N m w s" using p by (auto simp: piped_def)
    obtain s' where "check_begin index start len s = (Inr (), s')" using c by (cases "check_begin index start len s") simp
    from check_begin_valid [OF pw this]
    have v: "w = None" "index = m" "start = m * z" "m * z < length out" "len = min z (length out - m * z)" by auto
    show ?thesis using begin_segment_pipe(2) [OF pw [unfolded v(1)] v(4) u] b(1) unfolding v(2,3,5) by auto
  qed
  then show ?thesis
    using piped_slots [OF p] b by (cases r) (auto simp: list_all_iff)
qed

text \<open>A destination that collects the bytes, with a flusher that never runs by itself.\<close>

definition lazy_hooks :: "bytes hooks" where
  "lazy_hooks = \<lparr>bh_alloc = Inr (), bh_create = (\<lambda>n sparse d. (Inr (), d)), bh_flush = (\<lambda>x d. (Inr (), d @ fs_bytes x)),
     bh_finalize = (\<lambda>d. (Inr (), d)), bh_discard = (\<lambda>d. (Inr False, [])), bh_sched = (\<lambda>k. 0)\<rparr>"

definition one_slot_sink :: "bytes buffered" where
  "one_slot_sink = projr (buffered_sink 4096 1 [])"

lemma one_slot_fresh: "fresh_sink 4096 one_slot_sink"
  by (simp add: one_slot_sink_def buffered_sink_def fresh_sink_def SINK_SEGMENT_ALIGN_def)

lemma buffered_sink_live_witness:
  "\<exists>t seg u. buffered_open lazy_hooks 5000 True one_slot_sink = (Inr (), t) \<and> used_slots t = [] \<and>
    begin_segment lazy_hooks 0 0 4096 t = Some (Inr seg, u) \<and> segment_held seg u = Some (replicate (sg_length seg) 0)"
proof -
  define n :: nat where "n = 5000"
  have n: "0 < n" "length (replicate n (0 :: byte)) = n" by (simp_all add: n_def)
  obtain t N where t: "buffered_open lazy_hooks n True one_slot_sink = (Inr (), t)"
    "pipe lazy_hooks 4096 (replicate n 0) [] N 0 None t" "bs_failure t = None"
    using buffered_open_spec [OF one_slot_fresh, of lazy_hooks "replicate n 0" True]
    by (auto simp: lazy_hooks_def one_slot_sink_def buffered_sink_def SINK_SEGMENT_ALIGN_def)
  have feed: "feeding lazy_hooks t" by (rule feeding.opened [OF one_slot_fresh t(1)])
  have used: "used_slots t = []"
    using t(2,3) pipe_open_segment [OF t(2)] by (auto simp: used_slots_def pipe_def pipe_at_def flowing_def)
  have "check_begin 0 0 4096 t = (Inr (), t)"
    using check_begin_pipe [OF t(2)] by (simp add: n_def)
  moreover have "unfailing lazy_hooks" by (simp add: unfailing_def lazy_hooks_def)
  ultimately have "\<exists>seg u. begin_segment lazy_hooks 0 0 4096 t = Some (Inr seg, u) \<and> segment_held seg u = Some (replicate (sg_length seg) 0)"
    using buffered_sink_live [OF feed, of 0 0 4096] t(3)
    by (cases "begin_segment lazy_hooks 0 0 4096 t"; cases "fst (the (begin_segment lazy_hooks 0 0 4096 t))") auto
  then show ?thesis using t(1) used unfolding n_def by blast
qed

end
