(* ===== verification/SegmentedExport.thy ===== *)
theory SegmentedExport
  imports BufferedRun Exporting
begin

text \<open>
  \<open>run_export\<close> of \<open>sdk/api/export.py\<close> into a sink with segments: \<open>_export_segments\<close> feeds a
  \<open>BufferedExportSink\<close> one slice of the content after the other. Whatever the schedule of the
  flusher and the order of the writes inside a slice, the destination ends up as the sequential
  program \<open>deliver\<close> leaves it.
\<close>

subsection \<open>The loop over the segments\<close>

definition export_ranges :: "nat \<Rightarrow> nat \<Rightarrow> (nat \<times> nat) list" where
  "export_ranges z n = map (\<lambda>start. (start, min (start + z) n)) (pyrange 0 n z)"

definition add_result :: "export_result \<Rightarrow> export_result \<Rightarrow> export_result" where
  "add_result acc x = acc\<lparr>er_bytes_written := er_bytes_written acc + er_bytes_written x,
     er_holes := er_holes acc + er_holes x, er_zeros := er_zeros acc + er_zeros x\<rparr>"

text \<open>\<open>None\<close>: a \<open>begin_segment\<close> that waits for ever, or planning that does not end.\<close>

fun export_segments ::
    "'d hooks \<Rightarrow> pool_config \<Rightarrow> reader \<Rightarrow> crec res \<Rightarrow> bool \<Rightarrow> bool \<Rightarrow> export_tuning \<Rightarrow> dedup_content \<Rightarrow> nat \<Rightarrow> (nat \<times> nat) list \<Rightarrow>
      export_result \<Rightarrow> 'd buffered export_state \<Rightarrow> (export_result res \<times> 'd buffered export_state) option" where
  "export_segments h cf rd_at open_record sparse progress tuning c index [] acc s = Some (Inr acc, s)"
| "export_segments h cf rd_at open_record sparse progress tuning c index ((start, stop) # rest) acc s =
     (case begin_segment h index start (stop - start) (xs_writer s) of
        None \<Rightarrow> None
      | Some (Inl e, w) \<Rightarrow> Some (Inl e, s\<lparr>xs_writer := w\<rparr>)
      | Some (Inr seg, w) \<Rightarrow>
          (case export_range cf rd_at open_record (segment_writer h seg) sparse progress tuning c (int start) (int stop)
              (s\<lparr>xs_writer := w\<rparr>) of
             None \<Rightarrow> None
           | Some (Inl e, s) \<Rightarrow> Some (Inl e, s)
           | Some (Inr x, s) \<Rightarrow>
               (case complete_segment h seg (xs_writer s) of
                  (Inl e, w) \<Rightarrow> Some (Inl e, s\<lparr>xs_writer := w\<rparr>)
                | (Inr _, w) \<Rightarrow>
                    export_segments h cf rd_at open_record sparse progress tuning c (Suc index) rest (add_result acc x)
                      (s\<lparr>xs_writer := w\<rparr>))))"

definition no_totals :: "nat \<Rightarrow> export_result" where
  "no_totals size_all = \<lparr>er_bytes_written = 0, er_logical_size = size_all, er_holes = 0, er_zeros = 0\<rparr>"

definition buffered_abort_closer :: "'d hooks \<Rightarrow> ('d buffered, unit) op" where
  "buffered_abort_closer h = op_bind (buffered_abort h) (\<lambda>_. op_return ())"

definition run_export_segmented ::
    "'d hooks \<Rightarrow> pool_config \<Rightarrow> reader \<Rightarrow> crec res \<Rightarrow> bool \<Rightarrow> bool \<Rightarrow> export_tuning \<Rightarrow> dedup_content \<Rightarrow> 'd buffered export_state \<Rightarrow>
      (export_result res \<times> 'd buffered export_state) option" where
  "run_export_segmented h cf rd_at open_record sparse progress tuning c s =
     (case content_size c (xs_file s) of
        None \<Rightarrow> Some (Inl PyValueError, s)
      | Some n \<Rightarrow>
          let z = bs_segment_size (xs_writer s) in
          if z = 0 \<or> z mod SINK_SEGMENT_ALIGN \<noteq> 0 then Some (Inl PyValueError, s)
          else
            case (if progress then planned_bytes rd_at open_record c 0 n (xs_file s) else (Inr 0, xs_file s)) of
              (Inl e, f) \<Rightarrow> Some (Inl e, s\<lparr>xs_file := f\<rparr>)
            | (Inr planned, f) \<Rightarrow>
                run_sink_export_partial (on_sink (buffered_open h n sparse))
                  (export_segments h cf rd_at open_record sparse progress tuning c 0 (export_ranges z n) (no_totals n))
                  (on_sink (buffered_commit h)) (on_sink (buffered_abort_closer h)) (s\<lparr>xs_file := f\<rparr>))"

subsection \<open>One segment\<close>

lemma export_ranges_upt:
  "0 < z \<Longrightarrow> export_ranges z n = map (\<lambda>i. (i * z, min (i * z + z) n)) [0..<segment_count z n]"
  by (simp add: export_ranges_def pyrange_def segment_count_eq)

lemma part_of_range:
  assumes "i * z < n"
  shows "seg_part z (map f [a..<a + n]) i = map f [a + i * z..<a + min (i * z + z) n]"
proof (cases "i * z + z \<le> n")
  case True
  then show ?thesis by (simp add: seg_part_def drop_map take_map add.assoc)
next
  case False
  then show ?thesis using assms by (simp add: seg_part_def drop_map take_map)
qed

definition export_failed :: "'d hooks \<Rightarrow> nat \<Rightarrow> bytes \<Rightarrow> 'd \<Rightarrow> 'd buffered \<Rightarrow> bool" where
  "export_failed h z out d0 w \<longleftrightarrow> (\<exists>N m seg e. pipe h z out d0 N m seg w \<and> bs_failure w = Some e)"

lemmas segment_exported = export_writer.exported_def [OF buffered_segment.export_writer_axioms]

lemma segment_export:
  assumes ok: "export_ok cf rd_at open_record arr es s" and ord: "entries_ordered es"
    and size: "content_size c (xs_file s) = Some n" and al: "content_window c mod FIXED_CHUNK_LENGTH = 0"
    and there: "chunks_there cf es (content_window c) (content_window c + n)" and m: "0 < et_window_entries tuning"
    and z: "z mod SINK_SEGMENT_ALIGN = 0" and in_range: "i * z < n"
    and out: "out = map (content (chunk_bytes cf) es) [content_window c..<content_window c + n]"
    and p: "pipe h z out d0 N i None (xs_writer s)"
  shows "\<exists>r s'. export_segments h cf rd_at open_record sparse progress tuning c i ((i * z, min (i * z + z) n) # rest) acc s =
      (case r of Inl e \<Rightarrow> Some (Inl e, s')
       | Inr x \<Rightarrow> export_segments h cf rd_at open_record sparse progress tuning c (Suc i) rest (add_result acc x) s') \<and>
    export_ok cf rd_at open_record arr es s' \<and> df_size (xs_file s') = df_size (xs_file s) \<and>
    (case r of Inl e \<Rightarrow> export_failed h z out d0 (xs_writer s')
     | Inr x \<Rightarrow> pipe h z out d0 N (Suc i) None (xs_writer s') \<and> totals_ok (min (i * z + z) n - i * z) x)"
proof -
  let ?b = "min (i * z + z) n" and ?run = "export_segments h cf rd_at open_record sparse progress tuning c i ((i * z, min (i * z + z) n) # rest) acc s"
  have len: "length out = n" by (simp add: out)
  have b: "?b - i * z = min z (n - i * z)" using in_range by linarith
  consider (refused) e w where "begin_segment h i (i * z) (?b - i * z) (xs_writer s) = Some (Inl e, w)"
      "pipe h z out d0 N i None w" "bs_failure w = Some e"
    | (begun) seg w where "begin_segment h i (i * z) (?b - i * z) (xs_writer s) = Some (Inr seg, w)"
      "pipe h z out d0 N (Suc i) (Some seg) w" "sg_length seg = ?b - i * z"
      "segment_held seg w = Some (replicate (sg_length seg) 0)"
    using begin_segment_pipe(1) [OF p] in_range len b by auto
  then show ?thesis
  proof cases
    case refused
    then have "?run = Some (Inl e, s\<lparr>xs_writer := w\<rparr>)" by simp
    moreover have "export_failed h z out d0 w" using refused unfolding export_failed_def by blast
    moreover have "export_ok cf rd_at open_record arr es (s\<lparr>xs_writer := w\<rparr>)" using ok by (simp add: export_ok_def)
    ultimately show ?thesis by (intro exI [of _ "Inl e"] exI [of _ "s\<lparr>xs_writer := w\<rparr>"]) simp
  next
    case begun
    let ?s = "s\<lparr>xs_writer := w\<rparr>"
    have ok1: "export_ok cf rd_at open_record arr es ?s" using ok by (simp add: export_ok_def)
    have size1: "content_size c (xs_file ?s) = Some n" using size by simp
    have ab: "i * z \<le> ?b" "?b \<le> n" using in_range by simp_all
    have al1: "(content_window c + i * z) mod FIXED_CHUNK_LENGTH = 0"
    proof -
      have "FIXED_CHUNK_LENGTH dvd z" using z by (auto simp: const_values SINK_SEGMENT_ALIGN_def)
      then show ?thesis using al by (auto simp: mod_eq_0_iff_dvd)
    qed
    have there1: "chunks_there cf es (content_window c + i * z) (content_window c + ?b)"
      using there ab by (auto simp: chunks_there_def)
    have held: "segment_held seg (xs_writer ?s) = Some (replicate (sg_length seg) 0)"
      "length (replicate (sg_length seg) (0 :: byte)) = ?b - i * z"
      using begun by simp_all
    have keep: "pipe h z out d0 N (Suc i) (Some seg) (xs_writer ?s)" using begun by simp
    have zero: "needs_zero_fill (segment_writer h seg) sparse (xs_writer ?s) \<or>
        replicate (sg_length seg) 0 = replicate (?b - i * z) (0 :: byte)"
      using begun(3) by simp
    obtain r t where r: "export_range cf rd_at open_record (segment_writer h seg) sparse progress tuning c (int (i * z)) (int ?b) ?s = Some (r, t)"
      "export_ok cf rd_at open_record arr es t" "df_size (xs_file t) = df_size (xs_file ?s)"
      "export_writer.exported (segment_held seg) (segment_ready h seg) (pipe h z out d0 N (Suc i) (Some seg))
        (map (content (chunk_bytes cf) es) [content_window c + i * z..<content_window c + ?b]) (xs_writer ?s) r (xs_writer t)"
      using export_writer.export_range_paints [OF buffered_segment.export_writer_axioms ok1 ord size1 ab al1 there1 m held keep zero, of progress] by blast
    have pt: "pipe h z out d0 N (Suc i) (Some seg) (xs_writer t)"
      using r(4) by (simp add: segment_exported)
    show ?thesis
    proof (cases r)
      case (Inl e)
      then have "?run = Some (Inl e, t)" using begun(1) r(1) by simp
      moreover have "bs_failure (xs_writer t) \<noteq> None"
        using r(4) Inl by (auto simp: segment_exported segment_held_def split: if_splits)
      then have "export_failed h z out d0 (xs_writer t)" using pt unfolding export_failed_def by blast
      ultimately show ?thesis using r(2,3) by (intro exI [of _ "Inl e"] exI [of _ t]) simp
    next
      case (Inr x)
      have idx: "sg_index seg = i" using begun(2) by (auto simp: pipe_def pipe_at_def pipe_frame_def)
      have full: "f = seg_part z out (sg_index seg)" if "segment_held seg (xs_writer t) = Some f" for f
        using r(4) that Inr part_of_range [OF in_range] by (auto simp: segment_exported out idx)
      have tot: "totals_ok (?b - i * z) x" using r(4) Inr by (simp add: segment_exported)
      consider (late) e w where "complete_segment h seg (xs_writer t) = (Inl e, w)"
          "pipe h z out d0 N (Suc i) (Some seg) w" "bs_failure w = Some e"
        | (queued) w where "complete_segment h seg (xs_writer t) = (Inr (), w)" "pipe h z out d0 N (Suc i) None w"
        using complete_segment_pipe [OF pt full] by blast
      then show ?thesis
      proof cases
        case late
        then have "?run = Some (Inl e, t\<lparr>xs_writer := w\<rparr>)" using begun(1) r(1) Inr by simp
        moreover have "export_failed h z out d0 w" using late(2,3) unfolding export_failed_def by blast
        moreover have "export_ok cf rd_at open_record arr es (t\<lparr>xs_writer := w\<rparr>)" using r(2) by (simp add: export_ok_def)
        ultimately show ?thesis using r(3) by (intro exI [of _ "Inl e"] exI [of _ "t\<lparr>xs_writer := w\<rparr>"]) simp
      next
        case queued
        then have "?run = export_segments h cf rd_at open_record sparse progress tuning c (Suc i) rest (add_result acc x) (t\<lparr>xs_writer := w\<rparr>)"
          using begun(1) r(1) Inr by simp
        moreover have "export_ok cf rd_at open_record arr es (t\<lparr>xs_writer := w\<rparr>)" using r(2) by (simp add: export_ok_def)
        ultimately show ?thesis using r(3) queued(2) tot by (intro exI [of _ "Inr x"] exI [of _ "t\<lparr>xs_writer := w\<rparr>"]) simp
      qed
    qed
  qed
qed

subsection \<open>All segments\<close>

text \<open>What has been totalled when the first \<open>i\<close> segments are exported.\<close>

definition totals_to :: "nat \<Rightarrow> nat \<Rightarrow> export_result \<Rightarrow> bool" where
  "totals_to k n x \<longleftrightarrow> er_logical_size x = n \<and> er_bytes_written x + er_holes x + er_zeros x = k"

lemma export_segments_exact:
  assumes ok: "export_ok cf rd_at open_record arr es s" and ord: "entries_ordered es"
    and size: "content_size c (xs_file s) = Some n" and al: "content_window c mod FIXED_CHUNK_LENGTH = 0"
    and there: "chunks_there cf es (content_window c) (content_window c + n)" and m: "0 < et_window_entries tuning"
    and z: "0 < z" "z mod SINK_SEGMENT_ALIGN = 0"
    and out: "out = map (content (chunk_bytes cf) es) [content_window c..<content_window c + n]"
    and i: "i \<le> segment_count z n" and p: "pipe h z out d0 N i None (xs_writer s)" and acc: "totals_to (min (i * z) n) n acc"
  shows "\<exists>r s'. export_segments h cf rd_at open_record sparse progress tuning c i
      (map (\<lambda>i. (i * z, min (i * z + z) n)) [i..<segment_count z n]) acc s = Some (r, s') \<and>
    (case r of Inl e \<Rightarrow> export_failed h z out d0 (xs_writer s')
     | Inr x \<Rightarrow> pipe h z out d0 N (segment_count z n) None (xs_writer s') \<and> totals_ok n x)"
  using i ok size p acc
proof (induction i arbitrary: s acc rule: inc_induct)
  case base
  have "n \<le> segment_count z n * z" using segment_count_covers [OF z(1), of "segment_count z n" n] by simp
  then show ?case using base by (simp add: totals_ok_def totals_to_def min_def)
next
  case (step k)
  have ks: "[k..<segment_count z n] = k # [Suc k..<segment_count z n]" using step.hyps(2) by (rule upt_conv_Cons)
  have lt: "k * z < n" using segment_count_covers [OF z(1)] step.hyps(2) by blast
  from segment_export [OF step.prems(1) ord step.prems(2) al there m z(2) lt out step.prems(3), of sparse progress
      "map (\<lambda>i. (i * z, min (i * z + z) n)) [Suc k..<segment_count z n]" acc]
  obtain r t where r: "export_segments h cf rd_at open_record sparse progress tuning c k
      (map (\<lambda>i. (i * z, min (i * z + z) n)) [k..<segment_count z n]) acc s =
      (case r of Inl e \<Rightarrow> Some (Inl e, t)
       | Inr x \<Rightarrow> export_segments h cf rd_at open_record sparse progress tuning c (Suc k)
           (map (\<lambda>i. (i * z, min (i * z + z) n)) [Suc k..<segment_count z n]) (add_result acc x) t)"
    "export_ok cf rd_at open_record arr es t" "df_size (xs_file t) = df_size (xs_file s)"
    "case r of Inl e \<Rightarrow> export_failed h z out d0 (xs_writer t)
     | Inr x \<Rightarrow> pipe h z out d0 N (Suc k) None (xs_writer t) \<and> totals_ok (min (k * z + z) n - k * z) x"
    unfolding ks list.map by blast
  show ?case
  proof (cases r)
    case (Inl e)
    then show ?thesis using r(1,4) by (intro exI [of _ "Inl e"] exI [of _ t]) simp
  next
    case (Inr x)
    have size: "content_size c (xs_file t) = Some n" using step.prems(2) r(3) by (cases c) (simp_all add: content_size_def)
    have "totals_to (min (Suc k * z) n) n (add_result acc x)"
      using step.prems(4) r(4) lt by (auto simp: Inr totals_to_def totals_ok_def add_result_def min_def)
    with step.IH [OF r(2) size] r(4) show ?thesis unfolding r(1) by (simp add: Inr)
  qed
qed

subsection \<open>The whole export\<close>

lemma aborted_writer: "xs_writer (close_preserving [on_sink (buffered_abort_closer h)] s) = snd (buffered_abort h (xs_writer s))"
  by (auto simp: on_sink_def op_zoom_def buffered_abort_closer_def op_bind_def split: prod.split sum.split)

lemma aborted_idle:
  assumes "idle d created (xs_writer s)"
  shows "bs_dest (xs_writer (close_preserving [on_sink (buffered_abort_closer h)] s)) = (if created then snd (bh_discard h d) else d)"
  unfolding aborted_writer using assms by (rule buffered_abort_idle)

lemma failed_delivery:
  assumes "bh_create h (length out) sparse d0 = (Inr (), d)" and "export_failed h z out d w"
  shows "\<exists>e. deliver h z sparse out d0 = (Inl e, bs_dest w)" and "idle (bs_dest w) True w"
proof -
  obtain N m seg e where w: "pipe h z out d N m seg w" "bs_failure w = Some e" using assms(2) by (auto simp: export_failed_def)
  show "\<exists>e. deliver h z sparse out d0 = (Inl e, bs_dest w)"
    using pipe_stuck(1) [OF w] assms(1) by (auto simp: deliver_def op_bind_def)
  show "idle (bs_dest w) True w" by (rule pipe_stuck(2) [OF w])
qed

lemma segmented_lifecycle:
  assumes fresh: "fresh_sink z (xs_writer s)" and n: "length out = n"
    and body: "\<And>d N t. pipe h z out d N 0 None t \<Longrightarrow> \<exists>r s'. body (s\<lparr>xs_writer := t\<rparr>) = Some (r, s') \<and>
      (case r of Inl e \<Rightarrow> export_failed h z out d (xs_writer s')
       | Inr x \<Rightarrow> pipe h z out d N (segment_count z n) None (xs_writer s') \<and> totals_ok n x)"
  shows "\<exists>r s'. run_sink_export_partial (on_sink (buffered_open h n sparse)) body (on_sink (buffered_commit h))
      (on_sink (buffered_abort_closer h)) s = Some (r, s') \<and>
    (case bh_alloc h of
       Inl e \<Rightarrow> r = Inl e \<and> bs_dest (xs_writer s') = bs_dest (xs_writer s)
     | Inr _ \<Rightarrow>
         (case deliver h z sparse out (bs_dest (xs_writer s)) of
            (Inl _, d) \<Rightarrow> (\<exists>e. r = Inl e) \<and> bs_dest (xs_writer s') = snd (bh_discard h d)
          | (Inr _, d) \<Rightarrow> (\<exists>x. r = Inr x \<and> totals_ok n x) \<and> bs_dest (xs_writer s') = d))"
    (is "\<exists>r s'. ?run = Some (r, s') \<and> ?good r s'")
proof -
  let ?d0 = "bs_dest (xs_writer s)" and ?close = "close_preserving [on_sink (buffered_abort_closer h)]"
  note opened = buffered_open_spec [OF fresh, of h out sparse, unfolded n]
  have refused: "?run = Some (Inl e, ?close (s\<lparr>xs_writer := t\<rparr>))" if "buffered_open h n sparse (xs_writer s) = (Inl e, t)" for e t
    using that by (simp add: run_sink_export_partial_def on_sink_def op_zoom_def)
  show ?thesis
  proof (cases "bh_alloc h")
    case (Inl e)
    then obtain t where t: "buffered_open h n sparse (xs_writer s) = (Inl e, t)" "idle ?d0 False t"
      using opened by (auto simp: idle_def)
    have "bs_dest (xs_writer (?close (s\<lparr>xs_writer := t\<rparr>))) = ?d0" using aborted_idle [of ?d0 False "s\<lparr>xs_writer := t\<rparr>" h] t(2) by simp
    then show ?thesis using refused [OF t(1)] Inl by simp
  next
    case alloc: (Inr u)
    obtain r d where create: "bh_create h n sparse ?d0 = (r, d)" by fastforce
    show ?thesis
    proof (cases r)
      case (Inl e)
      then obtain t where t: "buffered_open h n sparse (xs_writer s) = (Inl e, t)" "idle d True t"
        using opened alloc create by (auto simp: idle_def)
      have "bs_dest (xs_writer (?close (s\<lparr>xs_writer := t\<rparr>))) = snd (bh_discard h d)"
        using aborted_idle [of d True "s\<lparr>xs_writer := t\<rparr>" h] t(2) by simp
      then show ?thesis using refused [OF t(1)] alloc create Inl n by (simp add: deliver_def)
    next
      case (Inr v)
      then have c: "bh_create h (length out) sparse ?d0 = (Inr (), d)" using create n by simp
      obtain t N where t: "buffered_open h n sparse (xs_writer s) = (Inr (), t)" "pipe h z out d N 0 None t"
        using opened alloc create Inr by auto
      obtain r s' where b: "body (s\<lparr>xs_writer := t\<rparr>) = Some (r, s')"
        "case r of Inl e \<Rightarrow> export_failed h z out d (xs_writer s')
         | Inr x \<Rightarrow> pipe h z out d N (segment_count z n) None (xs_writer s') \<and> totals_ok n x"
        using body [OF t(2)] by blast
      have run: "?run = Some (run_sink_export (\<lambda>_. (Inr (), s\<lparr>xs_writer := t\<rparr>)) (\<lambda>_. (r, s')) (on_sink (buffered_commit h))
          (on_sink (buffered_abort_closer h)) (s\<lparr>xs_writer := t\<rparr>))"
        using t(1) b(1) by (simp add: run_sink_export_partial_def on_sink_def op_zoom_def)
      show ?thesis
      proof (cases r)
        case (Inl e)
        then have bad: "export_failed h z out d (xs_writer s')" using b(2) by simp
        have "?run = Some (Inl e, ?close s')" using run Inl by (simp add: run_sink_export_def op_bind_def)
        then show ?thesis
          using alloc failed_delivery(1) [OF c bad] aborted_idle [OF failed_delivery(2) [OF c bad]] by (auto split: prod.split)
      next
        case done_: (Inr x)
        then have q: "pipe h z out d N (segment_count z n) None (xs_writer s')" "totals_ok n x" using b(2) by simp_all
        have spec: "deliver h z sparse out ?d0 = op_bind (flush_first h z out (segment_count z n)) (\<lambda>_. bh_finalize h) d"
          using c n by (simp add: deliver_def)
        obtain rd fd where rd: "op_bind (flush_first h z out (segment_count z n)) (\<lambda>_. bh_finalize h) d = (rd, fd)" by fastforce
        note commit = buffered_commit_pipe [OF q(1) n [THEN arg_cong [of _ _ "segment_count z"], symmetric], unfolded rd]
        show ?thesis
        proof (cases rd)
          case (Inl e)
          then obtain w where w: "buffered_commit h (xs_writer s') = (Inl e, w)" "idle fd True w" using commit by auto
          have "?run = Some (Inl e, ?close (s'\<lparr>xs_writer := w\<rparr>))"
            using run done_ w(1) by (simp add: run_sink_export_def op_bind_def on_sink_def op_zoom_def)
          moreover have "bs_dest (xs_writer (?close (s'\<lparr>xs_writer := w\<rparr>))) = snd (bh_discard h fd)"
            using aborted_idle [of fd True "s'\<lparr>xs_writer := w\<rparr>" h] w(2) by simp
          ultimately show ?thesis using alloc spec rd Inl by simp
        next
          case (Inr v)
          then obtain w where w: "buffered_commit h (xs_writer s') = (Inr (), w)" "bs_dest w = fd" using commit by auto
          have "?run = Some (Inr x, s'\<lparr>xs_writer := w\<rparr>)"
            using run done_ w(1) by (simp add: run_sink_export_def op_bind_def on_sink_def op_zoom_def)
          then show ?thesis using alloc spec rd Inr w(2) q(2) by simp
        qed
      qed
    qed
  qed
qed

lemma run_export_segmented_delivers:
  assumes fresh: "fresh_sink z (xs_writer s)"
    and ok: "export_ok cf rd_at open_record arr es s" and ord: "entries_ordered es"
    and size: "content_size c (xs_file s) = Some n" and al: "content_window c mod FIXED_CHUNK_LENGTH = 0"
    and there: "chunks_there cf es (content_window c) (content_window c + n)" and m: "0 < et_window_entries tuning"
  shows "\<exists>r s'. run_export_segmented h cf rd_at open_record sparse progress tuning c s = Some (r, s') \<and>
    (case bh_alloc h of
       Inl e \<Rightarrow> r = Inl e \<and> bs_dest (xs_writer s') = bs_dest (xs_writer s)
     | Inr _ \<Rightarrow>
         (case deliver h z sparse (map (content (chunk_bytes cf) es) [content_window c..<content_window c + n]) (bs_dest (xs_writer s)) of
            (Inl _, d) \<Rightarrow> (\<exists>e. r = Inl e) \<and> bs_dest (xs_writer s') = snd (bh_discard h d)
          | (Inr _, d) \<Rightarrow> (\<exists>x. r = Inr x \<and> totals_ok n x) \<and> bs_dest (xs_writer s') = d))"
proof -
  define out where "out = map (content (chunk_bytes cf) es) [content_window c..<content_window c + n]"
  let ?pb = "if progress then planned_bytes rd_at open_record c 0 n (xs_file s) else (Inr 0, xs_file s)"
  have served: "served_file cf rd_at open_record arr es (xs_file s)" using ok by (simp add: export_ok_def)
  obtain planned f where pb: "?pb = (Inr planned, f)" "served_file cf rd_at open_record arr es f" "df_size f = df_size (xs_file s)"
    using planned_bytes_ok [OF served ord size there] served by (cases progress) auto
  define s1 where "s1 = s\<lparr>xs_file := f\<rparr>"
  have z: "0 < z" "z mod SINK_SEGMENT_ALIGN = 0" "bs_segment_size (xs_writer s) = z" "xs_writer s1 = xs_writer s"
    using fresh by (simp_all add: fresh_sink_def s1_def)
  let ?body = "export_segments h cf rd_at open_record sparse progress tuning c 0 (export_ranges z n) (no_totals n)"
  have run: "run_export_segmented h cf rd_at open_record sparse progress tuning c s =
      run_sink_export_partial (on_sink (buffered_open h n sparse)) ?body (on_sink (buffered_commit h)) (on_sink (buffered_abort_closer h)) s1"
    using size pb(1) z by (simp add: run_export_segmented_def s1_def Let_def del: if_split)
  have ok1: "export_ok cf rd_at open_record arr es (s1\<lparr>xs_writer := w\<rparr>)" for w
    using ok pb(2) by (simp add: s1_def export_ok_def)
  have size1: "content_size c (xs_file (s1\<lparr>xs_writer := w\<rparr>)) = Some n" for w
    using size pb(3) by (cases c) (simp_all add: s1_def content_size_def)
  have "\<exists>r s'. ?body (s1\<lparr>xs_writer := t\<rparr>) = Some (r, s') \<and>
      (case r of Inl e \<Rightarrow> export_failed h z out d (xs_writer s')
       | Inr x \<Rightarrow> pipe h z out d N (segment_count z n) None (xs_writer s') \<and> totals_ok n x)"
    if p: "pipe h z out d N 0 None t" for d N t
  proof -
    have w: "pipe h z out d N 0 None (xs_writer (s1\<lparr>xs_writer := t\<rparr>))" using p by simp
    have zero: "totals_to (min (0 * z) n) n (no_totals n)" by (simp add: totals_to_def no_totals_def)
    show ?thesis
      unfolding export_ranges_upt [OF z(1)]
      by (rule export_segments_exact [OF ok1 ord size1 al there m z(1,2) out_def le0 w zero])
  qed
  from segmented_lifecycle [of z s1 out n h ?body sparse, unfolded z(4), OF fresh _ this]
  show ?thesis unfolding run out_def by simp
qed

text \<open>C1.
  An export through a buffered sink refines the sequential program: for content whose chunks are
  there, \<open>run_export\<close> into a fresh \<open>BufferedExportSink\<close> ends, whatever the schedule of the
  background flusher, the number of slots, the caches and the order in which the chunks of a
  segment are read. Let \<open>deliver\<close> be: create the destination, flush the segments of the content
  one after the other, each exactly once and with exactly its bytes, finalize. If the buffer can
  be allocated, the export returns if and only if \<open>deliver\<close> does, its totals then add up to the
  size, and the destination is as \<open>deliver\<close> leaves it; when a hook raises, the export raises and
  the destination is what \<open>discard_destination\<close> makes of the state that hook left, with no later
  segment flushed. If the buffer cannot be allocated the destination is never touched.
\<close>

theorem run_export_segmented_exact:
  assumes "fresh_sink z (xs_writer s)"
    and "export_ok cf rd_at open_record arr es s" and "entries_ordered es"
    and "content_size c (xs_file s) = Some n" and "content_window c mod FIXED_CHUNK_LENGTH = 0"
    and "chunks_there cf es (content_window c) (content_window c + n)" and "0 < et_window_entries tuning"
  shows "\<exists>r s'. run_export_segmented h cf rd_at open_record sparse progress tuning c s = Some (r, s') \<and>
    (case bh_alloc h of
       Inl e \<Rightarrow> r = Inl e \<and> bs_dest (xs_writer s') = bs_dest (xs_writer s)
     | Inr _ \<Rightarrow>
         (case deliver h z sparse (map (content (chunk_bytes cf) es) [content_window c..<content_window c + n]) (bs_dest (xs_writer s)) of
            (Inl _, d) \<Rightarrow> (\<exists>e. r = Inl e) \<and> bs_dest (xs_writer s') = snd (bh_discard h d)
          | (Inr _, d) \<Rightarrow> (\<exists>x. r = Inr x \<and> totals_ok n x) \<and> bs_dest (xs_writer s') = d))"
  using assms by (rule run_export_segmented_delivers)

end
