(* ===== verification/ZipSink.thy ===== *)
theory ZipSink
  imports SegmentedExport
begin

text \<open>
  \<open>ZipSink\<close> of \<open>examples/export_disk_to_zip.py\<close>, a buffered sink whose destination is one entry of
  an open zip archive. The archive is a library object: its entry's \<open>write\<close> and \<open>close\<close> are
  parameters.
\<close>

record 'z zip_ops =
  zo_open :: "('z, unit) op"
  zo_write :: "bytes \<Rightarrow> ('z, unit) op"
  zo_close :: "('z, unit) op"

record 'z zip_sink =
  zs_archive :: 'z
  zs_entry :: bool

definition on_archive :: "('z, 'a) op \<Rightarrow> ('z zip_sink, 'a) op" where
  "on_archive = op_zoom zs_archive (\<lambda>z s. s\<lparr>zs_archive := z\<rparr>)"

definition zip_create :: "'z zip_ops \<Rightarrow> nat \<Rightarrow> bool \<Rightarrow> ('z zip_sink, unit) op" where
  "zip_create zo n sparse = op_bind (on_archive (zo_open zo)) (\<lambda>_ s. (Inr (), s\<lparr>zs_entry := True\<rparr>))"

definition zip_flush :: "'z zip_ops \<Rightarrow> flushable \<Rightarrow> ('z zip_sink, unit) op" where
  "zip_flush zo x s =
     (if \<not> zs_entry s then (Inl PyAssertionError, s)
      else op_each (\<lambda>block. on_archive (zo_write zo block)) (flushable_blocks FLUSH_BLOCK x) s)"

definition zip_close_entry :: "'z zip_ops \<Rightarrow> ('z zip_sink, unit) op" where
  "zip_close_entry zo s = (if zs_entry s then on_archive (zo_close zo) (s\<lparr>zs_entry := False\<rparr>) else (Inr (), s))"

definition zip_discard :: "'z zip_ops \<Rightarrow> ('z zip_sink, bool) op" where
  "zip_discard zo = op_bind (zip_close_entry zo) (\<lambda>_. op_return False)"

definition zip_hooks :: "'z zip_ops \<Rightarrow> unit res \<Rightarrow> (nat \<Rightarrow> nat) \<Rightarrow> 'z zip_sink hooks" where
  "zip_hooks zo alloc sched = \<lparr>bh_alloc = alloc, bh_create = zip_create zo, bh_flush = zip_flush zo,
     bh_finalize = zip_close_entry zo, bh_discard = zip_discard zo, bh_sched = sched\<rparr>"

subsection \<open>What reaches the entry\<close>

text \<open>The documented behaviour of a zip entry: what is written is appended to what it holds.\<close>

definition entry_appends :: "'z zip_ops \<Rightarrow> ('z \<Rightarrow> bytes) \<Rightarrow> bool" where
  "entry_appends zo got \<longleftrightarrow>
     (\<forall>z z'. zo_open zo z = (Inr (), z') \<longrightarrow> got z' = []) \<and>
     (\<forall>b z z'. zo_write zo b z = (Inr (), z') \<longrightarrow> got z' = got z @ b) \<and>
     (\<forall>z z'. zo_close zo z = (Inr (), z') \<longrightarrow> got z' = got z)"

lemma zip_writes:
  assumes "entry_appends zo got" and "op_each (\<lambda>b. on_archive (zo_write zo b)) bs s = (Inr (), t)"
  shows "got (zs_archive t) = got (zs_archive s) @ concat bs \<and> zs_entry t = zs_entry s"
  using assms(2)
proof (induction bs arbitrary: s)
  case (Cons b bs)
  obtain r z where w: "zo_write zo b (zs_archive s) = (r, z)" by fastforce
  then have first: "on_archive (zo_write zo b) s = (r, s\<lparr>zs_archive := z\<rparr>)" by (simp add: on_archive_def op_zoom_def)
  then have "r = Inr ()" using Cons.prems by (cases r) (simp_all add: op_bind_def)
  then have "op_each (\<lambda>b. on_archive (zo_write zo b)) bs (s\<lparr>zs_archive := z\<rparr>) = (Inr (), t)"
    using Cons.prems first by simp
  from Cons.IH [OF this] show ?case using assms(1) w \<open>r = Inr ()\<close> by (simp add: entry_appends_def)
qed simp

lemma zip_flush_first:
  assumes "entry_appends zo got" and "flush_first (zip_hooks zo alloc sched) z out k s = (Inr (), t)" and "zs_entry s"
  shows "got (zs_archive t) = got (zs_archive s) @ concat (map (seg_part z out) [0..<k]) \<and> zs_entry t"
  using assms(2)
proof (induction k arbitrary: t)
  case 0
  then show ?case using assms(3) by (simp add: flush_first_def)
next
  case (Suc k)
  obtain r u where u: "flush_first (zip_hooks zo alloc sched) z out k s = (r, u)" by fastforce
  have r: "r = Inr ()" using Suc.prems u by (cases r) (simp_all add: flush_first_Suc op_bind_def)
  have f: "zip_flush zo (flushable_of z out k) u = (Inr (), t)"
    using Suc.prems u r by (simp add: flush_first_Suc zip_hooks_def)
  have ih: "got (zs_archive u) = got (zs_archive s) @ concat (map (seg_part z out) [0..<k])" "zs_entry u"
    using Suc.IH u r by auto
  have "0 < FLUSH_BLOCK" by (simp add: FLUSH_BLOCK_def)
  then show ?case
    using f ih zip_writes [OF assms(1), of "flushable_blocks FLUSH_BLOCK (flushable_of z out k)" u t]
    by (simp add: zip_flush_def flushable_blocks_concat) (simp add: flushable_of_def)
qed

lemma zip_delivers:
  assumes "entry_appends zo got" and "0 < z" and "deliver (zip_hooks zo alloc sched) z sparse out s = (Inr (), t)"
  shows "got (zs_archive t) = out"
proof -
  obtain s1 where s1: "zip_create zo (length out) sparse s = (Inr (), s1)"
    "op_bind (flush_first (zip_hooks zo alloc sched) z out (segment_count z (length out))) (\<lambda>_. zip_close_entry zo) s1 = (Inr (), t)"
    using assms(3) by (auto simp: deliver_def zip_hooks_def op_bind_def split: prod.splits sum.splits)
  then obtain s2 where s2: "flush_first (zip_hooks zo alloc sched) z out (segment_count z (length out)) s1 = (Inr (), s2)"
    "zip_close_entry zo s2 = (Inr (), t)"
    by (auto simp: op_bind_def split: prod.splits sum.splits)
  have "got (zs_archive s1) = []" "zs_entry s1"
    using s1(1) assms(1) by (auto simp: zip_create_def on_archive_def op_zoom_def op_bind_def entry_appends_def split: prod.splits sum.splits)
  then have "got (zs_archive s2) = out" "zs_entry s2"
    using zip_flush_first [OF assms(1) s2(1)] all_seg_parts [OF assms(2)] by simp_all
  then show ?thesis
    using s2(2) assms(1) by (auto simp: zip_close_entry_def on_archive_def op_zoom_def entry_appends_def split: prod.splits)
qed

subsection \<open>A concrete export\<close>

definition plain_zip :: "bytes zip_ops" where
  "plain_zip = \<lparr>zo_open = (\<lambda>z. (Inr (), [])), zo_write = (\<lambda>b z. (Inr (), z @ b)), zo_close = (\<lambda>z. (Inr (), z))\<rparr>"

definition plain_zip_hooks :: "bytes zip_sink hooks" where
  "plain_zip_hooks = zip_hooks plain_zip (Inr ()) (\<lambda>k. k mod 2)"

definition zip_target :: "bytes zip_sink buffered" where
  "zip_target = projr (buffered_sink 4096 2 \<lparr>zs_archive = [], zs_entry = False\<rparr>)"

lemma zip_target_fresh: "fresh_sink 4096 (xs_writer (plain_file zip_target))"
  by (simp add: plain_file_def zip_target_def buffered_sink_def fresh_sink_def SINK_SEGMENT_ALIGN_def)

lemma plain_zip_writes: "op_each (\<lambda>b. on_archive (zo_write plain_zip b)) bs s = (Inr (), s\<lparr>zs_archive := zs_archive s @ concat bs\<rparr>)"
  by (induction bs arbitrary: s) (simp_all add: on_archive_def op_zoom_def plain_zip_def op_bind_def)

lemma plain_zip_flush_first:
  "zs_entry s \<Longrightarrow> \<exists>t. flush_first plain_zip_hooks z out k s = (Inr (), t) \<and> zs_entry t"
proof (induction k)
  case 0
  then show ?case by (simp add: flush_first_def)
next
  case (Suc k)
  then show ?case
    by (auto simp: flush_first_Suc plain_zip_hooks_def zip_hooks_def zip_flush_def plain_zip_writes)
qed

lemma plain_zip_delivers:
  "\<exists>t. deliver plain_zip_hooks 4096 True out \<lparr>zs_archive = [], zs_entry = False\<rparr> = (Inr (), t) \<and> zs_archive t = out"
proof -
  let ?s = "\<lparr>zs_archive = [], zs_entry = True\<rparr> :: bytes zip_sink"
  obtain t where t: "flush_first plain_zip_hooks 4096 out (segment_count 4096 (length out)) ?s = (Inr (), t)" "zs_entry t"
    using plain_zip_flush_first [of ?s] by fastforce
  have c: "zip_create plain_zip n sparse \<lparr>zs_archive = [], zs_entry = False\<rparr> = (Inr (), ?s)" for n sparse
    by (simp add: zip_create_def on_archive_def op_zoom_def plain_zip_def op_bind_def)
  have "deliver plain_zip_hooks 4096 True out \<lparr>zs_archive = [], zs_entry = False\<rparr> = (Inr (), t\<lparr>zs_entry := False\<rparr>)"
    using t c by (simp add: deliver_def plain_zip_hooks_def zip_hooks_def zip_close_entry_def on_archive_def op_zoom_def)
      (simp add: plain_zip_def)
  moreover have "entry_appends plain_zip (\<lambda>z. z)" by (simp add: entry_appends_def plain_zip_def)
  ultimately show ?thesis using zip_delivers [of plain_zip "\<lambda>z. z" 4096 "Inr ()" "\<lambda>k. k mod 2" True out] by (simp add: plain_zip_hooks_def)
qed

text \<open>
  The sample file, a hole and two bytes, into a zip entry in segments of one chunk, while the
  flusher gets through a segment before every other step.
\<close>

lemma run_export_segmented_exact_witness:
  "\<exists>x s'. run_export_segmented plain_zip_hooks plain_pool sample_reader sample_record True True plain_tuning (RangeView 4096 4098)
      (plain_file zip_target) = Some (Inr x, s') \<and>
    er_bytes_written x + er_holes x + er_zeros x = 4098 \<and>
    zs_archive (bs_dest (xs_writer s')) = replicate 4096 0 @ [7, 7]"
proof -
  let ?s = "plain_file zip_target"
  have c: "content_size (RangeView 4096 4098) (xs_file ?s) = Some 4098" "content_window (RangeView 4096 4098) mod FIXED_CHUNK_LENGTH = 0"
    "chunks_there plain_pool sample_entries (content_window (RangeView 4096 4098)) (content_window (RangeView 4096 4098) + 4098)"
    "0 < et_window_entries plain_tuning"
    using sample_there [of 8194 4096] by (simp_all add: content_size_def content_window_def const_values plain_tuning_def DEFAULT_WINDOW_ENTRIES_def)
  have w: "content_window (RangeView 4096 4098) = 4096" by (simp add: content_window_def)
  have sum_8194: "4096 + 4098 = (8194 :: nat)" by simp
  have d: "bs_dest (xs_writer ?s) = \<lparr>zs_archive = [], zs_entry = False\<rparr>" "bh_alloc plain_zip_hooks = Inr ()"
    by (simp_all add: plain_file_def zip_target_def buffered_sink_def SINK_SEGMENT_ALIGN_def plain_zip_hooks_def zip_hooks_def)
  note run = run_export_segmented_exact [OF zip_target_fresh plain_file_ok sample_ordered c, of plain_zip_hooks True True, unfolded w sum_8194 sample_range d]
  obtain t where "deliver plain_zip_hooks 4096 True (replicate 4096 0 @ [7, 7]) \<lparr>zs_archive = [], zs_entry = False\<rparr> = (Inr (), t)"
    "zs_archive t = replicate 4096 0 @ [7, 7]"
    using plain_zip_delivers by blast
  then show ?thesis using run by (auto simp: totals_ok_def)
qed

end
