(* ===== verification/VmdkSink.thy ===== *)
theory VmdkSink
  imports SegmentedExport
begin

text \<open>
  \<open>StreamOptimizedVmdkSink\<close> of \<open>examples/hypervisor-restore/stream_vmdk.py\<close>: a buffered sink that
  writes one disk as a streamOptimized VMDK, front to back: a header, one compressed record per
  non-zero grain of 64 KiB, the grain tables, the grain directory, a footer. zlib and the output
  the bytes go to are parameters.
\<close>

subsection \<open>Constants and packing\<close>

definition SECTOR :: nat where [const_defs]: "SECTOR = 512"
definition GRAIN_SECTORS :: nat where [const_defs]: "GRAIN_SECTORS = 128"
definition GRAIN :: nat where [const_defs]: "GRAIN = GRAIN_SECTORS * SECTOR"
definition GTES_PER_GT :: nat where [const_defs]: "GTES_PER_GT = 512"
definition GT_SECTORS :: nat where [const_defs]: "GT_SECTORS = GTES_PER_GT * 4 div SECTOR"
definition OVERHEAD_SECTORS :: nat where [const_defs]: "OVERHEAD_SECTORS = GRAIN_SECTORS"
definition VMDK_MAGIC :: nat where [const_defs]: "VMDK_MAGIC = 0x564D444B"
definition VMDK_FLAGS :: nat where [const_defs]: "VMDK_FLAGS = 0x30001"
definition GD_AT_END :: nat where [const_defs]: "GD_AT_END = 0xFFFFFFFFFFFFFFFF"
definition COMPRESSION_DEFLATE :: nat where [const_defs]: "COMPRESSION_DEFLATE = 1"
definition MARKER_EOS :: nat where [const_defs]: "MARKER_EOS = 0"
definition MARKER_GT :: nat where [const_defs]: "MARKER_GT = 1"
definition MARKER_GD :: nat where [const_defs]: "MARKER_GD = 2"
definition MARKER_FOOTER :: nat where [const_defs]: "MARKER_FOOTER = 3"
definition VMDK_SEGMENT_SIZE :: nat where [const_defs]: "VMDK_SEGMENT_SIZE = 32 * 2 ^ 20"

definition le_bytes :: "nat \<Rightarrow> nat \<Rightarrow> bytes" where
  "le_bytes n v = rev (be_bytes n v)"

text \<open>Unsigned little-endian fields of the given widths; \<open>struct.pack\<close> refuses a value too large.\<close>

definition pack_le :: "(nat \<times> nat) list \<Rightarrow> bytes res" where
  "pack_le fs =
     bind_res (map_res (\<lambda>(n, v). if v < 256 ^ n then Inr (le_bytes n v) else Inl PyStructError) fs) (\<lambda>bs. Inr (concat bs))"

definition ljust :: "nat \<Rightarrow> bytes \<Rightarrow> bytes" where
  "ljust n bs = bs @ replicate (n - length bs) 0"

definition vmdk_header :: "nat \<Rightarrow> nat \<Rightarrow> nat \<Rightarrow> bytes res" where
  "vmdk_header capacity descriptor_sectors gd_offset =
     bind_res (pack_le [(4, VMDK_MAGIC), (4, 3), (4, VMDK_FLAGS), (8, capacity), (8, GRAIN_SECTORS), (8, 1), (8, descriptor_sectors),
       (4, GTES_PER_GT), (8, 0), (8, gd_offset), (8, OVERHEAD_SECTORS), (1, 0)]) (\<lambda>a.
     bind_res (pack_le [(2, COMPRESSION_DEFLATE)]) (\<lambda>b. Inr (a @ [10, 32, 13, 10] @ b @ replicate 433 0)))"

fun hex_str :: "nat \<Rightarrow> string" where
  "hex_str n = (if n < 16 then [hex_char n] else hex_str (n div 16) @ [hex_char (n mod 16)])"

definition hex_08 :: "nat \<Rightarrow> string" where
  "hex_08 n = replicate (8 - length (hex_str n)) (CHR ''0'') @ hex_str n"

declare hex_str.simps [simp del]

text \<open>\<open>file_name\<close> is the name's UTF-8 encoding.\<close>

definition vmdk_descriptor :: "nat \<Rightarrow> nat \<Rightarrow> bytes \<Rightarrow> bytes" where
  "vmdk_descriptor capacity cid file_name =
     (let nl = [CHR 0x0A]; quote = [CHR 0x22]; cylinders = min (capacity div (255 * 63)) 65535 in
      ascii (''# Disk DescriptorFile'' @ nl @ ''version=1'' @ nl @
        ''CID='' @ hex_08 cid @ nl @ ''parentCID=ffffffff'' @ nl @ ''createType='' @ quote @ ''streamOptimized'' @ quote @ nl @ nl @
        ''# Extent description'' @ nl @ ''RW '' @ dec_str capacity @ '' SPARSE '' @ quote) @ file_name @
      ascii (quote @ nl @ nl @ ''# The Disk Data Base'' @ nl @ ''#DDB'' @ nl @ nl @
        ''ddb.virtualHWVersion = '' @ quote @ ''4'' @ quote @ nl @
        ''ddb.geometry.cylinders = '' @ quote @ dec_str cylinders @ quote @ nl @ ''ddb.geometry.heads = '' @ quote @ ''255'' @ quote @ nl @
        ''ddb.geometry.sectors = '' @ quote @ ''63'' @ quote @ nl @ ''ddb.adapterType = '' @ quote @ ''lsilogic'' @ quote @ nl))"

definition metadata_marker :: "nat \<Rightarrow> nat \<Rightarrow> bytes res" where
  "metadata_marker sectors kind = bind_res (pack_le [(8, sectors), (4, 0), (4, kind)]) (\<lambda>bs. Inr (ljust SECTOR bs))"

definition grain_record :: "nat \<Rightarrow> bytes \<Rightarrow> bytes res" where
  "grain_record lba compressed =
     bind_res (pack_le [(8, lba), (4, length compressed)]) (\<lambda>bs.
       let r = bs @ compressed in Inr (r @ replicate (nat ((- int (length r)) mod int SECTOR)) 0))"

definition vmdk_compress :: "(bytes \<Rightarrow> bytes) \<Rightarrow> bytes \<Rightarrow> bytes option" where
  "vmdk_compress deflate grain = (if grain = replicate GRAIN 0 then None else Some (deflate grain))"

subsection \<open>The sink\<close>

record 'o vmdk_ops =
  vo_write :: "bytes \<Rightarrow> ('o, unit) op"
  vo_finish :: "('o, unit) op"
  vo_abort :: "('o, unit) op"

text \<open>\<open>vm_tables\<close> is the dictionary of grain tables, arrays of 32-bit entries.\<close>

record 'o vmdk_sink =
  vm_output :: 'o
  vm_capacity :: nat
  vm_descriptor_sectors :: nat
  vm_sector :: nat
  vm_tables :: "(nat \<times> nat list) list"

definition vmdk_sink_init :: "'o \<Rightarrow> 'o vmdk_sink" where
  "vmdk_sink_init out = \<lparr>vm_output = out, vm_capacity = 0, vm_descriptor_sectors = 0, vm_sector = 0, vm_tables = []\<rparr>"

definition vmdk_emit :: "'o vmdk_ops \<Rightarrow> bytes \<Rightarrow> ('o vmdk_sink, unit) op" where
  "vmdk_emit vo data s =
     (case vo_write vo data (vm_output s) of
        (Inl e, t) \<Rightarrow> (Inl e, s\<lparr>vm_output := t\<rparr>)
      | (Inr _, t) \<Rightarrow> (Inr (), s\<lparr>vm_output := t, vm_sector := vm_sector s + length data div SECTOR\<rparr>))"

definition vmdk_emit_res :: "'o vmdk_ops \<Rightarrow> bytes res \<Rightarrow> ('o vmdk_sink, unit) op" where
  "vmdk_emit_res vo r = op_bind (op_lift r) (vmdk_emit vo)"

definition vmdk_create :: "'o vmdk_ops \<Rightarrow> nat \<Rightarrow> bytes \<Rightarrow> nat \<Rightarrow> bool \<Rightarrow> ('o vmdk_sink, unit) op" where
  "vmdk_create vo cid file_name logical_size sparse s =
     (let capacity = ceil_div logical_size SECTOR;
          text = vmdk_descriptor capacity cid file_name;
          ds = ceil_div (length text) SECTOR;
          s = s\<lparr>vm_capacity := capacity, vm_descriptor_sectors := ds\<rparr>
      in if OVERHEAD_SECTORS < 1 + ds then (Inl PyValueError, s)
         else vmdk_emit_res vo (bind_res (vmdk_header capacity ds GD_AT_END) (\<lambda>head.
           Inr (ljust (OVERHEAD_SECTORS * SECTOR) (head @ text)))) s)"

text \<open>Assigning to an entry of an \<open>array.array("I")\<close>.\<close>

definition array_set :: "nat \<Rightarrow> nat \<Rightarrow> nat list \<Rightarrow> nat list res" where
  "array_set i v xs =
     (if length xs \<le> i then Inl PyIndexError else if 2 ^ 32 \<le> v then Inl PyOverflowError else Inr (xs[i := v]))"

definition table_of :: "nat \<Rightarrow> (nat \<times> nat list) list \<Rightarrow> nat list" where
  "table_of i tables = (case map_of tables i of None \<Rightarrow> replicate GTES_PER_GT 0 | Some t \<Rightarrow> t)"

definition write_grain :: "'o vmdk_ops \<Rightarrow> nat \<Rightarrow> nat \<times> bytes option \<Rightarrow> ('o vmdk_sink, unit) op" where
  "write_grain vo first_lba item s =
     (case item of
        (index, None) \<Rightarrow> (Inr (), s)
      | (index, Some data) \<Rightarrow>
          (let lba = first_lba + index * GRAIN_SECTORS;
               grain = lba div GRAIN_SECTORS;
               i = grain div GTES_PER_GT;
               table = table_of i (vm_tables s);
               s = s\<lparr>vm_tables := AList.update i table (vm_tables s)\<rparr>
           in case array_set (grain mod GTES_PER_GT) (vm_sector s) table of
                Inl e \<Rightarrow> (Inl e, s)
              | Inr table \<Rightarrow>
                  vmdk_emit_res vo (grain_record lba data) (s\<lparr>vm_tables := AList.update i table (vm_tables s)\<rparr>)))"

definition write_grains :: "'o vmdk_ops \<Rightarrow> (bytes \<Rightarrow> bytes) \<Rightarrow> nat \<Rightarrow> bytes list \<Rightarrow> ('o vmdk_sink, unit) op" where
  "write_grains vo deflate first_lba grains =
     op_each (write_grain vo first_lba) (enumerate 0 (map (vmdk_compress deflate) grains))"

definition block_grains :: "bytes \<Rightarrow> bytes list" where
  "block_grains block = map (\<lambda>i. ljust GRAIN (pslice i (i + GRAIN) block)) (pyrange 0 (length block) GRAIN)"

fun flush_blocks :: "'o vmdk_ops \<Rightarrow> (bytes \<Rightarrow> bytes) \<Rightarrow> nat \<Rightarrow> bytes list \<Rightarrow> ('o vmdk_sink, unit) op" where
  "flush_blocks vo deflate off [] = op_return ()"
| "flush_blocks vo deflate off (block # blocks) =
     op_bind (op_lift (require (off mod GRAIN = 0) PyValueError)) (\<lambda>_.
     op_bind (write_grains vo deflate (off div SECTOR) (block_grains block)) (\<lambda>_.
       flush_blocks vo deflate (off + length block) blocks))"

definition vmdk_flush :: "'o vmdk_ops \<Rightarrow> (bytes \<Rightarrow> bytes) \<Rightarrow> flushable \<Rightarrow> ('o vmdk_sink, unit) op" where
  "vmdk_flush vo deflate x = flush_blocks vo deflate (fs_start x) (flushable_blocks FLUSH_BLOCK x)"

text \<open>\<open>tobytes\<close> gives an array's entries in the byte order of the host.\<close>

definition array_bytes :: "bool \<Rightarrow> nat list \<Rightarrow> bytes" where
  "array_bytes little xs = concat (map (\<lambda>v. if little then le_bytes 4 v else be_bytes 4 v) xs)"

fun emit_tables :: "'o vmdk_ops \<Rightarrow> bool \<Rightarrow> nat list \<Rightarrow> nat list \<Rightarrow> ('o vmdk_sink, nat list) op" where
  "emit_tables vo little [] directory = op_return directory"
| "emit_tables vo little (i # rest) directory =
     op_bind (vmdk_emit_res vo (metadata_marker GT_SECTORS MARKER_GT)) (\<lambda>_ s.
       op_bind (op_lift (array_set i (vm_sector s) directory)) (\<lambda>directory.
       op_bind (vmdk_emit vo (array_bytes little (table_of i (vm_tables s)))) (\<lambda>_.
         emit_tables vo little rest directory)) s)"

definition vmdk_finalize :: "'o vmdk_ops \<Rightarrow> bool \<Rightarrow> ('o vmdk_sink, unit) op" where
  "vmdk_finalize vo little s =
     (let tables = ceil_div (vm_capacity s) (GRAIN_SECTORS * GTES_PER_GT);
          gd_sectors = ceil_div (tables * 4) SECTOR
      in op_bind (emit_tables vo little (sorted_list_of_set (set (map fst (vm_tables s)))) (replicate tables 0)) (\<lambda>directory.
         op_bind (vmdk_emit_res vo (metadata_marker gd_sectors MARKER_GD)) (\<lambda>_ s.
           (let gd_offset = vm_sector s in
            op_bind (vmdk_emit vo (ljust (gd_sectors * SECTOR) (array_bytes little directory))) (\<lambda>_.
            op_bind (vmdk_emit_res vo (metadata_marker 1 MARKER_FOOTER)) (\<lambda>_.
            op_bind (vmdk_emit_res vo (vmdk_header (vm_capacity s) (vm_descriptor_sectors s) gd_offset)) (\<lambda>_.
            op_bind (vmdk_emit_res vo (metadata_marker 0 MARKER_EOS)) (\<lambda>_ s.
              (case vo_finish vo (vm_output s) of (r, t) \<Rightarrow> (r, s\<lparr>vm_output := t\<rparr>)))))) s))) s)"

definition vmdk_discard :: "'o vmdk_ops \<Rightarrow> ('o vmdk_sink, bool) op" where
  "vmdk_discard vo s =
     (case vo_abort vo (vm_output s) of
        (Inl e, t) \<Rightarrow> (Inl e, s\<lparr>vm_output := t\<rparr>) | (Inr _, t) \<Rightarrow> (Inr False, s\<lparr>vm_output := t\<rparr>))"

definition vmdk_hooks ::
    "'o vmdk_ops \<Rightarrow> (bytes \<Rightarrow> bytes) \<Rightarrow> bool \<Rightarrow> nat \<Rightarrow> bytes \<Rightarrow> unit res \<Rightarrow> (nat \<Rightarrow> nat) \<Rightarrow> 'o vmdk_sink hooks" where
  "vmdk_hooks vo deflate little cid file_name alloc sched = \<lparr>bh_alloc = alloc, bh_create = vmdk_create vo cid file_name,
     bh_flush = vmdk_flush vo deflate, bh_finalize = vmdk_finalize vo little, bh_discard = vmdk_discard vo, bh_sched = sched\<rparr>"

text \<open>\<open>CountingOutput\<close>, the output of the sizing pass.\<close>

definition counting_output :: "nat vmdk_ops" where
  "counting_output = \<lparr>vo_write = (\<lambda>data k. (Inr (), k + length data)), vo_finish = (\<lambda>k. (Inr (), k)), vo_abort = (\<lambda>k. (Inr (), k))\<rparr>"

end
