(* ===== verification/VmdkExport.thy ===== *)
theory VmdkExport
  imports VmdkRead
begin

text \<open>
  The bytes \<open>StreamOptimizedVmdkSink\<close> emits read back as the exported content. The invariant of
  the sink says which grains the file holds so far; every emission only appends to the file, so
  what lies in it stays there.
\<close>

subsection \<open>The output\<close>

text \<open>The documented behaviour of an output: bytes that were written are appended.\<close>

definition output_appends :: "'o vmdk_ops \<Rightarrow> ('o \<Rightarrow> bytes) \<Rightarrow> bool" where
  "output_appends vo got \<longleftrightarrow>
     (\<forall>b z z'. vo_write vo b z = (Inr (), z') \<longrightarrow> got z' = got z @ b) \<and>
     (\<forall>z z'. vo_finish vo z = (Inr (), z') \<longrightarrow> got z' = got z)"

definition output_accepts :: "'o vmdk_ops \<Rightarrow> bool" where
  "output_accepts vo \<longleftrightarrow> (\<forall>b z. \<exists>z'. vo_write vo b z = (Inr (), z')) \<and> (\<forall>z. \<exists>z'. vo_finish vo z = (Inr (), z'))"

definition vm_file :: "('o \<Rightarrow> bytes) \<Rightarrow> 'o vmdk_sink \<Rightarrow> bytes" where
  "vm_file got s = got (vm_output s)"

text \<open>\<open>grown k s t\<close>: \<open>t\<close> is \<open>s\<close> after emitting \<open>k\<close> sectors.\<close>

definition grown :: "('o \<Rightarrow> bytes) \<Rightarrow> nat \<Rightarrow> 'o vmdk_sink \<Rightarrow> 'o vmdk_sink \<Rightarrow> bool" where
  "grown got k s t \<longleftrightarrow> (\<exists>x. vm_file got t = vm_file got s @ x) \<and> vm_sector t = vm_sector s + k \<and>
     vm_tables t = vm_tables s \<and> vm_capacity t = vm_capacity s \<and> vm_descriptor_sectors t = vm_descriptor_sectors s"

definition sectors_ok :: "('o \<Rightarrow> bytes) \<Rightarrow> 'o vmdk_sink \<Rightarrow> bool" where
  "sectors_ok got s \<longleftrightarrow> length (vm_file got s) = SECTOR * vm_sector s"

lemma SECTOR_pos [simp]: "0 < SECTOR"
  by (simp add: SECTOR_def)

lemma grown_lies: "grown got k s t \<Longrightarrow> lies (vm_file got s) p bs \<Longrightarrow> lies (vm_file got t) p bs"
  by (auto simp: grown_def intro: lies_append)

text \<open>Emitting whole sectors: the record lies where the sink stood.\<close>

lemma emit_grows:
  assumes "output_appends vo got" and "sectors_ok got s" and "length data mod SECTOR = 0" and "R \<Longrightarrow> output_accepts vo"
  shows "attains (vmdk_emit vo data) s (\<lambda>_. \<not> R) (\<lambda>_ t. sectors_ok got t \<and> grown got (length data div SECTOR) s t \<and>
    lies (vm_file got t) (vm_sector s * SECTOR) data)"
proof -
  obtain r z where w: "vo_write vo data (vm_output s) = (r, z)" by fastforce
  show ?thesis
  proof (cases r)
    case (Inl e)
    then have "\<not> output_accepts vo" using w by (auto simp: output_accepts_def) (metis Inl_Inr_False prod.inject)
    then show ?thesis using w Inl assms(4) by (auto simp: vmdk_emit_def attains_def)
  next
    case (Inr u)
    define t where "t = s\<lparr>vm_output := z, vm_sector := vm_sector s + length data div SECTOR\<rparr>"
    have run: "vmdk_emit vo data s = (Inr (), t)" using w Inr by (simp add: vmdk_emit_def t_def)
    have f: "vm_file got t = vm_file got s @ data" using w Inr assms(1) by (simp add: vm_file_def output_appends_def t_def)
    have "SECTOR * (length data div SECTOR) = length data" using assms(3) by auto
    then have "sectors_ok got t" using assms(2) f by (simp add: sectors_ok_def t_def add_mult_distrib2)
    moreover have "grown got (length data div SECTOR) s t" using f by (simp add: grown_def t_def)
    moreover have "lies (vm_file got t) (vm_sector s * SECTOR) data"
      using lies_end [of "vm_file got s" data] assms(2) by (simp add: f sectors_ok_def mult.commute)
    ultimately show ?thesis using run by simp
  qed
qed

lemma emit_res_grows:
  assumes "output_appends vo got" and "sectors_ok got s" and "\<And>bs. r = Inr bs \<Longrightarrow> length bs mod SECTOR = 0"
    and "R \<Longrightarrow> output_accepts vo" and "R \<Longrightarrow> \<exists>bs. r = Inr bs"
  shows "attains (vmdk_emit_res vo r) s (\<lambda>_. \<not> R) (\<lambda>_ t. sectors_ok got t \<and>
    (\<exists>bs. r = Inr bs \<and> grown got (length bs div SECTOR) s t \<and> lies (vm_file got t) (vm_sector s * SECTOR) bs))"
proof (cases r)
  case (Inl e)
  then show ?thesis using assms(5) by (auto simp: vmdk_emit_res_def attains_def op_bind_def)
next
  case (Inr bs)
  then have "attains (vmdk_emit vo bs) s (\<lambda>_. \<not> R) (\<lambda>_ t. sectors_ok got t \<and>
      (\<exists>bs. r = Inr bs \<and> grown got (length bs div SECTOR) s t \<and> lies (vm_file got t) (vm_sector s * SECTOR) bs))"
    using emit_grows [OF assms(1,2,3,4)] by (auto intro: attains_weaken)
  then show ?thesis using Inr by (simp add: vmdk_emit_res_def attains_def op_bind_def)
qed


subsection \<open>The grains stored so far\<close>

definition grain_of :: "bytes \<Rightarrow> nat \<Rightarrow> bytes" where
  "grain_of out k = ljust GRAIN (pslice (k * GRAIN) (k * GRAIN + GRAIN) out)"

definition gte :: "(nat \<times> nat list) list \<Rightarrow> nat \<Rightarrow> nat" where
  "gte tables k = table_of (k div GTES_PER_GT) tables ! (k mod GTES_PER_GT)"

definition grain_stored :: "(bytes \<Rightarrow> bytes) \<Rightarrow> bytes \<Rightarrow> nat \<Rightarrow> nat \<Rightarrow> bytes \<Rightarrow> bool" where
  "grain_stored deflate F e k b \<longleftrightarrow>
     (if b = replicate GRAIN 0 then e = 0
      else 0 < e \<and> e < 2 ^ 32 \<and> (\<exists>r. grain_record (k * GRAIN_SECTORS) (deflate b) = Inr r \<and> lies F (e * SECTOR) r))"

definition grain_tables_ok :: "(nat \<times> nat list) list \<Rightarrow> nat \<Rightarrow> bool" where
  "grain_tables_ok tables g \<longleftrightarrow> (\<forall>i t. map_of tables i = Some t \<longrightarrow> length t = GTES_PER_GT \<and> i * GTES_PER_GT < g)"

text \<open>
  Nothing in the way of an export: an output that accepts everything, at most 1 TiB of data, a
  deflate that keeps zlib's documented bound on a grain, and a descriptor that fits.
\<close>

definition vm_smooth :: "'o vmdk_ops \<Rightarrow> (bytes \<Rightarrow> bytes) \<Rightarrow> bytes \<Rightarrow> bool" where
  "vm_smooth vo deflate out \<longleftrightarrow> output_accepts vo \<and> length out \<le> 2 ^ 40 \<and>
     (\<forall>b. length b = GRAIN \<longrightarrow> length (deflate b) \<le> 65569)"

definition header_lies :: "('o \<Rightarrow> bytes) \<Rightarrow> 'o vmdk_sink \<Rightarrow> bool" where
  "header_lies got s \<longleftrightarrow> (\<exists>h. vmdk_header (vm_capacity s) (vm_descriptor_sectors s) GD_AT_END = Inr h \<and> lies (vm_file got s) 0 h)"

definition vm_inv :: "('o \<Rightarrow> bytes) \<Rightarrow> (bytes \<Rightarrow> bytes) \<Rightarrow> bytes \<Rightarrow> bool \<Rightarrow> nat \<Rightarrow> 'o vmdk_sink \<Rightarrow> bool" where
  "vm_inv got deflate out R g s \<longleftrightarrow>
     sectors_ok got s \<and> OVERHEAD_SECTORS \<le> vm_sector s \<and> header_lies got s \<and>
     vm_capacity s = ceil_div (length out) SECTOR \<and> grain_tables_ok (vm_tables s) g \<and>
     (\<forall>k<g. grain_stored deflate (vm_file got s) (gte (vm_tables s) k) k (grain_of out k)) \<and>
     (\<forall>k\<ge>g. gte (vm_tables s) k = 0) \<and>
     (R \<longrightarrow> vm_sector s \<le> OVERHEAD_SECTORS + 129 * g \<and> vm_descriptor_sectors s < OVERHEAD_SECTORS)"

lemma grain_stored_grows: "grown got k s t \<Longrightarrow> grain_stored deflate (vm_file got s) e i b \<Longrightarrow> grain_stored deflate (vm_file got t) e i b"
  by (auto simp: grain_stored_def intro: grown_lies split: if_splits)

lemma header_lies_grows: "grown got k s t \<Longrightarrow> header_lies got s \<Longrightarrow> header_lies got t"
  by (auto simp: header_lies_def grown_def intro: lies_append)

lemma length_table_of: "grain_tables_ok tables g \<Longrightarrow> length (table_of i tables) = GTES_PER_GT"
  by (auto simp: grain_tables_ok_def table_of_def split: option.split)

lemma GTES_PER_GT_pos [simp]: "0 < GTES_PER_GT"
  by (simp add: GTES_PER_GT_def)

lemma table_of_update: "table_of i (AList.update j t tables) = (if i = j then t else table_of i tables)"
  by (simp add: table_of_def update_conv')

lemma gte_update:
  assumes "grain_tables_ok tables g"
  shows "gte (AList.update (g div GTES_PER_GT) ((table_of (g div GTES_PER_GT) tables)[g mod GTES_PER_GT := v])
      (AList.update (g div GTES_PER_GT) (table_of (g div GTES_PER_GT) tables) tables)) k = (if k = g then v else gte tables k)"
proof -
  have len: "length (table_of (g div GTES_PER_GT) tables) = GTES_PER_GT" using assms by (rule length_table_of)
  have "k = g" if "k div GTES_PER_GT = g div GTES_PER_GT" "k mod GTES_PER_GT = g mod GTES_PER_GT"
    using that by (metis div_mult_mod_eq)
  then show ?thesis using len by (auto simp: gte_def table_of_update nth_list_update)
qed

lemma grain_tables_ok_update:
  assumes "grain_tables_ok tables g" and "length t = GTES_PER_GT" and "length u = GTES_PER_GT"
  shows "grain_tables_ok (AList.update (g div GTES_PER_GT) t (AList.update (g div GTES_PER_GT) u tables)) (Suc g)"
proof -
  have "g div GTES_PER_GT * GTES_PER_GT < Suc g" by (simp add: less_Suc_eq_le)
  moreover have "i * GTES_PER_GT < Suc g" if "map_of tables i = Some x" for i x
    using assms(1) that by (auto simp: grain_tables_ok_def intro: less_SucI)
  ultimately show ?thesis using assms by (auto simp: grain_tables_ok_def update_conv' simp del: mult_Suc split: if_splits)
qed

lemma length_grain_of: "length (grain_of out k) = GRAIN"
  by (auto simp: grain_of_def ljust_def pslice_def)

lemma vm_inv_sector: "vm_inv got deflate out R g s \<Longrightarrow> R \<Longrightarrow> g \<le> 2 ^ 24 \<Longrightarrow> vm_sector s < 2 ^ 32 - 2 ^ 22"
  by (simp add: vm_inv_def OVERHEAD_SECTORS_def GRAIN_SECTORS_def)

lemma write_grain_inv:
  assumes out: "output_appends vo got" and inv: "vm_inv got deflate out R g s" and g: "g = g0 + i"
    and smooth: "R \<Longrightarrow> vm_smooth vo deflate out" and bound: "R \<Longrightarrow> g < 2 ^ 24"
  shows "attains (write_grain vo (g0 * GRAIN_SECTORS) (i, vmdk_compress deflate (grain_of out g))) s (\<lambda>_. \<not> R)
    (\<lambda>_. vm_inv got deflate out R (Suc g))"
proof (cases "grain_of out g = replicate GRAIN 0")
  case True
  have "gte (vm_tables s) g = 0" using inv by (simp add: vm_inv_def)
  then have "vm_inv got deflate out R (Suc g) s"
    using inv True by (auto simp: vm_inv_def less_Suc_eq grain_tables_ok_def grain_stored_def)
  then show ?thesis using True by (simp add: write_grain_def vmdk_compress_def attains_def)
next
  case False
  define d where "d = deflate (grain_of out g)"
  define T where "T = table_of (g div GTES_PER_GT) (vm_tables s)"
  let ?a = "AList.update (g div GTES_PER_GT) T (vm_tables s)"
  have len: "length T = GTES_PER_GT" and tok: "grain_tables_ok (vm_tables s) g" and sok: "sectors_ok got s"
    using inv length_table_of by (auto simp: T_def vm_inv_def)
  have lba: "g0 * GRAIN_SECTORS + i * GRAIN_SECTORS = g * GRAIN_SECTORS" "g * GRAIN_SECTORS div GRAIN_SECTORS = g"
    by (simp_all add: g add_mult_distrib GRAIN_SECTORS_def)
  have run: "write_grain vo (g0 * GRAIN_SECTORS) (i, vmdk_compress deflate (grain_of out g)) s =
      (case array_set (g mod GTES_PER_GT) (vm_sector s) T of Inl e \<Rightarrow> (Inl e, s\<lparr>vm_tables := ?a\<rparr>)
       | Inr table \<Rightarrow> vmdk_emit_res vo (grain_record (g * GRAIN_SECTORS) d) (s\<lparr>vm_tables := AList.update (g div GTES_PER_GT) table ?a\<rparr>))"
    using False by (simp add: write_grain_def vmdk_compress_def lba Let_def T_def d_def cong: sum.case_cong)
  show ?thesis
  proof (cases "vm_sector s < 2 ^ 32")
    case big: False
    then have "\<not> R" using vm_inv_sector [OF inv] bound by force
    then show ?thesis using big len run by (simp add: attains_def array_set_def)
  next
    case small: True
    define s1 where "s1 = s\<lparr>vm_tables := AList.update (g div GTES_PER_GT) (T[g mod GTES_PER_GT := vm_sector s]) ?a\<rparr>"
    have run1: "write_grain vo (g0 * GRAIN_SECTORS) (i, vmdk_compress deflate (grain_of out g)) s =
        vmdk_emit_res vo (grain_record (g * GRAIN_SECTORS) d) s1"
    proof -
      have "g mod GTES_PER_GT < GTES_PER_GT" by simp
      then have "array_set (g mod GTES_PER_GT) (vm_sector s) T = Inr (T[g mod GTES_PER_GT := vm_sector s])"
        using small len by (simp add: array_set_def not_le del: mod_less_divisor)
      then show ?thesis unfolding run by (simp add: s1_def)
    qed
    have f1: "vm_file got s1 = vm_file got s" "vm_sector s1 = vm_sector s" "vm_capacity s1 = vm_capacity s"
      "vm_descriptor_sectors s1 = vm_descriptor_sectors s" "sectors_ok got s1"
      using sok by (simp_all add: s1_def vm_file_def sectors_ok_def)
    have rec: "\<exists>bs. grain_record (g * GRAIN_SECTORS) d = Inr bs" if R
      using smooth [OF that] bound [OF that] length_grain_of [of out g]
      by (intro grain_record_ok) (auto simp: vm_smooth_def d_def GRAIN_SECTORS_def intro: le_less_trans)
    have acc: "output_accepts vo" if R using smooth [OF that] by (simp add: vm_smooth_def)
    have dlen: "length d \<le> 65569" if R using smooth [OF that] length_grain_of [of out g] by (simp add: vm_smooth_def d_def)
    have "attains (vmdk_emit_res vo (grain_record (g * GRAIN_SECTORS) d)) s1 (\<lambda>_. \<not> R) (\<lambda>_ t. vm_inv got deflate out R (Suc g) t)"
    proof (rule attains_weaken [OF emit_res_grows [OF out f1(5) grain_record_Inr(1) acc rec]], assumption+, clarify)
      fix t bs
      assume t: "sectors_ok got t" "grain_record (g * GRAIN_SECTORS) d = Inr bs" "grown got (length bs div SECTOR) s1 t"
        "lies (vm_file got t) (vm_sector s1 * SECTOR) bs"
      have same: "vm_capacity t = vm_capacity s" "vm_descriptor_sectors t = vm_descriptor_sectors s" "vm_tables t = vm_tables s1"
        "vm_sector t = vm_sector s + length bs div SECTOR"
        using t(3) f1 by (simp_all add: grown_def)
      have gt: "gte (vm_tables t) k = (if k = g then vm_sector s else gte (vm_tables s) k)" for k
        unfolding same s1_def T_def using gte_update [OF tok] by simp
      have grow: "grown got (length bs div SECTOR) s (t\<lparr>vm_tables := vm_tables s\<rparr>)"
        using t(3) f1 by (simp add: grown_def vm_file_def)
      have vf: "vm_file got (t\<lparr>vm_tables := vm_tables s\<rparr>) = vm_file got t" by (simp add: vm_file_def)
      have st: "grain_stored deflate (vm_file got t) (gte (vm_tables t) k) k (grain_of out k)" if "k < Suc g" for k
      proof (cases "k = g")
        case True
        then show ?thesis using t(2,4) False small inv f1(2)
          by (auto simp: grain_stored_def gt d_def vm_inv_def OVERHEAD_SECTORS_def GRAIN_SECTORS_def)
      next
        case False
        then have "grain_stored deflate (vm_file got s) (gte (vm_tables s) k) k (grain_of out k)"
          using inv that by (auto simp: vm_inv_def less_Suc_eq)
        from grain_stored_grows [OF grow this] show ?thesis by (simp add: vf gt False)
      qed
      have "header_lies got s" using inv by (simp add: vm_inv_def)
      from header_lies_grows [OF grow this] have hl: "header_lies got t" by (simp add: header_lies_def vf)
      have tk: "grain_tables_ok (vm_tables t) (Suc g)"
        unfolding same s1_def T_def using grain_tables_ok_update [OF tok] len by (simp add: T_def)
      have sec: "vm_sector t \<le> OVERHEAD_SECTORS + 129 * Suc g" if R
      proof -
        have "length bs \<le> 66092" using dlen [OF that] grain_record_Inr(2) [OF t(2)] by simp
        then have "length bs div SECTOR \<le> 66092 div SECTOR" by (rule div_le_mono)
        then show ?thesis using inv that by (simp add: same vm_inv_def SECTOR_def)
      qed
      have z: "gte (vm_tables t) k = 0" if "Suc g \<le> k" for k using inv that by (simp add: gt vm_inv_def)
      show "vm_inv got deflate out R (Suc g) t"
        unfolding vm_inv_def using t(1) hl tk st z sec inv by (auto simp: same vm_inv_def)
    qed
    then show ?thesis using run1 by (simp add: attains_def)
  qed
qed


subsection \<open>Blocks and segments\<close>

lemma less_ceil_div: "0 < z \<Longrightarrow> i < ceil_div n z \<longleftrightarrow> i * z < n"
  using segment_count_covers [of z i n] by (simp add: segment_count_def ceil_div_def)

lemma ceil_div_upper: "0 < z \<Longrightarrow> n \<le> ceil_div n z * z"
  using less_ceil_div [of z "ceil_div n z" n] by simp

lemma ceil_div_eq: "0 < z \<Longrightarrow> ceil_div n z = (n + z - 1) div z"
  using segment_count_eq [of z n] by (simp add: segment_count_def ceil_div_def)

lemma ceil_div_add:
  assumes "0 < z"
  shows "ceil_div (g * z + n) z = g + ceil_div n z"
proof -
  have "g * z + n + z - 1 = (n + z - 1) + g * z" using assms by simp
  moreover have "((n + z - 1) + g * z) div z = g + (n + z - 1) div z" using assms by (subst div_mult_self1) simp_all
  ultimately show ?thesis using assms by (simp only: ceil_div_eq)
qed

lemma ceil_div_exact: "0 < z \<Longrightarrow> ceil_div (g * z) z = g"
  using ceil_div_add [of z g 0] by (simp add: ceil_div_def)

lemma GRAIN_pos [simp]: "0 < GRAIN"
  by (simp add: GRAIN_def GRAIN_SECTORS_def SECTOR_def)

lemma grain_sectors: "g * GRAIN div SECTOR = g * GRAIN_SECTORS"
  by (simp add: GRAIN_def GRAIN_SECTORS_def SECTOR_def)

text \<open>The block of \<open>out\<close> that starts at a grain and is made of whole grains or reaches the end.\<close>

definition grain_block :: "bytes \<Rightarrow> nat \<Rightarrow> bytes \<Rightarrow> bool" where
  "grain_block out off block \<longleftrightarrow> off mod GRAIN = 0 \<and> block = pslice off (off + length block) out \<and>
     (length block mod GRAIN = 0 \<or> off + length block = length out)"

lemma block_grains_of:
  assumes "grain_block out (g * GRAIN) block"
  shows "block_grains block = map (\<lambda>i. grain_of out (g + i)) [0..<ceil_div (length block) GRAIN]"
proof -
  have eq: "ljust GRAIN (pslice (i * GRAIN) (i * GRAIN + GRAIN) block) = grain_of out (g + i)" if "i < ceil_div (length block) GRAIN" for i
  proof -
    have lt: "i * GRAIN < length block" using that less_ceil_div by simp
    have "pslice (i * GRAIN) (i * GRAIN + GRAIN) block = pslice (g * GRAIN + i * GRAIN) (min (g * GRAIN + (i * GRAIN + GRAIN)) (g * GRAIN + length block)) out"
      using assms unfolding grain_block_def by (metis pslice_pslice)
    also have "\<dots> = pslice ((g + i) * GRAIN) ((g + i) * GRAIN + GRAIN) out"
    proof (cases "i * GRAIN + GRAIN \<le> length block")
      case True
      then show ?thesis by (simp add: add_mult_distrib add.assoc)
    next
      case False
      have "length block mod GRAIN \<noteq> 0"
      proof
        assume "length block mod GRAIN = 0"
        then obtain q where q: "length block = q * GRAIN" by (auto simp: mod_eq_0_iff_dvd elim!: dvdE) (metis mult.commute)
        then have "i < q" using lt by simp
        then have "Suc i * GRAIN \<le> q * GRAIN" by (intro mult_le_mono1) simp
        then show False using False q by simp
      qed
      then have "g * GRAIN + length block = length out" using assms by (simp add: grain_block_def)
      then show ?thesis using False by (simp add: add_mult_distrib add.assoc pslice_all min_def)
    qed
    finally show ?thesis by (simp add: grain_of_def)
  qed
  have "length [0..<(length block - 0 + GRAIN - 1) div GRAIN] = ceil_div (length block) GRAIN"
    using segment_count_eq [of GRAIN "length block"] by (simp add: segment_count_def ceil_div_def)
  then show ?thesis using eq by (simp add: block_grains_def pyrange_def)
qed

lemma write_grains_inv:
  assumes out: "output_appends vo got" and smooth: "R \<Longrightarrow> vm_smooth vo deflate out" and bound: "R \<Longrightarrow> g + n \<le> 2 ^ 24"
    and inv: "vm_inv got deflate out R g s"
  shows "attains (write_grains vo deflate (g * GRAIN_SECTORS) (map (\<lambda>i. grain_of out (g + i)) [0..<n])) s (\<lambda>_. \<not> R)
    (\<lambda>_. vm_inv got deflate out R (g + n))"
proof -
  have "attains (op_each (write_grain vo (g * GRAIN_SECTORS)) (map (\<lambda>i. (i, vmdk_compress deflate (grain_of out (g + i)))) [0..<n])) s
      (\<lambda>_. \<not> R) (\<lambda>_. vm_inv got deflate out R (g + length (map (\<lambda>i. (i, vmdk_compress deflate (grain_of out (g + i)))) [0..<n])))"
  proof (rule attains_each)
    show "vm_inv got deflate out R (g + length []) s" using inv by simp
  next
    fix ys y zs t
    assume xs: "map (\<lambda>i. (i, vmdk_compress deflate (grain_of out (g + i)))) [0..<n] = ys @ y # zs"
      and t: "vm_inv got deflate out R (g + length ys) t"
    have lt: "length ys < n" using arg_cong [OF xs, of length] by simp
    have "y = (length ys, vmdk_compress deflate (grain_of out (g + length ys)))"
      using arg_cong [OF xs, of "\<lambda>l. l ! length ys"] lt by simp
    moreover have "g + length ys < 2 ^ 24" if R using bound [OF that] lt by simp
    ultimately show "attains (write_grain vo (g * GRAIN_SECTORS) y) t (\<lambda>_. \<not> R) (\<lambda>_. vm_inv got deflate out R (g + length (ys @ [y])))"
      using write_grain_inv [OF out t refl smooth] by simp
  qed
  moreover have "enumerate 0 (map (vmdk_compress deflate) (map (\<lambda>i. grain_of out (g + i)) [0..<n])) =
      map (\<lambda>i. (i, vmdk_compress deflate (grain_of out (g + i)))) [0..<n]"
    by (rule nth_equalityI) (simp_all add: nth_enumerate_eq)
  ultimately show ?thesis by (simp add: write_grains_def)
qed

fun blocks_cover :: "bytes \<Rightarrow> nat \<Rightarrow> bytes list \<Rightarrow> nat \<Rightarrow> bool" where
  "blocks_cover out off [] stop \<longleftrightarrow> off = stop"
| "blocks_cover out off (b # bs) stop \<longleftrightarrow> grain_block out off b \<and> blocks_cover out (off + length b) bs stop"

lemma blocks_cover_le: "blocks_cover out off bs stop \<Longrightarrow> off \<le> stop"
  by (induction bs arbitrary: off) (auto, fastforce)

lemma ceil_div_mono: "0 < z \<Longrightarrow> a \<le> b \<Longrightarrow> ceil_div a z \<le> ceil_div b z"
  by (simp add: ceil_div_eq div_le_mono)

lemma flush_blocks_inv:
  assumes out: "output_appends vo got" and smooth: "R \<Longrightarrow> vm_smooth vo deflate out" and bound: "R \<Longrightarrow> ceil_div stop GRAIN \<le> 2 ^ 24"
    and "blocks_cover out off blocks stop" and "vm_inv got deflate out R (ceil_div off GRAIN) s"
  shows "attains (flush_blocks vo deflate off blocks) s (\<lambda>_. \<not> R) (\<lambda>_. vm_inv got deflate out R (ceil_div stop GRAIN))"
  using assms(4,5)
proof (induction blocks arbitrary: off s)
  case (Cons b bs)
  have b: "grain_block out off b" and rest: "blocks_cover out (off + length b) bs stop" using Cons.prems(1) by simp_all
  then have "GRAIN dvd off" by (auto simp: grain_block_def)
  then obtain g where g: "off = g * GRAIN" by (metis dvdE mult.commute)
  have ce: "ceil_div off GRAIN = g" "ceil_div (off + length b) GRAIN = g + ceil_div (length b) GRAIN"
    using ceil_div_exact [of GRAIN g] ceil_div_add [of GRAIN g "length b"] by (simp_all add: g)
  have le: "g + ceil_div (length b) GRAIN \<le> 2 ^ 24" if R
    using bound [OF that] ceil_div_mono [OF GRAIN_pos blocks_cover_le [OF rest]] ce(2) by simp
  have "attains (write_grains vo deflate (off div SECTOR) (block_grains b)) s (\<lambda>_. \<not> R)
      (\<lambda>_. vm_inv got deflate out R (ceil_div (off + length b) GRAIN))"
    using write_grains_inv [OF out smooth le] Cons.prems(2) b unfolding g by (simp add: grain_sectors block_grains_of ce [unfolded g])
  moreover have "attains (flush_blocks vo deflate (off + length b) bs) t (\<lambda>_. \<not> R) (\<lambda>_. vm_inv got deflate out R (ceil_div stop GRAIN))"
    if "vm_inv got deflate out R (ceil_div (off + length b) GRAIN) t" for t
    using rest that by (rule Cons.IH)
  ultimately show ?case using b
    by (auto simp: grain_block_def require_def intro!: attains_bind [of "op_lift _"] attains_bind [of "write_grains _ _ _ _"])
qed simp

lemma blocks_cover_slices:
  assumes B: "0 < B" "B mod GRAIN = 0" and a: "a mod GRAIN = 0" and seg: "seg = pslice a (a + length seg) out"
    and end_ok: "length seg mod GRAIN = 0 \<or> a + length seg = length out" and j: "j \<le> ceil_div (length seg) B"
  shows "blocks_cover out (a + min (j * B) (length seg)) (map (\<lambda>i. pslice (i * B) (i * B + B) seg) [j..<ceil_div (length seg) B]) (a + length seg)"
  using j
proof (induction rule: inc_induct)
  case base
  then show ?case using ceil_div_upper [OF B(1), of "length seg"] by (simp add: min_def)
next
  case (step j)
  have lt: "j * B < length seg" using step.hyps less_ceil_div [OF B(1)] by simp
  let ?b = "pslice (j * B) (j * B + B) seg"
  have len: "length ?b = min B (length seg - j * B)" by (simp add: min.commute)
  have eq: "?b = pslice (a + j * B) (min (a + (j * B + B)) (a + length seg)) out"
    by (subst seg) (rule pslice_pslice)
  have stop: "a + j * B + length ?b = min (a + (j * B + B)) (a + length seg)" using lt len by linarith
  have "(a + j * B) mod GRAIN = 0" using a B(2) by (auto simp: mod_eq_0_iff_dvd)
  moreover have "length ?b mod GRAIN = 0 \<or> a + j * B + length ?b = length out"
  proof (cases "j * B + B \<le> length seg")
    case True
    then have "length ?b = B" using len by simp
    then show ?thesis using B(2) by simp
  next
    case False
    then have "length ?b = length seg - j * B" using len by simp
    then show ?thesis using end_ok lt B(2) by (auto simp: mod_eq_0_iff_dvd intro: dvd_diff_nat)
  qed
  ultimately have "grain_block out (a + j * B) ?b" using eq stop by (simp add: grain_block_def)
  moreover have "a + j * B + length ?b = a + min (Suc j * B) (length seg)" unfolding stop by (simp add: min_def)
  moreover have "a + min (j * B) (length seg) = a + j * B" using lt by simp
  ultimately show ?case using step.IH step.hyps(2) by (simp only: upt_conv_Cons list.map blocks_cover.simps simp_thms)
qed
lemma length_seg_part: "length (seg_part z out k) = min z (length out - k * z)"
  by (simp add: seg_part_def min.commute)

lemma seg_part_slice: "seg_part z out k = pslice (k * z) (k * z + length (seg_part z out k)) out"
  by (auto simp: seg_part_def pslice_def min_def)

lemma flushable_slices:
  "0 < B \<Longrightarrow> flushable_blocks B x = map (\<lambda>i. pslice (i * B) (i * B + B) (fs_bytes x)) [0..<ceil_div (length (fs_bytes x)) B]"
  by (simp add: flushable_blocks_def pyrange_def ceil_div_eq)

lemma FLUSH_BLOCK_grains: "0 < FLUSH_BLOCK" "FLUSH_BLOCK mod GRAIN = 0"
  by (simp_all add: FLUSH_BLOCK_def GRAIN_def GRAIN_SECTORS_def SECTOR_def)

lemma vmdk_flush_inv:
  assumes out: "output_appends vo got" and smooth: "R \<Longrightarrow> vm_smooth vo deflate out"
    and z: "z mod GRAIN = 0" and k: "k * z < length out"
    and inv: "vm_inv got deflate out R (ceil_div (k * z) GRAIN) s"
  shows "attains (vmdk_flush vo deflate (flushable_of z out k)) s (\<lambda>_. \<not> R)
    (\<lambda>_. vm_inv got deflate out R (ceil_div (min (Suc k * z) (length out)) GRAIN))"
proof -
  let ?seg = "seg_part z out k"
  have len: "length ?seg = min z (length out - k * z)" by (rule length_seg_part)
  have stop: "k * z + length ?seg = min (Suc k * z) (length out)" using k len by simp
  have kz: "k * z mod GRAIN = 0" using z by (auto simp: mod_eq_0_iff_dvd)
  have fin: "length ?seg mod GRAIN = 0 \<or> k * z + length ?seg = length out" using z len k by (auto simp: min_def)
  have cov: "blocks_cover out (k * z) (map (\<lambda>i. pslice (i * FLUSH_BLOCK) (i * FLUSH_BLOCK + FLUSH_BLOCK) ?seg)
      [0..<ceil_div (length ?seg) FLUSH_BLOCK]) (k * z + length ?seg)"
    using blocks_cover_slices [OF FLUSH_BLOCK_grains kz seg_part_slice fin, of 0] by simp
  have bound: "ceil_div (k * z + length ?seg) GRAIN \<le> 2 ^ 24" if R
  proof -
    have "k * z + length ?seg \<le> 2 ^ 24 * GRAIN"
      using smooth [OF that] unfolding stop by (simp add: vm_smooth_def GRAIN_def GRAIN_SECTORS_def SECTOR_def min.coboundedI2)
    from ceil_div_mono [OF GRAIN_pos this] show ?thesis by (simp only: ceil_div_exact [OF GRAIN_pos])
  qed
  show ?thesis
    using flush_blocks_inv [OF out smooth bound cov inv]
    by (simp only: vmdk_flush_def flushable_slices [OF FLUSH_BLOCK_grains(1)] flushable_of_def flushable.select_convs stop)
qed

lemma flush_first_inv:
  assumes out: "output_appends vo got" and smooth: "R \<Longrightarrow> vm_smooth vo deflate out"
    and z: "0 < z" "z mod GRAIN = 0" and h: "bh_flush h = vmdk_flush vo deflate"
    and inv: "vm_inv got deflate out R 0 s" and k: "k \<le> segment_count z (length out)"
  shows "attains (flush_first h z out k) s (\<lambda>_. \<not> R) (\<lambda>_. vm_inv got deflate out R (ceil_div (min (k * z) (length out)) GRAIN))"
  using k
proof (induction k)
  case 0
  then show ?case using inv ceil_div_exact [OF GRAIN_pos, of 0] by (simp add: flush_first_def)
next
  case (Suc k)
  have lt: "k * z < length out" using segment_count_covers [OF z(1), of k] Suc.prems by simp
  have "attains (flush_first h z out k) s (\<lambda>_. \<not> R) (\<lambda>_. vm_inv got deflate out R (ceil_div (k * z) GRAIN))"
    using Suc lt by simp
  then show ?case
    unfolding flush_first_Suc h by (rule attains_bind) (rule vmdk_flush_inv [OF out smooth z(2) lt])
qed

subsection \<open>The header\<close>

lemma vmdk_create_inv:
  assumes out: "output_appends vo got" and smooth: "R \<Longrightarrow> vm_smooth vo deflate out" and n: "n = length out"
    and fits: "R \<Longrightarrow> length (vmdk_descriptor (ceil_div n SECTOR) cid file_name) \<le> 127 * SECTOR"
    and empty: "vm_file got s = []" "vm_sector s = 0" "vm_tables s = []"
  shows "attains (vmdk_create vo cid file_name n sparse) s (\<lambda>_. \<not> R) (\<lambda>_. vm_inv got deflate out R 0)"
proof -
  define cap where "cap = ceil_div n SECTOR"
  define descr where "descr = vmdk_descriptor cap cid file_name"
  define ds where "ds = ceil_div (length descr) SECTOR"
  define s1 where "s1 = s\<lparr>vm_capacity := cap, vm_descriptor_sectors := ds\<rparr>"
  define data where "data = bind_res (vmdk_header cap ds GD_AT_END) (\<lambda>head. Inr (ljust (OVERHEAD_SECTORS * SECTOR) (head @ descr)))"
  have run: "vmdk_create vo cid file_name n sparse s = (if OVERHEAD_SECTORS < 1 + ds then (Inl PyValueError, s1) else vmdk_emit_res vo data s1)"
    by (simp add: vmdk_create_def Let_def cap_def descr_def ds_def s1_def data_def)
  have small: "ds \<le> 127" if R
    using ceil_div_mono [OF SECTOR_pos fits [OF that]] by (simp only: ceil_div_exact [OF SECTOR_pos] ds_def descr_def cap_def)
  show ?thesis
  proof (cases "OVERHEAD_SECTORS < 1 + ds")
    case True
    then have "\<not> R" using small by (auto simp: OVERHEAD_SECTORS_def GRAIN_SECTORS_def)
    then show ?thesis using True run by (simp add: attains_def)
  next
    case fit: False
    have descr_len: "length descr \<le> ds * SECTOR" unfolding ds_def by (rule ceil_div_upper) simp
    have data: "\<exists>head. vmdk_header cap ds GD_AT_END = Inr head \<and> bs = ljust (OVERHEAD_SECTORS * SECTOR) (head @ descr) \<and>
        length bs = OVERHEAD_SECTORS * SECTOR" if d: "data = Inr bs" for bs
    proof -
      obtain head where head: "vmdk_header cap ds GD_AT_END = Inr head" "bs = ljust (OVERHEAD_SECTORS * SECTOR) (head @ descr)"
        using d by (auto simp: data_def bind_res_def split: sum.splits)
      have "length (head @ descr) \<le> (1 + ds) * SECTOR" using vmdk_header_Inr(1) [OF head(1)] descr_len by simp
      also have "\<dots> \<le> OVERHEAD_SECTORS * SECTOR" using fit by (intro mult_le_mono1) simp
      finally show ?thesis using head by (simp add: ljust_def)
    qed
    have cap: "cap < 2 ^ 64" if R
    proof -
      have "n \<le> 2 ^ 31 * SECTOR" using smooth [OF that] n by (simp add: vm_smooth_def SECTOR_def)
      from ceil_div_mono [OF SECTOR_pos this] show ?thesis by (simp add: ceil_div_exact cap_def)
    qed
    have ok: "\<exists>bs. data = Inr bs" if R
      using vmdk_header_ok [of cap ds GD_AT_END] cap [OF that] small [OF that] by (auto simp: data_def GD_AT_END_def)
    have acc: "output_accepts vo" if R using smooth [OF that] by (simp add: vm_smooth_def)
    have s1: "sectors_ok got s1" "vm_file got s1 = []" "vm_sector s1 = 0" "vm_tables s1 = []" "vm_capacity s1 = cap" "vm_descriptor_sectors s1 = ds"
      using empty by (simp_all add: s1_def sectors_ok_def vm_file_def)
    have whole: "length bs mod SECTOR = 0" if "data = Inr bs" for bs using data [OF that] by auto
    have "attains (vmdk_emit_res vo data) s1 (\<lambda>_. \<not> R) (\<lambda>_. vm_inv got deflate out R 0)"
    proof (rule attains_weaken [OF emit_res_grows [OF out s1(1) whole acc ok]], assumption+, clarify)
      fix t bs
      assume t: "sectors_ok got t" "data = Inr bs" "grown got (length bs div SECTOR) s1 t" "lies (vm_file got t) (vm_sector s1 * SECTOR) bs"
      obtain head where head: "vmdk_header cap ds GD_AT_END = Inr head" "bs = ljust (OVERHEAD_SECTORS * SECTOR) (head @ descr)"
        "length bs = OVERHEAD_SECTORS * SECTOR"
        using data [OF t(2)] by blast
      have "lies bs 0 head" unfolding head(2) lies_def ljust_def by (metis append.assoc append_Nil list.size(3))
      from lies_within [OF t(4) this] have lh: "lies (vm_file got t) 0 head" using s1 by simp
      have same: "vm_sector t = OVERHEAD_SECTORS" "vm_tables t = []" "vm_capacity t = cap" "vm_descriptor_sectors t = ds"
        using t(3) s1 head(3) by (simp_all add: grown_def)
      show "vm_inv got deflate out R 0 t"
        using t(1) lh head(1) same small
        by (auto simp: vm_inv_def header_lies_def grain_tables_ok_def gte_def table_of_def cap_def n OVERHEAD_SECTORS_def GRAIN_SECTORS_def)
    qed
    then show ?thesis using run fit by (simp add: attains_def)
  qed
qed
subsection \<open>Tables and directory\<close>

definition grows :: "('o \<Rightarrow> bytes) \<Rightarrow> 'o vmdk_sink \<Rightarrow> 'o vmdk_sink \<Rightarrow> bool" where
  "grows got s t \<longleftrightarrow> (\<exists>k. grown got k s t)"

lemma grown_trans: "grown got a s t \<Longrightarrow> grown got b t u \<Longrightarrow> grown got (a + b) s u"
  unfolding grown_def by (metis append.assoc add.assoc)

lemma grows_trans: "grown got a s t \<Longrightarrow> grows got t u \<Longrightarrow> grows got s u"
  by (auto simp: grows_def dest: grown_trans)

definition directory_ok :: "bytes \<Rightarrow> (nat \<times> nat list) list \<Rightarrow> nat set \<Rightarrow> nat \<Rightarrow> nat list \<Rightarrow> bool" where
  "directory_ok F tables ready n d \<longleftrightarrow> length d = n \<and>
     (\<forall>i<n. if i \<in> ready then 0 < d ! i \<and> d ! i < 2 ^ 32 \<and> lies F (d ! i * SECTOR) (array_bytes True (table_of i tables)) else d ! i = 0)"

lemma directory_ok_grows: "grown got k s t \<Longrightarrow> directory_ok (vm_file got s) tables r n d \<Longrightarrow> directory_ok (vm_file got t) tables r n d"
  by (auto simp: directory_ok_def intro: grown_lies)

lemma directory_ok_insert:
  assumes "directory_ok F tables r n d" and "0 < v" and "v < 2 ^ 32" and "lies F (v * SECTOR) (array_bytes True (table_of i tables))"
  shows "directory_ok F tables (insert i r) n (d[i := v])"
proof -
  have "d[i := v] ! k = (if k = i then v else d ! k)" if "k < length d" for k
    using that by (cases "i < length d") (auto simp: list_update_beyond)
  then show ?thesis using assms by (auto simp: directory_ok_def)
qed

lemma marker_emits:
  assumes "output_appends vo got" and "sectors_ok got s" and "R \<Longrightarrow> output_accepts vo" and "R \<Longrightarrow> n < 2 ^ 64" and "kind < 2 ^ 32"
  shows "attains (vmdk_emit_res vo (metadata_marker n kind)) s (\<lambda>_. \<not> R) (\<lambda>_ t. sectors_ok got t \<and> grown got 1 s t)"
proof (rule attains_weaken [OF emit_res_grows [OF assms(1,2) _ assms(3)]])
  fix bs assume "metadata_marker n kind = Inr bs"
  then show "length bs mod SECTOR = 0" by (simp add: metadata_marker_Inr)
next
  assume R
  then show "\<exists>bs. metadata_marker n kind = Inr bs" using assms(4,5) by (intro metadata_marker_ok) simp_all
qed (use metadata_marker_Inr in fastforce)+

lemma emit_tables_inv:
  assumes out: "output_appends vo got" and acc: "R \<Longrightarrow> output_accepts vo"
    and "sectors_ok got s" and "0 < vm_sector s" and "R \<Longrightarrow> vm_sector s + 5 * length is < 2 ^ 32"
    and "\<forall>i \<in> set is. i < n \<and> length (table_of i (vm_tables s)) = GTES_PER_GT"
    and "directory_ok (vm_file got s) (vm_tables s) r n d"
  shows "attains (emit_tables vo True is d) s (\<lambda>_. \<not> R) (\<lambda>d' t. sectors_ok got t \<and> grows got s t \<and>
    directory_ok (vm_file got t) (vm_tables s) (r \<union> set is) n d' \<and> (R \<longrightarrow> vm_sector t \<le> vm_sector s + 5 * length is))"
  using assms(3-)
proof (induction "is" arbitrary: s d r)
  case Nil
  have "grown got 0 s s" by (simp add: grown_def)
  then show ?case using Nil by (auto simp: grows_def)
next
  case (Cons i rest)
  have i: "i < n" "length (table_of i (vm_tables s)) = GTES_PER_GT" using Cons.prems(4) by simp_all
  have mark: "attains (vmdk_emit_res vo (metadata_marker GT_SECTORS MARKER_GT)) s (\<lambda>_. \<not> R) (\<lambda>_ t. sectors_ok got t \<and> grown got 1 s t)"
    by (rule marker_emits [OF out Cons.prems(1) acc]) (simp_all add: GT_SECTORS_def GTES_PER_GT_def SECTOR_def MARKER_GT_def)
  have rest: "attains (op_bind (op_lift (array_set i (vm_sector t) d)) (\<lambda>directory.
      op_bind (vmdk_emit vo (array_bytes True (table_of i (vm_tables t)))) (\<lambda>_. emit_tables vo True rest directory))) t (\<lambda>_. \<not> R)
    (\<lambda>d' u. sectors_ok got u \<and> grows got s u \<and> directory_ok (vm_file got u) (vm_tables s) (r \<union> set (i # rest)) n d' \<and>
      (R \<longrightarrow> vm_sector u \<le> vm_sector s + 5 * length (i # rest)))"
    if t: "sectors_ok got t" "grown got 1 s t" for t
  proof -
    have same: "vm_tables t = vm_tables s" "vm_sector t = vm_sector s + 1" using t(2) by (simp_all add: grown_def)
    have dt: "directory_ok (vm_file got t) (vm_tables s) r n d" using t(2) Cons.prems(5) by (rule directory_ok_grows)
    then have len: "length d = n" by (simp add: directory_ok_def)
    show ?thesis
    proof (cases "vm_sector t < 2 ^ 32")
      case False
      then have "\<not> R" using Cons.prems(3) same by auto
      then show ?thesis using False len i by (simp add: attains_def array_set_def op_bind_def)
    next
      case True
      let ?ab = "array_bytes True (table_of i (vm_tables s))" and ?d = "d[i := vm_sector t]"
      have ab: "length ?ab = 4 * SECTOR" using i by (simp add: GTES_PER_GT_def SECTOR_def)
      then have "length ?ab mod SECTOR = 0" by simp
      from emit_grows [OF out t(1) this acc]
      have em: "attains (vmdk_emit vo ?ab) t (\<lambda>_. \<not> R) (\<lambda>_ u. sectors_ok got u \<and> grown got 4 t u \<and>
          lies (vm_file got u) (vm_sector t * SECTOR) ?ab)"
        using ab by simp
      have "attains (op_bind (vmdk_emit vo ?ab) (\<lambda>_. emit_tables vo True rest ?d)) t (\<lambda>_. \<not> R)
        (\<lambda>d' u. sectors_ok got u \<and> grows got s u \<and> directory_ok (vm_file got u) (vm_tables s) (r \<union> set (i # rest)) n d' \<and>
          (R \<longrightarrow> vm_sector u \<le> vm_sector s + 5 * length (i # rest)))"
      proof (rule attains_bind [OF em], elim conjE)
        fix u assume u: "sectors_ok got u" "grown got 4 t u" "lies (vm_file got u) (vm_sector t * SECTOR) ?ab"
        have g5: "grown got 5 s u" using grown_trans [OF t(2) u(2)] by simp
        then have us: "vm_tables u = vm_tables s" "vm_sector u = vm_sector s + 5" by (simp_all add: grown_def)
        have du: "directory_ok (vm_file got u) (vm_tables u) (insert i r) n ?d"
          unfolding us using directory_ok_grows [OF u(2) dt] u(3) True same(2) by (intro directory_ok_insert) simp_all
        have "attains (emit_tables vo True rest ?d) u (\<lambda>_. \<not> R) (\<lambda>d' v. sectors_ok got v \<and> grows got u v \<and>
            directory_ok (vm_file got v) (vm_tables u) (insert i r \<union> set rest) n d' \<and> (R \<longrightarrow> vm_sector v \<le> vm_sector u + 5 * length rest))"
          using Cons.prems us by (intro Cons.IH [OF u(1) _ _ _ du]) auto
        then show "attains (emit_tables vo True rest ?d) u (\<lambda>_. \<not> R)
          (\<lambda>d' u. sectors_ok got u \<and> grows got s u \<and> directory_ok (vm_file got u) (vm_tables s) (r \<union> set (i # rest)) n d' \<and>
            (R \<longrightarrow> vm_sector u \<le> vm_sector s + 5 * length (i # rest)))"
          by (rule attains_weaken) (use us grows_trans [OF g5] in auto)
      qed
      moreover have "array_set i (vm_sector t) d = Inr ?d" using True len i by (simp add: array_set_def)
      ultimately show ?thesis by (simp add: op_bind_def attains_def same)
    qed
  qed
  show ?case unfolding emit_tables.simps by (rule attains_bind [OF mark]) (use rest in \<open>simp add: attains_def\<close>)
qed
lemma ceil_div_ceil_div:
  assumes "0 < a" and "0 < b"
  shows "ceil_div (ceil_div n a) b = ceil_div n (a * b)"
proof -
  have "i < ceil_div (ceil_div n a) b \<longleftrightarrow> i < ceil_div n (a * b)" for i
    using assms by (simp add: less_ceil_div mult.assoc mult.commute [of b a])
  then show ?thesis by (metis nat_neq_iff less_irrefl)
qed

definition grain_count :: "bytes \<Rightarrow> nat" where
  "grain_count out = ceil_div (length out) GRAIN"

text \<open>What a finished file holds.\<close>

definition vmdk_image :: "(bytes \<Rightarrow> bytes) \<Rightarrow> bytes \<Rightarrow> bytes \<Rightarrow> bool" where
  "vmdk_image deflate out F \<longleftrightarrow> (\<exists>ds gd head foot tables d rest.
     vmdk_header (ceil_div (length out) SECTOR) ds GD_AT_END = Inr head \<and> lies F 0 head \<and>
     vmdk_header (ceil_div (length out) SECTOR) ds gd = Inr foot \<and> 2 * SECTOR \<le> length F \<and> lies F (length F - 2 * SECTOR) foot \<and>
     lies F (gd * SECTOR) (array_bytes True d @ rest) \<and>
     directory_ok F tables (fst ` set tables) (ceil_div (grain_count out) GTES_PER_GT) d \<and> grain_tables_ok tables (grain_count out) \<and>
     (\<forall>k < grain_count out. grain_stored deflate F (gte tables k) k (grain_of out k)))"

lemma vmdk_imageI:
  assumes "vmdk_header (ceil_div (length out) SECTOR) ds GD_AT_END = Inr head" and "lies F 0 head"
    and "vmdk_header (ceil_div (length out) SECTOR) ds gd = Inr foot" and "length F = p * SECTOR + 2 * SECTOR" and "lies F (p * SECTOR) foot"
    and "lies F (gd * SECTOR) (array_bytes True d @ rest)"
    and "directory_ok F tables (fst ` set tables) (ceil_div (grain_count out) GTES_PER_GT) d" and "grain_tables_ok tables (grain_count out)"
    and "\<forall>k < grain_count out. grain_stored deflate F (gte tables k) k (grain_of out k)"
  shows "vmdk_image deflate out F"
proof -
  have "2 * SECTOR \<le> length F" "length F - 2 * SECTOR = p * SECTOR" using assms(4) by simp_all
  then show ?thesis unfolding vmdk_image_def using assms by metis
qed

lemma small_disk:
  assumes "vm_smooth vo deflate out"
  shows "grain_count out \<le> 2 ^ 24" and "ceil_div (grain_count out) GTES_PER_GT \<le> 2 ^ 15" and "ceil_div (length out) SECTOR \<le> 2 ^ 31"
proof -
  have n: "length out \<le> 2 ^ 24 * GRAIN" "length out \<le> 2 ^ 31 * SECTOR"
    using assms by (simp_all add: vm_smooth_def GRAIN_def GRAIN_SECTORS_def SECTOR_def)
  show g: "grain_count out \<le> 2 ^ 24"
    using ceil_div_mono [OF GRAIN_pos n(1)] by (simp only: grain_count_def ceil_div_exact [OF GRAIN_pos])
  then have "grain_count out \<le> 2 ^ 15 * GTES_PER_GT" by (simp add: GTES_PER_GT_def)
  from ceil_div_mono [OF GTES_PER_GT_pos this] show "ceil_div (grain_count out) GTES_PER_GT \<le> 2 ^ 15"
    by (simp only: ceil_div_exact [OF GTES_PER_GT_pos])
  show "ceil_div (length out) SECTOR \<le> 2 ^ 31" using ceil_div_mono [OF SECTOR_pos n(2)] by (simp only: ceil_div_exact [OF SECTOR_pos])
qed

lemma vmdk_directory:
  assumes "grain_tables_ok tables g"
  shows "\<forall>i \<in> set (sorted_list_of_set (set (map fst tables))). i < ceil_div g GTES_PER_GT \<and> length (table_of i tables) = GTES_PER_GT"
    and "length (sorted_list_of_set (set (map fst tables))) \<le> ceil_div g GTES_PER_GT"
    and "set (sorted_list_of_set (set (map fst tables))) = fst ` set tables"
proof -
  show eq: "set (sorted_list_of_set (set (map fst tables))) = fst ` set tables" by simp
  have lt: "i < ceil_div g GTES_PER_GT" if i: "i \<in> fst ` set tables" for i
  proof -
    obtain t where "map_of tables i = Some t" using i map_of_eq_None_iff [of tables i] by auto
    then show ?thesis using assms by (simp add: grain_tables_ok_def less_ceil_div)
  qed
  show "\<forall>i \<in> set (sorted_list_of_set (set (map fst tables))). i < ceil_div g GTES_PER_GT \<and> length (table_of i tables) = GTES_PER_GT"
    unfolding eq using lt length_table_of [OF assms] by blast
  have "fst ` set tables \<subseteq> {..<ceil_div g GTES_PER_GT}" using lt by auto
  then have "card (fst ` set tables) \<le> ceil_div g GTES_PER_GT" by (metis card_lessThan card_mono finite_lessThan)
  then show "length (sorted_list_of_set (set (map fst tables))) \<le> ceil_div g GTES_PER_GT" by simp
qed

text \<open>The end of \<open>finalize_destination\<close>: directory, footer, end of stream.\<close>

definition vmdk_close :: "'o vmdk_ops \<Rightarrow> bool \<Rightarrow> nat \<Rightarrow> nat list \<Rightarrow> nat \<Rightarrow> nat \<Rightarrow> nat \<Rightarrow> ('o vmdk_sink, unit) op" where
  "vmdk_close vo little gds d cap ds gd_offset =
     op_bind (vmdk_emit vo (ljust (gds * SECTOR) (array_bytes little d))) (\<lambda>_.
     op_bind (vmdk_emit_res vo (metadata_marker 1 MARKER_FOOTER)) (\<lambda>_.
     op_bind (vmdk_emit_res vo (vmdk_header cap ds gd_offset)) (\<lambda>_.
     op_bind (vmdk_emit_res vo (metadata_marker 0 MARKER_EOS)) (\<lambda>_ s.
       (case vo_finish vo (vm_output s) of (r, z) \<Rightarrow> (r, s\<lparr>vm_output := z\<rparr>))))))"

lemma vmdk_finalize_close:
  "vmdk_finalize vo little s =
     (let n = ceil_div (vm_capacity s) (GRAIN_SECTORS * GTES_PER_GT); gds = ceil_div (n * 4) SECTOR
      in op_bind (emit_tables vo little (sorted_list_of_set (set (map fst (vm_tables s)))) (replicate n 0)) (\<lambda>d.
         op_bind (vmdk_emit_res vo (metadata_marker gds MARKER_GD)) (\<lambda>_ u.
           vmdk_close vo little gds d (vm_capacity u) (vm_descriptor_sectors u) (vm_sector u) u)) s)"
  by (simp add: vmdk_finalize_def vmdk_close_def Let_def)

lemma vmdk_close_image:
  assumes out: "output_appends vo got" and acc: "R \<Longrightarrow> output_accepts vo"
    and t: "sectors_ok got t" and dir: "directory_ok (vm_file got t) tables (fst ` set tables) (ceil_div (grain_count out) GTES_PER_GT) d"
    and tok: "grain_tables_ok tables (grain_count out)" and hl: "header_lies got t"
    and cap: "vm_capacity t = ceil_div (length out) SECTOR"
    and grains: "\<forall>k < grain_count out. grain_stored deflate (vm_file got t) (gte tables k) k (grain_of out k)"
    and gds: "length d * 4 \<le> gds * SECTOR" and small: "R \<Longrightarrow> vm_capacity t < 2 ^ 64 \<and> vm_descriptor_sectors t < 2 ^ 64 \<and> vm_sector t < 2 ^ 64"
  shows "attains (vmdk_close vo True gds d (vm_capacity t) (vm_descriptor_sectors t) (vm_sector t)) t (\<lambda>_. \<not> R)
    (\<lambda>_ u. vmdk_image deflate out (vm_file got u))"
proof -
  let ?dir = "ljust (gds * SECTOR) (array_bytes True d)" and ?foot = "vmdk_header (vm_capacity t) (vm_descriptor_sectors t) (vm_sector t)"
  have "length ?dir = gds * SECTOR" using gds by (simp add: ljust_def)
  then have "length ?dir mod SECTOR = 0" "length ?dir div SECTOR = gds" by simp_all
  with emit_grows [OF out t _ acc, of ?dir]
  have e1: "attains (vmdk_emit vo ?dir) t (\<lambda>_. \<not> R) (\<lambda>_ u. sectors_ok got u \<and> grown got gds t u \<and> lies (vm_file got u) (vm_sector t * SECTOR) ?dir)"
    by simp
  let ?last = "op_bind (vmdk_emit_res vo (metadata_marker 0 MARKER_EOS)) (\<lambda>_ s.
    (case vo_finish vo (vm_output s) of (r, z) \<Rightarrow> (r, s\<lparr>vm_output := z\<rparr>)))"
  let ?image = "\<lambda>_ u. vmdk_image deflate out (vm_file got u)"
  show ?thesis
    unfolding vmdk_close_def
  proof (rule attains_bind [OF e1], elim conjE)
    fix u1 assume u1: "sectors_ok got u1" "grown got gds t u1" "lies (vm_file got u1) (vm_sector t * SECTOR) ?dir"
    have e2: "attains (vmdk_emit_res vo (metadata_marker 1 MARKER_FOOTER)) u1 (\<lambda>_. \<not> R) (\<lambda>_ u. sectors_ok got u \<and> grown got 1 u1 u)"
      by (rule marker_emits [OF out u1(1) acc]) (simp_all add: MARKER_FOOTER_def)
    show "attains (op_bind (vmdk_emit_res vo (metadata_marker 1 MARKER_FOOTER)) (\<lambda>_. op_bind (vmdk_emit_res vo ?foot) (\<lambda>_. ?last))) u1
      (\<lambda>_. \<not> R) ?image"
    proof (rule attains_bind [OF e2], elim conjE)
      fix u2 assume u2: "sectors_ok got u2" "grown got 1 u1 u2"
      have whole: "length bs mod SECTOR = 0" if "?foot = Inr bs" for bs using vmdk_header_Inr(1) [OF that] by simp
      have ok: "\<exists>bs. ?foot = Inr bs" if R using vmdk_header_ok small [OF that] by blast
      note e3 = emit_res_grows [where R = R, OF out u2(1) whole acc ok]
      show "attains (op_bind (vmdk_emit_res vo ?foot) (\<lambda>_. ?last)) u2 (\<lambda>_. \<not> R) ?image"
      proof (rule attains_bind [OF e3], assumption, assumption, assumption, elim conjE exE)
        fix u3 foot
        assume u3: "sectors_ok got u3" "?foot = Inr foot" "grown got (length foot div SECTOR) u2 u3"
          "lies (vm_file got u3) (vm_sector u2 * SECTOR) foot"
        have e4: "attains (vmdk_emit_res vo (metadata_marker 0 MARKER_EOS)) u3 (\<lambda>_. \<not> R) (\<lambda>_ u. sectors_ok got u \<and> grown got 1 u3 u)"
          by (rule marker_emits [OF out u3(1) acc]) (simp_all add: MARKER_EOS_def)
        show "attains ?last u3 (\<lambda>_. \<not> R) ?image"
        proof (rule attains_bind [OF e4], elim conjE)
          fix u4 assume u4: "sectors_ok got u4" "grown got 1 u3 u4"
          have foot1: "length foot div SECTOR = 1" using vmdk_header_Inr(1) [OF u3(2)] by simp
          have g24: "grown got 2 u2 u4" using grown_trans [OF u3(3) u4(2)] foot1 by (simp add: numeral_2_eq_2)
          obtain k where g14: "grown got k u1 u4" using grown_trans [OF u2(2) g24] by blast
          obtain k' where gt4: "grown got k' t u4" using grown_trans [OF u1(2) g14] by blast
          have len: "length (vm_file got u4) = vm_sector u2 * SECTOR + 2 * SECTOR" using u4(1) g24 by (simp add: sectors_ok_def grown_def algebra_simps)
          obtain head where head: "vmdk_header (vm_capacity t) (vm_descriptor_sectors t) GD_AT_END = Inr head" "lies (vm_file got t) 0 head"
            using hl by (auto simp: header_lies_def)
          have stored: "\<forall>k < grain_count out. grain_stored deflate (vm_file got u4) (gte tables k) k (grain_of out k)"
            using grains grain_stored_grows [OF gt4] by blast
          have dirl: "lies (vm_file got u4) (vm_sector t * SECTOR) (array_bytes True d @ replicate (gds * SECTOR - length (array_bytes True d)) 0)"
            using grown_lies [OF g14 u1(3)] by (simp only: ljust_def)
          have "lies (vm_file got u4) (vm_sector u2 * SECTOR) foot" using u4(2) u3(4) by (rule grown_lies)
          then have img: "vmdk_image deflate out (vm_file got u4)"
            by (rule vmdk_imageI [OF head(1) [unfolded cap] grown_lies [OF gt4 head(2)] u3(2) [unfolded cap] len _ dirl
                directory_ok_grows [OF gt4 dir] tok stored])
          obtain r z where fin: "vo_finish vo (vm_output u4) = (r, z)" by fastforce
          have "\<not> R" if e: "r = Inl e" for e
          proof
            assume R
            then obtain z' where "vo_finish vo (vm_output u4) = (Inr (), z')" using acc unfolding output_accepts_def by blast
            then show False using fin e by simp
          qed
          moreover have "got z = vm_file got u4" if "r = Inr ()" using out fin that by (simp add: output_appends_def vm_file_def)
          ultimately show "attains (\<lambda>s. case vo_finish vo (vm_output s) of (r, z) \<Rightarrow> (r, s\<lparr>vm_output := z\<rparr>)) u4 (\<lambda>_. \<not> R)
            (\<lambda>_ u. vmdk_image deflate out (vm_file got u))"
            using fin img by (auto simp: attains_def vm_file_def split: sum.split)
        qed
      qed
    qed
  qed
qed

lemma vmdk_finalize_image:
  assumes out: "output_appends vo got" and smooth: "R \<Longrightarrow> vm_smooth vo deflate out"
    and inv: "vm_inv got deflate out R (grain_count out) s"
  shows "attains (vmdk_finalize vo True) s (\<lambda>_. \<not> R) (\<lambda>_ t. vmdk_image deflate out (vm_file got t))"
proof -
  define n where "n = ceil_div (grain_count out) GTES_PER_GT"
  define gds where "gds = ceil_div (n * 4) SECTOR"
  let ?is = "sorted_list_of_set (set (map fst (vm_tables s)))"
  let ?cap = "ceil_div (length out) SECTOR" and ?ds = "vm_descriptor_sectors s"
  have cap: "vm_capacity s = ?cap" and tok: "grain_tables_ok (vm_tables s) (grain_count out)" and sok: "sectors_ok got s"
    and hl: "header_lies got s" and pos: "0 < vm_sector s"
    using inv by (simp_all add: vm_inv_def OVERHEAD_SECTORS_def GRAIN_SECTORS_def)
  have tables: "ceil_div (vm_capacity s) (GRAIN_SECTORS * GTES_PER_GT) = n"
    unfolding cap n_def grain_count_def by (simp add: ceil_div_ceil_div GRAIN_def GRAIN_SECTORS_def SECTOR_def GTES_PER_GT_def)
  have acc: "output_accepts vo" if R using smooth [OF that] by (simp add: vm_smooth_def)
  have n_small: "n \<le> 2 ^ 15" if R using small_disk(2) [OF smooth [OF that]] by (simp add: n_def)
  have gds_small: "gds \<le> 2 ^ 8" if R
  proof -
    have "n * 4 \<le> 2 ^ 8 * SECTOR" using n_small [OF that] by (simp add: SECTOR_def)
    from ceil_div_mono [OF SECTOR_pos this] show ?thesis by (simp only: gds_def ceil_div_exact [OF SECTOR_pos])
  qed
  have sec0: "vm_sector s < 2 ^ 32 - 2 ^ 22" if R using vm_inv_sector [OF inv that] small_disk(1) [OF smooth [OF that]] by blast
  have n_is: "length ?is \<le> n" unfolding n_def by (rule vmdk_directory(2) [OF tok])
  have sec: "vm_sector s + 5 * length ?is < 2 ^ 32 - 2 ^ 20" if R
    using sec0 [OF that] n_small [OF that] n_is by simp
  have d0: "directory_ok (vm_file got s) (vm_tables s) {} n (replicate n 0)" by (simp add: directory_ok_def)
  have "attains (emit_tables vo True ?is (replicate n 0)) s (\<lambda>_. \<not> R) (\<lambda>d t. sectors_ok got t \<and> grows got s t \<and>
      directory_ok (vm_file got t) (vm_tables s) ({} \<union> set ?is) n d \<and> (R \<longrightarrow> vm_sector t \<le> vm_sector s + 5 * length ?is))"
    using sec vmdk_directory(1) [OF tok] by (intro emit_tables_inv [OF out acc sok pos _ _ d0]) (auto simp: n_def)
  then have emitted: "attains (emit_tables vo True ?is (replicate n 0)) s (\<lambda>_. \<not> R) (\<lambda>d t. sectors_ok got t \<and> grows got s t \<and>
      directory_ok (vm_file got t) (vm_tables s) (fst ` set (vm_tables s)) n d \<and> (R \<longrightarrow> vm_sector t < 2 ^ 32 - 2 ^ 20))"
    by (rule attains_weaken) (use sec vmdk_directory(3) [OF tok] in \<open>auto\<close>)
  have gds_ok: "length d * 4 \<le> gds * SECTOR" if "directory_ok F tb r n d" for F tb r d
    using that ceil_div_upper [OF SECTOR_pos, of "n * 4"] by (simp add: directory_ok_def gds_def)
  let ?image = "\<lambda>_ u. vmdk_image deflate out (vm_file got u)"
  have "attains (op_bind (emit_tables vo True ?is (replicate n 0)) (\<lambda>d. op_bind (vmdk_emit_res vo (metadata_marker gds MARKER_GD)) (\<lambda>_ u.
      vmdk_close vo True gds d (vm_capacity u) (vm_descriptor_sectors u) (vm_sector u) u))) s (\<lambda>_. \<not> R) ?image"
  proof (rule attains_bind [OF emitted], elim conjE)
    fix d t
    assume t: "sectors_ok got t" "grows got s t" "directory_ok (vm_file got t) (vm_tables s) (fst ` set (vm_tables s)) n d"
      "R \<longrightarrow> vm_sector t < 2 ^ 32 - 2 ^ 20"
    have mark: "attains (vmdk_emit_res vo (metadata_marker gds MARKER_GD)) t (\<lambda>_. \<not> R) (\<lambda>_ u. sectors_ok got u \<and> grown got 1 t u)"
      using gds_small by (intro marker_emits [OF out t(1) acc]) (auto simp: MARKER_GD_def intro: le_less_trans)
    show "attains (op_bind (vmdk_emit_res vo (metadata_marker gds MARKER_GD)) (\<lambda>_ u.
        vmdk_close vo True gds d (vm_capacity u) (vm_descriptor_sectors u) (vm_sector u) u)) t (\<lambda>_. \<not> R) ?image"
    proof (rule attains_bind [OF mark], elim conjE)
      fix u assume u: "sectors_ok got u" "grown got 1 t u"
      obtain k where g: "grown got k s u" using t(2) grown_trans [OF _ u(2)] by (auto simp: grows_def)
      have same: "vm_capacity u = ?cap" "vm_descriptor_sectors u = ?ds" using g cap by (simp_all add: grown_def)
      have small: "vm_capacity u < 2 ^ 64 \<and> vm_descriptor_sectors u < 2 ^ 64 \<and> vm_sector u < 2 ^ 64" if R
        using small_disk(3) [OF smooth [OF that]] t(4) u(2) inv that
        unfolding same by (auto simp: grown_def vm_inv_def OVERHEAD_SECTORS_def GRAIN_SECTORS_def)
      have stored: "\<forall>k < grain_count out. grain_stored deflate (vm_file got u) (gte (vm_tables s) k) k (grain_of out k)"
        using inv grain_stored_grows [OF g] by (auto simp: vm_inv_def)
      have dir: "directory_ok (vm_file got u) (vm_tables s) (fst ` set (vm_tables s)) (ceil_div (grain_count out) GTES_PER_GT) d"
        using directory_ok_grows [OF u(2) t(3)] by (simp only: n_def)
      have "attains (vmdk_close vo True gds d (vm_capacity u) (vm_descriptor_sectors u) (vm_sector u)) u (\<lambda>_. \<not> R) ?image"
        by (rule vmdk_close_image [OF out acc u(1) dir tok header_lies_grows [OF g hl] same(1) stored gds_ok [OF t(3)] small])
      then show "attains (\<lambda>u. vmdk_close vo True gds d (vm_capacity u) (vm_descriptor_sectors u) (vm_sector u) u) u (\<lambda>_. \<not> R) ?image"
        by (simp add: attains_def)
    qed
  qed
  then show ?thesis unfolding attains_def vmdk_finalize_close tables gds_def [symmetric] Let_def .
qed
subsection \<open>Reading the file back\<close>

lemma lies_header:
  assumes "vmdk_header cap ds gd = Inr h" and "lies F p h"
  shows "le_field p 4 F = VMDK_MAGIC" and "le_field (p + 12) 8 F = cap" and "le_field (p + 56) 8 F = gd"
  using lies_field [OF lies_within [OF assms(2) vmdk_header_Inr(2) [OF assms(1)]]]
    lies_field [OF lies_within [OF assms(2) vmdk_header_Inr(3) [OF assms(1)]] vmdk_header_Inr(5) [OF assms(1)]]
    lies_field [OF lies_within [OF assms(2) vmdk_header_Inr(4) [OF assms(1)]] vmdk_header_Inr(6) [OF assms(1)]]
  by (simp_all add: VMDK_MAGIC_def)

lemma vmdk_gte_reads:
  assumes dir: "lies F (gd * SECTOR) (array_bytes True d @ rest)"
    and ok: "directory_ok F tables (fst ` set tables) n d" and tok: "grain_tables_ok tables g"
    and k: "k div GTES_PER_GT < n" and small: "gte tables k < 2 ^ 32"
  shows "vmdk_gte F gd k = gte tables k"
proof -
  let ?i = "k div GTES_PER_GT"
  have len: "length d = n" using ok by (simp add: directory_ok_def)
  have di: "if ?i \<in> fst ` set tables then 0 < d ! ?i \<and> d ! ?i < 2 ^ 32 \<and> lies F (d ! ?i * SECTOR) (array_bytes True (table_of ?i tables)) else d ! ?i = 0"
    using ok k unfolding directory_ok_def by blast
  then have "d ! ?i < 2 ^ 32" by (auto split: if_splits)
  then have gt: "le_field (gd * SECTOR + 4 * ?i) 4 F = d ! ?i" using lies_entry [OF dir] k len by simp
  show ?thesis
  proof (cases "?i \<in> fst ` set tables")
    case True
    then have d: "0 < d ! ?i" "lies F (d ! ?i * SECTOR) (array_bytes True (table_of ?i tables) @ [])" using di by simp_all
    have "k mod GTES_PER_GT < length (table_of ?i tables)" by (simp add: length_table_of [OF tok])
    from lies_entry [OF d(2) this] small have "le_field (d ! ?i * SECTOR + 4 * (k mod GTES_PER_GT)) 4 F = gte tables k" by (simp add: gte_def)
    then show ?thesis using d(1) gt by (simp add: vmdk_gte_def)
  next
    case False
    then have "map_of tables ?i = None" by (simp add: map_of_eq_None_iff)
    then have "gte tables k = 0" by (simp add: gte_def table_of_def)
    moreover have "d ! ?i = 0" using di False by simp
    ultimately show ?thesis using gt by (simp add: vmdk_gte_def)
  qed
qed

lemma vmdk_grain_reads:
  assumes "grain_stored deflate F e k b" and "vmdk_gte F gd k = e" and "length b = GRAIN" and "\<And>b. inflate (deflate b) = b"
  shows "vmdk_grain inflate F gd k = Some b"
proof (cases "b = replicate GRAIN 0")
  case True
  then show ?thesis using assms by (simp add: vmdk_grain_def grain_stored_def)
next
  case False
  then obtain r where e: "0 < e" and r: "grain_record (k * GRAIN_SECTORS) (deflate b) = Inr r" "lies F (e * SECTOR) r"
    using assms(1) by (auto simp: grain_stored_def)
  note rec = grain_record_Inr [OF r(1)]
  have "le_field (e * SECTOR) 8 F = k * GRAIN_SECTORS" using lies_field [OF lies_within [OF r(2) rec(4)] rec(7)] by simp
  moreover have "le_field (e * SECTOR + 8) 4 F = length (deflate b)" using lies_field [OF lies_within [OF r(2) rec(5)] rec(8)] by simp
  moreover have "pslice (e * SECTOR + 12) (e * SECTOR + 12 + length (deflate b)) F = deflate b"
    using lies_slice [OF lies_within [OF r(2) rec(6)]] by simp
  ultimately show ?thesis using e assms(2,4) by (simp add: vmdk_grain_def Let_def)
qed

lemma concat_grains: "concat (map (grain_of out) [0..<k]) = ljust (k * GRAIN) (take (k * GRAIN) out)"
proof (induction k)
  case (Suc k)
  show ?case
  proof (cases "k * GRAIN \<le> length out")
    case True
    have "take (Suc k * GRAIN) out = take (k * GRAIN) out @ pslice (k * GRAIN) (k * GRAIN + GRAIN) out"
      using take_add [of "k * GRAIN" GRAIN out] by (simp add: pslice_def add.commute)
    moreover have "length (take (k * GRAIN) out) = k * GRAIN" using True by simp
    ultimately show ?thesis using Suc by (simp add: grain_of_def ljust_def)
  next
    case False
    then have "grain_of out k = replicate GRAIN 0" by (simp add: grain_of_def ljust_def pslice_def)
    then show ?thesis using Suc False by (simp add: ljust_def replicate_add [symmetric])
  qed
qed (simp add: ljust_def)

theorem vmdk_image_reads:
  assumes "vmdk_image deflate out F" and "\<And>b. inflate (deflate b) = b"
  shows "vmdk_read inflate F = Some (ljust (ceil_div (length out) SECTOR * SECTOR) out)"
proof -
  let ?cap = "ceil_div (length out) SECTOR" and ?N = "grain_count out"
  obtain ds gd head foot tables d rest where i: "vmdk_header ?cap ds GD_AT_END = Inr head" "lies F 0 head"
    "vmdk_header ?cap ds gd = Inr foot" "lies F (length F - 2 * SECTOR) foot" "lies F (gd * SECTOR) (array_bytes True d @ rest)"
    "directory_ok F tables (fst ` set tables) (ceil_div ?N GTES_PER_GT) d" "grain_tables_ok tables ?N"
    "\<forall>k < ?N. grain_stored deflate F (gte tables k) k (grain_of out k)"
    using assms(1) unfolding vmdk_image_def by blast
  have N: "ceil_div ?cap GRAIN_SECTORS = ?N"
    by (simp add: ceil_div_ceil_div grain_count_def GRAIN_def GRAIN_SECTORS_def SECTOR_def)
  have grain: "vmdk_grain inflate F gd k = Some (grain_of out k)" if k: "k < ?N" for k
  proof -
    have st: "grain_stored deflate F (gte tables k) k (grain_of out k)" using i(8) k by blast
    then have small: "gte tables k < 2 ^ 32" by (auto simp: grain_stored_def split: if_splits)
    have "k div GTES_PER_GT * GTES_PER_GT < ?N" using k by (rule le_less_trans [rotated]) simp
    then have "k div GTES_PER_GT < ceil_div ?N GTES_PER_GT" by (simp add: less_ceil_div)
    from vmdk_grain_reads [OF st vmdk_gte_reads [OF i(5-7) this small] length_grain_of assms(2)] show ?thesis .
  qed
  have "?cap * SECTOR \<le> ?N * GRAIN"
  proof -
    have "?cap \<le> ?N * GRAIN_SECTORS" unfolding N [symmetric] by (rule ceil_div_upper) (simp add: GRAIN_SECTORS_def)
    then show ?thesis by (simp add: GRAIN_def mult.assoc [symmetric])
  qed
  moreover have "length out \<le> ?cap * SECTOR" by (rule ceil_div_upper) simp
  ultimately have whole: "take (?cap * SECTOR) (concat (map (grain_of out) [0..<?N])) = ljust (?cap * SECTOR) out"
    by (simp add: concat_grains ljust_def min_def)
  have all: "all_some (map (vmdk_grain inflate F gd) [0..<?N]) = Some (map (grain_of out) [0..<?N])"
    by (rule all_some_map) (simp add: grain)
  show ?thesis
    using lies_header [OF i(1,2)] lies_header [OF i(3,4)] whole grain
    by (simp add: vmdk_read_def Let_def N all)
qed

subsection \<open>The whole delivery\<close>

lemma vmdk_delivers:
  assumes out: "output_appends vo got" and z: "0 < z" "z mod GRAIN = 0"
    and inflates: "\<And>b. inflate (deflate b) = b" and empty: "got o0 = []"
    and h: "h = vmdk_hooks vo deflate True cid file_name alloc sched"
  shows "attains (deliver h z sparse out) (vmdk_sink_init o0)
    (\<lambda>_. \<not> (vm_smooth vo deflate out \<and> length (vmdk_descriptor (ceil_div (length out) SECTOR) cid file_name) \<le> 127 * SECTOR))
    (\<lambda>_ t. vmdk_read inflate (vm_file got t) = Some (ljust (ceil_div (length out) SECTOR * SECTOR) out))"
proof -
  define R where "R \<longleftrightarrow> vm_smooth vo deflate out \<and> length (vmdk_descriptor (ceil_div (length out) SECTOR) cid file_name) \<le> 127 * SECTOR"
  have R: "vm_smooth vo deflate out" "length (vmdk_descriptor (ceil_div (length out) SECTOR) cid file_name) \<le> 127 * SECTOR" if R
    using that by (simp_all add: R_def)
  have s0: "vm_file got (vmdk_sink_init o0) = []" "vm_sector (vmdk_sink_init o0) = 0" "vm_tables (vmdk_sink_init o0) = []"
    using empty by (simp_all add: vmdk_sink_init_def vm_file_def)
  have hooks: "bh_create h = vmdk_create vo cid file_name" "bh_flush h = vmdk_flush vo deflate" "bh_finalize h = vmdk_finalize vo True"
    by (simp_all add: h vmdk_hooks_def)
  have stop: "min (segment_count z (length out) * z) (length out) = length out"
    using segment_count_covers [OF z(1), of "segment_count z (length out)" "length out"] by (simp add: min_def)
  have "attains (deliver h z sparse out) (vmdk_sink_init o0) (\<lambda>_. \<not> R)
      (\<lambda>_ t. vmdk_read inflate (vm_file got t) = Some (ljust (ceil_div (length out) SECTOR * SECTOR) out))"
    unfolding deliver_def hooks
  proof (rule attains_bind [OF vmdk_create_inv [OF out R(1) refl R(2) s0]], assumption, assumption)
    fix t assume t: "vm_inv got deflate out R 0 t"
    have "attains (flush_first h z out (segment_count z (length out))) t (\<lambda>_. \<not> R) (\<lambda>_. vm_inv got deflate out R (grain_count out))"
      using flush_first_inv [where R = R, OF out R(1) z hooks(2) t order.refl] unfolding stop grain_count_def by simp
    then show "attains (op_bind (flush_first h z out (segment_count z (length out))) (\<lambda>_. vmdk_finalize vo True)) t (\<lambda>_. \<not> R)
      (\<lambda>_ t. vmdk_read inflate (vm_file got t) = Some (ljust (ceil_div (length out) SECTOR * SECTOR) out))"
    proof (rule attains_bind)
      fix u assume u: "vm_inv got deflate out R (grain_count out) u"
      show "attains (vmdk_finalize vo True) u (\<lambda>_. \<not> R)
        (\<lambda>_ t. vmdk_read inflate (vm_file got t) = Some (ljust (ceil_div (length out) SECTOR * SECTOR) out))"
        by (rule attains_weaken [OF vmdk_finalize_image [where R = R, OF out R(1) u]])
          (assumption | erule vmdk_image_reads [where deflate = deflate, OF _ inflates])+
    qed
  qed
  then show ?thesis by (simp add: R_def)
qed
text \<open>C7.
  A disk exported as a streamOptimized VMDK reads back as the disk. For content whose chunks are
  there, \<open>run_export\<close> into a fresh \<open>StreamOptimizedVmdkSink\<close> (32 MiB segments) always ends,
  whatever the flusher's schedule. If it returns, the totals add up to the size, and a reader of
  the format (header, footer, grain directory, grain tables, compressed grain records) gets from
  the bytes of the output exactly the content, padded with zeros to a whole sector. If it raises,
  the output was aborted; and it does not raise when the output accepts every write, the disk
  has at most 1 TiB, deflate keeps zlib's bound of 65569 bytes for a grain and the descriptor fits.
\<close>

theorem export_vmdk_reads_back:
  assumes "fresh_sink VMDK_SEGMENT_SIZE (xs_writer s)" and "bs_dest (xs_writer s) = vmdk_sink_init o0" and "got o0 = []"
    and "export_ok cf rd_at open_record arr es s" and "entries_ordered es"
    and "content_size c (xs_file s) = Some n" and "content_window c mod FIXED_CHUNK_LENGTH = 0"
    and "chunks_there cf es (content_window c) (content_window c + n)" and "0 < et_window_entries tuning"
    and "output_appends vo got" and "\<And>b. inflate (deflate b) = b"
    and out: "out = map (content (chunk_bytes cf) es) [content_window c..<content_window c + n]"
  shows "\<exists>r s'. run_export_segmented (vmdk_hooks vo deflate True cid file_name (Inr ()) sched) cf rd_at open_record sparse progress tuning c s =
      Some (r, s') \<and>
    (case r of
       Inr x \<Rightarrow> totals_ok n x \<and>
         vmdk_read inflate (got (vm_output (bs_dest (xs_writer s')))) = Some (ljust (ceil_div n SECTOR * SECTOR) out)
     | Inl e \<Rightarrow> (\<exists>d. bs_dest (xs_writer s') = snd (vmdk_discard vo d)) \<and>
         \<not> (vm_smooth vo deflate out \<and> length (vmdk_descriptor (ceil_div n SECTOR) cid file_name) \<le> 127 * SECTOR))"
proof -
  let ?h = "vmdk_hooks vo deflate True cid file_name (Inr ()) sched"
  have z: "0 < VMDK_SEGMENT_SIZE" "VMDK_SEGMENT_SIZE mod GRAIN = 0"
    by (simp_all add: VMDK_SEGMENT_SIZE_def GRAIN_def GRAIN_SECTORS_def SECTOR_def)
  have len: "length out = n" by (simp add: out)
  have hooks: "bh_alloc ?h = Inr ()" "bh_discard ?h = vmdk_discard vo" by (simp_all add: vmdk_hooks_def)
  obtain r s' where run: "run_export_segmented ?h cf rd_at open_record sparse progress tuning c s = Some (r, s')"
    "case deliver ?h VMDK_SEGMENT_SIZE sparse out (vmdk_sink_init o0) of
       (Inl _, d) \<Rightarrow> (\<exists>e. r = Inl e) \<and> bs_dest (xs_writer s') = snd (vmdk_discard vo d)
     | (Inr _, d) \<Rightarrow> (\<exists>x. r = Inr x \<and> totals_ok n x) \<and> bs_dest (xs_writer s') = d"
    using run_export_segmented_delivers [OF assms(1,4-9), of ?h sparse progress, folded out, unfolded assms(2) hooks sum.case]
    by (elim exE conjE) (rule that)
  have del: "attains (deliver ?h VMDK_SEGMENT_SIZE sparse out) (vmdk_sink_init o0)
      (\<lambda>_. \<not> (vm_smooth vo deflate out \<and> length (vmdk_descriptor (ceil_div (length out) SECTOR) cid file_name) \<le> 127 * SECTOR))
      (\<lambda>_ t. vmdk_read inflate (vm_file got t) = Some (ljust (ceil_div (length out) SECTOR * SECTOR) out))"
    by (rule vmdk_delivers [where inflate = inflate and deflate = deflate, OF assms(10) z assms(11,3) refl])
  show ?thesis
  proof (cases "deliver ?h VMDK_SEGMENT_SIZE sparse out (vmdk_sink_init o0)")
    case (Pair rd d)
    then show ?thesis using run del len by (cases rd) (auto simp: attains_def vm_file_def)
  qed
qed

text \<open>
  The sample file, a hole and two bytes, into a list of bytes, with the identity as deflate.
\<close>

definition plain_output :: "bytes vmdk_ops" where
  "plain_output = \<lparr>vo_write = (\<lambda>b z. (Inr (), z @ b)), vo_finish = (\<lambda>z. (Inr (), z)), vo_abort = (\<lambda>z. (Inr (), []))\<rparr>"

definition vmdk_target :: "bytes vmdk_sink buffered" where
  "vmdk_target = projr (buffered_sink (int VMDK_SEGMENT_SIZE) 2 (vmdk_sink_init []))"

lemma export_vmdk_reads_back_witness:
  "\<exists>x s'. run_export_segmented (vmdk_hooks plain_output (\<lambda>b. b) True 7 (ascii ''disk.vmdk'') (Inr ()) (\<lambda>k. k mod 2))
      plain_pool sample_reader sample_record True True plain_tuning (RangeView 4096 4098) (plain_file vmdk_target) = Some (Inr x, s') \<and>
    vmdk_read (\<lambda>b. b) (vm_output (bs_dest (xs_writer s'))) = Some (replicate 4096 0 @ [7, 7] @ replicate 510 0)"
proof -
  let ?s = "plain_file vmdk_target"
  have fresh: "fresh_sink VMDK_SEGMENT_SIZE (xs_writer ?s)" "bs_dest (xs_writer ?s) = vmdk_sink_init []"
    by (simp_all add: plain_file_def vmdk_target_def buffered_sink_def fresh_sink_def SINK_SEGMENT_ALIGN_def VMDK_SEGMENT_SIZE_def)
  have c: "content_size (RangeView 4096 4098) (xs_file ?s) = Some 4098" "content_window (RangeView 4096 4098) mod FIXED_CHUNK_LENGTH = 0"
    "chunks_there plain_pool sample_entries (content_window (RangeView 4096 4098)) (content_window (RangeView 4096 4098) + 4098)"
    "0 < et_window_entries plain_tuning"
    using sample_there [of 8194 4096] by (simp_all add: content_size_def content_window_def const_values plain_tuning_def DEFAULT_WINDOW_ENTRIES_def)
  have w: "content_window (RangeView 4096 4098) = 4096" by (simp add: content_window_def)
  have sum_8194: "4096 + 4098 = (8194 :: nat)" by simp
  have app: "output_appends plain_output (\<lambda>z. z)" by (auto simp: output_appends_def plain_output_def)
  have cap: "ceil_div 4098 SECTOR = 9" by (simp add: ceil_div_def SECTOR_def)
  have smooth: "vm_smooth plain_output (\<lambda>b. b) (replicate 4096 0 @ [7, 7])"
    by (auto simp: vm_smooth_def output_accepts_def plain_output_def GRAIN_def GRAIN_SECTORS_def SECTOR_def)
  have fits: "length (vmdk_descriptor 9 7 (ascii ''disk.vmdk'')) \<le> 127 * SECTOR"
    by (simp add: vmdk_descriptor_def Let_def ascii_def SECTOR_def hex_08_def hex_str.simps [of 7] dec_str.simps [of 9] dec_str.simps [of 0])
  have pad: "ljust (9 * SECTOR) (replicate 4096 0 @ [7, 7]) = replicate 4096 0 @ [7, 7] @ replicate 510 (0 :: byte)"
    by (simp add: ljust_def SECTOR_def)
  from export_vmdk_reads_back [OF fresh refl plain_file_ok sample_ordered c app refl refl, of 7 "ascii ''disk.vmdk''" "\<lambda>k. k mod 2" True True,
      unfolded w sum_8194 sample_range cap pad]
  obtain r s' where run: "run_export_segmented (vmdk_hooks plain_output (\<lambda>b. b) True 7 (ascii ''disk.vmdk'') (Inr ()) (\<lambda>k. k mod 2))
      plain_pool sample_reader sample_record True True plain_tuning (RangeView 4096 4098) ?s = Some (r, s')"
    "case r of
       Inr x \<Rightarrow> totals_ok 4098 x \<and> vmdk_read (\<lambda>b. b) (vm_output (bs_dest (xs_writer s'))) = Some (replicate 4096 0 @ [7, 7] @ replicate 510 0)
     | Inl e \<Rightarrow> (\<exists>d. bs_dest (xs_writer s') = snd (vmdk_discard plain_output d)) \<and>
         \<not> (vm_smooth plain_output (\<lambda>b. b) (replicate 4096 0 @ [7, 7]) \<and> length (vmdk_descriptor 9 7 (ascii ''disk.vmdk'')) \<le> 127 * SECTOR)"
    by blast
  then show ?thesis using smooth fits by (cases r) auto
qed

end
