(* ===== verification/BrowserKeys.thy ===== *)
theory BrowserKeys
  imports Text "HOL-Library.AList"
begin

text \<open>
  What the state models of the terminal browser share (\<open>browser/core/keys.py\<close>,
  \<open>core/remote_data.py\<close>, \<open>core/notify.py\<close>): request slots, stale results, fetched values and
  notifications. An \<open>update\<close> maps a model and a message to the next model and the commands to
  run; an exception leaves the model as it was.
\<close>

subsection \<open>Requests\<close>

text \<open>\<open>Slot\<close>; \<open>RequestId\<close>, \<open>Epoch\<close>, \<open>JobId\<close> and the handles are integers.\<close>

record 'k slot =
  sl_kind :: string
  sl_key :: "'k option"

type_synonym 'k inflight = "'k slot \<Rightarrow> nat option"

definition is_stale :: "nat \<Rightarrow> 'k inflight \<Rightarrow> 'k slot \<Rightarrow> nat \<Rightarrow> nat \<Rightarrow> bool" where
  "is_stale model_epoch fl sl epoch request \<longleftrightarrow> model_epoch \<noteq> epoch \<or> fl sl \<noteq> Some request"

subsection \<open>Fetched values\<close>

datatype failure_kind = KeyRequiredFailure | NotFoundFailure | OtherFailure

record failure_info =
  fi_message :: string
  fi_kind :: failure_kind

text \<open>\<open>NoValue()\<close> is \<open>None\<close>.\<close>

datatype 'a remote_data = NotAsked | Loading "'a option" | Success 'a | Failed failure_info

fun loading_preserving :: "'a remote_data \<Rightarrow> 'a remote_data" where
  "loading_preserving (Success v) = Loading (Some v)"
| "loading_preserving _ = Loading None"

fun is_pending_or_done :: "'a remote_data \<Rightarrow> bool" where
  "is_pending_or_done (Loading _) = True"
| "is_pending_or_done (Success _) = True"
| "is_pending_or_done _ = False"

fun value_or_stale :: "'a remote_data \<Rightarrow> 'a option" where
  "value_or_stale (Success v) = Some v"
| "value_or_stale (Loading prev) = prev"
| "value_or_stale _ = None"

definition has_ever_resolved :: "'a remote_data \<Rightarrow> bool" where
  "has_ever_resolved d \<longleftrightarrow> value_or_stale d \<noteq> None"

text \<open>Reloading keeps what is on screen.\<close>

lemma reload_keeps_value: "\<not> (\<exists>p. d = Loading p) \<Longrightarrow> value_or_stale (loading_preserving d) = value_or_stale d"
  by (cases d) auto

subsection \<open>Notifications\<close>

datatype severity = SevInformation | SevWarning | SevError

record notify =
  nt_message :: string
  nt_severity :: severity
  nt_title :: "string option"

end
