(* ===== verification/ExportJobs.thy ===== *)
theory ExportJobs
  imports BrowserKeys
begin

text \<open>
  The background-job registry of the terminal browser (\<open>browser/core/app\<close>): \<open>update\<close> of the
  app-level store, message by message, and the system it makes with the export workers
  (\<open>runtime/app_effects.py\<close>) and the full check of the diagnostics screen.
\<close>

subsection \<open>The model\<close>

datatype job_status = JobRunning | JobQueued | JobCancelling

record job =
  jb_id :: nat
  jb_label :: string
  jb_group :: string
  jb_done :: nat
  jb_total :: "nat option"
  jb_status :: job_status
  jb_size_text :: string
  jb_rate_text :: string
  jb_eta_text :: string
  jb_elapsed_text :: string
  jb_position :: string
  jb_item :: string

definition new_job :: "nat \<Rightarrow> string \<Rightarrow> string \<Rightarrow> job_status \<Rightarrow> job" where
  "new_job i label grp status = \<lparr>jb_id = i, jb_label = label, jb_group = grp, jb_done = 0, jb_total = None, jb_status = status,
     jb_size_text = [], jb_rate_text = [], jb_eta_text = [], jb_elapsed_text = [], jb_position = [], jb_item = []\<rparr>"

record job_outcome =
  jo_notify_message :: string
  jo_notify_severity :: severity
  jo_status_text :: string

text \<open>The export's target is a restorable unit or a folder; only its name is read here.\<close>

record 't queued_export =
  qe_target :: 't
  qe_dst :: string
  qe_sparse :: bool

record finished_job =
  fj_id :: nat
  fj_label :: string
  fj_outcome :: job_outcome

text \<open>A dictionary whose order matters is an association list in insertion order.\<close>

record 't app_model =
  am_jobs :: "(nat \<times> job) list"
  am_recent :: "finished_job list"
  am_next_job_id :: nat
  am_queued :: "(nat \<times> 't queued_export) list"
  am_verify_full :: bool

definition app_model_init :: "'t app_model" where
  "app_model_init = \<lparr>am_jobs = [], am_recent = [], am_next_job_id = 1, am_queued = [], am_verify_full = False\<rparr>"

definition MAX_RECENT :: nat where "MAX_RECENT = 20"

definition occupies :: "job_status \<Rightarrow> bool" where
  "occupies st \<longleftrightarrow> st = JobRunning \<or> st = JobCancelling"

definition jobs_occupy_slot :: "(nat \<times> job) list \<Rightarrow> bool" where
  "jobs_occupy_slot jobs \<longleftrightarrow> list_ex (\<lambda>p. occupies (jb_status (snd p))) jobs"

definition cap_recent :: "finished_job list \<Rightarrow> finished_job list" where
  "cap_recent recent = (if MAX_RECENT < length recent then drop (length recent - MAX_RECENT) recent else recent)"

subsection \<open>Messages and commands\<close>

text \<open>The texts of \<open>browser/strings.py\<close>, in UTF-8.\<close>

definition EXPORT_NO_DESTINATION_WARNING :: string where
  "EXPORT_NO_DESTINATION_WARNING = ''enter a destination path''"

definition EXPORT_QUEUED_MESSAGE :: string where
  "EXPORT_QUEUED_MESSAGE = ''queued '' @ [CHR 0xE2, CHR 0x80, CHR 0x94] @ '' will start once the current job finishes''"

definition EXPORT_NOTIFY_TITLE :: string where
  "EXPORT_NOTIFY_TITLE = ''Export''"

datatype 't app_msg =
    StartExport 't string bool
  | ExportProgressed nat nat "nat option" string string string string string string
  | ExportFinished nat job_outcome
  | CancelJobRequested nat
  | VerifyFullStarted
  | VerifyFullFinished

datatype 't app_cmd =
    RunExport nat string 't string bool
  | CancelGroup string
  | AppNotify notify

definition record_finished :: "nat \<Rightarrow> string \<Rightarrow> job_outcome \<Rightarrow> 't app_model \<Rightarrow> 't app_model" where
  "record_finished i label outcome m =
     m\<lparr>am_recent := cap_recent (am_recent m @ [\<lparr>fj_id = i, fj_label = label, fj_outcome = outcome\<rparr>])\<rparr>"

definition notify_outcome :: "job_outcome \<Rightarrow> 't app_cmd" where
  "notify_outcome x = AppNotify \<lparr>nt_message = jo_notify_message x, nt_severity = jo_notify_severity x, nt_title = Some EXPORT_NOTIFY_TITLE\<rparr>"

definition run_cmd :: "nat \<Rightarrow> string \<Rightarrow> 't queued_export \<Rightarrow> 't app_cmd" where
  "run_cmd i grp q = RunExport i grp (qe_target q) (qe_dst q) (qe_sparse q)"

definition promote_next_queued :: "'t app_model \<Rightarrow> ('t app_model \<times> 't app_cmd list) res" where
  "promote_next_queued m =
     (case find (\<lambda>p. jb_status (snd p) = JobQueued) (am_jobs m) of
        None \<Rightarrow> Inr (m, [])
      | Some (i, j) \<Rightarrow>
          (case map_of (am_queued m) i of
             None \<Rightarrow> Inl PyKeyError
           | Some q \<Rightarrow> Inr (m\<lparr>am_jobs := AList.update i (j\<lparr>jb_status := JobRunning\<rparr>) (am_jobs m), am_queued := AList.delete i (am_queued m)\<rparr>,
               [run_cmd i (jb_group j) q])))"

definition on_start_export :: "('t \<Rightarrow> string) \<Rightarrow> 't \<Rightarrow> string \<Rightarrow> bool \<Rightarrow> 't app_model \<Rightarrow> 't app_model \<times> 't app_cmd list" where
  "on_start_export name target dst sparse m =
     (if dst = [] then (m, [AppNotify \<lparr>nt_message = EXPORT_NO_DESTINATION_WARNING, nt_severity = SevWarning, nt_title = None\<rparr>])
      else
        let i = am_next_job_id m;
            grp = ''job-'' @ dec_str i;
            q = \<lparr>qe_target = target, qe_dst = dst, qe_sparse = sparse\<rparr>;
            label = ''export '' @ name target
        in if jobs_occupy_slot (am_jobs m) \<or> am_verify_full m
           then (m\<lparr>am_jobs := AList.update i (new_job i label grp JobQueued) (am_jobs m), am_queued := AList.update i q (am_queued m),
                   am_next_job_id := i + 1\<rparr>,
                 [AppNotify \<lparr>nt_message = EXPORT_QUEUED_MESSAGE, nt_severity = SevInformation, nt_title = None\<rparr>])
           else (m\<lparr>am_jobs := AList.update i (new_job i label grp JobRunning) (am_jobs m), am_next_job_id := i + 1\<rparr>, [run_cmd i grp q]))"

definition on_export_progressed ::
    "nat \<Rightarrow> nat \<Rightarrow> nat option \<Rightarrow> string \<Rightarrow> string \<Rightarrow> string \<Rightarrow> string \<Rightarrow> string \<Rightarrow> string \<Rightarrow> 't app_model \<Rightarrow> 't app_model" where
  "on_export_progressed i n total_bytes size_text rate_text eta_text elapsed_text position item m =
     (case map_of (am_jobs m) i of
        None \<Rightarrow> m
      | Some j \<Rightarrow> m\<lparr>am_jobs := AList.update i (j\<lparr>jb_done := n, jb_total := total_bytes, jb_size_text := size_text, jb_rate_text := rate_text,
          jb_eta_text := eta_text, jb_elapsed_text := elapsed_text, jb_position := position, jb_item := item\<rparr>) (am_jobs m)\<rparr>)"

definition on_export_finished :: "nat \<Rightarrow> job_outcome \<Rightarrow> 't app_model \<Rightarrow> ('t app_model \<times> 't app_cmd list) res" where
  "on_export_finished i outcome m =
     (case map_of (am_jobs m) i of
        None \<Rightarrow> Inr (m, [])
      | Some j \<Rightarrow>
          bind_res (promote_next_queued ((record_finished i (jb_label j) outcome m)\<lparr>am_jobs := AList.delete i (am_jobs m)\<rparr>)) (\<lambda>(m, promoted).
            Inr (m, notify_outcome outcome # promoted)))"

definition cancelled_outcome :: "string \<Rightarrow> job_outcome" where
  "cancelled_outcome label = \<lparr>jo_notify_message = label @ '': cancelled (was queued, never started)'', jo_notify_severity = SevInformation,
     jo_status_text = ''[yellow]cancelled[/yellow] (was queued, never started)''\<rparr>"

definition on_cancel_job_requested :: "nat \<Rightarrow> 't app_model \<Rightarrow> 't app_model \<times> 't app_cmd list" where
  "on_cancel_job_requested i m =
     (case map_of (am_jobs m) i of
        None \<Rightarrow> (m, [])
      | Some j \<Rightarrow>
          if jb_status j = JobQueued
          then ((record_finished i (jb_label j) (cancelled_outcome (jb_label j)) m)
                  \<lparr>am_jobs := AList.delete i (am_jobs m), am_queued := AList.delete i (am_queued m)\<rparr>,
                [notify_outcome (cancelled_outcome (jb_label j))])
          else (m\<lparr>am_jobs := AList.update i (j\<lparr>jb_status := JobCancelling\<rparr>) (am_jobs m)\<rparr>, [CancelGroup (jb_group j)]))"

fun app_update :: "('t \<Rightarrow> string) \<Rightarrow> 't app_model \<Rightarrow> 't app_msg \<Rightarrow> ('t app_model \<times> 't app_cmd list) res" where
  "app_update name m (StartExport target dst sparse) = Inr (on_start_export name target dst sparse m)"
| "app_update name m (ExportProgressed i n total_bytes a b c d e f) = Inr (on_export_progressed i n total_bytes a b c d e f m, [])"
| "app_update name m (ExportFinished i outcome) = on_export_finished i outcome m"
| "app_update name m (CancelJobRequested i) = Inr (on_cancel_job_requested i m)"
| "app_update name m VerifyFullStarted = Inr (m\<lparr>am_verify_full := True\<rparr>, [])"
| "app_update name m VerifyFullFinished = promote_next_queued (m\<lparr>am_verify_full := False\<rparr>)"

text \<open>\<open>export_button_spec\<close>: label, variant and whether the bar is active.\<close>

definition export_button_spec :: "(job + finished_job) option \<Rightarrow> string \<times> string \<times> bool" where
  "export_button_spec x =
     (case x of Some (Inl j) \<Rightarrow> (''Cancel'', ''warning'', jb_status j \<noteq> JobQueued) | _ \<Rightarrow> (''Export'', ''primary'', False))"

subsection \<open>The system\<close>

text \<open>
  The model together with the export workers that run. A worker reports finished exactly once
  (\<open>_run_export\<close>); a full check starts only while no check and no export runs
  (\<open>DiagnosticsScreen.action_run_full\<close>) and reports finished once.
\<close>

definition started :: "'t app_cmd list \<Rightarrow> nat set" where
  "started cmds = {i. \<exists>g t d s. RunExport i g t d s \<in> set cmds}"

inductive job_step :: "('t \<Rightarrow> string) \<Rightarrow> 't app_msg \<Rightarrow> 't app_model \<times> nat set \<Rightarrow> 't app_model \<times> nat set \<Rightarrow> bool" for name where
  asked: "msg = StartExport t d s \<or> msg = CancelJobRequested i \<or> msg = ExportProgressed i n total_bytes s1 s2 s3 s4 s5 s6 \<Longrightarrow>
    app_update name m msg = Inr (m', cmds) \<Longrightarrow> job_step name msg (m, w) (m', w \<union> started cmds)"
| finished: "i \<in> w \<Longrightarrow> app_update name m (ExportFinished i outcome) = Inr (m', cmds) \<Longrightarrow>
    job_step name (ExportFinished i outcome) (m, w) (m', w - {i} \<union> started cmds)"
| check_starts: "\<not> am_verify_full m \<Longrightarrow> \<not> jobs_occupy_slot (am_jobs m) \<Longrightarrow> app_update name m VerifyFullStarted = Inr (m', cmds) \<Longrightarrow>
    job_step name VerifyFullStarted (m, w) (m', w \<union> started cmds)"
| check_ends: "am_verify_full m \<Longrightarrow> app_update name m VerifyFullFinished = Inr (m', cmds) \<Longrightarrow>
    job_step name VerifyFullFinished (m, w) (m', w \<union> started cmds)"

text \<open>A run: the messages in order, each with the state after it.\<close>

inductive job_run ::
    "('t \<Rightarrow> string) \<Rightarrow> 't app_model \<times> nat set \<Rightarrow> ('t app_msg \<times> 't app_model \<times> nat set) list \<Rightarrow> bool" for name where
  run_ends: "job_run name s []"
| run_goes_on: "\<lbrakk>job_step name msg s s'; job_run name s' later\<rbrakk> \<Longrightarrow> job_run name s ((msg, s') # later)"

definition jobs_reachable :: "('t \<Rightarrow> string) \<Rightarrow> 't app_model \<times> nat set \<Rightarrow> bool" where
  "jobs_reachable name s \<longleftrightarrow> (\<lambda>s s'. \<exists>msg. job_step name msg s s')\<^sup>*\<^sup>* (app_model_init, {}) s"

subsection \<open>The invariant\<close>

definition queued_ids :: "'t app_model \<Rightarrow> nat set" where
  "queued_ids m = {i. \<exists>j. map_of (am_jobs m) i = Some j \<and> jb_status j = JobQueued}"

definition busy_ids :: "'t app_model \<Rightarrow> nat set" where
  "busy_ids m = {i. \<exists>j. map_of (am_jobs m) i = Some j \<and> occupies (jb_status j)}"

definition jobs_wf :: "'t app_model \<Rightarrow> bool" where
  "jobs_wf m \<longleftrightarrow> sorted_wrt (<) (map fst (am_jobs m)) \<and> (\<forall>i \<in> set (map fst (am_jobs m)). i < am_next_job_id m) \<and>
     (\<forall>i j. map_of (am_jobs m) i = Some j \<longrightarrow> jb_id j = i) \<and>
     set (map fst (am_queued m)) = queued_ids m \<and> length (am_recent m) \<le> MAX_RECENT"

definition jobs_inv :: "'t app_model \<times> nat set \<Rightarrow> bool" where
  "jobs_inv = (\<lambda>(m, w). jobs_wf m \<and> w = busy_ids m \<and> (\<forall>i \<in> w. \<forall>k \<in> w. i = k) \<and> (am_verify_full m \<longrightarrow> w = {}) \<and>
     (queued_ids m \<noteq> {} \<longrightarrow> w \<noteq> {} \<or> am_verify_full m))"

lemma status_cases: "occupies st \<longleftrightarrow> st \<noteq> JobQueued"
  by (cases st) (auto simp: occupies_def)

lemma sorted_distinct: "sorted_wrt (<) xs \<Longrightarrow> distinct (xs :: nat list)"
  by (simp add: strict_sorted_iff)

lemma lookup_iff: "sorted_wrt (<) (map fst d) \<Longrightarrow> map_of d i = Some x \<longleftrightarrow> (i, x) \<in> set (d :: (nat \<times> 'a) list)"
  by (rule map_of_eq_Some_iff) (rule sorted_distinct)

lemma occupied_iff:
  assumes "jobs_wf m"
  shows "jobs_occupy_slot (am_jobs m) \<longleftrightarrow> busy_ids m \<noteq> {}"
proof -
  have "sorted_wrt (<) (map fst (am_jobs m))" using assms by (simp add: jobs_wf_def)
  then show ?thesis unfolding jobs_occupy_slot_def busy_ids_def list_ex_iff by (simp add: lookup_iff) force
qed

lemma keys_update_there: "k \<in> set (map fst d) \<Longrightarrow> map fst (AList.update k v d) = map fst d"
  by (induction d) auto

lemma keys_update_new: "k \<notin> set (map fst d) \<Longrightarrow> AList.update k v d = d @ [(k, v)]"
  by (induction d) auto

lemma keys_delete: "map fst (AList.delete k d) = filter (\<lambda>i. i \<noteq> k) (map fst d)"
  by (induction d) (auto simp: AList.delete_eq)

lemma keys_deleted: "set (map fst (AList.delete k d)) = set (map fst d) - {k}"
  unfolding keys_delete by auto

lemma sorted_filter_wrt: "sorted_wrt P xs \<Longrightarrow> sorted_wrt P (filter Q xs)"
  by (induction xs) auto

text \<open>The first queued job of a sorted registry has the least id.\<close>

lemma find_queued_None:
  assumes "sorted_wrt (<) (map fst (jobs :: (nat \<times> job) list))"
  shows "find (\<lambda>p. jb_status (snd p) = JobQueued) jobs = None \<longleftrightarrow> (\<forall>i j. map_of jobs i = Some j \<longrightarrow> jb_status j \<noteq> JobQueued)"
  using assms by (simp add: find_None_iff lookup_iff)

lemma find_queued_Some:
  assumes "sorted_wrt (<) (map fst (jobs :: (nat \<times> job) list))" and "find (\<lambda>p. jb_status (snd p) = JobQueued) jobs = Some (i, j)"
  shows "map_of jobs i = Some j" and "jb_status j = JobQueued"
    and "map_of jobs k = Some l \<Longrightarrow> jb_status l = JobQueued \<Longrightarrow> i \<le> k"
proof -
  obtain n where n: "n < length jobs" "jb_status (snd (jobs ! n)) = JobQueued" "(i, j) = jobs ! n"
    "\<forall>q < n. jb_status (snd (jobs ! q)) \<noteq> JobQueued"
    using assms(2) by (auto simp: find_Some_iff)
  show "jb_status j = JobQueued" using n(2,3) by (metis snd_conv)
  show "map_of jobs i = Some j" using n(1,3) by (simp add: lookup_iff [OF assms(1)])
  assume k: "map_of jobs k = Some l" "jb_status l = JobQueued"
  then obtain q where q: "q < length jobs" "jobs ! q = (k, l)" by (auto simp: lookup_iff [OF assms(1)] in_set_conv_nth)
  have "n \<le> q" using n(4) q k(2) by (metis not_le snd_conv)
  then show "i \<le> k"
    using sorted_wrt_nth_less [OF assms(1), of n q] n(1,3) q by (cases "n = q") (auto simp: order.order_iff_strict dest: sym)
qed

subsection \<open>Every step keeps it\<close>

lemma cap_recent_length: "length (cap_recent xs) \<le> MAX_RECENT"
  by (simp add: cap_recent_def)

lemma queued_of_update: "map_of (am_jobs m') = (map_of (am_jobs m))(i \<mapsto> j) \<Longrightarrow>
    queued_ids m' = (if jb_status j = JobQueued then insert i (queued_ids m) else queued_ids m - {i}) \<and>
    busy_ids m' = (if jb_status j = JobQueued then busy_ids m - {i} else insert i (busy_ids m))"
  by (auto simp: queued_ids_def busy_ids_def status_cases split: if_splits)

lemma queued_of_delete: "map_of (am_jobs m') = (map_of (am_jobs m))(i := None) \<Longrightarrow>
    queued_ids m' = queued_ids m - {i} \<and> busy_ids m' = busy_ids m - {i}"
  by (auto simp: queued_ids_def busy_ids_def split: if_splits)

text \<open>\<open>jobs_wf\<close> after a change of one job that is there.\<close>

lemma jobs_wf_change:
  assumes wf: "jobs_wf m" and i: "map_of (am_jobs m) i = Some j0" and j: "jb_id j = i"
    and jobs: "am_jobs m' = AList.update i j (am_jobs m)" and next_id: "am_next_job_id m' = am_next_job_id m"
    and recent: "length (am_recent m') \<le> MAX_RECENT" and queued: "set (map fst (am_queued m')) = queued_ids m'"
  shows "jobs_wf m'"
proof -
  have "i \<in> set (map fst (am_jobs m))" using i by (metis map_of_eq_None_iff option.distinct(1) set_map)
  then have "map fst (am_jobs m') = map fst (am_jobs m)" unfolding jobs by (rule keys_update_there)
  then show ?thesis using wf j recent queued next_id by (auto simp: jobs_wf_def jobs update_conv')
qed

lemma jobs_wf_delete:
  assumes wf: "jobs_wf m" and jobs: "am_jobs m' = AList.delete i (am_jobs m)" and next_id: "am_next_job_id m' = am_next_job_id m"
    and recent: "length (am_recent m') \<le> MAX_RECENT" and queued: "set (map fst (am_queued m')) = queued_ids m'"
  shows "jobs_wf m'"
proof -
  have keys: "map fst (am_jobs m') = filter (\<lambda>k. k \<noteq> i) (map fst (am_jobs m))" unfolding jobs by (rule keys_delete)
  have "\<forall>k \<in> set (map fst (am_jobs m')). k < am_next_job_id m'" using wf unfolding keys by (auto simp: jobs_wf_def next_id)
  moreover have "sorted_wrt (<) (map fst (am_jobs m'))" using wf unfolding keys by (simp add: jobs_wf_def sorted_filter_wrt)
  moreover have "\<forall>k j. map_of (am_jobs m') k = Some j \<longrightarrow> jb_id j = k" using wf by (auto simp: jobs_wf_def jobs delete_conv')
  ultimately show ?thesis using recent queued by (simp add: jobs_wf_def)
qed

text \<open>Promotion: the queued job with the least id, if there is one, runs.\<close>

lemma promote_spec:
  assumes wf: "jobs_wf m"
  shows "queued_ids m = {} \<Longrightarrow> promote_next_queued m = Inr (m, [])"
    and "queued_ids m \<noteq> {} \<Longrightarrow> \<exists>m' j q. let i = Min (queued_ids m) in map_of (am_jobs m) i = Some j \<and> map_of (am_queued m) i = Some q \<and>
      promote_next_queued m = Inr (m', [run_cmd i (jb_group j) q]) \<and> jobs_wf m' \<and> queued_ids m' = queued_ids m - {i} \<and>
      busy_ids m' = insert i (busy_ids m) \<and> am_verify_full m' = am_verify_full m \<and> am_recent m' = am_recent m"
proof -
  have sorted: "sorted_wrt (<) (map fst (am_jobs m))" using wf by (simp add: jobs_wf_def)
  show "promote_next_queued m = Inr (m, [])" if "queued_ids m = {}"
    using that find_queued_None [OF sorted] by (auto simp: promote_next_queued_def queued_ids_def)
  assume "queued_ids m \<noteq> {}"
  then obtain i j where f: "find (\<lambda>p. jb_status (snd p) = JobQueued) (am_jobs m) = Some (i, j)"
    using find_queued_None [OF sorted] by (cases "find (\<lambda>p. jb_status (snd p) = JobQueued) (am_jobs m)") (auto simp: queued_ids_def)
  note found = find_queued_Some [OF sorted f]
  have fin: "finite (queued_ids m)"
    by (rule finite_subset [OF _ finite_set, of _ "map fst (am_jobs m)"]) (force simp: queued_ids_def dest: map_of_SomeD)
  have min: "Min (queued_ids m) = i" using found fin by (intro Min_eqI) (auto simp: queued_ids_def)
  have mem: "i \<in> queued_ids m" using found by (simp add: queued_ids_def)
  then have "i \<in> fst ` set (am_queued m)" using wf by (auto simp: jobs_wf_def)
  then obtain q where q: "map_of (am_queued m) i = Some q" using map_of_eq_None_iff [of "am_queued m" i] by auto
  define m' where "m' = m\<lparr>am_jobs := AList.update i (j\<lparr>jb_status := JobRunning\<rparr>) (am_jobs m), am_queued := AList.delete i (am_queued m)\<rparr>"
  have run: "promote_next_queued m = Inr (m', [run_cmd i (jb_group j) q])" using f q by (simp add: promote_next_queued_def m'_def)
  have "map_of (am_jobs m') = (map_of (am_jobs m))(i \<mapsto> j\<lparr>jb_status := JobRunning\<rparr>)" by (simp add: m'_def update_conv')
  from queued_of_update [OF this]
  have ids: "queued_ids m' = queued_ids m - {i}" "busy_ids m' = insert i (busy_ids m)" by simp_all
  have "set (map fst (am_queued m')) = queued_ids m'"
    unfolding ids using wf by (simp add: m'_def jobs_wf_def keys_deleted del: set_map)
  then have "jobs_wf m'"
    using wf found(1) by (intro jobs_wf_change [OF wf found(1), of "j\<lparr>jb_status := JobRunning\<rparr>"]) (auto simp: m'_def jobs_wf_def)
  then show "\<exists>m' j q. let i = Min (queued_ids m) in map_of (am_jobs m) i = Some j \<and> map_of (am_queued m) i = Some q \<and>
      promote_next_queued m = Inr (m', [run_cmd i (jb_group j) q]) \<and> jobs_wf m' \<and> queued_ids m' = queued_ids m - {i} \<and>
      busy_ids m' = insert i (busy_ids m) \<and> am_verify_full m' = am_verify_full m \<and> am_recent m' = am_recent m"
    unfolding min Let_def using found(1) q run ids by (intro exI [of _ m'] exI [of _ j] exI [of _ q]) (simp add: m'_def)
qed


lemma started_simps [simp]: "started [] = {}" "started (AppNotify nt # cmds) = started cmds" "started (CancelGroup g # cmds) = started cmds"
  "started (run_cmd i g q # cmds) = insert i (started cmds)" "started (notify_outcome oc # cmds) = started cmds"
  by (auto simp: started_def run_cmd_def notify_outcome_def)

lemma start_export_inv:
  assumes inv: "jobs_inv (m, w)" and run: "on_start_export name t d s m = (m', cmds)"
  shows "jobs_inv (m', w \<union> started cmds)"
proof (cases "d = []")
  case True
  then show ?thesis using inv run by (auto simp: on_start_export_def)
next
  case False
  have wf: "jobs_wf m" and w: "w = busy_ids m" using inv by (simp_all add: jobs_inv_def)
  define i where "i = am_next_job_id m"
  have new: "i \<notin> set (map fst (am_jobs m))" using wf by (auto simp: jobs_wf_def i_def)
  then have no: "map_of (am_jobs m) i = None" by (simp add: map_of_eq_None_iff)
  have noq: "i \<notin> set (map fst (am_queued m))" using wf no by (auto simp: jobs_wf_def queued_ids_def)
  have fresh: "i \<notin> queued_ids m" "i \<notin> busy_ids m" using no by (auto simp: queued_ids_def busy_ids_def)
  have appended: "jobs_wf (m\<lparr>am_jobs := AList.update i j (am_jobs m), am_next_job_id := i + 1, am_queued := qs\<rparr>)"
    if "jb_id j = i" "set (map fst qs) = (if jb_status j = JobQueued then insert i (queued_ids m) else queued_ids m)" for j qs
  proof -
    let ?m = "m\<lparr>am_jobs := AList.update i j (am_jobs m), am_next_job_id := i + 1, am_queued := qs\<rparr>"
    have jobs: "am_jobs ?m = am_jobs m @ [(i, j)]" using keys_update_new [OF new] by simp
    have "map_of (am_jobs ?m) = (map_of (am_jobs m))(i \<mapsto> j)" by (simp add: update_conv')
    from queued_of_update [OF this] have "queued_ids ?m = set (map fst (am_queued ?m))" using that(2) fresh by auto
    then show ?thesis using wf that(1)
      unfolding jobs_wf_def jobs by (auto simp: sorted_wrt_append i_def map_add_def less_Suc_eq split: option.splits)
  qed
  show ?thesis
  proof (cases "jobs_occupy_slot (am_jobs m) \<or> am_verify_full m")
    case True
    define j where "j = new_job i (''export '' @ name t) (''job-'' @ dec_str i) JobQueued"
    have m': "m' = m\<lparr>am_jobs := AList.update i j (am_jobs m), am_next_job_id := i + 1,
        am_queued := AList.update i \<lparr>qe_target = t, qe_dst = d, qe_sparse = s\<rparr> (am_queued m)\<rparr>" and c: "started cmds = {}"
      using run False True by (auto simp: on_start_export_def Let_def i_def j_def)
    have "set (map fst (AList.update i \<lparr>qe_target = t, qe_dst = d, qe_sparse = s\<rparr> (am_queued m))) = insert i (queued_ids m)"
      using wf noq by (simp add: keys_update_new jobs_wf_def)
    then have wf': "jobs_wf m'" unfolding m' by (intro appended) (simp_all add: j_def new_job_def)
    have "map_of (am_jobs m') = (map_of (am_jobs m))(i \<mapsto> j)" by (simp add: m' update_conv')
    from queued_of_update [OF this] have "busy_ids m' = busy_ids m" using fresh by (simp add: j_def new_job_def)
    moreover have "busy_ids m \<noteq> {} \<or> am_verify_full m" using True occupied_iff [OF wf] by simp
    ultimately show ?thesis using inv wf' c w by (auto simp: jobs_inv_def m')
  next
    case idle: False
    define j where "j = new_job i (''export '' @ name t) (''job-'' @ dec_str i) JobRunning"
    have m': "m' = m\<lparr>am_jobs := AList.update i j (am_jobs m), am_next_job_id := i + 1, am_queued := am_queued m\<rparr>"
      and c: "started cmds = {i}"
      using run False idle by (auto simp: on_start_export_def Let_def i_def j_def)
    have wf': "jobs_wf m'" unfolding m' using wf by (intro appended) (simp_all add: j_def new_job_def jobs_wf_def)
    have "map_of (am_jobs m') = (map_of (am_jobs m))(i \<mapsto> j)" by (simp add: m' update_conv')
    from queued_of_update [OF this] have "busy_ids m' = insert i (busy_ids m)" "queued_ids m' = queued_ids m - {i}"
      by (simp_all add: j_def new_job_def)
    moreover have "busy_ids m = {}" "\<not> am_verify_full m" using idle occupied_iff [OF wf] by auto
    ultimately show ?thesis using inv wf' c w by (auto simp: jobs_inv_def m')
  qed
qed

lemma progress_inv:
  assumes inv: "jobs_inv (m, w)"
  shows "jobs_inv (on_export_progressed i n total_bytes s1 s2 s3 s4 s5 s6 m, w)"
proof (cases "map_of (am_jobs m) i")
  case None
  then show ?thesis using inv by (simp add: on_export_progressed_def)
next
  case (Some j)
  define m' where "m' = on_export_progressed i n total_bytes s1 s2 s3 s4 s5 s6 m"
  define j' where "j' = j\<lparr>jb_done := n, jb_total := total_bytes, jb_size_text := s1, jb_rate_text := s2,
          jb_eta_text := s3, jb_elapsed_text := s4, jb_position := s5, jb_item := s6\<rparr>"
  have m': "m' = m\<lparr>am_jobs := AList.update i j' (am_jobs m)\<rparr>" using Some by (simp add: m'_def j'_def on_export_progressed_def)
  have wf: "jobs_wf m" using inv by (simp add: jobs_inv_def)
  have st: "jb_status j' = jb_status j" "jb_id j' = i" using wf Some by (simp_all add: j'_def jobs_wf_def)
  have "map_of (am_jobs m') = (map_of (am_jobs m))(i \<mapsto> j')" by (simp add: m' update_conv')
  from queued_of_update [OF this] have ids: "queued_ids m' = queued_ids m" "busy_ids m' = busy_ids m"
    using Some by (auto simp: st queued_ids_def busy_ids_def status_cases)
  have "jobs_wf m'" using wf by (intro jobs_wf_change [OF wf Some st(2)]) (auto simp: m' jobs_wf_def ids [unfolded m'])
  moreover have "am_verify_full m' = am_verify_full m" by (simp add: m')
  ultimately show ?thesis using inv unfolding m'_def [symmetric] by (auto simp: jobs_inv_def ids)
qed

lemma promoted_inv:
  assumes wf: "jobs_wf m" and none: "busy_ids m = {}" and idle: "\<not> am_verify_full m"
  shows "\<exists>m' cmds. promote_next_queued m = Inr (m', cmds) \<and> jobs_inv (m', started cmds)"
proof (cases "queued_ids m = {}")
  case True
  then show ?thesis using promote_spec(1) [OF wf] wf none idle by (auto simp: jobs_inv_def)
next
  case False
  from promote_spec(2) [OF wf False] obtain m' q and j :: job where p: "promote_next_queued m = Inr (m', [run_cmd (Min (queued_ids m)) (jb_group j) q])"
    "jobs_wf m'" "busy_ids m' = insert (Min (queued_ids m)) (busy_ids m)" "am_verify_full m' = am_verify_full m"
    unfolding Let_def by blast
  then show ?thesis using none idle by (auto simp: jobs_inv_def)
qed

lemma removed_job:
  fixes outcome label
  assumes wf: "jobs_wf m" and st: "map_of (am_jobs m) i = Some j" "occupies (jb_status j)"
  defines "m1 \<equiv> (record_finished i label outcome m)\<lparr>am_jobs := AList.delete i (am_jobs m)\<rparr>"
  shows "jobs_wf m1" and "busy_ids m1 = busy_ids m - {i}" and "queued_ids m1 = queued_ids m" and "am_verify_full m1 = am_verify_full m"
proof -
  have "map_of (am_jobs m1) = (map_of (am_jobs m))(i := None)" by (simp add: m1_def delete_conv')
  from queued_of_delete [OF this] have ids: "queued_ids m1 = queued_ids m" "busy_ids m1 = busy_ids m - {i}"
    using st by (auto simp: queued_ids_def status_cases)
  then show "busy_ids m1 = busy_ids m - {i}" "queued_ids m1 = queued_ids m" by simp_all
  show "am_verify_full m1 = am_verify_full m" by (simp add: m1_def record_finished_def)
  have "set (map fst (am_queued m1)) = queued_ids m1" unfolding ids using wf by (simp add: jobs_wf_def m1_def record_finished_def)
  then show "jobs_wf m1"
    by (intro jobs_wf_delete [OF wf, of m1 i]) (simp_all add: m1_def record_finished_def cap_recent_length)
qed

lemma finished_inv:
  assumes inv: "jobs_inv (m, w)" and i: "i \<in> w"
  shows "\<exists>m' cmds. on_export_finished i outcome m = Inr (m', cmds) \<and> jobs_inv (m', w - {i} \<union> started cmds)"
proof -
  have wf: "jobs_wf m" and w: "w = busy_ids m" "w = {i}" and idle: "\<not> am_verify_full m" using inv i by (auto simp: jobs_inv_def)
  then obtain j where j: "map_of (am_jobs m) i = Some j" "occupies (jb_status j)" using i by (auto simp: busy_ids_def)
  note rem = removed_job [OF wf j, of "jb_label j" outcome]
  have "busy_ids ((record_finished i (jb_label j) outcome m)\<lparr>am_jobs := AList.delete i (am_jobs m)\<rparr>) = {}" using rem(2) w by auto
  from promoted_inv [OF rem(1) this] rem(4) idle obtain m' cmds where
    p: "promote_next_queued ((record_finished i (jb_label j) outcome m)\<lparr>am_jobs := AList.delete i (am_jobs m)\<rparr>) = Inr (m', cmds)"
    "jobs_inv (m', started cmds)" by auto
  then show ?thesis using j w by (simp add: on_export_finished_def)
qed

lemma cancel_inv:
  assumes inv: "jobs_inv (m, w)" and run: "on_cancel_job_requested i m = (m', cmds)"
  shows "jobs_inv (m', w \<union> started cmds)"
proof (cases "map_of (am_jobs m) i")
  case None
  then show ?thesis using inv run by (simp add: on_cancel_job_requested_def)
next
  case (Some j)
  have wf: "jobs_wf m" using inv by (simp add: jobs_inv_def)
  show ?thesis
  proof (cases "jb_status j = JobQueued")
    case True
    have m': "m' = (record_finished i (jb_label j) (cancelled_outcome (jb_label j)) m)
        \<lparr>am_jobs := AList.delete i (am_jobs m), am_queued := AList.delete i (am_queued m)\<rparr>" and c: "started cmds = {}"
      using run True Some by (auto simp: on_cancel_job_requested_def)
    have "map_of (am_jobs m') = (map_of (am_jobs m))(i := None)" by (simp add: m' delete_conv')
    from queued_of_delete [OF this] have ids: "queued_ids m' = queued_ids m - {i}" "busy_ids m' = busy_ids m"
      using Some True by (auto simp: busy_ids_def status_cases)
    have "set (map fst (am_queued m')) = queued_ids m'"
      unfolding ids using wf by (simp add: m' jobs_wf_def keys_deleted del: set_map)
    then have "jobs_wf m'"
      by (intro jobs_wf_delete [OF wf, of m' i]) (simp_all add: m' record_finished_def cap_recent_length)
    moreover have "am_verify_full m' = am_verify_full m" by (simp add: m' record_finished_def)
    ultimately show ?thesis using inv c by (auto simp: jobs_inv_def ids)
  next
    case False
    have m': "m' = m\<lparr>am_jobs := AList.update i (j\<lparr>jb_status := JobCancelling\<rparr>) (am_jobs m)\<rparr>" and c: "started cmds = {}"
      using run False Some by (auto simp: on_cancel_job_requested_def)
    have "map_of (am_jobs m') = (map_of (am_jobs m))(i \<mapsto> j\<lparr>jb_status := JobCancelling\<rparr>)" by (simp add: m' update_conv')
    from queued_of_update [OF this] have ids: "queued_ids m' = queued_ids m" "busy_ids m' = busy_ids m"
      using Some False by (auto simp: queued_ids_def busy_ids_def status_cases)
    have "jobs_wf m'"
      using wf Some by (intro jobs_wf_change [OF wf Some, of "j\<lparr>jb_status := JobCancelling\<rparr>"])
        (auto simp: m' jobs_wf_def ids [unfolded m'])
    moreover have "am_verify_full m' = am_verify_full m" by (simp add: m')
    ultimately show ?thesis using inv c by (auto simp: jobs_inv_def ids)
  qed
qed

lemma verify_flag [simp]:
  "queued_ids (m\<lparr>am_verify_full := b\<rparr>) = queued_ids m" "busy_ids (m\<lparr>am_verify_full := b\<rparr>) = busy_ids m"
  "jobs_wf (m\<lparr>am_verify_full := b\<rparr>) = jobs_wf m"
  by (simp_all add: queued_ids_def busy_ids_def jobs_wf_def)

lemma job_step_inv:
  assumes inv: "jobs_inv (m, w)" and step: "job_step name msg (m, w) s'"
  shows "jobs_inv s'"
  using step
proof (cases rule: job_step.cases)
  case (asked t d s i n total_bytes s1 s2 s3 s4 s5 s6 m' cmds)
  then show ?thesis using start_export_inv [OF inv] cancel_inv [OF inv] progress_inv [OF inv] by auto
next
  case (finished i outcome m' cmds)
  then show ?thesis using finished_inv [OF inv, of i outcome] by auto
next
  case (check_starts m' cmds)
  then show ?thesis using inv occupied_iff [of m] by (auto simp: jobs_inv_def)
next
  case (check_ends m' cmds)
  then have "jobs_wf (m\<lparr>am_verify_full := False\<rparr>)" "busy_ids (m\<lparr>am_verify_full := False\<rparr>) = {}" "w = {}"
    using inv by (auto simp: jobs_inv_def)
  from promoted_inv [OF this(1,2)] check_ends this(3) show ?thesis by auto
qed

lemma jobs_reachable_inv: "jobs_reachable name s \<Longrightarrow> jobs_inv s"
proof -
  assume "jobs_reachable name s"
  then have "(\<lambda>s s'. \<exists>msg. job_step name msg s s')\<^sup>*\<^sup>* (app_model_init, {}) s" by (simp add: jobs_reachable_def)
  then show ?thesis
  proof (induction rule: rtranclp_induct)
    case base
    then show ?case by (simp add: jobs_inv_def jobs_wf_def app_model_init_def queued_ids_def busy_ids_def)
  next
    case (step s t)
    then show ?case by (cases s) (auto intro: job_step_inv)
  qed
qed


lemma promote_total: "jobs_wf m \<Longrightarrow> \<exists>x. promote_next_queued (m\<lparr>am_recent := rs, am_jobs := AList.delete i (am_jobs m)\<rparr>) = Inr x"
proof -
  assume wf: "jobs_wf m"
  let ?m = "m\<lparr>am_recent := rs, am_jobs := AList.delete i (am_jobs m)\<rparr>"
  have sorted: "sorted_wrt (<) (map fst (am_jobs ?m))" using wf by (simp add: keys_delete jobs_wf_def sorted_filter_wrt del: map_map)
  show ?thesis
  proof (cases "find (\<lambda>p. jb_status (snd p) = JobQueued) (am_jobs ?m)")
    case None
    then show ?thesis by (simp add: promote_next_queued_def)
  next
    case (Some p)
    obtain k j where p: "p = (k, j)" by fastforce
    note found = find_queued_Some [OF sorted Some [unfolded p]]
    have "k \<in> queued_ids m" using found by (auto simp: queued_ids_def delete_conv' split: if_splits)
    then have "k \<in> fst ` set (am_queued m)" using wf by (auto simp: jobs_wf_def)
    then obtain q where "map_of (am_queued m) k = Some q" using map_of_eq_None_iff [of "am_queued m" k] by auto
    then show ?thesis using Some p by (simp add: promote_next_queued_def)
  qed
qed

lemma app_update_total:
  assumes wf: "jobs_wf m"
  shows "\<exists>x. app_update name m msg = Inr x"
proof (cases msg)
  case (ExportFinished i outcome)
  show ?thesis
  proof (cases "map_of (am_jobs m) i")
    case None
    then show ?thesis using ExportFinished by (simp add: on_export_finished_def)
  next
    case (Some j)
    define rs where "rs = cap_recent (am_recent m @ [\<lparr>fj_id = i, fj_label = jb_label j, fj_outcome = outcome\<rparr>])"
    have eq: "(record_finished i (jb_label j) outcome m)\<lparr>am_jobs := AList.delete i (am_jobs m)\<rparr> =
        m\<lparr>am_recent := rs, am_jobs := AList.delete i (am_jobs m)\<rparr>"
      by (simp add: record_finished_def rs_def)
    obtain x where "promote_next_queued (m\<lparr>am_recent := rs, am_jobs := AList.delete i (am_jobs m)\<rparr>) = Inr x"
      using promote_total [OF wf] by blast
    then show ?thesis using ExportFinished Some by (cases x) (simp add: on_export_finished_def eq)
  qed
next
  case VerifyFullFinished
  have "jobs_wf (m\<lparr>am_verify_full := False\<rparr>)" using wf by simp
  from promote_spec [OF this] show ?thesis
    using VerifyFullFinished by (cases "queued_ids m = {}") (auto simp: Let_def)
qed simp_all

subsection \<open>Who runs, who waits\<close>

text \<open>C9.
  The job registry runs one thing at a time and never gets stuck. In every reachable state: the
  export workers that run are exactly the jobs shown as running or cancelling, and there is at
  most one; none while a full check runs; each job that waits has its request kept, no other
  request is; a job waits only while an export or a full check runs; at most 20 finished jobs
  are remembered; and \<open>update\<close> raises on no message at all.
\<close>

theorem export_slot_exclusive:
  assumes "jobs_reachable name (m, w)"
  shows "w = busy_ids m \<and> (\<forall>i \<in> w. \<forall>k \<in> w. i = k) \<and> (am_verify_full m \<longrightarrow> w = {}) \<and>
    set (map fst (am_queued m)) = queued_ids m \<and> (queued_ids m \<noteq> {} \<longrightarrow> w \<noteq> {} \<or> am_verify_full m) \<and>
    length (am_recent m) \<le> MAX_RECENT \<and> (\<forall>msg. \<exists>x. app_update name m msg = Inr x)"
proof -
  have "jobs_inv (m, w)" using assms by (rule jobs_reachable_inv)
  then show ?thesis using app_update_total [of m name] by (auto simp: jobs_inv_def jobs_wf_def simp del: set_map)
qed


text \<open>\<open>queue_rank m i\<close>: how many waiting jobs are before job \<open>i\<close>.\<close>

definition queue_rank :: "'t app_model \<Rightarrow> nat \<Rightarrow> nat" where
  "queue_rank m i = card {k \<in> queued_ids m. k < i}"

text \<open>The messages that report the end of an export or of the full check.\<close>

fun ends_work :: "'t app_msg \<Rightarrow> bool" where
  "ends_work (ExportFinished _ _) = True"
| "ends_work VerifyFullFinished = True"
| "ends_work _ = False"

lemma finite_queued: "jobs_wf m \<Longrightarrow> finite (queued_ids m)"
  unfolding jobs_wf_def by (metis finite_set)

lemma queue_rank_mono: "finite (queued_ids m) \<Longrightarrow> queued_ids m' \<inter> {..<i} \<subseteq> queued_ids m \<Longrightarrow> queue_rank m' i \<le> queue_rank m i"
  unfolding queue_rank_def by (rule card_mono) auto

lemma queue_rank_less: "finite (queued_ids m) \<Longrightarrow> k \<in> queued_ids m \<Longrightarrow> k < i \<Longrightarrow> queued_ids m' = queued_ids m - {k} \<Longrightarrow>
    queue_rank m' i < queue_rank m i"
  unfolding queue_rank_def by (rule psubset_card_mono) auto

text \<open>The queue moves on by one job: the first one starts, the others come closer.\<close>

lemma promote_moves_on:
  assumes wf: "jobs_wf m" and i: "i \<in> queued_ids m" and run: "promote_next_queued m = Inr (m', cmds)"
  shows "i \<in> started cmds \<or> i \<in> queued_ids m' \<and> queue_rank m' i < queue_rank m i"
proof -
  let ?k = "Min (queued_ids m)"
  have ne: "queued_ids m \<noteq> {}" using i by blast
  from promote_spec(2) [OF wf ne] obtain m1 q and j :: job where p: "promote_next_queued m = Inr (m1, [run_cmd ?k (jb_group j) q])"
    "queued_ids m1 = queued_ids m - {?k}"
    unfolding Let_def by blast
  have fin: "finite (queued_ids m)" using wf by (rule finite_queued)
  show ?thesis
  proof (cases "i = ?k")
    case True
    then show ?thesis using p run by simp
  next
    case False
    then have "?k < i" using i fin by (simp add: order_less_le)
    then show ?thesis using p run i queue_rank_less [OF fin _ _ p(2), of i] Min_in [OF fin ne] False by simp
  qed
qed

lemma asked_jobs:
  assumes "msg = StartExport t d s \<or> msg = CancelJobRequested k \<or> msg = ExportProgressed k n total_bytes s1 s2 s3 s4 s5 s6"
    and "app_update name m msg = Inr (m', cmds)"
  shows "map_of (am_jobs m') = map_of (am_jobs m) \<or>
    (\<exists>j. map_of (am_jobs m') = (map_of (am_jobs m))(am_next_job_id m \<mapsto> j)) \<or>
    (\<exists>i j0 j. map_of (am_jobs m') = (map_of (am_jobs m))(i \<mapsto> j) \<and> map_of (am_jobs m) i = Some j0 \<and>
      (jb_status j = JobQueued \<longleftrightarrow> jb_status j0 = JobQueued)) \<or>
    msg = CancelJobRequested k \<and> map_of (am_jobs m') = (map_of (am_jobs m))(k := None)"
  using assms(1)
proof (elim disjE)
  assume "msg = StartExport t d s"
  then show ?thesis using assms(2) by (auto simp: on_start_export_def Let_def update_conv' split: if_splits)
next
  assume "msg = CancelJobRequested k"
  then show ?thesis using assms(2)
    by (fastforce simp: on_cancel_job_requested_def record_finished_def update_conv' delete_conv' split: if_splits option.splits)
next
  assume "msg = ExportProgressed k n total_bytes s1 s2 s3 s4 s5 s6"
  then show ?thesis using assms(2) by (fastforce simp: on_export_progressed_def update_conv' split: option.splits)
qed

lemma app_update_moves_on:
  assumes inv: "jobs_inv (m, w)" and i: "i \<in> queued_ids m" and step: "job_step name msg (m, w) (m', w')"
  shows "msg = CancelJobRequested i \<or> i \<in> w' \<or>
    i \<in> queued_ids m' \<and> queue_rank m' i \<le> queue_rank m i \<and> (ends_work msg \<longrightarrow> queue_rank m' i < queue_rank m i)"
  using step
proof (cases rule: job_step.cases)
  case (asked t d s k n total_bytes s1 s2 s3 s4 s5 s6 cmds)
  have wf: "jobs_wf m" using inv by (simp add: jobs_inv_def)
  have quiet: "\<not> ends_work msg" using asked by auto
  have run: "app_update name m msg = Inr (m', cmds)" using asked by simp
  have "i < am_next_job_id m" using wf i by (auto simp: jobs_wf_def queued_ids_def dest!: map_of_SomeD)
  then have "msg = CancelJobRequested i \<or> i \<in> queued_ids m' \<and> queued_ids m' \<inter> {..<i} \<subseteq> queued_ids m"
    using asked_jobs [OF asked(2) run] i by (elim disjE exE conjE) (auto simp: queued_ids_def split: if_splits)
  then show ?thesis using quiet queue_rank_mono [OF finite_queued [OF wf]] by blast
next
  case (finished k outcome cmds)
  have wf: "jobs_wf m" and w: "w = busy_ids m" using inv by (simp_all add: jobs_inv_def)
  then obtain j where j: "map_of (am_jobs m) k = Some j" "occupies (jb_status j)" using finished by (auto simp: busy_ids_def)
  let ?m = "(record_finished k (jb_label j) outcome m)\<lparr>am_jobs := AList.delete k (am_jobs m)\<rparr>"
  note rem = removed_job [OF wf j, of "jb_label j" outcome]
  obtain cs where p: "promote_next_queued ?m = Inr (m', cs)" "cmds = notify_outcome outcome # cs"
    using finished j by (auto simp: on_export_finished_def bind_res_def split: sum.splits)
  have "i \<in> started cs \<or> i \<in> queued_ids m' \<and> queue_rank m' i < queue_rank ?m i"
    using promote_moves_on [OF rem(1) _ p(1)] i by (simp only: rem(3))
  moreover have "queue_rank ?m i = queue_rank m i" by (simp only: queue_rank_def rem(3))
  ultimately show ?thesis using finished p(2) by auto
next
  case (check_starts cmds)
  then show ?thesis using inv i by (auto simp: queue_rank_def)
next
  case (check_ends cmds)
  then show ?thesis using inv i promote_moves_on [of "m\<lparr>am_verify_full := False\<rparr>" i m' cmds]
    by (auto simp: jobs_inv_def queue_rank_def)
qed


text \<open>Along a run: with more ends than jobs before it, a waiting job that is not cancelled has started.\<close>

lemma run_starts:
  assumes "job_run name s tr" and "jobs_inv s" and "i \<in> queued_ids (fst s)" and "CancelJobRequested i \<notin> fst ` set tr"
    and "queue_rank (fst s) i < length (filter (\<lambda>x. ends_work (fst x)) tr)"
  shows "\<exists>(msg, m, w) \<in> set tr. i \<in> w"
  using assms
proof (induction rule: job_run.induct)
  case (run_goes_on msg s s' later)
  obtain m w where s: "s = (m, w)" by (cases s)
  obtain m' w' where s': "s' = (m', w')" by (cases s')
  have moved: "i \<in> w' \<or> i \<in> queued_ids m' \<and> queue_rank m' i \<le> queue_rank m i \<and> (ends_work msg \<longrightarrow> queue_rank m' i < queue_rank m i)"
    using app_update_moves_on [of m w i name msg m' w'] run_goes_on.hyps(1) run_goes_on.prems s s' by auto
  show ?case
  proof (cases "i \<in> w'")
    case False
    then have "\<exists>(msg, m, w) \<in> set later. i \<in> w"
      using moved run_goes_on.prems job_step_inv [of m w name msg s'] run_goes_on.hyps(1) s s'
      by (intro run_goes_on.IH) (auto split: if_splits)
    then show ?thesis by auto
  qed (simp add: s')
qed simp

text \<open>C10.
  An export that waits gets its turn, in the order of the requests. In every reachable state some
  export or a full check is under way while one waits. In every step a waiting export starts, or
  is the one the user cancels in this very step, or still waits, with no more waiting exports
  before it than there were, and with fewer of them when the step is the end of an export or of
  the full check. So in every run with more such ends than there are exports waiting before it,
  the export starts, unless it is cancelled.
\<close>

theorem export_queue_advances:
  assumes "jobs_reachable name (m, w)" and "i \<in> queued_ids m"
  shows "(w \<noteq> {} \<or> am_verify_full m) \<and>
    (\<forall>msg m' w'. job_step name msg (m, w) (m', w') \<longrightarrow>
      msg = CancelJobRequested i \<or> i \<in> w' \<or>
      i \<in> queued_ids m' \<and> queue_rank m' i \<le> queue_rank m i \<and> (ends_work msg \<longrightarrow> queue_rank m' i < queue_rank m i)) \<and>
    (\<forall>tr. job_run name (m, w) tr \<and> CancelJobRequested i \<notin> fst ` set tr \<and>
        queue_rank m i < length (filter (\<lambda>x. ends_work (fst x)) tr) \<longrightarrow>
      (\<exists>(msg, m', w') \<in> set tr. i \<in> w'))"
proof -
  have inv: "jobs_inv (m, w)" using assms(1) by (rule jobs_reachable_inv)
  then have "w \<noteq> {} \<or> am_verify_full m" using assms(2) by (auto simp: jobs_inv_def)
  then show ?thesis using app_update_moves_on [OF inv assms(2)] run_starts [of name "(m, w)" _ i] inv assms(2) by simp
qed

subsection \<open>A run\<close>

text \<open>Two exports are requested; the first runs, the second waits and starts when the first ends.\<close>

definition sample_jobs :: "string app_model" where
  "sample_jobs = fst (on_start_export (\<lambda>t. t) ''b'' ''/out/b'' True (fst (on_start_export (\<lambda>t. t) ''a'' ''/out/a'' True app_model_init)))"

lemma dec_str_12: "dec_str (Suc 0) = ''1''" "dec_str (Suc (Suc 0)) = ''2''" "dec_str 2 = ''2''"
  by code_simp+

lemma sample_jobs_simps:
  "am_jobs sample_jobs = [(1, new_job 1 ''export a'' ''job-1'' JobRunning), (2, new_job 2 ''export b'' ''job-2'' JobQueued)]"
  "am_queued sample_jobs = [(2, \<lparr>qe_target = ''b'', qe_dst = ''/out/b'', qe_sparse = True\<rparr>)]"
  "am_verify_full sample_jobs = False" "am_next_job_id sample_jobs = 3" "am_recent sample_jobs = []"
  by (simp_all add: sample_jobs_def on_start_export_def app_model_init_def jobs_occupy_slot_def occupies_def new_job_def dec_str_12 Let_def)

lemma sample_jobs_reachable: "jobs_reachable (\<lambda>t. t) (sample_jobs, {1})"
proof -
  let ?m = "fst (on_start_export (\<lambda>t. t) ''a'' ''/out/a'' True app_model_init)"
  have "job_step (\<lambda>t. t) (StartExport ''a'' ''/out/a'' True) (app_model_init, {}) (?m, {} \<union> started (snd (on_start_export (\<lambda>t. t) ''a'' ''/out/a'' True app_model_init)))"
    by (rule job_step.asked) simp_all
  moreover have "started (snd (on_start_export (\<lambda>t. t) ''a'' ''/out/a'' True app_model_init)) = {1}"
    by (simp add: on_start_export_def app_model_init_def jobs_occupy_slot_def Let_def)
  ultimately have one: "job_step (\<lambda>t. t) (StartExport ''a'' ''/out/a'' True) (app_model_init, {}) (?m, {1})" by simp
  have "job_step (\<lambda>t. t) (StartExport ''b'' ''/out/b'' True) (?m, {1}) (sample_jobs, {1} \<union> started (snd (on_start_export (\<lambda>t. t) ''b'' ''/out/b'' True ?m)))"
    by (rule job_step.asked) (simp_all add: sample_jobs_def)
  moreover have "started (snd (on_start_export (\<lambda>t. t) ''b'' ''/out/b'' True ?m)) = {}"
    by (simp add: on_start_export_def app_model_init_def jobs_occupy_slot_def occupies_def new_job_def Let_def)
  ultimately have "job_step (\<lambda>t. t) (StartExport ''b'' ''/out/b'' True) (?m, {1}) (sample_jobs, {1})" by simp
  with one show ?thesis unfolding jobs_reachable_def
    by (intro rtranclp.rtrancl_into_rtrancl [OF rtranclp.rtrancl_into_rtrancl [OF rtranclp.rtrancl_refl]] exI)
qed

lemma sample_queued: "queued_ids sample_jobs = {2}" "busy_ids sample_jobs = {1}"
  by (auto simp: queued_ids_def busy_ids_def sample_jobs_simps new_job_def occupies_def split: if_splits)

theorem export_slot_exclusive_witness:
  "{1} = busy_ids sample_jobs \<and> (\<exists>x. app_update (\<lambda>t. t) sample_jobs (ExportFinished 1 (cancelled_outcome ''export a'')) = Inr x)"
  using export_slot_exclusive [OF sample_jobs_reachable] by blast

theorem export_queue_advances_witness:
  "\<exists>m'. job_run (\<lambda>t. t) (sample_jobs, {1}) [(ExportFinished 1 (cancelled_outcome ''export a''), m', {2})] \<and>
    (\<exists>(msg, m', w') \<in> set [(ExportFinished 1 (cancelled_outcome ''export a'') :: string app_msg, m', {2 :: nat})]. 2 \<in> w')"
proof -
  let ?o = "cancelled_outcome ''export a''"
  obtain m' where run: "app_update (\<lambda>t. t) sample_jobs (ExportFinished 1 ?o) =
      Inr (m', [notify_outcome ?o, run_cmd 2 ''job-2'' \<lparr>qe_target = ''b'', qe_dst = ''/out/b'', qe_sparse = True\<rparr>])"
    by (simp add: on_export_finished_def sample_jobs_simps record_finished_def promote_next_queued_def new_job_def)
  have "job_step (\<lambda>t. t) (ExportFinished 1 ?o) (sample_jobs, {1}) (m', {1} - {1} \<union> started
      [notify_outcome ?o, run_cmd 2 ''job-2'' \<lparr>qe_target = ''b'', qe_dst = ''/out/b'', qe_sparse = True\<rparr>])"
    by (rule job_step.finished [OF _ run]) simp
  then have one: "job_run (\<lambda>t. t) (sample_jobs, {1}) [(ExportFinished 1 ?o, m', {2})]" by (auto intro: job_run.intros)
  have "queue_rank sample_jobs 2 = 0" by (simp add: queue_rank_def sample_queued)
  moreover have "2 \<in> queued_ids sample_jobs" by (simp add: sample_queued)
  note export_queue_advances [OF sample_jobs_reachable this, THEN conjunct2, THEN conjunct2, rule_format, of "[(ExportFinished 1 ?o, m', {2})]"]
  ultimately have "\<exists>(msg, m', w') \<in> set [(ExportFinished 1 ?o :: string app_msg, m', {2 :: nat})]. 2 \<in> w'" using one by simp
  with one show ?thesis by blast
qed

end
