(* ===== verification/NodeRefs.thy ===== *)
theory NodeRefs
  imports Text "HOL-Library.Sublist"
begin

text \<open>
  \<open>NodeRef\<close> (\<open>sdk/units/node_ref.py\<close>): the printable address of a browsable node, its percent
  encoding and its parser. A text is its UTF-8 encoding, so a character of the source is one
  byte or a run of bytes from 0x80 on.
\<close>

subsection \<open>Percent encoding\<close>

definition upper_hex :: "nat \<Rightarrow> char" where
  "upper_hex n = ''0123456789ABCDEF'' ! n"

definition reserved_char :: "char \<Rightarrow> bool" where
  "reserved_char c \<longleftrightarrow> c \<in> {CHR ''#'', CHR ''/'', CHR 0x25} \<or> (of_char c :: nat) < 0x20 \<or> (of_char c :: nat) = 0x7F"

definition encode_char :: "char \<Rightarrow> string" where
  "encode_char c =
     (if reserved_char c then [CHR 0x25, upper_hex (of_char c div 16), upper_hex (of_char c mod 16)] else [c])"

definition encode_segment :: "string \<Rightarrow> string" where
  "encode_segment s = concat (map encode_char s)"

text \<open>\<open>urllib.parse.unquote\<close>: a percent sign without two hexadecimal digits stays.\<close>

definition hex_value :: "char \<Rightarrow> nat option" where
  "hex_value c =
     (let n = of_char c :: nat in
      if 48 \<le> n \<and> n \<le> 57 then Some (n - 48) else if 65 \<le> n \<and> n \<le> 70 then Some (n - 55)
      else if 97 \<le> n \<and> n \<le> 102 then Some (n - 87) else None)"

fun unquote_impl :: "string \<Rightarrow> string" where
  "unquote_impl (p # a # b # rest) =
     (if p = CHR 0x25 then
        (case (hex_value a, hex_value b) of
           (Some x, Some y) \<Rightarrow> char_of (16 * x + y) # unquote_impl rest
         | _ \<Rightarrow> p # unquote_impl (a # b # rest))
      else p # unquote_impl (a # b # rest))"
| "unquote_impl s = s"

text \<open>Strict UTF-8.\<close>

definition in_range :: "nat \<Rightarrow> nat \<Rightarrow> char \<Rightarrow> bool" where
  "in_range lo hi c \<longleftrightarrow> lo \<le> of_char c \<and> of_char c \<le> hi"

fun utf8_valid :: "string \<Rightarrow> bool" where
  "utf8_valid [] = True"
| "utf8_valid (c # s) =
     (if in_range 0 0x7F c then utf8_valid s
      else case s of
        [] \<Rightarrow> False
      | d # s1 \<Rightarrow>
          if in_range 0xC2 0xDF c \<and> in_range 0x80 0xBF d then utf8_valid s1
          else case s1 of
            [] \<Rightarrow> False
          | e # s2 \<Rightarrow>
              if (in_range 0xE0 0xE0 c \<and> in_range 0xA0 0xBF d \<or> in_range 0xED 0xED c \<and> in_range 0x80 0x9F d \<or>
                  (in_range 0xE1 0xEC c \<or> in_range 0xEE 0xEF c) \<and> in_range 0x80 0xBF d) \<and> in_range 0x80 0xBF e then utf8_valid s2
              else case s2 of
                [] \<Rightarrow> False
              | f # s3 \<Rightarrow>
                  (in_range 0xF0 0xF0 c \<and> in_range 0x90 0xBF d \<or> in_range 0xF4 0xF4 c \<and> in_range 0x80 0x8F d \<or>
                   in_range 0xF1 0xF3 c \<and> in_range 0x80 0xBF d) \<and> in_range 0x80 0xBF e \<and> in_range 0x80 0xBF f \<and> utf8_valid s3)"

definition ascii_char :: "char \<Rightarrow> bool" where
  "ascii_char c \<longleftrightarrow> (of_char c :: nat) < 0x80"

text \<open>Every maximal run of ASCII characters is decoded for itself.\<close>

function unquote_parts :: "string \<Rightarrow> string res" where
  "unquote_parts s =
     (if s = [] then Inr []
      else if ascii_char (hd s) then
        let run = unquote_impl (takeWhile ascii_char s) in
        if utf8_valid run then bind_res (unquote_parts (dropWhile ascii_char s)) (\<lambda>t. Inr (run @ t)) else Inl PyUnicodeDecodeError
      else bind_res (unquote_parts (dropWhile (\<lambda>c. \<not> ascii_char c) s)) (\<lambda>t. Inr (takeWhile (\<lambda>c. \<not> ascii_char c) s @ t)))"
  by auto
termination
proof (relation "measure length")
  fix s :: string
  have "length (dropWhile P s) < length s" if "s \<noteq> []" "P (hd s)" for P
    using that by (cases s) (simp_all add: length_dropWhile_le le_imp_less_Suc)
  then show "s \<noteq> [] \<Longrightarrow> ascii_char (hd s) \<Longrightarrow> x = unquote_impl (takeWhile ascii_char s) \<Longrightarrow> utf8_valid x \<Longrightarrow>
      (dropWhile ascii_char s, s) \<in> measure length"
    and "s \<noteq> [] \<Longrightarrow> \<not> ascii_char (hd s) \<Longrightarrow> (dropWhile (\<lambda>c. \<not> ascii_char c) s, s) \<in> measure length" for x
    by simp_all
qed simp

declare unquote_parts.simps [simp del]

definition unquote :: "string \<Rightarrow> string res" where
  "unquote s = (if CHR 0x25 \<in> set s then unquote_parts s else Inr s)"

definition decode_segment :: "string \<Rightarrow> string res" where
  "decode_segment s = (case unquote s of Inl e \<Rightarrow> Inl PyValueError | Inr t \<Rightarrow> Inr t)"

subsection \<open>References\<close>

datatype ref_kind = RefCanonical | RefRaw | RefHuman

record node_ref =
  nr_repo_path :: string
  nr_segments :: "string list"
  nr_kind :: ref_kind

definition starts_with :: "string \<Rightarrow> string \<Rightarrow> bool" where
  "starts_with p s \<longleftrightarrow> take (length p) s = p"

definition ref_to_str :: "node_ref \<Rightarrow> string" where
  "ref_to_str r =
     (let encoded = str_join (CHR ''/'') (map encode_segment (nr_segments r));
          encoded = (if nr_kind r \<noteq> RefHuman then CHR ''@'' # encoded
                     else if starts_with ''@'' encoded then [CHR 0x25] @ ''40'' @ drop 1 encoded else encoded)
      in nr_repo_path r @ CHR ''#'' # encoded)"

text \<open>\<open>text.split(c, 1)\<close>, for a text that holds \<open>c\<close>.\<close>

definition split_first :: "char \<Rightarrow> string \<Rightarrow> string \<times> string" where
  "split_first c s = (takeWhile (\<lambda>d. d \<noteq> c) s, drop 1 (dropWhile (\<lambda>d. d \<noteq> c) s))"

definition ref_parse :: "string \<Rightarrow> node_ref res" where
  "ref_parse s =
     (if CHR ''#'' \<notin> set s then Inl PyValueError
      else
        let (repo_path, fragment) = split_first (CHR ''#'') s in
        bind_res
          (if starts_with ''@'' fragment then
             let fragment = drop 1 fragment;
                 head = hd (str_split (CHR ''/'') fragment)
             in if head = ''raw'' then Inr (RefRaw, fragment)
                else if starts_with ''cat:'' head then Inr (RefCanonical, fragment)
                else Inl PyValueError
           else Inr (RefHuman, fragment)) (\<lambda>(kind, fragment).
        bind_res (if fragment = [] then Inr [] else map_res decode_segment (str_split (CHR ''/'') fragment)) (\<lambda>segments.
          Inr \<lparr>nr_repo_path = repo_path, nr_segments = segments, nr_kind = kind\<rparr>)))"

definition extra_segments :: "node_ref \<Rightarrow> string list" where
  "extra_segments r =
     (case nr_kind r of RefCanonical \<Rightarrow> drop 3 (nr_segments r) | RefRaw \<Rightarrow> drop 1 (nr_segments r) | RefHuman \<Rightarrow> nr_segments r)"

definition ref_canonical :: "string \<Rightarrow> string \<Rightarrow> nat \<Rightarrow> string \<Rightarrow> string list \<Rightarrow> node_ref" where
  "ref_canonical repo_path catalog_id workload_id version_uid extra =
     \<lparr>nr_repo_path = repo_path, nr_segments = [''cat:'' @ catalog_id, ''wl:'' @ dec_str workload_id, ''ver:'' @ version_uid] @ extra,
      nr_kind = RefCanonical\<rparr>"

definition ref_raw :: "string \<Rightarrow> string \<Rightarrow> node_ref" where
  "ref_raw repo_path file_map_path =
     \<lparr>nr_repo_path = repo_path, nr_segments = ''raw'' # str_split (CHR ''/'') file_map_path, nr_kind = RefRaw\<rparr>"

definition ref_human :: "string \<Rightarrow> string list \<Rightarrow> node_ref" where
  "ref_human repo_path names = \<lparr>nr_repo_path = repo_path, nr_segments = names, nr_kind = RefHuman\<rparr>"

definition ref_child :: "node_ref \<Rightarrow> string list \<Rightarrow> node_ref" where
  "ref_child r extra = r\<lparr>nr_segments := nr_segments r @ extra\<rparr>"

subsection \<open>Decoding undoes encoding\<close>

lemma reserved_ascii: "reserved_char c \<Longrightarrow> (of_char c :: nat) < 0x80"
  by (auto simp: reserved_char_def)

lemma upper_hex_values: "list_all (\<lambda>n. hex_value (upper_hex n) = Some n \<and> ascii_char (upper_hex n)) [0..<16]"
  by code_simp

lemma hex_value_upper: "n < 16 \<Longrightarrow> hex_value (upper_hex n) = Some n"
  and ascii_upper_hex: "n < 16 \<Longrightarrow> ascii_char (upper_hex n)"
  using upper_hex_values by (auto simp: list_all_iff)

lemma unquote_impl_plain: "c \<noteq> CHR 0x25 \<Longrightarrow> unquote_impl (c # s) = c # unquote_impl s"
  by (cases s rule: list.exhaust; cases "tl s") auto

lemma unquote_impl_encoded: "unquote_impl (encode_char c @ s) = c # unquote_impl s"
proof (cases "reserved_char c")
  case True
  have d: "(of_char c :: nat) div 16 < 16" using reserved_ascii [OF True] by simp
  have "char_of (16 * (of_char c div 16) + of_char c mod 16 :: nat) = c"
    by (metis char_of_char mult_div_mod_eq)
  then show ?thesis using True d by (simp add: encode_char_def hex_value_upper)
next
  case False
  then show ?thesis by (simp add: encode_char_def unquote_impl_plain reserved_char_def)
qed

lemma unquote_impl_encode_segment: "unquote_impl (encode_segment s) = s"
  by (induction s) (simp_all add: encode_segment_def unquote_impl_encoded)

lemma encode_char_ascii: "d \<in> set (encode_char c) \<Longrightarrow> ascii_char d \<longleftrightarrow> ascii_char c"
proof (cases "reserved_char c")
  case True
  assume d: "d \<in> set (encode_char c)"
  have "(of_char c :: nat) div 16 < 16" using reserved_ascii [OF True] by simp
  moreover have "ascii_char (CHR 0x25)" by (simp add: ascii_char_def)
  ultimately have "ascii_char d" using d True by (auto simp: encode_char_def ascii_upper_hex)
  then show ?thesis using reserved_ascii [OF True] by (simp add: ascii_char_def)
qed (simp add: encode_char_def)

lemma utf8_valid_ascii: "list_all ascii_char s \<Longrightarrow> utf8_valid s"
  by (induction s) (simp_all add: in_range_def ascii_char_def)

lemma encode_segment_append: "encode_segment (s @ t) = encode_segment s @ encode_segment t"
  by (simp add: encode_segment_def)

lemma encode_segment_Nil [simp]: "encode_segment [] = []"
  by (simp add: encode_segment_def)

lemma encode_char_ne [simp]: "encode_char c \<noteq> []"
  by (simp add: encode_char_def)

lemma encode_segment_empty [simp]: "encode_segment s = [] \<longleftrightarrow> s = []"
  by (cases s) (simp_all add: encode_segment_def)

text \<open>A run of characters of one kind stays one run.\<close>

lemma encoded_run:
  assumes "\<forall>c \<in> set s. ascii_char c = b" and "t = [] \<or> ascii_char (hd t) \<noteq> b"
  shows "takeWhile (\<lambda>c. ascii_char c = b) (encode_segment s @ encode_segment t) = encode_segment s"
    and "dropWhile (\<lambda>c. ascii_char c = b) (encode_segment s @ encode_segment t) = encode_segment t"
proof -
  have all: "\<forall>d \<in> set (encode_segment s). ascii_char d = b" using assms(1) by (auto simp: encode_segment_def encode_char_ascii)
  have "takeWhile (\<lambda>c. ascii_char c = b) (encode_segment t) = [] \<and> dropWhile (\<lambda>c. ascii_char c = b) (encode_segment t) = encode_segment t"
  proof (cases t)
    case (Cons c u)
    have "hd (encode_segment t) \<in> set (encode_char c)" by (simp add: Cons encode_segment_def hd_append)
    then have "ascii_char (hd (encode_segment t)) \<noteq> b" using assms(2) Cons encode_char_ascii by auto
    then show ?thesis using Cons by (cases "encode_segment t") auto
  qed simp
  then show "takeWhile (\<lambda>c. ascii_char c = b) (encode_segment s @ encode_segment t) = encode_segment s"
    "dropWhile (\<lambda>c. ascii_char c = b) (encode_segment s @ encode_segment t) = encode_segment t"
    using all by (simp_all add: takeWhile_append2 dropWhile_append2)
qed

lemma encode_segment_plain: "\<forall>c \<in> set s. \<not> ascii_char c \<Longrightarrow> encode_segment s = s"
proof (induction s)
  case (Cons c s)
  have "\<not> reserved_char c" using Cons.prems reserved_ascii [of c] by (auto simp: ascii_char_def)
  then show ?case using Cons by (simp add: encode_segment_def encode_char_def)
qed simp

lemma unquote_parts_encode: "unquote_parts (encode_segment s) = Inr s"
proof (induction s rule: length_induct)
  case (1 s)
  show ?case
  proof (cases s)
    case Nil
    then show ?thesis by (simp add: unquote_parts.simps)
  next
    case (Cons c u)
    define b where "b = ascii_char c"
    define r where "r = takeWhile (\<lambda>d. ascii_char d = b) s"
    define t where "t = dropWhile (\<lambda>d. ascii_char d = b) s"
    have split: "s = r @ t" by (simp add: r_def t_def)
    have run: "\<forall>d \<in> set r. ascii_char d = b" by (auto simp: r_def dest: set_takeWhileD)
    have follows: "t = [] \<or> ascii_char (hd t) \<noteq> b" using hd_dropWhile [of "\<lambda>d. ascii_char d = b" s] unfolding t_def by blast
    have r_ne: "r \<noteq> []" by (simp add: r_def Cons b_def)
    then have "length t < length s" using split by simp
    with 1 have ih: "unquote_parts (encode_segment t) = Inr t" by blast
    note runs = encoded_run [OF run follows]
    have enc: "encode_segment s = encode_segment r @ encode_segment t" by (simp add: split encode_segment_append)
    have "hd (encode_segment s) \<in> set (encode_char c)" by (simp add: Cons encode_segment_def hd_append)
    then have head: "ascii_char (hd (encode_segment s)) = b" by (simp add: encode_char_ascii b_def)
    have ne: "encode_segment s \<noteq> []" by (simp add: Cons)
    show ?thesis
    proof (cases b)
      case True
      have "list_all ascii_char r" using run True by (simp add: list_all_iff)
      then show ?thesis
        using runs True head ih ne unfolding enc
        by (subst unquote_parts.simps) (simp add: unquote_impl_encode_segment utf8_valid_ascii split Let_def)
    next
      case False
      have "encode_segment r = r" using run False by (intro encode_segment_plain) simp
      then show ?thesis
        using runs False head ih ne unfolding enc by (subst unquote_parts.simps) (simp add: split)
    qed
  qed
qed

lemma no_percent_plain: "CHR 0x25 \<notin> set (encode_segment s) \<Longrightarrow> encode_segment s = s"
proof (induction s)
  case (Cons c s)
  have "\<not> reserved_char c" using Cons.prems by (auto simp: encode_segment_def encode_char_def split: if_splits)
  then show ?case using Cons by (auto simp: encode_segment_def encode_char_def)
qed simp

lemma decode_encode [simp]: "decode_segment (encode_segment s) = Inr s"
  by (simp add: decode_segment_def unquote_def unquote_parts_encode no_percent_plain)


subsection \<open>Parsing undoes printing\<close>

lemma upper_hex_plain: "n < 16 \<Longrightarrow> \<not> reserved_char (upper_hex n)"
proof -
  have "list_all (\<lambda>n. \<not> reserved_char (upper_hex n)) [0..<16]" by code_simp
  then show "n < 16 \<Longrightarrow> ?thesis" by (simp add: list_all_iff)
qed

lemma encode_char_chars: "d \<in> set (encode_char c) \<Longrightarrow> d = CHR 0x25 \<or> \<not> reserved_char d"
proof (cases "reserved_char c")
  case True
  assume "d \<in> set (encode_char c)"
  moreover have "(of_char c :: nat) div 16 < 16" using reserved_ascii [OF True] by simp
  ultimately show ?thesis using True by (auto simp: encode_char_def upper_hex_plain)
qed (simp add: encode_char_def)

lemma not_in_encoded: "CHR ''/'' \<notin> set (encode_segment s)" "CHR ''#'' \<notin> set (encode_segment s)"
  by (auto simp: encode_segment_def reserved_char_def dest!: encode_char_chars)

lemma hash_in_join: "CHR ''#'' \<notin> set (str_join (CHR ''/'') (map encode_segment segs))"
  by (induction segs rule: induct_list012) (auto simp: not_in_encoded)

lemma split_first_join: "CHR ''#'' \<notin> set p \<Longrightarrow> split_first (CHR ''#'') (p @ CHR ''#'' # f) = (p, f)"
  by (induction p) (auto simp: split_first_def)

lemma decode_joined:
  assumes "segs \<noteq> []"
  shows "map_res decode_segment (str_split (CHR ''/'') (str_join (CHR ''/'') (map encode_segment segs))) = Inr segs"
proof -
  have "str_split (CHR ''/'') (str_join (CHR ''/'') (map encode_segment segs)) = map encode_segment segs"
    using assms by (intro str_split_join) (auto simp: not_in_encoded)
  moreover have "map_res decode_segment (map encode_segment xs) = Inr xs" for xs
    by (induction xs) simp_all
  ultimately show ?thesis by simp
qed

lemma split_encoded_head: "segs \<noteq> [] \<Longrightarrow> hd (str_split (CHR ''/'') (str_join (CHR ''/'') (map encode_segment segs))) = encode_segment (hd segs)"
  by (subst str_split_join) (auto simp: not_in_encoded list.map_sel)

lemma join_empty: "str_join (CHR ''/'') (map encode_segment segs) = [] \<longleftrightarrow> segs = [] \<or> segs = [[]]"
proof (cases segs)
  case (Cons s rest)
  then show ?thesis by (cases rest) simp_all
qed simp

text \<open>
  The references the constructors make: the path before the first number sign, no lone empty
  segment, and the machine-made shapes start as such.
\<close>

definition ref_wf :: "node_ref \<Rightarrow> bool" where
  "ref_wf r \<longleftrightarrow> CHR ''#'' \<notin> set (nr_repo_path r) \<and> nr_segments r \<noteq> [[]] \<and>
     (case nr_kind r of
        RefCanonical \<Rightarrow> nr_segments r \<noteq> [] \<and> starts_with ''cat:'' (hd (nr_segments r))
      | RefRaw \<Rightarrow> nr_segments r \<noteq> [] \<and> hd (nr_segments r) = ''raw''
      | RefHuman \<Rightarrow> True)"

lemma encode_plain: "list_all (\<lambda>c. \<not> reserved_char c) s \<Longrightarrow> encode_segment (s @ t) = s @ encode_segment t"
  by (induction s) (auto simp: encode_segment_def encode_char_def)

lemma encoded_cat: "starts_with ''cat:'' s \<Longrightarrow> \<exists>t. encode_segment s = ''cat:'' @ t"
proof -
  assume "starts_with ''cat:'' s"
  then have "s = ''cat:'' @ drop 4 s"
    using append_take_drop_id [of "length ''cat:''" s, symmetric] unfolding starts_with_def by (simp add: numeral_eq_Suc)
  moreover have "encode_segment (''cat:'' @ drop 4 s) = ''cat:'' @ encode_segment (drop 4 s)"
    by (rule encode_plain) (simp add: reserved_char_def)
  ultimately show ?thesis by metis
qed

lemma encoded_raw: "encode_segment ''raw'' = ''raw''"
  using encode_plain [of "''raw''" "[]"] by (simp add: reserved_char_def)

lemma decode_joined_if:
  assumes "segs \<noteq> [[]]"
  shows "(if str_join (CHR ''/'') (map encode_segment segs) = [] then Inr []
    else map_res decode_segment (str_split (CHR ''/'') (str_join (CHR ''/'') (map encode_segment segs)))) = Inr segs"
  using assms decode_joined [of segs] by (simp add: join_empty)

text \<open>An escaped at sign decodes to the at sign.\<close>

lemma unquote_escaped_at: "unquote_parts (CHR 0x25 # CHR ''4'' # CHR ''0'' # encode_segment u) = Inr (CHR ''@'' # u)"
proof -
  define r where "r = takeWhile ascii_char u"
  define t where "t = dropWhile ascii_char u"
  have split: "u = r @ t" by (simp add: r_def t_def)
  have run: "\<forall>d \<in> set r. ascii_char d = True" by (auto simp: r_def dest: set_takeWhileD)
  have follows: "t = [] \<or> ascii_char (hd t) \<noteq> True" using hd_dropWhile [of ascii_char u] unfolding t_def by blast
  note runs = encoded_run [OF run follows, simplified]
  have "list_all ascii_char (CHR ''@'' # r)" using run by (simp add: list_all_iff ascii_char_def)
  then have valid: "utf8_valid (CHR ''@'' # r)" by (rule utf8_valid_ascii)
  have "char_of (64::nat) = CHR ''@''" by code_simp
  then have escape: "unquote_impl (CHR 0x25 # CHR ''4'' # CHR ''0'' # encode_segment r) = CHR ''@'' # r"
    by (simp add: hex_value_def unquote_impl_encode_segment)
  have ascii: "ascii_char (CHR 0x25)" "ascii_char (CHR ''4'')" "ascii_char (CHR ''0'')" by (simp_all add: ascii_char_def)
  have enc: "encode_segment u = encode_segment r @ encode_segment t" by (simp add: split encode_segment_append)
  show ?thesis
    by (subst unquote_parts.simps)
      (simp add: enc ascii runs escape valid unquote_parts_encode split [symmetric] Let_def del: unquote_impl.simps utf8_valid.simps)
qed

lemma escaped_at:
  assumes at: "starts_with ''@'' s"
  shows "decode_segment (CHR 0x25 # CHR ''4'' # CHR ''0'' # drop 1 (encode_segment s)) = Inr s"
proof -
  obtain u where s: "s = CHR ''@'' # u" using at by (cases s) (auto simp: starts_with_def)
  have "drop 1 (encode_segment s) = encode_segment u"
    by (simp add: s encode_segment_def encode_char_def reserved_char_def)
  then show ?thesis by (simp add: s decode_segment_def unquote_def unquote_escaped_at)
qed

lemma join_Cons: "str_join c (x # xs) = x @ (if xs = [] then [] else c # str_join c xs)"
  by (cases xs) simp_all

lemma encoded_at: "starts_with ''@'' (str_join (CHR ''/'') (map encode_segment segs)) \<longleftrightarrow> segs \<noteq> [] \<and> starts_with ''@'' (hd segs)"
proof (cases segs)
  case (Cons h rest)
  show ?thesis
  proof (cases h)
    case (Cons c u)
    have first: "starts_with ''@'' (encode_char c @ w) \<longleftrightarrow> c = CHR ''@''" for w
      by (auto simp: starts_with_def encode_char_def reserved_char_def)
    obtain w where "str_join (CHR ''/'') (map encode_segment segs) = encode_char c @ w"
      using \<open>segs = h # rest\<close> Cons by (auto simp: join_Cons encode_segment_def)
    then show ?thesis using \<open>segs = h # rest\<close> Cons first by (simp add: starts_with_def)
  qed (simp add: \<open>segs = h # rest\<close> starts_with_def join_Cons)
qed (simp add: starts_with_def)

lemma parse_printed:
  assumes "CHR ''#'' \<notin> set path"
  shows "ref_parse (path @ CHR ''#'' # fragment) =
    bind_res
      (if starts_with ''@'' fragment then
         (if hd (str_split (CHR ''/'') (drop 1 fragment)) = ''raw'' then Inr (RefRaw, drop 1 fragment)
          else if starts_with ''cat:'' (hd (str_split (CHR ''/'') (drop 1 fragment))) then Inr (RefCanonical, drop 1 fragment)
          else Inl PyValueError)
       else Inr (RefHuman, fragment)) (\<lambda>(kind, fragment).
    bind_res (if fragment = [] then Inr [] else map_res decode_segment (str_split (CHR ''/'') fragment)) (\<lambda>segments.
      Inr \<lparr>nr_repo_path = path, nr_segments = segments, nr_kind = kind\<rparr>))"
  by (simp add: ref_parse_def Let_def split_first_join [OF assms])

lemma human_escaped:
  assumes "starts_with ''@'' h"
  shows "map_res decode_segment (str_split (CHR ''/'')
      (CHR 0x25 # CHR ''4'' # CHR ''0'' # drop 1 (str_join (CHR ''/'') (map encode_segment (h # rest))))) = Inr (h # rest)"
proof -
  let ?e = "CHR 0x25 # CHR ''4'' # CHR ''0'' # drop 1 (encode_segment h)"
  have "h \<noteq> []" using assms by (auto simp: starts_with_def)
  then have "encode_segment h \<noteq> []" by simp
  then have joined: "CHR 0x25 # CHR ''4'' # CHR ''0'' # drop 1 (str_join (CHR ''/'') (map encode_segment (h # rest))) =
      str_join (CHR ''/'') (?e # map encode_segment rest)"
    by (cases "encode_segment h") (simp_all add: join_Cons)
  have "CHR ''/'' \<notin> set ?e" using not_in_encoded [of h] by (auto dest: in_set_dropD)
  then have "str_split (CHR ''/'') (str_join (CHR ''/'') (?e # map encode_segment rest)) = ?e # map encode_segment rest"
    by (intro str_split_join) (auto simp: not_in_encoded)
  moreover have "map_res decode_segment (map encode_segment xs) = Inr xs" for xs
    by (induction xs) simp_all
  ultimately show ?thesis using escaped_at [OF assms] unfolding joined by simp
qed

text \<open>
  C12. Every reference prints to a text that parses back to it: the canonical, raw and human
  shape are told apart by the at sign the printer adds or escapes, and every segment, whatever
  number signs, slashes, percent signs, control characters or non-ASCII text it holds, comes
  back. The path of the repository must hold no number sign and a lone empty segment is not
  representable.
\<close>

theorem node_ref_roundtrip:
  assumes "ref_wf r"
  shows "ref_parse (ref_to_str r) = Inr r"
proof -
  let ?join = "str_join (CHR ''/'') (map encode_segment (nr_segments r))"
  have path: "CHR ''#'' \<notin> set (nr_repo_path r)" and segs: "nr_segments r \<noteq> [[]]" using assms by (auto simp: ref_wf_def)
  note parse = parse_printed [OF path] and decode = decode_joined_if [OF segs]
  show ?thesis
  proof (cases "nr_kind r")
    case RefCanonical
    then have "nr_segments r \<noteq> []" and cat: "starts_with ''cat:'' (hd (nr_segments r))" using assms by (auto simp: ref_wf_def)
    then have "hd (str_split (CHR ''/'') ?join) = encode_segment (hd (nr_segments r))" by (simp add: split_encoded_head)
    moreover obtain t where "encode_segment (hd (nr_segments r)) = ''cat:'' @ t" using encoded_cat [OF cat] by blast
    ultimately show ?thesis using RefCanonical decode by (simp add: ref_to_str_def parse starts_with_def)
  next
    case RefRaw
    then have "nr_segments r \<noteq> []" and "hd (nr_segments r) = ''raw''" using assms by (auto simp: ref_wf_def)
    then have "hd (str_split (CHR ''/'') ?join) = ''raw''" by (simp add: split_encoded_head encoded_raw)
    then show ?thesis using RefRaw decode by (simp add: ref_to_str_def parse starts_with_def)
  next
    case RefHuman
    show ?thesis
    proof (cases "starts_with ''@'' ?join")
      case True
      then obtain h rest where cons: "nr_segments r = h # rest" and h: "starts_with ''@'' h"
        unfolding encoded_at by (cases "nr_segments r") auto
      have "ref_to_str r = nr_repo_path r @ CHR ''#'' # CHR 0x25 # CHR ''4'' # CHR ''0'' # drop 1 ?join"
        using True RefHuman by (simp add: ref_to_str_def)
      then show ?thesis using human_escaped [OF h, of rest] RefHuman cons by (simp add: parse starts_with_def)
    next
      case False
      then have "ref_to_str r = nr_repo_path r @ CHR ''#'' # ?join" using RefHuman by (simp add: ref_to_str_def)
      then show ?thesis using False RefHuman decode by (simp add: parse)
    qed
  qed
qed

lemma node_ref_roundtrip_witness:
  "ref_parse (ref_to_str (ref_human ''repository'' [''@50%/#'', [], ''a b''])) =
   Inr (ref_human ''repository'' [''@50%/#'', [], ''a b''])"
  by (rule node_ref_roundtrip) (simp add: ref_wf_def ref_human_def)

end
