(* ===== verification/Resolve.thy ===== *)
theory Resolve
  imports NodeRefs
begin

text \<open>
  Finding a reference in the tree of a provider (\<open>sdk/units/resolve.py\<close>, over the vocabulary of
  \<open>sdk/units/base.py\<close>): the children of a node come in pages of 500 entries, the search goes down
  only into children whose segments are a prefix of the segments looked for, and a provider that
  addresses its nodes by one key answers directly. The search of the source is a loop inside a
  recursion, neither of which ends on every provider, so both are partial functions whose value
  \<open>None\<close> means not returning. The locale \<open>unit_tree\<close> is the contract of a provider under which
  the search returns and finds exactly what the tree holds.
\<close>

subsection \<open>Nodes and providers\<close>

datatype unit_kind =
  DiskImage | DiskFilesystem | DiskFile | FileUnit | Mail | Contact | CalendarEvent | DriveItem | SiteItem
| RawObject | TeamsChatMessage | CategoryGroup

datatype node_role = OrdinaryRole | ListOverview | FlatCategory

text \<open>The fields of a node that decide behaviour; the others are only displayed.\<close>

record 'h node =
  nd_ref :: node_ref
  nd_name :: string
  nd_is_leaf :: bool
  nd_kind :: "unit_kind option"
  nd_role :: node_role
  nd_handle :: 'h

abbreviation node_extra :: "'h node \<Rightarrow> string list" where
  "node_extra n \<equiv> extra_segments (nd_ref n)"

text \<open>\<open>up_lookup\<close> holds \<open>resolve_extra\<close> and \<open>parent_of\<close> of a provider that supports direct lookup.\<close>

record 'h unit_provider =
  up_root :: "'h node"
  up_children :: "'h node \<Rightarrow> nat \<Rightarrow> nat option \<Rightarrow> 'h node list res"
  up_lookup :: "((string list \<Rightarrow> 'h node option res) \<times> ('h node \<Rightarrow> 'h node option res)) option"

definition RESOLVE_PAGE_SIZE :: nat where
  "RESOLVE_PAGE_SIZE = 500"

definition paginate :: "'a list \<Rightarrow> nat \<Rightarrow> nat option \<Rightarrow> 'a list" where
  "paginate items offset limit =
     (case limit of None \<Rightarrow> drop offset items | Some l \<Rightarrow> take l (drop offset items))"

subsection \<open>The search\<close>

definition is_strict_prefix :: "string list \<Rightarrow> string list \<Rightarrow> bool" where
  "is_strict_prefix shorter longer \<longleftrightarrow> length shorter < length longer \<and> take (length shorter) longer = shorter"

text \<open>One page: stops at an exact match and collects the candidates before it.\<close>

fun scan_page :: "string list \<Rightarrow> 'h node list \<Rightarrow> 'h node list \<Rightarrow> 'h node option \<times> 'h node list" where
  "scan_page t [] candidates = (None, candidates)"
| "scan_page t (c # cs) candidates =
     (if node_extra c = t then (Some c, candidates)
      else scan_page t cs (if \<not> nd_is_leaf c \<and> is_strict_prefix (node_extra c) t then candidates @ [c] else candidates))"

partial_function (option) matching_pages ::
  "'h unit_provider \<Rightarrow> 'h node \<Rightarrow> string list \<Rightarrow> bool \<Rightarrow> nat \<Rightarrow> 'h node list \<Rightarrow> 'h node option \<Rightarrow> 'h node list \<Rightarrow>
   ('h node option \<times> 'h node list \<times> 'h node list) res option" where
  "matching_pages p n t full offset children exact candidates =
     (case up_children p n offset (Some RESOLVE_PAGE_SIZE) of
        Inl e \<Rightarrow> Some (Inl e)
      | Inr page \<Rightarrow>
          (let children' = (if full then children @ page else children);
               found = (if exact = None then scan_page t page candidates else (exact, candidates))
           in if exact = None \<and> fst found \<noteq> None \<and> \<not> full then Some (Inr (fst found, children', snd found))
              else if length page < RESOLVE_PAGE_SIZE then Some (Inr (fst found, children', snd found))
              else matching_pages p n t full (offset + RESOLVE_PAGE_SIZE) children' (fst found) (snd found)))"

definition children_matching ::
  "'h unit_provider \<Rightarrow> 'h node \<Rightarrow> string list \<Rightarrow> bool \<Rightarrow> ('h node option \<times> 'h node list \<times> 'h node list) res option" where
  "children_matching p n t full = matching_pages p n t full 0 [] None []"

partial_function (option) all_pages :: "'h unit_provider \<Rightarrow> 'h node \<Rightarrow> nat \<Rightarrow> 'h node list \<Rightarrow> 'h node list res option" where
  "all_pages p n offset children =
     (case up_children p n offset (Some RESOLVE_PAGE_SIZE) of
        Inl e \<Rightarrow> Some (Inl e)
      | Inr page \<Rightarrow>
          if length page < RESOLVE_PAGE_SIZE then Some (Inr (children @ page))
          else all_pages p n (offset + RESOLVE_PAGE_SIZE) (children @ page))"

definition all_children :: "'h unit_provider \<Rightarrow> 'h node \<Rightarrow> 'h node list res option" where
  "all_children p n = all_pages p n 0 []"

text \<open>
  \<open>_descend\<close> together with its loop over the children to try: the first of the nodes below which
  the target is found.
\<close>

type_synonym 'h descent = "('h node \<times> 'h node list \<times> 'h node list list) option"

partial_function (option) descend_any ::
  "'h unit_provider \<Rightarrow> string list \<Rightarrow> bool \<Rightarrow> 'h node list \<Rightarrow> 'h descent res option" where
  "descend_any p t full nodes =
     (case nodes of
        [] \<Rightarrow> Some (Inr None)
      | n # rest \<Rightarrow>
          if node_extra n = t then Some (Inr (Some (n, [n], [])))
          else if nd_is_leaf n then descend_any p t full rest
          else Option.bind (children_matching p n t full) (\<lambda>m.
            case m of
              Inl e \<Rightarrow> Some (Inl e)
            | Inr (exact, children, candidates) \<Rightarrow>
                Option.bind (descend_any p t full (case exact of Some c \<Rightarrow> [c] | None \<Rightarrow> candidates)) (\<lambda>deeper.
                  case deeper of
                    Inl e \<Rightarrow> Some (Inl e)
                  | Inr (Some (leaf, chain, steps)) \<Rightarrow>
                      Some (Inr (Some (leaf, n # chain, if full then children # steps else [])))
                  | Inr None \<Rightarrow> descend_any p t full rest)))"

definition descend :: "'h unit_provider \<Rightarrow> 'h node \<Rightarrow> node_ref \<Rightarrow> bool \<Rightarrow> 'h descent res option" where
  "descend p n target full = descend_any p (extra_segments target) full [n]"

partial_function (option) ancestors_up ::
  "('h node \<Rightarrow> 'h node option res) \<Rightarrow> 'h node \<Rightarrow> 'h node list \<Rightarrow> 'h node list res option" where
  "ancestors_up parent_of current chain =
     (case parent_of current of
        Inl e \<Rightarrow> Some (Inl e)
      | Inr None \<Rightarrow> Some (Inr (rev chain))
      | Inr (Some parent) \<Rightarrow> ancestors_up parent_of parent (chain @ [parent]))"

definition direct_ancestor_chain :: "('h node \<Rightarrow> 'h node option res) \<Rightarrow> 'h node \<Rightarrow> 'h node list res option" where
  "direct_ancestor_chain parent_of leaf = ancestors_up parent_of leaf [leaf]"

definition find_node :: "'h unit_provider \<Rightarrow> node_ref \<Rightarrow> 'h node option res option" where
  "find_node p target =
     (case up_lookup p of
        Some (resolve_extra, parent_of) \<Rightarrow> Some (resolve_extra (extra_segments target))
      | None \<Rightarrow> map_option (map_sum id (map_option fst)) (descend p (up_root p) target False))"

fun children_of_each :: "'h unit_provider \<Rightarrow> 'h node list \<Rightarrow> 'h node list list res option" where
  "children_of_each p [] = Some (Inr [])"
| "children_of_each p (n # ns) =
     Option.bind (all_children p n) (\<lambda>c.
       case c of
         Inl e \<Rightarrow> Some (Inl e)
       | Inr cs \<Rightarrow> map_option (map_sum id (\<lambda>css. cs # css)) (children_of_each p ns))"

definition find_path_with_children ::
  "'h unit_provider \<Rightarrow> node_ref \<Rightarrow> ('h node list \<times> 'h node list list) option res option" where
  "find_path_with_children p target =
     (case up_lookup p of
        Some (resolve_extra, parent_of) \<Rightarrow>
          (case resolve_extra (extra_segments target) of
             Inl e \<Rightarrow> Some (Inl e)
           | Inr None \<Rightarrow> Some (Inr None)
           | Inr (Some n) \<Rightarrow>
               Option.bind (direct_ancestor_chain parent_of n) (\<lambda>r.
                 case r of
                   Inl e \<Rightarrow> Some (Inl e)
                 | Inr chain \<Rightarrow> map_option (map_sum id (\<lambda>steps. Some (chain, steps))) (children_of_each p (butlast chain))))
      | None \<Rightarrow> map_option (map_sum id (map_option snd)) (descend p (up_root p) target True))"

subsection \<open>One level\<close>

definition candidate :: "string list \<Rightarrow> 'h node \<Rightarrow> bool" where
  "candidate t c \<longleftrightarrow> \<not> nd_is_leaf c \<and> is_strict_prefix (node_extra c) t"

lemma scan_page_append:
  "scan_page t (xs @ ys) cs = (case scan_page t xs cs of (Some x, cs') \<Rightarrow> (Some x, cs') | (None, cs') \<Rightarrow> scan_page t ys cs')"
  by (induction xs arbitrary: cs) auto

lemma scan_page_found: "scan_page t xs cs = (Some x, cs') \<Longrightarrow> x \<in> set xs \<and> node_extra x = t"
  by (induction xs arbitrary: cs) (auto split: if_splits)

lemma scan_page_missed: "scan_page t xs cs = (None, cs') \<Longrightarrow> cs' = cs @ filter (candidate t) xs \<and> (\<forall>x \<in> set xs. node_extra x \<noteq> t)"
proof (induction xs arbitrary: cs)
  case (Cons c xs)
  then have "node_extra c \<noteq> t" and "scan_page t xs (if candidate t c then cs @ [c] else cs) = (None, cs')"
    by (auto simp: candidate_def split: if_splits)
  with Cons.IH show ?case by fastforce
qed simp

text \<open>
  The way from a node down to a reference: every node on it is listed by the one before, and the
  ones between are containers whose segments lead to those of the target.
\<close>

fun route :: "('h node \<Rightarrow> 'h node list) \<Rightarrow> string list \<Rightarrow> 'h node list \<Rightarrow> bool" where
  "route listing t [] = False"
| "route listing t [n] = (node_extra n = t)"
| "route listing t (n # c # rest) =
     (\<not> nd_is_leaf n \<and> node_extra n \<noteq> t \<and> c \<in> set (listing n) \<and> (rest \<noteq> [] \<longrightarrow> is_strict_prefix (node_extra c) t) \<and>
      route listing t (c # rest))"

definition descent_ok :: "('h node \<Rightarrow> 'h node list) \<Rightarrow> string list \<Rightarrow> bool \<Rightarrow> 'h node list \<Rightarrow> 'h descent \<Rightarrow> bool" where
  "descent_ok listing t full nodes r =
     (case r of
        None \<Rightarrow> \<forall>chain. route listing t chain \<longrightarrow> hd chain \<notin> set nodes
      | Some (leaf, chain, steps) \<Rightarrow>
          route listing t chain \<and> hd chain \<in> set nodes \<and> leaf = last chain \<and>
          steps = (if full then map listing (butlast chain) else []))"

lemma route_ne: "route listing t chain \<Longrightarrow> chain \<noteq> []"
  by auto

lemma route_last: "route listing t chain \<Longrightarrow> node_extra (last chain) = t"
  by (induction listing t chain rule: route.induct) auto

lemma descent_ok_skip:
  assumes "node_extra n \<noteq> t" and "descent_ok listing t full rest r"
    and "\<And>c chain. \<lbrakk>\<not> nd_is_leaf n; c \<in> set (listing n); route listing t (c # chain);
      chain \<noteq> [] \<Longrightarrow> candidate t c\<rbrakk> \<Longrightarrow> False"
  shows "descent_ok listing t full (n # rest) r"
proof (cases r)
  case None
  have "hd chain \<noteq> n" if "route listing t chain" for chain
  proof
    assume n: "hd chain = n"
    with that assms(1) obtain c rest' where chain: "chain = n # c # rest'"
      by (cases chain rule: remdups_adj.cases) auto
    have "candidate t c" if "rest' \<noteq> []"
      using that chain \<open>route listing t chain\<close> by (cases rest') (auto simp: candidate_def)
    then show False using assms(3) [of c rest'] that chain by auto
  qed
  then show ?thesis using assms(2) None by (auto simp: descent_ok_def)
next
  case (Some d)
  then show ?thesis using assms(2) by (auto simp: descent_ok_def split: prod.splits)
qed

lemma descent_ok_down:
  assumes "\<not> nd_is_leaf n" and "node_extra n \<noteq> t" and "descent_ok listing t full cs (Some (leaf, chain, steps))"
    and "set cs \<subseteq> set (listing n)" and "\<forall>c \<in> set cs. node_extra c = t \<or> is_strict_prefix (node_extra c) t"
  shows "descent_ok listing t full (n # rest) (Some (leaf, n # chain, if full then listing n # steps else []))"
proof (cases chain)
  case (Cons c rest')
  have "rest' \<noteq> [] \<Longrightarrow> node_extra c \<noteq> t" using assms(3) Cons by (cases rest') (auto simp: descent_ok_def)
  then show ?thesis using assms Cons by (auto simp: descent_ok_def)
qed (use assms(3) in \<open>auto simp: descent_ok_def\<close>)

subsection \<open>The contract of a provider\<close>

locale unit_tree =
  fixes p :: "'h unit_provider" and listing :: "'h node \<Rightarrow> 'h node list" and good :: "'h node \<Rightarrow> bool" and rank :: "'h node \<Rightarrow> nat"
  assumes root_good: "good (up_root p)"
    and page: "\<lbrakk>good n; \<not> nd_is_leaf n\<rbrakk> \<Longrightarrow> up_children p n offset limit = Inr (paginate (listing n) offset limit)"
    and listing_good: "\<lbrakk>good n; \<not> nd_is_leaf n; c \<in> set (listing n)\<rbrakk> \<Longrightarrow> good c"
    and rank_down: "\<lbrakk>good n; \<not> nd_is_leaf n; c \<in> set (listing n); \<not> nd_is_leaf c\<rbrakk> \<Longrightarrow> rank c < rank n"
begin

lemma matching_pages_total:
  assumes "good n" and "\<not> nd_is_leaf n" and "\<not> full \<longrightarrow> exact = None"
    and "scan_page t (take offset (listing n)) [] = (exact, candidates)"
  shows "matching_pages p n t full offset children exact candidates =
    Some (Inr (fst (scan_page t (listing n) []), if full then children @ drop offset (listing n) else children,
               snd (scan_page t (listing n) [])))"
  using assms(3,4)
proof (induction "length (listing n) - offset" arbitrary: offset children exact candidates rule: less_induct)
  case less
  let ?L = "listing n"
  define pg where "pg = take RESOLVE_PAGE_SIZE (drop offset ?L)"
  define found where "found = (if exact = None then scan_page t pg candidates else (exact, candidates))"
  have pages: "take (offset + RESOLVE_PAGE_SIZE) ?L = take offset ?L @ pg"
    by (simp add: pg_def take_add)
  have scan: "scan_page t (take (offset + RESOLVE_PAGE_SIZE) ?L) [] = found"
    using less.prems(2) unfolding pages scan_page_append by (auto simp: found_def split: option.split)
  have whole: "scan_page t ?L [] = found" if "fst found \<noteq> None \<or> length ?L \<le> offset + RESOLVE_PAGE_SIZE"
  proof (cases "fst found")
    case (Some x)
    then obtain cs where "found = (Some x, cs)" by (cases found) auto
    then show ?thesis
      using scan scan_page_append [of t "take (offset + RESOLVE_PAGE_SIZE) ?L" "drop (offset + RESOLVE_PAGE_SIZE) ?L" "[]"] by simp
  qed (use that scan in auto)
  have children: "up_children p n offset (Some RESOLVE_PAGE_SIZE) = Inr pg"
    using page [OF assms(1,2)] by (simp add: pg_def paginate_def)
  have short: "length pg < RESOLVE_PAGE_SIZE \<longleftrightarrow> length ?L < offset + RESOLVE_PAGE_SIZE"
    by (auto simp: pg_def RESOLVE_PAGE_SIZE_def)
  have size: "0 < RESOLVE_PAGE_SIZE" by (simp add: RESOLVE_PAGE_SIZE_def)
  define children' where "children' = (if full then children @ pg else children)"
  have step: "matching_pages p n t full offset children exact candidates =
    (if exact = None \<and> fst found \<noteq> None \<and> \<not> full then Some (Inr (fst found, children', snd found))
     else if length pg < RESOLVE_PAGE_SIZE then Some (Inr (fst found, children', snd found))
     else matching_pages p n t full (offset + RESOLVE_PAGE_SIZE) children' (fst found) (snd found))"
    by (subst matching_pages.simps) (auto simp add: children found_def children'_def Let_def)
  show ?case
  proof (cases "exact = None \<and> fst found \<noteq> None \<and> \<not> full \<or> length pg < RESOLVE_PAGE_SIZE")
    case True
    then have "scan_page t ?L [] = found" and "full \<longrightarrow> pg = drop offset ?L" using whole short by (auto simp: pg_def)
    moreover have "matching_pages p n t full offset children exact candidates = Some (Inr (fst found, children', snd found))"
      unfolding step using True by auto
    ultimately show ?thesis by (simp add: children'_def)
  next
    case False
    then have "offset + RESOLVE_PAGE_SIZE \<le> length ?L" using short by auto
    then have longer: "length ?L - (offset + RESOLVE_PAGE_SIZE) < length ?L - offset" using size by linarith
    have rest: "drop offset ?L = pg @ drop (offset + RESOLVE_PAGE_SIZE) ?L"
      by (simp add: pg_def add.commute flip: drop_drop)
    have "\<not> full \<longrightarrow> fst found = None" using False less.prems(1) by auto
    then have "matching_pages p n t full (offset + RESOLVE_PAGE_SIZE) children' (fst found) (snd found) =
      Some (Inr (fst (scan_page t ?L []), if full then children @ drop offset ?L else children, snd (scan_page t ?L [])))"
      using less.hyps [OF longer, of "fst found" "snd found" children'] scan by (simp add: rest children'_def)
    then show ?thesis unfolding step using False by auto
  qed
qed

lemma children_matching_total:
  assumes "good n" and "\<not> nd_is_leaf n"
  shows "children_matching p n t full =
    Some (Inr (fst (scan_page t (listing n) []), if full then listing n else [], snd (scan_page t (listing n) [])))"
  using matching_pages_total [OF assms, of full None t 0 "[]" "[]"] by (simp add: children_matching_def)

lemma descend_total:
  assumes "\<forall>n \<in> set nodes. good n" and "\<forall>n \<in> set nodes. nd_is_leaf n \<or> node_extra n = t \<or> rank n < k"
  shows "\<exists>r. descend_any p t full nodes = Some (Inr r) \<and> descent_ok listing t full nodes r"
  using assms
proof (induction k arbitrary: nodes rule: less_induct)
  case (less k)
  from less.prems show ?case
  proof (induction nodes)
    case Nil
    show ?case by (subst descend_any.simps) (simp add: descent_ok_def)
  next
    case (Cons n rest)
    then obtain r where r: "descend_any p t full rest = Some (Inr r)" and rest: "descent_ok listing t full rest r" by auto
    have good: "good n" using Cons.prems by simp
    consider "node_extra n = t" | "node_extra n \<noteq> t" "nd_is_leaf n" | "node_extra n \<noteq> t" "\<not> nd_is_leaf n" by blast
    then show ?case
    proof cases
      case 1
      then have "descend_any p t full (n # rest) = Some (Inr (Some (n, [n], [])))" by (subst descend_any.simps) simp
      then show ?thesis using 1 by (simp add: descent_ok_def)
    next
      case 2
      then have "descend_any p t full (n # rest) = Some (Inr r)" by (subst descend_any.simps) (simp add: r)
      then show ?thesis using descent_ok_skip [OF 2(1) rest] 2(2) by blast
    next
      case 3
      obtain exact cands where scan: "scan_page t (listing n) [] = (exact, cands)" by (cases "scan_page t (listing n) []")
      let ?next = "case exact of Some c \<Rightarrow> [c] | None \<Rightarrow> cands"
      have next_ok: "c \<in> set (listing n) \<and> (node_extra c = t \<or> candidate t c)" if "c \<in> set ?next" for c
        using that scan scan_page_found [of t "listing n" "[]"] scan_page_missed [of t "listing n" "[]"]
        by (auto split: option.splits)
      have "rank n < k" using Cons.prems 3 by simp
      moreover have "\<forall>c \<in> set ?next. nd_is_leaf c \<or> node_extra c = t \<or> rank c < rank n"
        using next_ok rank_down [OF good 3(2)] by blast
      moreover have "\<forall>c \<in> set ?next. good c" using next_ok listing_good [OF good 3(2)] by blast
      ultimately obtain d where d: "descend_any p t full ?next = Some (Inr d)" and ok: "descent_ok listing t full ?next d"
        using less.IH [of "rank n" ?next] by blast
      have step: "descend_any p t full (n # rest) =
        (case d of
           None \<Rightarrow> Some (Inr r)
         | Some (leaf, chain, steps) \<Rightarrow> Some (Inr (Some (leaf, n # chain, if full then listing n # steps else []))))"
        using 3 d by (subst descend_any.simps) (simp add: children_matching_total [OF good 3(2)] scan r split: option.split prod.split split del: if_split, simp)
      show ?thesis
      proof (cases d)
        case None
        have none: False if "c \<in> set (listing n)" "route listing t (c # chain)" "chain \<noteq> [] \<Longrightarrow> candidate t c" for c chain
        proof (cases "exact")
          case None
          then have cands: "cands = filter (candidate t) (listing n)" and "node_extra c \<noteq> t"
            using scan_page_missed [of t "listing n" "[]"] scan that(1) by auto
          then have "chain \<noteq> []" using that(2) by auto
          then have "c \<in> set ?next" using that cands None by simp
          then show False using ok \<open>d = None\<close> that(2) by (auto simp: descent_ok_def)
        next
          case (Some x)
          then have "route listing t [x]" using scan_page_found [of t "listing n" "[]"] scan by simp
          then have "hd [x] \<notin> set ?next" using ok \<open>d = None\<close> by (simp only: descent_ok_def option.case) blast
          then show False using Some by simp
        qed
        then have "descent_ok listing t full (n # rest) r" using descent_ok_skip [OF 3(1) rest] by blast
        then show ?thesis using step None by simp
      next
        case (Some e)
        obtain leaf chain steps where e: "e = (leaf, chain, steps)" by (cases e)
        have "descent_ok listing t full (n # rest) (Some (leaf, n # chain, if full then listing n # steps else []))"
          using ok Some e next_ok by (intro descent_ok_down [OF 3(2,1), of listing full ?next]) (auto simp: candidate_def)
        then show ?thesis using step Some e by simp
      qed
    qed
  qed
qed

text \<open>Both searches return; the answer is a way to the reference, or there is none.\<close>

lemma descend_root:
  "\<exists>r. descend p (up_root p) target full = Some (Inr r) \<and> descent_ok listing (extra_segments target) full [up_root p] r"
  using descend_total [of "[up_root p]" "extra_segments target" "Suc (rank (up_root p))" full] root_good
  by (simp add: descend_def)

lemma find_path_total:
  assumes "up_lookup p = None"
  shows "\<exists>r. find_path_with_children p target = Some (Inr r) \<and>
    (case r of
       None \<Rightarrow> \<forall>chain. route listing (extra_segments target) chain \<longrightarrow> hd chain \<noteq> up_root p
     | Some (chain, steps) \<Rightarrow> route listing (extra_segments target) chain \<and> hd chain = up_root p \<and> steps = map listing (butlast chain))"
proof -
  obtain r where r: "descend p (up_root p) target True = Some (Inr r)" "descent_ok listing (extra_segments target) True [up_root p] r"
    using descend_root by blast
  then show ?thesis using assms by (cases r) (auto simp: find_path_with_children_def descent_ok_def split: prod.splits)
qed

lemma find_node_total:
  assumes "up_lookup p = None"
  shows "\<exists>r. find_node p target = Some (Inr r) \<and>
    (case r of
       None \<Rightarrow> \<forall>chain. route listing (extra_segments target) chain \<longrightarrow> hd chain \<noteq> up_root p
     | Some n \<Rightarrow> \<exists>chain. route listing (extra_segments target) chain \<and> hd chain = up_root p \<and> n = last chain)"
proof -
  obtain r where r: "descend p (up_root p) target False = Some (Inr r)" "descent_ok listing (extra_segments target) False [up_root p] r"
    using descend_root by blast
  then show ?thesis using assms by (cases r) (auto simp: find_node_def descent_ok_def split: prod.splits)
qed

lemma route_good: "route listing t chain \<Longrightarrow> good (hd chain) \<Longrightarrow> \<forall>n \<in> set chain. good n"
proof (induction chain)
  case (Cons n chain)
  show ?case
  proof (cases chain)
    case (Cons c rest)
    then have down: "\<not> nd_is_leaf n" "c \<in> set (listing n)" "route listing t chain" using Cons.prems(1) by auto
    then have "good c" using listing_good [of n c] Cons.prems(2) by (simp only: list.sel) blast
    then show ?thesis using Cons.IH [OF down(3)] Cons Cons.prems(2) by simp
  qed (use Cons.prems in simp)
qed simp

end

end
