(* ===== verification/FileMapTree.thy ===== *)
theory FileMapTree
  imports Resolve "HOL-Library.List_Lexorder" "HOL-Library.Char_ord" "HOL-Library.AList"
begin

text \<open>
  \<open>FileMapTreeProvider\<close> (\<open>sdk/units/file_map_tree.py\<close>): the paths of the file map as a tree, and
  the interpretation of the contract of \<open>Resolve\<close> on it. The rows of the table are a parameter,
  the list of their paths; the index is built once from it.
\<close>

datatype file_map_handle = PrefixHandle string | PathHandle string

text \<open>
  The child index: for every prefix the names of its directories, and its leaves with their full
  paths, as an association list in insertion order. A prefix without an entry has neither.
\<close>

type_synonym child_index = "string \<Rightarrow> string list \<times> (string \<times> string) list"

definition index_part :: "string \<Rightarrow> string list \<Rightarrow> nat \<Rightarrow> child_index \<Rightarrow> child_index" where
  "index_part path parts depth index =
     (let key = str_join (CHR ''/'') (take depth parts);
          (dir_names, leaves) = index key;
          child = parts ! depth
      in index(key :=
           if depth = length parts - 1 then (dir_names, AList.update child path leaves)
           else (List.insert child dir_names, leaves)))"

definition index_path :: "string \<Rightarrow> child_index \<Rightarrow> child_index" where
  "index_path path index =
     (let parts = str_split (CHR ''/'') path in fold (index_part path parts) [0..<length parts] index)"

definition build_index :: "string list \<Rightarrow> child_index" where
  "build_index paths = fold index_path paths (\<lambda>_. ([], []))"

definition dir_node :: "string \<Rightarrow> string list \<Rightarrow> string \<Rightarrow> file_map_handle node" where
  "dir_node repo_root prefix_parts dirname =
     (let child_prefix = str_join (CHR ''/'') (prefix_parts @ [dirname])
      in \<lparr>nd_ref = ref_raw repo_root child_prefix, nd_name = dirname, nd_is_leaf = False, nd_kind = None,
          nd_role = OrdinaryRole, nd_handle = PrefixHandle child_prefix\<rparr>)"

definition leaf_node :: "string \<Rightarrow> string \<times> string \<Rightarrow> file_map_handle node" where
  "leaf_node repo_root = (\<lambda>(basename, full_path).
     \<lparr>nd_ref = ref_raw repo_root full_path, nd_name = basename, nd_is_leaf = True, nd_kind = Some RawObject,
      nd_role = OrdinaryRole, nd_handle = PathHandle full_path\<rparr>)"

definition file_map_root :: "string \<Rightarrow> file_map_handle node" where
  "file_map_root repo_root =
     \<lparr>nd_ref = ref_raw repo_root [], nd_name = ''/'', nd_is_leaf = False, nd_kind = None,
      nd_role = OrdinaryRole, nd_handle = PrefixHandle []\<rparr>"

text \<open>The leaves are sorted as pairs; their names are distinct, so the name decides.\<close>

definition file_map_listing :: "string \<Rightarrow> child_index \<Rightarrow> file_map_handle node \<Rightarrow> file_map_handle node list" where
  "file_map_listing repo_root index n =
     (case nd_handle n of
        PathHandle _ \<Rightarrow> []
      | PrefixHandle path \<Rightarrow>
          let prefix_parts = filter (\<lambda>p. p \<noteq> []) (str_split (CHR ''/'') path);
              (dir_names, leaves) = index (str_join (CHR ''/'') prefix_parts)
          in map (dir_node repo_root prefix_parts) (sort dir_names) @ map (leaf_node repo_root) (sort_key fst leaves))"

definition file_map_children ::
  "string \<Rightarrow> string list \<Rightarrow> file_map_handle node \<Rightarrow> nat \<Rightarrow> nat option \<Rightarrow> file_map_handle node list res" where
  "file_map_children repo_root paths n offset limit =
     Inr (paginate (file_map_listing repo_root (build_index paths) n) offset limit)"

definition file_map_provider :: "string \<Rightarrow> string list \<Rightarrow> file_map_handle unit_provider" where
  "file_map_provider repo_root paths =
     \<lparr>up_root = file_map_root repo_root, up_children = file_map_children repo_root paths, up_lookup = None\<rparr>"

subsection \<open>What the index holds\<close>

abbreviation parts_of :: "string \<Rightarrow> string list" where
  "parts_of path \<equiv> str_split (CHR ''/'') path"

definition plain_path :: "string \<Rightarrow> bool" where
  "plain_path path \<longleftrightarrow> [] \<notin> set (parts_of path)"

definition plain_parts :: "string list \<Rightarrow> bool" where
  "plain_parts ps \<longleftrightarrow> (\<forall>p \<in> set ps. p \<noteq> [] \<and> CHR ''/'' \<notin> set p)"

lemma parts_ne [simp]: "parts_of path \<noteq> []"
  by (induction path) (auto split: list.split)

lemma plain_path_parts: "plain_path path \<Longrightarrow> plain_parts (parts_of path)"
  using str_split_no_sep by (fastforce simp: plain_path_def plain_parts_def)

lemma plain_take: "plain_parts ps \<Longrightarrow> plain_parts (take d ps)"
  by (auto simp: plain_parts_def dest: in_set_takeD)

lemma split_plain: "plain_parts ps \<Longrightarrow> parts_of (str_join (CHR ''/'') ps) = (if ps = [] then [[]] else ps)"
  by (cases "ps = []") (auto simp: plain_parts_def intro: str_split_join)

lemma filter_plain: "plain_parts ps \<Longrightarrow> filter (\<lambda>p. p \<noteq> []) (parts_of (str_join (CHR ''/'') ps)) = ps"
  by (auto simp: split_plain plain_parts_def intro: filter_True)

lemma join_plain_inject: "plain_parts ps \<Longrightarrow> plain_parts qs \<Longrightarrow> str_join (CHR ''/'') ps = str_join (CHR ''/'') qs \<longleftrightarrow> ps = qs"
  using filter_plain by metis

definition index_dir :: "string list \<Rightarrow> string list \<Rightarrow> string \<Rightarrow> bool" where
  "index_dir ps qs x \<longleftrightarrow> Suc (length qs) < length ps \<and> take (length qs) ps = qs \<and> ps ! length qs = x"

text \<open>One path: a directory entry at every proper prefix, a leaf entry at the last.\<close>

lemma index_parts:
  assumes "plain_parts ps" and "plain_parts qs" and "ps \<noteq> []" and "d \<le> length ps"
  shows "fold (index_part path ps) [0..<d] index (str_join (CHR ''/'') qs) =
    (if length qs < d \<and> take (length qs) ps = qs then
       (if Suc (length qs) = length ps then (fst (index (str_join (CHR ''/'') qs)), AList.update (last ps) path (snd (index (str_join (CHR ''/'') qs))))
        else (List.insert (ps ! length qs) (fst (index (str_join (CHR ''/'') qs))), snd (index (str_join (CHR ''/'') qs))))
     else index (str_join (CHR ''/'') qs))"
  using assms(4)
proof (induction d)
  case (Suc d)
  have here: "str_join (CHR ''/'') qs = str_join (CHR ''/'') (take d ps) \<longleftrightarrow> qs = take d ps"
    using join_plain_inject [OF assms(2) plain_take [OF assms(1)]] by blast
  have len: "length (take d ps) = d" using Suc.prems by simp
  have last: "last ps = ps ! d" if "Suc d = length ps" using that assms(3) by (simp add: last_conv_nth flip: that)
  show ?case
  proof (cases "qs = take d ps")
    case True
    then show ?thesis using Suc len last
      by (auto simp: index_part_def Let_def split: prod.split)
  next
    case False
    then have "length qs < Suc d \<and> take (length qs) ps = qs \<longleftrightarrow> length qs < d \<and> take (length qs) ps = qs"
      by (auto simp: less_Suc_eq)
    then show ?thesis using Suc False here by (simp add: index_part_def Let_def split: prod.split)
  qed
qed simp

lemma index_path_at:
  assumes "plain_path path" and "plain_parts qs"
  shows "index_path path index (str_join (CHR ''/'') qs) =
    (let here = index (str_join (CHR ''/'') qs)
     in if butlast (parts_of path) = qs then (fst here, AList.update (last (parts_of path)) path (snd here))
        else if strict_prefix qs (parts_of path) then (List.insert (parts_of path ! length qs) (fst here), snd here)
        else here)"
proof -
  let ?ps = "parts_of path"
  have ne: "?ps \<noteq> []" by simp
  have pre: "strict_prefix qs ?ps \<longleftrightarrow> length qs < length ?ps \<and> take (length qs) ?ps = qs"
    by (metis append_take_drop_id prefix_length_less strict_prefix_def take_is_prefix prefix_def append_eq_conv_conj nat_less_le)
  have but: "butlast ?ps = qs \<longleftrightarrow> Suc (length qs) = length ?ps \<and> take (length qs) ?ps = qs"
  proof
    assume r: "Suc (length qs) = length ?ps \<and> take (length qs) ?ps = qs"
    have "length ?ps - 1 = length qs" using conjunct1 [OF r] by linarith
    then show "butlast ?ps = qs" using conjunct2 [OF r] by (simp add: butlast_conv_take)
  next
    assume "butlast ?ps = qs"
    then show "Suc (length qs) = length ?ps \<and> take (length qs) ?ps = qs"
      using ne by (metis Suc_pred' append_butlast_last_id append_eq_conv_conj length_butlast length_greater_0_conv)
  qed
  show ?thesis
    using index_parts [OF plain_path_parts [OF assms(1)] assms(2) ne, of "length ?ps"]
    by (auto simp: index_path_def Let_def pre but)
qed

lemma parts_inject: "parts_of p = parts_of q \<longleftrightarrow> p = q"
  by (metis str_join_split)

lemma build_index_snoc: "build_index (paths @ [path]) = index_path path (build_index paths)"
  by (simp add: build_index_def)

lemma index_dirs:
  assumes "\<forall>path \<in> set paths. plain_path path" and "plain_parts qs"
  shows "set (fst (build_index paths (str_join (CHR ''/'') qs))) =
    {x. \<exists>path \<in> set paths. strict_prefix (qs @ [x]) (parts_of path)}"
  using assms(1)
proof (induction paths rule: rev_induct)
  case (snoc path paths)
  let ?ps = "parts_of path"
  have "strict_prefix (qs @ [x]) ?ps \<longleftrightarrow> butlast ?ps \<noteq> qs \<and> strict_prefix qs ?ps \<and> x = ?ps ! length qs" for x
  proof
    assume "strict_prefix (qs @ [x]) ?ps"
    then obtain y ys where "?ps = qs @ x # y # ys" by (auto simp: strict_prefix_def prefix_def) (metis neq_Nil_conv)
    then show "butlast ?ps \<noteq> qs \<and> strict_prefix qs ?ps \<and> x = ?ps ! length qs" by (auto simp: strict_prefix_def butlast_append)
  next
    assume r: "butlast ?ps \<noteq> qs \<and> strict_prefix qs ?ps \<and> x = ?ps ! length qs"
    then obtain y ys where "?ps = qs @ y # ys" by (auto simp: strict_prefix_def prefix_def) (metis neq_Nil_conv)
    then show "strict_prefix (qs @ [x]) ?ps" using r by (cases ys) (auto simp: strict_prefix_def butlast_append)
  qed
  then show ?case using snoc assms(2) by (auto simp: build_index_snoc index_path_at Let_def)
qed (simp add: build_index_def)

lemma index_leaves:
  assumes "\<forall>path \<in> set paths. plain_path path" and "plain_parts qs"
  shows "distinct (map fst (snd (build_index paths (str_join (CHR ''/'') qs))))"
    and "map_of (snd (build_index paths (str_join (CHR ''/'') qs))) x = Some y \<longleftrightarrow> y \<in> set paths \<and> parts_of y = qs @ [x]"
proof -
  let ?leaves = "\<lambda>paths. snd (build_index paths (str_join (CHR ''/'') qs))"
  show "distinct (map fst (?leaves paths))"
    using assms(1)
  proof (induction paths rule: rev_induct)
    case (snoc path paths)
    then show ?case using assms(2) by (simp add: build_index_snoc index_path_at Let_def distinct_update)
  qed (simp add: build_index_def)
  show "map_of (?leaves paths) x = Some y \<longleftrightarrow> y \<in> set paths \<and> parts_of y = qs @ [x]"
    using assms(1)
  proof (induction paths rule: rev_induct)
    case (snoc path paths)
    have "butlast (parts_of path) = qs \<and> last (parts_of path) = x \<longleftrightarrow> parts_of path = qs @ [x]"
      using parts_ne [of path] by (metis append_butlast_last_id butlast_snoc last_snoc)
    then have "map_of (?leaves (paths @ [path])) x = (if parts_of path = qs @ [x] then Some path else map_of (?leaves paths) x)"
      using snoc.prems assms(2) by (auto simp: build_index_snoc index_path_at Let_def update_conv')
    then show ?case using snoc parts_inject [of y path] by auto
  qed (simp add: build_index_def)
qed

subsection \<open>The tree\<close>

text \<open>The nodes of the tree: the root and a directory for every proper prefix of a path, a leaf for every path.\<close>

definition prefix_node :: "string \<Rightarrow> string list \<Rightarrow> file_map_handle node" where
  "prefix_node repo_root qs = (if qs = [] then file_map_root repo_root else dir_node repo_root (butlast qs) (last qs))"

definition path_node :: "string \<Rightarrow> string \<Rightarrow> file_map_handle node" where
  "path_node repo_root path = leaf_node repo_root (last (parts_of path), path)"

definition tree_dirs :: "string list \<Rightarrow> string list set" where
  "tree_dirs paths = {qs. plain_parts qs \<and> (qs = [] \<or> (\<exists>path \<in> set paths. strict_prefix qs (parts_of path)))}"

definition file_map_good :: "string \<Rightarrow> string list \<Rightarrow> file_map_handle node \<Rightarrow> bool" where
  "file_map_good repo_root paths n \<longleftrightarrow> n \<in> prefix_node repo_root ` tree_dirs paths \<union> path_node repo_root ` set paths"

definition file_map_rank :: "string list \<Rightarrow> file_map_handle node \<Rightarrow> nat" where
  "file_map_rank paths n =
     (case nd_handle n of
        PathHandle _ \<Rightarrow> 0
      | PrefixHandle path \<Rightarrow>
          fold max (map (\<lambda>path. length (parts_of path)) paths) 0 - length (filter (\<lambda>p. p \<noteq> []) (parts_of path)))"

lemma prefix_node_sel [simp]:
  "nd_is_leaf (prefix_node repo_root qs) = False"
  "nd_handle (prefix_node repo_root qs) = PrefixHandle (str_join (CHR ''/'') qs)"
  "nd_ref (prefix_node repo_root qs) = ref_raw repo_root (str_join (CHR ''/'') qs)"
  by (simp_all add: prefix_node_def file_map_root_def dir_node_def Let_def)

lemma path_node_sel [simp]:
  "nd_is_leaf (path_node repo_root path)" "nd_handle (path_node repo_root path) = PathHandle path"
  "nd_ref (path_node repo_root path) = ref_raw repo_root path"
  by (simp_all add: path_node_def leaf_node_def)

lemma raw_extra [simp]: "extra_segments (ref_raw repo_root path) = parts_of path"
  by (simp add: extra_segments_def ref_raw_def)

lemma plain_prefix:
  assumes "strict_prefix qs (parts_of path)" and "plain_path path"
  shows "plain_parts qs"
proof -
  have "set qs \<subseteq> set (parts_of path)" using assms(1) by (intro set_mono_prefix) (simp add: strict_prefix_def)
  then show ?thesis using plain_path_parts [OF assms(2)] by (simp add: plain_parts_def subset_iff)
qed

lemma listing_set:
  assumes "\<forall>path \<in> set paths. plain_path path" and "plain_parts qs"
  shows "set (file_map_listing repo_root (build_index paths) (prefix_node repo_root qs)) =
    prefix_node repo_root ` {ps. ps \<noteq> [] \<and> butlast ps = qs \<and> (\<exists>path \<in> set paths. strict_prefix ps (parts_of path))} \<union>
    path_node repo_root ` {path \<in> set paths. butlast (parts_of path) = qs}"
proof -
  let ?at = "build_index paths (str_join (CHR ''/'') qs)"
  have listing: "file_map_listing repo_root (build_index paths) (prefix_node repo_root qs) =
      map (dir_node repo_root qs) (sort (fst ?at)) @ map (leaf_node repo_root) (sort_key fst (snd ?at))"
    by (simp add: file_map_listing_def filter_plain [OF assms(2)] split: prod.split)
  have leaves: "(x, y) \<in> set (snd ?at) \<longleftrightarrow> y \<in> set paths \<and> parts_of y = qs @ [x]" for x y
    using index_leaves(2) [OF assms] map_of_eq_Some_iff [OF index_leaves(1) [OF assms], of x y] by simp
  have "set (snd ?at) = (\<lambda>path. (last (parts_of path), path)) ` {path \<in> set paths. butlast (parts_of path) = qs}"
  proof (intro set_eqI iffI)
    fix e assume e: "e \<in> set (snd ?at)"
    then have "snd e \<in> set paths" "parts_of (snd e) = qs @ [fst e]" using leaves [of "fst e" "snd e"] by simp_all
    then show "e \<in> (\<lambda>path. (last (parts_of path), path)) ` {path \<in> set paths. butlast (parts_of path) = qs}"
      by (intro image_eqI [of _ _ "snd e"]) simp_all
  next
    fix e assume "e \<in> (\<lambda>path. (last (parts_of path), path)) ` {path \<in> set paths. butlast (parts_of path) = qs}"
    then obtain path where e: "e = (last (parts_of path), path)" "path \<in> set paths" "butlast (parts_of path) = qs" by auto
    then have "parts_of path = qs @ [last (parts_of path)]" using append_butlast_last_id [OF parts_ne [of path]] by simp
    then have "(last (parts_of path), path) \<in> set (snd ?at)" using leaves [of "last (parts_of path)" path] e(2) by blast
    then show "e \<in> set (snd ?at)" by (simp only: e(1))
  qed
  then have "leaf_node repo_root ` set (snd ?at) = path_node repo_root ` {path \<in> set paths. butlast (parts_of path) = qs}"
    by (simp add: path_node_def [abs_def] image_image)
  moreover have "dir_node repo_root qs ` set (fst ?at) =
      prefix_node repo_root ` {ps. ps \<noteq> [] \<and> butlast ps = qs \<and> (\<exists>path \<in> set paths. strict_prefix ps (parts_of path))}"
  proof (intro set_eqI iffI)
    fix n assume "n \<in> dir_node repo_root qs ` set (fst ?at)"
    then obtain x path where "n = dir_node repo_root qs x" "path \<in> set paths" "strict_prefix (qs @ [x]) (parts_of path)"
      unfolding index_dirs [OF assms] by auto
    then show "n \<in> prefix_node repo_root ` {ps. ps \<noteq> [] \<and> butlast ps = qs \<and> (\<exists>path \<in> set paths. strict_prefix ps (parts_of path))}"
      by (intro image_eqI [of _ _ "qs @ [x]"]) (simp_all add: prefix_node_def, blast)
  next
    fix n assume "n \<in> prefix_node repo_root ` {ps. ps \<noteq> [] \<and> butlast ps = qs \<and> (\<exists>path \<in> set paths. strict_prefix ps (parts_of path))}"
    then obtain ps path where "n = prefix_node repo_root ps" "ps \<noteq> []" "butlast ps = qs" "path \<in> set paths" "strict_prefix ps (parts_of path)"
      by auto
    then show "n \<in> dir_node repo_root qs ` set (fst ?at)"
      unfolding index_dirs [OF assms] by (intro image_eqI [of _ _ "last ps"]) (simp add: prefix_node_def, force)
  qed
  ultimately show ?thesis
    by (simp only: listing set_append set_map set_sort)
qed

lemma fold_max_ge: "x \<in> set xs \<or> x \<le> m \<Longrightarrow> x \<le> fold max xs (m :: nat)"
  by (induction xs arbitrary: m) (fastforce simp: le_max_iff_disj)+

lemma file_map_tree:
  assumes "\<forall>path \<in> set paths. plain_path path"
  shows "unit_tree (file_map_provider repo_root paths) (file_map_listing repo_root (build_index paths))
    (file_map_good repo_root paths) (file_map_rank paths)"
proof
  show "file_map_good repo_root paths (up_root (file_map_provider repo_root paths))"
    by (auto simp: file_map_good_def file_map_provider_def tree_dirs_def plain_parts_def prefix_node_def intro!: image_eqI [of _ _ "[]"])
  show "up_children (file_map_provider repo_root paths) n offset limit =
      Inr (paginate (file_map_listing repo_root (build_index paths) n) offset limit)" for n offset limit
    by (simp add: file_map_provider_def file_map_children_def)
next
  fix n c
  assume "file_map_good repo_root paths n" and "\<not> nd_is_leaf n"
    and c: "c \<in> set (file_map_listing repo_root (build_index paths) n)"
  then obtain qs where n: "n = prefix_node repo_root qs" and qs: "plain_parts qs" "qs \<in> tree_dirs paths"
    by (auto simp: file_map_good_def tree_dirs_def)
  have cases: "(\<exists>ps path. c = prefix_node repo_root ps \<and> ps \<noteq> [] \<and> butlast ps = qs \<and> path \<in> set paths \<and> strict_prefix ps (parts_of path)) \<or>
      (\<exists>path \<in> set paths. c = path_node repo_root path)"
    using c unfolding n listing_set [OF assms qs(1)] by blast
  then show "file_map_good repo_root paths c"
    using assms by (auto simp: file_map_good_def tree_dirs_def dest: plain_prefix)
  assume "\<not> nd_is_leaf c"
  then obtain ps path where ps: "c = prefix_node repo_root ps" "ps \<noteq> []" "butlast ps = qs" "path \<in> set paths" "strict_prefix ps (parts_of path)"
    using cases by auto
  have "length (parts_of path) \<le> fold max (map (\<lambda>path. length (parts_of path)) paths) 0"
    using ps(4) by (intro fold_max_ge) auto
  moreover have "Suc (length qs) = length ps" using ps(2,3) by (metis length_append_singleton append_butlast_last_id)
  moreover have "plain_parts ps" using ps(4,5) assms plain_prefix by blast
  ultimately show "file_map_rank paths c < file_map_rank paths n"
    using prefix_length_less [OF ps(5)] by (simp add: file_map_rank_def n ps(1) filter_plain qs(1))
qed

interpretation file_map: unit_tree "file_map_provider repo_root (filter plain_path paths)"
    "file_map_listing repo_root (build_index (filter plain_path paths))"
    "file_map_good repo_root (filter plain_path paths)" "file_map_rank (filter plain_path paths)" for repo_root paths
  by (rule file_map_tree) simp

subsection \<open>Finding a path\<close>

lemma good_extra:
  assumes "file_map_good repo_root paths n" and "node_extra n = parts_of path"
  shows "nd_ref n = ref_raw repo_root path"
  using assms parts_inject by (auto simp: file_map_good_def)

lemma route_down:
  assumes "\<forall>path \<in> set paths. plain_path path" and "path \<in> set paths" and "prefix ps (parts_of path)" and "ps \<noteq> []"
    and target: "nd_ref n = ref_raw repo_root (str_join (CHR ''/'') ps)"
    and last: "n \<in> set (file_map_listing repo_root (build_index paths) (prefix_node repo_root (butlast ps)))"
    and "k < length ps"
  shows "route (file_map_listing repo_root (build_index paths)) ps (map (\<lambda>d. prefix_node repo_root (take d ps)) [k..<length ps] @ [n])"
  using assms(7)
proof (induction "length ps - k" arbitrary: k)
  case (Suc j)
  let ?listing = "file_map_listing repo_root (build_index paths)"
  let ?at = "\<lambda>d. prefix_node repo_root (take d ps)"
  have plain: "plain_parts ps"
    using assms(1-3) plain_path_parts by (fastforce simp: plain_parts_def dest: set_mono_prefix)
  have n: "node_extra n = ps" using target assms(4) by (simp add: split_plain plain)
  have extra: "node_extra (?at d) = (if d = 0 then [[]] else take d ps)" for d
    using assms(4) by (simp add: split_plain plain_take [OF plain])
  have "[] \<notin> set ps" using plain by (auto simp: plain_parts_def)
  then have differs: "node_extra (?at k) \<noteq> ps"
    unfolding extra using Suc.prems arg_cong [of "take k ps" ps length] by auto
  show ?case
  proof (cases "Suc k = length ps")
    case True
    then have "take k ps = butlast ps" by (simp add: butlast_conv_take flip: True)
    then show ?thesis using True n differs last by (simp add: upt_conv_Cons)
  next
    case False
    then have k: "Suc k < length ps" using Suc.prems by simp
    have cons: "map ?at [k..<length ps] = ?at k # map ?at [Suc k..<length ps]"
        "map ?at [Suc k..<length ps] = ?at (Suc k) # map ?at [Suc (Suc k)..<length ps]"
      using k by (simp_all add: upt_conv_Cons)
    have "route ?listing ps (map ?at [Suc k..<length ps] @ [n])"
    proof (rule Suc.hyps(1))
      show "j = length ps - Suc k" using Suc.hyps(2) by linarith
      show "Suc k < length ps" by (rule k)
    qed
    then have down: "route ?listing ps (?at (Suc k) # map ?at [Suc (Suc k)..<length ps] @ [n])" by (simp only: cons(2) append_Cons)
    have "take (Suc k) ps \<noteq> ps" using k arg_cong [of "take (Suc k) ps" ps length] by auto
    then have "strict_prefix (take (Suc k) ps) ps" by (simp add: strict_prefix_def take_is_prefix)
    then have "strict_prefix (take (Suc k) ps) (parts_of path)" using assms(3) by (rule prefix_order.less_le_trans)
    then have "?at (Suc k) \<in> set (?listing (?at k))"
      using assms(2) k by (subst listing_set [OF assms(1) plain_take [OF plain]])
        (auto intro!: image_eqI [of _ _ "take (Suc k) ps"] simp: butlast_take)
    moreover have "is_strict_prefix (node_extra (?at (Suc k))) ps" unfolding extra using k by (simp add: is_strict_prefix_def)
    ultimately show ?thesis using differs down by (simp only: cons append_Cons route.simps prefix_node_sel) simp
  qed
qed simp

lemma route_exists:
  assumes "\<forall>path \<in> set paths. plain_path path" and "path = [] \<or> (\<exists>q \<in> set paths. prefix (parts_of path) (parts_of q))"
  shows "\<exists>chain. route (file_map_listing repo_root (build_index paths)) (parts_of path) chain \<and> hd chain = file_map_root repo_root"
proof (cases "path = []")
  case True
  then have "route (file_map_listing repo_root (build_index paths)) (parts_of path) [file_map_root repo_root]"
    by (simp add: file_map_root_def)
  then show ?thesis by (intro exI [of _ "[file_map_root repo_root]"]) simp
next
  case False
  then obtain q where q: "q \<in> set paths" "prefix (parts_of path) (parts_of q)" using assms(2) by blast
  let ?ps = "parts_of path"
  define n where "n = (if path = q then path_node repo_root path else prefix_node repo_root ?ps)"
  have plain: "plain_parts ?ps"
    using assms(1) q plain_path_parts set_mono_prefix [OF q(2)] unfolding plain_parts_def by blast
  then have but: "plain_parts (butlast ?ps)" by (auto simp: plain_parts_def dest: in_set_butlastD)
  have "path \<noteq> q \<Longrightarrow> strict_prefix ?ps (parts_of q)" using q(2) parts_inject by (simp add: strict_prefix_def)
  then have "n \<in> set (file_map_listing repo_root (build_index paths) (prefix_node repo_root (butlast ?ps)))"
    using q(1) unfolding listing_set [OF assms(1) but] n_def
    by (cases "path = q") (simp, intro UnI1 image_eqI [of _ _ ?ps], auto)
  moreover have "nd_ref n = ref_raw repo_root (str_join (CHR ''/'') ?ps)" by (simp add: n_def str_join_split)
  ultimately have "route (file_map_listing repo_root (build_index paths)) ?ps
      (map (\<lambda>d. prefix_node repo_root (take d ?ps)) [0..<length ?ps] @ [n])"
    using q by (intro route_down [OF assms(1)]) simp_all
  then show ?thesis by (intro exI conjI) (auto simp: upt_conv_Cons prefix_node_def)
qed

lemma good_target:
  assumes "file_map_good repo_root paths n" and "node_extra n = parts_of path"
  shows "path = [] \<or> (\<exists>q \<in> set paths. prefix (parts_of path) (parts_of q))"
    and "\<lbrakk>path \<in> set paths; plain_path path; \<forall>q \<in> set paths. \<not> strict_prefix (parts_of path) (parts_of q)\<rbrakk> \<Longrightarrow> n = path_node repo_root path"
proof -
  have "n = path_node repo_root path \<and> path \<in> set paths \<or> path = [] \<or> (\<exists>q \<in> set paths. strict_prefix (parts_of path) (parts_of q))"
    using assms parts_inject [of path "[]"] by (auto simp: file_map_good_def tree_dirs_def split_plain parts_inject split: if_splits)
  then show "path = [] \<or> (\<exists>q \<in> set paths. prefix (parts_of path) (parts_of q))"
    and "\<lbrakk>path \<in> set paths; plain_path path; \<forall>q \<in> set paths. \<not> strict_prefix (parts_of path) (parts_of q)\<rbrakk> \<Longrightarrow> n = path_node repo_root path"
    by (auto simp: strict_prefix_def plain_path_def)
qed

text \<open>C11.
  Looking up a path in the file-map tree always comes back, and with the right answer. For a table
  whose paths have no empty component, the search for any raw reference ends without an error; it
  finds nothing exactly when the path is neither a path of the table, nor a directory of one, nor
  the root; otherwise it gives a chain of nodes from the root to a node of that reference, with the
  complete listing of every node above it. A path of the table that is not also a directory is
  found as its leaf.
\<close>

theorem file_map_resolves:
  assumes "\<forall>path \<in> set paths. plain_path path"
  shows "\<exists>r. find_path_with_children (file_map_provider repo_root paths) (ref_raw repo_root path) = Some (Inr r) \<and>
    (r = None \<longleftrightarrow> path \<noteq> [] \<and> (\<forall>q \<in> set paths. \<not> prefix (parts_of path) (parts_of q))) \<and>
    (\<forall>chain steps. r = Some (chain, steps) \<longrightarrow>
       hd chain = file_map_root repo_root \<and> nd_ref (last chain) = ref_raw repo_root path \<and>
       steps = map (file_map_listing repo_root (build_index paths)) (butlast chain) \<and>
       (path \<in> set paths \<and> (\<forall>q \<in> set paths. \<not> strict_prefix (parts_of path) (parts_of q)) \<longrightarrow>
          last chain = path_node repo_root path))"
proof -
  let ?listing = "file_map_listing repo_root (build_index paths)"
  have plain: "filter plain_path paths = paths" using assms by (simp add: filter_True)
  note found = file_map.find_path_total [of repo_root paths "ref_raw repo_root path", unfolded plain]
    and good = file_map.route_good [of repo_root paths, unfolded plain] file_map.root_good [of repo_root paths, unfolded plain]
  obtain r where r: "find_path_with_children (file_map_provider repo_root paths) (ref_raw repo_root path) = Some (Inr r)"
    and none: "r = None \<Longrightarrow> \<forall>chain. route ?listing (parts_of path) chain \<longrightarrow> hd chain \<noteq> file_map_root repo_root"
    and some: "\<And>chain steps. r = Some (chain, steps) \<Longrightarrow>
      route ?listing (parts_of path) chain \<and> hd chain = file_map_root repo_root \<and> steps = map ?listing (butlast chain)"
    using found by (auto simp: file_map_provider_def split: option.splits)
  have at_end: "file_map_good repo_root paths (last chain) \<and> node_extra (last chain) = parts_of path"
    if "r = Some (chain, steps)" for chain steps
  proof -
    have route: "route ?listing (parts_of path) chain" and "hd chain = file_map_root repo_root" using some [OF that] by auto
    then have "\<forall>n \<in> set chain. file_map_good repo_root paths n" using good by (simp add: file_map_provider_def)
    then show ?thesis using route route_ne [OF route] route_last [OF route] by simp
  qed
  show ?thesis
  proof (intro exI conjI allI impI)
    fix chain steps
    assume found_it: "r = Some (chain, steps)"
    show "hd chain = file_map_root repo_root" "steps = map ?listing (butlast chain)" using some [OF found_it] by blast+
    show "nd_ref (last chain) = ref_raw repo_root path" using at_end [OF found_it] good_extra by blast
    assume "path \<in> set paths \<and> (\<forall>q \<in> set paths. \<not> strict_prefix (parts_of path) (parts_of q))"
    then show "last chain = path_node repo_root path" using at_end [OF found_it] good_target(2) assms by blast
  next
    show "r = None \<longleftrightarrow> path \<noteq> [] \<and> (\<forall>q \<in> set paths. \<not> prefix (parts_of path) (parts_of q))"
    proof
      assume "r = None"
      then show "path \<noteq> [] \<and> (\<forall>q \<in> set paths. \<not> prefix (parts_of path) (parts_of q))"
        using none route_exists [OF assms, of path repo_root] by blast
    next
      assume "path \<noteq> [] \<and> (\<forall>q \<in> set paths. \<not> prefix (parts_of path) (parts_of q))"
      then show "r = None" using at_end good_target(1) by (cases r) (simp, metis prod.collapse)
    qed
  qed (rule r)
qed

lemma file_map_resolves_witness:
  "\<exists>r. find_path_with_children (file_map_provider ''repo'' [''vm/disk'', ''vm/log'']) (ref_raw ''repo'' ''vm/log'') = Some (Inr r) \<and>
    (\<forall>chain steps. r = Some (chain, steps) \<longrightarrow> last chain = path_node ''repo'' ''vm/log'') \<and> r \<noteq> None"
proof -
  have "\<forall>path \<in> set [''vm/disk'', ''vm/log'']. plain_path path" by (simp add: plain_path_def)
  from file_map_resolves [OF this, of "''repo''" "''vm/log''"] show ?thesis
    by (simp add: strict_prefix_def) blast
qed

end
