(* ===== verification/UnitModel.thy ===== *)
theory UnitModel
  imports BrowserKeys Resolve
begin

text \<open>
  The screen that browses one version (\<open>browser/core/unit\<close>): \<open>update\<close> of its store, message by
  message, and the system it makes with its workers (\<open>runtime/unit_effects.py\<close>), which read
  the providers of \<open>Resolve\<close> while the user goes on, and whose results may come late, in any order,
  or not at all. A mapping is a partial function; a restorable unit is the node it was opened from.
\<close>

subsection \<open>The model\<close>

definition PROVIDER_SLOT :: "node_ref slot" where "PROVIDER_SLOT = \<lparr>sl_kind = ''provider'', sl_key = None\<rparr>"
definition DETAIL_SLOT :: "node_ref slot" where "DETAIL_SLOT = \<lparr>sl_kind = ''detail'', sl_key = None\<rparr>"
definition GOTO_SLOT :: "node_ref slot" where "GOTO_SLOT = \<lparr>sl_kind = ''goto'', sl_key = None\<rparr>"
definition UNIT_OPEN_SLOT :: "node_ref slot" where "UNIT_OPEN_SLOT = \<lparr>sl_kind = ''unit-open'', sl_key = None\<rparr>"

definition children_slot :: "node_ref \<Rightarrow> node_ref slot" where
  "children_slot ref = \<lparr>sl_kind = ''children'', sl_key = Some ref\<rparr>"

definition PREVIEW_READ_LIMIT :: nat where "PREVIEW_READ_LIMIT = 256 * 1024"
definition LIST_OVERVIEW_ITEM_CAP :: nat where "LIST_OVERVIEW_ITEM_CAP = 50"
definition LIST_OVERVIEW_MAX_CONCURRENT :: nat where "LIST_OVERVIEW_MAX_CONCURRENT = 8"
definition CHILDREN_PAGE_SIZE :: nat where "CHILDREN_PAGE_SIZE = 500"

datatype unit_purpose = ExportPurpose | HexPreviewPurpose

record goto_state =
  gs_target :: node_ref
  gs_root_expand_skipped :: bool

record landing =
  la_request :: nat
  la_folder :: node_ref
  la_leaf :: "node_ref option"
  la_expand :: bool

datatype detail_body =
  DetailIdle | DetailLoading | DetailPreview string | DetailNote string | DetailError string
| DetailOverview "(string \<times> string) list list" bool

record 'h detail_state =
  ds_node :: "'h node"
  ds_body :: detail_body

record 'h loaded_level =
  ll_children :: "'h node list"
  ll_exhausted :: bool

definition next_offset :: "'h loaded_level \<Rightarrow> nat" where
  "next_offset l = length (ll_children l)"

record filter_state =
  fs_ref :: node_ref
  fs_text :: string

record 'h unit_model =
  um_epoch :: nat
  um_inflight :: "node_ref inflight"
  um_pending :: "node_ref slot set"
  um_next_request :: nat
  um_provider :: "nat option"
  um_root :: "'h node option"
  um_root_error :: "string option"
  um_loaded :: "node_ref \<Rightarrow> 'h loaded_level option"
  um_node_index :: "node_ref \<Rightarrow> 'h node option"
  um_errors :: "node_ref \<Rightarrow> string option"
  um_filter :: "filter_state option"
  um_selected :: "node_ref option"
  um_detail :: "'h detail_state option"
  um_verbose :: bool
  um_goto :: "goto_state option"
  um_landing :: "landing option"

definition unit_model_init :: "'h unit_model" where
  "unit_model_init =
     \<lparr>um_epoch = 0, um_inflight = (\<lambda>_. None), um_pending = {}, um_next_request = 1, um_provider = None, um_root = None,
      um_root_error = None, um_loaded = (\<lambda>_. None), um_node_index = (\<lambda>_. None), um_errors = (\<lambda>_. None), um_filter = None,
      um_selected = None, um_detail = None, um_verbose = False, um_goto = None, um_landing = None\<rparr>"

definition has_pending_children :: "'h unit_model \<Rightarrow> node_ref \<Rightarrow> bool" where
  "has_pending_children m ref \<longleftrightarrow> children_slot ref \<in> um_pending m"

definition take_request :: "'h unit_model \<Rightarrow> nat \<times> 'h unit_model" where
  "take_request m = (um_next_request m, m\<lparr>um_next_request := um_next_request m + 1\<rparr>)"

subsection \<open>Messages and commands\<close>

datatype 'h unit_msg =
  RootRequested bool bool
| RootLoaded nat nat nat "'h node"
| RootLoadFailed nat nat string
| ChildrenRequested "'h node"
| ChildrenLoaded nat nat node_ref "'h node list" bool
| ChildrenLoadFailed nat nat node_ref string
| LoadMoreRequested "'h node"
| MoreChildrenLoaded nat nat node_ref "'h node list" bool
| MoreChildrenLoadFailed nat nat node_ref string
| GotoRequested node_ref
| GotoResolved nat nat "'h node list" "'h node list list"
| GotoNotFound nat nat
| GotoFailed nat nat string
| UnitOpenRequested "'h node" unit_purpose
| UnitOpened nat nat "'h node" unit_purpose
| UnitOpenFailed nat nat string
| FilterOpened node_ref
| FilterTextChanged string
| FilterClosed
| FolderSelected "'h node"
| DetailRequested "'h node"
| DetailResolved nat nat detail_body
| VerboseSet bool

datatype 'h unit_cmd =
  LoadRoot (cmd_epoch: nat) (cmd_request: nat) bool bool
| CloseProvider nat
| LoadChildren (cmd_epoch: nat) (cmd_request: nat) nat "'h node" nat nat
| LoadPreview (cmd_epoch: nat) (cmd_request: nat) nat "'h node" nat
| LoadListOverview (cmd_epoch: nat) (cmd_request: nat) nat "'h node" nat nat nat
| ResolveGoto (cmd_epoch: nat) (cmd_request: nat) nat node_ref
| OpenUnit (cmd_epoch: nat) (cmd_request: nat) nat "'h node" unit_purpose
| ShowUnit "'h node" unit_purpose
| CancelDetailFetch
| UnitNotify notify

type_synonym 'h unit_result = "('h unit_model \<times> 'h unit_cmd list) res"

definition information :: "string \<Rightarrow> 'h unit_cmd" where
  "information message = UnitNotify \<lparr>nt_message = message, nt_severity = SevInformation, nt_title = None\<rparr>"

definition unit_warning :: "string \<Rightarrow> 'h unit_cmd" where
  "unit_warning message = UnitNotify \<lparr>nt_message = message, nt_severity = SevWarning, nt_title = None\<rparr>"

text \<open>The texts of \<open>strings.py\<close>; a dash is its UTF-8 encoding.\<close>

definition EM_DASH :: string where "EM_DASH = [CHR 0xE2, CHR 0x80, CHR 0x94]"
definition UNIT_LOAD_MORE_NOTHING_TO_LOAD_WARNING :: string where
  "UNIT_LOAD_MORE_NOTHING_TO_LOAD_WARNING = ''nothing loaded under this level yet '' @ EM_DASH @ '' expand it first''"
definition UNIT_LOAD_MORE_ALREADY_COMPLETE_WARNING :: string where
  "UNIT_LOAD_MORE_ALREADY_COMPLETE_WARNING = ''everything at this level is already loaded''"
definition UNIT_LOAD_MORE_ALREADY_LOADING_WARNING :: string where
  "UNIT_LOAD_MORE_ALREADY_LOADING_WARNING = ''already loading more '' @ EM_DASH @ '' please wait''"
definition GOTO_REF_NOT_FOUND_WARNING :: string where
  "GOTO_REF_NOT_FOUND_WARNING = ''ref not found in this repository''"
definition UNIT_LOAD_MORE_NOTIFY :: "nat \<Rightarrow> nat \<Rightarrow> string" where
  "UNIT_LOAD_MORE_NOTIFY loaded total_count = ''loaded '' @ dec_str loaded @ '' more ('' @ dec_str total_count @ '' total)''"

subsection \<open>The handlers\<close>

definition on_root_requested :: "bool \<Rightarrow> bool \<Rightarrow> 'h unit_model \<Rightarrow> 'h unit_model \<times> 'h unit_cmd list" where
  "on_root_requested invalidate force_raw m =
     (let new_epoch = um_epoch m + 1;
          (request, m) = take_request m;
          close_cmds = (case um_provider m of Some p \<Rightarrow> [CloseProvider p] | None \<Rightarrow> []);
          m' = m\<lparr>um_epoch := new_epoch, um_inflight := [PROVIDER_SLOT \<mapsto> request], um_pending := {}, um_provider := None,
                 um_root := None, um_root_error := None, um_loaded := (\<lambda>_. None), um_node_index := (\<lambda>_. None),
                 um_errors := (\<lambda>_. None), um_filter := None, um_selected := None, um_detail := None,
                 um_goto := (if um_provider m = None then um_goto m else None), um_landing := None\<rparr>
      in (m', close_cmds @ [LoadRoot new_epoch request invalidate force_raw]))"

definition start_goto :: "goto_state \<Rightarrow> 'h unit_model \<Rightarrow> 'h unit_result" where
  "start_goto goto m =
     (let (request, m) = take_request m
      in case um_provider m of
           None \<Rightarrow> Inl PyAssertionError
         | Some p \<Rightarrow> Inr (m\<lparr>um_goto := Some goto, um_inflight := (um_inflight m)(GOTO_SLOT \<mapsto> request)\<rparr>,
                          [ResolveGoto (um_epoch m) request p (gs_target goto)]))"

definition on_root_loaded :: "nat \<Rightarrow> nat \<Rightarrow> nat \<Rightarrow> 'h node \<Rightarrow> 'h unit_model \<Rightarrow> 'h unit_result" where
  "on_root_loaded epoch request p root m =
     (if is_stale (um_epoch m) (um_inflight m) PROVIDER_SLOT epoch request then Inr (m, [CloseProvider p])
      else
        let m = m\<lparr>um_provider := Some p, um_root := Some root, um_root_error := None, um_selected := Some (nd_ref root)\<rparr>
        in case um_goto m of
             None \<Rightarrow> Inr (m, [])
           | Some g \<Rightarrow> start_goto \<lparr>gs_target = gs_target g, gs_root_expand_skipped = True\<rparr> m)"

definition dispatch_children :: "'h node \<Rightarrow> nat \<Rightarrow> 'h unit_model \<Rightarrow> 'h unit_result" where
  "dispatch_children n offset m =
     (let sl = children_slot (nd_ref n);
          (request, m) = take_request m;
          m' = m\<lparr>um_inflight := (um_inflight m)(sl \<mapsto> request), um_pending := insert sl (um_pending m)\<rparr>
      in case um_provider m of
           None \<Rightarrow> Inl PyAssertionError
         | Some p \<Rightarrow> Inr (m', [LoadChildren (um_epoch m) request p n offset CHILDREN_PAGE_SIZE]))"

definition on_children_requested :: "'h node \<Rightarrow> 'h unit_model \<Rightarrow> 'h unit_result" where
  "on_children_requested n m =
     (if um_loaded m (nd_ref n) \<noteq> None \<or> has_pending_children m (nd_ref n) then Inr (m, []) else dispatch_children n 0 m)"

definition on_children_loaded :: "nat \<Rightarrow> nat \<Rightarrow> node_ref \<Rightarrow> 'h node list \<Rightarrow> bool \<Rightarrow> 'h unit_model \<Rightarrow> 'h unit_model" where
  "on_children_loaded epoch request ref children exhausted m =
     (if is_stale (um_epoch m) (um_inflight m) (children_slot ref) epoch request then m
      else m\<lparr>um_loaded := (um_loaded m)(ref \<mapsto> \<lparr>ll_children = children, ll_exhausted = exhausted\<rparr>),
             um_node_index := um_node_index m ++ map_of (rev (map (\<lambda>c. (nd_ref c, c)) children)),
             um_errors := (um_errors m)(ref := None),
             um_pending := um_pending m - {children_slot ref}\<rparr>)"

definition on_children_load_failed :: "nat \<Rightarrow> nat \<Rightarrow> node_ref \<Rightarrow> string \<Rightarrow> 'h unit_model \<Rightarrow> 'h unit_model" where
  "on_children_load_failed epoch request ref message m =
     (if is_stale (um_epoch m) (um_inflight m) (children_slot ref) epoch request then m
      else m\<lparr>um_errors := (um_errors m)(ref \<mapsto> message), um_pending := um_pending m - {children_slot ref}\<rparr>)"

definition on_load_more_requested :: "'h node \<Rightarrow> 'h unit_model \<Rightarrow> 'h unit_result" where
  "on_load_more_requested n m =
     (case um_loaded m (nd_ref n) of
        None \<Rightarrow> Inr (m, [unit_warning UNIT_LOAD_MORE_NOTHING_TO_LOAD_WARNING])
      | Some level \<Rightarrow>
          if ll_exhausted level then Inr (m, [unit_warning UNIT_LOAD_MORE_ALREADY_COMPLETE_WARNING])
          else if has_pending_children m (nd_ref n) then Inr (m, [unit_warning UNIT_LOAD_MORE_ALREADY_LOADING_WARNING])
          else dispatch_children n (next_offset level) m)"

definition on_more_children_loaded :: "nat \<Rightarrow> nat \<Rightarrow> node_ref \<Rightarrow> 'h node list \<Rightarrow> bool \<Rightarrow> 'h unit_model \<Rightarrow> 'h unit_model \<times> 'h unit_cmd list" where
  "on_more_children_loaded epoch request ref further exhausted m =
     (if is_stale (um_epoch m) (um_inflight m) (children_slot ref) epoch request then (m, [])
      else
        let base = (case um_loaded m ref of Some level \<Rightarrow> ll_children level | None \<Rightarrow> []);
            children = base @ further
        in (m\<lparr>um_loaded := (um_loaded m)(ref \<mapsto> \<lparr>ll_children = children, ll_exhausted = exhausted\<rparr>),
              um_node_index := um_node_index m ++ map_of (rev (map (\<lambda>c. (nd_ref c, c)) further)),
              um_pending := um_pending m - {children_slot ref}\<rparr>,
            [information (UNIT_LOAD_MORE_NOTIFY (length further) (length children))]))"

definition on_goto_requested :: "node_ref \<Rightarrow> 'h unit_model \<Rightarrow> 'h unit_result" where
  "on_goto_requested target m =
     (if um_provider m = None then Inr (m\<lparr>um_goto := Some \<lparr>gs_target = target, gs_root_expand_skipped = False\<rparr>\<rparr>, [])
      else
        let skipped = (case um_goto m of Some g \<Rightarrow> gs_root_expand_skipped g | None \<Rightarrow> False)
        in start_goto \<lparr>gs_target = target, gs_root_expand_skipped = skipped\<rparr> m)"

definition select_folder :: "'h node \<Rightarrow> 'h unit_model \<Rightarrow> 'h unit_result" where
  "select_folder folder m =
     (if nd_role folder = ListOverview then Inr (m, [])
      else
        let m = m\<lparr>um_selected := Some (nd_ref folder)\<rparr>
        in if nd_role folder = FlatCategory then on_children_requested folder m else Inr (m, []))"

definition on_detail_requested :: "'h node \<Rightarrow> 'h unit_model \<Rightarrow> 'h unit_model \<times> 'h unit_cmd list" where
  "on_detail_requested n m =
     (let was_loading = (case um_detail m of Some d \<Rightarrow> ds_body d = DetailLoading | None \<Rightarrow> False);
          (request, m) = take_request m;
          m = m\<lparr>um_inflight := (um_inflight m)(DETAIL_SLOT \<mapsto> request)\<rparr>;
          fetches = (nd_is_leaf n \<or> nd_role n = ListOverview)
      in case um_provider m of
           Some p \<Rightarrow>
             if fetches
             then (m\<lparr>um_detail := Some \<lparr>ds_node = n, ds_body = DetailLoading\<rparr>\<rparr>,
                   [if nd_is_leaf n then LoadPreview (um_epoch m) request p n PREVIEW_READ_LIMIT
                    else LoadListOverview (um_epoch m) request p n LIST_OVERVIEW_ITEM_CAP PREVIEW_READ_LIMIT LIST_OVERVIEW_MAX_CONCURRENT])
             else (m\<lparr>um_detail := Some \<lparr>ds_node = n, ds_body = DetailIdle\<rparr>\<rparr>, if was_loading then [CancelDetailFetch] else [])
         | None \<Rightarrow> (m\<lparr>um_detail := Some \<lparr>ds_node = n, ds_body = DetailIdle\<rparr>\<rparr>, if was_loading then [CancelDetailFetch] else []))"

text \<open>The complete child list of every step, in the order of the chain; a later step of the same reference replaces it.\<close>

definition goto_steps :: "'h node list \<Rightarrow> 'h node list list \<Rightarrow> (node_ref \<times> 'h node list) list" where
  "goto_steps chain children_by_step =
     fold (\<lambda>(step, children). AList.update (nd_ref step) children) (zip chain children_by_step) []"

definition install_steps :: "(node_ref \<times> 'h node list) list \<Rightarrow> 'h unit_model \<Rightarrow> 'h unit_model" where
  "install_steps steps m =
     (let slots = children_slot ` fst ` set steps
      in m\<lparr>um_loaded := um_loaded m ++ map_of (map (\<lambda>(ref, c). (ref, \<lparr>ll_children = c, ll_exhausted = True\<rparr>)) steps),
           um_node_index := um_node_index m ++ map_of (rev (map (\<lambda>c. (nd_ref c, c)) (concat (map snd steps)))),
           um_inflight := (\<lambda>sl. if sl \<in> slots then None else um_inflight m sl),
           um_pending := um_pending m - slots,
           um_goto := None\<rparr>)"

definition on_goto_resolved :: "nat \<Rightarrow> nat \<Rightarrow> 'h node list \<Rightarrow> 'h node list list \<Rightarrow> 'h unit_model \<Rightarrow> 'h unit_result" where
  "on_goto_resolved epoch request chain children_by_step m =
     (if is_stale (um_epoch m) (um_inflight m) GOTO_SLOT epoch request then Inr (m, [])
      else if chain = [] then Inl PyIndexError
      else
        let m = install_steps (goto_steps chain children_by_step) m;
            target = last chain;
            to_leaf = (nd_is_leaf target \<and> length chain > 1);
            folder = (if to_leaf then chain ! (length chain - 2) else target);
            landed = \<lparr>la_request = request, la_folder = nd_ref folder,
                      la_leaf = (if to_leaf then Some (nd_ref target) else None), la_expand = to_leaf\<rparr>
        in bind_res (select_folder folder (m\<lparr>um_landing := Some landed\<rparr>)) (\<lambda>(m, select_cmds).
             case on_detail_requested target m of (m, detail_cmds) \<Rightarrow> Inr (m, select_cmds @ detail_cmds)))"

definition goto_ended_unlanded :: "nat \<Rightarrow> 'h unit_cmd \<Rightarrow> 'h unit_model \<Rightarrow> 'h unit_model \<times> 'h unit_cmd list" where
  "goto_ended_unlanded request notification m =
     (let landed =
        (case (um_goto m, um_root m) of
           (Some g, Some root) \<Rightarrow>
             if gs_root_expand_skipped g
             then Some \<lparr>la_request = request, la_folder = nd_ref root, la_leaf = None, la_expand = True\<rparr> else um_landing m
         | _ \<Rightarrow> um_landing m)
      in (m\<lparr>um_goto := None, um_landing := landed\<rparr>, [notification]))"

definition on_unit_open_requested :: "'h node \<Rightarrow> unit_purpose \<Rightarrow> 'h unit_model \<Rightarrow> 'h unit_model \<times> 'h unit_cmd list" where
  "on_unit_open_requested n purpose m =
     (case um_provider m of
        None \<Rightarrow> (m, [])
      | Some p \<Rightarrow>
          let (request, m) = take_request m
          in (m\<lparr>um_inflight := (um_inflight m)(UNIT_OPEN_SLOT \<mapsto> request)\<rparr>, [OpenUnit (um_epoch m) request p n purpose]))"

fun unit_update :: "'h unit_model \<Rightarrow> 'h unit_msg \<Rightarrow> 'h unit_result" where
  "unit_update m (RootRequested invalidate force_raw) = Inr (on_root_requested invalidate force_raw m)"
| "unit_update m (RootLoaded epoch request p root) = on_root_loaded epoch request p root m"
| "unit_update m (RootLoadFailed epoch request message) =
     Inr (if is_stale (um_epoch m) (um_inflight m) PROVIDER_SLOT epoch request then m
          else m\<lparr>um_root_error := Some message, um_goto := None\<rparr>, [])"
| "unit_update m (ChildrenRequested n) = on_children_requested n m"
| "unit_update m (ChildrenLoaded epoch request ref children exhausted) =
     Inr (on_children_loaded epoch request ref children exhausted m, [])"
| "unit_update m (ChildrenLoadFailed epoch request ref message) = Inr (on_children_load_failed epoch request ref message m, [])"
| "unit_update m (LoadMoreRequested n) = on_load_more_requested n m"
| "unit_update m (MoreChildrenLoaded epoch request ref further exhausted) =
     Inr (on_more_children_loaded epoch request ref further exhausted m)"
| "unit_update m (MoreChildrenLoadFailed epoch request ref message) =
     Inr (if is_stale (um_epoch m) (um_inflight m) (children_slot ref) epoch request then (m, [])
          else (m\<lparr>um_pending := um_pending m - {children_slot ref}\<rparr>, [unit_warning message]))"
| "unit_update m (GotoRequested target) = on_goto_requested target m"
| "unit_update m (GotoResolved epoch request chain children_by_step) = on_goto_resolved epoch request chain children_by_step m"
| "unit_update m (GotoNotFound epoch request) =
     Inr (if is_stale (um_epoch m) (um_inflight m) GOTO_SLOT epoch request then (m, [])
          else goto_ended_unlanded request (unit_warning GOTO_REF_NOT_FOUND_WARNING) m)"
| "unit_update m (GotoFailed epoch request message) =
     Inr (if is_stale (um_epoch m) (um_inflight m) GOTO_SLOT epoch request then (m, [])
          else goto_ended_unlanded request (unit_warning message) m)"
| "unit_update m (UnitOpenRequested n purpose) = Inr (on_unit_open_requested n purpose m)"
| "unit_update m (UnitOpened epoch request u purpose) =
     Inr (m, if is_stale (um_epoch m) (um_inflight m) UNIT_OPEN_SLOT epoch request then [] else [ShowUnit u purpose])"
| "unit_update m (UnitOpenFailed epoch request message) =
     Inr (m, if is_stale (um_epoch m) (um_inflight m) UNIT_OPEN_SLOT epoch request then [] else [unit_warning message])"
| "unit_update m (FilterOpened ref) = Inr (m\<lparr>um_filter := Some \<lparr>fs_ref = ref, fs_text = []\<rparr>\<rparr>, [])"
| "unit_update m (FilterTextChanged t) =
     Inr (case um_filter m of None \<Rightarrow> m | Some f \<Rightarrow> m\<lparr>um_filter := Some (f\<lparr>fs_text := t\<rparr>)\<rparr>, [])"
| "unit_update m FilterClosed = Inr (if um_filter m = None then m else m\<lparr>um_filter := None\<rparr>, [])"
| "unit_update m (FolderSelected folder) = select_folder folder m"
| "unit_update m (DetailRequested n) = Inr (on_detail_requested n m)"
| "unit_update m (DetailResolved epoch request body) =
     Inr (case um_detail m of
            None \<Rightarrow> m
          | Some d \<Rightarrow>
              if is_stale (um_epoch m) (um_inflight m) DETAIL_SLOT epoch request then m
              else m\<lparr>um_detail := Some \<lparr>ds_node = ds_node d, ds_body = body\<rparr>\<rparr>, [])"
| "unit_update m (VerboseSet v) = Inr (m\<lparr>um_verbose := v\<rparr>, [])"

end
