(* ===== verification/UnitBrowse.thy ===== *)
theory UnitBrowse
  imports UnitModel
begin

text \<open>
  The system of the unit screen: its model together with the workers that run its commands
  (\<open>runtime/unit_effects.py\<close>) and the providers that are open. A worker answers at most once, at any
  time, in any order, or is cancelled; the user goes on meanwhile.
\<close>

subsection \<open>The workers\<close>

fun loads :: "'h unit_cmd \<Rightarrow> bool" where
  "loads (LoadRoot _ _ _ _) = True"
| "loads (LoadChildren _ _ _ _ _ _) = True"
| "loads (LoadPreview _ _ _ _ _) = True"
| "loads (LoadListOverview _ _ _ _ _ _ _) = True"
| "loads (ResolveGoto _ _ _ _) = True"
| "loads (OpenUnit _ _ _ _ _) = True"
| "loads _ = False"

text \<open>The provider a worker reads.\<close>

fun cmd_provider :: "'h unit_cmd \<Rightarrow> nat option" where
  "cmd_provider (LoadChildren _ _ h _ _ _) = Some h"
| "cmd_provider (LoadPreview _ _ h _ _) = Some h"
| "cmd_provider (LoadListOverview _ _ h _ _ _ _) = Some h"
| "cmd_provider (ResolveGoto _ _ h _) = Some h"
| "cmd_provider (OpenUnit _ _ h _ _) = Some h"
| "cmd_provider _ = None"

fun closes :: "'h unit_cmd \<Rightarrow> bool" where
  "closes (CloseProvider _) = True"
| "closes _ = False"

definition workers :: "'h unit_cmd list \<Rightarrow> 'h unit_cmd set" where
  "workers cmds = {c \<in> set cmds. loads c \<or> closes c}"

definition children_success :: "nat \<Rightarrow> nat \<Rightarrow> node_ref \<Rightarrow> nat \<Rightarrow> nat \<Rightarrow> 'h node list \<Rightarrow> 'h unit_msg" where
  "children_success epoch request ref offset limit children =
     (let exhausted = length children < limit
      in if offset \<noteq> 0 then MoreChildrenLoaded epoch request ref children exhausted
         else ChildrenLoaded epoch request ref children exhausted)"

definition children_failure :: "nat \<Rightarrow> nat \<Rightarrow> node_ref \<Rightarrow> nat \<Rightarrow> string \<Rightarrow> 'h unit_msg" where
  "children_failure epoch request ref offset message =
     (if offset \<noteq> 0 then MoreChildrenLoadFailed epoch request ref message else ChildrenLoadFailed epoch request ref message)"

text \<open>
  The message a worker ends with; \<open>prov\<close> gives the provider of every handle, and \<open>k\<close> is the handle
  \<open>put_provider\<close> gives to the next provider.
\<close>

inductive answers :: "(nat \<Rightarrow> 'h unit_provider) \<Rightarrow> nat \<Rightarrow> 'h unit_cmd \<Rightarrow> 'h unit_msg \<Rightarrow> bool" for prov k where
  "answers prov k (LoadRoot e r i f) (RootLoaded e r k (up_root (prov k)))"
| "answers prov k (LoadRoot e r i f) (RootLoadFailed e r message)"
| "up_children (prov h) n offset (Some limit) = Inr children \<Longrightarrow>
   answers prov k (LoadChildren e r h n offset limit) (children_success e r (nd_ref n) offset limit children)"
| "up_children (prov h) n offset (Some limit) = Inl err \<Longrightarrow>
   answers prov k (LoadChildren e r h n offset limit) (children_failure e r (nd_ref n) offset message)"
| "answers prov k (LoadPreview e r h n limit) (DetailResolved e r body)"
| "answers prov k (LoadListOverview e r h n cap limit concurrent) (DetailResolved e r body)"
| "find_path_with_children (prov h) target = Some (Inr (Some (chain, steps))) \<Longrightarrow>
   answers prov k (ResolveGoto e r h target) (GotoResolved e r chain steps)"
| "find_path_with_children (prov h) target = Some (Inr None) \<Longrightarrow> answers prov k (ResolveGoto e r h target) (GotoNotFound e r)"
| "find_path_with_children (prov h) target = Some (Inl err) \<Longrightarrow> answers prov k (ResolveGoto e r h target) (GotoFailed e r message)"
| "answers prov k (OpenUnit e r h n purpose) (UnitOpened e r u purpose)"
| "answers prov k (OpenUnit e r h n purpose) (UnitOpenFailed e r message)"

text \<open>The provider a worker has put in the resource table before it dispatches its message.\<close>

fun opens :: "'h unit_msg \<Rightarrow> nat option" where
  "opens (RootLoaded _ _ h _) = Some h"
| "opens _ = None"

definition live_after :: "'h unit_msg \<Rightarrow> nat set \<Rightarrow> nat set" where
  "live_after msg live = set_option (opens msg) \<union> live"

definition next_after :: "'h unit_msg \<Rightarrow> nat \<Rightarrow> nat" where
  "next_after msg k = (case opens msg of None \<Rightarrow> k | Some _ \<Rightarrow> Suc k)"

lemma after_simps [simp]:
  "live_after (RootLoaded e r h n) live = insert h live" "next_after (RootLoaded e r h n) k = Suc k"
  "opens msg = None \<Longrightarrow> live_after msg live = live" "opens msg = None \<Longrightarrow> next_after msg k = k"
  by (simp_all add: live_after_def next_after_def)

lemma children_open_nothing [simp]:
  "opens (children_success e r ref offset limit children) = None" "opens (children_failure e r ref offset message) = None"
  by (simp_all add: children_success_def children_failure_def Let_def)

fun user_msg :: "'h unit_msg \<Rightarrow> bool" where
  "user_msg (RootRequested _ _) = True"
| "user_msg (ChildrenRequested _) = True"
| "user_msg (LoadMoreRequested _) = True"
| "user_msg (GotoRequested _) = True"
| "user_msg (UnitOpenRequested _ _) = True"
| "user_msg (FilterOpened _) = True"
| "user_msg (FilterTextChanged _) = True"
| "user_msg FilterClosed = True"
| "user_msg (FolderSelected _) = True"
| "user_msg (DetailRequested _) = True"
| "user_msg (VerboseSet _) = True"
| "user_msg _ = False"

text \<open>
  The model, the workers that run, the handles of the open providers and the next handle. Opening a
  provider and dispatching \<open>RootLoaded\<close> is one step: nothing is awaited between. A worker whose
  dispatch raises is gone, with the model as it was and the provider it has opened still open.
\<close>

type_synonym 'h unit_system = "'h unit_model \<times> 'h unit_cmd set \<times> nat set \<times> nat"

inductive unit_step :: "(nat \<Rightarrow> 'h unit_provider) \<Rightarrow> 'h unit_system \<Rightarrow> 'h unit_system \<Rightarrow> bool" for prov where
  user: "\<lbrakk>user_msg msg; unit_update m msg = Inr (m', cmds)\<rbrakk> \<Longrightarrow>
     unit_step prov (m, run, live, k) (m', run \<union> workers cmds, live, k)"
| answered: "\<lbrakk>c \<in> run; answers prov k c msg; unit_update m msg = Inr (m', cmds)\<rbrakk> \<Longrightarrow>
     unit_step prov (m, run, live, k) (m', run - {c} \<union> workers cmds, live_after msg live, next_after msg k)"
| answer_raised: "\<lbrakk>c \<in> run; answers prov k c msg; unit_update m msg = Inl err\<rbrakk> \<Longrightarrow>
     unit_step prov (m, run, live, k) (m, run - {c}, live_after msg live, next_after msg k)"
| closed: "CloseProvider h \<in> run \<Longrightarrow> unit_step prov (m, run, live, k) (m, run - {CloseProvider h}, live - {h}, k)"
| cancelled: "\<lbrakk>c \<in> run; loads c\<rbrakk> \<Longrightarrow> unit_step prov (m, run, live, k) (m, run - {c}, live, k)"

definition unit_reachable :: "(nat \<Rightarrow> 'h unit_provider) \<Rightarrow> 'h unit_system \<Rightarrow> bool" where
  "unit_reachable prov s \<longleftrightarrow> (unit_step prov)\<^sup>*\<^sup>* (unit_model_init, {}, {}, 0) s"

subsection \<open>What a provider's answers hold\<close>

definition provider_lists :: "'h unit_provider \<Rightarrow> (node_ref \<Rightarrow> 'h node list) \<Rightarrow> bool" where
  "provider_lists p listing \<longleftrightarrow>
     (\<forall>n offset limit page. up_children p n offset limit = Inr page \<longrightarrow> page = paginate (listing (nd_ref n)) offset limit)"

lemma page_complete: "take (offset + limit) xs = take offset xs @ take limit (drop offset xs)"
  by (simp add: take_add)

lemma short_page: "length (take limit (drop offset xs)) < limit \<Longrightarrow> take offset xs @ take limit (drop offset xs) = xs"
  by (simp add: min_def split: if_splits)

lemma case_value: "(case z of Inl e \<Rightarrow> Some (Inl e) | Inr x \<Rightarrow> f x) = Some (Inr y) \<longleftrightarrow> (\<exists>x. z = Inr x \<and> f x = Some (Inr y))"
  by (cases z) auto

lemma map_value: "map_sum id f z = Inr y \<longleftrightarrow> (\<exists>x. z = Inr x \<and> f x = y)"
  by (cases z) auto

lemma listed_page:
  assumes "provider_lists p listing" and "up_children p n offset (Some limit) = Inr page"
  shows "page = take limit (drop offset (listing (nd_ref n)))"
proof -
  have "page = paginate (listing (nd_ref n)) offset (Some limit)" using assms unfolding provider_lists_def by blast
  then show ?thesis by (simp add: paginate_def)
qed

lemma matching_pages_lists:
  assumes "matching_pages p n t full offset children exact candidates = Some y"
  shows "provider_lists p listing \<and> full \<and> children = take offset (listing (nd_ref n)) \<longrightarrow>
    (\<forall>e ch cs. y = Inr (e, ch, cs) \<longrightarrow> ch = listing (nd_ref n))"
proof (rule matching_pages.raw_induct [where P = "\<lambda>p n t full offset children exact candidates y.
      provider_lists p listing \<and> full \<and> children = take offset (listing (nd_ref n)) \<longrightarrow>
      (\<forall>e ch cs. y = Inr (e, ch, cs) \<longrightarrow> ch = listing (nd_ref n))", OF _ assms], intro impI, elim conjE)
  fix self and p :: "'a unit_provider" and n t full offset children exact candidates y
  assume ih: "\<And>n t full offset children exact candidates b y. self n t full offset children exact candidates b = Some y \<Longrightarrow>
      provider_lists n listing \<and> offset \<and> exact = take children (listing (nd_ref t)) \<longrightarrow>
      (\<forall>e ch cs. y = Inr (e, ch, cs) \<longrightarrow> ch = listing (nd_ref t))"
    and body: "(case up_children p n offset (Some RESOLVE_PAGE_SIZE) of
        Inl e \<Rightarrow> Some (Inl e)
      | Inr page \<Rightarrow>
          (let children' = (if full then children @ page else children);
               found = (if exact = None then scan_page t page candidates else (exact, candidates))
           in if exact = None \<and> fst found \<noteq> None \<and> \<not> full then Some (Inr (fst found, children', snd found))
              else if length page < RESOLVE_PAGE_SIZE then Some (Inr (fst found, children', snd found))
              else self p n t full (offset + RESOLVE_PAGE_SIZE) children' (fst found) (snd found))) = Some y"
    and lists: "provider_lists p listing" and full: full and children: "children = take offset (listing (nd_ref n))"
  show "\<forall>e ch cs. y = Inr (e, ch, cs) \<longrightarrow> ch = listing (nd_ref n)"
  proof (cases "up_children p n offset (Some RESOLVE_PAGE_SIZE)")
    case (Inl e)
    then show ?thesis using body by auto
  next
    case (Inr page)
    then have page: "page = take RESOLVE_PAGE_SIZE (drop offset (listing (nd_ref n)))"
      by (rule listed_page [OF lists])
    have more: "children @ page = take (offset + RESOLVE_PAGE_SIZE) (listing (nd_ref n))" by (simp add: children page page_complete)
    show ?thesis
    proof (cases "length page < RESOLVE_PAGE_SIZE")
      case True
      then have "children @ page = listing (nd_ref n)" unfolding page children by (rule short_page)
      then show ?thesis using body Inr True full by (auto simp: Let_def)
    next
      case False
      then obtain e c where "self p n t full (offset + RESOLVE_PAGE_SIZE) (children @ page) e c = Some y"
        using body Inr full by (auto simp: Let_def)
      then show ?thesis using ih lists full more by blast
    qed
  qed
qed

lemma children_matching_lists:
  "provider_lists p listing \<Longrightarrow> children_matching p n t True = Some (Inr (e, ch, cs)) \<Longrightarrow> ch = listing (nd_ref n)"
  using matching_pages_lists [of p n t True 0 "[]" None "[]" "Inr (e, ch, cs)" listing] by (simp add: children_matching_def)

lemma descend_any_lists:
  assumes "descend_any p t full nodes = Some y"
  shows "provider_lists p listing \<and> full \<longrightarrow>
    (\<forall>leaf chain steps. y = Inr (Some (leaf, chain, steps)) \<longrightarrow> chain \<noteq> [] \<and> steps = map (\<lambda>n. listing (nd_ref n)) (butlast chain))"
proof (rule descend_any.raw_induct [where P = "\<lambda>p t full nodes y. provider_lists p listing \<and> full \<longrightarrow>
    (\<forall>leaf chain steps. y = Inr (Some (leaf, chain, steps)) \<longrightarrow> chain \<noteq> [] \<and> steps = map (\<lambda>n. listing (nd_ref n)) (butlast chain))",
    OF _ assms], intro impI, elim conjE)
  fix self and p :: "'a unit_provider" and t full nodes y
  assume ih: "\<And>t full nodes b y. self t full nodes b = Some y \<Longrightarrow> provider_lists t listing \<and> nodes \<longrightarrow>
      (\<forall>leaf chain steps. y = Inr (Some (leaf, chain, steps)) \<longrightarrow> chain \<noteq> [] \<and> steps = map (\<lambda>n. listing (nd_ref n)) (butlast chain))"
    and body: "(case nodes of
        [] \<Rightarrow> Some (Inr None)
      | n # rest \<Rightarrow>
          if node_extra n = t then Some (Inr (Some (n, [n], [])))
          else if nd_is_leaf n then self p t full rest
          else Option.bind (children_matching p n t full) (\<lambda>m.
            case m of
              Inl e \<Rightarrow> Some (Inl e)
            | Inr (exact, children, candidates) \<Rightarrow>
                Option.bind (self p t full (case exact of Some c \<Rightarrow> [c] | None \<Rightarrow> candidates)) (\<lambda>deeper.
                  case deeper of
                    Inl e \<Rightarrow> Some (Inl e)
                  | Inr (Some (leaf, chain, steps)) \<Rightarrow>
                      Some (Inr (Some (leaf, n # chain, if full then children # steps else [])))
                  | Inr None \<Rightarrow> self p t full rest))) = Some y"
    and lists: "provider_lists p listing" and full: full
  have self: "chain \<noteq> [] \<and> steps = map (\<lambda>n. listing (nd_ref n)) (butlast chain)"
    if "self p t full nodes = Some (Inr (Some (leaf, chain, steps)))" for nodes leaf chain steps
    using ih [OF that] lists full by blast
  show "\<forall>leaf chain steps. y = Inr (Some (leaf, chain, steps)) \<longrightarrow> chain \<noteq> [] \<and> steps = map (\<lambda>n. listing (nd_ref n)) (butlast chain)"
  proof (intro allI impI)
    fix leaf chain steps
    assume y: "y = Inr (Some (leaf, chain, steps))"
    then obtain n rest where nodes: "nodes = n # rest" using body by (cases nodes) auto
    show "chain \<noteq> [] \<and> steps = map (\<lambda>n. listing (nd_ref n)) (butlast chain)"
    proof (cases "node_extra n = t \<or> nd_is_leaf n")
      case True
      then show ?thesis using body y nodes self [of rest leaf chain steps] by (auto split: if_splits)
    next
      case False
      then obtain exact children candidates where level: "children_matching p n t full = Some (Inr (exact, children, candidates))"
        using body y nodes by (auto simp: bind_eq_Some_conv case_value map_value)
      let ?next = "case exact of Some c \<Rightarrow> [c] | None \<Rightarrow> candidates"
      obtain d where d: "self p t full ?next = Some (Inr d)"
        using body y nodes False level by (auto simp: bind_eq_Some_conv case_value map_value)
      show ?thesis
      proof (cases d)
        case None
        then show ?thesis using body y nodes False level d self [of rest leaf chain steps] by simp
      next
        case (Some e)
        obtain l c s where e: "e = (l, c, s)" by (cases e)
        have "chain = n # c \<and> steps = children # s"
          using body y nodes False level d Some e full by simp
        moreover have "children = listing (nd_ref n)" using children_matching_lists [OF lists] level full by auto
        ultimately show ?thesis using self [of ?next l c s] d Some e by simp
      qed
    qed
  qed
qed

lemma all_pages_lists:
  assumes "all_pages p n offset children = Some y"
  shows "provider_lists p listing \<and> children = take offset (listing (nd_ref n)) \<longrightarrow> (\<forall>ch. y = Inr ch \<longrightarrow> ch = listing (nd_ref n))"
proof (rule all_pages.raw_induct [where P = "\<lambda>p n offset children y.
      provider_lists p listing \<and> children = take offset (listing (nd_ref n)) \<longrightarrow> (\<forall>ch. y = Inr ch \<longrightarrow> ch = listing (nd_ref n))",
      OF _ assms], intro impI, elim conjE)
  fix self and p :: "'a unit_provider" and n offset children y
  assume ih: "\<And>n offset children b y. self n offset children b = Some y \<Longrightarrow>
      provider_lists n listing \<and> b = take children (listing (nd_ref offset)) \<longrightarrow> (\<forall>ch. y = Inr ch \<longrightarrow> ch = listing (nd_ref offset))"
    and body: "(case up_children p n offset (Some RESOLVE_PAGE_SIZE) of
        Inl e \<Rightarrow> Some (Inl e)
      | Inr page \<Rightarrow>
          if length page < RESOLVE_PAGE_SIZE then Some (Inr (children @ page))
          else self p n (offset + RESOLVE_PAGE_SIZE) (children @ page)) = Some y"
    and lists: "provider_lists p listing" and children: "children = take offset (listing (nd_ref n))"
  show "\<forall>ch. y = Inr ch \<longrightarrow> ch = listing (nd_ref n)"
  proof (cases "up_children p n offset (Some RESOLVE_PAGE_SIZE)")
    case (Inr page)
    then have page: "page = take RESOLVE_PAGE_SIZE (drop offset (listing (nd_ref n)))"
      by (rule listed_page [OF lists])
    have more: "children @ page = take (offset + RESOLVE_PAGE_SIZE) (listing (nd_ref n))" by (simp add: children page page_complete)
    show ?thesis
    proof (cases "length page < RESOLVE_PAGE_SIZE")
      case True
      then have "children @ page = listing (nd_ref n)" unfolding page children by (rule short_page)
      then show ?thesis using body Inr True by auto
    next
      case False
      then show ?thesis using body Inr ih lists more by auto
    qed
  qed (use body in auto)
qed

lemma children_of_each_lists:
  "provider_lists p listing \<Longrightarrow> children_of_each p ns = Some (Inr steps) \<Longrightarrow> steps = map (\<lambda>n. listing (nd_ref n)) ns"
proof (induction ns arbitrary: steps)
  case (Cons n ns)
  then obtain c s where "all_children p n = Some (Inr c)" and s: "children_of_each p ns = Some (Inr s)" "steps = c # s"
    by (auto simp: bind_eq_Some_conv case_value map_value)
  then have "c = listing (nd_ref n)" using all_pages_lists [of p n 0 "[]" "Inr c" listing] Cons.prems(1) by (simp add: all_children_def)
  then show ?case using Cons.IH [OF Cons.prems(1) s(1)] s(2) by simp
qed simp

lemma ancestors_up_ne:
  assumes "ancestors_up parent_of n chain = Some y"
  shows "chain \<noteq> [] \<longrightarrow> y \<noteq> Inr []"
proof (rule ancestors_up.raw_induct [where P = "\<lambda>parent_of n chain y. chain \<noteq> [] \<longrightarrow> y \<noteq> Inr []", OF _ assms], intro impI)
  fix self and parent_of :: "'a node \<Rightarrow> 'a node option res" and n chain y
  assume "\<And>n chain b y. self n chain b = Some y \<Longrightarrow> b \<noteq> [] \<longrightarrow> y \<noteq> Inr []"
    and "(case parent_of n of Inl e \<Rightarrow> Some (Inl e) | Inr None \<Rightarrow> Some (Inr (rev chain))
        | Inr (Some parent) \<Rightarrow> self parent_of parent (chain @ [parent])) = Some y" and "chain \<noteq> []"
  then show "y \<noteq> Inr []" by (auto split: sum.split_asm option.split_asm)
qed

text \<open>A chain found for a goto comes with the complete listing of every step.\<close>

lemma found_lists:
  assumes "provider_lists p listing" and "find_path_with_children p target = Some (Inr (Some (chain, steps)))"
  shows "chain \<noteq> []" and "steps = map (\<lambda>n. listing (nd_ref n)) (butlast chain)"
proof -
  have "chain \<noteq> [] \<and> steps = map (\<lambda>n. listing (nd_ref n)) (butlast chain)"
  proof (cases "up_lookup p")
    case None
    then obtain leaf where "descend p (up_root p) target True = Some (Inr (Some (leaf, chain, steps)))"
      using assms(2) by (auto simp: find_path_with_children_def case_value map_value)
    then show ?thesis
      using descend_any_lists [of p "extra_segments target" True "[up_root p]" _ listing] assms(1) by (auto simp: descend_def)
  next
    case (Some l)
    then obtain parent_of n where chain: "direct_ancestor_chain parent_of n = Some (Inr chain)"
      and steps: "children_of_each p (butlast chain) = Some (Inr steps)"
      using assms(2) by (auto simp: find_path_with_children_def bind_eq_Some_conv case_value map_value split: option.split_asm prod.split_asm)
    show ?thesis
      using ancestors_up_ne [of parent_of n "[n]" "Inr chain"] chain children_of_each_lists [OF assms(1) steps]
      by (auto simp: direct_ancestor_chain_def)
  qed
  then show "chain \<noteq> []" and "steps = map (\<lambda>n. listing (nd_ref n)) (butlast chain)" by blast+
qed

subsection \<open>The invariant\<close>

text \<open>What the model holds of a level: the first children of the listing, all of them once exhausted.\<close>

definition level_ok :: "'h node list \<Rightarrow> 'h loaded_level \<Rightarrow> bool" where
  "level_ok xs l \<longleftrightarrow> prefix (ll_children l) xs \<and> (if ll_exhausted l then ll_children l = xs else ll_children l \<noteq> [])"

definition levels_ok :: "(nat \<Rightarrow> node_ref \<Rightarrow> 'h node list) \<Rightarrow> 'h unit_model \<Rightarrow> bool" where
  "levels_ok listing m \<longleftrightarrow>
     (\<forall>ref l. um_loaded m ref = Some l \<longrightarrow> (\<exists>h. um_provider m = Some h \<and> level_ok (listing h ref) l)) \<and>
     (um_provider m = None \<longrightarrow> (\<forall>ref. \<not> has_pending_children m ref))"

text \<open>The index holds exactly the references of the loaded children, each with a child of that reference.\<close>

definition node_index_ok :: "'h unit_model \<Rightarrow> bool" where
  "node_index_ok m \<longleftrightarrow>
     (\<forall>ref n. um_node_index m ref = Some n \<longrightarrow> nd_ref n = ref \<and> (\<exists>r l. um_loaded m r = Some l \<and> n \<in> set (ll_children l))) \<and>
     (\<forall>r l n. um_loaded m r = Some l \<and> n \<in> set (ll_children l) \<longrightarrow> um_node_index m (nd_ref n) \<noteq> None)"

definition loaded_count :: "'h unit_model \<Rightarrow> node_ref \<Rightarrow> nat" where
  "loaded_count m ref = (case um_loaded m ref of Some l \<Rightarrow> length (ll_children l) | None \<Rightarrow> 0)"

fun current_ok :: "'h unit_model \<Rightarrow> 'h unit_cmd \<Rightarrow> bool" where
  "current_ok m (LoadRoot e r i f) \<longleftrightarrow> um_provider m = None \<and> um_inflight m PROVIDER_SLOT = Some r"
| "current_ok m (LoadChildren e r h n offset limit) \<longleftrightarrow>
     um_provider m = Some h \<and> limit = CHILDREN_PAGE_SIZE \<and>
     (um_inflight m (children_slot (nd_ref n)) = Some r \<longrightarrow> offset = loaded_count m (nd_ref n))"
| "current_ok m c \<longleftrightarrow> um_provider m = cmd_provider c"

definition requests_ok :: "'h unit_model \<Rightarrow> 'h unit_cmd set \<Rightarrow> bool" where
  "requests_ok m run \<longleftrightarrow>
     (\<forall>c \<in> run. loads c \<longrightarrow> cmd_request c < um_next_request m \<and> cmd_epoch c \<le> um_epoch m \<and> (cmd_epoch c = um_epoch m \<longrightarrow> current_ok m c)) \<and>
     (\<forall>c \<in> run. \<forall>d \<in> run. loads c \<and> loads d \<and> cmd_request c = cmd_request d \<longrightarrow> c = d) \<and>
     (\<forall>sl r. um_inflight m sl = Some r \<longrightarrow> r < um_next_request m) \<and>
     (\<forall>c \<in> run. loads c \<or> closes c)"

text \<open>An open provider is the current one or being closed; none is closed twice or used after.\<close>

definition live_ok :: "'h unit_model \<Rightarrow> 'h unit_cmd set \<Rightarrow> nat set \<Rightarrow> nat \<Rightarrow> bool" where
  "live_ok m run live k \<longleftrightarrow>
     live = set_option (um_provider m) \<union> {h. CloseProvider h \<in> run} \<and>
     (\<forall>h. CloseProvider h \<in> run \<longrightarrow> um_provider m \<noteq> Some h) \<and> (\<forall>h \<in> live. h < k)"

definition unit_inv :: "(nat \<Rightarrow> node_ref \<Rightarrow> 'h node list) \<Rightarrow> 'h unit_system \<Rightarrow> bool" where
  "unit_inv listing = (\<lambda>(m, run, live, k). levels_ok listing m \<and> node_index_ok m \<and> requests_ok m run \<and> live_ok m run live k)"

lemma slots_differ [simp]:
  "children_slot r \<noteq> PROVIDER_SLOT" "children_slot r \<noteq> GOTO_SLOT" "children_slot r \<noteq> DETAIL_SLOT" "children_slot r \<noteq> UNIT_OPEN_SLOT"
  "PROVIDER_SLOT \<noteq> children_slot r" "GOTO_SLOT \<noteq> children_slot r" "DETAIL_SLOT \<noteq> children_slot r" "UNIT_OPEN_SLOT \<noteq> children_slot r"
  "GOTO_SLOT \<noteq> PROVIDER_SLOT" "DETAIL_SLOT \<noteq> PROVIDER_SLOT" "UNIT_OPEN_SLOT \<noteq> PROVIDER_SLOT"
  "PROVIDER_SLOT \<noteq> GOTO_SLOT" "PROVIDER_SLOT \<noteq> DETAIL_SLOT" "PROVIDER_SLOT \<noteq> UNIT_OPEN_SLOT"
  "children_slot r = children_slot r' \<longleftrightarrow> r = r'"
  by (auto simp: children_slot_def PROVIDER_SLOT_def GOTO_SLOT_def DETAIL_SLOT_def UNIT_OPEN_SLOT_def)

lemma workers_simps [simp]:
  "workers [] = {}" "workers (c # cs) = (if loads c \<or> closes c then insert c (workers cs) else workers cs)"
  "workers (cs @ ds) = workers cs \<union> workers ds"
  by (auto simp: workers_def)

lemma notices_no_worker [simp]:
  "\<not> loads (information s)" "\<not> closes (information s)" "\<not> loads (unit_warning s)" "\<not> closes (unit_warning s)"
  by (simp_all add: information_def unit_warning_def)

lemma unit_inv_init: "unit_inv listing (unit_model_init, {}, {}, 0)"
  by (simp add: unit_inv_def levels_ok_def node_index_ok_def requests_ok_def live_ok_def unit_model_init_def has_pending_children_def)

text \<open>What the invariant reads of the model.\<close>

definition same_core :: "'h unit_model \<Rightarrow> 'h unit_model \<Rightarrow> bool" where
  "same_core m m' \<longleftrightarrow>
     um_epoch m' = um_epoch m \<and> um_inflight m' = um_inflight m \<and> um_pending m' \<subseteq> um_pending m \<and> um_next_request m' = um_next_request m \<and>
     um_provider m' = um_provider m \<and> um_loaded m' = um_loaded m \<and> um_node_index m' = um_node_index m"

lemma current_ok_cong:
  assumes "um_provider m' = um_provider m" and "um_loaded m' = um_loaded m"
    and "um_inflight m' PROVIDER_SLOT = um_inflight m PROVIDER_SLOT"
    and "\<And>r. um_inflight m' (children_slot r) = Some (cmd_request c) \<Longrightarrow> um_inflight m (children_slot r) = Some (cmd_request c)"
    and "current_ok m c"
  shows "current_ok m' c"
  using assms by (cases c) (auto simp: loaded_count_def)

lemma inv_core:
  assumes "unit_inv listing (m, run, live, k)" and "same_core m m'"
  shows "unit_inv listing (m', run, live, k)"
proof -
  have "current_ok m' c" if "current_ok m c" for c
    using that assms(2) by (intro current_ok_cong [of m' m c]) (auto simp: same_core_def)
  then show ?thesis
    using assms by (auto simp: unit_inv_def same_core_def levels_ok_def node_index_ok_def requests_ok_def live_ok_def has_pending_children_def)
qed

lemma inv_remove:
  assumes "unit_inv listing (m, run, live, k)" and "\<not> closes c"
  shows "unit_inv listing (m, run - {c}, live, k)"
proof -
  have "CloseProvider h \<in> run - {c} \<longleftrightarrow> CloseProvider h \<in> run" for h using assms(2) by auto
  then show ?thesis using assms(1) by (auto simp: unit_inv_def requests_ok_def live_ok_def)
qed

lemma inv_closed:
  assumes "unit_inv listing (m, run, live, k)" and "CloseProvider h \<in> run"
  shows "unit_inv listing (m, run - {CloseProvider h}, live - {h}, k)"
  using assms by (auto simp: unit_inv_def requests_ok_def live_ok_def)

text \<open>A request is made: a number is taken for a slot, and at most one worker started for it.\<close>

lemma inv_issue:
  assumes inv: "unit_inv listing (m, run, live, k)"
    and next': "um_epoch m' = um_epoch m" "um_next_request m' = Suc (um_next_request m)" "um_provider m' = um_provider m"
      "um_loaded m' = um_loaded m" "um_node_index m' = um_node_index m"
    and slot: "um_inflight m' = (um_inflight m)(sl \<mapsto> um_next_request m)" "sl \<noteq> PROVIDER_SLOT"
    and pending: "um_provider m = None \<Longrightarrow> um_pending m' \<subseteq> um_pending m"
    and new: "new \<subseteq> {c}" "new \<noteq> {} \<Longrightarrow> loads c \<and> cmd_request c = um_next_request m \<and> cmd_epoch c = um_epoch m \<and> current_ok m' c"
  shows "unit_inv listing (m', run \<union> new, live, k)"
proof -
  have no_close: "CloseProvider h \<notin> new" for h using new by (cases "new = {}") auto
  have "\<not> has_pending_children m' ref" if "um_provider m = None" for ref
    using inv pending [OF that] that by (auto simp: unit_inv_def levels_ok_def has_pending_children_def)
  then have levels: "levels_ok listing m'" using inv next' by (simp add: unit_inv_def levels_ok_def)
  have index: "node_index_ok m'" using inv next' by (simp add: unit_inv_def node_index_ok_def)
  have live: "live_ok m' (run \<union> new) live k" using inv next' no_close by (auto simp: unit_inv_def live_ok_def)
  have old: "cmd_request d < um_next_request m" "cmd_epoch d \<le> um_epoch m" "cmd_epoch d = um_epoch m \<Longrightarrow> current_ok m d" if "d \<in> run" "loads d" for d
    using inv that by (auto simp: unit_inv_def requests_ok_def)
  have "current_ok m' d" if "d \<in> run" "loads d" "cmd_epoch d = um_epoch m" for d
  proof (rule current_ok_cong [OF next'(3,4)])
    show "um_inflight m' PROVIDER_SLOT = um_inflight m PROVIDER_SLOT" using slot by auto
    show "um_inflight m (children_slot r) = Some (cmd_request d)" if "um_inflight m' (children_slot r) = Some (cmd_request d)" for r
      using that slot old(1) [OF \<open>d \<in> run\<close> \<open>loads d\<close>] by (auto split: if_splits)
  qed (use old that in blast)
  moreover have "d = c \<and> loads c \<and> cmd_request c = um_next_request m \<and> cmd_epoch c = um_epoch m \<and> current_ok m' c" if "d \<in> new" for d
    using that new by auto
  moreover have "\<forall>c \<in> run. \<forall>d \<in> run. loads c \<and> loads d \<and> cmd_request c = cmd_request d \<longrightarrow> c = d" "\<forall>c \<in> run. loads c \<or> closes c"
    "\<forall>sl r. um_inflight m sl = Some r \<longrightarrow> r < um_next_request m"
    using inv by (auto simp: unit_inv_def requests_ok_def)
  ultimately have "requests_ok m' (run \<union> new)"
    using old unfolding requests_ok_def next'(1,2) slot(1) Ball_def
    by (smt (verit) Un_iff fun_upd_apply less_Suc_eq nat_less_le option.inject order_less_irrefl less_or_eq_imp_le)
  then show ?thesis using levels index live by (simp add: unit_inv_def)
qed

text \<open>Levels are installed: complete for what is new, and for no level a worker still extends.\<close>

lemma inv_install:
  assumes inv: "unit_inv listing (m, run, live, k)" and h: "um_provider m = Some h"
    and same: "um_epoch m' = um_epoch m" "um_next_request m' = um_next_request m" "um_provider m' = um_provider m"
    and slots: "\<And>sl r. um_inflight m' sl = Some r \<Longrightarrow> um_inflight m sl = Some r"
    and levels: "\<And>ref l. um_loaded m' ref = Some l \<Longrightarrow> um_loaded m ref = Some l \<or> level_ok (listing h ref) l"
    and index: "node_index_ok m'"
    and untouched: "\<And>ref c. \<lbrakk>um_inflight m' (children_slot ref) = Some (cmd_request c); c \<in> run; loads c\<rbrakk> \<Longrightarrow>
      um_loaded m' ref = um_loaded m ref"
  shows "unit_inv listing (m', run, live, k)"
proof -
  have old: "\<And>ref l. um_loaded m ref = Some l \<Longrightarrow> level_ok (listing h ref) l"
    using inv h by (auto simp: unit_inv_def levels_ok_def)
  have "levels_ok listing m'" using levels old h same by (auto simp: levels_ok_def)
  moreover have "live_ok m' run live k" using inv same by (simp add: unit_inv_def live_ok_def)
  moreover have "current_ok m' c" if c: "c \<in> run" "loads c" "cmd_epoch c = um_epoch m" for c
  proof -
    have "current_ok m c" using inv c by (auto simp: unit_inv_def requests_ok_def)
    then show ?thesis
    proof (cases c)
      case (LoadChildren e r h' n offset limit)
      then show ?thesis
        using \<open>current_ok m c\<close> same slots [of "children_slot (nd_ref n)" r] untouched [of "nd_ref n" c] c by (auto simp: loaded_count_def)
    qed (use \<open>current_ok m c\<close> h same in auto)
  qed
  then have "requests_ok m' run"
    using inv same slots unfolding unit_inv_def requests_ok_def by (simp add: Ball_def) blast
  ultimately show ?thesis using index by (simp add: unit_inv_def)
qed

lemma index_installed:
  assumes "node_index_ok m"
    and index: "um_node_index m' = um_node_index m ++ map_of (rev (map (\<lambda>c. (nd_ref c, c)) new))"
    and added: "\<And>n. n \<in> set new \<Longrightarrow> \<exists>r l. um_loaded m' r = Some l \<and> n \<in> set (ll_children l)"
    and kept: "\<And>r l n. \<lbrakk>um_loaded m r = Some l; n \<in> set (ll_children l)\<rbrakk> \<Longrightarrow> \<exists>r l. um_loaded m' r = Some l \<and> n \<in> set (ll_children l)"
    and only: "\<And>r l n. \<lbrakk>um_loaded m' r = Some l; n \<in> set (ll_children l)\<rbrakk> \<Longrightarrow>
      n \<in> set new \<or> (\<exists>r l. um_loaded m r = Some l \<and> n \<in> set (ll_children l))"
  shows "node_index_ok m'"
proof -
  let ?new = "map_of (rev (map (\<lambda>c. (nd_ref c, c)) new))"
  have hit: "nd_ref n = ref \<and> n \<in> set new" if "?new ref = Some n" for ref n
    using map_of_SomeD [OF that] by auto
  have dom: "?new (nd_ref n) \<noteq> None" if "n \<in> set new" for n
    using that by (simp add: map_of_eq_None_iff) force
  show ?thesis
    unfolding node_index_ok_def
  proof (intro conjI allI impI)
    fix ref n
    assume n: "um_node_index m' ref = Some n"
    then have "?new ref = Some n \<or> um_node_index m ref = Some n" by (auto simp: index map_add_def split: option.splits)
    then show "nd_ref n = ref" and "\<exists>r l. um_loaded m' r = Some l \<and> n \<in> set (ll_children l)"
      using hit [of ref n] added kept assms(1) unfolding node_index_ok_def by blast+
  next
    fix r l n
    assume "um_loaded m' r = Some l \<and> n \<in> set (ll_children l)"
    then have "n \<in> set new \<or> um_node_index m (nd_ref n) \<noteq> None" using only assms(1) unfolding node_index_ok_def by blast
    then show "um_node_index m' (nd_ref n) \<noteq> None" using dom [of n] by (auto simp: index map_add_def split: option.splits)
  qed
qed

lemma not_stale: "\<not> is_stale e fl sl e' r \<longleftrightarrow> e' = e \<and> fl sl = Some r"
  by (auto simp: is_stale_def)

lemma current_load:
  assumes "unit_inv listing (m, run, live, k)" and "c \<in> run" and "loads c" and "cmd_epoch c = um_epoch m"
  shows "current_ok m c"
  using assms by (auto simp: unit_inv_def requests_ok_def)

lemma other_request:
  assumes "unit_inv listing (m, run, live, k)" and "c \<in> run" and "loads c" and "d \<in> run - {c}" and "loads d"
  shows "cmd_request d \<noteq> cmd_request c"
  using assms by (auto simp: unit_inv_def requests_ok_def)

lemma inv_page:
  assumes inv: "unit_inv listing (m, run, live, k)" and c: "c = LoadChildren (um_epoch m) r h n offset limit" "c \<in> run"
    and slot: "um_inflight m (children_slot (nd_ref n)) = Some r"
    and page: "page = take limit (drop offset (listing h (nd_ref n)))"
    and m': "um_epoch m' = um_epoch m" "um_next_request m' = um_next_request m" "um_provider m' = um_provider m" "um_inflight m' = um_inflight m"
      "um_loaded m' = (um_loaded m)(nd_ref n \<mapsto>
         \<lparr>ll_children = (case um_loaded m (nd_ref n) of Some l \<Rightarrow> ll_children l | None \<Rightarrow> []) @ page, ll_exhausted = length page < limit\<rparr>)"
      "um_node_index m' = um_node_index m ++ map_of (rev (map (\<lambda>c. (nd_ref c, c)) page))"
  shows "unit_inv listing (m', run - {c}, live, k)"
proof -
  let ?ref = "nd_ref n"
  let ?xs = "listing h ?ref"
  let ?base = "case um_loaded m ?ref of Some l \<Rightarrow> ll_children l | None \<Rightarrow> []"
  have h: "um_provider m = Some h" and limit: "limit = CHILDREN_PAGE_SIZE" and offset: "offset = loaded_count m ?ref"
    using current_load [OF inv c(2)] slot by (auto simp: c(1))
  have "prefix ?base ?xs" using inv h by (auto simp: unit_inv_def levels_ok_def level_ok_def split: option.splits)
  then have base: "?base = take offset ?xs" by (auto simp: offset loaded_count_def prefix_def split: option.splits)
  have all: "?base @ page = take (offset + limit) ?xs" by (simp only: base page page_complete)
  have "0 < limit" by (simp add: limit CHILDREN_PAGE_SIZE_def)
  then have level: "level_ok ?xs \<lparr>ll_children = ?base @ page, ll_exhausted = length page < limit\<rparr>"
    using short_page [of limit offset ?xs] unfolding level_ok_def by (auto simp: all take_is_prefix simp flip: base page) (auto simp: base page)
  have rest: "unit_inv listing (m, run - {c}, live, k)" using inv by (rule inv_remove) (simp add: c(1))
  show ?thesis
  proof (rule inv_install [OF rest h m'(1-3)])
    show "um_loaded m ref = Some l \<or> level_ok (listing h ref) l" if "um_loaded m' ref = Some l" for ref l
      using that level by (auto simp: m'(5) split: if_splits)
    show "um_loaded m' ref = um_loaded m ref"
      if "um_inflight m' (children_slot ref) = Some (cmd_request d)" "d \<in> run - {c}" "loads d" for ref d
      using that slot other_request [OF inv c(2) _ that(2,3)] by (auto simp: m'(4,5) c(1))
    show "node_index_ok m'"
    proof (rule index_installed [OF _ m'(6)])
      show "node_index_ok m" using inv by (simp add: unit_inv_def)
      show "\<exists>r l. um_loaded m' r = Some l \<and> x \<in> set (ll_children l)" if "x \<in> set page" for x
        using that by (intro exI [of _ ?ref]) (simp add: m'(5))
      show "\<exists>r l. um_loaded m' r = Some l \<and> x \<in> set (ll_children l)" if "um_loaded m r = Some l" "x \<in> set (ll_children l)" for r l x
        using that by (intro exI [of _ r]) (auto simp: m'(5))
      show "x \<in> set page \<or> (\<exists>r l. um_loaded m r = Some l \<and> x \<in> set (ll_children l))"
        if "um_loaded m' r = Some l" "x \<in> set (ll_children l)" for r l x
        using that by (auto simp: m'(5) split: if_splits option.splits)
    qed
  qed (simp add: m'(4))
qed

subsection \<open>Every step keeps the invariant\<close>

text \<open>Each handler: from a state of the invariant it returns, and with its workers the invariant holds again.\<close>

definition keeps :: "(nat \<Rightarrow> node_ref \<Rightarrow> 'h node list) \<Rightarrow> 'h unit_cmd set \<Rightarrow> nat set \<Rightarrow> nat \<Rightarrow> 'h unit_result \<Rightarrow> bool" where
  "keeps listing run live k x \<longleftrightarrow> (\<exists>m' cmds. x = Inr (m', cmds) \<and> unit_inv listing (m', run \<union> workers cmds, live, k))"

lemma keeps_pair: "keeps listing run live k (Inr x) \<longleftrightarrow> unit_inv listing (fst x, run \<union> workers (snd x), live, k)"
  by (cases x) (simp add: keeps_def)

lemma keeps_quiet:
  assumes "unit_inv listing (m, run, live, k)" and "same_core m m'" and "workers cmds = {}"
  shows "keeps listing run live k (Inr (m', cmds))"
  using inv_core [OF assms(1,2)] assms(3) by (simp add: keeps_def)

lemma same_core_refl [simp]: "same_core m m"
  by (simp add: same_core_def)

lemma keeps_dispatch_children:
  assumes inv: "unit_inv listing (m, run, live, k)" and h: "um_provider m = Some h" and offset: "offset = loaded_count m (nd_ref n)"
  shows "keeps listing run live k (dispatch_children n offset m)"
  unfolding keeps_def dispatch_children_def take_request_def
  by (simp add: h Let_def)
    (rule inv_issue [OF inv, where sl = "children_slot (nd_ref n)" and
        c = "LoadChildren (um_epoch m) (um_next_request m) h n offset CHILDREN_PAGE_SIZE", of _ "{_}", simplified],
      simp_all add: h offset loaded_count_def)

lemma keeps_children_requested:
  assumes inv: "unit_inv listing (m, run, live, k)" and h: "um_provider m = Some h"
  shows "keeps listing run live k (on_children_requested n m)"
  using keeps_dispatch_children [OF inv h, of 0 n] keeps_quiet [OF inv same_core_refl, of "[]"]
  by (auto simp: on_children_requested_def loaded_count_def)

lemma keeps_load_more:
  assumes inv: "unit_inv listing (m, run, live, k)"
  shows "keeps listing run live k (on_load_more_requested n m)"
proof (cases "um_loaded m (nd_ref n)")
  case None
  then show ?thesis using keeps_quiet [OF inv same_core_refl] by (simp add: on_load_more_requested_def)
next
  case (Some level)
  then obtain h where "um_provider m = Some h" using inv by (simp add: unit_inv_def levels_ok_def) blast
  then have "keeps listing run live k (dispatch_children n (next_offset level) m)"
    using Some by (intro keeps_dispatch_children [OF inv]) (simp_all add: loaded_count_def next_offset_def)
  then show ?thesis using Some keeps_quiet [OF inv same_core_refl] by (simp add: on_load_more_requested_def)
qed

lemma keeps_select_folder:
  assumes inv: "unit_inv listing (m, run, live, k)" and h: "um_provider m = Some h"
  shows "keeps listing run live k (select_folder folder m)"
proof -
  have core: "same_core m (m\<lparr>um_selected := Some (nd_ref folder)\<rparr>)" by (simp add: same_core_def)
  show ?thesis
    using keeps_children_requested [OF inv_core [OF inv core], of h folder] keeps_quiet [OF inv core, of "[]"]
      keeps_quiet [OF inv same_core_refl, of "[]"] h by (simp add: select_folder_def Let_def)
qed

lemma keeps_start_goto:
  assumes inv: "unit_inv listing (m, run, live, k)" and h: "um_provider m = Some h"
  shows "keeps listing run live k (start_goto goto m)"
  unfolding keeps_def start_goto_def take_request_def
  by (simp add: h Let_def)
    (rule inv_issue [OF inv, where sl = GOTO_SLOT and c = "ResolveGoto (um_epoch m) (um_next_request m) h (gs_target goto)", of _ "{_}", simplified],
      simp_all add: h)

lemma keeps_unit_open:
  assumes inv: "unit_inv listing (m, run, live, k)"
  shows "keeps listing run live k (Inr (on_unit_open_requested n purpose m))"
proof (cases "um_provider m")
  case None
  then show ?thesis using keeps_quiet [OF inv same_core_refl, of "[]"] by (simp add: on_unit_open_requested_def)
next
  case (Some h)
  show ?thesis
    unfolding keeps_def on_unit_open_requested_def take_request_def
    by (simp add: Some Let_def)
      (rule inv_issue [OF inv, where sl = UNIT_OPEN_SLOT and c = "OpenUnit (um_epoch m) (um_next_request m) h n purpose", of _ "{_}", simplified],
        simp_all add: Some)
qed

lemma keeps_detail:
  assumes inv: "unit_inv listing (m, run, live, k)"
  shows "keeps listing run live k (Inr (on_detail_requested n m))"
proof -
  obtain m' cmds where x: "on_detail_requested n m = (m', cmds)" by (cases "on_detail_requested n m")
  define c where "c = (case um_provider m of
      Some h \<Rightarrow> if nd_is_leaf n then LoadPreview (um_epoch m) (um_next_request m) h n PREVIEW_READ_LIMIT
        else LoadListOverview (um_epoch m) (um_next_request m) h n LIST_OVERVIEW_ITEM_CAP PREVIEW_READ_LIMIT LIST_OVERVIEW_MAX_CONCURRENT
    | None \<Rightarrow> CancelDetailFetch)"
  have "unit_inv listing (m', run \<union> workers cmds, live, k)"
    by (rule inv_issue [OF inv, where sl = DETAIL_SLOT and c = c])
      (use x in \<open>auto simp: on_detail_requested_def take_request_def Let_def c_def split: option.splits if_splits\<close>)
  then show ?thesis by (auto simp: keeps_def x)
qed

lemma keeps_root_requested:
  assumes inv: "unit_inv listing (m, run, live, k)"
  shows "keeps listing run live k (Inr (on_root_requested invalidate force_raw m))"
proof -
  let ?x = "on_root_requested invalidate force_raw m"
  have model: "um_epoch (fst ?x) = Suc (um_epoch m)" "um_next_request (fst ?x) = Suc (um_next_request m)" "um_provider (fst ?x) = None"
    "um_inflight (fst ?x) = [PROVIDER_SLOT \<mapsto> um_next_request m]" "um_loaded (fst ?x) = (\<lambda>_. None)"
    "um_node_index (fst ?x) = (\<lambda>_. None)" "um_pending (fst ?x) = {}"
    and workers: "workers (snd ?x) = {CloseProvider h |h. um_provider m = Some h} \<union>
      {LoadRoot (Suc (um_epoch m)) (um_next_request m) invalidate force_raw}"
    by (auto simp: on_root_requested_def take_request_def Let_def split: option.splits)
  have "live_ok (fst ?x) (run \<union> workers (snd ?x)) live k"
    using inv unfolding workers by (auto simp: unit_inv_def live_ok_def model)
  moreover have "requests_ok (fst ?x) (run \<union> workers (snd ?x))"
    using inv unfolding workers by (auto simp: unit_inv_def requests_ok_def model)
  moreover have "levels_ok listing (fst ?x) \<and> node_index_ok (fst ?x)"
    by (simp add: levels_ok_def node_index_ok_def has_pending_children_def model)
  ultimately show ?thesis by (simp add: keeps_pair unit_inv_def)
qed

lemma keeps_settings:
  assumes inv: "unit_inv listing (m, run, live, k)"
  shows "keeps listing run live k (unit_update m (FilterOpened ref))" "keeps listing run live k (unit_update m (FilterTextChanged t))"
    "keeps listing run live k (unit_update m FilterClosed)" "keeps listing run live k (unit_update m (VerboseSet v))"
  by (simp_all split del: if_split) (rule keeps_quiet [OF inv]; simp add: same_core_def split: option.split)+

lemma keeps_user:
  assumes inv: "unit_inv listing (m, run, live, k)" and h: "um_provider m = Some h" and msg: "user_msg msg"
  shows "keeps listing run live k (unit_update m msg)"
proof (cases msg)
  case (GotoRequested target)
  then show ?thesis using keeps_start_goto [OF inv h] by (simp add: on_goto_requested_def h Let_def)
qed (use msg inv h keeps_settings keeps_root_requested keeps_children_requested keeps_load_more keeps_unit_open keeps_detail
  keeps_select_folder in \<open>simp_all split del: if_split\<close>)

text \<open>Without a provider the same holds, but for the one assertion of the handlers that a user's message reaches.\<close>

lemma no_provider:
  assumes "unit_inv listing (m, run, live, k)" and "um_provider m = None"
  shows "um_loaded m ref = None" and "\<not> has_pending_children m ref"
  using assms by (auto simp: unit_inv_def levels_ok_def)

definition asserts :: "'h unit_model \<Rightarrow> 'h unit_msg \<Rightarrow> bool" where
  "asserts m msg \<longleftrightarrow> um_provider m = None \<and>
     ((\<exists>n. msg = ChildrenRequested n) \<or> (\<exists>n. msg = FolderSelected n \<and> nd_role n = FlatCategory))"

lemma update_asserts:
  assumes "unit_inv listing (m, run, live, k)" and "asserts m msg"
  shows "unit_update m msg = Inl PyAssertionError"
  using assms(2) no_provider [OF assms(1)]
  by (auto simp: asserts_def on_children_requested_def dispatch_children_def take_request_def select_folder_def has_pending_children_def Let_def)

lemma keeps_user_unloaded:
  assumes inv: "unit_inv listing (m, run, live, k)" and none: "um_provider m = None" and msg: "user_msg msg" "\<not> asserts m msg"
  shows "keeps listing run live k (unit_update m msg)"
proof (cases msg)
  case (GotoRequested target)
  then show ?thesis using keeps_quiet [OF inv, of _ "[]"] by (simp add: on_goto_requested_def none same_core_def)
next
  case (FolderSelected n)
  then have "nd_role n \<noteq> FlatCategory" using msg none by (auto simp: asserts_def)
  then show ?thesis using FolderSelected keeps_quiet [OF inv, of _ "[]"] by (simp add: select_folder_def same_core_def)
qed (use msg inv none keeps_settings keeps_root_requested keeps_load_more keeps_unit_open keeps_detail in \<open>simp_all add: asserts_def split del: if_split\<close>)

text \<open>The answers of the workers.\<close>

lemma keeps_children_success:
  assumes inv: "unit_inv listing (m, run, live, k)" and c: "LoadChildren e r h n offset limit \<in> run"
    and page: "page = take limit (drop offset (listing h (nd_ref n)))"
  shows "keeps listing (run - {LoadChildren e r h n offset limit}) live k
    (unit_update m (children_success e r (nd_ref n) offset limit page))"
proof (cases "e = um_epoch m \<and> um_inflight m (children_slot (nd_ref n)) = Some r")
  case True
  then have fresh: "\<not> is_stale (um_epoch m) (um_inflight m) (children_slot (nd_ref n)) e r"
    and slot: "um_inflight m (children_slot (nd_ref n)) = Some r" by (auto simp: is_stale_def)
  have count: "offset = loaded_count m (nd_ref n)" using current_load [OF inv c] True by simp
  have first: "(case um_loaded m (nd_ref n) of Some l \<Rightarrow> ll_children l | None \<Rightarrow> []) = []" if "offset = 0"
    using count that by (auto simp: loaded_count_def split: option.splits)
  note put = inv_page [OF inv, of _ r h n offset limit page, OF _ c _ page]
  show ?thesis
  proof (cases "offset = 0")
    case True
    have "unit_inv listing (on_children_loaded e r (nd_ref n) page (length page < limit) m, run - {LoadChildren e r h n offset limit}, live, k)"
      using \<open>e = um_epoch m \<and> _\<close> fresh slot first [OF True] by (intro put) (simp_all add: on_children_loaded_def)
    then show ?thesis using True by (simp add: keeps_def children_success_def Let_def)
  next
    case False
    have "unit_inv listing (fst (on_more_children_loaded e r (nd_ref n) page (length page < limit) m), run - {LoadChildren e r h n offset limit}, live, k)"
      using \<open>e = um_epoch m \<and> _\<close> fresh slot by (intro put) (simp_all add: on_more_children_loaded_def Let_def)
    moreover have "workers (snd (on_more_children_loaded e r (nd_ref n) page (length page < limit) m)) = {}"
      using fresh by (simp add: on_more_children_loaded_def Let_def)
    ultimately show ?thesis using False by (simp add: keeps_pair children_success_def Let_def)
  qed
next
  case False
  then have "is_stale (um_epoch m) (um_inflight m) (children_slot (nd_ref n)) e r" by (auto simp: is_stale_def)
  then have "unit_update m (children_success e r (nd_ref n) offset limit page) = Inr (m, [])"
    by (simp add: children_success_def on_children_loaded_def on_more_children_loaded_def Let_def)
  then show ?thesis using inv_remove [OF inv, of "LoadChildren e r h n offset limit"] by (simp add: keeps_def)
qed

lemma keeps_children_failure:
  assumes inv: "unit_inv listing (m, run, live, k)"
  shows "keeps listing run live k (unit_update m (children_failure e r ref offset message))"
proof -
  have "same_core m (on_children_load_failed e r ref message m)" by (auto simp: on_children_load_failed_def same_core_def)
  moreover have "same_core m (m\<lparr>um_pending := um_pending m - {children_slot ref}\<rparr>)" by (auto simp: same_core_def)
  ultimately show ?thesis
    using keeps_quiet [OF inv] keeps_quiet [OF inv same_core_refl] by (simp add: children_failure_def)
qed

lemma goto_steps_set: "(ref, c) \<in> set (goto_steps chain steps) \<Longrightarrow> \<exists>(n, d) \<in> set (zip chain steps). ref = nd_ref n \<and> c = d"
proof -
  have "(ref, c) \<in> set (fold (\<lambda>(step, children). AList.update (nd_ref step) children) zs acc) \<Longrightarrow>
      (ref, c) \<in> set acc \<or> (\<exists>(n, d) \<in> set zs. ref = nd_ref n \<and> c = d)" for zs acc
  proof (induction zs arbitrary: acc)
    case (Cons z zs)
    have "(ref, c) \<in> set (AList.update k v al) \<Longrightarrow> (ref, c) \<in> set al \<or> (ref = k \<and> c = v)" for k v and al :: "(node_ref \<times> 'a node list) list"
      by (induction al) (auto split: if_splits)
    then show ?case using Cons by (cases z) fastforce
  qed simp
  then show "(ref, c) \<in> set (goto_steps chain steps) \<Longrightarrow> \<exists>(n, d) \<in> set (zip chain steps). ref = nd_ref n \<and> c = d"
    unfolding goto_steps_def by fastforce
qed

lemma goto_steps_distinct: "distinct (map fst (goto_steps chain steps))"
proof -
  have "distinct (map fst acc) \<Longrightarrow> distinct (map fst (fold (\<lambda>(step, children). AList.update (nd_ref step) children) zs acc))" for zs acc
    by (induction zs arbitrary: acc) (auto simp: distinct_update split: prod.splits)
  from this [of "[]"] show ?thesis by (simp add: goto_steps_def)
qed

lemma inv_steps:
  assumes inv: "unit_inv listing (m, run, live, k)" and h: "um_provider m = Some h"
    and steps: "\<And>ref c. (ref, c) \<in> set steps \<Longrightarrow> c = listing h ref" and distinct: "distinct (map fst steps)"
  shows "unit_inv listing (install_steps steps m, run, live, k)"
proof -
  let ?m = "install_steps steps m"
  have new: "map_of (map (\<lambda>(ref, c). (ref, \<lparr>ll_children = c, ll_exhausted = True\<rparr>)) steps) ref =
      map_option (\<lambda>c. \<lparr>ll_children = c, ll_exhausted = True\<rparr>) (map_of steps ref)" for ref
    by (induction steps) auto
  have at: "um_loaded ?m ref = (case map_of steps ref of Some c \<Rightarrow> Some \<lparr>ll_children = c, ll_exhausted = True\<rparr> | None \<Rightarrow> um_loaded m ref)" for ref
    by (simp add: install_steps_def Let_def new map_add_def split: option.split)
  have whole: "c = listing h ref" if "map_of steps ref = Some c" for ref c
    using steps map_of_SomeD [OF that] by blast
  have old: "prefix (ll_children l) (listing h ref)" if "um_loaded m ref = Some l" for ref l
    using inv that h by (auto simp: unit_inv_def levels_ok_def level_ok_def)
  show ?thesis
  proof (rule inv_install [OF inv h])
    show "um_inflight m sl = Some r" if "um_inflight ?m sl = Some r" for sl r
      using that by (auto simp: install_steps_def Let_def split: if_splits)
    show "um_loaded m ref = Some l \<or> level_ok (listing h ref) l" if "um_loaded ?m ref = Some l" for ref l
      using that whole by (auto simp: at level_ok_def split: option.splits)
    show "um_loaded ?m ref = um_loaded m ref" if "um_inflight ?m (children_slot ref) = Some (cmd_request c)" for ref c
    proof -
      have "ref \<notin> fst ` set steps" using that by (auto simp: install_steps_def Let_def split: if_splits)
      then show ?thesis by (simp add: at map_of_eq_None_iff [THEN iffD2])
    qed
    show "node_index_ok ?m"
    proof (rule index_installed [of m _ "concat (map snd steps)"])
      show "node_index_ok m" using inv by (simp add: unit_inv_def)
      show "\<exists>r l. um_loaded ?m r = Some l \<and> n \<in> set (ll_children l)" if "n \<in> set (concat (map snd steps))" for n
      proof -
        from that obtain ref c where "(ref, c) \<in> set steps" "n \<in> set c" by auto
        then have "um_loaded ?m ref = Some \<lparr>ll_children = c, ll_exhausted = True\<rparr>" using distinct by (simp add: at map_of_eq_Some_iff)
        then show ?thesis using \<open>n \<in> set c\<close> by (intro exI [of _ ref]) simp
      qed
      show "\<exists>r l. um_loaded ?m r = Some l \<and> n \<in> set (ll_children l)" if l: "um_loaded m r = Some l" "n \<in> set (ll_children l)" for r l n
        using whole [of r] set_mono_prefix [OF old [OF l(1)]] l by (intro exI [of _ r]) (auto simp: at split: option.split)
      show "n \<in> set (concat (map snd steps)) \<or> (\<exists>r l. um_loaded m r = Some l \<and> n \<in> set (ll_children l))"
        if "um_loaded ?m r = Some l" "n \<in> set (ll_children l)" for r l n
        using that by (force simp: at split: option.splits dest: map_of_SomeD)
    qed (simp add: install_steps_def Let_def)
  qed (simp_all add: install_steps_def Let_def)
qed

lemma keeps_bind:
  assumes "keeps listing run live k x" and "\<And>m cmds. unit_inv listing (m, run \<union> workers cmds, live, k) \<Longrightarrow> x = Inr (m, cmds) \<Longrightarrow>
    keeps listing (run \<union> workers cmds) live k (Inr (f m))"
  shows "keeps listing run live k (bind_res x (\<lambda>(m, cmds). case f m of (m, more_cmds) \<Rightarrow> Inr (m, cmds @ more_cmds)))"
proof -
  obtain m cmds where x: "x = Inr (m, cmds)" "unit_inv listing (m, run \<union> workers cmds, live, k)" using assms(1) by (auto simp: keeps_def)
  then show ?thesis using assms(2) [OF x(2,1)] by (cases "f m") (simp add: keeps_def Un_assoc)
qed

lemma keeps_goto_resolved:
  assumes inv: "unit_inv listing (m, run, live, k)" and c: "ResolveGoto e r h target \<in> run"
    and lists: "provider_lists (prov h) (listing h)" and found: "find_path_with_children (prov h) target = Some (Inr (Some (chain, steps)))"
  shows "keeps listing (run - {ResolveGoto e r h target}) live k (unit_update m (GotoResolved e r chain steps))"
proof (cases "is_stale (um_epoch m) (um_inflight m) GOTO_SLOT e r")
  case True
  then show ?thesis
    using inv_remove [OF inv, of "ResolveGoto e r h target"] by (simp add: on_goto_resolved_def keeps_def)
next
  case False
  let ?run = "run - {ResolveGoto e r h target}"
  have "e = um_epoch m" using False by (simp add: not_stale)
  then have h: "um_provider m = Some h" using current_load [OF inv c] by simp
  have chain: "chain \<noteq> []" and steps: "steps = map (\<lambda>n. listing h (nd_ref n)) (butlast chain)"
    using found_lists [OF lists found] by blast+
  have "c = listing h ref" if step: "(ref, c) \<in> set (goto_steps chain steps)" for ref c
  proof -
    obtain n d where "(n, d) \<in> set (zip chain steps)" "ref = nd_ref n" "c = d" using goto_steps_set [OF step] by auto
    then show ?thesis by (auto simp: steps in_set_zip nth_butlast)
  qed
  then have installed: "unit_inv listing (install_steps (goto_steps chain steps) m, ?run, live, k)"
    using inv_remove [OF inv, of "ResolveGoto e r h target"] h goto_steps_distinct by (intro inv_steps [where h = h]) auto
  have landed: "unit_inv listing ((install_steps (goto_steps chain steps) m)\<lparr>um_landing := l\<rparr>, ?run, live, k)" for l
    by (rule inv_core [OF installed]) (simp add: same_core_def)
  have provider: "um_provider ((install_steps (goto_steps chain steps) m)\<lparr>um_landing := l\<rparr>) = Some h" for l
    by (simp add: install_steps_def Let_def h)
  show ?thesis
    unfolding unit_update.simps on_goto_resolved_def Let_def
    using False chain by (simp only: if_False) (intro keeps_bind keeps_select_folder [OF landed provider] keeps_detail)
qed

lemma keeps_goto_ended:
  assumes inv: "unit_inv listing (m, run, live, k)" and "workers [c] = {}"
  shows "keeps listing run live k (Inr (goto_ended_unlanded r c m))"
  using assms(2) by (simp add: goto_ended_unlanded_def Let_def) (intro keeps_quiet [OF inv]; simp add: same_core_def)

lemma keeps_root_opened:
  assumes inv: "unit_inv listing (m, run, live, k)" and c: "LoadRoot e r i f \<in> run"
  shows "keeps listing (run - {LoadRoot e r i f}) (insert k live) (Suc k) (unit_update m (RootLoaded e r k root))"
proof -
  let ?run = "run - {LoadRoot e r i f}"
  have removed: "unit_inv listing (m, ?run, live, k)" by (rule inv_remove [OF inv]) simp
  have fresh: "k \<notin> live" "um_provider m \<noteq> Some k" "CloseProvider k \<notin> run"
    using inv by (auto simp: unit_inv_def live_ok_def)
  show ?thesis
  proof (cases "is_stale (um_epoch m) (um_inflight m) PROVIDER_SLOT e r")
    case True
    have "unit_inv listing (m, ?run \<union> {CloseProvider k}, insert k live, Suc k)"
      using removed fresh by (auto simp: unit_inv_def requests_ok_def live_ok_def less_Suc_eq)
    then show ?thesis using True by (simp add: on_root_loaded_def keeps_def)
  next
    case False
    then have current: "e = um_epoch m" "um_inflight m PROVIDER_SLOT = Some r" by (auto simp: not_stale)
    then have none: "um_provider m = None" using current_load [OF inv c] by simp
    let ?m = "m\<lparr>um_provider := Some k, um_root := Some root, um_root_error := None, um_selected := Some (nd_ref root)\<rparr>"
    have "\<not> (d \<in> ?run \<and> loads d \<and> cmd_epoch d = um_epoch m)" for d
    proof
      assume d: "d \<in> ?run \<and> loads d \<and> cmd_epoch d = um_epoch m"
      then have "current_ok m d" using current_load [OF inv] by auto
      then obtain r' i' f' where "d = LoadRoot (um_epoch m) r' i' f'" and "um_inflight m PROVIDER_SLOT = Some r'"
        using d none by (cases d) auto
      then have "cmd_request d = cmd_request (LoadRoot e r i f)" using current by simp
      then show False using other_request [OF inv c] d by auto
    qed
    then have "requests_ok ?m ?run" using removed by (auto simp: unit_inv_def requests_ok_def)
    moreover have "live_ok ?m ?run (insert k live) (Suc k)"
      using removed fresh none by (auto simp: unit_inv_def live_ok_def less_Suc_eq)
    moreover have "levels_ok listing ?m \<and> node_index_ok ?m"
      using removed none by (auto simp: unit_inv_def levels_ok_def node_index_ok_def)
    ultimately have opened: "unit_inv listing (?m, ?run, insert k live, Suc k)" by (simp add: unit_inv_def)
    show ?thesis
      using False keeps_quiet [OF opened same_core_refl, of "[]"] keeps_start_goto [OF opened, of k]
      by (simp add: on_root_loaded_def Let_def split: option.split)
  qed
qed

lemma keeps_answer:
  assumes inv: "unit_inv listing (m, run, live, k)" and lists: "\<forall>h. provider_lists (prov h) (listing h)"
    and c: "c \<in> run" and answer: "answers prov k c msg"
  shows "keeps listing (run - {c}) (live_after msg live) (next_after msg k) (unit_update m msg)"
proof -
  have removed: "unit_inv listing (m, run - {c}, live, k)" using answer by (intro inv_remove [OF inv]) (auto elim: answers.cases)
  note quiet = keeps_quiet [OF removed, of _ "[]"]
  show ?thesis
    using answer
  proof cases
    case (1 e r i f)
    then show ?thesis using keeps_root_opened [OF inv] c by simp
  next
    case (2 e r i f message)
    have "same_core m (if is_stale (um_epoch m) (um_inflight m) PROVIDER_SLOT e r then m else m\<lparr>um_root_error := Some message, um_goto := None\<rparr>)"
      by (simp add: same_core_def)
    then show ?thesis using quiet by (simp add: 2 split del: if_split)
  next
    case (3 h n offset limit children e r)
    show ?thesis using keeps_children_success [OF inv] c listed_page [OF lists [rule_format] 3(3)] by (simp add: 3(1,2))
  next
    case (4 h n offset limit err e r message)
    show ?thesis using keeps_children_failure [OF removed] by (simp add: 4(2))
  next
    case (5 e r h n limit body)
    have "same_core m (case um_detail m of None \<Rightarrow> m | Some d \<Rightarrow>
        if is_stale (um_epoch m) (um_inflight m) DETAIL_SLOT e r then m else m\<lparr>um_detail := Some \<lparr>ds_node = ds_node d, ds_body = body\<rparr>\<rparr>)"
      by (simp add: same_core_def split: option.split)
    then show ?thesis using quiet by (simp add: 5 split del: if_split)
  next
    case (6 e r h n cap limit concurrent body)
    have "same_core m (case um_detail m of None \<Rightarrow> m | Some d \<Rightarrow>
        if is_stale (um_epoch m) (um_inflight m) DETAIL_SLOT e r then m else m\<lparr>um_detail := Some \<lparr>ds_node = ds_node d, ds_body = body\<rparr>\<rparr>)"
      by (simp add: same_core_def split: option.split)
    then show ?thesis using quiet by (simp add: 6 split del: if_split)
  next
    case (7 h target chain steps e r)
    show ?thesis
      using keeps_goto_resolved [of listing m run live k e r h target prov chain steps] inv c lists 7(3) by (simp add: 7(1,2))
  next
    case (8 h target e r)
    show ?thesis using quiet [OF same_core_refl] keeps_goto_ended [OF removed] by (simp add: 8)
  next
    case (9 h target err e r message)
    show ?thesis using quiet [OF same_core_refl] keeps_goto_ended [OF removed] by (simp add: 9)
  next
    case (10 e r h n purpose u)
    show ?thesis using keeps_quiet [OF removed same_core_refl] by (simp add: 10)
  next
    case (11 e r h n purpose message)
    show ?thesis using keeps_quiet [OF removed same_core_refl] by (simp add: 11)
  qed
qed

lemma step_keeps:
  assumes "unit_step prov s s'" and "\<forall>h. provider_lists (prov h) (listing h)" and "unit_inv listing s"
  shows "unit_inv listing s'"
  using assms
proof cases
  case (user msg m m' cmds run live k)
  have inv: "unit_inv listing (m, run, live, k)" using assms(3) user by simp
  have "\<not> asserts m msg" using update_asserts [OF inv] user by force
  then have "keeps listing run live k (unit_update m msg)"
    using keeps_user [OF inv _ user(3)] keeps_user_unloaded [OF inv _ user(3)] by (cases "um_provider m") simp_all
  then show ?thesis using user by (simp add: keeps_def)
next
  case (answered c run k msg m m' cmds live)
  then show ?thesis using keeps_answer [of listing m run live k prov c msg] assms(2,3) by (simp add: keeps_def)
next
  case (answer_raised c run k msg m err live)
  then show ?thesis using keeps_answer [of listing m run live k prov c msg] assms(2,3) by (simp add: keeps_def)
next
  case (closed h run m live k)
  then show ?thesis using inv_closed assms(3) by blast
next
  case (cancelled c run m live k)
  then have "\<not> closes c" by (cases c) auto
  then show ?thesis using inv_remove assms(3) cancelled by blast
qed

lemma reachable_inv:
  assumes "unit_reachable prov s" and "\<forall>h. provider_lists (prov h) (listing h)"
  shows "unit_inv listing s"
  using assms(1) unfolding unit_reachable_def
  by (induction rule: rtranclp_induct) (auto intro: unit_inv_init step_keeps [OF _ assms(2)])

text \<open>C8.
  What the unit screen shows is what its provider holds, whatever the order in which the workers
  answer, fail or are cancelled and whatever the user does meanwhile. In every reachable state:
  every loaded level holds the first children of its node, in order and without a gap or a
  repetition, all of them once it is marked exhausted, and some if it is not; the node index
  holds exactly the references of the loaded children; the open providers are the current one
  and those about to be closed, so none is left open and none is closed twice; a worker whose
  answer will count reads the current provider; and \<open>update\<close> raises on no message a worker can end
  with, the \<open>RootLoaded\<close> of a provider just opened included (were it to raise, the provider would
  stay open in the system's next state).
  The listing of a provider is taken to be a function of the reference.
\<close>

theorem unit_screen_consistent:
  assumes "unit_reachable prov (m, run, live, k)" and "\<forall>h. provider_lists (prov h) (listing h)"
  shows "(\<forall>ref l. um_loaded m ref = Some l \<longrightarrow>
      (\<exists>h. um_provider m = Some h \<and> prefix (ll_children l) (listing h ref) \<and>
        (if ll_exhausted l then ll_children l = listing h ref else ll_children l \<noteq> []))) \<and>
    (\<forall>ref n. um_node_index m ref = Some n \<longrightarrow> nd_ref n = ref \<and> (\<exists>r l. um_loaded m r = Some l \<and> n \<in> set (ll_children l))) \<and>
    (\<forall>r l n. um_loaded m r = Some l \<and> n \<in> set (ll_children l) \<longrightarrow> um_node_index m (nd_ref n) \<noteq> None) \<and>
    live = set_option (um_provider m) \<union> {h. CloseProvider h \<in> run} \<and> (\<forall>h. CloseProvider h \<in> run \<longrightarrow> um_provider m \<noteq> Some h) \<and>
    (\<forall>c \<in> run. \<forall>h. loads c \<and> cmd_epoch c = um_epoch m \<and> cmd_provider c = Some h \<longrightarrow> um_provider m = Some h) \<and>
    (\<forall>c \<in> run. \<forall>msg. answers prov k c msg \<longrightarrow> (\<exists>x. unit_update m msg = Inr x))"
proof -
  have inv: "unit_inv listing (m, run, live, k)" using assms by (rule reachable_inv)
  have "um_provider m = Some h" if "c \<in> run" "loads c" "cmd_epoch c = um_epoch m" "cmd_provider c = Some h" for c h
    using current_load [OF inv that(1-3)] that(4) by (cases c) auto
  moreover have "\<exists>x. unit_update m msg = Inr x" if "c \<in> run" "answers prov k c msg" for c msg
    using keeps_answer [OF inv assms(2) that] by (auto simp: keeps_def)
  ultimately show ?thesis
    using inv by (simp add: unit_inv_def levels_ok_def level_ok_def node_index_ok_def live_ok_def)
qed

text \<open>C37.
  The one way to make \<open>update\<close> of the unit screen raise is to expand a node, or select a flat
  category, while no provider is loaded: in every reachable state, a message of the user raises
  exactly then, and it raises the \<open>AssertionError\<close> of the handler that starts the fetch.
\<close>

theorem unit_update_raises:
  assumes "unit_reachable prov (m, run, live, k)" and "\<forall>h. provider_lists (prov h) (listing h)" and "user_msg msg"
  shows "unit_update m msg = Inl e \<longleftrightarrow>
    e = PyAssertionError \<and> um_provider m = None \<and>
    ((\<exists>n. msg = ChildrenRequested n) \<or> (\<exists>n. msg = FolderSelected n \<and> nd_role n = FlatCategory))"
proof -
  have inv: "unit_inv listing (m, run, live, k)" using assms(1,2) by (rule reachable_inv)
  show ?thesis
  proof (cases "asserts m msg")
    case True
    then show ?thesis using update_asserts [OF inv True] by (auto simp: asserts_def)
  next
    case False
    then have "keeps listing run live k (unit_update m msg)"
      using keeps_user [OF inv _ assms(3)] keeps_user_unloaded [OF inv _ assms(3)] by (cases "um_provider m") simp_all
    then show ?thesis using False by (auto simp: keeps_def asserts_def)
  qed
qed

subsection \<open>A sample session\<close>

definition sample_root :: "unit node" where
  "sample_root = \<lparr>nd_ref = ref_human ''repo'' [], nd_name = ''/'', nd_is_leaf = False, nd_kind = None, nd_role = OrdinaryRole, nd_handle = ()\<rparr>"

definition sample_leaf :: "unit node" where
  "sample_leaf = \<lparr>nd_ref = ref_human ''repo'' [''a''], nd_name = ''a'', nd_is_leaf = True, nd_kind = Some FileUnit, nd_role = OrdinaryRole, nd_handle = ()\<rparr>"

definition sample_children :: "node_ref \<Rightarrow> unit node list" where
  "sample_children ref = (if ref = nd_ref sample_root then [sample_leaf] else [])"

definition sample_provider :: "unit unit_provider" where
  "sample_provider =
     \<lparr>up_root = sample_root, up_children = (\<lambda>n offset limit. Inr (paginate (sample_children (nd_ref n)) offset limit)), up_lookup = None\<rparr>"

lemma sample_lists: "\<forall>h. provider_lists ((\<lambda>_. sample_provider) h) ((\<lambda>_. sample_children) h)"
  by (simp add: provider_lists_def sample_provider_def)

lemma sample_session:
  "\<exists>m. unit_reachable (\<lambda>_. sample_provider) (m, {}, {0}, 1) \<and> um_provider m = Some 0 \<and>
     um_loaded m (nd_ref sample_root) = Some \<lparr>ll_children = [sample_leaf], ll_exhausted = True\<rparr>"
proof -
  let ?step = "unit_step (\<lambda>_. sample_provider)"
  let ?load = "LoadRoot 1 1 False False :: unit unit_cmd" and ?open = "LoadChildren 1 2 0 sample_root 0 CHILDREN_PAGE_SIZE"
    and ?listed = "children_success 1 2 (nd_ref sample_root) 0 CHILDREN_PAGE_SIZE [sample_leaf] :: unit unit_msg"
  define m1 where "m1 = fst (on_root_requested False False (unit_model_init :: unit unit_model))"
  define m2 where "m2 = m1\<lparr>um_provider := Some 0, um_root := Some sample_root, um_root_error := None, um_selected := Some (nd_ref sample_root)\<rparr>"
  define m3 where "m3 = m2\<lparr>um_next_request := 3, um_inflight := (um_inflight m2)(children_slot (nd_ref sample_root) \<mapsto> 2),
    um_pending := {children_slot (nd_ref sample_root)}\<rparr>"
  define m4 where "m4 = on_children_loaded 1 2 (nd_ref sample_root) [sample_leaf] True m3"
  have requested: "on_root_requested False False unit_model_init = (m1, [?load])"
    by (simp add: m1_def on_root_requested_def take_request_def unit_model_init_def Let_def)
  have m1: "um_epoch m1 = 1" "um_inflight m1 = [PROVIDER_SLOT \<mapsto> 1]" "um_next_request m1 = 2" "um_goto m1 = None"
    "um_loaded m1 = (\<lambda>_. None)" "um_pending m1 = {}"
    by (simp_all add: m1_def on_root_requested_def take_request_def unit_model_init_def Let_def)
  have answer: "children_success 1 2 (nd_ref sample_root) 0 CHILDREN_PAGE_SIZE [sample_leaf] =
      ChildrenLoaded 1 2 (nd_ref sample_root) [sample_leaf] True"
    unfolding children_success_def CHILDREN_PAGE_SIZE_def Let_def by (simp only: list.size) simp
  have "?step (unit_model_init, {}, {}, 0) (m1, {} \<union> workers [?load], {}, 0)"
    by (rule unit_step.user [where msg = "RootRequested False False"]) (simp_all add: requested)
  moreover have "?step (m1, {?load}, {}, 0)
      (m2, {?load} - {?load} \<union> workers [], live_after (RootLoaded 1 1 0 sample_root) {}, next_after (RootLoaded 1 1 0 sample_root) 0)"
  proof (rule unit_step.answered)
    have "up_root sample_provider = sample_root" by (simp add: sample_provider_def)
    then show "answers (\<lambda>_. sample_provider) 0 ?load (RootLoaded 1 1 0 sample_root)"
      using answers.intros(1) [of "\<lambda>_. sample_provider" 0 1 1 False False] by simp
    show "unit_update m1 (RootLoaded 1 1 0 sample_root) = Inr (m2, [])"
      by (simp add: on_root_loaded_def is_stale_def m1 m2_def Let_def)
  qed simp
  moreover have "?step (m2, {}, {0}, 1) (m3, {} \<union> workers [?open], {0}, 1)"
    by (rule unit_step.user [where msg = "ChildrenRequested sample_root"])
      (simp_all add: on_children_requested_def dispatch_children_def take_request_def has_pending_children_def m1 m2_def m3_def Let_def)
  moreover have "?step (m3, {?open}, {0}, 1) (m4, {?open} - {?open} \<union> workers [], live_after ?listed {0}, next_after ?listed 1)"
  proof (rule unit_step.answered)
    have "up_children sample_provider sample_root 0 (Some CHILDREN_PAGE_SIZE) = Inr [sample_leaf]"
      by (simp add: sample_provider_def sample_children_def paginate_def CHILDREN_PAGE_SIZE_def)
    then show "answers (\<lambda>_. sample_provider) 1 ?open (children_success 1 2 (nd_ref sample_root) 0 CHILDREN_PAGE_SIZE [sample_leaf])"
      by (rule answers.intros(3))
    show "unit_update m3 (children_success 1 2 (nd_ref sample_root) 0 CHILDREN_PAGE_SIZE [sample_leaf]) = Inr (m4, [])"
      by (simp only: answer unit_update.simps m4_def)
  qed simp
  ultimately have "unit_reachable (\<lambda>_. sample_provider) (m4, {}, {0}, 1)"
    unfolding unit_reachable_def by (simp add: converse_rtranclp_into_rtranclp)
  moreover have "um_provider m4 = Some 0 \<and> um_loaded m4 (nd_ref sample_root) = Some \<lparr>ll_children = [sample_leaf], ll_exhausted = True\<rparr>"
    by (simp add: m4_def on_children_loaded_def is_stale_def m3_def m2_def m1)
  ultimately show ?thesis by blast
qed

lemma unit_screen_consistent_witness:
  "\<exists>m. unit_reachable (\<lambda>_. sample_provider) (m, {}, {0}, 1) \<and> um_node_index m (nd_ref sample_leaf) \<noteq> None \<and>
     um_loaded m (nd_ref sample_root) \<noteq> None"
proof -
  obtain m where m: "unit_reachable (\<lambda>_. sample_provider) (m, {}, {0}, 1)"
      "um_loaded m (nd_ref sample_root) = Some \<lparr>ll_children = [sample_leaf], ll_exhausted = True\<rparr>"
    using sample_session by blast
  have "\<forall>r l n. um_loaded m r = Some l \<and> n \<in> set (ll_children l) \<longrightarrow> um_node_index m (nd_ref n) \<noteq> None"
    using unit_screen_consistent [OF m(1) sample_lists] by (elim conjE)
  then have "um_node_index m (nd_ref sample_leaf) \<noteq> None" using m(2) by force
  then show ?thesis using m by blast
qed

lemma unit_update_raises_witness:
  "unit_update unit_model_init (ChildrenRequested sample_root) = Inl PyAssertionError"
  using unit_update_raises [OF _ sample_lists, of unit_model_init "{}" "{}" 0 "ChildrenRequested sample_root" PyAssertionError]
  by (simp add: unit_reachable_def unit_model_init_def)

end
