(* ===== verification/Spec2Isabelle.thy ===== *)
theory Spec2Isabelle
  imports Bucket Redundancy RepoFiles CompRecord DedupFile Crypto BucketReader Fingerprint PoolRead Exporting SinkStates ZipSink VmdkExport ExportJobs FileMapTree UnitBrowse
begin

text \<open>
  The reading and exporting core of the Synology ActiveProtect repository SDK
  (\<open>packages/synology-apm-repo-sdk/src/synology_apm_repo/sdk\<close>, written \<open>sdk\<close> below).

  \<^bold>\<open>The program.\<close> A backup repository is a directory tree of fixed-layout files. A backed-up
  object is a stream of 4096-byte chunks. Its \<^emph>\<open>chunk map\<close> lists, in logical order, which chunk
  of which bucket every part of the stream is; holes are not listed. Chunk maps of a session lie one
  after the other in a composition, cut into sub-files of 16 MiB. The chunks themselves lie
  compressed, and encrypted when the repository has a key, in buckets whose index gives each
  chunk's place and length; CRC stores and rolling-checkpoint redundancy let a damaged file be
  detected and repaired. The SDK opens the newest committed generation of every table, reads
  chunk maps through page caches, resolves chunk addresses through a pool of bucket
  readers with caches of its own, and exports a range of a stream to a destination in two
  passes: pass 1 plans which chunks of which bucket go where, pass 2 reads bucket by bucket
  and writes in physical order into a destination that takes writes at any offset.

  \<^bold>\<open>Common material.\<close>
  \<^item> \<open>Prelude\<close>: byte strings, Python slices, \<open>int.from_bytes\<close>, \<open>struct\<close> fields, and the
    list lemmas every component uses.
  \<^item> \<open>Errors\<close>: the exception classes of \<open>sdk/errors.py\<close> with their subclass relation, results
    (\<open>Inl\<close> an error, \<open>Inr\<close> a value) and generators (what was yielded, how it ended).
  \<^item> \<open>Text\<close>: the \<open>str\<close> operations the source uses.
  \<^item> \<open>StateRes\<close>, \<open>OpSpec\<close>: operations that keep state and may raise (\<open>op\<close>; an exception
    does not roll the state back) and the rules to reason about them (\<open>attains\<close>).

  \<^bold>\<open>Formats\<close> (\<open>sdk/format\<close>), every parser with its error branches.
  \<^item> \<open>Addressing\<close>: \<open>const.py\<close>, \<open>addressing.py\<close>: packed chunk addresses, paths of pool
    layers and compositions.
  \<^item> \<open>Headers\<close>: \<open>headers.py\<close>: CRC-32 and the 64-byte header shell. One corrupted byte is
    always detected.
  \<^item> \<open>ChunkMap\<close>, \<open>Extents\<close>: \<open>chunkmap.py\<close>, \<open>dedup/extent.py\<close>: chunk-map entries, pages,
    extents and the content they define.
  \<^item> \<open>Composition\<close>, \<open>Redundancy\<close>, \<open>Compression\<close>, \<open>Bucket\<close>, \<open>Crypto\<close>: the files of the
    same names. \<open>Bucket\<close> proves the column-wise SizeStore decoder equal to reading the packed
    15-bit records; \<open>Redundancy\<close> proves which damage \<open>attempt_repair\<close> undoes, and that it never
    returns anything but bytes of the expected CRC. \<open>Compression\<close> assumes of the Zstandard library
    what it documents of complete frames (\<open>zstd_documented\<close>); for a torn frame a single read may
    still succeed where the batched one raises, so reads and exports, which are batched, are
    exact for chunks whose ZSTD frames are complete (\<open>chunk_untorn\<close>).
  \<^item> \<open>RepoFiles\<close>: \<open>_util/jsonparse.py\<close>, \<open>repo_info.py\<close>, \<open>repo_transaction.py\<close> and
    \<open>storage/generations.py\<close>: which generation of a table is opened.

  \<^bold>\<open>Storage\<close> (\<open>sdk/storage\<close>, \<open>sdk/positional_io.py\<close>, \<open>sdk/asynccache.py\<close>).
  \<^item> \<open>Store\<close>: path joining and confinement, the local store, \<open>pread\<close> over an operating system
    that returns short reads (a parameter with the documented behaviour as hypothesis).
  \<^item> \<open>Listing\<close>: \<open>dircache.py\<close>, \<open>seqid.py\<close>: the newest copy of a file with sequence ids.
  \<^item> \<open>Cache\<close>: \<open>AsyncKeyedCache\<close> as a step relation (\<open>cstep\<close>) over the atomic parts of its
    coroutines between two \<open>await\<close>s. What the cache keeps is never older than the last
    invalidation of its key; the caller of a fetch, and those that joined it, get its value
    whenever it began. The invariants hold in every reachable state, so for every
    interleaving of any number of tasks; \<open>resolve_now\<close> is the run of one task alone, which the
    readers use.

  \<^bold>\<open>Reading\<close> (\<open>sdk/dedup\<close>).
  \<^item> \<open>SubFiles\<close>, \<open>CompRecord\<close>: \<open>composition_reader.py\<close>: a read across sub-files; the paged,
    cached, binary-searched record refines the plain array of entries.
  \<^item> \<open>Ranges\<close>, \<open>BucketReader\<close>: \<open>pool/_bucket_reader.py\<close>, \<open>redundancy_repair.py\<close>: opening,
    repairing and reading a bucket; merged batch reads return what single reads do, and raise
    what some single read raises, torn frames apart.
  \<^item> \<open>Fingerprint\<close>: \<open>fingerprint.py\<close>: the stored digest of a chunk.
  \<^item> \<open>Pool\<close>, \<open>PoolRead\<close>: \<open>pool/__init__.py\<close>: the pool with its caches. Locale
    \<open>chunk_source\<close> is what \<open>DedupFile\<close> relies on; \<open>PoolRead\<close> interprets it on the live pool in
    any reachable state of its caches.
  \<^item> \<open>DedupFile\<close>: \<open>dedup_file.py\<close>: reads and streams of a range.

  \<^bold>\<open>Exporting\<close> (\<open>sdk/dedup\<close>, \<open>sdk/api/export.py\<close>).
  \<^item> \<open>Plan\<close>: pass 1 of \<open>chunk_walk.py\<close>.
  \<^item> \<open>Sink\<close>: \<open>export_sink.py\<close>: the writer interface as the locales \<open>byte_target\<close> and
    \<open>export_writer\<close>, with \<open>painted\<close>: a destination of which a set of positions already holds its
    final bytes, in whatever order they were written.
  \<^item> \<open>MergeWrites\<close>, \<open>BlockReads\<close>, \<open>Export\<close>, \<open>ExportWalk\<close>: pass 2 of \<open>chunk_walk.py\<close> and
    \<open>export_scheduler.py\<close>, proved once inside the locales, for any writer that keeps the contract.
  \<^item> \<open>LocalSink\<close>: \<open>local_file_sink.py\<close>, \<open>local_file_io.py\<close>: staging, the writer thread with
    its bounded queue, commit and abort; the interpretation of \<open>export_writer\<close>.
  \<^item> \<open>Exporting\<close>: \<open>export_range\<close> and \<open>run_export\<close>, end to end.
  \<^item> \<open>SegmentBuffers\<close>: the shared slots of \<open>segment_buffers.py\<close>: which slot is free, which part of
    a slot was touched, and the zeroing of a slot that is given back.
  \<^item> \<open>BufferedSink\<close>: \<open>buffered_export_sink.py\<close>, the sink for destinations that must be written
    in order: segments are filled in slots while a flusher task hands completed ones to the
    \<open>create_destination\<close>, \<open>flush_segment\<close>, \<open>finalize_destination\<close> and \<open>discard_destination\<close> of a
    subclass (\<open>hooks\<close>). The flusher runs between the steps of the exporter by a schedule
    (\<open>bh_sched\<close>) every theorem quantifies over.
  \<^item> \<open>BufferedPipe\<close>, \<open>BufferedRun\<close>: the invariant \<open>pipe\<close> (slots partitioned between the free
    list, the segment being filled and the queue; segments flushed in their order, each once) and
    its preservation by every operation; the interpretation of \<open>export_writer\<close> on the writer of a
    segment; what \<open>commit\<close> and \<open>_abort\<close> leave, in terms of \<open>deliver\<close>, the sequential program that
    flushes one segment after the other.
  \<^item> \<open>SinkStates\<close>: the sink as a step relation (\<open>feeding\<close>); in every reachable state the next
    \<open>begin_segment\<close> comes back.
  \<^item> \<open>SegmentedExport\<close>: \<open>_export_segments\<close> and the segmented \<open>run_export\<close>, end to end: it
    refines \<open>deliver\<close>.
  \<^item> \<open>ZipSink\<close>: the sink of \<open>examples/export_disk_to_zip.py\<close>, an instance of the hooks.
  \<^item> \<open>VmdkSink\<close>, \<open>VmdkRead\<close>, \<open>VmdkExport\<close>: the streamOptimized VMDK sink of
    \<open>examples/hypervisor-restore/stream_vmdk.py\<close>; a reader of that format; what the sink emits
    reads back as the disk.

  \<^bold>\<open>Units\<close> (\<open>sdk/units\<close>).
  \<^item> \<open>NodeRefs\<close>: \<open>node_ref.py\<close>: the printable address of a node with its percent encoding and
    parser; printing and parsing are inverse.
  \<^item> \<open>Resolve\<close>: \<open>resolve.py\<close> over the vocabulary of \<open>base.py\<close>: the search for a reference, page
    by page and level by level. The locale \<open>unit_tree\<close> is the contract of a provider; under it the
    search returns and finds exactly what the tree holds.
  \<^item> \<open>FileMapTree\<close>: \<open>file_map_tree.py\<close>: the rows of the file map as such a tree, whatever path is
    looked up.

  \<^bold>\<open>The terminal browser's state\<close> (\<open>browser/core\<close>): pure updates of a model by messages, and the
  workers that run their commands.
  \<^item> \<open>BrowserKeys\<close>: \<open>keys.py\<close>, \<open>remote_data.py\<close>, \<open>notify.py\<close>: what the state models share.
  \<^item> \<open>ExportJobs\<close>: \<open>core/app\<close>: the queue of background exports, as a step relation of the model
    with the workers that run, each step labelled with its message: one job at a time, no request
    lost, every waiting export moves up with every end and so starts unless it is cancelled.
  \<^item> \<open>UnitModel\<close>, \<open>UnitBrowse\<close>: \<open>core/unit\<close> and the answers of \<open>runtime/unit_effects.py\<close>: the screen
    that browses one version over the providers and the search of \<open>Resolve\<close>. In every
    interleaving the levels shown are those of the provider, no worker's message makes \<open>update\<close>
    raise, and providers do not leak (a step in which \<open>update\<close> raises is part of the relation).

  \<^bold>\<open>Reading the model.\<close> Bytes are \<open>8 word list\<close>; sizes, ids and offsets are \<open>nat\<close>, or \<open>int\<close>
  where the code can see a negative one. Packed integers keep their width. Errors are classes
  without their messages. Third-party code is a parameter: the LZ4 and Zstandard codecs, AES,
  GCM, MD5 and SHA digests, \<open>json.loads\<close>, and the operating system's \<open>read\<close> and \<open>write\<close>, with
  their documented behaviour as hypotheses that the witnesses instantiate.

  \<^bold>\<open>Bounds and termination.\<close> Every loop is a total function, by structural recursion or with its
  termination proof: a system call that makes no progress ends \<open>pread_loop\<close> and raises in
  \<open>pwrite\<close>, as in the code. The one loop that may run for ever is \<open>plan_run\<close>, which yields empty
  plans without end when a window holds no entries: there the value is \<open>None\<close>, and the theorems
  about exports prove that it is not (\<open>make_tuning\<close> refuses such a window; the code's default is
  \<open>DEFAULT_WINDOW_ENTRIES\<close>); the writer thread's queue holds
  \<open>WRITER_QUEUE_SIZE = 8\<close> jobs, and the schedule of that thread is a parameter that every theorem
  quantifies over. \<open>await_slot\<close> is \<open>None\<close> where \<open>begin_segment\<close> would wait for ever;
  \<open>buffered_sink_live\<close> proves that it never does. The search of \<open>Resolve\<close> is recursion without
  end on a tree that is its own child, so its value is \<open>None\<close> there; the locale's laws exclude it
  and its lemmas prove the value is not. No fuel is used.

  \<^bold>\<open>Not modelled.\<close> Worker processes (\<open>export_workers.py\<close>, \<open>pool_descriptor.py\<close>, the
  descriptors of sinks and stores): they need operating-system processes; the serial path they
  are an optimisation of is. Bucket groups are read one after the other also where the code
  overlaps \<open>max_concurrent_reads\<close> of them, and the page locks of the composition reader become one
  task at a time. Cancellation and timeouts of \<open>asyncio\<close>. Hole punching and
  file-system hints, which do not change what a file reads as. Network stores (\<open>smb.py\<close>, \<open>s3.py\<close>,
  \<open>azure.py\<close>), SQLite access and what is built on its queries (\<open>catalog\<close>, the other providers of
  \<open>units\<close>): they drive third-party libraries and SQL. The command line, the screens and widgets
  of the terminal browser and the example scripts apart from their sinks: input and output over the
  SDK. \<open>PROJECT.json\<close> lists every part with its reason.
\<close>

end
